(* ===== verification/Firmware_Prelude.thy ===== *)
theory Firmware_Prelude
  imports Main "HOL-Library.Word" "HOL-Library.Multiset"
begin

text \<open>
  Shared vocabulary of the development: the machine types of the Cortex-M7 target (ILP32:
  \<open>UBaseType_t\<close>, \<open>TickType_t\<close>, \<open>size_t\<close> and pointers are 32 bits wide), the constants that
  \<open>FreeRTOSConfig.h\<close> and the port fix, and the generic lemmas on lists and words that the
  component theories use.
\<close>

unbundle bit_operations_syntax

type_synonym u8 = "8 word"
type_synonym u16 = "16 word"
type_synonym u32 = "32 word"
type_synonym tick = "32 word"

named_theorems kernel_simps \<open>unfolding rules of the primitive kernel operations\<close>

subsection \<open>Configuration constants\<close>

definition portMAX_DELAY :: tick where
  "portMAX_DELAY = 0xffffffff"

definition configMAX_PRIORITIES :: nat where
  "configMAX_PRIORITIES = 7"

lemma portMAX_DELAY_max [simp]: "v \<le> portMAX_DELAY"
proof -
  have "portMAX_DELAY = - 1" by (simp add: portMAX_DELAY_def)
  then show ?thesis by (metis word_order.extremum)
qed

lemma portMAX_DELAY_top: "portMAX_DELAY = - 1"
  by (simp add: portMAX_DELAY_def)

subsection \<open>Lists\<close>

lemma takeWhile_dropWhile_append: "takeWhile P xs @ dropWhile P xs = xs"
  by simp

lemma set_takeWhile_insert [simp]:
  "set (takeWhile P xs @ x # dropWhile P xs) = insert x (set xs)"
  by (metis Un_insert_right list.simps(15) set_append takeWhile_dropWhile_id)

lemma sorted_takeWhile_insert:
  assumes "sorted (map f xs)"
  shows "sorted (map f (takeWhile (\<lambda>y. f y \<le> f x) xs @ x # dropWhile (\<lambda>y. f y \<le> f x) xs))"
  using assms
proof (induction xs)
  case Nil
  then show ?case by simp
next
  case (Cons y ys)
  show ?case
  proof (cases "f y \<le> f x")
    case True
    have "\<forall>z \<in> set (takeWhile (\<lambda>y. f y \<le> f x) ys @ x # dropWhile (\<lambda>y. f y \<le> f x) ys). f y \<le> f z"
      using True Cons.prems by (simp only: set_takeWhile_insert) simp
    with True Cons show ?thesis by auto
  next
    case False
    with Cons.prems show ?thesis by auto
  qed
qed

lemma distinct_takeWhile_insert:
  "distinct (takeWhile P xs @ x # dropWhile P xs) \<longleftrightarrow> distinct xs \<and> x \<notin> set xs"
proof -
  have "mset (takeWhile P xs @ x # dropWhile P xs) = mset (x # xs)"
    by (metis mset.simps(2) mset_append takeWhile_dropWhile_id union_mset_add_mset_right)
  then have "distinct (takeWhile P xs @ x # dropWhile P xs) \<longleftrightarrow> distinct (x # xs)"
    by (metis mset_eq_imp_distinct_iff)
  then show ?thesis by auto
qed

lemma length_takeWhile_insert [simp]:
  "length (takeWhile P xs @ x # dropWhile P xs) = Suc (length xs)"
  by (metis length_append length_Cons add_Suc_right takeWhile_dropWhile_id)

lemma mset_takeWhile_insert [simp]:
  "mset (takeWhile P xs @ x # dropWhile P xs) = add_mset x (mset xs)"
  by (metis mset.simps(2) mset_append takeWhile_dropWhile_id union_mset_add_mset_right)

lemma sorted_remove1_map: "sorted (map f xs) \<Longrightarrow> sorted (map f (remove1 x xs))"
  by (induction xs) (auto dest: notin_set_remove1)

lemma split_list_distinct:
  assumes "x \<in> set xs" "distinct xs"
  obtains ys zs where "xs = ys @ x # zs" "x \<notin> set ys" "x \<notin> set zs"
  using assms by (metis distinct.simps(2) distinct_append not_distinct_conv_prefix split_list_first Un_iff set_append)

subsection \<open>Words\<close>

lemma unat_of_nat32: "n < 2 ^ 32 \<Longrightarrow> unat (of_nat n :: u32) = n"
  by (simp add: unsigned_of_nat take_bit_nat_eq_self)

lemma word_le_less_eq32: "(x::u32) \<le> y \<longleftrightarrow> x < y \<or> x = y"
  by auto

lemma word_not_less_iff32: "\<not> (x::u32) < y \<longleftrightarrow> y \<le> x"
  by auto

lemma unat_plus_one: "x \<noteq> - 1 \<Longrightarrow> unat (x + 1) = Suc (unat (x::u32))"
  by (metis unatSuc add.commute add_eq_0_iff2 word_unat_eq_iff)

subsection \<open>Transition systems\<close>

text \<open>
  The pattern every state machine of the development follows: an invariant of the initial states
  that each step keeps holds in every reachable state.
\<close>

locale stepping =
  fixes init :: "'s \<Rightarrow> bool" and step :: "'s \<Rightarrow> 's \<Rightarrow> bool" and inv :: "'s \<Rightarrow> bool"
  assumes init_inv: "init s \<Longrightarrow> inv s"
    and step_inv: "inv s \<Longrightarrow> step s s' \<Longrightarrow> inv s'"
begin

lemma reachable_inv:
  assumes "step\<^sup>*\<^sup>* s s'" "init s" shows "inv s'"
  using assms by (induction rule: rtranclp_induct) (auto intro: init_inv step_inv)

end

end
