(* ===== verification/RtosList.thy ===== *)
theory RtosList
  imports Firmware_Prelude
begin

text \<open>
  The kernel's list type, \<open>lib/FreeRTOS/src/list.c\<close> with the access macros of
  \<open>include/list.h\<close>. Part one is the code itself: a memory of list items linked in both
  directions, with the end marker embedded in the list. Part two is the abstract list the rest
  of the kernel model uses: the sequence of items and the position of \<open>pxIndex\<close>. Part three
  proves that every operation on the memory implements the abstract one.
\<close>

subsection \<open>The code: doubly linked items in memory\<close>

text \<open>
  Items and lists are addresses. The fields of \<open>ListItem_t\<close> and \<open>List_t\<close> are functions of
  the address; \<open>NULL\<close> containers are \<open>None\<close>. The end marker sits eight bytes into the list,
  after \<open>uxNumberOfItems\<close> and \<open>pxIndex\<close>. The integrity-check and coverage macros are empty in
  this configuration.
\<close>

record list_mem =
  xItemValue :: "nat \<Rightarrow> tick"
  pxNext :: "nat \<Rightarrow> nat"
  pxPrevious :: "nat \<Rightarrow> nat"
  pvOwner :: "nat \<Rightarrow> nat"
  pxContainer :: "nat \<Rightarrow> nat option"
  uxNumberOfItems :: "nat \<Rightarrow> u32"
  pxIndex :: "nat \<Rightarrow> nat"

definition xListEnd :: "nat \<Rightarrow> nat" where
  "xListEnd pxList = pxList + 8"

definition set_pxNext :: "nat \<Rightarrow> nat \<Rightarrow> list_mem \<Rightarrow> list_mem" where
  "set_pxNext a b m = m\<lparr>pxNext := (pxNext m)(a := b)\<rparr>"

definition set_pxPrevious :: "nat \<Rightarrow> nat \<Rightarrow> list_mem \<Rightarrow> list_mem" where
  "set_pxPrevious a b m = m\<lparr>pxPrevious := (pxPrevious m)(a := b)\<rparr>"

definition set_pxContainer :: "nat \<Rightarrow> nat option \<Rightarrow> list_mem \<Rightarrow> list_mem" where
  "set_pxContainer a c m = m\<lparr>pxContainer := (pxContainer m)(a := c)\<rparr>"

definition set_pxIndex :: "nat \<Rightarrow> nat \<Rightarrow> list_mem \<Rightarrow> list_mem" where
  "set_pxIndex l a m = m\<lparr>pxIndex := (pxIndex m)(l := a)\<rparr>"

definition set_uxNumberOfItems :: "nat \<Rightarrow> u32 \<Rightarrow> list_mem \<Rightarrow> list_mem" where
  "set_uxNumberOfItems l n m = m\<lparr>uxNumberOfItems := (uxNumberOfItems m)(l := n)\<rparr>"

lemmas set_field_defs =
  set_pxNext_def set_pxPrevious_def set_pxContainer_def set_pxIndex_def set_uxNumberOfItems_def

definition vListInitialise :: "nat \<Rightarrow> list_mem \<Rightarrow> list_mem" where
  "vListInitialise pxList m =
     (let m = set_pxIndex pxList (xListEnd pxList) m;
          m = m\<lparr>xItemValue := (xItemValue m)(xListEnd pxList := portMAX_DELAY)\<rparr>;
          m = set_pxNext (xListEnd pxList) (xListEnd pxList) m;
          m = set_pxPrevious (xListEnd pxList) (xListEnd pxList) m
      in set_uxNumberOfItems pxList 0 m)"

definition vListInitialiseItem :: "nat \<Rightarrow> list_mem \<Rightarrow> list_mem" where
  "vListInitialiseItem pxItem m = set_pxContainer pxItem None m"

definition vListInsertEnd :: "nat \<Rightarrow> nat \<Rightarrow> list_mem \<Rightarrow> list_mem" where
  "vListInsertEnd pxList pxNewListItem m =
     (let idx = pxIndex m pxList;
          m = set_pxNext pxNewListItem idx m;
          m = set_pxPrevious pxNewListItem (pxPrevious m idx) m;
          m = set_pxNext (pxPrevious m idx) pxNewListItem m;
          m = set_pxPrevious idx pxNewListItem m;
          m = set_pxContainer pxNewListItem (Some pxList) m
      in set_uxNumberOfItems pxList (uxNumberOfItems m pxList + 1) m)"

text \<open>
  The search loop of \<open>vListInsert\<close>. It need not end in a memory that is no well-formed list,
  so the model returns an option, \<open>None\<close> meaning that the loop never ends.
\<close>

partial_function (option) vListInsert_find :: "list_mem \<Rightarrow> tick \<Rightarrow> nat \<Rightarrow> nat option" where
  "vListInsert_find m xValueOfInsertion pxIterator =
     (if xItemValue m (pxNext m pxIterator) \<le> xValueOfInsertion
      then vListInsert_find m xValueOfInsertion (pxNext m pxIterator)
      else Some pxIterator)"

definition vListInsert_link :: "nat \<Rightarrow> nat \<Rightarrow> nat \<Rightarrow> list_mem \<Rightarrow> list_mem" where
  "vListInsert_link pxList pxNewListItem pxIterator m =
     (let m = set_pxNext pxNewListItem (pxNext m pxIterator) m;
          m = set_pxPrevious (pxNext m pxNewListItem) pxNewListItem m;
          m = set_pxPrevious pxNewListItem pxIterator m;
          m = set_pxNext pxIterator pxNewListItem m;
          m = set_pxContainer pxNewListItem (Some pxList) m
      in set_uxNumberOfItems pxList (uxNumberOfItems m pxList + 1) m)"

definition vListInsert :: "nat \<Rightarrow> nat \<Rightarrow> list_mem \<Rightarrow> list_mem option" where
  "vListInsert pxList pxNewListItem m =
     (let xValueOfInsertion = xItemValue m pxNewListItem;
          it = (if xValueOfInsertion = portMAX_DELAY then Some (pxPrevious m (xListEnd pxList))
                else vListInsert_find m xValueOfInsertion (xListEnd pxList))
      in map_option (\<lambda>pxIterator. vListInsert_link pxList pxNewListItem pxIterator m) it)"

text \<open>\<open>uxListRemove\<close> of an item on no list dereferences \<open>NULL\<close>: the model returns \<open>None\<close>.\<close>

definition uxListRemove :: "nat \<Rightarrow> list_mem \<Rightarrow> (u32 \<times> list_mem) option" where
  "uxListRemove pxItemToRemove m =
     (case pxContainer m pxItemToRemove of
        None \<Rightarrow> None
      | Some pxList \<Rightarrow>
          (let m = set_pxPrevious (pxNext m pxItemToRemove) (pxPrevious m pxItemToRemove) m;
               m = set_pxNext (pxPrevious m pxItemToRemove) (pxNext m pxItemToRemove) m;
               m = (if pxIndex m pxList = pxItemToRemove
                    then set_pxIndex pxList (pxPrevious m pxItemToRemove) m else m);
               m = set_pxContainer pxItemToRemove None m;
               m = set_uxNumberOfItems pxList (uxNumberOfItems m pxList - 1) m
           in Some (uxNumberOfItems m pxList, m)))"

definition listGET_OWNER_OF_NEXT_ENTRY :: "nat \<Rightarrow> list_mem \<Rightarrow> nat \<times> list_mem" where
  "listGET_OWNER_OF_NEXT_ENTRY pxList m =
     (let m = set_pxIndex pxList (pxNext m (pxIndex m pxList)) m;
          m = (if pxIndex m pxList = xListEnd pxList
               then set_pxIndex pxList (pxNext m (pxIndex m pxList)) m else m)
      in (pvOwner m (pxIndex m pxList), m))"

definition listGET_HEAD_ENTRY :: "nat \<Rightarrow> list_mem \<Rightarrow> nat" where
  "listGET_HEAD_ENTRY pxList m = pxNext m (xListEnd pxList)"

definition listLIST_IS_EMPTY :: "nat \<Rightarrow> list_mem \<Rightarrow> bool" where
  "listLIST_IS_EMPTY pxList m \<longleftrightarrow> uxNumberOfItems m pxList = 0"

subsection \<open>The abstract list: a sequence and the position of the index\<close>

text \<open>\<open>xl_index\<close> is \<open>None\<close> when \<open>pxIndex\<close> points at the end marker.\<close>

record 'a xlist =
  xl_items :: "'a list"
  xl_index :: "'a option"

definition xl_empty :: "'a xlist" where
  "xl_empty = \<lparr>xl_items = [], xl_index = None\<rparr>"

definition xl_insert_end :: "'a \<Rightarrow> 'a xlist \<Rightarrow> 'a xlist" where
  "xl_insert_end x l =
     (case xl_index l of
        None \<Rightarrow> l\<lparr>xl_items := xl_items l @ [x]\<rparr>
      | Some i \<Rightarrow> l\<lparr>xl_items := takeWhile (\<lambda>y. y \<noteq> i) (xl_items l) @ x # dropWhile (\<lambda>y. y \<noteq> i) (xl_items l)\<rparr>)"

definition xl_insert :: "('a \<Rightarrow> tick) \<Rightarrow> 'a \<Rightarrow> 'a xlist \<Rightarrow> 'a xlist" where
  "xl_insert val x l =
     l\<lparr>xl_items := takeWhile (\<lambda>y. val y \<le> val x) (xl_items l) @ x #
                   dropWhile (\<lambda>y. val y \<le> val x) (xl_items l)\<rparr>"

definition xl_pred :: "'a \<Rightarrow> 'a list \<Rightarrow> 'a option" where
  "xl_pred x xs = (case takeWhile (\<lambda>y. y \<noteq> x) xs of [] \<Rightarrow> None | ys \<Rightarrow> Some (last ys))"

definition xl_remove :: "'a \<Rightarrow> 'a xlist \<Rightarrow> 'a xlist" where
  "xl_remove x l =
     \<lparr>xl_items = remove1 x (xl_items l),
      xl_index = (if xl_index l = Some x then xl_pred x (xl_items l) else xl_index l)\<rparr>"

definition xl_head :: "'a xlist \<Rightarrow> 'a option" where
  "xl_head l = (case xl_items l of [] \<Rightarrow> None | x # _ \<Rightarrow> Some x)"

definition xl_succ :: "'a option \<Rightarrow> 'a list \<Rightarrow> 'a option" where
  "xl_succ i xs =
     (case i of
        None \<Rightarrow> (case xs of [] \<Rightarrow> None | x # _ \<Rightarrow> Some x)
      | Some x \<Rightarrow> (case dropWhile (\<lambda>y. y \<noteq> x) xs of _ # y # _ \<Rightarrow> Some y | _ \<Rightarrow> None))"

definition xl_advance :: "'a xlist \<Rightarrow> 'a xlist" where
  "xl_advance l =
     (let i = xl_succ (xl_index l) (xl_items l);
          i = (if i = None then xl_succ None (xl_items l) else i)
      in l\<lparr>xl_index := i\<rparr>)"

definition xl_wf :: "'a xlist \<Rightarrow> bool" where
  "xl_wf l \<longleftrightarrow> distinct (xl_items l) \<and> (\<forall>i. xl_index l = Some i \<longrightarrow> i \<in> set (xl_items l))"

subsection \<open>Laws of the abstract list\<close>

lemma xl_wf_empty [simp]: "xl_wf xl_empty"
  by (simp add: xl_wf_def xl_empty_def)

lemma xl_items_empty [simp]: "xl_items xl_empty = []"
  by (simp add: xl_empty_def)

lemma set_xl_insert_end [simp]: "set (xl_items (xl_insert_end x l)) = insert x (set (xl_items l))"
proof (cases "xl_index l")
  case (Some i)
  then show ?thesis by (simp add: xl_insert_end_def del: set_append list.set)
qed (simp add: xl_insert_end_def)

lemma set_xl_insert [simp]: "set (xl_items (xl_insert val x l)) = insert x (set (xl_items l))"
  by (simp add: xl_insert_def del: set_append list.set)

lemma set_xl_remove: "xl_wf l \<Longrightarrow> set (xl_items (xl_remove x l)) = set (xl_items l) - {x}"
  by (simp add: xl_remove_def xl_wf_def)

lemma length_xl_insert [simp]: "length (xl_items (xl_insert val x l)) = Suc (length (xl_items l))"
  by (simp add: xl_insert_def del: length_append list.size)

lemma length_xl_insert_end [simp]:
  "length (xl_items (xl_insert_end x l)) = Suc (length (xl_items l))"
  by (simp add: xl_insert_end_def del: length_append list.size split: option.split) simp

lemma length_xl_remove: "x \<in> set (xl_items l) \<Longrightarrow> length (xl_items (xl_remove x l)) = length (xl_items l) - 1"
  by (simp add: xl_remove_def length_remove1)

lemma xl_pred_in: "xl_pred x xs = Some y \<Longrightarrow> y \<in> set xs \<and> y \<noteq> x"
proof -
  assume a: "xl_pred x xs = Some y"
  then have "takeWhile (\<lambda>y. y \<noteq> x) xs \<noteq> []" and "y = last (takeWhile (\<lambda>y. y \<noteq> x) xs)"
    by (auto simp: xl_pred_def split: list.splits)
  then have "y \<in> set (takeWhile (\<lambda>y. y \<noteq> x) xs)" by simp
  then show ?thesis using set_takeWhileD by fastforce
qed

lemma xl_wf_insert_end: "xl_wf l \<Longrightarrow> x \<notin> set (xl_items l) \<Longrightarrow> xl_wf (xl_insert_end x l)"
proof (cases "xl_index l")
  case (Some i)
  moreover assume "xl_wf l" "x \<notin> set (xl_items l)"
  ultimately show ?thesis
    by (simp add: xl_wf_def xl_insert_end_def distinct_takeWhile_insert del: distinct_append set_append)
qed (simp add: xl_wf_def xl_insert_end_def)

lemma xl_wf_insert: "xl_wf l \<Longrightarrow> x \<notin> set (xl_items l) \<Longrightarrow> xl_wf (xl_insert val x l)"
  unfolding xl_wf_def
  by (simp add: xl_insert_def distinct_takeWhile_insert del: distinct_append set_append)

lemma xl_wf_remove: "xl_wf l \<Longrightarrow> xl_wf (xl_remove x l)"
  unfolding xl_wf_def by (auto simp: xl_remove_def dest: xl_pred_in)

lemma xl_index_insert [simp]: "xl_index (xl_insert val x l) = xl_index l"
  by (simp add: xl_insert_def)

lemma xl_index_insert_end [simp]: "xl_index (xl_insert_end x l) = xl_index l"
  by (simp add: xl_insert_end_def split: option.split)

lemma xl_items_advance [simp]: "xl_items (xl_advance l) = xl_items l"
  by (simp add: xl_advance_def Let_def)

lemma xl_succ_in: "xl_succ i xs = Some y \<Longrightarrow> y \<in> set xs"
  by (auto simp: xl_succ_def split: option.splits list.splits) (metis list.set_intros(1,2) set_dropWhileD)

lemma xl_wf_advance: "xl_wf l \<Longrightarrow> xl_wf (xl_advance l)"
  by (auto simp: xl_wf_def xl_advance_def Let_def dest: xl_succ_in split: if_splits)

lemma xl_advance_index:
  assumes "xl_items l \<noteq> []"
  obtains x where "xl_index (xl_advance l) = Some x" "x \<in> set (xl_items l)"
proof -
  from assms obtain h t where ht: "xl_items l = h # t" by (cases "xl_items l") auto
  show ?thesis
  proof (cases "xl_succ (xl_index l) (xl_items l)")
    case None
    with ht have "xl_index (xl_advance l) = Some h"
      by (simp add: xl_advance_def Let_def xl_succ_def)
    with ht that show ?thesis by simp
  next
    case (Some y)
    then have "xl_index (xl_advance l) = Some y" by (simp add: xl_advance_def Let_def)
    with Some that show ?thesis by (blast dest: xl_succ_in)
  qed
qed

lemma sorted_xl_insert:
  "sorted (map val (xl_items l)) \<Longrightarrow> sorted (map val (xl_items (xl_insert val x l)))"
  unfolding xl_insert_def using sorted_takeWhile_insert [of val] by simp

lemma sorted_xl_remove: "sorted (map val (xl_items l)) \<Longrightarrow> sorted (map val (xl_items (xl_remove x l)))"
  by (simp add: xl_remove_def sorted_remove1_map)

subsection \<open>The memory implements the abstract list\<close>

text \<open>
  \<open>dpath m a xs b\<close>: following \<open>pxNext\<close> from \<open>a\<close> meets the items \<open>xs\<close> and then \<open>b\<close>, and the
  \<open>pxPrevious\<close> links lead back the same way.
\<close>

fun dpath :: "list_mem \<Rightarrow> nat \<Rightarrow> nat list \<Rightarrow> nat \<Rightarrow> bool" where
  "dpath m a [] b \<longleftrightarrow> pxNext m a = b \<and> pxPrevious m b = a"
| "dpath m a (x # xs) b \<longleftrightarrow> pxNext m a = x \<and> pxPrevious m x = a \<and> dpath m x xs b"

definition list_rel :: "list_mem \<Rightarrow> nat \<Rightarrow> nat xlist \<Rightarrow> bool" where
  "list_rel m pxList l \<longleftrightarrow>
     dpath m (xListEnd pxList) (xl_items l) (xListEnd pxList) \<and>
     distinct (xListEnd pxList # xl_items l) \<and>
     xItemValue m (xListEnd pxList) = portMAX_DELAY \<and>
     length (xl_items l) < 2 ^ 32 \<and>
     uxNumberOfItems m pxList = of_nat (length (xl_items l)) \<and>
     pxIndex m pxList = (case xl_index l of None \<Rightarrow> xListEnd pxList | Some i \<Rightarrow> i) \<and>
     (\<forall>i. xl_index l = Some i \<longrightarrow> i \<in> set (xl_items l)) \<and>
     (\<forall>x \<in> set (xl_items l). pxContainer m x = Some pxList)"

lemma dpath_append: "dpath m a (xs @ x # ys) b \<longleftrightarrow> dpath m a xs x \<and> dpath m x ys b"
  by (induction xs arbitrary: a) auto

lemma dpath_cong:
  assumes "\<And>y. y \<in> set (a # xs) \<Longrightarrow> pxNext m' y = pxNext m y"
    and "\<And>y. y \<in> set (xs @ [b]) \<Longrightarrow> pxPrevious m' y = pxPrevious m y"
  shows "dpath m' a xs b \<longleftrightarrow> dpath m a xs b"
  using assms by (induction xs arbitrary: a) auto

lemma dpath_next: "dpath m e (ys @ zs) e \<Longrightarrow> pxNext m (last (e # ys)) = hd (zs @ [e])"
  by (induction ys arbitrary: e rule: rev_induct; cases zs)
    (auto simp: dpath_append)

lemma dpath_prev: "dpath m e (ys @ zs) e \<Longrightarrow> pxPrevious m (hd (zs @ [e])) = last (e # ys)"
  by (cases ys rule: rev_cases; cases zs) (auto simp: dpath_append)

lemma dpath_link:
  assumes "dpath m e (ys @ zs) e" "distinct (e # ys @ zs)" "x \<notin> set (e # ys @ zs)"
    and "pxNext m' = (pxNext m)(x := hd (zs @ [e]), last (e # ys) := x)"
    and "pxPrevious m' = (pxPrevious m)(hd (zs @ [e]) := x, x := last (e # ys))"
  shows "dpath m' e (ys @ x # zs) e"
proof -
  have "dpath m' e ys x"
  proof (cases ys rule: rev_cases)
    case Nil
    with assms show ?thesis by simp
  next
    case (snoc us p)
    with assms have "dpath m e us p" by (cases zs) (auto simp: dpath_append)
    moreover have "dpath m' e us p \<longleftrightarrow> dpath m e us p"
      by (rule dpath_cong) (use assms snoc in \<open>cases zs; auto\<close>)+
    ultimately show ?thesis using assms snoc by (simp add: dpath_append)
  qed
  moreover have "dpath m' x zs e"
  proof (cases zs)
    case Nil
    with assms show ?thesis by auto
  next
    case (Cons q ws)
    with assms have "dpath m q ws e" by (auto simp: dpath_append)
    moreover have "dpath m' q ws e \<longleftrightarrow> dpath m q ws e"
      by (rule dpath_cong) (use assms Cons in \<open>cases ys rule: rev_cases; auto\<close>)+
    ultimately show ?thesis using assms Cons by auto
  qed
  ultimately show ?thesis by (simp add: dpath_append)
qed

lemma dpath_unlink:
  assumes "dpath m e (ys @ x # zs) e" "distinct (e # ys @ x # zs)"
    and "pxNext m' = (pxNext m)(last (e # ys) := hd (zs @ [e]))"
    and "pxPrevious m' = (pxPrevious m)(hd (zs @ [e]) := last (e # ys))"
  shows "dpath m' e (ys @ zs) e"
proof (cases zs)
  case Nil
  show ?thesis
  proof (cases ys rule: rev_cases)
    case Nil
    with assms \<open>zs = []\<close> show ?thesis by simp
  next
    case (snoc us p)
    have "dpath m' e us p \<longleftrightarrow> dpath m e us p"
      by (rule dpath_cong) (use assms snoc Nil in auto)
    with assms snoc Nil show ?thesis by (auto simp: dpath_append)
  qed
next
  case (Cons q ws)
  have r: "dpath m' q ws e \<longleftrightarrow> dpath m q ws e"
    by (rule dpath_cong) (use assms Cons in \<open>cases ys rule: rev_cases; auto\<close>)+
  show ?thesis
  proof (cases ys rule: rev_cases)
    case Nil
    with assms Cons r show ?thesis by (auto simp: dpath_append)
  next
    case (snoc us p)
    have "dpath m' e us p \<longleftrightarrow> dpath m e us p"
      by (rule dpath_cong) (use assms snoc Cons in auto)
    with assms snoc Cons r show ?thesis by (auto simp: dpath_append)
  qed
qed


lemma list_rel_link:
  assumes "list_rel m L l" "xl_items l = ys @ zs" "x \<notin> set (xListEnd L # xl_items l)"
    and "Suc (length (xl_items l)) < 2 ^ 32"
    and "pxNext m' = (pxNext m)(x := hd (zs @ [xListEnd L]), last (xListEnd L # ys) := x)"
    and "pxPrevious m' = (pxPrevious m)(hd (zs @ [xListEnd L]) := x, x := last (xListEnd L # ys))"
    and "pxContainer m' = (pxContainer m)(x := Some L)"
    and "uxNumberOfItems m' = (uxNumberOfItems m)(L := uxNumberOfItems m L + 1)"
    and "xItemValue m' = xItemValue m" "pxIndex m' = pxIndex m"
  shows "list_rel m' L (l\<lparr>xl_items := ys @ x # zs\<rparr>)"
proof -
  have "dpath m' (xListEnd L) (ys @ x # zs) (xListEnd L)"
    by (rule dpath_link [of m]) (use assms in \<open>auto simp: list_rel_def\<close>)
  with assms show ?thesis by (auto simp: list_rel_def split: option.splits)
qed

lemma vListInitialise_rel: "list_rel (vListInitialise L m) L xl_empty"
  by (simp add: list_rel_def vListInitialise_def set_field_defs xl_empty_def)

lemma vListInsertEnd_rel:
  assumes "list_rel m L l" "x \<notin> set (xListEnd L # xl_items l)" "Suc (length (xl_items l)) < 2 ^ 32"
  shows "list_rel (vListInsertEnd L x m) L (xl_insert_end x l)"
proof -
  obtain ys zs where sp: "xl_items l = ys @ zs" "hd (zs @ [xListEnd L]) = pxIndex m L"
    "xl_insert_end x l = l\<lparr>xl_items := ys @ x # zs\<rparr>"
  proof (cases "xl_index l")
    case None
    show ?thesis by (rule that [of "xl_items l" "[]"]) (use None assms in \<open>auto simp: xl_insert_end_def list_rel_def\<close>)
  next
    case (Some i)
    with assms have i: "i \<in> set (xl_items l)" "pxIndex m L = i" by (auto simp: list_rel_def)
    then have "dropWhile (\<lambda>y. y \<noteq> i) (xl_items l) \<noteq> []" by auto
    then have "hd (dropWhile (\<lambda>y. y \<noteq> i) (xl_items l) @ [xListEnd L]) = i"
      using hd_dropWhile [of "\<lambda>y. y \<noteq> i" "xl_items l"] by simp
    with Some i show ?thesis
      by (intro that [of "takeWhile (\<lambda>y. y \<noteq> i) (xl_items l)" "dropWhile (\<lambda>y. y \<noteq> i) (xl_items l)"])
        (auto simp: xl_insert_end_def)
  qed
  have pr: "pxPrevious m (pxIndex m L) = last (xListEnd L # ys)"
    using dpath_prev [of m "xListEnd L" ys zs] assms(1) sp by (simp add: list_rel_def)
  have ix: "pxIndex m L \<noteq> x" "last (xListEnd L # ys) \<noteq> x"
    using sp(1,2) assms(2) last_in_set [of "xListEnd L # ys"] by (cases zs; auto)+
  show ?thesis
    unfolding sp(3)
    by (rule list_rel_link [OF assms(1) sp(1) assms(2,3)])
      (use ix sp(2) pr in \<open>auto simp: vListInsertEnd_def set_field_defs Let_def fun_eq_iff\<close>)
qed

text \<open>The loop of \<open>vListInsert\<close> ends in every well-formed list: the end marker stops it.\<close>

lemma vListInsert_find_Some:
  assumes "dpath m a zs e" "xItemValue m e = portMAX_DELAY" "v \<noteq> portMAX_DELAY"
  shows "vListInsert_find m v a = Some (last (a # takeWhile (\<lambda>y. xItemValue m y \<le> v) zs))"
  using assms(1)
proof (induction zs arbitrary: a)
  case Nil
  with assms(2,3) have "\<not> xItemValue m (pxNext m a) \<le> v"
    by (metis dpath.simps(1) order_antisym portMAX_DELAY_max)
  then show ?case by (simp add: vListInsert_find.simps)
next
  case (Cons z zs)
  then show ?case by (subst vListInsert_find.simps) simp
qed

lemma vListInsert_link_rel:
  assumes "list_rel m L l" "xl_items l = ys @ zs" "x \<notin> set (xListEnd L # xl_items l)"
    and "Suc (length (xl_items l)) < 2 ^ 32" "p = last (xListEnd L # ys)"
  shows "list_rel (vListInsert_link L x p m) L (l\<lparr>xl_items := ys @ x # zs\<rparr>)"
proof -
  have nx: "pxNext m p = hd (zs @ [xListEnd L])"
    using dpath_next [of m "xListEnd L" ys zs] assms by (simp add: list_rel_def)
  have ix: "p \<noteq> x" "hd (zs @ [xListEnd L]) \<noteq> x"
    using assms(2,3,5) last_in_set [of "xListEnd L # ys"] by (cases zs; auto)+
  show ?thesis
    by (rule list_rel_link [OF assms(1,2,3,4)])
      (use ix nx assms(5) in \<open>auto simp: vListInsert_link_def set_field_defs Let_def fun_eq_iff\<close>)
qed

lemma vListInsert_rel:
  assumes "list_rel m L l" "x \<notin> set (xListEnd L # xl_items l)" "Suc (length (xl_items l)) < 2 ^ 32"
  obtains m' where "vListInsert L x m = Some m'" "list_rel m' L (xl_insert (xItemValue m) x l)"
    "xItemValue m' = xItemValue m"
proof -
  let ?v = "xItemValue m x" and ?e = "xListEnd L"
  let ?ys = "takeWhile (\<lambda>y. xItemValue m y \<le> ?v) (xl_items l)"
  let ?zs = "dropWhile (\<lambda>y. xItemValue m y \<le> ?v) (xl_items l)"
  have dp: "dpath m ?e (xl_items l) ?e" and mx: "xItemValue m ?e = portMAX_DELAY"
    using assms(1) by (auto simp: list_rel_def)
  have "vListInsert L x m = Some (vListInsert_link L x (last (?e # ?ys)) m)"
  proof (cases "?v = portMAX_DELAY")
    case True
    then have ys: "?ys = xl_items l" by (simp add: takeWhile_eq_all_conv)
    have "pxPrevious m ?e = last (?e # xl_items l)"
      using dpath_prev [of m ?e "xl_items l" "[]"] dp by simp
    then show ?thesis unfolding ys using True by (simp add: vListInsert_def)
  next
    case False
    with vListInsert_find_Some [OF dp mx] show ?thesis by (simp add: vListInsert_def)
  qed
  moreover have "list_rel (vListInsert_link L x (last (?e # ?ys)) m) L (xl_insert (xItemValue m) x l)"
    unfolding xl_insert_def
    by (rule vListInsert_link_rel [OF assms(1) _ assms(2,3)]) simp_all
  moreover have "xItemValue (vListInsert_link L x (last (?e # ?ys)) m) = xItemValue m"
    by (simp add: vListInsert_link_def set_field_defs Let_def)
  ultimately show ?thesis by (rule that)
qed

lemma xl_pred_split: "x \<notin> set ys \<Longrightarrow> xl_pred x (ys @ x # zs) = (if ys = [] then None else Some (last ys))"
proof -
  assume "x \<notin> set ys"
  then have "takeWhile (\<lambda>y. y \<noteq> x) (ys @ x # zs) = ys" by (metis (mono_tags, lifting) takeWhile.simps(2) takeWhile_append2 append_Nil2)
  then show ?thesis by (cases ys) (auto simp: xl_pred_def)
qed

lemma uxListRemove_rel:
  assumes "list_rel m L l" "x \<in> set (xl_items l)"
  obtains m' where "uxListRemove x m = Some (of_nat (length (xl_items l) - 1), m')"
    "list_rel m' L (xl_remove x l)" "xItemValue m' = xItemValue m" "pxContainer m' x = None"
proof -
  from assms have "distinct (xl_items l)" by (simp add: list_rel_def)
  with assms(2) obtain ys zs where sp: "xl_items l = ys @ x # zs" "x \<notin> set ys" "x \<notin> set zs"
    by (rule split_list_distinct)
  let ?e = "xListEnd L"
  have dp: "dpath m ?e (ys @ x # zs) ?e" and ds: "distinct (?e # ys @ x # zs)"
    and ct: "pxContainer m x = Some L" and nn: "uxNumberOfItems m L = of_nat (Suc (length ys + length zs))"
    using assms sp by (auto simp: list_rel_def)
  have nx: "pxNext m x = hd (zs @ [?e])" using dpath_next [of m ?e "ys @ [x]" zs] dp by simp
  have pv: "pxPrevious m x = last (?e # ys)" using dpath_prev [of m ?e ys "x # zs"] dp by simp
  define m' where "m' = snd (the (uxListRemove x m))"
  have eq: "uxListRemove x m = Some (of_nat (length (xl_items l) - 1), m')"
    using ct nn sp by (simp add: m'_def uxListRemove_def set_field_defs Let_def)
  have xh: "x \<noteq> hd (zs @ [?e])" using ds sp by (cases zs) auto
  have f: "pxNext m' = (pxNext m)(last (?e # ys) := hd (zs @ [?e]))"
    "pxPrevious m' = (pxPrevious m)(hd (zs @ [?e]) := last (?e # ys))"
    "pxContainer m' = (pxContainer m)(x := None)"
    "uxNumberOfItems m' = (uxNumberOfItems m)(L := of_nat (length ys + length zs))"
    "xItemValue m' = xItemValue m"
    "pxIndex m' L = (if pxIndex m L = x then last (?e # ys) else pxIndex m L)"
    using ct nx pv nn xh by (simp_all add: m'_def uxListRemove_def set_field_defs Let_def)
  have "dpath m' ?e (ys @ zs) ?e" by (rule dpath_unlink [OF dp ds f(1,2)])
  moreover have "xl_remove x l = \<lparr>xl_items = ys @ zs, xl_index = (if xl_index l = Some x
      then if ys = [] then None else Some (last ys) else xl_index l)\<rparr>"
    using sp by (simp add: xl_remove_def xl_pred_split remove1_append)
  ultimately have "list_rel m' L (xl_remove x l)"
    using assms(1) ds sp f by (auto simp: list_rel_def split: option.splits)
  then show ?thesis by (rule that [OF eq _ f(5)]) (simp add: f(3))
qed


lemma dpath_succ:
  assumes "dpath m e xs e" "distinct (e # xs)" "i = None \<or> (\<exists>x. i = Some x \<and> x \<in> set xs)"
  shows "pxNext m (case i of None \<Rightarrow> e | Some x \<Rightarrow> x) = (case xl_succ i xs of None \<Rightarrow> e | Some y \<Rightarrow> y)"
proof (cases i)
  case None
  with assms show ?thesis by (cases xs) (auto simp: xl_succ_def)
next
  case (Some x)
  with assms obtain ys zs where sp: "xs = ys @ x # zs" "x \<notin> set ys"
    by (metis option.distinct(1) option.inject split_list_first)
  then have "dropWhile (\<lambda>y. y \<noteq> x) xs = x # zs"
    by (metis (mono_tags, lifting) dropWhile.simps(2) dropWhile_append2)
  moreover have "pxNext m x = hd (zs @ [e])" using dpath_next [of m e "ys @ [x]" zs] assms sp by simp
  ultimately show ?thesis using Some by (cases zs) (auto simp: xl_succ_def)
qed

lemma listGET_OWNER_OF_NEXT_ENTRY_rel:
  assumes "list_rel m L l" "xl_items l \<noteq> []"
  obtains x m' where "listGET_OWNER_OF_NEXT_ENTRY L m = (pvOwner m x, m')"
    "list_rel m' L (xl_advance l)" "xl_index (xl_advance l) = Some x"
proof -
  let ?e = "xListEnd L" and ?xs = "xl_items l"
  have dp: "dpath m ?e ?xs ?e" and ds: "distinct (?e # ?xs)"
    and ix: "pxIndex m L = (case xl_index l of None \<Rightarrow> ?e | Some x \<Rightarrow> x)"
    and wf: "xl_index l = None \<or> (\<exists>x. xl_index l = Some x \<and> x \<in> set ?xs)"
    using assms(1) by (auto simp: list_rel_def)
  have n1: "pxNext m (pxIndex m L) = (case xl_succ (xl_index l) ?xs of None \<Rightarrow> ?e | Some y \<Rightarrow> y)"
    unfolding ix by (rule dpath_succ [OF dp ds wf])
  have n2: "pxNext m ?e = (case xl_succ None ?xs of None \<Rightarrow> ?e | Some y \<Rightarrow> y)"
    using dpath_succ [OF dp ds, of None] by simp
  from assms(2) obtain x where x: "xl_index (xl_advance l) = Some x" "x \<in> set ?xs"
    by (rule xl_advance_index)
  have ne: "y \<noteq> ?e" if "xl_succ i ?xs = Some y" for i y
    using xl_succ_in [OF that] ds by auto
  have "listGET_OWNER_OF_NEXT_ENTRY L m = (pvOwner m x, set_pxIndex L x m)"
    using x n1 n2 ne
    by (auto simp: listGET_OWNER_OF_NEXT_ENTRY_def set_pxIndex_def xl_advance_def Let_def
        split: option.splits if_splits)
  moreover have "list_rel (set_pxIndex L x m) L (xl_advance l)"
  proof -
    have "dpath (set_pxIndex L x m) ?e ?xs ?e \<longleftrightarrow> dpath m ?e ?xs ?e"
      by (rule dpath_cong) (auto simp: set_pxIndex_def)
    with assms(1) x show ?thesis by (auto simp: list_rel_def set_pxIndex_def)
  qed
  ultimately show ?thesis using x(1) by (rule that)
qed

text \<open>
  Operations on one list leave every list alone that shares no item with it and is not adjacent
  to it in memory.
\<close>

lemma list_rel_frame:
  assumes "list_rel m K k"
    and "\<And>y. y \<in> set (xListEnd K # xl_items k) \<Longrightarrow>
      pxNext m' y = pxNext m y \<and> pxPrevious m' y = pxPrevious m y \<and> xItemValue m' y = xItemValue m y \<and>
      (y \<noteq> xListEnd K \<longrightarrow> pxContainer m' y = pxContainer m y)"
    and "uxNumberOfItems m' K = uxNumberOfItems m K" "pxIndex m' K = pxIndex m K"
  shows "list_rel m' K k"
proof -
  have "dpath m' (xListEnd K) (xl_items k) (xListEnd K) \<longleftrightarrow> dpath m (xListEnd K) (xl_items k) (xListEnd K)"
    by (rule dpath_cong) (use assms(2) in auto)
  moreover have "\<forall>y \<in> set (xl_items k). pxContainer m' y = Some K"
  proof
    fix y assume "y \<in> set (xl_items k)"
    moreover from this assms(1) have "y \<noteq> xListEnd K" by (auto simp: list_rel_def)
    ultimately show "pxContainer m' y = Some K" using assms(1,2) by (simp add: list_rel_def)
  qed
  ultimately show ?thesis using assms by (simp add: list_rel_def)
qed

subsection \<open>Round robin\<close>

lemma xl_succ_nth:
  assumes "distinct xs" "i < length xs"
  shows "xl_succ (Some (xs ! i)) xs = (if Suc i < length xs then Some (xs ! Suc i) else None)"
proof -
  have sp: "xs = take i xs @ xs ! i # drop (Suc i) xs" using assms(2) by (simp add: id_take_nth_drop)
  have "xs ! i \<notin> set (take i xs)"
    using assms by (metis distinct_take in_set_conv_nth length_take min.strict_boundedE nth_eq_iff_index_eq nth_take order_less_imp_not_eq2)
  then have "dropWhile (\<lambda>y. y \<noteq> xs ! i) (take i xs @ xs ! i # drop (Suc i) xs) = xs ! i # drop (Suc i) xs"
    by (subst dropWhile_append2) auto
  then have "dropWhile (\<lambda>y. y \<noteq> xs ! i) xs = xs ! i # drop (Suc i) xs" by (simp only: sp [symmetric])
  then show ?thesis
    by (cases "Suc i < length xs") (auto simp: xl_succ_def Cons_nth_drop_Suc [symmetric])
qed

lemma xl_advance_nth:
  assumes "distinct (xl_items l)" "i < length (xl_items l)" "xl_index l = Some (xl_items l ! i)"
  shows "xl_index (xl_advance l) = Some (xl_items l ! (Suc i mod length (xl_items l)))"
proof (cases "Suc i < length (xl_items l)")
  case True
  with assms show ?thesis by (simp add: xl_advance_def Let_def xl_succ_nth)
next
  case False
  with assms(2) have "Suc i mod length (xl_items l) = 0" by (metis Suc_lessI mod_self)
  with False assms show ?thesis
    by (cases "xl_items l") (auto simp: xl_advance_def Let_def xl_succ_nth, auto simp: xl_succ_def)
qed

lemma xl_items_advance_pow [simp]: "xl_items ((xl_advance ^^ k) l) = xl_items l"
  by (induction k) simp_all

lemma xl_advance_pow_nth:
  assumes "distinct (xl_items l)" "i < length (xl_items l)" "xl_index l = Some (xl_items l ! i)"
  shows "xl_index ((xl_advance ^^ k) l) = Some (xl_items l ! ((i + k) mod length (xl_items l)))"
proof (induction k)
  case 0
  with assms show ?case by simp
next
  case (Suc k)
  let ?n = "length (xl_items l)"
  have "(i + k) mod ?n < ?n" using assms(2) by (intro mod_less_divisor) linarith
  with Suc assms(1) have "xl_index (xl_advance ((xl_advance ^^ k) l)) =
      Some (xl_items l ! (Suc ((i + k) mod ?n) mod ?n))"
    by (subst xl_advance_nth) simp_all
  then show ?case by (simp add: mod_Suc_eq)
qed

subsection \<open>The interface the kernel relies on\<close>

text \<open>
  What the delayed lists, the event lists and the timer lists need of a list: insertion puts an
  item behind every item with the same or a smaller value, removal takes exactly one item away.
  The lemmas inside hold for every implementation: the abstract list and the linked memory.
\<close>

locale ordered_list =
  fixes items :: "'l \<Rightarrow> 'a list"
    and val :: "'a \<Rightarrow> tick"
    and insert_item :: "'a \<Rightarrow> 'l \<Rightarrow> 'l"
    and remove_item :: "'a \<Rightarrow> 'l \<Rightarrow> 'l"
    and invar :: "'l \<Rightarrow> bool"
    and room :: "'a \<Rightarrow> 'l \<Rightarrow> bool"
  assumes items_insert: "invar l \<Longrightarrow> x \<notin> set (items l) \<Longrightarrow> room x l \<Longrightarrow>
      items (insert_item x l) =
        takeWhile (\<lambda>y. val y \<le> val x) (items l) @ x # dropWhile (\<lambda>y. val y \<le> val x) (items l)"
    and items_remove: "invar l \<Longrightarrow> x \<in> set (items l) \<Longrightarrow> items (remove_item x l) = remove1 x (items l)"
    and invar_insert: "invar l \<Longrightarrow> x \<notin> set (items l) \<Longrightarrow> room x l \<Longrightarrow> invar (insert_item x l)"
    and invar_remove: "invar l \<Longrightarrow> x \<in> set (items l) \<Longrightarrow> invar (remove_item x l)"
    and invar_distinct: "invar l \<Longrightarrow> distinct (items l)"
begin

lemma insert_sorted:
  assumes "invar l" "x \<notin> set (items l)" "room x l" "sorted (map val (items l))"
  shows "sorted (map val (items (insert_item x l)))"
  unfolding items_insert [OF assms(1-3)] by (rule sorted_takeWhile_insert [OF assms(4)])

lemma insert_set:
  assumes "invar l" "x \<notin> set (items l)" "room x l"
  shows "set (items (insert_item x l)) = insert x (set (items l))"
  unfolding items_insert [OF assms] by (rule set_takeWhile_insert)

text \<open>Items with equal values leave in the order they arrived.\<close>

lemma insert_stable:
  assumes "invar l" "x \<notin> set (items l)" "room x l" "sorted (map val (items l))"
  shows "filter (\<lambda>y. val y = v) (items (insert_item x l)) =
         filter (\<lambda>y. val y = v) (items l) @ (if val x = v then [x] else [])"
proof -
  let ?A = "takeWhile (\<lambda>y. val y \<le> val x) (items l)" and ?B = "dropWhile (\<lambda>y. val y \<le> val x) (items l)"
  have "\<forall>y \<in> set ?B. val x < val y"
  proof (cases ?B)
    case (Cons b bs)
    then have "\<not> val b \<le> val x" using hd_dropWhile [of _ "items l"] by (metis list.distinct(1) list.sel(1))
    moreover have "sorted (map val ?B)" using assms(4) sorted_append [of "map val ?A" "map val ?B"]
      by (metis map_append takeWhile_dropWhile_id)
    ultimately show ?thesis using Cons by auto
  next
    case Nil
    then show ?thesis by (metis empty_iff list.set(1))
  qed
  then have B: "filter (\<lambda>y. val y = v) ?B = []" if "val x = v" using that by (auto simp: filter_empty_conv)
  have "filter (\<lambda>y. val y = v) (items l) = filter (\<lambda>y. val y = v) ?A @ filter (\<lambda>y. val y = v) ?B"
    by (metis filter_append takeWhile_dropWhile_id)
  then show ?thesis unfolding items_insert [OF assms(1-3)] using B by auto
qed

lemma remove_sorted:
  "invar l \<Longrightarrow> x \<in> set (items l) \<Longrightarrow> sorted (map val (items l)) \<Longrightarrow> sorted (map val (items (remove_item x l)))"
  by (simp add: items_remove sorted_remove1_map)

lemma remove_set:
  "invar l \<Longrightarrow> x \<in> set (items l) \<Longrightarrow> set (items (remove_item x l)) = set (items l) - {x}"
  by (simp add: items_remove invar_distinct)

lemma head_minimal:
  "sorted (map val (items l)) \<Longrightarrow> items l = h # t \<Longrightarrow> x \<in> set (items l) \<Longrightarrow> val h \<le> val x"
  by auto

end

interpretation xlo: ordered_list xl_items val "xl_insert val" xl_remove xl_wf "\<lambda>_ _. True" for val
  by unfold_locales
    (auto simp: xl_insert_def xl_remove_def xl_wf_insert [unfolded xl_insert_def] xl_wf_remove [unfolded xl_remove_def] xl_wf_def
      distinct_takeWhile_insert simp del: distinct_append set_append dest: xl_pred_in)

text \<open>The same interface on the linked memory of one list.\<close>

fun walk :: "list_mem \<Rightarrow> nat \<Rightarrow> nat \<Rightarrow> nat list" where
  "walk m 0 a = []"
| "walk m (Suc n) a = a # walk m n (pxNext m a)"

definition mem_items :: "nat \<Rightarrow> list_mem \<Rightarrow> nat list" where
  "mem_items pxList m = walk m (unat (uxNumberOfItems m pxList)) (listGET_HEAD_ENTRY pxList m)"

definition mem_invar :: "nat \<Rightarrow> (nat \<Rightarrow> tick) \<Rightarrow> list_mem \<Rightarrow> bool" where
  "mem_invar pxList val m \<longleftrightarrow>
     (\<exists>l. list_rel m pxList l) \<and> (\<forall>a. a \<noteq> xListEnd pxList \<longrightarrow> xItemValue m a = val a)"

lemma walk_dpath: "dpath m a xs b \<Longrightarrow> walk m (length xs) (pxNext m a) = xs"
  by (induction xs arbitrary: a) auto

lemma mem_items_rel: "list_rel m L l \<Longrightarrow> mem_items L m = xl_items l"
  by (auto simp: mem_items_def listGET_HEAD_ENTRY_def list_rel_def unat_of_nat32 dest: walk_dpath)

lemma takeWhile_val_cong:
  "e \<notin> set (x # xs) \<Longrightarrow> (\<forall>a. a \<noteq> e \<longrightarrow> f a = g a) \<Longrightarrow>
   takeWhile (\<lambda>y. f y \<le> f x) xs @ x # dropWhile (\<lambda>y. f y \<le> f x) xs =
   takeWhile (\<lambda>y. g y \<le> g x) xs @ x # dropWhile (\<lambda>y. g y \<le> (g x :: tick)) xs"
  by (intro arg_cong2 [where f = append] arg_cong2 [where f = Cons] takeWhile_cong dropWhile_cong) (auto, metis+)

interpretation memo: ordered_list "mem_items L" val "\<lambda>x m. the (vListInsert L x m)"
    "\<lambda>x m. snd (the (uxListRemove x m))" "mem_invar L val"
    "\<lambda>x m. x \<noteq> xListEnd L \<and> unat (uxNumberOfItems m L) < 2 ^ 32 - 1" for L val
proof
  fix m x
  assume i: "mem_invar L val m"
  then obtain l where l: "list_rel m L l" and v: "\<forall>a. a \<noteq> xListEnd L \<longrightarrow> xItemValue m a = val a"
    by (auto simp: mem_invar_def)
  have it: "mem_items L m = xl_items l" by (rule mem_items_rel [OF l])
  from l show "distinct (mem_items L m)" by (simp add: it list_rel_def)
  {
    assume x: "x \<notin> set (mem_items L m)" "x \<noteq> xListEnd L \<and> unat (uxNumberOfItems m L) < 2 ^ 32 - 1"
    have fr: "x \<notin> set (xListEnd L # xl_items l)" "Suc (length (xl_items l)) < 2 ^ 32"
      using x it l by (auto simp: list_rel_def unat_of_nat32)
    from l fr obtain m' where m': "vListInsert L x m = Some m'"
      "list_rel m' L (xl_insert (xItemValue m) x l)" "xItemValue m' = xItemValue m"
      by (rule vListInsert_rel)
    have e: "xListEnd L \<notin> set (x # xl_items l)" using l x by (auto simp: list_rel_def)
    show "mem_items L (the (vListInsert L x m)) =
        takeWhile (\<lambda>y. val y \<le> val x) (mem_items L m) @ x # dropWhile (\<lambda>y. val y \<le> val x) (mem_items L m)"
      using takeWhile_val_cong [OF e v] by (simp add: m' mem_items_rel [OF m'(2)] it xl_insert_def)
    show "mem_invar L val (the (vListInsert L x m))"
      using m' v by (auto simp: mem_invar_def)
  }
  assume "x \<in> set (mem_items L m)"
  then have "x \<in> set (xl_items l)" by (simp add: it)
  with l obtain m' where m': "uxListRemove x m = Some (of_nat (length (xl_items l) - 1), m')"
    "list_rel m' L (xl_remove x l)" "xItemValue m' = xItemValue m" "pxContainer m' x = None"
    by (rule uxListRemove_rel)
  show "mem_items L (snd (the (uxListRemove x m))) = remove1 x (mem_items L m)"
    by (simp add: m' mem_items_rel [OF m'(2)] it xl_remove_def)
  show "mem_invar L val (snd (the (uxListRemove x m)))"
    using m' v by (auto simp: mem_invar_def)
qed

subsection \<open>Properties\<close>

text \<open>\<open>n\<close> uses of \<open>listGET_OWNER_OF_NEXT_ENTRY\<close> in a row, the owners in order.\<close>

fun next_owners :: "nat \<Rightarrow> nat \<Rightarrow> list_mem \<Rightarrow> nat list" where
  "next_owners 0 L m = []"
| "next_owners (Suc n) L m =
     (let (o1, m') = listGET_OWNER_OF_NEXT_ENTRY L m in o1 # next_owners n L m')"

lemma pvOwner_next [simp]: "pvOwner (snd (listGET_OWNER_OF_NEXT_ENTRY L m)) = pvOwner m"
  by (simp add: listGET_OWNER_OF_NEXT_ENTRY_def set_pxIndex_def Let_def)

lemma next_owners_abs:
  assumes "list_rel m L l" "xl_items l \<noteq> []"
  shows "next_owners n L m = map (\<lambda>k. pvOwner m (the (xl_index ((xl_advance ^^ Suc k) l)))) [0..<n]"
  using assms
proof (induction n arbitrary: m l)
  case 0
  then show ?case by simp
next
  case (Suc n)
  from Suc.prems obtain x m' where n1: "listGET_OWNER_OF_NEXT_ENTRY L m = (pvOwner m x, m')"
    "list_rel m' L (xl_advance l)" "xl_index (xl_advance l) = Some x"
    by (rule listGET_OWNER_OF_NEXT_ENTRY_rel)
  have ow: "pvOwner m' = pvOwner m" using pvOwner_next [of L m] n1(1) by simp
  have "next_owners n L m' =
      map (\<lambda>k. pvOwner m (the (xl_index ((xl_advance ^^ Suc k) (xl_advance l))))) [0..<n]"
    using Suc.IH [OF n1(2)] Suc.prems(2) ow by simp
  also have "\<dots> = map (\<lambda>k. pvOwner m (the (xl_index ((xl_advance ^^ Suc k) l)))) [1..<Suc n]"
    by (simp add: map_Suc_upt [symmetric] funpow_swap1 del: upt_Suc)
  finally show ?case using n1 by (simp add: upt_conv_Cons del: upt_Suc)
qed

lemma xl_start:
  assumes "xl_wf l" "xl_items l \<noteq> []"
  obtains s where "s < length (xl_items l)" "xl_index (xl_advance l) = Some (xl_items l ! s)"
  using xl_advance_index [OF assms(2)] by (metis in_set_conv_nth)

lemma next_owners_rotate:
  assumes "list_rel m L l" "xl_items l \<noteq> []"
  shows "\<exists>s. next_owners (length (xl_items l)) L m = map (pvOwner m) (rotate s (xl_items l))"
proof -
  let ?xs = "xl_items l" and ?n = "length (xl_items l)"
  have wf: "xl_wf l" using assms(1) by (auto simp: list_rel_def xl_wf_def)
  from wf assms(2) obtain s where s: "s < ?n" "xl_index (xl_advance l) = Some (?xs ! s)"
    by (rule xl_start)
  have "xl_index ((xl_advance ^^ Suc k) l) = Some (?xs ! ((s + k) mod ?n))" for k
    using xl_advance_pow_nth [of "xl_advance l" s k] s wf
    by (simp add: xl_wf_def funpow_swap1)
  then have "next_owners ?n L m = map (\<lambda>k. pvOwner m (?xs ! ((s + k) mod ?n))) [0..<?n]"
    unfolding next_owners_abs [OF assms] by simp
  also have "\<dots> = map (pvOwner m) (rotate s ?xs)"
    by (rule nth_equalityI) (simp_all add: nth_rotate)
  finally show ?thesis by blast
qed

text \<open>C1: \<open>vListInsert\<close> on a well-formed list always ends, and leaves a well-formed list in which
  the new item stands behind exactly the items whose value is not greater than its own: the
  pointer updates implement insertion in value order, equal values first come first served.
\<close>

theorem vListInsert_implements:
  assumes "list_rel m L l" "x \<notin> set (xListEnd L # xl_items l)" "Suc (length (xl_items l)) < 2 ^ 32"
  shows "\<exists>m'. vListInsert L x m = Some m' \<and> list_rel m' L (xl_insert (xItemValue m) x l)"
  by (rule vListInsert_rel [OF assms]) blast

definition demo_mem :: list_mem where
  "demo_mem = \<lparr>xItemValue = (\<lambda>a. of_nat a), pxNext = id, pxPrevious = id, pvOwner = (\<lambda>a. a + 1000),
     pxContainer = (\<lambda>_. None), uxNumberOfItems = (\<lambda>_. 0), pxIndex = id\<rparr>"

theorem vListInsert_implements_witness:
  "\<exists>m'. vListInsert 100 300 (vListInsertEnd 100 200 (vListInitialise 100 demo_mem)) = Some m' \<and>
        list_rel m' 100 \<lparr>xl_items = [200, 300], xl_index = None\<rparr>"
proof -
  let ?m0 = "vListInitialise 100 demo_mem"
  have "list_rel (vListInsertEnd 100 200 ?m0) 100 (xl_insert_end 200 xl_empty)"
    by (rule vListInsertEnd_rel [OF vListInitialise_rel]) (simp_all add: xl_empty_def xListEnd_def)
  then have r: "list_rel (vListInsertEnd 100 200 ?m0) 100 \<lparr>xl_items = [200], xl_index = None\<rparr>"
    by (simp add: xl_insert_end_def xl_empty_def)
  show ?thesis
    using vListInsert_implements [OF r, of 300]
    by (simp add: xl_insert_def xListEnd_def vListInsertEnd_def vListInitialise_def set_field_defs Let_def demo_mem_def)
qed

text \<open>\<open>uxListRemove\<close> of an item on a list returns the number of items left, unlinks exactly that
  item, clears its container, and moves \<open>pxIndex\<close> back to the predecessor when it pointed at
  the removed item.
\<close>

theorem uxListRemove_implements:
  assumes "list_rel m L l" "x \<in> set (xl_items l)"
  shows "\<exists>m'. uxListRemove x m = Some (of_nat (length (xl_items l) - 1), m') \<and>
    list_rel m' L (xl_remove x l) \<and> pxContainer m' x = None"
  by (rule uxListRemove_rel [OF assms]) blast

theorem uxListRemove_implements_witness:
  "\<exists>m'. uxListRemove 200 (vListInsertEnd 100 200 (vListInitialise 100 demo_mem)) = Some (0, m') \<and>
        list_rel m' 100 xl_empty \<and> pxContainer m' 200 = None"
proof -
  let ?m0 = "vListInitialise 100 demo_mem"
  have r: "list_rel (vListInsertEnd 100 200 ?m0) 100 (xl_insert_end 200 xl_empty)"
    by (rule vListInsertEnd_rel [OF vListInitialise_rel]) (simp_all add: xl_empty_def xListEnd_def)
  show ?thesis
    using uxListRemove_implements [OF r, of 200] by (simp add: xl_insert_end_def xl_empty_def xl_remove_def)
qed

text \<open>Round robin: on a well-formed list with \<open>n\<close> items, wherever \<open>pxIndex\<close> stands, \<open>n\<close> uses of
  \<open>listGET_OWNER_OF_NEXT_ENTRY\<close> return the owner of every item exactly once, in list order
  from some item on. This is what gives tasks of one priority equal shares.
\<close>

theorem next_owner_round_robin:
  assumes "list_rel m L l" "xl_items l \<noteq> []"
  shows "\<exists>s. next_owners (length (xl_items l)) L m = map (pvOwner m) (rotate s (xl_items l))"
  by (rule next_owners_rotate [OF assms])

theorem next_owner_round_robin_witness:
  "\<exists>s. next_owners 2 100 (vListInsertEnd 100 201 (vListInsertEnd 100 200 (vListInitialise 100 demo_mem))) =
       map (\<lambda>a. a + 1000) (rotate s [200, 201])"
proof -
  let ?m0 = "vListInitialise 100 demo_mem" and ?m1 = "vListInsertEnd 100 200 (vListInitialise 100 demo_mem)"
  have "list_rel ?m1 100 (xl_insert_end 200 xl_empty)"
    by (rule vListInsertEnd_rel [OF vListInitialise_rel]) (simp_all add: xl_empty_def xListEnd_def)
  then have r1: "list_rel ?m1 100 \<lparr>xl_items = [200], xl_index = None\<rparr>"
    by (simp add: xl_insert_end_def xl_empty_def)
  have "list_rel (vListInsertEnd 100 201 ?m1) 100 (xl_insert_end 201 \<lparr>xl_items = [200], xl_index = None\<rparr>)"
    by (rule vListInsertEnd_rel [OF r1]) (simp_all add: xListEnd_def)
  then have r2: "list_rel (vListInsertEnd 100 201 ?m1) 100 \<lparr>xl_items = [200, 201], xl_index = None\<rparr>"
    by (simp add: xl_insert_end_def)
  have "pvOwner (vListInsertEnd 100 201 ?m1) = (\<lambda>a. a + 1000)"
    by (simp add: vListInsertEnd_def vListInitialise_def set_field_defs Let_def demo_mem_def)
  with next_owner_round_robin [OF r2] show ?thesis by (simp add: eval_nat_numeral)
qed

end
