(* ===== verification/Heap4.thy ===== *)
theory Heap4
  imports Firmware_Prelude
begin

text \<open>
  The kernel heap, \<open>lib/FreeRTOS/src/heap_4.c\<close>: a first-fit allocator over one static array,
  with the free blocks linked in address order and merged when they touch. The model keeps the
  block headers (\<open>BlockLink_t\<close>) in a memory indexed by address; addresses and sizes are natural
  numbers below \<open>2^32\<close>, and the only sum that can wrap, the rounding of the requested size, is
  taken modulo \<open>2^32\<close>. The scheduler calls around the allocator's body are added in the theory
  of the scheduler, where the kernel state is known.
\<close>

subsection \<open>State and operations\<close>

record heap4 =
  pxNextFreeBlock :: "nat \<Rightarrow> nat"
  xBlockSize :: "nat \<Rightarrow> nat"
  xStart :: nat
  ucHeap :: nat
  pxEnd :: nat
  xFreeBytesRemaining :: nat
  xMinimumEverFreeBytesRemaining :: nat
  xBlockAllocatedBit :: nat

definition portBYTE_ALIGNMENT :: nat where "portBYTE_ALIGNMENT = 8"
definition portBYTE_ALIGNMENT_MASK :: nat where "portBYTE_ALIGNMENT_MASK = 7"
definition configTOTAL_HEAP_SIZE :: nat where "configTOTAL_HEAP_SIZE = 64 * 1024"

text \<open>\<open>x & ~b\<close> on unsigned values: the bits of \<open>b\<close> cleared.\<close>

definition clear_bits :: "nat \<Rightarrow> nat \<Rightarrow> nat" where
  "clear_bits x b = x - (x AND b)"

definition xHeapStructSize :: nat where
  "xHeapStructSize = clear_bits (8 + (portBYTE_ALIGNMENT - 1)) portBYTE_ALIGNMENT_MASK"

definition heapMINIMUM_BLOCK_SIZE :: nat where
  "heapMINIMUM_BLOCK_SIZE = push_bit 1 xHeapStructSize"

definition set_next :: "nat \<Rightarrow> nat \<Rightarrow> heap4 \<Rightarrow> heap4" where
  "set_next a b h = h\<lparr>pxNextFreeBlock := (pxNextFreeBlock h)(a := b)\<rparr>"

definition set_size :: "nat \<Rightarrow> nat \<Rightarrow> heap4 \<Rightarrow> heap4" where
  "set_size a n h = h\<lparr>xBlockSize := (xBlockSize h)(a := n)\<rparr>"

text \<open>The aligned start of the heap and the size that is left from there on.\<close>

definition prvHeapInit_align :: "nat \<Rightarrow> nat \<times> nat" where
  "prvHeapInit_align uxAddress0 =
     (let uxAddress = uxAddress0; xTotalHeapSize = configTOTAL_HEAP_SIZE
      in if uxAddress AND portBYTE_ALIGNMENT_MASK \<noteq> 0
         then let uxAddress = uxAddress + (portBYTE_ALIGNMENT - 1);
                  uxAddress = clear_bits uxAddress portBYTE_ALIGNMENT_MASK;
                  xTotalHeapSize = xTotalHeapSize - (uxAddress - uxAddress0)
              in (uxAddress, xTotalHeapSize)
         else (uxAddress, xTotalHeapSize))"

definition prvHeapInit :: "heap4 \<Rightarrow> heap4" where
  "prvHeapInit h =
     (let (pucAlignedHeap, xTotalHeapSize) = prvHeapInit_align (ucHeap h);
          h = set_next (xStart h) pucAlignedHeap h;
          h = set_size (xStart h) 0 h;
          uxAddress = pucAlignedHeap + xTotalHeapSize;
          uxAddress = uxAddress - xHeapStructSize;
          uxAddress = clear_bits uxAddress portBYTE_ALIGNMENT_MASK;
          h = h\<lparr>pxEnd := uxAddress\<rparr>;
          h = set_size (pxEnd h) 0 h;
          h = set_next (pxEnd h) 0 h;
          pxFirstFreeBlock = pucAlignedHeap;
          h = set_size pxFirstFreeBlock (uxAddress - pxFirstFreeBlock) h;
          h = set_next pxFirstFreeBlock (pxEnd h) h;
          h = h\<lparr>xMinimumEverFreeBytesRemaining := xBlockSize h pxFirstFreeBlock\<rparr>;
          h = h\<lparr>xFreeBytesRemaining := xBlockSize h pxFirstFreeBlock\<rparr>
      in h\<lparr>xBlockAllocatedBit := push_bit (4 * 8 - 1) 1\<rparr>)"

text \<open>The walk to the insertion point; \<open>None\<close> would be a walk that never ends.\<close>

partial_function (option) prvInsert_find :: "heap4 \<Rightarrow> nat \<Rightarrow> nat \<Rightarrow> nat option" where
  "prvInsert_find h pxBlockToInsert pxIterator =
     (if pxNextFreeBlock h pxIterator < pxBlockToInsert
      then prvInsert_find h pxBlockToInsert (pxNextFreeBlock h pxIterator)
      else Some pxIterator)"

definition prvInsert_at :: "nat \<Rightarrow> nat \<Rightarrow> heap4 \<Rightarrow> heap4" where
  "prvInsert_at pxIterator pxBlockToInsert h =
     (let (pxBlockToInsert, h) =
            (if pxIterator + xBlockSize h pxIterator = pxBlockToInsert
             then (pxIterator, set_size pxIterator (xBlockSize h pxIterator + xBlockSize h pxBlockToInsert) h)
             else (pxBlockToInsert, h));
          h = (if pxBlockToInsert + xBlockSize h pxBlockToInsert = pxNextFreeBlock h pxIterator
               then if pxNextFreeBlock h pxIterator \<noteq> pxEnd h
                    then let h = set_size pxBlockToInsert
                                   (xBlockSize h pxBlockToInsert + xBlockSize h (pxNextFreeBlock h pxIterator)) h
                         in set_next pxBlockToInsert (pxNextFreeBlock h (pxNextFreeBlock h pxIterator)) h
                    else set_next pxBlockToInsert (pxEnd h) h
               else set_next pxBlockToInsert (pxNextFreeBlock h pxIterator) h)
      in if pxIterator \<noteq> pxBlockToInsert then set_next pxIterator pxBlockToInsert h else h)"

definition prvInsertBlockIntoFreeList :: "nat \<Rightarrow> heap4 \<Rightarrow> heap4 option" where
  "prvInsertBlockIntoFreeList pxBlockToInsert h =
     map_option (\<lambda>pxIterator. prvInsert_at pxIterator pxBlockToInsert h)
       (prvInsert_find h pxBlockToInsert (xStart h))"

text \<open>The first-fit search of \<open>pvPortMalloc\<close>: the previous block and the block found.\<close>

partial_function (option) malloc_find :: "heap4 \<Rightarrow> nat \<Rightarrow> nat \<Rightarrow> nat \<Rightarrow> (nat \<times> nat) option" where
  "malloc_find h xWantedSize pxPreviousBlock pxBlock =
     (if xBlockSize h pxBlock < xWantedSize \<and> pxNextFreeBlock h pxBlock \<noteq> 0
      then malloc_find h xWantedSize pxBlock (pxNextFreeBlock h pxBlock)
      else Some (pxPreviousBlock, pxBlock))"

definition wanted_size :: "nat \<Rightarrow> nat" where
  "wanted_size xWantedSize =
     (if xWantedSize > 0
      then let xWantedSize = (xWantedSize + xHeapStructSize) mod 2 ^ 32
           in if xWantedSize AND portBYTE_ALIGNMENT_MASK \<noteq> 0
              then (xWantedSize + (portBYTE_ALIGNMENT - (xWantedSize AND portBYTE_ALIGNMENT_MASK))) mod 2 ^ 32
              else xWantedSize
      else xWantedSize)"

text \<open>The accounting and the marking of the block that is handed out.\<close>

definition malloc_finish :: "nat \<Rightarrow> heap4 \<Rightarrow> heap4" where
  "malloc_finish pxBlock h =
     (let h = h\<lparr>xFreeBytesRemaining := xFreeBytesRemaining h - xBlockSize h pxBlock\<rparr>;
          h = (if xFreeBytesRemaining h < xMinimumEverFreeBytesRemaining h
               then h\<lparr>xMinimumEverFreeBytesRemaining := xFreeBytesRemaining h\<rparr> else h);
          h = set_size pxBlock (xBlockSize h pxBlock OR xBlockAllocatedBit h) h
      in set_next pxBlock 0 h)"

definition malloc_take :: "nat \<Rightarrow> nat \<Rightarrow> nat \<Rightarrow> heap4 \<Rightarrow> (nat \<times> heap4) option" where
  "malloc_take xWantedSize pxPreviousBlock pxBlock h =
     (let pvReturn = pxNextFreeBlock h pxPreviousBlock + xHeapStructSize;
          h = set_next pxPreviousBlock (pxNextFreeBlock h pxBlock) h
      in map_option (\<lambda>h. (pvReturn, malloc_finish pxBlock h))
           (if xBlockSize h pxBlock - xWantedSize > heapMINIMUM_BLOCK_SIZE
            then let pxNewBlockLink = pxBlock + xWantedSize;
                     h = set_size pxNewBlockLink (xBlockSize h pxBlock - xWantedSize) h;
                     h = set_size pxBlock xWantedSize h
                 in prvInsertBlockIntoFreeList pxNewBlockLink h
            else Some h))"

text \<open>
  \<open>pvPortMalloc\<close> between \<open>vTaskSuspendAll\<close> and \<open>xTaskResumeAll\<close>: the pointer (0 for \<open>NULL\<close>) and
  the new heap; \<open>None\<close> would be a search that never ends.
\<close>

definition pvPortMalloc_body :: "nat \<Rightarrow> heap4 \<Rightarrow> (nat \<times> heap4) option" where
  "pvPortMalloc_body xWantedSize h =
     (let h = (if pxEnd h = 0 then prvHeapInit h else h)
      in if xWantedSize AND xBlockAllocatedBit h = 0
         then let xWantedSize = wanted_size xWantedSize
              in if xWantedSize > 0 \<and> xWantedSize \<le> xFreeBytesRemaining h
                 then Option.bind (malloc_find h xWantedSize (xStart h) (pxNextFreeBlock h (xStart h)))
                        (\<lambda>(pxPreviousBlock, pxBlock).
                           if pxBlock \<noteq> pxEnd h then malloc_take xWantedSize pxPreviousBlock pxBlock h
                           else Some (0, h))
                 else Some (0, h)
         else Some (0, h))"

definition vPortFree_body :: "nat \<Rightarrow> heap4 \<Rightarrow> heap4 option" where
  "vPortFree_body pv h =
     (if pv \<noteq> 0
      then let pxLink = pv - xHeapStructSize
           in if xBlockSize h pxLink AND xBlockAllocatedBit h \<noteq> 0
              then if pxNextFreeBlock h pxLink = 0
                   then let h = set_size pxLink (clear_bits (xBlockSize h pxLink) (xBlockAllocatedBit h)) h;
                            h = h\<lparr>xFreeBytesRemaining := xFreeBytesRemaining h + xBlockSize h pxLink\<rparr>
                        in prvInsertBlockIntoFreeList pxLink h
                   else Some h
              else Some h
      else Some h)"

definition xPortGetFreeHeapSize :: "heap4 \<Rightarrow> nat" where
  "xPortGetFreeHeapSize h = xFreeBytesRemaining h"

definition xPortGetMinimumEverFreeHeapSize :: "heap4 \<Rightarrow> nat" where
  "xPortGetMinimumEverFreeHeapSize h = xMinimumEverFreeBytesRemaining h"

definition vPortInitialiseBlocks :: "heap4 \<Rightarrow> heap4" where
  "vPortInitialiseBlocks h = h"

subsection \<open>The abstract heap: a tiling by blocks\<close>

text \<open>
  The heap area is cut without gaps into blocks, each free, allocated, or in limbo (taken out of
  one set and not yet entered into the other). \<open>heap_rel0\<close> says that the headers in memory
  describe such a tiling and that the free list links exactly the free blocks in address order.
\<close>

datatype bstate = Free | Alloc | Limbo

type_synonym blk = "nat \<times> nat \<times> bstate"

fun tiles :: "nat \<Rightarrow> blk list \<Rightarrow> nat \<Rightarrow> bool" where
  "tiles a [] e \<longleftrightarrow> a = e"
| "tiles a ((b, s, st) # bs) e \<longleftrightarrow> a = b \<and> 16 \<le> s \<and> s mod 8 = 0 \<and> tiles (b + s) bs e"

fun frees :: "blk list \<Rightarrow> nat list" where
  "frees [] = []"
| "frees ((b, s, st) # bs) = (if st = Free then b # frees bs else frees bs)"

fun free_sum :: "blk list \<Rightarrow> nat" where
  "free_sum [] = 0"
| "free_sum ((b, s, st) # bs) = (if st = Free then s else 0) + free_sum bs"

fun nonadj :: "blk list \<Rightarrow> bool" where
  "nonadj ((b, s, st) # (b', s', st') # bs) \<longleftrightarrow> \<not> (st = Free \<and> st' = Free) \<and> nonadj ((b', s', st') # bs)"
| "nonadj bs \<longleftrightarrow> True"

fun flinks :: "heap4 \<Rightarrow> nat \<Rightarrow> nat list \<Rightarrow> nat \<Rightarrow> bool" where
  "flinks h p [] e \<longleftrightarrow> pxNextFreeBlock h p = e"
| "flinks h p (x # xs) e \<longleftrightarrow> pxNextFreeBlock h p = x \<and> flinks h x xs e"

definition blk_ok :: "heap4 \<Rightarrow> blk \<Rightarrow> bool" where
  "blk_ok h = (\<lambda>(a, s, st). case st of
     Free \<Rightarrow> xBlockSize h a = s
   | Limbo \<Rightarrow> xBlockSize h a = s
   | Alloc \<Rightarrow> xBlockSize h a = s + 2 ^ 31 \<and> pxNextFreeBlock h a = 0)"

definition heap_rel0 :: "heap4 \<Rightarrow> nat \<Rightarrow> blk list \<Rightarrow> bool" where
  "heap_rel0 h base bs \<longleftrightarrow>
     0 < base \<and> base mod 8 = 0 \<and> pxEnd h < base + 2 ^ 31 \<and> tiles base bs (pxEnd h) \<and>
     (xStart h < base \<or> pxEnd h < xStart h) \<and>
     flinks h (xStart h) (frees bs) (pxEnd h) \<and>
     xBlockSize h (xStart h) = 0 \<and> xBlockSize h (pxEnd h) = 0 \<and> pxNextFreeBlock h (pxEnd h) = 0 \<and>
     xBlockAllocatedBit h = 2 ^ 31 \<and> (\<forall>b \<in> set bs. blk_ok h b)"

definition heap_rel :: "heap4 \<Rightarrow> nat \<Rightarrow> blk list \<Rightarrow> bool" where
  "heap_rel h base bs \<longleftrightarrow>
     heap_rel0 h base bs \<and> (\<forall>b \<in> set bs. snd (snd b) \<noteq> Limbo) \<and> nonadj bs \<and>
     xFreeBytesRemaining h = free_sum bs \<and>
     xMinimumEverFreeBytesRemaining h \<le> xFreeBytesRemaining h"

text \<open>Returning a block to the pool: merge with a free neighbour on either side.\<close>

definition merge_left :: "blk list \<Rightarrow> nat \<Rightarrow> nat \<Rightarrow> blk list \<times> nat \<times> nat" where
  "merge_left us b s = (case rev us of (a, t, Free) # us' \<Rightarrow> (rev us', a, t + s) | _ \<Rightarrow> (us, b, s))"

definition merge_right :: "nat \<Rightarrow> nat \<Rightarrow> blk list \<Rightarrow> nat \<times> nat \<times> blk list" where
  "merge_right b s vs = (case vs of (c, t, Free) # vs' \<Rightarrow> (b, s + t, vs') | _ \<Rightarrow> (b, s, vs))"

definition coalesce :: "blk list \<Rightarrow> nat \<Rightarrow> nat \<Rightarrow> blk list \<Rightarrow> blk list" where
  "coalesce us b s vs =
     (let (us, b, s) = merge_left us b s; (b, s, vs) = merge_right b s vs
      in us @ (b, s, Free) # vs)"

subsection \<open>Tilings and free lists\<close>

lemma tiles_append:
  "tiles a (us @ (b, s, st) # vs) e \<longleftrightarrow> tiles a us b \<and> 16 \<le> s \<and> s mod 8 = 0 \<and> tiles (b + s) vs e"
  by (induction us arbitrary: a) auto

lemma tiles_le: "tiles a bs e \<Longrightarrow> a \<le> e"
  by (induction a bs e rule: tiles.induct) auto

lemma tiles_bound: "tiles a bs e \<Longrightarrow> (b, s, st) \<in> set bs \<Longrightarrow> a \<le> b \<and> b + s \<le> e \<and> 16 \<le> s"
  by (induction a bs e rule: tiles.induct) (fastforce dest: tiles_le)+

lemma tiles_unique:
  "tiles a bs e \<Longrightarrow> (b, s, st) \<in> set bs \<Longrightarrow> (b, s', st') \<in> set bs \<Longrightarrow> s = s' \<and> st = st'"
proof (induction a bs e rule: tiles.induct)
  case (2 a c t su bs e)
  then have "(b, x, y) \<in> set bs \<Longrightarrow> c \<noteq> b" for x y
    using tiles_bound [of "c + t" bs e b x y] by auto
  with 2 show ?case by auto
qed simp

lemma mod8_add: "a mod 8 = 0 \<Longrightarrow> s mod 8 = 0 \<Longrightarrow> (a + s) mod 8 = (0::nat)"
  by presburger

lemma tiles_aligned: "tiles a bs e \<Longrightarrow> a mod 8 = 0 \<Longrightarrow> (b, s, st) \<in> set bs \<Longrightarrow> b mod 8 = 0"
  by (induction a bs e rule: tiles.induct) (auto simp: mod8_add)

lemma tiles_end_aligned: "tiles a bs e \<Longrightarrow> a mod 8 = 0 \<Longrightarrow> e mod 8 = 0"
  by (induction a bs e rule: tiles.induct) (auto simp: mod8_add)

lemma frees_append [simp]: "frees (us @ vs) = frees us @ frees vs"
  by (induction us rule: frees.induct) auto

lemma free_sum_append [simp]: "free_sum (us @ vs) = free_sum us + free_sum vs"
  by (induction us rule: free_sum.induct) auto

lemma frees_in: "b \<in> set (frees bs) \<longleftrightarrow> (\<exists>s. (b, s, Free) \<in> set bs)"
  by (induction bs rule: frees.induct) auto

lemma frees_range: "tiles a bs e \<Longrightarrow> b \<in> set (frees bs) \<Longrightarrow> a \<le> b \<and> b + 16 \<le> e"
  by (fastforce simp: frees_in dest: tiles_bound)

lemma frees_distinct: "tiles a bs e \<Longrightarrow> distinct (frees bs)"
proof (induction a bs e rule: tiles.induct)
  case (2 a b s st bs e)
  then show ?case by (auto dest!: frees_range)
qed simp

lemma flinks_append: "flinks h p (xs @ x # ys) e \<longleftrightarrow> flinks h p xs x \<and> flinks h x ys e"
  by (induction xs arbitrary: p) auto

lemma flinks_cong:
  "(\<And>y. y \<in> set (p # xs) \<Longrightarrow> pxNextFreeBlock h' y = pxNextFreeBlock h y) \<Longrightarrow> flinks h' p xs e = flinks h p xs e"
  by (induction xs arbitrary: p) auto

lemma flinks_next: "flinks h p (xs @ ys) e \<Longrightarrow> pxNextFreeBlock h (last (p # xs)) = hd (ys @ [e])"
  by (induction xs arbitrary: p; cases ys) auto

text \<open>Redirecting the link that leaves the last block of a segment, and the one that enters it.\<close>

lemma flinks_relink_last:
  assumes "flinks h p xs y" "distinct (p # xs)"
    and "\<And>z. z \<in> set (p # xs) \<Longrightarrow> z \<noteq> last (p # xs) \<Longrightarrow> pxNextFreeBlock h' z = pxNextFreeBlock h z"
    and "pxNextFreeBlock h' (last (p # xs)) = w"
  shows "flinks h' p xs w"
  using assms
proof (induction xs arbitrary: p)
  case (Cons x xs)
  then have "flinks h' x xs w" by (intro Cons.IH) auto
  moreover have "p \<noteq> last (p # x # xs)" using Cons.prems(2) by auto
  ultimately show ?case using Cons.prems by auto
qed simp

lemma flinks_relink_first:
  assumes "flinks h p ys e" "pxNextFreeBlock h' b = hd (ys @ [e])"
    and "\<And>z. z \<in> set ys \<Longrightarrow> pxNextFreeBlock h' z = pxNextFreeBlock h z"
  shows "flinks h' b ys e"
proof (cases ys)
  case (Cons y zs)
  with assms have "flinks h y zs e" by simp
  moreover have "flinks h' y zs e = flinks h y zs e" by (rule flinks_cong) (use assms(3) Cons in auto)
  ultimately show ?thesis using assms(2) Cons by simp
qed (use assms in simp)

lemma prvInsert_find_Some:
  assumes "flinks h p (xs @ ys) e" "\<forall>x \<in> set xs. x < b" "\<forall>y \<in> set (ys @ [e]). b \<le> y"
  shows "prvInsert_find h b p = Some (last (p # xs))"
  using assms(1,2)
proof (induction xs arbitrary: p)
  case Nil
  with assms(3) have "b \<le> pxNextFreeBlock h p" by (cases ys) auto
  then show ?case by (subst prvInsert_find.simps) simp
next
  case (Cons x xs)
  then show ?case by (subst prvInsert_find.simps) simp
qed

lemma malloc_find_Some:
  assumes "flinks h p (xs @ y # ys) e" "\<forall>x \<in> set xs. xBlockSize h x < w" "\<forall>x \<in> set (xs @ y # ys). pxNextFreeBlock h x \<noteq> 0"
    and "w \<le> xBlockSize h y"
  shows "malloc_find h w p (pxNextFreeBlock h p) = Some (last (p # xs), y)"
  using assms(1-3)
proof (induction xs arbitrary: p)
  case Nil
  with assms(4) show ?case by (subst malloc_find.simps) auto
next
  case (Cons x xs)
  then show ?case by (subst malloc_find.simps) auto
qed

lemma malloc_find_None:
  assumes "flinks h p xs e" "\<forall>x \<in> set xs. xBlockSize h x < w" "\<forall>x \<in> set xs. pxNextFreeBlock h x \<noteq> 0"
    and "pxNextFreeBlock h e = 0"
  shows "malloc_find h w p (pxNextFreeBlock h p) = Some (last (p # xs), e)"
  using assms(1-3)
proof (induction xs arbitrary: p)
  case Nil
  with assms(4) show ?case by (subst malloc_find.simps) auto
next
  case (Cons x xs)
  then show ?case by (subst malloc_find.simps) auto
qed

subsection \<open>Inserting a block into the free list\<close>

text \<open>
  The shape every insertion ends in: block \<open>b1\<close> of size \<open>s2\<close> is free between \<open>us1\<close> and
  \<open>vs2\<close>, and only its header and the link into it have changed.
\<close>

lemma heap_rel0_install:
  assumes r: "heap_rel0 h base bs"
    and t: "tiles base (us1 @ (b1, s2, Free) # vs2) (pxEnd h)"
    and ok: "\<forall>c \<in> set us1 \<union> set vs2. blk_ok h c"
    and lk1: "\<exists>y. flinks h (xStart h) (frees us1) y" and lk2: "\<exists>p. flinks h p (frees vs2) (pxEnd h)"
    and n: "pxNextFreeBlock h' = (pxNextFreeBlock h)
        (b1 := hd (frees vs2 @ [pxEnd h]), last (xStart h # frees us1) := b1)"
    and s: "xBlockSize h' = (xBlockSize h)(b1 := s2)"
    and f: "xStart h' = xStart h" "pxEnd h' = pxEnd h" "xBlockAllocatedBit h' = xBlockAllocatedBit h"
  shows "heap_rel0 h' base (us1 @ (b1, s2, Free) # vs2)"
proof -
  let ?e = "pxEnd h" and ?p = "last (xStart h # frees us1)"
  from t have t1: "tiles base us1 b1" and t2: "tiles (b1 + s2) vs2 ?e" and s16: "16 \<le> s2"
    by (auto simp: tiles_append)
  have e: "b1 + s2 \<le> ?e" "base \<le> b1" using tiles_le t1 t2 by auto
  have xs: "xStart h < base \<or> ?e < xStart h" using r by (simp add: heap_rel0_def)
  have pin: "?p = xStart h \<or> ?p \<in> set (frees us1)" using last_in_set [of "frees us1"] by auto
  have pr: "?p = xStart h \<or> base \<le> ?p \<and> ?p + 16 \<le> b1" using pin frees_range [OF t1] by blast
  have p1: "?p \<noteq> b1" and pe: "?p \<noteq> ?e" using pr xs e s16 by linarith+
  have vs: "c \<noteq> b1 \<and> c \<noteq> ?p" if "c \<in> set (frees vs2)" for c
    using frees_range [OF t2 that] pr xs e s16 by linarith
  have "flinks h' (xStart h) (frees us1) b1"
  proof -
    from lk1 obtain y where "flinks h (xStart h) (frees us1) y" by blast
    then show ?thesis
    proof (rule flinks_relink_last)
      show "distinct (xStart h # frees us1)" using frees_distinct [OF t1] frees_range [OF t1] xs e s16 by fastforce
      show "pxNextFreeBlock h' z = pxNextFreeBlock h z"
        if "z \<in> set (xStart h # frees us1)" "z \<noteq> ?p" for z
        using that n xs e s16 frees_range [OF t1, of z] by auto
      show "pxNextFreeBlock h' ?p = b1" by (simp add: n)
    qed
  qed
  moreover have "flinks h' b1 (frees vs2) ?e"
  proof -
    from lk2 obtain q where "flinks h q (frees vs2) ?e" by blast
    then show ?thesis by (rule flinks_relink_first) (use n p1 vs in auto)
  qed
  moreover have "blk_ok h' c" if c: "c \<in> set us1 \<union> set vs2" for c
  proof -
    obtain a w st where c3: "c = (a, w, st)" by (cases c)
    have a: "a \<noteq> b1" using c c3 tiles_bound [OF t1, of a w st] tiles_bound [OF t2, of a w st] s16 by auto
    have "a \<noteq> ?p" if "st = Alloc"
    proof
      assume "a = ?p"
      then consider "xStart h = a" | w' where "(a, w', Free) \<in> set us1"
        using pin by (auto simp: frees_in)
      then show False
      proof cases
        case 1
        then show False using c c3 xs e s16 tiles_bound [OF t1, of a w st] tiles_bound [OF t2, of a w st] by auto
      next
        case 2
        then show False using tiles_unique [OF t, of a w' Free w st] that c c3 by auto
      qed
    qed
    moreover have "blk_ok h (a, w, st)" using ok c c3 by blast
    ultimately show ?thesis using a by (cases st) (simp_all add: blk_ok_def c3 n s)
  qed
  moreover have "xStart h \<noteq> b1" "?e \<noteq> b1" using xs e s16 by auto
  moreover have "blk_ok h' (b1, s2, Free)" by (simp add: blk_ok_def s)
  moreover have "pxNextFreeBlock h' ?e = 0" "xBlockSize h' ?e = 0" "xBlockSize h' (xStart h) = 0"
    using calculation(4,5) r n s pe by (auto simp: heap_rel0_def)
  ultimately show ?thesis
    using r t f by (simp add: heap_rel0_def flinks_append ball_Un)
qed


lemma merge_left_cases:
  obtains (merge) a t us1 where "us = us1 @ [(a, t, Free)]" "merge_left us b s = (us1, a, t + s)"
  | (keep) "merge_left us b s = (us, b, s)" "\<And>us1 a t. us \<noteq> us1 @ [(a, t, Free)]"
proof (cases us rule: rev_cases)
  case (snoc us1 x)
  obtain a t st where x: "x = (a, t, st)" by (cases x)
  show ?thesis
  proof (cases st)
    case Free
    with snoc x show ?thesis by (intro merge) (auto simp: merge_left_def)
  qed (use snoc x in \<open>auto intro!: keep simp: merge_left_def\<close>)
qed (auto intro!: keep simp: merge_left_def)

lemma merge_right_cases:
  obtains (merge) c t vs2 where "vs = (c, t, Free) # vs2" "merge_right b s vs = (b, s + t, vs2)"
  | (keep) "merge_right b s vs = (b, s, vs)" "\<And>c t vs2. vs \<noteq> (c, t, Free) # vs2"
proof (cases vs)
  case (Cons x vs2)
  obtain c t st where x: "x = (c, t, st)" by (cases x)
  show ?thesis
  proof (cases st)
    case Free
    with Cons x show ?thesis by (intro merge) (auto simp: merge_right_def)
  qed (use Cons x in \<open>auto intro!: keep simp: merge_right_def\<close>)
qed (auto intro!: keep simp: merge_right_def)

text \<open>The two adjacency tests of the code decide exactly whether a neighbour is free.\<close>

lemma adjacent_left:
  assumes "heap_rel0 h base (us @ (b, s, st) # vs)" "p = last (xStart h # frees us)"
  shows "p + xBlockSize h p = b \<longleftrightarrow> (\<exists>us1 a t. us = us1 @ [(a, t, Free)])"
proof -
  have t: "tiles base us b" and xs: "xStart h < base \<or> pxEnd h < xStart h"
    and be: "b \<le> pxEnd h" "base \<le> b" and z: "xBlockSize h (xStart h) = 0"
    and ok: "\<forall>c \<in> set us. blk_ok h c"
    using assms(1) tiles_le by (auto simp: heap_rel0_def tiles_append dest!: tiles_le)
  show ?thesis
  proof (cases us rule: rev_cases)
    case Nil
    with assms(2) z xs be show ?thesis by auto
  next
    case (snoc us1 x)
    obtain a w st1 where x: "x = (a, w, st1)" by (cases x)
    have a: "tiles base us1 a" "16 \<le> w" "a + w = b" using t snoc x by (auto simp: tiles_append)
    show ?thesis
    proof (cases "st1 = Free")
      case True
      with snoc x assms(2) ok a show ?thesis by (auto simp: blk_ok_def)
    next
      case False
      have "p + xBlockSize h p \<noteq> b"
      proof (cases "frees us1 = []")
        case True
        with False snoc x assms(2) z xs be show ?thesis by auto
      next
        case nonempty: False
        then have "p \<in> set (frees us1)" using False snoc x assms(2) by simp
        then obtain w' where w': "(p, w', Free) \<in> set us1" by (auto simp: frees_in)
        with ok snoc have "xBlockSize h p = w'" by (auto simp: blk_ok_def)
        with tiles_bound [OF a(1) w'] a show ?thesis by simp
      qed
      with False snoc x show ?thesis by auto
    qed
  qed
qed

lemma adjacent_right:
  assumes "tiles (b + s) vs e" "q = hd (frees vs @ [e])"
  shows "b + s = q \<longleftrightarrow> vs = [] \<or> (\<exists>c t vs2. vs = (c, t, Free) # vs2)"
proof (cases vs)
  case Nil
  with assms show ?thesis by simp
next
  case (Cons x vs2)
  obtain c t st where x: "x = (c, t, st)" by (cases x)
  show ?thesis
  proof (cases "st = Free")
    case True
    with Cons x assms show ?thesis by auto
  next
    case False
    have "b + s + t \<le> q" "16 \<le> t"
      using assms Cons x False frees_range [of "b + s + t" vs2 e] tiles_le [of "b + s + t" vs2 e]
      by (cases "frees vs2"; auto)+
    with False Cons x show ?thesis by auto
  qed
qed

definition same_counters :: "heap4 \<Rightarrow> heap4 \<Rightarrow> bool" where
  "same_counters h h' \<longleftrightarrow> xStart h' = xStart h \<and> ucHeap h' = ucHeap h \<and> pxEnd h' = pxEnd h \<and>
     xBlockAllocatedBit h' = xBlockAllocatedBit h \<and> xFreeBytesRemaining h' = xFreeBytesRemaining h \<and>
     xMinimumEverFreeBytesRemaining h' = xMinimumEverFreeBytesRemaining h"

lemma same_counters_prvInsert_at: "same_counters h (prvInsert_at p b h)"
  by (auto simp: same_counters_def prvInsert_at_def set_next_def set_size_def Let_def)

text \<open>The four outcomes of the insertion, as header updates.\<close>

lemma prvInsert_at_fields:
  assumes nx: "pxNextFreeBlock h p = q" and pb: "p \<noteq> b"
    and L: "p + xBlockSize h p = b \<longleftrightarrow> L" and R: "b + xBlockSize h b = q \<longleftrightarrow> R"
    and qp: "q \<noteq> p" "q \<noteq> b"
  defines "b1 \<equiv> (if L then p else b)"
    and "s1 \<equiv> (if L then xBlockSize h p + xBlockSize h b else xBlockSize h b)"
  shows "pxNextFreeBlock (prvInsert_at p b h) =
      (pxNextFreeBlock h)(p := b1, b1 := (if R \<and> q \<noteq> pxEnd h then pxNextFreeBlock h q else q))"
    and "xBlockSize (prvInsert_at p b h) =
      (xBlockSize h)(b1 := (if R \<and> q \<noteq> pxEnd h then s1 + xBlockSize h q else s1))"
proof -
  have R': "p + (xBlockSize h p + xBlockSize h b) = q \<longleftrightarrow> R" if L using that L R by (metis add.assoc)
  show "pxNextFreeBlock (prvInsert_at p b h) =
      (pxNextFreeBlock h)(p := b1, b1 := (if R \<and> q \<noteq> pxEnd h then pxNextFreeBlock h q else q))"
    using assms R' by (cases L) (auto simp: prvInsert_at_def set_next_def set_size_def Let_def)
  show "xBlockSize (prvInsert_at p b h) =
      (xBlockSize h)(b1 := (if R \<and> q \<noteq> pxEnd h then s1 + xBlockSize h q else s1))"
    using assms R' by (cases L) (auto simp: prvInsert_at_def set_next_def set_size_def Let_def)
qed

lemma merge_right_fields:
  assumes t: "tiles (b1 + s1) vs e" and fl: "flinks h x (frees vs) e" and q: "q = hd (frees vs @ [e])"
    and ok: "\<forall>c \<in> set vs. blk_ok h c" and m: "merge_right b1 s1 vs = (b1, s2, vs2)"
    and s1: "16 \<le> s1" "s1 mod 8 = 0"
    and R: "R \<longleftrightarrow> vs = [] \<or> (\<exists>c t vs2. vs = (c, t, Free) # vs2)"
  shows "hd (frees vs2 @ [e]) = (if R \<and> q \<noteq> e then pxNextFreeBlock h q else q) \<and>
     s2 = (if R \<and> q \<noteq> e then s1 + xBlockSize h q else s1) \<and>
     tiles (b1 + s2) vs2 e \<and> 16 \<le> s2 \<and> s2 mod 8 = 0 \<and> set vs2 \<subseteq> set vs \<and>
     (\<exists>x. flinks h x (frees vs2) e)"
proof (cases rule: merge_right_cases [of vs b1 s1])
  case (merge c t vs3)
  with m have m': "s2 = s1 + t" "vs2 = vs3" by auto
  have c: "c = b1 + s1" "16 \<le> t" "t mod 8 = 0" "tiles (b1 + (s1 + t)) vs3 e" "c \<noteq> e" "xBlockSize h c = t"
    using t merge ok tiles_le [of "c + t" vs3 e] by (auto simp: blk_ok_def add.assoc)
  have "flinks h c (frees vs3) e" using fl merge by simp
  moreover have "pxNextFreeBlock h c = hd (frees vs3 @ [e])" using flinks_next [of h c "[]"] calculation by simp
  moreover have "R" "q = c" using R merge q by auto
  ultimately show ?thesis
    using m' c s1 merge(1) by (auto simp: mod8_add intro: exI [of _ c])
next
  case keep
  with m have m': "s2 = s1" "vs2 = vs" by auto
  have "R \<Longrightarrow> q = e" using R keep(2) q by auto
  then show ?thesis
    using m' t fl s1 q by auto
qed

lemma merge_left_fields:
  assumes t: "tiles base us b" and fl: "flinks h x0 (frees us @ fs) e" and p: "p = last (x0 # frees us)"
    and ok: "\<forall>c \<in> set us. blk_ok h c" and m: "merge_left us b s = (us1, b1, s1)"
    and s: "16 \<le> s" "s mod 8 = 0"
    and L: "L \<longleftrightarrow> (\<exists>us1 a t. us = us1 @ [(a, t, Free)])"
  shows "b1 = (if L then p else b) \<and> s1 = (if L then xBlockSize h p + s else s) \<and> b1 + s1 = b + s \<and>
     tiles base us1 b1 \<and> 16 \<le> s1 \<and> s1 mod 8 = 0 \<and> set us1 \<subseteq> set us \<and>
     (\<exists>y. flinks h x0 (frees us1) y) \<and>
     (us1 = us \<and> b1 = b \<or> b1 = p \<and> pxNextFreeBlock h (last (x0 # frees us1)) = b1)"
proof (cases rule: merge_left_cases [of us b s])
  case (merge a t us3)
  with m have m': "us1 = us3" "b1 = a" "s1 = t + s" by auto
  have a: "tiles base us3 a" "16 \<le> t" "t mod 8 = 0" "a + t = b" "xBlockSize h a = t" "p = a" "L"
    using t merge ok p L by (auto simp: tiles_append blk_ok_def)
  have "flinks h x0 (frees us3 @ a # fs) e" using fl merge by simp
  then have "flinks h x0 (frees us3) a" "pxNextFreeBlock h (last (x0 # frees us3)) = a"
    using flinks_next [of h x0 "frees us3" "a # fs" e] by (simp_all add: flinks_append)
  then show ?thesis
    using m' a s merge(1) by (auto simp: mod8_add)
next
  case keep
  with m have m': "us1 = us" "b1 = b" "s1 = s" by auto
  have "\<not> L" using L keep(2) by auto
  moreover have "\<exists>y. flinks h x0 (frees us) y" using fl by (cases fs) (auto simp: flinks_append)
  ultimately show ?thesis
    using m' t s by auto
qed

lemma prvInsertBlockIntoFreeList_rel0:
  assumes r: "heap_rel0 h base (us @ (b, s, Limbo) # vs)"
  obtains h' where "prvInsertBlockIntoFreeList b h = Some h'"
    "heap_rel0 h' base (coalesce us b s vs)" "same_counters h h'"
proof -
  let ?e = "pxEnd h"
  define p where "p = last (xStart h # frees us)"
  define q where "q = hd (frees vs @ [?e])"
  have t1: "tiles base us b" and t2: "tiles (b + s) vs ?e" and s16: "16 \<le> s" "s mod 8 = 0"
    and fl: "flinks h (xStart h) (frees us @ frees vs) ?e" and okb: "blk_ok h (b, s, Limbo)"
    and xs: "xStart h < base \<or> ?e < xStart h" and ok: "\<forall>c \<in> set us. blk_ok h c" "\<forall>c \<in> set vs. blk_ok h c"
    using r by (auto simp: heap_rel0_def tiles_append)
  have szb: "xBlockSize h b = s" using okb by (simp add: blk_ok_def)
  obtain x1 where flv: "flinks h x1 (frees vs) ?e" using fl
    by (cases "frees us" rule: rev_cases) (auto simp: flinks_append)
  have le: "base \<le> b" "b + s \<le> ?e" using tiles_le t1 t2 by auto
  have "prvInsert_find h b (xStart h) = Some p"
    unfolding p_def
    by (rule prvInsert_find_Some [OF fl]) (use frees_range [OF t1] frees_range [OF t2] le in force)+
  then have ins: "prvInsertBlockIntoFreeList b h = Some (prvInsert_at p b h)"
    by (simp add: prvInsertBlockIntoFreeList_def)
  have nx: "pxNextFreeBlock h p = q" unfolding p_def q_def by (rule flinks_next [OF fl])
  have pin: "p = xStart h \<or> base \<le> p \<and> p + 16 \<le> b"
    using frees_range [OF t1] last_in_set [of "frees us"] by (auto simp: p_def)
  have qin: "b + s \<le> q" "q \<le> ?e"
    using frees_range [OF t2] le by (cases "frees vs"; force simp: q_def)+
  have pb: "p \<noteq> b" and qp: "q \<noteq> p" "q \<noteq> b" using pin qin xs le s16 by linarith+
  note F = prvInsert_at_fields [OF nx pb adjacent_left [OF r p_def]
      adjacent_right [OF t2 q_def, folded szb] qp]
  have sc: "same_counters h (prvInsert_at p b h)" by (rule same_counters_prvInsert_at)
  obtain us1 b1 s1 where ml: "merge_left us b s = (us1, b1, s1)" by (metis prod_cases3)
  obtain s2 vs2 where mr: "merge_right b1 s1 vs = (b1, s2, vs2)"
    by (cases rule: merge_right_cases [of vs b1 s1]) auto
  have lf: "b1 = (if \<exists>us1 a t. us = us1 @ [(a, t, Free)] then p else b)"
    "s1 = (if \<exists>us1 a t. us = us1 @ [(a, t, Free)] then xBlockSize h p + s else s)" "b1 + s1 = b + s"
    "tiles base us1 b1" "16 \<le> s1" "s1 mod 8 = 0" "set us1 \<subseteq> set us"
    "\<exists>y. flinks h (xStart h) (frees us1) y"
    "us1 = us \<and> b1 = b \<or> b1 = p \<and> pxNextFreeBlock h (last (xStart h # frees us1)) = b1"
    using merge_left_fields [OF t1 fl p_def ok(1) ml s16 refl] by blast+
  let ?R = "vs = [] \<or> (\<exists>c t vs2. vs = (c, t, Free) # vs2)"
  have rf: "hd (frees vs2 @ [?e]) = (if ?R \<and> q \<noteq> ?e then pxNextFreeBlock h q else q)"
    "s2 = (if ?R \<and> q \<noteq> ?e then s1 + xBlockSize h q else s1)"
    "tiles (b1 + s2) vs2 ?e" "16 \<le> s2" "s2 mod 8 = 0" "set vs2 \<subseteq> set vs" "\<exists>x. flinks h x (frees vs2) ?e"
    using merge_right_fields [OF _ flv q_def ok(2) mr lf(5,6) refl, unfolded lf(3), OF t2] by blast+
  have N: "pxNextFreeBlock (prvInsert_at p b h) = (pxNextFreeBlock h)(p := b1, b1 := hd (frees vs2 @ [?e]))"
    "xBlockSize (prvInsert_at p b h) = (xBlockSize h)(b1 := s2)"
    using F unfolding rf(1,2) lf(1,2) szb by simp_all
  have "heap_rel0 (prvInsert_at p b h) base (us1 @ (b1, s2, Free) # vs2)"
  proof (rule heap_rel0_install [OF r])
    show "tiles base (us1 @ (b1, s2, Free) # vs2) (pxEnd h)" using lf(4) rf(3-5) by (simp add: tiles_append)
    show "\<forall>c\<in>set us1 \<union> set vs2. blk_ok h c" using lf(7) rf(6) ok by blast
    show "pxNextFreeBlock (prvInsert_at p b h) = (pxNextFreeBlock h)
        (b1 := hd (frees vs2 @ [pxEnd h]), last (xStart h # frees us1) := b1)"
      using lf(9)
    proof
      assume a: "us1 = us \<and> b1 = b"
      then have "last (xStart h # frees us1) = p" by (simp add: p_def)
      with a pb show ?thesis unfolding N(1) by (metis fun_upd_twist)
    next
      assume a: "b1 = p \<and> pxNextFreeBlock h (last (xStart h # frees us1)) = b1"
      then have "last (xStart h # frees us1) \<noteq> p" using nx qp(1) by metis
      with a show ?thesis unfolding N(1) by (metis fun_upd_triv fun_upd_twist fun_upd_upd)
    qed
    show "\<exists>y. flinks h (xStart h) (frees us1) y" "\<exists>x. flinks h x (frees vs2) (pxEnd h)"
      "xBlockSize (prvInsert_at p b h) = (xBlockSize h)(b1 := s2)" by (fact lf(8) rf(7) N(2))+
  qed (use sc in \<open>simp_all add: same_counters_def\<close>)
  then have "heap_rel0 (prvInsert_at p b h) base (coalesce us b s vs)"
    by (simp add: coalesce_def ml mr)
  with ins sc show ?thesis by (intro that)
qed


subsection \<open>What the allocator does to the tiling\<close>

lemma xHeapStructSize_8 [simp]: "xHeapStructSize = 8"
  by (simp add: xHeapStructSize_def clear_bits_def portBYTE_ALIGNMENT_def portBYTE_ALIGNMENT_MASK_def)

lemma heapMINIMUM_BLOCK_SIZE_16 [simp]: "heapMINIMUM_BLOCK_SIZE = 16"
  by (simp add: heapMINIMUM_BLOCK_SIZE_def push_bit_eq_mult)

lemma and_mask_7: "n AND portBYTE_ALIGNMENT_MASK = n mod 8" for n :: nat
proof -
  have "n AND mask 3 = take_bit 3 n" by (rule take_bit_eq_mask [symmetric])
  then show ?thesis by (simp add: portBYTE_ALIGNMENT_MASK_def take_bit_eq_mod mask_eq_exp_minus_1)
qed

lemma and_exp: "(n::nat) AND 2 ^ k = of_bool (odd (n div 2 ^ k)) * 2 ^ k"
proof (cases "bit n k")
  case True
  then have "n AND 2 ^ k = 2 ^ k" by (intro bit_eqI) (auto simp: bit_and_iff bit_exp_iff)
  with True show ?thesis by (simp add: bit_iff_odd)
next
  case False
  then have "n AND 2 ^ k = 0" by (intro bit_eqI) (auto simp: bit_and_iff bit_exp_iff)
  with False show ?thesis by (simp add: bit_iff_odd)
qed

lemma or_exp: "s < 2 ^ k \<Longrightarrow> (s::nat) OR 2 ^ k = s + 2 ^ k"
proof -
  assume "s < 2 ^ k"
  then have "\<not> bit s k" by (simp add: bit_iff_odd)
  then have "set_bit k s = s + 2 ^ k" by (simp add: set_bit_eq)
  then show ?thesis by (simp add: set_bit_eq_or push_bit_eq_mult)
qed

lemma clear_exp: "s < 2 ^ k \<Longrightarrow> clear_bits (s + 2 ^ k) (2 ^ k) = s"
proof -
  assume "s < 2 ^ k"
  then have "(s + 2 ^ k) div 2 ^ k = 1" by (simp add: div_add_self2)
  then show ?thesis by (simp add: and_exp clear_bits_def)
qed

lemma alloc_bit_set: "s < 2 ^ k \<Longrightarrow> (s + 2 ^ k) AND 2 ^ k \<noteq> (0::nat)"
  by (simp add: and_exp div_add_self2)

lemma alloc_bit_clear: "s < 2 ^ k \<Longrightarrow> s AND 2 ^ k = (0::nat)"
  by (simp add: and_exp)

lemma mod8_split: obtains q r where "u = 8 * q + r" "r < (8::nat)"
  by (rule that [of "u div 8" "u mod 8"]) simp_all

lemma mod8_eq: "r < 8 \<Longrightarrow> (8 * k + r) mod 8 = (r::nat)"
  by simp

lemma div8_eq: "r < 8 \<Longrightarrow> (8 * k + r) div 8 = (k::nat)"
  by simp

lemma div8_round: "r < 8 \<Longrightarrow> (8 * q + r + 15) div 8 = (if r = 0 then q + 1 else q + (2::nat))"
proof (cases "r = 0")
  case False
  assume "r < 8"
  then have "(8 * (q + 2) + (r - 1)) div 8 = q + 2" by (intro div8_eq) simp
  moreover have "8 * q + r + 15 = 8 * (q + 2) + (r - 1)" using False by simp
  ultimately show ?thesis using False by (simp only: if_False)
qed (use div8_eq [of 7 "q + 1"] in simp)

lemma wanted_size_spec:
  assumes "0 < n" "n < 2 ^ 31"
  shows "wanted_size n = 8 * ((n + 15) div 8)"
proof -
  have w: "(n + 8) mod 2 ^ 32 = n + 8" using assms by simp
  have u: "(n + 8 + (8 - (n + 8) mod 8)) mod 2 ^ 32 = n + 8 + (8 - (n + 8) mod 8)"
  proof (rule mod_less)
    have "8 - (n + 8) mod 8 \<le> 8" by simp
    moreover have "n + 16 < 2 ^ 32" using assms by simp
    ultimately show "n + 8 + (8 - (n + 8) mod 8) < 2 ^ 32" by linarith
  qed
  have "wanted_size n = (if (n + 8) mod 8 \<noteq> 0 then n + 8 + (8 - (n + 8) mod 8) else n + 8)"
    using assms(1) unfolding wanted_size_def and_mask_7 xHeapStructSize_8 Let_def w portBYTE_ALIGNMENT_def u
    by simp
  also have "\<dots> = 8 * ((n + 15) div 8)"
  proof (rule mod8_split [of n])
    fix q r assume n: "n = 8 * q + r" "r < (8::nat)"
    have "(n + 8) mod 8 = r" using mod8_eq [OF n(2), of "q + 1"] n(1) by simp
    moreover have "(n + 15) div 8 = (if r = 0 then q + 1 else q + 2)" unfolding n(1) using n(2) by (rule div8_round)
    ultimately show ?thesis using n by simp
  qed
  finally show ?thesis .
qed

lemma wanted_size_bounds:
  assumes "0 < n" "n < 2 ^ 31"
  shows "n + 8 \<le> wanted_size n \<and> wanted_size n < n + 16 \<and> 16 \<le> wanted_size n \<and> wanted_size n mod 8 = 0"
proof (rule mod8_split [of n])
  fix q r assume n: "n = 8 * q + r" "r < (8::nat)"
  have "(n + 15) div 8 = (if r = 0 then q + 1 else q + 2)" unfolding n(1) using n(2) by (rule div8_round)
  then show ?thesis unfolding wanted_size_spec [OF assms] using n assms(1) by auto
qed

text \<open>Facts about any one block of the tiling.\<close>

lemma heap_rel0_block:
  assumes "heap_rel0 h base (us @ (a, s, st) # vs)"
  shows "base \<le> a \<and> a + s \<le> pxEnd h \<and> 16 \<le> s \<and> s mod 8 = 0 \<and> a mod 8 = 0 \<and> s < 2 ^ 31 \<and> 0 < a \<and>
     a \<noteq> xStart h \<and> a \<noteq> pxEnd h \<and> blk_ok h (a, s, st) \<and>
     (\<forall>b t st'. (b, t, st') \<in> set us \<union> set vs \<longrightarrow> b \<noteq> a)"
proof -
  have t: "tiles base (us @ (a, s, st) # vs) (pxEnd h)" and al: "base mod 8 = 0" and b: "0 < base"
    and x: "xStart h < base \<or> pxEnd h < xStart h" and e: "pxEnd h < base + 2 ^ 31" and ok: "blk_ok h (a, s, st)"
    using assms by (auto simp: heap_rel0_def)
  have bd: "base \<le> a" "a + s \<le> pxEnd h" "16 \<le> s" using tiles_bound [OF t, of a s st] by auto
  moreover have "s mod 8 = 0" using t by (simp add: tiles_append)
  moreover have "a mod 8 = 0" using tiles_aligned [OF t al, of a s st] by simp
  moreover have "a \<noteq> xStart h" "a \<noteq> pxEnd h" "0 < a" "s < 2 ^ 31" using x bd b e by auto
  moreover have "c \<noteq> a" if "(c, u, st') \<in> set us \<union> set vs" for c u st'
  proof -
    have "tiles base us a" "tiles (a + s) vs (pxEnd h)" using t by (auto simp: tiles_append)
    with that bd(3) show ?thesis by (auto dest!: tiles_bound)
  qed
  ultimately show ?thesis using ok by blast
qed

lemma blk_ok_cong:
  "xBlockSize h' a = xBlockSize h a \<Longrightarrow> pxNextFreeBlock h' a = pxNextFreeBlock h a \<Longrightarrow> blk_ok h' (a, s, st) = blk_ok h (a, s, st)"
  by (simp add: blk_ok_def split: bstate.splits)

text \<open>A change confined to the header of one block that is not in the free list.\<close>

lemma heap_rel0_header:
  assumes r: "heap_rel0 h base (us @ (a, s, st) # vs)" and st: "st \<noteq> Free" "st' \<noteq> Free"
    and n: "\<forall>b. b \<noteq> a \<longrightarrow> pxNextFreeBlock h' b = pxNextFreeBlock h b"
    and z: "\<forall>b. b \<noteq> a \<longrightarrow> xBlockSize h' b = xBlockSize h b"
    and f: "xStart h' = xStart h" "pxEnd h' = pxEnd h" "xBlockAllocatedBit h' = xBlockAllocatedBit h"
    and ok: "blk_ok h' (a, s, st')"
  shows "heap_rel0 h' base (us @ (a, s, st') # vs)"
proof -
  note B = heap_rel0_block [OF r]
  have na: "a \<notin> set (xStart h # frees us @ frees vs)"
    using B by (auto simp: frees_in)
  have "flinks h' (xStart h) (frees us @ frees vs) (pxEnd h) = flinks h (xStart h) (frees us @ frees vs) (pxEnd h)"
    by (rule flinks_cong) (use na n in auto)
  moreover have "blk_ok h' c" if "c \<in> set us \<union> set vs" for c
  proof -
    obtain b t su where c: "c = (b, t, su)" by (cases c)
    then have "b \<noteq> a" using B that by blast
    then have "blk_ok h' c = blk_ok h c" unfolding c using n z by (intro blk_ok_cong) auto
    then show ?thesis using that r by (auto simp: heap_rel0_def)
  qed
  ultimately show ?thesis
    using r st f B n z ok by (simp add: heap_rel0_def tiles_append ball_Un)
qed

lemma heap_rel0_unlink:
  assumes r: "heap_rel0 h base (us @ (a, s, Free) # vs)" and p: "p = last (xStart h # frees us)"
  shows "heap_rel0 (set_next p (pxNextFreeBlock h a) h) base (us @ (a, s, Limbo) # vs)"
    and "pxNextFreeBlock h p = a"
proof -
  let ?e = "pxEnd h" and ?h = "set_next p (pxNextFreeBlock h a) h"
  note B = heap_rel0_block [OF r]
  have t1: "tiles base us a" and t2: "tiles (a + s) vs ?e"
    and fl: "flinks h (xStart h) (frees us @ a # frees vs) ?e"
    and xs: "xStart h < base \<or> ?e < xStart h"
    using r by (auto simp: heap_rel0_def tiles_append)
  show "pxNextFreeBlock h p = a" unfolding p using flinks_next [OF fl] by simp
  from fl have f1: "flinks h (xStart h) (frees us) a" and f2: "flinks h a (frees vs) ?e"
    by (auto simp: flinks_append)
  have hd: "pxNextFreeBlock h a = hd (frees vs @ [?e])" using flinks_next [of h a "[]"] f2 by simp
  have pin: "p = xStart h \<or> p \<in> set (frees us)" using p last_in_set [of "frees us"] by auto
  have pr: "p = xStart h \<or> base \<le> p \<and> p + 16 \<le> a" using pin frees_range [OF t1] by blast
  have pne: "p \<noteq> ?e" using pr xs B by linarith
  have d: "distinct (xStart h # frees us)" using frees_distinct [OF t1] frees_range [OF t1] xs B by fastforce
  have "flinks ?h (xStart h) (frees us) (hd (frees vs @ [?e]))"
    by (rule flinks_relink_last [OF f1 d]) (auto simp: set_next_def p hd)
  moreover have "pxNextFreeBlock ?h c = pxNextFreeBlock h c" if "c \<in> set (frees vs)" for c
    using frees_range [OF t2 that] pr xs B by (auto simp: set_next_def)
  ultimately have "flinks ?h (xStart h) (frees us @ frees vs) ?e"
  proof (cases "frees vs")
    case (Cons y ys)
    then have "flinks h y ys ?e" using f2 by simp
    moreover have "flinks ?h y ys ?e = flinks h y ys ?e"
      by (rule flinks_cong) (use Cons \<open>\<And>c. c \<in> set (frees vs) \<Longrightarrow> _\<close> in auto)
    ultimately show ?thesis
      using Cons \<open>flinks ?h (xStart h) (frees us) (hd (frees vs @ [?e]))\<close> by (simp add: flinks_append)
  qed simp
  moreover have "blk_ok ?h (b, w, su)" if "(b, w, su) \<in> set us \<union> set vs" for b w su
  proof -
    have "su = Alloc \<Longrightarrow> b \<noteq> p"
    proof
      assume su: "su = Alloc" and "b = p"
      then consider "b = xStart h" | w' where "(b, w', Free) \<in> set us" using pin by (auto simp: frees_in)
      then show False
      proof cases
        case 1
        then show False using that xs B tiles_bound [OF t1, of b w su] tiles_bound [OF t2, of b w su] by auto
      next
        case 2
        have "tiles base (us @ (a, s, Free) # vs) ?e" using r by (simp add: heap_rel0_def)
        from tiles_unique [OF this, of b w' Free w su] 2 that su show False by auto
      qed
    qed
    moreover have "blk_ok h (b, w, su)" using r that by (auto simp: heap_rel0_def)
    ultimately show ?thesis by (cases su) (auto simp: blk_ok_def set_next_def set_size_def)
  qed
  moreover have "blk_ok ?h (a, s, Limbo)" using B by (simp add: blk_ok_def set_next_def)
  ultimately show "heap_rel0 ?h base (us @ (a, s, Limbo) # vs)"
    using r pne by (auto simp: heap_rel0_def tiles_append set_next_def)
qed

lemma heap_rel0_split:
  assumes r: "heap_rel0 h base (us @ (a, s, Limbo) # vs)"
    and w: "16 \<le> w" "w mod 8 = 0" "w + 16 \<le> s"
  shows "heap_rel0 (set_size a w (set_size (a + w) (s - w) h)) base
     ((us @ [(a, w, Limbo)]) @ (a + w, s - w, Limbo) # vs)"
proof -
  let ?e = "pxEnd h" and ?h = "set_size a w (set_size (a + w) (s - w) h)"
  note B = heap_rel0_block [OF r]
  have t1: "tiles base us a" and t2: "tiles (a + s) vs ?e"
    and fl: "flinks h (xStart h) (frees us @ frees vs) ?e"
    and xs: "xStart h < base \<or> ?e < xStart h"
    using r by (auto simp: heap_rel0_def tiles_append)
  have "s mod 8 = 0" using B by blast
  then have m: "(s - w) mod 8 = 0" using w by presburger
  have "blk_ok ?h (b, u, su)" if "(b, u, su) \<in> set us \<union> set vs" for b u su
  proof -
    have "b + 16 \<le> a \<or> a + s \<le> b" using that tiles_bound [OF t1, of b u su] tiles_bound [OF t2, of b u su] by auto
    then have "b \<noteq> a" "b \<noteq> a + w" using w by auto
    moreover have "blk_ok h (b, u, su)" using r that by (auto simp: heap_rel0_def)
    ultimately show ?thesis by (simp add: blk_ok_def set_size_def split: bstate.splits)
  qed
  moreover have "blk_ok ?h (a, w, Limbo)" "blk_ok ?h (a + w, s - w, Limbo)"
    using w by (auto simp: blk_ok_def set_size_def)
  moreover have "flinks ?h (xStart h) (frees us @ frees vs) ?e"
    using fl flinks_cong [of "xStart h" _ ?h h] by (simp add: set_size_def)
  moreover have "tiles base ((us @ [(a, w, Limbo)]) @ (a + w, s - w, Limbo) # vs) ?e"
    using t1 t2 w m by (simp add: tiles_append)
  moreover have "xStart h \<noteq> a + w" "?e \<noteq> a + w" "xStart h \<noteq> a" "?e \<noteq> a" using xs B w by auto
  ultimately show ?thesis
    using r by (auto simp: heap_rel0_def set_size_def)
qed

text \<open>
  The specification of the allocator on the tiling. \<open>ff_alloc\<close> takes the first free block that is
  large enough and cuts it if the rest is worth keeping; \<open>ff_free\<close> returns an allocated block and
  merges it with its free neighbours.
\<close>

fun ff_alloc :: "nat \<Rightarrow> blk list \<Rightarrow> (nat \<times> blk list) option" where
  "ff_alloc w [] = None"
| "ff_alloc w ((a, s, st) # bs) =
     (if st = Free \<and> w \<le> s
      then Some (a, if s - w > 16 then (a, w, Alloc) # (a + w, s - w, Free) # bs else (a, s, Alloc) # bs)
      else map_option (\<lambda>(p, cs). (p, (a, s, st) # cs)) (ff_alloc w bs))"

fun ff_free :: "blk list \<Rightarrow> nat \<Rightarrow> blk list \<Rightarrow> blk list option" where
  "ff_free us a [] = None"
| "ff_free us a ((b, s, st) # bs) =
     (if b = a then if st = Alloc then Some (coalesce us b s bs) else None
      else ff_free (us @ [(b, s, st)]) a bs)"

lemma ff_alloc_None: "ff_alloc w bs = None \<longleftrightarrow> (\<forall>a s. (a, s, Free) \<in> set bs \<longrightarrow> s < w)"
  by (induction bs rule: ff_alloc.induct) auto

lemma ff_alloc_Some:
  "ff_alloc w bs = Some (a, cs) \<Longrightarrow> \<exists>us s vs. bs = us @ (a, s, Free) # vs \<and> w \<le> s \<and>
     (\<forall>b t. (b, t, Free) \<in> set us \<longrightarrow> t < w) \<and>
     cs = us @ (if s - w > 16 then (a, w, Alloc) # (a + w, s - w, Free) # vs else (a, s, Alloc) # vs)"
proof (induction bs arbitrary: cs)
  case (Cons x bs)
  obtain b t st where x: "x = (b, t, st)" by (cases x)
  show ?case
  proof (cases "st = Free \<and> w \<le> t")
    case True
    with Cons.prems x show ?thesis by (intro exI [of _ "[]"]) auto
  next
    case False
    then obtain ds where "ff_alloc w bs = Some (a, ds)" and cs: "cs = x # ds"
      using Cons.prems x by auto
    from Cons.IH [OF this(1)] obtain us s vs where IH: "bs = us @ (a, s, Free) # vs" "w \<le> s"
      "\<forall>b t. (b, t, Free) \<in> set us \<longrightarrow> t < w"
      "ds = us @ (if s - w > 16 then (a, w, Alloc) # (a + w, s - w, Free) # vs else (a, s, Alloc) # vs)"
      by blast
    have "\<forall>b t. (b, t, Free) \<in> set (x # us) \<longrightarrow> t < w" using IH(3) False x by auto
    with IH cs show ?thesis by (intro exI [of _ "x # us"] exI [of _ s] exI [of _ vs]) simp
  qed
qed simp

lemma ff_free_Some:
  "ff_free us a bs = Some cs \<Longrightarrow> \<exists>us' s vs. us @ bs = us' @ (a, s, Alloc) # vs \<and> cs = coalesce us' a s vs"
proof (induction us a bs rule: ff_free.induct)
  case (2 us a b s st bs)
  show ?case
  proof (cases "b = a")
    case True
    with 2 show ?thesis by (auto split: if_splits)
  next
    case False
    with 2 show ?thesis by simp
  qed
qed simp

lemma nonadj_append: "nonadj (us @ (a, s, st) # vs) \<longleftrightarrow>
    nonadj us \<and> nonadj vs \<and> (st = Free \<longrightarrow> (\<forall>us' b t. us \<noteq> us' @ [(b, t, Free)]) \<and> (\<forall>b t vs'. vs \<noteq> (b, t, Free) # vs'))"
proof (induction us rule: nonadj.induct)
  case (1 b s st b' s' st' bs)
  then show ?case by (auto simp: Cons_eq_append_conv)
qed (cases vs; auto simp: Cons_eq_append_conv)+

lemma coalesce_cases:
  obtains us1 b1 l r vs2 where "coalesce us b s vs = us1 @ (b1, l + s + r, Free) # vs2"
    "us = us1 @ [(b1, l, Free)] \<or> l = 0 \<and> us1 = us \<and> b1 = b \<and> (\<forall>us' a t. us \<noteq> us' @ [(a, t, Free)])"
    "(\<exists>c. vs = (c, r, Free) # vs2) \<or> r = 0 \<and> vs2 = vs \<and> (\<forall>c t vs'. vs \<noteq> (c, t, Free) # vs')"
proof -
  obtain us1 b1 l where L: "merge_left us b s = (us1, b1, l + s)"
    "us = us1 @ [(b1, l, Free)] \<or> l = 0 \<and> us1 = us \<and> b1 = b \<and> (\<forall>us' a t. us \<noteq> us' @ [(a, t, Free)])"
    by (cases rule: merge_left_cases [of us b s]) auto
  obtain r vs2 where R: "merge_right b1 (l + s) vs = (b1, l + s + r, vs2)"
    "(\<exists>c. vs = (c, r, Free) # vs2) \<or> r = 0 \<and> vs2 = vs \<and> (\<forall>c t vs'. vs \<noteq> (c, t, Free) # vs')"
    by (cases rule: merge_right_cases [of vs b1 "l + s"]) auto
  show ?thesis by (rule that [OF _ L(2) R(2)]) (simp add: coalesce_def L R)
qed

lemma free_sum_coalesce: "free_sum (coalesce us b s vs) = free_sum us + s + free_sum vs"
  by (rule coalesce_cases [of us b s vs]) auto

lemma nonadj_coalesce:
  assumes "nonadj us" "nonadj vs" shows "nonadj (coalesce us b s vs)"
proof (rule coalesce_cases [of us b s vs])
  fix us1 b1 l r vs2
  assume c: "coalesce us b s vs = us1 @ (b1, l + s + r, Free) # vs2"
    and l: "us = us1 @ [(b1, l, Free)] \<or> l = 0 \<and> us1 = us \<and> b1 = b \<and> (\<forall>us' a t. us \<noteq> us' @ [(a, t, Free)])"
    and r: "(\<exists>c. vs = (c, r, Free) # vs2) \<or> r = 0 \<and> vs2 = vs \<and> (\<forall>c t vs'. vs \<noteq> (c, t, Free) # vs')"
  have "nonadj us1 \<and> (\<forall>us' a t. us1 \<noteq> us' @ [(a, t, Free)])"
    using l assms(1) by (auto simp: nonadj_append)
  moreover have "nonadj vs2 \<and> (\<forall>c t vs'. vs2 \<noteq> (c, t, Free) # vs')"
    using r assms(2) nonadj_append [of "[]" _ r Free vs2] by auto
  ultimately show ?thesis unfolding c by (simp add: nonadj_append)
qed

lemma no_limbo_coalesce:
  assumes "\<forall>b \<in> set us \<union> set vs. snd (snd b) \<noteq> Limbo"
  shows "\<forall>c \<in> set (coalesce us b s vs). snd (snd c) \<noteq> Limbo"
proof (rule coalesce_cases [of us b s vs])
  fix us1 b1 l r vs2
  assume c: "coalesce us b s vs = us1 @ (b1, l + s + r, Free) # vs2"
    and l: "us = us1 @ [(b1, l, Free)] \<or> l = 0 \<and> us1 = us \<and> b1 = b \<and> (\<forall>us' a t. us \<noteq> us' @ [(a, t, Free)])"
    and r: "(\<exists>c. vs = (c, r, Free) # vs2) \<or> r = 0 \<and> vs2 = vs \<and> (\<forall>c t vs'. vs \<noteq> (c, t, Free) # vs')"
  have "set us1 \<subseteq> set us" "set vs2 \<subseteq> set vs" using l r by auto
  with assms show ?thesis unfolding c by auto
qed

lemma coalesce_alone:
  assumes "\<forall>us' a t. us \<noteq> us' @ [(a, t, Free)]" "\<forall>c t vs'. vs \<noteq> (c, t, Free) # vs'"
  shows "coalesce us b s vs = us @ (b, s, Free) # vs"
  by (rule coalesce_cases [of us b s vs]) (use assms in auto)

lemma flinks_next_nonzero:
  "flinks h p xs e \<Longrightarrow> 0 < e \<Longrightarrow> \<forall>x \<in> set xs. 0 < x \<Longrightarrow> \<forall>x \<in> set xs. pxNextFreeBlock h x \<noteq> 0"
proof (induction xs arbitrary: p)
  case (Cons x xs)
  then have "\<forall>x \<in> set xs. pxNextFreeBlock h x \<noteq> 0" by (intro Cons.IH) auto
  then show ?case using Cons.prems by (cases xs) auto
qed simp

lemma heap_rel0_find:
  assumes r: "heap_rel0 h base bs"
  shows "ff_alloc w bs = None \<Longrightarrow>
      \<exists>p. malloc_find h w (xStart h) (pxNextFreeBlock h (xStart h)) = Some (p, pxEnd h)"
    and "bs = us @ (a, s, Free) # vs \<Longrightarrow> w \<le> s \<Longrightarrow> \<forall>b t. (b, t, Free) \<in> set us \<longrightarrow> t < w \<Longrightarrow>
      malloc_find h w (xStart h) (pxNextFreeBlock h (xStart h)) = Some (last (xStart h # frees us), a)"
proof -
  have t: "tiles base bs (pxEnd h)" and fl: "flinks h (xStart h) (frees bs) (pxEnd h)"
    and e0: "pxNextFreeBlock h (pxEnd h) = 0" and b: "0 < base" and ok: "\<forall>c \<in> set bs. blk_ok h c"
    using r by (auto simp: heap_rel0_def)
  have nz: "\<forall>x \<in> set (frees bs). pxNextFreeBlock h x \<noteq> 0"
    by (rule flinks_next_nonzero [OF fl]) (use frees_range [OF t] tiles_le [OF t] b in force)+
  have sz: "xBlockSize h x = u" if "(x, u, Free) \<in> set bs" for x u
    using ok that by (auto simp: blk_ok_def)
  {
    assume "ff_alloc w bs = None"
    then have "\<forall>x \<in> set (frees bs). xBlockSize h x < w" using sz by (auto simp: frees_in ff_alloc_None)
    from malloc_find_None [OF fl this nz e0]
    show "\<exists>p. malloc_find h w (xStart h) (pxNextFreeBlock h (xStart h)) = Some (p, pxEnd h)" by blast
  next
    assume bs: "bs = us @ (a, s, Free) # vs" and "w \<le> s" "\<forall>b t. (b, t, Free) \<in> set us \<longrightarrow> t < w"
    moreover from this have "\<forall>x \<in> set (frees us). xBlockSize h x < w" using sz by (fastforce simp: frees_in)
    moreover have "w \<le> xBlockSize h a" using sz [of a s] bs \<open>w \<le> s\<close> by simp
    ultimately show "malloc_find h w (xStart h) (pxNextFreeBlock h (xStart h)) = Some (last (xStart h # frees us), a)"
      using fl nz by (intro malloc_find_Some [where ys = "frees vs"]) auto
  }
qed

lemma ff_alloc_le_free_sum: "ff_alloc w bs \<noteq> None \<Longrightarrow> w \<le> free_sum bs"
  by (induction w bs rule: ff_alloc.induct) (auto split: if_splits)


lemma heap_rel0_counters:
  "heap_rel0 (h\<lparr>xFreeBytesRemaining := x\<rparr>) base bs = heap_rel0 h base bs"
  "heap_rel0 (h\<lparr>xMinimumEverFreeBytesRemaining := x\<rparr>) base bs = heap_rel0 h base bs"
proof -
  have "flinks (h\<lparr>xFreeBytesRemaining := x\<rparr>) p xs e = flinks h p xs e"
    "flinks (h\<lparr>xMinimumEverFreeBytesRemaining := x\<rparr>) p xs e = flinks h p xs e" for p xs e
    by (rule flinks_cong; simp)+
  moreover have "blk_ok (h\<lparr>xFreeBytesRemaining := x\<rparr>) b = blk_ok h b"
    "blk_ok (h\<lparr>xMinimumEverFreeBytesRemaining := x\<rparr>) b = blk_ok h b" for b
    by (cases b; simp only: blk_ok_def; simp split: bstate.splits)+
  ultimately show "heap_rel0 (h\<lparr>xFreeBytesRemaining := x\<rparr>) base bs = heap_rel0 h base bs"
  "heap_rel0 (h\<lparr>xMinimumEverFreeBytesRemaining := x\<rparr>) base bs = heap_rel0 h base bs"
    by (simp_all add: heap_rel0_def)
qed

lemma malloc_mark:
  assumes r: "heap_rel0 h base (us @ (a, s, Limbo) # vs)"
  shows "heap_rel0 (set_next a 0 (set_size a (xBlockSize h a OR xBlockAllocatedBit h) h)) base
    (us @ (a, s, Alloc) # vs)"
proof (rule heap_rel0_header [OF r])
  have "xBlockSize h a = s" "s < 2 ^ 31" "xBlockAllocatedBit h = 2 ^ 31"
    using heap_rel0_block [OF r] r by (auto simp: blk_ok_def heap_rel0_def)
  then show "blk_ok (set_next a 0 (set_size a (xBlockSize h a OR xBlockAllocatedBit h) h)) (a, s, Alloc)"
    using or_exp [of s 31] by (simp add: blk_ok_def set_next_def set_size_def)
qed (simp_all add: set_next_def set_size_def)

lemma free_unmark:
  assumes r: "heap_rel0 h base (us @ (a, s, Alloc) # vs)"
  shows "heap_rel0 (set_size a (clear_bits (xBlockSize h a) (xBlockAllocatedBit h)) h) base
    (us @ (a, s, Limbo) # vs)"
    and "xBlockSize h a AND xBlockAllocatedBit h \<noteq> 0" "pxNextFreeBlock h a = 0"
    and "clear_bits (xBlockSize h a) (xBlockAllocatedBit h) = s"
proof -
  have h: "xBlockSize h a = s + 2 ^ 31" "s < 2 ^ 31" "xBlockAllocatedBit h = 2 ^ 31" "pxNextFreeBlock h a = 0"
    using heap_rel0_block [OF r] r by (auto simp: blk_ok_def heap_rel0_def)
  show c: "clear_bits (xBlockSize h a) (xBlockAllocatedBit h) = s"
    unfolding h(1,3) using h(2) by (rule clear_exp)
  show "xBlockSize h a AND xBlockAllocatedBit h \<noteq> 0" unfolding h(1,3) using h(2) by (rule alloc_bit_set)
  show "pxNextFreeBlock h a = 0" by (fact h(4))
  show "heap_rel0 (set_size a (clear_bits (xBlockSize h a) (xBlockAllocatedBit h)) h) base
    (us @ (a, s, Limbo) # vs)"
    unfolding c by (rule heap_rel0_header [OF r]) (simp_all add: set_size_def blk_ok_def)
qed

lemma malloc_finish_rel:
  assumes r: "heap_rel0 h base (us @ (a, s, Limbo) # vs)"
    and f: "xFreeBytesRemaining h = free_sum us + s + free_sum vs"
    and l: "\<forall>b \<in> set us \<union> set vs. snd (snd b) \<noteq> Limbo" and n: "nonadj us" "nonadj vs"
  shows "heap_rel (malloc_finish a h) base (us @ (a, s, Alloc) # vs)"
proof -
  let ?x = "xFreeBytesRemaining h - xBlockSize h a"
  let ?h1 = "h\<lparr>xFreeBytesRemaining := ?x\<rparr>"
  let ?h2 = "if ?x < xMinimumEverFreeBytesRemaining h then ?h1\<lparr>xMinimumEverFreeBytesRemaining := ?x\<rparr> else ?h1"
  have s: "xBlockSize h a = s" using heap_rel0_block [OF r] by (auto simp: blk_ok_def)
  have fin: "malloc_finish a h = set_next a 0 (set_size a (xBlockSize ?h2 a OR xBlockAllocatedBit ?h2) ?h2)"
    by (simp add: malloc_finish_def Let_def)
  have "heap_rel0 ?h2 base (us @ (a, s, Limbo) # vs)"
    using r by (simp only: heap_rel0_counters split: if_splits) simp
  from malloc_mark [OF this] have "heap_rel0 (malloc_finish a h) base (us @ (a, s, Alloc) # vs)" by (simp only: fin)
  moreover have "xFreeBytesRemaining (malloc_finish a h) = free_sum us + free_sum vs"
    using f s by (simp add: fin set_next_def set_size_def)
  moreover have "xMinimumEverFreeBytesRemaining (malloc_finish a h) \<le> xFreeBytesRemaining (malloc_finish a h)"
    by (simp add: fin set_next_def set_size_def)
  ultimately show ?thesis using l n by (auto simp: heap_rel_def nonadj_append)
qed

lemma malloc_take_rel:
  assumes r: "heap_rel h base (us @ (a, s, Free) # vs)"
    and w: "16 \<le> w" "w mod 8 = 0" "w \<le> s"
  obtains h' where "malloc_take w (last (xStart h # frees us)) a h = Some (a + 8, h')"
    "heap_rel h' base (us @ (if s - w > 16 then (a, w, Alloc) # (a + w, s - w, Free) # vs else (a, s, Alloc) # vs))"
proof -
  let ?p = "last (xStart h # frees us)"
  have r0: "heap_rel0 h base (us @ (a, s, Free) # vs)"
    and l: "\<forall>b \<in> set us \<union> set vs. snd (snd b) \<noteq> Limbo" and n: "nonadj us" "nonadj vs"
    and na: "\<forall>c t vs'. vs \<noteq> (c, t, Free) # vs'"
    and f: "xFreeBytesRemaining h = free_sum us + s + free_sum vs"
    using r by (auto simp: heap_rel_def nonadj_append)
  define h1 where "h1 = set_next ?p (pxNextFreeBlock h a) h"
  have r1: "heap_rel0 h1 base (us @ (a, s, Limbo) # vs)" and pa: "pxNextFreeBlock h ?p = a"
    unfolding h1_def using heap_rel0_unlink [OF r0 refl] by blast+
  have s1: "xBlockSize h1 a = s" using heap_rel0_block [OF r1] by (auto simp: blk_ok_def)
  have fr1: "xFreeBytesRemaining h1 = xFreeBytesRemaining h" by (simp add: h1_def set_next_def)
  have take: "malloc_take w ?p a h = map_option (\<lambda>h. (a + 8, malloc_finish a h))
      (if s - w > 16 then prvInsertBlockIntoFreeList (a + w) (set_size a w (set_size (a + w) (s - w) h1)) else Some h1)"
    unfolding malloc_take_def Let_def pa h1_def [symmetric] xHeapStructSize_8 heapMINIMUM_BLOCK_SIZE_16 s1 ..
  show ?thesis
  proof (cases "s - w > 16")
    case True
    let ?h2 = "set_size a w (set_size (a + w) (s - w) h1)"
    from heap_rel0_split [OF r1 w(1,2), THEN prvInsertBlockIntoFreeList_rel0] True
    obtain h3 where h3: "prvInsertBlockIntoFreeList (a + w) ?h2 = Some h3" "same_counters ?h2 h3"
      "heap_rel0 h3 base (coalesce (us @ [(a, w, Limbo)]) (a + w) (s - w) vs)" by (metis add_leD1 less_diff_conv less_imp_le_nat add.commute)
    have "coalesce (us @ [(a, w, Limbo)]) (a + w) (s - w) vs = us @ (a, w, Limbo) # (a + w, s - w, Free) # vs"
      using na by (subst coalesce_alone) auto
    with h3 have r3: "heap_rel0 h3 base (us @ (a, w, Limbo) # (a + w, s - w, Free) # vs)" by simp
    have "heap_rel (malloc_finish a h3) base (us @ (a, w, Alloc) # (a + w, s - w, Free) # vs)"
    proof (rule malloc_finish_rel [OF r3])
      show "xFreeBytesRemaining h3 = free_sum us + w + free_sum ((a + w, s - w, Free) # vs)"
        using h3(2) f fr1 w by (simp add: same_counters_def set_size_def)
      show "nonadj ((a + w, s - w, Free) # vs)"
        using n na nonadj_append [of "[]" "a + w" "s - w" Free vs] by simp
    qed (use l n in auto)
    then show ?thesis using True take h3(1) by (intro that [of "malloc_finish a h3"]) simp_all
  next
    case False
    have "heap_rel (malloc_finish a h1) base (us @ (a, s, Alloc) # vs)"
      by (rule malloc_finish_rel [OF r1 _ l n]) (use f fr1 in simp)
    then show ?thesis using False take by (intro that [of "malloc_finish a h1"]) simp_all
  qed
qed

lemma pvPortMalloc_body_init:
  "heap_rel h base bs \<Longrightarrow> (if pxEnd h = 0 then prvHeapInit h else h) = h"
  by (auto simp: heap_rel_def heap_rel0_def dest!: tiles_le)

lemma pvPortMalloc_body_rejects:
  assumes r: "heap_rel h base bs" and n: "n = 0 \<or> 2 ^ 31 \<le> n \<and> n < 2 ^ 32"
  shows "pvPortMalloc_body n h = Some (0, h)"
proof (cases "n = 0")
  case True
  then show ?thesis using pvPortMalloc_body_init [OF r] by (simp add: pvPortMalloc_body_def wanted_size_def)
next
  case False
  then have "n AND 2 ^ 31 \<noteq> 0" using alloc_bit_set [of "n - 2 ^ 31" 31] n by auto
  moreover have "xBlockAllocatedBit h = 2 ^ 31" using r by (simp add: heap_rel_def heap_rel0_def)
  ultimately show ?thesis using pvPortMalloc_body_init [OF r] by (simp add: pvPortMalloc_body_def)
qed

lemma pvPortMalloc_body_spec:
  assumes r: "heap_rel h base bs" and n: "0 < n" "n < 2 ^ 31"
  shows "case ff_alloc (wanted_size n) bs of
      None \<Rightarrow> pvPortMalloc_body n h = Some (0, h)
    | Some (a, cs) \<Rightarrow> \<exists>h'. pvPortMalloc_body n h = Some (a + 8, h') \<and> heap_rel h' base cs"
proof -
  let ?w = "wanted_size n"
  have r0: "heap_rel0 h base bs" and f: "xFreeBytesRemaining h = free_sum bs" using r by (auto simp: heap_rel_def)
  have w: "16 \<le> ?w" "?w mod 8 = 0" using wanted_size_bounds [OF n] by auto
  have "n AND xBlockAllocatedBit h = 0" using r0 alloc_bit_clear [OF n(2)] by (simp add: heap_rel0_def)
  then have body: "pvPortMalloc_body n h = (if ?w \<le> free_sum bs
      then Option.bind (malloc_find h ?w (xStart h) (pxNextFreeBlock h (xStart h)))
             (\<lambda>(p, b). if b \<noteq> pxEnd h then malloc_take ?w p b h else Some (0, h))
      else Some (0, h))"
    using w unfolding pvPortMalloc_body_def pvPortMalloc_body_init [OF r] by (simp add: f Let_def)
  show ?thesis
  proof (cases "ff_alloc ?w bs")
    case None
    with heap_rel0_find(1) [OF r0 None] show ?thesis by (auto simp: body)
  next
    case (Some x)
    obtain a cs where x: "x = (a, cs)" by (cases x)
    from ff_alloc_Some [OF Some [unfolded x]] obtain us s vs
      where bs: "bs = us @ (a, s, Free) # vs" "?w \<le> s" "\<forall>b t. (b, t, Free) \<in> set us \<longrightarrow> t < ?w"
        and cs: "cs = us @ (if s - ?w > 16 then (a, ?w, Alloc) # (a + ?w, s - ?w, Free) # vs else (a, s, Alloc) # vs)"
      by blast
    from malloc_take_rel [OF r [unfolded bs(1)] w bs(2)] obtain h' where
      "malloc_take ?w (last (xStart h # frees us)) a h = Some (a + 8, h')" "heap_rel h' base cs" unfolding cs by blast
    moreover have "a \<noteq> pxEnd h" using heap_rel0_block [OF r0 [unfolded bs(1)]] by blast
    moreover have "?w \<le> free_sum bs" using ff_alloc_le_free_sum Some by auto
    ultimately show ?thesis
      using heap_rel0_find(2) [OF r0 bs] Some x by (simp add: body)
  qed
qed

lemma vPortFree_body_spec:
  assumes r: "heap_rel h base bs" and f: "ff_free [] a bs = Some cs"
  shows "\<exists>h'. vPortFree_body (a + 8) h = Some h' \<and> heap_rel h' base cs"
proof -
  from ff_free_Some [OF f] obtain us s vs where bs: "bs = us @ (a, s, Alloc) # vs" and cs: "cs = coalesce us a s vs"
    by auto
  have r0: "heap_rel0 h base (us @ (a, s, Alloc) # vs)" using r bs by (simp add: heap_rel_def)
  let ?h1 = "set_size a s h"
  let ?h2 = "?h1\<lparr>xFreeBytesRemaining := xFreeBytesRemaining h + s\<rparr>"
  note U = free_unmark [OF r0]
  have "heap_rel0 ?h2 base (us @ (a, s, Limbo) # vs)" using U(1) by (simp add: heap_rel0_counters U(4))
  then obtain h' where h': "prvInsertBlockIntoFreeList a ?h2 = Some h'" "heap_rel0 h' base cs" "same_counters ?h2 h'"
    unfolding cs by (rule prvInsertBlockIntoFreeList_rel0)
  have "vPortFree_body (a + 8) h = Some h'"
    using U(2,3) h'(1) by (simp add: vPortFree_body_def U(4) Let_def set_size_def)
  moreover have "heap_rel h' base cs"
    using h'(2,3) r bs unfolding cs
    by (auto simp: heap_rel_def same_counters_def set_size_def nonadj_append free_sum_coalesce
        intro!: nonadj_coalesce dest!: no_limbo_coalesce [THEN bspec, rotated])
  ultimately show ?thesis by blast
qed

subsection \<open>Initialisation\<close>

lemma clear_mask_7: "clear_bits n portBYTE_ALIGNMENT_MASK = n - n mod 8"
  by (simp add: clear_bits_def and_mask_7)

definition heap_base :: "nat \<Rightarrow> nat" where
  "heap_base u = (if u mod 8 = 0 then u else u + (8 - u mod 8))"

definition heap_span :: "nat \<Rightarrow> nat" where
  "heap_span u = (if u mod 8 = 0 then 65528 else 65520)"

lemma heap_base_span:
  "heap_base u mod 8 = 0 \<and> u \<le> heap_base u \<and> heap_span u mod 8 = 0 \<and> 65520 \<le> heap_span u \<and>
   heap_span u \<le> 65528 \<and> heap_base u + heap_span u + 8 \<le> u + 65536"
proof (rule mod8_split [of u])
  fix q r assume u: "u = 8 * q + r" "r < (8::nat)"
  then have "heap_base u = (if r = 0 then 8 * q else 8 * (q + 1))" by (simp add: heap_base_def)
  then show ?thesis using u by (simp add: heap_span_def)
qed

lemma prvHeapInit_align_eq: "prvHeapInit_align u = (heap_base u, 65536 - (heap_base u - u))"
proof (rule mod8_split [of u])
  fix q r assume u: "u = 8 * q + r" "r < (8::nat)"
  have "(8 * q + r + 7) mod 8 = r - 1" if "0 < r"
  proof -
    have "8 * q + r + 7 = 8 * (q + 1) + (r - 1)" using that by simp
    moreover have "(8 * (q + 1) + (r - 1)) mod 8 = r - 1" by (rule mod8_eq) (use u(2) in simp)
    ultimately show ?thesis by (simp only:)
  qed
  then show ?thesis
    using u by (simp add: prvHeapInit_align_def and_mask_7 clear_mask_7 portBYTE_ALIGNMENT_def heap_base_def
        configTOTAL_HEAP_SIZE_def)
qed

lemma prvHeapInit_end:
  "clear_bits (heap_base u + (65536 - (heap_base u - u)) - xHeapStructSize) portBYTE_ALIGNMENT_MASK
   = heap_base u + heap_span u"
proof (rule mod8_split [of u])
  fix q r assume u: "u = 8 * q + r" "r < (8::nat)"
  have "heap_base u + (65536 - (heap_base u - u)) - 8 = 8 * (q + 8191) + r" using u by (simp add: heap_base_def)
  moreover have "(8 * (q + 8191) + r) mod 8 = r" using u(2) by (rule mod8_eq)
  ultimately have "clear_bits (heap_base u + (65536 - (heap_base u - u)) - xHeapStructSize) portBYTE_ALIGNMENT_MASK
      = 8 * (q + 8191)" by (simp add: clear_mask_7)
  also have "\<dots> = heap_base u + heap_span u" using u by (simp add: heap_base_def heap_span_def)
  finally show ?thesis .
qed

lemma prvHeapInit_rel:
  assumes u: "0 < ucHeap h" and x: "xStart h < ucHeap h \<or> ucHeap h + configTOTAL_HEAP_SIZE \<le> xStart h"
  shows "heap_rel (prvHeapInit h) (heap_base (ucHeap h)) [(heap_base (ucHeap h), heap_span (ucHeap h), Free)]"
proof -
  let ?b = "heap_base (ucHeap h)" and ?s = "heap_span (ucHeap h)"
  have i: "prvHeapInit h = h\<lparr>
      pxNextFreeBlock := (pxNextFreeBlock h)(xStart h := ?b, ?b + ?s := 0, ?b := ?b + ?s),
      xBlockSize := (xBlockSize h)(xStart h := 0, ?b + ?s := 0, ?b := ?s),
      pxEnd := ?b + ?s, xFreeBytesRemaining := ?s, xMinimumEverFreeBytesRemaining := ?s,
      xBlockAllocatedBit := 2 ^ 31\<rparr>"
    unfolding prvHeapInit_def prvHeapInit_align_eq prod.case Let_def set_next_def set_size_def
    unfolding prvHeapInit_end by (simp add: push_bit_eq_mult)
  have d: "xStart h \<noteq> ?b" "xStart h \<noteq> ?b + ?s" "xStart h < ?b \<or> ?b + ?s < xStart h" "16 \<le> ?s" "?s mod 8 = 0" "?b mod 8 = 0"
    "0 < ?b" "?s < 2 ^ 31"
    using u x heap_base_span [of "ucHeap h"] unfolding configTOTAL_HEAP_SIZE_def by auto
  show ?thesis
    unfolding i heap_rel_def heap_rel0_def using d by (simp add: blk_ok_def)
qed

subsection \<open>The allocator's contract with its clients\<close>

text \<open>
  What a client may rely on: a call returns; a non-null pointer owns at least the bytes asked for,
  apart from every live region; freeing a live region ends exactly that one.
\<close>

datatype heap_op = Malloc nat | FreeNth nat

fun client_run ::
  "(nat \<Rightarrow> 'h \<Rightarrow> (nat \<times> 'h) option) \<Rightarrow> (nat \<Rightarrow> 'h \<Rightarrow> 'h option) \<Rightarrow> heap_op list \<Rightarrow> 'h \<Rightarrow> nat list \<Rightarrow> ('h \<times> nat list) option"
where
  "client_run ma fr [] h ps = Some (h, ps)"
| "client_run ma fr (Malloc n # os) h ps =
     (case ma n h of None \<Rightarrow> None
      | Some (p, h') \<Rightarrow> client_run ma fr os h' (if p = 0 then ps else p # ps))"
| "client_run ma fr (FreeNth i # os) h ps =
     (if i < length ps
      then case fr (ps ! i) h of None \<Rightarrow> None
           | Some h' \<Rightarrow> client_run ma fr os h' (remove1 (ps ! i) ps)
      else client_run ma fr os h ps)"

definition apart :: "(nat \<times> nat) \<Rightarrow> (nat \<times> nat) \<Rightarrow> bool" where
  "apart x y \<longleftrightarrow> fst x + snd x \<le> fst y \<or> fst y + snd y \<le> fst x"

definition disjoint_regions :: "(nat \<times> nat) set \<Rightarrow> bool" where
  "disjoint_regions R \<longleftrightarrow> (\<forall>x \<in> R. \<forall>y \<in> R. x \<noteq> y \<longrightarrow> apart x y) \<and> (\<forall>x \<in> R. 0 < snd x)"

lemma disjoint_regions_inj: "disjoint_regions R \<Longrightarrow> inj_on fst R"
  by (fastforce simp: disjoint_regions_def apart_def inj_on_def)

lemma apart_sym: "apart x y = apart y x"
  by (auto simp: apart_def)

locale allocator =
  fixes rep :: "'h \<Rightarrow> (nat \<times> nat) set \<Rightarrow> bool"
    and malloc :: "nat \<Rightarrow> 'h \<Rightarrow> (nat \<times> 'h) option"
    and mfree :: "nat \<Rightarrow> 'h \<Rightarrow> 'h option"
  assumes malloc_law: "rep h R \<Longrightarrow> n < 2 ^ 32 \<Longrightarrow>
      malloc n h = Some (0, h) \<or>
      (\<exists>p len h'. malloc n h = Some (p, h') \<and> 0 < p \<and> n \<le> len \<and> 0 < len \<and> rep h' (insert (p, len) R) \<and>
         (\<forall>x \<in> R. apart (p, len) x))"
    and mfree_law: "rep h R \<Longrightarrow> (p, len) \<in> R \<Longrightarrow> \<exists>h'. mfree p h = Some h' \<and> rep h' (R - {(p, len)})"
begin

lemma run_disjoint:
  assumes "rep h R" "disjoint_regions R" "set ps = fst ` R" "distinct ps"
    and "\<forall>n. Malloc n \<in> set os \<longrightarrow> n < 2 ^ 32"
  shows "\<exists>h' ps' R'. client_run malloc mfree os h ps = Some (h', ps') \<and> rep h' R' \<and> disjoint_regions R' \<and>
    set ps' = fst ` R' \<and> distinct ps'"
  using assms
proof (induction os arbitrary: h R ps)
  case (Cons x os)
  show ?case
  proof (cases x)
    case (Malloc n)
    with malloc_law [OF Cons.prems(1), of n] Cons.prems(5)
    consider "malloc n h = Some (0, h)"
      | p len h' where "malloc n h = Some (p, h')" "0 < p" "0 < len" "rep h' (insert (p, len) R)"
          "\<forall>x \<in> R. apart (p, len) x" by auto
    then show ?thesis
    proof cases
      case 1
      then show ?thesis using Cons.IH [OF Cons.prems(1-4)] Cons.prems(5) Malloc by simp
    next
      case 2
      have "p \<notin> fst ` R" using 2(3,5) Cons.prems(2) by (fastforce simp: apart_def disjoint_regions_def)
      moreover have "disjoint_regions (insert (p, len) R)"
        using 2 Cons.prems(2) by (auto simp: disjoint_regions_def apart_sym)
      ultimately show ?thesis
        using Cons.IH [OF 2(4), of "p # ps"] Cons.prems(3-5) Malloc 2(1,2) by simp
    qed
  next
    case (FreeNth i)
    show ?thesis
    proof (cases "i < length ps")
      case True
      then have "ps ! i \<in> fst ` R" using Cons.prems(3) nth_mem by blast
      then obtain len where R: "(ps ! i, len) \<in> R" by auto
      from mfree_law [OF Cons.prems(1) R] obtain h' where h': "mfree (ps ! i) h = Some h'" "rep h' (R - {(ps ! i, len)})"
        by blast
      have "disjoint_regions (R - {(ps ! i, len)})" using Cons.prems(2) by (auto simp: disjoint_regions_def)
      moreover have "fst ` (R - {(ps ! i, len)}) = set (remove1 (ps ! i) ps)"
        using Cons.prems(3,4) R inj_on_image_set_diff [OF disjoint_regions_inj [OF Cons.prems(2)], of R "{(ps ! i, len)}"]
        by auto
      ultimately show ?thesis
        using Cons.IH [OF h'(2), of "remove1 (ps ! i) ps"] Cons.prems(4,5) True FreeNth h'(1) by simp
    next
      case False
      then show ?thesis using Cons.IH [OF Cons.prems(1-4)] Cons.prems(5) FreeNth by simp
    qed
  qed
qed fastforce

end

text \<open>The live regions of a tiling are the payloads of its allocated blocks.\<close>

definition live :: "blk list \<Rightarrow> (nat \<times> nat) set" where
  "live bs = (\<lambda>(a, s, st). (a + 8, s - 8)) ` {b \<in> set bs. snd (snd b) = Alloc}"

lemma live_iff: "x \<in> live bs \<longleftrightarrow> (\<exists>a s. (a, s, Alloc) \<in> set bs \<and> x = (a + 8, s - 8))"
  by (force simp: live_def)

lemma live_simps [simp]:
  "live [] = {}"
  "live ((a, s, st) # bs) = (if st = Alloc then insert (a + 8, s - 8) (live bs) else live bs)"
  "live (us @ vs) = live us \<union> live vs"
  by (auto simp: live_iff set_eq_iff)

definition heap_rep :: "heap4 \<Rightarrow> (nat \<times> nat) set \<Rightarrow> bool" where
  "heap_rep h R \<longleftrightarrow> (\<exists>base bs. heap_rel h base bs \<and> R = live bs)"

lemma live_coalesce: "live (coalesce us b s vs) = live us \<union> live vs"
  by (rule coalesce_cases [of us b s vs]) auto

lemma live_outside:
  assumes "tiles base (us @ (a, s, st) # vs) e" "x \<in> live us \<union> live vs"
  shows "fst x + snd x \<le> a \<or> a + s + 8 \<le> fst x"
proof -
  from assms(1) have t: "tiles base us a" "tiles (a + s) vs e" by (auto simp: tiles_append)
  from assms(2) obtain b u where b: "x = (b + 8, u - 8)" "(b, u, Alloc) \<in> set us \<or> (b, u, Alloc) \<in> set vs"
    by (auto simp: live_iff)
  then show ?thesis using tiles_bound [OF t(1), of b u Alloc] tiles_bound [OF t(2), of b u Alloc] by auto
qed

lemma ff_free_find:
  "a \<notin> fst ` set ws \<Longrightarrow> ff_free us a (ws @ (a, s, Alloc) # vs) = Some (coalesce (us @ ws) a s vs)"
proof (induction ws arbitrary: us)
  case (Cons x ws)
  obtain b t st where x: "x = (b, t, st)" by (cases x)
  then show ?case using Cons by auto
qed simp

lemma heap_rel_free:
  assumes "heap_rel h base (us @ (a, s, Alloc) # vs)"
  shows "ff_free [] a (us @ (a, s, Alloc) # vs) = Some (coalesce us a s vs)"
proof -
  have "heap_rel0 h base (us @ (a, s, Alloc) # vs)" using assms by (simp add: heap_rel_def)
  note heap_rel0_block [OF this]
  then have "a \<notin> fst ` set us" by force
  from ff_free_find [OF this, of "[]"] show ?thesis by simp
qed

interpretation heap4: allocator heap_rep pvPortMalloc_body vPortFree_body
proof unfold_locales
  fix h R n
  assume "heap_rep h R" and n: "n < (2 ^ 32 :: nat)"
  then obtain base bs where r: "heap_rel h base bs" and R: "R = live bs" by (auto simp: heap_rep_def)
  show "pvPortMalloc_body n h = Some (0, h) \<or>
      (\<exists>p len h'. pvPortMalloc_body n h = Some (p, h') \<and> 0 < p \<and> n \<le> len \<and> 0 < len \<and> heap_rep h' (insert (p, len) R) \<and>
         (\<forall>x \<in> R. apart (p, len) x))"
  proof (cases "0 < n \<and> n < 2 ^ 31")
    case False
    then show ?thesis using pvPortMalloc_body_rejects [OF r, of n] n by auto
  next
    case True
    let ?w = "wanted_size n"
    show ?thesis
    proof (cases "ff_alloc ?w bs")
      case None
      then show ?thesis using pvPortMalloc_body_spec [OF r, of n] True by simp
    next
      case (Some x)
      obtain a cs where x: "x = (a, cs)" by (cases x)
      from ff_alloc_Some [OF Some [unfolded x]] obtain us s vs
        where bs: "bs = us @ (a, s, Free) # vs" "?w \<le> s"
          and cs: "cs = us @ (if s - ?w > 16 then (a, ?w, Alloc) # (a + ?w, s - ?w, Free) # vs else (a, s, Alloc) # vs)"
        by blast
      define len where "len = (if s - ?w > 16 then ?w else s) - 8"
      have t: "tiles base (us @ (a, s, Free) # vs) (pxEnd h)" using r bs by (simp add: heap_rel_def heap_rel0_def)
      have "live cs = insert (a + 8, len) R" by (simp add: cs R bs len_def)
      moreover have "n \<le> len" "0 < len" "8 + len \<le> s"
        using wanted_size_bounds [of n] True bs(2) by (auto simp: len_def)
      moreover have "apart (a + 8, len) y" if "y \<in> R" for y
        using live_outside [OF t, of y] that \<open>8 + len \<le> s\<close> by (auto simp: R bs apart_def)
      moreover from pvPortMalloc_body_spec [OF r, of n] True Some x
      obtain h' where "pvPortMalloc_body n h = Some (a + 8, h')" "heap_rel h' base cs" by auto
      ultimately show ?thesis unfolding heap_rep_def
        by (intro disjI2 exI [of _ "a + 8"] exI [of _ len] exI [of _ h']) auto
    qed
  qed
next
  fix h R p len
  assume "heap_rep h R" and p: "(p, len) \<in> R"
  then obtain base bs where r: "heap_rel h base bs" and R: "R = live bs" by (auto simp: heap_rep_def)
  from p R obtain a s where a: "(a, s, Alloc) \<in> set bs" "p = a + 8" "len = s - 8" by (auto simp: live_iff)
  then obtain us vs where bs: "bs = us @ (a, s, Alloc) # vs" by (meson split_list)
  from vPortFree_body_spec [OF r] heap_rel_free [OF r [unfolded bs]] obtain h'
    where h': "vPortFree_body (a + 8) h = Some h'" "heap_rel h' base (coalesce us a s vs)" by (auto simp: bs)
  have "tiles base (us @ (a, s, Alloc) # vs) (pxEnd h)" using r bs by (simp add: heap_rel_def heap_rel0_def)
  note out = live_outside [OF this, of "(p, len)"]
  have "16 \<le> s" using heap_rel0_block [of h base us a s Alloc vs] r bs by (simp add: heap_rel_def)
  then have "(p, len) \<notin> live us \<union> live vs" using out unfolding a(2,3) by auto
  then have "live (coalesce us a s vs) = R - {(p, len)}" unfolding R bs live_coalesce a(2,3) by auto
  then show "\<exists>h'. vPortFree_body p h = Some h' \<and> heap_rep h' (R - {(p, len)})"
    using h' a(2) by (auto simp: heap_rep_def)
qed

lemma ff_free_after_alloc:
  assumes r: "heap_rel h base bs" and r': "heap_rel h' base cs" and al: "ff_alloc w bs = Some (a, cs)"
  shows "ff_free [] a cs = Some bs"
proof -
  from ff_alloc_Some [OF al] obtain us s vs where bs: "bs = us @ (a, s, Free) # vs" "w \<le> s"
    and cs: "cs = us @ (if s - w > 16 then (a, w, Alloc) # (a + w, s - w, Free) # vs else (a, s, Alloc) # vs)" by blast
  have na: "\<forall>us' b t. us \<noteq> us' @ [(b, t, Free)]" "\<forall>b t vs'. vs \<noteq> (b, t, Free) # vs'"
    using r bs by (auto simp: heap_rel_def nonadj_append)
  show ?thesis
  proof (cases "s - w > 16")
    case True
    then have cs: "cs = us @ (a, w, Alloc) # (a + w, s - w, Free) # vs" using cs by simp
    have "coalesce us a w ((a + w, s - w, Free) # vs) = bs"
      by (rule coalesce_cases [of us a w "(a + w, s - w, Free) # vs"]) (use na bs in auto)
    then show ?thesis using heap_rel_free [OF r' [unfolded cs]] cs by simp
  next
    case False
    then have cs: "cs = us @ (a, s, Alloc) # vs" using cs by simp
    have "coalesce us a s vs = bs" using coalesce_alone [OF na] bs by simp
    then show ?thesis using heap_rel_free [OF r' [unfolded cs]] cs by simp
  qed
qed

subsection \<open>Properties\<close>

text \<open>A concrete heap, before its first use, with the array at an address that needs aligning.\<close>

definition demo_heap0 :: heap4 where
  "demo_heap0 = \<lparr>pxNextFreeBlock = (\<lambda>_. 0), xBlockSize = (\<lambda>_. 0), xStart = 536870912, ucHeap = 536871172,
     pxEnd = 0, xFreeBytesRemaining = 0, xMinimumEverFreeBytesRemaining = 0, xBlockAllocatedBit = 0\<rparr>"

lemma demo_heap_rel: "heap_rel (prvHeapInit demo_heap0) 536871176 [(536871176, 65520, Free)]"
  using prvHeapInit_rel [of demo_heap0] by (simp add: demo_heap0_def heap_base_def heap_span_def)

text \<open>C2: \<open>pvPortMalloc\<close> implements first fit on the tiling of the heap. A request of 0 bytes, one
  with the top bit set, and one no free block can hold return \<open>NULL\<close> and leave the heap as it is;
  any other request gets the payload of the first free block that is large enough, the block is cut
  when more than 16 bytes remain, and the free list, the headers and the byte counters describe the
  new tiling. The search always ends.\<close>

theorem pvPortMalloc_first_fit:
  assumes "heap_rel h base bs" "n < 2 ^ 32"
  shows "case (if 0 < n \<and> n < 2 ^ 31 then ff_alloc (8 * ((n + 15) div 8)) bs else None) of
      None \<Rightarrow> pvPortMalloc_body n h = Some (0, h)
    | Some (a, cs) \<Rightarrow> \<exists>h'. pvPortMalloc_body n h = Some (a + 8, h') \<and> heap_rel h' base cs \<and>
        n \<le> xFreeBytesRemaining h - xFreeBytesRemaining h'"
proof (cases "0 < n \<and> n < 2 ^ 31")
  case False
  then show ?thesis using pvPortMalloc_body_rejects [OF assms(1), of n] assms(2) by auto
next
  case True
  then have w: "wanted_size n = 8 * ((n + 15) div 8)" by (intro wanted_size_spec) auto
  show ?thesis
  proof (cases "ff_alloc (wanted_size n) bs")
    case None
    then show ?thesis using pvPortMalloc_body_spec [OF assms(1), of n] True w by simp
  next
    case (Some x)
    obtain a cs where x: "x = (a, cs)" by (cases x)
    obtain h' where h': "pvPortMalloc_body n h = Some (a + 8, h')" "heap_rel h' base cs"
      using pvPortMalloc_body_spec [OF assms(1), of n] True Some x by auto
    from ff_alloc_Some [OF Some [unfolded x]] have "free_sum cs + wanted_size n \<le> free_sum bs"
      by (auto split: if_splits)
    moreover have "xFreeBytesRemaining h = free_sum bs" "xFreeBytesRemaining h' = free_sum cs"
      using assms(1) h'(2) by (auto simp: heap_rel_def)
    moreover have "n + 8 \<le> wanted_size n" using wanted_size_bounds True by blast
    ultimately have "n \<le> xFreeBytesRemaining h - xFreeBytesRemaining h'" by linarith
    then show ?thesis using h' Some x True w by simp
  qed
qed

theorem pvPortMalloc_first_fit_witness:
  "\<exists>h'. pvPortMalloc_body 100 (prvHeapInit demo_heap0) = Some (536871184, h') \<and>
     heap_rel h' 536871176 [(536871176, 112, Alloc), (536871288, 65408, Free)] \<and>
     100 \<le> xFreeBytesRemaining (prvHeapInit demo_heap0) - xFreeBytesRemaining h'"
  using pvPortMalloc_first_fit [OF demo_heap_rel, of 100] by simp

text \<open>C3: \<open>vPortFree\<close> of a pointer \<open>pvPortMalloc\<close> handed out returns exactly that block: it is
  merged with the free blocks that touch it on either side, no two free blocks touch afterwards,
  and the free byte counter grows by the size of the block.\<close>

theorem vPortFree_coalesces:
  assumes "heap_rel h base (us @ (a, s, Alloc) # vs)"
  shows "\<exists>h'. vPortFree_body (a + 8) h = Some h' \<and> heap_rel h' base (coalesce us a s vs) \<and>
    nonadj (coalesce us a s vs) \<and> xFreeBytesRemaining h' = xFreeBytesRemaining h + s"
proof -
  from vPortFree_body_spec [OF assms heap_rel_free [OF assms]]
  obtain h' where "vPortFree_body (a + 8) h = Some h'" "heap_rel h' base (coalesce us a s vs)" by blast
  with assms show ?thesis by (auto simp: heap_rel_def free_sum_coalesce)
qed

theorem vPortFree_coalesces_witness:
  "\<exists>h h'. heap_rel h 536871176 [(536871176, 112, Alloc), (536871288, 65408, Free)] \<and>
     vPortFree_body 536871184 h = Some h' \<and> heap_rel h' 536871176 [(536871176, 65520, Free)]"
proof -
  obtain h where h: "heap_rel h 536871176 ([] @ (536871176, 112, Alloc) # [(536871288, 65408, Free)])"
    using pvPortMalloc_body_spec [OF demo_heap_rel, of 100] by (auto simp: wanted_size_spec)
  from vPortFree_coalesces [OF this] obtain h' where "vPortFree_body 536871184 h = Some h'"
    "heap_rel h' 536871176 (coalesce [] 536871176 112 [(536871288, 65408, Free)])" by auto
  with h show ?thesis by (auto simp: coalesce_def merge_left_def merge_right_def)
qed

text \<open>Allocating and freeing again is the identity on the heap's tiling: \<open>vPortFree\<close> on what a
  successful \<open>pvPortMalloc\<close> returned restores the very blocks there were before.\<close>

theorem malloc_free_restores:
  assumes "heap_rel h base bs" "pvPortMalloc_body n h = Some (p, h1)" "p \<noteq> 0" "n < 2 ^ 32"
  shows "\<exists>h2. vPortFree_body p h1 = Some h2 \<and> heap_rel h2 base bs \<and> xFreeBytesRemaining h2 = xFreeBytesRemaining h"
proof -
  have "\<not> (n = 0 \<or> 2 ^ 31 \<le> n \<and> n < 2 ^ 32)"
    using pvPortMalloc_body_rejects [OF assms(1)] assms(2,3) by (metis Pair_inject option.inject)
  then have n: "0 < n" "n < 2 ^ 31" using assms(4) by linarith+
  from pvPortMalloc_body_spec [OF assms(1) n] assms(2,3)
  obtain a cs where al: "ff_alloc (wanted_size n) bs = Some (a, cs)" and p: "p = a + 8" and r1: "heap_rel h1 base cs"
    by (auto split: option.splits)
  from vPortFree_body_spec [OF r1 ff_free_after_alloc [OF assms(1) r1 al]]
  obtain h2 where "vPortFree_body p h1 = Some h2" "heap_rel h2 base bs" unfolding p by blast
  with assms(1) show ?thesis by (auto simp: heap_rel_def)
qed

theorem malloc_free_restores_witness:
  "\<exists>h1 h2. pvPortMalloc_body 100 (prvHeapInit demo_heap0) = Some (536871184, h1) \<and>
     vPortFree_body 536871184 h1 = Some h2 \<and> heap_rel h2 536871176 [(536871176, 65520, Free)]"
proof -
  obtain h1 where h1: "pvPortMalloc_body 100 (prvHeapInit demo_heap0) = Some (536871184, h1)"
    using pvPortMalloc_body_spec [OF demo_heap_rel, of 100] by (auto simp: wanted_size_spec)
  from malloc_free_restores [OF demo_heap_rel h1] h1 show ?thesis by auto
qed

text \<open>From its first use on, whatever sequence of \<open>pvPortMalloc\<close> and \<open>vPortFree\<close> calls clients
  make with the pointers they hold, every call returns and the live allocations are pairwise
  disjoint regions of the heap.\<close>

theorem heap_clients_disjoint:
  assumes "0 < ucHeap h" "xStart h < ucHeap h \<or> ucHeap h + configTOTAL_HEAP_SIZE \<le> xStart h"
    and "\<forall>n. Malloc n \<in> set os \<longrightarrow> n < 2 ^ 32"
  shows "\<exists>h' ps R. client_run pvPortMalloc_body vPortFree_body os (prvHeapInit h) [] = Some (h', ps) \<and>
    heap_rep h' R \<and> disjoint_regions R \<and> set ps = fst ` R \<and> distinct ps"
proof (rule heap4.run_disjoint [of _ "{}"])
  show "heap_rep (prvHeapInit h) {}"
    using prvHeapInit_rel [OF assms(1,2)] by (auto simp: heap_rep_def intro!: exI)
qed (use assms(3) in \<open>simp_all add: disjoint_regions_def\<close>)

theorem heap_clients_disjoint_witness:
  "\<exists>h' ps R. client_run pvPortMalloc_body vPortFree_body [Malloc 100, Malloc 8, FreeNth 1] (prvHeapInit demo_heap0) []
     = Some (h', ps) \<and> heap_rep h' R \<and> disjoint_regions R \<and> set ps = fst ` R \<and> distinct ps"
  by (rule heap_clients_disjoint) (auto simp: demo_heap0_def configTOTAL_HEAP_SIZE_def)

text \<open>The first call of \<open>pvPortMalloc\<close> turns the raw array into a heap of one free block that
  starts at the first aligned address, ends at the end marker, and leaves at most 16 of the
  configured bytes unused; the request is then served from it.\<close>

theorem prvHeapInit_first_use:
  assumes "pxEnd h = 0" "0 < ucHeap h" "xStart h < ucHeap h \<or> ucHeap h + configTOTAL_HEAP_SIZE \<le> xStart h"
  shows "\<exists>base size. heap_rel (prvHeapInit h) base [(base, size, Free)] \<and> ucHeap h \<le> base \<and>
    base + size + 8 \<le> ucHeap h + configTOTAL_HEAP_SIZE \<and> configTOTAL_HEAP_SIZE \<le> size + 16 \<and>
    pvPortMalloc_body n h = pvPortMalloc_body n (prvHeapInit h)"
proof -
  note r = prvHeapInit_rel [OF assms(2,3)]
  have "pvPortMalloc_body n h = pvPortMalloc_body n (prvHeapInit h)"
    using pvPortMalloc_body_init [OF r] assms(1) unfolding pvPortMalloc_body_def by simp
  with r show ?thesis using heap_base_span [of "ucHeap h"]
    by (intro exI [of _ "heap_base (ucHeap h)"] exI [of _ "heap_span (ucHeap h)"]) (simp add: configTOTAL_HEAP_SIZE_def)
qed

theorem prvHeapInit_first_use_witness:
  "\<exists>base size. heap_rel (prvHeapInit demo_heap0) base [(base, size, Free)] \<and> 536871172 \<le> base \<and>
    base + size + 8 \<le> 536871172 + configTOTAL_HEAP_SIZE \<and> configTOTAL_HEAP_SIZE \<le> size + 16 \<and>
    pvPortMalloc_body 24 demo_heap0 = pvPortMalloc_body 24 (prvHeapInit demo_heap0)"
  using prvHeapInit_first_use [of demo_heap0 24] by (simp add: demo_heap0_def)

end
