(* ===== verification/KernelState.thy ===== *)
theory KernelState
  imports RtosList Heap4
begin

text \<open>
  The state of the kernel, the file-scope variables of \<open>lib/FreeRTOS/src/tasks.c\<close> with the lists
  every other component hangs its tasks on. Lists are the abstract lists of the list theory; the
  item fields \<open>xItemValue\<close> and \<open>pxContainer\<close> are functions of the item. A step the C code leaves
  undefined (removing an item that is on no list, taking the owner of the head of an empty list, a
  heap walk that never ends) sets \<open>kfault\<close>. \<open>pendsv\<close> is the pending bit of the PendSV exception,
  the request for a context switch.
\<close>

subsection \<open>Tasks, list items and lists\<close>

type_synonym tid = nat

text \<open>Task handles are the addresses of their control blocks; 0 is \<open>NULL\<close>.\<close>

datatype item = StateItem tid | EventItem tid | TimerItem nat

datatype lid =
    ReadyTasksLists nat | DelayedTaskList1 | DelayedTaskList2 | PendingReadyList | TasksWaitingTermination
  | TasksWaitingToSend nat | TasksWaitingToReceive nat | TasksWaitingForBits nat
  | ActiveTimerList1 | ActiveTimerList2

datatype notify_state = taskNOT_WAITING_NOTIFICATION | taskWAITING_NOTIFICATION | taskNOTIFICATION_RECEIVED

record tcb_t =
  uxPriority :: nat
  pxStack :: nat
  pcTaskName :: string
  uxBasePriority :: nat
  uxMutexesHeld :: u32
  ulNotifiedValue :: u32
  ucNotifyState :: notify_state

record kernel =
  ival :: "item \<Rightarrow> tick"
  ctn :: "item \<Rightarrow> lid option"
  lists :: "lid \<Rightarrow> item xlist"
  tcb :: "tid \<Rightarrow> tcb_t"
  pxCurrentTCB :: tid
  pxDelayedTaskList :: lid
  pxOverflowDelayedTaskList :: lid
  uxDeletedTasksWaitingCleanUp :: nat
  uxCurrentNumberOfTasks :: nat
  xTickCount :: tick
  uxTopReadyPriority :: u32
  xSchedulerRunning :: bool
  uxPendedTicks :: nat
  xYieldPending :: bool
  xNumOfOverflows :: u32
  uxTaskNumber :: nat
  xNextTaskUnblockTime :: tick
  xIdleTaskHandle :: tid
  uxSchedulerSuspended :: nat
  heap :: heap4
  pendsv :: bool
  kfault :: bool

fun item_owner :: "item \<Rightarrow> nat" where
  "item_owner (StateItem t) = t"
| "item_owner (EventItem t) = t"
| "item_owner (TimerItem t) = t"

subsection \<open>List operations on the kernel state\<close>

definition list_initialise :: "lid \<Rightarrow> kernel \<Rightarrow> kernel" where
  "list_initialise l k = k\<lparr>lists := (lists k)(l := xl_empty)\<rparr>"

definition list_insert :: "lid \<Rightarrow> item \<Rightarrow> kernel \<Rightarrow> kernel" where
  "list_insert l i k =
     k\<lparr>lists := (lists k)(l := xl_insert (ival k) i (lists k l)), ctn := (ctn k)(i \<mapsto> l)\<rparr>"

definition list_insert_end :: "lid \<Rightarrow> item \<Rightarrow> kernel \<Rightarrow> kernel" where
  "list_insert_end l i k =
     k\<lparr>lists := (lists k)(l := xl_insert_end i (lists k l)), ctn := (ctn k)(i \<mapsto> l)\<rparr>"

text \<open>\<open>uxListRemove\<close>: the number of items left and the new state.\<close>

definition list_remove :: "item \<Rightarrow> kernel \<Rightarrow> nat \<times> kernel" where
  "list_remove i k =
     (case ctn k i of
        None \<Rightarrow> (0, k\<lparr>kfault := True\<rparr>)
      | Some l \<Rightarrow> (length (xl_items (xl_remove i (lists k l))),
          k\<lparr>lists := (lists k)(l := xl_remove i (lists k l)), ctn := (ctn k)(i := None)\<rparr>))"

definition list_length :: "lid \<Rightarrow> kernel \<Rightarrow> nat" where
  "list_length l k = length (xl_items (lists k l))"

definition list_is_empty :: "lid \<Rightarrow> kernel \<Rightarrow> bool" where
  "list_is_empty l k \<longleftrightarrow> xl_items (lists k l) = []"

definition list_head :: "lid \<Rightarrow> kernel \<Rightarrow> item" where
  "list_head l k = hd (xl_items (lists k l))"

definition set_item_value :: "item \<Rightarrow> tick \<Rightarrow> kernel \<Rightarrow> kernel" where
  "set_item_value i v k = k\<lparr>ival := (ival k)(i := v)\<rparr>"

definition upd_tcb :: "tid \<Rightarrow> (tcb_t \<Rightarrow> tcb_t) \<Rightarrow> kernel \<Rightarrow> kernel" where
  "upd_tcb t f k = k\<lparr>tcb := (tcb k)(t := f (tcb k t))\<rparr>"

abbreviation prio :: "kernel \<Rightarrow> tid \<Rightarrow> nat" where
  "prio k t \<equiv> uxPriority (tcb k t)"

abbreviation cur_prio :: "kernel \<Rightarrow> nat" where
  "cur_prio k \<equiv> uxPriority (tcb k (pxCurrentTCB k))"

subsection \<open>Well-formed lists\<close>

text \<open>Every list is well-formed, and an item is on a list exactly when its container says so.\<close>

definition lists_wf :: "kernel \<Rightarrow> bool" where
  "lists_wf k \<longleftrightarrow> (\<forall>l. xl_wf (lists k l)) \<and> (\<forall>i l. i \<in> set (xl_items (lists k l)) \<longleftrightarrow> ctn k i = Some l)"

lemma lists_wf_xl: "lists_wf k \<Longrightarrow> xl_wf (lists k l)"
  by (simp add: lists_wf_def)

lemma lists_wf_ctn: "lists_wf k \<Longrightarrow> i \<in> set (xl_items (lists k l)) \<longleftrightarrow> ctn k i = Some l"
  by (simp add: lists_wf_def)

lemma lists_wf_insert:
  assumes "lists_wf k" "ctn k i = None"
  shows "lists_wf (list_insert l i k)" "lists_wf (list_insert_end l i k)"
proof -
  have "i \<notin> set (xl_items (lists k l'))" for l' using assms by (simp add: lists_wf_ctn)
  with assms show "lists_wf (list_insert l i k)" "lists_wf (list_insert_end l i k)"
    by (auto simp: lists_wf_def list_insert_def list_insert_end_def xl_wf_insert xl_wf_insert_end)
qed

lemma lists_wf_remove:
  assumes "lists_wf k" shows "lists_wf (snd (list_remove i k))"
  using assms
  by (auto simp: lists_wf_def list_remove_def set_xl_remove xl_wf_remove split: option.splits)

lemma lists_wf_cong: "lists k' = lists k \<Longrightarrow> ctn k' = ctn k \<Longrightarrow> lists_wf k' = lists_wf k"
  by (simp add: lists_wf_def)

end
