(* ===== verification/Tasks.thy ===== *)
theory Tasks
  imports KernelState
begin

text \<open>
  The scheduler, \<open>lib/FreeRTOS/src/tasks.c\<close>, in the configuration of \<open>include/FreeRTOSConfig.h\<close>:
  seven priorities, pre-emption with time slicing, the bitmap of ready priorities of the port,
  mutexes, notifications and deletion; no suspension, no tickless idle, no trace. A critical section
  is one step. An API that may block is split where it yields: the part before the yield and the
  part the task runs when it is scheduled again. A request for a context switch sets \<open>pendsv\<close>; the
  switch is \<open>xPortPendSVHandler\<close>, when the exception is taken.
\<close>

subsection \<open>Ready lists and the bitmap of ready priorities\<close>

definition portRECORD_READY_PRIORITY :: "nat \<Rightarrow> u32 \<Rightarrow> u32" where
  "portRECORD_READY_PRIORITY p b = b OR push_bit p 1"

definition portRESET_READY_PRIORITY :: "nat \<Rightarrow> u32 \<Rightarrow> u32" where
  "portRESET_READY_PRIORITY p b = b AND NOT (push_bit p 1)"

text \<open>The \<open>clz\<close> instruction, by counting down from the top bit.\<close>

fun clz_from :: "nat \<Rightarrow> u32 \<Rightarrow> nat" where
  "clz_from 0 b = 32"
| "clz_from (Suc n) b = (if bit b n then 31 - n else clz_from n b)"

definition ucPortCountLeadingZeros :: "u32 \<Rightarrow> nat" where
  "ucPortCountLeadingZeros b = clz_from 32 b"

definition portGET_HIGHEST_PRIORITY :: "u32 \<Rightarrow> nat" where
  "portGET_HIGHEST_PRIORITY b = 31 - ucPortCountLeadingZeros b"

definition portYIELD :: "kernel \<Rightarrow> kernel" where
  "portYIELD k = k\<lparr>pendsv := True\<rparr>"

definition taskRESET_READY_PRIORITY :: "nat \<Rightarrow> kernel \<Rightarrow> kernel" where
  "taskRESET_READY_PRIORITY p k =
     (if list_length (ReadyTasksLists p) k = 0
      then k\<lparr>uxTopReadyPriority := portRESET_READY_PRIORITY p (uxTopReadyPriority k)\<rparr> else k)"

definition prvAddTaskToReadyList :: "tid \<Rightarrow> kernel \<Rightarrow> kernel" where
  "prvAddTaskToReadyList t k =
     (let k = k\<lparr>uxTopReadyPriority := portRECORD_READY_PRIORITY (prio k t) (uxTopReadyPriority k)\<rparr>
      in list_insert_end (ReadyTasksLists (prio k t)) (StateItem t) k)"

text \<open>The bitmap must not be empty: with no ready task the macro reads past the array of lists.\<close>

definition taskSELECT_HIGHEST_PRIORITY_TASK :: "kernel \<Rightarrow> kernel" where
  "taskSELECT_HIGHEST_PRIORITY_TASK k =
     (let uxTopPriority = portGET_HIGHEST_PRIORITY (uxTopReadyPriority k);
          l = xl_advance (lists k (ReadyTasksLists uxTopPriority))
      in case xl_index l of
           None \<Rightarrow> k\<lparr>kfault := True\<rparr>
         | Some i \<Rightarrow> k\<lparr>lists := (lists k)(ReadyTasksLists uxTopPriority := l), pxCurrentTCB := item_owner i\<rparr>)"

definition vTaskSwitchContext :: "kernel \<Rightarrow> kernel" where
  "vTaskSwitchContext k =
     (if uxSchedulerSuspended k \<noteq> 0 then k\<lparr>xYieldPending := True\<rparr>
      else taskSELECT_HIGHEST_PRIORITY_TASK (k\<lparr>xYieldPending := False\<rparr>))"

definition xPortPendSVHandler :: "kernel \<Rightarrow> kernel" where
  "xPortPendSVHandler k = vTaskSwitchContext (k\<lparr>pendsv := False\<rparr>)"

subsection \<open>Time\<close>

definition prvResetNextTaskUnblockTime :: "kernel \<Rightarrow> kernel" where
  "prvResetNextTaskUnblockTime k =
     (if list_is_empty (pxDelayedTaskList k) k then k\<lparr>xNextTaskUnblockTime := portMAX_DELAY\<rparr>
      else k\<lparr>xNextTaskUnblockTime := ival k (StateItem (item_owner (list_head (pxDelayedTaskList k) k)))\<rparr>)"

definition taskSWITCH_DELAYED_LISTS :: "kernel \<Rightarrow> kernel" where
  "taskSWITCH_DELAYED_LISTS k =
     prvResetNextTaskUnblockTime
       (k\<lparr>pxDelayedTaskList := pxOverflowDelayedTaskList k, pxOverflowDelayedTaskList := pxDelayedTaskList k,
          xNumOfOverflows := xNumOfOverflows k + 1\<rparr>)"

text \<open>
  The loop of \<open>xTaskIncrementTick\<close> that wakes every task whose time has come. Each round takes one
  task off the delayed list, so as many rounds as the list has items, and one more, are enough.
\<close>

fun tick_wake :: "nat \<Rightarrow> bool \<Rightarrow> kernel \<Rightarrow> bool \<times> kernel" where
  "tick_wake 0 sw k = (sw, k\<lparr>kfault := True\<rparr>)"
| "tick_wake (Suc n) sw k =
     (if list_is_empty (pxDelayedTaskList k) k then (sw, k\<lparr>xNextTaskUnblockTime := portMAX_DELAY\<rparr>)
      else let t = item_owner (list_head (pxDelayedTaskList k) k);
               v = ival k (StateItem t)
           in if xTickCount k < v then (sw, k\<lparr>xNextTaskUnblockTime := v\<rparr>)
              else let k = snd (list_remove (StateItem t) k);
                       k = (if ctn k (EventItem t) \<noteq> None then snd (list_remove (EventItem t) k) else k);
                       k = prvAddTaskToReadyList t k
                   in tick_wake n (sw \<or> prio k t \<ge> cur_prio k) k)"

definition xTaskIncrementTick :: "kernel \<Rightarrow> bool \<times> kernel" where
  "xTaskIncrementTick k =
     (let (xSwitchRequired, k) =
        (if uxSchedulerSuspended k = 0
         then let k = k\<lparr>xTickCount := xTickCount k + 1\<rparr>;
                  k = (if xTickCount k = 0 then taskSWITCH_DELAYED_LISTS k else k);
                  (sw, k) = (if xTickCount k \<ge> xNextTaskUnblockTime k
                             then tick_wake (Suc (list_length (pxDelayedTaskList k) k)) False k else (False, k))
              in (sw \<or> list_length (ReadyTasksLists (cur_prio k)) k > 1, k)
         else (False, k\<lparr>uxPendedTicks := uxPendedTicks k + 1\<rparr>))
      in (xSwitchRequired \<or> xYieldPending k, k))"

definition xTaskGetTickCount :: "kernel \<Rightarrow> tick" where
  "xTaskGetTickCount k = xTickCount k"

definition xTaskGetTickCountFromISR :: "kernel \<Rightarrow> tick" where
  "xTaskGetTickCountFromISR k = xTickCount k"

definition uxTaskGetNumberOfTasks :: "kernel \<Rightarrow> nat" where
  "uxTaskGetNumberOfTasks k = uxCurrentNumberOfTasks k"

text \<open>With \<open>INCLUDE_vTaskSuspend\<close> off, a wait of \<open>portMAX_DELAY\<close> is a wait of that many ticks.\<close>

definition prvAddCurrentTaskToDelayedList :: "tick \<Rightarrow> bool \<Rightarrow> kernel \<Rightarrow> kernel" where
  "prvAddCurrentTaskToDelayedList xTicksToWait xCanBlockIndefinitely k =
     (let t = pxCurrentTCB k;
          (n, k) = list_remove (StateItem t) k;
          k = (if n = 0
               then k\<lparr>uxTopReadyPriority := portRESET_READY_PRIORITY (prio k t) (uxTopReadyPriority k)\<rparr> else k);
          xTimeToWake = xTickCount k + xTicksToWait;
          k = set_item_value (StateItem t) xTimeToWake k
      in if xTimeToWake < xTickCount k
         then list_insert (pxOverflowDelayedTaskList k) (StateItem t) k
         else let k = list_insert (pxDelayedTaskList k) (StateItem t) k
              in if xTimeToWake < xNextTaskUnblockTime k then k\<lparr>xNextTaskUnblockTime := xTimeToWake\<rparr> else k)"

subsection \<open>Suspending and resuming the scheduler\<close>

definition vTaskSuspendAll :: "kernel \<Rightarrow> kernel" where
  "vTaskSuspendAll k = k\<lparr>uxSchedulerSuspended := uxSchedulerSuspended k + 1\<rparr>"

text \<open>The loop that moves the tasks readied meanwhile; \<open>moved\<close> tells whether there was one.\<close>

fun resume_pending :: "nat \<Rightarrow> bool \<Rightarrow> kernel \<Rightarrow> bool \<times> kernel" where
  "resume_pending n moved k =
     (if list_is_empty PendingReadyList k then (moved, k)
      else case n of
        0 \<Rightarrow> (moved, k\<lparr>kfault := True\<rparr>)
      | Suc n \<Rightarrow>
          let t = item_owner (list_head PendingReadyList k);
              k = snd (list_remove (EventItem t) k);
              k = snd (list_remove (StateItem t) k);
              k = prvAddTaskToReadyList t k;
              k = (if prio k t \<ge> cur_prio k then k\<lparr>xYieldPending := True\<rparr> else k)
          in resume_pending n True k)"

declare resume_pending.simps [simp del]

fun resume_ticks :: "nat \<Rightarrow> kernel \<Rightarrow> kernel" where
  "resume_ticks 0 k = k"
| "resume_ticks (Suc n) k =
     (let (sw, k) = xTaskIncrementTick k
      in resume_ticks n (if sw then k\<lparr>xYieldPending := True\<rparr> else k))"

definition xTaskResumeAll :: "kernel \<Rightarrow> bool \<times> kernel" where
  "xTaskResumeAll k =
     (let k = k\<lparr>uxSchedulerSuspended := uxSchedulerSuspended k - 1\<rparr>
      in if uxSchedulerSuspended k = 0 \<and> uxCurrentNumberOfTasks k > 0
         then let (moved, k) = resume_pending (list_length PendingReadyList k) False k;
                  k = (if moved then prvResetNextTaskUnblockTime k else k);
                  k = (if uxPendedTicks k > 0 then (resume_ticks (uxPendedTicks k) k)\<lparr>uxPendedTicks := 0\<rparr> else k)
              in if xYieldPending k then (True, portYIELD k) else (False, k)
         else (False, k))"

text \<open>The allocator with the scheduler suspended around its body.\<close>

definition pvPortMalloc :: "nat \<Rightarrow> kernel \<Rightarrow> nat \<times> kernel" where
  "pvPortMalloc xWantedSize k =
     (let k = vTaskSuspendAll k;
          (pvReturn, k) = (case pvPortMalloc_body xWantedSize (heap k) of
             None \<Rightarrow> (0, k\<lparr>kfault := True\<rparr>) | Some (p, h) \<Rightarrow> (p, k\<lparr>heap := h\<rparr>))
      in (pvReturn, snd (xTaskResumeAll k)))"

definition vPortFree :: "nat \<Rightarrow> kernel \<Rightarrow> kernel" where
  "vPortFree pv k =
     (let pxLink = pv - xHeapStructSize
      in if pv \<noteq> 0 \<and> xBlockSize (heap k) pxLink AND xBlockAllocatedBit (heap k) \<noteq> 0 \<and> pxNextFreeBlock (heap k) pxLink = 0
         then let k = vTaskSuspendAll k;
                  k = (case vPortFree_body pv (heap k) of None \<Rightarrow> k\<lparr>kfault := True\<rparr> | Some h \<Rightarrow> k\<lparr>heap := h\<rparr>)
              in snd (xTaskResumeAll k)
         else k)"

subsection \<open>Creating and deleting tasks\<close>

definition configMAX_TASK_NAME_LEN :: nat where "configMAX_TASK_NAME_LEN = 16"
definition sizeof_TCB :: nat where "sizeof_TCB = 84"

text \<open>The name as a C string: at most 15 characters, cut at the terminator.\<close>

definition copy_name :: "string \<Rightarrow> string" where
  "copy_name pcName = take (configMAX_TASK_NAME_LEN - 1) (takeWhile (\<lambda>c. c \<noteq> CHR 0x00) pcName)"

definition prvInitialiseNewTask :: "string option \<Rightarrow> nat \<Rightarrow> tid \<Rightarrow> nat \<Rightarrow> kernel \<Rightarrow> kernel" where
  "prvInitialiseNewTask pcName uxPriority0 pxNewTCB stack k =
     (let uxPriority0 = (if uxPriority0 \<ge> configMAX_PRIORITIES then configMAX_PRIORITIES - 1 else uxPriority0);
          k = k\<lparr>tcb := (tcb k)(pxNewTCB :=
                \<lparr>uxPriority = uxPriority0, pxStack = stack,
                 pcTaskName = (case pcName of None \<Rightarrow> [] | Some s \<Rightarrow> copy_name s),
                 uxBasePriority = uxPriority0, uxMutexesHeld = 0, ulNotifiedValue = 0,
                 ucNotifyState = taskNOT_WAITING_NOTIFICATION\<rparr>)\<rparr>;
          k = k\<lparr>ctn := (ctn k)(StateItem pxNewTCB := None, EventItem pxNewTCB := None)\<rparr>
      in set_item_value (EventItem pxNewTCB) (of_nat configMAX_PRIORITIES - of_nat uxPriority0) k)"

definition prvInitialiseTaskLists :: "kernel \<Rightarrow> kernel" where
  "prvInitialiseTaskLists k =
     (let k = fold (\<lambda>p. list_initialise (ReadyTasksLists p)) [0..<configMAX_PRIORITIES] k;
          k = list_initialise DelayedTaskList1 k;
          k = list_initialise DelayedTaskList2 k;
          k = list_initialise PendingReadyList k;
          k = list_initialise TasksWaitingTermination k
      in k\<lparr>pxDelayedTaskList := DelayedTaskList1, pxOverflowDelayedTaskList := DelayedTaskList2\<rparr>)"

definition prvAddNewTaskToReadyList :: "tid \<Rightarrow> kernel \<Rightarrow> kernel" where
  "prvAddNewTaskToReadyList pxNewTCB k =
     (let k = k\<lparr>uxCurrentNumberOfTasks := uxCurrentNumberOfTasks k + 1\<rparr>;
          k = (if pxCurrentTCB k = 0
               then let k = k\<lparr>pxCurrentTCB := pxNewTCB\<rparr>
                    in if uxCurrentNumberOfTasks k = 1 then prvInitialiseTaskLists k else k
               else if \<not> xSchedulerRunning k \<and> cur_prio k \<le> prio k pxNewTCB
               then k\<lparr>pxCurrentTCB := pxNewTCB\<rparr> else k);
          k = k\<lparr>uxTaskNumber := uxTaskNumber k + 1\<rparr>;
          k = prvAddTaskToReadyList pxNewTCB k
      in if xSchedulerRunning k \<and> cur_prio k < prio k pxNewTCB then portYIELD k else k)"

text \<open>The handle of the new task, or \<open>None\<close> for \<open>errCOULD_NOT_ALLOCATE_REQUIRED_MEMORY\<close>.\<close>

definition xTaskCreate :: "string option \<Rightarrow> nat \<Rightarrow> nat \<Rightarrow> kernel \<Rightarrow> tid option \<times> kernel" where
  "xTaskCreate pcName usStackDepth uxPriority0 k =
     (let (stack, k) = pvPortMalloc (usStackDepth * 4) k
      in if stack \<noteq> 0
         then let (pxNewTCB, k) = pvPortMalloc sizeof_TCB k
              in if pxNewTCB \<noteq> 0
                 then (Some pxNewTCB,
                       prvAddNewTaskToReadyList pxNewTCB (prvInitialiseNewTask pcName uxPriority0 pxNewTCB stack k))
                 else (None, vPortFree stack k)
         else (None, k))"

definition prvDeleteTCB :: "tid \<Rightarrow> kernel \<Rightarrow> kernel" where
  "prvDeleteTCB t k = (let k = vPortFree (pxStack (tcb k t)) k in vPortFree t k)"

definition vTaskDelete :: "tid \<Rightarrow> kernel \<Rightarrow> kernel" where
  "vTaskDelete xTaskToDelete k =
     (let t = (if xTaskToDelete = 0 then pxCurrentTCB k else xTaskToDelete);
          (n, k) = list_remove (StateItem t) k;
          k = (if n = 0 then taskRESET_READY_PRIORITY (prio k t) k else k);
          k = (if ctn k (EventItem t) \<noteq> None then snd (list_remove (EventItem t) k) else k);
          k = k\<lparr>uxTaskNumber := uxTaskNumber k + 1\<rparr>;
          k = (if t = pxCurrentTCB k
               then let k = list_insert_end TasksWaitingTermination (StateItem t) k
                    in k\<lparr>uxDeletedTasksWaitingCleanUp := uxDeletedTasksWaitingCleanUp k + 1\<rparr>
               else let k = k\<lparr>uxCurrentNumberOfTasks := uxCurrentNumberOfTasks k - 1\<rparr>;
                        k = prvDeleteTCB t k
                    in prvResetNextTaskUnblockTime k)
      in if xSchedulerRunning k \<and> t = pxCurrentTCB k then portYIELD k else k)"

text \<open>The idle task's clean-up of tasks that deleted themselves: one round per deleted task.\<close>

fun reap :: "nat \<Rightarrow> kernel \<Rightarrow> kernel" where
  "reap 0 k = k"
| "reap (Suc n) k =
     (let k = (if list_is_empty TasksWaitingTermination k then k\<lparr>kfault := True\<rparr> else k);
          t = item_owner (list_head TasksWaitingTermination k);
          k = snd (list_remove (StateItem t) k);
          k = k\<lparr>uxCurrentNumberOfTasks := uxCurrentNumberOfTasks k - 1,
                uxDeletedTasksWaitingCleanUp := uxDeletedTasksWaitingCleanUp k - 1\<rparr>
      in reap n (prvDeleteTCB t k))"

definition prvCheckTasksWaitingTermination :: "kernel \<Rightarrow> kernel" where
  "prvCheckTasksWaitingTermination k = reap (uxDeletedTasksWaitingCleanUp k) k"

text \<open>One round of the idle task's loop.\<close>

definition prvIdleTask_round :: "kernel \<Rightarrow> kernel" where
  "prvIdleTask_round k =
     (let k = prvCheckTasksWaitingTermination k
      in if list_length (ReadyTasksLists 0) k > 1 then portYIELD k else k)"

text \<open>
  \<open>vTaskStartScheduler\<close> creates the idle task, has the timer task created, and then starts the
  clock: the first and the last part.
\<close>

definition configMINIMAL_STACK_SIZE :: nat where "configMINIMAL_STACK_SIZE = 256"

definition vTaskStartScheduler_idle :: "kernel \<Rightarrow> bool \<times> kernel" where
  "vTaskStartScheduler_idle k =
     (case xTaskCreate (Some ''IDLE'') configMINIMAL_STACK_SIZE 0 k of
        (Some t, k) \<Rightarrow> (True, k\<lparr>xIdleTaskHandle := t\<rparr>)
      | (None, k) \<Rightarrow> (False, k))"

definition vTaskStartScheduler_run :: "kernel \<Rightarrow> kernel" where
  "vTaskStartScheduler_run k =
     k\<lparr>xNextTaskUnblockTime := portMAX_DELAY, xSchedulerRunning := True, xTickCount := 0\<rparr>"

definition xPortSysTickHandler :: "kernel \<Rightarrow> kernel" where
  "xPortSysTickHandler k = (let (sw, k) = xTaskIncrementTick k in if sw then portYIELD k else k)"

definition vTaskEndScheduler :: "kernel \<Rightarrow> kernel" where
  "vTaskEndScheduler k = k\<lparr>xSchedulerRunning := False\<rparr>"

definition vTaskDelay :: "tick \<Rightarrow> kernel \<Rightarrow> kernel" where
  "vTaskDelay xTicksToDelay k =
     (let (xAlreadyYielded, k) =
        (if xTicksToDelay > 0
         then xTaskResumeAll (prvAddCurrentTaskToDelayedList xTicksToDelay False (vTaskSuspendAll k))
         else (False, k))
      in if \<not> xAlreadyYielded then portYIELD k else k)"

definition xTaskGetCurrentTaskHandle :: "kernel \<Rightarrow> tid" where
  "xTaskGetCurrentTaskHandle k = pxCurrentTCB k"

datatype sched_state = taskSCHEDULER_SUSPENDED | taskSCHEDULER_NOT_STARTED | taskSCHEDULER_RUNNING

definition xTaskGetSchedulerState :: "kernel \<Rightarrow> sched_state" where
  "xTaskGetSchedulerState k =
     (if \<not> xSchedulerRunning k then taskSCHEDULER_NOT_STARTED
      else if uxSchedulerSuspended k = 0 then taskSCHEDULER_RUNNING else taskSCHEDULER_SUSPENDED)"

subsection \<open>Event lists\<close>

definition taskEVENT_LIST_ITEM_VALUE_IN_USE :: u32 where "taskEVENT_LIST_ITEM_VALUE_IN_USE = 0x80000000"

definition vTaskPlaceOnEventList :: "lid \<Rightarrow> tick \<Rightarrow> kernel \<Rightarrow> kernel" where
  "vTaskPlaceOnEventList pxEventList xTicksToWait k =
     prvAddCurrentTaskToDelayedList xTicksToWait True (list_insert pxEventList (EventItem (pxCurrentTCB k)) k)"

definition vTaskPlaceOnUnorderedEventList :: "lid \<Rightarrow> tick \<Rightarrow> tick \<Rightarrow> kernel \<Rightarrow> kernel" where
  "vTaskPlaceOnUnorderedEventList pxEventList xItemValue0 xTicksToWait k =
     (let i = EventItem (pxCurrentTCB k);
          k = set_item_value i (xItemValue0 OR taskEVENT_LIST_ITEM_VALUE_IN_USE) k;
          k = list_insert_end pxEventList i k
      in prvAddCurrentTaskToDelayedList xTicksToWait True k)"

definition vTaskPlaceOnEventListRestricted :: "lid \<Rightarrow> tick \<Rightarrow> bool \<Rightarrow> kernel \<Rightarrow> kernel" where
  "vTaskPlaceOnEventListRestricted pxEventList xTicksToWait xWaitIndefinitely k =
     (let k = list_insert_end pxEventList (EventItem (pxCurrentTCB k)) k
      in prvAddCurrentTaskToDelayedList (if xWaitIndefinitely then portMAX_DELAY else xTicksToWait) xWaitIndefinitely k)"

definition xTaskRemoveFromEventList :: "lid \<Rightarrow> kernel \<Rightarrow> bool \<times> kernel" where
  "xTaskRemoveFromEventList pxEventList k =
     (if list_is_empty pxEventList k then (False, k\<lparr>kfault := True\<rparr>) else
      let t = item_owner (list_head pxEventList k);
          k = snd (list_remove (EventItem t) k);
          k = (if uxSchedulerSuspended k = 0
               then prvAddTaskToReadyList t (snd (list_remove (StateItem t) k))
               else list_insert_end PendingReadyList (EventItem t) k)
      in if prio k t > cur_prio k then (True, k\<lparr>xYieldPending := True\<rparr>) else (False, k))"

definition vTaskRemoveFromUnorderedEventList :: "item \<Rightarrow> tick \<Rightarrow> kernel \<Rightarrow> kernel" where
  "vTaskRemoveFromUnorderedEventList pxEventListItem xItemValue0 k =
     (let k = set_item_value pxEventListItem (xItemValue0 OR taskEVENT_LIST_ITEM_VALUE_IN_USE) k;
          t = item_owner pxEventListItem;
          k = snd (list_remove pxEventListItem k);
          k = snd (list_remove (StateItem t) k);
          k = prvAddTaskToReadyList t k
      in if prio k t > cur_prio k then k\<lparr>xYieldPending := True\<rparr> else k)"

record TimeOut_t =
  xOverflowCount :: u32
  xTimeOnEntering :: tick

definition vTaskInternalSetTimeOutState :: "kernel \<Rightarrow> TimeOut_t" where
  "vTaskInternalSetTimeOutState k = \<lparr>xOverflowCount = xNumOfOverflows k, xTimeOnEntering = xTickCount k\<rparr>"

definition vTaskSetTimeOutState :: "kernel \<Rightarrow> TimeOut_t" where
  "vTaskSetTimeOutState k = \<lparr>xOverflowCount = xNumOfOverflows k, xTimeOnEntering = xTickCount k\<rparr>"

text \<open>The answer, the time-out structure and the ticks still to wait.\<close>

definition xTaskCheckForTimeOut :: "TimeOut_t \<Rightarrow> tick \<Rightarrow> kernel \<Rightarrow> bool \<times> TimeOut_t \<times> tick" where
  "xTaskCheckForTimeOut pxTimeOut xTicksToWait k =
     (let xConstTickCount = xTickCount k;
          xElapsedTime = xConstTickCount - xTimeOnEntering pxTimeOut
      in if xNumOfOverflows k \<noteq> xOverflowCount pxTimeOut \<and> xConstTickCount \<ge> xTimeOnEntering pxTimeOut
         then (True, pxTimeOut, xTicksToWait)
         else if xElapsedTime < xTicksToWait
         then (False, vTaskInternalSetTimeOutState k, xTicksToWait - xElapsedTime)
         else (True, pxTimeOut, 0))"

definition vTaskMissedYield :: "kernel \<Rightarrow> kernel" where
  "vTaskMissedYield k = k\<lparr>xYieldPending := True\<rparr>"

definition uxTaskResetEventItemValue :: "kernel \<Rightarrow> tick \<times> kernel" where
  "uxTaskResetEventItemValue k =
     (ival k (EventItem (pxCurrentTCB k)),
      set_item_value (EventItem (pxCurrentTCB k)) (of_nat configMAX_PRIORITIES - of_nat (cur_prio k)) k)"

subsection \<open>Priority inheritance\<close>

definition xTaskPriorityInherit :: "tid \<Rightarrow> kernel \<Rightarrow> bool \<times> kernel" where
  "xTaskPriorityInherit pxMutexHolder k =
     (if pxMutexHolder \<noteq> 0
      then if prio k pxMutexHolder < cur_prio k
           then let t = pxMutexHolder;
                    k = (if ival k (EventItem t) AND taskEVENT_LIST_ITEM_VALUE_IN_USE = 0
                         then set_item_value (EventItem t) (of_nat configMAX_PRIORITIES - of_nat (cur_prio k)) k else k);
                    k = (if ctn k (StateItem t) = Some (ReadyTasksLists (prio k t))
                         then let (n, k) = list_remove (StateItem t) k;
                                  k = (if n = 0 then taskRESET_READY_PRIORITY (prio k t) k else k);
                                  k = upd_tcb t (\<lambda>b. b\<lparr>uxPriority := cur_prio k\<rparr>) k
                              in prvAddTaskToReadyList t k
                         else upd_tcb t (\<lambda>b. b\<lparr>uxPriority := cur_prio k\<rparr>) k)
                in (True, k)
           else (uxBasePriority (tcb k pxMutexHolder) < cur_prio k, k)
      else (False, k))"

definition xTaskPriorityDisinherit :: "tid \<Rightarrow> kernel \<Rightarrow> bool \<times> kernel" where
  "xTaskPriorityDisinherit pxMutexHolder k =
     (if pxMutexHolder \<noteq> 0
      then let t = pxMutexHolder;
               k = upd_tcb t (\<lambda>b. b\<lparr>uxMutexesHeld := uxMutexesHeld b - 1\<rparr>) k
           in if prio k t \<noteq> uxBasePriority (tcb k t) \<and> uxMutexesHeld (tcb k t) = 0
              then let (n, k) = list_remove (StateItem t) k;
                       k = (if n = 0 then taskRESET_READY_PRIORITY (prio k t) k else k);
                       k = upd_tcb t (\<lambda>b. b\<lparr>uxPriority := uxBasePriority b\<rparr>) k;
                       k = set_item_value (EventItem t) (of_nat configMAX_PRIORITIES - of_nat (prio k t)) k
                   in (True, prvAddTaskToReadyList t k)
              else (False, k)
      else (False, k))"

definition vTaskPriorityDisinheritAfterTimeout :: "tid \<Rightarrow> nat \<Rightarrow> kernel \<Rightarrow> kernel" where
  "vTaskPriorityDisinheritAfterTimeout pxMutexHolder uxHighestPriorityWaitingTask k =
     (if pxMutexHolder \<noteq> 0
      then let t = pxMutexHolder;
               uxPriorityToUse = (if uxBasePriority (tcb k t) < uxHighestPriorityWaitingTask
                                  then uxHighestPriorityWaitingTask else uxBasePriority (tcb k t))
           in if prio k t \<noteq> uxPriorityToUse \<and> uxMutexesHeld (tcb k t) = 1
              then let uxPriorityUsedOnEntry = prio k t;
                       k = upd_tcb t (\<lambda>b. b\<lparr>uxPriority := uxPriorityToUse\<rparr>) k;
                       k = (if ival k (EventItem t) AND taskEVENT_LIST_ITEM_VALUE_IN_USE = 0
                            then set_item_value (EventItem t) (of_nat configMAX_PRIORITIES - of_nat uxPriorityToUse) k
                            else k)
                   in if ctn k (StateItem t) = Some (ReadyTasksLists uxPriorityUsedOnEntry)
                      then let (n, k) = list_remove (StateItem t) k;
                               k = (if n = 0 then taskRESET_READY_PRIORITY (prio k t) k else k)
                           in prvAddTaskToReadyList t k
                      else k
              else k
      else k)"

definition pvTaskIncrementMutexHeldCount :: "kernel \<Rightarrow> tid \<times> kernel" where
  "pvTaskIncrementMutexHeldCount k =
     (pxCurrentTCB k,
      if pxCurrentTCB k \<noteq> 0 then upd_tcb (pxCurrentTCB k) (\<lambda>b. b\<lparr>uxMutexesHeld := uxMutexesHeld b + 1\<rparr>) k else k)"

subsection \<open>Task notifications\<close>

definition ulTaskNotifyTake_enter :: "tick \<Rightarrow> kernel \<Rightarrow> kernel" where
  "ulTaskNotifyTake_enter xTicksToWait k =
     (if ulNotifiedValue (tcb k (pxCurrentTCB k)) = 0
      then let k = upd_tcb (pxCurrentTCB k) (\<lambda>b. b\<lparr>ucNotifyState := taskWAITING_NOTIFICATION\<rparr>) k
           in if xTicksToWait > 0 then portYIELD (prvAddCurrentTaskToDelayedList xTicksToWait True k) else k
      else k)"

definition ulTaskNotifyTake_exit :: "bool \<Rightarrow> kernel \<Rightarrow> u32 \<times> kernel" where
  "ulTaskNotifyTake_exit xClearCountOnExit k =
     (let t = pxCurrentTCB k;
          ulReturn = ulNotifiedValue (tcb k t);
          k = (if ulReturn \<noteq> 0
               then upd_tcb t (\<lambda>b. b\<lparr>ulNotifiedValue := if xClearCountOnExit then 0 else ulReturn - 1\<rparr>) k else k)
      in (ulReturn, upd_tcb t (\<lambda>b. b\<lparr>ucNotifyState := taskNOT_WAITING_NOTIFICATION\<rparr>) k))"

definition xTaskNotifyWait_enter :: "u32 \<Rightarrow> tick \<Rightarrow> kernel \<Rightarrow> kernel" where
  "xTaskNotifyWait_enter ulBitsToClearOnEntry xTicksToWait k =
     (let t = pxCurrentTCB k
      in if ucNotifyState (tcb k t) \<noteq> taskNOTIFICATION_RECEIVED
         then let k = upd_tcb t (\<lambda>b. b\<lparr>ulNotifiedValue := ulNotifiedValue b AND NOT ulBitsToClearOnEntry\<rparr>) k;
                  k = upd_tcb t (\<lambda>b. b\<lparr>ucNotifyState := taskWAITING_NOTIFICATION\<rparr>) k
              in if xTicksToWait > 0 then portYIELD (prvAddCurrentTaskToDelayedList xTicksToWait True k) else k
         else k)"

text \<open>The answer and the notification value the caller gets.\<close>

definition xTaskNotifyWait_exit :: "u32 \<Rightarrow> kernel \<Rightarrow> (bool \<times> u32) \<times> kernel" where
  "xTaskNotifyWait_exit ulBitsToClearOnExit k =
     (let t = pxCurrentTCB k;
          v = ulNotifiedValue (tcb k t);
          (xReturn, k) =
            (if ucNotifyState (tcb k t) \<noteq> taskNOTIFICATION_RECEIVED then (False, k)
             else (True, upd_tcb t (\<lambda>b. b\<lparr>ulNotifiedValue := ulNotifiedValue b AND NOT ulBitsToClearOnExit\<rparr>) k))
      in ((xReturn, v), upd_tcb t (\<lambda>b. b\<lparr>ucNotifyState := taskNOT_WAITING_NOTIFICATION\<rparr>) k))"

datatype eNotifyAction = eNoAction | eSetBits | eIncrement | eSetValueWithOverwrite | eSetValueWithoutOverwrite

text \<open>The switch over the action: the return value, and the new notification value.\<close>

definition notify_action :: "eNotifyAction \<Rightarrow> u32 \<Rightarrow> notify_state \<Rightarrow> u32 \<Rightarrow> bool \<times> u32" where
  "notify_action eAction ulValue ucOriginalNotifyState v =
     (case eAction of
        eSetBits \<Rightarrow> (True, v OR ulValue)
      | eIncrement \<Rightarrow> (True, v + 1)
      | eSetValueWithOverwrite \<Rightarrow> (True, ulValue)
      | eSetValueWithoutOverwrite \<Rightarrow>
          (if ucOriginalNotifyState \<noteq> taskNOTIFICATION_RECEIVED then (True, ulValue) else (False, v))
      | eNoAction \<Rightarrow> (True, v))"

definition xTaskGenericNotify :: "tid \<Rightarrow> u32 \<Rightarrow> eNotifyAction \<Rightarrow> kernel \<Rightarrow> (bool \<times> u32) \<times> kernel" where
  "xTaskGenericNotify t ulValue eAction k =
     (let ulPrevious = ulNotifiedValue (tcb k t);
          ucOriginalNotifyState = ucNotifyState (tcb k t);
          k = upd_tcb t (\<lambda>b. b\<lparr>ucNotifyState := taskNOTIFICATION_RECEIVED\<rparr>) k;
          (xReturn, v) = notify_action eAction ulValue ucOriginalNotifyState ulPrevious;
          k = upd_tcb t (\<lambda>b. b\<lparr>ulNotifiedValue := v\<rparr>) k;
          k = (if ucOriginalNotifyState = taskWAITING_NOTIFICATION
               then let k = prvAddTaskToReadyList t (snd (list_remove (StateItem t) k))
                    in if prio k t > cur_prio k then portYIELD k else k
               else k)
      in ((xReturn, ulPrevious), k))"

text \<open>The wake-up both interrupt versions share: whether a higher priority task was woken.\<close>

definition notify_wake_from_isr :: "tid \<Rightarrow> notify_state \<Rightarrow> kernel \<Rightarrow> bool \<times> kernel" where
  "notify_wake_from_isr t ucOriginalNotifyState k =
     (if ucOriginalNotifyState = taskWAITING_NOTIFICATION
      then let k = (if uxSchedulerSuspended k = 0
                    then prvAddTaskToReadyList t (snd (list_remove (StateItem t) k))
                    else list_insert_end PendingReadyList (EventItem t) k)
           in if prio k t > cur_prio k then (True, k\<lparr>xYieldPending := True\<rparr>) else (False, k)
      else (False, k))"

definition xTaskGenericNotifyFromISR :: "tid \<Rightarrow> u32 \<Rightarrow> eNotifyAction \<Rightarrow> kernel \<Rightarrow> (bool \<times> u32 \<times> bool) \<times> kernel" where
  "xTaskGenericNotifyFromISR t ulValue eAction k =
     (let ulPrevious = ulNotifiedValue (tcb k t);
          ucOriginalNotifyState = ucNotifyState (tcb k t);
          k = upd_tcb t (\<lambda>b. b\<lparr>ucNotifyState := taskNOTIFICATION_RECEIVED\<rparr>) k;
          (xReturn, v) = notify_action eAction ulValue ucOriginalNotifyState ulPrevious;
          k = upd_tcb t (\<lambda>b. b\<lparr>ulNotifiedValue := v\<rparr>) k;
          (woken, k) = notify_wake_from_isr t ucOriginalNotifyState k
      in ((xReturn, ulPrevious, woken), k))"

definition vTaskNotifyGiveFromISR :: "tid \<Rightarrow> kernel \<Rightarrow> bool \<times> kernel" where
  "vTaskNotifyGiveFromISR t k =
     (let ucOriginalNotifyState = ucNotifyState (tcb k t);
          k = upd_tcb t (\<lambda>b. b\<lparr>ucNotifyState := taskNOTIFICATION_RECEIVED\<rparr>) k;
          k = upd_tcb t (\<lambda>b. b\<lparr>ulNotifiedValue := ulNotifiedValue b + 1\<rparr>) k
      in notify_wake_from_isr t ucOriginalNotifyState k)"

definition xTaskNotifyStateClear :: "tid \<Rightarrow> kernel \<Rightarrow> bool \<times> kernel" where
  "xTaskNotifyStateClear xTask k =
     (let t = (if xTask = 0 then pxCurrentTCB k else xTask)
      in if ucNotifyState (tcb k t) = taskNOTIFICATION_RECEIVED
         then (True, upd_tcb t (\<lambda>b. b\<lparr>ucNotifyState := taskNOT_WAITING_NOTIFICATION\<rparr>) k)
         else (False, k))"

end
