(* ===== verification/Scheduler.thy ===== *)
theory Scheduler
  imports Tasks
begin

text \<open>
  The invariant of the kernel state and its preservation by the operations of \<open>tasks.c\<close>: what the
  tick, resumption, the context switch, the event lists, priority inheritance and the notifications
  do to the lists, the bitmap of ready priorities and the wake times.
\<close>

subsection \<open>The scheduler invariant\<close>

fun item_fits :: "item \<Rightarrow> lid \<Rightarrow> bool" where
  "item_fits (StateItem t) l \<longleftrightarrow> (\<exists>p. l = ReadyTasksLists p) \<or> l \<in> {DelayedTaskList1, DelayedTaskList2, TasksWaitingTermination}"
| "item_fits (EventItem t) l \<longleftrightarrow>
     l = PendingReadyList \<or> (\<exists>q. l \<in> {TasksWaitingToSend q, TasksWaitingToReceive q, TasksWaitingForBits q})"
| "item_fits (TimerItem t) l \<longleftrightarrow> l \<in> {ActiveTimerList1, ActiveTimerList2}"

definition delay_lists :: "kernel \<Rightarrow> bool" where
  "delay_lists k \<longleftrightarrow>
     pxDelayedTaskList k = DelayedTaskList1 \<and> pxOverflowDelayedTaskList k = DelayedTaskList2 \<or>
     pxDelayedTaskList k = DelayedTaskList2 \<and> pxOverflowDelayedTaskList k = DelayedTaskList1"

definition sorted_delays :: "kernel \<Rightarrow> bool" where
  "sorted_delays k \<longleftrightarrow> (\<forall>l \<in> {DelayedTaskList1, DelayedTaskList2}. sorted (map (ival k) (xl_items (lists k l))))"

text \<open>
  Wake times: those of the current list satisfy \<open>P\<close> and are not before the next unblock time; those
  of the overflow list lie before the present tick, that is, after the next wrap of the counter.
\<close>

definition delay_values :: "(tick \<Rightarrow> bool) \<Rightarrow> kernel \<Rightarrow> bool" where
  "delay_values P k \<longleftrightarrow>
     (\<forall>i. ctn k i = Some (pxDelayedTaskList k) \<longrightarrow> P (ival k i) \<and> xNextTaskUnblockTime k \<le> ival k i) \<and>
     (\<forall>i. ctn k i = Some (pxOverflowDelayedTaskList k) \<longrightarrow> ival k i < xTickCount k)"

definition prios_ok :: "kernel \<Rightarrow> bool" where
  "prios_ok k \<longleftrightarrow> (\<forall>t. prio k t < 7 \<and> uxBasePriority (tcb k t) < 7)"

definition ready_ok :: "kernel \<Rightarrow> bool" where
  "ready_ok k \<longleftrightarrow>
     (\<forall>t p. ctn k (StateItem t) = Some (ReadyTasksLists p) \<longrightarrow> p = prio k t) \<and>
     (\<forall>p. bit (uxTopReadyPriority k) p \<longleftrightarrow> (\<exists>t. ctn k (StateItem t) = Some (ReadyTasksLists p)))"

definition waits_ok :: "kernel \<Rightarrow> bool" where
  "waits_ok k \<longleftrightarrow>
     (\<forall>t. ctn k (EventItem t) \<noteq> None \<longrightarrow>
        ctn k (StateItem t) \<noteq> None \<and> ctn k (StateItem t) \<noteq> Some TasksWaitingTermination)"

text \<open>Tasks wait to be readied only while the scheduler is suspended.\<close>

definition pend_ok :: "kernel \<Rightarrow> bool" where
  "pend_ok k \<longleftrightarrow> (uxSchedulerSuspended k = 0 \<longrightarrow> (\<forall>i. ctn k i \<noteq> Some PendingReadyList))"

definition fits :: "kernel \<Rightarrow> bool" where
  "fits k \<longleftrightarrow> (\<forall>i l. ctn k i = Some l \<longrightarrow> item_fits i l)"

definition kinvp :: "(tick \<Rightarrow> bool) \<Rightarrow> kernel \<Rightarrow> bool" where
  "kinvp P k \<longleftrightarrow> lists_wf k \<and> fits k \<and> delay_lists k \<and> sorted_delays k \<and>
     delay_values P k \<and> prios_ok k \<and> ready_ok k \<and> waits_ok k \<and> \<not> kfault k"

definition kinv :: "kernel \<Rightarrow> bool" where
  "kinv k \<longleftrightarrow> kinvp (\<lambda>v. xTickCount k < v) k \<and> pend_ok k"

lemma kinvI: "kinvp P k \<Longrightarrow> P = (\<lambda>v. xTickCount k < v) \<Longrightarrow> pend_ok k \<Longrightarrow> kinv k"
  by (simp add: kinv_def)

lemma kinv_kinvp: "kinv k \<Longrightarrow> kinvp (\<lambda>v. xTickCount k < v) k"
  by (simp add: kinv_def)

lemma pend_ok_upd:
  "pend_ok k \<Longrightarrow> ctn k' = (ctn k)(i := c) \<Longrightarrow> uxSchedulerSuspended k' = uxSchedulerSuspended k \<Longrightarrow>
   (c = Some PendingReadyList \<Longrightarrow> uxSchedulerSuspended k \<noteq> 0) \<Longrightarrow> pend_ok k'"
  by (auto simp: pend_ok_def)

lemmas kinv_defs = kinvp_def fits_def delay_lists_def sorted_delays_def delay_values_def prios_ok_def ready_ok_def waits_ok_def

lemma kinvD:
  assumes "kinvp P k"
  shows "lists_wf k" "fits k" "delay_lists k" "sorted_delays k" "delay_values P k" "prios_ok k" "ready_ok k" "waits_ok k"
    "\<not> kfault k"
  using assms by (auto simp: kinvp_def)

lemma fitsD: "fits k \<Longrightarrow> ctn k i = Some l \<Longrightarrow> item_fits i l"
  by (simp add: fits_def)

text \<open>One container changes: what each part of the invariant needs then.\<close>

lemma fits_upd:
  "fits k \<Longrightarrow> ctn k' = (ctn k)(i := c) \<Longrightarrow> (\<And>l. c = Some l \<Longrightarrow> item_fits i l) \<Longrightarrow> fits k'"
  by (simp add: fits_def)

lemma delay_lists_eq:
  "delay_lists k \<Longrightarrow> pxDelayedTaskList k' = pxDelayedTaskList k \<Longrightarrow>
   pxOverflowDelayedTaskList k' = pxOverflowDelayedTaskList k \<Longrightarrow> delay_lists k'"
  by (simp add: delay_lists_def)

lemma delay_values_upd:
  assumes "delay_values P k" "ctn k' = (ctn k)(i := c)" "\<forall>j. j \<noteq> i \<longrightarrow> ival k' j = ival k j"
    "pxDelayedTaskList k' = pxDelayedTaskList k" "pxOverflowDelayedTaskList k' = pxOverflowDelayedTaskList k"
    "xTickCount k' = xTickCount k" "xNextTaskUnblockTime k' \<le> xNextTaskUnblockTime k"
    "c = Some (pxDelayedTaskList k) \<Longrightarrow> P (ival k' i) \<and> xNextTaskUnblockTime k' \<le> ival k' i"
    "c = Some (pxOverflowDelayedTaskList k) \<Longrightarrow> ival k' i < xTickCount k"
  shows "delay_values P k'"
  unfolding delay_values_def
proof (intro conjI allI impI)
  fix j assume "ctn k' j = Some (pxDelayedTaskList k')"
  then show "P (ival k' j)" "xNextTaskUnblockTime k' \<le> ival k' j"
    using assms by (cases "j = i"; auto simp: delay_values_def intro: order_trans)+
next
  fix j assume "ctn k' j = Some (pxOverflowDelayedTaskList k')"
  then show "ival k' j < xTickCount k'"
    using assms by (cases "j = i") (auto simp: delay_values_def)
qed

lemma prios_ok_eq: "prios_ok k \<Longrightarrow> tcb k' = tcb k \<Longrightarrow> prios_ok k'"
  by (simp add: prios_ok_def)

lemma ready_ok_upd_event:
  "ready_ok k \<Longrightarrow> ctn k' = (ctn k)(EventItem t := c) \<Longrightarrow> tcb k' = tcb k \<Longrightarrow>
   uxTopReadyPriority k' = uxTopReadyPriority k \<Longrightarrow> ready_ok k'"
  by (simp add: ready_ok_def)

lemma waits_ok_upd_event:
  assumes "waits_ok k" "ctn k' = (ctn k)(EventItem t := c)"
    "c \<noteq> None \<Longrightarrow> ctn k (StateItem t) \<noteq> None \<and> ctn k (StateItem t) \<noteq> Some TasksWaitingTermination"
  shows "waits_ok k'"
  using assms by (auto simp: waits_ok_def)

lemma waits_ok_upd_state:
  assumes "waits_ok k" "ctn k' = (ctn k)(StateItem t := c)"
    "ctn k (EventItem t) \<noteq> None \<Longrightarrow> c \<noteq> None \<and> c \<noteq> Some TasksWaitingTermination"
  shows "waits_ok k'"
  using assms by (auto simp: waits_ok_def)

text \<open>A state item moves; the bitmap follows.\<close>

lemma ready_ok_upd_state:
  assumes "ready_ok k" "ctn k' = (ctn k)(StateItem t := c)" "tcb k' = tcb k"
    "\<And>p. c = Some (ReadyTasksLists p) \<Longrightarrow> p = prio k t"
    "\<And>q. bit (uxTopReadyPriority k') q \<longleftrightarrow> c = Some (ReadyTasksLists q) \<or>
       (\<exists>s. s \<noteq> t \<and> ctn k (StateItem s) = Some (ReadyTasksLists q))"
  shows "ready_ok k'"
  unfolding ready_ok_def assms(2,3,5) using assms(1,4) by (auto simp: ready_ok_def)

lemma ex_split: "(\<exists>s. P s) \<longleftrightarrow> P t \<or> (\<exists>s. s \<noteq> t \<and> P s)"
  by auto

lemma ready_bit: "ready_ok k \<Longrightarrow> bit (uxTopReadyPriority k) q \<longleftrightarrow> (\<exists>s. ctn k (StateItem s) = Some (ReadyTasksLists q))"
  by (simp add: ready_ok_def)

lemma prios_32: "prios_ok k \<Longrightarrow> prio k t < 32"
  by (rule less_trans [of _ 7]) (simp_all add: prios_ok_def)

lemma list_is_empty_iff: "lists_wf k \<Longrightarrow> list_is_empty l k \<longleftrightarrow> (\<forall>i. ctn k i \<noteq> Some l)"
  by (metis (no_types, lifting) empty_iff empty_set hd_in_set list_is_empty_def lists_wf_ctn)

lemma list_head_in: "lists_wf k \<Longrightarrow> \<not> list_is_empty l k \<Longrightarrow> ctn k (list_head l k) = Some l"
  by (metis hd_in_set list_head_def list_is_empty_def lists_wf_ctn)

lemma list_length_pos: "lists_wf k \<Longrightarrow> ctn k i = Some l \<Longrightarrow> 0 < list_length l k"
  by (metis length_greater_0_conv length_pos_if_in_set list_length_def lists_wf_ctn)

text \<open>Updates of fields the invariant does not mention.\<close>

lemma kinv_frame [simp]:
  "kinvp P (k\<lparr>xYieldPending := b\<rparr>) = kinvp P k" "kinvp P (k\<lparr>pendsv := b\<rparr>) = kinvp P k"
  "kinvp P (k\<lparr>uxPendedTicks := n\<rparr>) = kinvp P k"
  "kinvp P (k\<lparr>uxTaskNumber := n\<rparr>) = kinvp P k" "kinvp P (k\<lparr>uxCurrentNumberOfTasks := n\<rparr>) = kinvp P k"
  "kinvp P (k\<lparr>heap := h\<rparr>) = kinvp P k"
  "kinvp P (k\<lparr>pxCurrentTCB := t\<rparr>) = kinvp P k" "kinvp P (k\<lparr>xSchedulerRunning := r\<rparr>) = kinvp P k"
  "kinvp P (k\<lparr>uxDeletedTasksWaitingCleanUp := n\<rparr>) = kinvp P k" "kinvp P (portYIELD k) = kinvp P k"
  by (simp_all add: kinv_defs lists_wf_def portYIELD_def)

lemma kinv_frame' [simp]:
  "kinv (k\<lparr>xYieldPending := b\<rparr>) = kinv k" "kinv (k\<lparr>pendsv := b\<rparr>) = kinv k" "kinv (k\<lparr>uxPendedTicks := n\<rparr>) = kinv k"
  "kinv (k\<lparr>uxTaskNumber := n\<rparr>) = kinv k" "kinv (k\<lparr>uxCurrentNumberOfTasks := n\<rparr>) = kinv k" "kinv (k\<lparr>heap := h\<rparr>) = kinv k"
  "kinv (k\<lparr>pxCurrentTCB := t\<rparr>) = kinv k" "kinv (k\<lparr>xSchedulerRunning := r\<rparr>) = kinv k"
  "kinv (k\<lparr>uxDeletedTasksWaitingCleanUp := n\<rparr>) = kinv k" "kinv (portYIELD k) = kinv k"
  by (simp_all add: kinv_def pend_ok_def) (simp_all add: portYIELD_def)

lemma bit_record: "p < 32 \<Longrightarrow> bit (portRECORD_READY_PRIORITY p b) q \<longleftrightarrow> bit b q \<or> q = p"
  by (auto simp: portRECORD_READY_PRIORITY_def bit_simps)

lemma bit_reset: "p < 32 \<Longrightarrow> bit (portRESET_READY_PRIORITY p b) q \<longleftrightarrow> bit b q \<and> q \<noteq> p"
  by (auto simp: portRESET_READY_PRIORITY_def bit_simps dest: bit_imp_le_length)

lemma sorted_delays_insert:
  "sorted_delays k \<Longrightarrow> sorted_delays (list_insert l i k)"
  by (auto simp: sorted_delays_def list_insert_def sorted_xl_insert)

lemma sorted_delays_remove: "sorted_delays k \<Longrightarrow> sorted_delays (snd (list_remove i k))"
  by (auto simp: sorted_delays_def list_remove_def sorted_xl_remove split: option.splits)

lemma sorted_delays_insert_end:
  "sorted_delays k \<Longrightarrow> l \<notin> {DelayedTaskList1, DelayedTaskList2} \<Longrightarrow> sorted_delays (list_insert_end l i k)"
  by (auto simp: sorted_delays_def list_insert_end_def)

lemma list_remove_fields:
  assumes "ctn k i = Some l"
  shows "ctn (snd (list_remove i k)) = (ctn k)(i := None)" "ival (snd (list_remove i k)) = ival k"
    "tcb (snd (list_remove i k)) = tcb k" "kfault (snd (list_remove i k)) = kfault k"
    "uxTopReadyPriority (snd (list_remove i k)) = uxTopReadyPriority k"
    "pxCurrentTCB (snd (list_remove i k)) = pxCurrentTCB k" "xTickCount (snd (list_remove i k)) = xTickCount k"
    "pxDelayedTaskList (snd (list_remove i k)) = pxDelayedTaskList k"
    "pxOverflowDelayedTaskList (snd (list_remove i k)) = pxOverflowDelayedTaskList k"
    "xNextTaskUnblockTime (snd (list_remove i k)) = xNextTaskUnblockTime k"
    "uxSchedulerSuspended (snd (list_remove i k)) = uxSchedulerSuspended k"
  using assms by (simp_all add: list_remove_def)

lemma list_insert_fields [simp]:
  "ctn (list_insert l i k) = (ctn k)(i \<mapsto> l)" "ival (list_insert l i k) = ival k"
  "tcb (list_insert l i k) = tcb k" "kfault (list_insert l i k) = kfault k"
  "uxTopReadyPriority (list_insert l i k) = uxTopReadyPriority k"
  "pxCurrentTCB (list_insert l i k) = pxCurrentTCB k" "xTickCount (list_insert l i k) = xTickCount k"
  "pxDelayedTaskList (list_insert l i k) = pxDelayedTaskList k"
  "pxOverflowDelayedTaskList (list_insert l i k) = pxOverflowDelayedTaskList k"
  "xNextTaskUnblockTime (list_insert l i k) = xNextTaskUnblockTime k"
  "uxSchedulerSuspended (list_insert l i k) = uxSchedulerSuspended k"
  by (simp_all add: list_insert_def)

lemma list_insert_end_fields [simp]:
  "ctn (list_insert_end l i k) = (ctn k)(i \<mapsto> l)" "ival (list_insert_end l i k) = ival k"
  "tcb (list_insert_end l i k) = tcb k" "kfault (list_insert_end l i k) = kfault k"
  "uxTopReadyPriority (list_insert_end l i k) = uxTopReadyPriority k"
  "pxCurrentTCB (list_insert_end l i k) = pxCurrentTCB k" "xTickCount (list_insert_end l i k) = xTickCount k"
  "pxDelayedTaskList (list_insert_end l i k) = pxDelayedTaskList k"
  "pxOverflowDelayedTaskList (list_insert_end l i k) = pxOverflowDelayedTaskList k"
  "xNextTaskUnblockTime (list_insert_end l i k) = xNextTaskUnblockTime k"
  "uxSchedulerSuspended (list_insert_end l i k) = uxSchedulerSuspended k"
  by (simp_all add: list_insert_end_def)

subsection \<open>Preservation by the building blocks\<close>

text \<open>Taking a task's event item off whatever list it is on.\<close>

lemma kinv_remove_event:
  assumes "kinvp P k" "ctn k (EventItem t) = Some l"
  shows "kinvp P (snd (list_remove (EventItem t) k))"
proof -
  note F = list_remove_fields [OF assms(2)] and K = kinvD [OF assms(1)]
  show ?thesis unfolding kinvp_def
    using lists_wf_remove [OF K(1)] fits_upd [OF K(2) F(1)] delay_lists_eq [OF K(3) F(8,9)] sorted_delays_remove [OF K(4)]
      delay_values_upd [OF K(5) F(1)] prios_ok_eq [OF K(6) F(3)] ready_ok_upd_event [OF K(7) F(1,3,5)]
      waits_ok_upd_event [OF K(8) F(1)] K(9) by (simp add: F)
qed

text \<open>Moving a task to the ready list of its priority, from a delayed list or from that very list.\<close>

definition make_ready :: "tid \<Rightarrow> kernel \<Rightarrow> kernel" where
  "make_ready t k = prvAddTaskToReadyList t (snd (list_remove (StateItem t) k))"

lemma prvAddTaskToReadyList_fields [simp]:
  "ctn (prvAddTaskToReadyList t k) = (ctn k)(StateItem t \<mapsto> ReadyTasksLists (prio k t))"
  "ival (prvAddTaskToReadyList t k) = ival k"
  "tcb (prvAddTaskToReadyList t k) = tcb k" "kfault (prvAddTaskToReadyList t k) = kfault k"
  "uxTopReadyPriority (prvAddTaskToReadyList t k) = portRECORD_READY_PRIORITY (prio k t) (uxTopReadyPriority k)"
  "pxCurrentTCB (prvAddTaskToReadyList t k) = pxCurrentTCB k" "xTickCount (prvAddTaskToReadyList t k) = xTickCount k"
  "pxDelayedTaskList (prvAddTaskToReadyList t k) = pxDelayedTaskList k"
  "pxOverflowDelayedTaskList (prvAddTaskToReadyList t k) = pxOverflowDelayedTaskList k"
  "xNextTaskUnblockTime (prvAddTaskToReadyList t k) = xNextTaskUnblockTime k"
  "uxSchedulerSuspended (prvAddTaskToReadyList t k) = uxSchedulerSuspended k"
  by (simp_all add: prvAddTaskToReadyList_def)

lemma lists_wf_add_ready:
  assumes "lists_wf k" "ctn k (StateItem t) = None" shows "lists_wf (prvAddTaskToReadyList t k)"
proof -
  have "lists_wf (k\<lparr>uxTopReadyPriority := b\<rparr>)" for b using assms(1) by (simp add: lists_wf_def)
  then show ?thesis unfolding prvAddTaskToReadyList_def Let_def using assms(2) by (intro lists_wf_insert) simp_all
qed

lemma sorted_delays_add_ready: "sorted_delays k \<Longrightarrow> sorted_delays (prvAddTaskToReadyList t k)"
  by (simp add: sorted_delays_def prvAddTaskToReadyList_def list_insert_end_def)

lemma kinv_make_ready:
  assumes k: "kinvp P k" and c: "ctn k (StateItem t) = Some l"
    and l: "l \<in> {DelayedTaskList1, DelayedTaskList2} \<or> l = ReadyTasksLists (prio k t)"
  shows "kinvp P (make_ready t k)"
proof -
  let ?k = "snd (list_remove (StateItem t) k)" and ?r = "Some (ReadyTasksLists (prio k t))"
  note F = list_remove_fields [OF c] and K = kinvD [OF k]
  have p: "prio k t < 32" by (rule prios_32 [OF K(6)])
  have C: "ctn (make_ready t k) = (ctn k)(StateItem t := ?r)" by (simp add: make_ready_def F)
  have M: "ival (make_ready t k) = ival k" "tcb (make_ready t k) = tcb k" "kfault (make_ready t k) = kfault k"
    "pxDelayedTaskList (make_ready t k) = pxDelayedTaskList k"
    "pxOverflowDelayedTaskList (make_ready t k) = pxOverflowDelayedTaskList k"
    "xTickCount (make_ready t k) = xTickCount k" "xNextTaskUnblockTime (make_ready t k) = xNextTaskUnblockTime k"
    "uxSchedulerSuspended (make_ready t k) = uxSchedulerSuspended k"
    "uxTopReadyPriority (make_ready t k) = portRECORD_READY_PRIORITY (prio k t) (uxTopReadyPriority k)"
    by (simp_all add: make_ready_def F)
  have "lists_wf (make_ready t k)" unfolding make_ready_def
    by (rule lists_wf_add_ready [OF lists_wf_remove [OF K(1)]]) (simp add: F)
  moreover have "sorted_delays (make_ready t k)" unfolding make_ready_def
    by (rule sorted_delays_add_ready [OF sorted_delays_remove [OF K(4)]])
  moreover have "fits (make_ready t k)" by (rule fits_upd [OF K(2) C]) auto
  moreover have "delay_values P (make_ready t k)"
    using K(3) by (intro delay_values_upd [OF K(5) C]) (auto simp: M delay_lists_def)
  moreover have "ready_ok (make_ready t k)"
  proof (rule ready_ok_upd_state [OF K(7) C M(2)])
    fix q
    show "bit (uxTopReadyPriority (make_ready t k)) q \<longleftrightarrow> ?r = Some (ReadyTasksLists q) \<or>
       (\<exists>s. s \<noteq> t \<and> ctn k (StateItem s) = Some (ReadyTasksLists q))"
      unfolding M(9) bit_record [OF p] ready_bit [OF K(7)]
      using c l ex_split [where P = "\<lambda>s. ctn k (StateItem s) = Some (ReadyTasksLists q)" and t = t] by auto
  qed simp
  moreover have "waits_ok (make_ready t k)" by (rule waits_ok_upd_state [OF K(8) C]) auto
  ultimately show ?thesis unfolding kinvp_def
    using delay_lists_eq [OF K(3) M(4,5)] prios_ok_eq [OF K(6) M(2)] K(9) M(3) by simp
qed

text \<open>Putting an event item on a list of waiting tasks or of tasks to be readied.\<close>

lemma kinv_insert_event:
  assumes k: "kinvp P k" and c: "ctn k (EventItem t) = None" and st: "ctn k (StateItem t) \<noteq> None"
    "ctn k (StateItem t) \<noteq> Some TasksWaitingTermination" and l: "item_fits (EventItem t) l"
  shows "kinvp P (list_insert_end l (EventItem t) k)" "kinvp P (list_insert l (EventItem t) k)"
proof -
  note K = kinvD [OF k]
  have ne: "l \<notin> {DelayedTaskList1, DelayedTaskList2}" using l(1) by auto
  have "kinvp P k'" if F: "ctn k' = (ctn k)(EventItem t := Some l)" "ival k' = ival k" "tcb k' = tcb k" "kfault k' = kfault k"
      "pxDelayedTaskList k' = pxDelayedTaskList k" "pxOverflowDelayedTaskList k' = pxOverflowDelayedTaskList k"
      "xTickCount k' = xTickCount k" "xNextTaskUnblockTime k' = xNextTaskUnblockTime k"
      "uxSchedulerSuspended k' = uxSchedulerSuspended k" "uxTopReadyPriority k' = uxTopReadyPriority k"
      and w: "lists_wf k'" "sorted_delays k'" for k'
  proof -
    have "delay_values P k'" using K(3) ne by (intro delay_values_upd [OF K(5) F(1)]) (auto simp: F delay_lists_def)
    moreover have "fits k'" by (rule fits_upd [OF K(2) F(1)]) (use l in auto)
    moreover have "waits_ok k'" by (rule waits_ok_upd_event [OF K(8) F(1)]) (use st l in auto)
    ultimately show ?thesis unfolding kinvp_def
      using w delay_lists_eq [OF K(3) F(5,6)] prios_ok_eq [OF K(6) F(3)] ready_ok_upd_event [OF K(7) F(1,3,10)] K(9) F(4) by simp
  qed
  then show "kinvp P (list_insert_end l (EventItem t) k)" "kinvp P (list_insert l (EventItem t) k)"
    using lists_wf_insert [OF K(1) c] sorted_delays_insert [OF K(4)] sorted_delays_insert_end [OF K(4) ne] by simp_all
qed

text \<open>Blocking the current task: it leaves its ready list and enters a delayed list by wake time.\<close>

lemma list_remove_count:
  assumes "lists_wf k" "ctn k i = Some l"
  shows "fst (list_remove i k) = 0 \<longleftrightarrow> (\<forall>j. j \<noteq> i \<longrightarrow> ctn k j \<noteq> Some l)"
proof -
  have w: "xl_wf (lists k l)" using assms(1) by (rule lists_wf_xl)
  have "fst (list_remove i k) = 0 \<longleftrightarrow> set (xl_items (xl_remove i (lists k l))) = {}"
    using assms(2) by (simp add: list_remove_def)
  also have "\<dots> \<longleftrightarrow> set (xl_items (lists k l)) - {i} = {}" by (simp only: set_xl_remove [OF w])
  also have "\<dots> \<longleftrightarrow> (\<forall>j. j \<noteq> i \<longrightarrow> ctn k j \<noteq> Some l)" using lists_wf_ctn [OF assms(1)] by auto
  finally show ?thesis .
qed

definition leave_ready :: "tid \<Rightarrow> kernel \<Rightarrow> kernel" where
  "leave_ready t k =
     (let (n, k) = list_remove (StateItem t) k
      in if n = 0 then k\<lparr>uxTopReadyPriority := portRESET_READY_PRIORITY (prio k t) (uxTopReadyPriority k)\<rparr> else k)"

lemma leave_ready_fields:
  assumes "ctn k (StateItem t) = Some l"
  shows "ctn (leave_ready t k) = (ctn k)(StateItem t := None)" "ival (leave_ready t k) = ival k"
    "tcb (leave_ready t k) = tcb k" "kfault (leave_ready t k) = kfault k"
    "pxCurrentTCB (leave_ready t k) = pxCurrentTCB k" "xTickCount (leave_ready t k) = xTickCount k"
    "pxDelayedTaskList (leave_ready t k) = pxDelayedTaskList k"
    "pxOverflowDelayedTaskList (leave_ready t k) = pxOverflowDelayedTaskList k"
    "xNextTaskUnblockTime (leave_ready t k) = xNextTaskUnblockTime k"
    "uxSchedulerSuspended (leave_ready t k) = uxSchedulerSuspended k"
    "lists (leave_ready t k) = lists (snd (list_remove (StateItem t) k))"
  using assms by (auto simp: leave_ready_def list_remove_def)

lemma ready_state_items: "fits k \<Longrightarrow> ctn k j = Some (ReadyTasksLists p) \<Longrightarrow> \<exists>s. j = StateItem s"
  by (cases j) (auto dest: fitsD)

lemma leave_ready_bits:
  assumes k: "kinvp P k" and c: "ctn k (StateItem t) = Some (ReadyTasksLists (prio k t))"
  shows "bit (uxTopReadyPriority (leave_ready t k)) q \<longleftrightarrow>
    (\<exists>s. s \<noteq> t \<and> ctn k (StateItem s) = Some (ReadyTasksLists q))"
proof -
  note F = list_remove_fields [OF c] and K = kinvD [OF k]
  have n: "fst (list_remove (StateItem t) k) = 0 \<longleftrightarrow> (\<forall>s. s \<noteq> t \<longrightarrow> ctn k (StateItem s) \<noteq> Some (ReadyTasksLists (prio k t)))"
    unfolding list_remove_count [OF K(1) c] using ready_state_items [OF K(2)] by blast
  have u: "uxTopReadyPriority (leave_ready t k) = (if fst (list_remove (StateItem t) k) = 0
      then portRESET_READY_PRIORITY (prio k t) (uxTopReadyPriority k) else uxTopReadyPriority k)"
    by (simp add: leave_ready_def F split: prod.splits) (simp add: list_remove_def c)
  show ?thesis
  proof (cases "fst (list_remove (StateItem t) k) = 0")
    case True
    then show ?thesis unfolding u using n c ex_split [where P = "\<lambda>s. ctn k (StateItem s) = Some (ReadyTasksLists q)" and t = t]
      by (auto simp: bit_reset [OF prios_32 [OF K(6)]] ready_bit [OF K(7)])
  next
    case False
    then obtain s where s: "s \<noteq> t" "ctn k (StateItem s) = Some (ReadyTasksLists (prio k t))" unfolding n by blast
    from False have "bit (uxTopReadyPriority (leave_ready t k)) q \<longleftrightarrow> (\<exists>s. ctn k (StateItem s) = Some (ReadyTasksLists q))"
      unfolding u by (simp add: ready_bit [OF K(7)])
    also have "\<dots> \<longleftrightarrow> (\<exists>s. s \<noteq> t \<and> ctn k (StateItem s) = Some (ReadyTasksLists q))" using s c by (metis option.inject)
    finally show ?thesis .
  qed
qed

lemma leave_ready_wf:
  assumes k: "kinvp P k" and c: "ctn k (StateItem t) = Some l"
  shows "lists_wf (leave_ready t k)" "sorted_delays (leave_ready t k)"
proof -
  note F = list_remove_fields [OF c] and L = leave_ready_fields [OF c] and K = kinvD [OF k]
  show "lists_wf (leave_ready t k)"
    using lists_wf_remove [OF K(1), of "StateItem t"] by (simp add: lists_wf_def L F)
  show "sorted_delays (leave_ready t k)"
    using sorted_delays_remove [OF K(4), of "StateItem t"] by (simp add: sorted_delays_def L F)
qed

lemma sorted_ival_cong:
  "\<forall>j \<in> set xs. f j = g j \<Longrightarrow> sorted (map f xs) = sorted (map g xs)"
  by (metis map_cong)

text \<open>A task on no list enters a delayed list.\<close>

lemma kinv_insert_delayed:
  assumes k: "kinvp P k" and C: "ctn k1 = (ctn k)(StateItem t := None)"
    and F: "ival k1 = (ival k)(StateItem t := w)" "tcb k1 = tcb k" "kfault k1 = kfault k"
      "pxDelayedTaskList k1 = pxDelayedTaskList k" "pxOverflowDelayedTaskList k1 = pxOverflowDelayedTaskList k"
      "xTickCount k1 = xTickCount k" "uxSchedulerSuspended k1 = uxSchedulerSuspended k"
    and b: "\<And>q. bit (uxTopReadyPriority k1) q \<longleftrightarrow> (\<exists>s. s \<noteq> t \<and> ctn k (StateItem s) = Some (ReadyTasksLists q))"
    and wf: "lists_wf k1" "sorted_delays k1"
    and l: "l = pxOverflowDelayedTaskList k \<and> w < xTickCount k \<or>
       l = pxDelayedTaskList k \<and> P w \<and> u \<le> w" "u \<le> xNextTaskUnblockTime k"
  shows "kinvp P (list_insert l (StateItem t) k1 \<lparr>xNextTaskUnblockTime := u\<rparr>)"
proof -
  let ?k = "list_insert l (StateItem t) k1 \<lparr>xNextTaskUnblockTime := u\<rparr>"
  note K = kinvD [OF k]
  have L: "l \<in> {DelayedTaskList1, DelayedTaskList2}" "pxDelayedTaskList k \<noteq> pxOverflowDelayedTaskList k"
    using l(1) K(3) by (auto simp: delay_lists_def)
  have C': "ctn ?k = (ctn k)(StateItem t := Some l)" by (simp add: C)
  have "lists_wf ?k" using lists_wf_insert(1) [OF wf(1), of "StateItem t" l] by (simp add: C lists_wf_def)
  moreover have "sorted_delays ?k" using sorted_delays_insert [OF wf(2), of l "StateItem t"] by (simp add: sorted_delays_def)
  moreover have "fits ?k" by (rule fits_upd [OF K(2) C']) (use L in auto)
  moreover have "delay_values P ?k" by (rule delay_values_upd [OF K(5) C']) (use l L in \<open>auto simp: F\<close>)
  moreover have "ready_ok ?k"
  proof (rule ready_ok_upd_state [OF K(7) C'])
    show "bit (uxTopReadyPriority ?k) q \<longleftrightarrow> Some l = Some (ReadyTasksLists q) \<or>
       (\<exists>s. s \<noteq> t \<and> ctn k (StateItem s) = Some (ReadyTasksLists q))" for q using L b [of q] by auto
  qed (use L in \<open>auto simp: F\<close>)
  moreover have "waits_ok ?k" by (rule waits_ok_upd_state [OF K(8) C']) (use L in \<open>auto simp: F\<close>)
  ultimately show ?thesis unfolding kinvp_def
    using delay_lists_eq [OF K(3), of ?k] prios_ok_eq [OF K(6), of ?k] K(9) by (simp add: F)
qed

lemma kinv_block_current:
  assumes k0: "kinv k" and c: "ctn k (StateItem (pxCurrentTCB k)) = Some (ReadyTasksLists (cur_prio k))"
    and n: "n \<noteq> 0"
  shows "kinv (prvAddCurrentTaskToDelayedList n b k)"
proof -
  let ?t = "pxCurrentTCB k" and ?w = "xTickCount k + n"
  have k: "kinvp (\<lambda>v. xTickCount k < v) k" using k0 by (simp add: kinv_def)
  define k1 where "k1 = leave_ready ?t k"
  define k2 where "k2 = set_item_value (StateItem ?t) ?w k1"
  note L = leave_ready_fields [OF c, folded k1_def] and W = leave_ready_wf [OF k c, folded k1_def]
  note B = leave_ready_bits [OF k c, folded k1_def] and K = kinvD [OF k]
  have F2: "ctn k2 = (ctn k)(StateItem ?t := None)" "ival k2 = (ival k)(StateItem ?t := ?w)" "tcb k2 = tcb k"
    "kfault k2 = kfault k" "xTickCount k2 = xTickCount k"
    "pxDelayedTaskList k2 = pxDelayedTaskList k" "pxOverflowDelayedTaskList k2 = pxOverflowDelayedTaskList k"
    "xNextTaskUnblockTime k2 = xNextTaskUnblockTime k" "uxSchedulerSuspended k2 = uxSchedulerSuspended k"
    "uxTopReadyPriority k2 = uxTopReadyPriority k1" "lists k2 = lists k1"
    by (simp_all add: k2_def set_item_value_def L)
  have wf: "lists_wf k2" using W(1) by (simp add: lists_wf_def F2 L)
  have so: "sorted_delays k2"
  proof -
    have "StateItem ?t \<notin> set (xl_items (lists k1 l))" for l using W(1) L(1) by (simp add: lists_wf_ctn)
    then have "sorted (map (ival k2) (xl_items (lists k2 l))) = sorted (map (ival k1) (xl_items (lists k1 l)))" for l
      unfolding F2(11) by (intro sorted_ival_cong) (auto simp: F2(2) L(2))
    then show ?thesis using W(2) by (simp add: sorted_delays_def)
  qed
  have D: "prvAddCurrentTaskToDelayedList n b k =
      (if ?w < xTickCount k then list_insert (pxOverflowDelayedTaskList k) (StateItem ?t) k2
       else let k3 = list_insert (pxDelayedTaskList k) (StateItem ?t) k2
            in if ?w < xNextTaskUnblockTime k then k3\<lparr>xNextTaskUnblockTime := ?w\<rparr> else k3)"
    unfolding prvAddCurrentTaskToDelayedList_def k2_def k1_def leave_ready_def
    by (simp add: Let_def set_item_value_def list_remove_def c)
  have P: "pend_ok (list_insert l (StateItem ?t) k2 \<lparr>xNextTaskUnblockTime := u\<rparr>)"
    if "l \<in> {pxDelayedTaskList k, pxOverflowDelayedTaskList k}" for l u
  proof (rule pend_ok_upd)
    show "pend_ok k" using k0 by (simp add: kinv_def)
    show "ctn (list_insert l (StateItem ?t) k2 \<lparr>xNextTaskUnblockTime := u\<rparr>) = (ctn k)(StateItem ?t := Some l)"
      by (simp add: F2)
  qed (use that K(3) in \<open>auto simp: F2 delay_lists_def\<close>)
  note I = kinv_insert_delayed [OF k F2(1-4,6,7,5,9) B [folded F2(10)] wf so]
  have id: "list_insert l i k2 = list_insert l i k2 \<lparr>xNextTaskUnblockTime := xNextTaskUnblockTime k\<rparr>" for l i
    using F2(8) by (simp add: list_insert_def)
  show ?thesis
  proof (cases "?w < xTickCount k")
    case True
    then have "prvAddCurrentTaskToDelayedList n b k = list_insert (pxOverflowDelayedTaskList k) (StateItem ?t) k2
        \<lparr>xNextTaskUnblockTime := xNextTaskUnblockTime k\<rparr>"
      unfolding D using id by simp
    moreover have "kinvp (\<lambda>v. xTickCount k < v) \<dots>" using True by (intro I) auto
    ultimately show ?thesis using P [of "pxOverflowDelayedTaskList k"] by (simp add: kinv_def F2)
  next
    case False
    then have "prvAddCurrentTaskToDelayedList n b k = list_insert (pxDelayedTaskList k) (StateItem ?t) k2
        \<lparr>xNextTaskUnblockTime := if ?w < xNextTaskUnblockTime k then ?w else xNextTaskUnblockTime k\<rparr>"
      unfolding D using id by (simp add: Let_def)
    moreover have "xTickCount k < ?w" using False n by (metis add.right_neutral add_left_cancel not_less_iff_gr_or_eq)
    then have "kinvp (\<lambda>v. xTickCount k < v) (list_insert (pxDelayedTaskList k) (StateItem ?t) k2
        \<lparr>xNextTaskUnblockTime := if ?w < xNextTaskUnblockTime k then ?w else xNextTaskUnblockTime k\<rparr>)"
      using False by (intro I) (auto simp: not_less)
    ultimately show ?thesis using P [of "pxDelayedTaskList k"] by (simp add: kinv_def F2)
  qed
qed

subsection \<open>Waking a task\<close>

lemma list_length_card: "lists_wf k \<Longrightarrow> list_length l k = card {i. ctn k i = Some l} \<and> finite {i. ctn k i = Some l}"
proof -
  assume w: "lists_wf k"
  have "{i. ctn k i = Some l} = set (xl_items (lists k l))" using lists_wf_ctn [OF w] by auto
  moreover have "distinct (xl_items (lists k l))" using lists_wf_xl [OF w] by (simp add: xl_wf_def)
  ultimately show ?thesis by (simp add: list_length_def distinct_card)
qed

definition wake :: "tid \<Rightarrow> kernel \<Rightarrow> kernel" where
  "wake t k = make_ready t (if ctn k (EventItem t) \<noteq> None then snd (list_remove (EventItem t) k) else k)"

lemma list_remove_commute:
  assumes "ctn k i = Some l" "ctn k j = Some l'" "l \<noteq> l'" "i \<noteq> j"
  shows "snd (list_remove i (snd (list_remove j k))) = snd (list_remove j (snd (list_remove i k)))"
  using assms by (simp add: list_remove_def fun_upd_twist)

lemma wake_eq:
  assumes "fits k" "ctn k (StateItem t) = Some l"
  shows "prvAddTaskToReadyList t
     (let k = snd (list_remove (StateItem t) k)
      in if ctn k (EventItem t) \<noteq> None then snd (list_remove (EventItem t) k) else k) = wake t k"
proof (cases "ctn k (EventItem t)")
  case None
  then show ?thesis using assms(2) by (simp add: wake_def make_ready_def list_remove_fields Let_def)
next
  case (Some e)
  have "l \<noteq> e" using fitsD [OF assms(1) assms(2)] fitsD [OF assms(1) Some] by auto
  then show ?thesis using Some assms(2) list_remove_commute [OF Some assms(2)]
    by (simp add: wake_def make_ready_def list_remove_fields Let_def)
qed

lemma wake_fields:
  assumes "ctn k (StateItem t) = Some l"
  shows "ctn (wake t k) = (ctn k)(EventItem t := None, StateItem t \<mapsto> ReadyTasksLists (prio k t))"
    "ival (wake t k) = ival k" "tcb (wake t k) = tcb k" "kfault (wake t k) = kfault k"
    "pxCurrentTCB (wake t k) = pxCurrentTCB k" "xTickCount (wake t k) = xTickCount k"
    "pxDelayedTaskList (wake t k) = pxDelayedTaskList k"
    "pxOverflowDelayedTaskList (wake t k) = pxOverflowDelayedTaskList k"
    "xNextTaskUnblockTime (wake t k) = xNextTaskUnblockTime k"
    "uxSchedulerSuspended (wake t k) = uxSchedulerSuspended k"
    "xYieldPending (wake t k) = xYieldPending k" "uxPendedTicks (wake t k) = uxPendedTicks k"
    "uxCurrentNumberOfTasks (wake t k) = uxCurrentNumberOfTasks k" "pendsv (wake t k) = pendsv k"
    "xNumOfOverflows (wake t k) = xNumOfOverflows k"
  using assms
  by (auto simp: wake_def make_ready_def prvAddTaskToReadyList_def list_insert_end_def list_remove_def Let_def)

lemma kinv_wake:
  assumes k: "kinvp P k" and c: "ctn k (StateItem t) = Some l"
    and l: "l \<in> {DelayedTaskList1, DelayedTaskList2} \<or> l = ReadyTasksLists (prio k t)"
  shows "kinvp P (wake t k)"
proof (cases "ctn k (EventItem t)")
  case None
  then show ?thesis using kinv_make_ready [OF k c l] by (simp add: wake_def)
next
  case (Some e)
  note F = list_remove_fields [OF Some]
  have "kinvp P (make_ready t (snd (list_remove (EventItem t) k)))"
    by (rule kinv_make_ready [OF kinv_remove_event [OF k Some]]) (use c l in \<open>auto simp: F\<close>)
  then show ?thesis using Some by (simp add: wake_def)
qed

lemma delayed_state_item:
  assumes "kinvp P k" "ctn k i = Some (pxDelayedTaskList k)" shows "i = StateItem (item_owner i)"
proof -
  have "item_fits i (pxDelayedTaskList k)" using fitsD [OF kinvD(2) [OF assms(1)] assms(2)] .
  then show ?thesis using kinvD(3) [OF assms(1)] by (cases i) (auto simp: delay_lists_def)
qed

lemma head_min:
  assumes k: "kinvp P k" and c: "ctn k i = Some (pxDelayedTaskList k)"
  shows "ival k (list_head (pxDelayedTaskList k) k) \<le> ival k i"
proof -
  have "i \<in> set (xl_items (lists k (pxDelayedTaskList k)))" using c lists_wf_ctn [OF kinvD(1) [OF k]] by simp
  moreover have "sorted (map (ival k) (xl_items (lists k (pxDelayedTaskList k))))"
    using kinvD(3,4) [OF k] by (auto simp: sorted_delays_def delay_lists_def)
  ultimately show ?thesis unfolding list_head_def by (cases "xl_items (lists k (pxDelayedTaskList k))") auto
qed

lemma kinvp_next:
  assumes k: "kinvp P k"
    and u: "\<And>i. ctn k i = Some (pxDelayedTaskList k) \<Longrightarrow> u \<le> ival k i \<and> Q (ival k i)"
  shows "kinvp Q (k\<lparr>xNextTaskUnblockTime := u\<rparr>)"
proof -
  have "delay_values Q (k\<lparr>xNextTaskUnblockTime := u\<rparr>)"
    using u kinvD(5) [OF k] by (simp add: delay_values_def)
  moreover have "lists_wf (k\<lparr>xNextTaskUnblockTime := u\<rparr>)" using kinvD(1) [OF k] by (simp add: lists_wf_def)
  ultimately show ?thesis using kinvD [OF k]
    by (simp add: kinvp_def fits_def delay_lists_def sorted_delays_def prios_ok_def ready_ok_def waits_ok_def)
qed

subsection \<open>The tick\<close>

text \<open>Which tasks the tick wakes.\<close>

definition due :: "kernel \<Rightarrow> tid \<Rightarrow> bool" where
  "due k t \<longleftrightarrow> ctn k (StateItem t) = Some (pxDelayedTaskList k) \<and> ival k (StateItem t) \<le> xTickCount k"

definition wake_due :: "kernel \<Rightarrow> item \<Rightarrow> lid option" where
  "wake_due k i = (case i of
     StateItem t \<Rightarrow> if due k t then Some (ReadyTasksLists (prio k t)) else ctn k i
   | EventItem t \<Rightarrow> if due k t then None else ctn k i
   | TimerItem n \<Rightarrow> ctn k i)"

lemma tick_wake_spec:
  assumes "kinvp P k" "list_length (pxDelayedTaskList k) k < n"
  shows "case tick_wake n sw k of (sw', k') \<Rightarrow>
    kinvp (\<lambda>v. xTickCount k < v) k' \<and> ctn k' = wake_due k \<and>
    (sw' \<longleftrightarrow> sw \<or> (\<exists>t. due k t \<and> cur_prio k \<le> prio k t)) \<and>
    ival k' = ival k \<and> tcb k' = tcb k \<and> pxCurrentTCB k' = pxCurrentTCB k \<and> xTickCount k' = xTickCount k \<and>
    pxDelayedTaskList k' = pxDelayedTaskList k \<and> pxOverflowDelayedTaskList k' = pxOverflowDelayedTaskList k \<and>
    uxSchedulerSuspended k' = uxSchedulerSuspended k \<and> xYieldPending k' = xYieldPending k \<and>
    uxPendedTicks k' = uxPendedTicks k \<and> uxCurrentNumberOfTasks k' = uxCurrentNumberOfTasks k \<and> pendsv k' = pendsv k \<and>
    xNumOfOverflows k' = xNumOfOverflows k"
  using assms
proof (induction n arbitrary: k sw)
  case (Suc n)
  note K = kinvD [OF Suc.prems(1)]
  let ?l = "pxDelayedTaskList k"
  have nodue: "ctn k = wake_due k" if "\<And>t. \<not> due k t"
    using that by (auto simp: wake_due_def fun_eq_iff split: item.splits)
  show ?case
  proof (cases "list_is_empty ?l k")
    case True
    then have e: "\<forall>i. ctn k i \<noteq> Some ?l" using list_is_empty_iff [OF K(1)] by simp
    then have nd: "\<not> due k t" for t by (simp add: due_def)
    have "kinvp (\<lambda>v. xTickCount k < v) (k\<lparr>xNextTaskUnblockTime := portMAX_DELAY\<rparr>)"
      by (rule kinvp_next [OF Suc.prems(1)]) (use e in auto)
    then show ?thesis using True nd nodue by simp
  next
    case False
    let ?h = "list_head ?l k"
    define t where "t = item_owner ?h"
    have hc: "ctn k ?h = Some ?l" by (rule list_head_in [OF K(1) False])
    then have h: "?h = StateItem t" using delayed_state_item [OF Suc.prems(1)] by (simp add: t_def)
    have c: "ctn k (StateItem t) = Some ?l" using hc h by simp
    have mn: "ival k (StateItem t) \<le> ival k i" if "ctn k i = Some ?l" for i
      using head_min [OF Suc.prems(1) that] h by simp
    show ?thesis
    proof (cases "xTickCount k < ival k (StateItem t)")
      case True
      have later: "xTickCount k < ival k i" if "ctn k i = Some ?l" for i
        using True mn [OF that] by (rule less_le_trans)
      then have nd: "\<not> due k s" for s by (auto simp: due_def not_le)
      have "kinvp (\<lambda>v. xTickCount k < v) (k\<lparr>xNextTaskUnblockTime := ival k (StateItem t)\<rparr>)"
        by (rule kinvp_next [OF Suc.prems(1)]) (use mn later in auto)
      then show ?thesis using False True nd nodue by (simp add: t_def [symmetric])
    next
      case nt: False
      have ld: "?l \<in> {DelayedTaskList1, DelayedTaskList2}" using K(3) by (auto simp: delay_lists_def)
      note W = wake_fields [OF c]
      have kw: "kinvp P (wake t k)" by (rule kinv_wake [OF Suc.prems(1) c]) (use ld in simp)
      have len: "list_length ?l (wake t k) < n"
      proof -
        have "ReadyTasksLists (prio k t) \<noteq> ?l" using ld by auto
        then have "{i. ctn (wake t k) i = Some ?l} = {i. ctn k i = Some ?l} - {StateItem t, EventItem t}"
          unfolding W(1) by (simp add: set_eq_iff)
        then have "{i. ctn (wake t k) i = Some ?l} \<subset> {i. ctn k i = Some ?l}" using c by blast
        then have "list_length ?l (wake t k) < list_length ?l k"
          using list_length_card [OF K(1)] list_length_card [OF kinvD(1) [OF kw]] by (simp add: psubset_card_mono)
        then show ?thesis using Suc.prems(2) by simp
      qed
      have st: "tick_wake (Suc n) sw k = tick_wake n (sw \<or> cur_prio k \<le> prio k t) (wake t k)"
        unfolding tick_wake.simps Let_def t_def [symmetric] wake_eq [OF K(2) c, unfolded Let_def]
        by (simp add: False nt W)
      have d: "due (wake t k) s \<longleftrightarrow> due k s \<and> s \<noteq> t" for s using ld by (auto simp: due_def W)
      have dt: "due k t" using c nt by (simp add: due_def)
      have wd: "wake_due (wake t k) = wake_due k"
        using dt by (auto simp: wake_due_def fun_eq_iff d W split: item.splits)
      have ex: "(\<exists>s. due k s \<and> cur_prio k \<le> prio k s) \<longleftrightarrow> cur_prio k \<le> prio k t \<or> (\<exists>s. due k s \<and> s \<noteq> t \<and> cur_prio k \<le> prio k s)"
        using dt by metis
      from Suc.IH [OF kw, of "sw \<or> cur_prio k \<le> prio k t"] len
      show ?thesis unfolding st by (simp add: W wd d ex split: prod.splits)
    qed
  qed
qed simp


lemma kinvp_tick:
  assumes k: "kinvp P k" and v: "\<And>i. ctn k i = Some (pxOverflowDelayedTaskList k) \<Longrightarrow> ival k i < v"
  shows "kinvp P (k\<lparr>xTickCount := v\<rparr>)"
proof -
  have "delay_values P (k\<lparr>xTickCount := v\<rparr>)" using v kinvD(5) [OF k] by (simp add: delay_values_def)
  moreover have "lists_wf (k\<lparr>xTickCount := v\<rparr>)" using kinvD(1) [OF k] by (simp add: lists_wf_def)
  ultimately show ?thesis using kinvD [OF k]
    by (simp add: kinvp_def fits_def delay_lists_def sorted_delays_def prios_ok_def ready_ok_def waits_ok_def)
qed

text \<open>
  What the delayed list is after the counter has advanced: at the wrap the two lists change places.
\<close>

definition advance_time :: "kernel \<Rightarrow> kernel" where
  "advance_time k =
     (let k = k\<lparr>xTickCount := xTickCount k + 1\<rparr> in if xTickCount k = 0 then taskSWITCH_DELAYED_LISTS k else k)"

lemma kinv_switch_lists:
  assumes k: "kinvp P k" and e: "\<And>i. ctn k i \<noteq> Some (pxDelayedTaskList k)"
  shows "kinvp (\<lambda>_. True) (taskSWITCH_DELAYED_LISTS (k\<lparr>xTickCount := v\<rparr>))"
proof -
  define k' where "k' = k\<lparr>xTickCount := v, pxDelayedTaskList := pxOverflowDelayedTaskList k,
      pxOverflowDelayedTaskList := pxDelayedTaskList k, xNumOfOverflows := xNumOfOverflows k + 1, xNextTaskUnblockTime := 0\<rparr>"
  note K = kinvD [OF k]
  have k': "kinvp (\<lambda>_. True) k'"
    using K e by (auto simp: kinvp_def k'_def fits_def delay_lists_def sorted_delays_def prios_ok_def ready_ok_def
        waits_ok_def delay_values_def lists_wf_def)
  let ?l = "pxOverflowDelayedTaskList k"
  have F: "pxDelayedTaskList k' = ?l" "lists k' = lists k" "ival k' = ival k" by (simp_all add: k'_def)
  have le: "list_is_empty ?l (k\<lparr>xTickCount := v\<rparr>) = list_is_empty ?l k'" for v by (simp add: list_is_empty_def F)
  have hd: "StateItem (item_owner (list_head ?l k')) = list_head ?l k'" if "\<not> list_is_empty ?l k'"
    using delayed_state_item [OF k'] list_head_in [OF kinvD(1) [OF k'] that] F(1) by simp
  have sw: "taskSWITCH_DELAYED_LISTS (k\<lparr>xTickCount := v\<rparr>) = k'\<lparr>xNextTaskUnblockTime :=
      (if list_is_empty ?l k' then portMAX_DELAY else ival k (StateItem (item_owner (list_head ?l k'))))\<rparr>"
    by (simp add: taskSWITCH_DELAYED_LISTS_def prvResetNextTaskUnblockTime_def k'_def list_is_empty_def list_head_def)
  show ?thesis unfolding sw
  proof (rule kinvp_next [OF k'])
    fix i assume i: "ctn k' i = Some (pxDelayedTaskList k')"
    then have ne: "\<not> list_is_empty ?l k'" using list_is_empty_iff [OF kinvD(1) [OF k'], of ?l] F(1) by auto
    with head_min [OF k' i] hd [OF ne]
    show "(if list_is_empty ?l k' then portMAX_DELAY else ival k (StateItem (item_owner (list_head ?l k')))) \<le> ival k' i \<and> True"
      by (simp add: F)
  qed
qed

lemma tick_max: "(x :: tick) + 1 = 0 \<Longrightarrow> \<not> x < v"
  by (metis add_eq_0_iff2 word_order.extremum_strict)

lemma tick_succ_le: "(x :: tick) + 1 \<noteq> 0 \<Longrightarrow> x < v \<Longrightarrow> x + 1 \<le> v"
  by (simp add: inc_le)

lemma tick_less_succ: "(x :: tick) + 1 \<noteq> 0 \<Longrightarrow> u < x \<Longrightarrow> u < x + 1"
proof -
  assume a: "x + 1 \<noteq> 0" "u < x"
  then have "x \<noteq> - 1" by auto
  then have "unat (x + 1) = Suc (unat x)" by (rule unat_plus_one)
  with a(2) show ?thesis by (simp add: word_less_nat_alt)
qed

lemma kinv_advance_time:
  assumes k: "kinv k"
  shows "kinvp (\<lambda>_. True) (advance_time k)"
proof (cases "xTickCount k + 1 = 0")
  case True
  have kp: "kinvp (\<lambda>v. xTickCount k < v) k" by (rule kinv_kinvp [OF k])
  have "ctn k i \<noteq> Some (pxDelayedTaskList k)" for i
    using kinvD(5) [OF kp] tick_max [OF True] by (auto simp: delay_values_def)
  from kinv_switch_lists [OF kp this] show ?thesis using True by (simp add: advance_time_def)
next
  case False
  have kp: "kinvp (\<lambda>v. xTickCount k < v) k" by (rule kinv_kinvp [OF k])
  have "kinvp (\<lambda>v. xTickCount k < v) (k\<lparr>xTickCount := xTickCount k + 1\<rparr>)"
    by (rule kinvp_tick [OF kp]) (use kinvD(5) [OF kp] tick_less_succ [OF False] in \<open>auto simp: delay_values_def\<close>)
  then have "kinvp (\<lambda>_. True) (k\<lparr>xTickCount := xTickCount k + 1\<rparr>)" by (auto simp: kinvp_def delay_values_def)
  then show ?thesis using False by (simp add: advance_time_def)
qed

lemma advance_time_fields [simp]:
  "xTickCount (advance_time k) = xTickCount k + 1" "ctn (advance_time k) = ctn k" "ival (advance_time k) = ival k"
  "tcb (advance_time k) = tcb k" "pxCurrentTCB (advance_time k) = pxCurrentTCB k"
  "uxSchedulerSuspended (advance_time k) = uxSchedulerSuspended k" "xYieldPending (advance_time k) = xYieldPending k"
  "uxPendedTicks (advance_time k) = uxPendedTicks k" "uxCurrentNumberOfTasks (advance_time k) = uxCurrentNumberOfTasks k"
  "pendsv (advance_time k) = pendsv k" "lists (advance_time k) = lists k"
  by (simp_all add: advance_time_def taskSWITCH_DELAYED_LISTS_def prvResetNextTaskUnblockTime_def Let_def)

text \<open>The tick as a whole: the invariant, and exactly the due tasks are readied.\<close>

lemma xTaskIncrementTick_spec:
  assumes k: "kinv k" and s: "uxSchedulerSuspended k = 0"
  shows "case xTaskIncrementTick k of (sw, k') \<Rightarrow>
    kinv k' \<and> xTickCount k' = xTickCount k + 1 \<and> ctn k' = wake_due (advance_time k) \<and>
    (sw \<longleftrightarrow> (\<exists>t. due (advance_time k) t \<and> cur_prio k \<le> prio k t) \<or>
       list_length (ReadyTasksLists (cur_prio k)) k' > 1 \<or> xYieldPending k) \<and>
    ival k' = ival k \<and> tcb k' = tcb k \<and> pxCurrentTCB k' = pxCurrentTCB k \<and>
    uxSchedulerSuspended k' = 0 \<and> xYieldPending k' = xYieldPending k \<and> uxPendedTicks k' = uxPendedTicks k \<and>
    uxCurrentNumberOfTasks k' = uxCurrentNumberOfTasks k \<and> pendsv k' = pendsv k"
proof -
  define a where "a = advance_time k"
  have a: "kinvp (\<lambda>_. True) a" unfolding a_def by (rule kinv_advance_time [OF k])
  note K = kinvD [OF a]
  define r where "r = (if xTickCount a \<ge> xNextTaskUnblockTime a
      then tick_wake (Suc (list_length (pxDelayedTaskList a) a)) False a else (False, a))"
  have T: "xTaskIncrementTick k = (fst r \<or> list_length (ReadyTasksLists (cur_prio (snd r))) (snd r) > 1 \<or> xYieldPending (snd r), snd r)"
    using s by (simp add: xTaskIncrementTick_def r_def a_def advance_time_def Let_def split: prod.splits)
  have R: "kinvp (\<lambda>v. xTickCount a < v) (snd r) \<and> ctn (snd r) = wake_due a \<and>
    (fst r \<longleftrightarrow> (\<exists>t. due a t \<and> cur_prio a \<le> prio a t)) \<and>
    ival (snd r) = ival a \<and> tcb (snd r) = tcb a \<and> pxCurrentTCB (snd r) = pxCurrentTCB a \<and> xTickCount (snd r) = xTickCount a \<and>
    uxSchedulerSuspended (snd r) = uxSchedulerSuspended a \<and> xYieldPending (snd r) = xYieldPending a \<and>
    uxPendedTicks (snd r) = uxPendedTicks a \<and> uxCurrentNumberOfTasks (snd r) = uxCurrentNumberOfTasks a \<and> pendsv (snd r) = pendsv a"
  proof (cases "xTickCount a \<ge> xNextTaskUnblockTime a")
    case True
    then show ?thesis using tick_wake_spec [OF a, of "Suc (list_length (pxDelayedTaskList a) a)" False]
      by (auto simp: r_def split: prod.splits)
  next
    case False
    have later: "xTickCount a < ival a i" if "ctn a i = Some (pxDelayedTaskList a)" for i
      using False K(5) that by (auto simp: delay_values_def not_le intro: less_le_trans)
    then have nd: "\<not> due a t" for t by (auto simp: due_def not_le)
    then have "ctn a = wake_due a" by (auto simp: wake_due_def fun_eq_iff split: item.splits)
    moreover have "kinvp (\<lambda>v. xTickCount a < v) a"
      using K later by (auto simp: kinvp_def delay_values_def)
    ultimately show ?thesis using False nd by (simp add: r_def)
  qed
  moreover have "pend_ok (snd r)"
  proof -
    have "wake_due a i \<noteq> Some PendingReadyList" for i
    proof -
      have "ctn a i \<noteq> Some PendingReadyList" using k s by (simp add: kinv_def pend_ok_def a_def)
      then show ?thesis by (auto simp: wake_due_def split: item.splits)
    qed
    then show ?thesis using R by (simp add: pend_ok_def)
  qed
  ultimately show ?thesis unfolding T using s by (simp add: kinv_def a_def)
qed

subsection \<open>Resuming the scheduler\<close>

lemma event_state:
  assumes k: "kinvp P k" and e: "ctn k (EventItem t) \<noteq> None"
  obtains l where "ctn k (StateItem t) = Some l" "l \<in> {DelayedTaskList1, DelayedTaskList2} \<or> l = ReadyTasksLists (prio k t)"
proof -
  from kinvD(8) [OF k] e obtain l where l: "ctn k (StateItem t) = Some l" "l \<noteq> TasksWaitingTermination"
    by (auto simp: waits_ok_def)
  moreover have "item_fits (StateItem t) l" by (rule fitsD [OF kinvD(2) [OF k] l(1)])
  ultimately show ?thesis using kinvD(7) [OF k] that [of l] by (auto simp: ready_ok_def)
qed

text \<open>The containers after every pending task has been moved.\<close>

definition wake_pending :: "kernel \<Rightarrow> item \<Rightarrow> lid option" where
  "wake_pending k i = (case i of
     StateItem t \<Rightarrow> if ctn k (EventItem t) = Some PendingReadyList then Some (ReadyTasksLists (prio k t)) else ctn k i
   | EventItem t \<Rightarrow> if ctn k (EventItem t) = Some PendingReadyList then None else ctn k i
   | TimerItem n \<Rightarrow> ctn k i)"

lemma pending_event_item: "kinvp P k \<Longrightarrow> ctn k i = Some PendingReadyList \<Longrightarrow> i = EventItem (item_owner i)"
  using fitsD [OF kinvD(2)] by (cases i) force+

lemma resume_pending_spec:
  assumes "kinvp P k" "list_length PendingReadyList k \<le> n"
  shows "case resume_pending n m k of (m', k') \<Rightarrow>
    kinvp P k' \<and> ctn k' = wake_pending k \<and> (\<forall>i. ctn k' i \<noteq> Some PendingReadyList) \<and>
    (m' \<longleftrightarrow> m \<or> (\<exists>i. ctn k i = Some PendingReadyList)) \<and>
    (xYieldPending k' \<longleftrightarrow> xYieldPending k \<or> (\<exists>t. ctn k (EventItem t) = Some PendingReadyList \<and> cur_prio k \<le> prio k t)) \<and>
    ival k' = ival k \<and> tcb k' = tcb k \<and> pxCurrentTCB k' = pxCurrentTCB k \<and> xTickCount k' = xTickCount k \<and>
    uxSchedulerSuspended k' = uxSchedulerSuspended k \<and>
    uxPendedTicks k' = uxPendedTicks k \<and> uxCurrentNumberOfTasks k' = uxCurrentNumberOfTasks k"
  using assms
proof (induction n arbitrary: k m)
  case 0
  then have "list_is_empty PendingReadyList k" by (simp add: list_length_def list_is_empty_def)
  then have e: "\<forall>i. ctn k i \<noteq> Some PendingReadyList" using list_is_empty_iff [OF kinvD(1) [OF 0(1)]] by simp
  then have "ctn k = wake_pending k" by (auto simp: wake_pending_def fun_eq_iff split: item.splits)
  with e show ?case using 0(1) \<open>list_is_empty PendingReadyList k\<close> by (subst resume_pending.simps) simp
next
  case (Suc n)
  note K = kinvD [OF Suc.prems(1)]
  show ?case
  proof (cases "list_is_empty PendingReadyList k")
    case True
    then have e: "\<forall>i. ctn k i \<noteq> Some PendingReadyList" using list_is_empty_iff [OF K(1)] by simp
    then have "ctn k = wake_pending k" by (auto simp: wake_pending_def fun_eq_iff split: item.splits)
    with e True show ?thesis using Suc.prems(1) by (subst resume_pending.simps) simp
  next
    case False
    define t where "t = item_owner (list_head PendingReadyList k)"
    have hc: "ctn k (EventItem t) = Some PendingReadyList"
      using list_head_in [OF K(1) False] pending_event_item [OF Suc.prems(1)] by (metis t_def)
    obtain l where c: "ctn k (StateItem t) = Some l"
      and l: "l \<in> {DelayedTaskList1, DelayedTaskList2} \<or> l = ReadyTasksLists (prio k t)"
      using event_state [OF Suc.prems(1), of t] hc by auto
    note W = wake_fields [OF c]
    define k1 where "k1 = (if cur_prio k \<le> prio k t then (wake t k)\<lparr>xYieldPending := True\<rparr> else wake t k)"
    have k1: "kinvp P k1" using kinv_wake [OF Suc.prems(1) c l] by (simp add: k1_def)
    have F: "ctn k1 = (ctn k)(EventItem t := None, StateItem t \<mapsto> ReadyTasksLists (prio k t))" "ival k1 = ival k" "tcb k1 = tcb k"
      "pxCurrentTCB k1 = pxCurrentTCB k" "xTickCount k1 = xTickCount k" "uxSchedulerSuspended k1 = uxSchedulerSuspended k"
      "uxPendedTicks k1 = uxPendedTicks k" "uxCurrentNumberOfTasks k1 = uxCurrentNumberOfTasks k"
      "xYieldPending k1 \<longleftrightarrow> xYieldPending k \<or> cur_prio k \<le> prio k t"
      by (simp_all add: k1_def W)
    have len: "list_length PendingReadyList k1 \<le> n"
    proof -
      have "{i. ctn k1 i = Some PendingReadyList} = {i. ctn k i = Some PendingReadyList} - {EventItem t, StateItem t}"
        unfolding F by (simp add: set_eq_iff)
      then have "{i. ctn k1 i = Some PendingReadyList} \<subset> {i. ctn k i = Some PendingReadyList}" using hc by blast
      then have "list_length PendingReadyList k1 < list_length PendingReadyList k"
        using list_length_card [OF K(1)] list_length_card [OF kinvD(1) [OF k1]] by (simp add: psubset_card_mono)
      then show ?thesis using Suc.prems(2) by simp
    qed
    have st: "resume_pending (Suc n) m k = resume_pending n True k1"
    proof -
      have "prvAddTaskToReadyList t (snd (list_remove (StateItem t) (snd (list_remove (EventItem t) k)))) = wake t k"
        using hc by (simp add: wake_def make_ready_def)
      then show ?thesis
        unfolding resume_pending.simps [of "Suc n"] Let_def t_def [symmetric] by (simp only:) (simp add: False k1_def W)
    qed
    have wp: "wake_pending k1 = wake_pending k"
      using hc by (auto simp: wake_pending_def fun_eq_iff F split: item.splits)
    have ex: "(\<exists>s. ctn k (EventItem s) = Some PendingReadyList \<and> cur_prio k \<le> prio k s) \<longleftrightarrow> cur_prio k \<le> prio k t \<or>
        (\<exists>s. s \<noteq> t \<and> ctn k (EventItem s) = Some PendingReadyList \<and> cur_prio k \<le> prio k s)"
      using hc by metis
    have f: "ctn k1 (EventItem s) = Some PendingReadyList \<longleftrightarrow> s \<noteq> t \<and> ctn k (EventItem s) = Some PendingReadyList" for s
      by (simp add: F)
    from Suc.IH [OF k1 len, of True] hc show ?thesis
      unfolding st wp f ex by (auto simp: F(2-9) split: prod.splits)
  qed
qed

lemma kinv_reset_unblock:
  assumes "kinvp P k" shows "kinvp P (prvResetNextTaskUnblockTime k)"
proof -
  let ?l = "pxDelayedTaskList k"
  note K = kinvD [OF assms]
  have "kinvp P (k\<lparr>xNextTaskUnblockTime :=
      (if list_is_empty ?l k then portMAX_DELAY else ival k (StateItem (item_owner (list_head ?l k))))\<rparr>)"
  proof (rule kinvp_next [OF assms])
    fix i assume i: "ctn k i = Some ?l"
    then have ne: "\<not> list_is_empty ?l k" using list_is_empty_iff [OF K(1), of ?l] by auto
    moreover have "StateItem (item_owner (list_head ?l k)) = list_head ?l k"
      using delayed_state_item [OF assms list_head_in [OF K(1) ne]] by simp
    ultimately show "(if list_is_empty ?l k then portMAX_DELAY else ival k (StateItem (item_owner (list_head ?l k)))) \<le> ival k i \<and>
        P (ival k i)"
      using head_min [OF assms i] K(5) i by (simp add: delay_values_def)
  qed
  then show ?thesis by (simp add: prvResetNextTaskUnblockTime_def split: if_splits)
qed

lemma prvResetNextTaskUnblockTime_fields [simp]:
  "ctn (prvResetNextTaskUnblockTime k) = ctn k" "ival (prvResetNextTaskUnblockTime k) = ival k"
  "tcb (prvResetNextTaskUnblockTime k) = tcb k" "pxCurrentTCB (prvResetNextTaskUnblockTime k) = pxCurrentTCB k"
  "xTickCount (prvResetNextTaskUnblockTime k) = xTickCount k"
  "uxSchedulerSuspended (prvResetNextTaskUnblockTime k) = uxSchedulerSuspended k"
  "xYieldPending (prvResetNextTaskUnblockTime k) = xYieldPending k"
  "uxPendedTicks (prvResetNextTaskUnblockTime k) = uxPendedTicks k"
  "uxCurrentNumberOfTasks (prvResetNextTaskUnblockTime k) = uxCurrentNumberOfTasks k"
  by (simp_all add: prvResetNextTaskUnblockTime_def)

lemma ready_stays: "ctn k (StateItem t) = Some (ReadyTasksLists p) \<Longrightarrow> delay_lists k \<Longrightarrow>
    wake_due k (StateItem t) = Some (ReadyTasksLists p)"
  by (auto simp: wake_due_def due_def delay_lists_def)

lemma resume_ticks_spec:
  assumes "kinv k" "uxSchedulerSuspended k = 0"
  shows "kinv (resume_ticks n k) \<and> xTickCount (resume_ticks n k) = xTickCount k + of_nat n \<and>
    uxSchedulerSuspended (resume_ticks n k) = 0 \<and> tcb (resume_ticks n k) = tcb k \<and>
    pxCurrentTCB (resume_ticks n k) = pxCurrentTCB k \<and> (xYieldPending k \<longrightarrow> xYieldPending (resume_ticks n k)) \<and>
    uxCurrentNumberOfTasks (resume_ticks n k) = uxCurrentNumberOfTasks k \<and>
    (\<forall>t p. ctn k (StateItem t) = Some (ReadyTasksLists p) \<longrightarrow> ctn (resume_ticks n k) (StateItem t) = Some (ReadyTasksLists p))"
  using assms
proof (induction n arbitrary: k)
  case (Suc n)
  obtain sw k1 where t: "xTaskIncrementTick k = (sw, k1)" by fastforce
  have s: "kinv k1" "xTickCount k1 = xTickCount k + 1" "ctn k1 = wake_due (advance_time k)" "tcb k1 = tcb k"
    "pxCurrentTCB k1 = pxCurrentTCB k" "uxSchedulerSuspended k1 = 0" "xYieldPending k1 = xYieldPending k"
    "uxCurrentNumberOfTasks k1 = uxCurrentNumberOfTasks k"
    using xTaskIncrementTick_spec [OF Suc.prems] unfolding t by simp_all
  let ?k = "if sw then k1\<lparr>xYieldPending := True\<rparr> else k1"
  have "delay_lists (advance_time k)" by (rule kinvD(3) [OF kinv_advance_time [OF Suc.prems(1)]])
  then have r: "ctn k (StateItem t) = Some (ReadyTasksLists p) \<Longrightarrow> ctn k1 (StateItem t) = Some (ReadyTasksLists p)" for t p
    using ready_stays [of "advance_time k"] by (simp add: s)
  have "kinv ?k" "uxSchedulerSuspended ?k = 0" using s by auto
  from Suc.IH [OF this] show ?case using r
    by (simp add: t s add.assoc split: if_splits)
qed simp

text \<open>
  \<open>xTaskResumeAll\<close> that really resumes: the pended ticks are made up for and every task readied in
  the meantime is on its ready list.
\<close>

lemma xTaskResumeAll_spec:
  assumes k: "kinv k" and s: "uxSchedulerSuspended k = 1" and n: "uxCurrentNumberOfTasks k > 0"
  shows "case xTaskResumeAll k of (y, k') \<Rightarrow>
    kinv k' \<and> uxSchedulerSuspended k' = 0 \<and> uxPendedTicks k' = 0 \<and>
    xTickCount k' = xTickCount k + of_nat (uxPendedTicks k) \<and> tcb k' = tcb k \<and> pxCurrentTCB k' = pxCurrentTCB k \<and>
    uxCurrentNumberOfTasks k' = uxCurrentNumberOfTasks k \<and>
    (\<forall>t. ctn k (EventItem t) = Some PendingReadyList \<longrightarrow> ctn k' (StateItem t) = Some (ReadyTasksLists (prio k t))) \<and>
    (\<forall>t p. ctn k (StateItem t) = Some (ReadyTasksLists p) \<longrightarrow> ctn k' (StateItem t) = Some (ReadyTasksLists p)) \<and>
    (y \<longleftrightarrow> xYieldPending k') \<and> (y \<longrightarrow> pendsv k') \<and>
    ((\<exists>t. ctn k (EventItem t) = Some PendingReadyList \<and> cur_prio k \<le> prio k t) \<longrightarrow> y)"
proof -
  define k0 where "k0 = k\<lparr>uxSchedulerSuspended := 0\<rparr>"
  have k0: "kinvp (\<lambda>v. xTickCount k < v) k0"
    using kinv_kinvp [OF k] by (simp add: k0_def kinv_defs lists_wf_def)
  have w0: "wake_pending k0 = wake_pending k" by (auto simp: wake_pending_def k0_def fun_eq_iff split: item.splits)
  obtain m k1 where r: "resume_pending (list_length PendingReadyList k0) False k0 = (m, k1)" by fastforce
  have R: "kinvp (\<lambda>v. xTickCount k < v) k1" "ctn k1 = wake_pending k" "\<forall>i. ctn k1 i \<noteq> Some PendingReadyList"
    "xYieldPending k1 \<longleftrightarrow> xYieldPending k \<or> (\<exists>t. ctn k (EventItem t) = Some PendingReadyList \<and> cur_prio k \<le> prio k t)"
    "tcb k1 = tcb k" "pxCurrentTCB k1 = pxCurrentTCB k" "xTickCount k1 = xTickCount k" "uxSchedulerSuspended k1 = 0"
    "uxPendedTicks k1 = uxPendedTicks k" "uxCurrentNumberOfTasks k1 = uxCurrentNumberOfTasks k"
    using resume_pending_spec [OF k0 order_refl, of False] unfolding r prod.case w0 by (auto simp: k0_def)
  define k2 where "k2 = (if m then prvResetNextTaskUnblockTime k1 else k1)"
  have "kinvp (\<lambda>v. xTickCount k < v) k2" using kinv_reset_unblock [OF R(1)] R(1) by (simp add: k2_def)
  then have k2: "kinv k2" using R(3,7) by (intro kinvI) (auto simp: k2_def pend_ok_def)
  have F2: "ctn k2 = wake_pending k" "tcb k2 = tcb k" "pxCurrentTCB k2 = pxCurrentTCB k" "xTickCount k2 = xTickCount k"
    "uxSchedulerSuspended k2 = 0" "uxPendedTicks k2 = uxPendedTicks k" "uxCurrentNumberOfTasks k2 = uxCurrentNumberOfTasks k"
    "xYieldPending k2 = xYieldPending k1"
    using R by (simp_all add: k2_def)
  define k3 where "k3 = (if uxPendedTicks k > 0 then (resume_ticks (uxPendedTicks k) k2)\<lparr>uxPendedTicks := 0\<rparr> else k2)"
  note T = resume_ticks_spec [OF k2 F2(5), of "uxPendedTicks k"]
  have k3: "kinv k3" "xTickCount k3 = xTickCount k + of_nat (uxPendedTicks k)" "uxSchedulerSuspended k3 = 0"
    "uxPendedTicks k3 = 0" "tcb k3 = tcb k" "pxCurrentTCB k3 = pxCurrentTCB k" "xYieldPending k1 \<Longrightarrow> xYieldPending k3"
    "uxCurrentNumberOfTasks k3 = uxCurrentNumberOfTasks k"
    "\<And>t p. wake_pending k (StateItem t) = Some (ReadyTasksLists p) \<Longrightarrow> ctn k3 (StateItem t) = Some (ReadyTasksLists p)"
    using T F2 k2 by (auto simp: k3_def)
  have wp: "ctn k (EventItem t) = Some PendingReadyList \<Longrightarrow> wake_pending k (StateItem t) = Some (ReadyTasksLists (prio k t))"
    "ctn k (StateItem t) = Some (ReadyTasksLists p) \<Longrightarrow> wake_pending k (StateItem t) = Some (ReadyTasksLists p)" for t p
    using kinvD(7) [OF kinv_kinvp [OF k]] by (auto simp: wake_pending_def ready_ok_def)
  have "xTaskResumeAll k = (if xYieldPending k3 then (True, portYIELD k3) else (False, k3))"
    using s n by (simp add: xTaskResumeAll_def k0_def [symmetric] r k2_def [symmetric] k3_def F2 Let_def)
      (simp add: k0_def F2)
  then show ?thesis using k3 wp R(4) by (auto simp: portYIELD_def)
qed

subsection \<open>The context switch\<close>

lemma highest_bit:
  assumes "bit b p" "p < n" "n \<le> 32" "\<forall>q \<ge> n. \<not> bit b q"
  shows "bit b (31 - clz_from n b) \<and> (\<forall>q. bit b q \<longrightarrow> q \<le> 31 - clz_from n b)"
  using assms
proof (induction n)
  case (Suc n)
  show ?case
  proof (cases "bit b n")
    case True
    then have "31 - clz_from (Suc n) b = n" using Suc.prems(3) by simp
    moreover have "q \<le> n" if "bit b q" for q using Suc.prems(4) that by (meson not_less_eq_eq)
    ultimately show ?thesis using True by simp
  next
    case False
    then have "\<forall>q \<ge> n. \<not> bit b q" using Suc.prems(4) by (metis Suc_leI le_neq_implies_less)
    moreover have "p < n" using Suc.prems(1,2) False less_Suc_eq by blast
    ultimately show ?thesis using Suc False by simp
  qed
qed simp

lemma portGET_HIGHEST_PRIORITY_max:
  assumes "bit b p"
  shows "bit b (portGET_HIGHEST_PRIORITY b) \<and> (\<forall>q. bit b q \<longrightarrow> q \<le> portGET_HIGHEST_PRIORITY b)"
  unfolding portGET_HIGHEST_PRIORITY_def ucPortCountLeadingZeros_def
  by (rule highest_bit [OF assms]) (use assms bit_imp_le_length [of b] in \<open>force simp: not_le\<close>)+

lemma vTaskSwitchContext_spec:
  assumes k: "kinv k" and s: "uxSchedulerSuspended k = 0" and r: "ctn k (StateItem t) = Some (ReadyTasksLists p)"
  shows "kinv (vTaskSwitchContext k) \<and> ctn (vTaskSwitchContext k) = ctn k \<and> tcb (vTaskSwitchContext k) = tcb k \<and>
    ctn k (StateItem (pxCurrentTCB (vTaskSwitchContext k))) =
      Some (ReadyTasksLists (prio k (pxCurrentTCB (vTaskSwitchContext k)))) \<and>
    (\<forall>u q. ctn k (StateItem u) = Some (ReadyTasksLists q) \<longrightarrow> q \<le> prio k (pxCurrentTCB (vTaskSwitchContext k))) \<and>
    (\<forall>l. xl_items (lists (vTaskSwitchContext k) l) = xl_items (lists k l))"
proof -
  note kp = kinv_kinvp [OF k]
  note K = kinvD [OF kp]
  define m where "m = portGET_HIGHEST_PRIORITY (uxTopReadyPriority k)"
  let ?l = "ReadyTasksLists m"
  have "bit (uxTopReadyPriority k) p" using r ready_bit [OF K(7)] by blast
  from portGET_HIGHEST_PRIORITY_max [OF this]
  have m: "bit (uxTopReadyPriority k) m" "\<And>q. bit (uxTopReadyPriority k) q \<Longrightarrow> q \<le> m" by (auto simp: m_def)
  from m(1) obtain u where "ctn k (StateItem u) = Some ?l" using ready_bit [OF K(7)] by blast
  then have "xl_items (lists k ?l) \<noteq> []" using lists_wf_ctn [OF K(1)] by (metis empty_iff empty_set)
  then obtain i where i: "xl_index (xl_advance (lists k ?l)) = Some i" "i \<in> set (xl_items (lists k ?l))"
    by (rule xl_advance_index)
  have ci: "ctn k i = Some ?l" using i(2) lists_wf_ctn [OF K(1)] by simp
  then obtain v where v: "i = StateItem v" using ready_state_items [OF K(2)] by blast
  have pv: "m = prio k v" using K(7) ci v by (auto simp: ready_ok_def)
  let ?k = "k\<lparr>xYieldPending := False, lists := (lists k)(?l := xl_advance (lists k ?l)), pxCurrentTCB := v\<rparr>"
  have sw: "vTaskSwitchContext k = ?k"
    using s i(1) v by (simp add: vTaskSwitchContext_def taskSELECT_HIGHEST_PRIORITY_TASK_def m_def [symmetric] Let_def)
  have "lists_wf ?k" using K(1) by (simp add: lists_wf_def xl_wf_advance)
  then have "kinvp (\<lambda>v. xTickCount k < v) ?k"
    using K by (simp add: kinvp_def fits_def delay_lists_def sorted_delays_def delay_values_def prios_ok_def ready_ok_def waits_ok_def)
  then have "kinv ?k" using k by (simp add: kinv_def pend_ok_def)
  moreover have "q \<le> prio k v" if "ctn k (StateItem w) = Some (ReadyTasksLists q)" for w q
    using m(2) [of q] that ready_bit [OF K(7)] pv by blast
  ultimately show ?thesis unfolding sw using ci v pv by simp
qed

subsection \<open>Changes to a task control block\<close>

lemma kinv_upd_tcb:
  assumes "kinvp P k" "\<And>b. uxPriority (f b) = uxPriority b" "\<And>b. uxBasePriority (f b) = uxBasePriority b"
  shows "kinvp P (upd_tcb t f k)"
  using assms by (auto simp: kinv_defs upd_tcb_def lists_wf_def)

lemma kinv_event_value:
  assumes k: "kinvp P k" shows "kinvp P (set_item_value (EventItem t) v k)"
proof -
  note K = kinvD [OF k]
  have no: "ctn k (EventItem t) \<noteq> Some l" if "l \<in> {DelayedTaskList1, DelayedTaskList2}" for l
    using fitsD [OF K(2)] that by force
  have "sorted_delays (set_item_value (EventItem t) v k)" unfolding sorted_delays_def
  proof
    fix l assume l: "l \<in> {DelayedTaskList1, DelayedTaskList2}"
    then have "EventItem t \<notin> set (xl_items (lists k l))" using no lists_wf_ctn [OF K(1)] by simp
    then have "sorted (map (ival (set_item_value (EventItem t) v k)) (xl_items (lists k l))) =
        sorted (map (ival k) (xl_items (lists k l)))"
      by (intro sorted_ival_cong) (auto simp: set_item_value_def)
    then show "sorted (map (ival (set_item_value (EventItem t) v k)) (xl_items (lists (set_item_value (EventItem t) v k) l)))"
      using K(4) l by (auto simp: sorted_delays_def set_item_value_def)
  qed
  moreover have "delay_values P (set_item_value (EventItem t) v k)"
    using K(5) K(3) no by (auto simp: delay_values_def set_item_value_def delay_lists_def)
  ultimately show ?thesis using K
    by (simp add: kinvp_def fits_def delay_lists_def prios_ok_def ready_ok_def waits_ok_def lists_wf_def set_item_value_def)
qed

text \<open>A task in its ready list moves to the ready list of another priority.\<close>

definition reprio :: "tid \<Rightarrow> nat \<Rightarrow> kernel \<Rightarrow> kernel" where
  "reprio t p k = prvAddTaskToReadyList t (upd_tcb t (\<lambda>b. b\<lparr>uxPriority := p\<rparr>) (leave_ready t k))"

lemma reprio_fields:
  assumes c: "ctn k (StateItem t) = Some l"
  shows "ctn (reprio t p k) = (ctn k)(StateItem t \<mapsto> ReadyTasksLists p)" "ival (reprio t p k) = ival k"
    "tcb (reprio t p k) = (tcb k)(t := (tcb k t)\<lparr>uxPriority := p\<rparr>)" "kfault (reprio t p k) = kfault k"
    "pxDelayedTaskList (reprio t p k) = pxDelayedTaskList k"
    "pxOverflowDelayedTaskList (reprio t p k) = pxOverflowDelayedTaskList k"
    "xTickCount (reprio t p k) = xTickCount k" "xNextTaskUnblockTime (reprio t p k) = xNextTaskUnblockTime k"
    "uxSchedulerSuspended (reprio t p k) = uxSchedulerSuspended k" "pxCurrentTCB (reprio t p k) = pxCurrentTCB k"
  using leave_ready_fields [OF c] by (simp_all add: reprio_def upd_tcb_def)

lemma kinv_reprio:
  assumes k: "kinvp P k" and c: "ctn k (StateItem t) = Some (ReadyTasksLists (prio k t))" and p: "p < 7"
  shows "kinvp P (reprio t p k)"
proof -
  note K = kinvD [OF k] and L = leave_ready_fields [OF c] and W = leave_ready_wf [OF k c] and F = reprio_fields [OF c]
  let ?u = "upd_tcb t (\<lambda>b. b\<lparr>uxPriority := p\<rparr>) (leave_ready t k)"
  have "lists_wf (reprio t p k)" unfolding reprio_def
  proof (rule lists_wf_add_ready)
    show "lists_wf ?u" using W(1) by (simp add: lists_wf_def upd_tcb_def)
  qed (simp add: upd_tcb_def L)
  moreover have "sorted_delays (reprio t p k)" unfolding reprio_def
    by (rule sorted_delays_add_ready) (use W(2) in \<open>simp add: sorted_delays_def upd_tcb_def\<close>)
  moreover have "fits (reprio t p k)" by (rule fits_upd [OF K(2) F(1)]) auto
  moreover have "delay_values P (reprio t p k)"
    using K(3) by (intro delay_values_upd [OF K(5) F(1)]) (auto simp: F delay_lists_def)
  moreover have "prios_ok (reprio t p k)" using K(6) p by (simp add: prios_ok_def F)
  moreover have "waits_ok (reprio t p k)" by (rule waits_ok_upd_state [OF K(8) F(1)]) auto
  moreover have "ready_ok (reprio t p k)"
  proof -
    have "uxTopReadyPriority (reprio t p k) = portRECORD_READY_PRIORITY p (uxTopReadyPriority (leave_ready t k))"
      by (simp add: reprio_def upd_tcb_def)
    then have "bit (uxTopReadyPriority (reprio t p k)) q \<longleftrightarrow>
        (\<exists>s. s \<noteq> t \<and> ctn k (StateItem s) = Some (ReadyTasksLists q)) \<or> q = p" for q
      using p leave_ready_bits [OF k c] by (simp add: bit_record)
    then show ?thesis using K(7) unfolding ready_ok_def F(1,3) by auto
  qed
  ultimately show ?thesis unfolding kinvp_def using delay_lists_eq [OF K(3) F(5,6)] K(9) F(4) by simp
qed

lemma remove_reset_eq:
  assumes k: "kinvp P k" and c: "ctn k (StateItem t) = Some (ReadyTasksLists (prio k t))"
  shows "(let (n, k) = list_remove (StateItem t) k in if n = 0 then taskRESET_READY_PRIORITY (prio k t) k else k) = leave_ready t k"
  using c by (simp add: leave_ready_def list_remove_def taskRESET_READY_PRIORITY_def list_length_def Let_def)

text \<open>A blocked task only gets the new priority.\<close>

lemma kinv_prio_blocked:
  assumes "kinvp P k" "\<And>q. ctn k (StateItem t) \<noteq> Some (ReadyTasksLists q)" "p < 7"
  shows "kinvp P (upd_tcb t (\<lambda>b. b\<lparr>uxPriority := p\<rparr>) k)"
  using assms by (auto simp: kinv_defs upd_tcb_def lists_wf_def)

subsection \<open>Preservation by the operations of the scheduler\<close>

text \<open>The current task is on the ready list of its priority.\<close>

definition cur_ready :: "kernel \<Rightarrow> bool" where
  "cur_ready k \<longleftrightarrow> ctn k (StateItem (pxCurrentTCB k)) = Some (ReadyTasksLists (cur_prio k))"

lemma pend_ok_ctn: "pend_ok k \<Longrightarrow> uxSchedulerSuspended k' = uxSchedulerSuspended k \<Longrightarrow>
    (\<And>i. ctn k' i = Some PendingReadyList \<Longrightarrow> ctn k i = Some PendingReadyList) \<Longrightarrow> pend_ok k'"
  by (auto simp: pend_ok_def)

lemma kinv_xTaskPriorityInherit:
  assumes k: "kinv k"
  shows "kinv (snd (xTaskPriorityInherit h k))"
proof (cases "h \<noteq> 0 \<and> prio k h < cur_prio k")
  case False
  then show ?thesis using k by (auto simp: xTaskPriorityInherit_def)
next
  case True
  let ?p = "cur_prio k"
  define k1 where "k1 = (if ival k (EventItem h) AND taskEVENT_LIST_ITEM_VALUE_IN_USE = 0
      then set_item_value (EventItem h) (of_nat configMAX_PRIORITIES - of_nat ?p) k else k)"
  have k1: "kinvp (\<lambda>v. xTickCount k < v) k1" using kinv_event_value [OF kinv_kinvp [OF k]] kinv_kinvp [OF k] by (simp add: k1_def)
  have F: "ctn k1 = ctn k" "tcb k1 = tcb k" "pxCurrentTCB k1 = pxCurrentTCB k" "xTickCount k1 = xTickCount k"
    "uxSchedulerSuspended k1 = uxSchedulerSuspended k"
    by (simp_all add: k1_def set_item_value_def)
  have p: "?p < 7" using kinvD(6) [OF k1] by (simp add: prios_ok_def F)
  have po: "pend_ok k" using k by (simp add: kinv_def)
  show ?thesis
  proof (cases "ctn k (StateItem h) = Some (ReadyTasksLists (prio k h))")
    case c: True
    have ne: "h \<noteq> pxCurrentTCB k" using True by auto
    have "snd (xTaskPriorityInherit h k) = reprio h ?p k1"
      using True c remove_reset_eq [OF k1, of h] ne
      by (simp add: xTaskPriorityInherit_def k1_def [symmetric] F reprio_def Let_def split: prod.splits)
         (auto simp: leave_ready_def F upd_tcb_def list_remove_def c taskRESET_READY_PRIORITY_def split: prod.splits)
    moreover have "kinvp (\<lambda>v. xTickCount k < v) (reprio h ?p k1)" by (rule kinv_reprio [OF k1]) (use c p in \<open>simp_all add: F\<close>)
    moreover have "ctn (reprio h ?p k1) = (ctn k)(StateItem h \<mapsto> ReadyTasksLists ?p)" using reprio_fields [of k1 h] c by (simp add: F)
    ultimately show ?thesis using reprio_fields [of k1 h] c F po
      by (intro kinvI) (auto simp: pend_ok_def)
  next
    case c: False
    have nr: "ctn k1 (StateItem h) \<noteq> Some (ReadyTasksLists q)" for q
      using c kinvD(7) [OF k1] by (auto simp: ready_ok_def F)
    have "snd (xTaskPriorityInherit h k) = upd_tcb h (\<lambda>b. b\<lparr>uxPriority := ?p\<rparr>) k1"
      using True c by (simp add: xTaskPriorityInherit_def k1_def [symmetric] F Let_def)
    then show ?thesis using kinv_prio_blocked [OF k1 nr p] po F
      by (intro kinvI [where P = "\<lambda>v. xTickCount k < v"]) (auto simp: upd_tcb_def pend_ok_def)
  qed
qed

lemma upd_tcb_fields [simp]:
  "ival (upd_tcb t f k) = ival k" "ctn (upd_tcb t f k) = ctn k" "lists (upd_tcb t f k) = lists k"
  "tcb (upd_tcb t f k) = (tcb k)(t := f (tcb k t))" "uxTopReadyPriority (upd_tcb t f k) = uxTopReadyPriority k"
  "pxCurrentTCB (upd_tcb t f k) = pxCurrentTCB k" "uxSchedulerSuspended (upd_tcb t f k) = uxSchedulerSuspended k"
  "xTickCount (upd_tcb t f k) = xTickCount k"
  by (simp_all add: upd_tcb_def)

lemma set_item_value_fields [simp]:
  "ival (set_item_value i v k) = (ival k)(i := v)" "ctn (set_item_value i v k) = ctn k" "lists (set_item_value i v k) = lists k"
  "tcb (set_item_value i v k) = tcb k" "uxTopReadyPriority (set_item_value i v k) = uxTopReadyPriority k"
  "pxCurrentTCB (set_item_value i v k) = pxCurrentTCB k"
  "uxSchedulerSuspended (set_item_value i v k) = uxSchedulerSuspended k" "xTickCount (set_item_value i v k) = xTickCount k"
  by (simp_all add: set_item_value_def)

lemma set_upd_commute: "set_item_value i v (upd_tcb t f k) = upd_tcb t f (set_item_value i v k)"
  by (rule kernel.equality) (simp_all add: set_item_value_def upd_tcb_def)

lemma remove_upd_commute:
  "ctn k i = Some l \<Longrightarrow> snd (list_remove i (upd_tcb t f k)) = upd_tcb t f (snd (list_remove i k))"
  by (rule kernel.equality) (simp_all add: list_remove_def upd_tcb_def)

lemma leave_ready_set:
  "ctn k (StateItem t) = Some l \<Longrightarrow> leave_ready t (set_item_value i v k) = set_item_value i v (leave_ready t k)"
  by (rule kernel.equality) (simp_all add: leave_ready_def list_remove_def set_item_value_def)

lemma kinv_xTaskPriorityDisinherit:
  assumes k: "kinv k" and c: "ctn k (StateItem h) = Some (ReadyTasksLists (prio k h))"
  shows "kinv (snd (xTaskPriorityDisinherit h k))"
proof -
  define k1 where "k1 = upd_tcb h (\<lambda>b. b\<lparr>uxMutexesHeld := uxMutexesHeld b - 1\<rparr>) k"
  have k1: "kinvp (\<lambda>v. xTickCount k < v) k1" unfolding k1_def by (rule kinv_upd_tcb [OF kinv_kinvp [OF k]]) simp_all
  have F: "ctn k1 = ctn k" "prio k1 h = prio k h" "uxBasePriority (tcb k1 h) = uxBasePriority (tcb k h)"
    "xTickCount k1 = xTickCount k" "uxSchedulerSuspended k1 = uxSchedulerSuspended k"
    by (simp_all add: k1_def upd_tcb_def)
  have po: "pend_ok k" using k by (simp add: kinv_def)
  have mh: "uxMutexesHeld (tcb k1 h) = uxMutexesHeld (tcb k h) - 1" by (simp add: k1_def)
  let ?b = "uxBasePriority (tcb k h)"
  have c1: "ctn k1 (StateItem h) = Some (ReadyTasksLists (prio k1 h))" using c by (simp add: F)
  show ?thesis
  proof (cases "h \<noteq> 0 \<and> prio k h \<noteq> ?b \<and> uxMutexesHeld (tcb k1 h) = 0")
    case False
    then have "snd (xTaskPriorityDisinherit h k) = (if h = 0 then k else k1)"
      by (auto simp: xTaskPriorityDisinherit_def k1_def [symmetric] F Let_def mh)
    moreover have "kinv k1" using k1 po by (intro kinvI [OF k1]) (auto simp: F pend_ok_def)
    ultimately show ?thesis using k by simp
  next
    case True
    define k2 where "k2 = set_item_value (EventItem h) (of_nat configMAX_PRIORITIES - of_nat ?b) k1"
    have k2: "kinvp (\<lambda>v. xTickCount k < v) k2" unfolding k2_def by (rule kinv_event_value [OF k1])
    have F2: "ctn k2 = ctn k" "tcb k2 = tcb k1" "xTickCount k2 = xTickCount k" "uxSchedulerSuspended k2 = uxSchedulerSuspended k"
      by (simp_all add: k2_def set_item_value_def F)
    have "snd (xTaskPriorityDisinherit h k) = reprio h ?b k2"
    proof -
      have "snd (xTaskPriorityDisinherit h k) = prvAddTaskToReadyList h (set_item_value (EventItem h)
          (of_nat configMAX_PRIORITIES - of_nat ?b) (upd_tcb h (\<lambda>b. b\<lparr>uxPriority := uxBasePriority b\<rparr>) (leave_ready h k1)))"
        using True c1 leave_ready_fields [OF c1]
        by (simp add: xTaskPriorityDisinherit_def k1_def [symmetric] F Let_def mh)
           (auto simp: leave_ready_def list_remove_def taskRESET_READY_PRIORITY_def list_length_def F upd_tcb_def split: prod.splits)
      also have "\<dots> = reprio h ?b k2"
      proof -
        have "upd_tcb h (\<lambda>b. b\<lparr>uxPriority := uxBasePriority b\<rparr>) k' = upd_tcb h (\<lambda>b. b\<lparr>uxPriority := ?b\<rparr>) k'"
          if "uxBasePriority (tcb k' h) = ?b" for k' using that by (simp add: upd_tcb_def)
        then show ?thesis
          unfolding reprio_def k2_def leave_ready_set [OF c1] set_upd_commute using leave_ready_fields [OF c1] F by simp
      qed
      finally show ?thesis .
    qed
    moreover have "kinvp (\<lambda>v. xTickCount k < v) (reprio h ?b k2)"
      by (rule kinv_reprio [OF k2]) (use c1 kinvD(6) [OF kinv_kinvp [OF k]] in \<open>simp_all add: F F2 prios_ok_def\<close>)
    ultimately show ?thesis using reprio_fields [of k2 h] c1 F F2 po
      by (intro kinvI) (auto simp: pend_ok_def)
  qed
qed

text \<open>
  After a time-out the holder may leave its ready list while nobody else is on it; the code then
  clears the bit of the wrong priority. The invariant survives only if the list is not emptied.
\<close>

lemma kinv_DisinheritAfterTimeout:
  assumes k: "kinv k" and w: "w < 7"
    and c: "\<And>p. ctn k (StateItem h) = Some (ReadyTasksLists p) \<Longrightarrow> \<exists>s. s \<noteq> h \<and> ctn k (StateItem s) = Some (ReadyTasksLists p)"
  shows "kinv (vTaskPriorityDisinheritAfterTimeout h w k)"
proof -
  let ?p = "if uxBasePriority (tcb k h) < w then w else uxBasePriority (tcb k h)"
  note kp = kinv_kinvp [OF k]
  have po: "pend_ok k" using k by (simp add: kinv_def)
  have p: "?p < 7" using w kinvD(6) [OF kp] by (simp add: prios_ok_def)
  show ?thesis
  proof (cases "h \<noteq> 0 \<and> prio k h \<noteq> ?p \<and> uxMutexesHeld (tcb k h) = 1")
    case False
    then show ?thesis using k by (auto simp: vTaskPriorityDisinheritAfterTimeout_def Let_def)
  next
    case True
    define k1 where "k1 = (if ival k (EventItem h) AND taskEVENT_LIST_ITEM_VALUE_IN_USE = 0
        then set_item_value (EventItem h) (of_nat configMAX_PRIORITIES - of_nat ?p) k else k)"
    have k1: "kinvp (\<lambda>v. xTickCount k < v) k1" using kinv_event_value [OF kp] kp by (simp add: k1_def)
    have F: "ctn k1 = ctn k" "tcb k1 = tcb k" "xTickCount k1 = xTickCount k" "uxSchedulerSuspended k1 = uxSchedulerSuspended k"
      "lists k1 = lists k"
      by (simp_all add: k1_def set_item_value_def)
    have A: "(if ival (upd_tcb h (\<lambda>b. b\<lparr>uxPriority := ?p\<rparr>) k) (EventItem h) AND taskEVENT_LIST_ITEM_VALUE_IN_USE = 0
        then set_item_value (EventItem h) (of_nat configMAX_PRIORITIES - of_nat ?p) (upd_tcb h (\<lambda>b. b\<lparr>uxPriority := ?p\<rparr>) k)
        else upd_tcb h (\<lambda>b. b\<lparr>uxPriority := ?p\<rparr>) k) = upd_tcb h (\<lambda>b. b\<lparr>uxPriority := ?p\<rparr>) k1"
      by (simp add: k1_def set_upd_commute)
    show ?thesis
    proof (cases "ctn k (StateItem h) = Some (ReadyTasksLists (prio k h))")
      case c0: True
      have "fst (list_remove (StateItem h) k1) \<noteq> 0"
        using list_remove_count [OF kinvD(1) [OF k1], of "StateItem h"] c0 c [OF c0] by (auto simp: F)
      then have n: "length (xl_items (xl_remove (StateItem h) (lists k (ReadyTasksLists (prio k h))))) \<noteq> 0"
        using c0 by (simp add: list_remove_def F)
      have "vTaskPriorityDisinheritAfterTimeout h w k = reprio h ?p k1"
      proof -
        have "vTaskPriorityDisinheritAfterTimeout h w k =
            prvAddTaskToReadyList h (snd (list_remove (StateItem h) (upd_tcb h (\<lambda>b. b\<lparr>uxPriority := ?p\<rparr>) k1)))"
          using True c0 n unfolding vTaskPriorityDisinheritAfterTimeout_def Let_def
          by (simp only: A if_True simp_thms) (simp add: list_remove_def F)
        also have "\<dots> = reprio h ?p k1"
          using n c0 by (simp add: reprio_def leave_ready_def remove_upd_commute F) (simp add: list_remove_def F)
        finally show ?thesis .
      qed
      moreover have "kinvp (\<lambda>v. xTickCount k < v) (reprio h ?p k1)" by (rule kinv_reprio [OF k1]) (use c0 p in \<open>simp_all add: F\<close>)
      ultimately show ?thesis using reprio_fields [of k1 h] c0 F po by (intro kinvI) (auto simp: pend_ok_def)
    next
      case c0: False
      have nr: "ctn k1 (StateItem h) \<noteq> Some (ReadyTasksLists q)" for q
        using c0 kinvD(7) [OF kp] by (auto simp: ready_ok_def F)
      have "vTaskPriorityDisinheritAfterTimeout h w k = upd_tcb h (\<lambda>b. b\<lparr>uxPriority := ?p\<rparr>) k1"
        using True c0 unfolding vTaskPriorityDisinheritAfterTimeout_def Let_def
        by (simp only: A if_True simp_thms) (simp add: F)
      then show ?thesis using kinv_prio_blocked [OF k1 nr p] po F
        by (intro kinvI [where P = "\<lambda>v. xTickCount k < v"]) (auto simp: upd_tcb_def pend_ok_def)
    qed
  qed
qed

text \<open>Waiting on an event list.\<close>

lemma kinv_place:
  assumes k: "kinv k" and r: "cur_ready k" and e: "ctn k (EventItem (pxCurrentTCB k)) = None"
    and l: "item_fits (EventItem (pxCurrentTCB k)) l" "l \<noteq> PendingReadyList" and n: "n \<noteq> 0"
  shows "kinv (prvAddCurrentTaskToDelayedList n b (list_insert l (EventItem (pxCurrentTCB k)) k))"
    and "kinv (prvAddCurrentTaskToDelayedList n b (list_insert_end l (EventItem (pxCurrentTCB k)) k))"
proof -
  let ?e = "EventItem (pxCurrentTCB k)"
  have s: "ctn k (StateItem (pxCurrentTCB k)) \<noteq> None" "ctn k (StateItem (pxCurrentTCB k)) \<noteq> Some TasksWaitingTermination"
    using r by (auto simp: cur_ready_def)
  have "kinv (list_insert l ?e k)" "kinv (list_insert_end l ?e k)"
    using kinv_insert_event [OF kinv_kinvp [OF k] e s l(1)] k l(2) by (auto simp: kinv_def pend_ok_def)
  then show "kinv (prvAddCurrentTaskToDelayedList n b (list_insert l ?e k))"
    "kinv (prvAddCurrentTaskToDelayedList n b (list_insert_end l ?e k))"
    using r n by (auto intro!: kinv_block_current simp: cur_ready_def)
qed

lemma kinv_vTaskPlaceOnUnorderedEventList:
  assumes "kinv k" "cur_ready k" "ctn k (EventItem (pxCurrentTCB k)) = None"
    "item_fits (EventItem (pxCurrentTCB k)) l" "l \<noteq> PendingReadyList" "n \<noteq> 0"
  shows "kinv (vTaskPlaceOnUnorderedEventList l v n k)"
proof -
  let ?k = "set_item_value (EventItem (pxCurrentTCB k)) (v OR taskEVENT_LIST_ITEM_VALUE_IN_USE) k"
  have F: "pxCurrentTCB ?k = pxCurrentTCB k" "ctn ?k = ctn k" "tcb ?k = tcb k" "xTickCount ?k = xTickCount k"
    "uxSchedulerSuspended ?k = uxSchedulerSuspended k" by (simp_all add: set_item_value_def)
  have "kinv ?k" using kinv_event_value [OF kinv_kinvp [OF assms(1)]] assms(1) by (simp add: kinv_def pend_ok_def F)
  from kinv_place(2) [OF this, of l n True] assms(2-6) show ?thesis
    by (simp add: vTaskPlaceOnUnorderedEventList_def Let_def F cur_ready_def)
qed

text \<open>Taking the first waiting task off an event list.\<close>

lemma kinv_xTaskRemoveFromEventList:
  assumes k: "kinv k" and ne: "ctn k i = Some l" and l: "item_fits (EventItem t) l" "l \<noteq> PendingReadyList"
  shows "kinv (snd (xTaskRemoveFromEventList l k))"
proof -
  note kp = kinv_kinvp [OF k]
  note K = kinvD [OF kp]
  have nem: "\<not> list_is_empty l k" using list_is_empty_iff [OF K(1)] ne by auto
  define u where "u = item_owner (list_head l k)"
  have hc: "ctn k (list_head l k) = Some l" by (rule list_head_in [OF K(1) nem])
  have "item_fits (list_head l k) l" by (rule fitsD [OF K(2) hc])
  then have "list_head l k = EventItem u" using l by (cases "list_head l k") (auto simp: u_def)
  with hc have c: "ctn k (EventItem u) = Some l" by simp
  obtain s where s: "ctn k (StateItem u) = Some s" "s \<in> {DelayedTaskList1, DelayedTaskList2} \<or> s = ReadyTasksLists (prio k u)"
    using event_state [OF kp, of u] c by auto
  have po: "pend_ok k" using k by (simp add: kinv_def)
  show ?thesis
  proof (cases "uxSchedulerSuspended k = 0")
    case True
    have "snd (xTaskRemoveFromEventList l k) = (if prio k u > cur_prio k then (wake u k)\<lparr>xYieldPending := True\<rparr> else wake u k)"
      using nem True c wake_fields [OF s(1)] list_remove_fields [OF c]
      by (simp add: xTaskRemoveFromEventList_def u_def [symmetric] Let_def wake_def make_ready_def)
    moreover have "kinv (wake u k)"
      using kinv_wake [OF kp s] wake_fields [OF s(1)] po by (intro kinvI) (auto simp: pend_ok_def)
    ultimately show ?thesis by simp
  next
    case False
    let ?k1 = "snd (list_remove (EventItem u) k)"
    note F = list_remove_fields [OF c]
    have "kinvp (\<lambda>v. xTickCount k < v) (list_insert_end PendingReadyList (EventItem u) ?k1)"
      by (rule kinv_insert_event [OF kinv_remove_event [OF kp c]]) (use s in \<open>auto simp: F\<close>)
    then have "kinv (list_insert_end PendingReadyList (EventItem u) ?k1)"
      using False by (intro kinvI) (auto simp: F pend_ok_def)
    moreover have "snd (xTaskRemoveFromEventList l k) =
        (if prio k u > cur_prio k then (list_insert_end PendingReadyList (EventItem u) ?k1)\<lparr>xYieldPending := True\<rparr>
         else list_insert_end PendingReadyList (EventItem u) ?k1)"
      using nem False by (simp add: xTaskRemoveFromEventList_def u_def [symmetric] Let_def F)
    ultimately show ?thesis by simp
  qed
qed

lemma kinv_vTaskRemoveFromUnorderedEventList:
  assumes k: "kinv k" and c: "ctn k (EventItem t) \<noteq> None"
  shows "kinv (vTaskRemoveFromUnorderedEventList (EventItem t) v k)"
proof -
  let ?k = "set_item_value (EventItem t) (v OR taskEVENT_LIST_ITEM_VALUE_IN_USE) k"
  have kp: "kinvp (\<lambda>v. xTickCount k < v) ?k" by (rule kinv_event_value [OF kinv_kinvp [OF k]])
  have F: "ctn ?k = ctn k" "tcb ?k = tcb k" "xTickCount ?k = xTickCount k" "uxSchedulerSuspended ?k = uxSchedulerSuspended k"
    "pxCurrentTCB ?k = pxCurrentTCB k" by (simp_all add: set_item_value_def)
  obtain s where s: "ctn ?k (StateItem t) = Some s" "s \<in> {DelayedTaskList1, DelayedTaskList2} \<or> s = ReadyTasksLists (prio ?k t)"
    using event_state [OF kp, of t] c F by auto
  have "vTaskRemoveFromUnorderedEventList (EventItem t) v k =
      (if prio k t > cur_prio k then (wake t ?k)\<lparr>xYieldPending := True\<rparr> else wake t ?k)"
    using c wake_fields [OF s(1)] F by (auto simp: vTaskRemoveFromUnorderedEventList_def Let_def wake_def make_ready_def)
  moreover have "kinv (wake t ?k)"
    using kinv_wake [OF kp s] wake_fields [OF s(1)] k F by (intro kinvI) (auto simp: kinv_def pend_ok_def)
  ultimately show ?thesis by simp
qed

lemma kinv_suspend: "kinv k \<Longrightarrow> kinv (vTaskSuspendAll k)"
  by (auto simp: kinv_defs kinv_def pend_ok_def vTaskSuspendAll_def lists_wf_def)

lemma kinv_resume:
  assumes k: "kinv k" and s: "uxSchedulerSuspended k > 0"
    and p: "uxCurrentNumberOfTasks k > 0 \<or> (\<forall>i. ctn k i \<noteq> Some PendingReadyList)"
  shows "kinv (snd (xTaskResumeAll k))"
proof (cases "uxSchedulerSuspended k = 1 \<and> uxCurrentNumberOfTasks k > 0")
  case True
  then show ?thesis using xTaskResumeAll_spec [OF k] by (auto split: prod.splits)
next
  case False
  then have ne: "\<not> (uxSchedulerSuspended k - 1 = 0 \<and> uxCurrentNumberOfTasks k > 0)" using s by auto
  have "snd (xTaskResumeAll k) = k\<lparr>uxSchedulerSuspended := uxSchedulerSuspended k - 1\<rparr>"
    unfolding xTaskResumeAll_def Let_def using ne by auto
  then show ?thesis using False s p k by (auto simp: kinv_defs kinv_def pend_ok_def lists_wf_def)
qed

text \<open>A call made with the scheduler suspended around it, such as an allocation.\<close>

lemma kinv_bracket:
  assumes k: "kinv k" and f: "kinv (f (vTaskSuspendAll k))" "ctn (f (vTaskSuspendAll k)) = ctn k"
    "uxSchedulerSuspended (f (vTaskSuspendAll k)) = Suc (uxSchedulerSuspended k)"
    "uxCurrentNumberOfTasks (f (vTaskSuspendAll k)) = uxCurrentNumberOfTasks k"
    and n: "uxCurrentNumberOfTasks k > 0 \<or> uxSchedulerSuspended k = 0"
  shows "kinv (snd (xTaskResumeAll (f (vTaskSuspendAll k))))"
  by (rule kinv_resume [OF f(1)]) (use k f n in \<open>auto simp: kinv_def pend_ok_def\<close>)

lemma suspend_fields [simp]:
  "ctn (vTaskSuspendAll k) = ctn k" "uxSchedulerSuspended (vTaskSuspendAll k) = Suc (uxSchedulerSuspended k)"
  "uxCurrentNumberOfTasks (vTaskSuspendAll k) = uxCurrentNumberOfTasks k" "heap (vTaskSuspendAll k) = heap k"
  "tcb (vTaskSuspendAll k) = tcb k" "pxCurrentTCB (vTaskSuspendAll k) = pxCurrentTCB k"
  "xTickCount (vTaskSuspendAll k) = xTickCount k"
  by (simp_all add: vTaskSuspendAll_def)

lemma kinv_pvPortMalloc:
  assumes "kinv k" "pvPortMalloc_body n (heap k) = Some r" "uxCurrentNumberOfTasks k > 0 \<or> uxSchedulerSuspended k = 0"
  shows "kinv (snd (pvPortMalloc n k))"
  using kinv_bracket [OF assms(1), of "\<lambda>k. k\<lparr>heap := snd r\<rparr>"] kinv_suspend [OF assms(1)] assms(2,3)
  by (auto simp: pvPortMalloc_def Let_def split: prod.splits)

lemma kinv_vPortFree:
  assumes "kinv k" "vPortFree_body p (heap k) = Some h" "uxCurrentNumberOfTasks k > 0 \<or> uxSchedulerSuspended k = 0"
  shows "kinv (vPortFree p k)"
  using kinv_bracket [OF assms(1), of "\<lambda>k. k\<lparr>heap := h\<rparr>"] kinv_suspend [OF assms(1)] assms
  by (simp add: vPortFree_def Let_def)

lemma kinv_vTaskDelay:
  assumes k: "kinv k" and r: "cur_ready k" and n: "uxCurrentNumberOfTasks k > 0" and s: "uxSchedulerSuspended k = 0"
  shows "kinv (vTaskDelay d k)"
proof (cases "d = 0")
  case True
  then show ?thesis using k by (simp add: vTaskDelay_def)
next
  case False
  let ?k = "prvAddCurrentTaskToDelayedList d False (vTaskSuspendAll k)"
  have "kinv ?k" by (rule kinv_block_current [OF kinv_suspend [OF k]]) (use r False in \<open>simp_all add: cur_ready_def\<close>)
  moreover have "uxSchedulerSuspended ?k = 1" "uxCurrentNumberOfTasks ?k = uxCurrentNumberOfTasks k"
    using s by (simp_all add: prvAddCurrentTaskToDelayedList_def Let_def list_remove_def list_insert_def set_item_value_def
        split: option.splits)
  ultimately have "kinv (snd (xTaskResumeAll ?k))" using n by (intro kinv_resume) auto
  then show ?thesis using False by (cases "xTaskResumeAll ?k") (simp add: vTaskDelay_def word_gt_0)
qed

text \<open>Notifications. A notified task that waits is blocked on nothing but the notification.\<close>

lemma kinv_upd_tcb':
  assumes "kinv k" "\<And>b. uxPriority (f b) = uxPriority b" "\<And>b. uxBasePriority (f b) = uxBasePriority b"
  shows "kinv (upd_tcb t f k)"
  using kinv_upd_tcb [OF kinv_kinvp [OF assms(1)], of f t] assms
  by (intro kinvI) (auto simp: kinv_def pend_ok_def)

definition notifiable :: "kernel \<Rightarrow> tid \<Rightarrow> bool" where
  "notifiable k t \<longleftrightarrow> ctn k (StateItem t) \<noteq> None \<and> ctn k (StateItem t) \<noteq> Some TasksWaitingTermination \<and>
     ctn k (EventItem t) = None"

lemma kinv_make_ready':
  assumes k: "kinv k" and n: "notifiable k t"
  shows "kinv (make_ready t k)"
proof -
  note kp = kinv_kinvp [OF k]
  from n obtain l where l: "ctn k (StateItem t) = Some l" "l \<noteq> TasksWaitingTermination" by (auto simp: notifiable_def)
  have "item_fits (StateItem t) l" by (rule fitsD [OF kinvD(2) [OF kp] l(1)])
  then have "l \<in> {DelayedTaskList1, DelayedTaskList2} \<or> l = ReadyTasksLists (prio k t)"
    using l kinvD(7) [OF kp] by (auto simp: ready_ok_def)
  from kinv_make_ready [OF kp l(1) this] show ?thesis
    using k list_remove_fields [OF l(1)] by (intro kinvI) (auto simp: make_ready_def kinv_def pend_ok_def)
qed

lemma kinv_notify_wake_from_isr:
  assumes k: "kinv k" and n: "st = taskWAITING_NOTIFICATION \<Longrightarrow> notifiable k t"
  shows "kinv (snd (notify_wake_from_isr t st k))"
proof (cases "st = taskWAITING_NOTIFICATION")
  case False
  then show ?thesis using k by (simp add: notify_wake_from_isr_def)
next
  case True
  have "kinv (list_insert_end PendingReadyList (EventItem t) k)" if "uxSchedulerSuspended k \<noteq> 0"
    using kinv_insert_event(1) [OF kinv_kinvp [OF k], of t PendingReadyList] n [OF True] that
    by (intro kinvI) (auto simp: notifiable_def pend_ok_def)
  then show ?thesis using True kinv_make_ready' [OF k n [OF True]]
    by (auto simp: notify_wake_from_isr_def Let_def make_ready_def)
qed

lemma kinv_xTaskGenericNotify:
  assumes k: "kinv k" and n: "ucNotifyState (tcb k t) = taskWAITING_NOTIFICATION \<Longrightarrow> notifiable k t"
  shows "kinv (snd (xTaskGenericNotify t v a k))" "kinv (snd (xTaskGenericNotifyFromISR t v a k))"
    "kinv (snd (vTaskNotifyGiveFromISR t k))"
proof -
  let ?u = "\<lambda>f. upd_tcb t (\<lambda>b. b\<lparr>ulNotifiedValue := f b\<rparr>) (upd_tcb t (\<lambda>b. b\<lparr>ucNotifyState := taskNOTIFICATION_RECEIVED\<rparr>) k)"
  have u: "kinv (?u f)" for f by (intro kinv_upd_tcb' k) simp_all
  have nu: "notifiable (?u f) t" if "ucNotifyState (tcb k t) = taskWAITING_NOTIFICATION" for f
    using n [OF that] by (simp add: notifiable_def)
  have w: "kinv (prvAddTaskToReadyList t (snd (list_remove (StateItem t) (?u f))))"
    if "ucNotifyState (tcb k t) = taskWAITING_NOTIFICATION" for f
    using kinv_make_ready' [OF u nu [OF that]] by (simp add: make_ready_def)
  have i: "kinv (snd (notify_wake_from_isr t (ucNotifyState (tcb k t)) (?u f)))" for f
    by (rule kinv_notify_wake_from_isr [OF u nu])
  show "kinv (snd (xTaskGenericNotify t v a k))"
    by (cases "notify_action a v (ucNotifyState (tcb k t)) (ulNotifiedValue (tcb k t))")
       (use u w in \<open>simp add: xTaskGenericNotify_def Let_def\<close>)
  show "kinv (snd (xTaskGenericNotifyFromISR t v a k))"
    by (cases "notify_action a v (ucNotifyState (tcb k t)) (ulNotifiedValue (tcb k t))")
       (use i in \<open>simp add: xTaskGenericNotifyFromISR_def Let_def split_beta\<close>)
  show "kinv (snd (vTaskNotifyGiveFromISR t k))"
    using i by (simp add: vTaskNotifyGiveFromISR_def Let_def)
qed

lemma kinv_notify_enter:
  assumes k: "kinv k" and r: "cur_ready k"
  shows "kinv (ulTaskNotifyTake_enter d k)" "kinv (xTaskNotifyWait_enter c d k)"
proof -
  have b: "kinv (prvAddCurrentTaskToDelayedList d True k')" if "kinv k'" "cur_ready k'" "d > 0" for k'
    using that by (intro kinv_block_current) (auto simp: cur_ready_def word_gt_0)
  have u1: "kinv (upd_tcb (pxCurrentTCB k) (\<lambda>b. b\<lparr>ucNotifyState := s\<rparr>) k)" for s by (rule kinv_upd_tcb' [OF k]) simp_all
  have u2: "kinv (upd_tcb (pxCurrentTCB k) (\<lambda>b. b\<lparr>ucNotifyState := s\<rparr>)
     (upd_tcb (pxCurrentTCB k) (\<lambda>b. b\<lparr>ulNotifiedValue := f b\<rparr>) k))" for s f by (intro kinv_upd_tcb' k) simp_all
  show "kinv (ulTaskNotifyTake_enter d k)"
    using b [OF u1] k u1 r by (auto simp: ulTaskNotifyTake_enter_def Let_def cur_ready_def)
  show "kinv (xTaskNotifyWait_enter c d k)"
    using b [OF u2] k u2 r by (auto simp: xTaskNotifyWait_enter_def Let_def cur_ready_def)
qed

lemma kinv_notify_exit:
  assumes k: "kinv k"
  shows "kinv (snd (ulTaskNotifyTake_exit b k))" "kinv (snd (xTaskNotifyWait_exit c k))"
  unfolding ulTaskNotifyTake_exit_def xTaskNotifyWait_exit_def Let_def
  using k by (auto intro!: kinv_upd_tcb')

end
