(* ===== verification/KernelSystem.thy ===== *)
theory KernelSystem
  imports Scheduler
begin

text \<open>
  Tasks and their memory. Which tasks exist, which heap blocks they own, how creation, deletion and
  the idle task's clean-up move blocks between the heap and the tasks; then the kernel as a transition
  system over all its operations, with the invariant of its reachable states.
\<close>

subsection \<open>What the scheduling operations leave alone\<close>

text \<open>The memory of the tasks: the heap, the stacks, the counters and the running task.\<close>

definition keeps :: "kernel \<Rightarrow> kernel \<Rightarrow> bool" where
  "keeps k k' \<longleftrightarrow> heap k' = heap k \<and> uxCurrentNumberOfTasks k' = uxCurrentNumberOfTasks k \<and>
     uxDeletedTasksWaitingCleanUp k' = uxDeletedTasksWaitingCleanUp k \<and> pxCurrentTCB k' = pxCurrentTCB k \<and>
     xSchedulerRunning k' = xSchedulerRunning k \<and> xIdleTaskHandle k' = xIdleTaskHandle k \<and>
     (\<forall>t. pxStack (tcb k' t) = pxStack (tcb k t))"

lemma keeps_refl [simp]: "keeps k k"
  by (simp add: keeps_def)

lemma keeps_trans [trans]: "keeps k k' \<Longrightarrow> keeps k' k'' \<Longrightarrow> keeps k k''"
  by (simp add: keeps_def)

lemma keeps_upd [simp]:
  "keeps k (k'\<lparr>xTickCount := v\<rparr>) = keeps k k'" "keeps k (k'\<lparr>xNextTaskUnblockTime := v\<rparr>) = keeps k k'"
  "keeps k (k'\<lparr>kfault := b\<rparr>) = keeps k k'" "keeps k (k'\<lparr>pendsv := b\<rparr>) = keeps k k'" "keeps k (k'\<lparr>xYieldPending := b\<rparr>) = keeps k k'"
  "keeps k (k'\<lparr>uxTopReadyPriority := u\<rparr>) = keeps k k'" "keeps k (k'\<lparr>uxPendedTicks := n\<rparr>) = keeps k k'"
  "keeps k (k'\<lparr>uxSchedulerSuspended := n\<rparr>) = keeps k k'" "keeps k (k'\<lparr>uxTaskNumber := n\<rparr>) = keeps k k'"
  "keeps k (portYIELD k') = keeps k k'" "keeps k (vTaskSuspendAll k') = keeps k k'"
  "keeps k (list_insert l i k') = keeps k k'" "keeps k (list_insert_end l i k') = keeps k k'"
  "keeps k (snd (list_remove i k')) = keeps k k'" "keeps k (set_item_value i v k') = keeps k k'"
  "keeps k (prvAddTaskToReadyList t k') = keeps k k'" "keeps k (taskRESET_READY_PRIORITY p k') = keeps k k'"
  "keeps k (prvResetNextTaskUnblockTime k') = keeps k k'" "keeps k (taskSWITCH_DELAYED_LISTS k') = keeps k k'"
  by (simp_all add: keeps_def portYIELD_def vTaskSuspendAll_def list_insert_def list_insert_end_def list_remove_def
      set_item_value_def prvAddTaskToReadyList_def taskRESET_READY_PRIORITY_def prvResetNextTaskUnblockTime_def
      taskSWITCH_DELAYED_LISTS_def split: option.split)

lemma keeps_upd_tcb [simp]: "(\<And>b. pxStack (f b) = pxStack b) \<Longrightarrow> keeps k (upd_tcb t f k') = keeps k k'"
  by (auto simp: keeps_def upd_tcb_def)

lemma keeps_if [simp]: "keeps k (if c then k1 else k2) \<longleftrightarrow> (if c then keeps k k1 else keeps k k2)"
  by simp

lemma keeps_tick_wake: "keeps k0 k \<Longrightarrow> keeps k0 (snd (tick_wake n sw k))"
  by (induction n arbitrary: k sw) (simp_all add: Let_def del: keeps_if split: if_split)

lemma keeps_tick: "keeps k0 k \<Longrightarrow> keeps k0 (snd (xTaskIncrementTick k))"
  by (simp add: xTaskIncrementTick_def Let_def split_beta keeps_tick_wake)

lemma keeps_resume_pending: "keeps k0 k \<Longrightarrow> keeps k0 (snd (resume_pending n m k))"
proof (induction n arbitrary: k m)
  case 0
  then show ?case by (subst resume_pending.simps) simp
next
  case (Suc n)
  then show ?case by (subst resume_pending.simps) (simp add: Let_def)
qed

lemma keeps_resume_ticks: "keeps k0 k \<Longrightarrow> keeps k0 (resume_ticks n k)"
  by (induction n arbitrary: k) (simp_all add: Let_def split_beta keeps_tick)

lemma keeps_resume [simp]: "keeps k0 k \<Longrightarrow> keeps k0 (snd (xTaskResumeAll k))"
  by (simp add: xTaskResumeAll_def Let_def split_beta keeps_resume_pending keeps_resume_ticks)

lemma keeps_delayed [simp]: "keeps k0 k \<Longrightarrow> keeps k0 (prvAddCurrentTaskToDelayedList n b k)"
  by (simp add: prvAddCurrentTaskToDelayedList_def Let_def split_beta)

lemma keeps_delay: "keeps k (vTaskDelay d k)"
  by (simp add: vTaskDelay_def split_beta)

lemma keeps_inherit:
  "keeps k (snd (xTaskPriorityInherit h k))" "keeps k (snd (xTaskPriorityDisinherit h k))"
  "keeps k (vTaskPriorityDisinheritAfterTimeout h w k)"
  by (simp_all add: xTaskPriorityInherit_def xTaskPriorityDisinherit_def vTaskPriorityDisinheritAfterTimeout_def
      Let_def split_beta)

lemma keeps_event_lists:
  "keeps k (vTaskPlaceOnEventList l n k)" "keeps k (vTaskPlaceOnUnorderedEventList l v n k)"
  "keeps k (vTaskPlaceOnEventListRestricted l n b k)" "keeps k (snd (xTaskRemoveFromEventList l k))"
  "keeps k (vTaskRemoveFromUnorderedEventList i v k)"
  by (simp_all add: vTaskPlaceOnEventList_def vTaskPlaceOnUnorderedEventList_def vTaskPlaceOnEventListRestricted_def
      xTaskRemoveFromEventList_def vTaskRemoveFromUnorderedEventList_def Let_def)

lemma keeps_notify:
  "keeps k (snd (xTaskGenericNotify t v a k))" "keeps k (snd (xTaskGenericNotifyFromISR t v a k))"
  "keeps k (snd (vTaskNotifyGiveFromISR t k))" "keeps k (ulTaskNotifyTake_enter d k)" "keeps k (xTaskNotifyWait_enter c d k)"
  "keeps k (snd (ulTaskNotifyTake_exit b k))" "keeps k (snd (xTaskNotifyWait_exit c k))" "keeps k (snd (xTaskNotifyStateClear t k))"
  by (simp_all add: xTaskGenericNotify_def xTaskGenericNotifyFromISR_def vTaskNotifyGiveFromISR_def notify_wake_from_isr_def
      ulTaskNotifyTake_enter_def xTaskNotifyWait_enter_def ulTaskNotifyTake_exit_def xTaskNotifyWait_exit_def
      xTaskNotifyStateClear_def Let_def split_beta)

text \<open>Which tasks exist, and which of them wait for the idle task to free them.\<close>

definition live_tasks :: "kernel \<Rightarrow> tid set" where
  "live_tasks k = {t. ctn k (StateItem t) \<noteq> None}"

definition dying_tasks :: "kernel \<Rightarrow> tid set" where
  "dying_tasks k = {t. ctn k (StateItem t) = Some TasksWaitingTermination}"

definition stays :: "kernel \<Rightarrow> kernel \<Rightarrow> bool" where
  "stays k k' \<longleftrightarrow> keeps k k' \<and> live_tasks k' = live_tasks k \<and> dying_tasks k' = dying_tasks k"

lemma stays_refl [simp]: "stays k k"
  by (simp add: stays_def)

lemma stays_trans [trans]: "stays k k' \<Longrightarrow> stays k' k'' \<Longrightarrow> stays k k''"
  by (auto simp: stays_def intro: keeps_trans)

lemma staysI:
  assumes "keeps k k'" "\<And>t. ctn k' (StateItem t) \<noteq> ctn k (StateItem t) \<Longrightarrow>
      ctn k (StateItem t) \<notin> {None, Some TasksWaitingTermination} \<and> ctn k' (StateItem t) \<notin> {None, Some TasksWaitingTermination}"
  shows "stays k k'"
proof -
  have "(ctn k' (StateItem t) \<noteq> None) = (ctn k (StateItem t) \<noteq> None) \<and>
    (ctn k' (StateItem t) = Some TasksWaitingTermination) = (ctn k (StateItem t) = Some TasksWaitingTermination)" for t
    using assms(2) [of t] by (cases "ctn k' (StateItem t) = ctn k (StateItem t)") auto
  then show ?thesis using assms(1) by (simp add: stays_def live_tasks_def dying_tasks_def)
qed

lemma stays_ctn: "keeps k k' \<Longrightarrow> ctn k' = ctn k \<Longrightarrow> stays k k'"
  by (simp add: stays_def live_tasks_def dying_tasks_def)

lemma ctn_remove [simp]: "ctn (snd (list_remove i k)) = (ctn k)(i := None)"
  by (auto simp: list_remove_def split: option.split)

lemma remove_state [simp]:
  "tcb (snd (list_remove i k)) = tcb k" "pxCurrentTCB (snd (list_remove i k)) = pxCurrentTCB k"
  "uxSchedulerSuspended (snd (list_remove i k)) = uxSchedulerSuspended k"
  by (auto simp: list_remove_def split: option.split)

lemma upd_tcb_delay [simp]:
  "pxDelayedTaskList (upd_tcb t f k) = pxDelayedTaskList k"
  "pxOverflowDelayedTaskList (upd_tcb t f k) = pxOverflowDelayedTaskList k"
  by (simp_all add: upd_tcb_def)

lemma portYIELD_fields [simp]:
  "ctn (portYIELD k) = ctn k" "tcb (portYIELD k) = tcb k" "pxCurrentTCB (portYIELD k) = pxCurrentTCB k"
  "uxSchedulerSuspended (portYIELD k) = uxSchedulerSuspended k"
  by (simp_all add: portYIELD_def)

text \<open>A task that waits on an event list is neither gone nor dying.\<close>

lemma event_live:
  "kinv k \<Longrightarrow> ctn k (EventItem t) \<noteq> None \<Longrightarrow> ctn k (StateItem t) \<notin> {None, Some TasksWaitingTermination}"
  using kinvD(8) [OF kinv_kinvp] by (auto simp: waits_ok_def)

lemma stays_tick:
  assumes k: "kinv k" shows "stays k (snd (xTaskIncrementTick k))"
proof (cases "uxSchedulerSuspended k = 0")
  case False
  then show ?thesis by (intro stays_ctn keeps_tick) (simp_all add: xTaskIncrementTick_def)
next
  case True
  have dl: "delay_lists (advance_time k)" by (rule kinvD(3) [OF kinv_advance_time [OF k]])
  have c: "ctn (snd (xTaskIncrementTick k)) = wake_due (advance_time k)"
    using xTaskIncrementTick_spec [OF k True] by (simp add: split_beta)
  show ?thesis
  proof (rule staysI)
    fix t assume "ctn (snd (xTaskIncrementTick k)) (StateItem t) \<noteq> ctn k (StateItem t)"
    then show "ctn k (StateItem t) \<notin> {None, Some TasksWaitingTermination} \<and>
      ctn (snd (xTaskIncrementTick k)) (StateItem t) \<notin> {None, Some TasksWaitingTermination}"
      using dl by (auto simp: c wake_due_def due_def delay_lists_def split: if_splits)
  qed (simp add: keeps_tick)
qed

lemma stays_resume_ticks:
  assumes "kinv k" "uxSchedulerSuspended k = 0" shows "stays k (resume_ticks n k)"
  using assms
proof (induction n arbitrary: k)
  case (Suc n)
  obtain sw k1 where t: "xTaskIncrementTick k = (sw, k1)" by fastforce
  let ?k = "if sw then k1\<lparr>xYieldPending := True\<rparr> else k1"
  have k1: "kinv k1" "uxSchedulerSuspended k1 = 0" using xTaskIncrementTick_spec [OF Suc.prems] unfolding t by simp_all
  have "stays k ?k" using stays_tick [OF Suc.prems(1)] by (simp add: t stays_def live_tasks_def dying_tasks_def)
  also have "stays ?k (resume_ticks n ?k)" using k1 by (intro Suc.IH) auto
  finally show ?case by (simp add: t)
qed simp

lemma stays_resume:
  assumes k: "kinv k" shows "stays k (snd (xTaskResumeAll k))"
proof (cases "uxSchedulerSuspended k - 1 = 0 \<and> uxCurrentNumberOfTasks k > 0")
  case False
  then have "ctn (snd (xTaskResumeAll k)) = ctn k" unfolding xTaskResumeAll_def Let_def by auto
  then show ?thesis by (intro stays_ctn) simp_all
next
  case True
  define k0 where "k0 = k\<lparr>uxSchedulerSuspended := 0\<rparr>"
  have k0: "kinvp (\<lambda>v. xTickCount k < v) k0"
    using kinv_kinvp [OF k] by (simp add: k0_def kinv_defs lists_wf_def)
  obtain m k1 where r: "resume_pending (list_length PendingReadyList k0) False k0 = (m, k1)" by fastforce
  define k2 where "k2 = (if m then prvResetNextTaskUnblockTime k1 else k1)"
  have R: "kinvp (\<lambda>v. xTickCount k < v) k1" "ctn k1 = wake_pending k0" "\<forall>i. ctn k1 i \<noteq> Some PendingReadyList"
    "xTickCount k1 = xTickCount k" "uxSchedulerSuspended k1 = 0"
    using resume_pending_spec [OF k0 order_refl, of False] unfolding r prod.case by (auto simp: k0_def)
  have "kinvp (\<lambda>v. xTickCount k < v) k2" using kinv_reset_unblock [OF R(1)] R(1) by (simp add: k2_def)
  then have k2: "kinv k2" "uxSchedulerSuspended k2 = 0" using R(3-5) by (auto intro!: kinvI simp: k2_def pend_ok_def)
  have s2: "stays k k2"
  proof (rule staysI)
    have "keeps k k1" using keeps_resume_pending [of k k0 "list_length PendingReadyList k0" False] unfolding r by (simp add: k0_def)
    then show "keeps k k2" by (simp add: k2_def)
    fix t assume "ctn k2 (StateItem t) \<noteq> ctn k (StateItem t)"
    then show "ctn k (StateItem t) \<notin> {None, Some TasksWaitingTermination} \<and> ctn k2 (StateItem t) \<notin> {None, Some TasksWaitingTermination}"
      using event_live [OF k, of t] R(2) by (auto simp: k2_def wake_pending_def k0_def split: if_splits)
  qed
  define k3 where "k3 = (if uxPendedTicks k2 > 0 then (resume_ticks (uxPendedTicks k2) k2)\<lparr>uxPendedTicks := 0\<rparr> else k2)"
  have "stays k2 k3" using stays_resume_ticks [OF k2] by (auto simp: k3_def stays_def live_tasks_def dying_tasks_def)
  with s2 have "stays k k3" by (rule stays_trans)
  moreover have "snd (xTaskResumeAll k) = (if xYieldPending k3 then portYIELD k3 else k3)"
    using True by (simp add: xTaskResumeAll_def k0_def [symmetric] r k2_def [symmetric] k3_def Let_def)
      (simp add: k0_def)
  ultimately show ?thesis by (auto simp: stays_def live_tasks_def dying_tasks_def)
qed

lemma ctn_block_current:
  assumes "ctn k (StateItem (pxCurrentTCB k)) = Some l"
  shows "ctn (prvAddCurrentTaskToDelayedList n b k) = (ctn k)(StateItem (pxCurrentTCB k) \<mapsto>
    (if xTickCount k + n < xTickCount k then pxOverflowDelayedTaskList k else pxDelayedTaskList k))"
  using assms by (simp add: prvAddCurrentTaskToDelayedList_def list_remove_def Let_def list_insert_def set_item_value_def)

lemma stays_block_current:
  assumes "cur_ready k" "delay_lists k" shows "stays k (prvAddCurrentTaskToDelayedList n b k)"
  using assms by (intro staysI) (auto simp: ctn_block_current cur_ready_def delay_lists_def split: if_splits)

lemma cur_ready_cong: "ctn k' (StateItem (pxCurrentTCB k)) = ctn k (StateItem (pxCurrentTCB k)) \<Longrightarrow> pxCurrentTCB k' = pxCurrentTCB k \<Longrightarrow>
    prio k' (pxCurrentTCB k) = cur_prio k \<Longrightarrow> cur_ready k' = cur_ready k"
  by (simp add: cur_ready_def)

lemma stays_place:
  assumes "cur_ready k" "kinv k"
  shows "stays k (vTaskPlaceOnEventList l n k)" "stays k (vTaskPlaceOnUnorderedEventList l v n k)"
    "stays k (vTaskPlaceOnEventListRestricted l n b k)"
proof -
  have dl: "delay_lists k" by (rule kinvD(3) [OF kinv_kinvp [OF assms(2)]])
  have i: "stays k k'" if "keeps k k'" "k' = prvAddCurrentTaskToDelayedList m c k1" "ctn k1 = (ctn k)(EventItem (pxCurrentTCB k) \<mapsto> l)"
     "pxCurrentTCB k1 = pxCurrentTCB k" "tcb k1 = tcb k" "pxDelayedTaskList k1 = pxDelayedTaskList k"
     "pxOverflowDelayedTaskList k1 = pxOverflowDelayedTaskList k" for k' m c k1
    using that assms(1) dl
    by (intro staysI) (auto simp: ctn_block_current cur_ready_def delay_lists_def split: if_splits)
  show "stays k (vTaskPlaceOnEventList l n k)"
    by (rule i [OF keeps_event_lists(1) vTaskPlaceOnEventList_def]) simp_all
  show "stays k (vTaskPlaceOnUnorderedEventList l v n k)"
    by (rule i [OF keeps_event_lists(2) vTaskPlaceOnUnorderedEventList_def [unfolded Let_def]])
       (simp_all add: set_item_value_def)
  show "stays k (vTaskPlaceOnEventListRestricted l n b k)"
    by (rule i [OF keeps_event_lists(3) vTaskPlaceOnEventListRestricted_def [unfolded Let_def]]) simp_all
qed

lemma stays_delay:
  assumes k: "kinv k" and r: "cur_ready k" shows "stays k (vTaskDelay d k)"
proof (cases "d = 0")
  case True
  then show ?thesis by (intro stays_ctn keeps_delay) (simp add: vTaskDelay_def)
next
  case False
  let ?k = "prvAddCurrentTaskToDelayedList d False (vTaskSuspendAll k)"
  have r': "cur_ready (vTaskSuspendAll k)" "delay_lists (vTaskSuspendAll k)"
    using r kinvD(3) [OF kinv_kinvp [OF k]] by (simp_all add: cur_ready_def delay_lists_def) (simp add: vTaskSuspendAll_def)
  have "stays k (vTaskSuspendAll k)" by (intro stays_ctn) simp_all
  also have "stays (vTaskSuspendAll k) ?k" by (rule stays_block_current [OF r'])
  also have "kinv ?k" using kinv_block_current [OF kinv_suspend [OF k]] r'(1) False by (simp add: cur_ready_def)
  then have "stays ?k (snd (xTaskResumeAll ?k))" by (rule stays_resume)
  finally have "stays k (snd (xTaskResumeAll ?k))" .
  then show ?thesis using False
    by (cases "xTaskResumeAll ?k") (auto simp: vTaskDelay_def word_gt_0 stays_def live_tasks_def dying_tasks_def)
qed

text \<open>A task that moves to a ready list.\<close>

lemma stays_to_ready:
  assumes "keeps k k'" "ctn k (StateItem t) \<notin> {None, Some TasksWaitingTermination}"
    "\<And>s. ctn k' (StateItem s) = ((ctn k)(StateItem t \<mapsto> ReadyTasksLists p)) (StateItem s) \<or> ctn k' (StateItem s) = ctn k (StateItem s)"
  shows "stays k k'"
  using assms(1)
proof (rule staysI)
  fix s assume "ctn k' (StateItem s) \<noteq> ctn k (StateItem s)"
  with assms(2) assms(3) [of s] show "ctn k (StateItem s) \<notin> {None, Some TasksWaitingTermination} \<and>
      ctn k' (StateItem s) \<notin> {None, Some TasksWaitingTermination}" by (auto split: if_splits)
qed

lemma stays_remove_event:
  assumes k: "kinv k" and i: "ctn k i = Some l" and l: "item_fits (EventItem u) l"
  shows "stays k (snd (xTaskRemoveFromEventList l k))"
proof -
  note K = kinvD [OF kinv_kinvp [OF k]]
  have ne: "\<not> list_is_empty l k" using list_is_empty_iff [OF K(1)] i by auto
  have h: "ctn k (list_head l k) = Some l" by (rule list_head_in [OF K(1) ne])
  have "item_fits (list_head l k) l" by (rule fitsD [OF K(2) h])
  then obtain t where t: "list_head l k = EventItem t" using l by (cases "list_head l k") auto
  show ?thesis
    by (rule stays_to_ready [OF keeps_event_lists(4) event_live [OF k, of t], where p = "prio k t"])
       (use ne t h in \<open>auto simp: xTaskRemoveFromEventList_def Let_def\<close>)
qed

lemma stays_remove_unordered:
  assumes k: "kinv k" and c: "ctn k (EventItem t) \<noteq> None"
  shows "stays k (vTaskRemoveFromUnorderedEventList (EventItem t) v k)"
  by (rule stays_to_ready [OF keeps_event_lists(5) event_live [OF k c], where p = "prio k t"])
     (auto simp: vTaskRemoveFromUnorderedEventList_def Let_def)

lemma reset_ready_fields [simp]:
  "ctn (taskRESET_READY_PRIORITY p k) = ctn k" "tcb (taskRESET_READY_PRIORITY p k) = tcb k"
  "pxCurrentTCB (taskRESET_READY_PRIORITY p k) = pxCurrentTCB k"
  "uxSchedulerSuspended (taskRESET_READY_PRIORITY p k) = uxSchedulerSuspended k"
  by (simp_all add: taskRESET_READY_PRIORITY_def)

lemma stays_inherit:
  assumes h: "h \<noteq> 0 \<Longrightarrow> ctn k (StateItem h) \<notin> {None, Some TasksWaitingTermination}"
  shows "stays k (snd (xTaskPriorityInherit h k))" "stays k (snd (xTaskPriorityDisinherit h k))"
    "stays k (vTaskPriorityDisinheritAfterTimeout h w k)"
proof -
  have i: "stays k k'" if "keeps k k'" "\<And>s. ctn k' (StateItem s) = ctn k (StateItem s) \<or> s = h \<and> h \<noteq> 0 \<and> (\<exists>p. ctn k' (StateItem s) = Some (ReadyTasksLists p))" for k'
    using that(1)
  proof (rule staysI)
    fix s assume "ctn k' (StateItem s) \<noteq> ctn k (StateItem s)"
    then show "ctn k (StateItem s) \<notin> {None, Some TasksWaitingTermination} \<and> ctn k' (StateItem s) \<notin> {None, Some TasksWaitingTermination}"
      using that(2) [of s] h by auto
  qed
  show "stays k (snd (xTaskPriorityInherit h k))"
    by (rule i [OF keeps_inherit(1)]) (auto simp: xTaskPriorityInherit_def Let_def split_beta)
  show "stays k (snd (xTaskPriorityDisinherit h k))"
    by (rule i [OF keeps_inherit(2)]) (auto simp: xTaskPriorityDisinherit_def Let_def split_beta)
  show "stays k (vTaskPriorityDisinheritAfterTimeout h w k)"
    by (rule i [OF keeps_inherit(3)]) (auto simp: vTaskPriorityDisinheritAfterTimeout_def Let_def split_beta)
qed

lemma stays_notify:
  assumes n: "ucNotifyState (tcb k t) = taskWAITING_NOTIFICATION \<Longrightarrow> notifiable k t"
  shows "stays k (snd (xTaskGenericNotify t v a k))" "stays k (snd (xTaskGenericNotifyFromISR t v a k))"
    "stays k (snd (vTaskNotifyGiveFromISR t k))"
proof -
  have i: "stays k k'" if "keeps k k'" "\<And>s. ctn k' (StateItem s) = ctn k (StateItem s) \<or>
      ucNotifyState (tcb k t) = taskWAITING_NOTIFICATION \<and> s = t \<and> (\<exists>p. ctn k' (StateItem s) = Some (ReadyTasksLists p))" for k'
    using that(1)
  proof (rule staysI)
    fix s assume "ctn k' (StateItem s) \<noteq> ctn k (StateItem s)"
    then show "ctn k (StateItem s) \<notin> {None, Some TasksWaitingTermination} \<and> ctn k' (StateItem s) \<notin> {None, Some TasksWaitingTermination}"
      using that(2) [of s] n by (auto simp: notifiable_def)
  qed
  show "stays k (snd (xTaskGenericNotify t v a k))"
    by (rule i [OF keeps_notify(1)]) (auto simp: xTaskGenericNotify_def Let_def split_beta)
  show "stays k (snd (xTaskGenericNotifyFromISR t v a k))"
    by (rule i [OF keeps_notify(2)]) (auto simp: xTaskGenericNotifyFromISR_def notify_wake_from_isr_def Let_def split_beta)
  show "stays k (snd (vTaskNotifyGiveFromISR t k))"
    by (rule i [OF keeps_notify(3)]) (auto simp: vTaskNotifyGiveFromISR_def notify_wake_from_isr_def Let_def)
qed

lemma stays_notify_self:
  assumes k: "kinv k" and r: "cur_ready k"
  shows "stays k (ulTaskNotifyTake_enter d k)" "stays k (xTaskNotifyWait_enter c d k)"
    "stays k (snd (ulTaskNotifyTake_exit b k))" "stays k (snd (xTaskNotifyWait_exit c k))"
proof -
  have dl: "delay_lists k" by (rule kinvD(3) [OF kinv_kinvp [OF k]])
  have i: "stays k k'" if "keeps k k'" "\<And>s. ctn k' (StateItem s) = ctn k (StateItem s) \<or>
      s = pxCurrentTCB k \<and> ctn k' (StateItem s) \<in> {Some (pxDelayedTaskList k), Some (pxOverflowDelayedTaskList k)}" for k'
    using that(1)
  proof (rule staysI)
    fix s assume "ctn k' (StateItem s) \<noteq> ctn k (StateItem s)"
    then show "ctn k (StateItem s) \<notin> {None, Some TasksWaitingTermination} \<and> ctn k' (StateItem s) \<notin> {None, Some TasksWaitingTermination}"
      using that(2) [of s] r dl by (auto simp: cur_ready_def delay_lists_def)
  qed
  have b: "ctn (prvAddCurrentTaskToDelayedList d True (upd_tcb t f k')) = (ctn k')(StateItem (pxCurrentTCB k') \<mapsto>
     (if xTickCount k' + d < xTickCount k' then pxOverflowDelayedTaskList k' else pxDelayedTaskList k'))" 
     if "ctn k' (StateItem (pxCurrentTCB k')) = Some l" for t f k' l
    using that by (subst ctn_block_current) (simp_all add: upd_tcb_def)
  show "stays k (ulTaskNotifyTake_enter d k)"
    by (rule i [OF keeps_notify(4)]) (use r in \<open>auto simp: ulTaskNotifyTake_enter_def cur_ready_def b Let_def\<close>)
  show "stays k (xTaskNotifyWait_enter c d k)"
    by (rule i [OF keeps_notify(5)]) (use r in \<open>auto simp: xTaskNotifyWait_enter_def cur_ready_def b Let_def\<close>)
  show "stays k (snd (ulTaskNotifyTake_exit b k))"
    by (intro stays_ctn keeps_notify(6)) (simp add: ulTaskNotifyTake_exit_def Let_def)
  show "stays k (snd (xTaskNotifyWait_exit c k))"
    by (intro stays_ctn keeps_notify(7)) (simp add: xTaskNotifyWait_exit_def Let_def)
qed

subsection \<open>Tasks enter and leave the lists\<close>

text \<open>A task that is on no list becomes ready.\<close>

lemma kinv_add_ready:
  assumes k: "kinv k" and c: "ctn k (StateItem t) = None"
  shows "kinv (prvAddTaskToReadyList t k)"
proof -
  let ?k = "prvAddTaskToReadyList t k"
  note K = kinvD [OF kinv_kinvp [OF k]]
  have C: "ctn ?k = (ctn k)(StateItem t \<mapsto> ReadyTasksLists (prio k t))" by simp
  have "ready_ok ?k"
    by (rule ready_ok_upd_state [OF K(7) C])
       (use c ex_split [where P = "\<lambda>s. ctn k (StateItem s) = Some (ReadyTasksLists q)" and t = t for q]
        in \<open>auto simp: bit_record [OF prios_32 [OF K(6)]] ready_bit [OF K(7)]\<close>)
  moreover have "delay_values (\<lambda>v. xTickCount k < v) ?k"
    using K(3) by (intro delay_values_upd [OF K(5) C]) (auto simp: delay_lists_def)
  moreover have "fits ?k" by (rule fits_upd [OF K(2) C]) auto
  moreover have "waits_ok ?k" by (rule waits_ok_upd_state [OF K(8) C]) auto
  ultimately have "kinvp (\<lambda>v. xTickCount k < v) ?k" unfolding kinvp_def
    using lists_wf_add_ready [OF K(1) c] sorted_delays_add_ready [OF K(4)] delay_lists_eq [OF K(3), of ?k]
      prios_ok_eq [OF K(6), of ?k] K(9) by simp
  moreover have "pend_ok ?k" using k by (auto simp: kinv_def pend_ok_def)
  ultimately show ?thesis by (intro kinvI) simp_all
qed

text \<open>The state item is taken off its list and the ready bit is updated as in \<open>vTaskDelete\<close>.\<close>

definition leave_lists :: "tid \<Rightarrow> kernel \<Rightarrow> kernel" where
  "leave_lists t k =
     (let (n, k) = list_remove (StateItem t) k;
          k = (if n = 0 then taskRESET_READY_PRIORITY (prio k t) k else k)
      in if ctn k (EventItem t) \<noteq> None then snd (list_remove (EventItem t) k) else k)"

lemma reset_ready_more [simp]:
  "ival (taskRESET_READY_PRIORITY p k) = ival k" "lists (taskRESET_READY_PRIORITY p k) = lists k"
  "kfault (taskRESET_READY_PRIORITY p k) = kfault k" "xTickCount (taskRESET_READY_PRIORITY p k) = xTickCount k"
  "pxDelayedTaskList (taskRESET_READY_PRIORITY p k) = pxDelayedTaskList k"
  "pxOverflowDelayedTaskList (taskRESET_READY_PRIORITY p k) = pxOverflowDelayedTaskList k"
  "xNextTaskUnblockTime (taskRESET_READY_PRIORITY p k) = xNextTaskUnblockTime k"
  by (simp_all add: taskRESET_READY_PRIORITY_def)

lemma leave_lists_fields:
  assumes c: "ctn k (StateItem t) = Some l"
  shows "ctn (leave_lists t k) = (ctn k)(StateItem t := None, EventItem t := None)" "ival (leave_lists t k) = ival k"
    "tcb (leave_lists t k) = tcb k" "kfault (leave_lists t k) = kfault k" "xTickCount (leave_lists t k) = xTickCount k"
    "pxDelayedTaskList (leave_lists t k) = pxDelayedTaskList k"
    "pxOverflowDelayedTaskList (leave_lists t k) = pxOverflowDelayedTaskList k"
    "xNextTaskUnblockTime (leave_lists t k) = xNextTaskUnblockTime k"
    "uxSchedulerSuspended (leave_lists t k) = uxSchedulerSuspended k" "pxCurrentTCB (leave_lists t k) = pxCurrentTCB k"
    "keeps k (leave_lists t k)"
  using list_remove_fields [OF c] list_remove_fields [of "taskRESET_READY_PRIORITY p (snd (list_remove (StateItem t) k))" "EventItem t" for p]
    list_remove_fields [of "snd (list_remove (StateItem t) k)" "EventItem t"]
  by (auto simp: leave_lists_def Let_def split_beta)

lemma leave_lists_bits:
  assumes k: "kinvp P k" and c: "ctn k (StateItem t) = Some l"
    and l: "l \<in> {DelayedTaskList1, DelayedTaskList2} \<or> l = ReadyTasksLists (prio k t)"
  shows "bit (uxTopReadyPriority (leave_lists t k)) q \<longleftrightarrow>
    (\<exists>s. s \<noteq> t \<and> ctn k (StateItem s) = Some (ReadyTasksLists q))"
proof -
  let ?k = "snd (list_remove (StateItem t) k)" and ?n = "fst (list_remove (StateItem t) k)" and ?p = "prio k t"
  note F = list_remove_fields [OF c] and K = kinvD [OF k]
  have u: "uxTopReadyPriority (leave_lists t k) = (if ?n = 0 \<and> list_length (ReadyTasksLists ?p) ?k = 0
      then portRESET_READY_PRIORITY ?p (uxTopReadyPriority k) else uxTopReadyPriority k)"
    by (auto simp: leave_lists_def Let_def split_beta taskRESET_READY_PRIORITY_def list_remove_def c split: option.splits)
  have r: "list_length (ReadyTasksLists ?p) ?k = 0 \<longleftrightarrow> (\<forall>s. s \<noteq> t \<longrightarrow> ctn k (StateItem s) \<noteq> Some (ReadyTasksLists ?p))"
  proof -
    have "list_length (ReadyTasksLists ?p) ?k = 0 \<longleftrightarrow> (\<forall>i. ctn ?k i \<noteq> Some (ReadyTasksLists ?p))"
      using list_is_empty_iff [OF lists_wf_remove [OF K(1)]] by (simp add: list_length_def list_is_empty_def)
    also have "\<dots> \<longleftrightarrow> (\<forall>s. s \<noteq> t \<longrightarrow> ctn k (StateItem s) \<noteq> Some (ReadyTasksLists ?p))"
      using ready_state_items [OF K(2)] by auto
    finally show ?thesis .
  qed
  have n: "?n = 0 \<longleftrightarrow> (\<forall>j. j \<noteq> StateItem t \<longrightarrow> ctn k j \<noteq> Some l)" by (rule list_remove_count [OF K(1) c])
  have split: "(\<exists>s. ctn k (StateItem s) = Some (ReadyTasksLists q)) \<longleftrightarrow> ctn k (StateItem t) = Some (ReadyTasksLists q) \<or>
      (\<exists>s. s \<noteq> t \<and> ctn k (StateItem s) = Some (ReadyTasksLists q))" for q by (rule ex_split)
  show ?thesis
  proof (cases "?n = 0 \<and> list_length (ReadyTasksLists ?p) ?k = 0")
    case True
    then show ?thesis unfolding u using r c l
      by (auto simp: bit_reset [OF prios_32 [OF K(6)]] ready_bit [OF K(7)] split [of q])
  next
    case False
    have "\<exists>s. s \<noteq> t \<and> ctn k (StateItem s) = Some (ReadyTasksLists q)" if q: "ctn k (StateItem t) = Some (ReadyTasksLists q)"
    proof -
      have lq: "l = ReadyTasksLists q" "q = ?p" using q c l by auto
      then have "?n = 0 \<longleftrightarrow> list_length (ReadyTasksLists ?p) ?k = 0" unfolding n r using ready_state_items [OF K(2)] by blast
      then show ?thesis using False r lq by auto
    qed
    then show ?thesis unfolding u using False by (auto simp: ready_bit [OF K(7)] split [of q])
  qed
qed

lemma kinv_leave_lists:
  assumes k: "kinv k" and c: "ctn k (StateItem t) = Some l"
    and l: "l \<in> {DelayedTaskList1, DelayedTaskList2} \<or> l = ReadyTasksLists (prio k t)"
  shows "kinv (leave_lists t k)"
proof -
  let ?k = "leave_lists t k"
  note kp = kinv_kinvp [OF k]
  note K = kinvD [OF kp] and F = leave_lists_fields [OF c]
  have wf: "lists_wf ?k" "sorted_delays ?k"
  proof -
    have "lists_wf (taskRESET_READY_PRIORITY p k') = lists_wf k'" "sorted_delays (taskRESET_READY_PRIORITY p k') = sorted_delays k'"
      for p k' by (simp_all add: lists_wf_def sorted_delays_def)
    then show "lists_wf ?k" "sorted_delays ?k"
      using K(1,4) by (simp_all add: leave_lists_def Let_def split_beta lists_wf_remove sorted_delays_remove)
  qed
  have "fits ?k" using K(2) by (simp add: fits_def F)
  moreover have "delay_lists ?k" by (rule delay_lists_eq [OF K(3) F(6,7)])
  moreover have "delay_values (\<lambda>v. xTickCount k < v) ?k" using K(5) by (simp add: delay_values_def F)
  moreover have "ready_ok ?k"
    using K(7) leave_lists_bits [OF kp c l] by (auto simp: ready_ok_def F)
  moreover have "waits_ok ?k" using K(8) by (simp add: waits_ok_def F)
  ultimately have "kinvp (\<lambda>v. xTickCount k < v) ?k" unfolding kinvp_def
    using wf prios_ok_eq [OF K(6) F(3)] K(9) F(4) by simp
  moreover have "pend_ok ?k" using k by (simp add: kinv_def pend_ok_def F)
  ultimately show ?thesis by (intro kinvI) (simp_all add: F)
qed

text \<open>The list of tasks that wait for the idle task.\<close>

lemma kinv_insert_termination:
  assumes k: "kinv k" and c: "ctn k (StateItem t) = None"
  shows "kinv (list_insert_end TasksWaitingTermination (StateItem t) k)"
proof -
  let ?k = "list_insert_end TasksWaitingTermination (StateItem t) k"
  note K = kinvD [OF kinv_kinvp [OF k]]
  have C: "ctn ?k = (ctn k)(StateItem t \<mapsto> TasksWaitingTermination)" by simp
  have "ctn k (EventItem t) = None" using K(8) c by (auto simp: waits_ok_def)
  then have "waits_ok ?k" using waits_ok_upd_state [OF K(8) C] by simp
  moreover have "ready_ok ?k"
    by (rule ready_ok_upd_state [OF K(7) C])
       (use c ex_split [where P = "\<lambda>s. ctn k (StateItem s) = Some (ReadyTasksLists q)" and t = t for q] in \<open>auto simp: ready_bit [OF K(7)]\<close>)
  moreover have "delay_values (\<lambda>v. xTickCount k < v) ?k"
    using K(3) by (intro delay_values_upd [OF K(5) C]) (auto simp: delay_lists_def)
  moreover have "fits ?k" by (rule fits_upd [OF K(2) C]) auto
  ultimately have "kinvp (\<lambda>v. xTickCount k < v) ?k" unfolding kinvp_def
    using lists_wf_insert(2) [OF K(1) c] sorted_delays_insert_end [OF K(4)] delay_lists_eq [OF K(3), of ?k]
      prios_ok_eq [OF K(6), of ?k] K(9) by simp
  moreover have "pend_ok ?k" using k by (auto simp: kinv_def pend_ok_def)
  ultimately show ?thesis by (intro kinvI) simp_all
qed

lemma kinv_remove_termination:
  assumes k: "kinv k" and c: "ctn k (StateItem t) = Some TasksWaitingTermination"
  shows "kinv (snd (list_remove (StateItem t) k))"
proof -
  let ?k = "snd (list_remove (StateItem t) k)"
  note K = kinvD [OF kinv_kinvp [OF k]] and F = list_remove_fields [OF c]
  have "ctn k (EventItem t) = None" using K(8) c by (auto simp: waits_ok_def)
  then have "waits_ok ?k" using waits_ok_upd_state [OF K(8) F(1)] by simp
  moreover have "ready_ok ?k"
    by (rule ready_ok_upd_state [OF K(7) F(1,3)])
       (use c ex_split [where P = "\<lambda>s. ctn k (StateItem s) = Some (ReadyTasksLists q)" and t = t for q] in \<open>auto simp: F ready_bit [OF K(7)]\<close>)
  moreover have "delay_values (\<lambda>v. xTickCount k < v) ?k" using K(5) by (simp add: delay_values_def F)
  moreover have "fits ?k" by (rule fits_upd [OF K(2) F(1)]) auto
  ultimately have "kinvp (\<lambda>v. xTickCount k < v) ?k" unfolding kinvp_def
    using lists_wf_remove [OF K(1)] sorted_delays_remove [OF K(4)] delay_lists_eq [OF K(3), of ?k]
      prios_ok_eq [OF K(6), of ?k] K(9) by (simp add: F)
  moreover have "pend_ok ?k" using k by (auto simp: kinv_def pend_ok_def)
  ultimately show ?thesis by (intro kinvI) (simp_all add: F)
qed

text \<open>A control block that belongs to no task yet may be written.\<close>

lemma kinv_new_tcb:
  assumes k: "kinv k" and c: "ctn k (StateItem t) = None" and b: "uxPriority b < 7" "uxBasePriority b < 7"
  shows "kinv (k\<lparr>tcb := (tcb k)(t := b)\<rparr>)"
proof -
  note K = kinvD [OF kinv_kinvp [OF k]]
  let ?k = "k\<lparr>tcb := (tcb k)(t := b)\<rparr>"
  have "prios_ok ?k" using K(6) b by (simp add: prios_ok_def)
  moreover have "ready_ok ?k" using K(7) c by (auto simp: ready_ok_def)
  ultimately have "kinvp (\<lambda>v. xTickCount k < v) ?k"
    using K by (simp add: kinvp_def fits_def delay_lists_def sorted_delays_def delay_values_def waits_ok_def lists_wf_def)
  then show ?thesis using k by (simp add: kinv_def pend_ok_def)
qed

subsection \<open>The memory of the tasks\<close>

text \<open>The heap with the set of the addresses that are handed out at present.\<close>

definition heap_blocks :: "heap4 \<Rightarrow> nat set \<Rightarrow> bool" where
  "heap_blocks h A \<longleftrightarrow> (\<exists>R. heap_rep h R \<and> disjoint_regions R \<and> fst ` R = A)"

context allocator
begin

lemma malloc_fresh:
  assumes "rep h R" "disjoint_regions R" "n < 2 ^ 32"
  shows "malloc n h = Some (0, h) \<or> (\<exists>p h' R'. malloc n h = Some (p, h') \<and> 0 < p \<and> p \<notin> fst ` R \<and>
     rep h' R' \<and> disjoint_regions R' \<and> fst ` R' = insert p (fst ` R))"
  using malloc_law [OF assms(1,3)]
proof
  assume "\<exists>p len h'. malloc n h = Some (p, h') \<and> 0 < p \<and> n \<le> len \<and> 0 < len \<and> rep h' (insert (p, len) R) \<and>
     (\<forall>x \<in> R. apart (p, len) x)"
  then obtain p len h' where m: "malloc n h = Some (p, h')" "0 < p" "0 < len" "rep h' (insert (p, len) R)"
    "\<forall>x \<in> R. apart (p, len) x" by auto
  moreover have "p \<notin> fst ` R" using m(3,5) assms(2) by (fastforce simp: apart_def disjoint_regions_def)
  moreover have "disjoint_regions (insert (p, len) R)" using m assms(2) by (auto simp: disjoint_regions_def apart_sym)
  moreover have "fst ` insert (p, len) R = insert p (fst ` R)" by simp
  ultimately show ?thesis by blast
qed simp

lemma mfree_gone:
  assumes "rep h R" "disjoint_regions R" "p \<in> fst ` R"
  shows "\<exists>h' R'. mfree p h = Some h' \<and> rep h' R' \<and> disjoint_regions R' \<and> fst ` R' = fst ` R - {p}"
proof -
  obtain len where l: "(p, len) \<in> R" using assms(3) by auto
  from mfree_law [OF assms(1) l] obtain h' where "mfree p h = Some h'" "rep h' (R - {(p, len)})" by blast
  moreover have "fst ` (R - {(p, len)}) = fst ` R - {p}"
    using inj_on_image_set_diff [OF disjoint_regions_inj [OF assms(2)], of R "{(p, len)}"] l by simp
  moreover have "disjoint_regions (R - {(p, len)})" using assms(2) by (auto simp: disjoint_regions_def)
  ultimately show ?thesis by blast
qed

end

lemma heap_blocks_malloc:
  assumes "heap_blocks h A" "n < 2 ^ 32"
  obtains (null) "pvPortMalloc_body n h = Some (0, h)"
  | (got) p h' where "pvPortMalloc_body n h = Some (p, h')" "0 < p" "p \<notin> A" "heap_blocks h' (insert p A)"
proof -
  from assms(1) obtain R where R: "heap_rep h R" "disjoint_regions R" "A = fst ` R" by (auto simp: heap_blocks_def)
  from heap4.malloc_fresh [OF R(1,2) assms(2)] show ?thesis
    using null got unfolding heap_blocks_def R(3) by metis
qed

lemma heap_blocks_free:
  assumes "heap_blocks h A" "p \<in> A"
  obtains h' where "vPortFree_body p h = Some h'" "heap_blocks h' (A - {p})"
proof -
  from assms(1) obtain R where R: "heap_rep h R" "disjoint_regions R" "A = fst ` R" by (auto simp: heap_blocks_def)
  from heap4.mfree_gone [OF R(1,2)] assms(2) show ?thesis using that unfolding heap_blocks_def R(3) by metis
qed

text \<open>The two wrappers: the change of the heap, and nothing else of the tasks' memory.\<close>

lemma susp_resume:
  assumes k: "kinv k" and s: "uxSchedulerSuspended k > 0"
  shows "uxSchedulerSuspended (snd (xTaskResumeAll k)) = uxSchedulerSuspended k - 1"
proof (cases "uxSchedulerSuspended k = 1 \<and> uxCurrentNumberOfTasks k > 0")
  case True
  then show ?thesis using xTaskResumeAll_spec [OF k] by (auto split: prod.splits)
next
  case False
  then have "\<not> (uxSchedulerSuspended k - 1 = 0 \<and> uxCurrentNumberOfTasks k > 0)" using s by auto
  then show ?thesis unfolding xTaskResumeAll_def Let_def by auto
qed

lemma bracket_heap:
  fixes h :: heap4
  assumes k: "kinv k" and s: "uxSchedulerSuspended k = 0"
  defines "k' \<equiv> snd (xTaskResumeAll ((vTaskSuspendAll k)\<lparr>heap := h\<rparr>))"
  shows "kinv k'" "stays (k\<lparr>heap := h\<rparr>) k'" "uxSchedulerSuspended k' = 0"
proof -
  let ?k = "(vTaskSuspendAll k)\<lparr>heap := h\<rparr>"
  have k1: "kinv ?k" using kinv_suspend [OF k] by simp
  show "kinv k'" unfolding k'_def
    by (rule kinv_resume [OF k1]) (use k s in \<open>auto simp: kinv_def pend_ok_def\<close>)
  show "uxSchedulerSuspended k' = 0" unfolding k'_def using susp_resume [OF k1] s by simp
  have "stays (k\<lparr>heap := h\<rparr>) ?k" by (rule stays_ctn) (simp_all add: keeps_def vTaskSuspendAll_def)
  also have "stays ?k k'" unfolding k'_def by (rule stays_resume [OF k1])
  finally show "stays (k\<lparr>heap := h\<rparr>) k'" .
qed

lemma malloc_wrapper:
  assumes "kinv k" "uxSchedulerSuspended k = 0" "pvPortMalloc_body n (heap k) = Some (p, h)"
  obtains k' where "pvPortMalloc n k = (p, k')" "kinv k'" "stays (k\<lparr>heap := h\<rparr>) k'" "uxSchedulerSuspended k' = 0"
  using bracket_heap [OF assms(1,2), of h] assms(3) by (simp add: pvPortMalloc_def Let_def)

lemma free_wrapper:
  assumes "kinv k" "uxSchedulerSuspended k = 0" "vPortFree_body p (heap k) = Some h"
  shows "kinv (vPortFree p k)" "stays (k\<lparr>heap := h\<rparr>) (vPortFree p k)" "uxSchedulerSuspended (vPortFree p k) = 0"
proof -
  let ?c = "p \<noteq> 0 \<and> xBlockSize (heap k) (p - xHeapStructSize) AND xBlockAllocatedBit (heap k) \<noteq> 0 \<and>
      pxNextFreeBlock (heap k) (p - xHeapStructSize) = 0"
  have v: "vPortFree p k = (if ?c then snd (xTaskResumeAll ((vTaskSuspendAll k)\<lparr>heap := h\<rparr>)) else k)"
    using assms(3) by (simp add: vPortFree_def Let_def)
  have "h = heap k" if "\<not> ?c" using assms(3) that by (auto simp: vPortFree_body_def Let_def split: if_splits)
  then show "kinv (vPortFree p k)" "stays (k\<lparr>heap := h\<rparr>) (vPortFree p k)" "uxSchedulerSuspended (vPortFree p k) = 0"
    using bracket_heap [OF assms(1,2), of h] assms(1,2) unfolding v by (auto simp: stays_def keeps_def live_tasks_def dying_tasks_def)
qed

subsection \<open>The invariant of the whole system\<close>

text \<open>
  The addresses \<open>A\<close> are handed out by the allocator. The control block and the stack of every task
  are among them and no two of these blocks coincide; the counters of tasks and of tasks to be freed
  are right; there is a running task unless there is none at all.
\<close>

definition task_memory :: "nat set \<Rightarrow> kernel \<Rightarrow> bool" where
  "task_memory A k \<longleftrightarrow> heap_blocks (heap k) A \<and> live_tasks k \<subseteq> A \<and> 0 \<notin> A \<and>
     (\<lambda>t. pxStack (tcb k t)) ` live_tasks k \<subseteq> A - live_tasks k \<and> inj_on (\<lambda>t. pxStack (tcb k t)) (live_tasks k)"

definition task_counts :: "kernel \<Rightarrow> bool" where
  "task_counts k \<longleftrightarrow> finite (live_tasks k) \<and> uxCurrentNumberOfTasks k = card (live_tasks k) \<and>
     uxDeletedTasksWaitingCleanUp k = card (dying_tasks k) \<and> (pxCurrentTCB k = 0 \<longrightarrow> live_tasks k = {})"

text \<open>The blocks of the tasks.\<close>

definition owned :: "kernel \<Rightarrow> nat set" where
  "owned k = live_tasks k \<union> (\<lambda>t. pxStack (tcb k t)) ` live_tasks k"

definition sinv :: "nat set \<Rightarrow> kernel \<Rightarrow> bool" where
  "sinv A k \<longleftrightarrow> kinv k \<and> task_memory A k \<and> task_counts k"

lemma sinv_stays:
  assumes "sinv A k" "kinv k'" "stays k k'" shows "sinv A k'"
proof -
  have "(\<lambda>t. pxStack (tcb k' t)) = (\<lambda>t. pxStack (tcb k t))" using assms(3) by (simp add: stays_def keeps_def)
  then show ?thesis using assms by (simp add: sinv_def task_memory_def task_counts_def stays_def keeps_def)
qed

lemma task_memory_stays:
  assumes "task_memory A k" "stays k k'" shows "task_memory A k'"
proof -
  have "(\<lambda>t. pxStack (tcb k' t)) = (\<lambda>t. pxStack (tcb k t))" using assms(2) by (simp add: stays_def keeps_def)
  then show ?thesis using assms by (simp add: task_memory_def stays_def keeps_def)
qed

lemma task_counts_stays: "task_counts k \<Longrightarrow> stays k k' \<Longrightarrow> task_counts k'"
  by (simp add: task_counts_def stays_def keeps_def)

lemma owned_stays: "stays k k' \<Longrightarrow> owned k' = owned k"
  by (simp add: owned_def stays_def keeps_def)

lemma owned_heap [simp]: "owned (k\<lparr>heap := h\<rparr>) = owned k"
  by (simp add: owned_def live_tasks_def)

lemma heap_upd_tasks [simp]: "live_tasks (k\<lparr>heap := h\<rparr>) = live_tasks k" "dying_tasks (k\<lparr>heap := h\<rparr>) = dying_tasks k"
  by (simp_all add: live_tasks_def dying_tasks_def)

lemma sinv_malloc:
  assumes k: "sinv A k" and s: "uxSchedulerSuspended k = 0" and n: "n < 2 ^ 32"
  obtains (null) k' where "pvPortMalloc n k = (0, k')" "sinv A k'" "uxSchedulerSuspended k' = 0" "stays k k'"
  | (got) p k' where "pvPortMalloc n k = (p, k')" "0 < p" "p \<notin> A" "sinv (insert p A) k'" "uxSchedulerSuspended k' = 0"
      "stays (k\<lparr>heap := heap k'\<rparr>) k'"
proof -
  have kk: "kinv k" and hb: "heap_blocks (heap k) A" using k by (auto simp: sinv_def task_memory_def)
  from hb n show ?thesis
  proof (cases rule: heap_blocks_malloc)
    case null
    from malloc_wrapper [OF kk s null] obtain k' where "pvPortMalloc n k = (0, k')" "kinv k'" "stays (k\<lparr>heap := heap k\<rparr>) k'"
      "uxSchedulerSuspended k' = 0" by blast
    then show ?thesis using that(1) sinv_stays [OF k] by simp
  next
    case (got p h')
    from malloc_wrapper [OF kk s got(1)] obtain k' where k': "pvPortMalloc n k = (p, k')" "kinv k'" "stays (k\<lparr>heap := h'\<rparr>) k'"
      "uxSchedulerSuspended k' = 0" by blast
    have "sinv (insert p A) (k\<lparr>heap := h'\<rparr>)"
      using k got by (auto simp: sinv_def task_memory_def task_counts_def)
    from sinv_stays [OF this k'(2,3)] show ?thesis using that(2) k' got by (simp add: stays_def keeps_def)
  qed
qed

lemma sinv_free:
  assumes k: "sinv A k" and s: "uxSchedulerSuspended k = 0" and p: "p \<in> A - live_tasks k - (\<lambda>t. pxStack (tcb k t)) ` live_tasks k"
  shows "sinv (A - {p}) (vPortFree p k)" "uxSchedulerSuspended (vPortFree p k) = 0"
    "stays (k\<lparr>heap := heap (vPortFree p k)\<rparr>) (vPortFree p k)"
proof -
  have kk: "kinv k" and hb: "heap_blocks (heap k) A" using k by (auto simp: sinv_def task_memory_def)
  from p have "p \<in> A" by simp
  from heap_blocks_free [OF hb this] obtain h' where h': "vPortFree_body p (heap k) = Some h'" "heap_blocks h' (A - {p})" .
  note W = free_wrapper [OF kk s h'(1)]
  have "sinv (A - {p}) (k\<lparr>heap := h'\<rparr>)"
    using k h'(2) p by (auto simp: sinv_def task_memory_def task_counts_def)
  from sinv_stays [OF this W(1,2)] show "sinv (A - {p}) (vPortFree p k)" .
  show "uxSchedulerSuspended (vPortFree p k) = 0" by (rule W)
  show "stays (k\<lparr>heap := heap (vPortFree p k)\<rparr>) (vPortFree p k)" using W(2) by (simp add: stays_def keeps_def)
qed

subsection \<open>Ready tasks stay ready\<close>

definition ready_tasks :: "kernel \<Rightarrow> tid set" where
  "ready_tasks k = {t. \<exists>p. ctn k (StateItem t) = Some (ReadyTasksLists p)}"

lemma ready_tasks_ctn: "ctn k' = ctn k \<Longrightarrow> ready_tasks k' = ready_tasks k"
  by (simp add: ready_tasks_def)

lemma ready_tasks_upd [simp]:
  "ready_tasks (k\<lparr>heap := h\<rparr>) = ready_tasks k" "ready_tasks (portYIELD k) = ready_tasks k"
  "ready_tasks (vTaskSuspendAll k) = ready_tasks k" "ready_tasks (prvResetNextTaskUnblockTime k) = ready_tasks k"
  "ready_tasks (k\<lparr>pendsv := b\<rparr>) = ready_tasks k" "ready_tasks (k\<lparr>xYieldPending := b\<rparr>) = ready_tasks k"
  by (rule ready_tasks_ctn, simp)+

lemma ready_tick:
  assumes "kinv k" shows "ready_tasks k \<subseteq> ready_tasks (snd (xTaskIncrementTick k))"
proof (cases "uxSchedulerSuspended k = 0")
  case False
  then have "ctn (snd (xTaskIncrementTick k)) = ctn k" by (simp add: xTaskIncrementTick_def)
  then show ?thesis by (simp add: ready_tasks_def)
next
  case True
  have "delay_lists (advance_time k)" by (rule kinvD(3) [OF kinv_advance_time [OF assms]])
  then have "ctn k (StateItem t) = Some (ReadyTasksLists p) \<Longrightarrow> wake_due (advance_time k) (StateItem t) = Some (ReadyTasksLists p)" for t p
    using ready_stays [of "advance_time k"] by simp
  moreover have "ctn (snd (xTaskIncrementTick k)) = wake_due (advance_time k)"
    using xTaskIncrementTick_spec [OF assms True] by (simp add: split_beta)
  ultimately show ?thesis by (auto simp: ready_tasks_def)
qed

lemma ready_resume:
  assumes k: "kinv k" and s: "uxSchedulerSuspended k > 0" shows "ready_tasks k \<subseteq> ready_tasks (snd (xTaskResumeAll k))"
proof (cases "uxSchedulerSuspended k = 1 \<and> uxCurrentNumberOfTasks k > 0")
  case True
  then show ?thesis using xTaskResumeAll_spec [OF k] by (fastforce simp: ready_tasks_def split: prod.splits)
next
  case False
  then have "\<not> (uxSchedulerSuspended k - 1 = 0 \<and> uxCurrentNumberOfTasks k > 0)" using s by auto
  then have "ctn (snd (xTaskResumeAll k)) = ctn k" unfolding xTaskResumeAll_def Let_def by auto
  then show ?thesis by (simp add: ready_tasks_def)
qed

lemma ready_bracket:
  assumes "kinv k"
  shows "ready_tasks k \<subseteq> ready_tasks (snd (xTaskResumeAll ((vTaskSuspendAll k)\<lparr>heap := h\<rparr>)))"
  using ready_resume [of "(vTaskSuspendAll k)\<lparr>heap := h\<rparr>"] kinv_suspend [OF assms] by simp

lemma ready_malloc:
  assumes k: "sinv A k" and n: "n < 2 ^ 32" shows "ready_tasks k \<subseteq> ready_tasks (snd (pvPortMalloc n k))"
proof -
  have kk: "kinv k" "heap_blocks (heap k) A" using k by (auto simp: sinv_def task_memory_def)
  then obtain p h where "pvPortMalloc_body n (heap k) = Some (p, h)" using heap_blocks_malloc [OF kk(2) n] by metis
  then show ?thesis using ready_bracket [OF kk(1), of h] by (simp add: pvPortMalloc_def Let_def)
qed

lemma ready_free:
  assumes k: "sinv A k" and p: "p \<in> A" shows "ready_tasks k \<subseteq> ready_tasks (vPortFree p k)"
proof -
  have kk: "kinv k" "heap_blocks (heap k) A" using k by (auto simp: sinv_def task_memory_def)
  then obtain h where "vPortFree_body p (heap k) = Some h" using heap_blocks_free [OF kk(2) p] by metis
  then show ?thesis using ready_bracket [OF kk(1), of h] by (simp add: vPortFree_def Let_def)
qed

lemma ready_block_current:
  assumes "cur_ready k" shows "ready_tasks k - {pxCurrentTCB k} \<subseteq> ready_tasks (prvAddCurrentTaskToDelayedList n b k)"
  using assms by (auto simp: ready_tasks_def cur_ready_def ctn_block_current)

lemma ready_place:
  assumes "cur_ready k"
  shows "ready_tasks k - {pxCurrentTCB k} \<subseteq> ready_tasks (vTaskPlaceOnEventList l n k)"
    "ready_tasks k - {pxCurrentTCB k} \<subseteq> ready_tasks (vTaskPlaceOnUnorderedEventList l v n k)"
    "ready_tasks k - {pxCurrentTCB k} \<subseteq> ready_tasks (vTaskPlaceOnEventListRestricted l n b k)"
proof -
  have i: "ready_tasks k - {pxCurrentTCB k} \<subseteq> ready_tasks (prvAddCurrentTaskToDelayedList m c k')"
    if "ctn k' = (ctn k)(EventItem (pxCurrentTCB k) \<mapsto> l)" "pxCurrentTCB k' = pxCurrentTCB k" "tcb k' = tcb k" for k' m c
    using ready_block_current [of k' m c] assms that by (auto simp: ready_tasks_def cur_ready_def)
  show "ready_tasks k - {pxCurrentTCB k} \<subseteq> ready_tasks (vTaskPlaceOnEventList l n k)"
    "ready_tasks k - {pxCurrentTCB k} \<subseteq> ready_tasks (vTaskPlaceOnUnorderedEventList l v n k)"
    "ready_tasks k - {pxCurrentTCB k} \<subseteq> ready_tasks (vTaskPlaceOnEventListRestricted l n b k)"
    unfolding vTaskPlaceOnEventList_def vTaskPlaceOnUnorderedEventList_def vTaskPlaceOnEventListRestricted_def Let_def
    by (rule i; simp add: set_item_value_def)+
qed

lemma ready_delay:
  assumes k: "kinv k" and r: "cur_ready k" shows "ready_tasks k - {pxCurrentTCB k} \<subseteq> ready_tasks (vTaskDelay d k)"
proof (cases "d = 0")
  case True
  then show ?thesis by (auto simp: vTaskDelay_def)
next
  case False
  let ?k = "prvAddCurrentTaskToDelayedList d False (vTaskSuspendAll k)"
  have r': "cur_ready (vTaskSuspendAll k)" using r by (simp add: cur_ready_def)
  have "kinv ?k" using kinv_block_current [OF kinv_suspend [OF k]] r' False by (simp add: cur_ready_def)
  moreover have "uxSchedulerSuspended ?k > 0"
    using r by (simp add: prvAddCurrentTaskToDelayedList_def Let_def list_remove_def list_insert_def set_item_value_def cur_ready_def)
  ultimately have "ready_tasks ?k \<subseteq> ready_tasks (snd (xTaskResumeAll ?k))" by (rule ready_resume)
  moreover have "ready_tasks k - {pxCurrentTCB k} \<subseteq> ready_tasks ?k" using ready_block_current [OF r', of d False] by simp
  moreover have "ready_tasks (vTaskDelay d k) = ready_tasks (snd (xTaskResumeAll ?k))"
    using False by (cases "xTaskResumeAll ?k") (auto simp: vTaskDelay_def word_gt_0)
  ultimately show ?thesis by auto
qed

text \<open>The operations that only ever put a task on a ready list.\<close>

lemma ready_others:
  "ready_tasks k \<subseteq> ready_tasks (snd (xTaskRemoveFromEventList l k))"
  "ready_tasks k \<subseteq> ready_tasks (vTaskRemoveFromUnorderedEventList (EventItem t) v k)"
  "ready_tasks k \<subseteq> ready_tasks (snd (xTaskPriorityInherit h k))"
  "ready_tasks k \<subseteq> ready_tasks (snd (xTaskPriorityDisinherit h k))"
  "ready_tasks k \<subseteq> ready_tasks (vTaskPriorityDisinheritAfterTimeout h w k)"
  "ready_tasks k \<subseteq> ready_tasks (snd (xTaskGenericNotify t v a k))"
  "ready_tasks k \<subseteq> ready_tasks (snd (xTaskGenericNotifyFromISR t v a k))"
  "ready_tasks k \<subseteq> ready_tasks (snd (vTaskNotifyGiveFromISR t k))"
  "ready_tasks k \<subseteq> ready_tasks (snd (ulTaskNotifyTake_exit b k))"
  "ready_tasks k \<subseteq> ready_tasks (snd (xTaskNotifyWait_exit c k))"
  "ready_tasks k \<subseteq> ready_tasks (snd (xTaskNotifyStateClear t k))"
  by (auto simp: ready_tasks_def xTaskRemoveFromEventList_def vTaskRemoveFromUnorderedEventList_def
      xTaskPriorityInherit_def xTaskPriorityDisinherit_def vTaskPriorityDisinheritAfterTimeout_def
      xTaskGenericNotify_def xTaskGenericNotifyFromISR_def vTaskNotifyGiveFromISR_def notify_wake_from_isr_def
      ulTaskNotifyTake_exit_def xTaskNotifyWait_exit_def xTaskNotifyStateClear_def Let_def split_beta)

lemma ready_notify_enter:
  assumes "cur_ready k"
  shows "ready_tasks k - {pxCurrentTCB k} \<subseteq> ready_tasks (ulTaskNotifyTake_enter d k)"
    "ready_tasks k - {pxCurrentTCB k} \<subseteq> ready_tasks (xTaskNotifyWait_enter c d k)"
  using assms
  by (auto simp: ready_tasks_def cur_ready_def ulTaskNotifyTake_enter_def xTaskNotifyWait_enter_def Let_def ctn_block_current)

subsection \<open>Creating a task\<close>

lemma prvInitialiseTaskLists_eq:
  "prvInitialiseTaskLists k = k\<lparr>
     lists := (\<lambda>l. if (\<exists>p < 7. l = ReadyTasksLists p) \<or>
        l \<in> {DelayedTaskList1, DelayedTaskList2, PendingReadyList, TasksWaitingTermination} then xl_empty else lists k l),
     pxDelayedTaskList := DelayedTaskList1, pxOverflowDelayedTaskList := DelayedTaskList2\<rparr>"
proof -
  have u: "[0..<configMAX_PRIORITIES] = [0, 1, 2, 3, 4, 5, 6]" by (simp add: configMAX_PRIORITIES_def upt_rec)
  have f: "lists (prvInitialiseTaskLists k) = (\<lambda>l. if (\<exists>p < 7. l = ReadyTasksLists p) \<or>
        l \<in> {DelayedTaskList1, DelayedTaskList2, PendingReadyList, TasksWaitingTermination} then xl_empty else lists k l)"
    by (rule ext) (auto simp: prvInitialiseTaskLists_def u list_initialise_def less_Suc_eq numeral_eq_Suc)
  show ?thesis
    by (rule kernel.equality) (simp_all add: f, simp_all add: prvInitialiseTaskLists_def u list_initialise_def)
qed

lemma init_lists_fields [simp]:
  "ctn (prvInitialiseTaskLists k) = ctn k" "tcb (prvInitialiseTaskLists k) = tcb k"
  "pxCurrentTCB (prvInitialiseTaskLists k) = pxCurrentTCB k"
  "uxSchedulerSuspended (prvInitialiseTaskLists k) = uxSchedulerSuspended k"
  "xTickCount (prvInitialiseTaskLists k) = xTickCount k" "keeps k0 (prvInitialiseTaskLists k) = keeps k0 k"
  by (simp_all add: prvInitialiseTaskLists_eq keeps_def)

lemma kinv_init_lists:
  assumes k: "kinv k" and e: "live_tasks k = {}" shows "kinv (prvInitialiseTaskLists k)"
proof -
  let ?k = "prvInitialiseTaskLists k"
  note K = kinvD [OF kinv_kinvp [OF k]]
  have s: "ctn k (StateItem t) = None" "ctn k (EventItem t) = None" for t
    using e K(8) by (auto simp: live_tasks_def waits_ok_def)
  have no: "ctn k i = Some l \<Longrightarrow> l \<in> {ActiveTimerList1, ActiveTimerList2}" for i l
    using s fitsD [OF K(2), of i l] by (cases i) auto
  have nl: "xl_items (lists k l) = []" if "l \<notin> {ActiveTimerList1, ActiveTimerList2}" for l
    using no [of _ l] that lists_wf_ctn [OF K(1), of _ l] by (metis hd_in_set)
  have i: "xl_items (lists ?k l) = xl_items (lists k l)" "xl_wf (lists ?k l)" for l
    using nl [of l] lists_wf_xl [OF K(1)] by (auto simp: prvInitialiseTaskLists_eq)
  have "lists_wf ?k" using K(1) i by (simp add: lists_wf_def)
  moreover have "sorted_delays ?k" using nl by (simp add: sorted_delays_def i)
  moreover have "delay_values (\<lambda>v. xTickCount k < v) ?k" using no by (force simp: delay_values_def prvInitialiseTaskLists_eq)
  moreover have "delay_lists ?k" by (simp add: delay_lists_def prvInitialiseTaskLists_eq)
  moreover have "fits ?k" "prios_ok ?k" "waits_ok ?k" "ready_ok ?k" "\<not> kfault ?k"
    using K by (simp_all add: fits_def prios_ok_def waits_ok_def ready_ok_def) (simp_all add: prvInitialiseTaskLists_eq)
  ultimately have "kinvp (\<lambda>v. xTickCount k < v) ?k" unfolding kinvp_def by simp
  then show ?thesis using k by (intro kinvI) (simp_all add: kinv_def pend_ok_def)
qed

lemma not_live_none: "kinv k \<Longrightarrow> t \<notin> live_tasks k \<Longrightarrow> ctn k (StateItem t) = None \<and> ctn k (EventItem t) = None"
  using event_live [of k t] by (cases "ctn k (EventItem t)") (auto simp: live_tasks_def)

lemma initialise_new_task:
  assumes k: "kinv k" and t: "t \<notin> live_tasks k"
  obtains b where "kinv (prvInitialiseNewTask nm p t st k)" "pxStack b = st" "uxPriority b < 7"
    "ctn (prvInitialiseNewTask nm p t st k) = ctn k" "tcb (prvInitialiseNewTask nm p t st k) = (tcb k)(t := b)"
    "keeps (k\<lparr>tcb := (tcb k)(t := b)\<rparr>) (prvInitialiseNewTask nm p t st k)"
    "uxSchedulerSuspended (prvInitialiseNewTask nm p t st k) = uxSchedulerSuspended k"
proof -
  define q where "q = (if p \<ge> configMAX_PRIORITIES then configMAX_PRIORITIES - 1 else p)"
  define b where "b = \<lparr>uxPriority = q, pxStack = st, pcTaskName = (case nm of None \<Rightarrow> [] | Some s \<Rightarrow> copy_name s),
    uxBasePriority = q, uxMutexesHeld = 0, ulNotifiedValue = 0, ucNotifyState = taskNOT_WAITING_NOTIFICATION\<rparr>"
  let ?k = "k\<lparr>tcb := (tcb k)(t := b)\<rparr>"
  have q: "q < 7" by (auto simp: q_def configMAX_PRIORITIES_def)
  have n: "ctn k (StateItem t) = None" "ctn k (EventItem t) = None" using not_live_none [OF k t] by auto
  then have c: "(ctn k)(StateItem t := None, EventItem t := None) = ctn k" by (simp add: fun_upd_idem)
  have e: "prvInitialiseNewTask nm p t st k = set_item_value (EventItem t) (of_nat configMAX_PRIORITIES - of_nat q) ?k"
    unfolding prvInitialiseNewTask_def Let_def q_def [symmetric] b_def [symmetric]
    by (rule kernel.equality) (simp_all add: c set_item_value_def)
  have "kinv ?k" by (rule kinv_new_tcb [OF k n(1)]) (simp_all add: b_def q)
  then have "kinv (set_item_value (EventItem t) v ?k)" for v
    using kinv_event_value [OF kinv_kinvp, of ?k t v] by (auto simp: kinv_def pend_ok_def)
  then show ?thesis using that [of b] q by (simp add: e b_def)
qed

lemma sinv_add_new_task:
  assumes k: "sinv A k" and t: "t \<in> A" "st \<in> A" "t \<noteq> st"
    and f: "{t, st} \<inter> (live_tasks k \<union> (\<lambda>t. pxStack (tcb k t)) ` live_tasks k) = {}"
  shows "sinv A (prvAddNewTaskToReadyList t (prvInitialiseNewTask nm p t st k))"
    "live_tasks (prvAddNewTaskToReadyList t (prvInitialiseNewTask nm p t st k)) = insert t (live_tasks k)"
    "owned (prvAddNewTaskToReadyList t (prvInitialiseNewTask nm p t st k)) = {t, st} \<union> owned k"
    "ready_tasks (prvAddNewTaskToReadyList t (prvInitialiseNewTask nm p t st k)) = insert t (ready_tasks k)"
proof -
  have kk: "kinv k" using k by (simp add: sinv_def)
  have tl: "t \<notin> live_tasks k" and t0: "t \<noteq> 0" using f k t by (auto simp: sinv_def task_memory_def)
  obtain b where B: "kinv (prvInitialiseNewTask nm p t st k)" "pxStack b = st"
    "ctn (prvInitialiseNewTask nm p t st k) = ctn k" "tcb (prvInitialiseNewTask nm p t st k) = (tcb k)(t := b)"
    "keeps (k\<lparr>tcb := (tcb k)(t := b)\<rparr>) (prvInitialiseNewTask nm p t st k)"
    by (rule initialise_new_task [OF kk tl])
  define k1 where "k1 = (prvInitialiseNewTask nm p t st k)
      \<lparr>uxCurrentNumberOfTasks := uxCurrentNumberOfTasks (prvInitialiseNewTask nm p t st k) + 1\<rparr>"
  have k1: "kinv k1" "ctn k1 = ctn k" "tcb k1 = (tcb k)(t := b)" "pxCurrentTCB k1 = pxCurrentTCB k"
    "uxCurrentNumberOfTasks k1 = Suc (uxCurrentNumberOfTasks k)" "heap k1 = heap k"
    "uxDeletedTasksWaitingCleanUp k1 = uxDeletedTasksWaitingCleanUp k"
    using B by (simp_all add: k1_def keeps_def)
  have l1: "live_tasks k1 = live_tasks k" by (simp add: live_tasks_def k1)
  define k2 where "k2 = (if pxCurrentTCB k1 = 0
         then let k = k1\<lparr>pxCurrentTCB := t\<rparr> in if uxCurrentNumberOfTasks k = 1 then prvInitialiseTaskLists k else k
         else if \<not> xSchedulerRunning k1 \<and> cur_prio k1 \<le> prio k1 t then k1\<lparr>pxCurrentTCB := t\<rparr> else k1)"
  have e: "live_tasks (k1\<lparr>pxCurrentTCB := t\<rparr>) = {}" if "pxCurrentTCB k1 = 0"
    using that k k1(4) l1 by (auto simp: sinv_def task_counts_def live_tasks_def)
  have k2: "kinv k2" "ctn k2 = ctn k" "tcb k2 = (tcb k)(t := b)" "pxCurrentTCB k2 \<noteq> 0"
    "keeps (k1\<lparr>pxCurrentTCB := pxCurrentTCB k2\<rparr>) k2"
    using k1 t0 kinv_init_lists [OF _ e] by (auto simp: k2_def Let_def) (auto simp: keeps_def prvInitialiseTaskLists_eq)
  define k3 where "k3 = prvAddTaskToReadyList t (k2\<lparr>uxTaskNumber := uxTaskNumber k2 + 1\<rparr>)"
  have c2: "ctn k2 (StateItem t) = None" using not_live_none [OF kk tl] by (simp add: k2)
  have k3: "kinv k3" unfolding k3_def by (rule kinv_add_ready) (use k2 c2 in simp_all)
  have s3: "ctn k3 = (ctn k)(StateItem t \<mapsto> ReadyTasksLists (uxPriority b))" "tcb k3 = (tcb k)(t := b)"
    by (simp_all add: k3_def k2)
  have kp: "keeps k2 k3" by (simp add: k3_def)
  then have h3: "heap k3 = heap k" "uxCurrentNumberOfTasks k3 = Suc (uxCurrentNumberOfTasks k)" "pxCurrentTCB k3 \<noteq> 0"
    "uxDeletedTasksWaitingCleanUp k3 = uxDeletedTasksWaitingCleanUp k"
    using k2(4,5) k1 by (simp_all add: keeps_def)
  have live: "live_tasks k3 = insert t (live_tasks k)" "dying_tasks k3 = dying_tasks k"
    using not_live_none [OF kk tl] by (auto simp: live_tasks_def dying_tasks_def s3)
  have "task_memory A k3"
  proof -
    let ?S = "\<lambda>t. pxStack (tcb k t)" and ?L = "live_tasks k"
    have S3: "(\<lambda>s. pxStack (tcb k3 s)) = ?S(t := st)" using B(2) by (auto simp: s3)
    have im: "(?S(t := st)) ` insert t ?L = insert st (?S ` ?L)" using tl by auto
    have m: "heap_blocks (heap k) A" "?L \<subseteq> A" "0 \<notin> A" "?S ` ?L \<subseteq> A - ?L" "inj_on ?S ?L"
      using k by (simp_all add: sinv_def task_memory_def)
    have "inj_on (?S(t := st)) ?L" using m(5) tl by (metis inj_on_fun_updI inj_on_cong fun_upd_other)
    moreover have "st \<notin> (?S(t := st)) ` (?L - {t})" using f by auto
    ultimately have "inj_on (?S(t := st)) (insert t ?L)" by (simp add: inj_on_insert)
    moreover have "insert st (?S ` ?L) \<subseteq> A - insert t ?L" using m(4) t f by blast
    ultimately show ?thesis unfolding task_memory_def live S3 im h3(1) using m t by blast
  qed
  moreover have "task_counts k3" using k tl by (auto simp: task_counts_def sinv_def live h3)
  ultimately have si: "sinv A k3" using k3 by (simp add: sinv_def)
  have eq: "prvAddNewTaskToReadyList t (prvInitialiseNewTask nm p t st k) =
      (if xSchedulerRunning k3 \<and> cur_prio k3 < prio k3 t then portYIELD k3 else k3)"
    unfolding prvAddNewTaskToReadyList_def
    by (subst Let_def, fold k1_def, subst Let_def, fold k2_def, simp only: Let_def k3_def)
  have st: "stays k3 (portYIELD k3)" by (rule stays_ctn) simp_all
  show "sinv A (prvAddNewTaskToReadyList t (prvInitialiseNewTask nm p t st k))"
    unfolding eq using si sinv_stays [OF si _ st] k3 by simp
  show "live_tasks (prvAddNewTaskToReadyList t (prvInitialiseNewTask nm p t st k)) = insert t (live_tasks k)"
    unfolding eq using live st by (auto simp: stays_def)
  have S3: "(\<lambda>s. pxStack (tcb k3 s)) = (\<lambda>t. pxStack (tcb k t))(t := st)" using B(2) by (auto simp: s3)
  have "owned k3 = {t, st} \<union> owned k" unfolding owned_def live S3 using tl by auto
  then show "owned (prvAddNewTaskToReadyList t (prvInitialiseNewTask nm p t st k)) = {t, st} \<union> owned k"
    unfolding eq using owned_stays [OF st] by auto
  have "ready_tasks k3 = insert t (ready_tasks k)" by (auto simp: ready_tasks_def s3)
  then show "ready_tasks (prvAddNewTaskToReadyList t (prvInitialiseNewTask nm p t st k)) = insert t (ready_tasks k)"
    unfolding eq by (auto simp: ready_tasks_def)
qed

text \<open>
  \<open>xTaskCreate\<close>: either a fresh task is ready, with its control block and stack taken from the heap,
  or the heap is as it was.
\<close>

lemma stays_heapD:
  assumes "stays (k\<lparr>heap := h\<rparr>) k'"
  shows "live_tasks k' = live_tasks k" "dying_tasks k' = dying_tasks k" "(\<lambda>t. pxStack (tcb k' t)) = (\<lambda>t. pxStack (tcb k t))"
    "pxCurrentTCB k' = pxCurrentTCB k" "owned k' = owned k" "xIdleTaskHandle k' = xIdleTaskHandle k"
    "xSchedulerRunning k' = xSchedulerRunning k"
  using assms owned_stays [OF assms] by (simp_all add: stays_def keeps_def)

lemma sinv_owned: "sinv A k \<Longrightarrow> owned k \<subseteq> A"
  by (auto simp: sinv_def task_memory_def owned_def)

lemma add_new_frame:
  "xIdleTaskHandle (prvAddNewTaskToReadyList t (prvInitialiseNewTask nm p t st k)) = xIdleTaskHandle k"
  "xSchedulerRunning (prvAddNewTaskToReadyList t (prvInitialiseNewTask nm p t st k)) = xSchedulerRunning k"
  "uxSchedulerSuspended (prvAddNewTaskToReadyList t (prvInitialiseNewTask nm p t st k)) = uxSchedulerSuspended k"
proof -
  have a: "xIdleTaskHandle (prvAddTaskToReadyList t k) = xIdleTaskHandle k" "xIdleTaskHandle (prvInitialiseTaskLists k) = xIdleTaskHandle k"
    "xSchedulerRunning (prvAddTaskToReadyList t k) = xSchedulerRunning k" "xSchedulerRunning (prvInitialiseTaskLists k) = xSchedulerRunning k"
    "xIdleTaskHandle (portYIELD k) = xIdleTaskHandle k" "xSchedulerRunning (portYIELD k) = xSchedulerRunning k"
    "uxSchedulerSuspended (prvAddTaskToReadyList t k) = uxSchedulerSuspended k" for k
    by (simp_all add: prvAddTaskToReadyList_def list_insert_end_def prvInitialiseTaskLists_eq portYIELD_def)
  have i: "xIdleTaskHandle (prvInitialiseNewTask nm p t st k) = xIdleTaskHandle k"
    "xSchedulerRunning (prvInitialiseNewTask nm p t st k) = xSchedulerRunning k"
    "uxSchedulerSuspended (prvInitialiseNewTask nm p t st k) = uxSchedulerSuspended k"
    by (simp_all add: prvInitialiseNewTask_def Let_def set_item_value_def)
  show "xIdleTaskHandle (prvAddNewTaskToReadyList t (prvInitialiseNewTask nm p t st k)) = xIdleTaskHandle k"
    "xSchedulerRunning (prvAddNewTaskToReadyList t (prvInitialiseNewTask nm p t st k)) = xSchedulerRunning k"
    "uxSchedulerSuspended (prvAddNewTaskToReadyList t (prvInitialiseNewTask nm p t st k)) = uxSchedulerSuspended k"
    unfolding prvAddNewTaskToReadyList_def Let_def using a i by simp_all
qed

lemma sinv_xTaskCreate:
  assumes k: "sinv A k" and s: "uxSchedulerSuspended k = 0" and n: "d * 4 < 2 ^ 32"
  shows "case xTaskCreate nm d p k of
      (None, k') \<Rightarrow> sinv A k' \<and> live_tasks k' = live_tasks k \<and> owned k' = owned k \<and> ready_tasks k \<subseteq> ready_tasks k' \<and>
        xIdleTaskHandle k' = xIdleTaskHandle k \<and> xSchedulerRunning k' = xSchedulerRunning k \<and> uxSchedulerSuspended k' = 0
    | (Some t, k') \<Rightarrow> t \<notin> A \<and> (\<exists>st. st \<notin> A \<and> st \<noteq> t \<and> sinv ({t, st} \<union> A) k' \<and> owned k' = {t, st} \<union> owned k) \<and>
        live_tasks k' = insert t (live_tasks k) \<and> insert t (ready_tasks k) \<subseteq> ready_tasks k' \<and>
        xIdleTaskHandle k' = xIdleTaskHandle k \<and> xSchedulerRunning k' = xSchedulerRunning k \<and> uxSchedulerSuspended k' = 0"
  using k s n
proof (cases rule: sinv_malloc)
  case (null k')
  then show ?thesis using owned_stays [OF null(4)] ready_malloc [OF k n] by (simp add: xTaskCreate_def stays_def keeps_def)
next
  case g: (got st k1)
  note o1 = sinv_owned [OF k, folded stays_heapD(5) [OF g(6)]]
  have z: "sizeof_TCB < 2 ^ 32" by (simp add: sizeof_TCB_def)
  have r1: "ready_tasks k \<subseteq> ready_tasks k1" using ready_malloc [OF k n] by (simp add: g(1))
  from g(4,5) z show ?thesis
  proof (cases rule: sinv_malloc)
    case c: (null k2)
    note o2 = owned_stays [OF c(4)]
    have "st \<notin> owned k2" using o1 g(3) o2 by blast
    then have st: "st \<in> insert st A - live_tasks k2 - (\<lambda>t. pxStack (tcb k2 t)) ` live_tasks k2" by (simp add: owned_def)
    note F = sinv_free [OF c(2,3) st]
    have "ready_tasks k \<subseteq> ready_tasks (vPortFree st k2)"
      using r1 ready_malloc [OF g(4) z] ready_free [OF c(2), of st] by (auto simp: c(1))
    moreover have "xTaskCreate nm d p k = (None, vPortFree st k2)" using g(1,2) c(1) by (simp add: xTaskCreate_def)
    moreover have "live_tasks (vPortFree st k2) = live_tasks k" "owned (vPortFree st k2) = owned k"
      using stays_heapD(1,5) [OF F(3)] stays_heapD(1,5) [OF g(6)] o2 c(4) by (simp_all add: stays_def)
    ultimately show ?thesis using F(1,2) g(3) stays_heapD(6,7) [OF F(3)] stays_heapD(6,7) [OF g(6)] c(4)
      by (simp add: stays_def keeps_def)
  next
    case c: (got t k2)
    have o2: "owned k2 \<subseteq> A" using o1 unfolding stays_heapD(5) [OF c(6)] .
    let ?k3 = "prvAddNewTaskToReadyList t (prvInitialiseNewTask nm p t st k2)"
    have x: "xTaskCreate nm d p k = (Some t, ?k3)" using g(1,2) c(1,2) by (simp add: xTaskCreate_def)
    have d: "{t, st} \<inter> (live_tasks k2 \<union> (\<lambda>t. pxStack (tcb k2 t)) ` live_tasks k2) = {}"
      using o2 g(3) c(3) unfolding owned_def by blast
    have N: "sinv (insert t (insert st A)) ?k3" "live_tasks ?k3 = insert t (live_tasks k2)" "owned ?k3 = {t, st} \<union> owned k2"
      "ready_tasks ?k3 = insert t (ready_tasks k2)"
      using sinv_add_new_task [OF c(4) _ _ _ d] c(3) by auto
    have "ready_tasks k \<subseteq> ready_tasks k2" using r1 ready_malloc [OF g(4) z] by (auto simp: c(1))
    moreover have "sinv ({t, st} \<union> A) ?k3" using N(1) by simp
    ultimately show ?thesis unfolding x prod.case option.case N(2-4) add_new_frame
      using stays_heapD [OF c(6)] stays_heapD [OF g(6)] c(3,5) g(3) by (auto intro!: exI [of _ st])
  qed
qed

subsection \<open>Deleting a task\<close>

lemma kinv_reset_unblock': "kinv k \<Longrightarrow> kinv (prvResetNextTaskUnblockTime k)"
  using kinv_reset_unblock [OF kinv_kinvp, of k] by (intro kinvI) (auto simp: kinv_def pend_ok_def)

lemma stays_reset_unblock [simp]: "stays k (prvResetNextTaskUnblockTime k)" "stays k (portYIELD k)"
  by (auto intro!: stays_ctn)

lemma live_state:
  assumes k: "kinv k" and t: "t \<in> live_tasks k" "t \<notin> dying_tasks k"
  obtains l where "ctn k (StateItem t) = Some l" "l \<in> {DelayedTaskList1, DelayedTaskList2} \<or> l = ReadyTasksLists (prio k t)"
proof -
  note K = kinvD [OF kinv_kinvp [OF k]]
  obtain l where l: "ctn k (StateItem t) = Some l" "l \<noteq> TasksWaitingTermination"
    using t by (auto simp: live_tasks_def dying_tasks_def)
  moreover have "item_fits (StateItem t) l" by (rule fitsD [OF K(2) l(1)])
  ultimately show ?thesis using K(7) that [of l] by (auto simp: ready_ok_def)
qed

text \<open>The blocks of a task that is on no list any more go back to the heap.\<close>

lemma sinv_prvDeleteTCB:
  assumes k: "sinv A k" and s: "uxSchedulerSuspended k = 0" and t: "t \<in> A" "pxStack (tcb k t) \<in> A" "t \<noteq> pxStack (tcb k t)"
    and f: "{t, pxStack (tcb k t)} \<inter> (live_tasks k \<union> (\<lambda>t. pxStack (tcb k t)) ` live_tasks k) = {}"
  shows "sinv (A - {t, pxStack (tcb k t)}) (prvDeleteTCB t k)" "uxSchedulerSuspended (prvDeleteTCB t k) = 0"
    "live_tasks (prvDeleteTCB t k) = live_tasks k" "dying_tasks (prvDeleteTCB t k) = dying_tasks k"
    "(\<lambda>s. pxStack (tcb (prvDeleteTCB t k) s)) = (\<lambda>s. pxStack (tcb k s))" "pxCurrentTCB (prvDeleteTCB t k) = pxCurrentTCB k"
    "xIdleTaskHandle (prvDeleteTCB t k) = xIdleTaskHandle k" "xSchedulerRunning (prvDeleteTCB t k) = xSchedulerRunning k"
    "ready_tasks k \<subseteq> ready_tasks (prvDeleteTCB t k)"
proof -
  let ?st = "pxStack (tcb k t)" and ?k = "vPortFree (pxStack (tcb k t)) k"
  have p1: "?st \<in> A - live_tasks k - (\<lambda>t. pxStack (tcb k t)) ` live_tasks k" using t f by auto
  note F1 = sinv_free [OF k s p1]
  note D1 = stays_heapD [OF F1(3)]
  have p2: "t \<in> A - {?st} - live_tasks ?k - (\<lambda>t. pxStack (tcb ?k t)) ` live_tasks ?k"
    unfolding D1 using t f by auto
  note F2 = sinv_free [OF F1(1,2) p2]
  note D2 = stays_heapD [OF F2(3)]
  have e: "prvDeleteTCB t k = vPortFree t ?k" by (simp add: prvDeleteTCB_def)
  have "A - {?st} - {t} = A - {t, ?st}" by auto
  then show "sinv (A - {t, ?st}) (prvDeleteTCB t k)" using F2(1) by (simp add: e)
  show "uxSchedulerSuspended (prvDeleteTCB t k) = 0" unfolding e by (rule F2(2))
  show "live_tasks (prvDeleteTCB t k) = live_tasks k" "dying_tasks (prvDeleteTCB t k) = dying_tasks k"
    "(\<lambda>s. pxStack (tcb (prvDeleteTCB t k) s)) = (\<lambda>s. pxStack (tcb k s))" "pxCurrentTCB (prvDeleteTCB t k) = pxCurrentTCB k"
    "xIdleTaskHandle (prvDeleteTCB t k) = xIdleTaskHandle k" "xSchedulerRunning (prvDeleteTCB t k) = xSchedulerRunning k"
    unfolding e D2 D1 by simp_all
  show "ready_tasks k \<subseteq> ready_tasks (prvDeleteTCB t k)"
    using ready_free [OF k t(2)] ready_free [OF F1(1), of t] t(1,3) unfolding e by blast
qed

text \<open>A task drops out of the set of tasks; its blocks are still allocated.\<close>

lemma sinv_drop:
  assumes k: "sinv A k" and t: "t \<in> live_tasks k" and k': "kinv k'" "live_tasks k' = live_tasks k - {t}"
    "dying_tasks k' = D" "heap k' = heap k" "(\<lambda>t. pxStack (tcb k' t)) = (\<lambda>t. pxStack (tcb k t))"
    "pxCurrentTCB k' = pxCurrentTCB k" "uxCurrentNumberOfTasks k' = uxCurrentNumberOfTasks k - 1"
    "uxDeletedTasksWaitingCleanUp k' = card D"
  shows "sinv A k'" "t \<in> A" "pxStack (tcb k' t) \<in> A" "t \<noteq> pxStack (tcb k' t)"
    "{t, pxStack (tcb k' t)} \<inter> (live_tasks k' \<union> (\<lambda>t. pxStack (tcb k' t)) ` live_tasks k') = {}"
proof -
  let ?S = "\<lambda>t. pxStack (tcb k t)"
  have M: "heap_blocks (heap k) A" "live_tasks k \<subseteq> A" "0 \<notin> A" "?S ` live_tasks k \<subseteq> A - live_tasks k" "inj_on ?S (live_tasks k)"
    and C: "finite (live_tasks k)" "uxCurrentNumberOfTasks k = card (live_tasks k)" "pxCurrentTCB k = 0 \<longrightarrow> live_tasks k = {}"
    using k by (simp_all add: sinv_def task_memory_def task_counts_def)
  have st: "pxStack (tcb k' t) = ?S t" by (rule fun_cong [OF k'(5)])
  show "t \<in> A" using M t by auto
  show "pxStack (tcb k' t) \<in> A" "t \<noteq> pxStack (tcb k' t)" unfolding st using M(4) t by auto
  show "{t, pxStack (tcb k' t)} \<inter> (live_tasks k' \<union> (\<lambda>t. pxStack (tcb k' t)) ` live_tasks k') = {}"
    unfolding st k' using M(4,5) t by (auto simp: inj_on_def)
  have "task_memory A k'" unfolding task_memory_def k'(2,4,5) using M by (auto intro: inj_on_subset)
  moreover have "task_counts k'" using C t by (auto simp: task_counts_def k')
  ultimately show "sinv A k'" using k'(1) by (simp add: sinv_def)
qed

lemma sinv_vTaskDelete:
  assumes k: "sinv A k" and s: "uxSchedulerSuspended k = 0"
    and t: "t = (if x = 0 then pxCurrentTCB k else x)" "t \<in> live_tasks k" "t \<notin> dying_tasks k"
  shows "(if t = pxCurrentTCB k
     then sinv A (vTaskDelete x k) \<and> live_tasks (vTaskDelete x k) = live_tasks k \<and> dying_tasks (vTaskDelete x k) = insert t (dying_tasks k)
     else sinv (A - {t, pxStack (tcb k t)}) (vTaskDelete x k) \<and> live_tasks (vTaskDelete x k) = live_tasks k - {t} \<and>
       dying_tasks (vTaskDelete x k) = dying_tasks k) \<and>
      owned (vTaskDelete x k) \<subseteq> owned k \<and> ready_tasks k - {t} \<subseteq> ready_tasks (vTaskDelete x k) \<and>
      xIdleTaskHandle (vTaskDelete x k) = xIdleTaskHandle k \<and> xSchedulerRunning (vTaskDelete x k) = xSchedulerRunning k \<and>
      uxSchedulerSuspended (vTaskDelete x k) = 0"
proof -
  have kk: "kinv k" using k by (simp add: sinv_def)
  obtain l where l: "ctn k (StateItem t) = Some l" "l \<in> {DelayedTaskList1, DelayedTaskList2} \<or> l = ReadyTasksLists (prio k t)"
    by (rule live_state [OF kk t(2,3)])
  define k1 where "k1 = (leave_lists t k)\<lparr>uxTaskNumber := uxTaskNumber (leave_lists t k) + 1\<rparr>"
  note L = leave_lists_fields [OF l(1)]
  have k1: "kinv k1" "ctn k1 = (ctn k)(StateItem t := None, EventItem t := None)" "tcb k1 = tcb k"
    "pxCurrentTCB k1 = pxCurrentTCB k" "uxSchedulerSuspended k1 = 0" "keeps k k1"
    using kinv_leave_lists [OF kk l] L s by (simp_all add: k1_def)
  have fin: "finite (dying_tasks k)" using k
    by (auto simp: sinv_def task_counts_def intro: finite_subset [of _ "live_tasks k"] simp: live_tasks_def dying_tasks_def)
  have del: "vTaskDelete x k = (let k = (if t = pxCurrentTCB k1
       then let k = list_insert_end TasksWaitingTermination (StateItem t) k1
            in k\<lparr>uxDeletedTasksWaitingCleanUp := uxDeletedTasksWaitingCleanUp k + 1\<rparr>
       else prvResetNextTaskUnblockTime (prvDeleteTCB t (k1\<lparr>uxCurrentNumberOfTasks := uxCurrentNumberOfTasks k1 - 1\<rparr>)))
     in if xSchedulerRunning k \<and> t = pxCurrentTCB k then portYIELD k else k)"
    unfolding vTaskDelete_def t(1) [symmetric] k1_def leave_lists_def Let_def split_beta by (simp only:)
  show ?thesis
  proof (cases "t = pxCurrentTCB k")
    case True
    define k2 where "k2 = list_insert_end TasksWaitingTermination (StateItem t) k1"
    define k3 where "k3 = k2\<lparr>uxDeletedTasksWaitingCleanUp := uxDeletedTasksWaitingCleanUp k2 + 1\<rparr>"
    have "kinv k2" unfolding k2_def by (rule kinv_insert_termination [OF k1(1)]) (simp add: k1)
    then have k3: "kinv k3" by (simp add: k3_def)
    have lv: "live_tasks k3 = live_tasks k" "dying_tasks k3 = insert t (dying_tasks k)"
      using t(2) by (auto simp: k3_def k2_def live_tasks_def dying_tasks_def k1)
    have st: "tcb k3 = tcb k" "heap k3 = heap k" "pxCurrentTCB k3 = pxCurrentTCB k"
      "uxCurrentNumberOfTasks k3 = uxCurrentNumberOfTasks k" "uxDeletedTasksWaitingCleanUp k3 = Suc (uxDeletedTasksWaitingCleanUp k)"
      "xIdleTaskHandle k3 = xIdleTaskHandle k" "xSchedulerRunning k3 = xSchedulerRunning k" "uxSchedulerSuspended k3 = 0"
      using k1(3-6) by (simp_all add: k3_def k2_def keeps_def list_insert_end_def)
    have rd: "ready_tasks k - {t} \<subseteq> ready_tasks k3" by (auto simp: ready_tasks_def k3_def k2_def k1)
    have ow: "owned k3 = owned k" by (simp add: owned_def lv st)
    have si: "sinv A k3"
      using k k3 fin t(3) by (simp add: sinv_def task_memory_def task_counts_def lv st)
    have e: "vTaskDelete x k = (if xSchedulerRunning k3 \<and> t = pxCurrentTCB k3 then portYIELD k3 else k3)"
      unfolding del Let_def k2_def [symmetric] k3_def [symmetric] using True by (simp add: k1(4))
    have y: "stays k3 (portYIELD k3)" "ready_tasks (portYIELD k3) = ready_tasks k3" by simp_all
    show ?thesis
      using True si lv sinv_stays [OF si _ y(1)] owned_stays [OF y(1)] k3 y rd ow st(3,6-8) by (simp add: e stays_def keeps_def)
  next
    case False
    let ?st = "pxStack (tcb k t)"
    define k2 where "k2 = k1\<lparr>uxCurrentNumberOfTasks := uxCurrentNumberOfTasks k1 - 1\<rparr>"
    have k2: "kinv k2" "uxSchedulerSuspended k2 = 0" using k1 by (simp_all add: k2_def)
    have lv: "live_tasks k2 = live_tasks k - {t}" "dying_tasks k2 = dying_tasks k"
      using t(3) by (auto simp: k2_def live_tasks_def dying_tasks_def k1)
    have D: "sinv A k2" "t \<in> A" "pxStack (tcb k2 t) \<in> A" "t \<noteq> pxStack (tcb k2 t)"
      "{t, pxStack (tcb k2 t)} \<inter> (live_tasks k2 \<union> (\<lambda>t. pxStack (tcb k2 t)) ` live_tasks k2) = {}"
      by (rule sinv_drop [OF k t(2) k2(1) lv]; use k k1 in \<open>simp add: k2_def keeps_def sinv_def task_counts_def\<close>)+
    note P = sinv_prvDeleteTCB [OF D(1) k2(2) D(2-5)]
    let ?k3 = "prvResetNextTaskUnblockTime (prvDeleteTCB t k2)"
    have e: "vTaskDelete x k = ?k3"
      unfolding del using False P(6) by (simp add: k1(4) Let_def k2_def [symmetric]) (simp add: k2_def k1(4))
    have st: "pxStack (tcb k2 t) = ?st" by (simp add: k2_def k1)
    have "kinv ?k3" using P(1) by (intro kinv_reset_unblock') (simp add: sinv_def)
    then have "sinv (A - {t, ?st}) ?k3" using sinv_stays [OF P(1)] by (simp add: st)
    moreover have "stays (prvDeleteTCB t k2) ?k3" by simp
    moreover have "owned (prvDeleteTCB t k2) \<subseteq> owned k"
      unfolding owned_def P(3,5) lv by (auto simp: k2_def k1)
    moreover have "ready_tasks k - {t} \<subseteq> ready_tasks (prvDeleteTCB t k2)"
    proof -
      have "ready_tasks k - {t} \<subseteq> ready_tasks k2" by (auto simp: ready_tasks_def k2_def k1)
      with P(9) show ?thesis by (rule order_trans [rotated])
    qed
    moreover have "xIdleTaskHandle k2 = xIdleTaskHandle k" "xSchedulerRunning k2 = xSchedulerRunning k"
      using k1(6) by (simp_all add: k2_def keeps_def)
    ultimately show ?thesis using False P(2-4,7,8) lv owned_stays [of "prvDeleteTCB t k2" ?k3]
      by (simp add: e stays_def keeps_def)
  qed
qed

text \<open>The idle task frees every task that deleted itself.\<close>

lemma sinv_reap:
  assumes "sinv A k" "uxSchedulerSuspended k = 0" "n = uxDeletedTasksWaitingCleanUp k"
  shows "sinv (A - (dying_tasks k \<union> (\<lambda>t. pxStack (tcb k t)) ` dying_tasks k)) (reap n k) \<and> dying_tasks (reap n k) = {} \<and> live_tasks (reap n k) = live_tasks k - dying_tasks k \<and>
    uxSchedulerSuspended (reap n k) = 0 \<and> pxCurrentTCB (reap n k) = pxCurrentTCB k \<and>
    owned (reap n k) \<subseteq> owned k \<and> ready_tasks k \<subseteq> ready_tasks (reap n k) \<and>
    xIdleTaskHandle (reap n k) = xIdleTaskHandle k \<and> xSchedulerRunning (reap n k) = xSchedulerRunning k"
  using assms
proof (induction n arbitrary: A k)
  case 0
  then have "finite (dying_tasks k)" by (auto simp: sinv_def task_counts_def live_tasks_def dying_tasks_def elim: rev_finite_subset)
  then have "dying_tasks k = {}" using 0 by (simp add: sinv_def task_counts_def)
  then show ?case using 0 by auto
next
  case (Suc n)
  let ?l = TasksWaitingTermination
  have kk: "kinv k" using Suc.prems by (simp add: sinv_def)
  note K = kinvD [OF kinv_kinvp [OF kk]]
  have cd: "card (dying_tasks k) = Suc n" using Suc.prems by (simp add: sinv_def task_counts_def)
  then obtain u where "u \<in> dying_tasks k" by (metis card.empty ex_in_conv nat.distinct(1))
  then have ne: "\<not> list_is_empty ?l k" using list_is_empty_iff [OF K(1), of ?l] by (auto simp: dying_tasks_def)
  have h: "ctn k (list_head ?l k) = Some ?l" by (rule list_head_in [OF K(1) ne])
  have "item_fits (list_head ?l k) ?l" by (rule fitsD [OF K(2) h])
  then obtain t where t: "list_head ?l k = StateItem t" by (cases "list_head ?l k") auto
  have c: "ctn k (StateItem t) = Some ?l" using h t by simp
  have td: "t \<in> dying_tasks k" "t \<in> live_tasks k" using c by (auto simp: dying_tasks_def live_tasks_def)
  define k1 where "k1 = (snd (list_remove (StateItem t) k))
      \<lparr>uxCurrentNumberOfTasks := uxCurrentNumberOfTasks (snd (list_remove (StateItem t) k)) - 1,
       uxDeletedTasksWaitingCleanUp := uxDeletedTasksWaitingCleanUp (snd (list_remove (StateItem t) k)) - 1\<rparr>"
  have kp: "keeps k (snd (list_remove (StateItem t) k))" by simp
  have k1: "kinv k1" "uxSchedulerSuspended k1 = 0" using kinv_remove_termination [OF kk c] Suc.prems by (simp_all add: k1_def)
  have lv: "live_tasks k1 = live_tasks k - {t}" "dying_tasks k1 = dying_tasks k - {t}"
    by (auto simp: k1_def live_tasks_def dying_tasks_def)
  have D: "sinv A k1" "t \<in> A" "pxStack (tcb k1 t) \<in> A" "t \<noteq> pxStack (tcb k1 t)"
    "{t, pxStack (tcb k1 t)} \<inter> (live_tasks k1 \<union> (\<lambda>t. pxStack (tcb k1 t)) ` live_tasks k1) = {}"
    by (rule sinv_drop [OF Suc.prems(1) td(2) k1(1) lv]; use kp cd td(1) Suc.prems(3) in \<open>simp add: k1_def keeps_def\<close>)+
  note P = sinv_prvDeleteTCB [OF D(1) k1(2) D(2-5)]
  let ?k = "prvDeleteTCB t k1"
  have n: "n = uxDeletedTasksWaitingCleanUp ?k"
    using P(1,4) lv cd td(1) by (simp add: sinv_def task_counts_def)
  have tw: "tcb k1 = tcb k" "ready_tasks k1 = ready_tasks k" "pxCurrentTCB k1 = pxCurrentTCB k"
    "xIdleTaskHandle k1 = xIdleTaskHandle k" "xSchedulerRunning k1 = xSchedulerRunning k"
    using kp c by (simp_all add: k1_def keeps_def) (auto simp: ready_tasks_def)
  have o: "owned ?k \<subseteq> owned k" "{t, pxStack (tcb k1 t)} \<subseteq> owned k"
    unfolding owned_def P(3,5) lv tw using td by auto
  note IH = Suc.IH [OF P(1,2) n, unfolded P(5)]
  have "A - {t, pxStack (tcb k1 t)} - (dying_tasks ?k \<union> (\<lambda>t. pxStack (tcb k1 t)) ` dying_tasks ?k) =
      A - (dying_tasks k \<union> (\<lambda>t. pxStack (tcb k t)) ` dying_tasks k)"
    unfolding P(4) lv tw using td(1) by auto
  moreover have "reap (Suc n) k = reap n ?k" using ne by (simp add: t k1_def Let_def)
  moreover have "live_tasks ?k - dying_tasks ?k = live_tasks k - dying_tasks k" using P(3,4) lv td by auto
  moreover have "ready_tasks k \<subseteq> ready_tasks (reap n ?k)" using P(9) IH tw(2) by blast
  ultimately show ?case using IH P(6-8) o(1) tw by auto
qed

subsection \<open>The kernel as a transition system\<close>

text \<open>
  The state after reset: static data is zero, so no list has an item. The two list pointers are set
  by the first task's creation and read by nothing before it. The heap is laid out on its first use,
  which gives the same heap as laying it out beforehand.
\<close>

definition boot_kernel :: "heap4 \<Rightarrow> kernel" where
  "boot_kernel h =
     \<lparr>ival = (\<lambda>_. 0), ctn = (\<lambda>_. None), lists = (\<lambda>_. xl_empty),
      tcb = (\<lambda>_. \<lparr>uxPriority = 0, pxStack = 0, pcTaskName = [], uxBasePriority = 0, uxMutexesHeld = 0, ulNotifiedValue = 0,
        ucNotifyState = taskNOT_WAITING_NOTIFICATION\<rparr>),
      pxCurrentTCB = 0, pxDelayedTaskList = DelayedTaskList1, pxOverflowDelayedTaskList = DelayedTaskList2,
      uxDeletedTasksWaitingCleanUp = 0, uxCurrentNumberOfTasks = 0, xTickCount = 0, uxTopReadyPriority = 0,
      xSchedulerRunning = False, uxPendedTicks = 0, xYieldPending = False, xNumOfOverflows = 0, uxTaskNumber = 0,
      xNextTaskUnblockTime = 0, xIdleTaskHandle = 0, uxSchedulerSuspended = 0, heap = h, pendsv = False, kfault = False\<rparr>"

text \<open>
  A system state is the kernel with the set of the blocks the application holds. The guards are the
  rules of the API: an allocation, a creation or a deletion needs the scheduler not suspended; a call
  that blocks is made by the running task, which is not the idle task; an event list is one of the
  queues or event groups; a block is freed once.
\<close>

definition event_list :: "lid \<Rightarrow> bool" where
  "event_list l \<longleftrightarrow> (\<exists>q. l \<in> {TasksWaitingToSend q, TasksWaitingToReceive q, TasksWaitingForBits q})"

definition may_block :: "kernel \<Rightarrow> bool" where
  "may_block k \<longleftrightarrow> xSchedulerRunning k \<and> cur_ready k \<and> pxCurrentTCB k \<noteq> xIdleTaskHandle k \<and>
     ctn k (EventItem (pxCurrentTCB k)) = None"

definition alone_ready :: "tid \<Rightarrow> kernel \<Rightarrow> bool" where
  "alone_ready t k \<longleftrightarrow> (\<exists>p. ctn k (StateItem t) = Some (ReadyTasksLists p) \<and>
     (\<forall>s. ctn k (StateItem s) = Some (ReadyTasksLists p) \<longrightarrow> s = t))"

inductive kstep :: "nat set \<times> kernel \<Rightarrow> nat set \<times> kernel \<Rightarrow> bool" where
  malloc: "uxSchedulerSuspended k = 0 \<Longrightarrow> n < 2 ^ 32 \<Longrightarrow> pvPortMalloc n k = (p, k') \<Longrightarrow>
    kstep (B, k) (if p = 0 then B else insert p B, k')"
| free: "uxSchedulerSuspended k = 0 \<Longrightarrow> p \<in> B \<Longrightarrow> kstep (B, k) (B - {p}, vPortFree p k)"
| create: "uxSchedulerSuspended k = 0 \<Longrightarrow> d * 4 < 2 ^ 32 \<Longrightarrow> kstep (B, k) (B, snd (xTaskCreate nm d p k))"
| delete: "uxSchedulerSuspended k = 0 \<Longrightarrow> t = (if x = 0 then pxCurrentTCB k else x) \<Longrightarrow> t \<in> live_tasks k \<Longrightarrow>
    t \<notin> dying_tasks k \<Longrightarrow> t \<noteq> xIdleTaskHandle k \<Longrightarrow> kstep (B, k) (B, vTaskDelete x k)"
| start_idle: "uxSchedulerSuspended k = 0 \<Longrightarrow> \<not> xSchedulerRunning k \<Longrightarrow> kstep (B, k) (B, snd (vTaskStartScheduler_idle k))"
| start_run: "xIdleTaskHandle k \<noteq> 0 \<Longrightarrow> live_tasks k \<subseteq> ready_tasks k \<union> dying_tasks k \<Longrightarrow>
    kstep (B, k) (B, vTaskStartScheduler_run k)"
| idle_round: "uxSchedulerSuspended k = 0 \<Longrightarrow> kstep (B, k) (B, prvIdleTask_round k)"
| tick: "kstep (B, k) (B, xPortSysTickHandler k)"
| switch: "xSchedulerRunning k \<Longrightarrow> kstep (B, k) (B, xPortPendSVHandler k)"
| suspend: "kstep (B, k) (B, vTaskSuspendAll k)"
| resume: "uxSchedulerSuspended k > 0 \<Longrightarrow> kstep (B, k) (B, snd (xTaskResumeAll k))"
| delay: "may_block k \<Longrightarrow> uxSchedulerSuspended k = 0 \<Longrightarrow> kstep (B, k) (B, vTaskDelay n k)"
| place: "may_block k \<Longrightarrow> event_list l \<Longrightarrow> n \<noteq> 0 \<Longrightarrow> kstep (B, k) (B, vTaskPlaceOnEventList l n k)"
| place_unordered: "may_block k \<Longrightarrow> event_list l \<Longrightarrow> n \<noteq> 0 \<Longrightarrow> kstep (B, k) (B, vTaskPlaceOnUnorderedEventList l v n k)"
| place_restricted: "may_block k \<Longrightarrow> event_list l \<Longrightarrow> n \<noteq> 0 \<Longrightarrow> kstep (B, k) (B, vTaskPlaceOnEventListRestricted l n b k)"
| remove: "event_list l \<Longrightarrow> \<not> list_is_empty l k \<Longrightarrow> kstep (B, k) (B, snd (xTaskRemoveFromEventList l k))"
| remove_unordered: "ctn k (EventItem t) \<noteq> None \<Longrightarrow> kstep (B, k) (B, vTaskRemoveFromUnorderedEventList (EventItem t) v k)"
| inherit: "h = 0 \<or> h \<in> live_tasks k - dying_tasks k \<Longrightarrow> kstep (B, k) (B, snd (xTaskPriorityInherit h k))"
| disinherit: "h = 0 \<or> h \<in> ready_tasks k \<Longrightarrow> kstep (B, k) (B, snd (xTaskPriorityDisinherit h k))"
| disinherit_timeout: "h = 0 \<or> h \<in> live_tasks k - dying_tasks k \<Longrightarrow> w < configMAX_PRIORITIES \<Longrightarrow> \<not> alone_ready h k \<Longrightarrow>
    kstep (B, k) (B, vTaskPriorityDisinheritAfterTimeout h w k)"
| notify: "(ucNotifyState (tcb k t) = taskWAITING_NOTIFICATION \<longrightarrow> notifiable k t) \<Longrightarrow>
    kstep (B, k) (B, snd (xTaskGenericNotify t v a k))"
| notify_isr: "(ucNotifyState (tcb k t) = taskWAITING_NOTIFICATION \<longrightarrow> notifiable k t) \<Longrightarrow>
    kstep (B, k) (B, snd (xTaskGenericNotifyFromISR t v a k))"
| give_isr: "(ucNotifyState (tcb k t) = taskWAITING_NOTIFICATION \<longrightarrow> notifiable k t) \<Longrightarrow>
    kstep (B, k) (B, snd (vTaskNotifyGiveFromISR t k))"
| take_enter: "may_block k \<Longrightarrow> kstep (B, k) (B, ulTaskNotifyTake_enter n k)"
| take_exit: "cur_ready k \<Longrightarrow> kstep (B, k) (B, snd (ulTaskNotifyTake_exit b k))"
| wait_enter: "may_block k \<Longrightarrow> kstep (B, k) (B, xTaskNotifyWait_enter c n k)"
| wait_exit: "cur_ready k \<Longrightarrow> kstep (B, k) (B, snd (xTaskNotifyWait_exit c k))"
| notify_clear: "kstep (B, k) (B, snd (xTaskNotifyStateClear t k))"

text \<open>The invariant: the kernel's, the ownership of the heap blocks, and an idle task that is always ready.\<close>

definition idle_ok :: "kernel \<Rightarrow> bool" where
  "idle_ok k \<longleftrightarrow> (xIdleTaskHandle k \<noteq> 0 \<longrightarrow> xIdleTaskHandle k \<in> ready_tasks k) \<and> (xSchedulerRunning k \<longrightarrow> xIdleTaskHandle k \<noteq> 0)"

fun system_inv :: "nat set \<times> kernel \<Rightarrow> bool" where
  "system_inv (B, k) \<longleftrightarrow> (\<exists>A. sinv A k \<and> B \<subseteq> A - owned k) \<and> idle_ok k"

fun system_init :: "nat set \<times> kernel \<Rightarrow> bool" where
  "system_init (B, k) \<longleftrightarrow> B = {} \<and> (\<exists>h. 0 < ucHeap h \<and> (xStart h < ucHeap h \<or> ucHeap h + configTOTAL_HEAP_SIZE \<le> xStart h) \<and>
     k = boot_kernel (prvHeapInit h))"

lemma sinv_kinv: "sinv A k \<Longrightarrow> kinv k"
  by (simp add: sinv_def)

lemma system_inv_boot:
  assumes "system_init s" shows "system_inv s"
proof -
  obtain h where h: "0 < ucHeap h" "xStart h < ucHeap h \<or> ucHeap h + configTOTAL_HEAP_SIZE \<le> xStart h"
    and s: "s = ({}, boot_kernel (prvHeapInit h))" using assms by (cases s) auto
  let ?k = "boot_kernel (prvHeapInit h)"
  have "heap_rep (prvHeapInit h) {}" using prvHeapInit_rel [OF h] by (auto simp: heap_rep_def intro!: exI)
  then have "heap_blocks (heap ?k) {}" by (auto simp: heap_blocks_def boot_kernel_def disjoint_regions_def intro!: exI [of _ "{}"])
  moreover have "kinv ?k" by (simp add: kinv_def kinv_defs boot_kernel_def lists_wf_def pend_ok_def)
  moreover have "live_tasks ?k = {}" "dying_tasks ?k = {}" by (simp_all add: boot_kernel_def live_tasks_def dying_tasks_def)
  ultimately have "sinv {} ?k" by (simp add: sinv_def task_memory_def task_counts_def) (simp add: boot_kernel_def)
  then show ?thesis by (auto simp: s idle_ok_def boot_kernel_def)
qed

text \<open>Steps that keep the tasks and leave every ready task ready, but for one that blocks and is not the idle task.\<close>

lemma system_inv_stays:
  assumes "system_inv (B, k)" "kinv k'" "stays k k'" "ready_tasks k \<subseteq> ready_tasks k' \<or> ready_tasks k - {u} \<subseteq> ready_tasks k' \<and> u \<noteq> xIdleTaskHandle k"
  shows "system_inv (B, k')"
proof -
  have "xIdleTaskHandle k' = xIdleTaskHandle k" "xSchedulerRunning k' = xSchedulerRunning k"
    using assms(3) by (simp_all add: stays_def keeps_def)
  then have "idle_ok k'" using assms(1,4) by (auto simp: idle_ok_def)
  then show ?thesis using assms(1) sinv_stays [OF _ assms(2,3)] owned_stays [OF assms(3)] by auto
qed

lemma system_invE:
  assumes "system_inv (B, k)"
  obtains A where "sinv A k" "B \<subseteq> A - owned k" "idle_ok k" "kinv k"
  using assms sinv_kinv by auto

lemma system_inv_kinv: "system_inv (B, k) \<Longrightarrow> kinv k"
  using sinv_kinv by auto

lemma idle_ok_mono:
  "idle_ok k \<Longrightarrow> ready_tasks k \<subseteq> ready_tasks k' \<Longrightarrow> xIdleTaskHandle k' = xIdleTaskHandle k \<Longrightarrow>
   xSchedulerRunning k' = xSchedulerRunning k \<Longrightarrow> idle_ok k'"
  by (auto simp: idle_ok_def)

lemma inv_malloc:
  assumes i: "system_inv (B, k)" and s: "uxSchedulerSuspended k = 0" "n < 2 ^ 32" and m: "pvPortMalloc n k = (p, k')"
  shows "system_inv (if p = 0 then B else insert p B, k')"
proof -
  obtain A where A: "sinv A k" "B \<subseteq> A - owned k" "idle_ok k" by (rule system_invE [OF i])
  have r: "ready_tasks k \<subseteq> ready_tasks k'" using ready_malloc [OF A(1) s(2)] m by simp
  from A(1) s show ?thesis
  proof (cases rule: sinv_malloc)
    case (null k1)
    then show ?thesis using m system_inv_stays [OF i _ null(4)] r by (auto intro: sinv_kinv)
  next
    case (got q k1)
    note D = stays_heapD [OF got(6)]
    have e: "q = p" "k1 = k'" using m got(1) by auto
    have "owned k' = owned k" using D(5) e by simp
    moreover have "p \<notin> owned k" using got(3) sinv_owned [OF A(1)] e by auto
    moreover have "idle_ok k'" using idle_ok_mono [OF A(3) r] D(6,7) e by simp
    ultimately show ?thesis using got(2,4) A(2) e by auto
  qed
qed

lemma inv_free:
  assumes i: "system_inv (B, k)" and s: "uxSchedulerSuspended k = 0" and p: "p \<in> B"
  shows "system_inv (B - {p}, vPortFree p k)"
proof -
  obtain A where A: "sinv A k" "B \<subseteq> A - owned k" "idle_ok k" by (rule system_invE [OF i])
  have q: "p \<in> A - live_tasks k - (\<lambda>t. pxStack (tcb k t)) ` live_tasks k" using A(2) p by (auto simp: owned_def)
  note F = sinv_free [OF A(1) s q]
  note D = stays_heapD [OF F(3)]
  have "idle_ok (vPortFree p k)" using idle_ok_mono [OF A(3) ready_free [OF A(1)]] D(6,7) q by simp
  then show ?thesis using F(1) A(2) D(5) by auto
qed

lemma inv_create:
  assumes i: "system_inv (B, k)" and s: "uxSchedulerSuspended k = 0" "d * 4 < 2 ^ 32"
  shows "system_inv (B, snd (xTaskCreate nm d p k))"
    "fst (xTaskCreate nm d p k) = Some t \<Longrightarrow> t \<in> ready_tasks (snd (xTaskCreate nm d p k)) \<and> t \<noteq> 0"
proof -
  obtain A where A: "sinv A k" "B \<subseteq> A - owned k" "idle_ok k" by (rule system_invE [OF i])
  note C = sinv_xTaskCreate [OF A(1) s, of nm p]
  obtain r k' where x: "xTaskCreate nm d p k = (r, k')" by fastforce
  have "ready_tasks k \<subseteq> ready_tasks k'" "xIdleTaskHandle k' = xIdleTaskHandle k" "xSchedulerRunning k' = xSchedulerRunning k"
    using C by (cases r; simp add: x; blast)+
  then have "idle_ok k'" by (rule idle_ok_mono [OF A(3)])
  moreover have "\<exists>A'. sinv A' k' \<and> B \<subseteq> A' - owned k'"
  proof (cases r)
    case None
    then show ?thesis using C A(2) by (auto simp: x)
  next
    case (Some t)
    then obtain st where "t \<notin> A" "st \<notin> A" "sinv ({t, st} \<union> A) k'" "owned k' = {t, st} \<union> owned k" using C by (auto simp: x)
    then show ?thesis using A(2) by (intro exI [of _ "{t, st} \<union> A"]) auto
  qed
  ultimately show "system_inv (B, snd (xTaskCreate nm d p k))" by (simp add: x)
  show "t \<in> ready_tasks (snd (xTaskCreate nm d p k)) \<and> t \<noteq> 0" if "fst (xTaskCreate nm d p k) = Some t"
    using C that by (auto simp: x sinv_def task_memory_def)
qed

lemma kinv_idle_upd [simp]: "kinv (k\<lparr>xIdleTaskHandle := t\<rparr>) = kinv k"
  by (simp add: kinv_def kinv_defs lists_wf_def pend_ok_def)

lemma idle_upd_tasks [simp]:
  "live_tasks (k\<lparr>xIdleTaskHandle := t\<rparr>) = live_tasks k" "dying_tasks (k\<lparr>xIdleTaskHandle := t\<rparr>) = dying_tasks k"
  "owned (k\<lparr>xIdleTaskHandle := t\<rparr>) = owned k" "ready_tasks (k\<lparr>xIdleTaskHandle := t\<rparr>) = ready_tasks k"
  by (simp_all add: live_tasks_def dying_tasks_def owned_def ready_tasks_def)

lemma inv_start_idle:
  assumes i: "system_inv (B, k)" and s: "uxSchedulerSuspended k = 0"
  shows "system_inv (B, snd (vTaskStartScheduler_idle k))"
proof -
  let ?c = "xTaskCreate (Some ''IDLE'') configMINIMAL_STACK_SIZE 0 k"
  have n: "configMINIMAL_STACK_SIZE * 4 < 2 ^ 32" by (simp add: configMINIMAL_STACK_SIZE_def)
  note C = inv_create [OF i s n, of "Some ''IDLE''" 0]
  have "system_inv (B, (snd ?c)\<lparr>xIdleTaskHandle := t\<rparr>)" if "fst ?c = Some t" for t
    using C(1) C(2) [OF that] by (auto simp: idle_ok_def sinv_def task_memory_def task_counts_def)
  then show ?thesis using C(1) by (auto simp: vTaskStartScheduler_idle_def split: prod.splits option.splits)
qed

lemma inv_start_run:
  assumes i: "system_inv (B, k)" and t: "xIdleTaskHandle k \<noteq> 0" and l: "live_tasks k \<subseteq> ready_tasks k \<union> dying_tasks k"
  shows "system_inv (B, vTaskStartScheduler_run k)"
proof -
  let ?k = "vTaskStartScheduler_run k"
  obtain A where A: "sinv A k" "B \<subseteq> A - owned k" "idle_ok k" "kinv k" by (rule system_invE [OF i])
  note K = kinvD [OF kinv_kinvp [OF A(4)]]
  have nd: "ctn k i \<noteq> Some DelayedTaskList1 \<and> ctn k i \<noteq> Some DelayedTaskList2" for i
  proof (cases i)
    case (StateItem t)
    have "t \<in> live_tasks k \<Longrightarrow> t \<in> ready_tasks k \<union> dying_tasks k" using l by blast
    then show ?thesis unfolding StateItem by (auto simp: live_tasks_def ready_tasks_def dying_tasks_def)
  qed (use fitsD [OF K(2), of i] in force)+
  have "kinv ?k" using K nd A(4)
    by (auto simp: kinv_def kinvp_def lists_wf_def fits_def delay_lists_def sorted_delays_def delay_values_def prios_ok_def
        ready_ok_def waits_ok_def pend_ok_def vTaskStartScheduler_run_def)
  moreover have "live_tasks ?k = live_tasks k" "dying_tasks ?k = dying_tasks k" "owned ?k = owned k" "ready_tasks ?k = ready_tasks k"
    by (simp_all add: live_tasks_def dying_tasks_def owned_def ready_tasks_def vTaskStartScheduler_run_def)
  moreover have "heap ?k = heap k" "tcb ?k = tcb k" "pxCurrentTCB ?k = pxCurrentTCB k" "xIdleTaskHandle ?k = xIdleTaskHandle k"
    "uxCurrentNumberOfTasks ?k = uxCurrentNumberOfTasks k" "uxDeletedTasksWaitingCleanUp ?k = uxDeletedTasksWaitingCleanUp k"
    by (simp_all add: vTaskStartScheduler_run_def)
  ultimately show ?thesis using A t by (auto simp: sinv_def task_memory_def task_counts_def idle_ok_def)
qed

lemma inv_delete:
  assumes i: "system_inv (B, k)" and s: "uxSchedulerSuspended k = 0" and t: "t = (if x = 0 then pxCurrentTCB k else x)"
    "t \<in> live_tasks k" "t \<notin> dying_tasks k" "t \<noteq> xIdleTaskHandle k"
  shows "system_inv (B, vTaskDelete x k)"
proof -
  obtain A where A: "sinv A k" "B \<subseteq> A - owned k" "idle_ok k" by (rule system_invE [OF i])
  note D = sinv_vTaskDelete [OF A(1) s t(1-3)]
  let ?k = "vTaskDelete x k"
  have "idle_ok ?k" using D A(3) t(4) by (auto simp: idle_ok_def)
  moreover have "{t, pxStack (tcb k t)} \<subseteq> owned k" using t(2) by (auto simp: owned_def)
  then have "\<exists>A'. sinv A' ?k \<and> B \<subseteq> A' - owned ?k"
    using D A(2) by (cases "t = pxCurrentTCB k") (auto 0 3)
  ultimately show ?thesis by simp
qed

lemma inv_idle_round:
  assumes i: "system_inv (B, k)" and s: "uxSchedulerSuspended k = 0"
  shows "system_inv (B, prvIdleTask_round k)"
proof -
  obtain A where A: "sinv A k" "B \<subseteq> A - owned k" "idle_ok k" by (rule system_invE [OF i])
  let ?k = "prvCheckTasksWaitingTermination k"
  let ?D = "dying_tasks k \<union> (\<lambda>t. pxStack (tcb k t)) ` dying_tasks k"
  have R: "sinv (A - ?D) ?k" "owned ?k \<subseteq> owned k" "ready_tasks k \<subseteq> ready_tasks ?k" "xIdleTaskHandle ?k = xIdleTaskHandle k"
    "xSchedulerRunning ?k = xSchedulerRunning k"
    using sinv_reap [OF A(1) s refl] unfolding prvCheckTasksWaitingTermination_def by blast+
  have "?D \<subseteq> owned k" by (auto simp: owned_def live_tasks_def dying_tasks_def)
  then have "system_inv (B, ?k)" using R(1,2) A(2) idle_ok_mono [OF A(3) R(3-5)] by (auto 0 4)
  moreover have "stays ?k (portYIELD ?k)" by simp
  ultimately show ?thesis using system_inv_stays [of B ?k "portYIELD ?k"] R(1) by (auto simp: prvIdleTask_round_def Let_def sinv_def)
qed

lemma inv_switch:
  assumes i: "system_inv (B, k)" and r: "xSchedulerRunning k"
  shows "system_inv (B, xPortPendSVHandler k)"
proof -
  obtain A where A: "sinv A k" "B \<subseteq> A - owned k" "idle_ok k" "kinv k" by (rule system_invE [OF i])
  let ?k = "k\<lparr>pendsv := False\<rparr>" and ?k' = "xPortPendSVHandler k"
  have k: "kinv ?k" using A(4) by simp
  show ?thesis
  proof (cases "uxSchedulerSuspended k = 0")
    case False
    then have e: "?k' = k\<lparr>pendsv := False, xYieldPending := True\<rparr>" by (simp add: xPortPendSVHandler_def vTaskSwitchContext_def)
    have "stays k ?k'" unfolding e by (rule stays_ctn) simp_all
    then show ?thesis using system_inv_stays [OF i, of ?k'] A(4) by (simp add: e)
  next
    case True
    from A(3) r obtain p where p: "ctn ?k (StateItem (xIdleTaskHandle k)) = Some (ReadyTasksLists p)"
      by (auto simp: idle_ok_def ready_tasks_def)
    have W: "kinv ?k'" "ctn ?k' = ctn k" "tcb ?k' = tcb k" "ctn k (StateItem (pxCurrentTCB ?k')) \<noteq> None"
      using vTaskSwitchContext_spec [OF k _ p] True by (simp_all add: xPortPendSVHandler_def)
    have H: "heap ?k' = heap k" "uxCurrentNumberOfTasks ?k' = uxCurrentNumberOfTasks k" "xIdleTaskHandle ?k' = xIdleTaskHandle k"
      "uxDeletedTasksWaitingCleanUp ?k' = uxDeletedTasksWaitingCleanUp k" "xSchedulerRunning ?k' = xSchedulerRunning k"
      by (auto simp: xPortPendSVHandler_def vTaskSwitchContext_def taskSELECT_HIGHEST_PRIORITY_TASK_def Let_def split: option.split)
    have S: "live_tasks ?k' = live_tasks k" "dying_tasks ?k' = dying_tasks k" "owned ?k' = owned k" "ready_tasks ?k' = ready_tasks k"
      by (simp_all add: live_tasks_def dying_tasks_def owned_def ready_tasks_def W)
    have "pxCurrentTCB ?k' \<in> live_tasks k" using W(4) by (simp add: live_tasks_def)
    moreover have "0 \<notin> live_tasks k" using A(1) by (auto simp: sinv_def task_memory_def)
    ultimately have "pxCurrentTCB ?k' \<noteq> 0" by metis
    then show ?thesis using A W(1) by (auto simp: sinv_def task_memory_def task_counts_def idle_ok_def S H W(3))
  qed
qed

text \<open>The remaining steps neither create nor delete a task.\<close>

lemma inv_tick: assumes i: "system_inv (B, k)" shows "system_inv (B, xPortSysTickHandler k)"
proof -
  obtain A where k: "kinv k" by (rule system_invE [OF i])
  let ?k = "snd (xTaskIncrementTick k)"
  have "kinv ?k"
  proof (cases "uxSchedulerSuspended k = 0")
    case True
    then show ?thesis using xTaskIncrementTick_spec [OF k] by (auto split: prod.splits)
  qed (use k in \<open>simp add: xTaskIncrementTick_def\<close>)
  then have "system_inv (B, ?k)" using system_inv_stays [OF i _ stays_tick [OF k]] ready_tick [OF k] by blast
  moreover have "stays ?k (portYIELD ?k)" by simp
  ultimately show ?thesis
    using system_inv_stays [of B ?k "portYIELD ?k"] \<open>kinv ?k\<close> by (auto simp: xPortSysTickHandler_def split: prod.splits)
qed

lemma inv_resume:
  assumes i: "system_inv (B, k)" and s: "uxSchedulerSuspended k > 0" shows "system_inv (B, snd (xTaskResumeAll k))"
proof -
  obtain A where A: "sinv A k" "kinv k" by (rule system_invE [OF i])
  have "uxCurrentNumberOfTasks k > 0 \<or> (\<forall>i. ctn k i \<noteq> Some PendingReadyList)"
  proof (cases "live_tasks k = {}")
    case True
    have "ctn k i \<noteq> Some PendingReadyList" for i
      using fitsD [OF kinvD(2) [OF kinv_kinvp [OF A(2)]], of i PendingReadyList] not_live_none [OF A(2)] True by (cases i) auto
    then show ?thesis by blast
  qed (use A(1) in \<open>auto simp: sinv_def task_counts_def card_gt_0_iff\<close>)
  from system_inv_stays [OF i kinv_resume [OF A(2) s this] stays_resume [OF A(2)]] ready_resume [OF A(2) s]
  show ?thesis by blast
qed

lemma event_list_fits: "event_list l \<Longrightarrow> item_fits (EventItem t) l \<and> l \<noteq> PendingReadyList"
  by (auto simp: event_list_def)

lemma kinv_places:
  assumes "kinv k" "may_block k" "event_list l" "n \<noteq> 0"
  shows "kinv (vTaskPlaceOnEventList l n k)" "kinv (vTaskPlaceOnUnorderedEventList l v n k)"
    "kinv (vTaskPlaceOnEventListRestricted l n b k)"
proof -
  have m: "cur_ready k" "ctn k (EventItem (pxCurrentTCB k)) = None" using assms(2) by (simp_all add: may_block_def)
  note f = event_list_fits [OF assms(3), of "pxCurrentTCB k", THEN conjunct1] event_list_fits [OF assms(3), THEN conjunct2]
  show "kinv (vTaskPlaceOnEventList l n k)"
    using kinv_place(1) [OF assms(1) m f assms(4)] by (simp add: vTaskPlaceOnEventList_def)
  show "kinv (vTaskPlaceOnUnorderedEventList l v n k)"
    by (rule kinv_vTaskPlaceOnUnorderedEventList [OF assms(1) m f assms(4)])
  have "(if b then portMAX_DELAY else n) \<noteq> 0" using assms(4) by (simp add: portMAX_DELAY_def)
  from kinv_place(2) [OF assms(1) m f this] show "kinv (vTaskPlaceOnEventListRestricted l n b k)"
    by (simp add: vTaskPlaceOnEventListRestricted_def Let_def)
qed

lemma kinv_notify_clear: "kinv k \<Longrightarrow> kinv (snd (xTaskNotifyStateClear t k))"
  by (auto simp: xTaskNotifyStateClear_def Let_def intro!: kinv_upd_tcb')

lemma ready_prio: "kinv k \<Longrightarrow> t \<in> ready_tasks k \<Longrightarrow> ctn k (StateItem t) = Some (ReadyTasksLists (prio k t))"
  using kinvD(7) [OF kinv_kinvp] by (auto simp: ready_tasks_def ready_ok_def)

lemma system_inv_calm:
  "system_inv (B, k) \<Longrightarrow> kinv k' \<Longrightarrow> stays k k' \<Longrightarrow> ready_tasks k \<subseteq> ready_tasks k' \<Longrightarrow> system_inv (B, k')"
  by (rule system_inv_stays) auto

lemma system_inv_block:
  assumes "system_inv (B, k)" "may_block k" "kinv k'" "stays k k'" "ready_tasks k - {pxCurrentTCB k} \<subseteq> ready_tasks k'"
  shows "system_inv (B, k')"
  by (rule system_inv_stays [OF assms(1,3,4), of "pxCurrentTCB k"]) (use assms(2,5) in \<open>auto simp: may_block_def\<close>)

lemma inv_delay:
  assumes i: "system_inv (B, k)" and b: "may_block k" and s: "uxSchedulerSuspended k = 0"
  shows "system_inv (B, vTaskDelay n k)"
proof -
  obtain A where A: "sinv A k" "kinv k" by (rule system_invE [OF i])
  have r: "cur_ready k" using b by (simp add: may_block_def)
  have "pxCurrentTCB k \<in> live_tasks k" using r by (simp add: cur_ready_def live_tasks_def)
  then have "uxCurrentNumberOfTasks k > 0" using A(1) by (auto simp: sinv_def task_counts_def card_gt_0_iff)
  from kinv_vTaskDelay [OF A(2) r this s] show ?thesis
    by (rule system_inv_block [OF i b _ stays_delay [OF A(2) r] ready_delay [OF A(2) r]])
qed

lemma system_inv_step:
  assumes i: "system_inv s" and st: "kstep s s'" shows "system_inv s'"
  using st
proof (cases rule: kstep.cases)
  case (suspend B k)
  note j = i [unfolded suspend(1)]
  note k = system_inv_kinv [OF j]
  have st: "stays k (vTaskSuspendAll k)" by (rule stays_ctn) simp_all
  show ?thesis unfolding suspend(2) by (rule system_inv_calm [OF j kinv_suspend [OF k] st]) simp
next
  case (place k l n B)
  note j = i [unfolded place(1)]
  note k = system_inv_kinv [OF j]
  have r: "cur_ready k" using place(3) by (simp add: may_block_def)
  show ?thesis unfolding place(2) by (rule system_inv_block [OF j place(3) kinv_places(1) [OF k place(3-5)] stays_place(1) [OF r k] ready_place(1) [OF r]])
next
  case (place_unordered k l n B v)
  note j = i [unfolded place_unordered(1)]
  note k = system_inv_kinv [OF j]
  have r: "cur_ready k" using place_unordered(3) by (simp add: may_block_def)
  show ?thesis unfolding place_unordered(2) by (rule system_inv_block [OF j place_unordered(3) kinv_places(2) [OF k place_unordered(3-5)] stays_place(2) [OF r k] ready_place(2) [OF r]])
next
  case (place_restricted k l n B b)
  note j = i [unfolded place_restricted(1)]
  note k = system_inv_kinv [OF j]
  have r: "cur_ready k" using place_restricted(3) by (simp add: may_block_def)
  show ?thesis unfolding place_restricted(2) by (rule system_inv_block [OF j place_restricted(3) kinv_places(3) [OF k place_restricted(3-5)] stays_place(3) [OF r k] ready_place(3) [OF r]])
next
  case (remove l k B)
  note j = i [unfolded remove(1)]
  note k = system_inv_kinv [OF j]
  obtain u where u: "ctn k u = Some l" using list_is_empty_iff [OF kinvD(1) [OF kinv_kinvp [OF k]]] remove(4) by blast
  note f = event_list_fits [OF remove(3), of 0, THEN conjunct1] event_list_fits [OF remove(3), THEN conjunct2]
  show ?thesis unfolding remove(2) by (rule system_inv_calm [OF j kinv_xTaskRemoveFromEventList [OF k u f] stays_remove_event [OF k u f(1)] ready_others(1)])
next
  case (remove_unordered k t B v)
  note j = i [unfolded remove_unordered(1)]
  note k = system_inv_kinv [OF j]
  show ?thesis unfolding remove_unordered(2) by (rule system_inv_calm [OF j kinv_vTaskRemoveFromUnorderedEventList [OF k remove_unordered(3)] stays_remove_unordered [OF k remove_unordered(3)] ready_others(2)])
next
  case (inherit h k B)
  note j = i [unfolded inherit(1)]
  note k = system_inv_kinv [OF j]
  have h: "h \<noteq> 0 \<Longrightarrow> ctn k (StateItem h) \<notin> {None, Some TasksWaitingTermination}"
    using inherit(3) by (auto simp: live_tasks_def dying_tasks_def)
  show ?thesis unfolding inherit(2) by (rule system_inv_calm [OF j kinv_xTaskPriorityInherit [OF k] stays_inherit(1) [OF h] ready_others(3)])
next
  case (disinherit h k B)
  note j = i [unfolded disinherit(1)]
  note k = system_inv_kinv [OF j]
  show ?thesis
  proof (cases "h = 0")
    case True
    then show ?thesis using j disinherit(2) by (simp add: xTaskPriorityDisinherit_def)
  next
    case False
    then have c: "ctn k (StateItem h) = Some (ReadyTasksLists (prio k h))" using ready_prio [OF k] disinherit(3) by blast
    then have h: "ctn k (StateItem h) \<notin> {None, Some TasksWaitingTermination}" by simp
    show ?thesis unfolding disinherit(2)
      by (rule system_inv_calm [OF j kinv_xTaskPriorityDisinherit [OF k c] stays_inherit(2) [OF h] ready_others(4)])
  qed
next
  case (disinherit_timeout h k w B)
  note j = i [unfolded disinherit_timeout(1)]
  note k = system_inv_kinv [OF j]
  have h: "h \<noteq> 0 \<Longrightarrow> ctn k (StateItem h) \<notin> {None, Some TasksWaitingTermination}"
    using disinherit_timeout(3) by (auto simp: live_tasks_def dying_tasks_def)
  have w: "w < 7" using disinherit_timeout(4) by (simp add: configMAX_PRIORITIES_def)
  have c: "\<exists>s. s \<noteq> h \<and> ctn k (StateItem s) = Some (ReadyTasksLists p)" if "ctn k (StateItem h) = Some (ReadyTasksLists p)" for p
    using disinherit_timeout(5) that by (auto simp: alone_ready_def)
  show ?thesis unfolding disinherit_timeout(2) by (rule system_inv_calm [OF j kinv_DisinheritAfterTimeout [OF k w c] stays_inherit(3) [OF h] ready_others(5)])
next
  case (notify k t B v a)
  note j = i [unfolded notify(1)]
  note k = system_inv_kinv [OF j]
  note n = mp [OF notify(3)]
  show ?thesis unfolding notify(2) by (rule system_inv_calm [OF j kinv_xTaskGenericNotify(1) [OF k n] stays_notify(1) [OF n] ready_others(6)])
next
  case (notify_isr k t B v a)
  note j = i [unfolded notify_isr(1)]
  note k = system_inv_kinv [OF j]
  note n = mp [OF notify_isr(3)]
  show ?thesis unfolding notify_isr(2) by (rule system_inv_calm [OF j kinv_xTaskGenericNotify(2) [OF k n] stays_notify(2) [OF n] ready_others(7)])
next
  case (give_isr k t B)
  note j = i [unfolded give_isr(1)]
  note k = system_inv_kinv [OF j]
  note n = mp [OF give_isr(3)]
  show ?thesis unfolding give_isr(2) by (rule system_inv_calm [OF j kinv_xTaskGenericNotify(3) [OF k n] stays_notify(3) [OF n] ready_others(8)])
next
  case (take_enter k B n)
  note j = i [unfolded take_enter(1)]
  note k = system_inv_kinv [OF j]
  have r: "cur_ready k" using take_enter(3) by (simp add: may_block_def)
  show ?thesis unfolding take_enter(2) by (rule system_inv_block [OF j take_enter(3) kinv_notify_enter(1) [OF k r] stays_notify_self(1) [OF k r] ready_notify_enter(1) [OF r]])
next
  case (wait_enter k B c n)
  note j = i [unfolded wait_enter(1)]
  note k = system_inv_kinv [OF j]
  have r: "cur_ready k" using wait_enter(3) by (simp add: may_block_def)
  show ?thesis unfolding wait_enter(2) by (rule system_inv_block [OF j wait_enter(3) kinv_notify_enter(2) [OF k r] stays_notify_self(2) [OF k r] ready_notify_enter(2) [OF r]])
next
  case (take_exit k B b)
  note j = i [unfolded take_exit(1)]
  note k = system_inv_kinv [OF j]
  show ?thesis unfolding take_exit(2) by (rule system_inv_calm [OF j kinv_notify_exit(1) [OF k] stays_notify_self(3) [OF k take_exit(3)] ready_others(9)])
next
  case (wait_exit k B c)
  note j = i [unfolded wait_exit(1)]
  note k = system_inv_kinv [OF j]
  show ?thesis unfolding wait_exit(2) by (rule system_inv_calm [OF j kinv_notify_exit(2) [OF k] stays_notify_self(4) [OF k wait_exit(3)] ready_others(10)])
next
  case (notify_clear B k t)
  note j = i [unfolded notify_clear(1)]
  note k = system_inv_kinv [OF j]
  have st: "stays k (snd (xTaskNotifyStateClear t k))"
    by (rule stays_ctn [OF keeps_notify(8)]) (simp add: xTaskNotifyStateClear_def Let_def)
  show ?thesis unfolding notify_clear(2) by (rule system_inv_calm [OF j kinv_notify_clear [OF k] st ready_others(11)])
qed (use i in \<open>auto simp only: intro: inv_malloc inv_free inv_create(1) inv_delete inv_start_idle inv_start_run inv_idle_round inv_tick
    inv_switch inv_resume inv_delay\<close>)

interpretation rtos: stepping system_init kstep system_inv
  by unfold_locales (auto intro: system_inv_boot system_inv_step)

end
