(* ===== verification/KernelProperties.thy ===== *)
theory KernelProperties
  imports KernelSystem
begin

text \<open>
  The properties of the scheduler: safety of every reachable state, the choice of the running task,
  exact delays across the wrap of the tick counter, time-outs, resumption, priority inheritance,
  notifications, creation and clean-up, each with a concrete instance.
\<close>

subsection \<open>Delays are exact, across the wrap of the tick counter\<close>

text \<open>The ticks a blocked task has left; the subtraction wraps as the counter does.\<close>

definition ticks_left :: "kernel \<Rightarrow> tid \<Rightarrow> nat option" where
  "ticks_left k t =
     (if ctn k (StateItem t) \<in> {Some DelayedTaskList1, Some DelayedTaskList2}
      then Some (unat (ival k (StateItem t) - xTickCount k)) else None)"

lemma word_diff_one: "(v :: tick) - x = 1 \<longleftrightarrow> v = x + 1"
  by (metis add.commute diff_add_cancel add_diff_cancel_right')

lemma due_iff:
  assumes k: "kinv k" and d: "ctn k (StateItem t) \<in> {Some DelayedTaskList1, Some DelayedTaskList2}"
  shows "due (advance_time k) t \<longleftrightarrow> ival k (StateItem t) = xTickCount k + 1" "ival k (StateItem t) \<noteq> xTickCount k"
proof -
  note K = kinvD [OF kinv_kinvp [OF k]]
  let ?v = "ival k (StateItem t)" and ?x = "xTickCount k"
  from d K(3) consider (now) "ctn k (StateItem t) = Some (pxDelayedTaskList k)" | (later) "ctn k (StateItem t) = Some (pxOverflowDelayedTaskList k)"
    by (auto simp: delay_lists_def)
  then have "(due (advance_time k) t \<longleftrightarrow> ?v = ?x + 1) \<and> ?v \<noteq> ?x"
  proof cases
    case now
    have v: "?x < ?v" using K(5) now by (auto simp: delay_values_def)
    then have nz: "?x + 1 \<noteq> 0" using tick_max by blast
    have a: "pxDelayedTaskList (advance_time k) = pxDelayedTaskList k" using nz by (simp add: advance_time_def Let_def)
    have "?x + 1 \<le> ?v" using tick_succ_le [OF nz v] .
    then show ?thesis using now v by (auto simp: due_def a)
  next
    case later
    have v: "?v < ?x" using K(5) later by (auto simp: delay_values_def)
    show ?thesis
    proof (cases "?x + 1 = 0")
      case True
      then have "pxDelayedTaskList (advance_time k) = pxOverflowDelayedTaskList k"
        by (simp add: advance_time_def Let_def taskSWITCH_DELAYED_LISTS_def prvResetNextTaskUnblockTime_def)
      then show ?thesis using later v True by (auto simp: due_def)
    next
      case False
      then have "pxDelayedTaskList (advance_time k) = pxDelayedTaskList k" by (simp add: advance_time_def Let_def)
      moreover have "?v < ?x + 1" by (rule tick_less_succ [OF False v])
      moreover have "pxDelayedTaskList k \<noteq> pxOverflowDelayedTaskList k" using K(3) by (auto simp: delay_lists_def)
      ultimately show ?thesis using later v by (auto simp: due_def)
    qed
  qed
  then show "due (advance_time k) t \<longleftrightarrow> ?v = ?x + 1" "?v \<noteq> ?x" by blast+
qed

lemma tick_counts_down:
  assumes k: "kinv k" and s: "uxSchedulerSuspended k = 0" and l: "ticks_left k t = Some n"
  defines "k' \<equiv> snd (xTaskIncrementTick k)"
  shows "kinv k' \<and> uxSchedulerSuspended k' = 0 \<and> tcb k' = tcb k \<and> 0 < n \<and>
    (if n = 1 then ctn k' (StateItem t) = Some (ReadyTasksLists (prio k t)) \<and> ctn k' (EventItem t) = None
     else ticks_left k' t = Some (n - 1) \<and> ctn k' (EventItem t) = ctn k (EventItem t))"
proof -
  have S: "kinv k'" "xTickCount k' = xTickCount k + 1" "ctn k' = wake_due (advance_time k)" "ival k' = ival k" "tcb k' = tcb k"
    "uxSchedulerSuspended k' = 0"
    using xTaskIncrementTick_spec [OF k s] by (simp_all add: k'_def split_beta)
  have d: "ctn k (StateItem t) \<in> {Some DelayedTaskList1, Some DelayedTaskList2}"
    and n: "n = unat (ival k (StateItem t) - xTickCount k)" using l by (auto simp: ticks_left_def split: if_splits)
  let ?d = "ival k (StateItem t) - xTickCount k"
  have nz: "?d \<noteq> 0" using due_iff(2) [OF k d] by simp
  have due: "due (advance_time k) t \<longleftrightarrow> n = 1"
    unfolding due_iff(1) [OF k d] word_diff_one [symmetric] n by (metis unsigned_1 word_unat_eq_iff)
  have "unat (ival k (StateItem t) - (xTickCount k + 1)) = n - 1"
    using nz unfolding n diff_diff_eq [symmetric] by (rule unat_minus_one)
  then have "ticks_left k' t = Some (n - 1)" if "n \<noteq> 1"
    using that d by (simp add: ticks_left_def S wake_due_def due)
  moreover have "0 < n" using nz n by (simp add: unat_gt_0)
  ultimately show ?thesis using S by (auto simp: wake_due_def due)
qed

definition ticks :: "nat \<Rightarrow> kernel \<Rightarrow> kernel" where
  "ticks m = (snd \<circ> xTaskIncrementTick) ^^ m"

lemma ticks_count_down:
  assumes "kinv k" "uxSchedulerSuspended k = 0" "ticks_left k t = Some n"
  shows "kinv (ticks m k) \<and> uxSchedulerSuspended (ticks m k) = 0 \<and> tcb (ticks m k) = tcb k \<and>
    (m < n \<longrightarrow> ticks_left (ticks m k) t = Some (n - m)) \<and>
    (m = n \<longrightarrow> ctn (ticks m k) (StateItem t) = Some (ReadyTasksLists (prio k t)))"
proof (induction m)
  case 0
  have "0 < n" using tick_counts_down [OF assms] by simp
  then show ?case using assms by (simp add: ticks_def)
next
  case (Suc m)
  let ?k = "ticks m k"
  have e: "ticks (Suc m) k = snd (xTaskIncrementTick ?k)" by (simp add: ticks_def)
  show ?case
  proof (cases "m < n")
    case True
    with Suc have l: "ticks_left ?k t = Some (n - m)" "kinv ?k" "uxSchedulerSuspended ?k = 0" "tcb ?k = tcb k" by auto
    from tick_counts_down [OF l(2,3,1)] True l(4) show ?thesis unfolding e by (auto split: if_splits)
  next
    case False
    then have "kinv ?k" "uxSchedulerSuspended ?k = 0" "tcb ?k = tcb k" using Suc by auto
    then show ?thesis using False xTaskIncrementTick_spec [of ?k] unfolding e by (auto simp: split_beta)
  qed
qed

lemma block_fields:
  assumes "ctn k (StateItem (pxCurrentTCB k)) = Some l"
  shows "ival (prvAddCurrentTaskToDelayedList n b k) = (ival k)(StateItem (pxCurrentTCB k) := xTickCount k + n)"
    "xTickCount (prvAddCurrentTaskToDelayedList n b k) = xTickCount k"
    "uxPendedTicks (prvAddCurrentTaskToDelayedList n b k) = uxPendedTicks k"
    "uxSchedulerSuspended (prvAddCurrentTaskToDelayedList n b k) = uxSchedulerSuspended k"
    "xYieldPending (prvAddCurrentTaskToDelayedList n b k) = xYieldPending k"
  using assms by (simp_all add: prvAddCurrentTaskToDelayedList_def list_remove_def Let_def list_insert_def set_item_value_def)

lemma ticks_left_block:
  assumes "cur_ready k" "delay_lists k"
  shows "ticks_left (prvAddCurrentTaskToDelayedList n b k) (pxCurrentTCB k) = Some (unat n)"
  using assms by (auto simp: ticks_left_def cur_ready_def ctn_block_current block_fields delay_lists_def split: if_splits)

text \<open>Resuming with nothing pending changes no list and no time.\<close>

lemma resume_idle:
  assumes "uxSchedulerSuspended k = 1" "list_is_empty PendingReadyList k" "uxPendedTicks k = 0"
  shows "ctn (snd (xTaskResumeAll k)) = ctn k" "ival (snd (xTaskResumeAll k)) = ival k" "xTickCount (snd (xTaskResumeAll k)) = xTickCount k"
    "tcb (snd (xTaskResumeAll k)) = tcb k" "uxSchedulerSuspended (snd (xTaskResumeAll k)) = 0"
proof -
  have e: "resume_pending n False (k\<lparr>uxSchedulerSuspended := 0\<rparr>) = (False, k\<lparr>uxSchedulerSuspended := 0\<rparr>)" for n
    using assms(2) by (subst resume_pending.simps) (simp add: list_is_empty_def)
  show "ctn (snd (xTaskResumeAll k)) = ctn k" "ival (snd (xTaskResumeAll k)) = ival k" "xTickCount (snd (xTaskResumeAll k)) = xTickCount k"
    "tcb (snd (xTaskResumeAll k)) = tcb k" "uxSchedulerSuspended (snd (xTaskResumeAll k)) = 0"
    using assms by (simp_all add: xTaskResumeAll_def Let_def e portYIELD_def)
qed

lemma vTaskDelay_blocks:
  assumes k: "kinv k" and r: "cur_ready k" and s: "uxSchedulerSuspended k = 0" and p: "uxPendedTicks k = 0"
    and n: "uxCurrentNumberOfTasks k > 0" and d: "d \<noteq> 0"
  shows "ticks_left (vTaskDelay d k) (pxCurrentTCB k) = Some (unat d)" "kinv (vTaskDelay d k)" "uxSchedulerSuspended (vTaskDelay d k) = 0"
    "tcb (vTaskDelay d k) = tcb k" "pendsv (vTaskDelay d k)"
proof -
  let ?s = "vTaskSuspendAll k" and ?k = "prvAddCurrentTaskToDelayedList d False (vTaskSuspendAll k)"
  have r': "cur_ready ?s" "ctn ?s (StateItem (pxCurrentTCB ?s)) = Some (ReadyTasksLists (cur_prio k))" "delay_lists ?s"
    using r kinvD(3) [OF kinv_kinvp [OF k]] by (simp_all add: cur_ready_def delay_lists_def) (simp add: vTaskSuspendAll_def)
  note B = block_fields [OF r'(2), of d False]
  have kb: "kinv ?k" using kinv_block_current [OF kinv_suspend [OF k]] r'(1) d by (simp add: cur_ready_def)
  have "ctn k i \<noteq> Some PendingReadyList" for i using k s by (simp add: kinv_def pend_ok_def)
  then have "ctn ?k i \<noteq> Some PendingReadyList" for i using r'(3) by (auto simp: ctn_block_current [OF r'(2)] delay_lists_def)
  then have e: "list_is_empty PendingReadyList ?k" using list_is_empty_iff [OF kinvD(1) [OF kinv_kinvp [OF kb]]] by blast
  have p': "uxPendedTicks ?k = 0" "uxSchedulerSuspended ?k = 1" using B p s by (simp_all add: vTaskSuspendAll_def)
  note R = resume_idle [OF p'(2) e p'(1)]
  obtain y k' where x: "xTaskResumeAll ?k = (y, k')" by fastforce
  have v: "vTaskDelay d k = (if y then k' else portYIELD k')" using d by (simp add: vTaskDelay_def x word_gt_0)
  have t: "tcb ?k = tcb k" using r'(2)
    by (simp add: prvAddCurrentTaskToDelayedList_def list_remove_def Let_def list_insert_def set_item_value_def)
  show "kinv (vTaskDelay d k)" by (rule kinv_vTaskDelay [OF k r n s])
  show "ticks_left (vTaskDelay d k) (pxCurrentTCB k) = Some (unat d)"
  proof -
    have "ticks_left (vTaskDelay d k) = ticks_left ?k"
      using R x by (intro ext) (simp add: v ticks_left_def portYIELD_def)
    then show ?thesis using ticks_left_block [OF r'(1,3), of d False] by simp
  qed
  show "uxSchedulerSuspended (vTaskDelay d k) = 0" "tcb (vTaskDelay d k) = tcb k" using R x t unfolding v by simp_all
  have "y \<longrightarrow> pendsv k'" using x by (auto simp: xTaskResumeAll_def Let_def portYIELD_def split: if_splits prod.splits)
  then show "pendsv (vTaskDelay d k)" unfolding v by (simp add: portYIELD_def)
qed

subsection \<open>A concrete kernel state\<close>

text \<open>
  Two ticks before the counter wraps: the idle task 1000 and the running task 2000 of priority 2 are
  ready, task 3000 of priority 3 wakes at the next tick, task 4000 of priority 1 waits on a queue
  until tick 2 after the wrap.
\<close>

definition demo_tcb :: "nat \<Rightarrow> tcb_t" where
  "demo_tcb p = \<lparr>uxPriority = p, pxStack = 0, pcTaskName = [], uxBasePriority = p, uxMutexesHeld = 0, ulNotifiedValue = 0,
     ucNotifyState = taskNOT_WAITING_NOTIFICATION\<rparr>"

definition demo_kernel :: kernel where
  "demo_kernel = (boot_kernel (prvHeapInit demo_heap0))\<lparr>
     ival := (\<lambda>_. 0)(StateItem 3000 := 0xFFFFFFFF, StateItem 4000 := 2),
     ctn := (\<lambda>_. None)(StateItem 1000 \<mapsto> ReadyTasksLists 0, StateItem 2000 \<mapsto> ReadyTasksLists 2,
       StateItem 3000 \<mapsto> DelayedTaskList1, StateItem 4000 \<mapsto> DelayedTaskList2, EventItem 4000 \<mapsto> TasksWaitingToReceive 7),
     lists := (\<lambda>_. xl_empty)(ReadyTasksLists 0 := \<lparr>xl_items = [StateItem 1000], xl_index = None\<rparr>,
       ReadyTasksLists 2 := \<lparr>xl_items = [StateItem 2000], xl_index = None\<rparr>,
       DelayedTaskList1 := \<lparr>xl_items = [StateItem 3000], xl_index = None\<rparr>,
       DelayedTaskList2 := \<lparr>xl_items = [StateItem 4000], xl_index = None\<rparr>,
       TasksWaitingToReceive 7 := \<lparr>xl_items = [EventItem 4000], xl_index = None\<rparr>),
     tcb := (\<lambda>_. demo_tcb 0)(2000 := demo_tcb 2, 3000 := demo_tcb 3, 4000 := demo_tcb 1),
     pxCurrentTCB := 2000, uxCurrentNumberOfTasks := 4, xTickCount := 0xFFFFFFFE, uxTopReadyPriority := 5,
     xSchedulerRunning := True, xNextTaskUnblockTime := 0xFFFFFFFF, xIdleTaskHandle := 1000\<rparr>"

lemma demo_fields [simp]:
  "ival demo_kernel = (\<lambda>_. 0)(StateItem 3000 := 0xFFFFFFFF, StateItem 4000 := 2)"
  "ctn demo_kernel = (\<lambda>_. None)(StateItem 1000 \<mapsto> ReadyTasksLists 0, StateItem 2000 \<mapsto> ReadyTasksLists 2,
       StateItem 3000 \<mapsto> DelayedTaskList1, StateItem 4000 \<mapsto> DelayedTaskList2, EventItem 4000 \<mapsto> TasksWaitingToReceive 7)"
  "tcb demo_kernel = (\<lambda>_. demo_tcb 0)(2000 := demo_tcb 2, 3000 := demo_tcb 3, 4000 := demo_tcb 1)"
  "pxCurrentTCB demo_kernel = 2000" "xTickCount demo_kernel = 0xFFFFFFFE" "uxTopReadyPriority demo_kernel = 5"
  "xNextTaskUnblockTime demo_kernel = 0xFFFFFFFF" "uxSchedulerSuspended demo_kernel = 0" "\<not> kfault demo_kernel"
  "pxDelayedTaskList demo_kernel = DelayedTaskList1" "pxOverflowDelayedTaskList demo_kernel = DelayedTaskList2"
  "uxPendedTicks demo_kernel = 0" "uxCurrentNumberOfTasks demo_kernel = 4" "xNumOfOverflows demo_kernel = 0"
  "\<not> xYieldPending demo_kernel"
  by (simp_all add: demo_kernel_def boot_kernel_def)

lemma demo_lists [simp]:
  "lists demo_kernel = (\<lambda>_. xl_empty)(ReadyTasksLists 0 := \<lparr>xl_items = [StateItem 1000], xl_index = None\<rparr>,
       ReadyTasksLists 2 := \<lparr>xl_items = [StateItem 2000], xl_index = None\<rparr>,
       DelayedTaskList1 := \<lparr>xl_items = [StateItem 3000], xl_index = None\<rparr>,
       DelayedTaskList2 := \<lparr>xl_items = [StateItem 4000], xl_index = None\<rparr>,
       TasksWaitingToReceive 7 := \<lparr>xl_items = [EventItem 4000], xl_index = None\<rparr>)"
  by (simp add: demo_kernel_def)

lemma demo_tcb_fields [simp]:
  "uxPriority (demo_tcb p) = p" "uxBasePriority (demo_tcb p) = p" "uxMutexesHeld (demo_tcb p) = 0"
  "ulNotifiedValue (demo_tcb p) = 0" "ucNotifyState (demo_tcb p) = taskNOT_WAITING_NOTIFICATION"
  by (simp_all add: demo_tcb_def)

lemma bit_5: "bit (5 :: u32) p \<longleftrightarrow> p = 0 \<or> p = 2"
proof -
  have e: "(5 :: u32) = portRECORD_READY_PRIORITY 0 (portRECORD_READY_PRIORITY 2 0)" by (simp add: portRECORD_READY_PRIORITY_def)
  show ?thesis unfolding e by (auto simp: bit_record)
qed

lemma demo_kinv: "kinv demo_kernel"
proof -
  have "lists_wf demo_kernel" by (auto simp: lists_wf_def xl_wf_def xl_empty_def)
  moreover have "fits demo_kernel" by (auto simp: fits_def split: if_splits)
  moreover have "sorted_delays demo_kernel" "delay_lists demo_kernel" by (simp_all add: sorted_delays_def delay_lists_def)
  moreover have "delay_values (\<lambda>v. xTickCount demo_kernel < v) demo_kernel" by (auto simp: delay_values_def)
  moreover have "prios_ok demo_kernel" by (auto simp: prios_ok_def)
  moreover have "ready_ok demo_kernel" unfolding ready_ok_def demo_fields bit_5 by (auto intro: exI [of _ 2000])
  moreover have "waits_ok demo_kernel" by (auto simp: waits_ok_def)
  ultimately show ?thesis by (auto simp: kinv_def kinvp_def pend_ok_def)
qed

lemma demo_ready [simp]: "cur_ready demo_kernel"
  by (simp add: cur_ready_def)

subsection \<open>Properties of the scheduler\<close>



text \<open>A context switch with the scheduler not suspended runs a task of the highest priority that has
  a ready task, and keeps the kernel's invariant, every list's items and every control block.\<close>

theorem vTaskSwitchContext_runs_highest:
  assumes "kinv k" "uxSchedulerSuspended k = 0" "t \<in> ready_tasks k"
  shows "let k' = vTaskSwitchContext k; c = pxCurrentTCB k'
    in kinv k' \<and> cur_ready k' \<and> (\<forall>u \<in> ready_tasks k. prio k u \<le> prio k c) \<and> tcb k' = tcb k \<and>
       (\<forall>l. xl_items (lists k' l) = xl_items (lists k l))"
proof -
  obtain p where p: "ctn k (StateItem t) = Some (ReadyTasksLists p)" using assms(3) by (auto simp: ready_tasks_def)
  note S = vTaskSwitchContext_spec [OF assms(1,2) p]
  have "prio k u \<le> prio k (pxCurrentTCB (vTaskSwitchContext k))" if "u \<in> ready_tasks k" for u
    using S ready_prio [OF assms(1) that] by blast
  then show ?thesis using S by (simp add: cur_ready_def Let_def)
qed

theorem vTaskSwitchContext_runs_highest_witness:
  "let k' = vTaskSwitchContext demo_kernel
   in cur_ready k' \<and> pxCurrentTCB k' = 2000 \<and> prio demo_kernel 1000 \<le> prio demo_kernel (pxCurrentTCB k')"
proof -
  have r: "ready_tasks demo_kernel = {1000, 2000}" by (auto simp: ready_tasks_def)
  then have "1000 \<in> ready_tasks demo_kernel" by simp
  note S = vTaskSwitchContext_runs_highest [OF demo_kinv _ this, unfolded Let_def r]
  have c: "pxCurrentTCB (vTaskSwitchContext demo_kernel) \<in> ready_tasks demo_kernel"
    using S vTaskSwitchContext_spec [OF demo_kinv, of 1000 0] by (auto simp: ready_tasks_def)
  show ?thesis using S c unfolding r Let_def by auto
qed

text \<open>C5: A task that delays itself for \<open>d\<close> ticks stays blocked through every earlier tick and is on its
  ready list after exactly \<open>d\<close> ticks, whether or not the 32-bit tick counter wraps meanwhile; a
  context switch is requested at once.\<close>

theorem vTaskDelay_exact:
  assumes "kinv k" "cur_ready k" "uxSchedulerSuspended k = 0" "uxPendedTicks k = 0" "uxCurrentNumberOfTasks k > 0" "d \<noteq> 0"
  shows "pendsv (vTaskDelay d k) \<and>
    (\<forall>m < unat d. ticks_left (ticks m (vTaskDelay d k)) (pxCurrentTCB k) = Some (unat d - m)) \<and>
    ctn (ticks (unat d) (vTaskDelay d k)) (StateItem (pxCurrentTCB k)) = Some (ReadyTasksLists (cur_prio k))"
proof -
  note B = vTaskDelay_blocks [OF assms]
  note T = ticks_count_down [OF B(2,3,1)]
  show ?thesis using T T [of "unat d"] B(4,5) by auto
qed

theorem vTaskDelay_exact_witness:
  "ticks_left (ticks 4 (vTaskDelay 5 demo_kernel)) 2000 = Some 1 \<and>
   ctn (ticks 5 (vTaskDelay 5 demo_kernel)) (StateItem 2000) = Some (ReadyTasksLists 2)"
  using vTaskDelay_exact [OF demo_kinv, of 5] by simp

text \<open>C6: One tick with the scheduler not suspended wakes exactly the blocked tasks with one tick left,
  taking them off the event list they wait on; every other blocked task has one tick less to wait, and
  the tick asks for a context switch if a woken task is not below the running one, if the running task
  shares its priority, or if a switch was already owed.\<close>

theorem xTaskIncrementTick_wakes_due:
  assumes "kinv k" "uxSchedulerSuspended k = 0"
  shows "let k' = snd (xTaskIncrementTick k)
    in kinv k' \<and> xTickCount k' = xTickCount k + 1 \<and>
       (\<forall>t n. ticks_left k t = Some n \<longrightarrow>
          (if n = 1 then ctn k' (StateItem t) = Some (ReadyTasksLists (prio k t)) \<and> ctn k' (EventItem t) = None
           else ticks_left k' t = Some (n - 1) \<and> ctn k' (EventItem t) = ctn k (EventItem t))) \<and>
       (\<forall>t. ticks_left k t = None \<longrightarrow> ctn k' (StateItem t) = ctn k (StateItem t)) \<and>
       (fst (xTaskIncrementTick k) \<longleftrightarrow> (\<exists>t. ticks_left k t = Some 1 \<and> cur_prio k \<le> prio k t) \<or>
          list_length (ReadyTasksLists (cur_prio k)) k' > 1 \<or> xYieldPending k)"
proof -
  let ?k' = "snd (xTaskIncrementTick k)"
  have dl: "delay_lists (advance_time k)" by (rule kinvD(3) [OF kinv_advance_time [OF assms(1)]])
  have S: "kinv ?k'" "xTickCount ?k' = xTickCount k + 1" "ctn ?k' = wake_due (advance_time k)"
    "fst (xTaskIncrementTick k) \<longleftrightarrow> (\<exists>t. due (advance_time k) t \<and> cur_prio k \<le> prio k t) \<or>
       list_length (ReadyTasksLists (cur_prio k)) ?k' > 1 \<or> xYieldPending k"
    using xTaskIncrementTick_spec [OF assms] by (simp_all add: split_beta)
  have dd: "due (advance_time k) t \<Longrightarrow> ctn k (StateItem t) \<in> {Some DelayedTaskList1, Some DelayedTaskList2}" for t
    using dl by (auto simp: due_def delay_lists_def)
  have d1: "due (advance_time k) t \<longleftrightarrow> ticks_left k t = Some 1" for t
  proof (cases "ctn k (StateItem t) \<in> {Some DelayedTaskList1, Some DelayedTaskList2}")
    case True
    have "unat (ival k (StateItem t) - xTickCount k) = 1 \<longleftrightarrow> ival k (StateItem t) = xTickCount k + 1"
      unfolding word_diff_one [symmetric] by (metis unsigned_1 word_unat_eq_iff)
    then show ?thesis using due_iff(1) [OF assms(1) True] True by (simp add: ticks_left_def)
  qed (use dd in \<open>auto simp: ticks_left_def\<close>)
  have "ctn ?k' (StateItem t) = ctn k (StateItem t)" if "ticks_left k t = None" for t
    using that by (simp add: S wake_due_def d1)
  then show ?thesis using tick_counts_down [OF assms] S(1,2) S(4) [unfolded d1] by (auto simp: Let_def)
qed

theorem xTaskIncrementTick_wakes_due_witness:
  "let k' = snd (xTaskIncrementTick demo_kernel)
   in ctn k' (StateItem 3000) = Some (ReadyTasksLists 3) \<and> ticks_left k' 4000 = Some 3 \<and> fst (xTaskIncrementTick demo_kernel)"
proof -
  have t: "ticks_left demo_kernel 3000 = Some 1" "ticks_left demo_kernel 4000 = Some 4" by (simp_all add: ticks_left_def)
  note S = xTaskIncrementTick_wakes_due [OF demo_kinv demo_fields(8), unfolded Let_def, THEN conjunct2, THEN conjunct2]
  have "fst (xTaskIncrementTick demo_kernel)"
    unfolding S [THEN conjunct2, THEN conjunct2] by (rule disjI1, rule exI [of _ 3000]) (use t(1) in simp)
  then show ?thesis
    using S [THEN conjunct1, rule_format, OF t(1)] S [THEN conjunct1, rule_format, OF t(2)] by (simp add: Let_def)
qed

text \<open>Resuming the scheduler makes up for everything that was put off: the tick counter advances by
  the pended ticks, no tick stays pended, every task readied meanwhile is on the ready list of its
  priority, no ready task is lost, and a yield is reported and requested when such a task is not below
  the running one.\<close>

theorem xTaskResumeAll_catches_up:
  assumes "kinv k" "uxSchedulerSuspended k = 1" "uxCurrentNumberOfTasks k > 0"
  shows "let (y, k') = xTaskResumeAll k
    in kinv k' \<and> uxSchedulerSuspended k' = 0 \<and> uxPendedTicks k' = 0 \<and>
       xTickCount k' = xTickCount k + of_nat (uxPendedTicks k) \<and>
       (\<forall>t. ctn k (EventItem t) = Some PendingReadyList \<longrightarrow> ctn k' (StateItem t) = Some (ReadyTasksLists (prio k t))) \<and>
       ready_tasks k \<subseteq> ready_tasks k' \<and> (y \<longrightarrow> pendsv k') \<and>
       ((\<exists>t. ctn k (EventItem t) = Some PendingReadyList \<and> cur_prio k \<le> prio k t) \<longrightarrow> y)"
proof -
  obtain y k' where x: "xTaskResumeAll k = (y, k')" by fastforce
  have "ready_tasks k \<subseteq> ready_tasks k'" using ready_resume [OF assms(1)] assms(2) by (simp add: x)
  then show ?thesis using xTaskResumeAll_spec [OF assms] unfolding x Let_def prod.case by blast
qed

theorem xTaskResumeAll_catches_up_witness:
  "let (y, k') = xTaskResumeAll (demo_kernel\<lparr>uxSchedulerSuspended := 1, uxPendedTicks := 3\<rparr>)
   in kinv k' \<and> uxPendedTicks k' = 0 \<and> xTickCount k' = 1"
proof -
  have "kinv (demo_kernel\<lparr>uxSchedulerSuspended := 1, uxPendedTicks := 3\<rparr>)"
    using kinv_suspend [OF demo_kinv] by (simp add: vTaskSuspendAll_def)
  from xTaskResumeAll_catches_up [OF this] show ?thesis by (auto simp: Let_def split: prod.splits)
qed

subsection \<open>Time-outs\<close>

text \<open>The kernel's clock shows the time \<open>T\<close>, counted without bound since the start.\<close>

definition clock :: "kernel \<Rightarrow> nat \<Rightarrow> bool" where
  "clock k T \<longleftrightarrow> xTickCount k = of_nat T \<and> xNumOfOverflows k = of_nat (T div 2 ^ 32)"

definition timeout_at :: "nat \<Rightarrow> TimeOut_t" where
  "timeout_at T = \<lparr>xOverflowCount = of_nat (T div 2 ^ 32), xTimeOnEntering = of_nat T\<rparr>"

lemma set_timeout_at: "clock k T \<Longrightarrow> vTaskInternalSetTimeOutState k = timeout_at T"
  by (simp add: clock_def timeout_at_def vTaskInternalSetTimeOutState_def)

lemma wrapped_iff:
  fixes T T0 :: nat
  assumes "T0 \<le> T" "T - T0 \<le> 2 ^ 32"
  shows "(of_nat (T div 2 ^ 32) :: u32) \<noteq> of_nat (T0 div 2 ^ 32) \<and> (of_nat T :: u32) \<ge> of_nat T0 \<longleftrightarrow> T - T0 = 2 ^ 32"
proof -
  let ?M = "2 ^ 32 :: nat"
  define d r d0 r0 where "d = T div ?M" "r = T mod ?M" "d0 = T0 div ?M" "r0 = T0 mod ?M"
  have T: "T = d * ?M + r" "T0 = d0 * ?M + r0" and r: "r < ?M" "r0 < ?M"
    by (simp_all add: d_r_d0_r0_def)
  have le: "(of_nat T :: u32) \<ge> of_nat T0 \<longleftrightarrow> r0 \<le> r"
    by (simp add: word_le_nat_alt unsigned_of_nat take_bit_eq_mod d_r_d0_r0_def)
  have "d0 \<le> d" using div_le_mono [OF assms(1), of ?M] by (simp add: d_r_d0_r0_def)
  moreover have "d \<le> (T0 + ?M) div ?M" using div_le_mono [of T "T0 + ?M" ?M] assms by (simp add: d_r_d0_r0_def)
  then have "d \<le> Suc d0" by (simp add: d_r_d0_r0_def)
  ultimately have "d = d0 \<or> d = Suc d0" by linarith
  then show ?thesis
  proof
    assume e: "d = d0"
    then have "T - T0 < ?M" using T r by simp
    then show ?thesis using e by (simp add: d_r_d0_r0_def)
  next
    assume e: "d = Suc d0"
    have ne: "(of_nat d :: u32) \<noteq> of_nat d0" unfolding e by simp
    have "T - T0 = ?M \<longleftrightarrow> r0 \<le> r" using assms T r e by auto
    then show ?thesis using ne le unfolding d_r_d0_r0_def by blast
  qed
qed

text \<open>C7: The time-out check is exact in unbounded time although tick and overflow counter are 32-bit and
  wrap: for a wait that started at \<open>T0\<close>, at most \<open>2 ^ 32\<close> ticks ago, it reports a time-out exactly when
  the wait is over, and otherwise restarts the wait now with what is left, so the deadline never moves.\<close>

theorem xTaskCheckForTimeOut_exact:
  assumes "clock k T" "T0 \<le> T" "T - T0 \<le> 2 ^ 32"
  shows "case xTaskCheckForTimeOut (timeout_at T0) w k of (r, to, w') \<Rightarrow>
    (r \<longleftrightarrow> T0 + unat w \<le> T) \<and> (\<not> r \<longrightarrow> to = timeout_at T \<and> T + unat w' = T0 + unat w)"
proof -
  let ?e = "xTickCount k - xTimeOnEntering (timeout_at T0)"
  have wl: "unat w < 2 ^ 32" using unsigned_less [of w] by simp
  have c: "xNumOfOverflows k \<noteq> xOverflowCount (timeout_at T0) \<and> xTickCount k \<ge> xTimeOnEntering (timeout_at T0) \<longleftrightarrow> T - T0 = 2 ^ 32"
    using wrapped_iff [OF assms(2,3)] assms(1) by (simp add: clock_def timeout_at_def)
  have e: "unat ?e = T - T0" if "T - T0 \<noteq> 2 ^ 32"
  proof -
    have "?e = of_nat (T - T0)" using assms(1,2) by (simp add: clock_def timeout_at_def of_nat_diff)
    then show ?thesis using that assms(3) by (simp add: unat_of_nat32)
  qed
  show ?thesis
  proof (cases "T - T0 = 2 ^ 32")
    case True
    then show ?thesis using wl assms(2) c by (simp add: xTaskCheckForTimeOut_def Let_def)
  next
    case False
    note E = e [OF False]
    have lt: "?e < w \<longleftrightarrow> T - T0 < unat w" by (simp add: word_less_nat_alt E)
    have sub: "unat (w - ?e) = unat w - (T - T0)" if "T - T0 < unat w"
      using that E by (simp add: unat_sub word_le_nat_alt)
    show ?thesis
    proof (cases "T - T0 < unat w")
      case True
      then have x: "xTaskCheckForTimeOut (timeout_at T0) w k = (False, timeout_at T, w - ?e)"
        using lt c False set_timeout_at [OF assms(1)] by (simp add: xTaskCheckForTimeOut_def Let_def)
      show ?thesis unfolding x prod.case using True assms(2) sub [OF True] by simp
    next
      case nlt: False
      then have x: "xTaskCheckForTimeOut (timeout_at T0) w k = (True, timeout_at T0, 0)"
        using lt c False by (auto simp: xTaskCheckForTimeOut_def Let_def)
      show ?thesis unfolding x prod.case using nlt assms(2) by simp
    qed
  qed
qed

theorem xTaskCheckForTimeOut_exact_witness:
  "case xTaskCheckForTimeOut (timeout_at 4294967200) 200 (demo_kernel\<lparr>xTickCount := 4, xNumOfOverflows := 1\<rparr>) of
     (r, to, w') \<Rightarrow> \<not> r \<and> to = timeout_at 4294967300 \<and> unat w' = 100"
proof -
  have "clock (demo_kernel\<lparr>xTickCount := 4, xNumOfOverflows := 1\<rparr>) 4294967300" by (simp add: clock_def)
  from xTaskCheckForTimeOut_exact [OF this, of 4294967200 200] show ?thesis by (auto split: prod.splits)
qed

subsection \<open>Priority inheritance\<close>

lemma inherit_tcb:
  assumes "h \<noteq> 0"
  shows "tcb (snd (xTaskPriorityInherit h k)) = (tcb k)(h := (tcb k h)\<lparr>uxPriority := max (prio k h) (cur_prio k)\<rparr>)"
    "fst (xTaskPriorityInherit h k) \<longleftrightarrow> prio k h < cur_prio k \<or> uxBasePriority (tcb k h) < cur_prio k"
proof -
  have i: "tcb k h = (tcb k h)\<lparr>uxPriority := prio k h\<rparr>" by simp
  show "tcb (snd (xTaskPriorityInherit h k)) = (tcb k)(h := (tcb k h)\<lparr>uxPriority := max (prio k h) (cur_prio k)\<rparr>)"
    using assms by (auto simp: xTaskPriorityInherit_def Let_def split_beta fun_eq_iff max_def)
  show "fst (xTaskPriorityInherit h k) \<longleftrightarrow> prio k h < cur_prio k \<or> uxBasePriority (tcb k h) < cur_prio k"
    using assms by (auto simp: xTaskPriorityInherit_def Let_def split_beta)
qed

text \<open>A task that blocks on a mutex lends its priority: the holder runs at the higher of the two
  priorities from then on, on the ready list of that priority when it is ready, and no other task
  changes; the answer tells whether the holder's own priority is the lower one.\<close>

theorem xTaskPriorityInherit_raises:
  assumes "kinv k" "h \<noteq> 0"
  shows "let (r, k') = xTaskPriorityInherit h k
    in kinv k' \<and> prio k' h = max (prio k h) (cur_prio k) \<and> uxBasePriority (tcb k' h) = uxBasePriority (tcb k h) \<and>
       (\<forall>u. u \<noteq> h \<longrightarrow> tcb k' u = tcb k u \<and> ctn k' (StateItem u) = ctn k (StateItem u)) \<and>
       (h \<in> ready_tasks k \<longrightarrow> ctn k' (StateItem h) = Some (ReadyTasksLists (max (prio k h) (cur_prio k)))) \<and>
       (r \<longleftrightarrow> prio k h < cur_prio k \<or> uxBasePriority (tcb k h) < cur_prio k)"
proof -
  obtain r k' where x: "xTaskPriorityInherit h k = (r, k')" by fastforce
  have k': "kinv k'" using kinv_xTaskPriorityInherit [OF assms(1), of h] by (simp add: x)
  have c: "u \<noteq> h \<Longrightarrow> ctn k' (StateItem u) = ctn k (StateItem u)" for u
    using x by (auto simp: xTaskPriorityInherit_def Let_def split_beta split: if_splits)
  have "h \<in> ready_tasks k \<Longrightarrow> h \<in> ready_tasks k'" using ready_others(3) [of k h] by (auto simp: x)
  then have "h \<in> ready_tasks k \<Longrightarrow> ctn k' (StateItem h) = Some (ReadyTasksLists (prio k' h))" using ready_prio [OF k'] by blast
  then show ?thesis using k' c inherit_tcb [OF assms(2), of k] by (simp add: x)
qed

theorem xTaskPriorityInherit_raises_witness:
  "let (r, k') = xTaskPriorityInherit 1000 demo_kernel
   in kinv k' \<and> prio k' 1000 = 2 \<and> ctn k' (StateItem 1000) = Some (ReadyTasksLists 2) \<and> r"
  using xTaskPriorityInherit_raises [OF demo_kinv, of 1000] by (auto simp: Let_def ready_tasks_def split: prod.splits)

text \<open>Giving back a mutex: while the holder has others it keeps its priority; with the last one it
  falls back to its own priority and moves to that ready list, and the answer asks for a yield exactly
  when its priority changed.\<close>

theorem xTaskPriorityDisinherit_restores:
  assumes "kinv k" "h \<noteq> 0" "h \<in> ready_tasks k"
  shows "let (r, k') = xTaskPriorityDisinherit h k; last = (uxMutexesHeld (tcb k h) = 1)
    in kinv k' \<and> uxMutexesHeld (tcb k' h) = uxMutexesHeld (tcb k h) - 1 \<and>
       prio k' h = (if last then uxBasePriority (tcb k h) else prio k h) \<and>
       ctn k' (StateItem h) = Some (ReadyTasksLists (prio k' h)) \<and>
       (r \<longleftrightarrow> last \<and> prio k h \<noteq> uxBasePriority (tcb k h))"
proof -
  obtain r k' where x: "xTaskPriorityDisinherit h k = (r, k')" by fastforce
  have c: "ctn k (StateItem h) = Some (ReadyTasksLists (prio k h))" by (rule ready_prio [OF assms(1,3)])
  have k': "kinv k'" using kinv_xTaskPriorityDisinherit [OF assms(1) c] by (simp add: x)
  have "h \<in> ready_tasks k'" using ready_others(4) [of k h] assms(3) by (auto simp: x)
  then have "ctn k' (StateItem h) = Some (ReadyTasksLists (prio k' h))" by (rule ready_prio [OF k'])
  moreover have "uxMutexesHeld (tcb k h) - 1 = 0 \<longleftrightarrow> uxMutexesHeld (tcb k h) = 1" by (metis diff_self eq_iff_diff_eq_0)
  then have "uxMutexesHeld (tcb k' h) = uxMutexesHeld (tcb k h) - 1"
    "prio k' h = (if uxMutexesHeld (tcb k h) = 1 then uxBasePriority (tcb k h) else prio k h)"
    "r \<longleftrightarrow> uxMutexesHeld (tcb k h) = 1 \<and> prio k h \<noteq> uxBasePriority (tcb k h)"
    using x assms(2) by (auto simp: xTaskPriorityDisinherit_def Let_def split_beta split: if_splits)
  ultimately show ?thesis using k' by (simp add: x Let_def)
qed

definition demo_holder :: kernel where
  "demo_holder = snd (xTaskPriorityInherit 1000 (upd_tcb 1000 (\<lambda>b. b\<lparr>uxMutexesHeld := 1\<rparr>) demo_kernel))"

theorem xTaskPriorityDisinherit_restores_witness:
  "let (r, k') = xTaskPriorityDisinherit 1000 demo_holder
   in kinv k' \<and> prio demo_holder 1000 = 2 \<and> prio k' 1000 = 0 \<and> ctn k' (StateItem 1000) = Some (ReadyTasksLists 0) \<and> r"
proof -
  let ?k = "upd_tcb 1000 (\<lambda>b. b\<lparr>uxMutexesHeld := 1\<rparr>) demo_kernel"
  have u: "kinv ?k" by (rule kinv_upd_tcb' [OF demo_kinv]) simp_all
  have k: "kinv demo_holder" unfolding demo_holder_def by (rule kinv_xTaskPriorityInherit [OF u])
  have t: "tcb demo_holder 1000 = (demo_tcb 0)\<lparr>uxMutexesHeld := 1, uxPriority := 2\<rparr>"
    unfolding demo_holder_def by (subst inherit_tcb) simp_all
  have "1000 \<in> ready_tasks ?k" by (simp add: ready_tasks_def)
  then have r: "1000 \<in> ready_tasks demo_holder" using ready_others(3) unfolding demo_holder_def by blast
  from xTaskPriorityDisinherit_restores [OF k _ r] t show ?thesis by (auto simp: Let_def split: prod.splits)
qed


text \<open>Task 2000, of priority 1, holds a mutex at the inherited priority 2 and is alone on that ready list.\<close>

definition demo_timeout :: kernel where
  "demo_timeout = (upd_tcb 2000 (\<lambda>b. b\<lparr>uxBasePriority := 1, uxMutexesHeld := 1\<rparr>) demo_kernel)"


subsection \<open>Notifications\<close>

text \<open>C9: A notification sent to a task that waits for one reaches it: the sender learns the previous value,
  the task becomes ready, and when it runs next its wait returns success with the value the action
  produced, clears the bits it asked to clear, and leaves no notification pending.\<close>

theorem notify_reaches_waiter:
  assumes "kinv k" "notifiable k t" "ucNotifyState (tcb k t) = taskWAITING_NOTIFICATION"
    and "pxCurrentTCB k' = t" "tcb k' t = tcb (snd (xTaskGenericNotify t v a k)) t"
  shows "let old = ulNotifiedValue (tcb k t);
             new = (case a of eSetBits \<Rightarrow> old OR v | eIncrement \<Rightarrow> old + 1 | eNoAction \<Rightarrow> old | _ \<Rightarrow> v);
             ((r, got), k'') = xTaskNotifyWait_exit c k'
    in fst (xTaskGenericNotify t v a k) = (True, old) \<and> kinv (snd (xTaskGenericNotify t v a k)) \<and>
       t \<in> ready_tasks (snd (xTaskGenericNotify t v a k)) \<and>
       r \<and> got = new \<and> ulNotifiedValue (tcb k'' t) = new AND NOT c \<and> ucNotifyState (tcb k'' t) = taskNOT_WAITING_NOTIFICATION"
proof -
  define new where "new = (case a of eSetBits \<Rightarrow> ulNotifiedValue (tcb k t) OR v | eIncrement \<Rightarrow> ulNotifiedValue (tcb k t) + 1
     | eNoAction \<Rightarrow> ulNotifiedValue (tcb k t) | _ \<Rightarrow> v)"
  have n: "notify_action a v taskWAITING_NOTIFICATION (ulNotifiedValue (tcb k t)) = (True, new)"
    by (cases a) (simp_all add: notify_action_def new_def)
  have S: "tcb (snd (xTaskGenericNotify t v a k)) t = (tcb k t)\<lparr>ucNotifyState := taskNOTIFICATION_RECEIVED, ulNotifiedValue := new\<rparr>"
    "fst (xTaskGenericNotify t v a k) = (True, ulNotifiedValue (tcb k t))"
    "t \<in> ready_tasks (snd (xTaskGenericNotify t v a k))"
    using assms(3) n by (auto simp: xTaskGenericNotify_def Let_def ready_tasks_def)
  have "kinv (snd (xTaskGenericNotify t v a k))" using kinv_xTaskGenericNotify(1) [OF assms(1)] assms(2) by blast
  moreover have "xTaskNotifyWait_exit c k' = ((True, new), upd_tcb t (\<lambda>b. b\<lparr>ucNotifyState := taskNOT_WAITING_NOTIFICATION\<rparr>)
      (upd_tcb t (\<lambda>b. b\<lparr>ulNotifiedValue := ulNotifiedValue b AND NOT c\<rparr>) k'))"
    using assms(4,5) S(1) by (simp add: xTaskNotifyWait_exit_def Let_def)
  ultimately show ?thesis using S assms(5) by (simp add: Let_def new_def [symmetric])
qed

definition demo_waiting :: kernel where
  "demo_waiting = upd_tcb 3000 (\<lambda>b. b\<lparr>ucNotifyState := taskWAITING_NOTIFICATION, ulNotifiedValue := 1\<rparr>) demo_kernel"

theorem notify_reaches_waiter_witness:
  "let k = snd (xTaskGenericNotify 3000 6 eSetBits demo_waiting);
       ((r, got), k'') = xTaskNotifyWait_exit 2 (k\<lparr>pxCurrentTCB := 3000\<rparr>)
   in kinv k \<and> 3000 \<in> ready_tasks k \<and> r \<and> got = 7 \<and> ulNotifiedValue (tcb k'' 3000) = 5"
proof -
  have k: "kinv demo_waiting" unfolding demo_waiting_def by (rule kinv_upd_tcb' [OF demo_kinv]) simp_all
  have n: "notifiable demo_waiting 3000" by (simp add: notifiable_def demo_waiting_def)
  show ?thesis
    using notify_reaches_waiter [OF k n, of "(snd (xTaskGenericNotify 3000 6 eSetBits demo_waiting))\<lparr>pxCurrentTCB := 3000\<rparr>" 6 eSetBits 2]
    by (simp add: Let_def split_beta) (simp add: demo_waiting_def)
qed

subsection \<open>Creating and freeing tasks\<close>

lemma add_new_tcb: "tcb (prvAddNewTaskToReadyList t k) = tcb k"
  by (simp add: prvAddNewTaskToReadyList_def Let_def)

lemma xTaskCreate_tcb:
  assumes "xTaskCreate nm d p k = (Some t, k')"
  shows "uxPriority (tcb k' t) = min p 6" "pcTaskName (tcb k' t) = (case nm of None \<Rightarrow> [] | Some s \<Rightarrow> copy_name s)"
proof -
  obtain st k2 where "k' = prvAddNewTaskToReadyList t (prvInitialiseNewTask nm p t st k2)"
    using assms by (auto simp: xTaskCreate_def split: prod.splits if_splits)
  then show "uxPriority (tcb k' t) = min p 6" "pcTaskName (tcb k' t) = (case nm of None \<Rightarrow> [] | Some s \<Rightarrow> copy_name s)"
    by (auto simp: add_new_tcb prvInitialiseNewTask_def Let_def set_item_value_def configMAX_PRIORITIES_def)
qed

text \<open>\<open>xTaskCreate\<close> either fails and leaves every allocated block and task as it was, giving back the
  stack when only the control block could not be allocated, or makes a new ready task whose control
  block and stack are fresh heap blocks, with the priority cut to the highest there is and the name
  cut to 15 characters.\<close>

theorem xTaskCreate_all_or_nothing:
  assumes "sinv A k" "uxSchedulerSuspended k = 0" "d * 4 < 2 ^ 32"
  shows "case xTaskCreate nm d p k of
      (None, k') \<Rightarrow> sinv A k' \<and> live_tasks k' = live_tasks k
    | (Some t, k') \<Rightarrow> live_tasks k' = insert t (live_tasks k) \<and> t \<in> ready_tasks k' \<and>
        (\<exists>st. {t, st} \<inter> A = {} \<and> st \<noteq> t \<and> sinv ({t, st} \<union> A) k' \<and> owned k' = {t, st} \<union> owned k) \<and>
        uxPriority (tcb k' t) = min p 6 \<and> (\<forall>s. nm = Some s \<longrightarrow> length (pcTaskName (tcb k' t)) \<le> 15)"
proof -
  obtain r k' where x: "xTaskCreate nm d p k = (r, k')" by fastforce
  note C = sinv_xTaskCreate [OF assms, of nm p, unfolded x prod.case]
  show ?thesis
  proof (cases r)
    case None
    then show ?thesis using C by (simp add: x)
  next
    case (Some t)
    have "length (pcTaskName (tcb k' t)) \<le> 15" if "nm = Some s" for s
      using xTaskCreate_tcb(2) [OF x [unfolded Some]] that by (simp add: copy_name_def configMAX_TASK_NAME_LEN_def)
    then show ?thesis using C xTaskCreate_tcb(1) [OF x [unfolded Some]] by (auto simp: x Some)
  qed
qed

lemma demo_boot_sinv: "sinv {} (boot_kernel (prvHeapInit demo_heap0))"
proof -
  have "system_init ({}, boot_kernel (prvHeapInit demo_heap0))"
    by (auto simp: demo_heap0_def configTOTAL_HEAP_SIZE_def intro!: exI [of _ demo_heap0])
  then obtain A where A: "sinv A (boot_kernel (prvHeapInit demo_heap0))" using system_inv_boot by fastforce
  have "heap_rep (prvHeapInit demo_heap0) {}" using demo_heap_rel by (auto simp: heap_rep_def intro!: exI)
  then have "heap_blocks (heap (boot_kernel (prvHeapInit demo_heap0))) {}"
    by (auto simp: heap_blocks_def boot_kernel_def disjoint_regions_def intro!: exI [of _ "{}"])
  then show ?thesis using A by (auto simp: sinv_def task_memory_def task_counts_def boot_kernel_def live_tasks_def)
qed

theorem xTaskCreate_all_or_nothing_witness:
  "case xTaskCreate (Some ''a_rather_long_task_name'') 128 9 (boot_kernel (prvHeapInit demo_heap0)) of
      (None, k') \<Rightarrow> sinv {} k'
    | (Some t, k') \<Rightarrow> live_tasks k' = {t} \<and> t \<in> ready_tasks k' \<and> uxPriority (tcb k' t) = 6 \<and> length (pcTaskName (tcb k' t)) \<le> 15"
  using xTaskCreate_all_or_nothing [OF demo_boot_sinv, of 128 9 "Some ''a_rather_long_task_name''"]
  by (auto simp: boot_kernel_def live_tasks_def split: prod.splits option.splits)

text \<open>One round of the idle task ends, frees the control blocks and stacks of exactly the tasks that
  deleted themselves, and keeps every other task and every other block.\<close>

theorem idle_task_reclaims:
  assumes "sinv A k" "uxSchedulerSuspended k = 0"
  shows "let k' = prvIdleTask_round k; D = dying_tasks k
    in sinv (A - (D \<union> (\<lambda>t. pxStack (tcb k t)) ` D)) k' \<and> dying_tasks k' = {} \<and> live_tasks k' = live_tasks k - D \<and>
       ready_tasks k \<subseteq> ready_tasks k'"
proof -
  let ?k = "prvCheckTasksWaitingTermination k"
  note R = sinv_reap [OF assms refl, folded prvCheckTasksWaitingTermination_def]
  have y: "stays ?k (portYIELD ?k)" by simp
  have "prvIdleTask_round k = ?k \<or> prvIdleTask_round k = portYIELD ?k" by (simp add: prvIdleTask_round_def Let_def)
  then show ?thesis
  proof
    assume e: "prvIdleTask_round k = portYIELD ?k"
    show ?thesis unfolding e Let_def using R y sinv_stays [OF _ _ y] by (auto simp: sinv_def stays_def)
  qed (use R in \<open>simp add: Let_def\<close>)
qed

lemma demo_create:
  obtains t k' where "xTaskCreate None 128 1 (boot_kernel (prvHeapInit demo_heap0)) = (Some t, k')" "pxCurrentTCB k' = t"
proof -
  let ?k = "boot_kernel (prvHeapInit demo_heap0)"
  have k: "kinv ?k" "uxSchedulerSuspended ?k = 0" "heap ?k = prvHeapInit demo_heap0"
    using demo_boot_sinv by (simp_all add: sinv_def) (simp_all add: boot_kernel_def)
  obtain h1 where h1: "pvPortMalloc_body 512 (heap ?k) = Some (536871184, h1)"
    "heap_rel h1 536871176 [(536871176, 520, Alloc), (536871696, 65000, Free)]"
    using pvPortMalloc_body_spec [OF demo_heap_rel, of 512] by (auto simp: wanted_size_spec k(3))
  from malloc_wrapper [OF k(1,2) h1(1)] obtain k1 where k1: "pvPortMalloc 512 ?k = (536871184, k1)" "kinv k1"
    "stays (?k\<lparr>heap := h1\<rparr>) k1" "uxSchedulerSuspended k1 = 0" .
  have e1: "heap k1 = h1" "pxCurrentTCB k1 = 0" using k1(3) by (simp_all add: stays_def keeps_def boot_kernel_def)
  obtain p h2 where h2: "pvPortMalloc_body sizeof_TCB (heap k1) = Some (p, h2)" "p \<noteq> 0"
    using pvPortMalloc_body_spec [OF h1(2), of sizeof_TCB] by (auto simp: wanted_size_spec e1 sizeof_TCB_def)
  from malloc_wrapper [OF k1(2,4) h2(1)] obtain k2 where k2: "pvPortMalloc sizeof_TCB k1 = (p, k2)" "stays (k1\<lparr>heap := h2\<rparr>) k2" .
  have e2: "pxCurrentTCB k2 = 0" using k2(2) e1 by (simp add: stays_def keeps_def)
  let ?k3 = "prvAddNewTaskToReadyList p (prvInitialiseNewTask None 1 p 536871184 k2)"
  have "xTaskCreate None 128 1 ?k = (Some p, ?k3)" using k1(1) k2(1) h2(2) by (simp add: xTaskCreate_def)
  moreover have "pxCurrentTCB (prvInitialiseNewTask None 1 p 536871184 k2) = 0"
    using e2 by (simp add: prvInitialiseNewTask_def Let_def set_item_value_def)
  then have "pxCurrentTCB ?k3 = p" by (simp add: prvAddNewTaskToReadyList_def Let_def)
  ultimately show ?thesis using that by blast
qed

theorem idle_task_reclaims_witness:
  "\<exists>k t. dying_tasks k = {t} \<and> dying_tasks (prvIdleTask_round k) = {} \<and> live_tasks (prvIdleTask_round k) = {}"
proof -
  obtain t k1 where x: "xTaskCreate None 128 1 (boot_kernel (prvHeapInit demo_heap0)) = (Some t, k1)" "pxCurrentTCB k1 = t"
    by (rule demo_create)
  have b: "uxSchedulerSuspended (boot_kernel (prvHeapInit demo_heap0)) = 0" "live_tasks (boot_kernel (prvHeapInit demo_heap0)) = {}"
    by (simp_all add: boot_kernel_def live_tasks_def)
  obtain st where C: "sinv {t, st} k1" "live_tasks k1 = {t}" "t \<in> ready_tasks k1" "uxSchedulerSuspended k1 = 0"
    using sinv_xTaskCreate [OF demo_boot_sinv b(1), of 128 None 1] unfolding x(1) b(2) by auto
  have nd: "t \<notin> dying_tasks k1" using C(3) by (auto simp: ready_tasks_def dying_tasks_def)
  note D = sinv_vTaskDelete [OF C(1,4), of t 0] 
  let ?k = "vTaskDelete 0 k1"
  have k: "sinv {t, st} ?k" "live_tasks ?k = {t}" "dying_tasks ?k = insert t (dying_tasks k1)" "uxSchedulerSuspended ?k = 0"
    using D x(2) C(2) nd by auto
  moreover have "dying_tasks k1 = {}" using C(2) nd by (auto simp: dying_tasks_def live_tasks_def)
  ultimately show ?thesis using idle_task_reclaims [OF k(1,4)] by (intro exI [of _ ?k] exI [of _ t]) (simp add: Let_def)
qed

end
