(* ===== verification/ByteMemory.thy ===== *)
theory ByteMemory
  imports Firmware_Prelude
begin

text \<open>
  Byte memory, the storage areas of queues and stream buffers, with \<open>memcpy\<close> in both directions.
\<close>

type_synonym bytes = "nat \<Rightarrow> u8"

text \<open>\<open>memcpy\<close> into and out of the storage area.\<close>

definition write_bytes :: "nat \<Rightarrow> u8 list \<Rightarrow> bytes \<Rightarrow> bytes" where
  "write_bytes a xs m = (\<lambda>x. if a \<le> x \<and> x < a + length xs then xs ! (x - a) else m x)"

definition read_bytes :: "nat \<Rightarrow> nat \<Rightarrow> bytes \<Rightarrow> u8 list" where
  "read_bytes a n m = map m [a..<a + n]"

lemma read_write_same [simp]: "n = length xs \<Longrightarrow> read_bytes a n (write_bytes a xs m) = xs"
  by (rule nth_equalityI) (auto simp: read_bytes_def write_bytes_def)

lemma read_write_other: "a + n \<le> b \<or> b + length xs \<le> a \<Longrightarrow> read_bytes a n (write_bytes b xs m) = read_bytes a n m"
  by (auto simp: read_bytes_def write_bytes_def)

lemma read_bytes_cong: "(\<And>i. a \<le> i \<Longrightarrow> i < a + n \<Longrightarrow> m i = m' i) \<Longrightarrow> read_bytes a n m = read_bytes a n m'"
  by (simp add: read_bytes_def)

lemma length_read_bytes [simp]: "length (read_bytes a n m) = n"
  by (simp add: read_bytes_def)

lemma nth_read_bytes [simp]: "i < n \<Longrightarrow> read_bytes a n m ! i = m (a + i)"
  by (simp add: read_bytes_def)

text \<open>A 32-bit value as its bytes in memory, least significant first, and back.\<close>

definition le_bytes :: "nat \<Rightarrow> u8 list" where
  "le_bytes n = map (\<lambda>i. of_nat (n div 256 ^ i)) [0..<4]"

definition of_le_bytes :: "u8 list \<Rightarrow> nat" where
  "of_le_bytes bs = (\<Sum>i<length bs. unat (bs ! i) * 256 ^ i)"

lemma length_le_bytes [simp]: "length (le_bytes n) = 4"
  by (simp add: le_bytes_def)

lemma le_bytes_roundtrip:
  assumes "n < 2 ^ 32" shows "of_le_bytes (le_bytes n) = n"
proof -
  have u: "unat (of_nat x :: u8) = x mod 256" for x by (simp add: unsigned_of_nat take_bit_eq_mod)
  have four: "{..<4} = {0, 1, 2, 3 :: nat}" by auto
  have s: "of_le_bytes (le_bytes n) = n mod 256 + n div 256 mod 256 * 256 + n div 65536 mod 256 * 65536 + n div 16777216 mod 256 * 16777216"
    unfolding of_le_bytes_def length_le_bytes four by (simp add: le_bytes_def u)
  have d: "n div 65536 = n div 256 div 256" "n div 16777216 = n div 256 div 256 div 256" by (simp_all add: div_mult2_eq [symmetric])
  have "n div 256 div 256 div 256 < 256" using assms by (simp add: div_mult2_eq [symmetric])
  then have "n div 256 div 256 div 256 mod 256 = n div 256 div 256 div 256" by simp
  moreover have "n = n div 256 * 256 + n mod 256" "n div 256 = n div 256 div 256 * 256 + n div 256 mod 256"
    "n div 256 div 256 = n div 256 div 256 div 256 * 256 + n div 256 div 256 mod 256" by (simp_all only: div_mult_mod_eq)
  ultimately show ?thesis unfolding s d by linarith
qed

end
