(* ===== verification/Queue.thy ===== *)
theory Queue
  imports KernelSystem ByteMemory
begin

text \<open>
  Queues, semaphores and mutexes, \<open>lib/FreeRTOS/src/queue.c\<close>. A queue is found by its handle; its
  storage area is byte memory. The union of the structure is kept: the holder of a mutex lives where
  a queue has its tail pointer, the recursion count where a queue has its read pointer. Queue sets
  and the trace facility are configured out.

  A blocking call is the loop of the source: a critical section, then a part with the scheduler
  suspended and the queue locked. What other tasks and interrupts do in between is an argument, one
  \<open>gaps\<close> record for each round of the loop; with the list of rounds used up the call has not
  returned yet, which is the value \<open>None\<close>.
\<close>

subsection \<open>Data\<close>

text \<open>\<open>pcTail\<close> is also \<open>xMutexHolder\<close>, \<open>pcReadFrom\<close> is also \<open>uxRecursiveCallCount\<close>.\<close>

record queue_t =
  pcHead :: nat
  pcWriteTo :: nat
  pcTail :: nat
  pcReadFrom :: nat
  uxMessagesWaiting :: nat
  uxLength :: nat
  uxItemSize :: nat
  cRxLock :: "8 word"
  cTxLock :: "8 word"

record qsys =
  kern :: kernel
  queues :: "nat \<Rightarrow> queue_t"
  qmem :: bytes
  xQueueRegistry :: "(string option \<times> nat) list"

datatype copy_position = queueSEND_TO_BACK | queueSEND_TO_FRONT | queueOVERWRITE

abbreviation xMutexHolder :: "queue_t \<Rightarrow> tid" where "xMutexHolder \<equiv> pcTail"
abbreviation uxRecursiveCallCount :: "queue_t \<Rightarrow> nat" where "uxRecursiveCallCount \<equiv> pcReadFrom"

definition queueUNLOCKED :: "8 word" where "queueUNLOCKED = - 1"
definition queueLOCKED_UNMODIFIED :: "8 word" where "queueLOCKED_UNMODIFIED = 0"
definition sizeof_Queue :: nat where "sizeof_Queue = 72"
definition configQUEUE_REGISTRY_SIZE :: nat where "configQUEUE_REGISTRY_SIZE = 8"

definition is_mutex :: "queue_t \<Rightarrow> bool" where
  "is_mutex q \<longleftrightarrow> pcHead q = 0"

definition upd_queue :: "nat \<Rightarrow> (queue_t \<Rightarrow> queue_t) \<Rightarrow> qsys \<Rightarrow> qsys" where
  "upd_queue x f s = s\<lparr>queues := (queues s)(x := f (queues s x))\<rparr>"

definition on_kern :: "(kernel \<Rightarrow> kernel) \<Rightarrow> qsys \<Rightarrow> qsys" where
  "on_kern f s = s\<lparr>kern := f (kern s)\<rparr>"

definition on_kern' :: "(kernel \<Rightarrow> 'a \<times> kernel) \<Rightarrow> qsys \<Rightarrow> 'a \<times> qsys" where
  "on_kern' f s = (let (r, k) = f (kern s) in (r, s\<lparr>kern := k\<rparr>))"

subsection \<open>The storage area\<close>

text \<open>The two ways to store an item and the way to fetch one, on a queue with items.\<close>

definition copy_to_back :: "u8 list \<Rightarrow> queue_t \<times> bytes \<Rightarrow> queue_t \<times> bytes" where
  "copy_to_back item = (\<lambda>(q, m).
     let m = write_bytes (pcWriteTo q) (take (uxItemSize q) item) m;
         q = q\<lparr>pcWriteTo := pcWriteTo q + uxItemSize q\<rparr>;
         q = (if pcWriteTo q \<ge> pcTail q then q\<lparr>pcWriteTo := pcHead q\<rparr> else q)
     in (q, m))"

definition copy_to_front :: "u8 list \<Rightarrow> queue_t \<times> bytes \<Rightarrow> queue_t \<times> bytes" where
  "copy_to_front item = (\<lambda>(q, m).
     let m = write_bytes (pcReadFrom q) (take (uxItemSize q) item) m;
         below = int (pcReadFrom q) - int (uxItemSize q) < int (pcHead q);
         q = (if below then q\<lparr>pcReadFrom := pcTail q - uxItemSize q\<rparr>
              else q\<lparr>pcReadFrom := pcReadFrom q - uxItemSize q\<rparr>)
     in (q, m))"

definition copy_from :: "queue_t \<times> bytes \<Rightarrow> u8 list \<times> queue_t" where
  "copy_from = (\<lambda>(q, m).
     let q = q\<lparr>pcReadFrom := pcReadFrom q + uxItemSize q\<rparr>;
         q = (if pcReadFrom q \<ge> pcTail q then q\<lparr>pcReadFrom := pcHead q\<rparr> else q)
     in (read_bytes (pcReadFrom q) (uxItemSize q) m, q))"

definition prvCopyDataToQueue :: "nat \<Rightarrow> u8 list \<Rightarrow> copy_position \<Rightarrow> qsys \<Rightarrow> bool \<times> qsys" where
  "prvCopyDataToQueue x pvItemToQueue xPosition s =
     (let uxMessages = uxMessagesWaiting (queues s x);
          (xReturn, uxMessages, s) =
            (if uxItemSize (queues s x) = 0
             then if is_mutex (queues s x)
                  then let (r, s) = on_kern' (xTaskPriorityDisinherit (xMutexHolder (queues s x))) s
                       in (r, uxMessages, upd_queue x (\<lambda>q. q\<lparr>pcTail := 0\<rparr>) s)
                  else (False, uxMessages, s)
             else if xPosition = queueSEND_TO_BACK
             then let (q, m) = copy_to_back pvItemToQueue (queues s x, qmem s)
                  in (False, uxMessages, s\<lparr>queues := (queues s)(x := q), qmem := m\<rparr>)
             else let (q, m) = copy_to_front pvItemToQueue (queues s x, qmem s)
                  in (False,
                      if xPosition = queueOVERWRITE \<and> uxMessages > 0 then uxMessages - 1 else uxMessages,
                      s\<lparr>queues := (queues s)(x := q), qmem := m\<rparr>))
      in (xReturn, upd_queue x (\<lambda>q. q\<lparr>uxMessagesWaiting := uxMessages + 1\<rparr>) s))"

text \<open>The caller's buffer, \<open>None\<close> when nothing was copied into it.\<close>

definition prvCopyDataFromQueue :: "nat \<Rightarrow> qsys \<Rightarrow> u8 list option \<times> qsys" where
  "prvCopyDataFromQueue x s =
     (if uxItemSize (queues s x) \<noteq> 0
      then let (b, q) = copy_from (queues s x, qmem s) in (Some b, s\<lparr>queues := (queues s)(x := q)\<rparr>)
      else (None, s))"

subsection \<open>Locking\<close>

definition prvLockQueue :: "nat \<Rightarrow> qsys \<Rightarrow> qsys" where
  "prvLockQueue x =
     upd_queue x (\<lambda>q. let q = (if cRxLock q = queueUNLOCKED then q\<lparr>cRxLock := queueLOCKED_UNMODIFIED\<rparr> else q)
                      in if cTxLock q = queueUNLOCKED then q\<lparr>cTxLock := queueLOCKED_UNMODIFIED\<rparr> else q)"

text \<open>The two loops of \<open>prvUnlockQueue\<close>, on the list of waiting tasks; the counter is the signed lock count.\<close>

fun unlock_loop :: "nat \<Rightarrow> lid \<Rightarrow> kernel \<Rightarrow> kernel" where
  "unlock_loop 0 l k = k"
| "unlock_loop (Suc n) l k =
     (if list_is_empty l k then k
      else let (r, k) = xTaskRemoveFromEventList l k
           in unlock_loop n l (if r then vTaskMissedYield k else k))"

definition prvUnlockQueue :: "nat \<Rightarrow> qsys \<Rightarrow> qsys" where
  "prvUnlockQueue x s =
     (let s = on_kern (unlock_loop (nat (sint (cTxLock (queues s x)))) (TasksWaitingToReceive x)) s;
          s = upd_queue x (\<lambda>q. q\<lparr>cTxLock := queueUNLOCKED\<rparr>) s;
          s = on_kern (unlock_loop (nat (sint (cRxLock (queues s x)))) (TasksWaitingToSend x)) s
      in upd_queue x (\<lambda>q. q\<lparr>cRxLock := queueUNLOCKED\<rparr>) s)"

definition prvIsQueueEmpty :: "nat \<Rightarrow> qsys \<Rightarrow> bool" where
  "prvIsQueueEmpty x s \<longleftrightarrow> uxMessagesWaiting (queues s x) = 0"

definition prvIsQueueFull :: "nat \<Rightarrow> qsys \<Rightarrow> bool" where
  "prvIsQueueFull x s \<longleftrightarrow> uxMessagesWaiting (queues s x) = uxLength (queues s x)"

definition xQueueIsQueueEmptyFromISR :: "nat \<Rightarrow> qsys \<Rightarrow> bool" where
  "xQueueIsQueueEmptyFromISR x s \<longleftrightarrow> uxMessagesWaiting (queues s x) = 0"

definition xQueueIsQueueFullFromISR :: "nat \<Rightarrow> qsys \<Rightarrow> bool" where
  "xQueueIsQueueFullFromISR x s \<longleftrightarrow> uxMessagesWaiting (queues s x) = uxLength (queues s x)"

definition uxQueueMessagesWaiting :: "nat \<Rightarrow> qsys \<Rightarrow> nat" where
  "uxQueueMessagesWaiting x s = uxMessagesWaiting (queues s x)"

definition uxQueueMessagesWaitingFromISR :: "nat \<Rightarrow> qsys \<Rightarrow> nat" where
  "uxQueueMessagesWaitingFromISR x s = uxMessagesWaiting (queues s x)"

definition uxQueueSpacesAvailable :: "nat \<Rightarrow> qsys \<Rightarrow> nat" where
  "uxQueueSpacesAvailable x s = uxLength (queues s x) - uxMessagesWaiting (queues s x)"

text \<open>One waiting task, if any, is taken off a list; a yield is requested when it is above the caller.\<close>

definition wake_one :: "lid \<Rightarrow> qsys \<Rightarrow> qsys" where
  "wake_one l s =
     (if \<not> list_is_empty l (kern s)
      then let (r, s) = on_kern' (xTaskRemoveFromEventList l) s in if r then on_kern portYIELD s else s
      else s)"

text \<open>The same from an interrupt: whether a higher priority task was woken.\<close>

definition wake_one_from_isr :: "lid \<Rightarrow> qsys \<Rightarrow> bool \<times> qsys" where
  "wake_one_from_isr l s =
     (if \<not> list_is_empty l (kern s) then on_kern' (xTaskRemoveFromEventList l) s else (False, s))"

subsection \<open>Creation and deletion\<close>

definition xQueueGenericReset :: "nat \<Rightarrow> bool \<Rightarrow> qsys \<Rightarrow> qsys" where
  "xQueueGenericReset x xNewQueue s =
     (let s = upd_queue x (\<lambda>q. q\<lparr>pcTail := pcHead q + uxLength q * uxItemSize q, uxMessagesWaiting := 0, pcWriteTo := pcHead q,
            pcReadFrom := pcHead q + (uxLength q - 1) * uxItemSize q, cRxLock := queueUNLOCKED, cTxLock := queueUNLOCKED\<rparr>) s
      in if \<not> xNewQueue then wake_one (TasksWaitingToSend x) s
         else on_kern (list_initialise (TasksWaitingToReceive x) \<circ> list_initialise (TasksWaitingToSend x)) s)"

definition prvInitialiseNewQueue :: "nat \<Rightarrow> nat \<Rightarrow> nat \<Rightarrow> nat \<Rightarrow> qsys \<Rightarrow> qsys" where
  "prvInitialiseNewQueue uxQueueLength uxItemSize0 pucQueueStorage x s =
     (let s = upd_queue x (\<lambda>q. q\<lparr>pcHead := (if uxItemSize0 = 0 then x else pucQueueStorage),
            uxLength := uxQueueLength, uxItemSize := uxItemSize0\<rparr>) s
      in xQueueGenericReset x True s)"

text \<open>A queue has at least one slot. The handle, 0 when there is no memory. The size is computed in 32 bits.\<close>

definition queue_bytes :: "nat \<Rightarrow> nat \<Rightarrow> nat" where
  "queue_bytes uxQueueLength uxItemSize0 =
     (if uxItemSize0 = 0 then 0 else (uxQueueLength * uxItemSize0) mod 2 ^ 32)"

definition xQueueGenericCreate :: "nat \<Rightarrow> nat \<Rightarrow> qsys \<Rightarrow> nat \<times> qsys" where
  "xQueueGenericCreate uxQueueLength uxItemSize0 s =
     (let (x, s) = on_kern' (pvPortMalloc ((sizeof_Queue + queue_bytes uxQueueLength uxItemSize0) mod 2 ^ 32)) s
      in (x, if x \<noteq> 0 then prvInitialiseNewQueue uxQueueLength uxItemSize0 (x + sizeof_Queue) x s else s))"

definition registry_add :: "string \<Rightarrow> nat \<Rightarrow> (string option \<times> nat) list \<Rightarrow> (string option \<times> nat) list" where
  "registry_add pcQueueName x r =
     (case dropWhile (\<lambda>e. fst e \<noteq> None) r of
        [] \<Rightarrow> r
      | _ # es \<Rightarrow> takeWhile (\<lambda>e. fst e \<noteq> None) r @ (Some pcQueueName, x) # es)"

definition registry_remove :: "nat \<Rightarrow> (string option \<times> nat) list \<Rightarrow> (string option \<times> nat) list" where
  "registry_remove x r =
     (case dropWhile (\<lambda>e. snd e \<noteq> x) r of
        [] \<Rightarrow> r
      | _ # es \<Rightarrow> takeWhile (\<lambda>e. snd e \<noteq> x) r @ (None, 0) # es)"

definition vQueueAddToRegistry :: "nat \<Rightarrow> string \<Rightarrow> qsys \<Rightarrow> qsys" where
  "vQueueAddToRegistry x pcQueueName s = s\<lparr>xQueueRegistry := registry_add pcQueueName x (xQueueRegistry s)\<rparr>"

definition vQueueUnregisterQueue :: "nat \<Rightarrow> qsys \<Rightarrow> qsys" where
  "vQueueUnregisterQueue x s = s\<lparr>xQueueRegistry := registry_remove x (xQueueRegistry s)\<rparr>"

definition pcQueueGetName :: "nat \<Rightarrow> qsys \<Rightarrow> string option" where
  "pcQueueGetName x s = (case dropWhile (\<lambda>e. snd e \<noteq> x) (xQueueRegistry s) of [] \<Rightarrow> None | e # _ \<Rightarrow> fst e)"

definition vQueueDelete :: "nat \<Rightarrow> qsys \<Rightarrow> qsys" where
  "vQueueDelete x s = on_kern (vPortFree x) (vQueueUnregisterQueue x s)"

subsection \<open>Sending and receiving\<close>

text \<open>What happens elsewhere during one round of a blocking call: before the scheduler is suspended, while
  the queue is locked (interrupts only), between the check and the wait (interrupts only), and until
  the task runs again.\<close>

record gaps =
  before_lock :: "qsys \<Rightarrow> qsys"
  while_locked :: "qsys \<Rightarrow> qsys"
  before_wait :: "qsys \<Rightarrow> qsys"
  until_rerun :: "qsys \<Rightarrow> qsys"

text \<open>A round ends with a result or goes on with the time-out and the ticks left.\<close>

datatype 'a outcome = Returned 'a | Again TimeOut_t tick

text \<open>The entry time is set in the first round that finds nothing to do.\<close>

definition entry_time :: "TimeOut_t option \<Rightarrow> qsys \<Rightarrow> TimeOut_t" where
  "entry_time to s = (case to of None \<Rightarrow> vTaskInternalSetTimeOutState (kern s) | Some t \<Rightarrow> t)"

definition xQueueGenericSend_try :: "nat \<Rightarrow> u8 list \<Rightarrow> copy_position \<Rightarrow> tick \<Rightarrow> TimeOut_t option \<Rightarrow> qsys \<Rightarrow> bool outcome \<times> qsys" where
  "xQueueGenericSend_try x pvItemToQueue xCopyPosition xTicksToWait to s =
     (if uxMessagesWaiting (queues s x) < uxLength (queues s x) \<or> xCopyPosition = queueOVERWRITE
      then let (xYieldRequired, s) = prvCopyDataToQueue x pvItemToQueue xCopyPosition s;
               s = (if \<not> list_is_empty (TasksWaitingToReceive x) (kern s) then wake_one (TasksWaitingToReceive x) s
                    else if xYieldRequired then on_kern portYIELD s else s)
           in (Returned True, s)
      else if xTicksToWait = 0 then (Returned False, s)
      else (Again (entry_time to s) xTicksToWait, s))"

text \<open>The wait itself: the task blocks on the list, the queue is unlocked, the scheduler resumes.\<close>

definition queue_block :: "lid \<Rightarrow> nat \<Rightarrow> tick \<Rightarrow> qsys \<Rightarrow> qsys" where
  "queue_block l x xTicksToWait s =
     (let s = on_kern (vTaskPlaceOnEventList l xTicksToWait) s;
          s = prvUnlockQueue x s;
          (xAlreadyYielded, s) = on_kern' xTaskResumeAll s
      in if \<not> xAlreadyYielded then on_kern portYIELD s else s)"

definition queue_unblock :: "nat \<Rightarrow> qsys \<Rightarrow> qsys" where
  "queue_unblock x s = on_kern (snd \<circ> xTaskResumeAll) (prvUnlockQueue x s)"

definition xQueueGenericSend_wait :: "gaps \<Rightarrow> nat \<Rightarrow> TimeOut_t \<Rightarrow> tick \<Rightarrow> qsys \<Rightarrow> bool outcome \<times> qsys" where
  "xQueueGenericSend_wait g x to xTicksToWait s =
     (let s = while_locked g (prvLockQueue x (on_kern vTaskSuspendAll s));
          (xTimedOut, to, xTicksToWait) = xTaskCheckForTimeOut to xTicksToWait (kern s)
      in if \<not> xTimedOut
         then if prvIsQueueFull x s
              then (Again to xTicksToWait, queue_block (TasksWaitingToSend x) x xTicksToWait (before_wait g s))
              else (Again to xTicksToWait, queue_unblock x s)
         else (Returned False, queue_unblock x s))"

fun xQueueGenericSend :: "gaps list \<Rightarrow> nat \<Rightarrow> u8 list \<Rightarrow> copy_position \<Rightarrow> tick \<Rightarrow> TimeOut_t option \<Rightarrow> qsys \<Rightarrow> (bool \<times> qsys) option" where
  "xQueueGenericSend [] x pvItemToQueue xCopyPosition xTicksToWait to s = None"
| "xQueueGenericSend (g # gs) x pvItemToQueue xCopyPosition xTicksToWait to s =
     (case xQueueGenericSend_try x pvItemToQueue xCopyPosition xTicksToWait to s of
        (Returned r, s) \<Rightarrow> Some (r, s)
      | (Again to xTicksToWait, s) \<Rightarrow>
          (case xQueueGenericSend_wait g x to xTicksToWait (before_lock g s) of
             (Returned r, s) \<Rightarrow> Some (r, s)
           | (Again to xTicksToWait, s) \<Rightarrow>
               xQueueGenericSend gs x pvItemToQueue xCopyPosition xTicksToWait (Some to) (until_rerun g s)))"

definition xQueueReceive_try :: "nat \<Rightarrow> tick \<Rightarrow> TimeOut_t option \<Rightarrow> qsys \<Rightarrow> (bool \<times> u8 list option) outcome \<times> qsys" where
  "xQueueReceive_try x xTicksToWait to s =
     (let uxMessages = uxMessagesWaiting (queues s x)
      in if uxMessages > 0
         then let (b, s) = prvCopyDataFromQueue x s;
                  s = upd_queue x (\<lambda>q. q\<lparr>uxMessagesWaiting := uxMessages - 1\<rparr>) s
              in (Returned (True, b), wake_one (TasksWaitingToSend x) s)
         else if xTicksToWait = 0 then (Returned (False, None), s)
         else (Again (entry_time to s) xTicksToWait, s))"

definition xQueueReceive_wait :: "gaps \<Rightarrow> nat \<Rightarrow> TimeOut_t \<Rightarrow> tick \<Rightarrow> qsys \<Rightarrow> (bool \<times> u8 list option) outcome \<times> qsys" where
  "xQueueReceive_wait g x to xTicksToWait s =
     (let s = while_locked g (prvLockQueue x (on_kern vTaskSuspendAll s));
          (xTimedOut, to, xTicksToWait) = xTaskCheckForTimeOut to xTicksToWait (kern s)
      in if \<not> xTimedOut
         then if prvIsQueueEmpty x s
              then (Again to xTicksToWait, queue_block (TasksWaitingToReceive x) x xTicksToWait (before_wait g s))
              else (Again to xTicksToWait, queue_unblock x s)
         else let s = queue_unblock x s
              in if prvIsQueueEmpty x s then (Returned (False, None), s) else (Again to xTicksToWait, s))"

fun xQueueReceive :: "gaps list \<Rightarrow> nat \<Rightarrow> tick \<Rightarrow> TimeOut_t option \<Rightarrow> qsys \<Rightarrow> ((bool \<times> u8 list option) \<times> qsys) option" where
  "xQueueReceive [] x xTicksToWait to s = None"
| "xQueueReceive (g # gs) x xTicksToWait to s =
     (case xQueueReceive_try x xTicksToWait to s of
        (Returned r, s) \<Rightarrow> Some (r, s)
      | (Again to xTicksToWait, s) \<Rightarrow>
          (case xQueueReceive_wait g x to xTicksToWait (before_lock g s) of
             (Returned r, s) \<Rightarrow> Some (r, s)
           | (Again to xTicksToWait, s) \<Rightarrow> xQueueReceive gs x xTicksToWait (Some to) (until_rerun g s)))"

definition xQueuePeek_try :: "nat \<Rightarrow> tick \<Rightarrow> TimeOut_t option \<Rightarrow> qsys \<Rightarrow> (bool \<times> u8 list option) outcome \<times> qsys" where
  "xQueuePeek_try x xTicksToWait to s =
     (if uxMessagesWaiting (queues s x) > 0
      then let pcOriginalReadPosition = pcReadFrom (queues s x);
               (b, s) = prvCopyDataFromQueue x s;
               s = upd_queue x (\<lambda>q. q\<lparr>pcReadFrom := pcOriginalReadPosition\<rparr>) s
           in (Returned (True, b), wake_one (TasksWaitingToReceive x) s)
      else if xTicksToWait = 0 then (Returned (False, None), s)
      else (Again (entry_time to s) xTicksToWait, s))"

text \<open>The part of \<open>xQueuePeek\<close> with the scheduler suspended is that of \<open>xQueueReceive\<close>.\<close>

fun xQueuePeek :: "gaps list \<Rightarrow> nat \<Rightarrow> tick \<Rightarrow> TimeOut_t option \<Rightarrow> qsys \<Rightarrow> ((bool \<times> u8 list option) \<times> qsys) option" where
  "xQueuePeek [] x xTicksToWait to s = None"
| "xQueuePeek (g # gs) x xTicksToWait to s =
     (case xQueuePeek_try x xTicksToWait to s of
        (Returned r, s) \<Rightarrow> Some (r, s)
      | (Again to xTicksToWait, s) \<Rightarrow>
          (case xQueueReceive_wait g x to xTicksToWait (before_lock g s) of
             (Returned r, s) \<Rightarrow> Some (r, s)
           | (Again to xTicksToWait, s) \<Rightarrow> xQueuePeek gs x xTicksToWait (Some to) (until_rerun g s)))"

subsection \<open>Interrupts\<close>

text \<open>The result, and whether a higher priority task was woken.\<close>

definition xQueueGenericSendFromISR :: "nat \<Rightarrow> u8 list \<Rightarrow> copy_position \<Rightarrow> qsys \<Rightarrow> (bool \<times> bool) \<times> qsys" where
  "xQueueGenericSendFromISR x pvItemToQueue xCopyPosition s =
     (if uxMessagesWaiting (queues s x) < uxLength (queues s x) \<or> xCopyPosition = queueOVERWRITE
      then let cTx = cTxLock (queues s x);
               s = snd (prvCopyDataToQueue x pvItemToQueue xCopyPosition s)
           in if cTx = queueUNLOCKED
              then let (woken, s) = wake_one_from_isr (TasksWaitingToReceive x) s in ((True, woken), s)
              else ((True, False), upd_queue x (\<lambda>q. q\<lparr>cTxLock := cTx + 1\<rparr>) s)
      else ((False, False), s))"

definition xQueueGiveFromISR :: "nat \<Rightarrow> qsys \<Rightarrow> (bool \<times> bool) \<times> qsys" where
  "xQueueGiveFromISR x s =
     (let uxMessages = uxMessagesWaiting (queues s x)
      in if uxMessages < uxLength (queues s x)
         then let cTx = cTxLock (queues s x);
                  s = upd_queue x (\<lambda>q. q\<lparr>uxMessagesWaiting := uxMessages + 1\<rparr>) s
              in if cTx = queueUNLOCKED
                 then let (woken, s) = wake_one_from_isr (TasksWaitingToReceive x) s in ((True, woken), s)
                 else ((True, False), upd_queue x (\<lambda>q. q\<lparr>cTxLock := cTx + 1\<rparr>) s)
         else ((False, False), s))"

definition xQueueReceiveFromISR :: "nat \<Rightarrow> qsys \<Rightarrow> (bool \<times> u8 list option \<times> bool) \<times> qsys" where
  "xQueueReceiveFromISR x s =
     (let uxMessages = uxMessagesWaiting (queues s x)
      in if uxMessages > 0
         then let cRx = cRxLock (queues s x);
                  (b, s) = prvCopyDataFromQueue x s;
                  s = upd_queue x (\<lambda>q. q\<lparr>uxMessagesWaiting := uxMessages - 1\<rparr>) s
              in if cRx = queueUNLOCKED
                 then let (woken, s) = wake_one_from_isr (TasksWaitingToSend x) s in ((True, b, woken), s)
                 else ((True, b, False), upd_queue x (\<lambda>q. q\<lparr>cRxLock := cRx + 1\<rparr>) s)
         else ((False, None, False), s))"

definition xQueuePeekFromISR :: "nat \<Rightarrow> qsys \<Rightarrow> (bool \<times> u8 list option) \<times> qsys" where
  "xQueuePeekFromISR x s =
     (if uxMessagesWaiting (queues s x) > 0
      then let pcOriginalReadPosition = pcReadFrom (queues s x);
               (b, s) = prvCopyDataFromQueue x s
           in ((True, b), upd_queue x (\<lambda>q. q\<lparr>pcReadFrom := pcOriginalReadPosition\<rparr>) s)
      else ((False, None), s))"

definition vQueueWaitForMessageRestricted :: "nat \<Rightarrow> tick \<Rightarrow> bool \<Rightarrow> qsys \<Rightarrow> qsys" where
  "vQueueWaitForMessageRestricted x xTicksToWait xWaitIndefinitely s =
     (let s = prvLockQueue x s;
          s = (if uxMessagesWaiting (queues s x) = 0
               then on_kern (vTaskPlaceOnEventListRestricted (TasksWaitingToReceive x) xTicksToWait xWaitIndefinitely) s else s)
      in prvUnlockQueue x s)"

subsection \<open>Semaphores and mutexes\<close>

definition xQueueCreateCountingSemaphore :: "nat \<Rightarrow> nat \<Rightarrow> qsys \<Rightarrow> nat \<times> qsys" where
  "xQueueCreateCountingSemaphore uxMaxCount uxInitialCount s =
     (let (x, s) = xQueueGenericCreate uxMaxCount 0 s
      in (x, if x \<noteq> 0 then upd_queue x (\<lambda>q. q\<lparr>uxMessagesWaiting := uxInitialCount\<rparr>) s else s))"

text \<open>The mutex starts out given; the send does not wait, so its first round returns.\<close>

definition prvInitialiseMutex :: "nat \<Rightarrow> qsys \<Rightarrow> qsys" where
  "prvInitialiseMutex x s =
     (if x \<noteq> 0
      then let s = upd_queue x (\<lambda>q. q\<lparr>pcTail := 0, pcHead := 0, pcReadFrom := 0\<rparr>) s
           in snd (xQueueGenericSend_try x [] queueSEND_TO_BACK 0 None s)
      else s)"

definition xQueueCreateMutex :: "qsys \<Rightarrow> nat \<times> qsys" where
  "xQueueCreateMutex s = (let (x, s) = xQueueGenericCreate 1 0 s in (x, prvInitialiseMutex x s))"

definition xQueueSemaphoreTake_try :: "nat \<Rightarrow> tick \<Rightarrow> TimeOut_t option \<Rightarrow> qsys \<Rightarrow> bool outcome \<times> qsys" where
  "xQueueSemaphoreTake_try x xTicksToWait to s =
     (let uxSemaphoreCount = uxMessagesWaiting (queues s x)
      in if uxSemaphoreCount > 0
         then let s = upd_queue x (\<lambda>q. q\<lparr>uxMessagesWaiting := uxSemaphoreCount - 1\<rparr>) s;
                  s = (if is_mutex (queues s x)
                       then let (h, s) = on_kern' pvTaskIncrementMutexHeldCount s in upd_queue x (\<lambda>q. q\<lparr>pcTail := h\<rparr>) s else s)
              in (Returned True, wake_one (TasksWaitingToSend x) s)
         else if xTicksToWait = 0 then (Returned False, s)
         else (Again (entry_time to s) xTicksToWait, s))"

definition prvGetDisinheritPriorityAfterTimeout :: "nat \<Rightarrow> qsys \<Rightarrow> nat" where
  "prvGetDisinheritPriorityAfterTimeout x s =
     (if list_length (TasksWaitingToReceive x) (kern s) > 0
      then unat (of_nat configMAX_PRIORITIES - ival (kern s) (list_head (TasksWaitingToReceive x) (kern s)))
      else 0)"

text \<open>\<open>inh\<close> is \<open>xInheritanceOccurred\<close>.\<close>

definition xQueueSemaphoreTake_wait :: "gaps \<Rightarrow> nat \<Rightarrow> TimeOut_t \<Rightarrow> tick \<Rightarrow> bool \<Rightarrow> qsys \<Rightarrow> bool outcome \<times> bool \<times> qsys" where
  "xQueueSemaphoreTake_wait g x to xTicksToWait inh s =
     (let s = while_locked g (prvLockQueue x (on_kern vTaskSuspendAll s));
          (xTimedOut, to, xTicksToWait) = xTaskCheckForTimeOut to xTicksToWait (kern s)
      in if \<not> xTimedOut
         then if prvIsQueueEmpty x s
              then let s = before_wait g s;
                       (inh, s) = (if is_mutex (queues s x) then on_kern' (xTaskPriorityInherit (xMutexHolder (queues s x))) s
                                   else (inh, s))
                   in (Again to xTicksToWait, inh, queue_block (TasksWaitingToReceive x) x xTicksToWait s)
              else (Again to xTicksToWait, inh, queue_unblock x s)
         else let s = queue_unblock x s
              in if prvIsQueueEmpty x s
                 then (Returned False, inh,
                       if inh then on_kern (vTaskPriorityDisinheritAfterTimeout (xMutexHolder (queues s x))
                                     (prvGetDisinheritPriorityAfterTimeout x s)) s
                       else s)
                 else (Again to xTicksToWait, inh, s))"

fun xQueueSemaphoreTake :: "gaps list \<Rightarrow> nat \<Rightarrow> tick \<Rightarrow> TimeOut_t option \<Rightarrow> bool \<Rightarrow> qsys \<Rightarrow> (bool \<times> qsys) option" where
  "xQueueSemaphoreTake [] x xTicksToWait to inh s = None"
| "xQueueSemaphoreTake (g # gs) x xTicksToWait to inh s =
     (case xQueueSemaphoreTake_try x xTicksToWait to s of
        (Returned r, s) \<Rightarrow> Some (r, s)
      | (Again to xTicksToWait, s) \<Rightarrow>
          (case xQueueSemaphoreTake_wait g x to xTicksToWait inh (before_lock g s) of
             (Returned r, inh, s) \<Rightarrow> Some (r, s)
           | (Again to xTicksToWait, inh, s) \<Rightarrow> xQueueSemaphoreTake gs x xTicksToWait (Some to) inh (until_rerun g s)))"

definition xQueueGiveMutexRecursive :: "nat \<Rightarrow> qsys \<Rightarrow> bool \<times> qsys" where
  "xQueueGiveMutexRecursive x s =
     (if xMutexHolder (queues s x) = xTaskGetCurrentTaskHandle (kern s)
      then let s = upd_queue x (\<lambda>q. q\<lparr>pcReadFrom := (uxRecursiveCallCount q + 2 ^ 32 - 1) mod 2 ^ 32\<rparr>) s
           in (True, if uxRecursiveCallCount (queues s x) = 0
                     then snd (xQueueGenericSend_try x [] queueSEND_TO_BACK 0 None s) else s)
      else (False, s))"

definition xQueueTakeMutexRecursive :: "gaps list \<Rightarrow> nat \<Rightarrow> tick \<Rightarrow> qsys \<Rightarrow> (bool \<times> qsys) option" where
  "xQueueTakeMutexRecursive gs x xTicksToWait s =
     (if xMutexHolder (queues s x) = xTaskGetCurrentTaskHandle (kern s)
      then Some (True, upd_queue x (\<lambda>q. q\<lparr>pcReadFrom := (uxRecursiveCallCount q + 1) mod 2 ^ 32\<rparr>) s)
      else map_option (\<lambda>(r, s). (r, if r then upd_queue x (\<lambda>q. q\<lparr>pcReadFrom := (uxRecursiveCallCount q + 1) mod 2 ^ 32\<rparr>) s else s))
             (xQueueSemaphoreTake gs x xTicksToWait None False s))"

end
