(* ===== verification/BoundedFifo.thy ===== *)
theory BoundedFifo
  imports Firmware_Prelude
begin

text \<open>
  The contract of a bounded first-in first-out buffer that tasks and interrupts share. A caller
  puts an item, which is refused when the buffer is full, or gets one, which fails when it is empty;
  \<open>'c\<close> tells the calls apart (a task's call and the one for interrupts). What every such buffer
  gives its clients is proved here once.
\<close>

datatype caller = from_task | from_isr

datatype ('c, 'a) fifo_op = Put 'c 'a | Get 'c

text \<open>A history of calls: the items accepted, the items handed out, and the final state.\<close>

fun fifo_run :: "('c \<Rightarrow> 'a \<Rightarrow> 's \<Rightarrow> bool \<times> 's) \<Rightarrow> ('c \<Rightarrow> 's \<Rightarrow> 'a option \<times> 's) \<Rightarrow> ('c, 'a) fifo_op list \<Rightarrow> 's \<Rightarrow> 'a list \<times> 'a list \<times> 's" where
  "fifo_run put get [] s = ([], [], s)"
| "fifo_run put get (Put c a # ops) s =
     (let (r, s) = put c a s; (accepted, received, s) = fifo_run put get ops s
      in (if r then a # accepted else accepted, received, s))"
| "fifo_run put get (Get c # ops) s =
     (let (r, s) = get c s; (accepted, received, s) = fifo_run put get ops s
      in (accepted, (case r of None \<Rightarrow> received | Some b \<Rightarrow> b # received), s))"

fun op_valid :: "('a \<Rightarrow> bool) \<Rightarrow> ('c, 'a) fifo_op \<Rightarrow> bool" where
  "op_valid V (Put c a) \<longleftrightarrow> V a"
| "op_valid V (Get c) \<longleftrightarrow> True"

locale bounded_fifo =
  fixes ok :: "'s \<Rightarrow> bool" and items :: "'s \<Rightarrow> 'a list" and cap :: "'s \<Rightarrow> nat" and valid :: "'s \<Rightarrow> 'a \<Rightarrow> bool"
    and put :: "'c \<Rightarrow> 'a \<Rightarrow> 's \<Rightarrow> bool \<times> 's" and get :: "'c \<Rightarrow> 's \<Rightarrow> 'a option \<times> 's"
  assumes bounded: "ok s \<Longrightarrow> length (items s) \<le> cap s"
    and put_room: "ok s \<Longrightarrow> valid s a \<Longrightarrow> length (items s) < cap s \<Longrightarrow> fst (put c a s) \<and> items (snd (put c a s)) = items s @ [a]"
    and put_full: "ok s \<Longrightarrow> length (items s) = cap s \<Longrightarrow> \<not> fst (put c a s) \<and> items (snd (put c a s)) = items s"
    and put_ok: "ok s \<Longrightarrow> valid s a \<Longrightarrow> ok (snd (put c a s)) \<and> cap (snd (put c a s)) = cap s \<and> valid (snd (put c a s)) = valid s"
    and get_some: "ok s \<Longrightarrow> items s = a # as \<Longrightarrow> fst (get c s) = Some a \<and> items (snd (get c s)) = as"
    and get_none: "ok s \<Longrightarrow> items s = [] \<Longrightarrow> fst (get c s) = None \<and> items (snd (get c s)) = []"
    and get_ok: "ok s \<Longrightarrow> ok (snd (get c s)) \<and> cap (snd (get c s)) = cap s \<and> valid (snd (get c s)) = valid s"
begin

lemma put_step:
  assumes "ok s" "valid s a"
  shows "items (snd (put c a s)) = items s @ (if fst (put c a s) then [a] else [])"
    and "fst (put c a s) \<longleftrightarrow> length (items s) < cap s"
  using bounded [OF assms(1)] put_room [OF assms] put_full [OF assms(1)] by (cases "length (items s) < cap s"; simp)+

lemma get_step:
  assumes "ok s"
  shows "items s = (case fst (get c s) of None \<Rightarrow> [] | Some a \<Rightarrow> [a]) @ items (snd (get c s))"
  using get_some [OF assms] get_none [OF assms] by (cases "items s") auto

text \<open>Whatever the history: what was handed out, followed by what is still stored, is what was stored
  at the beginning followed by what was accepted. Nothing is lost, duplicated or reordered.\<close>

lemma run_fifo:
  assumes "ok s" "list_all (op_valid (valid s)) ops" "fifo_run put get ops s = (accepted, received, s')"
  shows "ok s' \<and> received @ items s' = items s @ accepted \<and> cap s' = cap s"
  using assms
proof (induction ops arbitrary: s accepted received)
  case Nil
  then show ?case by simp
next
  case (Cons o0 ops)
  show ?case
  proof (cases o0)
    case (Put c a)
    obtain acc where r: "fifo_run put get ops (snd (put c a s)) = (acc, received, s')"
      "accepted = (if fst (put c a s) then a # acc else acc)"
      using Cons.prems(3) Put by (cases "fifo_run put get ops (snd (put c a s))") (auto simp: case_prod_beta Let_def)
    have v: "valid s a" using Cons.prems(2) Put by simp
    note p = put_ok [OF Cons.prems(1) v, of c] put_step [OF Cons.prems(1) v, of c]
    from Cons.IH [OF _ _ r(1)] p Cons.prems(2) r(2) show ?thesis by auto
  next
    case (Get c)
    obtain rec where r: "fifo_run put get ops (snd (get c s)) = (accepted, rec, s')"
      "received = (case fst (get c s) of None \<Rightarrow> rec | Some b \<Rightarrow> b # rec)"
      using Cons.prems(3) Get by (cases "fifo_run put get ops (snd (get c s))") (auto simp: case_prod_beta Let_def split: option.splits)
    note g = get_ok [OF Cons.prems(1), of c] get_step [OF Cons.prems(1), of c]
    from Cons.IH [OF _ _ r(1)] g Cons.prems(2) r(2) show ?thesis by (auto split: option.splits)
  qed
qed

end

end
