(* ===== verification/QueueFifo.thy ===== *)
theory QueueFifo
  imports Queue BoundedFifo
begin

text \<open>
  The storage area of a queue as a ring of slots, the items it holds, and the proof that the queue calls
  implement a bounded first-in first-out buffer: the queue is an interpretation of the contract
  \<open>bounded_fifo\<close>. Also that only the storage area is written, and what creation sets up.
\<close>

subsection \<open>The storage area as a ring of slots\<close>

definition slot :: "queue_t \<Rightarrow> nat \<Rightarrow> nat" where
  "slot q i = pcHead q + (i mod uxLength q) * uxItemSize q"

definition ring_at :: "nat \<Rightarrow> queue_t \<Rightarrow> bool" where
  "ring_at r q \<longleftrightarrow> 0 < uxItemSize q \<and> r < uxLength q \<and> pcTail q = pcHead q + uxLength q * uxItemSize q \<and>
     uxMessagesWaiting q \<le> uxLength q \<and> pcReadFrom q = slot q r \<and> pcWriteTo q = slot q (r + 1 + uxMessagesWaiting q)"

definition read_index :: "queue_t \<Rightarrow> nat" where
  "read_index q = (pcReadFrom q - pcHead q) div uxItemSize q"

definition ring_ok :: "queue_t \<Rightarrow> bool" where
  "ring_ok q \<longleftrightarrow> ring_at (read_index q) q"

definition ring_items :: "queue_t \<times> bytes \<Rightarrow> u8 list list" where
  "ring_items = (\<lambda>(q, m). map (\<lambda>i. read_bytes (slot q (read_index q + 1 + i)) (uxItemSize q) m) [0..<uxMessagesWaiting q])"

lemma ring_at_index: "ring_at r q \<Longrightarrow> read_index q = r"
  by (simp add: ring_at_def read_index_def slot_def)

lemma ring_okI: "ring_at r q \<Longrightarrow> ring_ok q"
  by (simp add: ring_ok_def ring_at_index)

lemma slot_apart:
  assumes "i mod uxLength q \<noteq> j mod uxLength q"
  shows "slot q i + uxItemSize q \<le> slot q j \<or> slot q j + uxItemSize q \<le> slot q i"
proof -
  have *: "a * uxItemSize q + uxItemSize q \<le> b * uxItemSize q" if "a < b" for a b
    using mult_le_mono1 [of "Suc a" b "uxItemSize q"] that by simp
  show ?thesis using assms * by (auto simp: slot_def neq_iff)
qed

lemma slot_mod [simp]: "slot q (i mod uxLength q) = slot q i"
  by (simp add: slot_def)

lemma slot_bounds:
  assumes "0 < uxLength q"
  shows "pcHead q \<le> slot q i" "slot q i + uxItemSize q \<le> pcHead q + uxLength q * uxItemSize q"
proof -
  have "i mod uxLength q < uxLength q" using assms by simp
  then show "slot q i + uxItemSize q \<le> pcHead q + uxLength q * uxItemSize q"
    using mult_le_mono1 [of "Suc (i mod uxLength q)" "uxLength q" "uxItemSize q"] by (simp add: slot_def)
qed (simp add: slot_def)

text \<open>The pointer arithmetic of the copy functions steps round the ring.\<close>

lemma slot_Suc:
  assumes "0 < uxLength q" "0 < uxItemSize q"
  shows "(if slot q i + uxItemSize q \<ge> pcHead q + uxLength q * uxItemSize q then pcHead q else slot q i + uxItemSize q) = slot q (Suc i)"
proof -
  let ?n = "uxLength q" and ?z = "uxItemSize q" and ?a = "i mod uxLength q"
  have a: "?a < ?n" using assms by simp
  have e: "?n * ?z \<le> ?a * ?z + ?z \<longleftrightarrow> Suc ?a = ?n"
  proof -
    have "?a * ?z + ?z = Suc ?a * ?z" by simp
    then have "?n * ?z \<le> ?a * ?z + ?z \<longleftrightarrow> ?n \<le> Suc ?a" using assms by (metis mult_le_cancel2)
    then show ?thesis using a by auto
  qed
  show ?thesis using e a by (auto simp: slot_def mod_Suc)
qed

lemma slot_pred:
  assumes "r < uxLength q" "0 < uxItemSize q"
  shows "(if int (slot q r) - int (uxItemSize q) < int (pcHead q) then pcHead q + uxLength q * uxItemSize q - uxItemSize q
     else slot q r - uxItemSize q) = slot q (r + uxLength q - 1)"
proof (cases r)
  case 0
  obtain n where n: "uxLength q = Suc n" using assms by (cases "uxLength q") auto
  show ?thesis using 0 n assms by (simp add: slot_def)
next
  case (Suc r')
  have "(r + uxLength q - 1) mod uxLength q = r'" using Suc assms by simp
  moreover have "\<not> int r' * int (uxItemSize q) < 0" by (simp add: not_less)
  ultimately show ?thesis using Suc assms by (simp add: slot_def)
qed

text \<open>The slots that hold items differ from the next one to write, and from the one to read.\<close>

lemma mod_shift_neq:
  fixes a b n :: nat
  assumes "a \<noteq> b" "a < b + n" "b < a + n"
  shows "a mod n \<noteq> b mod n"
proof
  assume e: "a mod n = b mod n"
  consider "a < b" | "b < a" using assms by linarith
  then show False
  proof cases
    case 1
    then have "n dvd b - a" using e mod_eq_dvd_iff_nat [of a b n] by simp
    then show False using 1 assms by (auto dest: dvd_imp_le)
  next
    case 2
    then have "n dvd a - b" using e mod_eq_dvd_iff_nat [of b a n] by simp
    then show False using 2 assms by (auto dest: dvd_imp_le)
  qed
qed

definition bump :: "int \<Rightarrow> queue_t \<Rightarrow> queue_t" where
  "bump d q = q\<lparr>uxMessagesWaiting := nat (int (uxMessagesWaiting q) + d)\<rparr>"

lemma put_back_ring:
  assumes r: "ring_at r q" and c: "uxMessagesWaiting q < uxLength q" and z: "length item = uxItemSize q"
    and e: "copy_to_back item (q, m) = (q', m')"
  shows "ring_at r (bump 1 q')" "ring_items (bump 1 q', m') = ring_items (q, m) @ [item]"
    "q' = q\<lparr>pcWriteTo := slot q (r + 2 + uxMessagesWaiting q)\<rparr>"
proof -
  let ?c = "uxMessagesWaiting q" and ?w = "slot q (r + 1 + uxMessagesWaiting q)"
  have R: "0 < uxLength q" "0 < uxItemSize q" "pcTail q = pcHead q + uxLength q * uxItemSize q" "pcWriteTo q = ?w" "pcReadFrom q = slot q r"
    "read_index q = r" using r by (auto simp: ring_at_def ring_at_index)
  have m': "m' = write_bytes ?w item m" and q': "q' = q\<lparr>pcWriteTo := slot q (Suc (r + 1 + ?c))\<rparr>"
    using e R z slot_Suc [OF R(1,2), of "r + 1 + ?c"] by (auto simp: copy_to_back_def Let_def)
  then show "q' = q\<lparr>pcWriteTo := slot q (r + 2 + ?c)\<rparr>" by simp
  have s: "slot (bump 1 q') = slot q" by (simp add: q' bump_def slot_def fun_eq_iff)
  have f: "uxMessagesWaiting (bump 1 q') = Suc ?c" "uxItemSize (bump 1 q') = uxItemSize q" "uxLength (bump 1 q') = uxLength q"
    "pcHead (bump 1 q') = pcHead q" "pcTail (bump 1 q') = pcTail q" "pcReadFrom (bump 1 q') = pcReadFrom q"
    "pcWriteTo (bump 1 q') = slot q (r + 2 + ?c)"
    by (simp_all add: q' bump_def nat_add_distrib)
  then show g: "ring_at r (bump 1 q')" using r c by (simp add: ring_at_def s)
  have k: "read_bytes (slot q (r + 1 + i)) (uxItemSize q) m' = read_bytes (slot q (r + 1 + i)) (uxItemSize q) m" if "i < ?c" for i
    unfolding m' by (rule read_write_other) (use that c slot_apart [OF mod_shift_neq, of "r + 1 + i" "r + 1 + ?c" q] in \<open>simp add: z\<close>)
  show "ring_items (bump 1 q', m') = ring_items (q, m) @ [item]"
    using k z by (simp add: ring_items_def f s ring_at_index [OF g] R(6)) (simp add: m')
qed

lemma put_front_ring:
  assumes r: "ring_at r q" and c: "uxMessagesWaiting q < uxLength q" and z: "length item = uxItemSize q"
    and e: "copy_to_front item (q, m) = (q', m')"
  shows "ring_at ((r + uxLength q - 1) mod uxLength q) (bump 1 q')" "ring_items (bump 1 q', m') = item # ring_items (q, m)"
    "q' = q\<lparr>pcReadFrom := slot q (r + uxLength q - 1)\<rparr>"
proof -
  let ?c = "uxMessagesWaiting q" and ?n = "uxLength q" and ?r = "(r + uxLength q - 1) mod uxLength q"
  have R: "r < ?n" "0 < uxItemSize q" "pcTail q = pcHead q + uxLength q * uxItemSize q" "pcReadFrom q = slot q r"
    "read_index q = r" using r by (auto simp: ring_at_def ring_at_index)
  have m': "m' = write_bytes (slot q r) item m" and q': "q' = q\<lparr>pcReadFrom := slot q (r + ?n - 1)\<rparr>"
    using e R z slot_pred [OF R(1,2)] by (auto simp: copy_to_front_def Let_def split: if_splits)
  then show "q' = q\<lparr>pcReadFrom := slot q (r + ?n - 1)\<rparr>" by simp
  have s: "slot (bump 1 q') = slot q" by (simp add: q' bump_def slot_def fun_eq_iff)
  have f: "uxMessagesWaiting (bump 1 q') = Suc ?c" "uxItemSize (bump 1 q') = uxItemSize q" "uxLength (bump 1 q') = ?n"
    "pcHead (bump 1 q') = pcHead q" "pcTail (bump 1 q') = pcTail q" "pcReadFrom (bump 1 q') = slot q ?r"
    "pcWriteTo (bump 1 q') = pcWriteTo q"
    by (simp_all add: q' bump_def nat_add_distrib)
  have a: "slot q (?r + 1 + i) = slot q (r + i)" for i
  proof -
    have "(?r + 1 + i) mod ?n = (r + ?n - 1 + (1 + i)) mod ?n" by (metis mod_add_left_eq add.assoc)
    also have "\<dots> = (r + i) mod ?n" using R(1) by (simp add: mod_if)
    finally show ?thesis by (simp add: slot_def)
  qed
  show g: "ring_at ?r (bump 1 q')" using r c a [of "Suc ?c"] by (simp add: ring_at_def s f)
  have k: "read_bytes (slot q (r + 1 + i)) (uxItemSize q) m' = read_bytes (slot q (r + 1 + i)) (uxItemSize q) m" if "i < ?c" for i
    unfolding m' by (rule read_write_other) (use that c slot_apart [OF mod_shift_neq, of "r + 1 + i" r q] in \<open>simp add: z\<close>)
  have u: "[0..<Suc ?c] = 0 # map Suc [0..<?c]" by (simp add: map_Suc_upt upt_conv_Cons)
  show "ring_items (bump 1 q', m') = item # ring_items (q, m)"
    using k z a by (simp add: ring_items_def f s ring_at_index [OF g] R(5) u del: upt_Suc) (simp add: m')
qed

lemma get_ring:
  assumes r: "ring_at r q" and c: "0 < uxMessagesWaiting q" and e: "copy_from (q, m) = (b, q')"
  shows "ring_at (Suc r mod uxLength q) (bump (- 1) q')" "ring_items (q, m) = b # ring_items (bump (- 1) q', m)"
    "q' = q\<lparr>pcReadFrom := slot q (Suc r)\<rparr>" "length b = uxItemSize q"
proof -
  let ?c = "uxMessagesWaiting q" and ?n = "uxLength q" and ?r = "Suc r mod uxLength q"
  have R: "0 < ?n" "0 < uxItemSize q" "pcTail q = pcHead q + uxLength q * uxItemSize q" "pcReadFrom q = slot q r"
    "read_index q = r" using r by (auto simp: ring_at_def ring_at_index)
  have b: "b = read_bytes (slot q (Suc r)) (uxItemSize q) m" and q': "q' = q\<lparr>pcReadFrom := slot q (Suc r)\<rparr>"
    using e R slot_Suc [OF R(1,2), of r] by (auto simp: copy_from_def Let_def split: if_splits)
  then show "q' = q\<lparr>pcReadFrom := slot q (Suc r)\<rparr>" "length b = uxItemSize q" by (simp_all add: read_bytes_def)
  have s: "slot (bump (- 1) q') = slot q" by (simp add: q' bump_def slot_def fun_eq_iff)
  obtain c' where c': "?c = Suc c'" using c by (cases ?c) auto
  have f: "uxMessagesWaiting (bump (- 1) q') = c'" "uxItemSize (bump (- 1) q') = uxItemSize q" "uxLength (bump (- 1) q') = ?n"
    "pcHead (bump (- 1) q') = pcHead q" "pcTail (bump (- 1) q') = pcTail q" "pcReadFrom (bump (- 1) q') = slot q ?r"
    "pcWriteTo (bump (- 1) q') = pcWriteTo q"
    by (simp_all add: q' bump_def c')
  have a: "slot q (?r + 1 + i) = slot q (r + 2 + i)" for i
    unfolding slot_def by (metis add.assoc add_2_eq_Suc' add_Suc_right mod_add_left_eq plus_1_eq_Suc add.commute)
  show g: "ring_at ?r (bump (- 1) q')" using r c' a [of c'] by (simp add: ring_at_def s f)
  have u: "[0..<Suc c'] = 0 # map Suc [0..<c']" by (simp add: map_Suc_upt upt_conv_Cons)
  show "ring_items (q, m) = b # ring_items (bump (- 1) q', m)"
    using a b by (simp add: ring_items_def f s ring_at_index [OF g] R(5) u c' del: upt_Suc)
qed

subsection \<open>Queues of the system\<close>

definition queue_ok :: "nat \<Rightarrow> qsys \<Rightarrow> bool" where
  "queue_ok x s \<longleftrightarrow> ring_ok (queues s x)"

definition queue_items :: "nat \<Rightarrow> qsys \<Rightarrow> u8 list list" where
  "queue_items x s = ring_items (queues s x, qmem s)"

lemma ring_lock_upd [simp]:
  "ring_ok (q\<lparr>cTxLock := v\<rparr>) = ring_ok q" "ring_ok (q\<lparr>cRxLock := v\<rparr>) = ring_ok q"
  "ring_items (q\<lparr>cTxLock := v\<rparr>, m) = ring_items (q, m)" "ring_items (q\<lparr>cRxLock := v\<rparr>, m) = ring_items (q, m)"
  by (simp_all add: ring_ok_def ring_at_def read_index_def slot_def ring_items_def)

lemma length_ring_items [simp]: "length (ring_items (q, m)) = uxMessagesWaiting q"
  by (simp add: ring_items_def)

lemma on_kern_fields [simp]:
  "queues (on_kern f s) = queues s" "qmem (on_kern f s) = qmem s" "xQueueRegistry (on_kern f s) = xQueueRegistry s" "kern (on_kern f s) = f (kern s)"
  by (simp_all add: on_kern_def)

lemma on_kern'_fields [simp]:
  "queues (snd (on_kern' f s)) = queues s" "qmem (snd (on_kern' f s)) = qmem s"
  "xQueueRegistry (snd (on_kern' f s)) = xQueueRegistry s" "kern (snd (on_kern' f s)) = snd (f (kern s))" "fst (on_kern' f s) = fst (f (kern s))"
  by (simp_all add: on_kern'_def case_prod_beta Let_def)

lemma wake_fields_q [simp]:
  "queues (wake_one l s) = queues s" "qmem (wake_one l s) = qmem s"
  "queues (snd (wake_one_from_isr l s)) = queues s" "qmem (snd (wake_one_from_isr l s)) = qmem s"
  by (simp_all add: wake_one_def wake_one_from_isr_def case_prod_beta Let_def)

lemma upd_queue_fields [simp]:
  "queues (upd_queue x f s) = (queues s)(x := f (queues s x))" "qmem (upd_queue x f s) = qmem s" "kern (upd_queue x f s) = kern s"
  by (simp_all add: upd_queue_def)

text \<open>A copy into a queue with items, for each position.\<close>

lemma copy_data_to_back:
  assumes ok: "queue_ok x s" and c: "uxMessagesWaiting (queues s x) < uxLength (queues s x)" and z: "length item = uxItemSize (queues s x)"
  shows "\<exists>q m. ring_ok q \<and> ring_items (q, m) = queue_items x s @ [item] \<and>
     prvCopyDataToQueue x item queueSEND_TO_BACK s = (False, s\<lparr>queues := (queues s)(x := q), qmem := m\<rparr>) \<and>
     uxLength q = uxLength (queues s x) \<and> uxItemSize q = uxItemSize (queues s x) \<and> cTxLock q = cTxLock (queues s x)"
proof -
  obtain q' m' where e: "copy_to_back item (queues s x, qmem s) = (q', m')" by (cases "copy_to_back item (queues s x, qmem s)")
  note p = put_back_ring [OF ok [unfolded queue_ok_def ring_ok_def] c z e]
  have "0 < uxItemSize (queues s x)" using ok by (simp add: queue_ok_def ring_ok_def ring_at_def)
  then have "prvCopyDataToQueue x item queueSEND_TO_BACK s = (False, s\<lparr>queues := (queues s)(x := bump 1 q'), qmem := m'\<rparr>)"
    by (simp add: prvCopyDataToQueue_def e Let_def upd_queue_def bump_def nat_add_distrib p(3))
  then show ?thesis using p ring_okI [OF p(1)] unfolding queue_items_def
    by (intro exI [of _ "bump 1 q'"] exI [of _ m']) (simp add: bump_def)
qed

lemma copy_data_to_front:
  assumes ok: "queue_ok x s" and c: "uxMessagesWaiting (queues s x) < uxLength (queues s x)" and z: "length item = uxItemSize (queues s x)"
  shows "\<exists>q m. ring_ok q \<and> ring_items (q, m) = item # queue_items x s \<and>
     prvCopyDataToQueue x item queueSEND_TO_FRONT s = (False, s\<lparr>queues := (queues s)(x := q), qmem := m\<rparr>) \<and>
     uxLength q = uxLength (queues s x) \<and> uxItemSize q = uxItemSize (queues s x) \<and> cTxLock q = cTxLock (queues s x)"
proof -
  obtain q' m' where e: "copy_to_front item (queues s x, qmem s) = (q', m')" by (cases "copy_to_front item (queues s x, qmem s)")
  note p = put_front_ring [OF ok [unfolded queue_ok_def ring_ok_def] c z e]
  have "0 < uxItemSize (queues s x)" using ok by (simp add: queue_ok_def ring_ok_def ring_at_def)
  then have "prvCopyDataToQueue x item queueSEND_TO_FRONT s = (False, s\<lparr>queues := (queues s)(x := bump 1 q'), qmem := m'\<rparr>)"
    by (simp add: prvCopyDataToQueue_def e Let_def upd_queue_def bump_def nat_add_distrib p(3))
  then show ?thesis using p ring_okI [OF p(1)] unfolding queue_items_def
    by (intro exI [of _ "bump 1 q'"] exI [of _ m']) (simp add: bump_def)
qed

lemma copy_data_from:
  assumes ok: "queue_ok x s" and c: "0 < uxMessagesWaiting (queues s x)"
  shows "\<exists>b q. queue_items x s = b # ring_items (bump (- 1) q, qmem s) \<and> ring_ok (bump (- 1) q) \<and>
     prvCopyDataFromQueue x s = (Some b, s\<lparr>queues := (queues s)(x := q)\<rparr>) \<and> uxMessagesWaiting q = uxMessagesWaiting (queues s x) \<and>
     uxLength q = uxLength (queues s x) \<and> uxItemSize q = uxItemSize (queues s x) \<and> cRxLock q = cRxLock (queues s x) \<and>
     q\<lparr>pcReadFrom := pcReadFrom (queues s x)\<rparr> = queues s x"
proof -
  obtain b q' where e: "copy_from (queues s x, qmem s) = (b, q')" by (cases "copy_from (queues s x, qmem s)")
  note p = get_ring [OF ok [unfolded queue_ok_def ring_ok_def] c e]
  have "0 < uxItemSize (queues s x)" using ok by (simp add: queue_ok_def ring_ok_def ring_at_def)
  then have "prvCopyDataFromQueue x s = (Some b, s\<lparr>queues := (queues s)(x := q')\<rparr>)"
    by (simp add: prvCopyDataFromQueue_def e)
  then show ?thesis using p(2,3) ring_okI [OF p(1)] unfolding queue_items_def
    by (intro exI [of _ b] exI [of _ q']) simp
qed

subsection \<open>The calls\<close>

text \<open>A send or receive that does not wait, from a task or from an interrupt.\<close>

definition queue_send :: "gaps \<Rightarrow> nat \<Rightarrow> caller \<Rightarrow> u8 list \<Rightarrow> qsys \<Rightarrow> bool \<times> qsys" where
  "queue_send g x c item s =
     (case c of
        from_task \<Rightarrow> (case xQueueGenericSend [g] x item queueSEND_TO_BACK 0 None s of Some rs \<Rightarrow> rs | None \<Rightarrow> (False, s))
      | from_isr \<Rightarrow> let ((r, woken), s) = xQueueGenericSendFromISR x item queueSEND_TO_BACK s in (r, s))"

definition queue_receive :: "gaps \<Rightarrow> nat \<Rightarrow> caller \<Rightarrow> qsys \<Rightarrow> u8 list option \<times> qsys" where
  "queue_receive g x c s =
     (case c of
        from_task \<Rightarrow> (case xQueueReceive [g] x 0 None s of Some ((r, b), s) \<Rightarrow> (b, s) | None \<Rightarrow> (None, s))
      | from_isr \<Rightarrow> let ((r, b, woken), s) = xQueueReceiveFromISR x s in (b, s))"

lemma ring_ok_le: "ring_ok q \<Longrightarrow> uxMessagesWaiting q \<le> uxLength q"
  by (simp add: ring_ok_def ring_at_def)

lemma queue_send_room:
  assumes ok: "queue_ok x s" and c: "uxMessagesWaiting (queues s x) < uxLength (queues s x)" and z: "length item = uxItemSize (queues s x)"
  shows "fst (queue_send g x w item s)" "queue_ok x (snd (queue_send g x w item s))"
    "queue_items x (snd (queue_send g x w item s)) = queue_items x s @ [item]"
    "uxLength (queues (snd (queue_send g x w item s)) x) = uxLength (queues s x)"
    "uxItemSize (queues (snd (queue_send g x w item s)) x) = uxItemSize (queues s x)"
proof -
  obtain q m where *: "ring_ok q" "ring_items (q, m) = queue_items x s @ [item]"
    "prvCopyDataToQueue x item queueSEND_TO_BACK s = (False, s\<lparr>queues := (queues s)(x := q), qmem := m\<rparr>)"
    "uxLength q = uxLength (queues s x)" "uxItemSize q = uxItemSize (queues s x)" "cTxLock q = cTxLock (queues s x)"
    using copy_data_to_back [OF ok c z] by blast
  note d = queue_send_def xQueueGenericSend_try_def xQueueGenericSendFromISR_def case_prod_beta Let_def queue_ok_def
  show "fst (queue_send g x w item s)" using * c by (cases w) (simp_all add: d)
  show "queue_ok x (snd (queue_send g x w item s))" using * c by (cases w) (simp_all add: d)
  show "queue_items x (snd (queue_send g x w item s)) = queue_items x s @ [item]" using * c by (cases w) (simp_all add: d queue_items_def)
  show "uxLength (queues (snd (queue_send g x w item s)) x) = uxLength (queues s x)" using * c by (cases w) (simp_all add: d)
  show "uxItemSize (queues (snd (queue_send g x w item s)) x) = uxItemSize (queues s x)" using * c by (cases w) (simp_all add: d)
qed

lemma queue_send_full:
  assumes "\<not> uxMessagesWaiting (queues s x) < uxLength (queues s x)"
  shows "queue_send g x w item s = (False, s)"
  using assms by (cases w) (simp_all add: queue_send_def xQueueGenericSend_try_def xQueueGenericSendFromISR_def)

lemma queue_receive_some:
  assumes ok: "queue_ok x s" and c: "0 < uxMessagesWaiting (queues s x)"
  shows "queue_items x s = the (fst (queue_receive g x w s)) # queue_items x (snd (queue_receive g x w s))"
    "fst (queue_receive g x w s) \<noteq> None" "queue_ok x (snd (queue_receive g x w s))"
    "uxLength (queues (snd (queue_receive g x w s)) x) = uxLength (queues s x)"
    "uxItemSize (queues (snd (queue_receive g x w s)) x) = uxItemSize (queues s x)"
proof -
  obtain b q where *: "queue_items x s = b # ring_items (bump (- 1) q, qmem s)" "ring_ok (bump (- 1) q)"
    "prvCopyDataFromQueue x s = (Some b, s\<lparr>queues := (queues s)(x := q)\<rparr>)" "uxMessagesWaiting q = uxMessagesWaiting (queues s x)"
    "uxLength q = uxLength (queues s x)" "uxItemSize q = uxItemSize (queues s x)" "cRxLock q = cRxLock (queues s x)"
    using copy_data_from [OF ok c] by blast
  have u: "q\<lparr>uxMessagesWaiting := uxMessagesWaiting (queues s x) - Suc 0\<rparr> = bump (- 1) q" using c *(4) by (simp add: bump_def nat_diff_distrib)
  note d = queue_receive_def xQueueReceive_try_def xQueueReceiveFromISR_def case_prod_beta Let_def queue_ok_def u
  show "fst (queue_receive g x w s) \<noteq> None" using * c by (cases w) (simp_all add: d)
  show "queue_ok x (snd (queue_receive g x w s))" using * c by (cases w) (simp_all add: d)
  show "queue_items x s = the (fst (queue_receive g x w s)) # queue_items x (snd (queue_receive g x w s))"
    using * c by (cases w) (simp_all add: d queue_items_def)
  show "uxLength (queues (snd (queue_receive g x w s)) x) = uxLength (queues s x)" using * c by (cases w) (simp_all add: d bump_def)
  show "uxItemSize (queues (snd (queue_receive g x w s)) x) = uxItemSize (queues s x)" using * c by (cases w) (simp_all add: d bump_def)
qed

lemma queue_receive_none:
  assumes "uxMessagesWaiting (queues s x) = 0"
  shows "queue_receive g x w s = (None, s)"
  using assms by (cases w) (simp_all add: queue_receive_def xQueueReceive_try_def xQueueReceiveFromISR_def)

definition queue_cap :: "nat \<Rightarrow> qsys \<Rightarrow> nat" where "queue_cap x s = uxLength (queues s x)"

definition queue_fits :: "nat \<Rightarrow> qsys \<Rightarrow> u8 list \<Rightarrow> bool" where "queue_fits x s item \<longleftrightarrow> length item = uxItemSize (queues s x)"

interpretation queue: bounded_fifo "queue_ok x" "queue_items x" "queue_cap x" "queue_fits x" "queue_send g x" "queue_receive g x"
  for x g
proof
  fix s a as c
  show "length (queue_items x s) \<le> queue_cap x s" if "queue_ok x s"
    using that by (simp add: queue_items_def queue_cap_def queue_ok_def ring_ok_le)
  show "fst (queue_send g x c a s) \<and> queue_items x (snd (queue_send g x c a s)) = queue_items x s @ [a]"
    if "queue_ok x s" "queue_fits x s a" "length (queue_items x s) < queue_cap x s"
    using that queue_send_room [of x s a g c] by (simp add: queue_cap_def queue_fits_def queue_items_def)
  show "\<not> fst (queue_send g x c a s) \<and> queue_items x (snd (queue_send g x c a s)) = queue_items x s"
    if "queue_ok x s" "length (queue_items x s) = queue_cap x s"
    using that queue_send_full [of s x g c a] by (simp add: queue_cap_def queue_items_def)
  show "queue_ok x (snd (queue_send g x c a s)) \<and> queue_cap x (snd (queue_send g x c a s)) = queue_cap x s \<and>
      queue_fits x (snd (queue_send g x c a s)) = queue_fits x s" if "queue_ok x s" "queue_fits x s a"
    using that queue_send_full [of s x g c a] queue_send_room [of x s a g c]
    by (cases "uxMessagesWaiting (queues s x) < uxLength (queues s x)") (simp_all add: queue_cap_def queue_fits_def fun_eq_iff)
  show "fst (queue_receive g x c s) = Some a \<and> queue_items x (snd (queue_receive g x c s)) = as"
    if "queue_ok x s" "queue_items x s = a # as"
  proof -
    have "length (queue_items x s) = Suc (length as)" using that by simp
    then have "0 < uxMessagesWaiting (queues s x)" by (simp add: queue_items_def)
    from queue_receive_some [OF that(1) this, of g c] that show ?thesis by auto
  qed
  show "fst (queue_receive g x c s) = None \<and> queue_items x (snd (queue_receive g x c s)) = []" if "queue_ok x s" "queue_items x s = []"
  proof -
    have "length (queue_items x s) = 0" using that by simp
    then have "uxMessagesWaiting (queues s x) = 0" unfolding queue_items_def by simp
    with that show ?thesis by (simp add: queue_receive_none)
  qed
  show "queue_ok x (snd (queue_receive g x c s)) \<and> queue_cap x (snd (queue_receive g x c s)) = queue_cap x s \<and>
      queue_fits x (snd (queue_receive g x c s)) = queue_fits x s" if "queue_ok x s"
    using that queue_receive_none [of s x g c] queue_receive_some [of x s g c]
    by (cases "uxMessagesWaiting (queues s x) = 0") (simp_all add: queue_cap_def queue_fits_def fun_eq_iff)
qed

subsection \<open>Only the storage area is written\<close>

lemma copy_bounds:
  assumes ok: "queue_ok x s" and a: "a < pcHead (queues s x) \<or> pcTail (queues s x) \<le> a"
  shows "qmem (snd (prvCopyDataToQueue x item pos s)) a = qmem s a"
proof -
  let ?q = "queues s x"
  obtain r where r: "ring_at r ?q" using ok by (auto simp: queue_ok_def ring_ok_def)
  then have R: "0 < uxLength ?q" "0 < uxItemSize ?q" "pcTail ?q = pcHead ?q + uxLength ?q * uxItemSize ?q"
    "pcReadFrom ?q = slot ?q r" "pcWriteTo ?q = slot ?q (r + 1 + uxMessagesWaiting ?q)" by (auto simp: ring_at_def)
  have w: "write_bytes (slot ?q i) (take (uxItemSize ?q) item) m a = m a" for i m
    using slot_bounds [OF R(1), of i] a R(3) by (auto simp: write_bytes_def min_def)
  show ?thesis using w R by (simp add: prvCopyDataToQueue_def copy_to_back_def copy_to_front_def Let_def)
qed

lemma copy_other_queue:
  assumes "x \<noteq> y" shows "queues (snd (prvCopyDataToQueue x item pos s)) y = queues s y"
  using assms by (simp add: prvCopyDataToQueue_def case_prod_beta Let_def)

definition storage :: "nat \<Rightarrow> qsys \<Rightarrow> nat \<times> nat" where
  "storage x s = (pcHead (queues s x), uxLength (queues s x) * uxItemSize (queues s x))"

text \<open>The items depend on the storage area alone.\<close>

lemma ring_items_local:
  assumes q: "ring_ok q" and m: "\<And>a. pcHead q \<le> a \<Longrightarrow> a < pcTail q \<Longrightarrow> m a = m' a"
  shows "ring_items (q, m) = ring_items (q, m')"
proof -
  have R: "0 < uxLength q" "pcTail q = pcHead q + uxLength q * uxItemSize q" using q by (auto simp: ring_ok_def ring_at_def)
  have "read_bytes (slot q i) (uxItemSize q) m = read_bytes (slot q i) (uxItemSize q) m'" for i
  proof (rule read_bytes_cong)
    fix a assume "slot q i \<le> a" "a < slot q i + uxItemSize q"
    then show "m a = m' a" using slot_bounds [OF R(1), of i] R(2) by (intro m) linarith+
  qed
  then show ?thesis by (simp add: ring_items_def)
qed

lemma copy_keeps_others:
  assumes "queue_ok x s" "queue_ok y s" "x \<noteq> y" "apart (storage x s) (storage y s)"
  shows "queue_items y (snd (prvCopyDataToQueue x item pos s)) = queue_items y s"
proof -
  have "pcTail (queues s x) = pcHead (queues s x) + uxLength (queues s x) * uxItemSize (queues s x)"
    "pcTail (queues s y) = pcHead (queues s y) + uxLength (queues s y) * uxItemSize (queues s y)"
    using assms(1,2) by (auto simp: queue_ok_def ring_ok_def ring_at_def)
  then have "ring_items (queues s y, qmem (snd (prvCopyDataToQueue x item pos s))) = ring_items (queues s y, qmem s)"
    using assms by (intro ring_items_local copy_bounds) (auto simp: queue_ok_def storage_def apart_def)
  then show ?thesis using assms(3) by (simp add: queue_items_def copy_other_queue)
qed

subsection \<open>Creation\<close>

lemma ring_fresh:
  assumes "0 < n" "0 < z" "uxLength q = n" "uxItemSize q = z" "pcTail q = pcHead q + n * z" "uxMessagesWaiting q = 0"
    "pcWriteTo q = pcHead q" "pcReadFrom q = pcHead q + (n - 1) * z"
  shows "ring_ok q" "ring_items (q, m) = []"
proof -
  have "ring_at (n - 1) q" using assms by (simp add: ring_at_def slot_def)
  then show "ring_ok q" by (rule ring_okI)
  show "ring_items (q, m) = []" using assms by (simp add: ring_items_def)
qed

lemma create_eq:
  assumes "pvPortMalloc ((sizeof_Queue + queue_bytes n z) mod 2 ^ 32) (kern s) = (x, k)" "0 < z"
  shows "xQueueGenericCreate n z s = (x, if x = 0 then s\<lparr>kern := k\<rparr> else
     s\<lparr>kern := list_initialise (TasksWaitingToReceive x) (list_initialise (TasksWaitingToSend x) k),
       queues := (queues s)(x := (queues s x)\<lparr>pcHead := x + sizeof_Queue, uxLength := n, uxItemSize := z,
         pcTail := x + sizeof_Queue + n * z, uxMessagesWaiting := 0, pcWriteTo := x + sizeof_Queue,
         pcReadFrom := x + sizeof_Queue + (n - 1) * z, cRxLock := queueUNLOCKED, cTxLock := queueUNLOCKED\<rparr>)\<rparr>)"
  using assms by (simp add: xQueueGenericCreate_def on_kern'_def prvInitialiseNewQueue_def xQueueGenericReset_def upd_queue_def on_kern_def Let_def)

lemma malloc_regions:
  assumes k: "kinv k" "uxSchedulerSuspended k = 0" and R: "heap_rep (heap k) R" "disjoint_regions R" and n: "n < 2 ^ 32"
  obtains (null) k' where "pvPortMalloc n k = (0, k')" "heap k' = heap k" "kinv k'"
  | (got) p len k' where "pvPortMalloc n k = (p, k')" "0 < p" "n \<le> len" "heap_rep (heap k') (insert (p, len) R)"
      "\<forall>r\<in>R. apart (p, len) r" "disjoint_regions (insert (p, len) R)" "kinv k'"
proof -
  from heap4.malloc_law [OF R(1) n] show ?thesis
  proof
    assume "pvPortMalloc_body n (heap k) = Some (0, heap k)"
    from malloc_wrapper [OF k this] obtain k' where "pvPortMalloc n k = (0, k')" "kinv k'" "stays (k\<lparr>heap := heap k\<rparr>) k'" by blast
    then show ?thesis using null [of k'] by (simp add: stays_def keeps_def)
  next
    assume "\<exists>p len h'. pvPortMalloc_body n (heap k) = Some (p, h') \<and> 0 < p \<and> n \<le> len \<and> 0 < len \<and> heap_rep h' (insert (p, len) R) \<and>
       (\<forall>r\<in>R. apart (p, len) r)"
    then obtain p len h' where m: "pvPortMalloc_body n (heap k) = Some (p, h')" "0 < p" "n \<le> len" "0 < len"
      "heap_rep h' (insert (p, len) R)" "\<forall>r\<in>R. apart (p, len) r" by blast
    have "disjoint_regions (insert (p, len) R)" using m R(2) by (auto simp: disjoint_regions_def apart_sym)
    moreover from malloc_wrapper [OF k m(1)] obtain k' where "pvPortMalloc n k = (p, k')" "kinv k'" "stays (k\<lparr>heap := h'\<rparr>) k'" by blast
    ultimately show ?thesis using got [of p k' len] m by (simp add: stays_def keeps_def)
  qed
qed

lemma list_initialise_keeps [simp]: "heap (list_initialise l k) = heap k"
  by (simp add: list_initialise_def)

end
