(* ===== verification/EventLists.thy ===== *)
theory EventLists
  imports KernelSystem
begin

text \<open>
  The event lists seen from the components that block tasks on them: what taking the first task off a
  list, putting the running task on one and resuming the scheduler change.
\<close>

text \<open>Taking the first task off a list of waiting tasks, in full.\<close>

lemma remove_event_spec:
  assumes k: "kinv k" and l: "event_list l" and i: "xl_items (lists k l) = i # js"
  defines "t \<equiv> item_owner i" and "k' \<equiv> snd (xTaskRemoveFromEventList l k)"
  shows "i = EventItem t" "kinv k'" "xl_items (lists k' l) = js" "\<And>m. event_list m \<Longrightarrow> m \<noteq> l \<Longrightarrow> lists k' m = lists k m"
    "fst (xTaskRemoveFromEventList l k) \<longleftrightarrow> cur_prio k < prio k t"
    "ctn k' = (if uxSchedulerSuspended k = 0 then (ctn k)(EventItem t := None, StateItem t \<mapsto> ReadyTasksLists (prio k t))
       else (ctn k)(EventItem t \<mapsto> PendingReadyList))"
    "tcb k' = tcb k" "pxCurrentTCB k' = pxCurrentTCB k" "uxSchedulerSuspended k' = uxSchedulerSuspended k"
    "uxCurrentNumberOfTasks k' = uxCurrentNumberOfTasks k" "pendsv k' = pendsv k" "xTickCount k' = xTickCount k"
    "xYieldPending k' \<longleftrightarrow> xYieldPending k \<or> cur_prio k < prio k t"
proof -
  note K = kinvD [OF kinv_kinvp [OF k]]
  have ne: "\<not> list_is_empty l k" and hd: "list_head l k = i" using i by (simp_all add: list_is_empty_def list_head_def)
  have c: "ctn k i = Some l" using lists_wf_ctn [OF K(1), of i l] i by simp
  show e: "i = EventItem t" using fitsD [OF K(2) c] l by (cases i) (auto simp: t_def event_list_def)
  note c' = c [unfolded e]
  show "kinv k'" unfolding k'_def
    using kinv_xTaskRemoveFromEventList [OF k c] event_list_fits [OF l] by blast
  obtain sl where s: "ctn k (StateItem t) = Some sl" using K(8) c' by (auto simp: waits_ok_def)
  define k1 where "k1 = snd (list_remove (EventItem t) k)"
  define k2 where "k2 = (if uxSchedulerSuspended k = 0 then prvAddTaskToReadyList t (snd (list_remove (StateItem t) k1))
     else list_insert_end PendingReadyList (EventItem t) k1)"
  have F1: "ctn k1 = (ctn k)(EventItem t := None)" "tcb k1 = tcb k" "pxCurrentTCB k1 = pxCurrentTCB k"
    "uxSchedulerSuspended k1 = uxSchedulerSuspended k" "uxCurrentNumberOfTasks k1 = uxCurrentNumberOfTasks k" "pendsv k1 = pendsv k"
    "xTickCount k1 = xTickCount k" "xYieldPending k1 = xYieldPending k"
    "lists k1 = (lists k)(l := xl_remove (EventItem t) (lists k l))"
    using c' by (simp_all add: k1_def list_remove_def)
  have s1: "ctn k1 (StateItem t) = Some sl" using s by (simp add: F1)
  have fs: "item_fits (StateItem t) sl" by (rule fitsD [OF K(2) s])
  have F2: "ctn k2 = (if uxSchedulerSuspended k = 0 then (ctn k)(EventItem t := None, StateItem t \<mapsto> ReadyTasksLists (prio k t))
       else (ctn k)(EventItem t \<mapsto> PendingReadyList))" "tcb k2 = tcb k" "pxCurrentTCB k2 = pxCurrentTCB k"
    "uxSchedulerSuspended k2 = uxSchedulerSuspended k" "uxCurrentNumberOfTasks k2 = uxCurrentNumberOfTasks k" "pendsv k2 = pendsv k"
    "xTickCount k2 = xTickCount k" "xYieldPending k2 = xYieldPending k"
    using s1 by (simp_all add: k2_def list_remove_def F1 prvAddTaskToReadyList_def list_insert_end_def Let_def)
  have L2: "lists k2 m = (if m = l then xl_remove (EventItem t) (lists k l) else lists k m)" if "event_list m" for m
    using that fs s1 by (auto simp: k2_def list_remove_def F1 prvAddTaskToReadyList_def list_insert_end_def Let_def event_list_def)
  have x: "xTaskRemoveFromEventList l k = (if cur_prio k < prio k t then (True, k2\<lparr>xYieldPending := True\<rparr>) else (False, k2))"
    using ne by (simp add: xTaskRemoveFromEventList_def Let_def hd t_def [symmetric] k1_def [symmetric] k2_def F1(2-4) list_remove_fields [OF s1])
  show "xl_items (lists k' l) = js" using L2 [OF l] i e by (simp add: k'_def x xl_remove_def)
  show "lists k' m = lists k m" if "event_list m" "m \<noteq> l" for m using L2 [OF that(1)] that(2) by (simp add: k'_def x)
  show "fst (xTaskRemoveFromEventList l k) \<longleftrightarrow> cur_prio k < prio k t" "ctn k' = (if uxSchedulerSuspended k = 0 then (ctn k)(EventItem t := None, StateItem t \<mapsto> ReadyTasksLists (prio k t))
       else (ctn k)(EventItem t \<mapsto> PendingReadyList))"
    "tcb k' = tcb k" "pxCurrentTCB k' = pxCurrentTCB k" "uxSchedulerSuspended k' = uxSchedulerSuspended k"
    "uxCurrentNumberOfTasks k' = uxCurrentNumberOfTasks k" "pendsv k' = pendsv k" "xTickCount k' = xTickCount k"
    "xYieldPending k' \<longleftrightarrow> xYieldPending k \<or> cur_prio k < prio k t"
    by (simp_all add: k'_def x F2)
qed

lemma event_lists [simp]: "event_list (TasksWaitingToSend x)" "event_list (TasksWaitingToReceive x)" "event_list (TasksWaitingForBits x)"
  by (auto simp: event_list_def)

lemma place_fields:
  assumes "ctn k (StateItem (pxCurrentTCB k)) = Some l0"
  shows "ctn (vTaskPlaceOnEventList l n k) = (ctn k)(EventItem (pxCurrentTCB k) \<mapsto> l, StateItem (pxCurrentTCB k) \<mapsto>
      (if xTickCount k + n < xTickCount k then pxOverflowDelayedTaskList k else pxDelayedTaskList k))"
    "tcb (vTaskPlaceOnEventList l n k) = tcb k" "pxCurrentTCB (vTaskPlaceOnEventList l n k) = pxCurrentTCB k"
    "uxSchedulerSuspended (vTaskPlaceOnEventList l n k) = uxSchedulerSuspended k"
    "uxCurrentNumberOfTasks (vTaskPlaceOnEventList l n k) = uxCurrentNumberOfTasks k" "uxPendedTicks (vTaskPlaceOnEventList l n k) = uxPendedTicks k"
  using assms by (simp_all add: vTaskPlaceOnEventList_def ctn_block_current prvAddCurrentTaskToDelayedList_def list_remove_def
    Let_def list_insert_def set_item_value_def)

lemma place_list_length:
  assumes k: "kinv k" "may_block k" and l: "event_list l" and n: "n \<noteq> 0"
  shows "list_length l (vTaskPlaceOnEventList l n k) = Suc (list_length l k)"
proof -
  note w = kinvD(1) [OF kinv_kinvp [OF k(1)]] kinvD(1) [OF kinv_kinvp [OF kinv_places(1) [OF k l n]]]
  have c: "ctn k (StateItem (pxCurrentTCB k)) = Some (ReadyTasksLists (cur_prio k))" "ctn k (EventItem (pxCurrentTCB k)) = None"
    using k(2) by (simp_all add: may_block_def cur_ready_def)
  have d: "\<not> event_list (pxDelayedTaskList k)" "\<not> event_list (pxOverflowDelayedTaskList k)"
    using kinvD(3) [OF kinv_kinvp [OF k(1)]] by (auto simp: delay_lists_def event_list_def)
  have "{i. ctn (vTaskPlaceOnEventList l n k) i = Some l} = insert (EventItem (pxCurrentTCB k)) {i. ctn k i = Some l}"
    using c d l by (auto simp: place_fields [OF c(1)] event_list_def split: if_splits)
  then show ?thesis using list_length_card [OF w(1), of l] list_length_card [OF w(2), of l] c(2) by (simp add: card_insert_if)
qed

text \<open>Resuming the scheduler with nothing pending changes no list.\<close>

lemma resume_calm:
  assumes "uxSchedulerSuspended k = 1" "uxPendedTicks k = 0" "list_is_empty PendingReadyList k"
  shows "ctn (snd (xTaskResumeAll k)) = ctn k" "lists (snd (xTaskResumeAll k)) = lists k" "ival (snd (xTaskResumeAll k)) = ival k"
    "tcb (snd (xTaskResumeAll k)) = tcb k" "pxCurrentTCB (snd (xTaskResumeAll k)) = pxCurrentTCB k" "uxSchedulerSuspended (snd (xTaskResumeAll k)) = 0"
    "uxPendedTicks (snd (xTaskResumeAll k)) = 0" "xTickCount (snd (xTaskResumeAll k)) = xTickCount k"
    "uxCurrentNumberOfTasks (snd (xTaskResumeAll k)) = uxCurrentNumberOfTasks k"
  using assms by (simp_all add: xTaskResumeAll_def Let_def resume_pending.simps list_length_def list_is_empty_def portYIELD_def)

lemma pending_empty: "kinv k \<Longrightarrow> uxSchedulerSuspended k = 0 \<Longrightarrow> list_is_empty PendingReadyList k"
  using list_is_empty_iff [OF kinvD(1) [OF kinv_kinvp]] by (auto simp: kinv_def pend_ok_def)

end
