(* ===== verification/QueueWaiting.thy ===== *)
theory QueueWaiting
  imports QueueFifo EventLists
begin

text \<open>
  Tasks that wait on queues: taking a task off a list of waiting tasks, the counting of wake-ups while a
  queue is locked, blocking and being woken, and the invariant of recursive mutexes.
\<close>

subsection \<open>Waking waiting tasks\<close>

lemma kinv_wake_one:
  assumes "kinv (kern s)" "event_list l"
  shows "kinv (kern (wake_one l s))" "kinv (kern (snd (wake_one_from_isr l s)))"
proof -
  have "kinv (snd (xTaskRemoveFromEventList l (kern s)))" if "\<not> list_is_empty l (kern s)"
    using that remove_event_spec(2) [OF assms] by (cases "xl_items (lists (kern s) l)") (auto simp: list_is_empty_def)
  then show "kinv (kern (wake_one l s))" "kinv (kern (snd (wake_one_from_isr l s)))"
    using assms(1) by (simp_all add: wake_one_def wake_one_from_isr_def case_prod_beta Let_def)
qed

text \<open>With the scheduler suspended, unlocking moves the first waiting tasks to the pending list.\<close>

lemma unlock_loop_spec:
  fixes n :: nat
  assumes "kinv k" "event_list l" "uxSchedulerSuspended k > 0"
  defines "k' \<equiv> unlock_loop n l k"
  shows "kinv k' \<and> xl_items (lists k' l) = drop n (xl_items (lists k l)) \<and> (\<forall>m. event_list m \<longrightarrow> m \<noteq> l \<longrightarrow> lists k' m = lists k m) \<and>
    ctn k' = (\<lambda>i. if i \<in> set (take n (xl_items (lists k l))) then Some PendingReadyList else ctn k i) \<and>
    tcb k' = tcb k \<and> pxCurrentTCB k' = pxCurrentTCB k \<and> uxSchedulerSuspended k' = uxSchedulerSuspended k \<and>
    uxCurrentNumberOfTasks k' = uxCurrentNumberOfTasks k \<and> xTickCount k' = xTickCount k"
  unfolding k'_def using assms(1-3)
proof (induction n l k rule: unlock_loop.induct)
  case (1 l k)
  then show ?case by simp
next
  case (2 n l k)
  show ?case
  proof (cases "xl_items (lists k l)")
    case Nil
    then show ?thesis using 2 by (simp add: list_is_empty_def)
  next
    case (Cons i js)
    note S = remove_event_spec [OF 2(2,3) Cons]
    define k1 where "k1 = snd (xTaskRemoveFromEventList l k)"
    define k2 where "k2 = (if fst (xTaskRemoveFromEventList l k) then vTaskMissedYield k1 else k1)"
    have F: "kinv k2" "lists k2 = lists k1" "ctn k2 = ctn k1" "tcb k2 = tcb k1" "pxCurrentTCB k2 = pxCurrentTCB k1"
      "uxSchedulerSuspended k2 = uxSchedulerSuspended k1" "uxCurrentNumberOfTasks k2 = uxCurrentNumberOfTasks k1" "xTickCount k2 = xTickCount k1"
      using S(2) by (simp_all add: k2_def vTaskMissedYield_def k1_def)
    have ne: "\<not> list_is_empty l k" using Cons by (simp add: list_is_empty_def)
    have u: "unlock_loop (Suc n) l k = unlock_loop n l k2" using ne by (simp add: k2_def k1_def case_prod_beta Let_def)
    have c1: "ctn k1 = (ctn k)(i \<mapsto> PendingReadyList)" using S(1,6) 2(4) by (simp add: k1_def)
    have IH: "kinv (unlock_loop n l k2) \<and> xl_items (lists (unlock_loop n l k2) l) = drop n (xl_items (lists k2 l)) \<and>
       (\<forall>m. event_list m \<longrightarrow> m \<noteq> l \<longrightarrow> lists (unlock_loop n l k2) m = lists k2 m) \<and>
       ctn (unlock_loop n l k2) = (\<lambda>i. if i \<in> set (take n (xl_items (lists k2 l))) then Some PendingReadyList else ctn k2 i) \<and>
       tcb (unlock_loop n l k2) = tcb k2 \<and> pxCurrentTCB (unlock_loop n l k2) = pxCurrentTCB k2 \<and>
       uxSchedulerSuspended (unlock_loop n l k2) = uxSchedulerSuspended k2 \<and>
       uxCurrentNumberOfTasks (unlock_loop n l k2) = uxCurrentNumberOfTasks k2 \<and> xTickCount (unlock_loop n l k2) = xTickCount k2"
      by (rule 2(1) [OF ne refl prod.collapse, folded k1_def, folded k2_def])
         (use F S 2 in \<open>simp_all add: k1_def\<close>)
    show ?thesis unfolding u using IH F S(3,4,7-10,12) c1 by (auto simp: k1_def Cons fun_eq_iff)
  qed
qed

subsection \<open>Sends from interrupts while the queue is locked\<close>

definition isr_sends :: "nat \<Rightarrow> u8 list list \<Rightarrow> qsys \<Rightarrow> qsys" where
  "isr_sends x = fold (\<lambda>item s. snd (xQueueGenericSendFromISR x item queueSEND_TO_BACK s))"

lemma isr_send_locked:
  assumes ok: "queue_ok x s" and room: "uxMessagesWaiting (queues s x) < uxLength (queues s x)" and z: "length item = uxItemSize (queues s x)"
    and l: "cTxLock (queues s x) \<noteq> queueUNLOCKED"
  defines "s' \<equiv> snd (xQueueGenericSendFromISR x item queueSEND_TO_BACK s)"
  shows "kern s' = kern s" "queue_ok x s'" "queue_items x s' = queue_items x s @ [item]" "cTxLock (queues s' x) = cTxLock (queues s x) + 1"
    "uxLength (queues s' x) = uxLength (queues s x)" "uxItemSize (queues s' x) = uxItemSize (queues s x)" "cRxLock (queues s' x) = cRxLock (queues s x)"
proof -
  obtain q' m' where e: "copy_to_back item (queues s x, qmem s) = (q', m')" by (cases "copy_to_back item (queues s x, qmem s)")
  note p = put_back_ring [OF ok [unfolded queue_ok_def ring_ok_def] room z e]
  have "0 < uxItemSize (queues s x)" using ok by (simp add: queue_ok_def ring_ok_def ring_at_def)
  then have s': "s' = s\<lparr>queues := (queues s)(x := (bump 1 q')\<lparr>cTxLock := cTxLock (queues s x) + 1\<rparr>), qmem := m'\<rparr>"
    using room l by (simp add: s'_def xQueueGenericSendFromISR_def prvCopyDataToQueue_def e Let_def upd_queue_def bump_def nat_add_distrib p(3))
  show "kern s' = kern s" "queue_ok x s'" "queue_items x s' = queue_items x s @ [item]" "cTxLock (queues s' x) = cTxLock (queues s x) + 1"
    "uxLength (queues s' x) = uxLength (queues s x)" "uxItemSize (queues s' x) = uxItemSize (queues s x)" "cRxLock (queues s' x) = cRxLock (queues s x)"
    using ring_okI [OF p(1)] p(2,3) by (simp_all add: s' queue_ok_def queue_items_def bump_def)
qed

lemma isr_sends_locked:
  assumes "queue_ok x s" "uxMessagesWaiting (queues s x) + length its \<le> uxLength (queues s x)" "\<forall>b \<in> set its. length b = uxItemSize (queues s x)"
    "unat (cTxLock (queues s x)) + length its \<le> 255"
  shows "kern (isr_sends x its s) = kern s \<and> queue_ok x (isr_sends x its s) \<and> queue_items x (isr_sends x its s) = queue_items x s @ its \<and>
    cTxLock (queues (isr_sends x its s) x) = cTxLock (queues s x) + of_nat (length its) \<and> cRxLock (queues (isr_sends x its s) x) = cRxLock (queues s x)"
  using assms
proof (induction its arbitrary: s)
  case Nil
  then show ?case by (simp add: isr_sends_def)
next
  case (Cons b bs)
  let ?s = "snd (xQueueGenericSendFromISR x b queueSEND_TO_BACK s)"
  have l: "cTxLock (queues s x) \<noteq> queueUNLOCKED" using Cons.prems(4) by (auto simp: queueUNLOCKED_def unsigned_minus_1_eq_mask mask_eq_exp_minus_1)
  have room: "uxMessagesWaiting (queues s x) < uxLength (queues s x)" using Cons.prems(2) by simp
  note S = isr_send_locked [OF Cons.prems(1) room _ l, of b]
  have z: "length b = uxItemSize (queues s x)" using Cons.prems(3) by simp
  note S = S [OF z]
  have "length (queue_items x ?s) = Suc (uxMessagesWaiting (queues s x))" unfolding S(3) by (simp add: queue_items_def)
  then have c: "uxMessagesWaiting (queues ?s x) = Suc (uxMessagesWaiting (queues s x))" by (simp add: queue_items_def)
  have "unat (cTxLock (queues s x) + 1) = unat (cTxLock (queues s x)) + 1"
    using Cons.prems(4) by (subst unat_add_lem [THEN iffD1]) auto
  then have "kern (isr_sends x bs ?s) = kern ?s \<and> queue_ok x (isr_sends x bs ?s) \<and> queue_items x (isr_sends x bs ?s) = queue_items x ?s @ bs \<and>
    cTxLock (queues (isr_sends x bs ?s) x) = cTxLock (queues ?s x) + of_nat (length bs) \<and> cRxLock (queues (isr_sends x bs ?s) x) = cRxLock (queues ?s x)"
    using Cons.prems by (intro Cons.IH) (simp_all add: S c)
  moreover have "isr_sends x (b # bs) s = isr_sends x bs ?s" by (simp add: isr_sends_def)
  ultimately show ?case by (simp add: S add.assoc)
qed

text \<open>A task that blocks although more items arrived than there are other tasks waiting is ready again at once.\<close>

lemma queue_block_woken:
  assumes k: "kinv (kern s)" "may_block (kern s)" "uxSchedulerSuspended (kern s) = 1" "uxCurrentNumberOfTasks (kern s) > 0"
    and w: "w \<noteq> 0" and n: "list_length (TasksWaitingToReceive x) (kern s) < nat (sint (cTxLock (queues s x)))"
  defines "s' \<equiv> queue_block (TasksWaitingToReceive x) x w s" and "t \<equiv> pxCurrentTCB (kern s)"
  shows "kinv (kern s')" "uxSchedulerSuspended (kern s') = 0" "ctn (kern s') (StateItem t) = Some (ReadyTasksLists (prio (kern s) t))"
    "pxCurrentTCB (kern s') = t" "tcb (kern s') = tcb (kern s)"
proof -
  let ?l = "TasksWaitingToReceive x" and ?n = "nat (sint (cTxLock (queues s x)))" and ?m = "nat (sint (cRxLock (queues s x)))"
  have r: "ctn (kern s) (StateItem t) = Some (ReadyTasksLists (cur_prio (kern s)))" using k(2) by (simp add: may_block_def cur_ready_def t_def)
  define k1 where "k1 = vTaskPlaceOnEventList ?l w (kern s)"
  define k2 where "k2 = unlock_loop ?n ?l k1"
  define k3 where "k3 = unlock_loop ?m (TasksWaitingToSend x) k2"
  have k1: "kinv k1" unfolding k1_def by (rule kinv_places(1) [OF k(1,2) event_lists(2) w])
  note F1 = place_fields [OF r [unfolded t_def], of ?l w, folded k1_def, folded t_def]
  have len: "list_length ?l k1 \<le> ?n" using place_list_length [OF k(1,2) event_lists(2) w] n by (simp add: k1_def)
  have e1: "EventItem t \<in> set (xl_items (lists k1 ?l))"
    using lists_wf_ctn [OF kinvD(1) [OF kinv_kinvp [OF k1]]] by (simp add: F1(1))
  have s1: "uxSchedulerSuspended k1 > 0" using F1(4) k(3) by simp
  note U2 = unlock_loop_spec [OF k1 event_lists(2) s1, of ?n x, folded k2_def]
  have e2: "ctn k2 (EventItem t) = Some PendingReadyList" using U2 e1 len by (simp add: list_length_def)
  have s2: "kinv k2" "uxSchedulerSuspended k2 > 0" using U2 F1 k(3) by simp_all
  note U3 = unlock_loop_spec [OF s2(1) event_lists(1) s2(2), of ?m x, folded k3_def]
  have e3: "ctn k3 (EventItem t) = Some PendingReadyList" using U3 e2 by simp
  have "kinv k3" "uxSchedulerSuspended k3 = 1" "uxCurrentNumberOfTasks k3 > 0" using U3 U2 F1 k by simp_all
  note R = xTaskResumeAll_spec [OF this]
  have s': "kern s' = (if fst (xTaskResumeAll k3) then snd (xTaskResumeAll k3) else portYIELD (snd (xTaskResumeAll k3)))"
    by (simp add: s'_def queue_block_def prvUnlockQueue_def case_prod_beta Let_def k1_def k2_def k3_def)
  show "kinv (kern s')" "uxSchedulerSuspended (kern s') = 0" "ctn (kern s') (StateItem t) = Some (ReadyTasksLists (prio (kern s) t))"
    "pxCurrentTCB (kern s') = t" "tcb (kern s') = tcb (kern s)"
    using R e3 U2 U3 F1 by (simp_all add: s' case_prod_beta)
qed

text \<open>A task that blocks with no item counted stays blocked.\<close>

lemma queue_block_waits:
  assumes k: "kinv (kern s)" "may_block (kern s)" "uxSchedulerSuspended (kern s) = 1" "uxPendedTicks (kern s) = 0"
    "list_is_empty PendingReadyList (kern s)"
    and w: "w \<noteq> 0" and n: "nat (sint (cTxLock (queues s x))) = 0" "nat (sint (cRxLock (queues s x))) = 0"
  defines "s' \<equiv> queue_block (TasksWaitingToReceive x) x w s" and "t \<equiv> pxCurrentTCB (kern s)"
  shows "ctn (kern s') (EventItem t) = Some (TasksWaitingToReceive x)" "ctn (kern s') (StateItem t) \<in> {Some DelayedTaskList1, Some DelayedTaskList2}"
proof -
  let ?l = "TasksWaitingToReceive x"
  have r: "ctn (kern s) (StateItem t) = Some (ReadyTasksLists (cur_prio (kern s)))" using k(2) by (simp add: may_block_def cur_ready_def t_def)
  define k1 where "k1 = vTaskPlaceOnEventList ?l w (kern s)"
  note F1 = place_fields [OF r [unfolded t_def], of ?l w, folded k1_def, folded t_def]
  have wf: "lists_wf k1" "lists_wf (kern s)"
    using kinvD(1) [OF kinv_kinvp] kinv_places(1) [OF k(1,2) event_lists(2) w] k(1) by (auto simp: k1_def)
  have dl: "delay_lists (kern s)" by (rule kinvD(3) [OF kinv_kinvp [OF k(1)]])
  have "list_is_empty PendingReadyList k1"
    using k(5) dl unfolding list_is_empty_iff [OF wf(1)] list_is_empty_iff [OF wf(2)] F1(1) by (auto simp: delay_lists_def)
  then have res: "ctn (snd (xTaskResumeAll k1)) = ctn k1" using F1(4,6) k(3,4) by (intro resume_calm(1)) simp_all
  have "ctn (kern s') = ctn k1"
    using n by (simp add: s'_def queue_block_def prvUnlockQueue_def case_prod_beta Let_def k1_def [symmetric] res)
  then show "ctn (kern s') (EventItem t) = Some ?l" "ctn (kern s') (StateItem t) \<in> {Some DelayedTaskList1, Some DelayedTaskList2}"
    using dl by (auto simp: F1 delay_lists_def)
qed

text \<open>The critical window: interrupts between the check for items and the wait.\<close>

definition window :: "(qsys \<Rightarrow> qsys) \<Rightarrow> gaps" where
  "window f = \<lparr>before_lock = id, while_locked = id, before_wait = f, until_rerun = id\<rparr>"

definition locked :: "nat \<Rightarrow> qsys \<Rightarrow> qsys" where
  "locked x s = prvLockQueue x (on_kern vTaskSuspendAll s)"

lemma locked_fields:
  assumes "cTxLock (queues s x) = queueUNLOCKED" "cRxLock (queues s x) = queueUNLOCKED"
  shows "kern (locked x s) = vTaskSuspendAll (kern s)" "cTxLock (queues (locked x s) x) = 0" "cRxLock (queues (locked x s) x) = 0"
    "queue_ok x (locked x s) = queue_ok x s" "queue_items x (locked x s) = queue_items x s"
    "uxLength (queues (locked x s) x) = uxLength (queues s x)" "uxItemSize (queues (locked x s) x) = uxItemSize (queues s x)"
    "uxMessagesWaiting (queues (locked x s) x) = uxMessagesWaiting (queues s x)"
  using assms by (simp_all add: locked_def prvLockQueue_def Let_def queueLOCKED_UNMODIFIED_def queue_ok_def queue_items_def)

lemma may_block_suspend: "may_block (vTaskSuspendAll k) = may_block k"
  by (simp add: may_block_def cur_ready_def) (simp add: vTaskSuspendAll_def)

lemma sint_of_nat8: "n \<le> 127 \<Longrightarrow> nat (sint (of_nat n :: 8 word)) = n"
  by (simp add: signed_of_nat signed_take_bit_int_eq_self)

lemma receive_wait_window:
  assumes e: "uxMessagesWaiting (queues s x) = 0" and u: "cTxLock (queues s x) = queueUNLOCKED" "cRxLock (queues s x) = queueUNLOCKED" and w: "w \<noteq> 0"
  shows "xQueueReceive_wait (window f) x (entry_time None s) w s =
    (Again (entry_time None s) w, queue_block (TasksWaitingToReceive x) x w (f (locked x s)))"
proof -
  have "xTaskCheckForTimeOut (entry_time None s) w (vTaskSuspendAll (kern s)) = (False, entry_time None s, w)"
    using w by (simp add: xTaskCheckForTimeOut_def entry_time_def vTaskInternalSetTimeOutState_def vTaskSuspendAll_def Let_def word_gt_0)
  then show ?thesis using locked_fields [OF u] e
    by (simp add: xQueueReceive_wait_def window_def locked_def [symmetric] prvIsQueueEmpty_def Let_def)
qed

lemma queue_block_queues [simp]:
  "qmem (queue_block l x w s) = qmem s"
  "queue_items x (queue_block l x w s) = queue_items x s" "queue_ok x (queue_block l x w s) = queue_ok x s"
  by (simp_all add: queue_block_def prvUnlockQueue_def case_prod_beta Let_def queue_items_def queue_ok_def)

lemma queue_count: "uxMessagesWaiting (queues s x) = length (queue_items x s)"
  by (simp add: queue_items_def)

subsection \<open>Recursive mutexes\<close>

text \<open>The ghost state \<open>d\<close> counts the takes of each task that it has not given back.\<close>

definition mutex_ok :: "nat \<Rightarrow> (tid \<Rightarrow> nat) \<times> qsys \<Rightarrow> bool" where
  "mutex_ok x = (\<lambda>(d, s). let q = queues s x in
     is_mutex q \<and> uxLength q = 1 \<and> uxItemSize q = 0 \<and> uxRecursiveCallCount q < 2 ^ 32 \<and>
     (xMutexHolder q = 0 \<longleftrightarrow> uxRecursiveCallCount q = 0) \<and> uxMessagesWaiting q = (if xMutexHolder q = 0 then 1 else 0) \<and>
     d = (\<lambda>_. 0)(xMutexHolder q := uxRecursiveCallCount q))"

definition mutex_created :: "nat \<Rightarrow> (tid \<Rightarrow> nat) \<times> qsys \<Rightarrow> bool" where
  "mutex_created x = (\<lambda>(d, s). d = (\<lambda>_. 0) \<and> x \<noteq> 0 \<and> (\<exists>s0. xQueueCreateMutex s0 = (x, s)))"

text \<open>The running task takes or gives the mutex without waiting; anything else in the kernel happens in between.\<close>

inductive mutex_step :: "nat \<Rightarrow> (tid \<Rightarrow> nat) \<times> qsys \<Rightarrow> (tid \<Rightarrow> nat) \<times> qsys \<Rightarrow> bool" for x where
  take: "t = pxCurrentTCB (kern s) \<Longrightarrow> t \<noteq> 0 \<Longrightarrow> d t + 1 < 2 ^ 32 \<Longrightarrow> xQueueTakeMutexRecursive [g] x 0 s = Some (r, s') \<Longrightarrow>
    mutex_step x (d, s) (if r then d(t := d t + 1) else d, s')"
| give: "t = pxCurrentTCB (kern s) \<Longrightarrow> t \<noteq> 0 \<Longrightarrow> xQueueGiveMutexRecursive x s = (r, s') \<Longrightarrow>
    mutex_step x (d, s) (if r then d(t := d t - 1) else d, s')"
| other: "mutex_step x (d, s) (d, s\<lparr>kern := k\<rparr>)"

lemma wake_one_queues: "queues (if c then wake_one l s else if b then on_kern f s else s) = queues s"
  by simp

lemma give_to_mutex:
  assumes "is_mutex (queues s x)" "uxItemSize (queues s x) = 0" "uxMessagesWaiting (queues s x) = 0" "uxLength (queues s x) = 1"
  shows "queues (snd (xQueueGenericSend_try x [] queueSEND_TO_BACK 0 None s)) =
    (queues s)(x := (queues s x)\<lparr>pcTail := 0, uxMessagesWaiting := 1\<rparr>)"
  using assms by (simp add: xQueueGenericSend_try_def prvCopyDataToQueue_def case_prod_beta Let_def)

lemma mutex_created_ok:
  assumes "mutex_created x ds" shows "mutex_ok x ds"
proof -
  obtain s0 s where x: "xQueueCreateMutex s0 = (x, s)" "x \<noteq> 0" "ds = (\<lambda>_. 0, s)" using assms by (auto simp: mutex_created_def)
  obtain s1 where s1: "xQueueGenericCreate 1 0 s0 = (x, s1)" "s = prvInitialiseMutex x s1"
    using x(1) by (auto simp: xQueueCreateMutex_def Let_def split: prod.splits)
  have q1: "uxLength (queues s1 x) = 1" "uxItemSize (queues s1 x) = 0" "uxMessagesWaiting (queues s1 x) = 0"
    using s1(1) x(2) by (auto simp: xQueueGenericCreate_def prvInitialiseNewQueue_def xQueueGenericReset_def case_prod_beta Let_def)
  let ?s = "upd_queue x (\<lambda>q. q\<lparr>pcTail := 0, pcHead := 0, pcReadFrom := 0\<rparr>) s1"
  have "queues s = (queues ?s)(x := (queues ?s x)\<lparr>pcTail := 0, uxMessagesWaiting := 1\<rparr>)"
    unfolding s1(2) prvInitialiseMutex_def Let_def using x(2) give_to_mutex [of ?s x] q1 by (simp add: is_mutex_def)
  then show ?thesis using q1 by (auto simp: x(3) mutex_ok_def Let_def is_mutex_def)
qed

lemma take_free_mutex:
  assumes "mutex_ok x (d, s)"
  shows "xQueueSemaphoreTake [g] x 0 None False s = (if xMutexHolder (queues s x) = 0
     then Some (True, wake_one (TasksWaitingToSend x) (upd_queue x (\<lambda>q. q\<lparr>uxMessagesWaiting := 0, pcTail := pxCurrentTCB (kern s)\<rparr>)
       (on_kern (snd \<circ> pvTaskIncrementMutexHeldCount) s)))
     else Some (False, s))"
proof (cases "xMutexHolder (queues s x) = 0")
  case True
  then have q: "uxMessagesWaiting (queues s x) = 1" "is_mutex (queues s x)" using assms by (simp_all add: mutex_ok_def Let_def)
  show ?thesis using True q
    by (simp add: xQueueSemaphoreTake_try_def Let_def case_prod_beta is_mutex_def on_kern'_def on_kern_def upd_queue_def pvTaskIncrementMutexHeldCount_def)
next
  case False
  then have "uxMessagesWaiting (queues s x) = 0" using assms by (simp add: mutex_ok_def Let_def)
  then show ?thesis using False by (simp add: xQueueSemaphoreTake_try_def Let_def)
qed

lemma take_recursive:
  assumes ok: "mutex_ok x (d, s)" and t: "t = pxCurrentTCB (kern s)" "t \<noteq> 0" "d t + 1 < 2 ^ 32"
    and e: "xQueueTakeMutexRecursive [g] x 0 s = Some (r, s')"
  shows "mutex_ok x (if r then d(t := d t + 1) else d, s')" "r \<longleftrightarrow> xMutexHolder (queues s x) \<in> {0, t}"
proof -
  let ?h = "xMutexHolder (queues s x)" and ?c = "uxRecursiveCallCount (queues s x)"
  have q: "is_mutex (queues s x)" "uxLength (queues s x) = 1" "uxItemSize (queues s x) = 0" "?h = 0 \<longleftrightarrow> ?c = 0"
    "uxMessagesWaiting (queues s x) = (if ?h = 0 then 1 else 0)" "d = (\<lambda>_. 0)(?h := ?c)" using ok by (simp_all add: mutex_ok_def Let_def)
  consider (mine) "?h = t" | (free) "?h = 0" | (taken) "?h \<noteq> t" "?h \<noteq> 0" by blast
  then have "mutex_ok x (if r then d(t := d t + 1) else d, s') \<and> (r \<longleftrightarrow> ?h \<in> {0, t})"
  proof cases
    case mine
    then have "r" "s' = upd_queue x (\<lambda>q. q\<lparr>pcReadFrom := (uxRecursiveCallCount q + 1) mod 2 ^ 32\<rparr>) s"
      using e t by (simp_all add: xQueueTakeMutexRecursive_def xTaskGetCurrentTaskHandle_def)
    then show ?thesis using q mine t by (auto simp: mutex_ok_def Let_def is_mutex_def)
  next
    case free
    then have "r" "queues s' = (queues s)(x := (queues s x)\<lparr>uxMessagesWaiting := 0, pcTail := t, pcReadFrom := (?c + 1) mod 2 ^ 32\<rparr>)"
      using e t take_free_mutex [OF ok, of g] by (auto simp: xQueueTakeMutexRecursive_def xTaskGetCurrentTaskHandle_def simp del: xQueueSemaphoreTake.simps)
    then show ?thesis using q free t by (auto simp: mutex_ok_def Let_def is_mutex_def)
  next
    case taken
    then have "\<not> r" "s' = s"
      using e t take_free_mutex [OF ok, of g] by (auto simp: xQueueTakeMutexRecursive_def xTaskGetCurrentTaskHandle_def simp del: xQueueSemaphoreTake.simps)
    then show ?thesis using ok taken by simp
  qed
  then show "mutex_ok x (if r then d(t := d t + 1) else d, s')" "r \<longleftrightarrow> ?h \<in> {0, t}" by blast+
qed

lemma give_recursive:
  assumes ok: "mutex_ok x (d, s)" and t: "t = pxCurrentTCB (kern s)" "t \<noteq> 0"
    and e: "xQueueGiveMutexRecursive x s = (r, s')"
  shows "mutex_ok x (if r then d(t := d t - 1) else d, s')" "r \<longleftrightarrow> xMutexHolder (queues s x) = t"
proof -
  let ?h = "xMutexHolder (queues s x)" and ?c = "uxRecursiveCallCount (queues s x)"
  have q: "is_mutex (queues s x)" "uxLength (queues s x) = 1" "uxItemSize (queues s x) = 0" "?h = 0 \<longleftrightarrow> ?c = 0" "?c < 2 ^ 32"
    "uxMessagesWaiting (queues s x) = (if ?h = 0 then 1 else 0)" "d = (\<lambda>_. 0)(?h := ?c)" using ok by (simp_all add: mutex_ok_def Let_def)
  have "mutex_ok x (if r then d(t := d t - 1) else d, s') \<and> (r \<longleftrightarrow> ?h = t)"
  proof (cases "?h = t")
    case True
    let ?s = "upd_queue x (\<lambda>q. q\<lparr>pcReadFrom := (uxRecursiveCallCount q + 2 ^ 32 - 1) mod 2 ^ 32\<rparr>) s"
    obtain c where c: "?c = Suc c" using q(4) True t(2) by (cases ?c) auto
    have m: "(?c + 2 ^ 32 - 1) mod 2 ^ 32 = c" using c q(5) by simp
    have r: "r" and s': "s' = (if c = 0 then snd (xQueueGenericSend_try x [] queueSEND_TO_BACK 0 None ?s) else ?s)"
      using e True t m by (auto simp: xQueueGiveMutexRecursive_def xTaskGetCurrentTaskHandle_def Let_def)
    have g: "queues (snd (xQueueGenericSend_try x [] queueSEND_TO_BACK 0 None ?s)) = (queues ?s)(x := (queues ?s x)\<lparr>pcTail := 0, uxMessagesWaiting := 1\<rparr>)"
      by (rule give_to_mutex) (use q True t in \<open>simp_all add: is_mutex_def\<close>)
    show ?thesis
    proof (cases "c = 0")
      case z: True
      then have "queues s' x = (queues s x)\<lparr>pcReadFrom := 0, pcTail := 0, uxMessagesWaiting := 1\<rparr>" using s' g m by simp
      then show ?thesis using r q z c True by (auto simp: mutex_ok_def Let_def is_mutex_def)
    next
      case z: False
      then have "queues s' x = (queues s x)\<lparr>pcReadFrom := c\<rparr>" using s' m by simp
      then show ?thesis using r q z c True t by (auto simp: mutex_ok_def Let_def is_mutex_def)
    qed
  next
    case False
    then have "\<not> r" "s' = s" using e t by (auto simp: xQueueGiveMutexRecursive_def xTaskGetCurrentTaskHandle_def)
    then show ?thesis using ok False by simp
  qed
  then show "mutex_ok x (if r then d(t := d t - 1) else d, s')" "r \<longleftrightarrow> ?h = t" by blast+
qed

interpretation mutex: stepping "mutex_created x" "mutex_step x" "mutex_ok x" for x
proof
  show "mutex_ok x s" if "mutex_created x s" for s using that by (rule mutex_created_ok)
  show "mutex_ok x s'" if ok: "mutex_ok x s" and "mutex_step x s s'" for s s'
    using that(2)
  proof (cases rule: mutex_step.cases)
    case (take t s d g r s')
    then show ?thesis using take_recursive(1) ok by blast
  next
    case (give t s r s' d)
    then show ?thesis using give_recursive(1) ok by blast
  next
    case (other d s k)
    then show ?thesis using ok by (simp add: mutex_ok_def)
  qed
qed

end
