(* ===== verification/QueueProperties.thy ===== *)
theory QueueProperties
  imports QueueWaiting KernelProperties
begin

text \<open>
  The properties of queues and mutexes, with concrete instances.
\<close>

subsection \<open>Concrete queues\<close>

definition demo_qsys :: qsys where
  "demo_qsys = \<lparr>kern = demo_kernel, queues = (\<lambda>_. \<lparr>pcHead = 0, pcWriteTo = 0, pcTail = 0, pcReadFrom = 0, uxMessagesWaiting = 0,
     uxLength = 0, uxItemSize = 0, cRxLock = 0, cTxLock = 0\<rparr>), qmem = (\<lambda>_. 0), xQueueRegistry = replicate 8 (None, 0)\<rparr>"

lemma demo_kern [simp]: "kern demo_qsys = demo_kernel"
  by (simp add: demo_qsys_def)

lemma demo_heap: "heap demo_kernel = prvHeapInit demo_heap0" "heap_rep (heap demo_kernel) {}"
  using demo_heap_rel by (auto simp: demo_kernel_def boot_kernel_def heap_rep_def intro!: exI)

lemma demo_malloc:
  assumes "0 < n" "n < 60000"
  obtains k h where "pvPortMalloc n demo_kernel = (536871184, k)" "kinv k" "stays (demo_kernel\<lparr>heap := h\<rparr>) k" "heap k = h"
    "heap_rel h 536871176 (if 65520 - wanted_size n > 16 then [(536871176, wanted_size n, Alloc), (536871176 + wanted_size n, 65520 - wanted_size n, Free)]
       else [(536871176, 65520, Alloc)])"
proof -
  have "wanted_size n \<le> 65520" using assms by (simp add: wanted_size_spec)
  with pvPortMalloc_body_spec [OF demo_heap_rel assms(1)] assms(2) obtain h where h: "pvPortMalloc_body n (heap demo_kernel) = Some (536871184, h)"
    "heap_rel h 536871176 (if 65520 - wanted_size n > 16 then [(536871176, wanted_size n, Alloc), (536871176 + wanted_size n, 65520 - wanted_size n, Free)]
       else [(536871176, 65520, Alloc)])"
    by (auto simp: demo_heap split: if_splits)
  from malloc_wrapper [OF demo_kinv _ h(1)] obtain k where "pvPortMalloc n demo_kernel = (536871184, k)" "kinv k" "stays (demo_kernel\<lparr>heap := h\<rparr>) k"
    by auto
  with h(2) show ?thesis using that by (simp add: stays_def keeps_def)
qed

definition demo_queue :: "nat \<Rightarrow> nat \<Rightarrow> qsys" where
  "demo_queue n z = demo_qsys\<lparr>queues := (queues demo_qsys)(7 := \<lparr>pcHead = 6000, pcWriteTo = 6000, pcTail = 6000 + n * z,
     pcReadFrom = 6000 + (n - 1) * z, uxMessagesWaiting = 0, uxLength = n, uxItemSize = z, cRxLock = - 1, cTxLock = - 1\<rparr>)\<rparr>"

lemma demo_queue_fields [simp]:
  "kern (demo_queue n z) = demo_kernel" "uxLength (queues (demo_queue n z) 7) = n" "uxItemSize (queues (demo_queue n z) 7) = z"
  "uxMessagesWaiting (queues (demo_queue n z) 7) = 0" "cTxLock (queues (demo_queue n z) 7) = queueUNLOCKED"
  "cRxLock (queues (demo_queue n z) 7) = queueUNLOCKED" "pcHead (queues (demo_queue n z) 7) = 6000"
  "pcTail (queues (demo_queue n z) 7) = 6000 + n * z"
  by (simp_all add: demo_queue_def queueUNLOCKED_def)

lemma demo_queue_ok:
  assumes "0 < n" "0 < z"
  shows "queue_ok 7 (demo_queue n z)" "queue_items 7 (demo_queue n z) = []" "queue_cap 7 (demo_queue n z) = n"
    "queue_fits 7 (demo_queue n z) b \<longleftrightarrow> length b = z"
  unfolding queue_ok_def queue_items_def queue_cap_def queue_fits_def
  by (rule ring_fresh [OF assms]; simp add: demo_queue_def)+ simp_all

lemma demo_may_block: "may_block demo_kernel"
  by (simp add: may_block_def) (simp add: demo_kernel_def)

subsection \<open>Properties of queues\<close>

text \<open>What a queue that was created looks like, in its block of the heap.\<close>

lemma create_fits:
  assumes k: "kinv (kern s)" "uxSchedulerSuspended (kern s) = 0" and R: "heap_rep (heap (kern s)) R" "disjoint_regions R"
    and n: "0 < n" "0 < z" "sizeof_Queue + n * z < 2 ^ 32"
  shows "case xQueueGenericCreate n z s of (x, s') \<Rightarrow>
    if x = 0 then queues s' = queues s \<and> heap_rep (heap (kern s')) R
    else \<exists>len. heap_rep (heap (kern s')) (insert (x, len) R) \<and> disjoint_regions (insert (x, len) R) \<and> (x, len) \<notin> R \<and>
      x + sizeof_Queue \<le> pcHead (queues s' x) \<and> pcTail (queues s' x) \<le> x + len \<and>
      queue_ok x s' \<and> queue_items x s' = [] \<and> queue_cap x s' = n \<and>
      list_is_empty (TasksWaitingToSend x) (kern s') \<and> list_is_empty (TasksWaitingToReceive x) (kern s')"
proof -
  let ?b = "(sizeof_Queue + queue_bytes n z) mod 2 ^ 32"
  have b: "?b = sizeof_Queue + n * z" using n by (simp add: queue_bytes_def)
  have l: "?b < 2 ^ 32" by simp
  from k R l show ?thesis
  proof (cases rule: malloc_regions)
    case (null k')
    then show ?thesis using create_eq [OF null(1)] n(2) R(1) by simp
  next
    case (got p len k')
    have "(p, len) \<notin> R"
    proof
      assume "(p, len) \<in> R"
      then have "apart (p, len) (p, len)" using got(5) by blast
      moreover have "0 < len" using got(6) by (simp add: disjoint_regions_def)
      ultimately show False by (simp add: apart_def)
    qed
    moreover obtain s' where s': "xQueueGenericCreate n z s = (p, s')" by (simp add: create_eq [OF got(1) n(2)])
    moreover have f: "heap (kern s') = heap k'" "pcHead (queues s' p) = p + sizeof_Queue" "pcTail (queues s' p) = p + sizeof_Queue + n * z"
      "uxLength (queues s' p) = n" "uxItemSize (queues s' p) = z" "uxMessagesWaiting (queues s' p) = 0"
      "pcWriteTo (queues s' p) = p + sizeof_Queue" "pcReadFrom (queues s' p) = p + sizeof_Queue + (n - 1) * z"
      "list_is_empty (TasksWaitingToSend p) (kern s')" "list_is_empty (TasksWaitingToReceive p) (kern s')"
      using s' got(2) by (auto simp: create_eq [OF got(1) n(2)] list_is_empty_def list_initialise_def xl_empty_def)
    moreover have "queue_ok p s'" "queue_items p s' = []"
      unfolding queue_ok_def queue_items_def by (rule ring_fresh [OF n(1,2)]; use f in simp)+
    ultimately show ?thesis using got b by (auto simp: queue_cap_def)
  qed
qed

text \<open>Creating a queue of \<open>n\<close> items of \<open>z\<close> bytes, when the size fits 32 bits, either returns \<open>NULL\<close> and
  changes no queue and no heap block, or returns a new heap block apart from all others that holds the
  structure and the whole storage area; the queue is then empty, well-formed and no task waits on it.\<close>

theorem xQueueGenericCreate_fits:
  assumes k: "kinv (kern s)" "uxSchedulerSuspended (kern s) = 0" and R: "heap_rep (heap (kern s)) R" "disjoint_regions R"
    and n: "0 < n" "0 < z" "sizeof_Queue + n * z < 2 ^ 32"
  shows "case xQueueGenericCreate n z s of (x, s') \<Rightarrow>
    if x = 0 then queues s' = queues s \<and> heap_rep (heap (kern s')) R
    else \<exists>len. heap_rep (heap (kern s')) (insert (x, len) R) \<and> disjoint_regions (insert (x, len) R) \<and> (x, len) \<notin> R \<and>
      x + sizeof_Queue \<le> pcHead (queues s' x) \<and> pcTail (queues s' x) \<le> x + len \<and>
      queue_ok x s' \<and> queue_items x s' = [] \<and> queue_cap x s' = n \<and>
      list_is_empty (TasksWaitingToSend x) (kern s') \<and> list_is_empty (TasksWaitingToReceive x) (kern s')"
  by (rule create_fits [OF assms])

theorem xQueueGenericCreate_fits_witness:
  "\<exists>s' len. xQueueGenericCreate 4 6 demo_qsys = (536871184, s') \<and> heap_rep (heap (kern s')) {(536871184, len)} \<and>
     pcHead (queues s' 536871184) = 536871256 \<and> pcTail (queues s' 536871184) \<le> 536871184 + len \<and> queue_items 536871184 s' = []"
proof -
  obtain k h where m: "pvPortMalloc 96 demo_kernel = (536871184, k)" by (rule demo_malloc [of 96]) simp_all
  have c: "\<exists>s'. xQueueGenericCreate 4 6 demo_qsys = (536871184, s') \<and> pcHead (queues s' 536871184) = 536871256"
    using create_eq [of 4 6 demo_qsys 536871184 k] m by (simp add: queue_bytes_def sizeof_Queue_def)
  from xQueueGenericCreate_fits [of demo_qsys "{}" 4 6] c demo_kinv demo_heap show ?thesis
    by (auto simp: disjoint_regions_def sizeof_Queue_def)
qed

text \<open>The size of the allocation is computed in 32 bits and wraps. A queue of \<open>2 ^ 30 + 1\<close> items of 4 bytes
  gets a block of less than 100 bytes, while its storage area is taken to be \<open>2 ^ 32 + 4\<close> bytes long.\<close>

theorem xQueueGenericCreate_overflow:
  "\<exists>s n z x s' R len. kinv (kern s) \<and> 0 < n \<and> n < 2 ^ 32 \<and> 0 < z \<and> z < 2 ^ 32 \<and> xQueueGenericCreate n z s = (x, s') \<and> x \<noteq> 0 \<and>
     heap_rep (heap (kern s')) R \<and> (x, len) \<in> R \<and> len < 100 \<and> uxLength (queues s' x) * uxItemSize (queues s' x) = 2 ^ 32 + 4 \<and>
     pcTail (queues s' x) > x + len"
proof -
  obtain k h where m: "pvPortMalloc 76 demo_kernel = (536871184, k)" "heap k = h"
    "heap_rel h 536871176 [(536871176, wanted_size 76, Alloc), (536871176 + wanted_size 76, 65520 - wanted_size 76, Free)]"
    by (rule demo_malloc [of 76]) (simp_all add: wanted_size_spec)
  have "(2 ^ 30 + 1) * 4 = (2 ^ 32 + 4 :: nat)" by simp
  then have b: "(sizeof_Queue + queue_bytes (2 ^ 30 + 1) 4) mod 2 ^ 32 = 76" by (simp add: queue_bytes_def sizeof_Queue_def)
  obtain s' where s': "xQueueGenericCreate (2 ^ 30 + 1) 4 demo_qsys = (536871184, s')" "heap (kern s') = h"
    "uxLength (queues s' 536871184) * uxItemSize (queues s' 536871184) = 2 ^ 32 + 4" "pcTail (queues s' 536871184) = 536871184 + 72 + (2 ^ 32 + 4)"
    using create_eq [of "2 ^ 30 + 1" 4 demo_qsys 536871184 k] m b by (simp add: sizeof_Queue_def)
  have "heap_rep h {(536871184, wanted_size 76 - 8)}" unfolding heap_rep_def by (intro exI conjI, rule m(3), intro set_eqI) (simp add: live_iff)
  with s' demo_kinv show ?thesis
    by (intro exI [of _ demo_qsys] exI [of _ "2 ^ 30 + 1"] exI [of _ 4] exI [of _ 536871184] exI [of _ s'] exI [of _ "{(536871184, wanted_size 76 - 8)}"]
      exI [of _ "wanted_size 76 - 8"]) (simp add: wanted_size_spec)
qed



lemma overwrite_mailbox:
  assumes ok: "queue_ok x s" and one: "uxLength (queues s x) = 1" and z: "length item = uxItemSize (queues s x)"
  shows "queue_ok x (snd (prvCopyDataToQueue x item queueOVERWRITE s))"
    "queue_items x (snd (prvCopyDataToQueue x item queueOVERWRITE s)) = [item]"
    "fst (prvCopyDataToQueue x item queueOVERWRITE s) = False"
proof -
  let ?q = "queues s x"
  obtain r where r: "ring_at r ?q" using ok by (auto simp: queue_ok_def ring_ok_def)
  then have R: "r = 0" "0 < uxItemSize ?q" "pcTail ?q = pcHead ?q + uxItemSize ?q" "pcReadFrom ?q = pcHead ?q" "pcWriteTo ?q = pcHead ?q"
    "uxMessagesWaiting ?q \<le> 1" using one by (auto simp: ring_at_def slot_def)
  let ?q' = "?q\<lparr>pcReadFrom := pcHead ?q, uxMessagesWaiting := 1\<rparr>" and ?m = "write_bytes (pcHead ?q) item (qmem s)"
  have e: "prvCopyDataToQueue x item queueOVERWRITE s = (False, s\<lparr>queues := (queues s)(x := ?q'), qmem := ?m\<rparr>)"
    using R(2-6) z by (cases "uxMessagesWaiting ?q") (simp_all add: prvCopyDataToQueue_def copy_to_front_def Let_def upd_queue_def)
  have i: "read_index ?q' = 0" using R(4) by (simp add: read_index_def)
  have "ring_at 0 ?q'" using R one by (simp add: ring_at_def slot_def)
  then show "queue_ok x (snd (prvCopyDataToQueue x item queueOVERWRITE s))" by (simp add: e queue_ok_def ring_okI)
  show "queue_items x (snd (prvCopyDataToQueue x item queueOVERWRITE s)) = [item]"
    using one z by (simp add: e queue_items_def ring_items_def i slot_def)
  show "fst (prvCopyDataToQueue x item queueOVERWRITE s) = False" by (simp add: e)
qed

lemma queue_items_eq: "queues s' x = queues s x \<Longrightarrow> qmem s' = qmem s \<Longrightarrow> queue_items x s' = queue_items x s"
  by (simp add: queue_items_def)

lemma peek_try:
  assumes ok: "queue_ok x s" and i: "queue_items x s = b # bs"
  shows "fst (xQueuePeek_try x w to s) = Returned (True, Some b)" "queue_items x (snd (xQueuePeek_try x w to s)) = b # bs"
proof -
  have c: "0 < uxMessagesWaiting (queues s x)" using i by (simp add: queue_count)
  obtain q where q: "prvCopyDataFromQueue x s = (Some b, s\<lparr>queues := (queues s)(x := q)\<rparr>)" "q\<lparr>pcReadFrom := pcReadFrom (queues s x)\<rparr> = queues s x"
    using copy_data_from [OF ok c] i by auto
  show "fst (xQueuePeek_try x w to s) = Returned (True, Some b)" using c q(1) by (simp add: xQueuePeek_try_def Let_def)
  show "queue_items x (snd (xQueuePeek_try x w to s)) = b # bs"
    unfolding i [symmetric] by (rule queue_items_eq) (use c q in \<open>simp_all add: xQueuePeek_try_def Let_def\<close>)
qed

lemma send_try_copy:
  assumes "uxMessagesWaiting (queues s x) < uxLength (queues s x) \<or> pos = queueOVERWRITE"
  shows "fst (xQueueGenericSend_try x item pos w to s) = Returned True"
    "queues (snd (xQueueGenericSend_try x item pos w to s)) = queues (snd (prvCopyDataToQueue x item pos s))"
    "qmem (snd (xQueueGenericSend_try x item pos w to s)) = qmem (snd (prvCopyDataToQueue x item pos s))"
  using assms by (auto simp: xQueueGenericSend_try_def case_prod_beta Let_def)

lemma send_isr_copy:
  assumes "uxMessagesWaiting (queues s x) < uxLength (queues s x) \<or> pos = queueOVERWRITE"
  shows "qmem (snd (xQueueGenericSendFromISR x item pos s)) = qmem (snd (prvCopyDataToQueue x item pos s))"
    "y \<noteq> x \<Longrightarrow> queues (snd (xQueueGenericSendFromISR x item pos s)) y = queues (snd (prvCopyDataToQueue x item pos s)) y"
  using assms by (simp_all add: xQueueGenericSendFromISR_def case_prod_beta Let_def)

text \<open>A send to the front is what the next peek and the next receive return, and receiving it leaves
  the queue's items as they were; overwriting the one slot of a mailbox, full or empty, leaves exactly
  the new item in it.\<close>

theorem send_front_and_overwrite:
  assumes ok: "queue_ok x s" and z: "length item = uxItemSize (queues s x)"
    and p: "pos = queueSEND_TO_FRONT \<and> uxMessagesWaiting (queues s x) < uxLength (queues s x) \<or> pos = queueOVERWRITE \<and> uxLength (queues s x) = 1"
  shows "case xQueueGenericSend (g # gs) x item pos w None s of None \<Rightarrow> False | Some (r, s1) \<Rightarrow>
    r \<and> queue_ok x s1 \<and> queue_items x s1 = item # (if pos = queueOVERWRITE then [] else queue_items x s) \<and>
    (case xQueuePeek (g # gs) x w None s1 of None \<Rightarrow> False | Some (b, s2) \<Rightarrow> b = (True, Some item) \<and> queue_items x s2 = queue_items x s1) \<and>
    (case xQueueReceive (g # gs) x w None s1 of None \<Rightarrow> False | Some (b, s2) \<Rightarrow> b = (True, Some item) \<and>
       queue_items x s2 = (if pos = queueOVERWRITE then [] else queue_items x s))"
proof -
  let ?is = "if pos = queueOVERWRITE then [] else queue_items x s"
  define s1 where "s1 = snd (xQueueGenericSend_try x item pos w None s)"
  have room: "uxMessagesWaiting (queues s x) < uxLength (queues s x) \<or> pos = queueOVERWRITE" using p by blast
  note T = send_try_copy [OF room, of item w None, folded s1_def]
  have "queue_ok x (snd (prvCopyDataToQueue x item pos s)) \<and> queue_items x (snd (prvCopyDataToQueue x item pos s)) = item # ?is"
  proof (cases "pos = queueOVERWRITE")
    case True
    then show ?thesis using overwrite_mailbox [OF ok _ z] p by simp
  next
    case False
    then have f: "pos = queueSEND_TO_FRONT" and c: "uxMessagesWaiting (queues s x) < uxLength (queues s x)" using p by auto
    from copy_data_to_front [OF ok c z] obtain q m where "ring_ok q" "ring_items (q, m) = item # queue_items x s"
      "prvCopyDataToQueue x item queueSEND_TO_FRONT s = (False, s\<lparr>queues := (queues s)(x := q), qmem := m\<rparr>)" by blast
    then show ?thesis using f by (simp add: queue_ok_def queue_items_def)
  qed
  then have ok1: "queue_ok x s1" and i1: "queue_items x s1 = item # ?is" using T(2,3) by (simp_all add: queue_ok_def queue_items_def)
  have e: "xQueueGenericSend (g # gs) x item pos w None s = Some (True, s1)" using T(1) by (cases "xQueueGenericSend_try x item pos w None s") (simp add: s1_def)
  have pk: "xQueuePeek (g # gs) x w None s1 = Some ((True, Some item), snd (xQueuePeek_try x w None s1))"
    using peek_try(1) [OF ok1 i1, of w None] by (cases "xQueuePeek_try x w None s1") simp
  have c1: "0 < uxMessagesWaiting (queues s1 x)" using i1 by (simp add: queue_count)
  from copy_data_from [OF ok1 c1] i1 obtain q where q: "?is = ring_items (bump (- 1) q, qmem s1)"
    "prvCopyDataFromQueue x s1 = (Some item, s1\<lparr>queues := (queues s1)(x := q)\<rparr>)" "uxMessagesWaiting q = uxMessagesWaiting (queues s1 x)" by auto
  have u: "q\<lparr>uxMessagesWaiting := uxMessagesWaiting (queues s1 x) - Suc 0\<rparr> = bump (- 1) q" using c1 q(3) by (simp add: bump_def nat_diff_distrib)
  have rc: "\<exists>s2. xQueueReceive (g # gs) x w None s1 = Some ((True, Some item), s2) \<and> queue_items x s2 = ?is"
    using c1 q(1,2) u by (simp add: xQueueReceive_try_def Let_def queue_items_def)
  show ?thesis unfolding e using ok1 i1 pk rc peek_try(2) [OF ok1 i1, of w None]
    by (auto simp del: xQueuePeek.simps xQueueReceive.simps split: option.splits)
qed

theorem send_front_and_overwrite_witness:
  "\<exists>s1. xQueueGenericSend [window id] 7 [9, 9] queueSEND_TO_FRONT 0 None (demo_queue 2 2) = Some (True, s1) \<and> queue_items 7 s1 = [[9, 9]]"
  using send_front_and_overwrite [OF demo_queue_ok(1), of 2 2 "[9, 9]" queueSEND_TO_FRONT "window id" "[]" 0]
  by (auto simp: demo_queue_ok simp del: xQueueGenericSend.simps xQueuePeek.simps xQueueReceive.simps split: option.splits)

text \<open>A send, to the back, to the front or overwriting, from a task or from an interrupt, writes
  nothing outside the queue's storage area, and leaves the items of every other queue whose storage
  does not overlap as they are.\<close>

theorem queue_send_stays_in_storage:
  assumes ok: "queue_ok x s" and s': "s' \<in> {snd (xQueueGenericSend_try x item pos w to s), snd (xQueueGenericSendFromISR x item pos s)}"
  shows "(\<forall>a. a < pcHead (queues s x) \<or> pcTail (queues s x) \<le> a \<longrightarrow> qmem s' a = qmem s a) \<and>
    (\<forall>y. y \<noteq> x \<and> queue_ok y s \<and> apart (storage x s) (storage y s) \<longrightarrow> queue_items y s' = queue_items y s)"
proof -
  let ?c = "snd (prvCopyDataToQueue x item pos s)"
  let ?kept = "qmem s' = qmem s \<and> queues s' = queues s" and ?copied = "qmem s' = qmem ?c \<and> (\<forall>y. y \<noteq> x \<longrightarrow> queues s' y = queues ?c y)"
  have "?kept \<or> ?copied"
  proof (cases "uxMessagesWaiting (queues s x) < uxLength (queues s x) \<or> pos = queueOVERWRITE")
    case True
    then show ?thesis using s' send_try_copy [OF True, of item w to] send_isr_copy [OF True] by auto
  next
    case False
    then have "snd (xQueueGenericSend_try x item pos w to s) = s" "snd (xQueueGenericSendFromISR x item pos s) = s"
      by (simp_all add: xQueueGenericSend_try_def xQueueGenericSendFromISR_def)
    then show ?thesis using s' by auto
  qed
  then consider "qmem s' = qmem s" "queues s' = queues s" | "qmem s' = qmem ?c" "\<forall>y. y \<noteq> x \<longrightarrow> queues s' y = queues ?c y" by blast
  then show ?thesis
  proof cases
    case 1
    then show ?thesis by (simp add: queue_items_def)
  next
    case 2
    have "queue_items y s' = queue_items y s" if "y \<noteq> x" "queue_ok y s" "apart (storage x s) (storage y s)" for y
      using copy_keeps_others [OF ok that(2) _ that(3), of item pos] that(1) 2 by (simp add: queue_items_def)
    then show ?thesis using 2(1) copy_bounds [OF ok] by auto
  qed
qed

theorem queue_send_stays_in_storage_witness:
  "let s' = snd (xQueueGenericSendFromISR 7 [1, 2] queueSEND_TO_BACK (demo_queue 3 2)) in qmem s' 5999 = 0 \<and> qmem s' 6006 = 0"
proof -
  let ?s = "demo_queue 3 2"
  let ?s' = "snd (xQueueGenericSendFromISR 7 [1, 2] queueSEND_TO_BACK ?s)"
  have "\<forall>a. a < pcHead (queues ?s 7) \<or> pcTail (queues ?s 7) \<le> a \<longrightarrow> qmem ?s' a = qmem ?s a"
    using queue_send_stays_in_storage [of 7 ?s ?s' "[1, 2]" queueSEND_TO_BACK 0 None] demo_queue_ok(1) [of 3 2] by simp
  moreover have "qmem ?s a = 0" for a by (simp add: demo_queue_def demo_qsys_def)
  ultimately show ?thesis by simp
qed

text \<open>A send to a queue with room on which tasks wait to receive returns at once, stores the item and
  takes the first waiting task off the list: it is made ready, or goes to the pending list while the
  scheduler is suspended, and a context switch is requested when it is above the running task. The
  kernel's invariant holds again.\<close>

theorem xQueueGenericSend_wakes_first_waiter:
  assumes k: "kinv (kern s)" and ok: "queue_ok x s" and room: "uxMessagesWaiting (queues s x) < uxLength (queues s x)"
    and z: "length item = uxItemSize (queues s x)" and w: "xl_items (lists (kern s) (TasksWaitingToReceive x)) = EventItem t # js"
  shows "case xQueueGenericSend (g # gs) x item queueSEND_TO_BACK n None s of None \<Rightarrow> False | Some (r, s') \<Rightarrow>
    r \<and> queue_items x s' = queue_items x s @ [item] \<and> kinv (kern s') \<and>
    xl_items (lists (kern s') (TasksWaitingToReceive x)) = js \<and>
    (if uxSchedulerSuspended (kern s) = 0
     then ctn (kern s') (StateItem t) = Some (ReadyTasksLists (prio (kern s) t)) \<and> ctn (kern s') (EventItem t) = None
     else ctn (kern s') (EventItem t) = Some PendingReadyList) \<and>
    (cur_prio (kern s) < prio (kern s) t \<longrightarrow> pendsv (kern s'))"
proof -
  obtain q m where c: "ring_items (q, m) = queue_items x s @ [item]"
    "prvCopyDataToQueue x item queueSEND_TO_BACK s = (False, s\<lparr>queues := (queues s)(x := q), qmem := m\<rparr>)"
    using copy_data_to_back [OF ok room z] by blast
  note S = remove_event_spec [OF k event_lists(2) w, simplified]
  define k' where "k' = snd (xTaskRemoveFromEventList (TasksWaitingToReceive x) (kern s))"
  have ne: "\<not> list_is_empty (TasksWaitingToReceive x) (kern s)" using w by (simp add: list_is_empty_def)
  have e: "xQueueGenericSend (g # gs) x item queueSEND_TO_BACK n None s =
     Some (True, s\<lparr>queues := (queues s)(x := q), qmem := m, kern := (if cur_prio (kern s) < prio (kern s) t then portYIELD k' else k')\<rparr>)"
    using room ne S(5) by (simp add: xQueueGenericSend_try_def c(2) wake_one_def on_kern'_def on_kern_def case_prod_beta Let_def k'_def)
  note S' = S(2,3,6,11) [folded k'_def]
  show ?thesis unfolding e using S' c(1) by (simp add: queue_items_def) (simp add: portYIELD_def)
qed

theorem xQueueGenericSend_wakes_first_waiter_witness:
  "\<exists>s'. xQueueGenericSend [window id] 7 [5] queueSEND_TO_BACK 0 None (demo_queue 2 1) = Some (True, s') \<and> queue_items 7 s' = [[5]] \<and>
     ctn (kern s') (StateItem 4000) = Some (ReadyTasksLists 1)"
  using xQueueGenericSend_wakes_first_waiter [of "demo_queue 2 1" 7 "[5]" 4000 "[]" "window id" "[]" 0] demo_kinv
  by (auto simp: demo_queue_ok simp del: xQueueGenericSend.simps split: option.splits)



text \<open>The lock counters are signed 8-bit numbers. When 128 items are sent by interrupts while the queue is
  locked, the count wraps to \<open>-128\<close>, unlocking the queue pays out no wake-up, and the task stays blocked on
  a queue that holds 128 items.\<close>

theorem lock_count_wraps:
  assumes k: "kinv (kern s)" "may_block (kern s)" "uxSchedulerSuspended (kern s) = 0" "uxPendedTicks (kern s) = 0"
    and q: "queue_ok x s" "queue_items x s = []" "cTxLock (queues s x) = queueUNLOCKED" "cRxLock (queues s x) = queueUNLOCKED"
    and i: "length its = 128" "128 \<le> queue_cap x s" "\<forall>b \<in> set its. queue_fits x s b" and w: "w \<noteq> 0"
  shows "let s1 = snd (xQueueReceive_wait (window (isr_sends x its)) x (entry_time None s) w s); t = pxCurrentTCB (kern s)
    in queue_items x s1 = its \<and> ctn (kern s1) (EventItem t) = Some (TasksWaitingToReceive x) \<and>
       ctn (kern s1) (StateItem t) \<in> {Some DelayedTaskList1, Some DelayedTaskList2}"
proof -
  let ?s = "isr_sends x its (locked x s)" and ?t = "pxCurrentTCB (kern s)"
  have e: "uxMessagesWaiting (queues s x) = 0" using q(2) by (simp add: queue_count)
  note L = locked_fields [OF q(3,4)]
  have "kern ?s = kern (locked x s) \<and> queue_ok x ?s \<and> queue_items x ?s = queue_items x (locked x s) @ its \<and>
    cTxLock (queues ?s x) = cTxLock (queues (locked x s) x) + of_nat (length its) \<and> cRxLock (queues ?s x) = cRxLock (queues (locked x s) x)"
    using q i e by (intro isr_sends_locked) (simp_all add: L queue_cap_def queue_fits_def)
  then have S: "kern ?s = vTaskSuspendAll (kern s)" "queue_items x ?s = its" "nat (sint (cTxLock (queues ?s x))) = 0" "nat (sint (cRxLock (queues ?s x))) = 0"
    using i(1) q(2) by (simp_all add: L)
  have pe: "list_is_empty PendingReadyList (kern s)"
    by (rule pending_empty [OF k(1,3)])
  then have "list_is_empty PendingReadyList (kern ?s)" "uxPendedTicks (kern ?s) = 0"
    using k(4) unfolding S(1) by (simp_all add: list_is_empty_def vTaskSuspendAll_def)
  then show ?thesis
    using queue_block_waits [of ?s w x] k S w by (simp add: receive_wait_window [OF e q(3,4) w] may_block_suspend kinv_suspend)
qed

theorem lock_count_wraps_witness:
  "let s1 = snd (xQueueReceive_wait (window (isr_sends 7 (replicate 128 [1]))) 7 (entry_time None (demo_queue 128 1)) 50 (demo_queue 128 1))
   in length (queue_items 7 s1) = 128 \<and> ctn (kern s1) (EventItem 2000) = Some (TasksWaitingToReceive 7)"
  using lock_count_wraps [of "demo_queue 128 1" 7 "replicate 128 [1]" 50] demo_kinv demo_may_block
  by (simp add: demo_queue_ok Let_def)


text \<open>A mutex made on the demonstration system and taken by the running task.\<close>

lemma demo_mutex:
  obtains s where "xQueueCreateMutex demo_qsys = (536871184, s)" "pxCurrentTCB (kern s) = 2000"
proof -
  obtain k h where m: "pvPortMalloc 72 demo_kernel = (536871184, k)" "stays (demo_kernel\<lparr>heap := h\<rparr>) k"
    by (rule demo_malloc [of 72]) simp_all
  have c: "pxCurrentTCB k = 2000" using m(2) by (simp add: stays_def keeps_def)
  have y: "pxCurrentTCB (kern (wake_one l s)) = pxCurrentTCB (kern s)" if "list_is_empty l (kern s)" for l s
    using that by (simp add: wake_one_def)
  have "\<exists>s. xQueueCreateMutex demo_qsys = (536871184, s) \<and> pxCurrentTCB (kern s) = 2000"
    using m(1) c by (simp add: xQueueCreateMutex_def xQueueGenericCreate_def queue_bytes_def sizeof_Queue_def on_kern'_def
      prvInitialiseNewQueue_def xQueueGenericReset_def prvInitialiseMutex_def xQueueGenericSend_try_def prvCopyDataToQueue_def
      xTaskPriorityDisinherit_def is_mutex_def Let_def case_prod_beta list_initialise_def list_is_empty_def xl_empty_def)
  then show ?thesis using that by blast
qed


end
