(* ===== verification/EventGroups.thy ===== *)
theory EventGroups
  imports EventLists
begin

text \<open>
  Event groups, \<open>lib/FreeRTOS/src/event_groups.c\<close>. A group is found by its handle; the tasks that wait
  for its bits are on the list \<open>TasksWaitingForBits\<close> of that handle, unordered, with the bits they
  wait for and the control bits in the value of their event item. What happens between the moment a
  caller yields and the moment it runs again is an argument.
\<close>

subsection \<open>Data\<close>

record egsys =
  ekern :: kernel
  uxEventBits :: "nat \<Rightarrow> u32"

definition eventCLEAR_EVENTS_ON_EXIT_BIT :: u32 where "eventCLEAR_EVENTS_ON_EXIT_BIT = 0x01000000"
definition eventUNBLOCKED_DUE_TO_BIT_SET :: u32 where "eventUNBLOCKED_DUE_TO_BIT_SET = 0x02000000"
definition eventWAIT_FOR_ALL_BITS :: u32 where "eventWAIT_FOR_ALL_BITS = 0x04000000"
definition eventEVENT_BITS_CONTROL_BYTES :: u32 where "eventEVENT_BITS_CONTROL_BYTES = 0xff000000"
definition sizeof_EventGroup :: nat where "sizeof_EventGroup = 24"

definition on_ekern :: "(kernel \<Rightarrow> kernel) \<Rightarrow> egsys \<Rightarrow> egsys" where
  "on_ekern f s = s\<lparr>ekern := f (ekern s)\<rparr>"

definition upd_bits :: "nat \<Rightarrow> (u32 \<Rightarrow> u32) \<Rightarrow> egsys \<Rightarrow> egsys" where
  "upd_bits x f s = s\<lparr>uxEventBits := (uxEventBits s)(x := f (uxEventBits s x))\<rparr>"

subsection \<open>Operations\<close>

text \<open>The handle, 0 when there is no memory.\<close>

definition xEventGroupCreate :: "egsys \<Rightarrow> nat \<times> egsys" where
  "xEventGroupCreate s =
     (let (x, k) = pvPortMalloc sizeof_EventGroup (ekern s);
          s = s\<lparr>ekern := k\<rparr>
      in (x, if x \<noteq> 0 then on_ekern (list_initialise (TasksWaitingForBits x)) (upd_bits x (\<lambda>_. 0) s) else s))"

definition prvTestWaitCondition :: "u32 \<Rightarrow> u32 \<Rightarrow> bool \<Rightarrow> bool" where
  "prvTestWaitCondition uxCurrentEventBits uxBitsToWaitFor xWaitForAllBits \<longleftrightarrow>
     (if \<not> xWaitForAllBits then uxCurrentEventBits AND uxBitsToWaitFor \<noteq> 0
      else uxCurrentEventBits AND uxBitsToWaitFor = uxBitsToWaitFor)"

text \<open>
  The walk over the waiting tasks. The successor of an item is read before the item is removed, and
  nothing else is removed meanwhile, so the walk visits the items that were on the list when it began.
\<close>

definition match_found :: "u32 \<Rightarrow> u32 \<Rightarrow> bool" where
  "match_found v bits \<longleftrightarrow>
     (let uxControlBits = v AND eventEVENT_BITS_CONTROL_BYTES;
          uxBitsWaitedFor = v AND NOT eventEVENT_BITS_CONTROL_BYTES
      in if uxControlBits AND eventWAIT_FOR_ALL_BITS = 0 then uxBitsWaitedFor AND bits \<noteq> 0
         else uxBitsWaitedFor AND bits = uxBitsWaitedFor)"

fun set_bits_walk :: "item list \<Rightarrow> u32 \<Rightarrow> u32 \<Rightarrow> kernel \<Rightarrow> u32 \<times> kernel" where
  "set_bits_walk [] bits uxBitsToClear k = (uxBitsToClear, k)"
| "set_bits_walk (i # is) bits uxBitsToClear k =
     (let v = ival k i
      in if match_found v bits
         then let uxBitsToClear = (if (v AND eventEVENT_BITS_CONTROL_BYTES) AND eventCLEAR_EVENTS_ON_EXIT_BIT \<noteq> 0
                                   then uxBitsToClear OR (v AND NOT eventEVENT_BITS_CONTROL_BYTES) else uxBitsToClear)
              in set_bits_walk is bits uxBitsToClear
                   (vTaskRemoveFromUnorderedEventList i (bits OR eventUNBLOCKED_DUE_TO_BIT_SET) k)
         else set_bits_walk is bits uxBitsToClear k)"

definition xEventGroupSetBits :: "nat \<Rightarrow> u32 \<Rightarrow> egsys \<Rightarrow> u32 \<times> egsys" where
  "xEventGroupSetBits x uxBitsToSet s =
     (let s = on_ekern vTaskSuspendAll s;
          s = upd_bits x (\<lambda>b. b OR uxBitsToSet) s;
          (uxBitsToClear, k) = set_bits_walk (xl_items (lists (ekern s) (TasksWaitingForBits x))) (uxEventBits s x) 0 (ekern s);
          s = upd_bits x (\<lambda>b. b AND NOT uxBitsToClear) (s\<lparr>ekern := k\<rparr>);
          s = on_ekern (snd \<circ> xTaskResumeAll) s
      in (uxEventBits s x, s))"

definition xEventGroupClearBits :: "nat \<Rightarrow> u32 \<Rightarrow> egsys \<Rightarrow> u32 \<times> egsys" where
  "xEventGroupClearBits x uxBitsToClear s = (uxEventBits s x, upd_bits x (\<lambda>b. b AND NOT uxBitsToClear) s)"

definition xEventGroupGetBitsFromISR :: "nat \<Rightarrow> egsys \<Rightarrow> u32" where
  "xEventGroupGetBitsFromISR x s = uxEventBits s x"

text \<open>The end of both waits: the task runs again, woken by bits or by the clock.\<close>

definition wait_exit :: "nat \<Rightarrow> u32 \<Rightarrow> bool \<Rightarrow> bool \<Rightarrow> egsys \<Rightarrow> u32 \<times> egsys" where
  "wait_exit x uxBitsToWaitFor xClearOnExit xWaitForAllBits s =
     (let (uxReturn, k) = uxTaskResetEventItemValue (ekern s);
          s = s\<lparr>ekern := k\<rparr>;
          (uxReturn, s) =
            (if uxReturn AND eventUNBLOCKED_DUE_TO_BIT_SET = 0
             then (uxEventBits s x,
                   if prvTestWaitCondition (uxEventBits s x) uxBitsToWaitFor xWaitForAllBits \<and> xClearOnExit
                   then upd_bits x (\<lambda>b. b AND NOT uxBitsToWaitFor) s else s)
             else (uxReturn, s))
      in (uxReturn AND NOT eventEVENT_BITS_CONTROL_BYTES, s))"

definition resume_and_yield :: "egsys \<Rightarrow> egsys" where
  "resume_and_yield s =
     (let (xAlreadyYielded, k) = xTaskResumeAll (ekern s) in s\<lparr>ekern := if xAlreadyYielded then k else portYIELD k\<rparr>)"

text \<open>\<open>g\<close> is what happens from the yield until the caller runs again.\<close>

definition xEventGroupWaitBits :: "(egsys \<Rightarrow> egsys) \<Rightarrow> nat \<Rightarrow> u32 \<Rightarrow> bool \<Rightarrow> bool \<Rightarrow> tick \<Rightarrow> egsys \<Rightarrow> u32 \<times> egsys" where
  "xEventGroupWaitBits g x uxBitsToWaitFor xClearOnExit xWaitForAllBits xTicksToWait s =
     (let s = on_ekern vTaskSuspendAll s;
          uxCurrentEventBits = uxEventBits s x
      in if prvTestWaitCondition uxCurrentEventBits uxBitsToWaitFor xWaitForAllBits
         then let s = (if xClearOnExit then upd_bits x (\<lambda>b. b AND NOT uxBitsToWaitFor) s else s)
              in (uxCurrentEventBits, on_ekern (snd \<circ> xTaskResumeAll) s)
         else if xTicksToWait = 0 then (uxCurrentEventBits, on_ekern (snd \<circ> xTaskResumeAll) s)
         else let uxControlBits = (if xClearOnExit then eventCLEAR_EVENTS_ON_EXIT_BIT else 0);
                  uxControlBits = (if xWaitForAllBits then uxControlBits OR eventWAIT_FOR_ALL_BITS else uxControlBits);
                  s = on_ekern (vTaskPlaceOnUnorderedEventList (TasksWaitingForBits x) (uxBitsToWaitFor OR uxControlBits) xTicksToWait) s
              in wait_exit x uxBitsToWaitFor xClearOnExit xWaitForAllBits (g (resume_and_yield s)))"

definition xEventGroupSync :: "(egsys \<Rightarrow> egsys) \<Rightarrow> nat \<Rightarrow> u32 \<Rightarrow> u32 \<Rightarrow> tick \<Rightarrow> egsys \<Rightarrow> u32 \<times> egsys" where
  "xEventGroupSync g x uxBitsToSet uxBitsToWaitFor xTicksToWait s =
     (let s = on_ekern vTaskSuspendAll s;
          uxOriginalBitValue = uxEventBits s x;
          s = snd (xEventGroupSetBits x uxBitsToSet s)
      in if (uxOriginalBitValue OR uxBitsToSet) AND uxBitsToWaitFor = uxBitsToWaitFor
         then (uxOriginalBitValue OR uxBitsToSet, on_ekern (snd \<circ> xTaskResumeAll) (upd_bits x (\<lambda>b. b AND NOT uxBitsToWaitFor) s))
         else if xTicksToWait \<noteq> 0
         then let s = on_ekern (vTaskPlaceOnUnorderedEventList (TasksWaitingForBits x)
                        (uxBitsToWaitFor OR eventCLEAR_EVENTS_ON_EXIT_BIT OR eventWAIT_FOR_ALL_BITS) xTicksToWait) s
              in wait_exit x uxBitsToWaitFor True True (g (resume_and_yield s))
         else (uxEventBits s x, on_ekern (snd \<circ> xTaskResumeAll) s))"

text \<open>Deletion wakes every waiting task; one round of the loop for each.\<close>

fun delete_walk :: "nat \<Rightarrow> nat \<Rightarrow> kernel \<Rightarrow> kernel" where
  "delete_walk 0 x k = (if list_length (TasksWaitingForBits x) k > 0 then k\<lparr>kfault := True\<rparr> else k)"
| "delete_walk (Suc n) x k =
     (if list_length (TasksWaitingForBits x) k > 0
      then delete_walk n x (vTaskRemoveFromUnorderedEventList (list_head (TasksWaitingForBits x) k) eventUNBLOCKED_DUE_TO_BIT_SET k)
      else k)"

definition vEventGroupDelete :: "nat \<Rightarrow> egsys \<Rightarrow> egsys" where
  "vEventGroupDelete x s =
     (let s = on_ekern vTaskSuspendAll s;
          s = on_ekern (\<lambda>k. delete_walk (list_length (TasksWaitingForBits x) k) x k) s;
          s = on_ekern (vPortFree x) s
      in on_ekern (snd \<circ> xTaskResumeAll) s)"

definition vEventGroupSetBitsCallback :: "nat \<Rightarrow> u32 \<Rightarrow> egsys \<Rightarrow> egsys" where
  "vEventGroupSetBitsCallback x ulBitsToSet s = snd (xEventGroupSetBits x ulBitsToSet s)"

definition vEventGroupClearBitsCallback :: "nat \<Rightarrow> u32 \<Rightarrow> egsys \<Rightarrow> egsys" where
  "vEventGroupClearBitsCallback x ulBitsToClear s = snd (xEventGroupClearBits x ulBitsToClear s)"

end
