(* ===== verification/EventGroupProperties.thy ===== *)
theory EventGroupProperties
  imports EventGroups KernelProperties
begin

text \<open>
  What setting bits does to the waiting tasks, the meaning of the values in their event items, and the
  properties of event groups.
\<close>

subsection \<open>Setting bits\<close>

lemma remove_unordered_spec:
  fixes v :: tick
  assumes k: "kinv k" and c: "ctn k (EventItem t) = Some l" and l: "event_list l"
  defines "k' \<equiv> vTaskRemoveFromUnorderedEventList (EventItem t) v k"
  shows "kinv k'" "ctn k' = (ctn k)(EventItem t := None, StateItem t \<mapsto> ReadyTasksLists (prio k t))"
    "ival k' = (ival k)(EventItem t := v OR taskEVENT_LIST_ITEM_VALUE_IN_USE)" "tcb k' = tcb k" "pxCurrentTCB k' = pxCurrentTCB k"
    "uxSchedulerSuspended k' = uxSchedulerSuspended k" "uxPendedTicks k' = uxPendedTicks k"
    "uxCurrentNumberOfTasks k' = uxCurrentNumberOfTasks k" "xl_items (lists k' l) = remove1 (EventItem t) (xl_items (lists k l))"
    "lists k' PendingReadyList = lists k PendingReadyList"
proof -
  note K = kinvD [OF kinv_kinvp [OF k]]
  obtain sl where s: "ctn k (StateItem t) = Some sl" using K(8) c by (auto simp: waits_ok_def)
  have sl: "\<not> event_list sl" "sl \<noteq> PendingReadyList" using fitsD [OF K(2) s] by (auto simp: event_list_def)
  have lp: "l \<noteq> PendingReadyList" "l \<noteq> ReadyTasksLists p" "l \<noteq> sl" for p using l sl by (auto simp: event_list_def)
  show "kinv k'" unfolding k'_def by (rule kinv_vTaskRemoveFromUnorderedEventList [OF k]) (simp add: c)
  note d = k'_def vTaskRemoveFromUnorderedEventList_def set_item_value_def list_remove_def prvAddTaskToReadyList_def list_insert_end_def Let_def
  show "ctn k' = (ctn k)(EventItem t := None, StateItem t \<mapsto> ReadyTasksLists (prio k t))"
    "ival k' = (ival k)(EventItem t := v OR taskEVENT_LIST_ITEM_VALUE_IN_USE)" "tcb k' = tcb k" "pxCurrentTCB k' = pxCurrentTCB k"
    "uxSchedulerSuspended k' = uxSchedulerSuspended k" "uxPendedTicks k' = uxPendedTicks k"
    "uxCurrentNumberOfTasks k' = uxCurrentNumberOfTasks k"
    using c s by (simp_all add: d)
  show "xl_items (lists k' l) = remove1 (EventItem t) (xl_items (lists k l))" using c s lp by (simp add: d xl_remove_def)
  show "lists k' PendingReadyList = lists k PendingReadyList" using c s lp sl by (simp add: d)
qed

text \<open>The tasks of a list that bits wake, and the bits to clear for them.\<close>

definition woken :: "item list \<Rightarrow> u32 \<Rightarrow> kernel \<Rightarrow> tid set" where
  "woken is bits k = {t. EventItem t \<in> set is \<and> match_found (ival k (EventItem t)) bits}"

definition clear_for :: "u32 \<Rightarrow> u32" where
  "clear_for v = (if (v AND eventEVENT_BITS_CONTROL_BYTES) AND eventCLEAR_EVENTS_ON_EXIT_BIT \<noteq> 0 then v AND NOT eventEVENT_BITS_CONTROL_BYTES else 0)"

lemma woken_Cons:
  "woken (EventItem t # is) bits k = (if match_found (ival k (EventItem t)) bits then insert t (woken is bits k) else woken is bits k)"
  by (auto simp: woken_def)

lemma woken_cong: "(\<And>t. EventItem t \<in> set is \<Longrightarrow> ival k' (EventItem t) = ival k (EventItem t)) \<Longrightarrow> woken is bits k' = woken is bits k"
  by (auto simp: woken_def)

lemma set_bits_walk_spec:
  assumes "kinv k" "event_list l" "distinct is" "\<forall>i \<in> set is. ctn k i = Some l \<and> (\<exists>t. i = EventItem t)"
    "set_bits_walk is bits c k = (c', k')"
  shows "kinv k' \<and>
    ctn k' = (\<lambda>i. case i of EventItem t \<Rightarrow> if t \<in> woken is bits k then None else ctn k i
       | StateItem t \<Rightarrow> if t \<in> woken is bits k then Some (ReadyTasksLists (prio k t)) else ctn k i | TimerItem n \<Rightarrow> ctn k i) \<and>
    (\<forall>t. ival k' (EventItem t) = (if t \<in> woken is bits k then (bits OR eventUNBLOCKED_DUE_TO_BIT_SET) OR taskEVENT_LIST_ITEM_VALUE_IN_USE else ival k (EventItem t))) \<and>
    tcb k' = tcb k \<and> pxCurrentTCB k' = pxCurrentTCB k \<and> uxSchedulerSuspended k' = uxSchedulerSuspended k \<and> uxPendedTicks k' = uxPendedTicks k \<and>
    uxCurrentNumberOfTasks k' = uxCurrentNumberOfTasks k \<and> lists k' PendingReadyList = lists k PendingReadyList \<and>
    xl_items (lists k' l) = filter (\<lambda>i. i \<notin> EventItem ` woken is bits k) (xl_items (lists k l)) \<and>
    (\<forall>n. bit c' n \<longleftrightarrow> bit c n \<or> (\<exists>t \<in> woken is bits k. bit (clear_for (ival k (EventItem t))) n))"
  using assms
proof (induction "is" arbitrary: k c)
  case Nil
  then show ?case by (auto simp: woken_def split: item.splits)
next
  case (Cons i js)
  obtain t where i: "i = EventItem t" and c: "ctn k (EventItem t) = Some l" using Cons.prems(4) by auto
  let ?v = "ival k (EventItem t)"
  show ?case
  proof (cases "match_found ?v bits")
    case False
    then have w: "woken (i # js) bits k = woken js bits k" by (simp add: i woken_Cons)
    show ?thesis unfolding w by (rule Cons.IH) (use Cons.prems False in \<open>simp_all add: i\<close>)
  next
    case True
    define k1 where "k1 = vTaskRemoveFromUnorderedEventList (EventItem t) (bits OR eventUNBLOCKED_DUE_TO_BIT_SET) k"
    note S = remove_unordered_spec [OF Cons.prems(1) c Cons.prems(2), of "bits OR eventUNBLOCKED_DUE_TO_BIT_SET", folded k1_def]
    have ni: "EventItem t \<notin> set js" using Cons.prems(3) i by simp
    have w: "woken (i # js) bits k = insert t (woken js bits k)" "woken js bits k1 = woken js bits k" "t \<notin> woken js bits k"
      using True ni by (auto simp: i woken_Cons S(3) intro!: woken_cong) (simp add: woken_def)
    have e: "set_bits_walk js bits (c OR clear_for ?v) k1 = (c', k')"
      using Cons.prems(5) True by (simp add: i Let_def k1_def clear_for_def split: if_splits)
    have ih: "\<forall>j \<in> set js. ctn k1 j = Some l \<and> (\<exists>t. j = EventItem t)"
      using Cons.prems(3,4) by (auto simp: S(2) i)
    have d: "distinct (xl_items (lists k l))" using lists_wf_xl [OF kinvD(1) [OF kinv_kinvp [OF Cons.prems(1)]]] by (simp add: xl_wf_def)
    have iv: "ival k1 (EventItem u) = ival k (EventItem u)" if "u \<noteq> t" for u using that by (simp add: S(3))
    note I = Cons.IH [OF S(1) Cons.prems(2) _ ih e, unfolded w(2)]
    have I: "kinv k'" "ctn k' = (\<lambda>i. case i of EventItem t \<Rightarrow> if t \<in> woken js bits k then None else ctn k1 i
       | StateItem t \<Rightarrow> if t \<in> woken js bits k then Some (ReadyTasksLists (prio k1 t)) else ctn k1 i | TimerItem n \<Rightarrow> ctn k1 i)"
      "\<And>t. ival k' (EventItem t) = (if t \<in> woken js bits k then (bits OR eventUNBLOCKED_DUE_TO_BIT_SET) OR taskEVENT_LIST_ITEM_VALUE_IN_USE else ival k1 (EventItem t))"
      "tcb k' = tcb k1" "pxCurrentTCB k' = pxCurrentTCB k1" "uxSchedulerSuspended k' = uxSchedulerSuspended k1" "uxPendedTicks k' = uxPendedTicks k1"
      "uxCurrentNumberOfTasks k' = uxCurrentNumberOfTasks k1" "lists k' PendingReadyList = lists k1 PendingReadyList"
      "xl_items (lists k' l) = filter (\<lambda>i. i \<notin> EventItem ` woken js bits k) (xl_items (lists k1 l))"
      "\<And>n. bit c' n \<longleftrightarrow> bit (c OR clear_for ?v) n \<or> (\<exists>t \<in> woken js bits k. bit (clear_for (ival k1 (EventItem t))) n)"
      using I Cons.prems(3) by simp_all
    have "ctn k' = (\<lambda>i. case i of EventItem u \<Rightarrow> if u \<in> insert t (woken js bits k) then None else ctn k i
       | StateItem u \<Rightarrow> if u \<in> insert t (woken js bits k) then Some (ReadyTasksLists (prio k u)) else ctn k i | TimerItem n \<Rightarrow> ctn k i)"
      unfolding I(2) by (rule ext) (auto simp: S(2,4) split: item.splits)
    moreover have "ival k' (EventItem u) = (if u \<in> insert t (woken js bits k) then (bits OR eventUNBLOCKED_DUE_TO_BIT_SET) OR taskEVENT_LIST_ITEM_VALUE_IN_USE
        else ival k (EventItem u))" for u
      using I(3) [of u] by (auto simp: S(3))
    moreover have "xl_items (lists k' l) = filter (\<lambda>i. i \<notin> EventItem ` insert t (woken js bits k)) (xl_items (lists k l))"
      unfolding I(10) S(9) using d by (simp add: distinct_remove1_removeAll removeAll_filter_not_eq) (metis (no_types, lifting))
    moreover have "bit c' n \<longleftrightarrow> bit c n \<or> (\<exists>u \<in> insert t (woken js bits k). bit (clear_for (ival k (EventItem u))) n)" for n
    proof -
      have "(\<exists>u \<in> woken js bits k. bit (clear_for (ival k1 (EventItem u))) n) \<longleftrightarrow> (\<exists>u \<in> woken js bits k. bit (clear_for (ival k (EventItem u))) n)"
        using w(3) iv by metis
      then show ?thesis unfolding I(11) by (auto simp: bit_or_iff)
    qed
    ultimately show ?thesis unfolding w(1) using I S by simp
  qed
qed


text \<open>The condition of a waiting task, in the value of its event item.\<close>

definition control_bits :: "bool \<Rightarrow> bool \<Rightarrow> u32" where
  "control_bits clr al = (if al then (if clr then eventCLEAR_EVENTS_ON_EXIT_BIT else 0) OR eventWAIT_FOR_ALL_BITS
     else if clr then eventCLEAR_EVENTS_ON_EXIT_BIT else 0)"

definition wait_value :: "u32 \<Rightarrow> bool \<Rightarrow> bool \<Rightarrow> u32" where
  "wait_value bits clr al = (bits OR control_bits clr al) OR taskEVENT_LIST_ITEM_VALUE_IN_USE"

lemmas event_consts = eventCLEAR_EVENTS_ON_EXIT_BIT_def eventUNBLOCKED_DUE_TO_BIT_SET_def eventWAIT_FOR_ALL_BITS_def
  eventEVENT_BITS_CONTROL_BYTES_def taskEVENT_LIST_ITEM_VALUE_IN_USE_def

lemma word_split_control:
  fixes b c :: u32
  assumes "b AND eventEVENT_BITS_CONTROL_BYTES = 0" "c AND NOT eventEVENT_BITS_CONTROL_BYTES = 0"
  shows "(b OR c) AND eventEVENT_BITS_CONTROL_BYTES = c" "(b OR c) AND NOT eventEVENT_BITS_CONTROL_BYTES = b"
proof -
  let ?m = eventEVENT_BITS_CONTROL_BYTES
  have "bit b n \<Longrightarrow> \<not> bit ?m n" "bit c n \<Longrightarrow> bit ?m n" for n
    using arg_cong [OF assms(1), of "\<lambda>w. bit w n"] arg_cong [OF assms(2), of "\<lambda>w. bit w n"] bit_imp_le_length [of c n]
    by (auto simp: bit_and_iff bit_not_iff)
  then show "(b OR c) AND ?m = c" "(b OR c) AND NOT ?m = b"
    by (auto intro!: bit_eqI simp: bit_and_iff bit_or_iff bit_not_iff)
qed

lemma wait_value_split:
  assumes "bits AND eventEVENT_BITS_CONTROL_BYTES = 0"
  shows "wait_value bits clr al AND eventEVENT_BITS_CONTROL_BYTES = control_bits clr al OR taskEVENT_LIST_ITEM_VALUE_IN_USE"
    "wait_value bits clr al AND NOT eventEVENT_BITS_CONTROL_BYTES = bits"
proof -
  have "(control_bits clr al OR taskEVENT_LIST_ITEM_VALUE_IN_USE) AND NOT eventEVENT_BITS_CONTROL_BYTES = 0"
    by (simp add: control_bits_def event_consts)
  note S = word_split_control [OF assms this]
  show "wait_value bits clr al AND eventEVENT_BITS_CONTROL_BYTES = control_bits clr al OR taskEVENT_LIST_ITEM_VALUE_IN_USE"
    "wait_value bits clr al AND NOT eventEVENT_BITS_CONTROL_BYTES = bits"
    using S by (simp_all add: wait_value_def or.assoc)
qed

lemma wait_value_meaning:
  assumes "bits AND eventEVENT_BITS_CONTROL_BYTES = 0"
  shows "match_found (wait_value bits clr al) b = prvTestWaitCondition b bits al" "clear_for (wait_value bits clr al) = (if clr then bits else 0)"
proof -
  have "(control_bits clr al OR taskEVENT_LIST_ITEM_VALUE_IN_USE) AND eventWAIT_FOR_ALL_BITS = 0 \<longleftrightarrow> \<not> al"
    "(control_bits clr al OR taskEVENT_LIST_ITEM_VALUE_IN_USE) AND eventCLEAR_EVENTS_ON_EXIT_BIT \<noteq> 0 \<longleftrightarrow> clr"
    by (simp_all add: control_bits_def event_consts)
  then show "match_found (wait_value bits clr al) b = prvTestWaitCondition b bits al" "clear_for (wait_value bits clr al) = (if clr then bits else 0)"
    unfolding match_found_def clear_for_def prvTestWaitCondition_def wait_value_split [OF assms] Let_def by (simp_all add: and.commute [of b])
qed

lemma set_bits_spec:
  assumes k: "kinv (ekern s)" "uxSchedulerSuspended (ekern s) = 0" "uxPendedTicks (ekern s) = 0" and e: "xEventGroupSetBits x b s = (r, s')"
  defines "W \<equiv> {t. ctn (ekern s) (EventItem t) = Some (TasksWaitingForBits x) \<and> match_found (ival (ekern s) (EventItem t)) (uxEventBits s x OR b)}"
  shows "kinv (ekern s')"
    "ctn (ekern s') = (\<lambda>i. case i of EventItem t \<Rightarrow> if t \<in> W then None else ctn (ekern s) i
       | StateItem t \<Rightarrow> if t \<in> W then Some (ReadyTasksLists (prio (ekern s) t)) else ctn (ekern s) i | TimerItem n \<Rightarrow> ctn (ekern s) i)"
    "ival (ekern s') (EventItem t) = (if t \<in> W then ((uxEventBits s x OR b) OR eventUNBLOCKED_DUE_TO_BIT_SET) OR taskEVENT_LIST_ITEM_VALUE_IN_USE
       else ival (ekern s) (EventItem t))"
    "tcb (ekern s') = tcb (ekern s)" "r = uxEventBits s' x"
    "bit (uxEventBits s' x) n \<longleftrightarrow> bit (uxEventBits s x OR b) n \<and> \<not> (\<exists>t \<in> W. bit (clear_for (ival (ekern s) (EventItem t))) n)"
proof -
  let ?k = "vTaskSuspendAll (ekern s)" and ?l = "TasksWaitingForBits x" and ?b = "uxEventBits s x OR b"
  note K = kinvD [OF kinv_kinvp [OF k(1)]]
  have F: "lists ?k = lists (ekern s)" "ival ?k = ival (ekern s)" "uxPendedTicks ?k = uxPendedTicks (ekern s)" by (simp_all add: vTaskSuspendAll_def)
  obtain c k' where w: "set_bits_walk (xl_items (lists (ekern s) ?l)) ?b 0 ?k = (c, k')"
    by (cases "set_bits_walk (xl_items (lists (ekern s) ?l)) ?b 0 ?k")
  have items: "i \<in> set (xl_items (lists (ekern s) ?l)) \<longleftrightarrow> ctn (ekern s) i = Some ?l" for i by (rule lists_wf_ctn [OF K(1)])
  have ev: "\<exists>t. i = EventItem t" if "ctn (ekern s) i = Some ?l" for i using fitsD [OF K(2) that] by (cases i) auto
  have W: "woken (xl_items (lists (ekern s) ?l)) ?b ?k = W" by (simp add: woken_def W_def items F)
  have d: "distinct (xl_items (lists (ekern s) ?l))" using lists_wf_xl [OF K(1)] by (simp add: xl_wf_def)
  note S = set_bits_walk_spec [OF kinv_suspend [OF k(1)] event_lists(3) [of x] d _ w, unfolded W suspend_fields F]
  have S: "kinv k'" "ctn k' = (\<lambda>i. case i of EventItem t \<Rightarrow> if t \<in> W then None else ctn (ekern s) i
       | StateItem t \<Rightarrow> if t \<in> W then Some (ReadyTasksLists (prio (ekern s) t)) else ctn (ekern s) i | TimerItem n \<Rightarrow> ctn (ekern s) i)"
    "\<And>t. ival k' (EventItem t) = (if t \<in> W then (?b OR eventUNBLOCKED_DUE_TO_BIT_SET) OR taskEVENT_LIST_ITEM_VALUE_IN_USE
       else ival (ekern s) (EventItem t))"
    "tcb k' = tcb (ekern s)" "uxSchedulerSuspended k' = 1" "uxPendedTicks k' = 0" "lists k' PendingReadyList = lists (ekern s) PendingReadyList"
    "\<And>n. bit c n \<longleftrightarrow> (\<exists>t \<in> W. bit (clear_for (ival (ekern s) (EventItem t))) n)"
    using S items ev k(2,3) by (simp_all add: F)
  have pe: "list_is_empty PendingReadyList k'" using pending_empty [OF k(1,2)] S(7) by (simp add: list_is_empty_def)
  note R = resume_calm [OF S(5,6) pe]
  have s': "s' = s\<lparr>ekern := snd (xTaskResumeAll k'), uxEventBits := (uxEventBits s)(x := ?b AND NOT c)\<rparr>" "r = uxEventBits s' x"
    using e w by (simp_all add: xEventGroupSetBits_def on_ekern_def upd_bits_def Let_def F) auto
  show "kinv (ekern s')" using kinv_resume [OF S(1)] S(5) pe list_is_empty_iff [OF kinvD(1) [OF kinv_kinvp [OF S(1)]]] by (simp add: s')
  show "ctn (ekern s') = (\<lambda>i. case i of EventItem t \<Rightarrow> if t \<in> W then None else ctn (ekern s) i
       | StateItem t \<Rightarrow> if t \<in> W then Some (ReadyTasksLists (prio (ekern s) t)) else ctn (ekern s) i | TimerItem n \<Rightarrow> ctn (ekern s) i)"
    "ival (ekern s') (EventItem t) = (if t \<in> W then (?b OR eventUNBLOCKED_DUE_TO_BIT_SET) OR taskEVENT_LIST_ITEM_VALUE_IN_USE
       else ival (ekern s) (EventItem t))"
    "tcb (ekern s') = tcb (ekern s)" using R S by (simp_all add: s')
  show "r = uxEventBits s' x" by (rule s')
  show "bit (uxEventBits s' x) n \<longleftrightarrow> bit ?b n \<and> \<not> (\<exists>t \<in> W. bit (clear_for (ival (ekern s) (EventItem t))) n)"
    unfolding S(8) [symmetric] by (auto simp: s' bit_and_iff bit_not_iff bit_or_iff dest: bit_imp_le_length)
qed


subsection \<open>Properties of event groups\<close>

text \<open>C13: Setting bits wakes exactly the tasks whose condition, any or all of the bits they wait for, the new
  value meets: each becomes ready with the value in its event item; every other waiting task goes on
  waiting with the condition it had. The bits of the woken tasks that asked for it are cleared
  afterwards, and only those.\<close>

theorem xEventGroupSetBits_wakes_exactly:
  assumes k: "kinv (ekern s)" "uxSchedulerSuspended (ekern s) = 0" "uxPendedTicks (ekern s) = 0"
    and w: "\<And>t. ctn (ekern s) (EventItem t) = Some (TasksWaitingForBits x) \<Longrightarrow>
      ival (ekern s) (EventItem t) = wait_value (bits t) (clr t) (al t) \<and> bits t AND eventEVENT_BITS_CONTROL_BYTES = 0"
  shows "let (r, s') = xEventGroupSetBits x b s; now = uxEventBits s x OR b;
      met = (\<lambda>t. ctn (ekern s) (EventItem t) = Some (TasksWaitingForBits x) \<and> prvTestWaitCondition now (bits t) (al t))
    in kinv (ekern s') \<and>
      (\<forall>t. if met t then ctn (ekern s') (StateItem t) = Some (ReadyTasksLists (prio (ekern s) t)) \<and> ctn (ekern s') (EventItem t) = None \<and>
             ival (ekern s') (EventItem t) = (now OR eventUNBLOCKED_DUE_TO_BIT_SET) OR taskEVENT_LIST_ITEM_VALUE_IN_USE
           else ctn (ekern s') (StateItem t) = ctn (ekern s) (StateItem t) \<and> ctn (ekern s') (EventItem t) = ctn (ekern s) (EventItem t) \<and>
             ival (ekern s') (EventItem t) = ival (ekern s) (EventItem t)) \<and>
      r = uxEventBits s' x \<and> (\<forall>n. bit r n \<longleftrightarrow> bit now n \<and> \<not> (\<exists>t. met t \<and> clr t \<and> bit (bits t) n))"
proof -
  obtain r s' where e: "xEventGroupSetBits x b s = (r, s')" by (cases "xEventGroupSetBits x b s")
  let ?now = "uxEventBits s x OR b"
  let ?met = "\<lambda>t. ctn (ekern s) (EventItem t) = Some (TasksWaitingForBits x) \<and> prvTestWaitCondition ?now (bits t) (al t)"
  have m: "ctn (ekern s) (EventItem t) = Some (TasksWaitingForBits x) \<and> match_found (ival (ekern s) (EventItem t)) ?now \<longleftrightarrow> ?met t" for t
    using w [of t] wait_value_meaning(1) [of "bits t" "clr t" "al t" ?now] by auto
  note S = set_bits_spec [OF k e, unfolded m mem_Collect_eq]
  have "(\<exists>t\<in>{t. ?met t}. bit (clear_for (ival (ekern s) (EventItem t))) n) \<longleftrightarrow> (\<exists>t. ?met t \<and> clr t \<and> bit (bits t) n)" for n
  proof -
    have "bit (clear_for (ival (ekern s) (EventItem t))) n \<longleftrightarrow> clr t \<and> bit (bits t) n" if "?met t" for t
      using w [of t] wait_value_meaning(2) [of "bits t" "clr t" "al t"] that by auto
    then show ?thesis by blast
  qed
  then show ?thesis unfolding e Let_def prod.case using S by simp
qed

lemma place_unordered_fields:
  assumes "ctn k (StateItem (pxCurrentTCB k)) = Some l0"
  shows "ctn (vTaskPlaceOnUnorderedEventList l v n k) = (ctn k)(EventItem (pxCurrentTCB k) \<mapsto> l, StateItem (pxCurrentTCB k) \<mapsto>
      (if xTickCount k + n < xTickCount k then pxOverflowDelayedTaskList k else pxDelayedTaskList k))"
    "ival (vTaskPlaceOnUnorderedEventList l v n k) = (ival k)(EventItem (pxCurrentTCB k) := v OR taskEVENT_LIST_ITEM_VALUE_IN_USE,
      StateItem (pxCurrentTCB k) := xTickCount k + n)"
    "tcb (vTaskPlaceOnUnorderedEventList l v n k) = tcb k" "pxCurrentTCB (vTaskPlaceOnUnorderedEventList l v n k) = pxCurrentTCB k"
    "uxSchedulerSuspended (vTaskPlaceOnUnorderedEventList l v n k) = uxSchedulerSuspended k"
    "uxPendedTicks (vTaskPlaceOnUnorderedEventList l v n k) = uxPendedTicks k"
  using assms by (simp_all add: vTaskPlaceOnUnorderedEventList_def prvAddCurrentTaskToDelayedList_def list_remove_def
    Let_def list_insert_def list_insert_end_def set_item_value_def)

text \<open>Another task \<open>u\<close> runs, sets bits, and the first task runs again.\<close>

definition set_by :: "tid \<Rightarrow> nat \<Rightarrow> u32 \<Rightarrow> egsys \<Rightarrow> egsys" where
  "set_by u x b s = (let t = pxCurrentTCB (ekern s) in
     on_ekern (\<lambda>k. k\<lparr>pxCurrentTCB := t\<rparr>) (snd (xEventGroupSetBits x b (on_ekern (\<lambda>k. k\<lparr>pxCurrentTCB := u\<rparr>) s))))"

lemma wait_blocks:
  fixes x :: nat and v :: u32
  assumes k: "kinv (ekern s)" "may_block (ekern s)" "uxSchedulerSuspended (ekern s) = 0" "uxPendedTicks (ekern s) = 0" and n: "n \<noteq> 0"
  defines "s1 \<equiv> resume_and_yield (on_ekern (vTaskPlaceOnUnorderedEventList (TasksWaitingForBits x) v n) (on_ekern vTaskSuspendAll s))"
    and "t \<equiv> pxCurrentTCB (ekern s)"
  shows "kinv (ekern s1)" "uxSchedulerSuspended (ekern s1) = 0" "uxPendedTicks (ekern s1) = 0" "uxEventBits s1 = uxEventBits s"
    "ctn (ekern s1) (EventItem t) = Some (TasksWaitingForBits x)" "ival (ekern s1) (EventItem t) = v OR taskEVENT_LIST_ITEM_VALUE_IN_USE"
    "pxCurrentTCB (ekern s1) = t"
proof -
  let ?k = "vTaskSuspendAll (ekern s)"
  let ?k1 = "vTaskPlaceOnUnorderedEventList (TasksWaitingForBits x) v n ?k"
  have b: "may_block ?k" using k(2) by (simp add: may_block_def cur_ready_def) (simp add: vTaskSuspendAll_def)
  have r: "ctn ?k (StateItem (pxCurrentTCB ?k)) = Some (ReadyTasksLists (cur_prio ?k))" using b by (simp add: may_block_def cur_ready_def)
  have k1: "kinv ?k1" by (rule kinv_places(2) [OF kinv_suspend [OF k(1)] b event_lists(3) n])
  note F = place_unordered_fields [OF r, of "TasksWaitingForBits x" v n]
  have dl: "delay_lists ?k" by (rule kinvD(3) [OF kinv_kinvp [OF kinv_suspend [OF k(1)]]])
  note ie = list_is_empty_iff [OF kinvD(1) [OF kinv_kinvp]]
  have pe: "list_is_empty PendingReadyList ?k1"
    using pending_empty [OF k(1,3)] dl unfolding ie [OF k1] ie [OF k(1)] F(1) by (auto simp: delay_lists_def)
  have sp: "uxSchedulerSuspended ?k1 = 1" "uxPendedTicks ?k1 = 0" using F(5,6) k(3,4) by (simp_all add: vTaskSuspendAll_def)
  note R = resume_calm [OF sp pe]
  have kr: "kinv (snd (xTaskResumeAll ?k1))" using kinv_resume [OF k1] sp pe unfolding ie [OF k1] by simp
  have e: "ekern s1 = (if fst (xTaskResumeAll ?k1) then snd (xTaskResumeAll ?k1) else portYIELD (snd (xTaskResumeAll ?k1)))"
    and "uxEventBits s1 = uxEventBits s"
    by (simp_all add: s1_def resume_and_yield_def on_ekern_def case_prod_beta Let_def)
  then show "uxEventBits s1 = uxEventBits s" by simp
  show "kinv (ekern s1)" using kr by (simp add: e)
  show "uxSchedulerSuspended (ekern s1) = 0" "uxPendedTicks (ekern s1) = 0" "ctn (ekern s1) (EventItem t) = Some (TasksWaitingForBits x)"
    "ival (ekern s1) (EventItem t) = v OR taskEVENT_LIST_ITEM_VALUE_IN_USE" "pxCurrentTCB (ekern s1) = t"
    using R F by (simp_all add: e portYIELD_def t_def)
qed

text \<open>A task that waits for bits which are not set blocks; when another task then sets bits that meet its
  condition, its call returns the value of the group at that moment, with the control byte masked
  out, and with clearing asked for the bits it waited for are clear afterwards.\<close>

theorem xEventGroupWaitBits_returns_bits:
  assumes k: "kinv (ekern s)" "may_block (ekern s)" "uxSchedulerSuspended (ekern s) = 0" "uxPendedTicks (ekern s) = 0"
    and b: "bits AND eventEVENT_BITS_CONTROL_BYTES = 0" and n: "n \<noteq> 0" and unmet: "\<not> prvTestWaitCondition (uxEventBits s x) bits al"
    and met: "prvTestWaitCondition (uxEventBits s x OR b) bits al"
  shows "case xEventGroupWaitBits (set_by u x b) x bits clr al n s of (r, s') \<Rightarrow>
    r = (uxEventBits s x OR b) AND NOT eventEVENT_BITS_CONTROL_BYTES \<and> (clr \<longrightarrow> uxEventBits s' x AND bits = 0)"
proof -
  let ?t = "pxCurrentTCB (ekern s)" and ?b = "uxEventBits s x OR b"
  define s1 where "s1 = resume_and_yield (on_ekern (vTaskPlaceOnUnorderedEventList (TasksWaitingForBits x) (bits OR control_bits clr al) n) (on_ekern vTaskSuspendAll s))"
  note B = wait_blocks [OF k n, where x = x and v = "bits OR control_bits clr al", folded s1_def]
  define s2 where "s2 = on_ekern (\<lambda>k. k\<lparr>pxCurrentTCB := u\<rparr>) s1"
  obtain r s3 where e3: "xEventGroupSetBits x b s2 = (r, s3)" by (cases "xEventGroupSetBits x b s2")
  have k2: "kinv (ekern s2)" "uxSchedulerSuspended (ekern s2) = 0" "uxPendedTicks (ekern s2) = 0" using B by (simp_all add: s2_def on_ekern_def)
  have v: "ival (ekern s2) (EventItem ?t) = wait_value bits clr al" using B(6) by (simp add: s2_def on_ekern_def wait_value_def)
  have c2: "ctn (ekern s2) (EventItem ?t) = Some (TasksWaitingForBits x)" "uxEventBits s2 = uxEventBits s" using B by (simp_all add: s2_def on_ekern_def)
  note S = set_bits_spec [OF k2 e3, unfolded c2(2)]
  have tw: "?t \<in> {t. ctn (ekern s2) (EventItem t) = Some (TasksWaitingForBits x) \<and> match_found (ival (ekern s2) (EventItem t)) ?b}"
    using c2 v met wait_value_meaning(1) [OF b] by simp
  have iv: "ival (ekern s3) (EventItem ?t) = (?b OR eventUNBLOCKED_DUE_TO_BIT_SET) OR taskEVENT_LIST_ITEM_VALUE_IN_USE"
    using S(3) [of ?t] tw by simp
  have cl: "clr \<longrightarrow> uxEventBits s3 x AND bits = 0"
  proof
    assume c: clr
    have "bit (clear_for (ival (ekern s2) (EventItem ?t))) m" if "bit bits m" for m using that v c wait_value_meaning(2) [OF b] by simp
    then have "\<not> (bit (uxEventBits s3 x) m \<and> bit bits m)" for m using S(6) [of m] tw by blast
    then show "uxEventBits s3 x AND bits = 0" by (intro bit_eqI) (simp add: bit_and_iff)
  qed
  have g: "set_by u x b s1 = on_ekern (\<lambda>k. k\<lparr>pxCurrentTCB := ?t\<rparr>) s3" using B(7) e3 by (simp add: set_by_def s2_def Let_def)
  have W: "xEventGroupWaitBits (set_by u x b) x bits clr al n s = wait_exit x bits clr al (set_by u x b s1)"
    using unmet n by (simp add: xEventGroupWaitBits_def s1_def control_bits_def on_ekern_def Let_def cong: if_cong)
  have m: "((?b OR eventUNBLOCKED_DUE_TO_BIT_SET) OR taskEVENT_LIST_ITEM_VALUE_IN_USE) AND eventUNBLOCKED_DUE_TO_BIT_SET = eventUNBLOCKED_DUE_TO_BIT_SET"
    "((?b OR eventUNBLOCKED_DUE_TO_BIT_SET) OR taskEVENT_LIST_ITEM_VALUE_IN_USE) AND NOT eventEVENT_BITS_CONTROL_BYTES = ?b AND NOT eventEVENT_BITS_CONTROL_BYTES"
  proof -
    have "eventUNBLOCKED_DUE_TO_BIT_SET AND NOT eventEVENT_BITS_CONTROL_BYTES = 0" "taskEVENT_LIST_ITEM_VALUE_IN_USE AND NOT eventEVENT_BITS_CONTROL_BYTES = 0"
      by (simp_all add: event_consts)
    then show "((?b OR eventUNBLOCKED_DUE_TO_BIT_SET) OR taskEVENT_LIST_ITEM_VALUE_IN_USE) AND NOT eventEVENT_BITS_CONTROL_BYTES = ?b AND NOT eventEVENT_BITS_CONTROL_BYTES"
      by (simp add: bit.conj_disj_distrib2)
    show "((?b OR eventUNBLOCKED_DUE_TO_BIT_SET) OR taskEVENT_LIST_ITEM_VALUE_IN_USE) AND eventUNBLOCKED_DUE_TO_BIT_SET = eventUNBLOCKED_DUE_TO_BIT_SET"
      by (intro bit_eqI) (auto simp: bit_and_iff bit_or_iff)
  qed
  have ne: "eventUNBLOCKED_DUE_TO_BIT_SET \<noteq> 0" by (simp add: eventUNBLOCKED_DUE_TO_BIT_SET_def)
  show ?thesis unfolding W g using iv m ne cl by (simp add: wait_exit_def uxTaskResetEventItemValue_def on_ekern_def Let_def)
qed


definition demo_bits :: egsys where
  "demo_bits = \<lparr>ekern = (vTaskPlaceOnUnorderedEventList (TasksWaitingForBits 9) (6 OR control_bits True True) 10 demo_kernel)\<lparr>pxCurrentTCB := 1000\<rparr>,
     uxEventBits = (\<lambda>_. 2)\<rparr>"

theorem xEventGroupSetBits_wakes_exactly_witness:
  "let (r, s') = xEventGroupSetBits 9 5 demo_bits
   in ctn (ekern s') (StateItem 2000) = Some (ReadyTasksLists 2) \<and> ctn (ekern s') (EventItem 4000) = Some (TasksWaitingToReceive 7) \<and>
     bit r 0 \<and> \<not> bit r 1 \<and> \<not> bit r 2"
proof -
  have mb: "may_block demo_kernel" by (simp add: may_block_def) (simp add: demo_kernel_def)
  have c: "ctn demo_kernel (StateItem (pxCurrentTCB demo_kernel)) = Some (ReadyTasksLists 2)" by simp
  note F = place_unordered_fields [OF c, of "TasksWaitingForBits 9" "6 OR control_bits True True" 10]
  have k: "kinv (ekern demo_bits)" "uxSchedulerSuspended (ekern demo_bits) = 0" "uxPendedTicks (ekern demo_bits) = 0"
    using kinv_places(2) [OF demo_kinv mb event_lists(3)] F by (simp_all add: demo_bits_def)
  have w: "ctn (ekern demo_bits) (EventItem t) = Some (TasksWaitingForBits 9) \<longleftrightarrow> t = 2000" for t
    using F(1) by (auto simp: demo_bits_def)
  have v: "ival (ekern demo_bits) (EventItem 2000) = wait_value 6 True True" using F(2) by (simp add: demo_bits_def wait_value_def)
  have st: "ctn (ekern demo_bits) (EventItem 4000) = Some (TasksWaitingToReceive 7)" "prio (ekern demo_bits) 2000 = 2"
    using F(1,3) by (simp_all add: demo_bits_def)
  have p: "prvTestWaitCondition (uxEventBits demo_bits 9 OR 5) 6 True" "uxEventBits demo_bits 9 OR 5 = 7"
    by (simp_all add: prvTestWaitCondition_def demo_bits_def)
  obtain r s' where e: "xEventGroupSetBits 9 5 demo_bits = (r, s')" by (cases "xEventGroupSetBits 9 5 demo_bits")
  note S = xEventGroupSetBits_wakes_exactly [OF k, of 9 "\<lambda>_. 6" "\<lambda>_. True" "\<lambda>_. True" 5, unfolded e Let_def prod.case w]
  have q: "ival (ekern demo_bits) (EventItem t) = wait_value 6 True True \<and> (6 :: u32) AND eventEVENT_BITS_CONTROL_BYTES = 0" if "t = 2000" for t
    using v that by (simp add: eventEVENT_BITS_CONTROL_BYTES_def)
  have S: "\<forall>t. if t = 2000 \<and> prvTestWaitCondition (uxEventBits demo_bits 9 OR 5) 6 True
        then ctn (ekern s') (StateItem t) = Some (ReadyTasksLists (prio (ekern demo_bits) t)) \<and> ctn (ekern s') (EventItem t) = None \<and>
             ival (ekern s') (EventItem t) = ((uxEventBits demo_bits 9 OR 5) OR eventUNBLOCKED_DUE_TO_BIT_SET) OR taskEVENT_LIST_ITEM_VALUE_IN_USE
        else ctn (ekern s') (StateItem t) = ctn (ekern demo_bits) (StateItem t) \<and> ctn (ekern s') (EventItem t) = ctn (ekern demo_bits) (EventItem t) \<and>
             ival (ekern s') (EventItem t) = ival (ekern demo_bits) (EventItem t)"
    "\<forall>n. bit r n \<longleftrightarrow> bit (uxEventBits demo_bits 9 OR 5) n \<and> \<not> (\<exists>t :: nat. (t = 2000 \<and> prvTestWaitCondition (uxEventBits demo_bits 9 OR 5) 6 True) \<and> True \<and> bit (6 :: u32) n)"
    by (rule S [OF q, THEN conjunct2, THEN conjunct1], assumption) (rule S [OF q, THEN conjunct2, THEN conjunct2, THEN conjunct2])
  have b: "bit (7 :: u32) 0" "bit (6 :: u32) 1" "bit (6 :: u32) 2" "\<not> bit (6 :: u32) 0" by code_simp+
  show ?thesis unfolding e Let_def prod.case using S(1) [THEN spec, of 2000] S(1) [THEN spec, of 4000] S(2) p st b by simp
qed

theorem xEventGroupWaitBits_returns_bits_witness:
  "case xEventGroupWaitBits (set_by 1000 9 4) 9 6 True True 10 \<lparr>ekern = demo_kernel, uxEventBits = (\<lambda>_. 3)\<rparr> of (r, s') \<Rightarrow>
    r = 7 \<and> uxEventBits s' 9 AND 6 = 0"
proof -
  have mb: "may_block demo_kernel" by (simp add: may_block_def) (simp add: demo_kernel_def)
  show ?thesis
    using xEventGroupWaitBits_returns_bits [of "\<lparr>ekern = demo_kernel, uxEventBits = (\<lambda>_. 3)\<rparr>" 6 10 9 True 4, where u = 1000 and clr = True] demo_kinv mb
    by (simp add: prvTestWaitCondition_def eventEVENT_BITS_CONTROL_BYTES_def split: prod.splits)
qed

end
