(* ===== verification/StreamBuffer.thy ===== *)
theory StreamBuffer
  imports EventLists ByteMemory
begin

text \<open>
  Stream and message buffers, \<open>lib/FreeRTOS/src/stream_buffer.c\<close>: a ring of bytes with one reader and
  one writer, which wait for each other by task notifications. A message buffer stores the length of
  each message, four bytes, least significant first, ahead of it. What other tasks and interrupts do
  while a call waits is an argument.
\<close>

subsection \<open>Data\<close>

record stream_t =
  xTail :: nat
  xHead :: nat
  xLength :: nat
  xTriggerLevelBytes :: nat
  xTaskWaitingToReceive :: tid
  xTaskWaitingToSend :: tid
  pucBuffer :: nat
  is_message :: bool

record ssys =
  skern :: kernel
  streams :: "nat \<Rightarrow> stream_t"
  smem :: bytes

definition sbBYTES_TO_STORE_MESSAGE_LENGTH :: nat where "sbBYTES_TO_STORE_MESSAGE_LENGTH = 4"
definition sizeof_StreamBuffer :: nat where "sizeof_StreamBuffer = 32"

definition upd_stream :: "nat \<Rightarrow> (stream_t \<Rightarrow> stream_t) \<Rightarrow> ssys \<Rightarrow> ssys" where
  "upd_stream x f s = s\<lparr>streams := (streams s)(x := f (streams s x))\<rparr>"

definition on_skern :: "(kernel \<Rightarrow> kernel) \<Rightarrow> ssys \<Rightarrow> ssys" where
  "on_skern f s = s\<lparr>skern := f (skern s)\<rparr>"

subsection \<open>Creation\<close>

definition prvInitialiseNewStreamBuffer :: "nat \<Rightarrow> nat \<Rightarrow> nat \<Rightarrow> bool \<Rightarrow> stream_t" where
  "prvInitialiseNewStreamBuffer pucBuffer0 xBufferSizeBytes xTriggerLevelBytes0 msg =
     \<lparr>xTail = 0, xHead = 0, xLength = xBufferSizeBytes, xTriggerLevelBytes = xTriggerLevelBytes0, xTaskWaitingToReceive = 0,
      xTaskWaitingToSend = 0, pucBuffer = pucBuffer0, is_message = msg\<rparr>"

text \<open>The handle, 0 when there is no memory. One byte more than asked for is allocated, since a full buffer
  and an empty one must differ; the sizes are 32 bits.\<close>

definition xStreamBufferGenericCreate :: "nat \<Rightarrow> nat \<Rightarrow> bool \<Rightarrow> ssys \<Rightarrow> nat \<times> ssys" where
  "xStreamBufferGenericCreate xBufferSizeBytes xTriggerLevelBytes0 msg s =
     (let xTriggerLevelBytes0 = (if xTriggerLevelBytes0 = 0 then 1 else xTriggerLevelBytes0);
          xBufferSizeBytes = (xBufferSizeBytes + 1) mod 2 ^ 32;
          (p, k) = pvPortMalloc ((xBufferSizeBytes + sizeof_StreamBuffer) mod 2 ^ 32) (skern s);
          s = s\<lparr>skern := k\<rparr>
      in (p, if p \<noteq> 0
             then upd_stream p (\<lambda>_. prvInitialiseNewStreamBuffer (p + sizeof_StreamBuffer) xBufferSizeBytes xTriggerLevelBytes0 msg) s
             else s))"

definition vStreamBufferDelete :: "nat \<Rightarrow> ssys \<Rightarrow> ssys" where
  "vStreamBufferDelete x s = on_skern (vPortFree x) s"

definition xStreamBufferReset :: "nat \<Rightarrow> ssys \<Rightarrow> bool \<times> ssys" where
  "xStreamBufferReset x s =
     (let b = streams s x
      in if xTaskWaitingToReceive b = 0 \<and> xTaskWaitingToSend b = 0
         then (True, upd_stream x (\<lambda>b. prvInitialiseNewStreamBuffer (pucBuffer b) (xLength b) (xTriggerLevelBytes b) (is_message b)) s)
         else (False, s))"

definition xStreamBufferSetTriggerLevel :: "nat \<Rightarrow> nat \<Rightarrow> ssys \<Rightarrow> bool \<times> ssys" where
  "xStreamBufferSetTriggerLevel x xTriggerLevel s =
     (let xTriggerLevel = (if xTriggerLevel = 0 then 1 else xTriggerLevel)
      in if xTriggerLevel \<le> xLength (streams s x)
         then (True, upd_stream x (\<lambda>b. b\<lparr>xTriggerLevelBytes := xTriggerLevel\<rparr>) s) else (False, s))"

subsection \<open>Counting\<close>

definition xStreamBufferSpacesAvailable :: "stream_t \<Rightarrow> nat" where
  "xStreamBufferSpacesAvailable b =
     (let xSpace = xLength b + xTail b - xHead b - 1 in if xSpace \<ge> xLength b then xSpace - xLength b else xSpace)"

definition prvBytesInBuffer :: "stream_t \<Rightarrow> nat" where
  "prvBytesInBuffer b =
     (let xCount = xLength b + xHead b - xTail b in if xCount \<ge> xLength b then xCount - xLength b else xCount)"

definition xStreamBufferBytesAvailable :: "nat \<Rightarrow> ssys \<Rightarrow> nat" where
  "xStreamBufferBytesAvailable x s = prvBytesInBuffer (streams s x)"

definition xStreamBufferIsEmpty :: "nat \<Rightarrow> ssys \<Rightarrow> bool" where
  "xStreamBufferIsEmpty x s \<longleftrightarrow> xHead (streams s x) = xTail (streams s x)"

definition header_length :: "stream_t \<Rightarrow> nat" where
  "header_length b = (if is_message b then sbBYTES_TO_STORE_MESSAGE_LENGTH else 0)"

definition xStreamBufferIsFull :: "nat \<Rightarrow> ssys \<Rightarrow> bool" where
  "xStreamBufferIsFull x s \<longleftrightarrow> xStreamBufferSpacesAvailable (streams s x) \<le> header_length (streams s x)"

subsection \<open>Bytes\<close>

text \<open>Two pieces when the data passes the end of the ring.\<close>

definition prvWriteBytesToBuffer :: "u8 list \<Rightarrow> stream_t \<times> bytes \<Rightarrow> nat \<times> stream_t \<times> bytes" where
  "prvWriteBytesToBuffer pucData = (\<lambda>(b, m).
     let xCount = length pucData;
         xNextHead = xHead b;
         xFirstLength = min (xLength b - xNextHead) xCount;
         m = write_bytes (pucBuffer b + xNextHead) (take xFirstLength pucData) m;
         m = (if xCount > xFirstLength then write_bytes (pucBuffer b) (drop xFirstLength pucData) m else m);
         xNextHead = xNextHead + xCount;
         xNextHead = (if xNextHead \<ge> xLength b then xNextHead - xLength b else xNextHead)
     in (xCount, b\<lparr>xHead := xNextHead\<rparr>, m))"

definition prvReadBytesFromBuffer :: "nat \<Rightarrow> nat \<Rightarrow> bytes \<Rightarrow> stream_t \<Rightarrow> u8 list \<times> stream_t" where
  "prvReadBytesFromBuffer xMaxCount xBytesAvailable m b =
     (let xCount = min xBytesAvailable xMaxCount
      in if xCount > 0
         then let xNextTail = xTail b;
                  xFirstLength = min (xLength b - xNextTail) xCount;
                  d = read_bytes (pucBuffer b + xNextTail) xFirstLength m;
                  d = (if xCount > xFirstLength then d @ read_bytes (pucBuffer b) (xCount - xFirstLength) m else d);
                  xNextTail = xNextTail + xCount;
                  xNextTail = (if xNextTail \<ge> xLength b then xNextTail - xLength b else xNextTail)
              in (d, b\<lparr>xTail := xNextTail\<rparr>)
         else ([], b))"

definition prvWriteMessageToBuffer :: "u8 list \<Rightarrow> nat \<Rightarrow> nat \<Rightarrow> stream_t \<times> bytes \<Rightarrow> nat \<times> stream_t \<times> bytes" where
  "prvWriteMessageToBuffer pvTxData xSpace xRequiredSpace bm =
     (if xSpace = 0 then (0, bm)
      else if \<not> is_message (fst bm) then prvWriteBytesToBuffer (take xSpace pvTxData) bm
      else if xSpace \<ge> xRequiredSpace
      then let (_, bm) = prvWriteBytesToBuffer (le_bytes (length pvTxData)) bm in prvWriteBytesToBuffer pvTxData bm
      else (0, bm))"

definition prvReadMessageFromBuffer :: "nat \<Rightarrow> nat \<Rightarrow> nat \<Rightarrow> bytes \<Rightarrow> stream_t \<Rightarrow> u8 list \<times> stream_t" where
  "prvReadMessageFromBuffer xBufferLengthBytes xBytesAvailable xBytesToStoreMessageLength m b =
     (let (xNextMessageLength, xBytesAvailable, b) =
        (if xBytesToStoreMessageLength \<noteq> 0
         then let xOriginalTail = xTail b;
                  (h, b) = prvReadBytesFromBuffer xBytesToStoreMessageLength xBytesAvailable m b;
                  xNextMessageLength = of_le_bytes h;
                  xBytesAvailable = xBytesAvailable - xBytesToStoreMessageLength
              in if xNextMessageLength > xBufferLengthBytes then (0, xBytesAvailable, b\<lparr>xTail := xOriginalTail\<rparr>)
                 else (xNextMessageLength, xBytesAvailable, b)
         else (xBufferLengthBytes, xBytesAvailable, b))
      in prvReadBytesFromBuffer xNextMessageLength xBytesAvailable m b)"

subsection \<open>Waking the other side\<close>

definition sbRECEIVE_COMPLETED :: "nat \<Rightarrow> ssys \<Rightarrow> ssys" where
  "sbRECEIVE_COMPLETED x s =
     (let s = on_skern vTaskSuspendAll s;
          t = xTaskWaitingToSend (streams s x);
          s = (if t \<noteq> 0 then upd_stream x (\<lambda>b. b\<lparr>xTaskWaitingToSend := 0\<rparr>) (on_skern (snd \<circ> xTaskGenericNotify t 0 eNoAction) s) else s)
      in on_skern (snd \<circ> xTaskResumeAll) s)"

definition sbSEND_COMPLETED :: "nat \<Rightarrow> ssys \<Rightarrow> ssys" where
  "sbSEND_COMPLETED x s =
     (let s = on_skern vTaskSuspendAll s;
          t = xTaskWaitingToReceive (streams s x);
          s = (if t \<noteq> 0 then upd_stream x (\<lambda>b. b\<lparr>xTaskWaitingToReceive := 0\<rparr>) (on_skern (snd \<circ> xTaskGenericNotify t 0 eNoAction) s) else s)
      in on_skern (snd \<circ> xTaskResumeAll) s)"

text \<open>The same from an interrupt: whether there was a task to tell, and whether it is above the running one.\<close>

definition xStreamBufferSendCompletedFromISR :: "nat \<Rightarrow> ssys \<Rightarrow> (bool \<times> bool) \<times> ssys" where
  "xStreamBufferSendCompletedFromISR x s =
     (let t = xTaskWaitingToReceive (streams s x)
      in if t \<noteq> 0
         then let ((_, _, woken), k) = xTaskGenericNotifyFromISR t 0 eNoAction (skern s)
              in ((True, woken), upd_stream x (\<lambda>b. b\<lparr>xTaskWaitingToReceive := 0\<rparr>) (s\<lparr>skern := k\<rparr>))
         else ((False, False), s))"

definition xStreamBufferReceiveCompletedFromISR :: "nat \<Rightarrow> ssys \<Rightarrow> (bool \<times> bool) \<times> ssys" where
  "xStreamBufferReceiveCompletedFromISR x s =
     (let t = xTaskWaitingToSend (streams s x)
      in if t \<noteq> 0
         then let ((_, _, woken), k) = xTaskGenericNotifyFromISR t 0 eNoAction (skern s)
              in ((True, woken), upd_stream x (\<lambda>b. b\<lparr>xTaskWaitingToSend := 0\<rparr>) (s\<lparr>skern := k\<rparr>))
         else ((False, False), s))"

subsection \<open>Sending and receiving\<close>

text \<open>What happens elsewhere in one round of a wait: before the task blocks, and until it runs again.\<close>

record sgaps =
  sbefore_wait :: "ssys \<Rightarrow> ssys"
  suntil_rerun :: "ssys \<Rightarrow> ssys"

definition notify_wait :: "sgaps \<Rightarrow> tick \<Rightarrow> ssys \<Rightarrow> ssys" where
  "notify_wait g xTicksToWait s =
     (let s = on_skern (xTaskNotifyWait_enter 0 xTicksToWait) (sbefore_wait g s)
      in on_skern (snd \<circ> xTaskNotifyWait_exit 0) (suntil_rerun g s))"

text \<open>The loop that waits for space: the space seen last, \<open>None\<close> when the rounds are used up.\<close>

fun send_wait :: "sgaps list \<Rightarrow> nat \<Rightarrow> nat \<Rightarrow> TimeOut_t \<Rightarrow> tick \<Rightarrow> ssys \<Rightarrow> (nat \<times> ssys) option" where
  "send_wait [] x xRequiredSpace to xTicksToWait s = None"
| "send_wait (g # gs) x xRequiredSpace to xTicksToWait s =
     (let xSpace = xStreamBufferSpacesAvailable (streams s x)
      in if xSpace < xRequiredSpace
         then let s = on_skern (snd \<circ> xTaskNotifyStateClear 0) s;
                  s = upd_stream x (\<lambda>b. b\<lparr>xTaskWaitingToSend := xTaskGetCurrentTaskHandle (skern s)\<rparr>) s;
                  s = notify_wait g xTicksToWait s;
                  s = upd_stream x (\<lambda>b. b\<lparr>xTaskWaitingToSend := 0\<rparr>) s;
                  (xTimedOut, to, xTicksToWait) = xTaskCheckForTimeOut to xTicksToWait (skern s)
              in if \<not> xTimedOut then send_wait gs x xRequiredSpace to xTicksToWait s else Some (xSpace, s)
         else Some (xSpace, s))"

definition write_stream :: "nat \<Rightarrow> u8 list \<Rightarrow> nat \<Rightarrow> ssys \<Rightarrow> nat \<times> ssys" where
  "write_stream x pvTxData xSpace s =
     (let (n, b, m) = prvWriteMessageToBuffer pvTxData xSpace (length pvTxData + header_length (streams s x)) (streams s x, smem s)
      in (n, s\<lparr>streams := (streams s)(x := b), smem := m\<rparr>))"

definition xStreamBufferSend :: "sgaps list \<Rightarrow> nat \<Rightarrow> u8 list \<Rightarrow> tick \<Rightarrow> ssys \<Rightarrow> (nat \<times> ssys) option" where
  "xStreamBufferSend gs x pvTxData xTicksToWait s =
     (case (if xTicksToWait \<noteq> 0
            then send_wait gs x (length pvTxData + header_length (streams s x)) (vTaskSetTimeOutState (skern s)) xTicksToWait s
            else Some (0, s)) of
        None \<Rightarrow> None
      | Some (xSpace, s) \<Rightarrow>
          let xSpace = (if xSpace = 0 then xStreamBufferSpacesAvailable (streams s x) else xSpace);
              (xReturn, s) = write_stream x pvTxData xSpace s
          in Some (xReturn, if xReturn > 0 \<and> prvBytesInBuffer (streams s x) \<ge> xTriggerLevelBytes (streams s x) then sbSEND_COMPLETED x s else s))"

definition xStreamBufferSendFromISR :: "nat \<Rightarrow> u8 list \<Rightarrow> ssys \<Rightarrow> (nat \<times> bool) \<times> ssys" where
  "xStreamBufferSendFromISR x pvTxData s =
     (let (xReturn, s) = write_stream x pvTxData (xStreamBufferSpacesAvailable (streams s x)) s
      in if xReturn > 0 \<and> prvBytesInBuffer (streams s x) \<ge> xTriggerLevelBytes (streams s x)
         then let ((_, woken), s) = xStreamBufferSendCompletedFromISR x s in ((xReturn, woken), s)
         else ((xReturn, False), s))"

definition read_stream :: "nat \<Rightarrow> nat \<Rightarrow> nat \<Rightarrow> ssys \<Rightarrow> u8 list \<times> ssys" where
  "read_stream x xBufferLengthBytes xBytesAvailable s =
     (let (d, b) = prvReadMessageFromBuffer xBufferLengthBytes xBytesAvailable (header_length (streams s x)) (smem s) (streams s x)
      in (d, s\<lparr>streams := (streams s)(x := b)\<rparr>))"

text \<open>The wait for data: at most one round.\<close>

definition receive_wait :: "sgaps \<Rightarrow> nat \<Rightarrow> tick \<Rightarrow> ssys \<Rightarrow> nat \<times> ssys" where
  "receive_wait g x xTicksToWait s =
     (let xBytesAvailable = prvBytesInBuffer (streams s x)
      in if xBytesAvailable \<le> header_length (streams s x)
         then let s = on_skern (snd \<circ> xTaskNotifyStateClear 0) s;
                  s = upd_stream x (\<lambda>b. b\<lparr>xTaskWaitingToReceive := xTaskGetCurrentTaskHandle (skern s)\<rparr>) s;
                  s = notify_wait g xTicksToWait s;
                  s = upd_stream x (\<lambda>b. b\<lparr>xTaskWaitingToReceive := 0\<rparr>) s
              in (prvBytesInBuffer (streams s x), s)
         else (xBytesAvailable, s))"

definition xStreamBufferReceive :: "sgaps \<Rightarrow> nat \<Rightarrow> nat \<Rightarrow> tick \<Rightarrow> ssys \<Rightarrow> u8 list \<times> ssys" where
  "xStreamBufferReceive g x xBufferLengthBytes xTicksToWait s =
     (let (xBytesAvailable, s) = (if xTicksToWait \<noteq> 0 then receive_wait g x xTicksToWait s else (prvBytesInBuffer (streams s x), s))
      in if xBytesAvailable > header_length (streams s x)
         then let (d, s) = read_stream x xBufferLengthBytes xBytesAvailable s
              in (d, if d \<noteq> [] then sbRECEIVE_COMPLETED x s else s)
         else ([], s))"

definition xStreamBufferReceiveFromISR :: "nat \<Rightarrow> nat \<Rightarrow> ssys \<Rightarrow> (u8 list \<times> bool) \<times> ssys" where
  "xStreamBufferReceiveFromISR x xBufferLengthBytes s =
     (let xBytesAvailable = prvBytesInBuffer (streams s x)
      in if xBytesAvailable > header_length (streams s x)
         then let (d, s) = read_stream x xBufferLengthBytes xBytesAvailable s
              in if d \<noteq> []
                 then let ((_, woken), s) = xStreamBufferReceiveCompletedFromISR x s in ((d, woken), s)
                 else ((d, False), s)
         else (([], False), s))"

definition xStreamBufferNextMessageLengthBytes :: "nat \<Rightarrow> ssys \<Rightarrow> nat" where
  "xStreamBufferNextMessageLengthBytes x s =
     (let b = streams s x; xBytesAvailable = prvBytesInBuffer b
      in if is_message b \<and> xBytesAvailable > sbBYTES_TO_STORE_MESSAGE_LENGTH
         then of_le_bytes (fst (prvReadBytesFromBuffer sbBYTES_TO_STORE_MESSAGE_LENGTH xBytesAvailable (smem s) b)) else 0)"

end
