(* ===== verification/StreamRing.thy ===== *)
theory StreamRing
  imports StreamBuffer
begin

text \<open>
  The ring of bytes of a stream buffer as the list of its contents: what writing bytes at the head and
  reading them at the tail do to that list, across the end of the storage.
\<close>

subsection \<open>The ring of bytes\<close>

definition stream_wf :: "stream_t \<Rightarrow> bool" where
  "stream_wf b \<longleftrightarrow> xHead b < xLength b \<and> xTail b < xLength b"

definition ring_pos :: "stream_t \<Rightarrow> nat \<Rightarrow> nat" where
  "ring_pos b i = pucBuffer b + (xTail b + i) mod xLength b"

definition contents :: "stream_t \<times> bytes \<Rightarrow> u8 list" where
  "contents = (\<lambda>(b, m). map (\<lambda>i. m (ring_pos b i)) [0..<prvBytesInBuffer b])"

lemma length_contents [simp]: "length (contents (b, m)) = prvBytesInBuffer b"
  by (simp add: contents_def)

lemma nth_contents: "i < prvBytesInBuffer b \<Longrightarrow> contents (b, m) ! i = m (ring_pos b i)"
  by (simp add: contents_def)

lemma wrap_mod: "x < 2 * n \<Longrightarrow> x mod n = (if x < n then x else x - n)" for n x :: nat
  by (simp add: mod_if)

lemma bytes_in_buffer:
  assumes "stream_wf b"
  shows "prvBytesInBuffer b = (if xTail b \<le> xHead b then xHead b - xTail b else xLength b + xHead b - xTail b)" "prvBytesInBuffer b < xLength b"
  using assms by (auto simp: stream_wf_def prvBytesInBuffer_def Let_def)

lemma head_pos:
  assumes "stream_wf b" shows "(xTail b + prvBytesInBuffer b) mod xLength b = xHead b"
  using assms bytes_in_buffer [OF assms] by (auto simp: stream_wf_def wrap_mod)

lemma spaces_available:
  assumes "stream_wf b" shows "xStreamBufferSpacesAvailable b = xLength b - 1 - prvBytesInBuffer b"
  using assms bytes_in_buffer [OF assms] by (auto simp: stream_wf_def xStreamBufferSpacesAvailable_def Let_def)

lemma bytes_advance:
  assumes w: "stream_wf b" and c: "c \<le> prvBytesInBuffer b"
  shows "prvBytesInBuffer (b\<lparr>xTail := (xTail b + c) mod xLength b\<rparr>) = prvBytesInBuffer b - c"
proof -
  note B = bytes_in_buffer [OF w]
  have "xTail b + c < 2 * xLength b" using w c B(2) by (simp add: stream_wf_def)
  note m = wrap_mod [OF this]
  have "stream_wf (b\<lparr>xTail := (xTail b + c) mod xLength b\<rparr>)" using w by (auto simp: stream_wf_def)
  from bytes_in_buffer(1) [OF this] show ?thesis using c B w by (auto simp: m stream_wf_def split: if_splits)
qed

text \<open>A write in two pieces, seen from the ring.\<close>

lemma write_bytes_ring:
  assumes w: "stream_wf b" and l: "length d \<le> xLength b" and e: "prvWriteBytesToBuffer d (b, m) = (n, b', m')"
  shows "n = length d" "b' = b\<lparr>xHead := (xHead b + length d) mod xLength b\<rparr>"
    "j < xLength b \<Longrightarrow> m' (pucBuffer b + (xHead b + j) mod xLength b) =
       (if j < length d then d ! j else m (pucBuffer b + (xHead b + j) mod xLength b))"
    "a < pucBuffer b \<or> pucBuffer b + xLength b \<le> a \<Longrightarrow> m' a = m a"
proof -
  let ?f = "min (xLength b - xHead b) (length d)"
  have m': "m' = (if length d > ?f then write_bytes (pucBuffer b) (drop ?f d) (write_bytes (pucBuffer b + xHead b) (take ?f d) m)
      else write_bytes (pucBuffer b + xHead b) (take ?f d) m)"
    using e by (auto simp: prvWriteBytesToBuffer_def Let_def)
  show "n = length d" using e by (auto simp: prvWriteBytesToBuffer_def Let_def)
  have "xHead b + length d < 2 * xLength b" using w l by (simp add: stream_wf_def)
  then have h: "(xHead b + length d) mod xLength b = (if xHead b + length d < xLength b then xHead b + length d else xHead b + length d - xLength b)"
    by (rule wrap_mod)
  show "b' = b\<lparr>xHead := (xHead b + length d) mod xLength b\<rparr>"
    unfolding h using e by (auto simp: prvWriteBytesToBuffer_def Let_def split: if_splits)
  show "m' (pucBuffer b + (xHead b + j) mod xLength b) = (if j < length d then d ! j else m (pucBuffer b + (xHead b + j) mod xLength b))"
    if "j < xLength b"
  proof -
    have "xHead b + j < 2 * xLength b" using w that by (simp add: stream_wf_def)
    note p = wrap_mod [OF this]
    have h: "xHead b < xLength b" using w by (simp add: stream_wf_def)
    show ?thesis
    proof (cases "length d \<le> xLength b - xHead b")
      case True
      then show ?thesis unfolding m' p using h that by (auto simp: write_bytes_def)
    next
      case False
      obtain g where g: "xLength b = xHead b + g" using le_Suc_ex [of "xHead b" "xLength b"] h by auto
      have f: "?f = g" "g < length d" using False by (simp_all add: g)
      show ?thesis
      proof (cases "j < g")
        case True
        then show ?thesis unfolding m' p f(1) using f(2) l by (auto simp: g write_bytes_def)
      next
        case False
        then obtain r where r: "j = g + r" using le_Suc_ex [of g j] by auto
        have "r < xHead b" using that by (simp add: g r)
        then show ?thesis unfolding m' p f(1) using f(2) l by (auto simp: g r write_bytes_def)
      qed
    qed
  qed
  show "m' a = m a" if "a < pucBuffer b \<or> pucBuffer b + xLength b \<le> a"
    unfolding m' using that w l by (auto simp: stream_wf_def write_bytes_def min_def)
qed

lemma write_contents:
  assumes w: "stream_wf b" and l: "length d \<le> xLength b - 1 - prvBytesInBuffer b" and e: "prvWriteBytesToBuffer d (b, m) = (n, b', m')"
  shows "stream_wf b'" "contents (b', m') = contents (b, m) @ d" "prvBytesInBuffer b' = prvBytesInBuffer b + length d"
proof -
  note B = bytes_in_buffer [OF w]
  have l': "length d \<le> xLength b" using l by simp
  note W = write_bytes_ring [OF w l' e]
  have n: "0 < xLength b" using w by (simp add: stream_wf_def)
  have F: "xTail b' = xTail b" "xLength b' = xLength b" "pucBuffer b' = pucBuffer b" "xHead b' = (xHead b + length d) mod xLength b"
    by (simp_all add: W(2))
  show wf: "stream_wf b'" using w n by (simp add: stream_wf_def F)
  have "xHead b + length d < 2 * xLength b" using w l' by (simp add: stream_wf_def)
  then show c: "prvBytesInBuffer b' = prvBytesInBuffer b + length d"
    unfolding bytes_in_buffer(1) [OF wf] B(1) F using w l B(1) by (auto simp: stream_wf_def wrap_mod split: if_splits)
  show "contents (b', m') = contents (b, m) @ d"
  proof (rule nth_equalityI)
    show "length (contents (b', m')) = length (contents (b, m) @ d)" by (simp add: c)
    fix i assume "i < length (contents (b', m'))"
    then have i: "i < prvBytesInBuffer b + length d" by (simp add: c)
    have rp: "ring_pos b' i = ring_pos b i" by (simp add: ring_pos_def F)
    have hp: "(xHead b + j) mod xLength b = (xTail b + (prvBytesInBuffer b + j)) mod xLength b" for j
      by (metis head_pos [OF w] mod_add_left_eq add.assoc)
    show "contents (b', m') ! i = (contents (b, m) @ d) ! i"
    proof (cases "i < prvBytesInBuffer b")
      case True
      let ?j = "xLength b + i - prvBytesInBuffer b"
      have j: "?j < xLength b" "\<not> ?j < length d" using True l B(2) by simp_all
      have "prvBytesInBuffer b + ?j = xLength b + i" using B(2) by simp
      then have "(xHead b + ?j) mod xLength b = (xTail b + i + xLength b) mod xLength b" unfolding hp by (simp add: ac_simps)
      then have "(xHead b + ?j) mod xLength b = (xTail b + i) mod xLength b" by simp
      then have "m' (ring_pos b i) = m (ring_pos b i)" using W(3) [OF j(1)] j(2) by (simp add: ring_pos_def)
      then show ?thesis using True i c by (simp add: nth_contents nth_append rp)
    next
      case False
      let ?j = "i - prvBytesInBuffer b"
      have j: "?j < length d" "?j < xLength b" using False i l by simp_all
      have "prvBytesInBuffer b + ?j = i" using False by simp
      then have "m' (ring_pos b i) = d ! ?j" using W(3) [OF j(2)] j(1) hp [of ?j] by (simp add: ring_pos_def)
      then show ?thesis using False i c by (simp add: nth_contents nth_append rp)
    qed
  qed
qed

lemma nth_two_reads:
  "i < c \<Longrightarrow> f \<le> c \<Longrightarrow> (read_bytes x f m @ read_bytes y (c - f) m) ! i = (if i < f then m (x + i) else m (y + (i - f)))"
  by (simp add: nth_append)

lemma two_pieces:
  fixes T L i c p :: nat
  assumes "T < L" "i < c"
  shows "(if i < min (L - T) c then p + T + i else p + (i - min (L - T) c)) = p + (if T + i < L then T + i else T + i - L)"
  using assms by (auto simp: min_def)

lemma read_contents:
  assumes w: "stream_wf b" and a: "a \<le> prvBytesInBuffer b" and e: "prvReadBytesFromBuffer k a m b = (d, b')"
  shows "stream_wf b'" "d = take (min a k) (contents (b, m))" "contents (b', m) = drop (min a k) (contents (b, m))"
    "prvBytesInBuffer b' = prvBytesInBuffer b - min a k" "b' = b\<lparr>xTail := xTail b'\<rparr>"
proof -
  let ?c = "min a k" and ?f = "min (xLength b - xTail b) (min a k)"
  note B = bytes_in_buffer [OF w]
  have n: "0 < xLength b" using w by (simp add: stream_wf_def)
  have x2: "xTail b + ?c < 2 * xLength b" using w a B(2) by (simp add: stream_wf_def min_def)
  have b': "b' = b\<lparr>xTail := (xTail b + ?c) mod xLength b\<rparr>"
    using e w unfolding wrap_mod [OF x2] by (auto simp: prvReadBytesFromBuffer_def Let_def stream_wf_def split: if_splits)
  then show "b' = b\<lparr>xTail := xTail b'\<rparr>" by simp
  show wf: "stream_wf b'" using w n by (simp add: b' stream_wf_def)
  show c: "prvBytesInBuffer b' = prvBytesInBuffer b - ?c"
    unfolding b' by (rule bytes_advance [OF w]) (use a in simp)
  have d: "d = read_bytes (pucBuffer b + xTail b) ?f m @ read_bytes (pucBuffer b) (?c - ?f) m"
    using e by (auto simp: prvReadBytesFromBuffer_def Let_def read_bytes_def split: if_splits)
  show "d = take ?c (contents (b, m))"
  proof (rule nth_equalityI)
    show "length d = length (take ?c (contents (b, m)))" using a by (simp add: d)
    fix i assume "i < length d"
    moreover have "?f + (?c - ?f) = ?c" by simp
    ultimately have i: "i < ?c" unfolding d length_append length_read_bytes by simp
    have "xTail b + i < 2 * xLength b" using i x2 by linarith
    then have "ring_pos b i = pucBuffer b + (if xTail b + i < xLength b then xTail b + i else xTail b + i - xLength b)"
      by (simp add: ring_pos_def wrap_mod)
    moreover have "d ! i = (if i < ?f then m (pucBuffer b + xTail b + i) else m (pucBuffer b + (i - ?f)))"
      unfolding d by (rule nth_two_reads [OF i min.cobounded2])
    moreover have "(if i < ?f then pucBuffer b + xTail b + i else pucBuffer b + (i - ?f)) =
        pucBuffer b + (if xTail b + i < xLength b then xTail b + i else xTail b + i - xLength b)"
      by (rule two_pieces) (use i w in \<open>simp_all add: stream_wf_def\<close>)
    ultimately have "d ! i = m (ring_pos b i)" by (metis (full_types))
    moreover have "i < prvBytesInBuffer b" using i a by linarith
    ultimately show "d ! i = take ?c (contents (b, m)) ! i" using i by (simp add: nth_contents)
  qed
  show "contents (b', m) = drop ?c (contents (b, m))"
  proof (rule nth_equalityI)
    show "length (contents (b', m)) = length (drop ?c (contents (b, m)))" by (simp add: c)
    fix i assume "i < length (contents (b', m))"
    then have i: "i < prvBytesInBuffer b - ?c" by (simp add: c)
    have "((xTail b + ?c) mod xLength b + i) mod xLength b = (xTail b + (?c + i)) mod xLength b" by (metis mod_add_left_eq add.assoc)
    then have "ring_pos b' i = ring_pos b (?c + i)" by (simp add: ring_pos_def b')
    then show "contents (b', m) ! i = drop ?c (contents (b, m)) ! i" using i by (simp add: nth_contents c)
  qed
qed

end
