(* ===== verification/ByteStream.thy ===== *)
theory ByteStream
  imports Firmware_Prelude
begin

text \<open>
  The contract of a bounded byte stream between one writer and one reader: a write takes as much of
  its data as there is space for, a read hands out as much as it is asked for and as there is. \<open>'c\<close>
  tells a task's call from an interrupt's.
\<close>

datatype ('c, 'a) stream_op = Write 'c "'a list" | Read 'c nat

text \<open>A history of calls: all that was accepted, all that was handed out, and the final state.\<close>

fun stream_run :: "('c \<Rightarrow> 'a list \<Rightarrow> 's \<Rightarrow> nat \<times> 's) \<Rightarrow> ('c \<Rightarrow> nat \<Rightarrow> 's \<Rightarrow> 'a list \<times> 's) \<Rightarrow> ('c, 'a) stream_op list \<Rightarrow> 's \<Rightarrow> 'a list \<times> 'a list \<times> 's" where
  "stream_run wr rd [] s = ([], [], s)"
| "stream_run wr rd (Write c d # ops) s =
     (let (n, s) = wr c d s; (accepted, received, s) = stream_run wr rd ops s in (take n d @ accepted, received, s))"
| "stream_run wr rd (Read c k # ops) s =
     (let (d, s) = rd c k s; (accepted, received, s) = stream_run wr rd ops s in (accepted, d @ received, s))"

locale byte_stream =
  fixes ok :: "'s \<Rightarrow> bool" and stored :: "'s \<Rightarrow> 'a list" and cap :: "'s \<Rightarrow> nat"
    and wr :: "'c \<Rightarrow> 'a list \<Rightarrow> 's \<Rightarrow> nat \<times> 's" and rd :: "'c \<Rightarrow> nat \<Rightarrow> 's \<Rightarrow> 'a list \<times> 's"
  assumes bounded: "ok s \<Longrightarrow> length (stored s) \<le> cap s"
    and write_count: "ok s \<Longrightarrow> fst (wr c d s) = min (length d) (cap s - length (stored s))"
    and write_stored: "ok s \<Longrightarrow> stored (snd (wr c d s)) = stored s @ take (fst (wr c d s)) d"
    and write_ok: "ok s \<Longrightarrow> ok (snd (wr c d s)) \<and> cap (snd (wr c d s)) = cap s"
    and read_data: "ok s \<Longrightarrow> fst (rd c k s) = take k (stored s)"
    and read_stored: "ok s \<Longrightarrow> stored (snd (rd c k s)) = drop k (stored s)"
    and read_ok: "ok s \<Longrightarrow> ok (snd (rd c k s)) \<and> cap (snd (rd c k s)) = cap s"
begin

lemma run_stream:
  assumes "ok s" "stream_run wr rd ops s = (accepted, received, s')"
  shows "ok s' \<and> received @ stored s' = stored s @ accepted \<and> cap s' = cap s"
  using assms
proof (induction ops arbitrary: s accepted received)
  case Nil
  then show ?case by simp
next
  case (Cons o0 ops)
  show ?case
  proof (cases o0)
    case (Write c d)
    obtain acc where r: "stream_run wr rd ops (snd (wr c d s)) = (acc, received, s')" "accepted = take (fst (wr c d s)) d @ acc"
      using Cons.prems(2) Write by (cases "stream_run wr rd ops (snd (wr c d s))") (auto simp: case_prod_beta Let_def)
    from Cons.IH [OF _ r(1)] write_ok [OF Cons.prems(1), of c d] write_stored [OF Cons.prems(1), of c d] r(2) show ?thesis by auto
  next
    case (Read c k)
    obtain rec where r: "stream_run wr rd ops (snd (rd c k s)) = (accepted, rec, s')" "received = fst (rd c k s) @ rec"
      using Cons.prems(2) Read by (cases "stream_run wr rd ops (snd (rd c k s))") (auto simp: case_prod_beta Let_def)
    have "take k (stored s) @ drop k (stored s) = stored s" by simp
    with Cons.IH [OF _ r(1)] read_ok [OF Cons.prems(1), of c k] read_stored [OF Cons.prems(1), of c k] read_data [OF Cons.prems(1), of c k] r(2)
    show ?thesis by (metis append.assoc)
  qed
qed

end

end
