(* ===== verification/StreamCalls.thy ===== *)
theory StreamCalls
  imports StreamRing ByteStream BoundedFifo
begin

text \<open>
  The calls of a stream buffer on the list of its contents, and the stream buffer as an instance of
  the contract of a bounded byte stream.
\<close>

subsection \<open>The calls\<close>

definition stored :: "nat \<Rightarrow> ssys \<Rightarrow> u8 list" where
  "stored x s = contents (streams s x, smem s)"

definition stream_cap :: "nat \<Rightarrow> ssys \<Rightarrow> nat" where
  "stream_cap x s = xLength (streams s x) - 1"

definition stream_ok :: "nat \<Rightarrow> ssys \<Rightarrow> bool" where
  "stream_ok x s \<longleftrightarrow> stream_wf (streams s x)"

definition byte_ok :: "nat \<Rightarrow> ssys \<Rightarrow> bool" where
  "byte_ok x s \<longleftrightarrow> stream_wf (streams s x) \<and> \<not> is_message (streams s x)"

text \<open>A write or read that does not wait, from a task or from an interrupt.\<close>

definition stream_write :: "nat \<Rightarrow> caller \<Rightarrow> u8 list \<Rightarrow> ssys \<Rightarrow> nat \<times> ssys" where
  "stream_write x c d s =
     (case c of
        from_task \<Rightarrow> (case xStreamBufferSend [] x d 0 s of Some r \<Rightarrow> r | None \<Rightarrow> (0, s))
      | from_isr \<Rightarrow> let ((n, woken), s) = xStreamBufferSendFromISR x d s in (n, s))"

definition stream_read :: "sgaps \<Rightarrow> nat \<Rightarrow> caller \<Rightarrow> nat \<Rightarrow> ssys \<Rightarrow> u8 list \<times> ssys" where
  "stream_read g x c k s =
     (case c of
        from_task \<Rightarrow> xStreamBufferReceive g x k 0 s
      | from_isr \<Rightarrow> let ((d, woken), s) = xStreamBufferReceiveFromISR x k s in (d, s))"

text \<open>What the ring is made of; telling the other side changes none of it.\<close>

definition same_ring :: "nat \<Rightarrow> ssys \<Rightarrow> ssys \<Rightarrow> bool" where
  "same_ring x s s' \<longleftrightarrow> smem s' = smem s \<and> xHead (streams s' x) = xHead (streams s x) \<and> xTail (streams s' x) = xTail (streams s x) \<and>
     xLength (streams s' x) = xLength (streams s x) \<and> pucBuffer (streams s' x) = pucBuffer (streams s x) \<and> is_message (streams s' x) = is_message (streams s x)"

lemma same_ring_refl [simp]: "same_ring x s s"
  by (simp add: same_ring_def)

lemma same_ring_tell [simp]:
  "same_ring x s (sbSEND_COMPLETED x s)" "same_ring x s (sbRECEIVE_COMPLETED x s)"
  "same_ring x s (snd (xStreamBufferSendCompletedFromISR x s))" "same_ring x s (snd (xStreamBufferReceiveCompletedFromISR x s))"
  by (simp_all add: same_ring_def sbSEND_COMPLETED_def sbRECEIVE_COMPLETED_def xStreamBufferSendCompletedFromISR_def
    xStreamBufferReceiveCompletedFromISR_def on_skern_def upd_stream_def case_prod_beta Let_def)

lemma same_ringD:
  assumes "same_ring x s s'"
  shows "stream_wf (streams s' x) = stream_wf (streams s x)" "stored x s' = stored x s" "prvBytesInBuffer (streams s' x) = prvBytesInBuffer (streams s x)"
    "is_message (streams s' x) = is_message (streams s x)" "stream_cap x s' = stream_cap x s"
proof -
  show b: "prvBytesInBuffer (streams s' x) = prvBytesInBuffer (streams s x)" using assms by (simp add: same_ring_def prvBytesInBuffer_def Let_def)
  show "stored x s' = stored x s" unfolding stored_def contents_def using assms b by (simp add: same_ring_def ring_pos_def)
qed (use assms in \<open>simp_all add: same_ring_def stream_wf_def stream_cap_def\<close>)

text \<open>Both writes write to the ring and then perhaps tell the reader; both reads read and tell the writer.\<close>

lemma stream_write_eq:
  "\<exists>s'. stream_write x c d s = (fst (write_stream x d (xStreamBufferSpacesAvailable (streams s x)) s), s') \<and>
     same_ring x (snd (write_stream x d (xStreamBufferSpacesAvailable (streams s x)) s)) s'"
  by (cases c) (simp_all add: stream_write_def xStreamBufferSend_def xStreamBufferSendFromISR_def case_prod_beta Let_def)

lemma stream_read_eq:
  "\<exists>s'. stream_read g x c k s = (if prvBytesInBuffer (streams s x) > header_length (streams s x)
      then fst (read_stream x k (prvBytesInBuffer (streams s x)) s) else [], s') \<and>
     same_ring x (if prvBytesInBuffer (streams s x) > header_length (streams s x)
      then snd (read_stream x k (prvBytesInBuffer (streams s x)) s) else s) s'"
  by (cases c) (simp_all add: stream_read_def xStreamBufferReceive_def xStreamBufferReceiveFromISR_def case_prod_beta Let_def)

subsection \<open>Byte streams\<close>

lemma take_min_length: "take (min (length xs) n) xs = take n xs" "drop (min (length xs) n) xs = drop n xs"
  by (simp_all add: min_def)

lemma write_stream_bytes:
  fixes d :: "u8 list"
  assumes ok: "byte_ok x s"
  defines "r \<equiv> write_stream x d (xStreamBufferSpacesAvailable (streams s x)) s"
  shows "fst r = min (length d) (stream_cap x s - length (stored x s))" "stored x (snd r) = stored x s @ take (fst r) d" "byte_ok x (snd r)"
    "stream_cap x (snd r) = stream_cap x s"
proof -
  let ?b = "streams s x" and ?n = "xStreamBufferSpacesAvailable (streams s x)"
  have w: "stream_wf ?b" and m: "\<not> is_message ?b" using ok by (simp_all add: byte_ok_def)
  note sp = spaces_available [OF w]
  have c: "stream_cap x s - length (stored x s) = ?n" by (simp add: stream_cap_def stored_def sp)
  obtain n b' m' where e: "prvWriteBytesToBuffer (take ?n d) (?b, smem s) = (n, b', m')"
    by (cases "prvWriteBytesToBuffer (take ?n d) (?b, smem s)")
  have l: "length (take ?n d) \<le> xLength ?b - 1 - prvBytesInBuffer ?b" by (simp add: sp)
  note W = write_contents [OF w l e]
  have l': "length (take ?n d) \<le> xLength ?b" using l by linarith
  note R = write_bytes_ring(1,2) [OF w l' e]
  have r: "r = (if ?n = 0 then (0, s) else (n, s\<lparr>streams := (streams s)(x := b'), smem := m'\<rparr>))"
    using e m by (simp add: r_def write_stream_def prvWriteMessageToBuffer_def)
  show "fst r = min (length d) (stream_cap x s - length (stored x s))" unfolding c r using R(1) by (simp add: min.commute)
  show "stored x (snd r) = stored x s @ take (fst r) d" 
    using W(2) R(1) take_min_length(1) [of d ?n] by (simp add: r stored_def)
  show "byte_ok x (snd r)" "stream_cap x (snd r) = stream_cap x s" using W(1) ok m by (simp_all add: r byte_ok_def stream_cap_def R(2))
qed

lemma read_stream_bytes:
  fixes k :: nat
  assumes ok: "byte_ok x s"
  defines "r \<equiv> read_stream x k (prvBytesInBuffer (streams s x)) s"
  shows "fst r = take k (stored x s)" "stored x (snd r) = drop k (stored x s)" "byte_ok x (snd r)" "stream_cap x (snd r) = stream_cap x s"
proof -
  let ?b = "streams s x"
  have w: "stream_wf ?b" and m: "\<not> is_message ?b" using ok by (simp_all add: byte_ok_def)
  obtain d b' where e: "prvReadBytesFromBuffer k (prvBytesInBuffer ?b) (smem s) ?b = (d, b')"
    by (cases "prvReadBytesFromBuffer k (prvBytesInBuffer ?b) (smem s) ?b")
  note R = read_contents [OF w order_refl e]
  have r: "r = (d, s\<lparr>streams := (streams s)(x := b')\<rparr>)"
    using e m by (simp add: r_def read_stream_def prvReadMessageFromBuffer_def header_length_def)
  have b': "xLength b' = xLength ?b" "is_message b' = is_message ?b" using R(5) by (metis stream_t.select_convs stream_t.update_convs(1) stream_t.surjective)+
  show "fst r = take k (stored x s)" "stored x (snd r) = drop k (stored x s)" 
    using R(2,3) take_min_length [of "contents (?b, smem s)" k] by (simp_all add: r stored_def)
  show "byte_ok x (snd r)" "stream_cap x (snd r) = stream_cap x s" using R(1) m b' by (simp_all add: r byte_ok_def stream_cap_def)
qed

interpretation stream: byte_stream "byte_ok x" "stored x" "stream_cap x" "stream_write x" "stream_read g x" for x g
proof
  fix s c d k
  assume ok: "byte_ok x s"
  show "length (stored x s) \<le> stream_cap x s" using bytes_in_buffer(2) [of "streams s x"] ok by (simp add: byte_ok_def stored_def stream_cap_def)
  obtain s' where s': "stream_write x c d s = (fst (write_stream x d (xStreamBufferSpacesAvailable (streams s x)) s), s')"
    "same_ring x (snd (write_stream x d (xStreamBufferSpacesAvailable (streams s x)) s)) s'" using stream_write_eq by blast
  note W = write_stream_bytes [OF ok, of d] same_ringD [OF s'(2)]
  show "fst (stream_write x c d s) = min (length d) (stream_cap x s - length (stored x s))"
    "stored x (snd (stream_write x c d s)) = stored x s @ take (fst (stream_write x c d s)) d"
    "byte_ok x (snd (stream_write x c d s)) \<and> stream_cap x (snd (stream_write x c d s)) = stream_cap x s"
    using W by (simp_all add: s'(1) byte_ok_def)
  have h: "header_length (streams s x) = 0" using ok by (simp add: byte_ok_def header_length_def)
  obtain s2 where s2: "stream_read g x c k s = (if prvBytesInBuffer (streams s x) > 0 then fst (read_stream x k (prvBytesInBuffer (streams s x)) s) else [], s2)"
    "same_ring x (if prvBytesInBuffer (streams s x) > 0 then snd (read_stream x k (prvBytesInBuffer (streams s x)) s) else s) s2"
    using stream_read_eq [of g x c k s] unfolding h by blast
  note R = read_stream_bytes [OF ok, of k] same_ringD [OF s2(2)]
  have z: "stored x s = []" if "prvBytesInBuffer (streams s x) = 0" using that by (simp add: stored_def contents_def)
  show "fst (stream_read g x c k s) = take k (stored x s)" "stored x (snd (stream_read g x c k s)) = drop k (stored x s)"
    "byte_ok x (snd (stream_read g x c k s)) \<and> stream_cap x (snd (stream_read g x c k s)) = stream_cap x s"
    using R z ok by (cases "prvBytesInBuffer (streams s x) = 0"; simp add: s2(1) byte_ok_def)+
qed

end
