(* ===== verification/StreamProperties.thy ===== *)
theory StreamProperties
  imports StreamCalls KernelProperties
begin

text \<open>
  What stream and message buffers give their callers: bytes arrive once and in order, messages
  arrive whole or not at all, and what the trigger level of a reader can be set to.
\<close>

subsection \<open>Messages\<close>

definition frame :: "u8 list \<Rightarrow> u8 list" where
  "frame d = le_bytes (length d) @ d"

definition holds :: "nat \<Rightarrow> u8 list list \<Rightarrow> ssys \<Rightarrow> bool" where
  "holds x ms s \<longleftrightarrow> stream_wf (streams s x) \<and> is_message (streams s x) \<and> stored x s = concat (map frame ms)"

lemma write_two:
  assumes w: "stream_wf b" and l: "length h + length d \<le> xStreamBufferSpacesAvailable b"
    and e1: "prvWriteBytesToBuffer h (b, m) = (n1, b1, m1)" and e2: "prvWriteBytesToBuffer d (b1, m1) = (n2, b2, m2)"
  shows "n2 = length d" "stream_wf b2" "contents (b2, m2) = contents (b, m) @ h @ d" "xLength b2 = xLength b" "is_message b2 = is_message b"
proof -
  note sp = spaces_available [OF w]
  have l1: "length h \<le> xLength b - 1 - prvBytesInBuffer b" using l sp by simp
  note W1 = write_contents [OF w l1 e1]
  have l1': "length h \<le> xLength b" using l1 by linarith
  note B1 = write_bytes_ring(2) [OF w l1' e1]
  have l2: "length d \<le> xLength b1 - 1 - prvBytesInBuffer b1" using l sp W1(3) by (simp add: B1)
  note W2 = write_contents [OF W1(1) l2 e2]
  have l2': "length d \<le> xLength b1" using l2 by linarith
  note B2 = write_bytes_ring(1,2) [OF W1(1) l2' e2]
  show "n2 = length d" "stream_wf b2" "contents (b2, m2) = contents (b, m) @ h @ d" "xLength b2 = xLength b" "is_message b2 = is_message b"
    using W2 W1(2) B2 B1 by simp_all
qed

lemma write_stream_message:
  fixes d :: "u8 list"
  assumes h: "holds x ms s"
  defines "r \<equiv> write_stream x d (xStreamBufferSpacesAvailable (streams s x)) s"
  shows "length d + 4 \<le> xStreamBufferSpacesAvailable (streams s x) \<Longrightarrow> fst r = length d \<and> holds x (ms @ [d]) (snd r)"
    "\<not> length d + 4 \<le> xStreamBufferSpacesAvailable (streams s x) \<Longrightarrow> r = (0, s)"
    "stream_cap x (snd r) = stream_cap x s"
proof -
  let ?b = "streams s x" and ?n = "xStreamBufferSpacesAvailable (streams s x)"
  have w: "stream_wf ?b" and m: "is_message ?b" and st: "stored x s = concat (map frame ms)" using h by (simp_all add: holds_def)
  note sp = spaces_available [OF w]
  have req: "length d + header_length ?b = length d + 4" using m by (simp add: header_length_def sbBYTES_TO_STORE_MESSAGE_LENGTH_def)
  show no: "r = (0, s)" if "\<not> length d + 4 \<le> ?n"
    using that m by (simp add: r_def write_stream_def prvWriteMessageToBuffer_def req)
  obtain n1 b1 m1 where e1: "prvWriteBytesToBuffer (le_bytes (length d)) (?b, smem s) = (n1, b1, m1)"
    by (cases "prvWriteBytesToBuffer (le_bytes (length d)) (?b, smem s)")
  obtain n2 b2 m2 where e2: "prvWriteBytesToBuffer d (b1, m1) = (n2, b2, m2)" by (cases "prvWriteBytesToBuffer d (b1, m1)")
  have all: "fst r = length d \<and> holds x (ms @ [d]) (snd r) \<and> stream_cap x (snd r) = stream_cap x s" if sp4: "length d + 4 \<le> ?n"
  proof -
    have "length (le_bytes (length d)) + length d \<le> ?n" using sp4 by simp
    note W = write_two [OF w this e1 e2]
    have r: "r = (n2, s\<lparr>streams := (streams s)(x := b2), smem := m2\<rparr>)"
      using sp4 m e1 e2 by (simp add: r_def write_stream_def prvWriteMessageToBuffer_def req)
    show ?thesis using W m st unfolding r by (simp add: holds_def stored_def frame_def stream_cap_def)
  qed
  then show "fst r = length d \<and> holds x (ms @ [d]) (snd r)" if "length d + 4 \<le> ?n" using that by blast
  show "stream_cap x (snd r) = stream_cap x s" using all no by (cases "length d + 4 \<le> ?n") auto
qed

lemma read_stream_message:
  fixes k :: nat
  assumes h: "holds x (d # ms) s" and d: "length d < 2 ^ 32"
  defines "r \<equiv> read_stream x k (prvBytesInBuffer (streams s x)) s"
  shows "length d \<le> k \<Longrightarrow> fst r = d \<and> holds x ms (snd r)" "k < length d \<Longrightarrow> r = ([], s)"
proof -
  let ?b = "streams s x"
  have w: "stream_wf ?b" and m: "is_message ?b" and st: "stored x s = le_bytes (length d) @ d @ concat (map frame ms)"
    using h by (simp_all add: holds_def frame_def)
  have c: "prvBytesInBuffer ?b = 4 + length d + length (concat (map frame ms))"
    using arg_cong [OF st, of length] by (simp add: stored_def)
  obtain h1 b1 where e1: "prvReadBytesFromBuffer 4 (prvBytesInBuffer ?b) (smem s) ?b = (h1, b1)"
    by (cases "prvReadBytesFromBuffer 4 (prvBytesInBuffer ?b) (smem s) ?b")
  note R1 = read_contents [OF w order_refl e1]
  have mn: "min (prvBytesInBuffer ?b) 4 = 4" using c by simp
  have h1: "h1 = le_bytes (length d)" "contents (b1, smem s) = d @ concat (map frame ms)" "prvBytesInBuffer b1 = prvBytesInBuffer ?b - 4"
    using R1(2,3,4) st unfolding mn by (simp_all add: stored_def)
  have hl: "header_length ?b = 4" using m by (simp add: header_length_def sbBYTES_TO_STORE_MESSAGE_LENGTH_def)
  have len: "of_le_bytes h1 = length d" unfolding h1 by (rule le_bytes_roundtrip [OF d])
  have bk: "b1\<lparr>xTail := xTail ?b\<rparr> = ?b" using R1(5) by (metis stream_t.surjective stream_t.update_convs(1))
  have msg: "is_message b1" using R1(5) m by (metis stream_t.select_convs(8) stream_t.surjective stream_t.update_convs(1))
  show "r = ([], s)" if "k < length d"
    using that e1 len bk by (simp add: r_def read_stream_def prvReadMessageFromBuffer_def hl prvReadBytesFromBuffer_def [of 0])
  show "fst r = d \<and> holds x ms (snd r)" if k: "length d \<le> k"
  proof -
    obtain d2 b2 where e2: "prvReadBytesFromBuffer (length d) (prvBytesInBuffer ?b - 4) (smem s) b1 = (d2, b2)"
      by (cases "prvReadBytesFromBuffer (length d) (prvBytesInBuffer ?b - 4) (smem s) b1")
    have a: "prvBytesInBuffer ?b - 4 \<le> prvBytesInBuffer b1" by (simp add: h1)
    note R2 = read_contents [OF R1(1) a e2]
    have mn2: "min (prvBytesInBuffer ?b - 4) (length d) = length d" using c by simp
    have "is_message b2" using R2(5) msg by (metis stream_t.select_convs(8) stream_t.surjective stream_t.update_convs(1))
    moreover have "r = (d2, s\<lparr>streams := (streams s)(x := b2)\<rparr>)"
      using k e1 e2 len by (simp add: r_def read_stream_def prvReadMessageFromBuffer_def hl)
    ultimately show ?thesis using R2 h1(2) unfolding mn2 by (simp add: holds_def stored_def)
  qed
qed


lemma write_stream_keeps:
  fixes d :: "u8 list"
  assumes w: "stream_wf (streams s x)"
  defines "b' \<equiv> streams (snd (write_stream x d (xStreamBufferSpacesAvailable (streams s x)) s)) x"
  shows "stream_wf b'" "xTriggerLevelBytes b' = xTriggerLevelBytes (streams s x)" "xLength b' = xLength (streams s x)"
proof -
  have f: "xTriggerLevelBytes (fst (snd (prvWriteBytesToBuffer e bm))) = xTriggerLevelBytes (fst bm)"
    "xLength (fst (snd (prvWriteBytesToBuffer e bm))) = xLength (fst bm)" for e bm
    by (cases bm; simp add: prvWriteBytesToBuffer_def Let_def)+
  show "xTriggerLevelBytes b' = xTriggerLevelBytes (streams s x)" "xLength b' = xLength (streams s x)"
    by (simp_all add: b'_def write_stream_def prvWriteMessageToBuffer_def case_prod_beta Let_def f)
  show "stream_wf b'"
  proof (cases "is_message (streams s x)")
    case True
    let ?b = "streams s x" and ?n = "xStreamBufferSpacesAvailable (streams s x)"
    have req: "length d + header_length ?b = length d + 4" using True by (simp add: header_length_def sbBYTES_TO_STORE_MESSAGE_LENGTH_def)
    obtain n1 b1 m1 where e1: "prvWriteBytesToBuffer (le_bytes (length d)) (?b, smem s) = (n1, b1, m1)"
      by (cases "prvWriteBytesToBuffer (le_bytes (length d)) (?b, smem s)")
    obtain n2 b2 m2 where e2: "prvWriteBytesToBuffer d (b1, m1) = (n2, b2, m2)" by (cases "prvWriteBytesToBuffer d (b1, m1)")
    have "stream_wf b2" if "length d + 4 \<le> ?n" by (rule write_two(2) [OF w _ e1 e2]) (use that in simp)
    then show ?thesis using True w e1 e2 by (simp add: b'_def write_stream_def prvWriteMessageToBuffer_def req)
  next
    case False
    then show ?thesis using write_stream_bytes(3) [of x s d] w by (simp add: b'_def byte_ok_def)
  qed
qed

subsection \<open>Properties of stream and message buffers\<close>

definition demo_stream :: "nat \<Rightarrow> bool \<Rightarrow> ssys" where
  "demo_stream n msg = \<lparr>skern = demo_kernel, streams = (\<lambda>_. prvInitialiseNewStreamBuffer 6000 (n + 1) 1 msg), smem = (\<lambda>_. 0)\<rparr>"

lemma demo_stream_wf: "stream_wf (streams (demo_stream n msg) x)" "stored x (demo_stream n msg) = []" "stream_cap x (demo_stream n msg) = n"
  "is_message (streams (demo_stream n msg) x) = msg"
  by (simp_all add: demo_stream_def prvInitialiseNewStreamBuffer_def stream_wf_def stored_def contents_def prvBytesInBuffer_def stream_cap_def)



text \<open>C15: A message buffer keeps messages whole and in order: a message goes in complete, with its length, or
  not at all when it does not fit; a receive takes out exactly the oldest message when the caller's
  buffer holds it, and otherwise leaves every message in place and returns nothing.\<close>

theorem message_buffer_whole:
  assumes h: "holds x ms s" and ms: "\<forall>d \<in> set ms. 0 < length d \<and> length d < 2 ^ 32"
  shows "(case stream_write x c d s of (n, s') \<Rightarrow>
      if length d + 4 \<le> stream_cap x s - length (stored x s) then n = length d \<and> holds x (ms @ [d]) s' else n = 0 \<and> holds x ms s') \<and>
    (case stream_read g x c k s of (r, s') \<Rightarrow>
      if ms \<noteq> [] \<and> length (hd ms) \<le> k then r = hd ms \<and> holds x (tl ms) s' else r = [] \<and> holds x ms s')"
proof
  let ?n = "xStreamBufferSpacesAvailable (streams s x)"
  have w: "stream_wf (streams s x)" using h by (simp add: holds_def)
  have sp: "?n = stream_cap x s - length (stored x s)" using spaces_available [OF w] by (simp add: stream_cap_def stored_def)
  have hs: "holds x l s2 = holds x l s1" if "same_ring x s1 s2" for l s1 s2 using same_ringD [OF that] by (simp add: holds_def)
  obtain s' where s': "stream_write x c d s = (fst (write_stream x d ?n s), s')" "same_ring x (snd (write_stream x d ?n s)) s'"
    using stream_write_eq by blast
  show "case stream_write x c d s of (n, s') \<Rightarrow>
      if length d + 4 \<le> stream_cap x s - length (stored x s) then n = length d \<and> holds x (ms @ [d]) s' else n = 0 \<and> holds x ms s'"
    unfolding sp [symmetric] s'(1) prod.case hs [OF s'(2)] using write_stream_message(1,2) [OF h, of d] h by auto
  let ?b = "prvBytesInBuffer (streams s x)" and ?h = "header_length (streams s x)"
  have hl: "?h = 4" using h by (simp add: holds_def header_length_def sbBYTES_TO_STORE_MESSAGE_LENGTH_def)
  obtain s2 where s2: "stream_read g x c k s = (if ?b > ?h then fst (read_stream x k ?b s) else [], s2)"
    "same_ring x (if ?b > ?h then snd (read_stream x k ?b s) else s) s2" using stream_read_eq by blast
  show "case stream_read g x c k s of (r, s') \<Rightarrow>
      if ms \<noteq> [] \<and> length (hd ms) \<le> k then r = hd ms \<and> holds x (tl ms) s' else r = [] \<and> holds x ms s'"
  proof (cases ms)
    case Nil
    then have "stored x s = []" using h by (simp add: holds_def)
    then have "?b = 0" using length_contents [of "streams s x" "smem s"] by (simp add: stored_def)
    then show ?thesis using s2 hs [OF s2(2)] h Nil by simp
  next
    case (Cons d0 ms')
    have d0: "0 < length d0" "length d0 < 2 ^ 32" using ms Cons by simp_all
    have "length (stored x s) > 4" using h Cons d0 by (simp add: holds_def frame_def)
    then have b: "?b > ?h" by (simp add: stored_def hl)
    note R = read_stream_message [OF h [unfolded Cons] d0(2), of k]
    show ?thesis unfolding s2(1) prod.case hs [OF s2(2)] using b R h Cons by (cases "length d0 \<le> k") auto
  qed
qed

theorem message_buffer_whole_witness:
  "case stream_write 7 from_task [1, 2, 3] (demo_stream 10 True) of (n, s') \<Rightarrow> n = length [1, 2, 3 :: u8] \<and> holds 7 [[1, 2, 3]] s'"
proof -
  have "holds 7 [] (demo_stream 10 True)" by (simp add: holds_def demo_stream_wf)
  from message_buffer_whole [OF this, where c = from_task and d = "[1, 2, 3]", THEN conjunct1] show ?thesis by (simp add: demo_stream_wf)
qed

text \<open>The trigger level is checked against the length of the ring, which is one more than the buffer can
  hold. The level one above the capacity is accepted, and from then on no write, whatever it stores,
  wakes a task that waits to receive.\<close>

theorem trigger_level_beyond_capacity:
  assumes "stream_wf (streams s x)"
  shows "case xStreamBufferSetTriggerLevel x (stream_cap x s + 1) s of (r, s1) \<Rightarrow>
    r \<and> skern (snd (xStreamBufferSendFromISR x d s1)) = skern s \<and> \<not> snd (fst (xStreamBufferSendFromISR x d s1)) \<and>
    (case xStreamBufferSend [] x d 0 s1 of None \<Rightarrow> False | Some (n, s2) \<Rightarrow> skern s2 = skern s)"
proof -
  let ?t = "xLength (streams s x)"
  have n: "stream_cap x s + 1 = ?t" "?t \<noteq> 0" using assms by (auto simp: stream_cap_def stream_wf_def)
  define s1 where "s1 = upd_stream x (\<lambda>b. b\<lparr>xTriggerLevelBytes := ?t\<rparr>) s"
  have e: "xStreamBufferSetTriggerLevel x (stream_cap x s + 1) s = (True, s1)"
    using n by (simp add: xStreamBufferSetTriggerLevel_def s1_def Let_def)
  define s2 where "s2 = snd (write_stream x d (xStreamBufferSpacesAvailable (streams s1 x)) s1)"
  have w1: "stream_wf (streams s1 x)" using assms by (simp add: s1_def upd_stream_def stream_wf_def)
  have k2: "skern s2 = skern s" by (simp add: s2_def write_stream_def s1_def upd_stream_def case_prod_beta Let_def)
  have "stream_wf (streams s2 x)" "xTriggerLevelBytes (streams s2 x) = ?t" "xLength (streams s2 x) = ?t"
    using write_stream_keeps [OF w1, of d] by (simp_all add: s2_def s1_def upd_stream_def)
  with bytes_in_buffer(2) [of "streams s2 x"] have lt: "\<not> xTriggerLevelBytes (streams s2 x) \<le> prvBytesInBuffer (streams s2 x)" by simp
  show ?thesis unfolding e prod.case using lt k2
    by (simp add: xStreamBufferSendFromISR_def xStreamBufferSend_def s2_def case_prod_beta Let_def)
qed


theorem trigger_level_beyond_capacity_witness:
  "case xStreamBufferSetTriggerLevel 7 5 (demo_stream 4 False) of (r, s1) \<Rightarrow>
     r \<and> \<not> snd (fst (xStreamBufferSendFromISR 7 [1, 2, 3, 4] s1))"
  using trigger_level_beyond_capacity [of "demo_stream 4 False" 7 "[1, 2, 3, 4]"] by (simp add: demo_stream_wf split: prod.splits)

end
