(* ===== verification/Timers.thy ===== *)
theory Timers
  imports Queue
begin

text \<open>
  Software timers, \<open>lib/FreeRTOS/src/timers.c\<close>: the timer structures, the two lists of active timers,
  the command queue and the timer task that serves both. The state is that of the queues with the
  file-scope variables of the timers on top. The callbacks of the application are an argument, a
  function of the callback pointer, the timer and the state; \<open>called\<close> is not in the source, it keeps
  the timers whose callback was called, oldest first.

  The loop that empties the current list when the tick counter has wrapped ends or not with the
  callbacks, so it is a partial function. The loop over the commands has one argument for each round,
  what other tasks and interrupts do before it; with those used up it has not returned yet.
\<close>

subsection \<open>Data\<close>

record timer_t =
  pcTimerName :: string
  xTimerPeriodInTicks :: tick
  pvTimerID :: nat
  pxCallbackFunction :: nat
  ucStatus :: u8

record DaemonTaskMessage_t =
  xMessageID :: u32
  xMessageValue :: tick
  pxTimer :: nat

record tsys =
  qsy :: qsys
  timers :: "nat \<Rightarrow> timer_t"
  pxCurrentTimerList :: lid
  pxOverflowTimerList :: lid
  xTimerQueue :: nat
  xTimerTaskHandle :: tid
  xLastTime :: tick
  called :: "nat list"

type_synonym callbacks = "nat \<Rightarrow> nat \<Rightarrow> tsys \<Rightarrow> tsys"

definition tmrSTATUS_IS_ACTIVE :: u8 where "tmrSTATUS_IS_ACTIVE = 0x01"
definition tmrSTATUS_IS_STATICALLY_ALLOCATED :: u8 where "tmrSTATUS_IS_STATICALLY_ALLOCATED = 0x02"
definition tmrSTATUS_IS_AUTORELOAD :: u8 where "tmrSTATUS_IS_AUTORELOAD = 0x04"

definition tmrCOMMAND_START_DONT_TRACE :: u32 where "tmrCOMMAND_START_DONT_TRACE = 0"
definition tmrCOMMAND_START :: u32 where "tmrCOMMAND_START = 1"
definition tmrCOMMAND_RESET :: u32 where "tmrCOMMAND_RESET = 2"
definition tmrCOMMAND_STOP :: u32 where "tmrCOMMAND_STOP = 3"
definition tmrCOMMAND_CHANGE_PERIOD :: u32 where "tmrCOMMAND_CHANGE_PERIOD = 4"
definition tmrCOMMAND_DELETE :: u32 where "tmrCOMMAND_DELETE = 5"
definition tmrFIRST_FROM_ISR_COMMAND :: int where "tmrFIRST_FROM_ISR_COMMAND = 6"
definition tmrCOMMAND_START_FROM_ISR :: u32 where "tmrCOMMAND_START_FROM_ISR = 6"
definition tmrCOMMAND_RESET_FROM_ISR :: u32 where "tmrCOMMAND_RESET_FROM_ISR = 7"
definition tmrCOMMAND_STOP_FROM_ISR :: u32 where "tmrCOMMAND_STOP_FROM_ISR = 8"
definition tmrCOMMAND_CHANGE_PERIOD_FROM_ISR :: u32 where "tmrCOMMAND_CHANGE_PERIOD_FROM_ISR = 9"

definition configTIMER_TASK_PRIORITY :: nat where "configTIMER_TASK_PRIORITY = 3"
definition configTIMER_QUEUE_LENGTH :: nat where "configTIMER_QUEUE_LENGTH = 10"
definition configTIMER_TASK_STACK_DEPTH :: nat where "configTIMER_TASK_STACK_DEPTH = 256"
definition sizeof_Timer :: nat where "sizeof_Timer = 40"
definition sizeof_DaemonTaskMessage :: nat where "sizeof_DaemonTaskMessage = 12"

lemmas timer_consts = tmrSTATUS_IS_ACTIVE_def tmrSTATUS_IS_STATICALLY_ALLOCATED_def tmrSTATUS_IS_AUTORELOAD_def
  tmrCOMMAND_START_DONT_TRACE_def tmrCOMMAND_START_def tmrCOMMAND_RESET_def tmrCOMMAND_STOP_def tmrCOMMAND_CHANGE_PERIOD_def
  tmrCOMMAND_DELETE_def tmrFIRST_FROM_ISR_COMMAND_def tmrCOMMAND_START_FROM_ISR_def tmrCOMMAND_RESET_FROM_ISR_def
  tmrCOMMAND_STOP_FROM_ISR_def tmrCOMMAND_CHANGE_PERIOD_FROM_ISR_def

abbreviation tkern :: "tsys \<Rightarrow> kernel" where "tkern t \<equiv> kern (qsy t)"

definition on_tkern :: "(kernel \<Rightarrow> kernel) \<Rightarrow> tsys \<Rightarrow> tsys" where
  "on_tkern f t = t\<lparr>qsy := on_kern f (qsy t)\<rparr>"

definition on_tkern' :: "(kernel \<Rightarrow> 'a \<times> kernel) \<Rightarrow> tsys \<Rightarrow> 'a \<times> tsys" where
  "on_tkern' f t = (let (r, s) = on_kern' f (qsy t) in (r, t\<lparr>qsy := s\<rparr>))"

definition upd_timer :: "nat \<Rightarrow> (timer_t \<Rightarrow> timer_t) \<Rightarrow> tsys \<Rightarrow> tsys" where
  "upd_timer x f t = t\<lparr>timers := (timers t)(x := f (timers t x))\<rparr>"

definition set_status :: "u8 \<Rightarrow> timer_t \<Rightarrow> timer_t" where
  "set_status b tm = tm\<lparr>ucStatus := ucStatus tm OR b\<rparr>"

definition clear_status :: "u8 \<Rightarrow> timer_t \<Rightarrow> timer_t" where
  "clear_status b tm = tm\<lparr>ucStatus := ucStatus tm AND NOT b\<rparr>"

definition is_autoreload :: "timer_t \<Rightarrow> bool" where
  "is_autoreload tm \<longleftrightarrow> ucStatus tm AND tmrSTATUS_IS_AUTORELOAD \<noteq> 0"

definition run_callback :: "callbacks \<Rightarrow> nat \<Rightarrow> tsys \<Rightarrow> tsys" where
  "run_callback cb x t = cb (pxCallbackFunction (timers t x)) x (t\<lparr>called := called t @ [x]\<rparr>)"

text \<open>A message as it lies in the queue.\<close>

definition message_bytes :: "DaemonTaskMessage_t \<Rightarrow> u8 list" where
  "message_bytes m = le_bytes (unat (xMessageID m)) @ le_bytes (unat (xMessageValue m)) @ le_bytes (pxTimer m)"

definition message_of :: "u8 list \<Rightarrow> DaemonTaskMessage_t" where
  "message_of b =
     \<lparr>xMessageID = of_nat (of_le_bytes (take 4 b)), xMessageValue = of_nat (of_le_bytes (take 4 (drop 4 b))),
      pxTimer = of_le_bytes (take 4 (drop 8 b))\<rparr>"

subsection \<open>Creation\<close>

definition prvCheckForValidListAndQueue :: "tsys \<Rightarrow> tsys" where
  "prvCheckForValidListAndQueue t =
     (if xTimerQueue t = 0
      then let t = on_tkern (list_initialise ActiveTimerList2 \<circ> list_initialise ActiveTimerList1) t;
               t = t\<lparr>pxCurrentTimerList := ActiveTimerList1, pxOverflowTimerList := ActiveTimerList2\<rparr>;
               (x, s) = xQueueGenericCreate configTIMER_QUEUE_LENGTH sizeof_DaemonTaskMessage (qsy t);
               t = t\<lparr>qsy := s, xTimerQueue := x\<rparr>
           in if x \<noteq> 0 then t\<lparr>qsy := vQueueAddToRegistry x ''TmrQ'' (qsy t)\<rparr> else t
      else t)"

definition xTimerCreateTimerTask :: "tsys \<Rightarrow> bool \<times> tsys" where
  "xTimerCreateTimerTask t =
     (let t = prvCheckForValidListAndQueue t
      in if xTimerQueue t \<noteq> 0
         then let (r, t) = on_tkern' (xTaskCreate (Some ''Tmr Svc'') configTIMER_TASK_STACK_DEPTH configTIMER_TASK_PRIORITY) t
              in case r of Some h \<Rightarrow> (True, t\<lparr>xTimerTaskHandle := h\<rparr>) | None \<Rightarrow> (False, t)
         else (False, t))"

text \<open>The scheduler starts with the idle task and the timer task.\<close>

definition vTaskStartScheduler :: "tsys \<Rightarrow> bool \<times> tsys" where
  "vTaskStartScheduler t =
     (let (xReturn, t) = on_tkern' vTaskStartScheduler_idle t;
          (xReturn, t) = (if xReturn then xTimerCreateTimerTask t else (xReturn, t))
      in (xReturn, if xReturn then on_tkern vTaskStartScheduler_run t else t))"

definition prvInitialiseNewTimer :: "string \<Rightarrow> tick \<Rightarrow> bool \<Rightarrow> nat \<Rightarrow> nat \<Rightarrow> nat \<Rightarrow> tsys \<Rightarrow> tsys" where
  "prvInitialiseNewTimer pcName period uxAutoReload timerID pxCallback pxNewTimer t =
     (if pxNewTimer \<noteq> 0
      then let t = prvCheckForValidListAndQueue t;
               t = upd_timer pxNewTimer (\<lambda>tm. tm\<lparr>pcTimerName := pcName, xTimerPeriodInTicks := period, pvTimerID := timerID,
                     pxCallbackFunction := pxCallback\<rparr>) t;
               t = on_tkern (\<lambda>k. k\<lparr>ctn := (ctn k)(TimerItem pxNewTimer := None)\<rparr>) t
           in if uxAutoReload then upd_timer pxNewTimer (set_status tmrSTATUS_IS_AUTORELOAD) t else t
      else t)"

definition xTimerCreate :: "string \<Rightarrow> tick \<Rightarrow> bool \<Rightarrow> nat \<Rightarrow> nat \<Rightarrow> tsys \<Rightarrow> nat \<times> tsys" where
  "xTimerCreate pcName period uxAutoReload timerID pxCallback t =
     (let (x, t) = on_tkern' (pvPortMalloc sizeof_Timer) t
      in if x \<noteq> 0
         then (x, prvInitialiseNewTimer pcName period uxAutoReload timerID pxCallback x (upd_timer x (\<lambda>tm. tm\<lparr>ucStatus := 0\<rparr>) t))
         else (x, t))"

subsection \<open>Commands\<close>

text \<open>While the call waits for room in the queue other tasks run: \<open>gs\<close> is what they do to the queue
  and the kernel, \<open>elsewhere\<close> what they, the timer task above all, do to the timers. The result and
  whether a higher priority task was woken.\<close>

definition xTimerGenericCommand :: "gaps list \<Rightarrow> (tsys \<Rightarrow> tsys) \<Rightarrow> nat \<Rightarrow> u32 \<Rightarrow> tick \<Rightarrow> tick \<Rightarrow> tsys \<Rightarrow> ((bool \<times> bool) \<times> tsys) option" where
  "xTimerGenericCommand gs elsewhere x xCommandID xOptionalValue xTicksToWait t =
     (if xTimerQueue t \<noteq> 0
      then let item = message_bytes \<lparr>xMessageID = xCommandID, xMessageValue = xOptionalValue, pxTimer = x\<rparr>
           in if sint xCommandID < tmrFIRST_FROM_ISR_COMMAND
              then let wait = (if xTaskGetSchedulerState (tkern t) = taskSCHEDULER_RUNNING then xTicksToWait else 0)
                   in case xQueueGenericSend gs (xTimerQueue t) item queueSEND_TO_BACK wait None (qsy t) of
                        None \<Rightarrow> None
                      | Some (r, s) \<Rightarrow> Some ((r, False), (elsewhere t)\<lparr>qsy := s\<rparr>)
              else let (r, s) = xQueueGenericSendFromISR (xTimerQueue t) item queueSEND_TO_BACK (qsy t) in Some (r, t\<lparr>qsy := s\<rparr>)
      else Some ((False, False), t))"

definition xTimerStart :: "gaps list \<Rightarrow> (tsys \<Rightarrow> tsys) \<Rightarrow> nat \<Rightarrow> tick \<Rightarrow> tsys \<Rightarrow> ((bool \<times> bool) \<times> tsys) option" where
  "xTimerStart gs elsewhere x xTicksToWait t =
     xTimerGenericCommand gs elsewhere x tmrCOMMAND_START (xTaskGetTickCount (tkern t)) xTicksToWait t"

definition xTimerStop :: "gaps list \<Rightarrow> (tsys \<Rightarrow> tsys) \<Rightarrow> nat \<Rightarrow> tick \<Rightarrow> tsys \<Rightarrow> ((bool \<times> bool) \<times> tsys) option" where
  "xTimerStop gs elsewhere x xTicksToWait t = xTimerGenericCommand gs elsewhere x tmrCOMMAND_STOP 0 xTicksToWait t"

definition xTimerChangePeriod :: "gaps list \<Rightarrow> (tsys \<Rightarrow> tsys) \<Rightarrow> nat \<Rightarrow> tick \<Rightarrow> tick \<Rightarrow> tsys \<Rightarrow> ((bool \<times> bool) \<times> tsys) option" where
  "xTimerChangePeriod gs elsewhere x xNewPeriod xTicksToWait t =
     xTimerGenericCommand gs elsewhere x tmrCOMMAND_CHANGE_PERIOD xNewPeriod xTicksToWait t"

definition xTimerDelete :: "gaps list \<Rightarrow> (tsys \<Rightarrow> tsys) \<Rightarrow> nat \<Rightarrow> tick \<Rightarrow> tsys \<Rightarrow> ((bool \<times> bool) \<times> tsys) option" where
  "xTimerDelete gs elsewhere x xTicksToWait t = xTimerGenericCommand gs elsewhere x tmrCOMMAND_DELETE 0 xTicksToWait t"

definition xTimerReset :: "gaps list \<Rightarrow> (tsys \<Rightarrow> tsys) \<Rightarrow> nat \<Rightarrow> tick \<Rightarrow> tsys \<Rightarrow> ((bool \<times> bool) \<times> tsys) option" where
  "xTimerReset gs elsewhere x xTicksToWait t =
     xTimerGenericCommand gs elsewhere x tmrCOMMAND_RESET (xTaskGetTickCount (tkern t)) xTicksToWait t"

definition xTimerStartFromISR :: "nat \<Rightarrow> tsys \<Rightarrow> ((bool \<times> bool) \<times> tsys) option" where
  "xTimerStartFromISR x t = xTimerGenericCommand [] id x tmrCOMMAND_START_FROM_ISR (xTaskGetTickCountFromISR (tkern t)) 0 t"

definition xTimerStopFromISR :: "nat \<Rightarrow> tsys \<Rightarrow> ((bool \<times> bool) \<times> tsys) option" where
  "xTimerStopFromISR x t = xTimerGenericCommand [] id x tmrCOMMAND_STOP_FROM_ISR 0 0 t"

definition xTimerChangePeriodFromISR :: "nat \<Rightarrow> tick \<Rightarrow> tsys \<Rightarrow> ((bool \<times> bool) \<times> tsys) option" where
  "xTimerChangePeriodFromISR x xNewPeriod t = xTimerGenericCommand [] id x tmrCOMMAND_CHANGE_PERIOD_FROM_ISR xNewPeriod 0 t"

definition xTimerResetFromISR :: "nat \<Rightarrow> tsys \<Rightarrow> ((bool \<times> bool) \<times> tsys) option" where
  "xTimerResetFromISR x t = xTimerGenericCommand [] id x tmrCOMMAND_RESET_FROM_ISR (xTaskGetTickCountFromISR (tkern t)) 0 t"

text \<open>The timer task's own command, \<open>tmrCOMMAND_START_DONT_TRACE\<close> with no delay: it returns at once, and
  its result is only looked at by an assertion, which is configured out.\<close>

definition no_gaps :: gaps where
  "no_gaps = \<lparr>before_lock = id, while_locked = id, before_wait = id, until_rerun = id\<rparr>"

definition restart_from :: "nat \<Rightarrow> tick \<Rightarrow> tsys \<Rightarrow> tsys" where
  "restart_from x v t =
     (case xTimerGenericCommand [no_gaps] id x tmrCOMMAND_START_DONT_TRACE v 0 t of None \<Rightarrow> t | Some (r, t) \<Rightarrow> t)"

subsection \<open>Queries and settings\<close>

definition xTimerGetTimerDaemonTaskHandle :: "tsys \<Rightarrow> tid" where
  "xTimerGetTimerDaemonTaskHandle t = xTimerTaskHandle t"

definition xTimerGetPeriod :: "nat \<Rightarrow> tsys \<Rightarrow> tick" where
  "xTimerGetPeriod x t = xTimerPeriodInTicks (timers t x)"

definition vTimerSetReloadMode :: "nat \<Rightarrow> bool \<Rightarrow> tsys \<Rightarrow> tsys" where
  "vTimerSetReloadMode x uxAutoReload =
     upd_timer x (if uxAutoReload then set_status tmrSTATUS_IS_AUTORELOAD else clear_status tmrSTATUS_IS_AUTORELOAD)"

definition xTimerGetExpiryTime :: "nat \<Rightarrow> tsys \<Rightarrow> tick" where
  "xTimerGetExpiryTime x t = ival (tkern t) (TimerItem x)"

definition pcTimerGetName :: "nat \<Rightarrow> tsys \<Rightarrow> string" where
  "pcTimerGetName x t = pcTimerName (timers t x)"

definition xTimerIsTimerActive :: "nat \<Rightarrow> tsys \<Rightarrow> bool" where
  "xTimerIsTimerActive x t \<longleftrightarrow> ucStatus (timers t x) AND tmrSTATUS_IS_ACTIVE \<noteq> 0"

definition pvTimerGetTimerID :: "nat \<Rightarrow> tsys \<Rightarrow> nat" where
  "pvTimerGetTimerID x t = pvTimerID (timers t x)"

definition vTimerSetTimerID :: "nat \<Rightarrow> nat \<Rightarrow> tsys \<Rightarrow> tsys" where
  "vTimerSetTimerID x pvNewID = upd_timer x (\<lambda>tm. tm\<lparr>pvTimerID := pvNewID\<rparr>)"

subsection \<open>The timer task\<close>

text \<open>Whether the timer has expired already, and the new state.\<close>

definition prvInsertTimerInActiveList :: "nat \<Rightarrow> tick \<Rightarrow> tick \<Rightarrow> tick \<Rightarrow> tsys \<Rightarrow> bool \<times> tsys" where
  "prvInsertTimerInActiveList x xNextExpiryTime xTimeNow xCommandTime t =
     (let t = on_tkern (set_item_value (TimerItem x) xNextExpiryTime) t
      in if xNextExpiryTime \<le> xTimeNow
         then if xTimeNow - xCommandTime \<ge> xTimerPeriodInTicks (timers t x) then (True, t)
              else (False, on_tkern (list_insert (pxOverflowTimerList t) (TimerItem x)) t)
         else if xTimeNow < xCommandTime \<and> xNextExpiryTime \<ge> xCommandTime then (True, t)
              else (False, on_tkern (list_insert (pxCurrentTimerList t) (TimerItem x)) t))"

definition prvProcessExpiredTimer :: "callbacks \<Rightarrow> tick \<Rightarrow> tick \<Rightarrow> tsys \<Rightarrow> tsys" where
  "prvProcessExpiredTimer cb xNextExpireTime xTimeNow t =
     (if list_is_empty (pxCurrentTimerList t) (tkern t) then on_tkern (\<lambda>k. k\<lparr>kfault := True\<rparr>) t else
      let x = item_owner (list_head (pxCurrentTimerList t) (tkern t));
          t = on_tkern (\<lambda>k. snd (list_remove (TimerItem x) k)) t;
          t = (if is_autoreload (timers t x)
               then let (r, t) = prvInsertTimerInActiveList x (xNextExpireTime + xTimerPeriodInTicks (timers t x)) xTimeNow xNextExpireTime t
                    in if r then restart_from x xNextExpireTime t else t
               else upd_timer x (clear_status tmrSTATUS_IS_ACTIVE) t)
      in run_callback cb x t)"

text \<open>One round of the loop of \<open>prvSwitchTimerLists\<close>, on a list that is not empty.\<close>

definition switch_one :: "callbacks \<Rightarrow> tsys \<Rightarrow> tsys" where
  "switch_one cb t =
     (let i = list_head (pxCurrentTimerList t) (tkern t);
          xNextExpireTime = ival (tkern t) i;
          x = item_owner i;
          t = on_tkern (\<lambda>k. snd (list_remove (TimerItem x) k)) t;
          t = run_callback cb x t
      in if is_autoreload (timers t x)
         then let xReloadTime = xNextExpireTime + xTimerPeriodInTicks (timers t x)
              in if xReloadTime > xNextExpireTime
                 then on_tkern (list_insert (pxCurrentTimerList t) (TimerItem x) \<circ> set_item_value (TimerItem x) xReloadTime) t
                 else restart_from x xNextExpireTime t
         else t)"

partial_function (option) switch_loop :: "callbacks \<Rightarrow> tsys \<Rightarrow> tsys option" where
  "switch_loop cb t =
     (if list_is_empty (pxCurrentTimerList t) (tkern t) then Some t else switch_loop cb (switch_one cb t))"

definition prvSwitchTimerLists :: "callbacks \<Rightarrow> tsys \<Rightarrow> tsys option" where
  "prvSwitchTimerLists cb t =
     map_option (\<lambda>t. t\<lparr>pxCurrentTimerList := pxOverflowTimerList t, pxOverflowTimerList := pxCurrentTimerList t\<rparr>) (switch_loop cb t)"

text \<open>The time, whether the lists were switched, and the new state.\<close>

definition prvSampleTimeNow :: "callbacks \<Rightarrow> tsys \<Rightarrow> (tick \<times> bool \<times> tsys) option" where
  "prvSampleTimeNow cb t =
     (let xTimeNow = xTaskGetTickCount (tkern t)
      in map_option (\<lambda>(sw, t). (xTimeNow, sw, t\<lparr>xLastTime := xTimeNow\<rparr>))
           (if xTimeNow < xLastTime t then map_option (Pair True) (prvSwitchTimerLists cb t) else Some (False, t)))"

text \<open>The time the first timer expires, and whether there is none.\<close>

definition prvGetNextExpireTime :: "tsys \<Rightarrow> tick \<times> bool" where
  "prvGetNextExpireTime t =
     (if list_is_empty (pxCurrentTimerList t) (tkern t) then (0, True)
      else (ival (tkern t) (list_head (pxCurrentTimerList t) (tkern t)), False))"

definition prvProcessTimerOrBlockTask :: "callbacks \<Rightarrow> tick \<Rightarrow> bool \<Rightarrow> tsys \<Rightarrow> tsys option" where
  "prvProcessTimerOrBlockTask cb xNextExpireTime xListWasEmpty t =
     (case prvSampleTimeNow cb (on_tkern vTaskSuspendAll t) of
        None \<Rightarrow> None
      | Some (xTimeNow, xTimerListsWereSwitched, t) \<Rightarrow>
          Some (if \<not> xTimerListsWereSwitched
                then if \<not> xListWasEmpty \<and> xNextExpireTime \<le> xTimeNow
                     then prvProcessExpiredTimer cb xNextExpireTime xTimeNow (snd (on_tkern' xTaskResumeAll t))
                     else let xListWasEmpty = (if xListWasEmpty then list_is_empty (pxOverflowTimerList t) (tkern t) else xListWasEmpty);
                              t = t\<lparr>qsy := vQueueWaitForMessageRestricted (xTimerQueue t) (xNextExpireTime - xTimeNow) xListWasEmpty (qsy t)\<rparr>;
                              (r, t) = on_tkern' xTaskResumeAll t
                          in if \<not> r then on_tkern portYIELD t else t
                else snd (on_tkern' xTaskResumeAll t)))"

text \<open>The switch over the command of a message.\<close>

definition process_command :: "callbacks \<Rightarrow> DaemonTaskMessage_t \<Rightarrow> tick \<Rightarrow> tsys \<Rightarrow> tsys" where
  "process_command cb m xTimeNow t =
     (let x = pxTimer m; v = xMessageValue m
      in if xMessageID m \<in> {tmrCOMMAND_START, tmrCOMMAND_START_FROM_ISR, tmrCOMMAND_RESET, tmrCOMMAND_RESET_FROM_ISR, tmrCOMMAND_START_DONT_TRACE}
         then let t = upd_timer x (set_status tmrSTATUS_IS_ACTIVE) t;
                  (r, t) = prvInsertTimerInActiveList x (v + xTimerPeriodInTicks (timers t x)) xTimeNow v t
              in if r
                 then let t = run_callback cb x t
                      in if is_autoreload (timers t x) then restart_from x (v + xTimerPeriodInTicks (timers t x)) t else t
                 else t
         else if xMessageID m \<in> {tmrCOMMAND_STOP, tmrCOMMAND_STOP_FROM_ISR}
         then upd_timer x (clear_status tmrSTATUS_IS_ACTIVE) t
         else if xMessageID m \<in> {tmrCOMMAND_CHANGE_PERIOD, tmrCOMMAND_CHANGE_PERIOD_FROM_ISR}
         then let t = upd_timer x (\<lambda>tm. (set_status tmrSTATUS_IS_ACTIVE tm)\<lparr>xTimerPeriodInTicks := v\<rparr>) t
              in snd (prvInsertTimerInActiveList x (xTimeNow + xTimerPeriodInTicks (timers t x)) xTimeNow xTimeNow t)
         else if xMessageID m = tmrCOMMAND_DELETE
         then if ucStatus (timers t x) AND tmrSTATUS_IS_STATICALLY_ALLOCATED = 0 then on_tkern (vPortFree x) t
              else upd_timer x (clear_status tmrSTATUS_IS_ACTIVE) t
         else t)"

definition process_message :: "callbacks \<Rightarrow> DaemonTaskMessage_t \<Rightarrow> tsys \<Rightarrow> tsys option" where
  "process_message cb m t =
     (if sint (xMessageID m) \<ge> 0
      then let x = pxTimer m;
               t = (if ctn (tkern t) (TimerItem x) \<noteq> None then on_tkern (\<lambda>k. snd (list_remove (TimerItem x) k)) t else t)
           in map_option (\<lambda>(xTimeNow, sw, t). process_command cb m xTimeNow t) (prvSampleTimeNow cb t)
      else Some t)"

text \<open>The receive does not wait, so its first round returns.\<close>

fun prvProcessReceivedCommands :: "callbacks \<Rightarrow> (tsys \<Rightarrow> tsys) list \<Rightarrow> tsys \<Rightarrow> tsys option" where
  "prvProcessReceivedCommands cb [] t = None"
| "prvProcessReceivedCommands cb (others # os) t =
     (let t = others t
      in case xQueueReceive [no_gaps] (xTimerQueue t) 0 None (qsy t) of
           Some ((True, Some b), s) \<Rightarrow>
             Option.bind (process_message cb (message_of b) (t\<lparr>qsy := s\<rparr>)) (prvProcessReceivedCommands cb os)
         | Some (_, s) \<Rightarrow> Some (t\<lparr>qsy := s\<rparr>)
         | None \<Rightarrow> None)"

text \<open>One round of the timer task. What happens elsewhere: before the time is sampled, while the task waits,
  and during the commands.\<close>

definition prvTimerTask_round :: "callbacks \<Rightarrow> (tsys \<Rightarrow> tsys) \<Rightarrow> (tsys \<Rightarrow> tsys) \<Rightarrow> (tsys \<Rightarrow> tsys) list \<Rightarrow> tsys \<Rightarrow> tsys option" where
  "prvTimerTask_round cb before_sample meanwhile os t =
     (let (xNextExpireTime, xListWasEmpty) = prvGetNextExpireTime t
      in Option.bind (prvProcessTimerOrBlockTask cb xNextExpireTime xListWasEmpty (before_sample t))
           (\<lambda>t. prvProcessReceivedCommands cb os (meanwhile t)))"

end
