(* ===== verification/TimerLists.thy ===== *)
theory TimerLists
  imports Timers QueueFifo
begin

text \<open>
  The two lists of active timers in time that does not wrap: when each timer is due, and that insertion
  decides rightly between a timer that has expired, one of the running epoch of the tick counter and
  one of the next. Then the command queue as the list of its messages.
\<close>

subsection \<open>Epochs of the tick counter\<close>

definition wrap :: nat where "wrap = 2 ^ 32"

lemma of_nat_unat: "unat (of_nat c :: tick) = c mod wrap"
  by (simp add: unsigned_of_nat take_bit_eq_mod wrap_def)

lemma near_mod:
  fixes a b :: nat
  assumes "a \<le> b" "b < a + wrap"
  shows "b div wrap = a div wrap \<and> a mod wrap \<le> b mod wrap \<or> b div wrap = a div wrap + 1 \<and> b mod wrap < a mod wrap"
proof -
  have w: "0 < wrap" by (simp add: wrap_def)
  have d: "a = a div wrap * wrap + a mod wrap" "b = b div wrap * wrap + b mod wrap" by simp_all
  have m: "a mod wrap < wrap" "b mod wrap < wrap" using w by simp_all
  have le: "a div wrap \<le> b div wrap" using assms(1) by (rule div_le_mono)
  have "b div wrap \<le> (a + wrap) div wrap" using assms(2) by (intro div_le_mono) simp
  then have "b div wrap \<le> a div wrap + 1" using w div_add_self2 [of wrap a] by simp
  then consider "b div wrap = a div wrap" | "b div wrap = a div wrap + 1" using le by linarith
  then show ?thesis
  proof cases
    case 1
    then show ?thesis using d assms(1) by (metis nat_add_left_cancel_le)
  next
    case 2
    then have "b = a div wrap * wrap + wrap + b mod wrap" using d(2) by (simp add: algebra_simps)
    then have "b mod wrap < a mod wrap" using d(1) assms(2) by linarith
    then show ?thesis using 2 by simp
  qed
qed

text \<open>The time a timer is due, counted from the epoch \<open>e\<close> of the last sample.\<close>

definition due_time :: "nat \<Rightarrow> tsys \<Rightarrow> nat \<Rightarrow> nat option" where
  "due_time e t x =
     (if ctn (tkern t) (TimerItem x) = Some (pxCurrentTimerList t) then Some (e * wrap + unat (ival (tkern t) (TimerItem x)))
      else if ctn (tkern t) (TimerItem x) = Some (pxOverflowTimerList t) then Some ((e + 1) * wrap + unat (ival (tkern t) (TimerItem x)))
      else None)"

lemma on_tkern_fields [simp]:
  "tkern (on_tkern f t) = f (tkern t)" "timers (on_tkern f t) = timers t" "pxCurrentTimerList (on_tkern f t) = pxCurrentTimerList t"
  "pxOverflowTimerList (on_tkern f t) = pxOverflowTimerList t" "xTimerQueue (on_tkern f t) = xTimerQueue t" "xLastTime (on_tkern f t) = xLastTime t"
  "called (on_tkern f t) = called t" "queues (qsy (on_tkern f t)) = queues (qsy t)" "qmem (qsy (on_tkern f t)) = qmem (qsy t)"
  by (simp_all add: on_tkern_def)

lemma insert_expired_iff:
  fixes c n ends :: nat and period nx :: tick
  assumes "c \<le> n" "n < c + wrap"
  defines "nx \<equiv> of_nat c + period" and "ends \<equiv> c + unat period"
  shows "ends \<le> n \<longleftrightarrow> (if nx \<le> of_nat n then period \<le> of_nat n - of_nat c else of_nat n < (of_nat c :: tick) \<and> of_nat c \<le> nx)"
    and "n < ends \<Longrightarrow> nx \<le> of_nat n \<Longrightarrow> ends = (n div wrap + 1) * wrap + unat nx"
    and "n < ends \<Longrightarrow> \<not> nx \<le> of_nat n \<Longrightarrow> ends = n div wrap * wrap + unat nx"
proof -
  have p: "unat period < wrap" using unsigned_less [of period] by (simp add: wrap_def)
  have nx: "unat nx = ends mod wrap" "nx = of_nat ends" unfolding nx_def ends_def
    by (simp_all add: of_nat_unat [symmetric] of_nat_add)
  have c: "unat (of_nat c :: tick) = c mod wrap" "unat (of_nat n :: tick) = n mod wrap" by (simp_all add: of_nat_unat)
  have sub: "unat (of_nat n - of_nat c :: tick) = n - c"
    using assms(1,2) of_nat_unat [of "n - c"] by (simp add: of_nat_diff)
  have le: "nx \<le> of_nat n \<longleftrightarrow> ends mod wrap \<le> n mod wrap" "of_nat n < (of_nat c :: tick) \<longleftrightarrow> n mod wrap < c mod wrap"
    "of_nat c \<le> nx \<longleftrightarrow> c mod wrap \<le> ends mod wrap" "period \<le> of_nat n - of_nat c \<longleftrightarrow> unat period \<le> n - c"
    by (simp_all add: word_le_nat_alt word_less_nat_alt nx(1) c sub)
  have dc: "c \<le> ends" "ends < c + wrap" using p by (simp_all add: ends_def)
  note N = near_mod [OF assms(1,2)] and D = near_mod [OF dc]
  have dn: "n < ends \<Longrightarrow> ends < n + wrap" using dc assms(1) by linarith
  have bk: "ends \<le> n \<Longrightarrow> n < ends + wrap" using assms(2) dc(1) by linarith
  show "ends \<le> n \<longleftrightarrow> (if nx \<le> of_nat n then period \<le> of_nat n - of_nat c else of_nat n < (of_nat c :: tick) \<and> of_nat c \<le> nx)"
  proof (cases "nx \<le> of_nat n")
    case True
    have "ends \<le> n \<longleftrightarrow> unat period \<le> n - c" using assms(1) unfolding ends_def by linarith
    then show ?thesis using True le(4) by simp
  next
    case False
    then have f: "n mod wrap < ends mod wrap" using le(1) by simp
    have "ends \<le> n \<longleftrightarrow> n mod wrap < c mod wrap \<and> c mod wrap \<le> ends mod wrap"
    proof
      assume d: "ends \<le> n"
      from near_mod [OF d bk [OF d]] f have "n div wrap = ends div wrap + 1" by linarith
      with N D show "n mod wrap < c mod wrap \<and> c mod wrap \<le> ends mod wrap" by linarith
    next
      assume a: "n mod wrap < c mod wrap \<and> c mod wrap \<le> ends mod wrap"
      show "ends \<le> n"
      proof (rule ccontr)
        assume "\<not> ends \<le> n"
        then have d: "n \<le> ends" "ends < n + wrap" using dn by auto
        from near_mod [OF d] f have "ends div wrap = n div wrap" by linarith
        with N D a show False by linarith
      qed
    qed
    then show ?thesis using False le by simp
  qed
  show "ends = (n div wrap + 1) * wrap + unat nx" if d: "n < ends" and l: "nx \<le> of_nat n"
  proof -
    have "ends div wrap = n div wrap + 1"
    proof (rule ccontr)
      assume ne: "ends div wrap \<noteq> n div wrap + 1"
      with near_mod [of n ends] d dn have "ends div wrap = n div wrap" by simp
      moreover have "ends = ends div wrap * wrap + ends mod wrap" "n = n div wrap * wrap + n mod wrap" by simp_all
      ultimately show False using d l le(1) by (metis add_le_cancel_left leD)
    qed
    then show ?thesis using nx(1) by (metis div_mult_mod_eq)
  qed
  show "ends = n div wrap * wrap + unat nx" if d: "n < ends" and l: "\<not> nx \<le> of_nat n"
  proof -
    have "ends div wrap = n div wrap" using near_mod [of n ends] d dn l le(1) by auto
    then show ?thesis using nx(1) by (metis div_mult_mod_eq)
  qed
qed

subsection \<open>Well-formed timer lists\<close>

definition timer_list :: "kernel \<Rightarrow> lid \<Rightarrow> bool" where
  "timer_list k l \<longleftrightarrow> sorted (map (ival k) (xl_items (lists k l))) \<and> (\<forall>i \<in> set (xl_items (lists k l)). \<exists>x. i = TimerItem x)"

definition timers_wf :: "tsys \<Rightarrow> bool" where
  "timers_wf t \<longleftrightarrow> lists_wf (tkern t) \<and> {pxCurrentTimerList t, pxOverflowTimerList t} = {ActiveTimerList1, ActiveTimerList2} \<and>
     timer_list (tkern t) ActiveTimerList1 \<and> timer_list (tkern t) ActiveTimerList2"

lemma timer_list_set_value:
  assumes "i \<notin> set (xl_items (lists k l))" shows "timer_list (set_item_value i v k) l = timer_list k l"
proof -
  have "map ((ival k)(i := v)) (xl_items (lists k l)) = map (ival k) (xl_items (lists k l))" using assms by (auto simp: map_eq_conv)
  then show ?thesis by (simp add: timer_list_def set_item_value_def del: map_eq_conv fun_upd_apply)
qed

lemma timer_list_insert:
  assumes "timer_list k l" shows "timer_list (list_insert m (TimerItem x) k) l"
proof (cases "l = m")
  case True
  have "sorted (map (ival k) (xl_items (xl_insert (ival k) (TimerItem x) (lists k l))))" using assms by (intro sorted_xl_insert) (simp add: timer_list_def)
  then show ?thesis using assms True by (simp add: timer_list_def list_insert_def)
next
  case False
  then show ?thesis using assms by (simp add: timer_list_def list_insert_def)
qed

lemma timer_list_remove:
  assumes "timer_list k l" "lists_wf k" shows "timer_list (snd (list_remove i k)) l"
proof -
  have "sorted (map (ival k) (xl_items (xl_remove i (lists k l))))" using assms(1) by (intro sorted_xl_remove) (simp add: timer_list_def)
  moreover have "set (xl_items (xl_remove i (lists k l))) \<subseteq> set (xl_items (lists k l))" using set_xl_remove [OF lists_wf_xl [OF assms(2)]] by blast
  ultimately show ?thesis using assms(1) by (auto simp: timer_list_def list_remove_def split: option.splits)
qed

text \<open>The parts of the state the timer lists depend on.\<close>

lemma timers_wf_cong:
  assumes "lists (tkern t') = lists (tkern t)" "ctn (tkern t') = ctn (tkern t)" "ival (tkern t') = ival (tkern t)"
    "pxCurrentTimerList t' = pxCurrentTimerList t" "pxOverflowTimerList t' = pxOverflowTimerList t"
  shows "timers_wf t' = timers_wf t" "due_time e t' = due_time e t"
  using assms(3-5) lists_wf_cong [OF assms(1,2)] assms(1,2) by (simp_all add: timers_wf_def timer_list_def due_time_def fun_eq_iff [of "due_time _ _"])

lemma timers_wf_neq: "timers_wf t \<Longrightarrow> pxCurrentTimerList t \<noteq> pxOverflowTimerList t"
  by (auto simp: timers_wf_def doubleton_eq_iff)

lemma timers_wf_set_value:
  assumes w: "timers_wf t" and c: "ctn (tkern t) (TimerItem x) = None"
  shows "timers_wf (on_tkern (set_item_value (TimerItem x) v) t)" "due_time e (on_tkern (set_item_value (TimerItem x) v) t) = due_time e t"
proof -
  have k: "lists_wf (tkern t)" using w by (simp add: timers_wf_def)
  have "timer_list (set_item_value (TimerItem x) v (tkern t)) l = timer_list (tkern t) l" for l
    using lists_wf_ctn [OF k] c by (intro timer_list_set_value) simp
  then show "timers_wf (on_tkern (set_item_value (TimerItem x) v) t)" using w
    by (simp add: timers_wf_def) (simp add: set_item_value_def lists_wf_def)
  show "due_time e (on_tkern (set_item_value (TimerItem x) v) t) = due_time e t" using c by (auto simp: due_time_def set_item_value_def fun_eq_iff)
qed

lemma timers_wf_insert:
  fixes v :: tick
  assumes w: "timers_wf t" and c: "ctn (tkern t) (TimerItem x) = None" and l: "l \<in> {pxCurrentTimerList t, pxOverflowTimerList t}"
  defines "t' \<equiv> on_tkern (list_insert l (TimerItem x) \<circ> set_item_value (TimerItem x) v) t"
  shows "timers_wf t'"
    and "due_time e t' = (due_time e t)(x \<mapsto> (if l = pxCurrentTimerList t then e else e + 1) * wrap + unat v)"
proof -
  let ?k = "set_item_value (TimerItem x) v (tkern t)"
  have s: "lists_wf ?k" "timer_list ?k ActiveTimerList1" "timer_list ?k ActiveTimerList2"
    using timers_wf_set_value(1) [OF w c, of v] by (simp_all add: timers_wf_def)
  have "lists_wf (list_insert l (TimerItem x) ?k)" using lists_wf_insert(1) [OF s(1)] c by (simp add: set_item_value_def)
  then show "timers_wf t'" using w timer_list_insert s(2,3) by (simp add: timers_wf_def t'_def)
  show "due_time e t' = (due_time e t)(x \<mapsto> (if l = pxCurrentTimerList t then e else e + 1) * wrap + unat v)"
    using timers_wf_neq [OF w] l
    by (auto simp: t'_def due_time_def list_insert_def set_item_value_def fun_eq_iff)
qed

lemma timers_wf_remove:
  fixes x :: nat
  assumes w: "timers_wf t"
  defines "t' \<equiv> on_tkern (\<lambda>k. snd (list_remove (TimerItem x) k)) t"
  shows "timers_wf t'" and "due_time e t' = (due_time e t)(x := None)" and "ctn (tkern t') (TimerItem x) = None"
proof -
  have k: "lists_wf (tkern t)" using w by (simp add: timers_wf_def)
  show "timers_wf t'" using w lists_wf_remove [OF k] timer_list_remove [OF _ k] by (simp add: timers_wf_def t'_def)
  show "ctn (tkern t') (TimerItem x) = None" "due_time e t' = (due_time e t)(x := None)"
    by (auto simp: t'_def list_remove_def due_time_def fun_eq_iff split: option.splits)
qed

subsection \<open>Insertion\<close>

lemma insert_active:
  assumes w: "timers_wf t" and x: "ctn (tkern t) (TimerItem x) = None" and c: "c \<le> n" "n < c + wrap"
  defines "p \<equiv> xTimerPeriodInTicks (timers t x)" and "e \<equiv> n div wrap"
  shows "case prvInsertTimerInActiveList x (of_nat c + p) (of_nat n) (of_nat c) t of (r, t') \<Rightarrow>
     (r \<longleftrightarrow> c + unat p \<le> n) \<and> timers_wf t' \<and>
     due_time e t' = (if r then due_time e t else (due_time e t)(x \<mapsto> c + unat p)) \<and>
     (r \<longrightarrow> ctn (tkern t') = ctn (tkern t) \<and> lists (tkern t') = lists (tkern t)) \<and>
     (\<exists>f. t' = on_tkern f t \<and> (\<forall>k. xTickCount (f k) = xTickCount k \<and> (\<forall>l. l \<notin> {ActiveTimerList1, ActiveTimerList2} \<longrightarrow> lists (f (tkern t)) l = lists (tkern t) l)))"
proof -
  let ?nx = "of_nat c + p"
  note E = insert_expired_iff [OF c, of p]
  have L: "{pxCurrentTimerList t, pxOverflowTimerList t} = {ActiveTimerList1, ActiveTimerList2}" using w by (simp add: timers_wf_def)
  note set_only = timers_wf_set_value [OF w x, where v = ?nx]
  have comp: "on_tkern f (on_tkern g t) = on_tkern (f \<circ> g) t" for f g by (simp add: on_tkern_def on_kern_def)
  note I = timers_wf_insert [OF w x, where v = ?nx]
  show ?thesis
  proof (cases "c + unat p \<le> n")
    case True
    then have r: "prvInsertTimerInActiveList x ?nx (of_nat n) (of_nat c) t = (True, on_tkern (set_item_value (TimerItem x) ?nx) t)"
      using E(1) by (auto simp: prvInsertTimerInActiveList_def p_def Let_def split: if_splits)
    show ?thesis unfolding r using True set_only by (auto simp: set_item_value_def intro!: exI [of _ "set_item_value (TimerItem x) ?nx"])
  next
    case False
    then have n: "n < c + unat p" by simp
    let ?l = "if ?nx \<le> of_nat n then pxOverflowTimerList t else pxCurrentTimerList t"
    let ?f = "list_insert ?l (TimerItem x) \<circ> set_item_value (TimerItem x) ?nx"
    have r: "prvInsertTimerInActiveList x ?nx (of_nat n) (of_nat c) t = (False, on_tkern ?f t)"
      using E(1) False by (auto simp: prvInsertTimerInActiveList_def p_def Let_def comp split: if_splits)
    have l: "?l \<in> {pxCurrentTimerList t, pxOverflowTimerList t}" by simp
    have d: "c + unat p = (if ?l = pxCurrentTimerList t then e else e + 1) * wrap + unat ?nx"
      using E(2,3) [OF n] timers_wf_neq [OF w] by (auto simp: e_def)
    have "lists (?f (tkern t)) m = lists (tkern t) m" if "m \<notin> {ActiveTimerList1, ActiveTimerList2}" for m
      using that l L by (auto simp: list_insert_def set_item_value_def)
    then have "\<forall>k. xTickCount (?f k) = xTickCount k \<and> (\<forall>m. m \<notin> {ActiveTimerList1, ActiveTimerList2} \<longrightarrow> lists (?f (tkern t)) m = lists (tkern t) m)"
      by (simp add: list_insert_def set_item_value_def)
    then show ?thesis unfolding r using False I(1) [OF l] I(2) [OF l, where e = e] d by auto
  qed
qed

subsection \<open>The command queue\<close>

definition nobody_waits :: "nat \<Rightarrow> kernel \<Rightarrow> bool" where
  "nobody_waits q k \<longleftrightarrow> list_is_empty (TasksWaitingToSend q) k \<and> list_is_empty (TasksWaitingToReceive q) k"

definition queue_at :: "nat \<Rightarrow> u8 list list \<Rightarrow> qsys \<Rightarrow> bool" where
  "queue_at q ms s \<longleftrightarrow> queue_ok q s \<and> uxItemSize (queues s q) = sizeof_DaemonTaskMessage \<and> nobody_waits q (kern s) \<and> queue_items q s = ms"

lemma queue_at_kern: "queue_at q ms s \<Longrightarrow> nobody_waits q k \<Longrightarrow> queue_at q ms (s\<lparr>kern := k\<rparr>)"
  by (simp add: queue_at_def queue_ok_def queue_items_def)

lemma send_message:
  assumes q: "queue_at q [] s" and l: "length b = sizeof_DaemonTaskMessage"
  obtains s' where "xQueueGenericSend [g] q b queueSEND_TO_BACK 0 None s = Some (True, s')" "queue_at q [b] s'" "kern s' = kern s"
proof -
  have c: "uxMessagesWaiting (queues s q) < uxLength (queues s q)"
    using q length_ring_items [of "queues s q" "qmem s"] by (auto simp: queue_at_def queue_ok_def ring_ok_def ring_at_def queue_items_def)
  have ok: "queue_ok q s" "length b = uxItemSize (queues s q)" using q l by (simp_all add: queue_at_def)
  note r = queue_send_room [OF ok(1) c ok(2), of g from_task]
  obtain q' m where e: "prvCopyDataToQueue q b queueSEND_TO_BACK s = (False, s\<lparr>queues := (queues s)(q := q'), qmem := m\<rparr>)"
    using copy_data_to_back [OF ok(1) c ok(2)] by blast
  let ?s = "s\<lparr>queues := (queues s)(q := q'), qmem := m\<rparr>"
  have x: "xQueueGenericSend [g] q b queueSEND_TO_BACK 0 None s = Some (True, ?s)"
    using c q by (simp add: xQueueGenericSend_try_def e queue_at_def nobody_waits_def)
  have "snd (queue_send g q from_task b s) = ?s" by (simp only: queue_send_def x caller.case option.case snd_conv)
  with r q have "queue_at q [b] ?s" by (simp add: queue_at_def)
  with x show ?thesis using that by simp
qed

lemma receive_message:
  assumes q: "queue_at q (b # bs) s"
  obtains s' where "xQueueReceive [g] q 0 None s = Some ((True, Some b), s')" "queue_at q bs s'" "kern s' = kern s"
proof -
  have ok: "queue_ok q s" and i: "queue_items q s = b # bs" using q by (simp_all add: queue_at_def)
  have c: "0 < uxMessagesWaiting (queues s q)"
    using i length_ring_items [of "queues s q" "qmem s"] by (simp add: queue_items_def)
  note r = queue_receive_some [OF ok c, of g from_task]
  obtain b' q' where e: "prvCopyDataFromQueue q s = (Some b', s\<lparr>queues := (queues s)(q := q')\<rparr>)"
    using copy_data_from [OF ok c] by blast
  let ?s = "upd_queue q (\<lambda>u. u\<lparr>uxMessagesWaiting := uxMessagesWaiting (queues s q) - 1\<rparr>) (s\<lparr>queues := (queues s)(q := q')\<rparr>)"
  have x: "xQueueReceive [g] q 0 None s = Some ((True, Some b'), ?s)"
    using c q by (simp add: xQueueReceive_try_def e queue_at_def nobody_waits_def wake_one_def Let_def upd_queue_def)
  then have s: "queue_receive g q from_task s = (Some b', ?s)" by (simp only: queue_receive_def caller.case option.case prod.case)
  have k: "kern ?s = kern s" by simp
  have "b' = b" "queue_items q ?s = bs" "queue_ok q ?s" "uxItemSize (queues ?s q) = uxItemSize (queues s q)" using r i unfolding s by auto
  then show ?thesis using that x q k by (simp add: queue_at_def)
qed

lemma receive_nothing:
  assumes q: "queue_at q [] s" shows "xQueueReceive [g] q 0 None s = Some ((False, None), s)"
proof -
  have "uxMessagesWaiting (queues s q) = 0"
    using q length_ring_items [of "queues s q" "qmem s"] by (simp add: queue_at_def queue_items_def)
  then show ?thesis by (simp add: xQueueReceive_try_def)
qed

lemma length_message [simp]: "length (message_bytes m) = sizeof_DaemonTaskMessage"
  by (simp add: message_bytes_def sizeof_DaemonTaskMessage_def)

lemma message_roundtrip: "pxTimer m < 2 ^ 32 \<Longrightarrow> message_of (message_bytes m) = m"
proof -
  assume a: "pxTimer m < 2 ^ 32"
  have u: "unat v < 2 ^ 32" for v :: u32 using unsigned_less [of v] by simp
  show ?thesis using a u [THEN le_bytes_roundtrip] le_bytes_roundtrip [OF a]
    by (simp add: message_of_def message_bytes_def)
qed

subsection \<open>The timer task at a moment\<close>

definition daemon_at :: "nat \<Rightarrow> u8 list list \<Rightarrow> tsys \<Rightarrow> bool" where
  "daemon_at n ms t \<longleftrightarrow> timers_wf t \<and> xTimerQueue t \<noteq> 0 \<and> queue_at (xTimerQueue t) ms (qsy t) \<and>
     xTickCount (tkern t) = of_nat n \<and> xLastTime t \<le> of_nat n"

text \<open>A callback that leaves timers, queues and lists alone and takes less than a tick.\<close>

definition quiet :: "callbacks \<Rightarrow> bool" where
  "quiet cb \<longleftrightarrow> (\<forall>f x t. \<exists>k. cb f x t = on_tkern k t \<and> lists (k (tkern t)) = lists (tkern t) \<and> ctn (k (tkern t)) = ctn (tkern t) \<and>
     ival (k (tkern t)) = ival (tkern t) \<and> xTickCount (k (tkern t)) = xTickCount (tkern t))"

lemma daemon_at_cong:
  assumes "daemon_at n ms t" "lists (tkern t') = lists (tkern t)" "ctn (tkern t') = ctn (tkern t)" "ival (tkern t') = ival (tkern t)"
    "xTickCount (tkern t') = xTickCount (tkern t)" "queues (qsy t') = queues (qsy t)" "qmem (qsy t') = qmem (qsy t)"
    "pxCurrentTimerList t' = pxCurrentTimerList t" "pxOverflowTimerList t' = pxOverflowTimerList t" "xTimerQueue t' = xTimerQueue t"
    "xLastTime t' = xLastTime t"
  shows "daemon_at n ms t'"
  using assms timers_wf_cong(1) [of t' t]
  by (simp add: daemon_at_def queue_at_def queue_ok_def queue_items_def nobody_waits_def list_is_empty_def)

lemma run_callback_quiet:
  assumes "quiet cb"
  shows "daemon_at n ms t \<Longrightarrow> daemon_at n ms (run_callback cb x t)" "due_time e (run_callback cb x t) = due_time e t"
    "called (run_callback cb x t) = called t @ [x]" "timers (run_callback cb x t) = timers t"
    "ctn (tkern (run_callback cb x t)) = ctn (tkern t)"
proof -
  let ?t = "t\<lparr>called := called t @ [x]\<rparr>"
  obtain k where k: "run_callback cb x t = on_tkern k ?t" "lists (k (tkern t)) = lists (tkern t)" "ctn (k (tkern t)) = ctn (tkern t)"
    "ival (k (tkern t)) = ival (tkern t)" "xTickCount (k (tkern t)) = xTickCount (tkern t)"
    using assms [unfolded quiet_def, rule_format, of "pxCallbackFunction (timers t x)" x ?t] by (auto simp: run_callback_def)
  show "daemon_at n ms t \<Longrightarrow> daemon_at n ms (run_callback cb x t)" by (erule daemon_at_cong) (simp_all add: k)
  show "due_time e (run_callback cb x t) = due_time e t" by (rule timers_wf_cong) (simp_all add: k)
  show "called (run_callback cb x t) = called t @ [x]" "timers (run_callback cb x t) = timers t"
    "ctn (tkern (run_callback cb x t)) = ctn (tkern t)" by (simp_all add: k)
qed

text \<open>A restart command goes to the queue.\<close>

lemma restart_message:
  assumes "daemon_at n [] t"
  shows "daemon_at n [message_bytes \<lparr>xMessageID = tmrCOMMAND_START_DONT_TRACE, xMessageValue = v, pxTimer = x\<rparr>] (restart_from x v t)"
    "due_time e (restart_from x v t) = due_time e t" "called (restart_from x v t) = called t" "timers (restart_from x v t) = timers t"
proof -
  let ?b = "message_bytes \<lparr>xMessageID = tmrCOMMAND_START_DONT_TRACE, xMessageValue = v, pxTimer = x\<rparr>"
  have q: "queue_at (xTimerQueue t) [] (qsy t)" and nz: "xTimerQueue t \<noteq> 0" using assms by (simp_all add: daemon_at_def)
  obtain s' where s: "xQueueGenericSend [no_gaps] (xTimerQueue t) ?b queueSEND_TO_BACK 0 None (qsy t) = Some (True, s')"
    "queue_at (xTimerQueue t) [?b] s'" "kern s' = kern (qsy t)" using send_message [OF q, of ?b no_gaps] by auto
  have r: "restart_from x v t = t\<lparr>qsy := s'\<rparr>"
    using s(1) nz by (simp add: restart_from_def xTimerGenericCommand_def tmrCOMMAND_START_DONT_TRACE_def tmrFIRST_FROM_ISR_COMMAND_def Let_def)
  have "timers_wf (t\<lparr>qsy := s'\<rparr>) = timers_wf t" by (rule timers_wf_cong) (simp_all add: s(3))
  then show "daemon_at n [?b] (restart_from x v t)" using assms s unfolding r by (simp add: daemon_at_def)
  show "due_time e (restart_from x v t) = due_time e t" unfolding r by (rule timers_wf_cong) (simp_all add: s(3))
  show "called (restart_from x v t) = called t" "timers (restart_from x v t) = timers t" unfolding r by simp_all
qed

end
