(* ===== verification/TimerTask.thy ===== *)
theory TimerTask
  imports TimerLists EventLists KernelProperties
begin

text \<open>
  The timer task: what a start command does, how an auto-reload timer catches up with the periods it
  has missed, what one round of the task does, and that emptying the current list after a wrap of the
  tick counter ends.
\<close>

definition start_command :: "u32 \<Rightarrow> bool" where
  "start_command c \<longleftrightarrow> c \<in> {tmrCOMMAND_START, tmrCOMMAND_START_FROM_ISR, tmrCOMMAND_RESET, tmrCOMMAND_RESET_FROM_ISR, tmrCOMMAND_START_DONT_TRACE}"

lemma daemon_insert:
  assumes d: "daemon_at n ms t" and x: "ctn (tkern t) (TimerItem x) = None" and c: "c \<le> n" "n < c + wrap"
  defines "p \<equiv> xTimerPeriodInTicks (timers t x)" and "e \<equiv> n div wrap"
  shows "\<exists>t'. prvInsertTimerInActiveList x (of_nat c + p) (of_nat n) (of_nat c) t = (c + unat p \<le> n, t') \<and> daemon_at n ms t' \<and>
    due_time e t' = (if c + unat p \<le> n then due_time e t else (due_time e t)(x \<mapsto> c + unat p)) \<and> timers t' = timers t \<and> called t' = called t"
proof -
  have w: "timers_wf t" using d by (simp add: daemon_at_def)
  obtain t' f where f: "prvInsertTimerInActiveList x (of_nat c + p) (of_nat n) (of_nat c) t = (c + unat p \<le> n, t')" "timers_wf t'"
    "due_time e t' = (if c + unat p \<le> n then due_time e t else (due_time e t)(x \<mapsto> c + unat p))" "t' = on_tkern f t"
    "\<And>k. xTickCount (f k) = xTickCount k" "\<And>l. l \<notin> {ActiveTimerList1, ActiveTimerList2} \<Longrightarrow> lists (f (tkern t)) l = lists (tkern t) l"
    using insert_active [OF w x c] by (auto simp: p_def e_def split: prod.splits)
  have "nobody_waits (xTimerQueue t) (f (tkern t))" using d f(6) by (simp add: daemon_at_def queue_at_def nobody_waits_def list_is_empty_def)
  then have "queue_at (xTimerQueue t) ms ((qsy t)\<lparr>kern := f (tkern t)\<rparr>)" using d by (intro queue_at_kern) (simp_all add: daemon_at_def)
  then have "daemon_at n ms t'" using d f(2) f(5) by (simp add: daemon_at_def f(4)) (simp add: on_tkern_def on_kern_def)
  then show ?thesis using f by auto
qed

lemma daemon_remove:
  assumes d: "daemon_at n ms t"
  shows "daemon_at n ms (on_tkern (\<lambda>k. snd (list_remove (TimerItem x) k)) t)"
proof -
  have k: "lists_wf (tkern t)" "timer_list (tkern t) ActiveTimerList1" "timer_list (tkern t) ActiveTimerList2"
    using d by (simp_all add: daemon_at_def timers_wf_def)
  let ?k = "snd (list_remove (TimerItem x) (tkern t))"
  have "xl_items (lists ?k l) = []" if "xl_items (lists (tkern t) l) = []" for l
    using that set_xl_remove [OF lists_wf_xl [OF k(1)], of "TimerItem x" l] by (auto simp: list_remove_def split: option.splits)
  then have "nobody_waits (xTimerQueue t) ?k" using d by (simp add: daemon_at_def queue_at_def nobody_waits_def list_is_empty_def)
  then have "queue_at (xTimerQueue t) ms ((qsy t)\<lparr>kern := ?k\<rparr>)" using d by (intro queue_at_kern) (simp_all add: daemon_at_def)
  moreover have "xTickCount ?k = xTickCount (tkern t)" by (simp add: list_remove_def split: option.splits)
  ultimately show ?thesis using d timers_wf_remove(1) [of t x] by (simp add: daemon_at_def) (simp add: on_tkern_def on_kern_def)
qed

lemma sample_same_epoch:
  assumes "daemon_at n ms t"
  shows "prvSampleTimeNow cb t = Some (of_nat n, False, t\<lparr>xLastTime := of_nat n\<rparr>)" "daemon_at n ms (t\<lparr>xLastTime := of_nat n\<rparr>)"
    "due_time e (t\<lparr>xLastTime := of_nat n\<rparr>) = due_time e t"
proof -
  have "timers_wf (t\<lparr>xLastTime := of_nat n\<rparr>) = timers_wf t" by (rule timers_wf_cong) simp_all
  then show "daemon_at n ms (t\<lparr>xLastTime := of_nat n\<rparr>)" using assms by (simp add: daemon_at_def)
  show "prvSampleTimeNow cb t = Some (of_nat n, False, t\<lparr>xLastTime := of_nat n\<rparr>)"
    using assms by (auto simp: prvSampleTimeNow_def xTaskGetTickCount_def daemon_at_def Let_def not_less [symmetric])
  show "due_time e (t\<lparr>xLastTime := of_nat n\<rparr>) = due_time e t" by (rule timers_wf_cong) simp_all
qed

lemma upd_timer_fields [simp]:
  "qsy (upd_timer x f t) = qsy t" "timers (upd_timer x f t) = (timers t)(x := f (timers t x))" "called (upd_timer x f t) = called t"
  "due_time e (upd_timer x f t) = due_time e t" "daemon_at n ms (upd_timer x f t) = daemon_at n ms t"
  by (simp_all add: upd_timer_def daemon_at_def due_time_def fun_eq_iff timers_wf_def)

lemma set_status_fields [simp]:
  "xTimerPeriodInTicks (set_status b tm) = xTimerPeriodInTicks tm" "is_autoreload (set_status tmrSTATUS_IS_ACTIVE tm) = is_autoreload tm"
  by (simp_all add: set_status_def is_autoreload_def bit.conj_disj_distrib2 timer_consts)

lemma process_start:
  assumes d: "daemon_at n [] t" and q: "quiet cb" and m: "start_command (xMessageID m)" "xMessageValue m = of_nat c" "pxTimer m = x"
    and c: "c \<le> n" "n < c + wrap"
  defines "p \<equiv> unat (xTimerPeriodInTicks (timers t x))" and "e \<equiv> n div wrap"
  shows "\<exists>t'. process_message cb m t = Some t' \<and> timers t' = (timers t)(x := set_status tmrSTATUS_IS_ACTIVE (timers t x)) \<and>
    (if n < c + p then daemon_at n [] t' \<and> called t' = called t \<and> due_time e t' = (due_time e t)(x \<mapsto> c + p)
     else daemon_at n (if is_autoreload (timers t x) then [message_bytes \<lparr>xMessageID = tmrCOMMAND_START_DONT_TRACE, xMessageValue = of_nat (c + p), pxTimer = x\<rparr>] else []) t' \<and>
       called t' = called t @ [x] \<and> due_time e t' = (due_time e t)(x := None))"
proof -
  let ?u = "if ctn (tkern t) (TimerItem x) \<noteq> None then on_tkern (\<lambda>k. snd (list_remove (TimerItem x) k)) t else t"
  have w: "timers_wf t" using d by (simp add: daemon_at_def)
  have u: "daemon_at n [] ?u" "ctn (tkern ?u) (TimerItem x) = None" "due_time e ?u = (due_time e t)(x := None)" "timers ?u = timers t" "called ?u = called t"
    using d daemon_remove [OF d] timers_wf_remove(2,3) [OF w] by (auto simp: fun_eq_iff due_time_def)
  let ?s = "upd_timer x (set_status tmrSTATUS_IS_ACTIVE) (?u\<lparr>xLastTime := of_nat n\<rparr>)"
  note sa = sample_same_epoch [OF u(1)]
  have s: "daemon_at n [] ?s" "ctn (tkern ?s) (TimerItem x) = None" using sa(2) u(2) by simp_all
  have P: "xTimerPeriodInTicks (timers ?s x) = xTimerPeriodInTicks (timers t x)" by (simp add: u(4))
  obtain t1 where t1: "prvInsertTimerInActiveList x (of_nat c + xTimerPeriodInTicks (timers t x)) (of_nat n) (of_nat c) ?s = (c + p \<le> n, t1)"
    "daemon_at n [] t1" "due_time e t1 = (if c + p \<le> n then due_time e ?s else (due_time e ?s)(x \<mapsto> c + p))" "timers t1 = timers ?s" "called t1 = called ?s"
    using daemon_insert [OF s c] unfolding P p_def e_def by blast
  have nn: "0 \<le> sint (xMessageID m)" using m(1) by (auto simp: start_command_def timer_consts)
  define v :: tick where "v = of_nat (c + p)"
  have v: "of_nat c + xTimerPeriodInTicks (timers t x) = v" by (simp add: p_def v_def)
  let ?t = "if c + p \<le> n then let t = run_callback cb x t1 in if is_autoreload (timers t x) then restart_from x v t else t else t1"
  have "process_message cb m t = Some (process_command cb m (of_nat n) (?u\<lparr>xLastTime := of_nat n\<rparr>))"
    using nn sa(1) [of cb] m(3) by (simp add: process_message_def Let_def)
  also have "process_command cb m (of_nat n) (?u\<lparr>xLastTime := of_nat n\<rparr>) = ?t"
  proof -
    have "xMessageID m \<in> {tmrCOMMAND_START, tmrCOMMAND_START_FROM_ISR, tmrCOMMAND_RESET, tmrCOMMAND_RESET_FROM_ISR, tmrCOMMAND_START_DONT_TRACE}"
      using m(1) by (simp add: start_command_def)
    then show ?thesis unfolding process_command_def Let_def m(2,3)
      by (simp only: if_True P t1(1) prod.case) (simp add: run_callback_quiet [OF q] t1(4) u(4) v)
  qed
  finally have r: "process_message cb m t = Some ?t" .
  have T: "timers t1 = (timers t)(x := set_status tmrSTATUS_IS_ACTIVE (timers t x))" "called t1 = called t"
    "due_time e ?s = (due_time e t)(x := None)" using t1(4,5) u(3-5) sa(3) by simp_all
  note R = run_callback_quiet [OF q]
  note N = restart_message [OF R(1) [OF t1(2)], where v = v and x = x]
  show ?thesis
  proof (cases "n < c + p")
    case True
    then show ?thesis using r t1(2,3) T by simp
  next
    case False
    then have "?t = (if is_autoreload (timers t x) then restart_from x v (run_callback cb x t1) else run_callback cb x t1)"
      by (simp add: Let_def R T(1))
    then show ?thesis using r False t1(2,3) T R N by (intro exI [of _ ?t]) (simp add: v_def [symmetric] del: of_nat_add)
  qed
qed

lemma receive_step:
  assumes d: "daemon_at n (message_bytes m # ms) t" and x: "pxTimer m < 2 ^ 32"
  obtains u where "prvProcessReceivedCommands cb (id # os) t = Option.bind (process_message cb m u) (prvProcessReceivedCommands cb os)"
    "daemon_at n ms u" "timers u = timers t" "called u = called t" "\<And>e. due_time e u = due_time e t"
proof -
  have q: "queue_at (xTimerQueue t) (message_bytes m # ms) (qsy t)" using d by (simp add: daemon_at_def)
  obtain s where s: "xQueueReceive [no_gaps] (xTimerQueue t) 0 None (qsy t) = Some ((True, Some (message_bytes m)), s)"
    "queue_at (xTimerQueue t) ms s" "kern s = kern (qsy t)" by (rule receive_message [OF q])
  have e: "due_time e (t\<lparr>qsy := s\<rparr>) = due_time e t" and w: "timers_wf (t\<lparr>qsy := s\<rparr>) = timers_wf t" for e
    by (rule timers_wf_cong; simp add: s(3))+
  have "prvProcessReceivedCommands cb (id # os) t =
      Option.bind (process_message cb m (t\<lparr>qsy := s\<rparr>)) (prvProcessReceivedCommands cb os)"
    using s(1) by (simp add: message_roundtrip [OF x])
  moreover have "daemon_at n ms (t\<lparr>qsy := s\<rparr>)" using d s w by (simp add: daemon_at_def)
  ultimately show ?thesis using that e by simp
qed

lemma receive_done: "daemon_at n [] t \<Longrightarrow> prvProcessReceivedCommands cb (id # os) t = Some t"
  using receive_nothing [of "xTimerQueue t" "qsy t" no_gaps] by (simp add: daemon_at_def)

declare prvProcessReceivedCommands.simps(2) [simp del]

definition start_message :: "u32 \<Rightarrow> nat \<Rightarrow> nat \<Rightarrow> u8 list" where
  "start_message i c x = message_bytes \<lparr>xMessageID = i, xMessageValue = of_nat c, pxTimer = x\<rparr>"

lemma catch_up:
  assumes q: "quiet cb" and x: "x < 2 ^ 32" and p: "0 < p"
  shows "daemon_at n [start_message i c x] t \<Longrightarrow> start_command i \<Longrightarrow> c \<le> n \<Longrightarrow> n < c + wrap \<Longrightarrow>
    is_autoreload (timers t x) \<Longrightarrow> unat (xTimerPeriodInTicks (timers t x)) = p \<Longrightarrow> (n - c) div p = m \<Longrightarrow>
    \<exists>t'. prvProcessReceivedCommands cb (replicate (m + 2) id) t = Some t' \<and> daemon_at n [] t' \<and> called t' = called t @ replicate m x \<and>
      due_time (n div wrap) t' = (due_time (n div wrap) t)(x \<mapsto> c + (m + 1) * p) \<and>
      timers t' = (timers t)(x := set_status tmrSTATUS_IS_ACTIVE (timers t x))"
proof (induction m arbitrary: i c t)
  case (0 i c t)
  let ?m = "\<lparr>xMessageID = i, xMessageValue = of_nat c, pxTimer = x\<rparr>"
  have n: "n < c + p" using 0(7) p by (simp add: div_eq_0_iff)
  obtain u where u: "prvProcessReceivedCommands cb (id # [id]) t = Option.bind (process_message cb ?m u) (prvProcessReceivedCommands cb [id])"
    "daemon_at n [] u" "timers u = timers t" "called u = called t" "\<And>e. due_time e u = due_time e t"
    using receive_step [OF 0(1) [unfolded start_message_def], of cb "[id]"] x by auto
  from process_start [OF u(2) q, of ?m c x] 0 n
  obtain t' where t': "process_message cb ?m u = Some t'" "timers t' = (timers t)(x := set_status tmrSTATUS_IS_ACTIVE (timers t x))"
    "daemon_at n [] t'" "called t' = called t" "due_time (n div wrap) t' = (due_time (n div wrap) t)(x \<mapsto> c + p)"
    by (auto simp: u)
  have r: "replicate (0 + 2) id = [id, id :: tsys \<Rightarrow> tsys]" by (simp add: numeral_2_eq_2)
  show ?case unfolding r by (rule exI [of _ t']) (use u(1) t' receive_done [OF t'(3), of cb "[]"] in simp)
next
  case (Suc m i c t)
  let ?m = "\<lparr>xMessageID = i, xMessageValue = of_nat c, pxTimer = x\<rparr>"
  have le: "p \<le> n - c" using Suc(8) p by (metis div_less not_less nat.distinct(1))
  then have n: "\<not> n < c + p" "c + p \<le> n" "n < (c + p) + wrap" using Suc(4,5) by auto
  have dm: "(n - (c + p)) div p = m" using Suc(8) le p by (simp add: le_div_geq)
  have r: "replicate (Suc m + 2) (id :: tsys \<Rightarrow> tsys) = id # replicate (m + 2) id" by simp
  obtain u where u: "prvProcessReceivedCommands cb (id # replicate (m + 2) id) t =
      Option.bind (process_message cb ?m u) (prvProcessReceivedCommands cb (replicate (m + 2) id))"
    "daemon_at n [] u" "timers u = timers t" "called u = called t" "\<And>e. due_time e u = due_time e t"
    using receive_step [OF Suc(2) [unfolded start_message_def], of cb "replicate (m + 2) id"] x by auto
  from process_start [OF u(2) q, of ?m c x] Suc n
  obtain t1 where t1: "process_message cb ?m u = Some t1" "timers t1 = (timers t)(x := set_status tmrSTATUS_IS_ACTIVE (timers t x))"
    "daemon_at n [start_message tmrCOMMAND_START_DONT_TRACE (c + p) x] t1" "called t1 = called t @ [x]" "due_time (n div wrap) t1 = (due_time (n div wrap) t)(x := None)"
    by (auto simp: u start_message_def)
  have s: "start_command tmrCOMMAND_START_DONT_TRACE" by (simp add: start_command_def)
  have a: "is_autoreload (timers t1 x)" "unat (xTimerPeriodInTicks (timers t1 x)) = p" using Suc(6,7) t1(2) by simp_all
  from Suc.IH [OF t1(3) s n(2,3) a dm] obtain t' where t': "prvProcessReceivedCommands cb (replicate (m + 2) id) t1 = Some t'" "daemon_at n [] t'" "called t' = called t1 @ replicate m x"
    "due_time (n div wrap) t' = (due_time (n div wrap) t1)(x \<mapsto> c + p + (m + 1) * p)" "timers t' = (timers t1)(x := set_status tmrSTATUS_IS_ACTIVE (timers t1 x))"
    by blast
  have "set_status tmrSTATUS_IS_ACTIVE (set_status tmrSTATUS_IS_ACTIVE tm) = set_status tmrSTATUS_IS_ACTIVE tm" for tm
    by (simp add: set_status_def or.assoc)
  then have "timers t' = (timers t)(x := set_status tmrSTATUS_IS_ACTIVE (timers t x))" using t'(5) t1(2) by simp
  then show ?case unfolding r u(1) by (intro exI [of _ t']) (use t1 t' in \<open>simp add: algebra_simps\<close>)
qed

subsection \<open>The first timer\<close>

lemma of_nat_wrap [simp]: "(of_nat wrap :: tick) = 0"
  by (simp add: wrap_def)

lemma due_mod:
  assumes "due_time e t x = Some d" shows "of_nat d = ival (tkern t) (TimerItem x)"
  using assms by (auto simp: due_time_def split: if_splits)

text \<open>Every timer on the lists is due in the running epoch or in the next.\<close>

lemma first_timer:
  assumes w: "timers_wf t" and ne: "\<not> list_is_empty (pxCurrentTimerList t) (tkern t)"
  obtains x where "list_head (pxCurrentTimerList t) (tkern t) = TimerItem x"
    "due_time e t x = Some (e * wrap + unat (ival (tkern t) (TimerItem x)))"
    "\<And>y d. due_time e t y = Some d \<Longrightarrow> e * wrap + unat (ival (tkern t) (TimerItem x)) \<le> d"
proof -
  let ?l = "pxCurrentTimerList t" and ?k = "tkern t"
  have wf: "lists_wf ?k" using w by (simp add: timers_wf_def)
  consider "?l = ActiveTimerList1" | "?l = ActiveTimerList2" using w by (auto simp: timers_wf_def doubleton_eq_iff)
  then have tl: "timer_list ?k ?l" using w by cases (simp_all add: timers_wf_def)
  obtain i js where i: "xl_items (lists ?k ?l) = i # js" using ne by (auto simp: list_is_empty_def neq_Nil_conv)
  then obtain x where x: "i = TimerItem x" using tl by (auto simp: timer_list_def)
  have h: "list_head ?l ?k = TimerItem x" using i x by (simp add: list_head_def)
  have c: "ctn ?k (TimerItem x) = Some ?l" using lists_wf_ctn [OF wf, of "TimerItem x" ?l] i x by simp
  have "e * wrap + unat (ival ?k (TimerItem x)) \<le> d" if y: "due_time e t y = Some d" for y d
  proof (cases "ctn ?k (TimerItem y) = Some ?l")
    case True
    then have "TimerItem y \<in> set (xl_items (lists ?k ?l))" using lists_wf_ctn [OF wf] by simp
    then have "ival ?k (TimerItem x) \<le> ival ?k (TimerItem y)"
      using tl i x xlo.head_minimal [of "ival ?k" "lists ?k ?l"] by (simp add: timer_list_def)
    then show ?thesis using y True by (simp add: due_time_def word_le_nat_alt split: if_splits)
  next
    case False
    have "unat (ival ?k (TimerItem x)) < wrap" using unsigned_less [of "ival ?k (TimerItem x)"] by (simp add: wrap_def)
    then show ?thesis using y False by (auto simp: due_time_def split: if_splits)
  qed
  then show ?thesis using that h c by (simp add: due_time_def)
qed

lemma none_current:
  assumes w: "timers_wf t" and e: "list_is_empty (pxCurrentTimerList t) (tkern t)" and d: "due_time e t y = Some d"
  shows "(e + 1) * wrap \<le> d" "\<not> list_is_empty (pxOverflowTimerList t) (tkern t)"
proof -
  have wf: "lists_wf (tkern t)" using w by (simp add: timers_wf_def)
  have "ctn (tkern t) (TimerItem y) \<noteq> Some (pxCurrentTimerList t)" using list_is_empty_iff [OF wf] e by blast
  then have c: "ctn (tkern t) (TimerItem y) = Some (pxOverflowTimerList t)" and "d = (e + 1) * wrap + unat (ival (tkern t) (TimerItem y))"
    using d by (auto simp: due_time_def split: if_splits)
  then show "(e + 1) * wrap \<le> d" by simp
  show "\<not> list_is_empty (pxOverflowTimerList t) (tkern t)" using list_is_empty_iff [OF wf] c by blast
qed

lemma overflow_timer:
  assumes w: "timers_wf t" and ne: "\<not> list_is_empty (pxOverflowTimerList t) (tkern t)"
  shows "\<exists>y d. due_time e t y = Some d"
proof -
  let ?l = "pxOverflowTimerList t"
  consider "?l = ActiveTimerList1" | "?l = ActiveTimerList2" using w by (auto simp: timers_wf_def doubleton_eq_iff)
  then have tl: "timer_list (tkern t) ?l" using w by cases (simp_all add: timers_wf_def)
  obtain i js where i: "xl_items (lists (tkern t) ?l) = i # js" using ne by (auto simp: list_is_empty_def neq_Nil_conv)
  then obtain y where y: "i = TimerItem y" using tl by (auto simp: timer_list_def)
  have "lists_wf (tkern t)" using w by (simp add: timers_wf_def)
  from lists_wf_ctn [OF this, of i ?l] i y have "ctn (tkern t) (TimerItem y) = Some ?l" by simp
  then show ?thesis by (auto simp: due_time_def)
qed

lemma to_next_epoch: "n + (wrap - n mod wrap) = (n div wrap + 1) * wrap"
proof -
  have "n = n div wrap * wrap + n mod wrap" "n mod wrap < wrap" "(n div wrap + 1) * wrap = n div wrap * wrap + wrap" by (simp_all add: wrap_def)
  then show ?thesis by linarith
qed

lemma unat_minus_nat:
  assumes "0 < n mod wrap" shows "unat (- of_nat n :: tick) = wrap - n mod wrap"
proof -
  have le: "n mod wrap < wrap" by (simp add: wrap_def)
  have "(of_nat n :: tick) + of_nat (wrap - n mod wrap) = of_nat ((n div wrap + 1) * wrap)" by (metis of_nat_add to_next_epoch)
  also have "\<dots> = 0" unfolding of_nat_mult of_nat_wrap by simp
  finally have "- of_nat n = (of_nat (wrap - n mod wrap) :: tick)" by (simp add: neg_eq_iff_add_eq_0)
  then have "unat (- of_nat n :: tick) = (wrap - n mod wrap) mod wrap" by (simp only: of_nat_unat)
  then show ?thesis using assms le by simp
qed

subsection \<open>The wait\<close>

text \<open>The timer task blocks on its queue, which nobody uses meanwhile.\<close>

lemma restricted_wait:
  fixes q :: nat and b :: bool
  assumes k: "kinv (kern s)" "may_block (kern s)" "uxSchedulerSuspended (kern s) = 1" "uxPendedTicks (kern s) = 0"
    and pe: "list_is_empty PendingReadyList (kern s)" and n: "b \<or> n \<noteq> 0" and m: "uxMessagesWaiting (queues s q) = 0"
    and u: "cTxLock (queues s q) = queueUNLOCKED" "cRxLock (queues s q) = queueUNLOCKED"
  defines "k' \<equiv> kern (snd (on_kern' xTaskResumeAll (vQueueWaitForMessageRestricted q n b s)))" and "w \<equiv> (if b then portMAX_DELAY else n)"
  shows "kinv k'" "ticks_left k' (pxCurrentTCB (kern s)) = Some (unat w)" "ctn k' (EventItem (pxCurrentTCB (kern s))) = Some (TasksWaitingToReceive q)"
    "ctn k' (TimerItem x) = ctn (kern s) (TimerItem x)" "ival k' (TimerItem x) = ival (kern s) (TimerItem x)"
proof -
  let ?k = "kern s" and ?c = "pxCurrentTCB (kern s)" and ?l = "TasksWaitingToReceive q"
  let ?p = "vTaskPlaceOnEventListRestricted ?l n b ?k"
  have r: "kern (vQueueWaitForMessageRestricted q n b s) = ?p"
    using m u by (simp add: vQueueWaitForMessageRestricted_def prvLockQueue_def prvUnlockQueue_def upd_queue_def on_kern_def queueUNLOCKED_def queueLOCKED_UNMODIFIED_def Let_def)
  have k': "k' = snd (xTaskResumeAll ?p)" by (simp add: k'_def on_kern'_def r case_prod_beta Let_def)
  let ?i = "list_insert_end ?l (EventItem ?c) ?k"
  have cr: "ctn ?i (StateItem (pxCurrentTCB ?i)) = Some (ReadyTasksLists (cur_prio ?i))" "cur_ready ?i"
    using k(2) by (simp_all add: may_block_def cur_ready_def list_insert_end_def)
  have dl: "delay_lists ?i" using kinvD(3) [OF kinv_kinvp [OF k(1)]] by (simp add: delay_lists_def list_insert_end_def)
  have p: "?p = prvAddCurrentTaskToDelayedList w b ?i" by (simp add: vTaskPlaceOnEventListRestricted_def w_def)
  have c: "pxCurrentTCB ?i = ?c" by (simp add: list_insert_end_def)
  note B = block_fields [OF cr(1), of w b] and C = ctn_block_current [OF cr(1), of w b]
  have "?p = vTaskPlaceOnEventListRestricted ?l (if b then 1 else n) b ?k" by (simp add: vTaskPlaceOnEventListRestricted_def)
  then have kp: "kinv ?p" using kinv_places(3) [OF k(1,2) event_lists(2), of "if b then 1 else n" q b] n by (cases b) simp_all
  note ie = list_is_empty_iff [OF kinvD(1) [OF kinv_kinvp]]
  have "ctn ?p i \<noteq> Some PendingReadyList" for i
    using pe dl unfolding ie [OF k(1)] p C by (auto simp: list_insert_end_def delay_lists_def)
  then have pe': "list_is_empty PendingReadyList ?p" unfolding ie [OF kp] by blast
  have sp: "uxSchedulerSuspended ?p = 1" "uxPendedTicks ?p = 0" using B k(3,4) by (simp_all add: p list_insert_end_def)
  note R = resume_calm [OF sp pe']
  show "kinv k'" unfolding k' using kinv_resume [OF kp] sp pe' unfolding ie [OF kp] by simp
  have "ticks_left k' = ticks_left ?p" unfolding k' using R by (intro ext) (simp add: ticks_left_def)
  then show "ticks_left k' ?c = Some (unat w)" using ticks_left_block [OF cr(2) dl, of w b] by (simp add: p c)
  have "ctn ?p (EventItem ?c) = Some ?l" unfolding p C by (simp add: list_insert_end_def)
  then show "ctn k' (EventItem ?c) = Some ?l" unfolding k' using R(1) by simp
  have "ctn ?p (TimerItem x) = ctn ?k (TimerItem x)" "ival ?p (TimerItem x) = ival ?k (TimerItem x)"
    unfolding p C B(1) by (simp_all add: list_insert_end_def)
  then show "ctn k' (TimerItem x) = ctn ?k (TimerItem x)" "ival k' (TimerItem x) = ival ?k (TimerItem x)" unfolding k' using R(1,3) by simp_all
qed


subsection \<open>One round of the timer task\<close>

definition daemon_ready :: "nat \<Rightarrow> tsys \<Rightarrow> bool" where
  "daemon_ready n t \<longleftrightarrow> daemon_at n [] t \<and> kinv (tkern t) \<and> may_block (tkern t) \<and> uxSchedulerSuspended (tkern t) = 0 \<and> uxPendedTicks (tkern t) = 0 \<and>
     cTxLock (queues (qsy t) (xTimerQueue t)) = queueUNLOCKED \<and> cRxLock (queues (qsy t) (xTimerQueue t)) = queueUNLOCKED \<and>
     (\<forall>x d. due_time (n div wrap) t x = Some d \<longrightarrow> d < n + wrap)"

definition next_round :: "callbacks \<Rightarrow> tsys \<Rightarrow> tsys option" where
  "next_round cb t = (case prvGetNextExpireTime t of (xNextExpireTime, xListWasEmpty) \<Rightarrow> prvProcessTimerOrBlockTask cb xNextExpireTime xListWasEmpty t)"

lemma on_tkern'_fields [simp]:
  "tkern (snd (on_tkern' f t)) = snd (f (tkern t))" "timers (snd (on_tkern' f t)) = timers t" "called (snd (on_tkern' f t)) = called t"
  "pxCurrentTimerList (snd (on_tkern' f t)) = pxCurrentTimerList t" "pxOverflowTimerList (snd (on_tkern' f t)) = pxOverflowTimerList t"
  "xTimerQueue (snd (on_tkern' f t)) = xTimerQueue t" "xLastTime (snd (on_tkern' f t)) = xLastTime t"
  "queues (qsy (snd (on_tkern' f t))) = queues (qsy t)" "qmem (qsy (snd (on_tkern' f t))) = qmem (qsy t)" "fst (on_tkern' f t) = fst (f (tkern t))"
  by (simp_all add: on_tkern'_def on_kern'_def case_prod_beta Let_def)

definition sleep :: "tick \<Rightarrow> bool \<Rightarrow> tsys \<Rightarrow> tsys" where
  "sleep n b u =
     (let v = u\<lparr>qsy := vQueueWaitForMessageRestricted (xTimerQueue u) n b (qsy u)\<rparr>; w = snd (on_tkern' xTaskResumeAll v)
      in if fst (xTaskResumeAll (tkern v)) then w else on_tkern portYIELD w)"

lemma next_round_eq:
  assumes "prvGetNextExpireTime t = (nx, em)" "prvSampleTimeNow cb (on_tkern vTaskSuspendAll t) = Some (nw, False, u)"
  shows "next_round cb t = Some (if \<not> em \<and> nx \<le> nw then prvProcessExpiredTimer cb nx nw (snd (on_tkern' xTaskResumeAll u))
     else sleep (nx - nw) (if em then list_is_empty (pxOverflowTimerList u) (tkern u) else em) u)"
  using assms by (simp add: next_round_def prvProcessTimerOrBlockTask_def sleep_def Let_def case_prod_beta)

text \<open>The sample with the scheduler suspended.\<close>

lemma suspended_sample:
  assumes d: "daemon_at n [] t"
  defines "u \<equiv> (on_tkern vTaskSuspendAll t)\<lparr>xLastTime := of_nat n\<rparr>"
  shows "prvSampleTimeNow cb (on_tkern vTaskSuspendAll t) = Some (of_nat n, False, u)" "daemon_at n [] u" "due_time e u = due_time e t"
proof -
  have "daemon_at n [] (on_tkern vTaskSuspendAll t)" using d by (rule daemon_at_cong) (simp_all add: vTaskSuspendAll_def)
  from sample_same_epoch [OF this] show "prvSampleTimeNow cb (on_tkern vTaskSuspendAll t) = Some (of_nat n, False, u)" "daemon_at n [] u"
    by (simp_all add: u_def)
  show "due_time e u = due_time e t" unfolding u_def by (rule timers_wf_cong) (simp_all add: vTaskSuspendAll_def)
qed

lemma round_sleeps:
  assumes r: "daemon_ready n t" and later: "\<And>x d. due_time (n div wrap) t x = Some d \<Longrightarrow> n < d"
  shows "\<exists>t' w. next_round cb t = Some t' \<and> called t' = called t \<and> due_time (n div wrap) t' = due_time (n div wrap) t \<and> kinv (tkern t') \<and>
    ticks_left (tkern t') (pxCurrentTCB (tkern t)) = Some w \<and> 0 < w \<and> (\<forall>x d. due_time (n div wrap) t x = Some d \<longrightarrow> n + w \<le> d) \<and>
    ctn (tkern t') (EventItem (pxCurrentTCB (tkern t))) = Some (TasksWaitingToReceive (xTimerQueue t))"
proof -
  let ?e = "n div wrap" and ?cur = "pxCurrentTimerList t" and ?k = "tkern t"
  have d: "daemon_at n [] t" and w: "timers_wf t" using r by (simp_all add: daemon_ready_def daemon_at_def)
  define u where "u = (on_tkern vTaskSuspendAll t)\<lparr>xLastTime := of_nat n\<rparr>"
  note S = suspended_sample [OF d, folded u_def]
  have uk: "tkern u = vTaskSuspendAll ?k" "pxCurrentTimerList u = ?cur" "pxOverflowTimerList u = pxOverflowTimerList t" "xTimerQueue u = xTimerQueue t"
    "called u = called t" "queues (qsy u) = queues (qsy t)" by (simp_all add: u_def)
  have n: "n = ?e * wrap + n mod wrap" "n mod wrap < wrap" by (simp_all add: wrap_def)
  have nw: "unat (of_nat n :: tick) = n mod wrap" by (rule of_nat_unat)
  obtain nx em where g: "prvGetNextExpireTime t = (nx, em)" by fastforce
  define b where "b = (if em then list_is_empty (pxOverflowTimerList u) (tkern u) else em)"
  have em: "em = list_is_empty ?cur ?k" using g by (auto simp: prvGetNextExpireTime_def split: if_splits)
  have head: "of_nat n < nx \<and> (\<forall>y d. due_time ?e t y = Some d \<longrightarrow> n + unat (nx - of_nat n) \<le> d)" if ne: "\<not> em"
  proof -
    obtain x where x: "list_head ?cur ?k = TimerItem x" "due_time ?e t x = Some (?e * wrap + unat (ival ?k (TimerItem x)))"
      "\<And>y d. due_time ?e t y = Some d \<Longrightarrow> ?e * wrap + unat (ival ?k (TimerItem x)) \<le> d" using first_timer [OF w] ne em by metis
    have nx: "nx = ival ?k (TimerItem x)" using g x(1) ne em by (auto simp: prvGetNextExpireTime_def split: if_splits)
    have lt: "n mod wrap < unat nx" using later [OF x(2)] n(1) unfolding nx by linarith
    have "unat (nx - of_nat n) = unat nx - n mod wrap" using lt by (simp add: unat_sub word_le_nat_alt nw)
    then have "n + unat (nx - of_nat n) = ?e * wrap + unat nx" using lt n(1) by linarith
    then show ?thesis using x(3) lt nw nx by (auto simp: word_less_nat_alt)
  qed
  have empty: "nx - of_nat n \<noteq> 0 \<and> (\<forall>y d. due_time ?e t y = Some d \<longrightarrow> n + unat (nx - of_nat n) \<le> d)" if ee: "em" and nb: "\<not> b"
  proof -
    have nx: "nx = 0" using g ee em by (auto simp: prvGetNextExpireTime_def split: if_splits)
    have ne: "\<not> list_is_empty (pxOverflowTimerList t) ?k" using nb ee by (simp add: b_def uk vTaskSuspendAll_def list_is_empty_def)
    obtain y d where y: "due_time ?e t y = Some d" using overflow_timer [OF w ne] by blast
    have dl: "(?e + 1) * wrap \<le> d" "d < n + wrap" using none_current [OF w _ y] ee em r y by (auto simp: daemon_ready_def)
    have nz: "0 < n mod wrap" using dl n(1) by (cases "n mod wrap = 0") (simp_all add: algebra_simps)
    have "unat (nx - of_nat n) = wrap - n mod wrap" using nz unfolding nx by (simp add: unat_minus_nat)
    then have "n + unat (nx - of_nat n) = (?e + 1) * wrap" using to_next_epoch [of n] by simp
    moreover have "nx - of_nat n \<noteq> 0" using nz nw nx by (metis diff_0 neg_equal_0_iff_equal not_gr_zero unsigned_0)
    ultimately show ?thesis using none_current(1) [OF w] ee em by simp
  qed
  define wt where "wt = (if b then portMAX_DELAY else nx - of_nat n)"
  have wt: "wt \<noteq> 0" "\<forall>y d. due_time ?e t y = Some d \<longrightarrow> n + unat wt \<le> d"
  proof -
    have "due_time ?e t y = None" if "b" for y
    proof (rule ccontr)
      assume "due_time ?e t y \<noteq> None"
      then obtain d where "due_time ?e t y = Some d" by auto
      from none_current(2) [OF w _ this] that em show False by (simp add: b_def uk vTaskSuspendAll_def list_is_empty_def split: if_splits)
    qed
    then show "wt \<noteq> 0" "\<forall>y d. due_time ?e t y = Some d \<longrightarrow> n + unat wt \<le> d"
      using head empty by (cases b; cases em; auto simp: wt_def portMAX_DELAY_def b_def)+
  qed
  have kk: "kinv (kern (qsy u))" "may_block (kern (qsy u))" "uxSchedulerSuspended (kern (qsy u)) = 1" "uxPendedTicks (kern (qsy u)) = 0"
    "list_is_empty PendingReadyList (kern (qsy u))" "pxCurrentTCB (kern (qsy u)) = pxCurrentTCB ?k"
    using r kinv_suspend [of ?k] pending_empty [of ?k]
    by (simp_all add: uk(1) daemon_ready_def may_block_def cur_ready_def vTaskSuspendAll_def list_is_empty_def)
  have qq: "uxMessagesWaiting (queues (qsy u) (xTimerQueue u)) = 0" "cTxLock (queues (qsy u) (xTimerQueue u)) = queueUNLOCKED" "cRxLock (queues (qsy u) (xTimerQueue u)) = queueUNLOCKED"
    using r length_ring_items [of "queues (qsy t) (xTimerQueue t)" "qmem (qsy t)"]
    by (simp_all add: uk daemon_ready_def daemon_at_def queue_at_def queue_items_def)
  have bn: "b \<or> nx - of_nat n \<noteq> 0" using wt(1) by (auto simp: wt_def)
  note W = restricted_wait [OF kk(1-5) bn qq, folded wt_def]
  define v where "v = u\<lparr>qsy := vQueueWaitForMessageRestricted (xTimerQueue u) (nx - of_nat n) b (qsy u)\<rparr>"
  define t' where "t' = (if fst (xTaskResumeAll (tkern v)) then snd (on_tkern' xTaskResumeAll v) else on_tkern portYIELD (snd (on_tkern' xTaskResumeAll v)))"
  have "\<not> (\<not> em \<and> nx \<le> of_nat n)" using head by auto
  then have nr: "next_round cb t = Some t'"
    unfolding next_round_eq [OF g S(1)] b_def [symmetric] by (simp only: if_False sleep_def v_def [symmetric] t'_def Let_def)
  have vk: "snd (xTaskResumeAll (tkern v)) = kern (snd (on_kern' xTaskResumeAll (vQueueWaitForMessageRestricted (xTimerQueue u) (nx - of_nat n) b (qsy u))))"
    by (simp add: v_def on_kern'_def case_prod_beta Let_def)
  define k' where "k' = kern (snd (on_kern' xTaskResumeAll (vQueueWaitForMessageRestricted (xTimerQueue u) (nx - of_nat n) b (qsy u))))"
  note W = W [folded k'_def]
  have tk: "tkern t' = (if fst (xTaskResumeAll (tkern v)) then k' else portYIELD k')" using vk by (simp add: t'_def k'_def)
  have ptr: "called t' = called t" "pxCurrentTimerList t' = ?cur" "pxOverflowTimerList t' = pxOverflowTimerList t"
    by (simp_all add: t'_def v_def uk)
  have "ticks_left (tkern t') c = ticks_left k' c" for c by (simp add: tk ticks_left_def) (simp add: portYIELD_def)
  moreover have "kinv (tkern t')" "ctn (tkern t') = ctn k'" "ival (tkern t') = ival k'"
    using W(1) by (simp_all add: tk portYIELD_def)
  moreover have "due_time ?e t' = due_time ?e t" using W(4,5) calculation(3,4) ptr
    by (intro ext) (simp add: due_time_def uk(1) vTaskSuspendAll_def)
  ultimately show ?thesis using W(2,3) kk(6) wt ptr(1) nr uk(4) by (intro exI [of _ t'] exI [of _ "unat wt"]) (simp add: unat_gt_0)
qed

lemma round_expires:
  assumes r: "daemon_ready n t" and q: "quiet cb" and some: "due_time (n div wrap) t x0 = Some d0" "d0 \<le> n"
  defines "e \<equiv> n div wrap"
  shows "\<exists>t' x d p. next_round cb t = Some t' \<and> p = unat (xTimerPeriodInTicks (timers t x)) \<and> due_time e t x = Some d \<and> d \<le> n \<and> n < d + wrap \<and>
    (\<forall>y d'. due_time e t y = Some d' \<longrightarrow> d \<le> d') \<and> called t' = called t @ [x] \<and>
    due_time e t' = (due_time e t)(x := if is_autoreload (timers t x) \<and> n < d + p then Some (d + p) else None) \<and>
    daemon_at n (if is_autoreload (timers t x) \<and> d + p \<le> n then [start_message tmrCOMMAND_START_DONT_TRACE d x] else []) t'"
proof -
  let ?k = "tkern t" and ?cur = "pxCurrentTimerList t"
  have d: "daemon_at n [] t" and w: "timers_wf t" using r by (simp_all add: daemon_ready_def daemon_at_def)
  define u where "u = (on_tkern vTaskSuspendAll t)\<lparr>xLastTime := of_nat n\<rparr>"
  note S = suspended_sample [OF d, folded u_def]
  have n: "n = e * wrap + n mod wrap" "n mod wrap < wrap" by (simp_all add: e_def wrap_def)
  have "(e + 1) * wrap = e * wrap + wrap" by simp
  then have "n < (e + 1) * wrap" using n by linarith
  then have ne: "\<not> list_is_empty ?cur ?k" using none_current(1) [OF w _ some(1)] some(2) unfolding e_def by fastforce
  obtain x where x: "list_head ?cur ?k = TimerItem x" "due_time e t x = Some (e * wrap + unat (ival ?k (TimerItem x)))"
    "\<And>y d. due_time e t y = Some d \<Longrightarrow> e * wrap + unat (ival ?k (TimerItem x)) \<le> d" by (rule first_timer [OF w ne, of e]) blast
  define nx where "nx = ival ?k (TimerItem x)"
  define c where "c = e * wrap + unat nx"
  define p where "p = unat (xTimerPeriodInTicks (timers t x))"
  have cn: "c \<le> n" "n < c + wrap" using x(3) [OF some(1) [folded e_def]] some(2) n by (simp_all add: c_def nx_def)
  have cv: "of_nat c = nx" using due_mod [OF x(2)] by (simp add: c_def nx_def)
  have g: "prvGetNextExpireTime t = (nx, False)" using ne x(1) by (simp add: prvGetNextExpireTime_def nx_def)
  have le: "nx \<le> of_nat n" using cn(1) n unfolding c_def by (simp add: word_le_nat_alt of_nat_unat)
  define v where "v = snd (on_tkern' xTaskResumeAll u)"
  have nr: "next_round cb t = Some (prvProcessExpiredTimer cb nx (of_nat n) v)" unfolding next_round_eq [OF g S(1)] using le by (simp add: v_def)
  have sp: "uxSchedulerSuspended (tkern u) = 1" "uxPendedTicks (tkern u) = 0" "list_is_empty PendingReadyList (tkern u)"
    using r pending_empty [of ?k] by (simp_all add: u_def daemon_ready_def vTaskSuspendAll_def list_is_empty_def)
  note R = resume_calm [OF sp]
  have v: "daemon_at n [] v" "due_time e v = due_time e t" "timers v = timers t" "called v = called t" "pxCurrentTimerList v = ?cur" "lists (tkern v) = lists ?k"
  proof -
    show "daemon_at n [] v" using S(2) by (rule daemon_at_cong) (simp_all add: v_def R)
    have "due_time e v = due_time e u" by (rule timers_wf_cong) (simp_all add: v_def R)
    then show "due_time e v = due_time e t" using S(3) by simp
    show "timers v = timers t" "called v = called t" "pxCurrentTimerList v = ?cur" by (simp_all add: v_def u_def)
    show "lists (tkern v) = lists ?k" using R by (simp add: v_def) (simp add: u_def vTaskSuspendAll_def)
  qed
  define o1 where "o1 = on_tkern (\<lambda>k. snd (list_remove (TimerItem x) k)) v"
  have o1: "daemon_at n [] o1" "due_time e o1 = (due_time e t)(x := None)" "ctn (tkern o1) (TimerItem x) = None" "timers o1 = timers t" "called o1 = called t"
    using daemon_remove [OF v(1), of x] timers_wf_remove(2,3) [where t = v and x = x] v by (simp_all add: o1_def daemon_at_def)
  define o2 where "o2 = (if is_autoreload (timers o1 x)
    then let (r, t) = prvInsertTimerInActiveList x (nx + xTimerPeriodInTicks (timers o1 x)) (of_nat n) nx o1 in if r then restart_from x nx t else t
    else upd_timer x (clear_status tmrSTATUS_IS_ACTIVE) o1)"
  have pe: "prvProcessExpiredTimer cb nx (of_nat n) v = run_callback cb x o2"
    using ne x(1) v(5,6) by (simp add: prvProcessExpiredTimer_def list_is_empty_def list_head_def o1_def [symmetric] o2_def Let_def o1(4) v(3))
  obtain i where i: "prvInsertTimerInActiveList x (nx + xTimerPeriodInTicks (timers o1 x)) (of_nat n) nx o1 = (c + p \<le> n, i)" "daemon_at n [] i"
    "due_time e i = (if c + p \<le> n then due_time e o1 else (due_time e o1)(x \<mapsto> c + p))" "timers i = timers o1" "called i = called o1"
    using daemon_insert [OF o1(1,3) cn] unfolding cv e_def p_def o1(4) by blast
  have o2: "called o2 = called t \<and> due_time e o2 = (due_time e t)(x := if is_autoreload (timers t x) \<and> n < c + p then Some (c + p) else None) \<and>
    daemon_at n (if is_autoreload (timers t x) \<and> c + p \<le> n then [start_message tmrCOMMAND_START_DONT_TRACE c x] else []) o2"
  proof (cases "is_autoreload (timers t x)")
    case True
    then have "o2 = (if c + p \<le> n then restart_from x nx i else i)" using i(1) by (simp add: o2_def o1(4))
    then show ?thesis using True i o1 restart_message [OF i(2), where v = nx and x = x] by (simp add: start_message_def cv)
  next
    case False
    then have "o2 = upd_timer x (clear_status tmrSTATUS_IS_ACTIVE) o1" by (simp add: o2_def o1(4))
    then show ?thesis using False o1 by simp
  qed
  note C = run_callback_quiet [OF q, where x = x]
  show ?thesis
    by (rule exI [of _ "run_callback cb x o2"], rule exI [of _ x], rule exI [of _ c], rule exI [of _ p])
      (use nr pe o2 C(1-3) cn x(2,3) in \<open>simp add: p_def c_def nx_def\<close>)
qed

subsection \<open>Emptying the current list\<close>

definition switch_ok :: "tsys \<Rightarrow> bool" where
  "switch_ok t \<longleftrightarrow> timers_wf t \<and> nobody_waits (xTimerQueue t) (tkern t) \<and> uxItemSize (queues (qsy t) (xTimerQueue t)) \<noteq> 0"

text \<open>A restart command changes the queue at most.\<close>

lemma restart_frame:
  assumes "nobody_waits (xTimerQueue t) (tkern t)" "uxItemSize (queues (qsy t) (xTimerQueue t)) \<noteq> 0"
  obtains s where "restart_from x v t = t\<lparr>qsy := s\<rparr>" "kern s = tkern t" "uxItemSize (queues s (xTimerQueue t)) = uxItemSize (queues (qsy t) (xTimerQueue t))"
proof -
  let ?q = "xTimerQueue t" and ?b = "message_bytes \<lparr>xMessageID = tmrCOMMAND_START_DONT_TRACE, xMessageValue = v, pxTimer = x\<rparr>"
  obtain r s where s: "xQueueGenericSend [no_gaps] ?q ?b queueSEND_TO_BACK 0 None (qsy t) = Some (r, s)" "kern s = tkern t"
    "uxItemSize (queues s ?q) = uxItemSize (queues (qsy t) ?q)"
  proof (cases "uxMessagesWaiting (queues (qsy t) ?q) < uxLength (queues (qsy t) ?q)")
    case True
    obtain q m where c: "copy_to_back ?b (queues (qsy t) ?q, qmem (qsy t)) = (q, m)" by fastforce
    then have "uxItemSize q = uxItemSize (queues (qsy t) ?q)" by (auto simp: copy_to_back_def Let_def split: if_splits)
    then show ?thesis using True assms that c
      by (simp add: xQueueGenericSend_try_def prvCopyDataToQueue_def nobody_waits_def Let_def upd_queue_def)
  next
    case False
    then show ?thesis using that by (simp add: xQueueGenericSend_try_def)
  qed
  show ?thesis
  proof (cases "?q = 0")
    case True
    then have "restart_from x v t = t\<lparr>qsy := qsy t\<rparr>" by (simp add: restart_from_def xTimerGenericCommand_def)
    then show ?thesis by (rule that) simp_all
  next
    case False
    then have "restart_from x v t = t\<lparr>qsy := s\<rparr>" using s(1)
      by (simp add: restart_from_def xTimerGenericCommand_def timer_consts Let_def)
    then show ?thesis using that s by simp
  qed
qed

definition left_over :: "tsys \<Rightarrow> nat" where
  "left_over t = (\<Sum>i\<in>set (xl_items (lists (tkern t) (pxCurrentTimerList t))). wrap - unat (ival (tkern t) i))"

definition on_current :: "tsys \<Rightarrow> nat set" where
  "on_current t = {x. TimerItem x \<in> set (xl_items (lists (tkern t) (pxCurrentTimerList t)))}"

lemma quiet_run:
  assumes "quiet cb"
  obtains k where "run_callback cb x t = on_tkern k (t\<lparr>called := called t @ [x]\<rparr>)" "lists (k (tkern t)) = lists (tkern t)"
    "ctn (k (tkern t)) = ctn (tkern t)" "ival (k (tkern t)) = ival (tkern t)" "xTickCount (k (tkern t)) = xTickCount (tkern t)"
  using assms [unfolded quiet_def, rule_format, of "pxCallbackFunction (timers t x)" x "t\<lparr>called := called t @ [x]\<rparr>"]
  by (auto simp: run_callback_def)

lemma switch_one_step:
  assumes ok: "switch_ok t" and q: "quiet cb" and ne: "\<not> list_is_empty (pxCurrentTimerList t) (tkern t)"
  defines "t' \<equiv> switch_one cb t" and "ov \<equiv> pxOverflowTimerList t"
  shows "switch_ok t' \<and> pxCurrentTimerList t' = pxCurrentTimerList t \<and> pxOverflowTimerList t' = ov \<and> xTickCount (tkern t') = xTickCount (tkern t) \<and>
    lists (tkern t') ov = lists (tkern t) ov \<and> (\<forall>y. ctn (tkern t) (TimerItem y) = Some ov \<longrightarrow> ival (tkern t') (TimerItem y) = ival (tkern t) (TimerItem y)) \<and>
    left_over t' < left_over t \<and> (\<exists>x. called t' = called t @ [x] \<and> insert x (on_current t') = on_current t)"
proof -
  let ?l = "pxCurrentTimerList t" and ?k = "tkern t"
  have w: "timers_wf t" and wf: "lists_wf ?k" using ok by (simp_all add: switch_ok_def timers_wf_def)
  obtain x where x: "list_head ?l ?k = TimerItem x" using first_timer [OF w ne] by blast
  let ?S = "set (xl_items (lists ?k ?l))"
  have xin: "TimerItem x \<in> ?S" using ne x by (auto simp: list_is_empty_def list_head_def neq_Nil_conv)
  then have cx: "ctn ?k (TimerItem x) = Some ?l" using lists_wf_ctn [OF wf] by simp
  define nx where "nx = ival ?k (TimerItem x)"
  define o1 where "o1 = on_tkern (\<lambda>k. snd (list_remove (TimerItem x) k)) t"
  have o1: "timers_wf o1" "ctn (tkern o1) = (ctn ?k)(TimerItem x := None)" "ival (tkern o1) = ival ?k"
    "lists (tkern o1) = (lists ?k)(?l := xl_remove (TimerItem x) (lists ?k ?l))" "xTickCount (tkern o1) = xTickCount ?k"
    using timers_wf_remove(1) [OF w, of x] cx by (simp_all add: o1_def list_remove_def)
  obtain f where f: "run_callback cb x o1 = on_tkern f (o1\<lparr>called := called o1 @ [x]\<rparr>)" "lists (f (tkern o1)) = lists (tkern o1)"
    "ctn (f (tkern o1)) = ctn (tkern o1)" "ival (f (tkern o1)) = ival (tkern o1)" "xTickCount (f (tkern o1)) = xTickCount (tkern o1)"
    by (rule quiet_run [OF q])
  define o2 where "o2 = run_callback cb x o1"
  have ptr: "pxCurrentTimerList o2 = ?l" "pxOverflowTimerList o2 = ov" "xTimerQueue o2 = xTimerQueue t" "called o2 = called t @ [x]"
    "queues (qsy o2) = queues (qsy t)" unfolding o2_def f(1) by (simp_all add: o1_def ov_def)
  have k2: "lists (tkern o2) = lists (tkern o1)" "ctn (tkern o2) = ctn (tkern o1)" "ival (tkern o2) = ival ?k" "xTickCount (tkern o2) = xTickCount ?k"
    unfolding o2_def f(1) using f(2-5) o1 by simp_all
  have w2: "timers_wf o2" using o1(1) timers_wf_cong(1) [of o2 o1] k2 o1(3) ptr by (simp add: o1_def ov_def)
  have S1: "set (xl_items (xl_remove (TimerItem x) (lists ?k ?l))) = ?S - {TimerItem x}" by (rule set_xl_remove [OF lists_wf_xl [OF wf]])
  have lo: "?l \<noteq> ov" using timers_wf_neq [OF w] by (simp add: ov_def)
  have nbw: "nobody_waits (xTimerQueue t) ?k" "uxItemSize (queues (qsy t) (xTimerQueue t)) \<noteq> 0" using ok by (simp_all add: switch_ok_def)
  have tl: "?l \<in> {ActiveTimerList1, ActiveTimerList2}" using w by (auto simp: timers_wf_def doubleton_eq_iff)
  have nb2: "nobody_waits (xTimerQueue o2) (tkern o2)" using nbw(1) tl by (auto simp: nobody_waits_def list_is_empty_def k2 o1(4) ptr)
  have it: "uxItemSize (queues (qsy o2) (xTimerQueue o2)) \<noteq> 0" using nbw(2) by (simp add: ptr)
  define W where "W = (\<Sum>i\<in>?S - {TimerItem x}. wrap - unat (ival ?k i))"
  have WL: "left_over t = W + (wrap - unat nx)"
    unfolding left_over_def W_def nx_def using xin by (subst sum.remove [of _ "TimerItem x"]) simp_all
  have nxw: "unat nx < wrap" using unsigned_less [of nx] by (simp add: wrap_def)
  have L2: "left_over o2 = W" "on_current o2 = on_current t - {x}"
    by (auto simp: left_over_def on_current_def W_def k2 ptr o1(4) S1)
  have oc: "x \<in> on_current t" using xin by (simp add: on_current_def)
  have t': "t' = (if is_autoreload (timers o2 x)
    then if nx < nx + xTimerPeriodInTicks (timers o2 x)
         then on_tkern (list_insert ?l (TimerItem x) \<circ> set_item_value (TimerItem x) (nx + xTimerPeriodInTicks (timers o2 x))) o2
         else restart_from x nx o2 else o2)"
    unfolding t'_def switch_one_def Let_def x by (simp add: o1_def [symmetric] o2_def [symmetric] nx_def [symmetric] ptr(1))
  define rl where "rl = nx + xTimerPeriodInTicks (timers o2 x)"
  define s where "s = on_tkern (list_insert ?l (TimerItem x) \<circ> set_item_value (TimerItem x) rl) o2"
  obtain z where z: "restart_from x nx o2 = o2\<lparr>qsy := z\<rparr>" "kern z = tkern o2" "uxItemSize (queues z (xTimerQueue o2)) = uxItemSize (queues (qsy o2) (xTimerQueue o2))"
    by (rule restart_frame [OF nb2 it])
  consider (reload) "t' = s" "nx < rl" | (other) y where "t' = o2\<lparr>qsy := y\<rparr>" "kern y = tkern o2" "uxItemSize (queues y (xTimerQueue t)) \<noteq> 0"
    using t' z it ptr(3) unfolding rl_def s_def by (cases "is_autoreload (timers o2 x)"; cases "nx < nx + xTimerPeriodInTicks (timers o2 x)"; force)
  then show ?thesis
  proof cases
    case reload
    have c2: "ctn (tkern o2) (TimerItem x) = None" by (simp add: k2 o1(2))
    have ws: "timers_wf s" unfolding s_def using timers_wf_insert(1) [OF w2 c2, of ?l rl] ptr(1) by simp
    have ks: "tkern s = list_insert ?l (TimerItem x) (set_item_value (TimerItem x) rl (tkern o2))" by (simp add: s_def)
    have "nobody_waits (xTimerQueue s) (tkern s)" using nb2 tl by (auto simp: nobody_waits_def list_is_empty_def s_def list_insert_def set_item_value_def)
    then have oks: "switch_ok s" using ws it by (simp add: switch_ok_def s_def)
    have "left_over s = W + (wrap - unat rl)"
    proof -
      have u: "(\<Sum>i\<in>?S - {TimerItem x}. wrap - unat (((ival ?k)(TimerItem x := rl)) i)) = W" unfolding W_def by (rule sum.cong) auto
      have "left_over s = (\<Sum>i\<in>insert (TimerItem x) (?S - {TimerItem x}). wrap - unat (((ival ?k)(TimerItem x := rl)) i))"
        by (simp add: left_over_def s_def list_insert_def set_item_value_def k2 o1(4) S1 ptr(1) del: insert_Diff_single)
      also have "\<dots> = W + (wrap - unat rl)" by (subst sum.insert) (simp_all only: u finite_Diff finite_set, simp_all)
      finally show ?thesis .
    qed
    moreover have "unat nx < unat rl" using reload(2) by (simp add: word_less_nat_alt)
    ultimately have "left_over s < left_over t" using WL nxw by linarith
    moreover have "insert x (on_current s) = on_current t"
      using oc by (auto simp: on_current_def s_def list_insert_def set_item_value_def k2 o1(4) S1 ptr(1))
    moreover have "lists (tkern s) ov = lists ?k ov" using lo by (simp add: s_def list_insert_def set_item_value_def k2 o1(4))
    moreover have "ival (tkern s) (TimerItem y) = ival ?k (TimerItem y)" if "ctn ?k (TimerItem y) = Some ov" for y
      using that cx lo by (auto simp: s_def list_insert_def set_item_value_def k2)
    moreover have "xTickCount (tkern s) = xTickCount ?k" by (simp add: s_def list_insert_def set_item_value_def k2)
    ultimately show ?thesis using reload(1) oks ptr by (simp add: s_def)
  next
    case other
    have ww: "timers_wf t'" using w2 timers_wf_cong(1) [of t' o2] other by simp
    have "nobody_waits (xTimerQueue t') (tkern t')" using nb2 other by simp
    then have okt: "switch_ok t'" using ww other ptr(3) by (simp add: switch_ok_def)
    have "left_over t' = left_over o2" "on_current t' = on_current o2" using other by (simp_all add: left_over_def on_current_def)
    then have "left_over t' < left_over t" "insert x (on_current t') = on_current t" using L2 WL nxw oc by auto
    then show ?thesis using okt other ptr lo by (simp add: k2 o1(4))
  qed
qed


lemma switch_loop_returns:
  assumes q: "quiet cb"
  shows "switch_ok t \<Longrightarrow> \<exists>t' cs. switch_loop cb t = Some t' \<and> switch_ok t' \<and> pxCurrentTimerList t' = pxCurrentTimerList t \<and>
    pxOverflowTimerList t' = pxOverflowTimerList t \<and> xTickCount (tkern t') = xTickCount (tkern t) \<and>
    list_is_empty (pxCurrentTimerList t) (tkern t') \<and> lists (tkern t') (pxOverflowTimerList t) = lists (tkern t) (pxOverflowTimerList t) \<and>
    (\<forall>y. ctn (tkern t) (TimerItem y) = Some (pxOverflowTimerList t) \<longrightarrow> ival (tkern t') (TimerItem y) = ival (tkern t) (TimerItem y)) \<and>
    called t' = called t @ cs \<and> set cs = on_current t"
proof (induction "left_over t" arbitrary: t rule: less_induct)
  case less
  let ?c = "pxCurrentTimerList t" and ?o = "pxOverflowTimerList t"
  show ?case
  proof (cases "list_is_empty ?c (tkern t)")
    case True
    then have "switch_loop cb t = Some t" "on_current t = {}" by (simp_all add: switch_loop.simps on_current_def list_is_empty_def)
    then show ?thesis using True less.prems by (intro exI [of _ t] exI [of _ "[]"]) simp
  next
    case False
    define t1 where "t1 = switch_one cb t"
    obtain x where S: "switch_ok t1" "pxCurrentTimerList t1 = ?c" "pxOverflowTimerList t1 = ?o" "xTickCount (tkern t1) = xTickCount (tkern t)"
      "lists (tkern t1) ?o = lists (tkern t) ?o" "\<And>y. ctn (tkern t) (TimerItem y) = Some ?o \<Longrightarrow> ival (tkern t1) (TimerItem y) = ival (tkern t) (TimerItem y)"
      "left_over t1 < left_over t" "called t1 = called t @ [x]" "insert x (on_current t1) = on_current t"
      using switch_one_step [OF less.prems q False, folded t1_def] by blast
    obtain t' cs where T: "switch_loop cb t1 = Some t'" "switch_ok t'" "pxCurrentTimerList t' = ?c" "pxOverflowTimerList t' = ?o"
      "xTickCount (tkern t') = xTickCount (tkern t1)" "list_is_empty ?c (tkern t')" "lists (tkern t') ?o = lists (tkern t1) ?o"
      "\<And>y. ctn (tkern t1) (TimerItem y) = Some ?o \<Longrightarrow> ival (tkern t') (TimerItem y) = ival (tkern t1) (TimerItem y)"
      "called t' = called t1 @ cs" "set cs = on_current t1"
      using less.hyps [OF S(7,1)] unfolding S(2,3) by blast
    have wf: "lists_wf (tkern t)" "lists_wf (tkern t1)" using less.prems S(1) by (simp_all add: switch_ok_def timers_wf_def)
    have "ctn (tkern t1) (TimerItem y) = Some ?o \<longleftrightarrow> ctn (tkern t) (TimerItem y) = Some ?o" for y
      using lists_wf_ctn [OF wf(1), of "TimerItem y" ?o] lists_wf_ctn [OF wf(2), of "TimerItem y" ?o] S(5) by simp
    then have iv: "\<forall>y. ctn (tkern t) (TimerItem y) = Some ?o \<longrightarrow> ival (tkern t') (TimerItem y) = ival (tkern t) (TimerItem y)" using T(8) S(6) by simp
    have "switch_loop cb t = Some t'" using False T(1) by (simp add: switch_loop.simps [of cb t] t1_def)
    then show ?thesis using S T iv by (intro exI [of _ t'] exI [of _ "x # cs"]) simp
  qed
qed

text \<open>The lists switched, in unbounded time: the running epoch is the one after \<open>e\<close>.\<close>

lemma switch_lists:
  assumes q: "quiet cb" and ok: "switch_ok t"
  shows "\<exists>t' cs. prvSwitchTimerLists cb t = Some t' \<and> switch_ok t' \<and> xTickCount (tkern t') = xTickCount (tkern t) \<and>
    (\<forall>x. due_time (e + 1) t' x = (case due_time e t x of Some d \<Rightarrow> if (e + 1) * wrap \<le> d then Some d else None | None \<Rightarrow> None)) \<and>
    called t' = called t @ cs \<and> set cs = {x. \<exists>d. due_time e t x = Some d \<and> d < (e + 1) * wrap}"
proof -
  let ?c = "pxCurrentTimerList t" and ?o = "pxOverflowTimerList t"
  obtain t1 cs where T: "switch_loop cb t = Some t1" "switch_ok t1" "pxCurrentTimerList t1 = ?c" "pxOverflowTimerList t1 = ?o"
    "xTickCount (tkern t1) = xTickCount (tkern t)" "list_is_empty ?c (tkern t1)" "lists (tkern t1) ?o = lists (tkern t) ?o"
    "\<And>y. ctn (tkern t) (TimerItem y) = Some ?o \<Longrightarrow> ival (tkern t1) (TimerItem y) = ival (tkern t) (TimerItem y)"
    "called t1 = called t @ cs" "set cs = on_current t"
    using switch_loop_returns [OF q ok] by blast
  define t' where "t' = t1\<lparr>pxCurrentTimerList := ?o, pxOverflowTimerList := ?c\<rparr>"
  have r: "prvSwitchTimerLists cb t = Some t'" using T by (simp add: prvSwitchTimerLists_def t'_def)
  have wf: "lists_wf (tkern t)" "lists_wf (tkern t1)" and w: "timers_wf t" "timers_wf t1" using ok T(2) by (simp_all add: switch_ok_def timers_wf_def)
  have neq: "?c \<noteq> ?o" by (rule timers_wf_neq [OF w(1)])
  have "{?o, ?c} = {?c, ?o}" by blast
  then have okt: "switch_ok t'" using T(2) by (simp add: switch_ok_def timers_wf_def t'_def T(3,4))
  have c1: "ctn (tkern t1) (TimerItem y) = Some ?o \<longleftrightarrow> ctn (tkern t) (TimerItem y) = Some ?o" for y
    using lists_wf_ctn [OF wf(1), of "TimerItem y" ?o] lists_wf_ctn [OF wf(2), of "TimerItem y" ?o] T(7) by simp
  have c2: "ctn (tkern t1) (TimerItem y) \<noteq> Some ?c" for y using list_is_empty_iff [OF wf(2)] T(6) by blast
  have b: "e * wrap + unat v < (e + 1) * wrap" for v :: tick using unsigned_less [of v] by (simp add: wrap_def)
  have due: "due_time (e + 1) t' x = (case due_time e t x of Some d \<Rightarrow> if (e + 1) * wrap \<le> d then Some d else None | None \<Rightarrow> None)" for x
  proof -
    have l: "due_time (e + 1) t' x = (if ctn (tkern t) (TimerItem x) = Some ?o then Some ((e + 1) * wrap + unat (ival (tkern t) (TimerItem x))) else None)"
      using c1 [of x] c2 [of x] T(8) [of x] by (auto simp: due_time_def t'_def)
    show ?thesis unfolding l using neq b [of "ival (tkern t) (TimerItem x)"] by (auto simp: due_time_def not_le)
  qed
  have "x \<in> on_current t \<longleftrightarrow> (\<exists>d. due_time e t x = Some d \<and> d < (e + 1) * wrap)" for x
    using neq b [of "ival (tkern t) (TimerItem x)"] lists_wf_ctn [OF wf(1), of "TimerItem x" ?c] by (auto simp: on_current_def due_time_def)
  then have "set cs = {x. \<exists>d. due_time e t x = Some d \<and> d < (e + 1) * wrap}" using T(10) by auto
  then show ?thesis using r okt due T(5,9) by (intro exI [of _ t'] exI [of _ cs]) (simp add: t'_def)
qed

subsection \<open>A timer that has expired before its command is read\<close>

lemma late_one_shot:
  assumes d: "daemon_at n [start_message i c x] t" and q: "quiet cb" and x: "x < 2 ^ 32" and i: "start_command i"
    and c: "n < c + wrap" "c + unat (xTimerPeriodInTicks (timers t x)) \<le> n" and a: "\<not> is_autoreload (timers t x)"
  shows "\<exists>t'. prvProcessReceivedCommands cb [id, id] t = Some t' \<and> called t' = called t @ [x] \<and> due_time (n div wrap) t' x = None \<and>
    timers t' x = set_status tmrSTATUS_IS_ACTIVE (timers t x)"
proof -
  let ?m = "\<lparr>xMessageID = i, xMessageValue = of_nat c, pxTimer = x\<rparr>"
  have cn: "c \<le> n" using c(2) by simp
  obtain u where u: "prvProcessReceivedCommands cb (id # [id]) t = Option.bind (process_message cb ?m u) (prvProcessReceivedCommands cb [id])"
    "daemon_at n [] u" "timers u = timers t" "called u = called t" "\<And>e. due_time e u = due_time e t"
    using receive_step [OF d [unfolded start_message_def], of cb "[id]"] x by auto
  from process_start [OF u(2) q, of ?m c x] cn c i a
  obtain t' where t': "process_message cb ?m u = Some t'" "timers t' x = set_status tmrSTATUS_IS_ACTIVE (timers t x)"
    "daemon_at n [] t'" "called t' = called t @ [x]" "due_time (n div wrap) t' x = None"
    by (auto simp: u)
  show ?thesis by (rule exI [of _ t']) (use u(1) t' receive_done [OF t'(3), of cb "[]"] in simp)
qed

end
