(* ===== verification/TimerProperties.thy ===== *)
theory TimerProperties
  imports TimerTask QueueProperties
begin

text \<open>
  What the timers give the application. A concrete state serves the witnesses: two ticks before the wrap
  of the tick counter, with one timer.
\<close>

lemma kinv_timer_insert:
  assumes k: "kinv k" and c: "ctn k (TimerItem x) = None" and l: "l \<in> {ActiveTimerList1, ActiveTimerList2}"
  shows "kinv (list_insert l (TimerItem x) (set_item_value (TimerItem x) v k))"
proof -
  define k' where "k' = list_insert l (TimerItem x) (set_item_value (TimerItem x) v k)"
  note K = kinvD [OF kinv_kinvp [OF k]]
  have F: "ctn k' = (ctn k)(TimerItem x \<mapsto> l)" "tcb k' = tcb k" "uxTopReadyPriority k' = uxTopReadyPriority k" "uxSchedulerSuspended k' = uxSchedulerSuspended k"
    "pxDelayedTaskList k' = pxDelayedTaskList k" "pxOverflowDelayedTaskList k' = pxOverflowDelayedTaskList k" "xTickCount k' = xTickCount k"
    "xNextTaskUnblockTime k' = xNextTaskUnblockTime k" "ival k' = (ival k)(TimerItem x := v)" "kfault k' = kfault k"
    "\<And>m. m \<noteq> l \<Longrightarrow> lists k' m = lists k m"
    by (simp_all add: k'_def) (simp_all add: list_insert_def set_item_value_def)
  have "lists_wf (set_item_value (TimerItem x) v k)" using K(1) by (simp add: lists_wf_def set_item_value_def)
  then have "lists_wf k'" unfolding k'_def using c by (intro lists_wf_insert) (simp_all add: set_item_value_def)
  moreover have "fits k'" using K(2) F(1) by (rule fits_upd) (use l in auto)
  moreover have "delay_lists k'" using K(3) by (simp add: delay_lists_def F)
  moreover have "sorted_delays k'"
  proof -
    have "map (ival k') (xl_items (lists k' m)) = map (ival k) (xl_items (lists k m))" if "m \<in> {DelayedTaskList1, DelayedTaskList2}" for m
    proof -
      have "m \<noteq> l" "TimerItem x \<notin> set (xl_items (lists k m))" using that l c lists_wf_ctn [OF K(1), of "TimerItem x" m] by auto
      then show ?thesis by (auto simp: F map_eq_conv)
    qed
    then show ?thesis using K(4) unfolding sorted_delays_def by metis
  qed
  moreover have "delay_values (\<lambda>v. xTickCount k' < v) k'" unfolding F(7)
    by (rule delay_values_upd [OF K(5) F(1)]) (use l K(3) in \<open>auto simp: F delay_lists_def\<close>)
  moreover have "prios_ok k'" using K(6) by (simp add: prios_ok_def F)
  moreover have "ready_ok k'" using K(7) by (simp add: ready_ok_def F)
  moreover have "waits_ok k'" using K(8) by (simp add: waits_ok_def F)
  moreover have "pend_ok k'" by (rule pend_ok_upd [OF _ F(1,4)]) (use k l in \<open>auto simp: kinv_def\<close>)
  ultimately show ?thesis using K(9) unfolding k'_def [symmetric] by (simp add: kinv_def kinvp_def F)
qed


subsection \<open>A concrete state\<close>

text \<open>Tick 4294967294, two before the wrap; timer 5000 has a period of seven ticks, its command queue is empty.\<close>

definition demo_timers :: tsys where
  "demo_timers = \<lparr>qsy = demo_qsys\<lparr>queues := (\<lambda>_. \<lparr>pcHead = 6000, pcWriteTo = 6000, pcTail = 6120, pcReadFrom = 6108, uxMessagesWaiting = 0,
       uxLength = 10, uxItemSize = 12, cRxLock = - 1, cTxLock = - 1\<rparr>)\<rparr>,
     timers = (\<lambda>_. \<lparr>pcTimerName = ''t'', xTimerPeriodInTicks = 7, pvTimerID = 0, pxCallbackFunction = 0, ucStatus = 4\<rparr>),
     pxCurrentTimerList = ActiveTimerList1, pxOverflowTimerList = ActiveTimerList2, xTimerQueue = 8, xTimerTaskHandle = 2000,
     xLastTime = 0xFFFFFFF0, called = []\<rparr>"

definition demo_now :: nat where "demo_now = 4294967294"

text \<open>A callback that asks for a context switch.\<close>

definition demo_callback :: callbacks where
  "demo_callback f x t = on_tkern portYIELD t"

lemma quiet_demo: "quiet demo_callback"
  unfolding quiet_def demo_callback_def by (intro allI exI [of _ portYIELD]) (simp add: portYIELD_def)

lemma demo_daemon: "daemon_at demo_now [] demo_timers"
proof -
  have "queue_ok 8 (qsy demo_timers)" "queue_items 8 (qsy demo_timers) = []"
    unfolding queue_ok_def queue_items_def by (rule ring_fresh [of 10 12]; simp add: demo_timers_def)+
  then have q: "queue_at 8 [] (qsy demo_timers)"
    by (simp add: queue_at_def sizeof_DaemonTaskMessage_def nobody_waits_def list_is_empty_def demo_timers_def xl_empty_def)
  have "timers_wf demo_timers" using kinvD(1) [OF kinv_kinvp [OF demo_kinv]]
    by (simp add: timers_wf_def timer_list_def demo_timers_def xl_empty_def)
  then show ?thesis using q by (simp add: daemon_at_def demo_now_def) (simp add: demo_timers_def)
qed

text \<open>The same with the timer on a list.\<close>

definition demo_running :: "lid \<Rightarrow> tick \<Rightarrow> tsys" where
  "demo_running l v = on_tkern (list_insert l (TimerItem 5000) \<circ> set_item_value (TimerItem 5000) v) demo_timers"

lemma demo_running:
  assumes "l \<in> {ActiveTimerList1, ActiveTimerList2}"
  shows "daemon_at demo_now [] (demo_running l v)" "kinv (tkern (demo_running l v))"
    "due_time 0 (demo_running l v) = [5000 \<mapsto> (if l = ActiveTimerList1 then 0 else wrap) + unat v]"
proof -
  have c: "ctn (tkern demo_timers) (TimerItem 5000) = None" and l: "l \<in> {pxCurrentTimerList demo_timers, pxOverflowTimerList demo_timers}"
    using assms by (simp_all add: demo_timers_def)
  have w: "timers_wf demo_timers" using demo_daemon by (simp add: daemon_at_def)
  note I = timers_wf_insert [OF w c l, where v = v]
  have "nobody_waits 8 (tkern (demo_running l v))" using assms
    by (auto simp: demo_running_def nobody_waits_def list_is_empty_def list_insert_def set_item_value_def demo_timers_def xl_empty_def)
  then have q: "queue_at 8 [] ((qsy demo_timers)\<lparr>kern := tkern (demo_running l v)\<rparr>)"
    using demo_daemon by (intro queue_at_kern) (simp_all add: daemon_at_def demo_timers_def)
  have f: "qsy (demo_running l v) = (qsy demo_timers)\<lparr>kern := tkern (demo_running l v)\<rparr>" by (simp add: demo_running_def on_tkern_def on_kern_def)
  have g: "xTimerQueue (demo_running l v) = 8" "xLastTime (demo_running l v) = xLastTime demo_timers" "xTickCount (tkern (demo_running l v)) = xTickCount (tkern demo_timers)"
    by (simp_all add: demo_running_def) (simp_all add: demo_timers_def list_insert_def set_item_value_def)
  have "queue_at 8 [] (qsy (demo_running l v))" by (subst f) (rule q)
  then show "daemon_at demo_now [] (demo_running l v)" using demo_daemon I(1) g by (simp add: daemon_at_def) (simp add: demo_running_def)
  have "kinv (tkern demo_timers)" by (simp add: demo_timers_def demo_kinv)
  from kinv_timer_insert [OF this c assms, of v] show "kinv (tkern (demo_running l v))" by (simp add: demo_running_def)
  have "due_time 0 demo_timers = Map.empty" by (simp add: due_time_def fun_eq_iff) (simp add: demo_timers_def)
  then show "due_time 0 (demo_running l v) = [5000 \<mapsto> (if l = ActiveTimerList1 then 0 else wrap) + unat v]"
    using I(2) [where e = 0] by (simp add: demo_running_def) (simp add: demo_timers_def)
qed

lemma demo_daemon_ready: "l \<in> {ActiveTimerList1, ActiveTimerList2} \<Longrightarrow> (l = ActiveTimerList2 \<Longrightarrow> unat v < 4294967294) \<Longrightarrow> daemon_ready demo_now (demo_running l v)"
proof -
  assume l: "l \<in> {ActiveTimerList1, ActiveTimerList2}" and v: "l = ActiveTimerList2 \<Longrightarrow> unat v < 4294967294"
  note D = demo_running [OF l, of v]
  have u: "unat v < wrap" using unsigned_less [of v] by (simp add: wrap_def)
  have z: "demo_now div wrap = 0" by (simp add: demo_now_def wrap_def)
  have m: "may_block (tkern (demo_running l v))"
    using l by (auto simp: demo_running_def may_block_def cur_ready_def list_insert_def set_item_value_def demo_timers_def demo_kernel_def)
  show ?thesis using D m u v l unfolding daemon_ready_def z
    by (auto simp: demo_running_def list_insert_def set_item_value_def demo_now_def demo_timers_def queueUNLOCKED_def split: if_splits)
qed


lemma set_active: "ucStatus (set_status tmrSTATUS_IS_ACTIVE tm) AND tmrSTATUS_IS_ACTIVE \<noteq> 0"
  by (simp add: set_status_def tmrSTATUS_IS_ACTIVE_def bit.conj_disj_distrib2)

text \<open>C16: The timer task never sleeps past a timer and serves timers in the order they are due, in time that
  does not wrap. When a timer is due, one round calls the callback of the timer that is due first and of
  no other; if it reloads it is due one period after it was due, however late the round is, and if that
  time has passed as well a start command from the time it was due is in the queue. When no timer is
  due, no callback is called and the task sleeps at least one tick and not past the earliest due time, on
  its command queue, so that a command wakes it.\<close>

theorem timer_task_serves_first:
  assumes "daemon_ready n t" "quiet cb"
  defines "e \<equiv> n div wrap"
  shows "\<exists>t'. next_round cb t = Some t' \<and>
    (if \<exists>x d. due_time e t x = Some d \<and> d \<le> n
     then \<exists>x d p. p = unat (xTimerPeriodInTicks (timers t x)) \<and> due_time e t x = Some d \<and> (\<forall>y d'. due_time e t y = Some d' \<longrightarrow> d \<le> d') \<and>
       called t' = called t @ [x] \<and> due_time e t' = (due_time e t)(x := if is_autoreload (timers t x) \<and> n < d + p then Some (d + p) else None) \<and>
       queue_items (xTimerQueue t') (qsy t') = (if is_autoreload (timers t x) \<and> d + p \<le> n then [start_message tmrCOMMAND_START_DONT_TRACE d x] else [])
     else called t' = called t \<and> due_time e t' = due_time e t \<and>
       (\<exists>w. ticks_left (tkern t') (pxCurrentTCB (tkern t)) = Some w \<and> 0 < w \<and> (\<forall>x d. due_time e t x = Some d \<longrightarrow> n + w \<le> d)) \<and>
       ctn (tkern t') (EventItem (pxCurrentTCB (tkern t))) = Some (TasksWaitingToReceive (xTimerQueue t)))"
proof (cases "\<exists>x d. due_time e t x = Some d \<and> d \<le> n")
  case True
  then obtain x0 d0 where s: "due_time (n div wrap) t x0 = Some d0" "d0 \<le> n" by (auto simp: e_def)
  obtain t' x d p where R: "next_round cb t = Some t'" "p = unat (xTimerPeriodInTicks (timers t x))" "due_time e t x = Some d" "\<forall>y d'. due_time e t y = Some d' \<longrightarrow> d \<le> d'"
    "called t' = called t @ [x]" "due_time e t' = (due_time e t)(x := if is_autoreload (timers t x) \<and> n < d + p then Some (d + p) else None)"
    "daemon_at n (if is_autoreload (timers t x) \<and> d + p \<le> n then [start_message tmrCOMMAND_START_DONT_TRACE d x] else []) t'"
    using round_expires [OF assms(1,2) s] unfolding e_def by blast
  have "queue_items (xTimerQueue t') (qsy t') = (if is_autoreload (timers t x) \<and> d + p \<le> n then [start_message tmrCOMMAND_START_DONT_TRACE d x] else [])"
    using R(7) by (simp add: daemon_at_def queue_at_def)
  then show ?thesis unfolding if_P [OF True] using R(1-6) by blast
next
  case False
  then have l: "\<And>x d. due_time (n div wrap) t x = Some d \<Longrightarrow> n < d" by (auto simp: e_def not_le)
  have "\<exists>t' w. next_round cb t = Some t' \<and> called t' = called t \<and> due_time e t' = due_time e t \<and> kinv (tkern t') \<and>
    ticks_left (tkern t') (pxCurrentTCB (tkern t)) = Some w \<and> 0 < w \<and> (\<forall>x d. due_time e t x = Some d \<longrightarrow> n + w \<le> d) \<and>
    ctn (tkern t') (EventItem (pxCurrentTCB (tkern t))) = Some (TasksWaitingToReceive (xTimerQueue t))"
    unfolding e_def by (rule round_sleeps [OF assms(1)]) (rule l)
  then show ?thesis unfolding if_not_P [OF False] by blast
qed

theorem timer_task_serves_first_witness:
  "\<exists>t' w. next_round demo_callback (demo_running ActiveTimerList2 3) = Some t' \<and> called t' = [] \<and> ticks_left (tkern t') 2000 = Some w \<and> 0 < w \<and> w \<le> 5"
proof -
  have z: "demo_now div wrap = 0" by (simp add: demo_now_def wrap_def)
  have d: "due_time 0 (demo_running ActiveTimerList2 3) = [5000 \<mapsto> 4294967299]" using demo_running(3) [of ActiveTimerList2 3] by (simp add: wrap_def)
  have n: "\<not> (\<exists>x d. due_time 0 (demo_running ActiveTimerList2 3) x = Some d \<and> d \<le> demo_now)" unfolding d by (simp add: demo_now_def)
  have r: "daemon_ready demo_now (demo_running ActiveTimerList2 3)" by (rule demo_daemon_ready) simp_all
  have f: "pxCurrentTCB (tkern (demo_running ActiveTimerList2 3)) = 2000" "called (demo_running ActiveTimerList2 3) = []"
    by (simp_all add: demo_running_def demo_timers_def set_item_value_def)
  obtain t' w where t': "next_round demo_callback (demo_running ActiveTimerList2 3) = Some t'" "called t' = []" "ticks_left (tkern t') 2000 = Some w" "0 < w"
    and w: "\<forall>x d. due_time 0 (demo_running ActiveTimerList2 3) x = Some d \<longrightarrow> demo_now + w \<le> d"
    using timer_task_serves_first [OF r quiet_demo] unfolding z if_not_P [OF n] f by blast
  have "demo_now + w \<le> 4294967299" using w d by simp
  then have "w \<le> 5" by (simp add: demo_now_def)
  with t' show ?thesis by blast
qed

text \<open>C17: Auto-reload timers do not drift. When a start command given at time \<open>c\<close> is read at time \<open>n\<close>, the timer
  task calls the callback once for every period that has passed since, each period counted from the
  one before and not from the time of the call, and leaves the timer due at the first multiple of the
  period after \<open>n\<close>; the loop over the commands ends, and no other timer is touched. The 32-bit times may
  wrap in between.\<close>

theorem timer_catches_up:
  assumes "daemon_at n [start_message i c x] t" "start_command i" "quiet cb" "x < 2 ^ 32" "c \<le> n" "n < c + wrap"
    "is_autoreload (timers t x)" "p = unat (xTimerPeriodInTicks (timers t x))" "0 < p" "m = (n - c) div p"
  shows "\<exists>t'. prvProcessReceivedCommands cb (replicate (m + 2) id) t = Some t' \<and> called t' = called t @ replicate m x \<and>
    due_time (n div wrap) t' = (due_time (n div wrap) t)(x \<mapsto> c + (m + 1) * p) \<and> xTimerIsTimerActive x t'"
proof -
  obtain t' where t': "prvProcessReceivedCommands cb (replicate (m + 2) id) t = Some t'" "called t' = called t @ replicate m x"
    "due_time (n div wrap) t' = (due_time (n div wrap) t)(x \<mapsto> c + (m + 1) * p)" "timers t' = (timers t)(x := set_status tmrSTATUS_IS_ACTIVE (timers t x))"
    using catch_up [OF assms(3,4,9,1,2,5-7) assms(8) [symmetric] assms(10) [symmetric]] by blast
  have "xTimerIsTimerActive x t'" by (simp add: xTimerIsTimerActive_def t'(4) set_active)
  then show ?thesis using t' by blast
qed


text \<open>A start command given fourteen ticks ago, with a period of seven.\<close>

definition demo_started :: tsys where
  "demo_started = restart_from 5000 4294967280 demo_timers"

theorem timer_catches_up_witness:
  "\<exists>t'. prvProcessReceivedCommands demo_callback (replicate 4 id) demo_started = Some t' \<and>
     called t' = [5000, 5000] \<and> due_time 0 t' 5000 = Some 4294967301 \<and> xTimerIsTimerActive 5000 t'"
proof -
  let ?t = demo_started
  note R = restart_message [OF demo_daemon, where x = 5000 and v = 4294967280, folded demo_started_def]
  have d: "daemon_at demo_now [start_message tmrCOMMAND_START_DONT_TRACE 4294967280 5000] ?t" using R(1) by (simp add: start_message_def)
  have s: "start_command tmrCOMMAND_START_DONT_TRACE" by (simp add: start_command_def)
  have a: "is_autoreload (timers ?t 5000)" "xTimerPeriodInTicks (timers ?t 5000) = 7" "called ?t = []" unfolding R(3,4)
    by (simp_all add: demo_timers_def is_autoreload_def tmrSTATUS_IS_AUTORELOAD_def)
  have z: "demo_now div wrap = 0" "(4294967280 :: nat) \<le> demo_now" "demo_now < 4294967280 + wrap" "(2 :: nat) = (demo_now - 4294967280) div 7"
    by (simp_all add: demo_now_def wrap_def)
  have p: "(7 :: nat) = unat (xTimerPeriodInTicks (timers ?t 5000))" by (simp add: a(2))
  have "\<exists>t'. prvProcessReceivedCommands demo_callback (replicate (2 + 2) id) ?t = Some t' \<and> called t' = called ?t @ replicate 2 5000 \<and>
    due_time (demo_now div wrap) t' = (due_time (demo_now div wrap) ?t)(5000 \<mapsto> 4294967280 + (2 + 1) * 7) \<and> xTimerIsTimerActive 5000 t'"
    by (rule timer_catches_up [OF d s quiet_demo _ z(2,3) a(1) p _ z(4)]) simp_all
  then obtain t' where t': "prvProcessReceivedCommands demo_callback (replicate (2 + 2) id) ?t = Some t'" "called t' = called ?t @ replicate 2 5000"
    "due_time (demo_now div wrap) t' = (due_time (demo_now div wrap) ?t)(5000 \<mapsto> 4294967280 + (2 + 1) * 7)" "xTimerIsTimerActive 5000 t'" by blast
  have e: "(2 :: nat) + 2 = 4" "replicate 2 (5000 :: nat) = [5000, 5000]" by (simp_all add: numeral_2_eq_2)
  have "due_time 0 t' 5000 = Some 4294967301" using t'(3) z(1) by simp
  then show ?thesis using t'(1,2,4) a(3) unfolding e by (intro exI [of _ t']) simp
qed

text \<open>When the tick counter has wrapped, emptying the current list ends, whatever the periods are, as long as
  the callbacks leave the timers alone: the callback of every timer that was due before the wrap, and of
  no other, is called at least once, and the timers due after the wrap stay due when they were, now
  counted in the running epoch.\<close>

theorem prvSwitchTimerLists_ends:
  assumes "switch_ok t" "quiet cb"
  shows "\<exists>t' cs. prvSwitchTimerLists cb t = Some t' \<and> switch_ok t' \<and> called t' = called t @ cs \<and>
    set cs = {x. \<exists>d. due_time e t x = Some d \<and> d < (e + 1) * wrap} \<and>
    (\<forall>x. due_time (e + 1) t' x = (case due_time e t x of Some d \<Rightarrow> if (e + 1) * wrap \<le> d then Some d else None | None \<Rightarrow> None))"
  using switch_lists [OF assms(2,1), of e] by blast

theorem prvSwitchTimerLists_ends_witness:
  "\<exists>t' cs. prvSwitchTimerLists demo_callback (demo_running ActiveTimerList1 0xFFFFFFFF) = Some t' \<and> called t' = cs \<and> set cs = {5000}"
proof -
  have d: "daemon_at demo_now [] (demo_running ActiveTimerList1 0xFFFFFFFF)" by (rule demo_running(1)) simp
  have "due_time 0 (demo_running ActiveTimerList1 0xFFFFFFFF) = [5000 \<mapsto> 4294967295]" using demo_running(3) [of ActiveTimerList1 "0xFFFFFFFF"] by simp
  then have u: "{x. \<exists>d. due_time 0 (demo_running ActiveTimerList1 0xFFFFFFFF) x = Some d \<and> d < (0 + 1) * wrap} = {5000}" by (simp add: wrap_def)
  have s: "switch_ok (demo_running ActiveTimerList1 0xFFFFFFFF)"
    using d by (simp add: switch_ok_def daemon_at_def queue_at_def sizeof_DaemonTaskMessage_def)
  have c: "called (demo_running ActiveTimerList1 0xFFFFFFFF) = []" by (simp add: demo_running_def demo_timers_def)
  show ?thesis using prvSwitchTimerLists_ends [OF s quiet_demo, of 0] unfolding u c by auto
qed

text \<open>A one-shot timer whose start command is read only after it has expired is called and is on no list, but it
  stays marked active, although an expired one-shot timer is documented to be dormant.\<close>

theorem late_one_shot_stays_active:
  assumes "daemon_at n [start_message i c x] t" "start_command i" "quiet cb" "x < 2 ^ 32" "n < c + wrap"
    "c + unat (xTimerPeriodInTicks (timers t x)) \<le> n" "\<not> is_autoreload (timers t x)"
  shows "\<exists>t'. prvProcessReceivedCommands cb [id, id] t = Some t' \<and> called t' = called t @ [x] \<and> due_time (n div wrap) t' x = None \<and> xTimerIsTimerActive x t'"
proof -
  obtain t' where t': "prvProcessReceivedCommands cb [id, id] t = Some t'" "called t' = called t @ [x]" "due_time (n div wrap) t' x = None"
    "timers t' x = set_status tmrSTATUS_IS_ACTIVE (timers t x)" using late_one_shot [OF assms(1,3,4,2,5-7)] by blast
  have "xTimerIsTimerActive x t'" by (simp add: xTimerIsTimerActive_def t'(4) set_active)
  then show ?thesis using t' by blast
qed

definition demo_one_shot :: tsys where
  "demo_one_shot = restart_from 5000 4294967280 (upd_timer 5000 (\<lambda>tm. tm\<lparr>ucStatus := 0\<rparr>) demo_timers)"

theorem late_one_shot_stays_active_witness:
  "\<exists>t'. prvProcessReceivedCommands demo_callback [id, id] demo_one_shot = Some t' \<and> called t' = [5000] \<and> due_time 0 t' 5000 = None \<and> xTimerIsTimerActive 5000 t'"
proof -
  have b: "daemon_at demo_now [] (upd_timer 5000 (\<lambda>tm. tm\<lparr>ucStatus := 0\<rparr>) demo_timers)" using demo_daemon by simp
  note R = restart_message [OF b, where x = 5000 and v = 4294967280, folded demo_one_shot_def]
  have d: "daemon_at demo_now [start_message tmrCOMMAND_START_DONT_TRACE 4294967280 5000] demo_one_shot" using R(1) by (simp add: start_message_def)
  have s: "start_command tmrCOMMAND_START_DONT_TRACE" by (simp add: start_command_def)
  have a: "\<not> is_autoreload (timers demo_one_shot 5000)" "xTimerPeriodInTicks (timers demo_one_shot 5000) = 7" "called demo_one_shot = []" unfolding R(3,4)
    by (simp_all add: demo_timers_def is_autoreload_def)
  have z: "demo_now div wrap = 0" "demo_now < 4294967280 + wrap" "4294967280 + unat (xTimerPeriodInTicks (timers demo_one_shot 5000)) \<le> demo_now"
    by (simp_all add: demo_now_def wrap_def a(2))
  show ?thesis using late_one_shot_stays_active [OF d s quiet_demo _ z(2,3) a(1)] unfolding z(1) a(3) by simp
qed

end
