(* ===== verification/Lan8742.thy ===== *)
theory Lan8742
  imports Firmware_Prelude "HOL-Library.Monad_Syntax"
begin

text \<open>
  The driver of the Ethernet PHY, \<open>lib/LAN8742/lan8742.c\<close>, and its two callers in
  \<open>src/EthernetIF.cpp\<close>. The MDIO accesses are function pointers the driver is given: they are
  fields of \<open>lan8742_IOCtx\<close>, functions on a bus state of any type, and \<open>None\<close> is a null pointer.
  An operation returns its status and the new bus; the result \<open>None\<close> is a call through a null
  pointer.
\<close>

subsection \<open>Registers, status codes and the device object\<close>

definition LAN8742_MAX_DEV_ADDR :: u32 where "LAN8742_MAX_DEV_ADDR = 31"

definition LAN8742_BCR :: u32 where "LAN8742_BCR = 0x0000"
definition LAN8742_BSR :: u32 where "LAN8742_BSR = 0x0001"
definition LAN8742_SMR :: u32 where "LAN8742_SMR = 0x0012"
definition LAN8742_ISFR :: u32 where "LAN8742_ISFR = 0x001D"
definition LAN8742_IMR :: u32 where "LAN8742_IMR = 0x001E"
definition LAN8742_PHYSCSR :: u32 where "LAN8742_PHYSCSR = 0x001F"

definition LAN8742_BCR_LOOPBACK :: u32 where "LAN8742_BCR_LOOPBACK = 0x4000"
definition LAN8742_BCR_SPEED_SELECT :: u32 where "LAN8742_BCR_SPEED_SELECT = 0x2000"
definition LAN8742_BCR_AUTONEGO_EN :: u32 where "LAN8742_BCR_AUTONEGO_EN = 0x1000"
definition LAN8742_BCR_POWER_DOWN :: u32 where "LAN8742_BCR_POWER_DOWN = 0x0800"
definition LAN8742_BCR_DUPLEX_MODE :: u32 where "LAN8742_BCR_DUPLEX_MODE = 0x0100"
definition LAN8742_BSR_LINK_STATUS :: u32 where "LAN8742_BSR_LINK_STATUS = 0x0004"
definition LAN8742_SMR_PHY_ADDR :: u32 where "LAN8742_SMR_PHY_ADDR = 0x001F"
definition LAN8742_PHYSCSR_AUTONEGO_DONE :: u32 where "LAN8742_PHYSCSR_AUTONEGO_DONE = 0x1000"
definition LAN8742_PHYSCSR_HCDSPEEDMASK :: u32 where "LAN8742_PHYSCSR_HCDSPEEDMASK = 0x001C"
definition LAN8742_PHYSCSR_10BT_FD :: u32 where "LAN8742_PHYSCSR_10BT_FD = 0x0014"
definition LAN8742_PHYSCSR_100BTX_HD :: u32 where "LAN8742_PHYSCSR_100BTX_HD = 0x0008"
definition LAN8742_PHYSCSR_100BTX_FD :: u32 where "LAN8742_PHYSCSR_100BTX_FD = 0x0018"

definition LAN8742_STATUS_READ_ERROR :: int where "LAN8742_STATUS_READ_ERROR = - 5"
definition LAN8742_STATUS_WRITE_ERROR :: int where "LAN8742_STATUS_WRITE_ERROR = - 4"
definition LAN8742_STATUS_ADDRESS_ERROR :: int where "LAN8742_STATUS_ADDRESS_ERROR = - 3"
definition LAN8742_STATUS_ERROR :: int where "LAN8742_STATUS_ERROR = - 1"
definition LAN8742_STATUS_OK :: int where "LAN8742_STATUS_OK = 0"
definition LAN8742_STATUS_LINK_DOWN :: int where "LAN8742_STATUS_LINK_DOWN = 1"
definition LAN8742_STATUS_100MBITS_FULLDUPLEX :: int where "LAN8742_STATUS_100MBITS_FULLDUPLEX = 2"
definition LAN8742_STATUS_100MBITS_HALFDUPLEX :: int where "LAN8742_STATUS_100MBITS_HALFDUPLEX = 3"
definition LAN8742_STATUS_10MBITS_FULLDUPLEX :: int where "LAN8742_STATUS_10MBITS_FULLDUPLEX = 4"
definition LAN8742_STATUS_10MBITS_HALFDUPLEX :: int where "LAN8742_STATUS_10MBITS_HALFDUPLEX = 5"
definition LAN8742_STATUS_AUTONEGO_NOTDONE :: int where "LAN8742_STATUS_AUTONEGO_NOTDONE = 6"

lemmas lan_regs =
  LAN8742_BCR_def LAN8742_BSR_def LAN8742_SMR_def LAN8742_ISFR_def LAN8742_IMR_def LAN8742_PHYSCSR_def

lemmas lan_bits =
  LAN8742_BCR_LOOPBACK_def LAN8742_BCR_SPEED_SELECT_def LAN8742_BCR_AUTONEGO_EN_def LAN8742_BCR_POWER_DOWN_def
  LAN8742_BCR_DUPLEX_MODE_def LAN8742_BSR_LINK_STATUS_def LAN8742_SMR_PHY_ADDR_def
  LAN8742_PHYSCSR_AUTONEGO_DONE_def LAN8742_PHYSCSR_HCDSPEEDMASK_def LAN8742_PHYSCSR_10BT_FD_def
  LAN8742_PHYSCSR_100BTX_HD_def LAN8742_PHYSCSR_100BTX_FD_def

lemmas lan_status =
  LAN8742_STATUS_READ_ERROR_def LAN8742_STATUS_WRITE_ERROR_def LAN8742_STATUS_ADDRESS_ERROR_def
  LAN8742_STATUS_ERROR_def LAN8742_STATUS_OK_def LAN8742_STATUS_LINK_DOWN_def
  LAN8742_STATUS_100MBITS_FULLDUPLEX_def LAN8742_STATUS_100MBITS_HALFDUPLEX_def
  LAN8742_STATUS_10MBITS_FULLDUPLEX_def LAN8742_STATUS_10MBITS_HALFDUPLEX_def LAN8742_STATUS_AUTONEGO_NOTDONE_def

text \<open>\<open>ReadReg\<close> gets the caller's variable and returns what is in it after the call.\<close>

record 'b lan8742_IOCtx =
  io_Init :: "('b \<Rightarrow> int \<times> 'b) option"
  io_DeInit :: "('b \<Rightarrow> int \<times> 'b) option"
  io_WriteReg :: "(u32 \<Rightarrow> u32 \<Rightarrow> u32 \<Rightarrow> 'b \<Rightarrow> int \<times> 'b) option"
  io_ReadReg :: "(u32 \<Rightarrow> u32 \<Rightarrow> u32 \<Rightarrow> 'b \<Rightarrow> int \<times> u32 \<times> 'b) option"
  io_GetTick :: "('b \<Rightarrow> int \<times> 'b) option"

record 'b lan8742_Object =
  DevAddr :: u32
  Is_Initialized :: u32
  IO :: "'b lan8742_IOCtx"

definition ReadReg :: "'b lan8742_Object \<Rightarrow> u32 \<Rightarrow> u32 \<Rightarrow> u32 \<Rightarrow> 'b \<Rightarrow> (int \<times> u32 \<times> 'b) option" where
  "ReadReg pObj addr reg val b = map_option (\<lambda>f. f addr reg val b) (io_ReadReg (IO pObj))"

definition WriteReg :: "'b lan8742_Object \<Rightarrow> u32 \<Rightarrow> u32 \<Rightarrow> u32 \<Rightarrow> 'b \<Rightarrow> (int \<times> 'b) option" where
  "WriteReg pObj addr reg val b = map_option (\<lambda>f. f addr reg val b) (io_WriteReg (IO pObj))"

subsection \<open>Operations\<close>

definition LAN8742_RegisterBusIO ::
  "'b lan8742_Object option \<Rightarrow> 'b lan8742_IOCtx \<Rightarrow> int \<times> 'b lan8742_Object option" where
  "LAN8742_RegisterBusIO pObj ioctx =
     (case pObj of
        None \<Rightarrow> (LAN8742_STATUS_ERROR, None)
      | Some obj \<Rightarrow>
          if io_ReadReg ioctx = None \<or> io_WriteReg ioctx = None \<or> io_GetTick ioctx = None
          then (LAN8742_STATUS_ERROR, Some obj)
          else (LAN8742_STATUS_OK, Some (obj\<lparr>IO :=
                 \<lparr>io_Init = io_Init ioctx, io_DeInit = io_DeInit ioctx, io_WriteReg = io_WriteReg ioctx,
                  io_ReadReg = io_ReadReg ioctx, io_GetTick = io_GetTick ioctx\<rparr>\<rparr>)))"

text \<open>The scan for the device address: the status, the \<open>DevAddr\<close> field and the bus after the loop.\<close>

function Init_scan ::
  "'b lan8742_Object \<Rightarrow> nat \<Rightarrow> u32 \<Rightarrow> int \<Rightarrow> 'b \<Rightarrow> (int \<times> 'b lan8742_Object \<times> 'b) option" where
  "Init_scan pObj addr regvalue status b =
     (if addr \<le> unat LAN8742_MAX_DEV_ADDR
      then do {
        (r, regvalue, b) \<leftarrow> ReadReg pObj (of_nat addr) LAN8742_SMR regvalue b;
        if r < 0 then Init_scan pObj (addr + 1) regvalue LAN8742_STATUS_READ_ERROR b
        else if regvalue AND LAN8742_SMR_PHY_ADDR = of_nat addr
        then Some (LAN8742_STATUS_OK, pObj\<lparr>DevAddr := of_nat addr\<rparr>, b)
        else Init_scan pObj (addr + 1) regvalue status b
      }
      else Some (status, pObj, b))"
  by pat_completeness auto
termination by (relation "measure (\<lambda>(_, addr, _, _, _). 32 - addr)") (auto simp: LAN8742_MAX_DEV_ADDR_def)

declare Init_scan.simps [simp del]

definition LAN8742_Init :: "'b lan8742_Object \<Rightarrow> 'b \<Rightarrow> (int \<times> 'b lan8742_Object \<times> 'b) option" where
  "LAN8742_Init pObj b =
     (if Is_Initialized pObj = 0
      then do {
        let b = (case io_Init (IO pObj) of None \<Rightarrow> b | Some f \<Rightarrow> snd (f b));
        let pObj = pObj\<lparr>DevAddr := LAN8742_MAX_DEV_ADDR + 1\<rparr>;
        (status, pObj, b) \<leftarrow> Init_scan pObj 0 0 LAN8742_STATUS_OK b;
        let status = (if DevAddr pObj > LAN8742_MAX_DEV_ADDR then LAN8742_STATUS_ADDRESS_ERROR else status);
        let pObj = (if status = LAN8742_STATUS_OK then pObj\<lparr>Is_Initialized := 1\<rparr> else pObj);
        Some (status, pObj, b)
      }
      else Some (LAN8742_STATUS_OK, pObj, b))"

definition LAN8742_DeInit :: "'b lan8742_Object \<Rightarrow> 'b \<Rightarrow> int \<times> 'b lan8742_Object \<times> 'b" where
  "LAN8742_DeInit pObj b =
     (if Is_Initialized pObj \<noteq> 0
      then let (r, b) = (case io_DeInit (IO pObj) of None \<Rightarrow> (0, b) | Some f \<Rightarrow> f b)
           in if r < 0 then (LAN8742_STATUS_ERROR, pObj, b)
              else (LAN8742_STATUS_OK, pObj\<lparr>Is_Initialized := 0\<rparr>, b)
      else (LAN8742_STATUS_OK, pObj, b))"

definition LAN8742_DisablePowerDownMode :: "'b lan8742_Object \<Rightarrow> 'b \<Rightarrow> (int \<times> 'b) option" where
  "LAN8742_DisablePowerDownMode pObj b = do {
     (r, readval, b) \<leftarrow> ReadReg pObj (DevAddr pObj) LAN8742_BCR 0 b;
     if r \<ge> 0 then do {
       let readval = readval AND NOT LAN8742_BCR_POWER_DOWN;
       (w, b) \<leftarrow> WriteReg pObj (DevAddr pObj) LAN8742_BCR readval b;
       Some (if w < 0 then LAN8742_STATUS_WRITE_ERROR else LAN8742_STATUS_OK, b)
     }
     else Some (LAN8742_STATUS_READ_ERROR, b)
   }"

definition LAN8742_EnablePowerDownMode :: "'b lan8742_Object \<Rightarrow> 'b \<Rightarrow> (int \<times> 'b) option" where
  "LAN8742_EnablePowerDownMode pObj b = do {
     (r, readval, b) \<leftarrow> ReadReg pObj (DevAddr pObj) LAN8742_BCR 0 b;
     if r \<ge> 0 then do {
       let readval = readval OR LAN8742_BCR_POWER_DOWN;
       (w, b) \<leftarrow> WriteReg pObj (DevAddr pObj) LAN8742_BCR readval b;
       Some (if w < 0 then LAN8742_STATUS_WRITE_ERROR else LAN8742_STATUS_OK, b)
     }
     else Some (LAN8742_STATUS_READ_ERROR, b)
   }"

definition LAN8742_StartAutoNego :: "'b lan8742_Object \<Rightarrow> 'b \<Rightarrow> (int \<times> 'b) option" where
  "LAN8742_StartAutoNego pObj b = do {
     (r, readval, b) \<leftarrow> ReadReg pObj (DevAddr pObj) LAN8742_BCR 0 b;
     if r \<ge> 0 then do {
       let readval = readval OR LAN8742_BCR_AUTONEGO_EN;
       (w, b) \<leftarrow> WriteReg pObj (DevAddr pObj) LAN8742_BCR readval b;
       Some (if w < 0 then LAN8742_STATUS_WRITE_ERROR else LAN8742_STATUS_OK, b)
     }
     else Some (LAN8742_STATUS_READ_ERROR, b)
   }"

text \<open>The two decoders of \<open>LAN8742_GetLinkState\<close>: the forced mode and the negotiated one.\<close>

definition link_of_BCR :: "u32 \<Rightarrow> int" where
  "link_of_BCR readval =
     (if readval AND LAN8742_BCR_SPEED_SELECT = LAN8742_BCR_SPEED_SELECT \<and>
         readval AND LAN8742_BCR_DUPLEX_MODE = LAN8742_BCR_DUPLEX_MODE
      then LAN8742_STATUS_100MBITS_FULLDUPLEX
      else if readval AND LAN8742_BCR_SPEED_SELECT = LAN8742_BCR_SPEED_SELECT
      then LAN8742_STATUS_100MBITS_HALFDUPLEX
      else if readval AND LAN8742_BCR_DUPLEX_MODE = LAN8742_BCR_DUPLEX_MODE
      then LAN8742_STATUS_10MBITS_FULLDUPLEX
      else LAN8742_STATUS_10MBITS_HALFDUPLEX)"

definition link_of_PHYSCSR :: "u32 \<Rightarrow> int" where
  "link_of_PHYSCSR readval =
     (if readval AND LAN8742_PHYSCSR_AUTONEGO_DONE = 0 then LAN8742_STATUS_AUTONEGO_NOTDONE
      else if readval AND LAN8742_PHYSCSR_HCDSPEEDMASK = LAN8742_PHYSCSR_100BTX_FD
      then LAN8742_STATUS_100MBITS_FULLDUPLEX
      else if readval AND LAN8742_PHYSCSR_HCDSPEEDMASK = LAN8742_PHYSCSR_100BTX_HD
      then LAN8742_STATUS_100MBITS_HALFDUPLEX
      else if readval AND LAN8742_PHYSCSR_HCDSPEEDMASK = LAN8742_PHYSCSR_10BT_FD
      then LAN8742_STATUS_10MBITS_FULLDUPLEX
      else LAN8742_STATUS_10MBITS_HALFDUPLEX)"

definition LAN8742_GetLinkState :: "'b lan8742_Object \<Rightarrow> 'b \<Rightarrow> (int \<times> 'b) option" where
  "LAN8742_GetLinkState pObj b = do {
     (r, readval, b) \<leftarrow> ReadReg pObj (DevAddr pObj) LAN8742_BSR 0 b;
     if r < 0 then Some (LAN8742_STATUS_READ_ERROR, b) else do {
     (r, readval, b) \<leftarrow> ReadReg pObj (DevAddr pObj) LAN8742_BSR readval b;
     if r < 0 then Some (LAN8742_STATUS_READ_ERROR, b)
     else if readval AND LAN8742_BSR_LINK_STATUS = 0 then Some (LAN8742_STATUS_LINK_DOWN, b) else do {
     (r, readval, b) \<leftarrow> ReadReg pObj (DevAddr pObj) LAN8742_BCR readval b;
     if r < 0 then Some (LAN8742_STATUS_READ_ERROR, b)
     else if readval AND LAN8742_BCR_AUTONEGO_EN \<noteq> LAN8742_BCR_AUTONEGO_EN then Some (link_of_BCR readval, b)
     else do {
     (r, readval, b) \<leftarrow> ReadReg pObj (DevAddr pObj) LAN8742_PHYSCSR readval b;
     if r < 0 then Some (LAN8742_STATUS_READ_ERROR, b) else Some (link_of_PHYSCSR readval, b)
   }}}}"

definition LAN8742_SetLinkState :: "'b lan8742_Object \<Rightarrow> u32 \<Rightarrow> 'b \<Rightarrow> (int \<times> 'b) option" where
  "LAN8742_SetLinkState pObj LinkState b = do {
     (r, bcrvalue, b) \<leftarrow> ReadReg pObj (DevAddr pObj) LAN8742_BCR 0 b;
     let (status, bcrvalue) =
       (if r \<ge> 0
        then let bcrvalue = bcrvalue AND
                   NOT (LAN8742_BCR_AUTONEGO_EN OR LAN8742_BCR_SPEED_SELECT OR LAN8742_BCR_DUPLEX_MODE)
             in if LinkState = of_int LAN8742_STATUS_100MBITS_FULLDUPLEX
                then (LAN8742_STATUS_OK, bcrvalue OR (LAN8742_BCR_SPEED_SELECT OR LAN8742_BCR_DUPLEX_MODE))
                else if LinkState = of_int LAN8742_STATUS_100MBITS_HALFDUPLEX
                then (LAN8742_STATUS_OK, bcrvalue OR LAN8742_BCR_SPEED_SELECT)
                else if LinkState = of_int LAN8742_STATUS_10MBITS_FULLDUPLEX
                then (LAN8742_STATUS_OK, bcrvalue OR LAN8742_BCR_DUPLEX_MODE)
                else (LAN8742_STATUS_ERROR, bcrvalue)
        else (LAN8742_STATUS_READ_ERROR, bcrvalue));
     if status = LAN8742_STATUS_OK then do {
       (w, b) \<leftarrow> WriteReg pObj (DevAddr pObj) LAN8742_BCR bcrvalue b;
       Some (if w < 0 then LAN8742_STATUS_WRITE_ERROR else status, b)
     }
     else Some (status, b)
   }"

definition LAN8742_EnableLoopbackMode :: "'b lan8742_Object \<Rightarrow> 'b \<Rightarrow> (int \<times> 'b) option" where
  "LAN8742_EnableLoopbackMode pObj b = do {
     (r, readval, b) \<leftarrow> ReadReg pObj (DevAddr pObj) LAN8742_BCR 0 b;
     if r \<ge> 0 then do {
       let readval = readval OR LAN8742_BCR_LOOPBACK;
       (w, b) \<leftarrow> WriteReg pObj (DevAddr pObj) LAN8742_BCR readval b;
       Some (if w < 0 then LAN8742_STATUS_WRITE_ERROR else LAN8742_STATUS_OK, b)
     }
     else Some (LAN8742_STATUS_READ_ERROR, b)
   }"

definition LAN8742_DisableLoopbackMode :: "'b lan8742_Object \<Rightarrow> 'b \<Rightarrow> (int \<times> 'b) option" where
  "LAN8742_DisableLoopbackMode pObj b = do {
     (r, readval, b) \<leftarrow> ReadReg pObj (DevAddr pObj) LAN8742_BCR 0 b;
     if r \<ge> 0 then do {
       let readval = readval AND NOT LAN8742_BCR_LOOPBACK;
       (w, b) \<leftarrow> WriteReg pObj (DevAddr pObj) LAN8742_BCR readval b;
       Some (if w < 0 then LAN8742_STATUS_WRITE_ERROR else LAN8742_STATUS_OK, b)
     }
     else Some (LAN8742_STATUS_READ_ERROR, b)
   }"

definition LAN8742_EnableIT :: "'b lan8742_Object \<Rightarrow> u32 \<Rightarrow> 'b \<Rightarrow> (int \<times> 'b) option" where
  "LAN8742_EnableIT pObj Interrupt b = do {
     (r, readval, b) \<leftarrow> ReadReg pObj (DevAddr pObj) LAN8742_IMR 0 b;
     if r \<ge> 0 then do {
       let readval = readval OR Interrupt;
       (w, b) \<leftarrow> WriteReg pObj (DevAddr pObj) LAN8742_IMR readval b;
       Some (if w < 0 then LAN8742_STATUS_WRITE_ERROR else LAN8742_STATUS_OK, b)
     }
     else Some (LAN8742_STATUS_READ_ERROR, b)
   }"

definition LAN8742_DisableIT :: "'b lan8742_Object \<Rightarrow> u32 \<Rightarrow> 'b \<Rightarrow> (int \<times> 'b) option" where
  "LAN8742_DisableIT pObj Interrupt b = do {
     (r, readval, b) \<leftarrow> ReadReg pObj (DevAddr pObj) LAN8742_IMR 0 b;
     if r \<ge> 0 then do {
       let readval = readval AND NOT Interrupt;
       (w, b) \<leftarrow> WriteReg pObj (DevAddr pObj) LAN8742_IMR readval b;
       Some (if w < 0 then LAN8742_STATUS_WRITE_ERROR else LAN8742_STATUS_OK, b)
     }
     else Some (LAN8742_STATUS_READ_ERROR, b)
   }"

definition LAN8742_ClearIT :: "'b lan8742_Object \<Rightarrow> u32 \<Rightarrow> 'b \<Rightarrow> (int \<times> 'b) option" where
  "LAN8742_ClearIT pObj Interrupt b = do {
     (r, readval, b) \<leftarrow> ReadReg pObj (DevAddr pObj) LAN8742_ISFR 0 b;
     Some (if r < 0 then LAN8742_STATUS_READ_ERROR else LAN8742_STATUS_OK, b)
   }"

definition LAN8742_GetITStatus :: "'b lan8742_Object \<Rightarrow> u32 \<Rightarrow> 'b \<Rightarrow> (int \<times> 'b) option" where
  "LAN8742_GetITStatus pObj Interrupt b = do {
     (r, readval, b) \<leftarrow> ReadReg pObj (DevAddr pObj) LAN8742_ISFR 0 b;
     Some (if r \<ge> 0 then of_bool (readval AND Interrupt = Interrupt) else LAN8742_STATUS_READ_ERROR, b)
   }"

text \<open>
  \<open>ETH_Init\<close> and \<open>ETH_IsLinkUp\<close> of \<open>EthernetIF.cpp\<close>; the HAL calls are parameters on the bus
  state, and the context passed is the static one with all five functions present.
\<close>

definition ETH_Init ::
  "('b \<Rightarrow> bool \<times> 'b) \<Rightarrow> ('b \<Rightarrow> bool \<times> 'b) \<Rightarrow> 'b lan8742_IOCtx \<Rightarrow> 'b lan8742_Object \<Rightarrow> 'b
     \<Rightarrow> (bool \<times> 'b lan8742_Object \<times> 'b) option" where
  "ETH_Init HAL_ETH_Init_ok HAL_ETH_Start_ok phyIO obj b =
     (let (ok, b) = HAL_ETH_Init_ok b in
      if \<not> ok then Some (False, obj, b) else
      case LAN8742_RegisterBusIO (Some obj) phyIO of
        (status, None) \<Rightarrow> None
      | (status, Some obj) \<Rightarrow>
          if status \<noteq> LAN8742_STATUS_OK then Some (False, obj, b) else do {
            (status, obj, b) \<leftarrow> LAN8742_Init obj b;
            if status \<noteq> LAN8742_STATUS_OK then Some (False, obj, b)
            else let (ok, b) = HAL_ETH_Start_ok b in Some (ok, obj, b)
          })"

definition ETH_IsLinkUp :: "'b lan8742_Object \<Rightarrow> 'b \<Rightarrow> (bool \<times> 'b) option" where
  "ETH_IsLinkUp obj b = do {
     (state, b) \<leftarrow> LAN8742_GetLinkState obj b;
     Some (state > LAN8742_STATUS_LINK_DOWN, b)
   }"

subsection \<open>Reference behaviour\<close>

text \<open>Read-modify-write of one register, with the error codes of the driver.\<close>

definition rmw ::
  "(u32 \<Rightarrow> u32 \<Rightarrow> u32 \<Rightarrow> 'b \<Rightarrow> int \<times> u32 \<times> 'b) \<Rightarrow> (u32 \<Rightarrow> u32 \<Rightarrow> u32 \<Rightarrow> 'b \<Rightarrow> int \<times> 'b) \<Rightarrow>
   u32 \<Rightarrow> u32 \<Rightarrow> (u32 \<Rightarrow> u32) \<Rightarrow> 'b \<Rightarrow> int \<times> 'b" where
  "rmw rd wr a reg f b =
     (case rd a reg 0 b of (r, v, b) \<Rightarrow>
        if r < 0 then (LAN8742_STATUS_READ_ERROR, b)
        else case wr a reg (f v) b of (w, b) \<Rightarrow>
          (if w < 0 then LAN8742_STATUS_WRITE_ERROR else LAN8742_STATUS_OK, b))"

text \<open>
  A bus on which every access succeeds and the registers keep what is written to them.
\<close>

definition register_bus ::
  "(u32 \<Rightarrow> u32 \<Rightarrow> u32 \<Rightarrow> 'b \<Rightarrow> int \<times> u32 \<times> 'b) \<Rightarrow> (u32 \<Rightarrow> u32 \<Rightarrow> u32 \<Rightarrow> 'b \<Rightarrow> int \<times> 'b) \<Rightarrow>
   ('b \<Rightarrow> u32 \<Rightarrow> u32 \<Rightarrow> u32) \<Rightarrow> bool" where
  "register_bus rd wr regs \<longleftrightarrow>
     (\<forall>a r v b. rd a r v b = (0, regs b a r, b)) \<and>
     (\<forall>a r v b. fst (wr a r v b) = 0 \<and> regs (snd (wr a r v b)) = (regs b)(a := (regs b a)(r := v)))"

lemma and_pow_eq: "n < 32 \<Longrightarrow> (x :: u32) AND 2 ^ n = 2 ^ n \<longleftrightarrow> bit x n"
  by (auto simp: bit_eq_iff [of "x AND 2 ^ n"] bit_and_iff bit_exp_iff)

lemma and_pow_0: "n < 32 \<Longrightarrow> (x :: u32) AND 2 ^ n = 0 \<longleftrightarrow> \<not> bit x n"
  by (auto simp: bit_eq_iff [of "x AND 2 ^ n"] bit_and_iff bit_exp_iff)

lemma bcr_bits:
  "(v :: u32) AND 0x2000 = 0x2000 \<longleftrightarrow> bit v 13" "v AND 0x1000 = 0x1000 \<longleftrightarrow> bit v 12"
  "v AND 0x100 = 0x100 \<longleftrightarrow> bit v 8" "v AND 0x1000 = 0 \<longleftrightarrow> \<not> bit v 12" "v AND 4 = 0 \<longleftrightarrow> \<not> bit v 2"
  using and_pow_eq [of 13 v] and_pow_eq [of 12 v] and_pow_eq [of 8 v] and_pow_0 [of 12 v] and_pow_0 [of 2 v] by simp_all

lemma link_of_BCR_cases:
  "link_of_BCR v = (if bit v 13 then if bit v 8 then 2 else 3 else if bit v 8 then 4 else 5)"
  by (simp add: link_of_BCR_def lan_bits lan_status bcr_bits)

lemma link_of_BCR_range: "link_of_BCR v \<in> {2, 3, 4, 5}"
  by (simp add: link_of_BCR_cases)

lemma link_of_PHYSCSR_range: "link_of_PHYSCSR v \<in> {2, 3, 4, 5, 6}"
  by (simp add: link_of_PHYSCSR_def lan_status)

lemma ReadReg_Some: "io_ReadReg (IO obj) = Some rd \<Longrightarrow> ReadReg obj a r v b = Some (rd a r v b)"
  by (simp add: ReadReg_def)

lemma WriteReg_Some: "io_WriteReg (IO obj) = Some wr \<Longrightarrow> WriteReg obj a r v b = Some (wr a r v b)"
  by (simp add: WriteReg_def)

lemma Init_scan_outcome:
  assumes "io_ReadReg (IO obj) = Some rd" "addr \<le> 32"
  shows "\<exists>st obj' b'. Init_scan obj addr v s b = Some (st, obj', b') \<and>
    (st = LAN8742_STATUS_OK \<and> (\<exists>a < 32. obj' = obj\<lparr>DevAddr := of_nat a\<rparr>) \<or> obj' = obj)"
  using assms
proof (induction obj addr v s b rule: Init_scan.induct)
  case (1 obj addr v s b)
  show ?case
  proof (cases "addr \<le> 31")
    case False
    then show ?thesis by (subst Init_scan.simps) (simp add: LAN8742_MAX_DEV_ADDR_def)
  next
    case True
    obtain r v' b' where rd: "rd (of_nat addr) LAN8742_SMR v b = (r, v', b')" by (metis prod_cases3)
    have g: "addr \<le> unat LAN8742_MAX_DEV_ADDR" using True by (simp add: LAN8742_MAX_DEV_ADDR_def)
    note R = ReadReg_Some [OF 1(3)]
    have IH1: "r < 0 \<Longrightarrow> \<exists>st obj' b''. Init_scan obj (addr + 1) v' LAN8742_STATUS_READ_ERROR b' = Some (st, obj', b'') \<and>
        (st = LAN8742_STATUS_OK \<and> (\<exists>a < 32. obj' = obj\<lparr>DevAddr := of_nat a\<rparr>) \<or> obj' = obj)"
      by (rule 1(1) [OF g _ refl]) (use 1(3,4) True R rd in auto)
    have IH2: "\<not> r < 0 \<Longrightarrow> v' AND LAN8742_SMR_PHY_ADDR \<noteq> of_nat addr \<Longrightarrow>
        \<exists>st obj' b''. Init_scan obj (addr + 1) v' s b' = Some (st, obj', b'') \<and>
        (st = LAN8742_STATUS_OK \<and> (\<exists>a < 32. obj' = obj\<lparr>DevAddr := of_nat a\<rparr>) \<or> obj' = obj)"
      by (rule 1(2) [OF g _ refl]) (use 1(3,4) True R rd in auto)
    show ?thesis
      using IH1 IH2 g rd True by (subst Init_scan.simps) (auto simp: R intro: exI [of _ addr])
  qed
qed

lemma Init_scan_finds:
  assumes rd: "io_ReadReg (IO obj) = Some rd" "\<forall>a v. rd (of_nat a) LAN8742_SMR v b = (res a, val a, b)"
    and m: "addr \<le> a" "a < 32" "0 \<le> res a" "val a AND LAN8742_SMR_PHY_ADDR = of_nat a"
    and least: "\<forall>c. addr \<le> c \<and> c < a \<longrightarrow> res c < 0 \<or> val c AND LAN8742_SMR_PHY_ADDR \<noteq> of_nat c"
  shows "Init_scan obj addr v s b = Some (LAN8742_STATUS_OK, obj\<lparr>DevAddr := of_nat a\<rparr>, b)"
  using m least
proof (induction "a - addr" arbitrary: addr v s)
  case 0
  then show ?case by (subst Init_scan.simps) (simp add: LAN8742_MAX_DEV_ADDR_def ReadReg_Some [OF rd(1)] rd(2))
next
  case (Suc n)
  then have IH: "Init_scan obj (addr + 1) v s b = Some (LAN8742_STATUS_OK, obj\<lparr>DevAddr := of_nat a\<rparr>, b)" for v s
    by (intro Suc.hyps(1)) auto
  have "addr < a" using Suc.hyps(2) by simp
  then have "addr \<le> 31" "res addr < 0 \<or> val addr AND LAN8742_SMR_PHY_ADDR \<noteq> of_nat addr" using Suc.prems by auto
  then show ?case using IH
    by (subst Init_scan.simps) (auto simp: LAN8742_MAX_DEV_ADDR_def ReadReg_Some [OF rd(1)] rd(2))
qed

subsection \<open>Properties\<close>

text \<open>A concrete PHY at address 5 behind a bus that stores its registers.\<close>

type_synonym demo_bus = "u32 \<Rightarrow> u32 \<Rightarrow> u32"

definition demo_io :: "demo_bus lan8742_IOCtx" where
  "demo_io = \<lparr>io_Init = None, io_DeInit = None,
     io_WriteReg = Some (\<lambda>a r v b. (0, b(a := (b a)(r := v)))),
     io_ReadReg = Some (\<lambda>a r v b. (0, b a r, b)), io_GetTick = Some (\<lambda>b. (0, b))\<rparr>"

definition demo_obj :: "demo_bus lan8742_Object" where
  "demo_obj = \<lparr>DevAddr = 5, Is_Initialized = 1, IO = demo_io\<rparr>"

definition demo_regs :: demo_bus where
  "demo_regs a r = (if a = 5 then if r = LAN8742_BSR then 4 else if r = LAN8742_SMR then 0xE5
     else if r = LAN8742_BCR then 0x1000 else 0 else 0xFFFF)"

lemma demo_register_bus:
  "register_bus (\<lambda>a r v b. (0, b a r, b)) (\<lambda>a r v b. (0, b(a := (b a)(r := v)))) (\<lambda>b :: demo_bus. b)"
  by (simp add: register_bus_def)

text \<open>The seven configuration operations are read-modify-write accesses that set or clear
  exactly the bits they are named after, in the control or the interrupt mask register: a failed
  read is reported as a read error and nothing is written, a failed write as a write error.\<close>

theorem LAN8742_config_ops_are_rmw:
  assumes "io_ReadReg (IO obj) = Some rd" "io_WriteReg (IO obj) = Some wr"
  shows "LAN8742_EnablePowerDownMode obj b = Some (rmw rd wr (DevAddr obj) LAN8742_BCR (set_bit 11) b) \<and>
    LAN8742_DisablePowerDownMode obj b = Some (rmw rd wr (DevAddr obj) LAN8742_BCR (unset_bit 11) b) \<and>
    LAN8742_StartAutoNego obj b = Some (rmw rd wr (DevAddr obj) LAN8742_BCR (set_bit 12) b) \<and>
    LAN8742_EnableLoopbackMode obj b = Some (rmw rd wr (DevAddr obj) LAN8742_BCR (set_bit 14) b) \<and>
    LAN8742_DisableLoopbackMode obj b = Some (rmw rd wr (DevAddr obj) LAN8742_BCR (unset_bit 14) b) \<and>
    LAN8742_EnableIT obj m b = Some (rmw rd wr (DevAddr obj) LAN8742_IMR (\<lambda>v. v OR m) b) \<and>
    LAN8742_DisableIT obj m b = Some (rmw rd wr (DevAddr obj) LAN8742_IMR (\<lambda>v. v AND NOT m) b)"
  by (simp add: LAN8742_EnablePowerDownMode_def LAN8742_DisablePowerDownMode_def LAN8742_StartAutoNego_def
      LAN8742_EnableLoopbackMode_def LAN8742_DisableLoopbackMode_def LAN8742_EnableIT_def LAN8742_DisableIT_def
      ReadReg_Some [OF assms(1)] WriteReg_Some [OF assms(2)] rmw_def lan_bits set_bit_eq_or unset_bit_eq_and_not
      split: prod.splits)

theorem LAN8742_config_ops_are_rmw_witness:
  "LAN8742_EnablePowerDownMode demo_obj demo_regs = Some (LAN8742_STATUS_OK, demo_regs(5 := (demo_regs 5)(0 := 0x1800)))"
  using LAN8742_config_ops_are_rmw [of demo_obj _ _ demo_regs 0]
  by (simp add: demo_obj_def demo_io_def rmw_def demo_regs_def set_bit_eq_or lan_regs)

text \<open>A forced link mode the driver accepts is the one it reports: after
  \<open>LAN8742_SetLinkState\<close> with one of the three modes 100FD, 100HD, 10FD on a PHY with its link up,
  \<open>LAN8742_GetLinkState\<close> returns that mode, and no other bit of the control register has changed.\<close>

theorem LAN8742_link_state_roundtrip:
  assumes "io_ReadReg (IO obj) = Some rd" "io_WriteReg (IO obj) = Some wr" "register_bus rd wr regs"
    and "s \<in> {2, 3, 4}" "bit (regs b (DevAddr obj) LAN8742_BSR) 2"
  shows "\<exists>b'. LAN8742_SetLinkState obj (of_int s) b = Some (LAN8742_STATUS_OK, b') \<and>
    LAN8742_GetLinkState obj b' = Some (s, b') \<and>
    (\<forall>n. n \<notin> {8, 12, 13} \<longrightarrow>
       bit (regs b' (DevAddr obj) LAN8742_BCR) n = bit (regs b (DevAddr obj) LAN8742_BCR) n)"
proof -
  let ?a = "DevAddr obj"
  let ?v = "regs b ?a LAN8742_BCR AND NOT 0x3100"
  define v where "v = (if s = 2 then ?v OR 0x2100 else if s = 3 then ?v OR 0x2000 else ?v OR 0x100)"
  obtain b' where w: "wr ?a LAN8742_BCR v b = (0, b')"
    and r': "regs b' = (regs b)(?a := (regs b ?a)(LAN8742_BCR := v))"
    using assms(3) unfolding register_bus_def by (metis prod.collapse)
  have rd: "rd a r x c = (0, regs c a r, c)" for a r x c using assms(3) by (simp add: register_bus_def)
  have "LAN8742_SetLinkState obj (of_int s) b = Some (LAN8742_STATUS_OK, b')"
    using assms(4) w
    by (auto simp: LAN8742_SetLinkState_def ReadReg_Some [OF assms(1)] WriteReg_Some [OF assms(2)] rd lan_bits
        lan_status v_def)
  moreover have "LAN8742_GetLinkState obj b' = Some (s, b')"
  proof -
    have "regs b' ?a LAN8742_BSR = regs b ?a LAN8742_BSR" "regs b' ?a LAN8742_BCR = v"
      by (simp_all add: r' lan_regs)
    moreover have "\<not> bit v 12" "bit v 13 \<longleftrightarrow> s \<in> {2, 3}" "bit v 8 \<longleftrightarrow> s \<in> {2, 4}"
      using assms(4) by (auto simp: v_def bit_simps)
    ultimately show ?thesis
      using assms(4,5)
      by (auto simp: LAN8742_GetLinkState_def ReadReg_Some [OF assms(1)] rd lan_bits bcr_bits link_of_BCR_cases)
  qed
  moreover have "bit v n = bit (regs b ?a LAN8742_BCR) n" if "n \<notin> {8, 12, 13}" for n
  proof -
    have "\<not> bit (0x3100 :: u32) n" "\<not> bit (0x2100 :: u32) n" "\<not> bit (0x2000 :: u32) n" "\<not> bit (0x100 :: u32) n"
      using that by (auto simp: bit_numeral_rec bit_1_iff numeral_eq_Suc split: nat.splits)
    moreover from this(1) have "bit ?v n = bit (regs b ?a LAN8742_BCR) n"
      by (simp only: bit_and_iff bit_not_iff) (auto dest: bit_imp_possible_bit)
    ultimately show ?thesis unfolding v_def by (auto simp only: bit_or_iff split: if_splits)
  qed
  ultimately show ?thesis using r' by auto
qed

theorem LAN8742_link_state_roundtrip_witness:
  "\<exists>b'. LAN8742_SetLinkState demo_obj 3 demo_regs = Some (LAN8742_STATUS_OK, b') \<and>
    LAN8742_GetLinkState demo_obj b' = Some (3, b')"
  using LAN8742_link_state_roundtrip [of demo_obj _ _ "\<lambda>b. b" 3 demo_regs, OF _ _ demo_register_bus]
  by (auto simp: demo_obj_def demo_io_def demo_regs_def lan_regs)


text \<open>Initialisation scans the 32 bus addresses in order and takes the first that answers with
  its own address in the special mode register; addresses that cannot be read are skipped.\<close>

theorem LAN8742_Init_finds_phy:
  assumes "io_ReadReg (IO obj) = Some rd" "io_Init (IO obj) = None" "Is_Initialized obj = 0"
    and "\<forall>a v. rd (of_nat a) LAN8742_SMR v b = (res a, val a, b)"
    and "a < 32" "0 \<le> res a" "val a AND LAN8742_SMR_PHY_ADDR = of_nat a"
    and "\<forall>c < a. res c < 0 \<or> val c AND LAN8742_SMR_PHY_ADDR \<noteq> of_nat c"
  shows "LAN8742_Init obj b =
    Some (LAN8742_STATUS_OK, obj\<lparr>DevAddr := of_nat a, Is_Initialized := 1\<rparr>, b)"
proof -
  have "Init_scan (obj\<lparr>DevAddr := LAN8742_MAX_DEV_ADDR + 1\<rparr>) 0 0 LAN8742_STATUS_OK b =
      Some (LAN8742_STATUS_OK, obj\<lparr>DevAddr := of_nat a\<rparr>, b)"
    using Init_scan_finds [of "obj\<lparr>DevAddr := LAN8742_MAX_DEV_ADDR + 1\<rparr>" rd b res val 0 a] assms by simp
  moreover have "\<not> (31 :: u32) < of_nat a" using assms(5) by (simp add: word_less_nat_alt unat_of_nat32)
  ultimately show ?thesis using assms(2,3) by (simp add: LAN8742_Init_def LAN8742_MAX_DEV_ADDR_def)
qed

theorem LAN8742_Init_finds_phy_witness:
  "LAN8742_Init (demo_obj\<lparr>Is_Initialized := 0\<rparr>) demo_regs = Some (LAN8742_STATUS_OK, demo_obj, demo_regs)"
proof -
  have "(of_nat c :: u32) = 5 \<longleftrightarrow> c = 5" if "c < 32" for c
    using that by (auto simp: word_unat_eq_iff unat_of_nat32)
  then show ?thesis
    using LAN8742_Init_finds_phy [of "demo_obj\<lparr>Is_Initialized := 0\<rparr>" "\<lambda>a r v b. (0, b a r, b)" demo_regs
        "\<lambda>_. 0" "\<lambda>a. demo_regs (of_nat a) LAN8742_SMR" 5]
    by (auto simp: demo_obj_def demo_io_def demo_regs_def lan_regs LAN8742_SMR_PHY_ADDR_def word_unat_eq_iff unat_of_nat32)
qed

text \<open>Whatever the bus answers, initialisation of an uninitialised device ends with success and
  an address of at most 31, or with the address error and the object left uninitialised at the
  impossible address 32. The read error its comment lists is never returned.\<close>

theorem LAN8742_Init_outcome:
  assumes "io_ReadReg (IO obj) = Some rd" "Is_Initialized obj = 0"
  shows "\<exists>st obj' b'. LAN8742_Init obj b = Some (st, obj', b') \<and>
    (st = LAN8742_STATUS_OK \<and> DevAddr obj' \<le> 31 \<and> Is_Initialized obj' = 1 \<or>
     st = LAN8742_STATUS_ADDRESS_ERROR \<and> DevAddr obj' = 32 \<and> Is_Initialized obj' = 0)"
proof -
  let ?b = "case io_Init (IO obj) of None \<Rightarrow> b | Some f \<Rightarrow> snd (f b)"
  let ?o = "obj\<lparr>DevAddr := LAN8742_MAX_DEV_ADDR + 1\<rparr>"
  from Init_scan_outcome [of ?o rd 0 0 LAN8742_STATUS_OK ?b] assms(1)
  obtain st obj' b' where s: "Init_scan ?o 0 0 LAN8742_STATUS_OK ?b = Some (st, obj', b')"
    and o: "st = LAN8742_STATUS_OK \<and> (\<exists>a < 32. obj' = obj\<lparr>DevAddr := of_nat a\<rparr>) \<or> obj' = ?o" by auto
  have le: "(of_nat a :: u32) \<le> 31" if "a < 32" for a
    using that by (simp add: word_le_nat_alt unat_of_nat32)
  from o show ?thesis
  proof
    assume "obj' = ?o"
    then show ?thesis using s assms(2) by (simp add: LAN8742_Init_def LAN8742_MAX_DEV_ADDR_def lan_status)
  next
    assume "st = LAN8742_STATUS_OK \<and> (\<exists>a < 32. obj' = obj\<lparr>DevAddr := of_nat a\<rparr>)"
    then show ?thesis using s assms(2) le by (auto simp: LAN8742_Init_def LAN8742_MAX_DEV_ADDR_def not_less [symmetric])
  qed
qed

theorem LAN8742_Init_outcome_witness:
  "\<exists>st obj' b'. LAN8742_Init (demo_obj\<lparr>Is_Initialized := 0\<rparr>) (\<lambda>_ _. 0xFFFF) = Some (st, obj', b') \<and>
    (st = LAN8742_STATUS_OK \<and> DevAddr obj' \<le> 31 \<and> Is_Initialized obj' = 1 \<or>
     st = LAN8742_STATUS_ADDRESS_ERROR \<and> DevAddr obj' = 32 \<and> Is_Initialized obj' = 0)"
  by (rule LAN8742_Init_outcome) (simp_all add: demo_obj_def demo_io_def)

text \<open>\<open>LAN8742_SetLinkState\<close> never sets the fourth mode its comment lists: for 10 Mbit/s half
  duplex it reads the control register, writes nothing and returns an error.\<close>

theorem LAN8742_SetLinkState_rejects_10HD:
  assumes "io_ReadReg (IO obj) = Some rd" "rd (DevAddr obj) LAN8742_BCR 0 b = (r, v, b')"
  shows "LAN8742_SetLinkState obj (of_int LAN8742_STATUS_10MBITS_HALFDUPLEX) b =
    Some (if r < 0 then LAN8742_STATUS_READ_ERROR else LAN8742_STATUS_ERROR, b')"
  by (simp add: LAN8742_SetLinkState_def ReadReg_Some [OF assms(1)] assms(2) lan_status)

theorem LAN8742_SetLinkState_rejects_10HD_witness:
  "LAN8742_SetLinkState demo_obj (of_int LAN8742_STATUS_10MBITS_HALFDUPLEX) demo_regs =
    Some (LAN8742_STATUS_ERROR, demo_regs)"
  using LAN8742_SetLinkState_rejects_10HD [of demo_obj "\<lambda>a r v b. (0, b a r, b)" demo_regs 0]
  by (simp add: demo_obj_def demo_io_def)



text \<open>With a complete set of bus functions \<open>ETH_Init\<close> never calls through a null pointer, and when
  it reports success the PHY object is initialised with a valid address.\<close>

theorem ETH_Init_sound:
  assumes "io_ReadReg io \<noteq> None" "io_WriteReg io \<noteq> None" "io_GetTick io \<noteq> None" "Is_Initialized obj = 0"
  shows "\<exists>ok obj' b'. ETH_Init hal_init hal_start io obj b = Some (ok, obj', b') \<and>
    (ok \<longrightarrow> Is_Initialized obj' = 1 \<and> DevAddr obj' \<le> 31)"
proof -
  obtain rd where rd: "io_ReadReg io = Some rd" using assms(1) by auto
  obtain ok c where hi: "hal_init b = (ok, c)" by fastforce
  define o' where "o' = obj\<lparr>IO := \<lparr>io_Init = io_Init io, io_DeInit = io_DeInit io, io_WriteReg = io_WriteReg io,
                  io_ReadReg = io_ReadReg io, io_GetTick = io_GetTick io\<rparr>\<rparr>"
  have reg: "LAN8742_RegisterBusIO (Some obj) io = (LAN8742_STATUS_OK, Some o')"
    using assms(1-3) by (auto simp: LAN8742_RegisterBusIO_def o'_def)
  have o': "io_ReadReg (IO o') = Some rd" "Is_Initialized o' = 0" using rd assms(4) by (simp_all add: o'_def)
  let ?b = "case io_Init (IO o') of None \<Rightarrow> c | Some f \<Rightarrow> snd (f c)"
  let ?o = "o'\<lparr>DevAddr := LAN8742_MAX_DEV_ADDR + 1\<rparr>"
  from Init_scan_outcome [of ?o rd 0 0 LAN8742_STATUS_OK ?b] o'
  obtain st obj' b' where s: "Init_scan ?o 0 0 LAN8742_STATUS_OK ?b = Some (st, obj', b')"
    and o: "st = LAN8742_STATUS_OK \<and> (\<exists>a < 32. obj' = o'\<lparr>DevAddr := of_nat a\<rparr>) \<or> obj' = ?o" by auto
  have le: "(of_nat a :: u32) \<le> 31" if "a < 32" for a
    using that by (simp add: word_le_nat_alt unat_of_nat32)
  show ?thesis
    using s o o' le hi reg
    by (auto simp: ETH_Init_def LAN8742_Init_def LAN8742_MAX_DEV_ADDR_def lan_status split: prod.splits)
qed

theorem ETH_Init_sound_witness:
  "\<exists>ok obj' b'. ETH_Init (\<lambda>b. (True, b)) (\<lambda>b. (True, b)) demo_io (demo_obj\<lparr>Is_Initialized := 0\<rparr>) demo_regs
      = Some (ok, obj', b') \<and> (ok \<longrightarrow> Is_Initialized obj' = 1 \<and> DevAddr obj' \<le> 31)"
  by (rule ETH_Init_sound) (simp_all add: demo_io_def)

end
