(* ===== verification/LwipBase.thy ===== *)
theory LwipBase
  imports ByteMemory
begin

text \<open>
  What all parts of the network stack share: the error codes of \<open>err.h\<close>, numbers in network byte order, and
  the values of the configuration in \<open>lwipopts.h\<close>.
\<close>

type_synonym u16 = "16 word"

datatype err_t = ERR_OK | ERR_MEM | ERR_BUF | ERR_TIMEOUT | ERR_RTE | ERR_INPROGRESS | ERR_VAL | ERR_WOULDBLOCK | ERR_USE
  | ERR_ALREADY | ERR_ISCONN | ERR_CONN | ERR_IF | ERR_ABRT | ERR_RST | ERR_CLSD | ERR_ARG

lemma read_bytes_simps [simp]: "read_bytes a 0 m = []" "read_bytes a (Suc n) m = m a # read_bytes (Suc a) n m"
  by (simp_all add: read_bytes_def upt_conv_Cons del: upt_Suc)

lemma read_bytes_add: "read_bytes a (n + k) m = read_bytes a n m @ read_bytes (a + n) k m"
  by (induction n arbitrary: a) simp_all

end
