(* ===== verification/SysArch.thy ===== *)
theory SysArch
  imports LwipBase QueueProperties
begin

text \<open>
  The port of the network stack to the kernel, \<open>sys_arch.c\<close>: mailboxes are queues of pointers, semaphores
  are counting semaphores, locks are mutexes, threads are tasks and the clock is the tick counter.
  A call that may wait takes, like the queue calls below it, what the rest of the system does in
  each of its rounds; it is \<open>None\<close> when it is still waiting after them.
\<close>

definition SYS_ARCH_TIMEOUT :: u32 where "SYS_ARCH_TIMEOUT = 0xffffffff"
definition SYS_MBOX_EMPTY :: u32 where "SYS_MBOX_EMPTY = SYS_ARCH_TIMEOUT"

text \<open>Both constants of the conversion are 1000 here; the product is taken in 32 bits.\<close>

definition configTICK_RATE_HZ :: tick where "configTICK_RATE_HZ = 1000"

definition pdMS_TO_TICKS :: "u32 \<Rightarrow> tick" where
  "pdMS_TO_TICKS xTimeInMs = (xTimeInMs * configTICK_RATE_HZ) div 1000"

definition portTICK_PERIOD_MS :: tick where
  "portTICK_PERIOD_MS = 1000 div configTICK_RATE_HZ"

subsection \<open>Mailboxes\<close>

text \<open>The error and the handle stored in \<open>*mbox\<close>; a pointer has 4 bytes.\<close>

definition sys_mbox_new :: "nat \<Rightarrow> qsys \<Rightarrow> (err_t \<times> nat) \<times> qsys" where
  "sys_mbox_new n s =
     (let (mbox, s) = xQueueGenericCreate n 4 s in ((if mbox = 0 then ERR_MEM else ERR_OK, mbox), s))"

definition sys_mbox_free :: "nat \<Rightarrow> qsys \<Rightarrow> qsys" where
  "sys_mbox_free mbox s = vQueueDelete mbox s"

text \<open>The outer list has one entry for each send of the loop.\<close>

fun sys_mbox_post :: "gaps list list \<Rightarrow> nat \<Rightarrow> nat \<Rightarrow> qsys \<Rightarrow> qsys option" where
  "sys_mbox_post [] mbox msg s = None"
| "sys_mbox_post (gs # gss) mbox msg s =
     (case xQueueGenericSend gs mbox (le_bytes msg) queueSEND_TO_BACK portMAX_DELAY None s of
        None \<Rightarrow> None
      | Some (r, s) \<Rightarrow> if r then Some s else sys_mbox_post gss mbox msg s)"

definition sys_mbox_trypost :: "gaps \<Rightarrow> nat \<Rightarrow> nat \<Rightarrow> qsys \<Rightarrow> err_t \<times> qsys" where
  "sys_mbox_trypost g mbox msg s =
     (let (r, s) = queue_send g mbox from_task (le_bytes msg) s in (if r then ERR_OK else ERR_MEM, s))"

definition sys_mbox_trypost_fromisr :: "nat \<Rightarrow> nat \<Rightarrow> qsys \<Rightarrow> err_t \<times> qsys" where
  "sys_mbox_trypost_fromisr mbox msg s =
     (let ((r, woken), s) = xQueueGenericSendFromISR mbox (le_bytes msg) queueSEND_TO_BACK s
      in if r then (ERR_OK, if woken then on_kern portYIELD s else s) else (ERR_MEM, s))"

text \<open>What is returned and the message stored in \<open>*msg\<close>, \<open>0\<close> for \<open>NULL\<close>.\<close>

definition sys_arch_mbox_fetch :: "gaps list \<Rightarrow> nat \<Rightarrow> u32 \<Rightarrow> qsys \<Rightarrow> ((u32 \<times> nat) \<times> qsys) option" where
  "sys_arch_mbox_fetch gs mbox timeout_ms s =
     (let ticks = (if timeout_ms = 0 then portMAX_DELAY else pdMS_TO_TICKS timeout_ms);
          t0 = xTaskGetTickCount (kern s)
      in map_option (\<lambda>((r, b), s).
           if r then (((xTaskGetTickCount (kern s) - t0) * portTICK_PERIOD_MS, case b of None \<Rightarrow> 0 | Some b \<Rightarrow> of_le_bytes b), s)
           else ((SYS_ARCH_TIMEOUT, 0), s)) (xQueueReceive gs mbox ticks None s))"

definition sys_arch_mbox_tryfetch :: "gaps \<Rightarrow> nat \<Rightarrow> qsys \<Rightarrow> (u32 \<times> nat) \<times> qsys" where
  "sys_arch_mbox_tryfetch g mbox s =
     (let (b, s) = queue_receive g mbox from_task s
      in (case b of Some b \<Rightarrow> (0, of_le_bytes b) | None \<Rightarrow> (SYS_MBOX_EMPTY, 0), s))"

definition sys_mbox_valid :: "nat \<Rightarrow> bool" where
  "sys_mbox_valid mbox \<longleftrightarrow> mbox \<noteq> 0"

definition sys_mbox_set_invalid :: nat where
  "sys_mbox_set_invalid = 0"

subsection \<open>Semaphores and mutexes\<close>

definition sys_sem_new :: "nat \<Rightarrow> qsys \<Rightarrow> (err_t \<times> nat) \<times> qsys" where
  "sys_sem_new n s =
     (let (sem, s) = xQueueCreateCountingSemaphore 255 n s in ((if sem = 0 then ERR_MEM else ERR_OK, sem), s))"

definition sys_sem_free :: "nat \<Rightarrow> qsys \<Rightarrow> qsys" where
  "sys_sem_free sem s = vQueueDelete sem s"

definition sys_sem_signal :: "gaps \<Rightarrow> nat \<Rightarrow> qsys \<Rightarrow> qsys" where
  "sys_sem_signal g sem s = snd (queue_send g sem from_task [] s)"

definition sys_arch_sem_wait :: "gaps list \<Rightarrow> nat \<Rightarrow> u32 \<Rightarrow> qsys \<Rightarrow> (u32 \<times> qsys) option" where
  "sys_arch_sem_wait gs sem timeout_ms s =
     (let ticks = (if timeout_ms = 0 then portMAX_DELAY else pdMS_TO_TICKS timeout_ms);
          t0 = xTaskGetTickCount (kern s)
      in map_option (\<lambda>(r, s). (if r then (xTaskGetTickCount (kern s) - t0) * portTICK_PERIOD_MS else SYS_ARCH_TIMEOUT, s))
           (xQueueSemaphoreTake gs sem ticks None False s))"

definition sys_mutex_new :: "qsys \<Rightarrow> (err_t \<times> nat) \<times> qsys" where
  "sys_mutex_new s = (let (mutex, s) = xQueueCreateMutex s in ((if mutex = 0 then ERR_MEM else ERR_OK, mutex), s))"

definition sys_mutex_free :: "nat \<Rightarrow> qsys \<Rightarrow> qsys" where
  "sys_mutex_free mutex s = vQueueDelete mutex s"

text \<open>Whether the take succeeded is not looked at.\<close>

definition sys_mutex_lock :: "gaps list \<Rightarrow> nat \<Rightarrow> qsys \<Rightarrow> qsys option" where
  "sys_mutex_lock gs mutex s = map_option snd (xQueueSemaphoreTake gs mutex portMAX_DELAY None False s)"

definition sys_mutex_unlock :: "gaps \<Rightarrow> nat \<Rightarrow> qsys \<Rightarrow> qsys" where
  "sys_mutex_unlock g mutex s = snd (queue_send g mutex from_task [] s)"

subsection \<open>Threads and time\<close>

text \<open>The stack depth is cut to the 16 bits of \<open>configSTACK_DEPTH_TYPE\<close>; \<open>0\<close> when no task could be made.\<close>

definition sys_thread_new :: "string \<Rightarrow> nat \<Rightarrow> nat \<Rightarrow> qsys \<Rightarrow> nat \<times> qsys" where
  "sys_thread_new name stacksize p s =
     (let (h, s) = on_kern' (xTaskCreate (Some name) (stacksize mod 2 ^ 16) p) s
      in (case h of None \<Rightarrow> 0 | Some t \<Rightarrow> t, s))"

definition sys_now :: "qsys \<Rightarrow> u32" where
  "sys_now s = xTaskGetTickCount (kern s) * portTICK_PERIOD_MS"

subsection \<open>A mailbox is a bounded buffer of pointers\<close>

definition mbox_ok :: "nat \<Rightarrow> qsys \<Rightarrow> bool" where
  "mbox_ok x s \<longleftrightarrow> queue_ok x s \<and> uxItemSize (queues s x) = 4"

definition mbox_items :: "nat \<Rightarrow> qsys \<Rightarrow> nat list" where
  "mbox_items x s = map of_le_bytes (queue_items x s)"

text \<open>A post without waiting by a task or an interrupt, and a fetch without waiting.\<close>

definition mbox_post :: "gaps \<Rightarrow> nat \<Rightarrow> caller \<Rightarrow> nat \<Rightarrow> qsys \<Rightarrow> bool \<times> qsys" where
  "mbox_post g x c msg s =
     (let (e, s) = (case c of from_task \<Rightarrow> sys_mbox_trypost g x msg s | from_isr \<Rightarrow> sys_mbox_trypost_fromisr x msg s)
      in (e = ERR_OK, s))"

definition mbox_fetch :: "gaps \<Rightarrow> nat \<Rightarrow> caller \<Rightarrow> qsys \<Rightarrow> nat option \<times> qsys" where
  "mbox_fetch g x c s =
     (let ((t, msg), s) = sys_arch_mbox_tryfetch g x s in (if t = SYS_MBOX_EMPTY then None else Some msg, s))"

lemma portYIELD_frame [simp]: "queue_items x (on_kern f s) = queue_items x s" "queue_ok x (on_kern f s) = queue_ok x s"
  by (simp_all add: queue_items_def queue_ok_def)

lemma mbox_post_queue:
  "fst (mbox_post g x c msg s) = fst (queue_send g x c (le_bytes msg) s)"
  "queues (snd (mbox_post g x c msg s)) = queues (snd (queue_send g x c (le_bytes msg) s))"
  "qmem (snd (mbox_post g x c msg s)) = qmem (snd (queue_send g x c (le_bytes msg) s))"
  by (cases c; simp add: mbox_post_def sys_mbox_trypost_def sys_mbox_trypost_fromisr_def queue_send_def case_prod_beta Let_def)+

lemma mbox_fetch_queue:
  "fst (mbox_fetch g x c s) = map_option of_le_bytes (fst (queue_receive g x from_task s))"
  "snd (mbox_fetch g x c s) = snd (queue_receive g x from_task s)"
  by (simp_all add: mbox_fetch_def sys_arch_mbox_tryfetch_def SYS_MBOX_EMPTY_def SYS_ARCH_TIMEOUT_def case_prod_beta Let_def
    split: option.splits)

lemma mbox_post_state:
  "queue_items x (snd (mbox_post g x c msg s)) = queue_items x (snd (queue_send g x c (le_bytes msg) s))"
  "queue_ok x (snd (mbox_post g x c msg s)) = queue_ok x (snd (queue_send g x c (le_bytes msg) s))"
  "queue_cap x (snd (mbox_post g x c msg s)) = queue_cap x (snd (queue_send g x c (le_bytes msg) s))"
  by (simp_all add: queue_items_def queue_ok_def queue_cap_def mbox_post_queue)

lemma queue_fits_size: "queue_fits x s' = queue_fits x s \<Longrightarrow> uxItemSize (queues s' x) = uxItemSize (queues s x)"
  by (metis queue_fits_def length_replicate)

interpretation mbox: bounded_fifo "mbox_ok x" "mbox_items x" "queue_cap x" "\<lambda>_ msg. msg < 2 ^ 32" "mbox_post g x" "mbox_fetch g x"
  for x g
proof
  fix s a as c
  show "length (mbox_items x s) \<le> queue_cap x s" if "mbox_ok x s"
    using that queue.bounded [of x s] by (simp add: mbox_ok_def mbox_items_def)
  have z: "queue_fits x s (le_bytes a)" if "mbox_ok x s" using that by (simp add: queue_fits_def mbox_ok_def)
  show "fst (mbox_post g x c a s) \<and> mbox_items x (snd (mbox_post g x c a s)) = mbox_items x s @ [a]"
    if "mbox_ok x s" "a < 2 ^ 32" "length (mbox_items x s) < queue_cap x s"
    using that queue.put_room [of x s "le_bytes a" g c] z
    by (simp add: mbox_post_queue mbox_post_state mbox_ok_def mbox_items_def le_bytes_roundtrip)
  show "\<not> fst (mbox_post g x c a s) \<and> mbox_items x (snd (mbox_post g x c a s)) = mbox_items x s"
    if "mbox_ok x s" "length (mbox_items x s) = queue_cap x s"
    using that queue.put_full [of x s g c "le_bytes a"] by (simp add: mbox_post_queue(1) mbox_post_state mbox_ok_def mbox_items_def)
  show "mbox_ok x (snd (mbox_post g x c a s)) \<and> queue_cap x (snd (mbox_post g x c a s)) = queue_cap x s \<and>
      (\<lambda>msg::nat. msg < 2 ^ 32) = (\<lambda>msg. msg < 2 ^ 32)" if "mbox_ok x s" "a < 2 ^ 32"
    using that queue.put_ok [of x s "le_bytes a" g c] z by (auto simp: mbox_post_state mbox_post_queue mbox_ok_def dest: queue_fits_size)
  show "fst (mbox_fetch g x c s) = Some a \<and> mbox_items x (snd (mbox_fetch g x c s)) = as"
    if "mbox_ok x s" "mbox_items x s = a # as"
    using that queue.get_some [of x s _ _ g from_task] by (auto simp: mbox_fetch_queue mbox_ok_def mbox_items_def)
  show "fst (mbox_fetch g x c s) = None \<and> mbox_items x (snd (mbox_fetch g x c s)) = []" if "mbox_ok x s" "mbox_items x s = []"
    using that queue.get_none [of x s g from_task] by (simp add: mbox_fetch_queue mbox_ok_def mbox_items_def)
  show "mbox_ok x (snd (mbox_fetch g x c s)) \<and> queue_cap x (snd (mbox_fetch g x c s)) = queue_cap x s \<and>
      (\<lambda>msg::nat. msg < 2 ^ 32) = (\<lambda>msg. msg < 2 ^ 32)" if "mbox_ok x s"
    using that queue.get_ok [of x s g from_task] by (auto simp: mbox_fetch_queue mbox_ok_def dest: queue_fits_size)
qed

lemma sys_mbox_new_ok:
  assumes k: "kinv (kern s)" "uxSchedulerSuspended (kern s) = 0" "heap_rep (heap (kern s)) R" "disjoint_regions R"
    and n: "0 < n" "n < 2 ^ 20" and e: "sys_mbox_new n s = ((ERR_OK, x), s')"
  shows "mbox_ok x s' \<and> mbox_items x s' = [] \<and> queue_cap x s' = n"
proof -
  have c: "xQueueGenericCreate n 4 s = (x, s')" "x \<noteq> 0" using e by (auto simp: sys_mbox_new_def split: prod.splits if_splits)
  have "sizeof_Queue + n * 4 < 2 ^ 32" using n by (simp add: sizeof_Queue_def)
  from create_fits [OF k n(1) _ this] c have "queue_ok x s' \<and> queue_items x s' = [] \<and> queue_cap x s' = n" by auto
  moreover have "uxItemSize (queues s' x) = 4"
  proof -
    obtain p k' where "pvPortMalloc ((sizeof_Queue + queue_bytes n 4) mod 2 ^ 32) (kern s) = (p, k')" by fastforce
    from create_eq [OF this, of ] c show ?thesis by (auto split: if_splits)
  qed
  ultimately show ?thesis by (simp add: mbox_ok_def mbox_items_def)
qed

subsection \<open>Properties\<close>

text \<open>C18: A mailbox loses, duplicates and reorders no message. Once \<open>sys_mbox_new\<close> has returned a mailbox, then
  whatever sequence of posts by tasks and interrupts and of fetches follows, the pointers fetched
  followed by those still in the mailbox are exactly the pointers accepted, in order, and never more
  than its size are stored.\<close>

theorem mailbox_fifo:
  assumes k: "kinv (kern s)" "uxSchedulerSuspended (kern s) = 0" "heap_rep (heap (kern s)) R" "disjoint_regions R"
    and n: "0 < n" "n < 2 ^ 20" and e: "sys_mbox_new n s = ((ERR_OK, x), s0)"
    and r: "list_all (op_valid (\<lambda>msg. msg < 2 ^ 32)) ops" "fifo_run (mbox_post g x) (mbox_fetch g x) ops s0 = (accepted, received, s')"
  shows "received @ mbox_items x s' = accepted \<and> length (mbox_items x s') \<le> n"
proof -
  note N = sys_mbox_new_ok [OF k n e]
  note R = mbox.run_fifo [OF _ r(1) r(2)]
  have "length (mbox_items x s') \<le> queue_cap x s'" using N R by (intro mbox.bounded) simp
  then show ?thesis using N R by simp
qed

theorem mailbox_fifo_witness:
  "\<exists>s0. sys_mbox_new 2 demo_qsys = ((ERR_OK, 536871184), s0) \<and>
     (case fifo_run (mbox_post (window id) 536871184) (mbox_fetch (window id) 536871184)
        [Put from_task 4096, Put from_isr 8192, Put from_isr 12288, Get from_task] s0 of
      (accepted, received, s') \<Rightarrow> received @ mbox_items 536871184 s' = accepted \<and> length (mbox_items 536871184 s') \<le> 2)"
proof -
  obtain k h where m: "pvPortMalloc 80 demo_kernel = (536871184, k)" by (rule demo_malloc [of 80]) simp_all
  obtain s0 where c: "sys_mbox_new 2 demo_qsys = ((ERR_OK, 536871184), s0)"
    using create_eq [of 2 4 demo_qsys 536871184 k] m by (simp add: sys_mbox_new_def queue_bytes_def sizeof_Queue_def)
  let ?ops = "[Put from_task 4096, Put from_isr 8192, Put from_isr 12288, Get from_task]"
  obtain accepted received s' where "fifo_run (mbox_post (window id) 536871184) (mbox_fetch (window id) 536871184) ?ops s0 = (accepted, received, s')"
    using prod_cases3 by blast
  with mailbox_fifo [OF _ _ _ _ _ _ c _ this, of "{}"] c demo_kinv demo_heap show ?thesis
    by (simp add: disjoint_regions_def del: fifo_run.simps)
qed

text \<open>The time-out of a fetch is converted to ticks by a product in 32 bits. Up to 4294967 ms it is exact;
  from 4294968 ms on it wraps, and with that time-out a fetch from an empty mailbox returns
  \<open>SYS_ARCH_TIMEOUT\<close> at once instead of waiting for 71 minutes.\<close>

theorem mbox_fetch_timeout_wraps:
  assumes "uxMessagesWaiting (queues s x) = 0"
  shows "sys_arch_mbox_fetch (g # gs) x 4294968 s = Some ((SYS_ARCH_TIMEOUT, 0), s) \<and>
    (unat ms < 4294968 \<longrightarrow> pdMS_TO_TICKS ms = ms)"
proof (intro conjI impI)
  have "pdMS_TO_TICKS 4294968 = 0" by (simp add: pdMS_TO_TICKS_def configTICK_RATE_HZ_def)
  then show "sys_arch_mbox_fetch (g # gs) x 4294968 s = Some ((SYS_ARCH_TIMEOUT, 0), s)"
    using assms by (simp add: sys_arch_mbox_fetch_def xQueueReceive_try_def)
  assume "unat ms < 4294968"
  then have "unat ms * 1000 < 2 ^ 32" by simp
  then have "unat (ms * 1000) = unat ms * 1000" by (simp add: unat_word_ariths)
  then show "pdMS_TO_TICKS ms = ms" unfolding pdMS_TO_TICKS_def configTICK_RATE_HZ_def
    by (intro word_unat_eq_iff [THEN iffD2]) (simp add: unat_div_distrib)
qed

theorem mbox_fetch_timeout_wraps_witness:
  "sys_arch_mbox_fetch [window id] 7 4294968 (demo_queue 4 4) = Some ((SYS_ARCH_TIMEOUT, 0), demo_queue 4 4) \<and> pdMS_TO_TICKS 4294967 = 4294967"
  using mbox_fetch_timeout_wraps [of "demo_queue 4 4" 7 "window id" "[]" 4294967] by simp

end
