(* ===== verification/PbufData.thy ===== *)
theory PbufData
  imports LwipBase
begin

text \<open>
  Packet buffers as the network stack keeps them: the structure \<open>pbuf\<close>, chains of them in memory, and the
  bytes a chain stands for.
\<close>

text \<open>The 16-bit and 8-bit fields are numbers; an operation that can exceed their width truncates
  as the code does. A pointer is an address, \<open>0\<close> for \<open>NULL\<close>.\<close>

record pbuf =
  pbuf_next :: nat
  payload :: nat
  tot_len :: nat
  pbuf_len :: nat
  type_internal :: u8
  pbuf_flags :: u8
  pbuf_ref :: nat
  if_idx :: u8

definition u16_t :: "nat \<Rightarrow> nat" where "u16_t n = n mod 2 ^ 16"
definition u8_t :: "nat \<Rightarrow> nat" where "u8_t n = n mod 2 ^ 8"

text \<open>The chain that starts at an address: its buffers are different and end with \<open>NULL\<close>.\<close>

fun pchain :: "(nat \<Rightarrow> pbuf) \<Rightarrow> nat \<Rightarrow> nat list \<Rightarrow> bool" where
  "pchain P p [] \<longleftrightarrow> p = 0"
| "pchain P p (q # qs) \<longleftrightarrow> p = q \<and> q \<noteq> 0 \<and> q \<notin> set qs \<and> pchain P (pbuf_next (P q)) qs"

definition pbuf_bytes :: "(nat \<Rightarrow> pbuf) \<Rightarrow> bytes \<Rightarrow> nat \<Rightarrow> u8 list" where
  "pbuf_bytes P m q = read_bytes (payload (P q)) (pbuf_len (P q)) m"

definition chain_bytes :: "(nat \<Rightarrow> pbuf) \<Rightarrow> bytes \<Rightarrow> nat list \<Rightarrow> u8 list" where
  "chain_bytes P m qs = concat (map (pbuf_bytes P m) qs)"

lemma chain_bytes_simps [simp]:
  "chain_bytes P m [] = []" "chain_bytes P m (q # qs) = pbuf_bytes P m q @ chain_bytes P m qs"
  "chain_bytes P m (qs @ rs) = chain_bytes P m qs @ chain_bytes P m rs"
  by (simp_all add: chain_bytes_def)

lemma length_pbuf_bytes [simp]: "length (pbuf_bytes P m q) = pbuf_len (P q)"
  by (simp add: pbuf_bytes_def)

lemma length_chain_bytes: "length (chain_bytes P m qs) = sum_list (map (\<lambda>q. pbuf_len (P q)) qs)"
  by (induction qs) simp_all

text \<open>A packet of five bytes in two buffers.\<close>

definition demo_pbufs :: "nat \<Rightarrow> pbuf" where
  "demo_pbufs = (\<lambda>_. \<lparr>pbuf_next = 0, payload = 0, tot_len = 0, pbuf_len = 0, type_internal = 0, pbuf_flags = 0, pbuf_ref = 1, if_idx = 0\<rparr>)
     (100 := \<lparr>pbuf_next = 200, payload = 1001, tot_len = 5, pbuf_len = 3, type_internal = 0, pbuf_flags = 0, pbuf_ref = 1, if_idx = 0\<rparr>,
      200 := \<lparr>pbuf_next = 0, payload = 2000, tot_len = 2, pbuf_len = 2, type_internal = 0, pbuf_flags = 0, pbuf_ref = 1, if_idx = 0\<rparr>)"

definition demo_bytes :: bytes where
  "demo_bytes = write_bytes 1001 [1, 2, 3] (write_bytes 2000 [4, 5] (\<lambda>_. 0))"

lemma demo_chain:
  "pchain demo_pbufs 100 [100, 200]" "\<forall>q \<in> set [100, 200]. pbuf_len (demo_pbufs q) < 2 ^ 16"
  "pbuf_bytes demo_pbufs demo_bytes 100 = [1, 2, 3]" "pbuf_bytes demo_pbufs demo_bytes 200 = [4, 5]"
  by (simp_all add: demo_pbufs_def demo_bytes_def pbuf_bytes_def read_bytes_def write_bytes_def upt_conv_Cons)

end
