(* ===== verification/InetChksum.thy ===== *)
theory InetChksum
  imports PbufData
begin

unbundle bit_operations_syntax

text \<open>
  The Internet checksum, \<open>inet_chksum.c\<close>, in the version for unaligned buffers that the configuration
  chooses, over one buffer and over chains of packet buffers, with and without the pseudo header.
  All variants are shown equal to the reference definition of RFC 1071.
\<close>

subsection \<open>The code\<close>

definition FOLD_U32T :: "u32 \<Rightarrow> u32" where
  "FOLD_U32T u = drop_bit 16 u + (u AND 0x0000ffff)"

definition SWAP_BYTES_IN_WORD :: "u32 \<Rightarrow> u32" where
  "SWAP_BYTES_IN_WORD w = push_bit 8 (w AND 0xff) OR drop_bit 8 (w AND 0xff00)"

text \<open>A half-word of memory, the byte at the lower address least significant.\<close>

definition half_word :: "u8 \<Rightarrow> u8 \<Rightarrow> u16" where
  "half_word b0 b1 = ucast b0 + 256 * ucast b1"

text \<open>The bulk of the data: the new \<open>ps\<close>, \<open>len\<close> and \<open>sum\<close> (here \<open>acc\<close>).\<close>

fun chksum_bulk :: "bytes \<Rightarrow> nat \<Rightarrow> nat \<Rightarrow> u32 \<Rightarrow> nat \<times> nat \<times> u32" where
  "chksum_bulk m ps len acc =
     (if len > 1 then chksum_bulk m (ps + 2) (len - 2) (acc + ucast (half_word (m ps) (m (ps + 1)))) else (ps, len, acc))"

declare chksum_bulk.simps [simp del]

text \<open>\<open>t0\<close> and \<open>t1\<close> are the two bytes of \<open>t\<close>.\<close>

definition lwip_standard_chksum :: "bytes \<Rightarrow> nat \<Rightarrow> nat \<Rightarrow> u16" where
  "lwip_standard_chksum m dataptr len =
     (let isodd = odd dataptr;
          (t1, pb, len) = (if isodd \<and> len > 0 then (m dataptr, dataptr + 1, len - 1) else (0, dataptr, len));
          (ps, len, acc) = chksum_bulk m pb len 0;
          t0 = (if len > 0 then m ps else 0);
          acc = acc + ucast (half_word t0 t1);
          acc = FOLD_U32T acc;
          acc = FOLD_U32T acc;
          acc = (if isodd then SWAP_BYTES_IN_WORD acc else acc)
      in ucast acc)"

text \<open>The loop over the chain; the result is \<open>acc\<close> and \<open>swapped\<close>. A cyclic chain does not end.\<close>

partial_function (option) chksum_chain :: "(nat \<Rightarrow> pbuf) \<Rightarrow> bytes \<Rightarrow> nat \<Rightarrow> u32 \<Rightarrow> bool \<Rightarrow> (u32 \<times> bool) option" where
  "chksum_chain P m q acc swapped =
     (if q = 0 then Some (acc, swapped)
      else let acc = acc + ucast (lwip_standard_chksum m (payload (P q)) (pbuf_len (P q)));
               acc = FOLD_U32T acc
           in if odd (pbuf_len (P q)) then chksum_chain P m (pbuf_next (P q)) (SWAP_BYTES_IN_WORD acc) (\<not> swapped)
              else chksum_chain P m (pbuf_next (P q)) acc swapped)"

definition lwip_htons :: "u16 \<Rightarrow> u16" where
  "lwip_htons n = push_bit 8 (n AND 0x00ff) OR drop_bit 8 (n AND 0xff00)"

definition pseudo_end :: "u8 \<Rightarrow> u16 \<Rightarrow> u32 \<times> bool \<Rightarrow> u16" where
  "pseudo_end proto proto_len = (\<lambda>(acc, swapped).
     let acc = (if swapped then SWAP_BYTES_IN_WORD acc else acc);
         acc = acc + ucast (lwip_htons (ucast proto));
         acc = acc + ucast (lwip_htons proto_len);
         acc = FOLD_U32T acc;
         acc = FOLD_U32T acc
     in ucast (NOT (acc AND 0xffff)))"

definition inet_cksum_pseudo_base :: "(nat \<Rightarrow> pbuf) \<Rightarrow> bytes \<Rightarrow> nat \<Rightarrow> u8 \<Rightarrow> u16 \<Rightarrow> u32 \<Rightarrow> u16 option" where
  "inet_cksum_pseudo_base P m p proto proto_len acc = map_option (pseudo_end proto proto_len) (chksum_chain P m p acc False)"

definition pseudo_addrs :: "u32 \<Rightarrow> u32 \<Rightarrow> u32" where
  "pseudo_addrs src dest =
     (let acc = src AND 0xffff;
          acc = acc + (drop_bit 16 src AND 0xffff);
          acc = acc + (dest AND 0xffff);
          acc = acc + (drop_bit 16 dest AND 0xffff);
          acc = FOLD_U32T acc
      in FOLD_U32T acc)"

definition inet_chksum_pseudo :: "(nat \<Rightarrow> pbuf) \<Rightarrow> bytes \<Rightarrow> nat \<Rightarrow> u8 \<Rightarrow> u16 \<Rightarrow> u32 \<Rightarrow> u32 \<Rightarrow> u16 option" where
  "inet_chksum_pseudo P m p proto proto_len src dest = inet_cksum_pseudo_base P m p proto proto_len (pseudo_addrs src dest)"

text \<open>Only IPv4 is configured.\<close>

definition ip_chksum_pseudo :: "(nat \<Rightarrow> pbuf) \<Rightarrow> bytes \<Rightarrow> nat \<Rightarrow> u8 \<Rightarrow> u16 \<Rightarrow> u32 \<Rightarrow> u32 \<Rightarrow> u16 option" where
  "ip_chksum_pseudo P m p proto proto_len src dest = inet_chksum_pseudo P m p proto proto_len src dest"

text \<open>The loop over the first \<open>chksum_len\<close> bytes of a chain. The parity that decides the swap is that of the
  whole buffer, not of the part that is summed.\<close>

partial_function (option) chksum_partial :: "(nat \<Rightarrow> pbuf) \<Rightarrow> bytes \<Rightarrow> nat \<Rightarrow> nat \<Rightarrow> u32 \<Rightarrow> bool \<Rightarrow> (u32 \<times> bool) option" where
  "chksum_partial P m q chksum_len acc swapped =
     (if q \<noteq> 0 \<and> chksum_len > 0
      then let chklen = (if pbuf_len (P q) > chksum_len then chksum_len else pbuf_len (P q));
               acc = acc + ucast (lwip_standard_chksum m (payload (P q)) chklen);
               acc = FOLD_U32T acc
           in if odd (pbuf_len (P q))
              then chksum_partial P m (pbuf_next (P q)) (chksum_len - chklen) (SWAP_BYTES_IN_WORD acc) (\<not> swapped)
              else chksum_partial P m (pbuf_next (P q)) (chksum_len - chklen) acc swapped
      else Some (acc, swapped))"

definition inet_cksum_pseudo_partial_base :: "(nat \<Rightarrow> pbuf) \<Rightarrow> bytes \<Rightarrow> nat \<Rightarrow> u8 \<Rightarrow> u16 \<Rightarrow> nat \<Rightarrow> u32 \<Rightarrow> u16 option" where
  "inet_cksum_pseudo_partial_base P m p proto proto_len chksum_len acc =
     map_option (pseudo_end proto proto_len) (chksum_partial P m p chksum_len acc False)"

definition inet_chksum_pseudo_partial :: "(nat \<Rightarrow> pbuf) \<Rightarrow> bytes \<Rightarrow> nat \<Rightarrow> u8 \<Rightarrow> u16 \<Rightarrow> nat \<Rightarrow> u32 \<Rightarrow> u32 \<Rightarrow> u16 option" where
  "inet_chksum_pseudo_partial P m p proto proto_len chksum_len src dest =
     inet_cksum_pseudo_partial_base P m p proto proto_len chksum_len (pseudo_addrs src dest)"

definition ip_chksum_pseudo_partial :: "(nat \<Rightarrow> pbuf) \<Rightarrow> bytes \<Rightarrow> nat \<Rightarrow> u8 \<Rightarrow> u16 \<Rightarrow> nat \<Rightarrow> u32 \<Rightarrow> u32 \<Rightarrow> u16 option" where
  "ip_chksum_pseudo_partial P m p proto proto_len chksum_len src dest = inet_chksum_pseudo_partial P m p proto proto_len chksum_len src dest"

definition inet_chksum :: "bytes \<Rightarrow> nat \<Rightarrow> nat \<Rightarrow> u16" where
  "inet_chksum m dataptr len = NOT (lwip_standard_chksum m dataptr len)"

definition inet_chksum_pbuf :: "(nat \<Rightarrow> pbuf) \<Rightarrow> bytes \<Rightarrow> nat \<Rightarrow> u16 option" where
  "inet_chksum_pbuf P m p = map_option (\<lambda>(acc, swapped).
     let acc = (if swapped then SWAP_BYTES_IN_WORD acc else acc) in ucast (NOT (acc AND 0xffff))) (chksum_chain P m p 0 False)"

subsection \<open>The reference\<close>

text \<open>RFC 1071: the data as 16-bit words, a last odd byte padded with zero, added with end-around carry. The
  words are taken in the byte order of the machine, as the RFC allows.\<close>

fun words16 :: "u8 list \<Rightarrow> nat list" where
  "words16 [] = []"
| "words16 [b] = [unat b]"
| "words16 (b # c # bs) = (unat b + 256 * unat c) # words16 bs"

definition oc_add :: "nat \<Rightarrow> nat \<Rightarrow> nat" where
  "oc_add a b = (if a + b > 65535 then a + b - 65535 else a + b)"

definition rfc1071_sum :: "u8 list \<Rightarrow> nat" where
  "rfc1071_sum bs = foldr oc_add (words16 bs) 0"

definition rfc1071 :: "u8 list \<Rightarrow> u16" where
  "rfc1071 bs = of_nat (65535 - rfc1071_sum bs)"

subsection \<open>One's complement arithmetic\<close>

text \<open>The representative of a number modulo 65535 that end-around carry produces: zero only for zero.\<close>

definition oc :: "nat \<Rightarrow> nat" where
  "oc n = (if n = 0 then 0 else (n - 1) mod 65535 + 1)"

lemma oc_small [simp]: "n \<le> 65535 \<Longrightarrow> oc n = n"
  by (auto simp: oc_def)

lemma oc_le [simp]: "oc n \<le> 65535"
proof -
  have "(n - 1) mod 65535 \<le> 65534" by (rule less_Suc_eq_le [THEN iffD1]) simp
  then show ?thesis by (simp add: oc_def)
qed

lemma oc_0_iff [simp]: "oc n = 0 \<longleftrightarrow> n = 0" "0 = oc n \<longleftrightarrow> n = 0"
  by (auto simp: oc_def)

lemma oc_mod: "oc n mod 65535 = n mod 65535"
proof (cases n)
  case (Suc k)
  have "(k mod 65535 + 1) mod 65535 = (k + 1) mod 65535" by (rule mod_add_left_eq)
  then show ?thesis using Suc by (simp add: oc_def)
qed (simp add: oc_def)

lemma oc_eqI:
  assumes "a mod 65535 = b mod 65535" "a = 0 \<longleftrightarrow> b = 0"
  shows "oc a = oc b"
proof (cases "a = 0")
  case False
  then have z: "a \<noteq> 0" "b \<noteq> 0" using assms by auto
  have "(oc a) mod 65535 = (oc b) mod 65535" using assms by (simp add: oc_mod)
  moreover have "0 < oc a" "0 < oc b" "oc a \<le> 65535" "oc b \<le> 65535" using z by (auto simp: neq0_conv [symmetric] simp del: neq0_conv)
  moreover have "x = y" if "0 < x" "x \<le> 65535" "0 < y" "y \<le> 65535" "x mod 65535 = y mod 65535" for x y :: nat
    using that by (cases "x = 65535"; cases "y = 65535") auto
  ultimately show ?thesis by blast
qed (use assms in simp)

lemma oc_idem [simp]: "oc (oc a) = oc a" by simp

lemma oc_add_left [simp]: "oc (oc a + b) = oc (a + b)"
  by (rule oc_eqI) (metis mod_add_left_eq oc_mod, auto)

lemma oc_add_right [simp]: "oc (a + oc b) = oc (a + b)"
  by (metis add.commute oc_add_left)

lemma oc_cong_add: "oc a = oc b \<Longrightarrow> oc (a + c) = oc (b + c)"
  by (metis oc_add_left)

lemma oc_mult [simp]: "oc (c * oc a) = oc (c * a)"
  by (rule oc_eqI) (metis mod_mult_right_eq oc_mod, auto)

lemma oc_65536: "oc (65536 * a) = oc a"
proof (rule oc_eqI)
  have "65536 * a = a + 65535 * a" by simp
  then show "65536 * a mod 65535 = a mod 65535" by (metis mod_mult_self2)
qed simp

lemma oc_add_oc: "a \<le> 65535 \<Longrightarrow> b \<le> 65535 \<Longrightarrow> oc_add a b = oc (a + b)"
proof -
  assume *: "a \<le> 65535" "b \<le> 65535"
  show "oc_add a b = oc (a + b)"
  proof (cases "a + b > 65535")
    case True
    then have "oc (a + b) = oc (a + b - 65535)" by (intro oc_eqI) (simp add: le_mod_geq, linarith)
    then show ?thesis using True * by (simp add: oc_add_def)
  qed (simp add: oc_add_def)
qed

text \<open>The bytes with their weights, the first at an even or odd position.\<close>

fun wsum :: "bool \<Rightarrow> u8 list \<Rightarrow> nat" where
  "wsum e [] = 0"
| "wsum e (b # bs) = (if e then unat b else 256 * unat b) + wsum (\<not> e) bs"

lemma wsum_append: "wsum e (xs @ ys) = wsum e xs + wsum (if even (length xs) then e else \<not> e) ys"
  by (induction xs arbitrary: e) auto

lemma wsum_swap: "oc (256 * wsum e bs) = oc (wsum (\<not> e) bs)"
proof (induction bs arbitrary: e)
  case (Cons b bs)
  have "oc (256 * wsum e (b # bs)) = oc (256 * (if e then unat b else 256 * unat b) + oc (256 * wsum (\<not> e) bs))"
    by (simp add: algebra_simps)
  also have "\<dots> = oc (oc (256 * (if e then unat b else 256 * unat b)) + wsum e bs)" using Cons [of "\<not> e"] by simp
  also have "oc (256 * (if e then unat b else 256 * unat b)) = oc (if e then 256 * unat b else unat b)"
    using oc_65536 [of "unat b"] by simp
  finally show ?case by simp
qed simp

lemma unat_u8: "unat (b :: u8) < 256"
  using unsigned_less [where ?'a = nat, of b] by simp

lemma words16_le: "x \<in> set (words16 bs) \<Longrightarrow> x \<le> 65535"
proof (induction bs rule: words16.induct)
  case (2 b)
  then show ?case using unat_u8 [of b] by simp
next
  case (3 b c bs)
  then show ?case using unat_u8 [of b] unat_u8 [of c] by auto
qed simp

lemma rfc1071_sum_oc: "rfc1071_sum bs = oc (wsum True bs)"
proof -
  have *: "foldr oc_add ws 0 = oc (sum_list ws)" if "\<forall>x \<in> set ws. x \<le> 65535" for ws
    using that by (induction ws) (simp_all add: oc_add_oc)
  have "sum_list (words16 bs) = wsum True bs" by (induction bs rule: words16.induct) simp_all
  then show ?thesis using * [of "words16 bs"] words16_le by (simp add: rfc1071_sum_def)
qed


subsection \<open>The word operations\<close>

lemma low_bits: "u AND 0xffff = take_bit 16 u" "u AND 0xff = take_bit 8 u" for u :: u32
  using take_bit_eq_mask [of 16 u] take_bit_eq_mask [of 8 u] by (simp_all add: mask_eq_exp_minus_1)

lemma unat_low: "unat (u AND 0xffff :: u32) = unat u mod 65536"
  unfolding low_bits by (simp add: take_bit_eq_mod unat_mod_distrib)

lemma unat_high: "unat (drop_bit 16 u :: u32) = unat u div 65536"
  by (simp add: drop_bit_eq_div unat_div_distrib)

lemma unat_FOLD: "unat (FOLD_U32T u) = unat u div 65536 + unat u mod 65536"
proof -
  have "unat u < 2 ^ 32" using unsigned_less [where ?'a = nat, of u] by simp
  then have "unat u div 65536 + unat u mod 65536 < 2 ^ 32" by simp
  then show ?thesis by (simp add: FOLD_U32T_def unat_word_ariths unat_low unat_high)
qed

lemma fold_oc: "oc (n div 65536 + n mod 65536) = oc n"
proof -
  have "oc n = oc (65536 * (n div 65536) + n mod 65536)" by simp
  also have "\<dots> = oc (oc (65536 * (n div 65536)) + n mod 65536)" by (simp only: oc_add_left)
  finally show ?thesis by (simp only: oc_65536 oc_add_left)
qed

lemma FOLD_once: "unat u \<le> 131070 \<Longrightarrow> unat (FOLD_U32T u) = oc (unat u)"
proof -
  assume a: "unat u \<le> 131070"
  have "unat u div 65536 + unat u mod 65536 \<le> 65535"
  proof (cases "unat u < 65536")
    case False
    then have "unat u = 65536 + (unat u - 65536)" "unat u - 65536 < 65536" using a by auto
    then have "unat u div 65536 = 1" "unat u mod 65536 = unat u - 65536" using a False by (auto simp: div_nat_eqI le_mod_geq)
    then show ?thesis using a by simp
  qed simp
  then have "unat (FOLD_U32T u) = oc (unat u div 65536 + unat u mod 65536)" by (simp add: unat_FOLD)
  then show ?thesis by (simp add: fold_oc)
qed

lemma FOLD_twice: "unat (FOLD_U32T (FOLD_U32T u)) = oc (unat u)"
proof -
  have "unat u < 2 ^ 32" using unsigned_less [where ?'a = nat, of u] by simp
  then have "unat u div 65536 \<le> 65535" by (simp add: less_mult_imp_div_less less_Suc_eq_le [symmetric])
  moreover have "unat u mod 65536 \<le> 65535" by (simp add: less_Suc_eq_le [symmetric])
  ultimately have "unat (FOLD_U32T u) \<le> 131070" by (simp add: unat_FOLD)
  from FOLD_once [OF this] show ?thesis by (simp add: unat_FOLD fold_oc)
qed

lemma unat_SWAP:
  assumes "unat w \<le> 65535" shows "unat (SWAP_BYTES_IN_WORD w) = oc (256 * unat w)"
proof -
  let ?h = "unat w div 256" and ?l = "unat w mod 256"
  have d: "drop_bit 8 (w AND 0xff00) = take_bit 8 (drop_bit 8 w)"
    using low_bits(2) [of "drop_bit 8 w"] by (simp add: drop_bit_and)
  have "SWAP_BYTES_IN_WORD w = push_bit 8 (take_bit 8 w) + take_bit 8 (drop_bit 8 w)"
    unfolding SWAP_BYTES_IN_WORD_def d low_bits
    by (rule disjunctive_add [symmetric]) (auto simp: bit_push_bit_iff bit_take_bit_iff)
  also have "\<dots> = 256 * (w mod 256) + (w div 256) mod 256"
    by (simp add: push_bit_eq_mult take_bit_eq_mod drop_bit_eq_div mult.commute)
  finally have e: "SWAP_BYTES_IN_WORD w = 256 * (w mod 256) + (w div 256) mod 256" .
  have h: "?h < 256" using assms by (simp add: div_less_iff_less_mult)
  then have "256 * ?l + ?h < 2 ^ 32" by (simp add: add_less_mono [of "256 * ?l" 65536 ?h 256, simplified])
  then have u: "unat (SWAP_BYTES_IN_WORD w) = 256 * ?l + ?h"
    using h by (simp add: e unat_word_ariths unat_mod_distrib unat_div_distrib)
  have "256 * unat w = 256 * ?l + 65536 * ?h" using div_mult_mod_eq [of "unat w" 256] by linarith
  then have "oc (256 * unat w) = oc (256 * ?l + oc (65536 * ?h))" by (simp only: oc_add_right)
  also have "\<dots> = oc (256 * ?l + ?h)" by (simp only: oc_65536 oc_add_right)
  also have "\<dots> = 256 * ?l + ?h"
  proof (rule oc_small)
    have "?l \<le> 255" by (rule less_Suc_eq_le [THEN iffD1]) simp
    then show "256 * ?l + ?h \<le> 65535" using h by linarith
  qed
  finally show ?thesis by (simp add: u)
qed

subsection \<open>The loops compute the reference\<close>

lemma unat_up:
  "unat (ucast b :: u16) = unat b" "unat (ucast b :: u32) = unat b" "unat (ucast h :: u32) = unat h" for b :: u8 and h :: u16
  using unat_u8 [of b] unsigned_less [where ?'a = nat, of h] by (simp_all add: unsigned_ucast_eq take_bit_eq_mod)

lemma unat_half_word: "unat (ucast (half_word b c) :: u32) = unat b + 256 * unat c"
proof -
  have "unat b + 256 * unat c < 65536" using unat_u8 [of b] unat_u8 [of c] by linarith
  then have "unat (half_word b c) = unat b + 256 * unat c"
    by (simp add: half_word_def unat_word_ariths unat_up)
  then show ?thesis by (simp add: unat_up)
qed

lemma wsum_bound: "wsum e bs \<le> 65280 * length bs"
proof (induction bs arbitrary: e)
  case (Cons b bs)
  have "unat b \<le> 255" using unat_u8 [of b] by linarith
  then show ?case using Cons.IH [of "\<not> e"] by auto
qed simp

lemma bulk_sum:
  assumes "unat acc + wsum True (read_bytes ps len m) < 2 ^ 32"
  shows "\<exists>acc'. chksum_bulk m ps len acc = (ps + 2 * (len div 2), len mod 2, acc') \<and>
    unat acc' = unat acc + wsum True (read_bytes ps (2 * (len div 2)) m)"
  using assms
proof (induction m ps len acc rule: chksum_bulk.induct)
  case (1 m ps len acc)
  show ?case
  proof (cases "len > 1")
    case True
    then obtain n where n: "len = Suc (Suc n)" by (metis One_nat_def Suc_lessE less_imp_Suc_add add_2_eq_Suc')
    let ?acc = "acc + ucast (half_word (m ps) (m (ps + 1)))"
    have w: "wsum True (read_bytes ps len m) = unat (m ps) + 256 * unat (m (ps + 1)) + wsum True (read_bytes (ps + 2) n m)" by (simp add: n)
    then have u: "unat ?acc = unat acc + (unat (m ps) + 256 * unat (m (ps + 1)))" using 1(2) by (simp add: unat_word_ariths unat_half_word)
    obtain acc' where "chksum_bulk m (ps + 2) n ?acc = (ps + 2 + 2 * (n div 2), n mod 2, acc')"
      "unat acc' = unat ?acc + wsum True (read_bytes (ps + 2) (2 * (n div 2)) m)"
      using 1(1) [OF True] 1(2) w u n by auto
    then show ?thesis using u n by (subst chksum_bulk.simps) simp
  next
    case False
    then have l: "len div 2 = 0" "len mod 2 = len" by auto
    then show ?thesis using False by (subst chksum_bulk.simps) (simp only: l if_False, simp)
  qed
qed

lemma bytes_sum_bound: "wsum e (read_bytes x y m) \<le> 65280 * y"
  using wsum_bound [of e "read_bytes x y m"] by simp

text \<open>The sum before folding, with the odd bytes at both ends in \<open>t\<close>.\<close>

lemma unfolded_sum:
  assumes n: "n \<le> 65535" and k: "k = (if odd a \<and> n > 0 then 1 else 0)"
  obtains acc where "chksum_bulk m (a + k) (n - k) 0 = (a + k + 2 * ((n - k) div 2), (n - k) mod 2, acc)"
    "unat (acc + ucast (half_word (if (n - k) mod 2 > 0 then m (a + k + 2 * ((n - k) div 2)) else 0) (if k = 1 then m a else 0))) =
       wsum (even a) (read_bytes a n m)"
proof -
  let ?l = "n - k" and ?pb = "a + k"
  let ?t0 = "if ?l mod 2 > 0 then m (?pb + 2 * (?l div 2)) else 0" and ?t1 = "if k = 1 then m a else 0"
  have lt: "65280 * n < 2 ^ 32" "65280 * ?l < 2 ^ 32" using n by simp_all
  have "unat (0 :: u32) + wsum True (read_bytes ?pb ?l m) < 2 ^ 32"
    using bytes_sum_bound [of True ?pb ?l m] lt(2) by (simp only: unsigned_0 add_0 order.strict_trans1)
  from bulk_sum [OF this] obtain acc where acc: "chksum_bulk m ?pb ?l 0 = (?pb + 2 * (?l div 2), ?l mod 2, acc)"
    "unat acc = wsum True (read_bytes ?pb (2 * (?l div 2)) m)" by auto
  have "read_bytes ?pb ?l m = read_bytes ?pb (2 * (?l div 2)) m @ read_bytes (?pb + 2 * (?l div 2)) (?l mod 2) m"
    by (metis read_bytes_add mult_div_mod_eq)
  then have w: "wsum True (read_bytes ?pb ?l m) = unat acc + unat ?t0" using acc(2) by (simp add: wsum_append mod2_eq_if)
  have W: "wsum (even a) (read_bytes a n m) = unat acc + unat ?t0 + 256 * unat ?t1"
  proof (cases "k = 1")
    case True
    then have "odd a \<and> n > 0" using k by (metis zero_neq_one)
    then obtain n' where "n = Suc n'" "odd a" using gr0_conv_Suc by auto
    then show ?thesis using w True by simp
  next
    case False
    then have "\<not> (odd a \<and> n > 0)" using k by metis
    then have "k = 0" "odd a \<Longrightarrow> n = 0" using k by auto
    then show ?thesis using w by (cases "odd a") auto
  qed
  have "unat acc + unat (ucast (half_word ?t0 ?t1) :: u32) < 2 ^ 32"
    using W bytes_sum_bound [of "even a" a n m] lt(1) unfolding unat_half_word by linarith
  then have "unat (acc + ucast (half_word ?t0 ?t1)) = unat acc + unat (ucast (half_word ?t0 ?t1) :: u32)"
    by (simp add: unat_word_ariths)
  then show ?thesis using that acc(1) W unfolding unat_half_word by simp
qed

lemma standard_chksum:
  assumes "n \<le> 65535"
  shows "unat (lwip_standard_chksum m a n) = oc (wsum True (read_bytes a n m))"
proof -
  define k where "k = (if odd a \<and> n > 0 then 1 else 0 :: nat)"
  obtain acc where acc: "chksum_bulk m (a + k) (n - k) 0 = (a + k + 2 * ((n - k) div 2), (n - k) mod 2, acc)"
    "unat (acc + ucast (half_word (if (n - k) mod 2 > 0 then m (a + k + 2 * ((n - k) div 2)) else 0) (if k = 1 then m a else 0))) =
       wsum (even a) (read_bytes a n m)" by (rule unfolded_sum [OF assms k_def])
  let ?s = "acc + ucast (half_word (if (n - k) mod 2 > 0 then m (a + k + 2 * ((n - k) div 2)) else 0) (if k = 1 then m a else 0))"
  have L: "lwip_standard_chksum m a n =
    ucast (if odd a then SWAP_BYTES_IN_WORD (FOLD_U32T (FOLD_U32T ?s)) else FOLD_U32T (FOLD_U32T ?s))"
  proof (cases "odd a \<and> n > 0")
    case True
    then show ?thesis using acc(1) by (simp add: lwip_standard_chksum_def Let_def k_def)
  next
    case False
    then have k: "k = 0" by (auto simp: k_def)
    have "(if odd a \<and> n > 0 then (m a, a + 1, n - 1) else (0, a, n)) = (0, a, n)" by (rule if_not_P) (use False in blast)
    then show ?thesis using acc(1) k unfolding lwip_standard_chksum_def Let_def by simp
  qed
  have c: "unat (ucast v :: u16) = unat v" if "unat v \<le> 65535" for v :: u32
    using that by (simp add: unsigned_ucast_eq take_bit_eq_mod)
  show ?thesis
    using wsum_swap [of False "read_bytes a n m"] acc(2) by (cases "odd a") (simp_all add: L c unat_SWAP FOLD_twice)
qed

text \<open>One buffer of a chain, with the swap after a buffer of odd length.\<close>

lemma buffer_step:
  assumes a: "unat acc \<le> 65535" and n: "n \<le> 65535"
  shows "unat (if z then SWAP_BYTES_IN_WORD (FOLD_U32T (acc + ucast (lwip_standard_chksum m b n)))
      else FOLD_U32T (acc + ucast (lwip_standard_chksum m b n))) =
    oc ((if z then 256 else 1) * (unat acc + wsum True (read_bytes b n m)))"
proof -
  let ?w = "wsum True (read_bytes b n m)" and ?a = "acc + ucast (lwip_standard_chksum m b n)"
  have s: "unat (ucast (lwip_standard_chksum m b n) :: u32) = oc ?w"
    using standard_chksum [OF n, of m b] by (simp add: unat_up)
  have "unat acc + oc ?w < 4294967296" using a oc_le [of ?w] by linarith
  then have u: "unat ?a = unat acc + oc ?w" by (simp add: unat_word_ariths s)
  have "unat ?a \<le> 131070" using a oc_le [of ?w] unfolding u by linarith
  from FOLD_once [OF this] have "unat (FOLD_U32T ?a) = oc (unat acc + ?w)" by (simp add: u)
  then show ?thesis by (auto simp: unat_SWAP)
qed

lemma unswap:
  "oc ((if (if z then \<not> sw else sw) then 256 else 1) * oc ((if z then 256 else 1) * (a + wsum True d))) =
    oc ((if sw then 256 else 1) * a + wsum (\<not> sw) d)"
proof (cases sw)
  case True
  have "oc (256 * (a + wsum True d)) = oc (256 * a + oc (256 * wsum True d))" by (simp add: algebra_simps)
  also have "\<dots> = oc (256 * a + wsum False d)" using wsum_swap [of True d] by simp
  finally show ?thesis using True by simp
next
  case False
  then show ?thesis using oc_65536 [of "a + wsum True d"] by (simp add: mult.assoc [symmetric])
qed

lemma chain_sum:
  assumes "pchain P q qs" "\<forall>p \<in> set qs. pbuf_len (P p) \<le> 65535" "unat acc \<le> 65535"
  shows "\<exists>acc' sw'. chksum_chain P m q acc sw = Some (acc', sw') \<and> unat acc' \<le> 65535 \<and>
    oc ((if sw' then 256 else 1) * unat acc') = oc ((if sw then 256 else 1) * unat acc + wsum (\<not> sw) (chain_bytes P m qs))"
  using assms
proof (induction qs arbitrary: q acc sw)
  case Nil
  then show ?case by (simp add: chksum_chain.simps)
next
  case (Cons p qs)
  let ?d = "pbuf_bytes P m p" and ?o = "odd (pbuf_len (P q))"
  let ?a = "FOLD_U32T (acc + ucast (lwip_standard_chksum m (payload (P q)) (pbuf_len (P q))))"
  have q: "q = p" "q \<noteq> 0" "pchain P (pbuf_next (P q)) qs" "pbuf_len (P p) \<le> 65535" using Cons.prems by auto
  let ?b = "if ?o then SWAP_BYTES_IN_WORD ?a else ?a" and ?sw = "if ?o then \<not> sw else sw"
  have S: "unat ?b = oc ((if ?o then 256 else 1) * (unat acc + wsum True ?d))"
    using q unfolding pbuf_bytes_def by (subst buffer_step [OF Cons.prems(3)]) auto
  have e: "chksum_chain P m q acc sw = chksum_chain P m (pbuf_next (P q)) ?b ?sw"
    using q(2) by (subst chksum_chain.simps) (simp add: Let_def)
  obtain acc' sw' where r: "chksum_chain P m (pbuf_next (P q)) ?b ?sw = Some (acc', sw')" "unat acc' \<le> 65535"
    "oc ((if sw' then 256 else 1) * unat acc') = oc ((if ?sw then 256 else 1) * unat ?b + wsum (\<not> ?sw) (chain_bytes P m qs))"
    using Cons.IH [OF q(3), of ?b ?sw] Cons.prems(2) S by (auto simp del: chain_bytes_simps)
  have x: "oc ((if ?sw then 256 else 1) * unat ?b) = oc ((if sw then 256 else 1) * unat acc + wsum (\<not> sw) ?d)"
    unfolding S by (rule unswap)
  have "oc ((if ?sw then 256 else 1) * unat ?b + wsum (\<not> ?sw) (chain_bytes P m qs)) =
      oc ((if sw then 256 else 1) * unat acc + wsum (\<not> sw) ?d + wsum (\<not> ?sw) (chain_bytes P m qs))"
    by (rule oc_cong_add [OF x])
  then show ?case using e r q(1) by (simp add: wsum_append add.assoc)
qed

text \<open>The partial loop: a swap after the last buffer is undone at the end, so its parity does not matter.\<close>

lemma partial_sum:
  assumes "pchain P q qs" "\<forall>p \<in> set qs. pbuf_len (P p) \<le> 65535" "unat acc \<le> 65535"
  shows "\<exists>acc' sw'. chksum_partial P m q n acc sw = Some (acc', sw') \<and> unat acc' \<le> 65535 \<and>
    oc ((if sw' then 256 else 1) * unat acc') = oc ((if sw then 256 else 1) * unat acc + wsum (\<not> sw) (take n (chain_bytes P m qs)))"
  using assms
proof (induction qs arbitrary: q n acc sw)
  case Nil
  then show ?case by (simp add: chksum_partial.simps)
next
  case (Cons p qs)
  show ?case
  proof (cases "n = 0")
    case True
    then show ?thesis using Cons.prems(3) by (simp add: chksum_partial.simps)
  next
    case False
    let ?k = "if pbuf_len (P q) > n then n else pbuf_len (P q)"
    let ?d = "take n (pbuf_bytes P m p)" and ?o = "odd (pbuf_len (P q))"
    let ?a = "FOLD_U32T (acc + ucast (lwip_standard_chksum m (payload (P q)) ?k))"
    have q: "q = p" "q \<noteq> 0" "pchain P (pbuf_next (P q)) qs" "pbuf_len (P p) \<le> 65535" using Cons.prems by auto
    let ?b = "if ?o then SWAP_BYTES_IN_WORD ?a else ?a" and ?sw = "if ?o then \<not> sw else sw"
    have d: "?d = read_bytes (payload (P q)) ?k m"
      using q(1) by (simp add: pbuf_bytes_def read_bytes_def take_map)
    have S: "unat ?b = oc ((if ?o then 256 else 1) * (unat acc + wsum True ?d))"
      unfolding d using q by (intro buffer_step [OF Cons.prems(3)]) auto
    have e: "chksum_partial P m q n acc sw = chksum_partial P m (pbuf_next (P q)) (n - ?k) ?b ?sw"
      using q(2) False by (subst chksum_partial.simps) (simp add: Let_def)
    obtain acc' sw' where r: "chksum_partial P m (pbuf_next (P q)) (n - ?k) ?b ?sw = Some (acc', sw')" "unat acc' \<le> 65535"
      "oc ((if sw' then 256 else 1) * unat acc') = oc ((if ?sw then 256 else 1) * unat ?b + wsum (\<not> ?sw) (take (n - ?k) (chain_bytes P m qs)))"
      using Cons.IH [OF q(3), of ?b "n - ?k" ?sw] Cons.prems(2) S by (auto simp del: chain_bytes_simps)
    have x: "oc ((if ?sw then 256 else 1) * unat ?b) = oc ((if sw then 256 else 1) * unat acc + wsum (\<not> sw) ?d)"
      unfolding S by (rule unswap)
    have t: "take n (chain_bytes P m (p # qs)) = ?d @ take (n - ?k) (chain_bytes P m qs)" using q(1) by simp
    have y: "wsum (\<not> sw) (take n (chain_bytes P m (p # qs))) = wsum (\<not> sw) ?d + wsum (\<not> ?sw) (take (n - ?k) (chain_bytes P m qs))"
      unfolding t wsum_append using q(1) by (cases "pbuf_len (P q) \<le> n") auto
    have "oc ((if ?sw then 256 else 1) * unat ?b + wsum (\<not> ?sw) (take (n - ?k) (chain_bytes P m qs))) =
        oc ((if sw then 256 else 1) * unat acc + wsum (\<not> sw) (take n (chain_bytes P m (p # qs))))"
      unfolding y add.assoc [symmetric] by (rule oc_cong_add [OF x])
    then show ?thesis using e r by simp
  qed
qed

subsection \<open>Properties\<close>

lemma unat_of_u16: "x \<le> 65535 \<Longrightarrow> unat (of_nat x :: u16) = x"
  by (simp add: unsigned_of_nat take_bit_eq_mod)

lemma not_u16: "NOT w = of_nat (65535 - unat w)" for w :: u16
proof -
  have "unat w \<le> 65535" using unsigned_less [where ?'a = nat, of w] by simp
  then have "(of_nat (65535 - unat w) :: u16) = - 1 - w" by (simp add: of_nat_diff)
  then show ?thesis by (simp add: not_eq_complement)
qed

lemma not_low: "unat acc \<le> 65535 \<Longrightarrow> (ucast (NOT (acc AND 0xffff)) :: u16) = of_nat (65535 - unat acc)" for acc :: u32
proof -
  assume a: "unat acc \<le> 65535"
  have "(ucast (NOT (acc AND 0xffff)) :: u16) = NOT (ucast acc)" unfolding low_bits
    by (rule bit_word_eqI) (simp add: bit_unsigned_iff bit_not_iff bit_take_bit_iff)
  moreover have "unat (ucast acc :: u16) = unat acc" using a by (simp add: unsigned_ucast_eq take_bit_eq_mod)
  ultimately show ?thesis by (simp add: not_u16)
qed

lemma unswapped:
  assumes "unat acc \<le> 65535" "oc ((if sw then 256 else 1) * unat acc) = oc x"
  shows "unat (if sw then SWAP_BYTES_IN_WORD acc else acc) = oc x"
  using assms by (cases sw) (simp_all add: unat_SWAP)

lemma rfc1071_oc: "rfc1071 bs = of_nat (65535 - oc (wsum True bs))"
  by (simp add: rfc1071_def rfc1071_sum_oc)

text \<open>C26: The checksum code computes the Internet checksum of RFC 1071, whatever the alignment of the data in
  memory and however a packet is cut into packet buffers, of odd and even lengths, empty ones
  included; and it returns for every chain.\<close>

theorem checksum_is_rfc1071:
  assumes "pchain P p qs" "\<forall>q \<in> set qs. pbuf_len (P q) < 2 ^ 16" "n < 2 ^ 16"
  shows "inet_chksum_pbuf P m p = Some (rfc1071 (chain_bytes P m qs)) \<and> inet_chksum m a n = rfc1071 (read_bytes a n m)"
proof
  obtain acc sw where r: "chksum_chain P m p 0 False = Some (acc, sw)" "unat acc \<le> 65535"
    "oc ((if sw then 256 else 1) * unat acc) = oc (wsum True (chain_bytes P m qs))"
    using chain_sum [OF assms(1), of 0 m False] assms(2) by force
  note u = unswapped [OF r(2,3)]
  show "inet_chksum_pbuf P m p = Some (rfc1071 (chain_bytes P m qs))"
    unfolding inet_chksum_pbuf_def r(1) rfc1071_oc Let_def option.map prod.case
    by (simp only: not_low u oc_le)
  show "inet_chksum m a n = rfc1071 (read_bytes a n m)"
    using standard_chksum [of n m a] assms(3) by (simp add: inet_chksum_def not_u16 rfc1071_oc)
qed

theorem checksum_is_rfc1071_witness:
  "inet_chksum_pbuf demo_pbufs demo_bytes 100 = Some (rfc1071 [1, 2, 3, 4, 5]) \<and> rfc1071 [1, 2, 3, 4, 5] = 0xf9f6"
proof -
  have "rfc1071 [1, 2, 3, 4, 5] = 0xf9f6" by (simp add: rfc1071_def rfc1071_sum_def oc_add_def)
  then show ?thesis using checksum_is_rfc1071 [OF demo_chain(1,2), of 0 demo_bytes 0] by (simp add: demo_chain)
qed

text \<open>The pseudo header: both addresses as they are in memory, a zero byte, the protocol, and the length with
  its high byte first.\<close>

definition addr_bytes :: "u32 \<Rightarrow> u8 list" where
  "addr_bytes a = map (\<lambda>i. ucast (drop_bit (8 * i) a)) [0..<4]"

definition pseudo_header :: "u32 \<Rightarrow> u32 \<Rightarrow> u8 \<Rightarrow> u16 \<Rightarrow> u8 list" where
  "pseudo_header src dest proto proto_len = addr_bytes src @ addr_bytes dest @ [0, proto, ucast (drop_bit 8 proto_len), ucast proto_len]"

lemma unat_byte: "unat (ucast (drop_bit k a) :: u8) = unat a div 2 ^ k mod 256" for a :: u32
  unfolding unsigned_ucast_eq unsigned_drop_bit_eq using unsigned_less [where ?'a = nat, of a]
  by (simp add: take_bit_eq_mod drop_bit_eq_div)

lemma two_bytes: "n mod 65536 = n mod 256 + 256 * (n div 256 mod 256)" for n :: nat
  using mod_mult2_eq [of n 256 256] by simp

lemma wsum_addr: "wsum True (addr_bytes a) = unat (a AND 0xffff) + unat (drop_bit 16 a AND 0xffff)"
proof -
  let ?n = "unat a"
  have l: "addr_bytes a = [ucast (drop_bit 0 a), ucast (drop_bit 8 a), ucast (drop_bit 16 a), ucast (drop_bit 24 a)]"
    by (simp add: addr_bytes_def upt_conv_Cons)
  have "wsum True (addr_bytes a) = ?n mod 256 + 256 * (?n div 256 mod 256) + (?n div 65536 mod 256 + 256 * (?n div 65536 div 256 mod 256))"
    unfolding l by (simp add: unat_byte del: drop_bit_0) (simp add: div_mult2_eq [symmetric])
  then show ?thesis unfolding unat_low unat_high two_bytes .
qed

lemma unat_htons: "unat (lwip_htons n) = unat n div 256 + 256 * (unat n mod 256)"
proof -
  have n: "unat n < 65536" using unsigned_less [where ?'a = nat, of n] by simp
  have m: "n AND 0xff = take_bit 8 n" "drop_bit 8 n AND 0xff = take_bit 8 (drop_bit 8 n)"
    using take_bit_eq_mask [of 8 n] take_bit_eq_mask [of 8 "drop_bit 8 n"] by (simp_all add: mask_eq_exp_minus_1)
  have d: "drop_bit 8 (n AND 0xff00) = take_bit 8 (drop_bit 8 n)" using m(2) by (simp add: drop_bit_and)
  have "lwip_htons n = push_bit 8 (take_bit 8 n) + take_bit 8 (drop_bit 8 n)"
    unfolding lwip_htons_def d m(1) by (rule disjunctive_add [symmetric]) (auto simp: bit_push_bit_iff bit_take_bit_iff)
  then have e: "lwip_htons n = 256 * (n mod 256) + (n div 256) mod 256"
    by (simp add: push_bit_eq_mult take_bit_eq_mod drop_bit_eq_div mult.commute)
  have h: "unat n div 256 < 256" using n by (simp add: div_less_iff_less_mult)
  have "unat n mod 256 \<le> 255" by (rule less_Suc_eq_le [THEN iffD1]) simp
  then have "256 * (unat n mod 256) + unat n div 256 < 65536" using h by linarith
  then show ?thesis using h by (simp add: e unat_word_ariths unat_mod_distrib unat_div_distrib)
qed

lemma unat_pseudo_addrs: "unat (pseudo_addrs src dest) = oc (wsum True (addr_bytes src @ addr_bytes dest))"
proof -
  let ?a = "src AND 0xffff" and ?b = "drop_bit 16 src AND 0xffff" and ?c = "dest AND 0xffff" and ?d = "drop_bit 16 dest AND 0xffff"
  have b: "unat (u AND 0xffff) \<le> 65535" for u :: u32 unfolding unat_low by (rule less_Suc_eq_le [THEN iffD1]) simp
  have "unat ?a + unat ?b + unat ?c + unat ?d < 4294967296"
    using b [of src] b [of "drop_bit 16 src"] b [of dest] b [of "drop_bit 16 dest"] by linarith
  then have "unat (?a + ?b + ?c + ?d) = unat ?a + unat ?b + unat ?c + unat ?d" by (simp add: unat_word_ariths)
  moreover have "length (addr_bytes src) = 4" by (simp add: addr_bytes_def)
  ultimately show ?thesis by (simp add: pseudo_addrs_def Let_def FOLD_twice wsum_append wsum_addr add.assoc)
qed

lemma pseudo_end_sum:
  assumes a: "unat acc \<le> 65535" "oc ((if sw then 256 else 1) * unat acc) = oc (wsum True (addr_bytes src @ addr_bytes dest) + wsum True bs)"
  shows "pseudo_end proto proto_len (acc, sw) = rfc1071 (pseudo_header src dest proto proto_len @ bs)"
proof -
  let ?acc = "if sw then SWAP_BYTES_IN_WORD acc else acc" and ?p = "ucast (lwip_htons (ucast proto)) :: u32" and ?l = "ucast (lwip_htons proto_len) :: u32"
  let ?A = "wsum True (addr_bytes src @ addr_bytes dest)"
  have u: "unat ?acc = oc (?A + wsum True bs)" by (rule unswapped [OF a])
  have p: "unat ?p = 256 * unat proto" using unat_u8 [of proto] by (simp add: unat_up unat_htons)
  have l: "unat ?l = unat proto_len div 256 + 256 * (unat proto_len mod 256)" by (simp add: unat_up unat_htons)
  have n: "unat proto_len < 65536" using unsigned_less [where ?'a = nat, of proto_len] by simp
  have "unat ?acc \<le> 65535" unfolding u by (rule oc_le)
  moreover have "unat ?p \<le> 65535" "unat ?l \<le> 65535"
    using unsigned_less [where ?'a = nat, of "lwip_htons (ucast proto)"] unsigned_less [where ?'a = nat, of "lwip_htons proto_len"] by (simp_all add: unat_up)
  ultimately have "unat ?acc + unat ?p + unat ?l < 4294967296" by linarith
  then have s: "unat (?acc + ?p + ?l) = unat ?acc + unat ?p + unat ?l" by (simp add: unat_word_ariths)
  have c: "unat (ucast proto_len :: u8) = unat proto_len mod 256" "unat (ucast (drop_bit 8 proto_len) :: u8) = unat proto_len div 256"
    unfolding unsigned_ucast_eq unsigned_drop_bit_eq using n by (simp_all add: take_bit_eq_mod drop_bit_eq_div div_less_iff_less_mult)
  have "even (length (addr_bytes src @ addr_bytes dest))" by (simp add: addr_bytes_def)
  then have w: "wsum True (pseudo_header src dest proto proto_len @ bs) = ?A + (unat ?p + unat ?l) + wsum True bs"
    unfolding pseudo_header_def append_assoc [symmetric] by (simp add: wsum_append [of _ "addr_bytes src @ addr_bytes dest"] wsum_append p l c)
  have "oc (unat (?acc + ?p + ?l)) = oc (wsum True (pseudo_header src dest proto proto_len @ bs))"
  proof -
    have "oc (oc (?A + wsum True bs) + unat ?p + unat ?l) = oc (?A + wsum True bs + (unat ?p + unat ?l))" by (simp only: oc_add_left add.assoc)
    also have "?A + wsum True bs + (unat ?p + unat ?l) = ?A + (unat ?p + unat ?l) + wsum True bs" by simp
    finally show ?thesis unfolding s u w .
  qed
  then have "unat (FOLD_U32T (FOLD_U32T (?acc + ?p + ?l))) = oc (wsum True (pseudo_header src dest proto proto_len @ bs))" by (simp only: FOLD_twice)
  then show ?thesis unfolding pseudo_end_def prod.case Let_def rfc1071_oc by (simp only: not_low oc_le)
qed

text \<open>The checksum over the pseudo header, the one TCP and UDP use, is that of RFC 1071 of the pseudo header
  followed by the data of the chain, and the partial one that of the pseudo header followed by the
  first \<open>chksum_len\<close> bytes of the data.\<close>

theorem pseudo_checksum_is_rfc1071:
  assumes "pchain P p qs" "\<forall>q \<in> set qs. pbuf_len (P q) < 2 ^ 16"
  shows "ip_chksum_pseudo P m p proto proto_len src dest = Some (rfc1071 (pseudo_header src dest proto proto_len @ chain_bytes P m qs)) \<and>
    ip_chksum_pseudo_partial P m p proto proto_len chksum_len src dest =
      Some (rfc1071 (pseudo_header src dest proto proto_len @ take chksum_len (chain_bytes P m qs)))"
proof -
  let ?a = "pseudo_addrs src dest"
  have l: "\<forall>q \<in> set qs. pbuf_len (P q) \<le> 65535" "unat ?a \<le> 65535" using assms(2) by (auto simp: unat_pseudo_addrs)
  obtain acc sw where r: "chksum_chain P m p ?a False = Some (acc, sw)" "unat acc \<le> 65535"
    "oc ((if sw then 256 else 1) * unat acc) = oc (unat ?a + wsum True (chain_bytes P m qs))"
    using chain_sum [OF assms(1) l, of m False] by auto
  obtain acc' sw' where r': "chksum_partial P m p chksum_len ?a False = Some (acc', sw')" "unat acc' \<le> 65535"
    "oc ((if sw' then 256 else 1) * unat acc') = oc (unat ?a + wsum True (take chksum_len (chain_bytes P m qs)))"
    using partial_sum [OF assms(1) l, of m chksum_len False] by auto
  show ?thesis
    using pseudo_end_sum [OF r(2) r(3) [unfolded unat_pseudo_addrs oc_add_left]] pseudo_end_sum [OF r'(2) r'(3) [unfolded unat_pseudo_addrs oc_add_left]]
    by (simp add: ip_chksum_pseudo_def inet_chksum_pseudo_def inet_cksum_pseudo_base_def r(1)
      ip_chksum_pseudo_partial_def inet_chksum_pseudo_partial_def inet_cksum_pseudo_partial_base_def r'(1))
qed

theorem pseudo_checksum_is_rfc1071_witness:
  "ip_chksum_pseudo_partial demo_pbufs demo_bytes 100 6 5 4 0x0100a8c0 0x0200a8c0 = Some (rfc1071 [192, 168, 0, 1, 192, 168, 0, 2, 0, 6, 0, 5, 1, 2, 3, 4])"
proof -
  have "pseudo_header 0x0100a8c0 0x0200a8c0 6 5 = [192, 168, 0, 1, 192, 168, 0, 2, 0, 6, 0, 5]"
    by (simp add: pseudo_header_def addr_bytes_def upt_conv_Cons)
  then show ?thesis
    using pseudo_checksum_is_rfc1071 [OF demo_chain(1,2), of demo_bytes 6 5 "0x0100a8c0" "0x0200a8c0" 4] by (simp add: demo_chain)
qed

text \<open>A receiver accepts what a sender produces: writing the checksum of a packet, computed with a zero
  checksum field at an even offset, into that field makes the checksum of the packet zero.\<close>

theorem checksum_verifies:
  assumes k: "even k" "k + 2 \<le> n" "n < 2 ^ 16" and z: "m (a + k) = 0" "m (a + k + 1) = 0" and c: "c = inet_chksum m a n"
  shows "inet_chksum (write_bytes (a + k) [ucast c, ucast (drop_bit 8 c)] m) a n = 0"
proof -
  let ?m = "write_bytes (a + k) [ucast c, ucast (drop_bit 8 c)] m" and ?r = "n - (k + 2)"
  have n: "n = k + (2 + ?r)" using k by simp
  have W: "oc (wsum True (read_bytes a n m')) = oc (wsum True (read_bytes a k m) + (unat (m' (a + k)) + 256 * unat (m' (a + k + 1))) + wsum True (read_bytes (a + k + 2) ?r m))"
    if "m' = m \<or> m' = ?m" for m'
  proof -
    have "read_bytes a k m' = read_bytes a k m" "read_bytes (a + k + 2) ?r m' = read_bytes (a + k + 2) ?r m"
      using that by (auto simp: read_write_other)
    moreover have "read_bytes a n m' = read_bytes a k m' @ [m' (a + k), m' (a + k + 1)] @ read_bytes (a + k + 2) ?r m'"
      by (subst n, unfold read_bytes_add) (simp add: numeral_2_eq_2)
    ultimately show ?thesis using k(1) by (simp add: wsum_append add.assoc)
  qed
  let ?w = "wsum True (read_bytes a k m) + wsum True (read_bytes (a + k + 2) ?r m)"
  have l: "unat (lwip_standard_chksum m' a n) = oc (wsum True (read_bytes a n m'))" for m' using standard_chksum [of n m' a] k(3) by simp
  have o: "oc (wsum True (read_bytes a n m)) = oc ?w" using W [of m] z by simp
  have "c = of_nat (65535 - oc ?w)" using l [of m] o by (simp add: c inet_chksum_def not_u16)
  then have u: "unat c = 65535 - oc ?w" using unat_of_u16 [OF diff_le_self] by (simp only:)
  have b: "unat (ucast c :: u8) + 256 * unat (ucast (drop_bit 8 c) :: u8) = unat c"
  proof -
    have "unat c < 65536" using unsigned_less [where ?'a = nat, of c] by simp
    then have "unat (ucast c :: u8) = unat c mod 256" "unat (ucast (drop_bit 8 c) :: u8) = unat c div 256"
      unfolding unsigned_ucast_eq unsigned_drop_bit_eq by (simp_all add: take_bit_eq_mod drop_bit_eq_div div_less_iff_less_mult)
    then show ?thesis using mod_mult_div_eq [of "unat c" 256] by simp
  qed
  have f: "?m (a + k) = ucast c" "?m (a + k + 1) = ucast (drop_bit 8 c)" by (simp_all add: write_bytes_def)
  have "oc (wsum True (read_bytes a n ?m)) = oc (wsum True (read_bytes a k m) + (65535 - oc ?w) + wsum True (read_bytes (a + k + 2) ?r m))"
    using W [of ?m] unfolding f b u by blast
  also have "\<dots> = oc (?w + (65535 - oc ?w))" by (simp only: ac_simps)
  also have "\<dots> = oc (oc ?w + (65535 - oc ?w))" by (simp only: oc_add_left)
  also have "\<dots> = 65535" using oc_le [of ?w] by (simp del: oc_le oc_add_left)
  finally show ?thesis using l [of ?m] by (simp add: inet_chksum_def not_u16)
qed

theorem checksum_verifies_witness:
  "inet_chksum (write_bytes 2000 [ucast (inet_chksum (write_bytes 1997 [7, 8, 9] (\<lambda>_. 0)) 1996 8),
     ucast (drop_bit 8 (inet_chksum (write_bytes 1997 [7, 8, 9] (\<lambda>_. 0)) 1996 8))] (write_bytes 1997 [7, 8, 9] (\<lambda>_. 0))) 1996 8 = 0"
  using checksum_verifies [of 4 8 "write_bytes 1997 [7, 8, 9] (\<lambda>_. 0)" 1996] by (simp add: write_bytes_def)

end
