(* ===== verification/LwipMem.thy ===== *)
theory LwipMem
  imports LwipBase Heap4
begin

text \<open>
  The heap of the network stack, \<open>mem.c\<close>: an array of blocks, each headed by a structure with the index of
  the next and of the previous block and a used flag. The pointer \<open>lfree\<close> names the lowest free block. The
  code holds the mutex \<open>mem_mutex\<close> for the whole of the search and of the release, so each call is one step.
\<close>

subsection \<open>The code\<close>

text \<open>The structures \<open>struct mem\<close> by the index of their first byte in the array \<open>ram\<close>; \<open>ram_end\<close> is the one at
  \<open>MEM_SIZE_ALIGNED\<close>. Pointers to structures are kept as indices, \<open>ptr_to_mem\<close> and \<open>mem_to_ptr\<close> are the identity.\<close>

record lheap =
  ram :: nat
  mem_next :: "nat \<Rightarrow> nat"
  mem_prev :: "nat \<Rightarrow> nat"
  mem_used :: "nat \<Rightarrow> bool"
  lfree :: nat

definition MEM_ALIGNMENT :: nat where "MEM_ALIGNMENT = 4"
definition MEM_SIZE_ALIGNED :: nat where "MEM_SIZE_ALIGNED = 16384"
definition SIZEOF_STRUCT_MEM :: nat where "SIZEOF_STRUCT_MEM = 8"
definition MIN_SIZE_ALIGNED :: nat where "MIN_SIZE_ALIGNED = 12"

text \<open>The rounding, and subtractions in 32 and in 16 bits.\<close>

definition LWIP_MEM_ALIGN_SIZE :: "nat \<Rightarrow> nat" where
  "LWIP_MEM_ALIGN_SIZE n = (n + MEM_ALIGNMENT - 1) div MEM_ALIGNMENT * MEM_ALIGNMENT"

definition usub :: "nat \<Rightarrow> nat \<Rightarrow> nat" where
  "usub a b = (a + 2 ^ 32 - b) mod 2 ^ 32"

definition usub16 :: "nat \<Rightarrow> nat \<Rightarrow> nat" where
  "usub16 a b = (a + 2 ^ 16 - b) mod 2 ^ 16"

definition mset_next :: "nat \<Rightarrow> nat \<Rightarrow> lheap \<Rightarrow> lheap" where
  "mset_next p v h = h\<lparr>mem_next := (mem_next h)(p := v)\<rparr>"

definition mset_prev :: "nat \<Rightarrow> nat \<Rightarrow> lheap \<Rightarrow> lheap" where
  "mset_prev p v h = h\<lparr>mem_prev := (mem_prev h)(p := v)\<rparr>"

definition mset_used :: "nat \<Rightarrow> bool \<Rightarrow> lheap \<Rightarrow> lheap" where
  "mset_used p v h = h\<lparr>mem_used := (mem_used h)(p := v)\<rparr>"

text \<open>The previous index of the block that follows is set unless that is the end of the heap.\<close>

definition relink :: "nat \<Rightarrow> nat \<Rightarrow> lheap \<Rightarrow> lheap" where
  "relink nxt v h = (if nxt \<noteq> MEM_SIZE_ALIGNED then mset_prev nxt v h else h)"

definition plug_next :: "nat \<Rightarrow> lheap \<Rightarrow> lheap" where
  "plug_next mem h =
     (let nmem = mem_next h mem
      in if mem \<noteq> nmem \<and> \<not> mem_used h nmem \<and> nmem \<noteq> MEM_SIZE_ALIGNED
         then let h = (if lfree h = nmem then h\<lparr>lfree := mem\<rparr> else h);
                  h = mset_next mem (mem_next h nmem) h
              in relink (mem_next h nmem) mem h
         else h)"

definition plug_prev :: "nat \<Rightarrow> lheap \<Rightarrow> lheap" where
  "plug_prev mem h =
     (let pmem = mem_prev h mem
      in if pmem \<noteq> mem \<and> \<not> mem_used h pmem
         then let h = (if lfree h = mem then h\<lparr>lfree := pmem\<rparr> else h);
                  h = mset_next pmem (mem_next h mem) h
              in relink (mem_next h mem) pmem h
         else h)"

definition plug_holes :: "nat \<Rightarrow> lheap \<Rightarrow> lheap" where
  "plug_holes mem h = plug_prev mem (plug_next mem h)"

text \<open>The initial heap; \<open>base\<close> is the aligned address of the array. The mutex is made by \<open>sys_mutex_new\<close>.\<close>

definition mem_init :: "nat \<Rightarrow> lheap" where
  "mem_init base =
     \<lparr>ram = base, mem_next = (\<lambda>_. 0)(0 := MEM_SIZE_ALIGNED, MEM_SIZE_ALIGNED := MEM_SIZE_ALIGNED),
      mem_prev = (\<lambda>_. 0)(MEM_SIZE_ALIGNED := MEM_SIZE_ALIGNED), mem_used = (\<lambda>_. False)(MEM_SIZE_ALIGNED := True), lfree = 0\<rparr>"

definition mem_link_valid :: "nat \<Rightarrow> lheap \<Rightarrow> bool" where
  "mem_link_valid mem h \<longleftrightarrow>
     (let nmem = mem_next h mem; pmem = mem_prev h mem
      in \<not> (nmem > MEM_SIZE_ALIGNED \<or> pmem > MEM_SIZE_ALIGNED \<or>
            pmem \<noteq> mem \<and> mem_next h pmem \<noteq> mem \<or>
            nmem \<noteq> MEM_SIZE_ALIGNED \<and> mem_prev h nmem \<noteq> mem))"

text \<open>An illegal call changes nothing. The comparisons are on addresses.\<close>

definition mem_free :: "nat \<Rightarrow> lheap \<Rightarrow> lheap" where
  "mem_free rmem h =
     (if rmem = 0 then h
      else if rmem mod MEM_ALIGNMENT \<noteq> 0 then h
      else if rmem < ram h + SIZEOF_STRUCT_MEM \<or> rmem + MIN_SIZE_ALIGNED > ram h + MEM_SIZE_ALIGNED then h
      else let mem = rmem - SIZEOF_STRUCT_MEM - ram h
           in if \<not> mem_used h mem then h
              else if \<not> mem_link_valid mem h then h
              else let h = mset_used mem False h;
                       h = (if mem < lfree h then h\<lparr>lfree := mem\<rparr> else h)
                   in plug_holes mem h)"

text \<open>The size asked for, rounded in 16 bits and raised to the minimum; \<open>None\<close> when it is refused.\<close>

definition mem_request :: "nat \<Rightarrow> nat option" where
  "mem_request n =
     (let sz = LWIP_MEM_ALIGN_SIZE n mod 2 ^ 16;
          sz = (if sz < MIN_SIZE_ALIGNED then MIN_SIZE_ALIGNED else sz)
      in if sz > MEM_SIZE_ALIGNED \<or> sz < n then None else Some sz)"

definition mem_trim :: "nat \<Rightarrow> nat \<Rightarrow> lheap \<Rightarrow> nat \<times> lheap" where
  "mem_trim rmem new_size h =
     (case mem_request new_size of
        None \<Rightarrow> (0, h)
      | Some newsize \<Rightarrow>
          if rmem < ram h \<or> rmem \<ge> ram h + MEM_SIZE_ALIGNED then (rmem, h)
          else let p = rmem - SIZEOF_STRUCT_MEM - ram h;
                   sz = usub16 (usub16 (mem_next h p) p) SIZEOF_STRUCT_MEM
               in if newsize > sz then (0, h)
                  else if newsize = sz then (rmem, h)
                  else let mem2 = mem_next h p; ptr2 = p + SIZEOF_STRUCT_MEM + newsize
                       in if \<not> mem_used h mem2
                          then let nxt = mem_next h mem2;
                                   h = (if lfree h = mem2 then h\<lparr>lfree := ptr2\<rparr> else h);
                                   h = mset_used ptr2 False h;
                                   h = mset_next ptr2 nxt h;
                                   h = mset_prev ptr2 p h;
                                   h = mset_next p ptr2 h
                               in (rmem, relink nxt ptr2 h)
                          else if newsize + SIZEOF_STRUCT_MEM + MIN_SIZE_ALIGNED \<le> sz
                          then let h = (if ptr2 < lfree h then h\<lparr>lfree := ptr2\<rparr> else h);
                                   h = mset_used ptr2 False h;
                                   h = mset_next ptr2 (mem_next h p) h;
                                   h = mset_prev ptr2 p h;
                                   h = mset_next p ptr2 h
                               in (rmem, relink (mem_next h ptr2) ptr2 h)
                          else (rmem, h))"

text \<open>The search: the index of the first block that fits, or \<open>None\<close> for the end of the loop.\<close>

partial_function (option) mem_malloc_find :: "nat \<Rightarrow> lheap \<Rightarrow> nat \<Rightarrow> nat option option" where
  "mem_malloc_find sz h p =
     (if p < MEM_SIZE_ALIGNED - sz
      then if \<not> mem_used h p \<and> usub (mem_next h p) (p + SIZEOF_STRUCT_MEM) \<ge> sz then Some (Some p)
           else mem_malloc_find sz h (mem_next h p)
      else Some None)"

text \<open>The next block that is not used, from \<open>cur\<close> on.\<close>

partial_function (option) adjust_lfree :: "lheap \<Rightarrow> nat \<Rightarrow> nat option" where
  "adjust_lfree h cur =
     (if mem_used h cur \<and> cur \<noteq> MEM_SIZE_ALIGNED then adjust_lfree h (mem_next h cur) else Some cur)"

definition mem_malloc_take :: "nat \<Rightarrow> nat \<Rightarrow> lheap \<Rightarrow> lheap" where
  "mem_malloc_take sz p h =
     (if usub (mem_next h p) (p + SIZEOF_STRUCT_MEM) \<ge> sz + SIZEOF_STRUCT_MEM + MIN_SIZE_ALIGNED
      then let ptr2 = p + SIZEOF_STRUCT_MEM + sz;
               h = mset_used ptr2 False h;
               h = mset_next ptr2 (mem_next h p) h;
               h = mset_prev ptr2 p h;
               h = mset_next p ptr2 h;
               h = mset_used p True h
           in relink (mem_next h ptr2) ptr2 h
      else mset_used p True h)"

definition mem_malloc :: "nat \<Rightarrow> lheap \<Rightarrow> (nat \<times> lheap) option" where
  "mem_malloc size_in h =
     (if size_in = 0 then Some (0, h)
      else case mem_request size_in of
        None \<Rightarrow> Some (0, h)
      | Some sz \<Rightarrow>
          (case mem_malloc_find sz h (lfree h) of
             None \<Rightarrow> None
           | Some None \<Rightarrow> Some (0, h)
           | Some (Some p) \<Rightarrow>
               let h = mem_malloc_take sz p h;
                   r = ram h + p + SIZEOF_STRUCT_MEM
               in if p = lfree h then map_option (\<lambda>cur. (r, h\<lparr>lfree := cur\<rparr>)) (adjust_lfree h (lfree h)) else Some (r, h)))"

text \<open>The product is taken in 32 bits and refused when it does not fit 16; the bytes are cleared.\<close>

definition mem_calloc :: "nat \<Rightarrow> nat \<Rightarrow> lheap \<times> bytes \<Rightarrow> (nat \<times> lheap \<times> bytes) option" where
  "mem_calloc n sz = (\<lambda>(h, m).
     let alloc_size = (n * sz) mod 2 ^ 32
     in if alloc_size mod 2 ^ 16 \<noteq> alloc_size then Some (0, h, m)
        else map_option (\<lambda>(p, h). (p, h, if p \<noteq> 0 then write_bytes p (replicate alloc_size 0) m else m)) (mem_malloc alloc_size h))"

subsection \<open>The heap as a tiling\<close>

lemmas mem_consts = MEM_ALIGNMENT_def MEM_SIZE_ALIGNED_def SIZEOF_STRUCT_MEM_def MIN_SIZE_ALIGNED_def

text \<open>The blocks from index \<open>p\<close> up to \<open>q\<close>, with the block in front of \<open>p\<close> at \<open>pv\<close>.\<close>

fun mseg :: "lheap \<Rightarrow> nat \<Rightarrow> nat \<Rightarrow> blk list \<Rightarrow> nat \<Rightarrow> nat \<Rightarrow> bool" where
  "mseg h pv p [] q ql \<longleftrightarrow> p = q \<and> pv = ql"
| "mseg h pv p ((a, s, st) # bs) q ql \<longleftrightarrow> a = p \<and> 20 \<le> s \<and> 4 dvd s \<and> st \<noteq> Limbo \<and> mem_next h p = p + s \<and> mem_prev h p = pv \<and>
     (mem_used h p \<longleftrightarrow> st = Alloc) \<and> mseg h p (p + s) bs q ql"

definition first_free :: "blk list \<Rightarrow> nat" where
  "first_free bs = hd (frees bs @ [MEM_SIZE_ALIGNED])"

definition mheap_rel0 :: "lheap \<Rightarrow> blk list \<Rightarrow> bool" where
  "mheap_rel0 h bs \<longleftrightarrow> 0 < ram h \<and> 4 dvd ram h \<and> (\<exists>ql. mseg h 0 0 bs MEM_SIZE_ALIGNED ql) \<and> mem_used h MEM_SIZE_ALIGNED \<and>
     mem_next h MEM_SIZE_ALIGNED = MEM_SIZE_ALIGNED \<and> mem_prev h MEM_SIZE_ALIGNED = MEM_SIZE_ALIGNED \<and> lfree h = first_free bs"

definition mheap_rel :: "lheap \<Rightarrow> blk list \<Rightarrow> bool" where
  "mheap_rel h bs \<longleftrightarrow> mheap_rel0 h bs \<and> nonadj bs"

lemma mseg_append: "mseg h pv p (us @ vs) q ql \<longleftrightarrow> (\<exists>r rl. mseg h pv p us r rl \<and> mseg h rl r vs q ql)"
proof (induction us arbitrary: pv p)
  case (Cons b us)
  show ?case by (cases b) (simp add: Cons)
qed simp

lemma mseg_le: "mseg h pv p bs q ql \<Longrightarrow> p \<le> q"
  by (induction h pv p bs q ql rule: mseg.induct) auto

lemma mseg_bound: "mseg h pv p bs q ql \<Longrightarrow> (a, s, st) \<in> set bs \<Longrightarrow> p \<le> a \<and> a + s \<le> q \<and> 20 \<le> s \<and> 4 dvd s"
  by (induction h pv p bs q ql rule: mseg.induct) (auto dest: mseg_le)

lemma mseg_aligned: "mseg h pv p bs q ql \<Longrightarrow> 4 dvd p \<Longrightarrow> (a, s, st) \<in> set bs \<Longrightarrow> 4 dvd a"
  by (induction h pv p bs q ql rule: mseg.induct) auto

lemma mseg_prev: "mseg h pv p bs q ql \<Longrightarrow> p < q \<Longrightarrow> mem_prev h p = pv"
  by (cases bs) auto

text \<open>Only the structures of the blocks matter.\<close>

lemma mseg_frame:
  assumes "mseg h pv p bs q ql" "\<And>x. p \<le> x \<Longrightarrow> x < q \<Longrightarrow> mem_next h' x = mem_next h x \<and> mem_prev h' x = mem_prev h x \<and> mem_used h' x = mem_used h x"
  shows "mseg h' pv p bs q ql"
  using assms
proof (induction h pv p bs q ql rule: mseg.induct)
  case (2 h pv p a s st bs q ql)
  have "p + s \<le> q" using 2(2) mseg_le by auto
  then show ?case using 2 by auto
qed simp

lemma mset_fields [simp]:
  "mem_next (mset_next p v h) = (mem_next h)(p := v)" "mem_prev (mset_next p v h) = mem_prev h" "mem_used (mset_next p v h) = mem_used h"
  "mem_prev (mset_prev p v h) = (mem_prev h)(p := v)" "mem_next (mset_prev p v h) = mem_next h" "mem_used (mset_prev p v h) = mem_used h"
  "mem_used (mset_used p u h) = (mem_used h)(p := u)" "mem_next (mset_used p u h) = mem_next h" "mem_prev (mset_used p u h) = mem_prev h"
  "ram (mset_next p v h) = ram h" "ram (mset_prev p v h) = ram h" "ram (mset_used p u h) = ram h"
  "lfree (mset_next p v h) = lfree h" "lfree (mset_prev p v h) = lfree h" "lfree (mset_used p u h) = lfree h"
  by (simp_all add: mset_next_def mset_prev_def mset_used_def)

lemma relink_fields [simp]:
  "mem_next (relink n v h) = mem_next h" "mem_used (relink n v h) = mem_used h" "ram (relink n v h) = ram h" "lfree (relink n v h) = lfree h"
  "mem_prev (relink n v h) = (if n \<noteq> MEM_SIZE_ALIGNED then (mem_prev h)(n := v) else mem_prev h)"
  by (simp_all add: relink_def)

text \<open>The blocks behind a change, with the index of the block in front set anew.\<close>

lemma mseg_relink:
  assumes "mseg h pv p vs MEM_SIZE_ALIGNED ql"
    "\<And>x. p \<le> x \<Longrightarrow> x < MEM_SIZE_ALIGNED \<Longrightarrow> mem_next h' x = mem_next h x \<and> mem_used h' x = mem_used h x"
    "\<And>x. p < x \<Longrightarrow> x < MEM_SIZE_ALIGNED \<Longrightarrow> mem_prev h' x = mem_prev h x" "p < MEM_SIZE_ALIGNED \<Longrightarrow> mem_prev h' p = pv'"
  shows "\<exists>ql. mseg h' pv' p vs MEM_SIZE_ALIGNED ql"
proof (cases vs)
  case Nil
  then show ?thesis using assms(1) by simp
next
  case (Cons b vs')
  obtain a s st where b: "b = (a, s, st)" by (cases b)
  have m: "mseg h p (p + s) vs' MEM_SIZE_ALIGNED ql" "20 \<le> s" using assms(1) Cons b by auto
  have l: "p + s \<le> MEM_SIZE_ALIGNED" using m(1) by (rule mseg_le)
  have "mseg h' p (p + s) vs' MEM_SIZE_ALIGNED ql" using m by (intro mseg_frame [OF m(1)]) (simp add: assms(2,3))
  then show ?thesis using assms(1,4) assms(2) [of p] l m(2) Cons b by auto
qed

text \<open>The blocks from \<open>a\<close> to \<open>e\<close> replaced by others.\<close>

lemma mseg_replace:
  assumes u: "mseg h 0 0 us a rl" and v: "mseg h el e vs MEM_SIZE_ALIGNED ql" and y: "mseg h' rl a ys e el'"
    and n: "\<And>x. x < a \<or> e \<le> x \<Longrightarrow> mem_next h' x = mem_next h x \<and> mem_used h' x = mem_used h x"
    and p: "\<And>x. x < a \<or> e < x \<Longrightarrow> mem_prev h' x = mem_prev h x" "e < MEM_SIZE_ALIGNED \<Longrightarrow> mem_prev h' e = el'"
  shows "\<exists>ql. mseg h' 0 0 (us @ ys @ vs) MEM_SIZE_ALIGNED ql"
proof -
  have "mseg h' 0 0 us a rl" by (rule mseg_frame [OF u]) (simp add: n p)
  moreover obtain ql' where "mseg h' el' e vs MEM_SIZE_ALIGNED ql'" using mseg_relink [OF v, of h' el'] n p by auto
  ultimately show ?thesis using y unfolding mseg_append by blast
qed

lemma mheap_block:
  assumes "mheap_rel0 h (us @ (a, s, st) # vs)"
  obtains rl ql where "mseg h 0 0 us a rl" "mseg h rl a [(a, s, st)] (a + s) a" "mseg h a (a + s) vs MEM_SIZE_ALIGNED ql"
    "a + s \<le> MEM_SIZE_ALIGNED" "20 \<le> s" "4 dvd s" "4 dvd a" "mem_next h a = a + s" "mem_prev h a = rl" "mem_used h a = (st = Alloc)"
proof -
  obtain r rl ql where m: "mseg h 0 0 us r rl" "mseg h rl r ((a, s, st) # vs) MEM_SIZE_ALIGNED ql"
    using assms by (auto simp: mheap_rel0_def mseg_append)
  then have "a = r" by simp
  moreover have "4 dvd a"
  proof -
    have "mseg h 0 0 (us @ (a, s, st) # vs) MEM_SIZE_ALIGNED ql" using m by (auto simp: mseg_append)
    from mseg_aligned [OF this, of a s st] show ?thesis by simp
  qed
  ultimately show ?thesis using m by (intro that [of rl ql]) (auto dest: mseg_le)
qed

lemma usub_le: "c \<le> b \<Longrightarrow> b < 2 ^ 32 \<Longrightarrow> usub b c = b - c"
  by (auto simp: usub_def le_iff_add)

lemma usub16_le: "c \<le> b \<Longrightarrow> b < 2 ^ 16 \<Longrightarrow> usub16 b c = b - c"
  by (auto simp: usub16_def le_iff_add)

lemma usub_block: "a + 8 \<le> b \<Longrightarrow> b \<le> MEM_SIZE_ALIGNED \<Longrightarrow> usub b (a + SIZEOF_STRUCT_MEM) = b - (a + 8)"
  by (simp add: usub_le mem_consts)

lemma usub16_block: "a + 8 \<le> b \<Longrightarrow> b \<le> MEM_SIZE_ALIGNED \<Longrightarrow> usub16 (usub16 b a) SIZEOF_STRUCT_MEM = b - (a + 8)"
  by (simp add: usub16_le mem_consts)

definition taken :: "nat \<Rightarrow> nat \<Rightarrow> nat \<Rightarrow> blk list" where
  "taken sz a s = (if sz + 28 \<le> s then [(a, sz + 8, Alloc), (a + (sz + 8), s - (sz + 8), Free)] else [(a, s, Alloc)])"

lemma mem_malloc_take_spec:
  assumes r: "mheap_rel0 h (us @ (a, s, Free) # vs)" and sz: "12 \<le> sz" "4 dvd sz" "sz + 8 \<le> s"
  shows "\<exists>ql. mseg (mem_malloc_take sz a h) 0 0 (us @ taken sz a s @ vs) MEM_SIZE_ALIGNED ql"
proof -
  obtain rl ql where b: "mseg h 0 0 us a rl" "mseg h a (a + s) vs MEM_SIZE_ALIGNED ql"
    "a + s \<le> MEM_SIZE_ALIGNED" "20 \<le> s" "4 dvd s" "4 dvd a" "mem_next h a = a + s" "mem_prev h a = rl" "\<not> mem_used h a"
    by (rule mheap_block [OF r]) auto
  have u: "usub (mem_next h a) (a + SIZEOF_STRUCT_MEM) = s - 8" using b by (simp add: usub_block)
  show ?thesis
  proof (cases "sz + 28 \<le> s")
    case True
    then have t: "mem_malloc_take sz a h = (let ptr2 = a + (sz + 8); h = mset_used ptr2 False h; h = mset_next ptr2 (a + s) h; h = mset_prev ptr2 a h;
        h = mset_next a ptr2 h; h = mset_used a True h in relink (a + s) ptr2 h)"
      using b u by (simp add: mem_malloc_take_def mem_consts Let_def add.commute add.left_commute)
    have d: "4 dvd s - (sz + 8)" using b(5) sz(2) by (simp add: dvd_diff_nat)
    have d8: "4 dvd sz + 8" using sz(2) by simp
    show ?thesis unfolding taken_def if_P [OF True]
      by (rule mseg_replace [OF b(1,2), where el' = "a + (sz + 8)"])
        (use b sz True d d8 in \<open>auto simp: t Let_def\<close>)
  next
    case False
    then have t: "mem_malloc_take sz a h = mset_used a True h"
      using b u by (simp add: mem_malloc_take_def mem_consts)
    show ?thesis unfolding taken_def if_not_P [OF False]
      by (rule mseg_replace [OF b(1,2), where el' = a]) (use b sz in \<open>auto simp: t dest: mseg_prev\<close>)
  qed
qed

subsection \<open>Allocation\<close>

text \<open>First fit on the tiling.\<close>

fun ff_take :: "nat \<Rightarrow> blk list \<Rightarrow> (nat \<times> blk list) option" where
  "ff_take sz [] = None"
| "ff_take sz ((a, s, st) # bs) =
     (if st = Free \<and> sz + 8 \<le> s then Some (a, taken sz a s @ bs)
      else map_option (\<lambda>(p, cs). (p, (a, s, st) # cs)) (ff_take sz bs))"

lemma ff_take_None: "ff_take sz bs = None \<longleftrightarrow> (\<forall>a s. (a, s, Free) \<in> set bs \<longrightarrow> s < sz + 8)"
  by (induction sz bs rule: ff_take.induct) auto

lemma ff_take_Some:
  "ff_take sz bs = Some (a, cs) \<Longrightarrow> \<exists>us s vs. bs = us @ (a, s, Free) # vs \<and> sz + 8 \<le> s \<and>
     (\<forall>b t. (b, t, Free) \<in> set us \<longrightarrow> t < sz + 8) \<and> cs = us @ taken sz a s @ vs"
proof (induction sz bs arbitrary: cs rule: ff_take.induct)
  case (2 sz b s st bs)
  show ?case
  proof (cases "st = Free \<and> sz + 8 \<le> s")
    case True
    then have "bs = bs \<and> b = a \<and> cs = taken sz a s @ bs" using 2(2) by auto
    then show ?thesis using True by (intro exI [of _ "[]"] exI [of _ s] exI [of _ bs]) simp
  next
    case False
    with 2(2) obtain cs' where cs: "ff_take sz bs = Some (a, cs')" "cs = (b, s, st) # cs'" by (auto split: if_splits)
    from 2(1) [OF False cs(1)] obtain us t vs where *: "bs = us @ (a, t, Free) # vs \<and> sz + 8 \<le> t \<and>
      (\<forall>b t. (b, t, Free) \<in> set us \<longrightarrow> t < sz + 8) \<and> cs' = us @ taken sz a t @ vs" by blast
    then show ?thesis using False cs(2) by (intro exI [of _ "(b, s, st) # us"] exI [of _ t] exI [of _ vs]) auto
  qed
qed simp

lemma malloc_find_none:
  assumes "mseg h pv p bs MEM_SIZE_ALIGNED ql" "\<forall>a s. (a, s, Free) \<in> set bs \<longrightarrow> s < sz + 8"
  shows "mem_malloc_find sz h p = Some None"
  using assms
proof (induction bs arbitrary: pv p)
  case Nil
  moreover have "\<not> MEM_SIZE_ALIGNED < MEM_SIZE_ALIGNED - sz" by arith
  ultimately show ?case by (subst mem_malloc_find.simps) simp
next
  case (Cons b bs)
  obtain a s st where b: "b = (a, s, st)" by (cases b)
  have m: "a = p" "20 \<le> s" "mem_next h p = p + s" "mem_used h p \<longleftrightarrow> st = Alloc" "st \<noteq> Limbo" "mseg h p (p + s) bs MEM_SIZE_ALIGNED ql"
    using Cons.prems(1) b by auto
  have u: "usub (mem_next h p) (p + SIZEOF_STRUCT_MEM) = s - 8" using m mseg_le [OF m(6)] by (simp add: usub_block)
  have "mem_malloc_find sz h (p + s) = Some None" using Cons.IH [OF m(6)] Cons.prems(2) by auto
  moreover have "st = Free \<Longrightarrow> s < sz + 8" using Cons.prems(2) b by auto
  then have "\<not> (\<not> mem_used h p \<and> s - 8 \<ge> sz)" using m by (cases st) auto
  ultimately show ?case using u m(3) by (subst mem_malloc_find.simps) auto
qed

lemma malloc_find_some:
  assumes "mseg h pv p (us @ (a, s, Free) # vs) MEM_SIZE_ALIGNED ql" "\<forall>b t. (b, t, Free) \<in> set us \<longrightarrow> t < sz + 8" "sz + 8 \<le> s"
  shows "mem_malloc_find sz h p = Some (Some a)"
  using assms
proof (induction us arbitrary: pv p)
  case Nil
  then have m: "a = p" "mem_next h p = p + s" "\<not> mem_used h p" "mseg h p (p + s) vs MEM_SIZE_ALIGNED ql" by auto
  have l: "p + s \<le> MEM_SIZE_ALIGNED" by (rule mseg_le [OF m(4)])
  then have "usub (mem_next h p) (p + SIZEOF_STRUCT_MEM) = s - 8" using m Nil(3) by (simp add: usub_block)
  moreover have "p < MEM_SIZE_ALIGNED - sz" "sz \<le> s - 8" using l Nil(3) by arith+
  ultimately show ?case using m by (subst mem_malloc_find.simps) simp
next
  case (Cons b us)
  obtain c t st where b: "b = (c, t, st)" by (cases b)
  have m: "c = p" "20 \<le> t" "mem_next h p = p + t" "mem_used h p \<longleftrightarrow> st = Alloc" "st \<noteq> Limbo"
    "mseg h p (p + t) (us @ (a, s, Free) # vs) MEM_SIZE_ALIGNED ql"
    using Cons.prems(1) b by auto
  have a: "p + t \<le> a" "a + s \<le> MEM_SIZE_ALIGNED" using mseg_bound [OF m(6), of a s Free] by auto
  have u: "usub (mem_next h p) (p + SIZEOF_STRUCT_MEM) = t - 8" using m a by (simp add: usub_block)
  have r: "mem_malloc_find sz h (p + t) = Some (Some a)" using Cons.IH [OF m(6) _ assms(3)] Cons.prems(2) by auto
  have "st = Free \<Longrightarrow> t < sz + 8" using Cons.prems(2) b by auto
  then have "\<not> (\<not> mem_used h p \<and> t - 8 \<ge> sz)" using m by (cases st) auto
  moreover have "p < MEM_SIZE_ALIGNED - sz" using a assms(3) by simp
  ultimately show ?case using u r m(3) by (subst mem_malloc_find.simps) auto
qed

lemma first_free_append: "first_free (us @ vs) = (if frees us = [] then first_free vs else hd (frees us))"
  by (simp add: first_free_def)

lemma first_free_split:
  assumes "mseg h pv p bs MEM_SIZE_ALIGNED ql"
  shows "\<exists>us vs rl. bs = us @ vs \<and> frees us = [] \<and> mseg h pv p us (first_free bs) rl \<and> mseg h rl (first_free bs) vs MEM_SIZE_ALIGNED ql"
  using assms
proof (induction bs arbitrary: pv p)
  case Nil
  then show ?case by (simp add: first_free_def)
next
  case (Cons b bs)
  obtain a s st where b: "b = (a, s, st)" by (cases b)
  show ?case
  proof (cases "st = Free")
    case True
    then have "first_free (b # bs) = p" using Cons.prems b by (simp add: first_free_def)
    then show ?thesis using Cons.prems by (intro exI [of _ "[]"] exI [of _ "b # bs"] exI [of _ pv]) simp
  next
    case False
    then have f: "first_free (b # bs) = first_free bs" using b by (simp add: first_free_def)
    have "mseg h p (p + s) bs MEM_SIZE_ALIGNED ql" using Cons.prems b by simp
    from Cons.IH [OF this] obtain us vs rl where "bs = us @ vs" "frees us = []" "mseg h p (p + s) us (first_free bs) rl"
      "mseg h rl (first_free bs) vs MEM_SIZE_ALIGNED ql" by blast
    then show ?thesis using False Cons.prems b f by (intro exI [of _ "b # us"] exI [of _ vs] exI [of _ rl]) simp
  qed
qed

lemma frees_below: "mseg h pv p us q ql \<Longrightarrow> frees us \<noteq> [] \<Longrightarrow> p \<le> hd (frees us) \<and> hd (frees us) < q"
proof -
  assume m: "mseg h pv p us q ql" and "frees us \<noteq> []"
  then have "hd (frees us) \<in> set (frees us)" by simp
  then obtain t where "(hd (frees us), t, Free) \<in> set us" by (auto simp: frees_in)
  then show ?thesis using mseg_bound [OF m] by fastforce
qed

lemma first_free_above: "mseg h pv p vs MEM_SIZE_ALIGNED ql \<Longrightarrow> p \<le> first_free vs"
  using frees_below [of h pv p vs MEM_SIZE_ALIGNED ql] mseg_le [of h pv p vs MEM_SIZE_ALIGNED ql]
  by (cases "frees vs") (simp_all add: first_free_def)

lemma adjust_lfree_spec:
  assumes "mseg h pv p bs MEM_SIZE_ALIGNED ql"
  shows "adjust_lfree h p = Some (first_free bs)"
  using assms
proof (induction bs arbitrary: pv p)
  case Nil
  then show ?case by (simp add: adjust_lfree.simps first_free_def)
next
  case (Cons b bs)
  obtain a s st where b: "b = (a, s, st)" by (cases b)
  have m: "a = p" "20 \<le> s" "mem_next h p = p + s" "mem_used h p \<longleftrightarrow> st = Alloc" "st \<noteq> Limbo" "mseg h p (p + s) bs MEM_SIZE_ALIGNED ql"
    using Cons.prems b by auto
  have l: "p \<noteq> MEM_SIZE_ALIGNED" using mseg_le [OF m(6)] m(2) by simp
  show ?case
  proof (cases st)
    case Alloc
    then show ?thesis using m l b Cons.IH [OF m(6)] by (subst adjust_lfree.simps) (simp add: first_free_def)
  next
    case Free
    then show ?thesis using m l b by (subst adjust_lfree.simps) (simp add: first_free_def)
  qed (use m in simp)
qed

lemma mem_request_Some: "mem_request n = Some sz \<Longrightarrow> 12 \<le> sz \<and> 4 dvd sz \<and> n \<le> sz \<and> sz \<le> 16384"
proof -
  assume *: "mem_request n = Some sz"
  have "4 dvd LWIP_MEM_ALIGN_SIZE n mod 2 ^ 16"
    by (rule dvd_mod) (simp_all add: LWIP_MEM_ALIGN_SIZE_def mem_consts)
  then show ?thesis using * by (auto simp: mem_request_def mem_consts Let_def split: if_splits)
qed

lemma mem_malloc_take_other [simp]:
  "lfree (mem_malloc_take sz a h) = lfree h" "ram (mem_malloc_take sz a h) = ram h"
  by (simp_all add: mem_malloc_take_def Let_def)

lemma mem_malloc_take_end:
  assumes "mheap_rel0 h (us @ (a, s, Free) # vs)" "sz + 8 \<le> s"
  shows "mem_used (mem_malloc_take sz a h) MEM_SIZE_ALIGNED" "mem_next (mem_malloc_take sz a h) MEM_SIZE_ALIGNED = MEM_SIZE_ALIGNED"
    "mem_prev (mem_malloc_take sz a h) MEM_SIZE_ALIGNED = MEM_SIZE_ALIGNED"
proof -
  obtain rl ql where b: "a + s \<le> MEM_SIZE_ALIGNED" "20 \<le> s" "mem_next h a = a + s"
    by (rule mheap_block [OF assms(1)]) auto
  have e: "mem_used h MEM_SIZE_ALIGNED" "mem_next h MEM_SIZE_ALIGNED = MEM_SIZE_ALIGNED" "mem_prev h MEM_SIZE_ALIGNED = MEM_SIZE_ALIGNED"
    using assms(1) by (auto simp: mheap_rel0_def)
  have n: "usub (mem_next h a) (a + SIZEOF_STRUCT_MEM) = s - 8" "a \<noteq> MEM_SIZE_ALIGNED" using b by (simp_all add: usub_block)
  have "sz + SIZEOF_STRUCT_MEM + MIN_SIZE_ALIGNED \<le> s - 8 \<Longrightarrow> a + SIZEOF_STRUCT_MEM + sz \<noteq> MEM_SIZE_ALIGNED"
    using b by (simp add: SIZEOF_STRUCT_MEM_def MIN_SIZE_ALIGNED_def)
  then show "mem_used (mem_malloc_take sz a h) MEM_SIZE_ALIGNED" "mem_next (mem_malloc_take sz a h) MEM_SIZE_ALIGNED = MEM_SIZE_ALIGNED"
    "mem_prev (mem_malloc_take sz a h) MEM_SIZE_ALIGNED = MEM_SIZE_ALIGNED"
    using e n by (auto simp: mem_malloc_take_def Let_def)
qed

lemma nonadj_taken: "nonadj (us @ (a, s, Free) # vs) \<Longrightarrow> nonadj (us @ taken sz a s @ vs)"
  using nonadj_append [of "us @ [(a, sz + 8, Alloc)]" "a + (sz + 8)" "s - (sz + 8)" Free vs] nonadj_append [of us a "sz + 8" Alloc "[]"]
  by (auto simp: taken_def nonadj_append)

lemma mem_malloc_spec:
  assumes r: "mheap_rel h bs"
  shows "mem_malloc n h = (case (if n = 0 then None else mem_request n) of None \<Rightarrow> Some (0, h)
    | Some sz \<Rightarrow> (case ff_take sz bs of None \<Rightarrow> Some (0, h)
      | Some (a, cs) \<Rightarrow> Some (ram h + a + 8, (mem_malloc_take sz a h)\<lparr>lfree := first_free cs\<rparr>)))"
    and "n \<noteq> 0 \<Longrightarrow> mem_request n = Some sz \<Longrightarrow> ff_take sz bs = Some (a, cs) \<Longrightarrow>
      mheap_rel ((mem_malloc_take sz a h)\<lparr>lfree := first_free cs\<rparr>) cs"
proof -
  have r0: "mheap_rel0 h bs" "nonadj bs" using r by (auto simp: mheap_rel_def)
  then obtain ql where m: "mseg h 0 0 bs MEM_SIZE_ALIGNED ql" and lf: "lfree h = first_free bs" by (auto simp: mheap_rel0_def)
  obtain us vs rl where sp: "bs = us @ vs" "frees us = []" "mseg h 0 0 us (lfree h) rl" "mseg h rl (lfree h) vs MEM_SIZE_ALIGNED ql"
    using first_free_split [OF m] lf by auto
  have nofree: "(b, t, Free) \<notin> set us" for b t using sp(2) frees_in [of b us] by auto
  have F: "mem_malloc_find sz h (lfree h) = Some (map_option fst (ff_take sz bs))" for sz
  proof (cases "ff_take sz bs")
    case None
    then show ?thesis using malloc_find_none [OF sp(4), of sz] by (auto simp: ff_take_None sp(1))
  next
    case (Some x)
    obtain a cs where x: "x = (a, cs)" by (cases x)
    obtain ws s zs where w: "bs = ws @ (a, s, Free) # zs" "sz + 8 \<le> s" "\<forall>b t. (b, t, Free) \<in> set ws \<longrightarrow> t < sz + 8"
      using ff_take_Some Some x by blast
    have "us @ vs = ws @ (a, s, Free) # zs" using w(1) sp(1) by simp
    then obtain us' where "ws = us @ us'" "vs = us' @ (a, s, Free) # zs"
      using nofree [of a s] by (auto simp: append_eq_append_conv2 Cons_eq_append_conv append_eq_Cons_conv)
    then show ?thesis using malloc_find_some [of h rl "lfree h" us' a s zs ql sz] sp(4) w Some x by auto
  qed
  have T: "mheap_rel ((mem_malloc_take sz a h)\<lparr>lfree := first_free cs\<rparr>) cs \<and>
      (if a = lfree h then adjust_lfree (mem_malloc_take sz a h) (lfree h) = Some (first_free cs) else lfree h = first_free cs)"
    if sz: "mem_request n = Some sz" and ff: "ff_take sz bs = Some (a, cs)" for sz a cs n
  proof -
    let ?h = "mem_malloc_take sz a h"
    obtain ws s zs where w: "bs = ws @ (a, s, Free) # zs" "sz + 8 \<le> s" "cs = ws @ taken sz a s @ zs" using ff_take_Some [OF ff] by blast
    note q = mem_request_Some [OF sz]
    obtain ql' where M: "mseg ?h 0 0 cs MEM_SIZE_ALIGNED ql'"
      using mem_malloc_take_spec [of h ws a s zs sz] r0(1) q w by auto
    have "mseg (?h\<lparr>lfree := first_free cs\<rparr>) 0 0 cs MEM_SIZE_ALIGNED ql'" by (rule mseg_frame [OF M]) simp
    then have "mheap_rel0 (?h\<lparr>lfree := first_free cs\<rparr>) cs"
      using r0(1) mem_malloc_take_end [of h ws a s zs sz] w by (auto simp: mheap_rel0_def)
    then have R: "mheap_rel (?h\<lparr>lfree := first_free cs\<rparr>) cs" using nonadj_taken [of ws a s zs sz] r0(2) w by (simp add: mheap_rel_def)
    show ?thesis
    proof (cases "frees ws = []")
      case True
      then have l: "lfree h = a" using lf w(1) by (simp add: first_free_append) (simp add: first_free_def)
      obtain r' rl' where "mseg ?h 0 0 ws r' rl'" and n: "mseg ?h rl' r' (taken sz a s @ zs) MEM_SIZE_ALIGNED ql'"
        using M w(3) by (auto simp: mseg_append [of _ _ _ ws])
      moreover have "r' = a" using n by (auto simp: taken_def split: if_splits)
      ultimately have "adjust_lfree ?h a = Some (first_free cs)"
        using adjust_lfree_spec [OF n] True w(3) by (simp add: first_free_append)
      then show ?thesis using R l by simp
    next
      case False
      then have l: "lfree h = hd (frees ws)" using lf w(1) by (simp add: first_free_append)
      obtain rl where "mseg h 0 0 ws a rl" using mheap_block [of h ws a s Free zs] r0(1) w(1) by auto
      then have "a \<noteq> hd (frees ws)" using frees_below False by blast
      then show ?thesis using R l w(3) False by (simp add: first_free_append)
    qed
  qed
  then show "n \<noteq> 0 \<Longrightarrow> mem_request n = Some sz \<Longrightarrow> ff_take sz bs = Some (a, cs) \<Longrightarrow>
      mheap_rel ((mem_malloc_take sz a h)\<lparr>lfree := first_free cs\<rparr>) cs" by blast
  show "mem_malloc n h = (case (if n = 0 then None else mem_request n) of None \<Rightarrow> Some (0, h)
    | Some sz \<Rightarrow> (case ff_take sz bs of None \<Rightarrow> Some (0, h)
      | Some (a, cs) \<Rightarrow> Some (ram h + a + 8, (mem_malloc_take sz a h)\<lparr>lfree := first_free cs\<rparr>)))"
  proof (cases "n = 0 \<or> mem_request n = None")
    case True
    then show ?thesis by (auto simp: mem_malloc_def)
  next
    case False
    then obtain sz where sz: "mem_request n = Some sz" "n \<noteq> 0" by auto
    show ?thesis
    proof (cases "ff_take sz bs")
      case None
      then show ?thesis using sz F [of sz] by (simp add: mem_malloc_def)
    next
      case (Some x)
      obtain a cs where x: "x = (a, cs)" by (cases x)
      have "h'\<lparr>lfree := v\<rparr> = h'" if "lfree h' = v" for h' :: lheap and v using that by simp
      then show ?thesis using sz F [of sz] Some x T [OF sz(1), of a cs]
        by (auto simp: mem_malloc_def Let_def SIZEOF_STRUCT_MEM_def split: if_splits)
    qed
  qed
qed

subsection \<open>Release\<close>

text \<open>Two free neighbours become one block.\<close>

definition join :: "nat \<Rightarrow> nat \<Rightarrow> lheap \<Rightarrow> lheap" where
  "join a c h = (let h = mset_next a (mem_next h c) h in relink (mem_next h c) a h)"

lemma join_spec:
  assumes r: "mheap_rel0 h (us @ (a, s, Free) # (c, t, Free) # vs)"
  shows "mheap_rel0 (join a c h) (us @ (a, s + t, Free) # vs)"
proof -
  obtain rl where b: "mseg h 0 0 us a rl" "a + s \<le> MEM_SIZE_ALIGNED" "20 \<le> s" "4 dvd s" "mem_prev h a = rl" "\<not> mem_used h a"
    by (rule mheap_block [OF r]) auto
  have r': "mheap_rel0 h ((us @ [(a, s, Free)]) @ (c, t, Free) # vs)" using r by simp
  obtain ql where c: "mseg h c (c + t) vs MEM_SIZE_ALIGNED ql" "c + t \<le> MEM_SIZE_ALIGNED" "20 \<le> t" "4 dvd t" "mem_next h c = c + t"
    by (rule mheap_block [OF r']) auto
  have e: "c = a + s" using r by (auto simp: mheap_rel0_def mseg_append)
  have j: "join a c h = relink (a + s + t) a (mset_next a (a + s + t) h)" using c(3,5) b(3) by (simp add: join_def Let_def e)
  have "\<exists>ql. mseg (join a c h) 0 0 (us @ [(a, s + t, Free)] @ vs) MEM_SIZE_ALIGNED ql"
    unfolding j by (rule mseg_replace [OF b(1) c(1), where el' = a]) (use b c in \<open>auto simp: e add.assoc\<close>)
  moreover have "first_free (us @ (a, s + t, Free) # vs) = first_free (us @ (a, s, Free) # (c, t, Free) # vs)"
    by (simp add: first_free_def hd_append)
  ultimately show ?thesis using r b c unfolding j by (auto simp: mheap_rel0_def e)
qed

text \<open>The release proper, with the links in order: what is left after the checks.\<close>

definition release :: "nat \<Rightarrow> lheap \<Rightarrow> lheap" where
  "release a h = (let h = mset_used a False h in if a < lfree h then h\<lparr>lfree := a\<rparr> else h)"

lemma release_spec:
  assumes r: "mheap_rel0 h (us @ (a, s, Alloc) # vs)"
  shows "mheap_rel0 (release a h) (us @ (a, s, Free) # vs)"
proof -
  obtain rl ql where b: "mseg h 0 0 us a rl" "mseg h a (a + s) vs MEM_SIZE_ALIGNED ql" "a + s \<le> MEM_SIZE_ALIGNED" "20 \<le> s" "4 dvd s"
    "mem_next h a = a + s" "mem_prev h a = rl" by (rule mheap_block [OF r]) auto
  have "\<exists>ql. mseg (release a h) 0 0 (us @ [(a, s, Free)] @ vs) MEM_SIZE_ALIGNED ql"
    by (rule mseg_replace [OF b(1,2), where el' = a]) (use b in \<open>auto simp: release_def Let_def dest: mseg_prev\<close>)
  moreover have "lfree (release a h) = first_free (us @ (a, s, Free) # vs)"
  proof (cases "frees us = []")
    case True
    have "lfree h = first_free vs" using r True by (simp add: mheap_rel0_def first_free_append) (simp add: first_free_def)
    moreover have "a < first_free vs" using first_free_above [OF b(2)] b(4) by simp
    ultimately show ?thesis using True by (simp add: release_def Let_def first_free_append) (simp add: first_free_def)
  next
    case False
    then have l: "lfree h = hd (frees us)" using r by (simp add: mheap_rel0_def first_free_append)
    have "hd (frees us) < a" using frees_below [OF b(1) False] by simp
    then show ?thesis using l False by (simp add: release_def Let_def first_free_append)
  qed
  ultimately show ?thesis using r b by (auto simp: mheap_rel0_def release_def Let_def)
qed

lemma plug_next_spec:
  assumes r: "mheap_rel0 h (us @ (a, s, Free) # vs)"
  shows "plug_next a h = (case vs of (c, t, Free) # _ \<Rightarrow> join a c h | _ \<Rightarrow> h)"
proof -
  obtain ql where b: "mseg h a (a + s) vs MEM_SIZE_ALIGNED ql" "20 \<le> s" "mem_next h a = a + s" "a + s \<le> MEM_SIZE_ALIGNED"
    by (rule mheap_block [OF r]) auto
  have e: "mem_used h MEM_SIZE_ALIGNED" using r by (simp add: mheap_rel0_def)
  show ?thesis
  proof (cases vs)
    case Nil
    then show ?thesis using b e by (simp add: plug_next_def)
  next
    case (Cons x vs')
    obtain c t st where x: "x = (c, t, st)" by (cases x)
    have c: "c = a + s" "mem_used h c \<longleftrightarrow> st = Alloc" "st \<noteq> Limbo" "20 \<le> t" "mseg h c (c + t) vs' MEM_SIZE_ALIGNED ql" using b(1) Cons x by auto
    have "c \<noteq> MEM_SIZE_ALIGNED" using mseg_le [OF c(5)] c(4) by simp
    moreover have "lfree h \<noteq> c"
    proof -
      have "lfree h = (if frees us = [] then a else hd (frees us))" using r by (simp add: mheap_rel0_def first_free_append) (simp add: first_free_def)
      moreover have "hd (frees us) < c" if "frees us \<noteq> []"
      proof -
        obtain rl where "mseg h 0 0 us a rl" by (rule mheap_block [OF r])
        then show ?thesis using frees_below that c(1) by fastforce
      qed
      ultimately show ?thesis using c(1) b(2) by auto
    qed
    ultimately show ?thesis using b c Cons x by (cases st) (simp_all add: plug_next_def join_def Let_def)
  qed
qed

lemma plug_prev_spec:
  assumes r: "mheap_rel0 h (us @ (a, s, Free) # vs)"
  shows "plug_prev a h = (case rev us of (c, t, Free) # _ \<Rightarrow> join c a h | _ \<Rightarrow> h)"
proof -
  obtain rl ql where b: "mseg h 0 0 us a rl" "20 \<le> s" "mem_prev h a = rl" "mem_next h a = a + s"
    by (rule mheap_block [OF r]) auto
  show ?thesis
  proof (cases us rule: rev_cases)
    case Nil
    then show ?thesis using b by (simp add: plug_prev_def)
  next
    case (snoc us' x)
    obtain c t st where x: "x = (c, t, st)" by (cases x)
    have c: "rl = c" "c + t = a" "mem_used h c \<longleftrightarrow> st = Alloc" "st \<noteq> Limbo" "20 \<le> t" using b(1) snoc x by (auto simp: mseg_append)
    have "st = Free \<Longrightarrow> lfree h \<noteq> a"
    proof -
      assume "st = Free"
      then have "c \<in> set (frees us)" "frees us \<noteq> []" using snoc x by (auto simp: frees_in)
      then have l: "lfree h = hd (frees us)" using r by (auto simp: mheap_rel0_def first_free_append)
      then show ?thesis using frees_below [OF b(1) \<open>frees us \<noteq> []\<close>] by simp
    qed
    then show ?thesis using b c snoc x by (cases st) (simp_all add: plug_prev_def join_def Let_def)
  qed
qed

lemma plug_holes_spec:
  assumes r: "mheap_rel0 h (us @ (a, s, Free) # vs)"
  shows "mheap_rel0 (plug_holes a h) (coalesce us a s vs)"
proof -
  define w where "w = (case vs of (c, t, Free) # vs' \<Rightarrow> (s + t, vs') | _ \<Rightarrow> (s, vs))"
  have R: "mheap_rel0 (plug_next a h) (us @ (a, fst w, Free) # snd w)"
    using join_spec [of h us a s] r by (auto simp: plug_next_spec [OF r] w_def split: list.splits bstate.splits)
  have "coalesce us a s vs = (case rev us of (c, t, Free) # us' \<Rightarrow> rev us' @ (c, t + fst w, Free) # snd w | _ \<Rightarrow> us @ (a, fst w, Free) # snd w)"
    by (auto simp: coalesce_def merge_left_def merge_right_def w_def add.assoc split: list.splits bstate.splits)
  then show ?thesis using R join_spec [of "plug_next a h" _ _ _ a "fst w" "snd w"]
    unfolding plug_holes_def plug_prev_spec [OF R]
    by (auto split: list.splits bstate.splits simp: rev_eq_Cons_iff)
qed

text \<open>Freeing the memory of a used block.\<close>

lemma mem_free_spec:
  assumes r: "mheap_rel h (us @ (a, s, Alloc) # vs)"
  shows "mheap_rel (mem_free (ram h + a + 8) h) (coalesce us a s vs)" "ram (mem_free (ram h + a + 8) h) = ram h"
proof -
  have r0: "mheap_rel0 h (us @ (a, s, Alloc) # vs)" "nonadj us" "nonadj vs" using r by (auto simp: mheap_rel_def nonadj_append)
  obtain rl ql where b: "mseg h 0 0 us a rl" "mseg h a (a + s) vs MEM_SIZE_ALIGNED ql" "a + s \<le> MEM_SIZE_ALIGNED" "20 \<le> s" "4 dvd s" "4 dvd a"
    "mem_next h a = a + s" "mem_prev h a = rl" "mem_used h a" by (rule mheap_block [OF r0(1)]) auto
  have v: "mem_link_valid a h"
  proof -
    have "a + s \<noteq> MEM_SIZE_ALIGNED \<Longrightarrow> mem_prev h (a + s) = a" using mseg_prev [OF b(2)] b(3) by auto
    moreover have "rl \<noteq> a \<Longrightarrow> mem_next h rl = a" "rl \<le> a"
      using b(1) by (cases us rule: rev_cases; auto simp: mseg_append)+
    ultimately show ?thesis using b by (auto simp: mem_link_valid_def Let_def)
  qed
  have al: "(ram h + a + 8) mod 4 = 0" using b(6) r0(1) by (auto simp: mheap_rel0_def elim!: dvdE)
  have z: "0 < ram h" using r0(1) by (simp add: mheap_rel0_def)
  have e: "mem_free (ram h + a + 8) h = plug_holes a (release a h)"
    using v al z b by (simp add: mem_free_def release_def mem_consts Let_def)
  show "mheap_rel (mem_free (ram h + a + 8) h) (coalesce us a s vs)"
    using plug_holes_spec [OF release_spec [OF r0(1)]] nonadj_coalesce [OF r0(2,3)] by (simp add: mheap_rel_def e)
  show "ram (mem_free (ram h + a + 8) h) = ram h" by (simp add: e plug_holes_def plug_prev_def plug_next_def release_def Let_def)
qed

subsection \<open>Shrinking\<close>

definition trimmed :: "nat \<Rightarrow> nat \<Rightarrow> nat \<Rightarrow> blk list \<Rightarrow> blk list" where
  "trimmed w a s vs =
     (if w + 8 = s then (a, s, Alloc) # vs
      else case vs of
        (c, t, Free) # vs' \<Rightarrow> (a, w + 8, Alloc) # (a + (w + 8), s - (w + 8) + t, Free) # vs'
      | _ \<Rightarrow> if w + 28 \<le> s then (a, w + 8, Alloc) # (a + (w + 8), s - (w + 8), Free) # vs else (a, s, Alloc) # vs)"

definition carve :: "nat \<Rightarrow> nat \<Rightarrow> nat \<Rightarrow> lheap \<Rightarrow> lheap" where
  "carve p ptr2 nxt h = relink nxt ptr2 (mset_next p ptr2 (mset_prev ptr2 p (mset_next ptr2 nxt (mset_used ptr2 False h))))"

text \<open>A used block followed by blocks up to \<open>e\<close> is cut in two, the second part free.\<close>

lemma carve_spec:
  assumes u: "mseg h 0 0 us a rl" and v: "mseg h el e vs MEM_SIZE_ALIGNED ql" and h: "mem_used h a" "mem_prev h a = rl"
    and w: "12 \<le> w" "4 dvd w" "a + (w + 28) \<le> e" "4 dvd e - a"
  shows "\<exists>ql. mseg (carve a (a + (w + 8)) e h) 0 0 (us @ [(a, w + 8, Alloc), (a + (w + 8), e - a - (w + 8), Free)] @ vs) MEM_SIZE_ALIGNED ql"
proof -
  have d: "4 dvd e - a - (w + 8)" by (rule dvd_diff_nat) (use w in simp_all)
  have d': "4 dvd w + 8" "e \<le> MEM_SIZE_ALIGNED" using w mseg_le [OF v] by simp_all
  have p: "e = a + (w + 8) + (e - a - (w + 8))" "20 \<le> e - a - (w + 8)" using w by arith+
  show ?thesis
    by (rule mseg_replace [OF u v, where el' = "a + (w + 8)"]) (use h w d d' p in \<open>auto simp: carve_def\<close>)
qed

lemma carve_rel:
  assumes r: "mheap_rel h (us @ (a, s, Alloc) # vs)" and v: "mseg h el e ws MEM_SIZE_ALIGNED ql"
    and w: "12 \<le> w" "4 dvd w" "a + (w + 28) \<le> e" "4 dvd e - a" and ws: "nonadj ws" "\<forall>c t ws'. ws \<noteq> (c, t, Free) # ws'"
    and l: "l = (if frees us = [] then a + (w + 8) else hd (frees us))"
  shows "mheap_rel (carve a (a + (w + 8)) e (h\<lparr>lfree := l\<rparr>)) (us @ (a, w + 8, Alloc) # (a + (w + 8), e - a - (w + 8), Free) # ws)"
proof -
  have r0: "mheap_rel0 h (us @ (a, s, Alloc) # vs)" "nonadj us" using r by (auto simp: mheap_rel_def nonadj_append)
  obtain rl where b: "mseg h 0 0 us a rl" "mem_prev h a = rl" "mem_used h a" by (rule mheap_block [OF r0(1)]) auto
  let ?h = "h\<lparr>lfree := l\<rparr>"
  have "mseg ?h 0 0 us a rl" "mseg ?h el e ws MEM_SIZE_ALIGNED ql"
    by (rule mseg_frame [OF b(1)], simp) (rule mseg_frame [OF v], simp)
  from carve_spec [OF this _ _ w] b
  have "\<exists>ql. mseg (carve a (a + (w + 8)) e ?h) 0 0 (us @ [(a, w + 8, Alloc), (a + (w + 8), e - a - (w + 8), Free)] @ ws) MEM_SIZE_ALIGNED ql" by simp
  moreover have "a + (w + 8) \<noteq> MEM_SIZE_ALIGNED" "a \<noteq> MEM_SIZE_ALIGNED" using mseg_le [OF v] w(3) by auto
  ultimately have "mheap_rel0 (carve a (a + (w + 8)) e ?h) (us @ (a, w + 8, Alloc) # (a + (w + 8), e - a - (w + 8), Free) # ws)"
    using r0(1) l by (auto simp: mheap_rel0_def carve_def first_free_append) (auto simp: first_free_def)
  moreover have "nonadj ((us @ [(a, w + 8, Alloc)]) @ (a + (w + 8), e - a - (w + 8), Free) # ws)"
    using ws r0(2) nonadj_append [of us a "w + 8" Alloc "[]"] by (subst nonadj_append) simp
  ultimately show ?thesis by (simp add: mheap_rel_def)
qed

text \<open>The call as one case distinction.\<close>

lemma mem_trim_cases:
  assumes r: "mheap_rel h (us @ (a, s, Alloc) # vs)" and w: "mem_request n = Some w"
  shows "mem_trim (ram h + a + 8) n h =
     (if w > s - 8 then (0, h) else if w = s - 8 then (ram h + a + 8, h)
      else if \<not> mem_used h (a + s)
      then (ram h + a + 8, carve a (a + (w + 8)) (mem_next h (a + s)) (if lfree h = a + s then h\<lparr>lfree := a + (w + 8)\<rparr> else h))
      else if w + 20 \<le> s - 8
      then (ram h + a + 8, carve a (a + (w + 8)) (a + s) (if a + (w + 8) < lfree h then h\<lparr>lfree := a + (w + 8)\<rparr> else h))
      else (ram h + a + 8, h))"
proof -
  have r0: "mheap_rel0 h (us @ (a, s, Alloc) # vs)" using r by (auto simp: mheap_rel_def)
  have b: "a + s \<le> MEM_SIZE_ALIGNED" "20 \<le> s" "mem_next h a = a + s" by (rule mheap_block [OF r0], simp)+
  have "usub16 (usub16 (mem_next h a) a) SIZEOF_STRUCT_MEM = s - 8" using b by (simp add: usub16_block)
  moreover have "\<not> (ram h + a + 8 < ram h \<or> ram h + a + 8 \<ge> ram h + MEM_SIZE_ALIGNED)" using b by simp
  moreover have "a + (w + 8) \<noteq> a" by simp
  ultimately show ?thesis using b
    by (simp add: mem_trim_def w Let_def carve_def SIZEOF_STRUCT_MEM_def MIN_SIZE_ALIGNED_def add.assoc add.commute [of 8])
qed

lemma mem_trim_spec:
  assumes r: "mheap_rel h (us @ (a, s, Alloc) # vs)" and w: "mem_request n = Some w"
  shows "w + 8 \<le> s \<Longrightarrow> fst (mem_trim (ram h + a + 8) n h) = ram h + a + 8 \<and> mheap_rel (snd (mem_trim (ram h + a + 8) n h)) (us @ trimmed w a s vs)"
    and "s < w + 8 \<Longrightarrow> mem_trim (ram h + a + 8) n h = (0, h)"
proof -
  note q = mem_request_Some [OF w]
  have r0: "mheap_rel0 h (us @ (a, s, Alloc) # vs)" "nonadj us" "nonadj vs" using r by (auto simp: mheap_rel_def nonadj_append)
  obtain rl ql where b: "mseg h 0 0 us a rl" "mseg h a (a + s) vs MEM_SIZE_ALIGNED ql" "a + s \<le> MEM_SIZE_ALIGNED" "20 \<le> s" "4 dvd s"
    "mem_next h a = a + s" "mem_prev h a = rl" "mem_used h a" by (rule mheap_block [OF r0(1)]) auto
  note T = mem_trim_cases [OF r w]
  show "s < w + 8 \<Longrightarrow> mem_trim (ram h + a + 8) n h = (0, h)" using b(4) by (auto simp: T)
  show "fst (mem_trim (ram h + a + 8) n h) = ram h + a + 8 \<and> mheap_rel (snd (mem_trim (ram h + a + 8) n h)) (us @ trimmed w a s vs)" if ws: "w + 8 \<le> s"
  proof (cases "w + 8 = s")
    case True
    then show ?thesis using r b(4) by (auto simp: T trimmed_def)
  next
    case False
    then have lt: "w + 8 < s" using ws by simp
    then have d: "w + 12 \<le> s" using q b(5) by presburger
    have lf: "lfree h = (if frees us = [] then first_free vs else hd (frees us))" using r0(1)
      by (simp add: mheap_rel0_def first_free_append) (simp add: first_free_def)
    show ?thesis
    proof (cases "\<exists>c t vs'. vs = (c, t, Free) # vs'")
      case True
      then obtain c t vs' where v: "vs = (c, t, Free) # vs'" by blast
      have c: "c = a + s" "mem_next h c = c + t" "\<not> mem_used h c" "20 \<le> t" "4 dvd t" "mseg h c (c + t) vs' MEM_SIZE_ALIGNED ql" using b(2) v by auto
      have "(if lfree h = a + s then h\<lparr>lfree := a + (w + 8)\<rparr> else h) = h\<lparr>lfree := if frees us = [] then a + (w + 8) else hd (frees us)\<rparr>"
        using lf v c(1) b(4) frees_below [OF b(1)] by (auto simp: first_free_def)
      moreover have "nonadj vs'" "\<forall>c t ws'. vs' \<noteq> (c, t, Free) # ws'" using r0(3) v nonadj_append [of "[]" c t Free vs'] by auto
      moreover have "c + t - a - (w + 8) = s - (w + 8) + t" "a + (w + 28) \<le> c + t" "4 dvd c + t - a" using c(1,4,5) d lt b(5) by auto
      ultimately show ?thesis using carve_rel [OF r c(6), of w "if frees us = [] then a + (w + 8) else hd (frees us)"] c lt b(4) v q
        by (auto simp: T trimmed_def)
    next
      case nf: False
      have u: "mem_used h (a + s)"
      proof (cases vs)
        case Nil
        then show ?thesis using b(2) r0(1) by (auto simp: mheap_rel0_def)
      next
        case (Cons x vs')
        then show ?thesis using b(2) nf by (cases x; cases "snd (snd x)") auto
      qed
      have t: "trimmed w a s vs = (if w + 28 \<le> s then (a, w + 8, Alloc) # (a + (w + 8), s - (w + 8), Free) # vs else (a, s, Alloc) # vs)"
        using False nf by (auto simp: trimmed_def split: list.splits bstate.splits)
      show ?thesis
      proof (cases "w + 28 \<le> s")
        case True
        have "(if a + (w + 8) < lfree h then h\<lparr>lfree := a + (w + 8)\<rparr> else h) = h\<lparr>lfree := if frees us = [] then a + (w + 8) else hd (frees us)\<rparr>"
          using lf lt frees_below [OF b(1)] first_free_above [OF b(2)] by auto
        then show ?thesis using carve_rel [OF r b(2), of w "if frees us = [] then a + (w + 8) else hd (frees us)"] True b(4,5) r0(3) nf u lt q
          by (auto simp: T t)
      next
        case False
        then show ?thesis using r u lt by (auto simp: T t)
      qed
    qed
  qed
qed

subsection \<open>The contract with the clients\<close>

definition lwip_rep :: "nat \<Rightarrow> lheap \<Rightarrow> (nat \<times> nat) set \<Rightarrow> bool" where
  "lwip_rep base h R \<longleftrightarrow> ram h = base \<and> (\<exists>bs. mheap_rel h bs \<and> R = (\<lambda>(p, n). (ram h + p, n)) ` live bs)"

lemma live_taken: "sz + 8 \<le> s \<Longrightarrow> live (taken sz a s) = {(a + 8, if sz + 28 \<le> s then sz else s - 8)}"
  by (auto simp: taken_def)

lemma live_apart:
  assumes "mheap_rel0 h (us @ (a, s, st) # vs)" "x \<in> live us \<union> live vs"
  shows "fst x + snd x \<le> a \<or> a + s + 8 \<le> fst x"
proof -
  obtain rl ql where b: "mseg h 0 0 us a rl" "mseg h a (a + s) vs MEM_SIZE_ALIGNED ql" by (rule mheap_block [OF assms(1)])
  from assms(2) obtain c t where "x = (c + 8, t - 8)" "(c, t, Alloc) \<in> set us \<or> (c, t, Alloc) \<in> set vs" by (auto simp: live_iff)
  then show ?thesis using mseg_bound [OF b(1), of c t Alloc] mseg_bound [OF b(2), of c t Alloc] by auto
qed

interpretation lwip_mem: allocator "lwip_rep base" mem_malloc "\<lambda>p h. Some (mem_free p h)" for base
proof unfold_locales
  fix h R n
  assume "lwip_rep base h R" and n: "n < (2 ^ 32 :: nat)"
  then obtain bs where r: "mheap_rel h bs" and b: "ram h = base" and R: "R = (\<lambda>(p, n). (ram h + p, n)) ` live bs" by (auto simp: lwip_rep_def)
  show "mem_malloc n h = Some (0, h) \<or>
      (\<exists>p len h'. mem_malloc n h = Some (p, h') \<and> 0 < p \<and> n \<le> len \<and> 0 < len \<and> lwip_rep base h' (insert (p, len) R) \<and> (\<forall>x \<in> R. apart (p, len) x))"
  proof (cases "n = 0 \<or> mem_request n = None \<or> ff_take (the (mem_request n)) bs = None")
    case True
    then have "mem_malloc n h = Some (0, h)" using mem_malloc_spec(1) [OF r, of n] by (cases "mem_request n") auto
    then show ?thesis by blast
  next
    case False
    then obtain sz a cs where s: "n \<noteq> 0" "mem_request n = Some sz" "ff_take sz bs = Some (a, cs)" by auto
    let ?h = "(mem_malloc_take sz a h)\<lparr>lfree := first_free cs\<rparr>"
    obtain us s vs where w: "bs = us @ (a, s, Free) # vs" "sz + 8 \<le> s" "cs = us @ taken sz a s @ vs" using ff_take_Some [OF s(3)] by blast
    note q = mem_request_Some [OF s(2)]
    define len where "len = (if sz + 28 \<le> s then sz else s - 8)"
    have "live cs = insert (a + 8, len) (live bs)" using w live_taken [OF w(2)] by (auto simp: len_def)
    then have "lwip_rep base ?h (insert (ram h + a + 8, len) R)"
      using mem_malloc_spec(2) [OF r s] R b by (auto simp: lwip_rep_def intro!: exI [of _ cs])
    moreover have "apart (ram h + a + 8, len) x" if x: "x \<in> R" for x
    proof -
      obtain y where y: "y \<in> live us \<union> live vs" "x = (ram h + fst y, snd y)" using x R w(1) by fastforce
      have "mheap_rel0 h (us @ (a, s, Free) # vs)" using r w(1) by (simp add: mheap_rel_def)
      from live_apart [OF this y(1)] show ?thesis using y(2) w(2) by (auto simp: apart_def len_def)
    qed
    moreover have "mem_malloc n h = Some (ram h + a + 8, ?h)" using mem_malloc_spec(1) [OF r, of n] s by simp
    moreover have "n \<le> len" "0 < len" using q w(2) by (auto simp: len_def)
    ultimately show ?thesis by (intro disjI2 exI [of _ "ram h + a + 8"] exI [of _ len] exI [of _ ?h]) simp
  qed
next
  fix h R p len
  assume "lwip_rep base h R" and p: "(p, len) \<in> R"
  then obtain bs where r: "mheap_rel h bs" and b: "ram h = base" and R: "R = (\<lambda>(p, n). (ram h + p, n)) ` live bs" by (auto simp: lwip_rep_def)
  obtain a s where a: "(a, s, Alloc) \<in> set bs" "p = ram h + a + 8" "len = s - 8" using p R by (auto simp: live_iff)
  obtain us vs where w: "bs = us @ (a, s, Alloc) # vs" using split_list [OF a(1)] by blast
  note f = mem_free_spec [OF r [unfolded w]]
  have "x \<noteq> (a + 8, s - 8)" if "x \<in> live us \<union> live vs" for x
  proof -
    have r0: "mheap_rel0 h (us @ (a, s, Alloc) # vs)" using r w by (simp add: mheap_rel_def)
    moreover have "20 \<le> s" by (rule mheap_block [OF r0])
    ultimately show ?thesis using live_apart [OF _ that] by fastforce
  qed
  then have "live (coalesce us a s vs) = live bs - {(a + 8, s - 8)}" using w unfolding live_coalesce by auto
  moreover have "inj (\<lambda>(p :: nat, n :: nat). (ram h + p, n))" by (auto simp: inj_def)
  ultimately have "(\<lambda>(p, n). (ram h + p, n)) ` live (coalesce us a s vs) = R - {(p, len)}"
    unfolding R a(2,3) by (simp only: image_set_diff) (simp add: add.assoc)
  then show "\<exists>h'. Some (mem_free p h) = Some h' \<and> lwip_rep base h' (R - {(p, len)})"
    using f a(2) b by (intro exI [of _ "mem_free p h"]) (auto simp: lwip_rep_def intro!: exI [of _ "coalesce us a s vs"])
qed

subsection \<open>Properties\<close>

lemma mem_init_rel: "0 < base \<Longrightarrow> 4 dvd base \<Longrightarrow> mheap_rel (mem_init base) [(0, 16384, Free)]"
  by (simp add: mheap_rel_def mheap_rel0_def mem_init_def MEM_SIZE_ALIGNED_def first_free_def)

text \<open>C19: The heap of the network stack implements first fit on a tiling of its array. \<open>mem_malloc\<close> takes the first free
  block that holds the rounded size, splits off a remainder of at least 20 bytes, and returns \<open>NULL\<close> with
  the heap unchanged exactly when there is none; \<open>mem_free\<close> frees exactly the block and merges it with free
  neighbours; \<open>mem_trim\<close> shrinks a block in place and gives the tail to the free neighbour, or makes it a
  free block when it is large enough.\<close>

theorem lwip_heap_refines:
  assumes r: "mheap_rel h bs"
  shows "(case (if n = 0 then None else mem_request n) of None \<Rightarrow> mem_malloc n h = Some (0, h)
      | Some sz \<Rightarrow> (case ff_take sz bs of None \<Rightarrow> mem_malloc n h = Some (0, h)
        | Some (a, cs) \<Rightarrow> (\<exists>h'. mem_malloc n h = Some (ram h + a + 8, h') \<and> mheap_rel h' cs))) \<and>
    (bs = us @ (a, s, Alloc) # vs \<longrightarrow> mheap_rel (mem_free (ram h + a + 8) h) (coalesce us a s vs) \<and>
      (mem_request n = Some w \<longrightarrow> (if w + 8 \<le> s then fst (mem_trim (ram h + a + 8) n h) = ram h + a + 8 \<and>
          mheap_rel (snd (mem_trim (ram h + a + 8) n h)) (us @ trimmed w a s vs)
        else mem_trim (ram h + a + 8) n h = (0, h))))"
proof (intro conjI impI)
  show "case (if n = 0 then None else mem_request n) of None \<Rightarrow> mem_malloc n h = Some (0, h)
      | Some sz \<Rightarrow> (case ff_take sz bs of None \<Rightarrow> mem_malloc n h = Some (0, h)
        | Some (a, cs) \<Rightarrow> (\<exists>h'. mem_malloc n h = Some (ram h + a + 8, h') \<and> mheap_rel h' cs))"
    using mem_malloc_spec [OF r, of n] by (auto split: option.splits)
  assume bs: "bs = us @ (a, s, Alloc) # vs"
  note r' = r [unfolded bs]
  show "mheap_rel (mem_free (ram h + a + 8) h) (coalesce us a s vs)" by (rule mem_free_spec [OF r'])
  assume w: "mem_request n = Some w"
  show "if w + 8 \<le> s then fst (mem_trim (ram h + a + 8) n h) = ram h + a + 8 \<and> mheap_rel (snd (mem_trim (ram h + a + 8) n h)) (us @ trimmed w a s vs)
        else mem_trim (ram h + a + 8) n h = (0, h)" using mem_trim_spec [OF r' w] by (simp add: not_le)
qed

theorem lwip_heap_refines_witness:
  "\<exists>h'. mem_malloc 100 (mem_init 0x20010000) = Some (0x20010008, h') \<and> mheap_rel h' [(0, 108, Alloc), (108, 16276, Free)]"
proof -
  have q: "mem_request 100 = Some 100" by (simp add: mem_request_def LWIP_MEM_ALIGN_SIZE_def mem_consts)
  show ?thesis
    using lwip_heap_refines [OF mem_init_rel [of "0x20010000"], of 100 "[]" 0 0 "[]" 0] q by (simp add: taken_def) (simp add: mem_init_def)
qed

text \<open>Clients of the network heap never share memory: from the initial heap, after any sequence of allocations
  and frees, every call has returned, the pointers not freed yet are different, and their regions lie in
  the array, are not empty and are pairwise disjoint.\<close>

theorem lwip_heap_clients:
  assumes "0 < base" "4 dvd base" "\<forall>n. Malloc n \<in> set os \<longrightarrow> n < 2 ^ 32"
  shows "\<exists>h ps R. client_run mem_malloc (\<lambda>p h. Some (mem_free p h)) os (mem_init base) [] = Some (h, ps) \<and>
    lwip_rep base h R \<and> disjoint_regions R \<and> set ps = fst ` R \<and> distinct ps \<and>
    (\<forall>p len. (p, len) \<in> R \<longrightarrow> base + 8 \<le> p \<and> p + len \<le> base + 16384)"
proof -
  have "lwip_rep base (mem_init base) {}"
    using mem_init_rel [OF assms(1,2)] by (auto simp: lwip_rep_def intro!: exI [of _ "[(0, 16384, Free)]"]) (simp add: mem_init_def)
  from lwip_mem.run_disjoint [OF this, of "[]" os] assms(3) obtain h ps R
    where r: "client_run mem_malloc (\<lambda>p h. Some (mem_free p h)) os (mem_init base) [] = Some (h, ps)" "lwip_rep base h R" "disjoint_regions R"
      "set ps = fst ` R" "distinct ps" by (auto simp: disjoint_regions_def)
  have "base + 8 \<le> p \<and> p + len \<le> base + 16384" if pl: "(p, len) \<in> R" for p len
  proof -
    obtain bs ql where b: "mseg h 0 0 bs MEM_SIZE_ALIGNED ql" "R = (\<lambda>(p, n). (base + p, n)) ` live bs"
      using r(2) by (auto simp: lwip_rep_def mheap_rel_def mheap_rel0_def)
    then obtain a s where "(a, s, Alloc) \<in> set bs" "p = base + a + 8" "len = s - 8" using pl by (auto simp: live_iff)
    then show ?thesis using mseg_bound [OF b(1), of a s Alloc] by (simp add: MEM_SIZE_ALIGNED_def)
  qed
  then show ?thesis using r by blast
qed

theorem lwip_heap_clients_witness:
  "\<exists>h ps R. client_run mem_malloc (\<lambda>p h. Some (mem_free p h)) [Malloc 100, Malloc 20, FreeNth 1] (mem_init 0x20010000) [] = Some (h, ps) \<and>
     disjoint_regions R \<and> set ps = fst ` R"
  using lwip_heap_clients [of "0x20010000" "[Malloc 100, Malloc 20, FreeNth 1]"] by auto

lemma plug_holes_used [simp]: "mem_used (plug_holes a h) = mem_used h"
  by (simp add: plug_holes_def plug_prev_def plug_next_def Let_def)

text \<open>Freeing the same memory twice is noticed and ignored.\<close>

lemma mem_double_free_ignored:
  assumes "mheap_rel h (us @ (a, s, Alloc) # vs)"
  shows "mem_free (ram h + a + 8) (mem_free (ram h + a + 8) h) = mem_free (ram h + a + 8) h"
proof -
  let ?h = "mem_free (ram h + a + 8) h"
  have "?h = h \<or> \<not> mem_used ?h a" by (simp add: mem_free_def Let_def SIZEOF_STRUCT_MEM_def)
  then show ?thesis
  proof
    assume "\<not> mem_used ?h a"
    then show ?thesis by (subst mem_free_def) (simp add: Let_def SIZEOF_STRUCT_MEM_def mem_free_spec(2) [OF assms])
  qed simp
qed

end
