(* ===== verification/PbufRead.thy ===== *)
theory PbufRead
  imports PbufData
begin

text \<open>
  The functions of \<open>pbuf.c\<close> that read a chain of packet buffers, and what they compute in terms of the bytes
  of the chain. A loop along \<open>next\<close> is a partial function: on a cyclic chain it does not return.
\<close>

subsection \<open>The code\<close>

partial_function (option) pbuf_clen_loop :: "(nat \<Rightarrow> pbuf) \<Rightarrow> nat \<Rightarrow> nat \<Rightarrow> nat option" where
  "pbuf_clen_loop P p len = (if p \<noteq> 0 then pbuf_clen_loop P (pbuf_next (P p)) (u16_t (len + 1)) else Some len)"

definition pbuf_clen :: "(nat \<Rightarrow> pbuf) \<Rightarrow> nat \<Rightarrow> nat option" where
  "pbuf_clen P p = pbuf_clen_loop P p 0"

text \<open>The number of bytes copied, and the memory with the copy in it.\<close>

partial_function (option) copy_partial_loop ::
  "(nat \<Rightarrow> pbuf) \<Rightarrow> nat \<Rightarrow> nat \<Rightarrow> nat \<Rightarrow> nat \<Rightarrow> nat \<Rightarrow> nat \<Rightarrow> bytes \<Rightarrow> (nat \<times> bytes) option"
where
  "copy_partial_loop P p dataptr len offset left copied_total m =
     (if len \<noteq> 0 \<and> p \<noteq> 0
      then if offset \<noteq> 0 \<and> offset \<ge> pbuf_len (P p)
           then copy_partial_loop P (pbuf_next (P p)) dataptr len (offset - pbuf_len (P p)) left copied_total m
           else let n = pbuf_len (P p) - offset;
                    n = (if n > len then len else n);
                    m = write_bytes (dataptr + left) (read_bytes (payload (P p) + offset) n m) m
                in copy_partial_loop P (pbuf_next (P p)) dataptr (len - n) 0 (u16_t (left + n)) (u16_t (copied_total + n)) m
      else Some (copied_total, m))"

definition pbuf_copy_partial :: "(nat \<Rightarrow> pbuf) \<Rightarrow> nat \<Rightarrow> nat \<Rightarrow> nat \<Rightarrow> nat \<Rightarrow> bytes \<Rightarrow> (nat \<times> bytes) option" where
  "pbuf_copy_partial P buf dataptr len offset m =
     (if buf = 0 then Some (0, m) else if dataptr = 0 then Some (0, m)
      else copy_partial_loop P buf dataptr len offset 0 0 m)"

text \<open>The buffer and the offset in it.\<close>

partial_function (option) pbuf_skip_const :: "(nat \<Rightarrow> pbuf) \<Rightarrow> nat \<Rightarrow> nat \<Rightarrow> (nat \<times> nat) option" where
  "pbuf_skip_const P q offset_left =
     (if q \<noteq> 0 \<and> pbuf_len (P q) \<le> offset_left
      then pbuf_skip_const P (pbuf_next (P q)) (offset_left - pbuf_len (P q))
      else Some (q, offset_left))"

definition pbuf_skip :: "(nat \<Rightarrow> pbuf) \<Rightarrow> nat \<Rightarrow> nat \<Rightarrow> (nat \<times> nat) option" where
  "pbuf_skip P p in_offset = pbuf_skip_const P p in_offset"

text \<open>A pointer to \<open>len\<close> bytes in one piece: into the buffer when they lie in one, else a copy.\<close>

definition pbuf_get_contiguous :: "(nat \<Rightarrow> pbuf) \<Rightarrow> nat \<Rightarrow> nat \<Rightarrow> nat \<Rightarrow> nat \<Rightarrow> nat \<Rightarrow> bytes \<Rightarrow> (nat \<times> bytes) option" where
  "pbuf_get_contiguous P p buffer bufsize len offset m =
     (if p = 0 \<or> buffer = 0 \<or> bufsize < len then Some (0, m)
      else case pbuf_skip_const P p offset of
        None \<Rightarrow> None
      | Some (q, out_offset) \<Rightarrow>
          if q \<noteq> 0
          then if pbuf_len (P q) \<ge> out_offset + len then Some (payload (P q) + out_offset, m)
               else map_option (\<lambda>(n, m). (if n \<noteq> len then 0 else buffer, m)) (pbuf_copy_partial P q buffer len out_offset m)
          else Some (0, m))"

text \<open>The byte, or \<open>None\<close> for the result \<open>-1\<close>.\<close>

definition pbuf_try_get_at :: "(nat \<Rightarrow> pbuf) \<Rightarrow> bytes \<Rightarrow> nat \<Rightarrow> nat \<Rightarrow> u8 option option" where
  "pbuf_try_get_at P m p offset =
     map_option (\<lambda>(q, q_idx). if q \<noteq> 0 \<and> pbuf_len (P q) > q_idx then Some (m (payload (P q) + q_idx)) else None)
       (pbuf_skip_const P p offset)"

definition pbuf_get_at :: "(nat \<Rightarrow> pbuf) \<Rightarrow> bytes \<Rightarrow> nat \<Rightarrow> nat \<Rightarrow> u8 option" where
  "pbuf_get_at P m p offset = map_option (\<lambda>r. case r of Some b \<Rightarrow> b | None \<Rightarrow> 0) (pbuf_try_get_at P m p offset)"

text \<open>The comparison with the bytes of \<open>s2\<close>; \<open>k\<close> of them are left.\<close>

fun memcmp_loop :: "(nat \<Rightarrow> pbuf) \<Rightarrow> bytes \<Rightarrow> nat \<Rightarrow> nat \<Rightarrow> u8 list \<Rightarrow> nat \<Rightarrow> nat \<Rightarrow> nat option" where
  "memcmp_loop P m q start s2 i 0 = Some 0"
| "memcmp_loop P m q start s2 i (Suc k) =
     (case pbuf_get_at P m q (u16_t (start + i)) of
        None \<Rightarrow> None
      | Some a \<Rightarrow> if a \<noteq> s2 ! i then Some (min (i + 1) 0xFFFF) else memcmp_loop P m q start s2 (i + 1) k)"

definition pbuf_memcmp :: "(nat \<Rightarrow> pbuf) \<Rightarrow> bytes \<Rightarrow> nat \<Rightarrow> nat \<Rightarrow> u8 list \<Rightarrow> nat \<Rightarrow> nat option" where
  "pbuf_memcmp P m p offset s2 n =
     (if tot_len (P p) < offset + n then Some 0xffff
      else case pbuf_skip_const P p offset of None \<Rightarrow> None | Some (q, start) \<Rightarrow> memcmp_loop P m q start s2 0 n)"

text \<open>The search; \<open>k\<close> is the number of positions left, the loop counter never wraps.\<close>

fun memfind_loop :: "(nat \<Rightarrow> pbuf) \<Rightarrow> bytes \<Rightarrow> nat \<Rightarrow> u8 list \<Rightarrow> nat \<Rightarrow> nat \<Rightarrow> nat \<Rightarrow> nat option" where
  "memfind_loop P m p mem mem_len i 0 = Some 0xFFFF"
| "memfind_loop P m p mem mem_len i (Suc k) =
     (case pbuf_memcmp P m p i mem mem_len of
        None \<Rightarrow> None
      | Some r \<Rightarrow> if r = 0 then Some i else memfind_loop P m p mem mem_len (i + 1) k)"

definition pbuf_memfind :: "(nat \<Rightarrow> pbuf) \<Rightarrow> bytes \<Rightarrow> nat \<Rightarrow> u8 list \<Rightarrow> nat \<Rightarrow> nat \<Rightarrow> nat option" where
  "pbuf_memfind P m p mem mem_len start_offset =
     (if tot_len (P p) \<ge> mem_len + start_offset
      then memfind_loop P m p mem mem_len start_offset (tot_len (P p) - mem_len + 1 - start_offset)
      else Some 0xFFFF)"

text \<open>The string without its terminator; \<open>None\<close> stands for a \<open>NULL\<close> pointer.\<close>

definition pbuf_strstr :: "(nat \<Rightarrow> pbuf) \<Rightarrow> bytes \<Rightarrow> nat \<Rightarrow> u8 list option \<Rightarrow> nat option" where
  "pbuf_strstr P m p substr =
     (case substr of
        None \<Rightarrow> Some 0xFFFF
      | Some str \<Rightarrow>
          if str = [] \<or> tot_len (P p) = 0xFFFF then Some 0xFFFF
          else if length str \<ge> 0xFFFF then Some 0xFFFF
          else pbuf_memfind P m p str (length str) 0)"

subsection \<open>What they compute\<close>

definition chain_len :: "(nat \<Rightarrow> pbuf) \<Rightarrow> nat list \<Rightarrow> nat" where
  "chain_len P qs = sum_list (map (\<lambda>q. pbuf_len (P q)) qs)"

lemma chain_len_simps [simp]:
  "chain_len P [] = 0" "chain_len P (q # qs) = pbuf_len (P q) + chain_len P qs" "chain_len P (qs @ rs) = chain_len P qs + chain_len P rs"
  by (simp_all add: chain_len_def)

lemma length_chain [simp]: "length (chain_bytes P m qs) = chain_len P qs"
  by (simp add: length_chain_bytes chain_len_def)

text \<open>A packet: the total length of each buffer is the length of the rest of the chain, in 16 bits.\<close>

fun tots_ok :: "(nat \<Rightarrow> pbuf) \<Rightarrow> nat list \<Rightarrow> bool" where
  "tots_ok P [] \<longleftrightarrow> True"
| "tots_ok P (q # qs) \<longleftrightarrow> tot_len (P q) = chain_len P (q # qs) \<and> tots_ok P qs"

definition packet :: "(nat \<Rightarrow> pbuf) \<Rightarrow> nat \<Rightarrow> nat list \<Rightarrow> bool" where
  "packet P p qs \<longleftrightarrow> pchain P p qs \<and> tots_ok P qs \<and> chain_len P qs < 2 ^ 16"

lemma packet_tot: "packet P p qs \<Longrightarrow> p \<noteq> 0 \<Longrightarrow> tot_len (P p) = chain_len P qs"
  by (cases qs) (auto simp: packet_def)

lemma clen_spec: "pchain P p qs \<Longrightarrow> n + length qs < 2 ^ 16 \<Longrightarrow> pbuf_clen_loop P p n = Some (n + length qs)"
proof (induction qs arbitrary: p n)
  case (Cons q qs)
  then show ?case by (subst pbuf_clen_loop.simps) (simp add: u16_t_def)
qed (simp add: pbuf_clen_loop.simps)

text \<open>Skipping finds the buffer that holds the byte at the offset, or the end of the chain.\<close>

lemma skip_spec:
  assumes "pchain P p qs"
  shows "if k < chain_len P qs
    then \<exists>us q vs. qs = us @ q # vs \<and> chain_len P us \<le> k \<and> k - chain_len P us < pbuf_len (P q) \<and> q \<noteq> 0 \<and> pchain P q (q # vs) \<and>
      pbuf_skip_const P p k = Some (q, k - chain_len P us)
    else pbuf_skip_const P p k = Some (0, k - chain_len P qs)"
  using assms
proof (induction qs arbitrary: p k)
  case Nil
  then show ?case by (simp add: pbuf_skip_const.simps)
next
  case (Cons q qs)
  have q: "p = q" "q \<noteq> 0" "pchain P (pbuf_next (P q)) qs" using Cons.prems by auto
  show ?case
  proof (cases "pbuf_len (P q) \<le> k")
    case True
    then have e: "pbuf_skip_const P p k = pbuf_skip_const P (pbuf_next (P q)) (k - pbuf_len (P q))"
      using q by (subst pbuf_skip_const.simps) simp
    show ?thesis
    proof (cases "k - pbuf_len (P q) < chain_len P qs")
      case lt: True
      then obtain us r vs where "qs = us @ r # vs" "chain_len P us \<le> k - pbuf_len (P q)" "k - pbuf_len (P q) - chain_len P us < pbuf_len (P r)"
        "r \<noteq> 0" "pchain P r (r # vs)" "pbuf_skip_const P (pbuf_next (P q)) (k - pbuf_len (P q)) = Some (r, k - pbuf_len (P q) - chain_len P us)"
        using Cons.IH [OF q(3), of "k - pbuf_len (P q)"] by auto
      moreover have K: "k < chain_len P (q # qs)" using lt True by simp
      ultimately show ?thesis unfolding if_P [OF K] using e True
        by - (rule exI [of _ "q # us"], rule exI [of _ r], rule exI [of _ vs], auto)
    next
      case False
      then show ?thesis using Cons.IH [OF q(3), of "k - pbuf_len (P q)"] e True by auto
    qed
  next
    case False
    then have "pbuf_skip_const P p k = Some (q, k)" using q by (subst pbuf_skip_const.simps) simp
    moreover have K: "k < chain_len P (q # qs)" using False by simp
    ultimately show ?thesis unfolding if_P [OF K] using False q Cons.prems
      by - (rule exI [of _ "[]"], rule exI [of _ q], rule exI [of _ qs], auto)
  qed
qed

lemma chain_nth:
  assumes "k < pbuf_len (P q)"
  shows "chain_bytes P m (us @ q # vs) ! (chain_len P us + k) = m (payload (P q) + k)"
  using assms by (simp add: nth_append pbuf_bytes_def)

lemma try_get_at_spec:
  assumes "pchain P p qs"
  shows "pbuf_try_get_at P m p k = Some (if k < chain_len P qs then Some (chain_bytes P m qs ! k) else None)"
proof (cases "k < chain_len P qs")
  case True
  then obtain us q vs where s: "qs = us @ q # vs" "chain_len P us \<le> k" "k - chain_len P us < pbuf_len (P q)" "q \<noteq> 0"
    "pbuf_skip_const P p k = Some (q, k - chain_len P us)" using skip_spec [OF assms, of k] by auto
  then show ?thesis using True chain_nth [of "k - chain_len P us" P q m us vs] by (simp add: pbuf_try_get_at_def)
next
  case False
  then show ?thesis using skip_spec [OF assms, of k] by (simp add: pbuf_try_get_at_def)
qed

text \<open>The comparison: zero when the bytes agree, else one more than the position of the first difference.\<close>

fun diff_pos :: "u8 list \<Rightarrow> u8 list \<Rightarrow> nat \<Rightarrow> nat" where
  "diff_pos (a # as) (b # bs) i = (if a \<noteq> b then min (i + 1) 0xFFFF else diff_pos as bs (i + 1))"
| "diff_pos _ _ i = 0"

lemma diff_pos_0: "length as = length bs \<Longrightarrow> diff_pos as bs i = 0 \<longleftrightarrow> as = bs"
  by (induction as bs i rule: diff_pos.induct) auto

lemma memcmp_loop_spec:
  assumes "pchain P q vs" "start + (i + k) \<le> chain_len P vs" "chain_len P vs < 2 ^ 16" "i + k \<le> length s2"
  shows "memcmp_loop P m q start s2 i k = Some (diff_pos (take k (drop (start + i) (chain_bytes P m vs))) (take k (drop i s2)) i)"
  using assms(2-)
proof (induction k arbitrary: i)
  case (Suc k)
  have g: "pbuf_get_at P m q (u16_t (start + i)) = Some (chain_bytes P m vs ! (start + i))"
    using Suc.prems(1,2) by (simp add: pbuf_get_at_def try_get_at_spec [OF assms(1)] u16_t_def)
  have "drop (start + i) (chain_bytes P m vs) = chain_bytes P m vs ! (start + i) # drop (start + Suc i) (chain_bytes P m vs)"
    using Suc.prems(1) by (simp add: Cons_nth_drop_Suc)
  moreover have "drop i s2 = s2 ! i # drop (Suc i) s2" using Suc.prems(3) by (simp add: Cons_nth_drop_Suc)
  ultimately show ?case using Suc.IH [of "Suc i"] Suc.prems by (simp add: g)
qed simp

lemma memcmp_spec:
  assumes p: "packet P p qs" "p \<noteq> 0" and n: "n \<le> length s2"
  shows "pbuf_memcmp P m p k s2 n =
    Some (if k + n \<le> chain_len P qs then diff_pos (take n (drop k (chain_bytes P m qs))) (take n s2) 0 else 0xffff)"
proof (cases "k + n \<le> chain_len P qs")
  case True
  have c: "pchain P p qs" "chain_len P qs < 2 ^ 16" using p(1) by (auto simp: packet_def)
  show ?thesis
  proof (cases "k < chain_len P qs")
    case lt: True
    then obtain us q vs where s: "qs = us @ q # vs" "chain_len P us \<le> k" "q \<noteq> 0" "pchain P q (q # vs)"
      "pbuf_skip_const P p k = Some (q, k - chain_len P us)" using skip_spec [OF c(1), of k] by auto
    have d: "drop k (chain_bytes P m qs) = drop (k - chain_len P us) (chain_bytes P m (q # vs))" using s(1,2) by simp
    have "memcmp_loop P m q (k - chain_len P us) s2 0 n = Some (diff_pos (take n (drop (k - chain_len P us) (chain_bytes P m (q # vs)))) (take n s2) 0)"
      using memcmp_loop_spec [OF s(4), of "k - chain_len P us" 0 n s2 m] True s(1,2) c(2) n by simp
    then show ?thesis using s(5) True by (simp add: pbuf_memcmp_def packet_tot [OF p] d del: chain_bytes_simps)
  next
    case False
    then have "n = 0" "pbuf_skip_const P p k = Some (0, k - chain_len P qs)" using True skip_spec [OF c(1), of k] by auto
    then show ?thesis using True by (simp add: pbuf_memcmp_def packet_tot [OF p])
  qed
qed (simp add: pbuf_memcmp_def packet_tot [OF p])

text \<open>The search: the first position at which the pattern occurs.\<close>

definition occurs_at :: "u8 list \<Rightarrow> u8 list \<Rightarrow> nat \<Rightarrow> bool" where
  "occurs_at pat bs i \<longleftrightarrow> i + length pat \<le> length bs \<and> take (length pat) (drop i bs) = pat"

definition first_occurrence :: "u8 list \<Rightarrow> u8 list \<Rightarrow> nat \<Rightarrow> nat" where
  "first_occurrence pat bs i = (case List.find (occurs_at pat bs) [i..<length bs + 1] of Some j \<Rightarrow> j | None \<Rightarrow> 0xFFFF)"

lemma find_skip: "List.find Q xs = None \<Longrightarrow> List.find Q (xs @ ys) = List.find Q ys"
  by (induction xs) (auto split: if_splits)

lemma memfind_spec:
  assumes p: "packet P p qs" "p \<noteq> 0"
  shows "pbuf_memfind P m p pat (length pat) k = Some (first_occurrence pat (chain_bytes P m qs) k)"
proof -
  let ?b = "chain_bytes P m qs" and ?N = "chain_len P qs"
  have none: "List.find (occurs_at pat ?b) [j..<?N + 1] = None" if "?N < j + length pat" for j
    using that by (auto simp: find_None_iff occurs_at_def)
  have L: "memfind_loop P m p pat (length pat) i n = Some (case List.find (occurs_at pat ?b) [i..<?N + 1] of Some j \<Rightarrow> j | None \<Rightarrow> 0xFFFF)"
    if "i + n + length pat = ?N + 1" for i n
    using that
  proof (induction n arbitrary: i)
    case 0
    then show ?case using none [of i] by simp
  next
    case (Suc n)
    then have le: "i + length pat \<le> ?N" by simp
    then have u: "[i..<Suc ?N] = i # [Suc i..<Suc ?N]" by (simp add: upt_conv_Cons del: upt_Suc)
    have c: "pbuf_memcmp P m p i pat (length pat) = Some (diff_pos (take (length pat) (drop i ?b)) pat 0)"
      using memcmp_spec [OF p, of "length pat" pat m i] le by simp
    have o: "diff_pos (take (length pat) (drop i ?b)) pat 0 = 0 \<longleftrightarrow> occurs_at pat ?b i"
      using le by (subst diff_pos_0) (auto simp: occurs_at_def)
    show ?case using Suc.IH [of "Suc i"] Suc.prems by (simp add: c u o del: upt_Suc)
  qed
  show ?thesis
  proof (cases "length pat + k \<le> ?N")
    case True
    then show ?thesis using L [of k "?N - length pat + 1 - k"] by (simp add: pbuf_memfind_def packet_tot [OF p] first_occurrence_def)
  next
    case False
    then show ?thesis using none [of k] by (simp add: pbuf_memfind_def packet_tot [OF p] first_occurrence_def)
  qed
qed

text \<open>The copy out of a chain is the slice of its bytes.\<close>

definition clear_of :: "(nat \<Rightarrow> pbuf) \<Rightarrow> nat list \<Rightarrow> nat \<Rightarrow> nat \<Rightarrow> bool" where
  "clear_of P qs a n \<longleftrightarrow> (\<forall>q \<in> set qs. payload (P q) + pbuf_len (P q) \<le> a \<or> a + n \<le> payload (P q))"

lemma write_bytes_append: "write_bytes (a + length xs) ys (write_bytes a xs m) = write_bytes a (xs @ ys) m"
  by (rule ext) (auto simp: write_bytes_def nth_append)

lemma write_bytes_nil [simp]: "write_bytes a [] m = m"
  by (rule ext) (auto simp: write_bytes_def)

lemma read_part:
  assumes "k + n \<le> len" shows "read_bytes (a + k) n m = take n (drop k (read_bytes a len m))"
  using assms by (intro nth_equalityI) (auto simp: add.assoc)

lemma chain_bytes_clear:
  assumes "clear_of P qs a n" "length xs \<le> n"
  shows "chain_bytes P (write_bytes a xs m) qs = chain_bytes P m qs"
  using assms by (induction qs) (auto simp: clear_of_def pbuf_bytes_def intro!: read_write_other)

lemma copy_partial_loop_spec:
  assumes "pchain P p qs" "clear_of P qs a (left + len)" "left + len < 2 ^ 16" "length xs = left"
  shows "copy_partial_loop P p a len k left left (write_bytes a xs m) =
    (let ys = take len (drop k (chain_bytes P m qs)) in Some (left + length ys, write_bytes a (xs @ ys) m))"
  using assms
proof (induction qs arbitrary: p len k left xs)
  case Nil
  then show ?case by (subst copy_partial_loop.simps) simp
next
  case (Cons q qs)
  have q: "p = q" "q \<noteq> 0" "pchain P (pbuf_next (P q)) qs" using Cons.prems(1) by auto
  have cl: "clear_of P qs a (left + len)" using Cons.prems(2) by (simp add: clear_of_def)
  show ?case
  proof (cases "len = 0")
    case True
    then show ?thesis using Cons.prems by (subst copy_partial_loop.simps) simp
  next
    case False
    show ?thesis
    proof (cases "k \<noteq> 0 \<and> pbuf_len (P q) \<le> k")
      case True
      then have "copy_partial_loop P p a len k left left (write_bytes a xs m) =
          copy_partial_loop P (pbuf_next (P q)) a len (k - pbuf_len (P q)) left left (write_bytes a xs m)"
        using False q by (subst copy_partial_loop.simps) simp
      then show ?thesis using Cons.IH [OF q(3) cl Cons.prems(3,4), of "k - pbuf_len (P q)"] True by simp
    next
      case c: False
      define n where "n = (if pbuf_len (P q) - k > len then len else pbuf_len (P q) - k)"
      let ?z = "take len (drop k (pbuf_bytes P m q))"
      have z: "?z = read_bytes (payload (P q) + k) n (write_bytes a xs m)" "length ?z = n"
      proof -
        have kl: "k + n \<le> pbuf_len (P q)" using c by (auto simp: n_def)
        have "read_bytes (payload (P q) + k) n (write_bytes a xs m) = read_bytes (payload (P q) + k) n m"
          using Cons.prems(2,4) kl by (intro read_write_other) (auto simp: clear_of_def)
        also have "\<dots> = take n (drop k (pbuf_bytes P m q))" unfolding pbuf_bytes_def by (rule read_part [OF kl])
        also have "\<dots> = ?z" by (simp add: n_def)
        finally show "?z = read_bytes (payload (P q) + k) n (write_bytes a xs m)" by simp
        show "length ?z = n" by (auto simp: n_def)
      qed
      have "copy_partial_loop P p a len k left left (write_bytes a xs m) =
          copy_partial_loop P (pbuf_next (P q)) a (len - n) 0 (left + n) (left + n) (write_bytes a (xs @ ?z) m)"
      proof -
        have "copy_partial_loop P p a len k left left M = copy_partial_loop P (pbuf_next (P q)) a (len - n) 0 (u16_t (left + n)) (u16_t (left + n))
            (write_bytes (a + left) (read_bytes (payload (P q) + k) n M) M)" for M
          by (subst copy_partial_loop.simps) (use False q c in \<open>auto simp: Let_def n_def\<close>)
        moreover have "u16_t (left + n) = left + n" using Cons.prems(3) by (simp add: u16_t_def n_def)
        moreover have "write_bytes (a + left) ?z (write_bytes a xs m) = write_bytes a (xs @ ?z) m"
          using write_bytes_append [of a xs ?z m] Cons.prems(4) by simp
        ultimately show ?thesis by (simp only: z(1) [symmetric])
      qed
      also have "\<dots> = (let ys = take (len - n) (drop 0 (chain_bytes P m qs)) in Some (left + n + length ys, write_bytes a ((xs @ ?z) @ ys) m))"
        using cl Cons.prems(3,4) z(2) by (intro Cons.IH [OF q(3)]) (auto simp: n_def)
      also have "take len (drop k (chain_bytes P m (q # qs))) = ?z @ take (len - n) (chain_bytes P m qs)"
        using c by (auto simp: n_def)
      ultimately show ?thesis using z(2) by (simp add: Let_def)
    qed
  qed
qed

lemma copy_partial_spec:
  assumes "pchain P p qs" "p \<noteq> 0" "a \<noteq> 0" "clear_of P qs a len" "len < 2 ^ 16"
  shows "pbuf_copy_partial P p a len k m =
    (let ys = take len (drop k (chain_bytes P m qs)) in Some (length ys, write_bytes a ys m))"
  using copy_partial_loop_spec [of P p qs a 0 len "[]" k m] assms by (simp add: pbuf_copy_partial_def Let_def)

subsection \<open>Properties\<close>

text \<open>C20: Reading a packet does not depend on how it is cut into buffers. \<open>pbuf_copy_partial\<close> copies exactly the bytes
  from the offset on, as many as are there and asked for, and changes nothing else; \<open>pbuf_try_get_at\<close> returns
  the byte at the offset and the error value past the end; and all of them return.\<close>

theorem pbuf_read_flat:
  assumes "packet P p qs" "p \<noteq> 0" "a \<noteq> 0" "clear_of P qs a len" "len < 2 ^ 16"
  shows "(let ys = take len (drop k (chain_bytes P m qs)) in pbuf_copy_partial P p a len k m = Some (length ys, write_bytes a ys m)) \<and>
    pbuf_try_get_at P m p k = Some (if k < tot_len (P p) then Some (chain_bytes P m qs ! k) else None)"
proof -
  have c: "pchain P p qs" using assms(1) by (simp add: packet_def)
  show ?thesis using copy_partial_spec [OF c assms(2-5)] try_get_at_spec [OF c] packet_tot [OF assms(1,2)] by (simp add: Let_def)
qed

text \<open>\<open>pbuf_strstr\<close> finds text across the boundaries of buffers: for a packet of less than 65535 bytes and a text that
  is not empty and shorter than that, it returns the first position at which the text occurs, and \<open>0xFFFF\<close> when it does not occur.\<close>

theorem pbuf_strstr_first:
  assumes "packet P p qs" "p \<noteq> 0" "tot_len (P p) \<noteq> 0xFFFF" "str \<noteq> []" "length str < 0xFFFF"
  shows "\<exists>r. pbuf_strstr P m p (Some str) = Some r \<and>
    (if \<exists>i. occurs_at str (chain_bytes P m qs) i
     then r = (LEAST i. occurs_at str (chain_bytes P m qs) i) \<and> r < tot_len (P p) else r = 0xFFFF)"
proof -
  let ?o = "occurs_at str (chain_bytes P m qs)" and ?N = "chain_len P qs"
  have f: "pbuf_strstr P m p (Some str) = Some (first_occurrence str (chain_bytes P m qs) 0)"
    using memfind_spec [OF assms(1,2)] assms(3-5) by (simp add: pbuf_strstr_def)
  have le: "?o i \<Longrightarrow> i < ?N" for i using assms(4) by (cases str) (auto simp: occurs_at_def)
  show ?thesis
  proof (cases "\<exists>i. ?o i")
    case True
    then have o: "?o (LEAST i. ?o i)" by (metis LeastI)
    obtain d where d: "?N + 1 = (LEAST i. ?o i) + Suc d" using le [OF o] less_iff_Suc_add by auto
    have u: "[0..<?N + 1] = [0..<LEAST i. ?o i] @ (LEAST i. ?o i) # [Suc (LEAST i. ?o i)..<?N + 1]"
      unfolding d by (subst upt_add_eq_append) (simp_all add: upt_conv_Cons del: upt_Suc)
    have "List.find ?o [0..<LEAST i. ?o i] = None" by (auto simp: find_None_iff dest: not_less_Least)
    then have "List.find ?o [0..<?N + 1] = Some (LEAST i. ?o i)" unfolding u using o by (simp add: find_skip)
    then show ?thesis using f True le [OF o] packet_tot [OF assms(1,2)] by (simp add: first_occurrence_def del: upt_Suc)
  next
    case False
    then have "List.find ?o [0..<?N + 1] = None" by (simp add: find_None_iff)
    then show ?thesis using f False by (simp add: first_occurrence_def)
  qed
qed

lemma demo_packet: "packet demo_pbufs 100 [100, 200]" "clear_of demo_pbufs [100, 200] 3000 10" "chain_bytes demo_pbufs demo_bytes [100, 200] = [1, 2, 3, 4, 5]"
  "tot_len (demo_pbufs 100) = 5"
  using demo_chain by (simp_all add: packet_def clear_of_def) (simp_all add: demo_pbufs_def)

theorem pbuf_read_flat_witness:
  "pbuf_copy_partial demo_pbufs 100 3000 3 1 demo_bytes = Some (3, write_bytes 3000 [2, 3, 4] demo_bytes) \<and>
   pbuf_try_get_at demo_pbufs demo_bytes 100 4 = Some (Some 5) \<and> pbuf_try_get_at demo_pbufs demo_bytes 100 5 = Some None"
proof -
  have c: "clear_of demo_pbufs [100, 200] 3000 3" using demo_packet(2) by (auto simp: clear_of_def)
  show ?thesis
    using pbuf_read_flat [OF demo_packet(1) _ _ c, of 1 demo_bytes] pbuf_read_flat [OF demo_packet(1) _ _ c, of 4 demo_bytes]
      pbuf_read_flat [OF demo_packet(1) _ _ c, of 5 demo_bytes]
    by (simp add: demo_packet Let_def del: chain_bytes_simps)
qed

theorem pbuf_strstr_first_witness: "pbuf_strstr demo_pbufs demo_bytes 100 (Some [3, 4]) = Some 2"
proof -
  have o: "occurs_at [3, 4] [1, 2, 3, 4, 5] 2" by (simp add: occurs_at_def)
  have n: "\<not> occurs_at [3, 4] [1, 2, 3, 4, 5] i" if "i < 2" for i using that by (cases i) (auto simp: occurs_at_def less_Suc_eq)
  have "(LEAST i. occurs_at [3, 4] [1, 2, 3, 4, 5] i) = 2" using o n by (metis (full_types) LeastI Least_le le_eq_less_or_eq)
  then show ?thesis
    using pbuf_strstr_first [OF demo_packet(1), of "[3, 4]" demo_bytes, unfolded demo_packet(3,4)] o by (auto split: if_splits)
qed

end
