(* ===== verification/Memp.thy ===== *)
theory Memp
  imports LwipMem
begin

text \<open>
  The pools of fixed-size elements, \<open>memp.c\<close>: each pool keeps its free elements in a linked list, the link in
  the first word of a free element. The list is changed inside a critical section, so each call is one step.
\<close>

subsection \<open>The code\<close>

text \<open>The pools the configuration makes, in the order of \<open>memp_std.h\<close>.\<close>

datatype memp_t = MEMP_RAW_PCB | MEMP_UDP_PCB | MEMP_TCP_PCB | MEMP_TCP_PCB_LISTEN | MEMP_TCP_SEG | MEMP_REASSDATA | MEMP_FRAG_PBUF
  | MEMP_NETBUF | MEMP_NETCONN | MEMP_TCPIP_MSG_API | MEMP_TCPIP_MSG_INPKT | MEMP_SYS_TIMEOUT | MEMP_PBUF | MEMP_PBUF_POOL

text \<open>The address of the storage, the number of elements and their aligned size.\<close>

record memp_desc =
  desc_base :: nat
  desc_num :: nat
  desc_size :: nat

text \<open>\<open>memp_tab\<close> is \<open>*desc->tab\<close> of each pool, \<open>memp_next\<close> the link in a free element.\<close>

record memp_pools =
  memp_tab :: "memp_t \<Rightarrow> nat"
  memp_next :: "nat \<Rightarrow> nat"

definition LWIP_MEM_ALIGN :: "nat \<Rightarrow> nat" where
  "LWIP_MEM_ALIGN a = (a + MEM_ALIGNMENT - 1) div MEM_ALIGNMENT * MEM_ALIGNMENT"

fun init_elements :: "memp_t \<Rightarrow> nat \<Rightarrow> nat \<Rightarrow> nat \<Rightarrow> memp_pools \<Rightarrow> memp_pools" where
  "init_elements t sz 0 memp M = M"
| "init_elements t sz (Suc n) memp M =
     init_elements t sz n (memp + sz) (M\<lparr>memp_next := (memp_next M)(memp := memp_tab M t), memp_tab := (memp_tab M)(t := memp)\<rparr>)"

definition memp_init_pool :: "memp_t \<Rightarrow> memp_desc \<Rightarrow> memp_pools \<Rightarrow> memp_pools" where
  "memp_init_pool t desc M =
     init_elements t (desc_size desc) (desc_num desc) (LWIP_MEM_ALIGN (desc_base desc)) (M\<lparr>memp_tab := (memp_tab M)(t := 0)\<rparr>)"

definition all_pools :: "memp_t list" where
  "all_pools = [MEMP_RAW_PCB, MEMP_UDP_PCB, MEMP_TCP_PCB, MEMP_TCP_PCB_LISTEN, MEMP_TCP_SEG, MEMP_REASSDATA, MEMP_FRAG_PBUF,
     MEMP_NETBUF, MEMP_NETCONN, MEMP_TCPIP_MSG_API, MEMP_TCPIP_MSG_INPKT, MEMP_SYS_TIMEOUT, MEMP_PBUF, MEMP_PBUF_POOL]"

definition memp_init :: "(memp_t \<Rightarrow> memp_desc) \<Rightarrow> memp_pools \<Rightarrow> memp_pools" where
  "memp_init descs M = fold (\<lambda>t. memp_init_pool t (descs t)) all_pools M"

definition do_memp_malloc_pool :: "memp_t \<Rightarrow> memp_pools \<Rightarrow> nat \<times> memp_pools" where
  "do_memp_malloc_pool t M =
     (let memp = memp_tab M t
      in if memp \<noteq> 0 then (memp, M\<lparr>memp_tab := (memp_tab M)(t := memp_next M memp)\<rparr>) else (0, M))"

definition memp_malloc :: "memp_t \<Rightarrow> memp_pools \<Rightarrow> nat \<times> memp_pools" where
  "memp_malloc t M = do_memp_malloc_pool t M"

definition do_memp_free_pool :: "memp_t \<Rightarrow> nat \<Rightarrow> memp_pools \<Rightarrow> memp_pools" where
  "do_memp_free_pool t mem M = M\<lparr>memp_next := (memp_next M)(mem := memp_tab M t), memp_tab := (memp_tab M)(t := mem)\<rparr>"

definition memp_free :: "memp_t \<Rightarrow> nat \<Rightarrow> memp_pools \<Rightarrow> memp_pools" where
  "memp_free t mem M = (if mem = 0 then M else do_memp_free_pool t mem M)"

subsection \<open>The contract of a pool\<close>

text \<open>A pool hands out objects and takes them back. \<open>held\<close> are the objects the clients have.\<close>

datatype pool_op = Take | GiveNth nat

fun pool_run :: "('s \<Rightarrow> nat \<times> 's) \<Rightarrow> (nat \<Rightarrow> 's \<Rightarrow> 's) \<Rightarrow> pool_op list \<Rightarrow> 's \<Rightarrow> nat list \<Rightarrow> 's \<times> nat list" where
  "pool_run tk gv [] s held = (s, held)"
| "pool_run tk gv (Take # os) s held = (let (x, s) = tk s in pool_run tk gv os s (if x = 0 then held else x # held))"
| "pool_run tk gv (GiveNth i # os) s held =
     (if i < length held then pool_run tk gv os (gv (held ! i) s) (remove1 (held ! i) held) else pool_run tk gv os s held)"

locale object_pool =
  fixes ok :: "'s \<Rightarrow> nat list \<Rightarrow> bool" and tk :: "'s \<Rightarrow> nat \<times> 's" and gv :: "nat \<Rightarrow> 's \<Rightarrow> 's"
  assumes sound: "ok s xs \<Longrightarrow> distinct xs \<and> 0 \<notin> set xs"
    and take_some: "ok s (x # xs) \<Longrightarrow> \<exists>s'. tk s = (x, s') \<and> ok s' xs"
    and take_none: "ok s [] \<Longrightarrow> tk s = (0, s)"
    and give: "ok s xs \<Longrightarrow> x \<noteq> 0 \<Longrightarrow> x \<notin> set xs \<Longrightarrow> ok (gv x s) (x # xs)"
begin

text \<open>No object is handed out twice or lost: at every moment the free ones and those held are the objects
  there were, each once, and a take fails only when all are held.\<close>

lemma run_conserves:
  assumes "ok s xs" "distinct held" "0 \<notin> set held" "set held \<inter> set xs = {}" "set held \<union> set xs = U" "pool_run tk gv os s held = (s', held')"
  shows "\<exists>xs'. ok s' xs' \<and> distinct held' \<and> set held' \<inter> set xs' = {} \<and> set held' \<union> set xs' = U \<and>
    (fst (tk s') = 0 \<longleftrightarrow> set held' = U)"
  using assms
proof (induction os arbitrary: s xs held)
  case Nil
  have "fst (tk s) = 0 \<longleftrightarrow> set held = U"
  proof (cases xs)
    case (Cons x ys)
    then show ?thesis using take_some [of s x ys] sound [OF Nil.prems(1)] Nil.prems by auto
  qed (use take_none [of s] Nil.prems in auto)
  then show ?case using Nil.prems by (intro exI [of _ xs]) auto
next
  case (Cons x os)
  show ?case
  proof (cases x)
    case Take
    show ?thesis
    proof (cases xs)
      case Nil
      then show ?thesis using Cons.IH [OF Cons.prems(1-5)] Cons.prems(6) take_none [of s] Cons.prems(1) Take by simp
    next
      case (Cons y ys)
      then obtain s1 where s1: "tk s = (y, s1)" "ok s1 ys" using take_some [of s y ys] Cons.prems(1) by auto
      have y: "y \<noteq> 0" "y \<notin> set ys" using sound [OF Cons.prems(1)] Cons by auto
      show ?thesis
        by (rule Cons.IH [OF s1(2), of "y # held"]) (use Cons.prems Cons Take s1 y in auto)
    qed
  next
    case (GiveNth i)
    show ?thesis
    proof (cases "i < length held")
      case True
      then have h: "held ! i \<in> set held" by simp
      have "ok (gv (held ! i) s) (held ! i # xs)" using h Cons.prems by (intro give) auto
      then show ?thesis
        by (rule Cons.IH [of _ _ "remove1 (held ! i) held"]) (use Cons.prems GiveNth True h in auto)
    next
      case False
      then show ?thesis using Cons.IH [OF Cons.prems(1-5)] Cons.prems(6) GiveNth by simp
    qed
  qed
qed

end

subsection \<open>The pools implement it\<close>

text \<open>The free list of a pool.\<close>

fun linked :: "(nat \<Rightarrow> nat) \<Rightarrow> nat \<Rightarrow> nat list \<Rightarrow> bool" where
  "linked nx p [] \<longleftrightarrow> p = 0"
| "linked nx p (x # xs) \<longleftrightarrow> p = x \<and> x \<noteq> 0 \<and> linked nx (nx x) xs"

definition pool_free :: "memp_t \<Rightarrow> memp_pools \<Rightarrow> nat list \<Rightarrow> bool" where
  "pool_free t M xs \<longleftrightarrow> distinct xs \<and> linked (memp_next M) (memp_tab M t) xs"

lemma linked_frame: "linked nx p xs \<Longrightarrow> y \<notin> set xs \<Longrightarrow> linked (nx(y := v)) p xs"
  by (induction xs arbitrary: p) auto

lemma linked_0: "linked nx p xs \<Longrightarrow> 0 \<notin> set xs"
  by (induction xs arbitrary: p) auto

interpretation memp: object_pool "pool_free t" "memp_malloc t" "memp_free t" for t
proof
  fix M x xs
  show "distinct xs \<and> 0 \<notin> set xs" if "pool_free t M xs" using that linked_0 by (auto simp: pool_free_def)
  show "\<exists>M'. memp_malloc t M = (x, M') \<and> pool_free t M' xs" if "pool_free t M (x # xs)"
    using that by (auto simp: pool_free_def memp_malloc_def do_memp_malloc_pool_def Let_def)
  show "memp_malloc t M = (0, M)" if "pool_free t M []"
    using that by (simp add: pool_free_def memp_malloc_def do_memp_malloc_pool_def)
  show "pool_free t (memp_free t x M) (x # xs)" if "pool_free t M xs" "x \<noteq> 0" "x \<notin> set xs"
    using that by (simp add: pool_free_def memp_free_def do_memp_free_pool_def linked_frame)
qed

lemma memp_other_pool:
  assumes "pool_free t M xs" "u \<noteq> t"
  shows "pool_free t (snd (memp_malloc u M)) xs" "y \<notin> set xs \<Longrightarrow> pool_free t (memp_free u y M) xs"
  using assms by (auto simp: pool_free_def memp_malloc_def do_memp_malloc_pool_def memp_free_def do_memp_free_pool_def Let_def linked_frame)

text \<open>The elements of a pool after initialisation.\<close>

lemma init_elements_spec:
  assumes "pool_free t M xs" "0 < memp" "0 < sz" "\<forall>x \<in> set xs. x < memp"
  shows "pool_free t (init_elements t sz n memp M) (rev (map (\<lambda>i. memp + i * sz) [0..<n]) @ xs)"
  using assms
proof (induction n arbitrary: memp M xs)
  case (Suc n)
  let ?M = "M\<lparr>memp_next := (memp_next M)(memp := memp_tab M t), memp_tab := (memp_tab M)(t := memp)\<rparr>"
  have "memp \<notin> set xs" using Suc.prems(4) by auto
  then have "pool_free t ?M (memp # xs)" using Suc.prems(1,2) by (simp add: pool_free_def linked_frame)
  then have "pool_free t (init_elements t sz n (memp + sz) ?M) (rev (map (\<lambda>i. memp + sz + i * sz) [0..<n]) @ memp # xs)"
    using Suc.prems by (intro Suc.IH) auto
  moreover have "map (\<lambda>i. memp + i * sz) [0..<Suc n] = memp # map (\<lambda>i. memp + sz + i * sz) [0..<n]"
    by (simp add: upt_conv_Cons map_Suc_upt [symmetric] add.assoc del: upt_Suc)
  ultimately show ?case by simp
qed simp

lemma memp_init_pool_spec:
  assumes "0 < desc_base d" "0 < desc_size d"
  shows "pool_free t (memp_init_pool t d M) (rev (map (\<lambda>i. LWIP_MEM_ALIGN (desc_base d) + i * desc_size d) [0..<desc_num d]))"
proof -
  have "0 < LWIP_MEM_ALIGN (desc_base d)" using assms(1) by (simp add: LWIP_MEM_ALIGN_def MEM_ALIGNMENT_def div_greater_zero_iff)
  then show ?thesis
    using init_elements_spec [of t "M\<lparr>memp_tab := (memp_tab M)(t := 0)\<rparr>" "[]" _ "desc_size d" "desc_num d"] assms(2)
    by (simp add: memp_init_pool_def pool_free_def)
qed

text \<open>A pool never hands out an element twice and never loses one. From its initialisation on, whatever
  sequence of \<open>memp_malloc\<close> and \<open>memp_free\<close> of elements obtained follows, the elements handed out and the free
  ones are together the elements of the pool, each exactly once, and \<open>memp_malloc\<close> returns \<open>NULL\<close> exactly when all of
  them are handed out.\<close>

theorem memp_pool_conserves:
  assumes "0 < desc_base d" "0 < desc_size d" "pool_run (memp_malloc t) (memp_free t) os (memp_init_pool t d M) [] = (M', held)"
  shows "\<exists>xs. pool_free t M' xs \<and> distinct held \<and> set held \<inter> set xs = {} \<and>
    set held \<union> set xs = (\<lambda>i. LWIP_MEM_ALIGN (desc_base d) + i * desc_size d) ` {..<desc_num d} \<and>
    (fst (memp_malloc t M') = 0 \<longleftrightarrow> length held = desc_num d)"
proof -
  let ?f = "\<lambda>i. LWIP_MEM_ALIGN (desc_base d) + i * desc_size d"
  define U where "U = ?f ` {..<desc_num d}"
  have e: "set (rev (map ?f [0..<desc_num d])) = U" by (auto simp: U_def lessThan_atLeast0)
  have "\<exists>xs. pool_free t M' xs \<and> distinct held \<and> set held \<inter> set xs = {} \<and> set held \<union> set xs = U \<and>
      (fst (memp_malloc t M') = 0 \<longleftrightarrow> set held = U)"
    by (rule memp.run_conserves [OF memp_init_pool_spec [OF assms(1,2)] _ _ _ _ assms(3)]) (use e in auto)
  then obtain xs where r: "pool_free t M' xs" "distinct held" "set held \<inter> set xs = {}" "set held \<union> set xs = U"
    "fst (memp_malloc t M') = 0 \<longleftrightarrow> set held = U"
    by (elim exE conjE) (rule that)
  have "inj_on ?f {..<desc_num d}" using assms(2) by (auto simp: inj_on_def)
  then have c: "card U = desc_num d" "finite U" by (simp_all add: card_image U_def)
  have "set held = U \<longleftrightarrow> length held = desc_num d"
  proof
    assume "set held = U"
    then show "length held = desc_num d" using c(1) distinct_card [OF r(2)] by simp
  next
    assume "length held = desc_num d"
    then show "set held = U" using c distinct_card [OF r(2)] r(4) by (intro card_subset_eq) auto
  qed
  with r show ?thesis unfolding U_def by (intro exI [of _ xs]) simp
qed

theorem memp_pool_conserves_witness:
  "case pool_run (memp_malloc MEMP_PBUF) (memp_free MEMP_PBUF) [Take, Take, GiveNth 1, Take]
      (memp_init_pool MEMP_PBUF \<lparr>desc_base = 5001, desc_num = 2, desc_size = 16\<rparr> \<lparr>memp_tab = \<lambda>_. 0, memp_next = \<lambda>_. 0\<rparr>) [] of
     (M', held) \<Rightarrow> distinct held \<and> (fst (memp_malloc MEMP_PBUF M') = 0 \<longleftrightarrow> length held = 2)"
proof -
  obtain M' held where "pool_run (memp_malloc MEMP_PBUF) (memp_free MEMP_PBUF) [Take, Take, GiveNth 1, Take]
      (memp_init_pool MEMP_PBUF \<lparr>desc_base = 5001, desc_num = 2, desc_size = 16\<rparr> \<lparr>memp_tab = \<lambda>_. 0, memp_next = \<lambda>_. 0\<rparr>) [] = (M', held)"
    by fastforce
  with memp_pool_conserves [OF _ _ this] show ?thesis by auto
qed

end
