(* ===== verification/LwipState.thy ===== *)
theory LwipState
  imports SysArch Memp PbufRead
begin

text \<open>
  The state of the network stack and the part of \<open>tcpip.c\<close> that hands work to its thread: a message from one
  of two pools is filled in and its address posted to the mailbox of the thread.
\<close>

text \<open>The functions whose addresses the stack itself puts into messages; \<open>Fn\<close> are those of its clients.\<close>

datatype lwip_fn = PBUF_FREE_OOSEQ_CALLBACK | PBUF_FREE_INT | MEM_FREE | ETHERNET_INPUT | IP_INPUT | Fn nat

datatype tcpip_msg =
    TCPIP_MSG_INPKT nat nat lwip_fn
  | TCPIP_MSG_CALLBACK lwip_fn nat
  | TCPIP_MSG_CALLBACK_STATIC lwip_fn nat

record lwip =
  os :: qsys
  ram_heap :: lheap
  pools :: memp_pools
  lmem :: bytes
  pbufs :: "nat \<Rightarrow> pbuf"
  tcpip_mbox :: nat
  lock_tcpip_core :: nat
  tcpip_init_done :: "lwip_fn option"
  tcpip_init_done_arg :: nat
  msgs :: "nat \<Rightarrow> tcpip_msg"
  pbuf_free_ooseq_pending :: bool

definition pool_malloc :: "memp_t \<Rightarrow> lwip \<Rightarrow> nat \<times> lwip" where
  "pool_malloc t s = (let (p, M) = memp_malloc t (pools s) in (p, s\<lparr>pools := M\<rparr>))"

definition pool_release :: "memp_t \<Rightarrow> nat \<Rightarrow> lwip \<Rightarrow> lwip" where
  "pool_release t p s = s\<lparr>pools := memp_free t p (pools s)\<rparr>"

definition trypost :: "gaps \<Rightarrow> nat \<Rightarrow> lwip \<Rightarrow> err_t \<times> lwip" where
  "trypost g msg s = (let (e, q) = sys_mbox_trypost g (tcpip_mbox s) msg (os s) in (e, s\<lparr>os := q\<rparr>))"

text \<open>A message that could not be posted goes back to its pool.\<close>

definition tcpip_inpkt :: "gaps \<Rightarrow> nat \<Rightarrow> nat \<Rightarrow> lwip_fn \<Rightarrow> lwip \<Rightarrow> err_t \<times> lwip" where
  "tcpip_inpkt g p inp input_fn s =
     (let (msg, s) = pool_malloc MEMP_TCPIP_MSG_INPKT s
      in if msg = 0 then (ERR_MEM, s)
         else let s = s\<lparr>msgs := (msgs s)(msg := TCPIP_MSG_INPKT p inp input_fn)\<rparr>;
                  (e, s) = trypost g msg s
              in if e \<noteq> ERR_OK then (ERR_MEM, pool_release MEMP_TCPIP_MSG_INPKT msg s) else (ERR_OK, s))"

text \<open>\<open>eth\<close> tells whether the flags of the interface have \<open>NETIF_FLAG_ETHARP\<close> or \<open>NETIF_FLAG_ETHERNET\<close>.\<close>

definition tcpip_input :: "gaps \<Rightarrow> bool \<Rightarrow> nat \<Rightarrow> nat \<Rightarrow> lwip \<Rightarrow> err_t \<times> lwip" where
  "tcpip_input g eth p inp s = tcpip_inpkt g p inp (if eth then ETHERNET_INPUT else IP_INPUT) s"

definition tcpip_try_callback :: "gaps \<Rightarrow> lwip_fn \<Rightarrow> nat \<Rightarrow> lwip \<Rightarrow> err_t \<times> lwip" where
  "tcpip_try_callback g f ctx s =
     (let (msg, s) = pool_malloc MEMP_TCPIP_MSG_API s
      in if msg = 0 then (ERR_MEM, s)
         else let s = s\<lparr>msgs := (msgs s)(msg := TCPIP_MSG_CALLBACK f ctx)\<rparr>;
                  (e, s) = trypost g msg s
              in if e \<noteq> ERR_OK then (ERR_MEM, pool_release MEMP_TCPIP_MSG_API msg s) else (ERR_OK, s))"

text \<open>The post that waits; \<open>None\<close> while it is still waiting.\<close>

definition tcpip_callback :: "gaps list list \<Rightarrow> lwip_fn \<Rightarrow> nat \<Rightarrow> lwip \<Rightarrow> (err_t \<times> lwip) option" where
  "tcpip_callback gss f ctx s =
     (let (msg, s) = pool_malloc MEMP_TCPIP_MSG_API s
      in if msg = 0 then Some (ERR_MEM, s)
         else let s = s\<lparr>msgs := (msgs s)(msg := TCPIP_MSG_CALLBACK f ctx)\<rparr>
              in map_option (\<lambda>q. (ERR_OK, s\<lparr>os := q\<rparr>)) (sys_mbox_post gss (tcpip_mbox s) msg (os s)))"

definition tcpip_callbackmsg_new :: "lwip_fn \<Rightarrow> nat \<Rightarrow> lwip \<Rightarrow> nat \<times> lwip" where
  "tcpip_callbackmsg_new f ctx s =
     (let (msg, s) = pool_malloc MEMP_TCPIP_MSG_API s
      in if msg = 0 then (0, s) else (msg, s\<lparr>msgs := (msgs s)(msg := TCPIP_MSG_CALLBACK_STATIC f ctx)\<rparr>))"

definition tcpip_callbackmsg_delete :: "nat \<Rightarrow> lwip \<Rightarrow> lwip" where
  "tcpip_callbackmsg_delete msg s = pool_release MEMP_TCPIP_MSG_API msg s"

definition tcpip_callbackmsg_trycallback :: "gaps \<Rightarrow> nat \<Rightarrow> lwip \<Rightarrow> err_t \<times> lwip" where
  "tcpip_callbackmsg_trycallback g msg s = trypost g msg s"

definition tcpip_callbackmsg_trycallback_fromisr :: "nat \<Rightarrow> lwip \<Rightarrow> err_t \<times> lwip" where
  "tcpip_callbackmsg_trycallback_fromisr msg s =
     (let (e, q) = sys_mbox_trypost_fromisr (tcpip_mbox s) msg (os s) in (e, s\<lparr>os := q\<rparr>))"

definition pbuf_free_callback :: "gaps \<Rightarrow> nat \<Rightarrow> lwip \<Rightarrow> err_t \<times> lwip" where
  "pbuf_free_callback g p s = tcpip_try_callback g PBUF_FREE_INT p s"

definition mem_free_callback :: "gaps \<Rightarrow> nat \<Rightarrow> lwip \<Rightarrow> err_t \<times> lwip" where
  "mem_free_callback g m s = tcpip_try_callback g MEM_FREE m s"

text \<open>The mailbox, the lock of the core and the thread; \<open>lwip_init\<close> sets up the modules before. The handles are kept
  even when they are \<open>NULL\<close>, since the assertions only print.\<close>

definition TCPIP_MBOX_SIZE :: nat where "TCPIP_MBOX_SIZE = 16"
definition TCPIP_THREAD_STACKSIZE :: nat where "TCPIP_THREAD_STACKSIZE = 512"
definition TCPIP_THREAD_PRIO :: nat where "TCPIP_THREAD_PRIO = 5"

definition tcpip_init :: "(lwip \<Rightarrow> lwip) \<Rightarrow> lwip_fn option \<Rightarrow> nat \<Rightarrow> lwip \<Rightarrow> lwip" where
  "tcpip_init lwip_init initfunc arg s =
     (let s = (lwip_init s)\<lparr>tcpip_init_done := initfunc, tcpip_init_done_arg := arg\<rparr>;
          ((e, mbox), q) = sys_mbox_new TCPIP_MBOX_SIZE (os s);
          ((e, mutex), q) = sys_mutex_new q;
          (h, q) = sys_thread_new ''tcp/ip'' TCPIP_THREAD_STACKSIZE TCPIP_THREAD_PRIO q
      in s\<lparr>tcpip_mbox := mbox, lock_tcpip_core := mutex, os := q\<rparr>)"

subsection \<open>The free elements of all pools\<close>

text \<open>\<open>L t\<close> is the free list of pool \<open>t\<close>; no element is free in two pools.\<close>

definition pools_ok :: "memp_pools \<Rightarrow> (memp_t \<Rightarrow> nat list) \<Rightarrow> bool" where
  "pools_ok M L \<longleftrightarrow> (\<forall>t. pool_free t M (L t)) \<and> (\<forall>t u. t \<noteq> u \<longrightarrow> set (L t) \<inter> set (L u) = {})"

lemma pools_ok_sound: "pools_ok M L \<Longrightarrow> distinct (L t) \<and> 0 \<notin> set (L t)"
  using memp.sound [of t M "L t"] by (simp add: pools_ok_def)

lemma pools_malloc_none:
  assumes "pools_ok M L" "L t = []" shows "memp_malloc t M = (0, M)"
  using memp.take_none [of t M] assms by (metis pools_ok_def)

lemma pools_malloc_some:
  assumes ok: "pools_ok M L" and t: "L t = x # xs"
  shows "\<exists>M'. memp_malloc t M = (x, M') \<and> x \<noteq> 0 \<and> pools_ok M' (L(t := xs)) \<and> (\<forall>u. x \<notin> set ((L(t := xs)) u))"
proof -
  have pf: "pool_free t M (x # xs)" using ok t by (metis pools_ok_def)
  then obtain M' where m: "memp_malloc t M = (x, M')" "pool_free t M' xs" using memp.take_some by blast
  have dj: "set (L u) \<inter> set (L v) = {}" if "u \<noteq> v" for u v using ok that by (simp add: pools_ok_def)
  have x: "x \<noteq> 0" "x \<notin> set xs" using memp.sound [OF pf] by auto
  have "pool_free u M' (L u)" if "u \<noteq> t" for u
    using memp_other_pool(1) [of u M "L u" t] ok that m(1) by (simp add: pools_ok_def)
  moreover have "set ((L(t := xs)) u) \<inter> set ((L(t := xs)) v) = {}" if "u \<noteq> v" for u v
    using dj [OF that] t that by auto
  ultimately have "pools_ok M' (L(t := xs))" using m(2) by (simp add: pools_ok_def)
  moreover have "x \<notin> set ((L(t := xs)) u)" for u using dj [of t u] t x(2) by auto
  ultimately show ?thesis using m(1) x(1) by blast
qed

lemma pools_free:
  assumes ok: "pools_ok M L" and y: "y \<noteq> 0" "\<forall>u. y \<notin> set (L u)"
  shows "pools_ok (memp_free t y M) (L(t := y # L t))"
proof -
  have "pool_free t (memp_free t y M) (y # L t)" using ok y by (intro memp.give) (simp_all add: pools_ok_def)
  moreover have "pool_free u (memp_free t y M) (L u)" if "u \<noteq> t" for u
    using ok y that by (intro memp_other_pool(2)) (simp_all add: pools_ok_def)
  moreover have "set ((L(t := y # L t)) u) \<inter> set ((L(t := y # L t)) v) = {}" if "u \<noteq> v" for u v
  proof -
    have "set (L u) \<inter> set (L v) = {}" using ok that by (simp add: pools_ok_def)
    then show ?thesis using y(2) that by auto
  qed
  ultimately show ?thesis by (simp add: pools_ok_def)
qed

lemma trypost_frame: "trypost g msg s = (e, s') \<Longrightarrow> \<exists>q. s' = s\<lparr>os := q\<rparr>"
  by (auto simp: trypost_def split: prod.splits)

text \<open>A message that is posted leaves its pool; one that is not stays in it.\<close>

lemma try_callback_pools:
  assumes ok: "pools_ok (pools s) L" and r: "tcpip_try_callback g f ctx s = (e, s')"
  shows "\<exists>L'. pools_ok (pools s') L' \<and> (\<forall>t. t \<noteq> MEMP_TCPIP_MSG_API \<longrightarrow> L' t = L t) \<and> (\<forall>t. set (L' t) \<subseteq> set (L t)) \<and>
    s' = s\<lparr>os := os s', pools := pools s', msgs := msgs s'\<rparr>"
proof (cases "L MEMP_TCPIP_MSG_API")
  case Nil
  then have "s' = s" using pools_malloc_none [OF ok] r by (auto simp: tcpip_try_callback_def pool_malloc_def)
  then show ?thesis using ok by (intro exI [of _ L]) simp
next
  case (Cons x xs)
  let ?L = "L(MEMP_TCPIP_MSG_API := xs)"
  obtain M where m: "memp_malloc MEMP_TCPIP_MSG_API (pools s) = (x, M)" "x \<noteq> 0" "pools_ok M ?L" "\<forall>u. x \<notin> set (?L u)"
    using pools_malloc_some [OF ok Cons] by blast
  let ?s = "s\<lparr>pools := M, msgs := (msgs s)(x := TCPIP_MSG_CALLBACK f ctx)\<rparr>"
  obtain d q where t: "trypost g x ?s = (d, ?s\<lparr>os := q\<rparr>)" using trypost_frame by (metis surj_pair)
  let ?s1 = "?s\<lparr>os := q\<rparr>"
  show ?thesis
  proof (cases "d = ERR_OK")
    case True
    then have "s' = ?s1" using r m t by (simp add: tcpip_try_callback_def pool_malloc_def)
    then show ?thesis using m(3) Cons by (intro exI [of _ ?L]) auto
  next
    case False
    then have e: "s' = ?s1\<lparr>pools := memp_free MEMP_TCPIP_MSG_API x M\<rparr>"
      using r m t by (simp add: tcpip_try_callback_def pool_malloc_def pool_release_def)
    have L: "?L(MEMP_TCPIP_MSG_API := x # ?L MEMP_TCPIP_MSG_API) = L" using Cons by auto
    have "pools_ok (pools s') L" using pools_free [OF m(3,2,4), of MEMP_TCPIP_MSG_API] unfolding L e by simp
    moreover have "s' = s\<lparr>os := os s', pools := pools s', msgs := msgs s'\<rparr>" unfolding e by simp
    ultimately show ?thesis by (intro exI [of _ L]) simp
  qed
qed

end
