(* ===== verification/Pbuf.thy ===== *)
theory Pbuf
  imports LwipState
begin

unbundle bit_operations_syntax

text \<open>
  The functions of \<open>pbuf.c\<close> that make, change and release packet buffers.
\<close>

subsection \<open>Fields and constants\<close>

definition upd_pbuf :: "nat \<Rightarrow> (pbuf \<Rightarrow> pbuf) \<Rightarrow> lwip \<Rightarrow> lwip" where
  "upd_pbuf p f s = s\<lparr>pbufs := (pbufs s)(p := f (pbufs s p))\<rparr>"

definition SIZEOF_STRUCT_PBUF :: nat where "SIZEOF_STRUCT_PBUF = 16"
definition PBUF_POOL_BUFSIZE_ALIGNED :: nat where "PBUF_POOL_BUFSIZE_ALIGNED = 1528"
definition NETIF_NO_INDEX :: u8 where "NETIF_NO_INDEX = 0"

text \<open>The room each layer reserves for the headers below it.\<close>

datatype pbuf_layer = PBUF_TRANSPORT | PBUF_IP | PBUF_LINK | PBUF_RAW_TX | PBUF_RAW

fun layer_offset :: "pbuf_layer \<Rightarrow> nat" where
  "layer_offset PBUF_TRANSPORT = 54"
| "layer_offset PBUF_IP = 34"
| "layer_offset PBUF_LINK = 14"
| "layer_offset PBUF_RAW_TX = 0"
| "layer_offset PBUF_RAW = 0"

datatype pbuf_type = PBUF_RAM | PBUF_ROM | PBUF_REF | PBUF_POOL

text \<open>The low byte of the value of the type, which is what \<open>type_internal\<close> keeps.\<close>

fun type_bits :: "pbuf_type \<Rightarrow> u8" where
  "type_bits PBUF_RAM = 0x80"
| "type_bits PBUF_ROM = 0x01"
| "type_bits PBUF_REF = 0x41"
| "type_bits PBUF_POOL = 0x82"

definition PBUF_TYPE_FLAG_STRUCT_DATA_CONTIGUOUS :: u8 where "PBUF_TYPE_FLAG_STRUCT_DATA_CONTIGUOUS = 0x80"
definition PBUF_TYPE_ALLOC_SRC_MASK :: u8 where "PBUF_TYPE_ALLOC_SRC_MASK = 0x0F"
definition PBUF_FLAG_IS_CUSTOM :: u8 where "PBUF_FLAG_IS_CUSTOM = 0x02"

definition pbuf_get_allocsrc :: "pbuf \<Rightarrow> u8" where
  "pbuf_get_allocsrc b = type_internal b AND PBUF_TYPE_ALLOC_SRC_MASK"

definition is_custom :: "pbuf \<Rightarrow> bool" where
  "is_custom b \<longleftrightarrow> pbuf_flags b AND PBUF_FLAG_IS_CUSTOM \<noteq> 0"

subsection \<open>References and release\<close>

text \<open>Where the memory of a buffer goes. \<open>cf\<close> is the free function of custom buffers.\<close>

definition pbuf_dealloc :: "(nat \<Rightarrow> lwip \<Rightarrow> lwip) \<Rightarrow> nat \<Rightarrow> lwip \<Rightarrow> lwip" where
  "pbuf_dealloc cf p s =
     (let src = pbuf_get_allocsrc (pbufs s p)
      in if is_custom (pbufs s p) then cf p s
         else if src = 2 then pool_release MEMP_PBUF_POOL p s
         else if src = 1 then pool_release MEMP_PBUF p s
         else if src = 0 then s\<lparr>ram_heap := mem_free p (ram_heap s)\<rparr>
         else s)"

text \<open>The reference count has 8 bits: the decrement of zero wraps. The result counts the buffers released.\<close>

partial_function (option) pbuf_free_loop :: "(nat \<Rightarrow> lwip \<Rightarrow> lwip) \<Rightarrow> nat \<Rightarrow> nat \<Rightarrow> lwip \<Rightarrow> (nat \<times> lwip) option" where
  "pbuf_free_loop cf p n s =
     (if p \<noteq> 0
      then let r = u8_t (pbuf_ref (pbufs s p) + 255);
               s = upd_pbuf p (\<lambda>b. b\<lparr>pbuf_ref := r\<rparr>) s
           in if r = 0
              then let q = pbuf_next (pbufs s p); s = pbuf_dealloc cf p s in pbuf_free_loop cf q (u8_t (n + 1)) s
              else Some (n, s)
      else Some (n, s))"

definition pbuf_free :: "(nat \<Rightarrow> lwip \<Rightarrow> lwip) \<Rightarrow> nat \<Rightarrow> lwip \<Rightarrow> (nat \<times> lwip) option" where
  "pbuf_free cf p s = (if p = 0 then Some (0, s) else pbuf_free_loop cf p 0 s)"

definition pbuf_reference :: "nat \<Rightarrow> lwip \<Rightarrow> lwip" where
  "pbuf_reference p s = (if p \<noteq> 0 then upd_pbuf p (\<lambda>b. b\<lparr>pbuf_ref := u8_t (pbuf_ref b + 1)\<rparr>) s else s)"

subsection \<open>Allocation\<close>

definition pbuf_init_alloced_pbuf :: "nat \<Rightarrow> nat \<Rightarrow> nat \<Rightarrow> nat \<Rightarrow> u8 \<Rightarrow> u8 \<Rightarrow> lwip \<Rightarrow> lwip" where
  "pbuf_init_alloced_pbuf p payload0 tot len ty fl s =
     upd_pbuf p (\<lambda>_. \<lparr>pbuf_next = 0, payload = payload0, tot_len = tot, pbuf_len = len, type_internal = ty, pbuf_flags = fl,
       pbuf_ref = 1, if_idx = NETIF_NO_INDEX\<rparr>) s"

text \<open>An empty pool asks the thread to free what TCP has stored out of sequence, once.\<close>

definition pbuf_pool_is_empty :: "gaps \<Rightarrow> lwip \<Rightarrow> lwip" where
  "pbuf_pool_is_empty g s =
     (let queued = pbuf_free_ooseq_pending s;
          s = s\<lparr>pbuf_free_ooseq_pending := True\<rparr>
      in if \<not> queued
         then let (e, s) = tcpip_try_callback g PBUF_FREE_OOSEQ_CALLBACK 0 s
              in if e \<noteq> ERR_OK then s\<lparr>pbuf_free_ooseq_pending := False\<rparr> else s
         else s)"

definition pbuf_alloc_reference :: "nat \<Rightarrow> nat \<Rightarrow> pbuf_type \<Rightarrow> lwip \<Rightarrow> nat \<times> lwip" where
  "pbuf_alloc_reference payload0 len ty s =
     (let (p, s) = pool_malloc MEMP_PBUF s
      in if p = 0 then (0, s) else (p, pbuf_init_alloced_pbuf p payload0 len len (type_bits ty) 0 s))"

text \<open>The loop over the buffers of the pool; \<open>p\<close> is the first buffer of the chain so far and \<open>lst\<close> its last.\<close>

partial_function (option) alloc_pool :: "(nat \<Rightarrow> lwip \<Rightarrow> lwip) \<Rightarrow> gaps \<Rightarrow> nat \<Rightarrow> nat \<Rightarrow> nat \<Rightarrow> nat \<Rightarrow> lwip \<Rightarrow> (nat \<times> lwip) option" where
  "alloc_pool cf g p lst rem_len offset s =
     (let (q, s) = pool_malloc MEMP_PBUF_POOL s
      in if q = 0
         then let s = pbuf_pool_is_empty g s
              in if p \<noteq> 0 then map_option (\<lambda>(_, s). (0, s)) (pbuf_free cf p s) else Some (0, s)
         else let qlen = min rem_len (u16_t (PBUF_POOL_BUFSIZE_ALIGNED + 2 ^ 16 - LWIP_MEM_ALIGN_SIZE offset));
                  s = pbuf_init_alloced_pbuf q (LWIP_MEM_ALIGN (q + SIZEOF_STRUCT_PBUF + offset)) rem_len qlen (type_bits PBUF_POOL) 0 s;
                  s = (if p = 0 then s else upd_pbuf lst (\<lambda>b. b\<lparr>pbuf_next := q\<rparr>) s);
                  p = (if p = 0 then q else p);
                  rem_len = rem_len - qlen
              in if rem_len > 0 then alloc_pool cf g p q rem_len 0 s else Some (p, s))"

definition pbuf_alloc :: "(nat \<Rightarrow> lwip \<Rightarrow> lwip) \<Rightarrow> gaps \<Rightarrow> pbuf_layer \<Rightarrow> nat \<Rightarrow> pbuf_type \<Rightarrow> lwip \<Rightarrow> (nat \<times> lwip) option" where
  "pbuf_alloc cf g layer len ty s =
     (let offset = layer_offset layer
      in case ty of
           PBUF_REF \<Rightarrow> Some (pbuf_alloc_reference 0 len ty s)
         | PBUF_ROM \<Rightarrow> Some (pbuf_alloc_reference 0 len ty s)
         | PBUF_POOL \<Rightarrow> alloc_pool cf g 0 0 len offset s
         | PBUF_RAM \<Rightarrow>
             let payload_len = u16_t (LWIP_MEM_ALIGN_SIZE offset + LWIP_MEM_ALIGN_SIZE len);
                 alloc_len = u16_t (SIZEOF_STRUCT_PBUF + payload_len)
             in if payload_len < LWIP_MEM_ALIGN_SIZE len \<or> alloc_len < LWIP_MEM_ALIGN_SIZE len then Some (0, s)
                else case mem_malloc alloc_len (ram_heap s) of
                  None \<Rightarrow> None
                | Some (p, h) \<Rightarrow>
                    let s = s\<lparr>ram_heap := h\<rparr>
                    in if p = 0 then Some (0, s)
                       else Some (p, pbuf_init_alloced_pbuf p (LWIP_MEM_ALIGN (p + SIZEOF_STRUCT_PBUF + offset)) len len (type_bits PBUF_RAM) 0 s))"

text \<open>A buffer of the caller; the structure is at \<open>p\<close>.\<close>

definition pbuf_alloced_custom :: "pbuf_layer \<Rightarrow> nat \<Rightarrow> pbuf_type \<Rightarrow> nat \<Rightarrow> nat \<Rightarrow> nat \<Rightarrow> lwip \<Rightarrow> nat \<times> lwip" where
  "pbuf_alloced_custom l len ty p payload_mem payload_mem_len s =
     (let offset = layer_offset l
      in if LWIP_MEM_ALIGN_SIZE offset + len > payload_mem_len then (0, s)
         else (p, pbuf_init_alloced_pbuf p (if payload_mem \<noteq> 0 then payload_mem + LWIP_MEM_ALIGN_SIZE offset else 0) len len
                    (type_bits ty) PBUF_FLAG_IS_CUSTOM s))"

subsection \<open>Headers\<close>

text \<open>The result is \<open>True\<close> for failure.\<close>

definition pbuf_add_header_impl :: "nat \<Rightarrow> nat \<Rightarrow> bool \<Rightarrow> lwip \<Rightarrow> bool \<times> lwip" where
  "pbuf_add_header_impl p inc force s =
     (let b = pbufs s p
      in if p = 0 \<or> inc > 0xFFFF then (True, s)
         else if inc = 0 then (False, s)
         else if u16_t (inc + tot_len b) < inc then (True, s)
         else if type_internal b AND PBUF_TYPE_FLAG_STRUCT_DATA_CONTIGUOUS \<noteq> 0 \<and> payload b < p + SIZEOF_STRUCT_PBUF + inc then (True, s)
         else if type_internal b AND PBUF_TYPE_FLAG_STRUCT_DATA_CONTIGUOUS = 0 \<and> \<not> force then (True, s)
         else (False, upd_pbuf p (\<lambda>b. b\<lparr>payload := payload b - inc, pbuf_len := u16_t (pbuf_len b + inc), tot_len := u16_t (tot_len b + inc)\<rparr>) s))"

definition pbuf_add_header :: "nat \<Rightarrow> nat \<Rightarrow> lwip \<Rightarrow> bool \<times> lwip" where
  "pbuf_add_header p inc s = pbuf_add_header_impl p inc False s"

definition pbuf_add_header_force :: "nat \<Rightarrow> nat \<Rightarrow> lwip \<Rightarrow> bool \<times> lwip" where
  "pbuf_add_header_force p inc s = pbuf_add_header_impl p inc True s"

definition pbuf_remove_header :: "nat \<Rightarrow> nat \<Rightarrow> lwip \<Rightarrow> bool \<times> lwip" where
  "pbuf_remove_header p dec s =
     (let b = pbufs s p
      in if p = 0 \<or> dec > 0xFFFF then (True, s)
         else if dec = 0 then (False, s)
         else if dec > pbuf_len b then (True, s)
         else (False, upd_pbuf p (\<lambda>b. b\<lparr>payload := payload b + dec, pbuf_len := pbuf_len b - dec, tot_len := usub16 (tot_len b) dec\<rparr>) s))"

definition pbuf_header_impl :: "nat \<Rightarrow> int \<Rightarrow> bool \<Rightarrow> lwip \<Rightarrow> bool \<times> lwip" where
  "pbuf_header_impl p inc force s =
     (if inc < 0 then pbuf_remove_header p (nat (- inc)) s else pbuf_add_header_impl p (nat inc) force s)"

definition pbuf_header :: "nat \<Rightarrow> int \<Rightarrow> lwip \<Rightarrow> bool \<times> lwip" where
  "pbuf_header p inc s = pbuf_header_impl p inc False s"

definition pbuf_header_force :: "nat \<Rightarrow> int \<Rightarrow> lwip \<Rightarrow> bool \<times> lwip" where
  "pbuf_header_force p inc s = pbuf_header_impl p inc True s"

text \<open>The first bytes of a chain are given up, whole buffers and then a part of one.\<close>

partial_function (option) pbuf_free_header :: "(nat \<Rightarrow> lwip \<Rightarrow> lwip) \<Rightarrow> nat \<Rightarrow> nat \<Rightarrow> lwip \<Rightarrow> (nat \<times> lwip) option" where
  "pbuf_free_header cf p free_left s =
     (if free_left \<noteq> 0 \<and> p \<noteq> 0
      then if free_left \<ge> pbuf_len (pbufs s p)
           then let f = p; free_left = free_left - pbuf_len (pbufs s p); p = pbuf_next (pbufs s p);
                    s = upd_pbuf f (\<lambda>b. b\<lparr>pbuf_next := 0\<rparr>) s
                in case pbuf_free cf f s of None \<Rightarrow> None | Some (_, s) \<Rightarrow> pbuf_free_header cf p free_left s
           else Some (p, snd (pbuf_remove_header p free_left s))
      else Some (p, s))"

subsection \<open>Chains\<close>

text \<open>The end of the first chain is found while the total lengths on the way are increased.\<close>

partial_function (option) cat_loop :: "nat \<Rightarrow> nat \<Rightarrow> lwip \<Rightarrow> (nat \<times> lwip) option" where
  "cat_loop p t s =
     (if pbuf_next (pbufs s p) \<noteq> 0
      then let s = upd_pbuf p (\<lambda>b. b\<lparr>tot_len := u16_t (tot_len b + tot_len (pbufs s t))\<rparr>) s
           in cat_loop (pbuf_next (pbufs s p)) t s
      else Some (p, s))"

definition pbuf_cat :: "nat \<Rightarrow> nat \<Rightarrow> lwip \<Rightarrow> lwip option" where
  "pbuf_cat h t s =
     (if h = 0 \<or> t = 0 then Some s
      else map_option (\<lambda>(p, s). let s = upd_pbuf p (\<lambda>b. b\<lparr>tot_len := u16_t (tot_len b + tot_len (pbufs s t))\<rparr>) s
                               in upd_pbuf p (\<lambda>b. b\<lparr>pbuf_next := t\<rparr>) s) (cat_loop h t s))"

definition pbuf_chain :: "nat \<Rightarrow> nat \<Rightarrow> lwip \<Rightarrow> lwip option" where
  "pbuf_chain h t s = map_option (pbuf_reference t) (pbuf_cat h t s)"

text \<open>The rest of the chain, \<open>0\<close> when it was released.\<close>

definition pbuf_dechain :: "(nat \<Rightarrow> lwip \<Rightarrow> lwip) \<Rightarrow> nat \<Rightarrow> lwip \<Rightarrow> (nat \<times> lwip) option" where
  "pbuf_dechain cf p s =
     (let q = pbuf_next (pbufs s p)
      in if q \<noteq> 0
         then let s = upd_pbuf q (\<lambda>b. b\<lparr>tot_len := usub16 (tot_len (pbufs s p)) (pbuf_len (pbufs s p))\<rparr>) s;
                  s = upd_pbuf p (\<lambda>b. b\<lparr>pbuf_next := 0\<rparr>) s;
                  s = upd_pbuf p (\<lambda>b. b\<lparr>tot_len := pbuf_len b\<rparr>) s
              in map_option (\<lambda>(tail_gone, s). (if tail_gone > 0 then 0 else q, s)) (pbuf_free cf q s)
         else Some (0, s))"

text \<open>The buffer that holds the new end and the bytes in it, the total lengths in front reduced.\<close>

partial_function (option) realloc_loop :: "nat \<Rightarrow> nat \<Rightarrow> nat \<Rightarrow> lwip \<Rightarrow> (nat \<times> nat \<times> lwip) option" where
  "realloc_loop q rem_len shrink s =
     (if rem_len > pbuf_len (pbufs s q)
      then let rem_len = rem_len - pbuf_len (pbufs s q);
               s = upd_pbuf q (\<lambda>b. b\<lparr>tot_len := usub16 (tot_len b) shrink\<rparr>) s
           in realloc_loop (pbuf_next (pbufs s q)) rem_len shrink s
      else Some (q, rem_len, s))"

definition pbuf_realloc :: "(nat \<Rightarrow> lwip \<Rightarrow> lwip) \<Rightarrow> nat \<Rightarrow> nat \<Rightarrow> lwip \<Rightarrow> lwip option" where
  "pbuf_realloc cf p new_len s =
     (if new_len \<ge> tot_len (pbufs s p) then Some s
      else case realloc_loop p new_len (usub16 (tot_len (pbufs s p)) new_len) s of
        None \<Rightarrow> None
      | Some (q, rem_len, s) \<Rightarrow>
          let (q, s) = (if pbuf_get_allocsrc (pbufs s q) = 0 \<and> rem_len \<noteq> pbuf_len (pbufs s q) \<and> \<not> is_custom (pbufs s q)
                        then let (q', h) = mem_trim q (u16_t (payload (pbufs s q) - q + rem_len)) (ram_heap s) in (q', s\<lparr>ram_heap := h\<rparr>)
                        else (q, s));
              s = upd_pbuf q (\<lambda>b. b\<lparr>pbuf_len := rem_len\<rparr>) s;
              s = upd_pbuf q (\<lambda>b. b\<lparr>tot_len := pbuf_len b\<rparr>) s
          in map_option (\<lambda>(_, s). upd_pbuf q (\<lambda>b. b\<lparr>pbuf_next := 0\<rparr>) s)
               (if pbuf_next (pbufs s q) \<noteq> 0 then pbuf_free cf (pbuf_next (pbufs s q)) s else Some (0, s)))"

subsection \<open>Data\<close>

definition mem_write :: "nat \<Rightarrow> u8 list \<Rightarrow> lwip \<Rightarrow> lwip" where
  "mem_write a bs s = s\<lparr>lmem := write_bytes a bs (lmem s)\<rparr>"

text \<open>\<open>dat\<close> are the bytes at \<open>dataptr\<close> that are still to be copied.\<close>

partial_function (option) take_loop :: "nat \<Rightarrow> u8 list \<Rightarrow> lwip \<Rightarrow> lwip option" where
  "take_loop p dat s =
     (if dat \<noteq> []
      then let n = (if length dat > pbuf_len (pbufs s p) then pbuf_len (pbufs s p) else length dat)
           in take_loop (pbuf_next (pbufs s p)) (drop n dat) (mem_write (payload (pbufs s p)) (take n dat) s)
      else Some s)"

definition pbuf_take :: "nat \<Rightarrow> u8 list \<Rightarrow> lwip \<Rightarrow> (err_t \<times> lwip) option" where
  "pbuf_take buf dat s =
     (if buf = 0 then Some (ERR_ARG, s)
      else if tot_len (pbufs s buf) < length dat then Some (ERR_MEM, s)
      else map_option (\<lambda>s. (ERR_OK, s)) (take_loop buf dat s))"

definition pbuf_take_at :: "nat \<Rightarrow> u8 list \<Rightarrow> nat \<Rightarrow> lwip \<Rightarrow> (err_t \<times> lwip) option" where
  "pbuf_take_at buf dat offset s =
     (case pbuf_skip (pbufs s) buf offset of
        None \<Rightarrow> None
      | Some (q, target_offset) \<Rightarrow>
          if q \<noteq> 0 \<and> tot_len (pbufs s q) \<ge> target_offset + length dat
          then let n = min (pbuf_len (pbufs s q) - target_offset) (length dat);
                   s = mem_write (payload (pbufs s q) + target_offset) (take n dat) s
               in if length dat - n > 0 then pbuf_take (pbuf_next (pbufs s q)) (drop n dat) s else Some (ERR_OK, s)
          else Some (ERR_MEM, s))"

definition pbuf_put_at :: "nat \<Rightarrow> nat \<Rightarrow> u8 \<Rightarrow> lwip \<Rightarrow> lwip option" where
  "pbuf_put_at p offset b s =
     map_option (\<lambda>(q, q_idx). if q \<noteq> 0 \<and> pbuf_len (pbufs s q) > q_idx then mem_write (payload (pbufs s q) + q_idx) [b] s else s)
       (pbuf_skip (pbufs s) p offset)"

text \<open>The copy of one chain into another; the offsets are those in the current buffers.\<close>

partial_function (option) copy_loop :: "nat \<Rightarrow> nat \<Rightarrow> nat \<Rightarrow> nat \<Rightarrow> lwip \<Rightarrow> (err_t \<times> lwip) option" where
  "copy_loop p_to p_from offset_to offset_from s =
     (let P = pbufs s;
          len = (if usub (pbuf_len (P p_to)) offset_to \<ge> usub (pbuf_len (P p_from)) offset_from
                 then usub (pbuf_len (P p_from)) offset_from else usub (pbuf_len (P p_to)) offset_to);
          s = mem_write (payload (P p_to) + offset_to) (read_bytes (payload (P p_from) + offset_from) len (lmem s)) s;
          offset_to = offset_to + len;
          offset_from = offset_from + len;
          (p_from, offset_from) = (if offset_from \<ge> pbuf_len (P p_from) then (pbuf_next (P p_from), 0) else (p_from, offset_from));
          (next_to, offset_to) = (if offset_to = pbuf_len (P p_to) then (pbuf_next (P p_to), 0) else (p_to, offset_to))
      in if next_to = 0 \<and> p_from \<noteq> 0 then Some (ERR_ARG, s)
         else if p_from \<noteq> 0 \<and> pbuf_len (P p_from) = tot_len (P p_from) \<and> pbuf_next (P p_from) \<noteq> 0 then Some (ERR_VAL, s)
         else if next_to \<noteq> 0 \<and> pbuf_len (P next_to) = tot_len (P next_to) \<and> pbuf_next (P next_to) \<noteq> 0 then Some (ERR_VAL, s)
         else if p_from \<noteq> 0 then copy_loop next_to p_from offset_to offset_from s
         else Some (ERR_OK, s))"

definition pbuf_copy :: "nat \<Rightarrow> nat \<Rightarrow> lwip \<Rightarrow> (err_t \<times> lwip) option" where
  "pbuf_copy p_to p_from s =
     (if p_to \<noteq> 0 \<and> p_from \<noteq> 0 \<and> tot_len (pbufs s p_to) \<ge> tot_len (pbufs s p_from) then copy_loop p_to p_from 0 0 s
      else Some (ERR_ARG, s))"

definition pbuf_clone :: "(nat \<Rightarrow> lwip \<Rightarrow> lwip) \<Rightarrow> gaps \<Rightarrow> pbuf_layer \<Rightarrow> pbuf_type \<Rightarrow> nat \<Rightarrow> lwip \<Rightarrow> (nat \<times> lwip) option" where
  "pbuf_clone cf g layer ty p s =
     (case pbuf_alloc cf g layer (tot_len (pbufs s p)) ty s of
        None \<Rightarrow> None
      | Some (q, s) \<Rightarrow> if q = 0 then Some (0, s) else map_option (\<lambda>(_, s). (q, s)) (pbuf_copy q p s))"

definition pbuf_coalesce :: "(nat \<Rightarrow> lwip \<Rightarrow> lwip) \<Rightarrow> gaps \<Rightarrow> nat \<Rightarrow> pbuf_layer \<Rightarrow> lwip \<Rightarrow> (nat \<times> lwip) option" where
  "pbuf_coalesce cf g p layer s =
     (if pbuf_next (pbufs s p) = 0 then Some (p, s)
      else case pbuf_clone cf g layer PBUF_RAM p s of
        None \<Rightarrow> None
      | Some (q, s) \<Rightarrow> if q = 0 then Some (p, s) else map_option (\<lambda>(_, s). (q, s)) (pbuf_free cf p s))"

end
