(* ===== verification/PbufMem.thy ===== *)
theory PbufMem
  imports Pbuf
begin

text \<open>
  Who owns the memory of a packet buffer, and what the functions that allocate and release chains do to it.
\<close>

subsection \<open>Ownership\<close>

text \<open>\<open>L t\<close> are the free elements of pool \<open>t\<close> and \<open>R\<close> the regions of the heap that are in use.\<close>

definition buf_mem :: "nat \<Rightarrow> lwip \<Rightarrow> (memp_t \<Rightarrow> nat list) \<Rightarrow> (nat \<times> nat) set \<Rightarrow> bool" where
  "buf_mem base s L R \<longleftrightarrow> pools_ok (pools s) L \<and> lwip_rep base (ram_heap s) R"

text \<open>A buffer in use, with the source its type names: one of the two pools or the heap.\<close>

definition pbuf_owned :: "lwip \<Rightarrow> (memp_t \<Rightarrow> nat list) \<Rightarrow> (nat \<times> nat) set \<Rightarrow> nat \<Rightarrow> bool" where
  "pbuf_owned s L R q \<longleftrightarrow> q \<noteq> 0 \<and> \<not> is_custom (pbufs s q) \<and> (\<forall>t. q \<notin> set (L t)) \<and>
     (pbuf_get_allocsrc (pbufs s q) \<in> {1, 2} \<or> pbuf_get_allocsrc (pbufs s q) = 0 \<and> q \<in> fst ` R)"

text \<open>The pools and the heap after the buffers of a list have been given back, the last one on top.\<close>

fun back_to :: "(nat \<Rightarrow> pbuf) \<Rightarrow> nat list \<Rightarrow> (memp_t \<Rightarrow> nat list) \<Rightarrow> memp_t \<Rightarrow> nat list" where
  "back_to P [] L = L"
| "back_to P (q # qs) L =
     back_to P qs (if pbuf_get_allocsrc (P q) = 2 then L(MEMP_PBUF_POOL := q # L MEMP_PBUF_POOL)
       else if pbuf_get_allocsrc (P q) = 1 then L(MEMP_PBUF := q # L MEMP_PBUF) else L)"

definition heap_left :: "(nat \<Rightarrow> pbuf) \<Rightarrow> nat list \<Rightarrow> (nat \<times> nat) set \<Rightarrow> (nat \<times> nat) set" where
  "heap_left P qs R = {x \<in> R. \<not> (fst x \<in> set qs \<and> pbuf_get_allocsrc (P (fst x)) = 0)}"

lemma lwip_rep_unique:
  assumes "lwip_rep base h R" "(p, l) \<in> R" "(p, l') \<in> R" shows "l = l'"
proof -
  obtain bs ql where b: "mseg h 0 0 bs MEM_SIZE_ALIGNED ql" "R = (\<lambda>(p, n). (ram h + p, n)) ` live bs"
    using assms(1) by (auto simp: lwip_rep_def mheap_rel_def mheap_rel0_def)
  have "mseg h pv p bs q ql \<Longrightarrow> (a, s, Alloc) \<in> set bs \<Longrightarrow> (a, s', Alloc) \<in> set bs \<Longrightarrow> s = s'" for pv p bs q ql a s s'
  proof (induction bs arbitrary: pv p)
    case (Cons c cs)
    obtain x y z where c: "c = (x, y, z)" by (cases c) auto
    then have m: "mseg h p (p + y) cs q ql" "x = p" "20 \<le> y" using Cons.prems(1) by auto
    note bd = mseg_bound [OF m(1)]
    show ?case using Cons.IH [OF m(1)] Cons.prems(2,3) bd [of a s Alloc] bd [of a s' Alloc] c m(2,3) by auto
  qed simp
  note u = this
  from assms(2,3) b obtain a s s' where "(a, s, Alloc) \<in> set bs" "(a, s', Alloc) \<in> set bs" "l = s - 8" "l' = s' - 8" by (auto simp: live_iff)
  then show ?thesis using u [OF b(1)] by blast
qed

lemma dealloc_spec:
  assumes m: "buf_mem base s L R" and o: "pbuf_owned s L R q"
  shows "buf_mem base (pbuf_dealloc cf q s) (back_to (pbufs s) [q] L) (heap_left (pbufs s) [q] R)"
    and "pbuf_dealloc cf q s = s\<lparr>pools := pools (pbuf_dealloc cf q s), ram_heap := ram_heap (pbuf_dealloc cf q s)\<rparr>"
proof -
  have p: "pools_ok (pools s) L" "lwip_rep base (ram_heap s) R" using m by (simp_all add: buf_mem_def)
  have q: "q \<noteq> 0" "\<forall>t. q \<notin> set (L t)" "\<not> is_custom (pbufs s q)" using o by (auto simp: pbuf_owned_def)
  show "pbuf_dealloc cf q s = s\<lparr>pools := pools (pbuf_dealloc cf q s), ram_heap := ram_heap (pbuf_dealloc cf q s)\<rparr>"
    using q by (simp add: pbuf_dealloc_def pool_release_def Let_def)
  show "buf_mem base (pbuf_dealloc cf q s) (back_to (pbufs s) [q] L) (heap_left (pbufs s) [q] R)"
  proof (cases "pbuf_get_allocsrc (pbufs s q) = 0")
    case True
    then obtain l where l: "(q, l) \<in> R" using o by (auto simp: pbuf_owned_def)
    have "heap_left (pbufs s) [q] R = R - {(q, l)}"
    proof (rule set_eqI)
      fix x :: "nat \<times> nat"
      obtain a n where x: "x = (a, n)" by (cases x)
      show "x \<in> heap_left (pbufs s) [q] R \<longleftrightarrow> x \<in> R - {(q, l)}"
        using True l lwip_rep_unique [OF p(2), of q n l] unfolding x heap_left_def by auto
    qed
    moreover have "lwip_rep base (mem_free q (ram_heap s)) (R - {(q, l)})" using lwip_mem.mfree_law [OF p(2) l] by simp
    ultimately show ?thesis using True p q by (simp add: buf_mem_def pbuf_dealloc_def)
  next
    case False
    then have "pbuf_get_allocsrc (pbufs s q) = 1 \<or> pbuf_get_allocsrc (pbufs s q) = 2" using o by (auto simp: pbuf_owned_def)
    moreover have "heap_left (pbufs s) [q] R = R" using False by (auto simp: heap_left_def)
    ultimately show ?thesis using p q pools_free [OF p(1) q(1,2)]
      by (auto simp: buf_mem_def pbuf_dealloc_def pool_release_def)
  qed
qed

subsection \<open>Releasing a chain\<close>

text \<open>The buffers that go: those in front of the first one that somebody else refers to too. The reference count of
  that one is decreased as well.\<close>

definition gone :: "(nat \<Rightarrow> pbuf) \<Rightarrow> nat list \<Rightarrow> nat list" where
  "gone P qs = takeWhile (\<lambda>q. pbuf_ref (P q) = 1) qs"

definition touched :: "(nat \<Rightarrow> pbuf) \<Rightarrow> nat list \<Rightarrow> nat list" where
  "touched P qs = take (Suc (length (gone P qs))) qs"

definition unref :: "nat list \<Rightarrow> (nat \<Rightarrow> pbuf) \<Rightarrow> nat \<Rightarrow> pbuf" where
  "unref qs P = (\<lambda>q. if q \<in> set qs then (P q)\<lparr>pbuf_ref := pbuf_ref (P q) - 1\<rparr> else P q)"

lemma gone_simps [simp]: "gone P [] = []" "gone P (q # qs) = (if pbuf_ref (P q) = 1 then q # gone P qs else [])"
  "touched P [] = []" "touched P (q # qs) = q # (if pbuf_ref (P q) = 1 then touched P qs else [])"
  by (simp_all add: gone_def touched_def)

lemma gone_subset: "set (gone P qs) \<subseteq> set (touched P qs)" "set (touched P qs) \<subseteq> set qs"
  by (induction qs) auto

lemma gone_cong: "(\<And>q. q \<in> set qs \<Longrightarrow> pbuf_ref (P' q) = pbuf_ref (P q)) \<Longrightarrow> gone P' qs = gone P qs \<and> touched P' qs = touched P qs"
  by (induction qs) auto

lemma pchain_cong: "(\<And>q. q \<in> set qs \<Longrightarrow> pbuf_next (P' q) = pbuf_next (P q)) \<Longrightarrow> pchain P' p qs = pchain P p qs"
  by (induction qs arbitrary: p) auto

lemma pchain_distinct: "pchain P p qs \<Longrightarrow> distinct qs \<and> 0 \<notin> set qs"
  by (induction qs arbitrary: p) auto

lemma unref_other [simp]:
  "pbuf_next (unref qs P q) = pbuf_next (P q)" "payload (unref qs P q) = payload (P q)" "tot_len (unref qs P q) = tot_len (P q)"
  "pbuf_len (unref qs P q) = pbuf_len (P q)" "pbuf_get_allocsrc (unref qs P q) = pbuf_get_allocsrc (P q)" "is_custom (unref qs P q) = is_custom (P q)"
  by (simp_all add: unref_def pbuf_get_allocsrc_def is_custom_def)

lemma unref_notin [simp]: "q \<notin> set qs \<Longrightarrow> unref qs P q = P q"
  by (simp add: unref_def)

lemma back_to_cong: "(\<And>q. q \<in> set qs \<Longrightarrow> pbuf_get_allocsrc (P' q) = pbuf_get_allocsrc (P q)) \<Longrightarrow> back_to P' qs L = back_to P qs L"
  by (induction qs arbitrary: L) auto

lemma set_back_to:
  "set (back_to P qs L t) = set (L t) \<union> {q \<in> set qs. t = MEMP_PBUF_POOL \<and> pbuf_get_allocsrc (P q) = 2 \<or> t = MEMP_PBUF \<and> pbuf_get_allocsrc (P q) = 1}"
  by (induction qs arbitrary: L) auto

lemma heap_left_cons: "heap_left P (q # qs) R = heap_left P qs (heap_left P [q] R)"
  by (auto simp: heap_left_def)

lemma heap_left_cong: "(\<And>q. q \<in> set qs \<Longrightarrow> pbuf_get_allocsrc (P' q) = pbuf_get_allocsrc (P q)) \<Longrightarrow> heap_left P' qs R = heap_left P qs R"
  by (auto simp: heap_left_def)

lemma pbuf_owned_after:
  assumes "pbuf_owned s L R q'" "q' \<noteq> q" "pbuf_get_allocsrc (pbufs s' q') = pbuf_get_allocsrc (pbufs s q')" "is_custom (pbufs s' q') = is_custom (pbufs s q')"
  shows "pbuf_owned s' (back_to P [q] L) (heap_left P [q] R) q'"
  using assms by (auto simp: pbuf_owned_def heap_left_def)

lemma free_loop_spec:
  assumes "pchain (pbufs s) p qs" "buf_mem base s L R" "\<forall>q \<in> set (touched (pbufs s) qs). 1 \<le> pbuf_ref (pbufs s q) \<and> pbuf_ref (pbufs s q) < 256"
    "\<forall>q \<in> set (gone (pbufs s) qs). pbuf_owned s L R q" "n < 256"
  shows "\<exists>M h. let s' = s\<lparr>pools := M, ram_heap := h, pbufs := unref (touched (pbufs s) qs) (pbufs s)\<rparr>
    in pbuf_free_loop cf p n s = Some (u8_t (n + length (gone (pbufs s) qs)), s') \<and>
      buf_mem base s' (back_to (pbufs s) (gone (pbufs s) qs) L) (heap_left (pbufs s) (gone (pbufs s) qs) R)"
  using assms
proof (induction qs arbitrary: p s n L R)
  case Nil
  then show ?case by (intro exI [of _ "pools s"] exI [of _ "ram_heap s"]) (simp add: pbuf_free_loop.simps u8_t_def unref_def heap_left_def)
next
  case (Cons q qs)
  let ?P = "pbufs s" and ?r = "pbuf_ref (pbufs s q)" and ?s1 = "s\<lparr>pbufs := unref [q] (pbufs s)\<rparr>"
  have q: "p = q" "q \<noteq> 0" "q \<notin> set qs" "pchain ?P (pbuf_next (?P q)) qs" using Cons.prems(1) by auto
  have r: "1 \<le> ?r" "?r < 256" using Cons.prems(3) by auto
  have u: "u8_t (?r + 255) = ?r - 1" using r unfolding u8_t_def by (simp add: mod_if)
  have s1: "upd_pbuf q (\<lambda>b. b\<lparr>pbuf_ref := u8_t (?r + 255)\<rparr>) s = ?s1"
    unfolding u by (rule lwip.equality) (auto simp: upd_pbuf_def unref_def)
  show ?case
  proof (cases "?r = 1")
    case False
    then have "pbuf_free_loop cf p n s = Some (n, ?s1)" using q(1,2) r s1 u by (subst pbuf_free_loop.simps) (simp add: Let_def)
    then show ?thesis using False Cons.prems(2,5)
      by (intro exI [of _ "pools s"] exI [of _ "ram_heap s"]) (simp add: u8_t_def buf_mem_def heap_left_def)
  next
    case True
    have o: "pbuf_owned ?s1 L R q" using Cons.prems(4) True by (auto simp: pbuf_owned_def)
    have m1: "buf_mem base ?s1 L R" using Cons.prems(2) by (simp add: buf_mem_def)
    obtain M h where d: "pbuf_dealloc cf q ?s1 = ?s1\<lparr>pools := M, ram_heap := h\<rparr>" using dealloc_spec(2) [OF m1 o] by blast
    let ?s2 = "?s1\<lparr>pools := M, ram_heap := h\<rparr>" and ?L = "back_to ?P [q] L" and ?R = "heap_left ?P [q] R"
    have "buf_mem base ?s2 (back_to (unref [q] ?P) [q] L) (heap_left (unref [q] ?P) [q] R)" using dealloc_spec(1) [OF m1 o, of cf] d by simp
    moreover have "back_to (unref [q] ?P) [q] L = ?L" "heap_left (unref [q] ?P) [q] R = ?R" by (rule back_to_cong heap_left_cong, simp)+
    ultimately have m2: "buf_mem base ?s2 ?L ?R" by simp
    have g: "gone (unref [q] ?P) qs = gone ?P qs" "touched (unref [q] ?P) qs = touched ?P qs"
    proof -
      have "pbuf_ref (unref [q] ?P x) = pbuf_ref (?P x)" if "x \<in> set qs" for x using that q(3) by (subst unref_notin) auto
      then show "gone (unref [q] ?P) qs = gone ?P qs" "touched (unref [q] ?P) qs = touched ?P qs"
        using gone_cong [of qs "unref [q] ?P" ?P] by auto
    qed
    have gs: "q \<notin> set (touched ?P qs)" "q \<notin> set (gone ?P qs)" using gone_subset [of ?P qs] q(3) by auto
    have e: "pbuf_free_loop cf p n s = pbuf_free_loop cf (pbuf_next (?P q)) (u8_t (n + 1)) ?s2"
      using q(1,2) s1 u d True by (subst pbuf_free_loop.simps) (simp add: Let_def)
    have c2: "pchain (pbufs ?s2) (pbuf_next (?P q)) qs" using q(4) pchain_cong [of qs "unref [q] ?P" ?P] by simp
    have ow: "pbuf_owned ?s2 ?L ?R x" if "x \<in> set (gone ?P qs)" for x
      using that Cons.prems(4) True gs by (intro pbuf_owned_after [of s]) auto
    have rf: "1 \<le> pbuf_ref (unref [q] ?P x) \<and> pbuf_ref (unref [q] ?P x) < 256" if "x \<in> set (touched ?P qs)" for x
      using that Cons.prems(3) True gs by (auto simp: unref_def)
    obtain M' h' where f: "pbuf_free_loop cf (pbuf_next (?P q)) (u8_t (n + 1)) ?s2 =
        Some (u8_t (u8_t (n + 1) + length (gone ?P qs)), ?s2\<lparr>pools := M', ram_heap := h', pbufs := unref (touched ?P qs) (unref [q] ?P)\<rparr>)"
      "buf_mem base (?s2\<lparr>pools := M', ram_heap := h', pbufs := unref (touched ?P qs) (unref [q] ?P)\<rparr>)
         (back_to (unref [q] ?P) (gone ?P qs) ?L) (heap_left (unref [q] ?P) (gone ?P qs) ?R)"
      using Cons.IH [OF c2 m2, of "u8_t (n + 1)"] ow rf g by (auto simp: Let_def u8_t_def)
    have un: "unref (touched ?P qs) (unref [q] ?P) = unref (q # touched ?P qs) ?P" using gs by (auto simp: unref_def fun_eq_iff)
    have bk: "back_to (unref [q] ?P) (gone ?P qs) ?L = back_to ?P (q # gone ?P qs) L"
      using back_to_cong [of "gone ?P qs" "unref [q] ?P" ?P] by simp
    have hl: "heap_left (unref [q] ?P) (gone ?P qs) ?R = heap_left ?P (q # gone ?P qs) R"
      using heap_left_cong [of "gone ?P qs" "unref [q] ?P" ?P] heap_left_cons [of ?P q "gone ?P qs"] by simp
    have "u8_t (u8_t (n + 1) + k) = u8_t (n + Suc k)" for k by (simp add: u8_t_def mod_simps)
    then show ?thesis using e f True unfolding un bk hl
      by (intro exI [of _ M'] exI [of _ h']) (simp add: Let_def buf_mem_def)
  qed
qed

end
