(* ===== verification/PbufAlloc.thy ===== *)
theory PbufAlloc
  imports PbufMem
begin

text \<open>
  Allocation of packet buffers: from the pool as a chain of buffers of fixed size, from the heap in one piece,
  or as a buffer that refers to data elsewhere.
\<close>

subsection \<open>Linking chains\<close>

text \<open>The total lengths of a chain that \<open>k\<close> more bytes are to follow.\<close>

fun tots_plus :: "(nat \<Rightarrow> pbuf) \<Rightarrow> nat list \<Rightarrow> nat \<Rightarrow> bool" where
  "tots_plus P [] k \<longleftrightarrow> True"
| "tots_plus P (q # qs) k \<longleftrightarrow> tot_len (P q) = chain_len P (q # qs) + k \<and> tots_plus P qs k"

lemma tots_plus_0: "tots_plus P qs 0 = tots_ok P qs"
  by (induction qs) auto

lemma tots_plus_snoc: "tots_plus P (qs @ [x]) k \<longleftrightarrow> tots_plus P qs (pbuf_len (P x) + k) \<and> tot_len (P x) = pbuf_len (P x) + k"
  by (induction qs) auto

lemma chain_len_cong: "(\<And>q. q \<in> set qs \<Longrightarrow> pbuf_len (P' q) = pbuf_len (P q)) \<Longrightarrow> chain_len P' qs = chain_len P qs"
  by (induction qs) auto

lemma tots_plus_cong:
  "(\<And>q. q \<in> set qs \<Longrightarrow> pbuf_len (P' q) = pbuf_len (P q) \<and> tot_len (P' q) = tot_len (P q)) \<Longrightarrow> tots_plus P' qs k = tots_plus P qs k"
proof (induction qs)
  case (Cons q qs)
  then have "chain_len P' qs = chain_len P qs" "tots_plus P' qs k = tots_plus P qs k" by (auto intro: chain_len_cong)
  then show ?case using Cons.prems [of q] by simp
qed simp

lemma pchain_append:
  assumes "pchain P p hs" "hs \<noteq> []" "pbuf_next (P' (last hs)) = t" "\<And>q. q \<in> set (butlast hs) \<Longrightarrow> pbuf_next (P' q) = pbuf_next (P q)"
    "pchain P' t ts" "set hs \<inter> set ts = {}"
  shows "pchain P' p (hs @ ts)"
  using assms
proof (induction hs arbitrary: p)
  case (Cons q qs)
  show ?case
  proof (cases "qs = []")
    case False
    have "pchain P' (pbuf_next (P q)) (qs @ ts)" using Cons.prems False by (intro Cons.IH) (auto split: if_splits)
    then show ?thesis using Cons.prems False by auto
  qed (use Cons.prems in auto)
qed simp

subsection \<open>The loop over the pool\<close>

text \<open>A fresh buffer of the pool, and the room in front of and behind its data.\<close>

definition fresh :: "(nat \<Rightarrow> pbuf) \<Rightarrow> nat \<Rightarrow> bool" where
  "fresh P q \<longleftrightarrow> pbuf_ref (P q) = 1 \<and> type_internal (P q) = type_bits PBUF_POOL \<and> pbuf_flags (P q) = 0"

definition room :: "(nat \<Rightarrow> pbuf) \<Rightarrow> nat \<Rightarrow> nat \<Rightarrow> nat \<Rightarrow> bool" where
  "room P off sz q \<longleftrightarrow> q + SIZEOF_STRUCT_PBUF + off \<le> payload (P q) \<and> payload (P q) + pbuf_len (P q) \<le> q + SIZEOF_STRUCT_PBUF + sz"

definition nbufs :: "nat \<Rightarrow> nat \<Rightarrow> nat" where
  "nbufs len off = 1 + (len - (PBUF_POOL_BUFSIZE_ALIGNED - LWIP_MEM_ALIGN_SIZE off) + (PBUF_POOL_BUFSIZE_ALIGNED - 1)) div PBUF_POOL_BUFSIZE_ALIGNED"

lemma fresh_src [simp]: "fresh P q \<Longrightarrow> pbuf_get_allocsrc (P q) = 2" "fresh P q \<Longrightarrow> \<not> is_custom (P q)"
  by (simp_all add: fresh_def pbuf_get_allocsrc_def is_custom_def PBUF_TYPE_ALLOC_SRC_MASK_def)

lemma fresh_cong: "P' q = P q \<or> P' q = (P q)\<lparr>pbuf_next := x\<rparr> \<Longrightarrow> fresh P' q = fresh P q"
  by (auto simp: fresh_def)

definition pool_buf :: "nat \<Rightarrow> nat \<Rightarrow> nat \<Rightarrow> pbuf" where
  "pool_buf q rem_len offset =
     \<lparr>pbuf_next = 0, payload = LWIP_MEM_ALIGN (q + SIZEOF_STRUCT_PBUF + offset), tot_len = rem_len,
      pbuf_len = min rem_len (u16_t (PBUF_POOL_BUFSIZE_ALIGNED + 2 ^ 16 - LWIP_MEM_ALIGN_SIZE offset)),
      type_internal = type_bits PBUF_POOL, pbuf_flags = 0, pbuf_ref = 1, if_idx = NETIF_NO_INDEX\<rparr>"

definition link_last :: "nat \<Rightarrow> nat \<Rightarrow> (nat \<Rightarrow> pbuf) \<Rightarrow> nat \<Rightarrow> pbuf" where
  "link_last lst q P = (if lst = 0 then P else P(lst := (P lst)\<lparr>pbuf_next := q\<rparr>))"

lemma align_ge: "off \<le> LWIP_MEM_ALIGN_SIZE off" "off \<le> 1528 \<Longrightarrow> LWIP_MEM_ALIGN_SIZE off \<le> 1528"
  by (auto simp: LWIP_MEM_ALIGN_SIZE_def MEM_ALIGNMENT_def)

lemma align_size:
  assumes "off \<le> 1528"
  shows "u16_t (PBUF_POOL_BUFSIZE_ALIGNED + 2 ^ 16 - LWIP_MEM_ALIGN_SIZE off) = PBUF_POOL_BUFSIZE_ALIGNED - LWIP_MEM_ALIGN_SIZE off"
proof -
  have "PBUF_POOL_BUFSIZE_ALIGNED + 2 ^ 16 - LWIP_MEM_ALIGN_SIZE off = 2 ^ 16 + (PBUF_POOL_BUFSIZE_ALIGNED - LWIP_MEM_ALIGN_SIZE off)"
    using align_ge(2) [OF assms] by (simp add: PBUF_POOL_BUFSIZE_ALIGNED_def)
  moreover have "u16_t (2 ^ 16 + x) = x" if "x < 2 ^ 16" for x using that by (simp add: u16_t_def)
  moreover have "PBUF_POOL_BUFSIZE_ALIGNED - LWIP_MEM_ALIGN_SIZE off < 2 ^ 16" by (simp add: PBUF_POOL_BUFSIZE_ALIGNED_def)
  ultimately show ?thesis by metis
qed

lemma align_addr:
  assumes "4 dvd q" shows "LWIP_MEM_ALIGN (q + SIZEOF_STRUCT_PBUF + off) = q + SIZEOF_STRUCT_PBUF + LWIP_MEM_ALIGN_SIZE off"
proof -
  obtain k where "q = 4 * k" using assms by (elim dvdE)
  then have "q + SIZEOF_STRUCT_PBUF + off + MEM_ALIGNMENT - 1 = (off + MEM_ALIGNMENT - 1) + (k + 4) * MEM_ALIGNMENT" "q + SIZEOF_STRUCT_PBUF = (k + 4) * 4"
    by (simp_all add: SIZEOF_STRUCT_PBUF_def MEM_ALIGNMENT_def)
  moreover have "(off + MEM_ALIGNMENT - 1 + (k + 4) * MEM_ALIGNMENT) div MEM_ALIGNMENT = k + 4 + (off + MEM_ALIGNMENT - 1) div MEM_ALIGNMENT"
    by (rule div_mult_self1) (simp add: MEM_ALIGNMENT_def)
  ultimately show ?thesis by (simp only: LWIP_MEM_ALIGN_def LWIP_MEM_ALIGN_SIZE_def) (simp add: MEM_ALIGNMENT_def)
qed

lemma pool_buf_room:
  assumes "4 dvd q" "off \<le> 1528" "P q = pool_buf q n off"
  shows "room P off PBUF_POOL_BUFSIZE_ALIGNED q"
proof -
  have "LWIP_MEM_ALIGN_SIZE off \<le> PBUF_POOL_BUFSIZE_ALIGNED" using align_ge(2) [OF assms(2)] by (simp add: PBUF_POOL_BUFSIZE_ALIGNED_def)
  then show ?thesis unfolding room_def assms(3) pool_buf_def align_size [OF assms(2)] align_addr [OF assms(1)] using align_ge(1) [of off] by simp
qed

lemma nbufs_rec:
  "nbufs len off = (if len > PBUF_POOL_BUFSIZE_ALIGNED - LWIP_MEM_ALIGN_SIZE off
     then Suc (nbufs (len - (PBUF_POOL_BUFSIZE_ALIGNED - LWIP_MEM_ALIGN_SIZE off)) 0) else 1)"
proof -
  have "Suc ((r - 1528 + 1527) div 1528) = (r + 1527) div 1528" if "0 < r" for r :: nat
    using that by (cases "r \<le> 1528") (auto simp: div_if [of "r + 1527"] not_le)
  then have "1 + (len - k + 1527) div 1528 = (if len > k then Suc (1 + (len - k - 1528 + 1527) div 1528) else 1)" for k
    by (cases "len > k") (metis zero_less_diff plus_1_eq_Suc, simp)
  moreover have "LWIP_MEM_ALIGN_SIZE 0 = 0" by (simp add: LWIP_MEM_ALIGN_SIZE_def MEM_ALIGNMENT_def)
  ultimately show ?thesis by (simp only: nbufs_def PBUF_POOL_BUFSIZE_ALIGNED_def) simp
qed

text \<open>The chain while it is being built: \<open>lst\<close> is its last buffer and \<open>n\<close> bytes are missing.\<close>

definition building :: "(nat \<Rightarrow> pbuf) \<Rightarrow> nat \<Rightarrow> nat \<Rightarrow> nat list \<Rightarrow> nat \<Rightarrow> bool" where
  "building P p lst hs n \<longleftrightarrow> pchain P p hs \<and> lst = (if hs = [] then 0 else last hs) \<and> tots_plus P hs n \<and> (\<forall>q \<in> set hs. fresh P q)"

lemma building_0: "building P p lst hs n \<Longrightarrow> (p = 0 \<longleftrightarrow> hs = []) \<and> (lst = 0 \<longleftrightarrow> hs = [])"
proof -
  assume b: "building P p lst hs n"
  then have "0 \<notin> set hs" using pchain_distinct [of P p hs] by (simp add: building_def)
  then have "hs \<noteq> [] \<Longrightarrow> last hs \<noteq> 0" using last_in_set [of hs] by (intro notI) simp
  then show ?thesis using b by (cases hs) (auto simp: building_def)
qed

abbreviation add_buf :: "nat \<Rightarrow> nat \<Rightarrow> nat \<Rightarrow> nat \<Rightarrow> (nat \<Rightarrow> pbuf) \<Rightarrow> nat \<Rightarrow> pbuf" where
  "add_buf lst x n off P \<equiv> link_last lst x (P(x := pool_buf x n off))"

lemma add_buf_simps:
  assumes "lst \<noteq> x" shows "add_buf lst x n off P x = pool_buf x n off"
    and "q \<noteq> x \<Longrightarrow> add_buf lst x n off P q = (if q = lst \<and> lst \<noteq> 0 then (P q)\<lparr>pbuf_next := x\<rparr> else P q)"
  using assms by (auto simp: link_last_def)

lemma building_snoc:
  assumes b: "building P p lst hs n" and x: "x \<notin> set hs" "x \<noteq> 0"
  shows "building (add_buf lst x n off P) (if p = 0 then x else p) x (hs @ [x]) (n - pbuf_len (pool_buf x n off))"
proof -
  let ?P = "add_buf lst x n off P"
  have c: "pchain P p hs" "tots_plus P hs n" "\<forall>q \<in> set hs. fresh P q" using b by (auto simp: building_def)
  have l: "lst = (if hs = [] then 0 else last hs)" using b by (simp add: building_def)
  have lx: "lst \<noteq> x" using l x last_in_set [of hs] by auto
  have same: "payload (?P q) = payload (P q)" "pbuf_len (?P q) = pbuf_len (P q)" "tot_len (?P q) = tot_len (P q)" "fresh ?P q = fresh P q" if "q \<in> set hs" for q
  proof -
    have "q \<noteq> x" using that x by auto
    then have "?P q = P q \<or> ?P q = (P q)\<lparr>pbuf_next := x\<rparr>" using add_buf_simps(2) [OF lx, of q P n off] that x by (cases "q = lst \<and> lst \<noteq> 0") auto
    then show "payload (?P q) = payload (P q)" "pbuf_len (?P q) = pbuf_len (P q)" "tot_len (?P q) = tot_len (P q)" "fresh ?P q = fresh P q"
      by (auto simp: fresh_def)
  qed
  have xx: "?P x = pool_buf x n off" by (rule add_buf_simps(1) [OF lx])
  have fx: "fresh ?P x" unfolding fresh_def xx by (simp add: pool_buf_def)
  have px: "pchain ?P x [x]" using x xx by (simp add: pool_buf_def)
  have ch: "pchain ?P (if p = 0 then x else p) (hs @ [x])"
  proof (cases "hs = []")
    case False
    then have p0: "p \<noteq> 0" using building_0 [OF b] by simp
    have "distinct hs" using pchain_distinct [OF c(1)] by simp
    then have "last hs \<notin> set (butlast hs)" using False by (metis append_butlast_last_id distinct_butlast not_distinct_conv_prefix)
    have "pchain ?P p (hs @ [x])"
    proof (rule pchain_append [OF c(1) False _ _ px])
      show "pbuf_next (?P (last hs)) = x" using False l x last_in_set [OF False] building_0 [OF b] by (auto simp: link_last_def)
      show "pbuf_next (?P q) = pbuf_next (P q)" if "q \<in> set (butlast hs)" for q
        using that \<open>last hs \<notin> set (butlast hs)\<close> l False x in_set_butlastD [OF that] by (auto simp: link_last_def)
    qed (use x in simp)
    then show ?thesis using p0 by simp
  qed (use px building_0 [OF b] in simp)
  have le: "pbuf_len (pool_buf x n off) \<le> n" by (simp add: pool_buf_def)
  then have "tots_plus ?P (hs @ [x]) (n - pbuf_len (pool_buf x n off))"
    unfolding tots_plus_snoc xx using c(2) tots_plus_cong [of hs ?P P] same by (auto simp: pool_buf_def)
  then show ?thesis using ch same c(3) fx unfolding building_def by auto
qed

lemma alloc_pool_step:
  assumes "memp_malloc MEMP_PBUF_POOL (pools s) = (x, M)" "x \<noteq> 0" "p = 0 \<longleftrightarrow> lst = 0"
  shows "alloc_pool cf g p lst n off s =
    (let s1 = s\<lparr>pools := M, pbufs := add_buf lst x n off (pbufs s)\<rparr>; r = n - pbuf_len (pool_buf x n off); p' = if p = 0 then x else p
     in if r > 0 then alloc_pool cf g p' x r 0 s1 else Some (p', s1))"
  using assms
  by (subst alloc_pool.simps) (simp add: pool_malloc_def pbuf_init_alloced_pbuf_def upd_pbuf_def pool_buf_def link_last_def Let_def)

lemma pool_len: "off \<le> 1528 \<Longrightarrow> pbuf_len (pool_buf x n off) = min n (PBUF_POOL_BUFSIZE_ALIGNED - LWIP_MEM_ALIGN_SIZE off)"
  by (simp only: pool_buf_def align_size pbuf.simps)

text \<open>Enough free buffers: the chain consists of the first ones of the free list.\<close>

lemma alloc_pool_ok:
  assumes "building (pbufs s) p lst hs n" "buf_mem base s L R" "L MEMP_PBUF_POOL = xs" "\<forall>q \<in> set xs. 4 dvd q" "set hs \<inter> set xs = {}" "off \<le> 1524"
    "nbufs n off \<le> length xs"
  shows "\<exists>M P'. let ys = take (nbufs n off) xs; r = if p = 0 then hd xs else p; s' = s\<lparr>pools := M, pbufs := P'\<rparr>
    in alloc_pool cf g p lst n off s = Some (r, s') \<and> buf_mem base s' (L(MEMP_PBUF_POOL := drop (nbufs n off) xs)) R \<and>
      building P' r (last ys) (hs @ ys) 0 \<and> chain_len P' ys = n \<and> room P' off PBUF_POOL_BUFSIZE_ALIGNED (hd ys) \<and> (\<forall>q \<in> set ys. room P' 0 PBUF_POOL_BUFSIZE_ALIGNED q) \<and>
      (\<forall>q. q \<notin> set ys \<longrightarrow> P' q = pbufs s q \<or> q = lst \<and> lst \<noteq> 0 \<and> P' q = (pbufs s q)\<lparr>pbuf_next := hd ys\<rparr>)"
  using assms
proof (induction xs arbitrary: s p lst hs n L off)
  case Nil
  then show ?case by (simp add: nbufs_def)
next
  case (Cons x xs)
  have "pools_ok (pools s) L" using Cons.prems(2) by (simp add: buf_mem_def)
  from pools_malloc_some [OF this Cons.prems(3)] obtain M where
    m: "memp_malloc MEMP_PBUF_POOL (pools s) = (x, M)" "x \<noteq> 0" "pools_ok M (L(MEMP_PBUF_POOL := xs))" "\<forall>u. x \<notin> set ((L(MEMP_PBUF_POOL := xs)) u)"
    by (elim exE conjE) (rule that)
  have xn: "x \<notin> set hs" "x \<notin> set xs" using Cons.prems(5) m(4) [rule_format, of MEMP_PBUF_POOL] by auto
  have off: "off \<le> 1528" using Cons.prems(6) by simp
  let ?P = "add_buf lst x n off (pbufs s)" and ?k = "pbuf_len (pool_buf x n off)"
  let ?s = "s\<lparr>pools := M, pbufs := ?P\<rparr>" and ?p = "if p = 0 then x else p"
  have pl: "p = 0 \<longleftrightarrow> lst = 0" using building_0 [OF Cons.prems(1)] by simp
  have lx: "lst \<noteq> x" using Cons.prems(1) xn(1) m(2) last_in_set [of hs] by (auto simp: building_def split: if_splits)
  have b: "building ?P ?p x (hs @ [x]) (n - ?k)" by (rule building_snoc [OF Cons.prems(1) xn(1) m(2)])
  have bm: "buf_mem base ?s (L(MEMP_PBUF_POOL := xs)) R" using m(3) Cons.prems(2) by (simp add: buf_mem_def)
  have px: "?P x = pool_buf x n off" by (rule add_buf_simps(1) [OF lx])
  have rx: "room ?P off PBUF_POOL_BUFSIZE_ALIGNED x" using pool_buf_room [of x off ?P n] off px Cons.prems(4) by simp
  have other: "?P q = pbufs s q \<or> q = lst \<and> lst \<noteq> 0 \<and> ?P q = (pbufs s q)\<lparr>pbuf_next := x\<rparr>" if "q \<noteq> x" for q
    using add_buf_simps(2) [OF lx that, of "pbufs s" n off] by (cases "q = lst \<and> lst \<noteq> 0") simp_all
  note step = alloc_pool_step [OF m(1,2) pl, of cf g n off]
  show ?case
  proof (cases "n > PBUF_POOL_BUFSIZE_ALIGNED - LWIP_MEM_ALIGN_SIZE off")
    case False
    then have k: "?k = n" "nbufs n off = 1" using pool_len [OF off, of x n] nbufs_rec [of n off] by simp_all
    have r0: "room ?P 0 PBUF_POOL_BUFSIZE_ALIGNED x" using rx by (auto simp: room_def)
    have e: "take (nbufs n off) (x # xs) = [x]" "drop (nbufs n off) (x # xs) = xs" "n - ?k = 0" using k by simp_all
    show ?thesis unfolding e Let_def
      by (intro exI [of _ M] exI [of _ ?P] conjI) (use step b bm px rx r0 other e(3) k(1) in \<open>simp_all add: Let_def split: if_split_asm\<close>)
  next
    case True
    define r where "r = n - ?k"
    have k: "0 < r" "nbufs n off = Suc (nbufs r 0)" using pool_len [OF off, of x n] nbufs_rec [of n off] True by (simp_all add: r_def)
    let ?ys = "take (nbufs r 0) xs"
    have ne: "xs \<noteq> []" "?ys \<noteq> []" using Cons.prems(7) k by (auto simp: nbufs_def)
    have hd: "hd ?ys = hd xs" using ne by (cases xs) (auto simp: nbufs_def)
    have p0: "\<not> ?p = 0" using m(2) by simp
    obtain M' P' where f: "alloc_pool cf g ?p x r 0 ?s = Some (?p, ?s\<lparr>pools := M', pbufs := P'\<rparr>)"
      "buf_mem base (?s\<lparr>pools := M', pbufs := P'\<rparr>) (L(MEMP_PBUF_POOL := drop (nbufs r 0) xs)) R"
      "building P' ?p (last ?ys) ((hs @ [x]) @ ?ys) 0" "chain_len P' ?ys = r" "\<forall>q \<in> set ?ys. room P' 0 PBUF_POOL_BUFSIZE_ALIGNED q"
      "\<forall>q. q \<notin> set ?ys \<longrightarrow> P' q = ?P q \<or> q = x \<and> x \<noteq> 0 \<and> P' q = (?P q)\<lparr>pbuf_next := hd ?ys\<rparr>"
    proof -
      have ps: "pbufs ?s = ?P" by simp
      have 1: "building (pbufs ?s) ?p x (hs @ [x]) r" using b by (simp add: r_def)
      have 2: "(L(MEMP_PBUF_POOL := xs)) MEMP_PBUF_POOL = xs" "\<forall>q \<in> set xs. 4 dvd q" "set (hs @ [x]) \<inter> set xs = {}" "nbufs r 0 \<le> length xs"
        using Cons.prems(4,5,7) xn k by auto
      note I = Cons.IH [OF 1 bm 2(1-3) le0 2(4), unfolded Let_def if_not_P [OF p0] fun_upd_upd ps]
      then show thesis by (elim exE conjE) (rule that)
    qed
    have xy: "x \<notin> set ?ys" using xn(2) set_take_subset [of "nbufs r 0" xs] by auto
    then have P'x: "P' x = (?P x)\<lparr>pbuf_next := hd ?ys\<rparr> \<or> P' x = ?P x" using f(6) by auto
    then have "pbuf_len (P' x) = ?k" "room P' off PBUF_POOL_BUFSIZE_ALIGNED x" using px rx by (auto simp: room_def)
    moreover from this have "room P' 0 PBUF_POOL_BUFSIZE_ALIGNED x" by (simp add: room_def)
    moreover have "?k \<le> n" by (simp add: pool_buf_def)
    moreover have "P' q = pbufs s q \<or> q = lst \<and> lst \<noteq> 0 \<and> P' q = (pbufs s q)\<lparr>pbuf_next := x\<rparr>" if "q \<notin> set (x # ?ys)" for q
      using f(6) that other [of q] by auto
    moreover have e: "take (nbufs n off) (x # xs) = x # ?ys" "drop (nbufs n off) (x # xs) = drop (nbufs r 0) xs" "last (x # ?ys) = last ?ys"
      using k ne by simp_all
    ultimately show ?thesis unfolding e Let_def using step f k(1) p0
      by (intro exI [of _ M'] exI [of _ P'] conjI) (simp_all add: Let_def r_def [symmetric], simp_all add: r_def split: if_split_asm)
  qed
qed

text \<open>Too few: every buffer taken goes back, and the thread is asked to free what it can spare.\<close>

lemma pool_is_empty_frame:
  assumes ok: "pools_ok (pools s) L"
  shows "\<exists>L' q M m b. pbuf_pool_is_empty g s = s\<lparr>os := q, pools := M, msgs := m, pbuf_free_ooseq_pending := b\<rparr> \<and> pools_ok M L' \<and>
    (\<forall>t. t \<noteq> MEMP_TCPIP_MSG_API \<longrightarrow> L' t = L t) \<and> (\<forall>t. set (L' t) \<subseteq> set (L t))"
proof (cases "pbuf_free_ooseq_pending s")
  case True
  then have "pbuf_pool_is_empty g s = s\<lparr>os := os s, pools := pools s, msgs := msgs s, pbuf_free_ooseq_pending := True\<rparr>"
    by (simp add: pbuf_pool_is_empty_def)
  then show ?thesis using ok by blast
next
  case False
  let ?s = "s\<lparr>pbuf_free_ooseq_pending := True\<rparr>"
  obtain e s' where t: "tcpip_try_callback g PBUF_FREE_OOSEQ_CALLBACK 0 ?s = (e, s')" by fastforce
  obtain L' where l: "pools_ok (pools s') L'" "\<forall>t. t \<noteq> MEMP_TCPIP_MSG_API \<longrightarrow> L' t = L t" "\<forall>t. set (L' t) \<subseteq> set (L t)"
    and f: "s' = ?s\<lparr>os := os s', pools := pools s', msgs := msgs s'\<rparr>" using try_callback_pools [OF _ t, of L] ok by auto
  have "pbuf_pool_is_empty g s = (if e \<noteq> ERR_OK then s'\<lparr>pbuf_free_ooseq_pending := False\<rparr> else s')"
    using False t by (simp add: pbuf_pool_is_empty_def)
  also have "\<dots> = s\<lparr>os := os s', pools := pools s', msgs := msgs s', pbuf_free_ooseq_pending := (e = ERR_OK)\<rparr>"
    by (subst (1 2) f) simp
  finally show ?thesis using l by blast
qed

lemma fresh_gone: "\<forall>q \<in> set hs. fresh P q \<Longrightarrow> gone P hs = hs \<and> touched P hs = hs"
  by (induction hs) (auto simp: fresh_def)

lemma alloc_pool_fail:
  assumes "building (pbufs s) p lst hs n" "buf_mem base s L R" "L MEMP_PBUF_POOL = xs" "\<forall>q \<in> set hs. \<forall>t. q \<notin> set (L t)" "off \<le> 1524"
    "length xs < nbufs n off"
  shows "\<exists>s' L'. alloc_pool cf g p lst n off s = Some (0, s') \<and> buf_mem base s' L' R \<and> set (L' MEMP_PBUF_POOL) = set hs \<union> set xs \<and>
    (\<forall>t. t \<noteq> MEMP_PBUF_POOL \<and> t \<noteq> MEMP_TCPIP_MSG_API \<longrightarrow> L' t = L t) \<and> set (L' MEMP_TCPIP_MSG_API) \<subseteq> set (L MEMP_TCPIP_MSG_API) \<and>
    lmem s' = lmem s \<and> (\<forall>q. q \<notin> set hs \<union> set xs \<longrightarrow> pbufs s' q = pbufs s q)"
  using assms
proof (induction xs arbitrary: s p lst hs n L off)
  case Nil
  have ok: "pools_ok (pools s) L" "lwip_rep base (ram_heap s) R" using Nil.prems(2) by (simp_all add: buf_mem_def)
  obtain L' q M m b where e: "pbuf_pool_is_empty g s = s\<lparr>os := q, pools := M, msgs := m, pbuf_free_ooseq_pending := b\<rparr>" "pools_ok M L'"
    and l: "\<forall>t. t \<noteq> MEMP_TCPIP_MSG_API \<longrightarrow> L' t = L t" "\<forall>t. set (L' t) \<subseteq> set (L t)" using pool_is_empty_frame [OF ok(1), of g] by blast
  let ?s = "s\<lparr>os := q, pools := M, msgs := m, pbuf_free_ooseq_pending := b\<rparr>"
  have st: "alloc_pool cf g p lst n off s = (if p \<noteq> 0 then map_option (\<lambda>(_, s). (0, s)) (pbuf_free cf p ?s) else Some (0, ?s))"
    using pools_malloc_none [OF ok(1) Nil.prems(3)] e(1) by (subst alloc_pool.simps) (simp add: pool_malloc_def Let_def)
  have bm: "buf_mem base ?s L' R" using e(2) ok(2) by (simp add: buf_mem_def)
  have L'0: "L' MEMP_PBUF_POOL = []" using l(1) Nil.prems(3) by simp
  show ?case
  proof (cases "p = 0")
    case True
    then have "hs = []" using building_0 [OF Nil.prems(1)] by simp
    then show ?thesis using st bm l L'0 True by (intro exI [of _ ?s] exI [of _ L']) simp
  next
    case False
    have c: "pchain (pbufs s) p hs" "\<forall>q \<in> set hs. fresh (pbufs s) q" using Nil.prems(1) by (auto simp: building_def)
    note gn = fresh_gone [OF c(2)]
    have "pbuf_owned ?s L' R q" if q: "q \<in> set hs" for q
    proof -
      have "q \<noteq> 0" using q pchain_distinct [OF c(1)] by metis
      moreover have "q \<notin> set (L' t)" for t using q Nil.prems(4) l(2) by blast
      ultimately show ?thesis using q c(2) by (simp add: pbuf_owned_def)
    qed
    then have ow: "\<forall>q \<in> set (gone (pbufs ?s) hs). pbuf_owned ?s L' R q" using gn by simp
    have rf: "\<forall>q \<in> set (touched (pbufs ?s) hs). 1 \<le> pbuf_ref (pbufs ?s q) \<and> pbuf_ref (pbufs ?s q) < 256"
      using gn c(2) by (simp add: fresh_def)
    have ch: "pchain (pbufs ?s) p hs" using c(1) by simp
    obtain M' h where f: "pbuf_free_loop cf p 0 ?s = Some (u8_t (length hs), ?s\<lparr>pools := M', ram_heap := h, pbufs := unref hs (pbufs s)\<rparr>)"
      "buf_mem base (?s\<lparr>pools := M', ram_heap := h, pbufs := unref hs (pbufs s)\<rparr>) (back_to (pbufs s) hs L') (heap_left (pbufs s) hs R)"
      using free_loop_spec [OF ch bm rf ow, of 0 cf] gn by (auto simp: Let_def)
    have hl: "heap_left (pbufs s) hs R = R" using c(2) by (force simp: heap_left_def)
    have bs: "set (back_to (pbufs s) hs L' MEMP_PBUF_POOL) = set hs" using c(2) L'0 by (auto simp: set_back_to)
    have bo: "back_to (pbufs s) hs L' t = L' t" if "t \<noteq> MEMP_PBUF_POOL" for t
      using c(2) that by (induction hs arbitrary: L') auto
    show ?thesis using st f False hl bs bo l
      by (intro exI [of _ "?s\<lparr>pools := M', ram_heap := h, pbufs := unref hs (pbufs s)\<rparr>"] exI [of _ "back_to (pbufs s) hs L'"])
        (auto simp: pbuf_free_def)
  qed
next
  case (Cons x xs)
  have "pools_ok (pools s) L" using Cons.prems(2) by (simp add: buf_mem_def)
  from pools_malloc_some [OF this Cons.prems(3)] obtain M where
    m: "memp_malloc MEMP_PBUF_POOL (pools s) = (x, M)" "x \<noteq> 0" "pools_ok M (L(MEMP_PBUF_POOL := xs))" "\<forall>u. x \<notin> set ((L(MEMP_PBUF_POOL := xs)) u)"
    by (elim exE conjE) (rule that)
  have xn: "x \<notin> set hs" using Cons.prems(3,4) by (metis list.set_intros(1))
  let ?P = "add_buf lst x n off (pbufs s)" and ?k = "pbuf_len (pool_buf x n off)" and ?L = "L(MEMP_PBUF_POOL := xs)"
  let ?s = "s\<lparr>pools := M, pbufs := ?P\<rparr>" and ?p = "if p = 0 then x else p"
  have pl: "p = 0 \<longleftrightarrow> lst = 0" using building_0 [OF Cons.prems(1)] by simp
  have ll: "lst \<noteq> x \<and> (lst \<noteq> 0 \<longrightarrow> lst \<in> set hs)" using Cons.prems(1) xn m(2) last_in_set [of hs] by (auto simp: building_def split: if_splits)
  have off: "off \<le> 1528" using Cons.prems(5) by simp
  have "PBUF_POOL_BUFSIZE_ALIGNED - LWIP_MEM_ALIGN_SIZE off < n"
    using Cons.prems(6) nbufs_rec [of n off] by (cases "PBUF_POOL_BUFSIZE_ALIGNED - LWIP_MEM_ALIGN_SIZE off < n") simp_all
  then have k: "0 < n - ?k" "nbufs n off = Suc (nbufs (n - ?k) 0)" using pool_len [OF off, of x n] nbufs_rec [of n off] by simp_all
  have 1: "building (pbufs ?s) ?p x (hs @ [x]) (n - ?k)" using building_snoc [OF Cons.prems(1) xn m(2)] by simp
  have 2: "buf_mem base ?s ?L R" using m(3) Cons.prems(2) by (simp add: buf_mem_def)
  have 3: "?L MEMP_PBUF_POOL = xs" by simp
  have "q \<notin> set (?L t)" if "q \<in> set hs" for q t
    using Cons.prems(4) [rule_format, OF that, of t] Cons.prems(4) [rule_format, OF that, of MEMP_PBUF_POOL] Cons.prems(3) by auto
  then have 4: "\<forall>q \<in> set (hs @ [x]). \<forall>t. q \<notin> set (?L t)" using m(4) by auto
  have 5: "length xs < nbufs (n - ?k) 0" using Cons.prems(6) k(2) by simp
  have other: "?P q = pbufs s q" if "q \<notin> set hs" "q \<noteq> x" for q using add_buf_simps(2) [OF _ that(2)] ll that by auto
  obtain s' L' where r: "alloc_pool cf g ?p x (n - ?k) 0 ?s = Some (0, s')" "buf_mem base s' L' R" "set (L' MEMP_PBUF_POOL) = set (hs @ [x]) \<union> set xs"
    "\<forall>t. t \<noteq> MEMP_PBUF_POOL \<and> t \<noteq> MEMP_TCPIP_MSG_API \<longrightarrow> L' t = ?L t" "set (L' MEMP_TCPIP_MSG_API) \<subseteq> set (?L MEMP_TCPIP_MSG_API)"
    "lmem s' = lmem ?s" "\<forall>q. q \<notin> set (hs @ [x]) \<union> set xs \<longrightarrow> pbufs s' q = pbufs ?s q"
    using Cons.IH [OF 1 2 3 4 le0 5] by (elim exE conjE) (rule that)
  show ?case using alloc_pool_step [OF m(1,2) pl, of cf g n off] k r other
    by (intro exI [of _ s'] exI [of _ L']) (auto simp: Let_def)
qed

subsection \<open>All sources\<close>

text \<open>A packet of \<open>len\<close> bytes was made: its buffers are in use with one reference each, and giving them back
  would restore the pools and the heap. No other buffer and no data changed.\<close>

definition allocated :: "nat \<Rightarrow> lwip \<Rightarrow> (memp_t \<Rightarrow> nat list) \<Rightarrow> (nat \<times> nat) set \<Rightarrow> nat \<Rightarrow> nat list \<Rightarrow> nat \<Rightarrow> lwip \<Rightarrow> (memp_t \<Rightarrow> nat list) \<Rightarrow> (nat \<times> nat) set \<Rightarrow> bool" where
  "allocated base s L R p qs len s' L' R' \<longleftrightarrow> packet (pbufs s') p qs \<and> chain_len (pbufs s') qs = len \<and> buf_mem base s' L' R' \<and>
     (\<forall>q \<in> set qs. pbuf_owned s' L' R' q \<and> pbuf_ref (pbufs s' q) = 1) \<and>
     (\<forall>t. set (back_to (pbufs s') qs L' t) = set (L t)) \<and> heap_left (pbufs s') qs R' = R \<and>
     (\<forall>q. q \<notin> set qs \<longrightarrow> pbufs s' q = pbufs s q) \<and> lmem s' = lmem s"

lemma layer_le: "layer_offset layer \<le> 54"
  by (cases layer) auto

lemma pool_alloc_ok:
  assumes bm: "buf_mem base s L R" and al: "\<forall>q \<in> set (L MEMP_PBUF_POOL). 4 dvd q" and len: "len < 2 ^ 16"
    and n: "nbufs len (layer_offset layer) \<le> length (L MEMP_PBUF_POOL)"
  defines "qs \<equiv> take (nbufs len (layer_offset layer)) (L MEMP_PBUF_POOL)" and "L' \<equiv> L(MEMP_PBUF_POOL := drop (nbufs len (layer_offset layer)) (L MEMP_PBUF_POOL))"
  shows "\<exists>s'. pbuf_alloc cf g layer len PBUF_POOL s = Some (hd qs, s') \<and> allocated base s L R (hd qs) qs len s' L' R \<and>
    room (pbufs s') (layer_offset layer) PBUF_POOL_BUFSIZE_ALIGNED (hd qs) \<and> (\<forall>q \<in> set qs. room (pbufs s') 0 PBUF_POOL_BUFSIZE_ALIGNED q)"
proof -
  have off: "layer_offset layer \<le> 1524" using layer_le [of layer] by simp
  have b0: "building (pbufs s) 0 0 [] len" by (simp add: building_def)
  note ok = pools_ok_sound [of "pools s" L MEMP_PBUF_POOL]
  have pk: "pools_ok (pools s) L" using bm by (simp add: buf_mem_def)
  have hd: "hd qs = hd (L MEMP_PBUF_POOL)" using n unfolding qs_def by (cases "L MEMP_PBUF_POOL") (auto simp: nbufs_def)
  obtain M P' where a: "alloc_pool cf g 0 0 len (layer_offset layer) s = Some (hd qs, s\<lparr>pools := M, pbufs := P'\<rparr>)"
    "buf_mem base (s\<lparr>pools := M, pbufs := P'\<rparr>) L' R" "building P' (hd qs) (last qs) qs 0" "chain_len P' qs = len"
    "room P' (layer_offset layer) PBUF_POOL_BUFSIZE_ALIGNED (hd qs)" "\<forall>q \<in> set qs. room P' 0 PBUF_POOL_BUFSIZE_ALIGNED q"
    "\<forall>q. q \<notin> set qs \<longrightarrow> P' q = pbufs s q"
    using alloc_pool_ok [OF b0 bm refl al _ off n, of cf g] hd unfolding qs_def L'_def by (auto simp: Let_def)
  let ?s = "s\<lparr>pools := M, pbufs := P'\<rparr>"
  have c: "pchain P' (hd qs) qs" "tots_ok P' qs" "\<forall>q \<in> set qs. fresh P' q" using a(3) by (auto simp: building_def tots_plus_0)
  have sub: "set qs \<subseteq> set (L MEMP_PBUF_POOL)" by (simp add: qs_def set_take_subset)
  have ni: "q \<notin> set (L' t)" if "q \<in> set qs" for q t
  proof (cases "t = MEMP_PBUF_POOL")
    case True
    have "set qs \<inter> set (drop (nbufs len (layer_offset layer)) (L MEMP_PBUF_POOL)) = {}"
      unfolding qs_def using ok [OF pk] by (intro set_take_disj_set_drop_if_distinct) auto
    then show ?thesis using True that unfolding L'_def by auto
  next
    case False
    then have "set (L t) \<inter> set (L MEMP_PBUF_POOL) = {}" using pk by (simp add: pools_ok_def)
    then show ?thesis using that sub False unfolding L'_def by auto
  qed
  have q0: "q \<noteq> 0" if "q \<in> set qs" for q using that pchain_distinct [OF c(1)] by metis
  have ow: "pbuf_owned ?s L' R q" if "q \<in> set qs" for q using that ni q0 c(3) by (simp add: pbuf_owned_def)
  have un: "set qs \<union> set (drop (nbufs len (layer_offset layer)) (L MEMP_PBUF_POOL)) = set (L MEMP_PBUF_POOL)"
    unfolding qs_def by (metis append_take_drop_id set_append)
  have st: "set (back_to P' qs L' t) = set (L t)" for t
  proof (cases "t = MEMP_PBUF_POOL")
    case True
    have "{q \<in> set qs. pbuf_get_allocsrc (P' q) = 2} = set qs" using c(3) by auto
    then show ?thesis using un True unfolding set_back_to by (simp add: L'_def Un_commute)
  qed (use c(3) in \<open>auto simp: set_back_to L'_def\<close>)
  have hl: "heap_left P' qs R = R" using c(3) by (force simp: heap_left_def)
  have "allocated base s L R (hd qs) qs len ?s L' R"
    using a c ow st hl len unfolding allocated_def packet_def by (auto simp: fresh_def)
  then show ?thesis using a by (intro exI [of _ ?s]) (simp add: pbuf_alloc_def)
qed

lemma lwip_rep_aligned:
  assumes "lwip_rep base h R" "(p, l) \<in> R" shows "4 dvd p"
proof -
  obtain bs ql where b: "mseg h 0 0 bs MEM_SIZE_ALIGNED ql" "R = (\<lambda>(p, n). (ram h + p, n)) ` live bs" "4 dvd ram h"
    using assms(1) by (auto simp: lwip_rep_def mheap_rel_def mheap_rel0_def)
  obtain a s where "(a, s, Alloc) \<in> set bs" "p = ram h + (a + 8)" using assms(2) b(2) by (auto simp: live_iff)
  then show ?thesis using mseg_aligned [OF b(1), of a s Alloc] b(3) by simp
qed

lemma lwip_rep_bounds:
  assumes "lwip_rep base h R" "(p, l) \<in> R" shows "base + 8 \<le> p \<and> p + l \<le> base + MEM_SIZE_ALIGNED \<and> 0 < l"
proof -
  obtain bs ql where b: "mseg h 0 0 bs MEM_SIZE_ALIGNED ql" "R = (\<lambda>(p, n). (base + p, n)) ` live bs"
    using assms(1) by (auto simp: lwip_rep_def mheap_rel_def mheap_rel0_def)
  obtain a s where "(a, s, Alloc) \<in> set bs" "p = base + (a + 8)" "l = s - 8" using assms(2) b(2) by (auto simp: live_iff)
  then show ?thesis using mseg_bound [OF b(1), of a s Alloc] by simp
qed

text \<open>The elements of the pools lie outside the array of the heap.\<close>

definition pools_apart :: "nat \<Rightarrow> (memp_t \<Rightarrow> nat list) \<Rightarrow> bool" where
  "pools_apart base L \<longleftrightarrow> (\<forall>t. \<forall>q \<in> set (L t). q < base \<or> base + MEM_SIZE_ALIGNED \<le> q)"

lemma alloc_len_exact:
  fixes a b :: nat assumes "a \<le> 60" "b \<le> 65536" "\<not> u16_t (a + b) < b" "\<not> u16_t (16 + u16_t (a + b)) < b"
  shows "u16_t (16 + u16_t (a + b)) = 16 + a + b"
proof -
  have w: "u16_t x = x - 65536" if "65536 \<le> x" "x < 131072" for x using that by (simp add: u16_t_def le_mod_geq)
  have v: "u16_t x = x" if "x < 65536" for x using that by (simp add: u16_t_def)
  have ab: "a + b < 65536" using assms(1-3) w [of "a + b"] by linarith
  moreover have "16 + (a + b) < 65536" using assms(1,4) ab w [of "16 + (a + b)"] unfolding v [OF ab] by linarith
  ultimately show ?thesis using v by simp
qed

lemma heap_alloc_spec:
  assumes bm: "buf_mem base s L R" and len: "len < 2 ^ 16" and ap: "pools_apart base L"
  shows "pbuf_alloc cf g layer len PBUF_RAM s = Some (0, s) \<or>
    (\<exists>p n s'. pbuf_alloc cf g layer len PBUF_RAM s = Some (p, s') \<and> p \<noteq> 0 \<and> allocated base s L R p [p] len s' L (insert (p, n) R) \<and>
       room (pbufs s') (layer_offset layer) (n - SIZEOF_STRUCT_PBUF) p \<and> (\<forall>x \<in> R. apart (p, n) x))"
proof -
  let ?a = "LWIP_MEM_ALIGN_SIZE (layer_offset layer)" and ?b = "LWIP_MEM_ALIGN_SIZE len"
  let ?pl = "u16_t (?a + ?b)"
  let ?al = "u16_t (SIZEOF_STRUCT_PBUF + ?pl)"
  have ab: "?a \<le> 60" "?b \<le> 65536" "len \<le> ?b" "layer_offset layer \<le> ?a"
    using layer_le [of layer] len align_ge(1) by (auto simp: LWIP_MEM_ALIGN_SIZE_def MEM_ALIGNMENT_def)
  have rep: "lwip_rep base (ram_heap s) R" "pools_ok (pools s) L" using bm by (simp_all add: buf_mem_def)
  show ?thesis
  proof (cases "?pl < ?b \<or> ?al < ?b \<or> mem_malloc ?al (ram_heap s) = Some (0, ram_heap s)")
    case True
    then show ?thesis by (auto simp: pbuf_alloc_def Let_def)
  next
    case False
    then have al: "?al = 16 + ?a + ?b" using alloc_len_exact [OF ab(1,2)] by (simp add: SIZEOF_STRUCT_PBUF_def)
    have "?al < 2 ^ 32" by (simp add: u16_t_def)
    then obtain p n h where m: "mem_malloc ?al (ram_heap s) = Some (p, h)" "0 < p" "?al \<le> n" "0 < n" "lwip_rep base h (insert (p, n) R)" "\<forall>x \<in> R. apart (p, n) x"
      using lwip_mem.malloc_law [OF rep(1), of ?al] False by blast
    have bd: "base + 8 \<le> p \<and> p + n \<le> base + MEM_SIZE_ALIGNED \<and> 0 < n" "4 dvd p"
      using lwip_rep_bounds [OF m(5)] lwip_rep_aligned [OF m(5)] by blast+
    define b where "b = \<lparr>pbuf_next = 0, payload = p + SIZEOF_STRUCT_PBUF + ?a, tot_len = len, pbuf_len = len, type_internal = type_bits PBUF_RAM,
      pbuf_flags = 0, pbuf_ref = 1, if_idx = NETIF_NO_INDEX\<rparr>"
    let ?s = "s\<lparr>ram_heap := h, pbufs := (pbufs s)(p := b)\<rparr>" and ?R = "insert (p, n) R"
    have b: "pbuf_get_allocsrc b = 0" "\<not> is_custom b"
      by (simp_all add: b_def pbuf_get_allocsrc_def is_custom_def PBUF_TYPE_ALLOC_SRC_MASK_def)
    have al2: "pbuf_alloc cf g layer len PBUF_RAM s = Some (p, ?s)"
      using False m(1,2) by (simp add: pbuf_alloc_def Let_def pbuf_init_alloced_pbuf_def upd_pbuf_def b_def align_addr [OF bd(2)])
    have new: "(p, l) \<notin> R" for l
    proof
      assume pl: "(p, l) \<in> R"
      then have "l = n" using lwip_rep_unique [OF m(5), of p l n] by simp
      then show False using m(6) pl m(4) by (auto simp: apart_def)
    qed
    have "heap_left (pbufs ?s) [p] ?R = R" using new b by (auto simp: heap_left_def)
    moreover have "pbuf_owned ?s L ?R p"
      using m(2) b bd ap by (fastforce simp: pbuf_owned_def pools_apart_def)
    moreover have "buf_mem base ?s L ?R" using m(5) rep(2) by (simp add: buf_mem_def)
    ultimately have "allocated base s L R p [p] len ?s L ?R"
      using m(2) len b by (simp add: allocated_def packet_def b_def)
    moreover have "room (pbufs ?s) (layer_offset layer) (n - SIZEOF_STRUCT_PBUF) p"
      using ab m(3) al by (simp add: room_def b_def SIZEOF_STRUCT_PBUF_def)
    ultimately show ?thesis using al2 m(2,6) by blast
  qed
qed

lemma ref_alloc_spec:
  assumes bm: "buf_mem base s L R" and len: "len < 2 ^ 16" and ty: "ty = PBUF_REF \<or> ty = PBUF_ROM"
  shows "case L MEMP_PBUF of [] \<Rightarrow> pbuf_alloc cf g layer len ty s = Some (0, s)
    | p # ps \<Rightarrow> \<exists>s'. pbuf_alloc cf g layer len ty s = Some (p, s') \<and> p \<noteq> 0 \<and> allocated base s L R p [p] len s' (L(MEMP_PBUF := ps)) R"
proof (cases "L MEMP_PBUF")
  case Nil
  have pk: "pools_ok (pools s) L" using bm by (simp add: buf_mem_def)
  then show ?thesis using Nil pools_malloc_none [OF pk Nil] ty
    by (auto simp: pbuf_alloc_def pbuf_alloc_reference_def pool_malloc_def)
next
  case (Cons p ps)
  have pk: "pools_ok (pools s) L" using bm by (simp add: buf_mem_def)
  let ?L = "L(MEMP_PBUF := ps)"
  obtain M where m: "memp_malloc MEMP_PBUF (pools s) = (p, M)" "p \<noteq> 0" "pools_ok M ?L" "\<forall>u. p \<notin> set (?L u)"
    using pools_malloc_some [OF pk Cons] by (elim exE conjE) (rule that)
  define b where "b = \<lparr>pbuf_next = 0, payload = 0, tot_len = len, pbuf_len = len, type_internal = type_bits ty,
      pbuf_flags = 0, pbuf_ref = 1, if_idx = NETIF_NO_INDEX\<rparr>"
  let ?s = "s\<lparr>pools := M, pbufs := (pbufs s)(p := b)\<rparr>"
  have b: "pbuf_get_allocsrc b = 1" "\<not> is_custom b"
    using ty by (auto simp: b_def pbuf_get_allocsrc_def is_custom_def PBUF_TYPE_ALLOC_SRC_MASK_def)
  have "pbuf_alloc cf g layer len ty s = Some (p, ?s)"
    using ty m by (auto simp: pbuf_alloc_def pbuf_alloc_reference_def pool_malloc_def pbuf_init_alloced_pbuf_def upd_pbuf_def b_def)
  moreover have "pbuf_owned ?s ?L R p" using m b by (simp add: pbuf_owned_def)
  moreover have "set (back_to (pbufs ?s) [p] ?L t) = set (L t)" for t using Cons b unfolding set_back_to by (cases "t = MEMP_PBUF") auto
  moreover have "heap_left (pbufs ?s) [p] R = R" using b by (auto simp: heap_left_def)
  moreover have "buf_mem base ?s ?L R" using m bm by (simp add: buf_mem_def)
  ultimately have "pbuf_alloc cf g layer len ty s = Some (p, ?s) \<and> p \<noteq> 0 \<and> allocated base s L R p [p] len ?s ?L R"
    using m(2) len b unfolding allocated_def packet_def by (simp del: back_to.simps add: b_def)
  then show ?thesis unfolding Cons list.case by blast
qed

subsection \<open>Properties\<close>

lemma allocated_free:
  assumes a: "allocated base s L R p qs len s' L' R'" and p: "p \<noteq> 0"
  shows "\<exists>s2 L2. pbuf_free cf p s' = Some (u8_t (length qs), s2) \<and> buf_mem base s2 L2 R \<and> (\<forall>t. set (L2 t) = set (L t)) \<and> lmem s2 = lmem s"
proof -
  have c: "pchain (pbufs s') p qs" "buf_mem base s' L' R'" "\<forall>q \<in> set qs. pbuf_owned s' L' R' q \<and> pbuf_ref (pbufs s' q) = 1"
    using a by (auto simp: allocated_def packet_def)
  have gn: "gone (pbufs s') qs = qs" "touched (pbufs s') qs = qs" using c(3) by (induction qs) auto
  show ?thesis using free_loop_spec [OF c(1,2), of 0 cf] gn c(3) p a by (auto simp: Let_def pbuf_free_def allocated_def)
qed

text \<open>An allocation from the pool is all or nothing. For a length and a layer whose buffers the pool has, \<open>pbuf_alloc\<close>
  returns a packet of exactly that length made of the first free buffers, its total lengths consistent, each
  buffer with one reference and its data inside the element, and room for the headers of the layer in
  front; all other buffers and the memory are unchanged. With fewer free buffers it returns \<open>NULL\<close> and every
  buffer is free again.\<close>

theorem pbuf_alloc_pool:
  assumes "buf_mem base s L R" "\<forall>q \<in> set (L MEMP_PBUF_POOL). 4 dvd q" "len < 2 ^ 16"
  shows "let n = nbufs len (layer_offset layer); qs = take n (L MEMP_PBUF_POOL)
    in if n \<le> length (L MEMP_PBUF_POOL)
       then \<exists>s'. pbuf_alloc cf g layer len PBUF_POOL s = Some (hd qs, s') \<and>
         allocated base s L R (hd qs) qs len s' (L(MEMP_PBUF_POOL := drop n (L MEMP_PBUF_POOL))) R \<and>
         room (pbufs s') (layer_offset layer) PBUF_POOL_BUFSIZE_ALIGNED (hd qs) \<and> (\<forall>q \<in> set qs. room (pbufs s') 0 PBUF_POOL_BUFSIZE_ALIGNED q)
       else \<exists>s' L'. pbuf_alloc cf g layer len PBUF_POOL s = Some (0, s') \<and> buf_mem base s' L' R \<and>
         set (L' MEMP_PBUF_POOL) = set (L MEMP_PBUF_POOL) \<and> lmem s' = lmem s \<and> (\<forall>q. q \<notin> set (L MEMP_PBUF_POOL) \<longrightarrow> pbufs s' q = pbufs s q)"
proof (cases "nbufs len (layer_offset layer) \<le> length (L MEMP_PBUF_POOL)")
  case True
  then show ?thesis using pool_alloc_ok [OF assms True, of cf g] by (simp add: Let_def)
next
  case False
  have "building (pbufs s) 0 0 [] len" by (simp add: building_def)
  from alloc_pool_fail [OF this assms(1) refl, of "layer_offset layer" cf g] show ?thesis
    using False layer_le [of layer] by (auto simp: Let_def pbuf_alloc_def)
qed

text \<open>C21: No allocation leaks and no release frees too much: for each of the four types and every length and layer,
  \<open>pbuf_alloc\<close> returns, and when it returns a packet then \<open>pbuf_free\<close> of it returns a positive count,
  every pool has the same free elements as before the allocation, the heap the same regions in use, and the data are unchanged.\<close>

theorem pbuf_alloc_free_conserves:
  assumes "buf_mem base s L R" "\<forall>q \<in> set (L MEMP_PBUF_POOL). 4 dvd q" "pools_apart base L" "len < 2 ^ 16"
  shows "\<exists>p s1. pbuf_alloc cf g layer len ty s = Some (p, s1) \<and>
    (p \<noteq> 0 \<longrightarrow> (\<exists>k s2 L2. pbuf_free cf p s1 = Some (k, s2) \<and> 0 < k \<and> buf_mem base s2 L2 R \<and> (\<forall>t. set (L2 t) = set (L t)) \<and> lmem s2 = lmem s))"
proof -
  have fin: ?thesis if "pbuf_alloc cf g layer len ty s = Some (p, s1)" "p \<noteq> 0 \<Longrightarrow> allocated base s L R p qs len s1 L1 R1" "p \<noteq> 0 \<Longrightarrow> length qs < 256" for p qs s1 L1 R1
  proof (rule exI [of _ p], rule exI [of _ s1], rule conjI [OF that(1)], rule impI)
    assume p: "p \<noteq> 0"
    then have "qs \<noteq> []" using that(2) by (auto simp: allocated_def packet_def)
    then have "0 < u8_t (length qs)" using that(3) [OF p] by (simp add: u8_t_def)
    then show "\<exists>k s2 L2. pbuf_free cf p s1 = Some (k, s2) \<and> 0 < k \<and> buf_mem base s2 L2 R \<and> (\<forall>t. set (L2 t) = set (L t)) \<and> lmem s2 = lmem s"
      using allocated_free [OF that(2) [OF p] p, of cf] by blast
  qed
  have nb: "nbufs len (layer_offset layer) < 256"
  proof -
    have "(len - k + 1527) div 1528 \<le> (65535 + 1527) div 1528" for k using assms(4) by (intro div_le_mono) simp
    from this [of "1528 - LWIP_MEM_ALIGN_SIZE (layer_offset layer)"] show ?thesis by (simp add: nbufs_def PBUF_POOL_BUFSIZE_ALIGNED_def)
  qed
  have rf: ?thesis if "ty = PBUF_REF \<or> ty = PBUF_ROM"
  proof (cases "L MEMP_PBUF")
    case Nil
    with ref_alloc_spec [OF assms(1,4) that, of cf g layer] show ?thesis by simp
  next
    case (Cons p ps)
    with ref_alloc_spec [OF assms(1,4) that, of cf g layer] show ?thesis unfolding Cons list.case
      by (elim exE conjE) (rule fin, assumption, assumption, simp)
  qed
  show ?thesis
  proof (cases ty)
    case PBUF_POOL
    show ?thesis
    proof (cases "nbufs len (layer_offset layer) \<le> length (L MEMP_PBUF_POOL)")
      case True
      from pool_alloc_ok [OF assms(1,2,4) True, of cf g] show ?thesis unfolding PBUF_POOL [symmetric]
        by (elim exE conjE) (rule fin, assumption, assumption, use nb in simp)
    next
      case False
      have "building (pbufs s) 0 0 [] len" by (simp add: building_def)
      from alloc_pool_fail [OF this assms(1) refl, of "layer_offset layer" cf g] show ?thesis
        using False layer_le [of layer] PBUF_POOL by (auto simp: pbuf_alloc_def)
    qed
  next
    case PBUF_RAM
    from heap_alloc_spec [OF assms(1,4,3), of cf g layer] show ?thesis unfolding PBUF_RAM [symmetric]
    proof (elim disjE exE conjE)
      assume "pbuf_alloc cf g layer len ty s = Some (0, s)" then show ?thesis by blast
    qed (rule fin, assumption, assumption, simp)
  next
    case PBUF_REF
    then show ?thesis by (intro rf) simp
  next
    case PBUF_ROM
    then show ?thesis by (intro rf) simp
  qed
qed

text \<open>A small stack: a heap at 1000, two buffers in the pool, one element for references.\<close>

definition demo_lwip :: lwip where
  "demo_lwip = \<lparr>os = demo_qsys, ram_heap = mem_init 1000,
     pools = \<lparr>memp_tab = (\<lambda>_. 0)(MEMP_PBUF_POOL := 40000, MEMP_PBUF := 50000), memp_next = (\<lambda>_. 0)(40000 := 42000)\<rparr>,
     lmem = demo_bytes, pbufs = demo_pbufs, tcpip_mbox = 7, lock_tcpip_core = 9,
     tcpip_init_done = None, tcpip_init_done_arg = 0, msgs = (\<lambda>_. TCPIP_MSG_CALLBACK (Fn 0) 0), pbuf_free_ooseq_pending = False\<rparr>"

definition demo_pools :: "memp_t \<Rightarrow> nat list" where
  "demo_pools = (\<lambda>_. [])(MEMP_PBUF_POOL := [40000, 42000], MEMP_PBUF := [50000])"

lemma demo_buf_mem: "buf_mem 1000 demo_lwip demo_pools {}" "pools_apart 1000 demo_pools" "\<forall>q \<in> set (demo_pools MEMP_PBUF_POOL). 4 dvd q"
proof -
  have "lwip_rep 1000 (mem_init 1000) {}"
    using mem_init_rel [of 1000] by (auto simp: lwip_rep_def intro!: exI [of _ "[(0, 16384, Free)]"]) (simp add: mem_init_def)
  moreover have "pools_ok (pools demo_lwip) demo_pools"
    by (auto simp: pools_ok_def demo_lwip_def demo_pools_def pool_free_def)
  ultimately show "buf_mem 1000 demo_lwip demo_pools {}" by (simp add: buf_mem_def demo_lwip_def)
  show "pools_apart 1000 demo_pools" by (auto simp: pools_apart_def demo_pools_def MEM_SIZE_ALIGNED_def)
  show "\<forall>q \<in> set (demo_pools MEMP_PBUF_POOL). 4 dvd q" by (simp add: demo_pools_def)
qed

lemma demo_nbufs: "nbufs 2000 (layer_offset PBUF_TRANSPORT) = 2" "nbufs 4000 (layer_offset PBUF_TRANSPORT) = 3"
  by (simp_all add: nbufs_def PBUF_POOL_BUFSIZE_ALIGNED_def LWIP_MEM_ALIGN_SIZE_def MEM_ALIGNMENT_def)

theorem pbuf_alloc_pool_witness:
  "(\<exists>s'. pbuf_alloc (\<lambda>_ s. s) (window id) PBUF_TRANSPORT 2000 PBUF_POOL demo_lwip = Some (40000, s') \<and> packet (pbufs s') 40000 [40000, 42000]) \<and>
   (\<exists>s'. pbuf_alloc (\<lambda>_ s. s) (window id) PBUF_TRANSPORT 4000 PBUF_POOL demo_lwip = Some (0, s'))"
  using pbuf_alloc_pool [OF demo_buf_mem(1,3), of 2000 PBUF_TRANSPORT "\<lambda>_ s. s" "window id"]
    pbuf_alloc_pool [OF demo_buf_mem(1,3), of 4000 PBUF_TRANSPORT "\<lambda>_ s. s" "window id"] unfolding demo_nbufs Let_def allocated_def
  by (auto simp: demo_pools_def simp del: back_to.simps)

theorem pbuf_alloc_free_conserves_witness:
  "\<exists>p s1. pbuf_alloc (\<lambda>_ s. s) (window id) PBUF_IP 100 PBUF_RAM demo_lwip = Some (p, s1) \<and>
     (p = 0 \<or> (\<exists>k s2 L2. pbuf_free (\<lambda>_ s. s) p s1 = Some (k, s2) \<and> 0 < k \<and> buf_mem 1000 s2 L2 {} \<and> (\<forall>t. set (L2 t) = set (demo_pools t))))"
  using pbuf_alloc_free_conserves [OF demo_buf_mem(1,3,2), of 100 "\<lambda>_ s. s" "window id" PBUF_IP PBUF_RAM] by auto

end
