(* ===== verification/PbufChain.thy ===== *)
theory PbufChain
  imports PbufAlloc
begin

text \<open>
  Operations on whole packets: joining and taking apart chains, the headers in front of a packet, and shortening.
\<close>

lemma packet_cong:
  assumes "\<And>q. q \<in> set qs \<Longrightarrow> pbuf_next (P' q) = pbuf_next (P q) \<and> pbuf_len (P' q) = pbuf_len (P q) \<and> tot_len (P' q) = tot_len (P q)"
  shows "packet P' p qs = packet P p qs"
proof -
  have "pchain P' p qs = pchain P p qs" by (rule pchain_cong) (use assms in simp)
  moreover have "tots_plus P' qs 0 = tots_plus P qs 0" by (rule tots_plus_cong) (use assms in simp)
  moreover have "chain_len P' qs = chain_len P qs" by (rule chain_len_cong) (use assms in simp)
  ultimately show ?thesis by (simp add: packet_def tots_plus_0)
qed

subsection \<open>Joining chains\<close>

definition add_tot :: "nat list \<Rightarrow> nat \<Rightarrow> (nat \<Rightarrow> pbuf) \<Rightarrow> nat \<Rightarrow> pbuf" where
  "add_tot qs n P = (\<lambda>q. if q \<in> set qs then (P q)\<lparr>tot_len := u16_t (tot_len (P q) + n)\<rparr> else P q)"

lemma add_tot_fields [simp]:
  "pbuf_next (add_tot qs n P q) = pbuf_next (P q)" "payload (add_tot qs n P q) = payload (P q)" "pbuf_len (add_tot qs n P q) = pbuf_len (P q)"
  "pbuf_ref (add_tot qs n P q) = pbuf_ref (P q)" "type_internal (add_tot qs n P q) = type_internal (P q)" "pbuf_flags (add_tot qs n P q) = pbuf_flags (P q)"
  by (simp_all add: add_tot_def)

lemma cat_loop_spec:
  assumes "pchain (pbufs s) p hs" "p \<noteq> 0" "t \<notin> set hs"
  shows "cat_loop p t s = Some (last hs, s\<lparr>pbufs := add_tot (butlast hs) (tot_len (pbufs s t)) (pbufs s)\<rparr>)"
  using assms
proof (induction hs arbitrary: p s)
  case (Cons q qs)
  have q: "p = q" "q \<notin> set qs" "pchain (pbufs s) (pbuf_next (pbufs s q)) qs" "t \<noteq> q" using Cons.prems by auto
  show ?case
  proof (cases qs)
    case Nil
    then show ?thesis using q by (subst cat_loop.simps) (simp add: add_tot_def)
  next
    case (Cons r rs)
    let ?s = "s\<lparr>pbufs := add_tot [q] (tot_len (pbufs s t)) (pbufs s)\<rparr>"
    have n: "pbuf_next (pbufs s q) \<noteq> 0" using q(3) Cons by auto
    have u: "upd_pbuf q (\<lambda>b. b\<lparr>tot_len := u16_t (tot_len b + tot_len (pbufs s t))\<rparr>) s = ?s"
      by (rule lwip.equality) (auto simp: upd_pbuf_def add_tot_def)
    have c: "pchain (pbufs ?s) (pbuf_next (pbufs s q)) qs" using q(3) pchain_cong [of qs "pbufs ?s" "pbufs s"] by simp
    have "cat_loop p t s = cat_loop (pbuf_next (pbufs s q)) t ?s" using q(1) n u by (subst cat_loop.simps) (simp add: Let_def)
    also have "\<dots> = Some (last qs, ?s\<lparr>pbufs := add_tot (butlast qs) (tot_len (pbufs ?s t)) (pbufs ?s)\<rparr>)"
      using Cons.IH [OF c n] Cons.prems(3) by simp
    also have "add_tot (butlast qs) (tot_len (pbufs ?s t)) (pbufs ?s) = add_tot (butlast (q # qs)) (tot_len (pbufs s t)) (pbufs s)"
      using q(2,4) Cons in_set_butlastD [of q qs] by (auto simp: add_tot_def fun_eq_iff)
    finally show ?thesis using Cons by simp
  qed
qed simp

definition joined :: "nat list \<Rightarrow> nat \<Rightarrow> (nat \<Rightarrow> pbuf) \<Rightarrow> nat \<Rightarrow> pbuf" where
  "joined hs t P = (let P' = add_tot hs (tot_len (P t)) P in P'(last hs := (P' (last hs))\<lparr>pbuf_next := t\<rparr>))"

lemma joined_fields [simp]:
  "payload (joined hs t P q) = payload (P q)" "pbuf_len (joined hs t P q) = pbuf_len (P q)" "pbuf_ref (joined hs t P q) = pbuf_ref (P q)"
  "type_internal (joined hs t P q) = type_internal (P q)" "pbuf_flags (joined hs t P q) = pbuf_flags (P q)"
  by (auto simp: joined_def Let_def)

lemma chain_bytes_cong:
  "(\<And>q. q \<in> set qs \<Longrightarrow> payload (P' q) = payload (P q) \<and> pbuf_len (P' q) = pbuf_len (P q)) \<Longrightarrow> chain_bytes P' m qs = chain_bytes P m qs"
  by (induction qs) (auto simp: pbuf_bytes_def)

lemma tots_append: "tots_ok P (hs @ ts) \<longleftrightarrow> tots_plus P hs (chain_len P ts) \<and> tots_ok P ts"
  by (induction hs) auto

lemma cat_spec:
  assumes h: "packet (pbufs s) h hs" "h \<noteq> 0" and t: "packet (pbufs s) t ts" "t \<noteq> 0" and d: "set hs \<inter> set ts = {}"
    and n: "tot_len (pbufs s h) + tot_len (pbufs s t) < 2 ^ 16"
  shows "pbuf_cat h t s = Some (s\<lparr>pbufs := joined hs t (pbufs s)\<rparr>)" and "packet (joined hs t (pbufs s)) h (hs @ ts)"
proof -
  let ?P = "pbufs s" and ?T = "tot_len (pbufs s t)"
  have hs: "hs \<noteq> []" "pchain ?P h hs" using h by (auto simp: packet_def)
  have ts: "ts \<noteq> []" "t \<in> set ts" using t by (cases ts; auto simp: packet_def)+
  have tn: "t \<notin> set hs" using ts d by auto
  have lb: "last hs \<notin> set (butlast hs)" using pchain_distinct [OF hs(2)] hs(1)
    by (metis append_butlast_last_id distinct_append disjoint_iff list.set_intros(1))
  have sl: "set hs = insert (last hs) (set (butlast hs))" using hs(1) by (metis append_butlast_last_id insert_is_Un list.simps(15) set_append sup_commute empty_set)
  have tl: "t \<noteq> last hs" using tn hs(1) by auto
  have a1: "add_tot (butlast hs) ?T ?P t = ?P t" using tn sl by (simp add: add_tot_def)
  have a2: "(add_tot (butlast hs) ?T ?P)(last hs := (add_tot (butlast hs) ?T ?P (last hs))\<lparr>tot_len := u16_t (tot_len (add_tot (butlast hs) ?T ?P (last hs)) + ?T)\<rparr>) = add_tot hs ?T ?P"
    using lb by (auto simp: add_tot_def fun_eq_iff sl)
  show "pbuf_cat h t s = Some (s\<lparr>pbufs := joined hs t ?P\<rparr>)"
    using cat_loop_spec [OF hs(2) h(2) tn] h(2) t(2) a1 unfolding joined_def Let_def a2 [symmetric] by (simp add: pbuf_cat_def upd_pbuf_def)
  let ?J = "joined hs t ?P"
  have out: "?J q = ?P q" if "q \<notin> set hs" for q using that hs(1) by (auto simp: joined_def add_tot_def Let_def)
  have "?J q = ?P q" if "q \<in> set ts" for q using that d out by blast
  then have "packet ?J t ts = packet ?P t ts" by (intro packet_cong) simp
  then have pt: "packet ?J t ts" using t(1) by simp
  then have "pchain ?J t ts" by (simp add: packet_def)
  then have c: "pchain ?J h (hs @ ts)" using hs lb d
    by (intro pchain_append [OF hs(2,1)]) (auto simp: joined_def Let_def)
  have cl: "chain_len ?J xs = chain_len ?P xs" for xs by (rule chain_len_cong) simp
  have T: "?T = chain_len ?P ts" "tot_len (?P h) = chain_len ?P hs" using packet_tot t h by auto
  have "tots_plus ?J hs ?T"
  proof -
    have "tots_plus ?J xs ?T" if "tots_ok ?P xs" "set xs \<subseteq> set hs" "chain_len ?P xs \<le> chain_len ?P hs" for xs
      using that
    proof (induction xs)
      case (Cons q xs)
      then have "tot_len (?P q) + ?T < 2 ^ 16" using n T by simp
      then have "tot_len (?J q) = tot_len (?P q) + ?T" using Cons.prems(2) by (auto simp: joined_def add_tot_def Let_def u16_t_def)
      then show ?case using Cons cl [of "q # xs"] by simp
    qed simp
    then show ?thesis using h(1) by (simp add: packet_def)
  qed
  then show "packet ?J h (hs @ ts)" using c n T cl pt by (simp add: packet_def tots_append)
qed

subsection \<open>Taking the first buffer off\<close>

lemma u16_ids: "n < 2 ^ 16 \<Longrightarrow> u16_t n = n" "m \<le> n \<Longrightarrow> n < 2 ^ 16 \<Longrightarrow> usub16 n m = n - m"
  by (simp_all add: u16_t_def usub16_def mod_if)

lemma free_shared:
  assumes "t \<noteq> 0" "1 < pbuf_ref (pbufs s t)" "pbuf_ref (pbufs s t) < 256"
  shows "pbuf_free cf t s = Some (0, upd_pbuf t (\<lambda>b. b\<lparr>pbuf_ref := pbuf_ref b - 1\<rparr>) s)"
proof -
  have "u8_t (pbuf_ref (pbufs s t) + 255) = pbuf_ref (pbufs s t) - 1" using assms(2,3) unfolding u8_t_def by (simp add: mod_if)
  then show ?thesis using assms by (simp add: pbuf_free_def) (subst pbuf_free_loop.simps, simp add: Let_def upd_pbuf_def)
qed

lemma chain_dechain:
  assumes h: "packet (pbufs s) h [h]" and t: "packet (pbufs s) t ts" "t \<noteq> 0" "h \<notin> set ts" and n: "tot_len (pbufs s h) + tot_len (pbufs s t) < 2 ^ 16"
    and r: "1 \<le> pbuf_ref (pbufs s t)" "pbuf_ref (pbufs s t) < 255"
  shows "\<exists>s1. pbuf_chain h t s = Some s1 \<and> packet (pbufs s1) h (h # ts) \<and> chain_bytes (pbufs s1) m (h # ts) = chain_bytes (pbufs s) m (h # ts) \<and>
    pbuf_dechain cf h s1 = Some (t, s)"
proof -
  let ?P = "pbufs s" and ?J = "joined [h] t (pbufs s)"
  have h0: "h \<noteq> 0" "pbuf_next (?P h) = 0" "tot_len (?P h) = pbuf_len (?P h)" using h by (auto simp: packet_def)
  have th: "t \<noteq> h" using t by (cases ts) (auto simp: packet_def)
  note c = cat_spec [OF h h0(1) t(1,2) _ n]
  define s1 where "s1 = upd_pbuf t (\<lambda>b. b\<lparr>pbuf_ref := pbuf_ref b + 1\<rparr>) (s\<lparr>pbufs := ?J\<rparr>)"
  have e: "pbuf_chain h t s = Some s1"
    using c t r by (simp add: pbuf_chain_def pbuf_reference_def s1_def upd_pbuf_def u8_t_def)
  have P1: "pbufs s1 = ?J(t := (?P t)\<lparr>pbuf_ref := pbuf_ref (?P t) + 1\<rparr>)"
    using th by (simp add: s1_def upd_pbuf_def joined_def add_tot_def Let_def)
  have Jt: "?J t = ?P t" using th by (simp add: joined_def add_tot_def Let_def)
  have f: "pbuf_next (pbufs s1 q) = pbuf_next (?J q)" "pbuf_len (pbufs s1 q) = pbuf_len (?J q)" "tot_len (pbufs s1 q) = tot_len (?J q)"
    "payload (pbufs s1 q) = payload (?J q)" for q using Jt by (auto simp: P1)
  have "packet ?J h (h # ts)" using c(2) t(3) by simp
  then have "packet (pbufs s1) h (h # ts)" using packet_cong [of "h # ts" "pbufs s1" ?J h] f by simp
  moreover have "chain_bytes (pbufs s1) m (h # ts) = chain_bytes ?P m (h # ts)" by (rule chain_bytes_cong) (simp add: f)
  moreover have "pbuf_dechain cf h s1 = Some (t, s)"
  proof -
    have Jh: "?J h = (?P h)\<lparr>tot_len := pbuf_len (?P h) + tot_len (?P t), pbuf_next := t\<rparr>"
      using n h0 by (simp add: joined_def add_tot_def Let_def u16_t_def)
    let ?s2 = "s\<lparr>pbufs := ?P(t := (?P t)\<lparr>pbuf_ref := pbuf_ref (?P t) + 1\<rparr>)\<rparr>"
    have q: "pbuf_next (pbufs s1 h) = t" "tot_len (pbufs s1 h) = pbuf_len (?P h) + tot_len (?P t)" "pbuf_len (pbufs s1 h) = pbuf_len (?P h)"
      using Jh by (simp_all add: f)
    have us: "usub16 (pbuf_len (?P h) + tot_len (?P t)) (pbuf_len (?P h)) = tot_len (?P t)" using n h0 u16_ids(2) [of "pbuf_len (?P h)"] by simp
    have out: "?J q = ?P q" if "q \<noteq> h" for q using that by (simp add: joined_def add_tot_def Let_def)
    have "upd_pbuf h (\<lambda>b. b\<lparr>tot_len := pbuf_len b\<rparr>) (upd_pbuf h (\<lambda>b. b\<lparr>pbuf_next := 0\<rparr>) (upd_pbuf t (\<lambda>b. b\<lparr>tot_len := tot_len (?P t)\<rparr>) s1)) = ?s2"
      using th h0 Jh out by (intro lwip.equality) (auto simp: s1_def upd_pbuf_def fun_eq_iff intro!: pbuf.equality)
    then have "pbuf_dechain cf h s1 = map_option (\<lambda>(g, s). (if g > 0 then 0 else t, s)) (pbuf_free cf t ?s2)"
      using q us t(2) by (simp add: pbuf_dechain_def Let_def)
    also have "pbuf_free cf t ?s2 = Some (0, s)"
      using free_shared [of t ?s2 cf] t(2) r by (simp add: upd_pbuf_def)
    finally show ?thesis by simp
  qed
  ultimately show ?thesis using e by blast
qed

subsection \<open>Headers\<close>

lemma header_spec:
  assumes p: "packet (pbufs s) p qs" "p \<noteq> 0" and n: "0 < n" "tot_len (pbufs s p) + n < 2 ^ 16"
    and c: "type_internal (pbufs s p) AND PBUF_TYPE_FLAG_STRUCT_DATA_CONTIGUOUS \<noteq> 0" "p + SIZEOF_STRUCT_PBUF + n \<le> payload (pbufs s p)"
  shows "\<exists>s1. pbuf_add_header p n s = (False, s1) \<and> packet (pbufs s1) p qs \<and>
    chain_bytes (pbufs s1) m qs = read_bytes (payload (pbufs s p) - n) n m @ chain_bytes (pbufs s) m qs \<and> pbuf_remove_header p n s1 = (False, s)"
proof -
  let ?P = "pbufs s"
  obtain ps where qs: "qs = p # ps" using p by (cases qs) (auto simp: packet_def)
  have pk: "pchain ?P (pbuf_next (?P p)) ps" "p \<notin> set ps" "tots_ok ?P ps" "tot_len (?P p) = pbuf_len (?P p) + chain_len ?P ps"
    using p unfolding qs packet_def by auto
  define b where "b = (?P p)\<lparr>payload := payload (?P p) - n, pbuf_len := pbuf_len (?P p) + n, tot_len := tot_len (?P p) + n\<rparr>"
  let ?Q = "?P(p := b)"
  have e: "pbuf_add_header p n s = (False, s\<lparr>pbufs := ?Q\<rparr>)"
    using n c p(2) pk(4) by (auto simp: pbuf_add_header_def pbuf_add_header_impl_def Let_def upd_pbuf_def b_def u16_ids)
  have same: "?Q q = ?P q" if "q \<in> set ps" for q using that pk(2) by auto
  have cl: "chain_len ?Q ps = chain_len ?P ps" "chain_bytes ?Q m ps = chain_bytes ?P m ps" "tots_ok ?Q ps = tots_ok ?P ps" "pchain ?Q x ps = pchain ?P x ps" for x
    using same chain_len_cong [of ps ?Q ?P] chain_bytes_cong [of ps ?Q ?P] tots_plus_cong [of ps ?Q ?P 0] pchain_cong [of ps ?Q ?P]
    by (simp_all add: tots_plus_0)
  have "packet ?Q p qs" using p(2) pk n cl unfolding qs packet_def by (simp add: b_def)
  moreover have "chain_bytes ?Q m qs = read_bytes (payload (?P p) - n) n m @ chain_bytes ?P m qs"
    using cl(2) c(2) read_bytes_add [of "payload (?P p) - n" n "pbuf_len (?P p)" m] unfolding qs
    by (simp add: pbuf_bytes_def b_def add.commute)
  moreover have "pbuf_remove_header p n (s\<lparr>pbufs := ?Q\<rparr>) = (False, s)"
    using n c p(2) pk(4) by (auto simp: pbuf_remove_header_def Let_def upd_pbuf_def b_def u16_ids fun_eq_iff intro!: lwip.equality pbuf.equality)
  ultimately show ?thesis using e by auto
qed

subsection \<open>Shortening\<close>

text \<open>The region of a block may shrink in place.\<close>

lemma mem_trim_ram: "ram (snd (mem_trim p n h)) = ram h"
  by (auto simp: mem_trim_def Let_def relink_def mset_next_def mset_prev_def mset_used_def split: option.splits)

lemma trim_law:
  assumes r: "lwip_rep base h R" and p: "(p, l) \<in> R" and n: "0 < n" "n \<le> l"
  shows "\<exists>l' h'. mem_trim p n h = (p, h') \<and> n \<le> l' \<and> l' \<le> l \<and> lwip_rep base h' (insert (p, l') (R - {(p, l)}))"
proof -
  obtain bs where m: "mheap_rel h bs" "ram h = base" and R: "R = (\<lambda>(p, n). (base + p, n)) ` live bs" using r by (auto simp: lwip_rep_def)
  obtain a s where a: "(a, s, Alloc) \<in> set bs" "p = base + a + 8" "l = s - 8" using p R by (auto simp: live_iff)
  obtain us vs where bs: "bs = us @ (a, s, Alloc) # vs" using split_list [OF a(1)] by blast
  have r0: "mheap_rel0 h (us @ (a, s, Alloc) # vs)" using m(1) bs by (simp add: mheap_rel_def)
  have sz: "20 \<le> s" "4 dvd s" "a + s \<le> MEM_SIZE_ALIGNED" by (rule mheap_block [OF r0]; simp)+
  define w where "w = max 12 (LWIP_MEM_ALIGN_SIZE n)"
  have "4 dvd l" using sz(2) a(3) by (simp add: dvd_diff_nat)
  then obtain j where j: "l = 4 * j" by (elim dvdE)
  have an: "n \<le> LWIP_MEM_ALIGN_SIZE n" "LWIP_MEM_ALIGN_SIZE n \<le> l" using align_ge(1) n(2) unfolding j LWIP_MEM_ALIGN_SIZE_def MEM_ALIGNMENT_def by simp_all
  have "LWIP_MEM_ALIGN_SIZE n < 16384" using an(2) a(3) sz unfolding MEM_SIZE_ALIGNED_def by linarith
  then have q: "mem_request n = Some w" using an(1) by (simp add: mem_request_def mem_consts Let_def w_def)
  have ws: "w + 8 \<le> s" "n \<le> w" using an a(3) sz by (auto simp: w_def)
  note T = mem_trim_spec(1) [OF m(1) [unfolded bs] q ws(1)]
  have "live (trimmed w a s vs) = insert (a + 8, w) (live vs) \<or> live (trimmed w a s vs) = insert (a + 8, s - 8) (live vs)"
    using ws(1) by (auto simp: trimmed_def split: list.splits bstate.splits)
  then obtain l' where l': "live (trimmed w a s vs) = insert (a + 8, l') (live vs)" "n \<le> l'" "l' \<le> l" using ws a(3) by force
  have nl: "(a + 8, s - 8) \<notin> live us \<union> live vs"
  proof
    assume "(a + 8, s - 8) \<in> live us \<union> live vs"
    from live_apart [OF r0 this] show False using sz(1) by auto
  qed
  have lv: "live (us @ trimmed w a s vs) = insert (a + 8, l') (live bs - {(a + 8, s - 8)})" using l'(1) nl unfolding bs by auto
  have "inj (\<lambda>(p :: nat, n :: nat). (base + p, n))" by (auto simp: inj_def)
  then have im: "insert (p, l') (R - {(p, l)}) = (\<lambda>(p, n). (base + p, n)) ` live (us @ trimmed w a s vs)"
    unfolding lv R a(2,3) image_insert by (simp add: image_set_diff add.assoc)
  have e: "ram h + a + 8 = p" using m(2) a(2) by simp
  have "mem_trim p n h = (p, snd (mem_trim p n h))" using T unfolding e by (metis prod.collapse)
  moreover have "lwip_rep base (snd (mem_trim p n h)) (insert (p, l') (R - {(p, l)}))"
    unfolding lwip_rep_def mem_trim_ram using T [unfolded e] m(2) im by (intro conjI exI [of _ "us @ trimmed w a s vs"]) simp_all
  ultimately show ?thesis using l'(2,3) by blast
qed

definition sub_tot :: "nat list \<Rightarrow> nat \<Rightarrow> (nat \<Rightarrow> pbuf) \<Rightarrow> nat \<Rightarrow> pbuf" where
  "sub_tot qs n P = (\<lambda>q. if q \<in> set qs then (P q)\<lparr>tot_len := usub16 (tot_len (P q)) n\<rparr> else P q)"

lemma sub_tot_fields [simp]:
  "pbuf_next (sub_tot qs n P q) = pbuf_next (P q)" "payload (sub_tot qs n P q) = payload (P q)" "pbuf_len (sub_tot qs n P q) = pbuf_len (P q)"
  "pbuf_ref (sub_tot qs n P q) = pbuf_ref (P q)" "pbuf_get_allocsrc (sub_tot qs n P q) = pbuf_get_allocsrc (P q)" "is_custom (sub_tot qs n P q) = is_custom (P q)"
  by (simp_all add: sub_tot_def pbuf_get_allocsrc_def is_custom_def)

lemma sub_tot_plus: "tots_plus P us c \<Longrightarrow> d \<le> c \<Longrightarrow> chain_len P us + c < 2 ^ 16 \<Longrightarrow> set us \<subseteq> set ws \<Longrightarrow> tots_plus (sub_tot ws d P) us (c - d)"
proof (induction us)
  case (Cons q us)
  have "chain_len (sub_tot ws d P) us = chain_len P us" by (rule chain_len_cong) simp
  then show ?case using Cons by (simp add: sub_tot_def u16_ids)
qed simp

lemma realloc_loop_spec:
  assumes "pchain (pbufs s) p qs" "p \<noteq> 0" "n \<le> chain_len (pbufs s) qs"
  shows "\<exists>us x vs. qs = us @ x # vs \<and> chain_len (pbufs s) us \<le> n \<and> n \<le> chain_len (pbufs s) us + pbuf_len (pbufs s x) \<and>
    realloc_loop p n k s = Some (x, n - chain_len (pbufs s) us, s\<lparr>pbufs := sub_tot us k (pbufs s)\<rparr>)"
  using assms
proof (induction qs arbitrary: p n s)
  case (Cons q qs)
  let ?P = "pbufs s"
  have q: "p = q" "q \<notin> set qs" "pchain ?P (pbuf_next (?P q)) qs" using Cons.prems by auto
  show ?case
  proof (cases "n > pbuf_len (?P q)")
    case False
    then have "realloc_loop p n k s = Some (q, n, s\<lparr>pbufs := sub_tot [] k ?P\<rparr>)" using q by (subst realloc_loop.simps) (simp add: sub_tot_def)
    then show ?thesis using False by - (rule exI [of _ "[]"], rule exI [of _ q], rule exI [of _ qs], auto)
  next
    case True
    let ?s = "s\<lparr>pbufs := sub_tot [q] k ?P\<rparr>"
    have u: "upd_pbuf q (\<lambda>b. b\<lparr>tot_len := usub16 (tot_len b) k\<rparr>) s = ?s"
      by (rule lwip.equality) (auto simp: upd_pbuf_def sub_tot_def)
    have e: "realloc_loop p n k s = realloc_loop (pbuf_next (?P q)) (n - pbuf_len (?P q)) k ?s"
      using q(1) True u by (subst realloc_loop.simps) (simp add: Let_def)
    have cl: "chain_len (pbufs ?s) xs = chain_len ?P xs" for xs by (rule chain_len_cong) simp
    have c: "pchain (pbufs ?s) (pbuf_next (?P q)) qs" using q(3) pchain_cong [of qs "pbufs ?s" ?P] by simp
    have n0: "pbuf_next (?P q) \<noteq> 0" using q(3) Cons.prems(3) True by (cases qs) auto
    have le: "n - pbuf_len (?P q) \<le> chain_len (pbufs ?s) qs" using Cons.prems(3) cl by simp
    obtain us x vs where i: "qs = us @ x # vs" "chain_len ?P us \<le> n - pbuf_len (?P q)" "n - pbuf_len (?P q) \<le> chain_len ?P us + pbuf_len (?P x)"
      "realloc_loop (pbuf_next (?P q)) (n - pbuf_len (?P q)) k ?s = Some (x, n - pbuf_len (?P q) - chain_len ?P us, ?s\<lparr>pbufs := sub_tot us k (sub_tot [q] k ?P)\<rparr>)"
      using Cons.IH [OF c n0 le] cl by auto
    have "sub_tot us k (sub_tot [q] k ?P) = sub_tot (q # us) k ?P" using i(1) q(2) by (auto simp: sub_tot_def fun_eq_iff)
    then show ?thesis using i e True by - (rule exI [of _ "q # us"], rule exI [of _ x], rule exI [of _ vs], auto)
  qed
qed simp

text \<open>The heap block of a buffer that is cut, with the pools unchanged.\<close>

definition cut_heap :: "nat \<Rightarrow> nat \<Rightarrow> lwip \<Rightarrow> lwip" where
  "cut_heap x r s = (if pbuf_get_allocsrc (pbufs s x) = 0 \<and> r \<noteq> pbuf_len (pbufs s x) \<and> \<not> is_custom (pbufs s x)
     then s\<lparr>ram_heap := snd (mem_trim x (u16_t (payload (pbufs s x) - x + r)) (ram_heap s))\<rparr> else s)"

lemma cut_heap_spec:
  assumes bm: "buf_mem base s L R" and r: "r \<le> pbuf_len (pbufs s x)"
    and h: "pbuf_get_allocsrc (pbufs s x) = 0 \<Longrightarrow> \<exists>l. (x, l) \<in> R \<and> x + SIZEOF_STRUCT_PBUF \<le> payload (pbufs s x) \<and> payload (pbufs s x) + pbuf_len (pbufs s x) \<le> x + l"
  shows "\<exists>hp R'. cut_heap x r s = s\<lparr>ram_heap := hp\<rparr> \<and> buf_mem base (s\<lparr>ram_heap := hp\<rparr>) L R' \<and> fst ` R' = fst ` R \<and>
    (pbuf_get_allocsrc (pbufs s x) = 0 \<and> r \<noteq> pbuf_len (pbufs s x) \<and> \<not> is_custom (pbufs s x) \<longrightarrow>
       fst (mem_trim x (u16_t (payload (pbufs s x) - x + r)) (ram_heap s)) = x)"
proof (cases "pbuf_get_allocsrc (pbufs s x) = 0 \<and> r \<noteq> pbuf_len (pbufs s x) \<and> \<not> is_custom (pbufs s x)")
  case False
  then show ?thesis using bm by (intro exI [of _ "ram_heap s"] exI [of _ R]) (auto simp: cut_heap_def)
next
  case True
  then obtain l where l: "(x, l) \<in> R" "x + SIZEOF_STRUCT_PBUF \<le> payload (pbufs s x)" "payload (pbufs s x) + pbuf_len (pbufs s x) \<le> x + l" using h by blast
  let ?n = "payload (pbufs s x) - x + r"
  have rep: "lwip_rep base (ram_heap s) R" using bm by (simp add: buf_mem_def)
  have n: "0 < ?n" "?n \<le> l" using l r by (auto simp: SIZEOF_STRUCT_PBUF_def)
  have "l \<le> 16384" using lwip_rep_bounds [OF rep l(1)] by (simp add: MEM_SIZE_ALIGNED_def)
  then have u: "u16_t ?n = ?n" using n by (simp add: u16_t_def)
  obtain l' hp where t: "mem_trim x ?n (ram_heap s) = (x, hp)" "lwip_rep base hp (insert (x, l') (R - {(x, l)}))"
    using trim_law [OF rep l(1) n] by blast
  have "fst ` insert (x, l') (R - {(x, l)}) = fst ` R"
  proof
    show "fst ` R \<subseteq> fst ` insert (x, l') (R - {(x, l)})" by (auto simp: image_iff)
  qed (use l(1) in \<open>force\<close>)
  then show ?thesis using True t bm u by (intro exI [of _ hp] exI [of _ "insert (x, l') (R - {(x, l)})"]) (simp add: cut_heap_def buf_mem_def)
qed

lemma free_loop_0: "pbuf_free_loop cf 0 n s = Some (n, s)"
  by (subst pbuf_free_loop.simps) simp

lemma cut_packet:
  assumes p: "packet P p (us @ x # vs)" "p \<noteq> 0" and r: "r \<le> pbuf_len (P x)"
    and Qx: "Q x = (P x)\<lparr>pbuf_len := r, tot_len := r, pbuf_next := 0\<rparr>"
    and Qu: "\<And>q. q \<in> set us \<Longrightarrow> Q q = sub_tot us (pbuf_len (P x) + chain_len P vs - r) P q"
  shows "packet Q p (us @ [x])" "tot_len (Q p) = chain_len P us + r" "chain_bytes Q m (us @ [x]) = take (chain_len P us + r) (chain_bytes P m (us @ x # vs))"
proof -
  let ?c = "pbuf_len (P x) + chain_len P vs"
  have c: "pchain P p (us @ x # vs)" "chain_len P us + ?c < 2 ^ 16" "tots_plus P us ?c"
    using p by (auto simp: packet_def tots_append)
  have xn: "x \<notin> set us" "x \<noteq> 0" using pchain_distinct [OF c(1)] by auto
  have cl: "chain_len Q us = chain_len P us" by (rule chain_len_cong) (simp add: Qu)
  have "tots_plus Q us r = tots_plus (sub_tot us (?c - r) P) us r" by (rule tots_plus_cong) (simp add: Qu)
  moreover have "tots_plus (sub_tot us (?c - r) P) us (?c - (?c - r))" using c by (intro sub_tot_plus) auto
  moreover have "?c - (?c - r) = r" using r by simp
  ultimately have t: "tots_ok Q (us @ [x])" using Qx by (simp add: tots_append)
  have "pchain Q p (us @ [x])"
    using c(1) xn Qu
  proof (induction us arbitrary: p)
    case (Cons q us)
    then have "pchain Q (pbuf_next (P q)) (us @ [x])" by (intro Cons.IH) (auto simp: sub_tot_def)
    moreover have "pbuf_next (Q q) = pbuf_next (P q)" using Cons.prems(4) [of q] by simp
    ultimately show ?case using Cons.prems by auto
  qed (use Qx in auto)
  then show pk: "packet Q p (us @ [x])" using t cl Qx c(2) r by (simp add: packet_def)
  show "tot_len (Q p) = chain_len P us + r" using packet_tot [OF pk p(2)] cl Qx by simp
  have "chain_bytes Q m us = chain_bytes P m us" by (rule chain_bytes_cong) (simp add: Qu)
  moreover have "pbuf_bytes Q m x = take r (pbuf_bytes P m x)"
    using read_part [of 0 r "pbuf_len (P x)" "payload (P x)" m] r Qx by (simp add: pbuf_bytes_def)
  ultimately show "chain_bytes Q m (us @ [x]) = take (chain_len P us + r) (chain_bytes P m (us @ x # vs))" using r by simp
qed

lemma realloc_eq:
  assumes n: "n < tot_len (pbufs s p)" and k: "k = usub16 (tot_len (pbufs s p)) n" and l: "realloc_loop p n k s = Some (x, r, s1)" and
    t: "(if pbuf_get_allocsrc (pbufs s1 x) = 0 \<and> r \<noteq> pbuf_len (pbufs s1 x) \<and> \<not> is_custom (pbufs s1 x)
      then let (q', h) = mem_trim x (u16_t (payload (pbufs s1 x) - x + r)) (ram_heap s1) in (q', s1\<lparr>ram_heap := h\<rparr>) else (x, s1)) = (x, t1)" and
    u: "upd_pbuf x (\<lambda>b. b\<lparr>tot_len := pbuf_len b\<rparr>) (upd_pbuf x (\<lambda>b. b\<lparr>pbuf_len := r\<rparr>) t1) = s2" and
    f: "(if pbuf_next (pbufs s2 x) \<noteq> 0 then pbuf_free cf (pbuf_next (pbufs s2 x)) s2 else Some (0, s2)) = Some (c, s3)"
  shows "pbuf_realloc cf p n s = Some (upd_pbuf x (\<lambda>b. b\<lparr>pbuf_next := 0\<rparr>) s3)"
proof -
  have nn: "\<not> n \<ge> tot_len (pbufs s p)" using n by simp
  have "pbuf_realloc cf p n s = (let (q, s) = (x, t1); s = upd_pbuf q (\<lambda>b. b\<lparr>pbuf_len := r\<rparr>) s; s = upd_pbuf q (\<lambda>b. b\<lparr>tot_len := pbuf_len b\<rparr>) s
      in map_option (\<lambda>(_, s). upd_pbuf q (\<lambda>b. b\<lparr>pbuf_next := 0\<rparr>) s)
           (if pbuf_next (pbufs s q) \<noteq> 0 then pbuf_free cf (pbuf_next (pbufs s q)) s else Some (0, s)))"
    unfolding pbuf_realloc_def if_not_P [OF nn] k [symmetric] l option.case prod.case t ..
  then show ?thesis by (simp only: Let_def prod.case u f option.map)
qed

lemma realloc_spec:
  assumes p: "packet (pbufs s) p qs" "p \<noteq> 0" and n: "n < tot_len (pbufs s p)" and bm: "buf_mem base s L R"
    and ow: "\<forall>q \<in> set qs. pbuf_owned s L R q \<and> 1 \<le> pbuf_ref (pbufs s q) \<and> pbuf_ref (pbufs s q) < 256"
    and hr: "\<forall>q \<in> set qs. pbuf_get_allocsrc (pbufs s q) = 0 \<longrightarrow>
      (\<exists>l. (q, l) \<in> R \<and> q + SIZEOF_STRUCT_PBUF \<le> payload (pbufs s q) \<and> payload (pbufs s q) + pbuf_len (pbufs s q) \<le> q + l)"
  shows "\<exists>us x vs s' R'. qs = us @ x # vs \<and> pbuf_realloc cf p n s = Some s' \<and> packet (pbufs s') p (us @ [x]) \<and> tot_len (pbufs s' p) = n \<and> lmem s' = lmem s \<and>
    chain_bytes (pbufs s') m (us @ [x]) = take n (chain_bytes (pbufs s) m qs) \<and>
    buf_mem base s' (back_to (pbufs s) (gone (pbufs s) vs) L) (heap_left (pbufs s) (gone (pbufs s) vs) R') \<and> fst ` R' = fst ` R"
proof -
  let ?P = "pbufs s"
  have c: "pchain ?P p qs" "tots_ok ?P qs" "chain_len ?P qs < 2 ^ 16" "tot_len (?P p) = chain_len ?P qs" using p packet_tot [OF p] by (auto simp: packet_def)
  define k where "k = usub16 (tot_len (?P p)) n"
  obtain us x vs where w: "qs = us @ x # vs" "chain_len ?P us \<le> n" "n \<le> chain_len ?P us + pbuf_len (?P x)"
    "realloc_loop p n k s = Some (x, n - chain_len ?P us, s\<lparr>pbufs := sub_tot us k ?P\<rparr>)"
    using realloc_loop_spec [OF c(1) p(2), of n k] n c(4) by auto
  have k: "k = chain_len ?P qs - n" using n c by (simp add: k_def u16_ids)
  define r where "r = n - chain_len ?P us"
  have r: "r \<le> pbuf_len (?P x)" "n = chain_len ?P us + r" using w by (auto simp: r_def)
  have ds: "distinct qs" "0 \<notin> set qs" using pchain_distinct [OF c(1)] by auto
  have xn: "x \<notin> set us" "x \<notin> set vs" "set us \<inter> set vs = {}" "x \<noteq> 0" using ds w(1) by auto
  let ?s1 = "s\<lparr>pbufs := sub_tot us k ?P\<rparr>"
  have x1: "sub_tot us k ?P x = ?P x" using xn by (simp add: sub_tot_def)
  have bm1: "buf_mem base ?s1 L R" using bm by (simp add: buf_mem_def)
  have x1': "pbufs ?s1 x = ?P x" using x1 by simp
  obtain hp R' where h: "cut_heap x r ?s1 = ?s1\<lparr>ram_heap := hp\<rparr>" "buf_mem base (?s1\<lparr>ram_heap := hp\<rparr>) L R'" "fst ` R' = fst ` R"
    and hx: "pbuf_get_allocsrc (?P x) = 0 \<and> r \<noteq> pbuf_len (?P x) \<and> \<not> is_custom (?P x) \<longrightarrow> fst (mem_trim x (u16_t (payload (?P x) - x + r)) (ram_heap ?s1)) = x"
    using cut_heap_spec [OF bm1, of r x, unfolded x1'] r(1) hr w(1) by auto
  define P2 where "P2 = (sub_tot us k ?P)(x := (?P x)\<lparr>pbuf_len := r, tot_len := r\<rparr>)"
  let ?s2 = "?s1\<lparr>ram_heap := hp, pbufs := P2\<rparr>"
  have nx: "pchain ?P (pbuf_next (?P x)) vs" using c(1) unfolding w(1) by (induction us arbitrary: p) auto
  have vsame: "P2 q = ?P q" if "q \<in> set vs" for q using that xn by (auto simp: P2_def sub_tot_def)
  have g: "gone P2 vs = gone ?P vs" "touched P2 vs = touched ?P vs" using gone_cong [of vs P2 ?P] vsame by auto
  have ch2: "pchain (pbufs ?s2) (pbuf_next (?P x)) vs" using nx pchain_cong [of vs P2 ?P] vsame by simp
  have bm2: "buf_mem base ?s2 L R'" using h(2) by (simp add: buf_mem_def)
  have sub: "set (gone ?P vs) \<subseteq> set vs" "set (touched ?P vs) \<subseteq> set vs" using gone_subset [of ?P vs] by auto
  have rf: "\<forall>q \<in> set (touched (pbufs ?s2) vs). 1 \<le> pbuf_ref (pbufs ?s2 q) \<and> pbuf_ref (pbufs ?s2 q) < 256"
    using ow w(1) g sub vsame by (auto simp: subset_iff)
  have ow2: "\<forall>q \<in> set (gone (pbufs ?s2) vs). pbuf_owned ?s2 L R' q"
  proof
    fix q assume "q \<in> set (gone (pbufs ?s2) vs)"
    then have q: "q \<in> set vs" using g sub by auto
    then have "pbuf_owned s L R q" using ow w(1) by simp
    then show "pbuf_owned ?s2 L R' q" using vsame [OF q] h(3) by (simp add: pbuf_owned_def)
  qed
  obtain M h2 where f: "pbuf_free_loop cf (pbuf_next (?P x)) 0 ?s2 = Some (u8_t (length (gone ?P vs)), ?s2\<lparr>pools := M, ram_heap := h2, pbufs := unref (touched ?P vs) P2\<rparr>)"
    "buf_mem base (?s2\<lparr>pools := M, ram_heap := h2, pbufs := unref (touched ?P vs) P2\<rparr>) (back_to P2 (gone ?P vs) L) (heap_left P2 (gone ?P vs) R')"
    using free_loop_spec [OF ch2 bm2 rf ow2, of 0 cf] g by (auto simp: Let_def)
  define s' where "s' = ?s2\<lparr>pools := M, ram_heap := h2, pbufs := (unref (touched ?P vs) P2)(x := (unref (touched ?P vs) P2 x)\<lparr>pbuf_next := 0\<rparr>)\<rparr>"
  have fr: "(if pbuf_next (?P x) \<noteq> 0 then pbuf_free cf (pbuf_next (?P x)) ?s2 else Some (0, ?s2)) =
      Some (u8_t (length (gone ?P vs)), ?s2\<lparr>pools := M, ram_heap := h2, pbufs := unref (touched ?P vs) P2\<rparr>)"
    using f(1) free_loop_0 [of cf 0 ?s2] by (cases "pbuf_next (?P x) = 0") (simp_all add: pbuf_free_def)
  have re: "pbuf_realloc cf p n s = Some s'"
  proof -
    have A: "(if pbuf_get_allocsrc (pbufs ?s1 x) = 0 \<and> r \<noteq> pbuf_len (pbufs ?s1 x) \<and> \<not> is_custom (pbufs ?s1 x)
        then let (q', h) = mem_trim x (u16_t (payload (pbufs ?s1 x) - x + r)) (ram_heap ?s1) in (q', ?s1\<lparr>ram_heap := h\<rparr>) else (x, ?s1)) = (x, ?s1\<lparr>ram_heap := hp\<rparr>)"
      using h(1) hx unfolding x1' cut_heap_def by (auto simp: split_beta split: if_splits)
    have B: "upd_pbuf x (\<lambda>b. b\<lparr>tot_len := pbuf_len b\<rparr>) (upd_pbuf x (\<lambda>b. b\<lparr>pbuf_len := r\<rparr>) (?s1\<lparr>ram_heap := hp\<rparr>)) = ?s2"
      using x1 by (simp add: upd_pbuf_def P2_def)
    have C: "pbuf_next (pbufs ?s2 x) = pbuf_next (?P x)" by (simp add: P2_def)
    from realloc_eq [OF n k_def w(4) [folded r_def] A B, unfolded C, OF fr]
    show ?thesis by (simp add: s'_def upd_pbuf_def)
  qed
  let ?Q = "pbufs s'"
  have Qx: "?Q x = (?P x)\<lparr>pbuf_len := r, tot_len := r, pbuf_next := 0\<rparr>" using sub xn by (auto simp: s'_def P2_def unref_def)
  have Qu: "?Q q = sub_tot us k ?P q" if "q \<in> set us" for q using that sub xn by (auto simp: s'_def P2_def unref_def)
  have kr: "k = pbuf_len (?P x) + chain_len ?P vs - r" using k r w(1) by simp
  note cp = cut_packet [OF p [unfolded w(1)] r(1) Qx Qu [unfolded kr]]
  have "back_to P2 (gone ?P vs) L = back_to ?P (gone ?P vs) L" by (rule back_to_cong) (use vsame sub in auto)
  moreover have "heap_left P2 (gone ?P vs) R' = heap_left ?P (gone ?P vs) R'" by (rule heap_left_cong) (use vsame sub in auto)
  ultimately have "buf_mem base s' (back_to ?P (gone ?P vs) L) (heap_left ?P (gone ?P vs) R')" using f(2) by (simp add: s'_def buf_mem_def)
  moreover have "lmem s' = lmem s" by (simp add: s'_def)
  ultimately show ?thesis using w(1) re cp r(2) h(3)
    by - (rule exI [of _ us], rule exI [of _ x], rule exI [of _ vs], rule exI [of _ s'], rule exI [of _ R'], simp)
qed

subsection \<open>Properties\<close>

text \<open>C22: \<open>pbuf_free\<close> releases exactly the buffers nobody else refers to. On a chain whose counts are in 1..255 and whose front
  buffers are in use, it returns the number of buffers in front of the first one with a second reference, gives
  the memory of each of them back to where it came from and nothing else, decreases the count of the
  shared buffer by one, and leaves the rest of the chain and all data unchanged.\<close>

theorem pbuf_free_releases:
  assumes "pchain (pbufs s) p qs" "p \<noteq> 0" "buf_mem base s L R" "\<forall>q \<in> set qs. 1 \<le> pbuf_ref (pbufs s q) \<and> pbuf_ref (pbufs s q) < 256"
    "\<forall>q \<in> set (gone (pbufs s) qs). pbuf_owned s L R q" "length qs < 256"
  shows "\<exists>s'. pbuf_free cf p s = Some (length (gone (pbufs s) qs), s') \<and> pbufs s' = unref (touched (pbufs s) qs) (pbufs s) \<and> lmem s' = lmem s \<and>
    buf_mem base s' (back_to (pbufs s) (gone (pbufs s) qs) L) (heap_left (pbufs s) (gone (pbufs s) qs) R)"
proof -
  have t: "\<forall>q \<in> set (touched (pbufs s) qs). 1 \<le> pbuf_ref (pbufs s q) \<and> pbuf_ref (pbufs s q) < 256"
    using assms(4) gone_subset(2) [of "pbufs s" qs] by blast
  have "length (gone (pbufs s) qs) < 256" using assms(6) length_takeWhile_le [of _ qs] unfolding gone_def by (rule order_le_less_trans [rotated])
  then have u: "u8_t (0 + length (gone (pbufs s) qs)) = length (gone (pbufs s) qs)" by (simp add: u8_t_def)
  from free_loop_spec [OF assms(1,3) t assms(5), of 0 cf] obtain M h where
    "pbuf_free_loop cf p 0 s = Some (length (gone (pbufs s) qs), s\<lparr>pools := M, ram_heap := h, pbufs := unref (touched (pbufs s) qs) (pbufs s)\<rparr>)"
    "buf_mem base (s\<lparr>pools := M, ram_heap := h, pbufs := unref (touched (pbufs s) qs) (pbufs s)\<rparr>)
       (back_to (pbufs s) (gone (pbufs s) qs) L) (heap_left (pbufs s) (gone (pbufs s) qs) R)"
    unfolding Let_def u by auto
  then show ?thesis using assms(2) by (auto simp: pbuf_free_def)
qed

text \<open>\<open>pbuf_chain\<close> and \<open>pbuf_dechain\<close> are inverse. Chaining a single buffer in front of a packet makes one packet
  whose bytes are those of the two one after the other and whose total lengths are right; taking the first
  buffer off again returns the second packet and restores the state.\<close>

theorem pbuf_chain_roundtrip:
  assumes "packet (pbufs s) h [h]" "packet (pbufs s) t ts" "t \<noteq> 0" "h \<notin> set ts" "tot_len (pbufs s h) + tot_len (pbufs s t) < 2 ^ 16"
    "1 \<le> pbuf_ref (pbufs s t)" "pbuf_ref (pbufs s t) < 255"
  shows "\<exists>s1. pbuf_chain h t s = Some s1 \<and> packet (pbufs s1) h (h # ts) \<and>
    chain_bytes (pbufs s1) m (h # ts) = chain_bytes (pbufs s) m [h] @ chain_bytes (pbufs s) m ts \<and> pbuf_dechain cf h s1 = Some (t, s)"
  using chain_dechain [OF assms, of m cf] by simp

text \<open>Room for a header is gained and given back without loss: for a buffer whose data follow the structure
  with at least \<open>n\<close> bytes between, \<open>pbuf_add_header\<close> succeeds, the packet stays consistent and consists of the \<open>n\<close> bytes
  in front and the old bytes, and \<open>pbuf_remove_header\<close> restores the state.\<close>

theorem pbuf_header_roundtrip:
  assumes "packet (pbufs s) p qs" "p \<noteq> 0" "0 < n" "tot_len (pbufs s p) + n < 2 ^ 16" "room (pbufs s) off sz p" "n \<le> off"
    "type_internal (pbufs s p) AND PBUF_TYPE_FLAG_STRUCT_DATA_CONTIGUOUS \<noteq> 0"
  shows "\<exists>s1. pbuf_add_header p n s = (False, s1) \<and> packet (pbufs s1) p qs \<and>
    chain_bytes (pbufs s1) m qs = read_bytes (payload (pbufs s p) - n) n m @ chain_bytes (pbufs s) m qs \<and> pbuf_remove_header p n s1 = (False, s)"
  using assms by (intro header_spec) (auto simp: room_def)

text \<open>\<open>pbuf_realloc\<close> cuts a packet at the end and gives the rest back: the packet then consists of its first \<open>n\<close> bytes, its
  total lengths are right, the buffers behind the cut that nobody else refers to are released to their
  pools or the heap, and the last buffer, when it is on the heap, keeps its place in a smaller block.\<close>

theorem pbuf_realloc_truncates:
  assumes "packet (pbufs s) p qs" "p \<noteq> 0" "n < tot_len (pbufs s p)" "buf_mem base s L R"
    "\<forall>q \<in> set qs. pbuf_owned s L R q \<and> 1 \<le> pbuf_ref (pbufs s q) \<and> pbuf_ref (pbufs s q) < 256"
    "\<forall>q \<in> set qs. pbuf_get_allocsrc (pbufs s q) = 0 \<longrightarrow>
      (\<exists>l. (q, l) \<in> R \<and> q + SIZEOF_STRUCT_PBUF \<le> payload (pbufs s q) \<and> payload (pbufs s q) + pbuf_len (pbufs s q) \<le> q + l)"
  shows "\<exists>us x vs s' R'. qs = us @ x # vs \<and> pbuf_realloc cf p n s = Some s' \<and> packet (pbufs s') p (us @ [x]) \<and> tot_len (pbufs s' p) = n \<and> lmem s' = lmem s \<and>
    chain_bytes (pbufs s') m (us @ [x]) = take n (chain_bytes (pbufs s) m qs) \<and>
    buf_mem base s' (back_to (pbufs s) (gone (pbufs s) vs) L) (heap_left (pbufs s) (gone (pbufs s) vs) R') \<and> fst ` R' = fst ` R"
  by (rule realloc_spec [OF assms])

text \<open>A packet of two buffers of the pool in use.\<close>

definition demo_pkt :: lwip where
  "demo_pkt = demo_lwip\<lparr>pbufs := demo_pbufs
     (600 := \<lparr>pbuf_next = 44000, payload = 700, tot_len = 6, pbuf_len = 4, type_internal = 0x82, pbuf_flags = 0, pbuf_ref = 1, if_idx = 0\<rparr>,
      44000 := \<lparr>pbuf_next = 0, payload = 44100, tot_len = 2, pbuf_len = 2, type_internal = 0x82, pbuf_flags = 0, pbuf_ref = 1, if_idx = 0\<rparr>)\<rparr>"

lemma demo_pkt_packet: "packet (pbufs demo_pkt) 600 [600, 44000]" "packet (pbufs demo_pkt) 300 [300]" "room (pbufs demo_pkt) 54 1528 600"
  by (simp_all add: demo_pkt_def packet_def room_def SIZEOF_STRUCT_PBUF_def demo_pbufs_def)

lemma demo_pkt_mem: "buf_mem 1000 demo_pkt demo_pools {}" "\<forall>q \<in> set [600, 44000]. pbuf_owned demo_pkt demo_pools {} q"
  using demo_buf_mem(1) by (simp_all add: demo_pkt_def buf_mem_def pbuf_owned_def demo_pools_def pbuf_get_allocsrc_def is_custom_def PBUF_TYPE_ALLOC_SRC_MASK_def)

lemma demo_pkt_fields: "pbuf_ref (pbufs demo_pkt 600) = 1" "pbuf_ref (pbufs demo_pkt 44000) = 1" "tot_len (pbufs demo_pkt 600) = 6" "tot_len (pbufs demo_pkt 300) = 0"
  "pbuf_get_allocsrc (pbufs demo_pkt 600) = 2" "pbuf_get_allocsrc (pbufs demo_pkt 44000) = 2" "type_internal (pbufs demo_pkt 600) = 0x82" "payload (pbufs demo_pkt 600) = 700"
  by (simp_all add: demo_pkt_def demo_pbufs_def pbuf_get_allocsrc_def PBUF_TYPE_ALLOC_SRC_MASK_def)

theorem pbuf_free_releases_witness:
  "\<exists>s'. pbuf_free (\<lambda>_ s. s) 600 demo_pkt = Some (2, s') \<and> buf_mem 1000 s' (demo_pools(MEMP_PBUF_POOL := [44000, 600, 40000, 42000])) {}"
proof -
  have "pchain (pbufs demo_pkt) 600 [600, 44000]" using demo_pkt_packet(1) by (simp add: packet_def)
  from pbuf_free_releases [OF this _ demo_pkt_mem(1), of "\<lambda>_ s. s"] demo_pkt_mem(2) show ?thesis
    by (auto simp: demo_pkt_fields heap_left_def demo_pools_def)
qed

theorem pbuf_chain_roundtrip_witness:
  "\<exists>s1. pbuf_chain 300 600 demo_pkt = Some s1 \<and> packet (pbufs s1) 300 [300, 600, 44000] \<and> pbuf_dechain (\<lambda>_ s. s) 300 s1 = Some (600, demo_pkt)"
  using pbuf_chain_roundtrip [OF demo_pkt_packet(2,1), of demo_bytes "\<lambda>_ s. s"] by (auto simp: demo_pkt_fields)

theorem pbuf_header_roundtrip_witness:
  "\<exists>s1. pbuf_add_header 600 54 demo_pkt = (False, s1) \<and> packet (pbufs s1) 600 [600, 44000] \<and> pbuf_remove_header 600 54 s1 = (False, demo_pkt)"
proof -
  have "type_internal (pbufs demo_pkt 600) AND PBUF_TYPE_FLAG_STRUCT_DATA_CONTIGUOUS \<noteq> 0"
    by (simp add: demo_pkt_fields PBUF_TYPE_FLAG_STRUCT_DATA_CONTIGUOUS_def)
  from pbuf_header_roundtrip [OF demo_pkt_packet(1) _ _ _ demo_pkt_packet(3), of 54 demo_bytes] this show ?thesis by (auto simp: demo_pkt_fields)
qed

theorem pbuf_realloc_truncates_witness:
  "\<exists>us x vs s'. [600, 44000] = us @ x # vs \<and> pbuf_realloc (\<lambda>_ s. s) 600 3 demo_pkt = Some s' \<and> packet (pbufs s') 600 (us @ [x]) \<and> tot_len (pbufs s' 600) = 3"
proof -
  have "\<forall>q \<in> set [600, 44000]. pbuf_owned demo_pkt demo_pools {} q \<and> 1 \<le> pbuf_ref (pbufs demo_pkt q) \<and> pbuf_ref (pbufs demo_pkt q) < 256"
    using demo_pkt_mem(2) by (simp add: demo_pkt_fields)
  from pbuf_realloc_truncates [OF demo_pkt_packet(1) _ _ demo_pkt_mem(1) this, of 3 "\<lambda>_ s. s" demo_bytes] show ?thesis
    by (simp add: demo_pkt_fields) blast
qed

end
