(* ===== verification/PbufWrite.thy ===== *)
theory PbufWrite
  imports PbufChain
begin

text \<open>
  Writing into packets and copying them, in terms of the bytes of the chain.
\<close>

subsection \<open>Replacing a slice of a packet\<close>

definition put_slice :: "nat \<Rightarrow> 'a list \<Rightarrow> 'a list \<Rightarrow> 'a list" where
  "put_slice k ys xs = take k xs @ ys @ drop (k + length ys) xs"

lemma length_put_slice [simp]: "k + length ys \<le> length xs \<Longrightarrow> length (put_slice k ys xs) = length xs"
  by (simp add: put_slice_def)

lemma put_slice_nil [simp]: "k \<le> length xs \<Longrightarrow> put_slice k [] xs = xs"
  by (simp add: put_slice_def)

lemma put_slice_append: "k + length (as @ bs) \<le> length xs \<Longrightarrow> put_slice (k + length as) bs (put_slice k as xs) = put_slice k (as @ bs) xs"
  by (simp add: put_slice_def add.assoc add.commute [of "length bs"])

lemma put_slice_read: "k + length ys \<le> length xs \<Longrightarrow> take (length ys) (drop k (put_slice k ys xs)) = ys"
  by (simp add: put_slice_def)

text \<open>The data of the buffers do not overlap.\<close>

definition apart_bufs :: "(nat \<Rightarrow> pbuf) \<Rightarrow> nat \<Rightarrow> nat \<Rightarrow> bool" where
  "apart_bufs P q r \<longleftrightarrow> payload (P q) + pbuf_len (P q) \<le> payload (P r) \<or> payload (P r) + pbuf_len (P r) \<le> payload (P q)"

fun data_apart :: "(nat \<Rightarrow> pbuf) \<Rightarrow> nat list \<Rightarrow> bool" where
  "data_apart P [] \<longleftrightarrow> True"
| "data_apart P (q # qs) \<longleftrightarrow> (\<forall>r \<in> set qs. apart_bufs P q r) \<and> data_apart P qs"

lemma data_apart_mid: "data_apart P (us @ q # vs) \<Longrightarrow> r \<in> set us \<union> set vs \<Longrightarrow> apart_bufs P q r"
  by (induction us) (auto simp: apart_bufs_def)

lemma pbuf_bytes_other:
  assumes "apart_bufs P q r" "j + length ys \<le> pbuf_len (P q)"
  shows "pbuf_bytes P (write_bytes (payload (P q) + j) ys m) r = pbuf_bytes P m r"
  unfolding pbuf_bytes_def by (rule read_write_other) (use assms in \<open>auto simp: apart_bufs_def\<close>)

lemma pbuf_bytes_splice:
  assumes "j + length ys \<le> pbuf_len (P q)"
  shows "pbuf_bytes P (write_bytes (payload (P q) + j) ys m) q = put_slice j ys (pbuf_bytes P m q)"
proof (rule nth_equalityI)
  fix i assume i: "i < length (pbuf_bytes P (write_bytes (payload (P q) + j) ys m) q)"
  show "pbuf_bytes P (write_bytes (payload (P q) + j) ys m) q ! i = put_slice j ys (pbuf_bytes P m q) ! i"
    using i assms by (auto simp: pbuf_bytes_def put_slice_def nth_append write_bytes_def)
qed (use assms in simp)

lemma chain_bytes_others: "\<forall>r \<in> set rs. apart_bufs P q r \<Longrightarrow> j + length ys \<le> pbuf_len (P q) \<Longrightarrow>
    chain_bytes P (write_bytes (payload (P q) + j) ys m) rs = chain_bytes P m rs"
  by (induction rs) (auto simp: pbuf_bytes_other)

text \<open>A write into one buffer replaces the slice at its place in the packet.\<close>

lemma chain_splice:
  assumes "data_apart P (us @ q # vs)" "j + length ys \<le> pbuf_len (P q)"
  shows "chain_bytes P (write_bytes (payload (P q) + j) ys m) (us @ q # vs) = put_slice (chain_len P us + j) ys (chain_bytes P m (us @ q # vs))"
  using chain_bytes_others [of us P q j ys m] chain_bytes_others [of vs P q j ys m] data_apart_mid [OF assms(1)] assms(2)
  by (simp add: pbuf_bytes_splice put_slice_def)

text \<open>Memory outside the data of a chain.\<close>

definition outside :: "(nat \<Rightarrow> pbuf) \<Rightarrow> nat list \<Rightarrow> bytes \<Rightarrow> bytes \<Rightarrow> bool" where
  "outside P qs m m' \<longleftrightarrow> (\<forall>a. (\<forall>q \<in> set qs. a < payload (P q) \<or> payload (P q) + pbuf_len (P q) \<le> a) \<longrightarrow> m' a = m a)"

lemma outside_refl [simp]: "outside P qs m m"
  by (simp add: outside_def)

lemma outside_trans: "outside P qs m m' \<Longrightarrow> outside P qs m' m'' \<Longrightarrow> outside P qs m m''"
  by (simp add: outside_def)

lemma outside_write: "q \<in> set qs \<Longrightarrow> j + length ys \<le> pbuf_len (P q) \<Longrightarrow> outside P qs m (write_bytes (payload (P q) + j) ys m)"
  by (fastforce simp: outside_def write_bytes_def)

subsection \<open>Writing\<close>

lemma take_loop_spec:
  assumes "pchain (pbufs s) p qs" "data_apart (pbufs s) (us @ qs)" "length dat \<le> chain_len (pbufs s) qs"
  shows "\<exists>m'. take_loop p dat s = Some (s\<lparr>lmem := m'\<rparr>) \<and> outside (pbufs s) qs (lmem s) m' \<and>
    chain_bytes (pbufs s) m' (us @ qs) = put_slice (chain_len (pbufs s) us) dat (chain_bytes (pbufs s) (lmem s) (us @ qs))"
  using assms
proof (induction qs arbitrary: p s us dat)
  case Nil
  then show ?case by (intro exI [of _ "lmem s"]) (simp add: take_loop.simps)
next
  case (Cons q qs)
  let ?P = "pbufs s"
  have q: "p = q" "pchain ?P (pbuf_next (?P q)) qs" using Cons.prems(1) by auto
  show ?case
  proof (cases "dat = []")
    case True
    then show ?thesis by (intro exI [of _ "lmem s"]) (simp add: take_loop.simps)
  next
    case False
    define n where "n = min (length dat) (pbuf_len (?P q))"
    let ?m = "write_bytes (payload (?P q)) (take n dat) (lmem s)" and ?xs = "chain_bytes ?P (lmem s) (us @ q # qs)"
    let ?s = "s\<lparr>lmem := ?m\<rparr>"
    have e: "take_loop p dat s = take_loop (pbuf_next (?P q)) (drop n dat) ?s"
      using False q by (subst take_loop.simps) (auto simp: n_def mem_write_def Let_def min_def)
    have n: "n \<le> pbuf_len (?P q)" "n \<le> length dat" by (auto simp: n_def)
    have sp: "chain_bytes ?P ?m (us @ q # qs) = put_slice (chain_len ?P us) (take n dat) ?xs"
      using chain_splice [OF Cons.prems(2), of 0 "take n dat" "lmem s"] n by simp
    have w: "outside ?P (q # qs) (lmem s) ?m" using outside_write [of q "q # qs" 0 "take n dat" ?P "lmem s"] n by simp
    have le: "length (drop n dat) \<le> chain_len (pbufs ?s) qs" using Cons.prems(3) by (auto simp: n_def min_def)
    obtain m' where m': "take_loop (pbuf_next (?P q)) (drop n dat) ?s = Some (?s\<lparr>lmem := m'\<rparr>)" "outside ?P qs ?m m'"
      "chain_bytes ?P m' ((us @ [q]) @ qs) = put_slice (chain_len ?P (us @ [q])) (drop n dat) (chain_bytes ?P ?m ((us @ [q]) @ qs))"
      using Cons.IH [of ?s "pbuf_next (?P q)" "us @ [q]" "drop n dat"] q(2) Cons.prems(2) le by auto
    have "put_slice (chain_len ?P (us @ [q])) (drop n dat) (put_slice (chain_len ?P us) (take n dat) ?xs) = put_slice (chain_len ?P us) dat ?xs"
    proof (cases "n = length dat")
      case True
      then show ?thesis using Cons.prems(3) n by simp
    next
      case False
      then have "n = pbuf_len (?P q)" by (auto simp: n_def)
      then show ?thesis using put_slice_append [of "chain_len ?P us" "take n dat" "drop n dat" ?xs] Cons.prems(3) n by simp
    qed
    moreover have "outside ?P (q # qs) (lmem s) m'" using outside_trans [OF w] m'(2) by (auto simp: outside_def)
    ultimately show ?thesis using e m' sp by (intro exI [of _ m']) simp
  qed
qed

lemma take_spec:
  assumes p: "packet (pbufs s) p qs" "p \<noteq> 0" and d: "data_apart (pbufs s) (us @ qs)" and n: "length dat \<le> tot_len (pbufs s p)"
  shows "\<exists>m'. pbuf_take p dat s = Some (ERR_OK, s\<lparr>lmem := m'\<rparr>) \<and> outside (pbufs s) qs (lmem s) m' \<and>
    chain_bytes (pbufs s) m' (us @ qs) = put_slice (chain_len (pbufs s) us) dat (chain_bytes (pbufs s) (lmem s) (us @ qs))"
proof -
  have c: "pchain (pbufs s) p qs" "tot_len (pbufs s p) = chain_len (pbufs s) qs" using p packet_tot [OF p] by (auto simp: packet_def)
  show ?thesis using take_loop_spec [OF c(1) d, of dat] n c(2) p(2) by (auto simp: pbuf_take_def)
qed

lemma packet_suffix: "packet P p (us @ q # vs) \<Longrightarrow> packet P (pbuf_next (P q)) vs \<and> (vs \<noteq> [] \<longrightarrow> pbuf_next (P q) \<noteq> 0) \<and> tot_len (P q) = chain_len P (q # vs)"
proof (induction us arbitrary: p)
  case Nil
  then show ?case by (cases vs) (auto simp: packet_def)
qed (auto simp: packet_def)

lemma take_at_spec:
  assumes p: "packet (pbufs s) p qs" "p \<noteq> 0" and d: "data_apart (pbufs s) qs"
  shows "if k < tot_len (pbufs s p) \<and> k + length dat \<le> tot_len (pbufs s p)
    then \<exists>m'. pbuf_take_at p dat k s = Some (ERR_OK, s\<lparr>lmem := m'\<rparr>) \<and> outside (pbufs s) qs (lmem s) m' \<and>
      chain_bytes (pbufs s) m' qs = put_slice k dat (chain_bytes (pbufs s) (lmem s) qs)
    else pbuf_take_at p dat k s = Some (ERR_MEM, s)"
proof -
  let ?P = "pbufs s"
  have c: "pchain ?P p qs" "tot_len (?P p) = chain_len ?P qs" using p packet_tot [OF p] by (auto simp: packet_def)
  show ?thesis
  proof (cases "k < tot_len (?P p)")
    case False
    then have "pbuf_skip_const ?P p k = Some (0, k - chain_len ?P qs)" using skip_spec [OF c(1), of k] c(2) by simp
    then show ?thesis using False by (simp add: pbuf_take_at_def pbuf_skip_def)
  next
    case True
    then obtain us q vs where w: "qs = us @ q # vs" "chain_len ?P us \<le> k" "k - chain_len ?P us < pbuf_len (?P q)" "q \<noteq> 0"
      "pbuf_skip_const ?P p k = Some (q, k - chain_len ?P us)" using skip_spec [OF c(1), of k] c(2) by auto
    define j where "j = k - chain_len ?P us"
    note sf = packet_suffix [OF p(1) [unfolded w(1)]]
    show ?thesis
    proof (cases "k + length dat \<le> tot_len (?P p)")
      case False
      then show ?thesis using True w sf c(2) by (auto simp: pbuf_take_at_def pbuf_skip_def)
    next
      case fits: True
      define n where "n = min (pbuf_len (?P q) - j) (length dat)"
      let ?m = "write_bytes (payload (?P q) + j) (take n dat) (lmem s)" and ?xs = "chain_bytes ?P (lmem s) qs"
      let ?s = "s\<lparr>lmem := ?m\<rparr>"
      have n: "j + n \<le> pbuf_len (?P q)" "n \<le> length dat" using w(3) by (auto simp: n_def j_def)
      have sp: "chain_bytes ?P ?m qs = put_slice k (take n dat) ?xs"
        using chain_splice [OF d [unfolded w(1)], of j "take n dat" "lmem s"] n w(1,2) by (simp add: j_def)
      have ou: "outside ?P qs (lmem s) ?m" using outside_write [of q qs j "take n dat" ?P "lmem s"] n w(1) by simp
      have e: "pbuf_take_at p dat k s = (if length dat - n > 0 then pbuf_take (pbuf_next (?P q)) (drop n dat) ?s else Some (ERR_OK, ?s))"
      proof -
        have "j + length dat \<le> tot_len (?P q)" using sf fits c(2) w(1,2) by (simp add: j_def)
        then show ?thesis using w(4,5) by (simp add: pbuf_take_at_def pbuf_skip_def mem_write_def j_def [symmetric] n_def Let_def)
      qed
      show ?thesis
      proof (cases "length dat - n > 0")
        case False
        then have "take n dat = dat" using n by simp
        then show ?thesis using e sp ou True fits False by auto
      next
        case more: True
        then have n': "j + n = pbuf_len (?P q)" using w(3) by (auto simp: n_def j_def min_def split: if_splits)
        then have rest: "length (drop n dat) \<le> chain_len ?P vs" "vs \<noteq> []" using fits c(2) w(1,2) more by (auto simp: j_def)
        have p': "packet (pbufs ?s) (pbuf_next (?P q)) vs" "pbuf_next (?P q) \<noteq> 0" using sf rest(2) by auto
        have "tot_len (?P (pbuf_next (?P q))) = chain_len ?P vs" using packet_tot [OF p'] by simp
        then obtain m' where m': "pbuf_take (pbuf_next (?P q)) (drop n dat) ?s = Some (ERR_OK, ?s\<lparr>lmem := m'\<rparr>)" "outside ?P vs ?m m'"
          "chain_bytes ?P m' ((us @ [q]) @ vs) = put_slice (chain_len ?P (us @ [q])) (drop n dat) (chain_bytes ?P ?m ((us @ [q]) @ vs))"
          using take_spec [OF p', of "us @ [q]" "drop n dat"] rest(1) d w(1) by auto
        have kn: "chain_len ?P (us @ [q]) = k + length (take n dat)" using n' w(2) n by (simp add: j_def)
        have "chain_bytes ?P m' qs = put_slice (k + length (take n dat)) (drop n dat) (put_slice k (take n dat) ?xs)"
          using m'(3) sp unfolding kn w(1) by simp
        also have "\<dots> = put_slice k dat ?xs" using put_slice_append [of k "take n dat" "drop n dat" ?xs] fits c(2) by simp
        finally have "chain_bytes ?P m' qs = put_slice k dat ?xs" .
        moreover have "outside ?P qs (lmem s) m'" using outside_trans [OF ou] m'(2) w(1) by (auto simp: outside_def)
        ultimately show ?thesis using e m'(1) more True fits by auto
      qed
    qed
  qed
qed

lemma put_at_spec:
  assumes p: "packet (pbufs s) p qs" "p \<noteq> 0" and d: "data_apart (pbufs s) qs"
  shows "\<exists>m'. pbuf_put_at p k b s = Some (s\<lparr>lmem := m'\<rparr>) \<and> outside (pbufs s) qs (lmem s) m' \<and>
    chain_bytes (pbufs s) m' qs = (chain_bytes (pbufs s) (lmem s) qs)[k := b]"
proof -
  let ?P = "pbufs s"
  have c: "pchain ?P p qs" using p by (simp add: packet_def)
  show ?thesis
  proof (cases "k < chain_len ?P qs")
    case False
    then show ?thesis using skip_spec [OF c, of k] by (intro exI [of _ "lmem s"]) (simp add: pbuf_put_at_def pbuf_skip_def list_update_beyond)
  next
    case True
    then obtain us q vs where w: "qs = us @ q # vs" "chain_len ?P us \<le> k" "k - chain_len ?P us < pbuf_len (?P q)" "q \<noteq> 0"
      "pbuf_skip_const ?P p k = Some (q, k - chain_len ?P us)" using skip_spec [OF c, of k] by auto
    let ?m = "write_bytes (payload (?P q) + (k - chain_len ?P us)) [b] (lmem s)"
    have "chain_bytes ?P ?m qs = put_slice k [b] (chain_bytes ?P (lmem s) qs)"
      using chain_splice [OF d [unfolded w(1)], of "k - chain_len ?P us" "[b]" "lmem s"] w by simp
    also have "\<dots> = (chain_bytes ?P (lmem s) qs)[k := b]" using True by (simp add: put_slice_def upd_conv_take_nth_drop)
    finally show ?thesis using w outside_write [of q qs "k - chain_len ?P us" "[b]" ?P "lmem s"]
      by (intro exI [of _ ?m]) (simp add: pbuf_put_at_def pbuf_skip_def mem_write_def)
  qed
qed

subsection \<open>Copying a packet\<close>

text \<open>A packet without empty buffers.\<close>

definition solid :: "(nat \<Rightarrow> pbuf) \<Rightarrow> nat \<Rightarrow> nat list \<Rightarrow> bool" where
  "solid P p qs \<longleftrightarrow> packet P p qs \<and> (\<forall>q \<in> set qs. 0 < pbuf_len (P q))"

lemma solid_next: "solid P q (q # qs) \<Longrightarrow> solid P (pbuf_next (P q)) qs \<and> (pbuf_next (P q) = 0 \<longleftrightarrow> qs = [])"
  by (cases qs) (auto simp: solid_def packet_def)

lemma solid_end: "solid P q qs \<Longrightarrow> q \<noteq> 0 \<Longrightarrow> pbuf_len (P q) = tot_len (P q) \<Longrightarrow> pbuf_next (P q) = 0"
  by (cases qs; cases "tl qs") (auto simp: solid_def packet_def)

lemma solid_len: "solid P q (q # qs) \<Longrightarrow> pbuf_len (P q) < 2 ^ 16"
  by (simp add: solid_def packet_def)

lemma copy_step:
  assumes t: "solid (pbufs s) t (t # ts)" "j < pbuf_len (pbufs s t)" and f: "solid (pbufs s) f (f # fs)" "i < pbuf_len (pbufs s f)"
  defines "n \<equiv> min (pbuf_len (pbufs s t) - j) (pbuf_len (pbufs s f) - i)"
  defines "s1 \<equiv> s\<lparr>lmem := write_bytes (payload (pbufs s t) + j) (read_bytes (payload (pbufs s f) + i) n (lmem s)) (lmem s)\<rparr>"
  defines "f' \<equiv> if i + n = pbuf_len (pbufs s f) then pbuf_next (pbufs s f) else f"
  defines "t' \<equiv> if j + n = pbuf_len (pbufs s t) then pbuf_next (pbufs s t) else t"
  defines "j' \<equiv> if j + n = pbuf_len (pbufs s t) then 0 else j + n"
  defines "i' \<equiv> if i + n = pbuf_len (pbufs s f) then 0 else i + n"
  assumes ok: "f' \<noteq> 0 \<Longrightarrow> t' \<noteq> 0"
  shows "copy_loop t f j i s = (if f' \<noteq> 0 then copy_loop t' f' j' i' s1 else Some (ERR_OK, s1))"
proof -
  let ?P = "pbufs s"
  have us: "usub (pbuf_len (?P t)) j = pbuf_len (?P t) - j" "usub (pbuf_len (?P f)) i = pbuf_len (?P f) - i"
    using t(2) f(2) solid_len [OF t(1)] solid_len [OF f(1)] by (simp_all add: usub_def mod_if)
  have n: "(if pbuf_len (?P t) - j \<ge> pbuf_len (?P f) - i then pbuf_len (?P f) - i else pbuf_len (?P t) - j) = n" by (auto simp: n_def)
  have fe: "i + n \<ge> pbuf_len (?P f) \<longleftrightarrow> i + n = pbuf_len (?P f)" using f(2) by (auto simp: n_def)
  have sf: "\<exists>qs. solid ?P f' qs" "\<exists>qs. solid ?P t' qs" using solid_next [OF f(1)] solid_next [OF t(1)] f(1) t(1) by (auto simp: f'_def t'_def)
  have "\<not> (q \<noteq> 0 \<and> pbuf_len (?P q) = tot_len (?P q) \<and> pbuf_next (?P q) \<noteq> 0)" if "\<exists>qs. solid ?P q qs" for q
    using that solid_end [of ?P q] by metis
  note v = this [OF sf(1)] this [OF sf(2)]
  have e: "(if i + n \<ge> pbuf_len (?P f) then (pbuf_next (?P f), 0) else (f, i + n)) = (f', i')"
    "(if j + n = pbuf_len (?P t) then (pbuf_next (?P t), 0) else (t, j + n)) = (t', j')"
    by (simp_all add: fe f'_def i'_def t'_def j'_def)
  show ?thesis
    by (subst copy_loop.simps, simp only: Let_def us n, simp only: e prod.case, simp only: mem_write_def s1_def [symmetric]) (use ok v in auto)
qed

lemma copy_loop_spec:
  assumes "solid (pbufs s) t (t # ts)" "j < pbuf_len (pbufs s t)" "solid (pbufs s) f (f # fs)" "i < pbuf_len (pbufs s f)"
    "data_apart (pbufs s) (us @ t # ts)" "\<forall>q \<in> set (us @ t # ts). \<forall>r \<in> set (f # fs). apart_bufs (pbufs s) q r"
    "chain_len (pbufs s) (f # fs) - i \<le> chain_len (pbufs s) (t # ts) - j"
  shows "\<exists>m'. copy_loop t f j i s = Some (ERR_OK, s\<lparr>lmem := m'\<rparr>) \<and> outside (pbufs s) (us @ t # ts) (lmem s) m' \<and>
    chain_bytes (pbufs s) m' (us @ t # ts) =
      put_slice (chain_len (pbufs s) us + j) (drop i (chain_bytes (pbufs s) (lmem s) (f # fs))) (chain_bytes (pbufs s) (lmem s) (us @ t # ts))"
  using assms
proof (induction "length ts + length fs" arbitrary: s t ts us f fs i j rule: less_induct)
  case less
  let ?P = "pbufs s"
  define n where "n = min (pbuf_len (?P t) - j) (pbuf_len (?P f) - i)"
  let ?y = "read_bytes (payload (?P f) + i) n (lmem s)"
  let ?m = "write_bytes (payload (?P t) + j) ?y (lmem s)" and ?X = "chain_bytes ?P (lmem s) (us @ t # ts)" and ?Y = "chain_bytes ?P (lmem s) (f # fs)"
  let ?s = "s\<lparr>lmem := ?m\<rparr>" and ?k = "chain_len ?P us + j"
  have n: "j + n \<le> pbuf_len (?P t)" "i + n \<le> pbuf_len (?P f)" "j + n = pbuf_len (?P t) \<or> i + n = pbuf_len (?P f)"
    using less.prems(2,4) by (auto simp: n_def)
  have y: "?y = take n (drop i (pbuf_bytes ?P (lmem s) f))" unfolding pbuf_bytes_def by (rule read_part [OF n(2)])
  have sp: "chain_bytes ?P ?m (us @ t # ts) = put_slice ?k ?y ?X" using n(1) by (intro chain_splice [OF less.prems(5)]) simp
  have ou: "outside ?P (us @ t # ts) (lmem s) ?m" using n(1) by (intro outside_write) simp_all
  have same: "chain_bytes ?P ?m rs = chain_bytes ?P (lmem s) rs" if "set rs \<subseteq> set (f # fs)" for rs
    using less.prems(6) that n(1) by (intro chain_bytes_others) (auto simp: subset_iff)
  note st = copy_step [OF less.prems(1,2,3,4), folded n_def]
  have nt: "solid ?P (pbuf_next (?P t)) ts" "pbuf_next (?P t) = 0 \<longleftrightarrow> ts = []" using solid_next [OF less.prems(1)] by auto
  have nf: "solid ?P (pbuf_next (?P f)) fs" "pbuf_next (?P f) = 0 \<longleftrightarrow> fs = []" using solid_next [OF less.prems(3)] by auto
  have pos: "solid ?P q (q # qs) \<Longrightarrow> 0 < pbuf_len (?P q)" for q qs by (simp add: solid_def)
  have hd: "solid ?P q qs \<Longrightarrow> qs \<noteq> [] \<Longrightarrow> \<exists>qs'. qs = q # qs'" for q qs by (cases qs) (auto simp: solid_def packet_def)
  have len: "length ?X = chain_len ?P us + chain_len ?P (t # ts)" by simp
  have go: ?case
    if c: "copy_loop t f j i s = copy_loop t' f' j' i' ?s" and T: "solid ?P t' (t' # ts')" "j' < pbuf_len (?P t')" "us @ t # ts = us' @ t' # ts'" "chain_len ?P us' + j' = ?k + n"
      and F: "solid ?P f' (f' # fs')" "i' < pbuf_len (?P f')" "set (f' # fs') \<subseteq> set (f # fs)" "drop i ?Y = ?y @ drop i' (chain_bytes ?P (lmem s) (f' # fs'))"
      and l: "length ts' + length fs' < length ts + length fs" for t' f' j' i' us' ts' fs'
  proof -
    let ?z = "drop i' (chain_bytes ?P (lmem s) (f' # fs'))"
    have ly: "length (drop i ?Y) = n + length ?z" unfolding F(4) by simp
    then have lz: "chain_len ?P (f # fs) - i = n + (chain_len ?P (f' # fs') - i')" by simp
    have cl: "chain_len ?P us + chain_len ?P (t # ts) = chain_len ?P us' + chain_len ?P (t' # ts')"
      using arg_cong [OF T(3), of "chain_len ?P"] by simp
    have rem: "chain_len (pbufs ?s) (f' # fs') - i' \<le> chain_len (pbufs ?s) (t' # ts') - j'"
      using less.prems(7,2) lz cl T(2,4) by simp
    obtain m' where m': "copy_loop t' f' j' i' ?s = Some (ERR_OK, ?s\<lparr>lmem := m'\<rparr>)" "outside ?P (us' @ t' # ts') ?m m'"
      "chain_bytes ?P m' (us' @ t' # ts') = put_slice (chain_len ?P us' + j') (drop i' (chain_bytes ?P ?m (f' # fs'))) (chain_bytes ?P ?m (us' @ t' # ts'))"
          proof -
      have ap: "data_apart (pbufs ?s) (us' @ t' # ts')" "\<forall>q \<in> set (us' @ t' # ts'). \<forall>r \<in> set (f' # fs'). apart_bufs (pbufs ?s) q r"
        using less.prems(5,6) F(3) unfolding T(3) by (auto simp: subset_iff)
      have so: "solid (pbufs ?s) t' (t' # ts')" "j' < pbuf_len (pbufs ?s t')" "solid (pbufs ?s) f' (f' # fs')" "i' < pbuf_len (pbufs ?s f')"
        using T F by simp_all
      from less.hyps [OF l so ap rem] show thesis by (elim exE conjE) (rule that, simp_all)
    qed
    have "chain_bytes ?P m' (us @ t # ts) = put_slice (?k + length ?y) ?z (put_slice ?k ?y ?X)"
      using m'(3) unfolding same [OF F(3)] T(3) [symmetric] sp T(4) by simp
    also have "\<dots> = put_slice ?k (?y @ ?z) ?X"
      by (rule put_slice_append) (use less.prems(2,7) lz len in simp)
    finally have "chain_bytes ?P m' (us @ t # ts) = put_slice ?k (drop i ?Y) ?X" unfolding F(4) .
    then show ?thesis using c m'(1) outside_trans [OF ou m'(2) [folded T(3)]] by (intro exI [of _ m']) simp
  qed
  show ?case
  proof (cases "i + n = pbuf_len (?P f)")
    case False
    then have jt: "j + n = pbuf_len (?P t)" using n(3) by simp
    have ne: "ts \<noteq> []" using less.prems(7) False n(2) jt by auto
    then obtain ts' where ts: "ts = pbuf_next (?P t) # ts'" using hd [OF nt(1)] by blast
    show ?thesis
    proof (rule go [of "pbuf_next (?P t)" f 0 "i + n" ts' "us @ [t]" fs])
      show "copy_loop t f j i s = copy_loop (pbuf_next (?P t)) f 0 (i + n) ?s" using st False jt ne nt(2) less.prems(3) by (auto simp: solid_def packet_def)
      show "solid ?P (pbuf_next (?P t)) (pbuf_next (?P t) # ts')" using nt(1) ts by simp
      then show "0 < pbuf_len (?P (pbuf_next (?P t)))" by (rule pos)
      show "drop i ?Y = ?y @ drop (i + n) (chain_bytes ?P (lmem s) (f # fs))" using n(2) unfolding y by (simp add: add.commute [of i n] drop_drop [symmetric] del: drop_drop)
    qed (use less.prems(3) False n ts jt in auto)
  next
    case fe: True
    have dy: "drop i ?Y = ?y @ drop 0 (chain_bytes ?P (lmem s) fs)" using fe unfolding y by simp
    show ?thesis
    proof (cases "fs = []")
      case True
      then have "copy_loop t f j i s = Some (ERR_OK, ?s)" using st fe nf(2) by simp
      then show ?thesis using sp ou dy True by (intro exI [of _ ?m]) simp
    next
      case fn: False
      then obtain fs' where fs: "fs = pbuf_next (?P f) # fs'" using hd [OF nf(1)] by blast
      have F: "solid ?P (pbuf_next (?P f)) (pbuf_next (?P f) # fs')" using nf(1) fs by simp
      show ?thesis
      proof (cases "j + n = pbuf_len (?P t)")
        case True
        have ne: "ts \<noteq> []" using less.prems(7) fe True pos [OF F] fs by auto
        then obtain ts' where ts: "ts = pbuf_next (?P t) # ts'" using hd [OF nt(1)] by blast
        have T: "solid ?P (pbuf_next (?P t)) (pbuf_next (?P t) # ts')" using nt(1) ts by simp
        show ?thesis
          by (rule go [of "pbuf_next (?P t)" "pbuf_next (?P f)" 0 0 ts' "us @ [t]" fs'])
            (use st fe True ne nt(2) nf(2) fn T F pos [OF T] pos [OF F] ts fs dy in auto)
      next
        case False
        show ?thesis
          by (rule go [of t "pbuf_next (?P f)" "j + n" 0 ts us fs'])
            (use st fe False nf(2) fn less.prems(1) n F pos [OF F] fs dy in \<open>auto simp: solid_def packet_def\<close>)
      qed
    qed
  qed
qed

lemma copy_spec:
  assumes t: "solid (pbufs s) t ts" "t \<noteq> 0" and f: "solid (pbufs s) f fs" "f \<noteq> 0" and d: "data_apart (pbufs s) ts"
    and x: "\<forall>q \<in> set ts. \<forall>r \<in> set fs. apart_bufs (pbufs s) q r" and n: "tot_len (pbufs s f) \<le> tot_len (pbufs s t)"
  shows "\<exists>m'. pbuf_copy t f s = Some (ERR_OK, s\<lparr>lmem := m'\<rparr>) \<and> outside (pbufs s) ts (lmem s) m' \<and>
    chain_bytes (pbufs s) m' ts = put_slice 0 (chain_bytes (pbufs s) (lmem s) fs) (chain_bytes (pbufs s) (lmem s) ts)"
proof -
  obtain ts' where ts: "ts = t # ts'" using t by (cases ts) (auto simp: solid_def packet_def)
  obtain fs' where fs: "fs = f # fs'" using f by (cases fs) (auto simp: solid_def packet_def)
  have pt: "packet (pbufs s) t ts" "packet (pbufs s) f fs" using t f by (auto simp: solid_def)
  have "chain_len (pbufs s) fs \<le> chain_len (pbufs s) ts" using packet_tot [OF pt(1) t(2)] packet_tot [OF pt(2) f(2)] n by simp
  moreover have "0 < pbuf_len (pbufs s t)" "0 < pbuf_len (pbufs s f)" using t f ts fs by (auto simp: solid_def)
  ultimately show ?thesis
    using copy_loop_spec [of s t ts' 0 f fs' 0 "[]"] t f d x n unfolding ts fs by (auto simp: pbuf_copy_def)
qed

text \<open>Data and structures that lie in a block in use or outside the heap.\<close>

definition settled :: "nat \<Rightarrow> (nat \<times> nat) set \<Rightarrow> nat \<Rightarrow> nat \<Rightarrow> bool" where
  "settled base R a n \<longleftrightarrow> (\<exists>(b, l) \<in> R. b \<le> a \<and> a + n \<le> b + l) \<or> a + n \<le> base + 8 \<or> base + MEM_SIZE_ALIGNED \<le> a"

lemma settled_apart:
  assumes r: "lwip_rep base h (insert (p, l) R)" "\<forall>x \<in> R. apart (p, l) x" and a: "settled base R a n"
  shows "a + n \<le> p \<or> p + l \<le> a"
proof -
  have "base + 8 \<le> p \<and> p + l \<le> base + MEM_SIZE_ALIGNED" using lwip_rep_bounds [OF r(1)] by blast
  then show ?thesis using r(2) a by (force simp: settled_def apart_def)
qed

lemma clone_spec:
  assumes bm: "buf_mem base s L R" "pools_apart base L" and p: "solid (pbufs s) p qs" "p \<noteq> 0"
    and se: "\<forall>q \<in> set qs. settled base R (payload (pbufs s q)) (pbuf_len (pbufs s q)) \<and> settled base R q 1"
  shows "pbuf_clone cf g layer PBUF_RAM p s = Some (0, s) \<or>
    (\<exists>q n s'. pbuf_clone cf g layer PBUF_RAM p s = Some (q, s') \<and> q \<noteq> 0 \<and> q \<notin> set qs \<and> packet (pbufs s') q [q] \<and> buf_mem base s' L (insert (q, n) R) \<and>
       chain_bytes (pbufs s') (lmem s') [q] = chain_bytes (pbufs s) (lmem s) qs \<and>
       packet (pbufs s') p qs \<and> chain_bytes (pbufs s') (lmem s') qs = chain_bytes (pbufs s) (lmem s) qs)"
proof -
  let ?P = "pbufs s" and ?N = "tot_len (pbufs s p)"
  have pk: "packet ?P p qs" using p by (simp add: solid_def)
  have N: "?N = chain_len ?P qs" by (rule packet_tot [OF pk p(2)])
  have N16: "?N < 2 ^ 16" using N pk by (simp add: packet_def)
  from heap_alloc_spec [OF bm(1) N16 bm(2), of cf g layer] show ?thesis
  proof (elim disjE exE conjE)
    assume "pbuf_alloc cf g layer ?N PBUF_RAM s = Some (0, s)"
    then show ?thesis by (simp add: pbuf_clone_def)
  next
    fix q n s1
    assume al: "pbuf_alloc cf g layer ?N PBUF_RAM s = Some (q, s1)" "q \<noteq> 0" "allocated base s L R q [q] ?N s1 L (insert (q, n) R)"
      and ro: "room (pbufs s1) (layer_offset layer) (n - SIZEOF_STRUCT_PBUF) q" and ap: "\<forall>x \<in> R. apart (q, n) x"
    let ?Q = "pbufs s1"
    have bm1: "buf_mem base s1 L (insert (q, n) R)" and pq: "packet ?Q q [q]" "pbuf_len (?Q q) = ?N" and out: "\<forall>r. r \<noteq> q \<longrightarrow> ?Q r = ?P r"
      and lm: "lmem s1 = lmem s" and hl: "heap_left ?Q [q] (insert (q, n) R) = R"
      using al(3) by (auto simp: allocated_def)
    have rep: "lwip_rep base (ram_heap s1) (insert (q, n) R)" using bm1 by (simp add: buf_mem_def)
    have n0: "0 < n" using lwip_rep_bounds [OF rep] by blast
    note sa = settled_apart [OF rep ap]
    have qn: "q \<notin> set qs" using se sa [of q 1] n0 by auto
    have same: "?Q r = ?P r" if "r \<in> set qs" for r using that qn out by auto
    have pp: "packet ?Q p qs = packet ?P p qs" by (rule packet_cong) (simp add: same)
    have cb: "chain_bytes ?Q m qs = chain_bytes ?P m qs" for m by (rule chain_bytes_cong) (simp add: same)
    have dq: "q \<le> payload (?Q q)" "payload (?Q q) + ?N \<le> q + n" if "0 < ?N" using ro pq(2) that by (auto simp: room_def SIZEOF_STRUCT_PBUF_def)
    have Np: "0 < ?N" using p N by (cases qs) (auto simp: solid_def packet_def)
    have x: "apart_bufs ?Q q r" if "r \<in> set qs" for r
      using sa [of "payload (?P r)" "pbuf_len (?P r)"] se that same [OF that] dq [OF Np] pq(2) by (auto simp: apart_bufs_def)
    have sol: "solid ?Q q [q]" "solid ?Q p qs" using pq Np p same pp by (auto simp: solid_def)
    have tots: "tot_len (?Q q) = ?N" "tot_len (?Q p) = ?N" using packet_tot [OF pq(1) al(2)] pq(2) packet_tot [OF pk [folded pp] p(2)] N chain_len_cong [of qs ?Q ?P] same by auto
    obtain m' where m': "pbuf_copy q p s1 = Some (ERR_OK, s1\<lparr>lmem := m'\<rparr>)" "outside ?Q [q] (lmem s1) m'"
      "chain_bytes ?Q m' [q] = put_slice 0 (chain_bytes ?Q (lmem s1) qs) (chain_bytes ?Q (lmem s1) [q])"
      using copy_spec [OF sol(1) al(2) sol(2) p(2)] x tots by auto
    have "chain_bytes ?Q m' [q] = chain_bytes ?P (lmem s) qs" unfolding m'(3) cb lm using pq(2) N by (simp add: put_slice_def)
    moreover have "chain_bytes ?Q m' qs = chain_bytes ?P (lmem s) qs"
    proof -
      have "chain_bytes ?Q m' rs = chain_bytes ?Q (lmem s1) rs" if "set rs \<subseteq> set qs" for rs
        using that
      proof (induction rs)
        case (Cons r rs)
        have "pbuf_bytes ?Q m' r = pbuf_bytes ?Q (lmem s1) r" unfolding pbuf_bytes_def
          using m'(2) x [of r] Cons.prems by (intro read_bytes_cong) (auto simp: outside_def apart_bufs_def)
        then show ?case using Cons by simp
      qed simp
      from this [of qs] show ?thesis using cb lm by simp
    qed
    moreover have "pbuf_clone cf g layer PBUF_RAM p s = Some (q, s1\<lparr>lmem := m'\<rparr>)" using al(1,2) m'(1) by (simp add: pbuf_clone_def)
    ultimately show ?thesis using al(2) qn pq(1) bm1 pk pp
      by (intro disjI2 exI [of _ q] exI [of _ n] exI [of _ "s1\<lparr>lmem := m'\<rparr>"]) (simp add: buf_mem_def del: chain_bytes_simps)
  qed
qed

subsection \<open>Properties\<close>

text \<open>C23: What is written into a packet is read back, wherever it lies across buffers. \<open>pbuf_take_at\<close> succeeds exactly when the offset
  is inside the packet and the data fit behind it; then it replaces exactly that slice of the bytes of the
  packet, changes no memory outside it, and \<open>pbuf_copy_partial\<close> at the same offset returns the data. Otherwise it
  returns \<open>ERR_MEM\<close> and changes nothing.\<close>

theorem pbuf_take_at_roundtrip:
  assumes p: "packet (pbufs s) p qs" "p \<noteq> 0" and d: "data_apart (pbufs s) qs" and a: "a \<noteq> 0" "clear_of (pbufs s) qs a (length dat)"
  shows "if k < tot_len (pbufs s p) \<and> k + length dat \<le> tot_len (pbufs s p)
    then \<exists>m'. pbuf_take_at p dat k s = Some (ERR_OK, s\<lparr>lmem := m'\<rparr>) \<and> outside (pbufs s) qs (lmem s) m' \<and>
      chain_bytes (pbufs s) m' qs = put_slice k dat (chain_bytes (pbufs s) (lmem s) qs) \<and>
      pbuf_copy_partial (pbufs s) p a (length dat) k m' = Some (length dat, write_bytes a dat m')
    else pbuf_take_at p dat k s = Some (ERR_MEM, s)"
proof (cases "k < tot_len (pbufs s p) \<and> k + length dat \<le> tot_len (pbufs s p)")
  case True
  have c: "pchain (pbufs s) p qs" "tot_len (pbufs s p) = chain_len (pbufs s) qs" "chain_len (pbufs s) qs < 2 ^ 16"
    using p packet_tot [OF p] by (auto simp: packet_def)
  obtain m' where m': "pbuf_take_at p dat k s = Some (ERR_OK, s\<lparr>lmem := m'\<rparr>)" "outside (pbufs s) qs (lmem s) m'"
    "chain_bytes (pbufs s) m' qs = put_slice k dat (chain_bytes (pbufs s) (lmem s) qs)" using take_at_spec [OF p d, of k dat] True by auto
  have "take (length dat) (drop k (chain_bytes (pbufs s) m' qs)) = dat" unfolding m'(3) using True c(2) by (intro put_slice_read) simp
  then have "pbuf_copy_partial (pbufs s) p a (length dat) k m' = Some (length dat, write_bytes a dat m')"
    using copy_partial_spec [OF c(1) p(2) a, of k m'] True c(2,3) by (simp add: Let_def)
  then show ?thesis using m' True by auto
next
  case False
  then show ?thesis using take_at_spec [OF p d, of k dat] by auto
qed

text \<open>\<open>pbuf_clone\<close> copies a packet. It returns \<open>NULL\<close> with the state unchanged when the heap has no room, or a new packet in one
  buffer on the heap with the bytes of the original, whatever the buffers of the original are; the original
  is unchanged and the new block is disjoint from every block in use.\<close>

theorem pbuf_clone_copies:
  assumes "buf_mem base s L R" "pools_apart base L" "solid (pbufs s) p qs" "p \<noteq> 0"
    "\<forall>q \<in> set qs. settled base R (payload (pbufs s q)) (pbuf_len (pbufs s q)) \<and> settled base R q 1"
  shows "pbuf_clone cf g layer PBUF_RAM p s = Some (0, s) \<or>
    (\<exists>q n s'. pbuf_clone cf g layer PBUF_RAM p s = Some (q, s') \<and> q \<noteq> 0 \<and> q \<notin> set qs \<and> packet (pbufs s') q [q] \<and> buf_mem base s' L (insert (q, n) R) \<and>
       chain_bytes (pbufs s') (lmem s') [q] = chain_bytes (pbufs s) (lmem s) qs \<and>
       packet (pbufs s') p qs \<and> chain_bytes (pbufs s') (lmem s') qs = chain_bytes (pbufs s) (lmem s) qs)"
  by (rule clone_spec [OF assms])

theorem pbuf_take_at_roundtrip_witness:
  "\<exists>m'. pbuf_take_at 600 [7, 8, 9] 2 demo_pkt = Some (ERR_OK, demo_pkt\<lparr>lmem := m'\<rparr>) \<and>
     pbuf_copy_partial (pbufs demo_pkt) 600 9000 3 2 m' = Some (3, write_bytes 9000 [7, 8, 9] m')"
proof -
  have d: "data_apart (pbufs demo_pkt) [600, 44000]" "clear_of (pbufs demo_pkt) [600, 44000] 9000 (length [7, 8, 9 :: u8])"
    by (simp_all add: demo_pkt_def apart_bufs_def clear_of_def)
  have "\<exists>m'. pbuf_take_at 600 [7, 8, 9] 2 demo_pkt = Some (ERR_OK, demo_pkt\<lparr>lmem := m'\<rparr>) \<and>
      pbuf_copy_partial (pbufs demo_pkt) 600 9000 (length [7, 8, 9 :: u8]) 2 m' = Some (length [7, 8, 9 :: u8], write_bytes 9000 [7, 8, 9] m')"
    using pbuf_take_at_roundtrip [OF demo_pkt_packet(1) _ d(1) _ d(2), of 2] by (simp add: demo_pkt_fields del: chain_bytes_simps) blast
  then show ?thesis by (simp add: eval_nat_numeral)
qed

theorem pbuf_clone_copies_witness:
  "pbuf_clone (\<lambda>_ s. s) (window id) PBUF_IP PBUF_RAM 600 demo_pkt = Some (0, demo_pkt) \<or>
   (\<exists>q s'. pbuf_clone (\<lambda>_ s. s) (window id) PBUF_IP PBUF_RAM 600 demo_pkt = Some (q, s') \<and>
      chain_bytes (pbufs s') (lmem s') [q] = chain_bytes (pbufs demo_pkt) (lmem demo_pkt) [600, 44000])"
proof -
  have s: "solid (pbufs demo_pkt) 600 [600, 44000]" using demo_pkt_packet(1) by (simp add: solid_def demo_pkt_def)
  have t: "\<forall>q \<in> set [600, 44000]. settled 1000 {} (payload (pbufs demo_pkt q)) (pbuf_len (pbufs demo_pkt q)) \<and> settled 1000 {} q 1"
    by (simp add: settled_def demo_pkt_def MEM_SIZE_ALIGNED_def)
  have "(600 :: nat) \<noteq> 0" by simp
  from pbuf_clone_copies [OF demo_pkt_mem(1) demo_buf_mem(2) s this t, of "\<lambda>_ s. s" "window id" PBUF_IP] show ?thesis by blast
qed

end
