(* ===== verification/Timeouts.thy ===== *)
theory Timeouts
  imports PbufAlloc "HOL-Library.Multiset"
begin

text \<open>
  The time-outs of the network stack (\<open>timeouts.c\<close>): a linked list of structures from a pool, ordered by their time
  in a 32-bit clock of milliseconds that wraps around.
\<close>

subsection \<open>The code\<close>

datatype timeout_fn = LWIP_CYCLIC_TIMER | TCPIP_TCP_TIMER | Handler nat

record sys_timeo =
  timeo_next :: nat
  timeo_time :: u32
  timeo_h :: "timeout_fn option"
  timeo_arg :: nat

text \<open>The stack with its time-outs; of the TCP module only the heads of the two lists the timer looks at.\<close>

record tstack =
  lw :: lwip
  timeos :: "nat \<Rightarrow> sys_timeo"
  next_timeout :: nat
  current_timeout_due_time :: u32
  tcpip_tcp_timer_active :: bool
  tcp_active_pcbs :: nat
  tcp_tw_pcbs :: nat

text \<open>The functions that the handlers call: the timer functions of the other modules by their place in
  \<open>lwip_cyclic_timers\<close>, \<open>tcp_tmr\<close>, and the handlers of clients.\<close>

record timer_fns =
  cyclic_fn :: "nat \<Rightarrow> tstack \<Rightarrow> tstack"
  tcp_tmr :: "tstack \<Rightarrow> tstack"
  client_fn :: "nat \<Rightarrow> nat \<Rightarrow> tstack \<Rightarrow> tstack"

definition LWIP_MAX_TIMEOUT :: u32 where "LWIP_MAX_TIMEOUT = 0x7fffffff"

definition TIME_LESS_THAN :: "u32 \<Rightarrow> u32 \<Rightarrow> bool" where
  "TIME_LESS_THAN t compare_to \<longleftrightarrow> t - compare_to > LWIP_MAX_TIMEOUT"

definition lwip_cyclic_timers :: "u32 list" where
  "lwip_cyclic_timers = [250, 1000, 1000, 60000, 500]"

definition now_of :: "tstack \<Rightarrow> u32" where
  "now_of s = sys_now (os (lw s))"

text \<open>The loop that finds the place behind the structures that are not later.\<close>

partial_function (option) timeout_insert :: "nat \<Rightarrow> nat \<Rightarrow> (nat \<Rightarrow> sys_timeo) \<Rightarrow> (nat \<Rightarrow> sys_timeo) option" where
  "timeout_insert t timeout T =
     (if t \<noteq> 0
      then if timeo_next (T t) = 0 \<or> TIME_LESS_THAN (timeo_time (T timeout)) (timeo_time (T (timeo_next (T t))))
           then let T = T(timeout := (T timeout)\<lparr>timeo_next := timeo_next (T t)\<rparr>) in Some (T(t := (T t)\<lparr>timeo_next := timeout\<rparr>))
           else timeout_insert (timeo_next (T t)) timeout T
      else Some T)"

definition sys_timeout_abs :: "u32 \<Rightarrow> timeout_fn option \<Rightarrow> nat \<Rightarrow> tstack \<Rightarrow> tstack option" where
  "sys_timeout_abs abs_time handler arg s =
     (let (timeout, l) = pool_malloc MEMP_SYS_TIMEOUT (lw s); s = s\<lparr>lw := l\<rparr>
      in if timeout = 0 then Some s
         else let s = s\<lparr>timeos := (timeos s)(timeout := \<lparr>timeo_next = 0, timeo_time = abs_time, timeo_h = handler, timeo_arg = arg\<rparr>)\<rparr>
              in if next_timeout s = 0 then Some (s\<lparr>next_timeout := timeout\<rparr>)
                 else if TIME_LESS_THAN (timeo_time (timeos s timeout)) (timeo_time (timeos s (next_timeout s)))
                 then Some (s\<lparr>timeos := (timeos s)(timeout := (timeos s timeout)\<lparr>timeo_next := next_timeout s\<rparr>), next_timeout := timeout\<rparr>)
                 else map_option (\<lambda>T. s\<lparr>timeos := T\<rparr>) (timeout_insert (next_timeout s) timeout (timeos s)))"

definition sys_timeout :: "u32 \<Rightarrow> timeout_fn option \<Rightarrow> nat \<Rightarrow> tstack \<Rightarrow> tstack option" where
  "sys_timeout msecs handler arg s = sys_timeout_abs (now_of s + msecs) handler arg s"

definition lwip_cyclic_timer :: "timer_fns \<Rightarrow> nat \<Rightarrow> tstack \<Rightarrow> tstack option" where
  "lwip_cyclic_timer F arg s =
     (let s = cyclic_fn F arg s;
          now = now_of s;
          next_timeout_time = current_timeout_due_time s + lwip_cyclic_timers ! arg
      in if TIME_LESS_THAN next_timeout_time now
         then sys_timeout_abs (now + lwip_cyclic_timers ! arg) (Some LWIP_CYCLIC_TIMER) arg s
         else sys_timeout_abs next_timeout_time (Some LWIP_CYCLIC_TIMER) arg s)"

definition TCP_TMR_INTERVAL :: u32 where "TCP_TMR_INTERVAL = 250"

definition tcpip_tcp_timer :: "timer_fns \<Rightarrow> tstack \<Rightarrow> tstack option" where
  "tcpip_tcp_timer F s =
     (let s = tcp_tmr F s
      in if tcp_active_pcbs s \<noteq> 0 \<or> tcp_tw_pcbs s \<noteq> 0 then sys_timeout TCP_TMR_INTERVAL (Some TCPIP_TCP_TIMER) 0 s
         else Some (s\<lparr>tcpip_tcp_timer_active := False\<rparr>))"

definition tcp_timer_needed :: "tstack \<Rightarrow> tstack option" where
  "tcp_timer_needed s =
     (if \<not> tcpip_tcp_timer_active s \<and> (tcp_active_pcbs s \<noteq> 0 \<or> tcp_tw_pcbs s \<noteq> 0)
      then sys_timeout TCP_TMR_INTERVAL (Some TCPIP_TCP_TIMER) 0 (s\<lparr>tcpip_tcp_timer_active := True\<rparr>) else Some s)"

definition run_timeout :: "timer_fns \<Rightarrow> timeout_fn \<Rightarrow> nat \<Rightarrow> tstack \<Rightarrow> tstack option" where
  "run_timeout F h arg s =
     (case h of LWIP_CYCLIC_TIMER \<Rightarrow> lwip_cyclic_timer F arg s | TCPIP_TCP_TIMER \<Rightarrow> tcpip_tcp_timer F s | Handler n \<Rightarrow> Some (client_fn F n arg s))"

fun start_cyclic :: "nat list \<Rightarrow> tstack \<Rightarrow> tstack option" where
  "start_cyclic [] s = Some s"
| "start_cyclic (i # is') s =
     (case sys_timeout (lwip_cyclic_timers ! i) (Some LWIP_CYCLIC_TIMER) i s of None \<Rightarrow> None | Some s \<Rightarrow> start_cyclic is' s)"

definition sys_timeouts_init :: "tstack \<Rightarrow> tstack option" where
  "sys_timeouts_init s = start_cyclic [1..<length lwip_cyclic_timers] s"

definition timeo_release :: "nat \<Rightarrow> tstack \<Rightarrow> tstack" where
  "timeo_release t s = s\<lparr>lw := pool_release MEMP_SYS_TIMEOUT t (lw s)\<rparr>"

partial_function (option) untimeout_loop :: "timeout_fn option \<Rightarrow> nat \<Rightarrow> nat \<Rightarrow> nat \<Rightarrow> tstack \<Rightarrow> tstack option" where
  "untimeout_loop handler arg prev_t t s =
     (if t \<noteq> 0
      then if timeo_h (timeos s t) = handler \<and> timeo_arg (timeos s t) = arg
           then let s = (if prev_t = 0 then s\<lparr>next_timeout := timeo_next (timeos s t)\<rparr>
                         else s\<lparr>timeos := (timeos s)(prev_t := (timeos s prev_t)\<lparr>timeo_next := timeo_next (timeos s t)\<rparr>)\<rparr>)
                in Some (timeo_release t s)
           else untimeout_loop handler arg t (timeo_next (timeos s t)) s
      else Some s)"

definition sys_untimeout :: "timeout_fn option \<Rightarrow> nat \<Rightarrow> tstack \<Rightarrow> tstack option" where
  "sys_untimeout handler arg s = (if next_timeout s = 0 then Some s else untimeout_loop handler arg 0 (next_timeout s) s)"

text \<open>The loop may go on as long as handlers arm time-outs that are due at once.\<close>

partial_function (option) check_loop :: "timer_fns \<Rightarrow> u32 \<Rightarrow> tstack \<Rightarrow> tstack option" where
  "check_loop F now s =
     (let t = next_timeout s
      in if t = 0 then Some s
         else if TIME_LESS_THAN now (timeo_time (timeos s t)) then Some s
         else let handler = timeo_h (timeos s t); arg = timeo_arg (timeos s t);
                  s = timeo_release t (s\<lparr>next_timeout := timeo_next (timeos s t), current_timeout_due_time := timeo_time (timeos s t)\<rparr>)
              in case handler of
                   None \<Rightarrow> check_loop F now s
                 | Some h \<Rightarrow> (case run_timeout F h arg s of None \<Rightarrow> None | Some s \<Rightarrow> check_loop F now s))"

definition sys_check_timeouts :: "timer_fns \<Rightarrow> tstack \<Rightarrow> tstack option" where
  "sys_check_timeouts F s = check_loop F (now_of s) s"

partial_function (option) restart_loop :: "u32 \<Rightarrow> u32 \<Rightarrow> nat \<Rightarrow> (nat \<Rightarrow> sys_timeo) \<Rightarrow> (nat \<Rightarrow> sys_timeo) option" where
  "restart_loop now base t T =
     (if t \<noteq> 0
      then restart_loop now base (timeo_next (T t)) (T(t := (T t)\<lparr>timeo_time := (timeo_time (T t) - base) + now\<rparr>))
      else Some T)"

definition sys_restart_timeouts :: "tstack \<Rightarrow> tstack option" where
  "sys_restart_timeouts s =
     (if next_timeout s = 0 then Some s
      else map_option (\<lambda>T. s\<lparr>timeos := T\<rparr>) (restart_loop (now_of s) (timeo_time (timeos s (next_timeout s))) (next_timeout s) (timeos s)))"

definition SYS_TIMEOUTS_SLEEPTIME_INFINITE :: u32 where "SYS_TIMEOUTS_SLEEPTIME_INFINITE = 0xFFFFFFFF"

definition sys_timeouts_sleeptime :: "tstack \<Rightarrow> u32" where
  "sys_timeouts_sleeptime s =
     (if next_timeout s = 0 then SYS_TIMEOUTS_SLEEPTIME_INFINITE
      else let now = now_of s
           in if TIME_LESS_THAN (timeo_time (timeos s (next_timeout s))) now then 0 else timeo_time (timeos s (next_timeout s)) - now)"

subsection \<open>The order of the list\<close>

text \<open>Times are compared by the place they have after \<open>base\<close>; all of them lie in half the range of the clock.\<close>

definition since :: "u32 \<Rightarrow> u32 \<Rightarrow> nat" where
  "since base t = unat (t - base)"

lemma time_less_iff:
  assumes "since base a < 2 ^ 31" "since base b < 2 ^ 31"
  shows "TIME_LESS_THAN a b \<longleftrightarrow> since base a < since base b"
proof -
  have e: "a - b = (a - base) - (b - base)" by simp
  have "unat (a - b) = (if since base b \<le> since base a then since base a - since base b else since base a + 2 ^ 32 - since base b)"
    unfolding e unat_sub_if' since_def by simp
  moreover have "TIME_LESS_THAN a b \<longleftrightarrow> unat (a - b) > 0x7fffffff"
    by (simp add: TIME_LESS_THAN_def LWIP_MAX_TIMEOUT_def word_less_nat_alt)
  ultimately show ?thesis using assms by (auto split: if_splits)
qed

abbreviation tlinked :: "(nat \<Rightarrow> sys_timeo) \<Rightarrow> nat \<Rightarrow> nat list \<Rightarrow> bool" where
  "tlinked T \<equiv> linked (\<lambda>x. timeo_next (T x))"

definition tkey :: "u32 \<Rightarrow> (nat \<Rightarrow> sys_timeo) \<Rightarrow> nat \<Rightarrow> nat" where
  "tkey base T x = since base (timeo_time (T x))"

text \<open>The place of a new structure: behind those that are due at the same time or before.\<close>

definition place :: "(nat \<Rightarrow> nat) \<Rightarrow> nat \<Rightarrow> nat list \<Rightarrow> nat list" where
  "place key y xs = takeWhile (\<lambda>x. key x \<le> key y) xs @ y # dropWhile (\<lambda>x. key x \<le> key y) xs"

lemma set_place: "set (place key y xs) = insert y (set xs)"
  unfolding place_def by (subst (3) takeWhile_dropWhile_id [of "\<lambda>x. key x \<le> key y" xs, symmetric]) (simp del: takeWhile_dropWhile_id)

lemma place_simps:
  "place key y [] = [y]" "key x \<le> key y \<Longrightarrow> place key y (x # xs) = x # place key y xs" "key y < key x \<Longrightarrow> place key y (x # xs) = y # x # xs"
  by (simp_all add: place_def)

lemma distinct_place: "distinct xs \<Longrightarrow> y \<notin> set xs \<Longrightarrow> distinct (place key y xs)"
proof (induction xs)
  case (Cons x xs)
  then show ?case by (cases "key x \<le> key y") (auto simp: place_simps set_place)
qed (simp add: place_simps)

lemma sorted_place: "sorted (map key xs) \<Longrightarrow> sorted (map key (place key y xs))"
proof (induction xs)
  case (Cons x xs)
  then show ?case by (cases "key x \<le> key y") (auto simp: place_simps set_place)
qed (simp add: place_simps)

lemma linked_cong: "(\<And>x. x \<in> set xs \<Longrightarrow> f x = g x) \<Longrightarrow> linked f p xs = linked g p xs"
  by (induction xs arbitrary: p) auto

lemma timeout_insert_spec:
  assumes "tlinked T p (x # xs)" "distinct (x # xs)" "y \<notin> set (x # xs)" "y \<noteq> 0" "tkey base T x \<le> tkey base T y"
    "\<forall>z \<in> set (y # x # xs). tkey base T z < 2 ^ 31"
  shows "\<exists>T'. timeout_insert p y T = Some T' \<and> tlinked T' p (place (tkey base T) y (x # xs)) \<and>
    (\<forall>z. T' z = (T z)\<lparr>timeo_next := timeo_next (T' z)\<rparr>) \<and> (\<forall>z. z \<notin> set (y # x # xs) \<longrightarrow> T' z = T z)"
  using assms
proof (induction xs arbitrary: p x)
  case Nil
  let ?T = "T(y := (T y)\<lparr>timeo_next := 0\<rparr>, x := (T x)\<lparr>timeo_next := y\<rparr>)"
  have "timeout_insert p y T = Some ?T" using Nil.prems(1,3) by (subst timeout_insert.simps) (auto simp: Let_def)
  then show ?case using Nil.prems by (intro exI [of _ ?T]) (auto simp: place_simps)
next
  case (Cons b xs)
  have x: "p = x" "x \<noteq> 0" "timeo_next (T x) = b" "b \<noteq> 0" "tlinked T b (b # xs)" using Cons.prems(1) by auto
  have w: "tkey base T y < 2 ^ 31" "tkey base T b < 2 ^ 31" using Cons.prems(6) by auto
  have tl: "TIME_LESS_THAN (timeo_time (T y)) (timeo_time (T b)) \<longleftrightarrow> tkey base T y < tkey base T b"
    using time_less_iff [of base "timeo_time (T y)" "timeo_time (T b)"] w by (simp add: tkey_def)
  show ?case
  proof (cases "tkey base T y < tkey base T b")
    case True
    let ?T = "T(y := (T y)\<lparr>timeo_next := b\<rparr>, x := (T x)\<lparr>timeo_next := y\<rparr>)"
    have e: "timeout_insert p y T = Some ?T" using True tl x Cons.prems(3) by (subst timeout_insert.simps) (auto simp: Let_def)
    have "tlinked ?T b (b # xs) = tlinked T b (b # xs)" by (rule linked_cong) (use Cons.prems(2,3) in auto)
    then show ?thesis using e True x Cons.prems by (intro exI [of _ ?T]) (auto simp: place_simps)
  next
    case False
    have e: "timeout_insert p y T = timeout_insert b y T" using False tl x by (subst timeout_insert.simps) simp
    have pre: "distinct (b # xs)" "y \<notin> set (b # xs)" "tkey base T b \<le> tkey base T y" "\<forall>z \<in> set (y # b # xs). tkey base T z < 2 ^ 31"
      using Cons.prems False by auto
    obtain T' where i: "timeout_insert b y T = Some T'" "tlinked T' b (place (tkey base T) y (b # xs))"
      "\<forall>z. T' z = (T z)\<lparr>timeo_next := timeo_next (T' z)\<rparr>" "\<forall>z. z \<notin> set (y # b # xs) \<longrightarrow> T' z = T z"
      using Cons.IH [OF x(5) pre(1,2) Cons.prems(4) pre(3,4)] by blast
    have "T' x = T x" using i(4) Cons.prems(2,3) by auto
    then show ?thesis using e i x Cons.prems(5) by (intro exI [of _ T']) (auto simp: place_simps)
  qed
qed

text \<open>The list in order, its structures in use, and the pools.\<close>

definition timeouts_ok :: "u32 \<Rightarrow> tstack \<Rightarrow> (memp_t \<Rightarrow> nat list) \<Rightarrow> nat list \<Rightarrow> bool" where
  "timeouts_ok base s L xs \<longleftrightarrow> pools_ok (pools (lw s)) L \<and> distinct xs \<and> tlinked (timeos s) (next_timeout s) xs \<and> (\<forall>x \<in> set xs. \<forall>t. x \<notin> set (L t)) \<and>
     (\<forall>x \<in> set xs. tkey base (timeos s) x < 2 ^ 31) \<and> sorted (map (tkey base (timeos s)) xs)"

lemma tkey_cong: "timeo_time (T' x) = timeo_time (T x) \<Longrightarrow> tkey base T' x = tkey base T x"
  by (simp add: tkey_def)

lemma sys_timeout_abs_spec:
  assumes ok: "timeouts_ok base s L xs" and y: "L MEMP_SYS_TIMEOUT = y # ys" and t: "since base tm < 2 ^ 31"
  shows "\<exists>M T p. let s' = s\<lparr>lw := (lw s)\<lparr>pools := M\<rparr>, timeos := T, next_timeout := p\<rparr>
    in sys_timeout_abs tm h a s = Some s' \<and> timeouts_ok base s' (L(MEMP_SYS_TIMEOUT := ys)) (place (tkey base T) y xs) \<and>
      y \<notin> set xs \<and> timeo_time (T y) = tm \<and> timeo_h (T y) = h \<and> timeo_arg (T y) = a \<and>
      (\<forall>z. z \<noteq> y \<longrightarrow> T z = (timeos s z)\<lparr>timeo_next := timeo_next (T z)\<rparr>)"
proof -
  have pk: "pools_ok (pools (lw s)) L" using ok by (simp add: timeouts_ok_def)
  let ?L = "L(MEMP_SYS_TIMEOUT := ys)"
  obtain M where m: "memp_malloc MEMP_SYS_TIMEOUT (pools (lw s)) = (y, M)" "y \<noteq> 0" "pools_ok M ?L" "\<forall>u. y \<notin> set (?L u)"
    using pools_malloc_some [OF pk y] by (elim exE conjE) (rule that)
  have yn: "y \<notin> set xs" using ok y unfolding timeouts_ok_def by (metis list.set_intros(1))
  let ?e = "\<lparr>timeo_next = 0, timeo_time = tm, timeo_h = h, timeo_arg = a\<rparr>"
  let ?T = "(timeos s)(y := ?e)"
  let ?s = "s\<lparr>lw := (lw s)\<lparr>pools := M\<rparr>, timeos := ?T\<rparr>"
  have k: "tkey base ?T y < 2 ^ 31" "tkey base ?T y = since base tm" "\<And>x. x \<in> set xs \<Longrightarrow> tkey base ?T x = tkey base (timeos s) x"
    using t yn by (auto simp: tkey_def)
  have "tlinked ?T (next_timeout s) xs = tlinked (timeos s) (next_timeout s) xs" by (rule linked_cong) (use yn in auto)
  then have tl: "tlinked ?T (next_timeout s) xs" using ok by (simp add: timeouts_ok_def)
  have step: "sys_timeout_abs tm h a s = (if next_timeout s = 0 then Some (?s\<lparr>next_timeout := y\<rparr>)
      else if TIME_LESS_THAN tm (timeo_time (?T (next_timeout s)))
      then Some (?s\<lparr>timeos := ?T(y := ?e\<lparr>timeo_next := next_timeout s\<rparr>), next_timeout := y\<rparr>)
      else map_option (\<lambda>T. ?s\<lparr>timeos := T\<rparr>) (timeout_insert (next_timeout s) y ?T))"
    using m(1,2) by (simp add: sys_timeout_abs_def pool_malloc_def Let_def)
  have fin: ?thesis
    if e: "sys_timeout_abs tm h a s = Some (s\<lparr>lw := (lw s)\<lparr>pools := M\<rparr>, timeos := T', next_timeout := p\<rparr>)"
      and l: "tlinked T' p (place (tkey base ?T) y xs)" and f: "\<And>z. T' z = (?T z)\<lparr>timeo_next := timeo_next (T' z)\<rparr>" for T' p
  proof -
    have kk: "tkey base T' = tkey base ?T" using f by (intro ext) (metis (no_types) sys_timeo.simps(2) sys_timeo.update_convs(1) sys_timeo.surjective tkey_cong sys_timeo.select_convs(2))
    have mk: "map (tkey base ?T) xs = map (tkey base (timeos s)) xs" using k(3) by simp
    have nL: "x \<notin> set (?L u)" if "x \<in> set xs" for x u using ok that y unfolding timeouts_ok_def by (cases "u = MEMP_SYS_TIMEOUT") (auto, metis list.set_intros(2))
    have "sorted (map (tkey base ?T) xs)" unfolding mk using ok by (simp add: timeouts_ok_def)
    then have so: "sorted (map (tkey base ?T) (place (tkey base ?T) y xs))" by (rule sorted_place)
    have di: "distinct (place (tkey base ?T) y xs)" using ok yn by (intro distinct_place) (simp_all add: timeouts_ok_def)
    have "timeouts_ok base (s\<lparr>lw := (lw s)\<lparr>pools := M\<rparr>, timeos := T', next_timeout := p\<rparr>) ?L (place (tkey base T') y xs)"
    proof -
      have w: "\<forall>x \<in> set (place (tkey base T') y xs). tkey base T' x < 2 ^ 31" unfolding kk using ok k by (auto simp: set_place timeouts_ok_def)
      have n: "\<forall>x \<in> set (place (tkey base T') y xs). \<forall>u. x \<notin> set (?L u)" using nL m(4) unfolding set_place by blast
      show ?thesis using m(3) w n l so di unfolding kk [symmetric] by (simp add: timeouts_ok_def)
    qed
    moreover have "timeo_time (T' y) = tm" "timeo_h (T' y) = h" "timeo_arg (T' y) = a" by (subst f, simp)+
    moreover have "T' z = (timeos s z)\<lparr>timeo_next := timeo_next (T' z)\<rparr>" if "z \<noteq> y" for z using f [of z] that by simp
    ultimately show ?thesis using e yn by (intro exI [of _ M] exI [of _ T'] exI [of _ p]) (simp add: Let_def)
  qed
  show ?thesis
  proof (cases xs)
    case Nil
    then have "next_timeout s = 0" using tl by simp
    then show ?thesis by (intro fin [where T' = ?T and p = y]) (use step Nil m(2) in \<open>simp_all add: place_simps\<close>)
  next
    case (Cons x zs)
    then have x: "next_timeout s = x" "x \<noteq> 0" "x \<noteq> y" using tl yn by auto
    have "tkey base ?T x < 2 ^ 31" using ok Cons k(3) by (simp add: timeouts_ok_def)
    then have less: "TIME_LESS_THAN tm (timeo_time (?T x)) \<longleftrightarrow> tkey base ?T y < tkey base ?T x"
      using time_less_iff [of base tm "timeo_time (?T x)"] t by (simp add: tkey_def)
    show ?thesis
    proof (cases "tkey base ?T y < tkey base ?T x")
      case True
      let ?T' = "?T(y := ?e\<lparr>timeo_next := x\<rparr>)"
      have "tlinked ?T' x xs = tlinked ?T x xs" by (rule linked_cong) (use yn in auto)
      then show ?thesis by (intro fin [where T' = ?T' and p = y]) (use step True less x m(2) Cons tl in \<open>simp_all add: place_simps\<close>)
    next
      case False
      have pre: "tlinked ?T x (x # zs)" "distinct (x # zs)" "y \<notin> set (x # zs)" "tkey base ?T x \<le> tkey base ?T y" "\<forall>z \<in> set (y # x # zs). tkey base ?T z < 2 ^ 31"
        using tl ok yn k Cons False x by (auto simp: timeouts_ok_def)
      obtain T' where T': "timeout_insert x y ?T = Some T'" "tlinked T' x (place (tkey base ?T) y (x # zs))" "\<forall>z. T' z = (?T z)\<lparr>timeo_next := timeo_next (T' z)\<rparr>"
        using timeout_insert_spec [OF pre(1-3) m(2) pre(4,5)] by blast
      have "s\<lparr>lw := lw s\<lparr>pools := M\<rparr>, timeos := T', next_timeout := x\<rparr> = ?s\<lparr>timeos := T'\<rparr>" using x(1) by simp
      then show ?thesis using step False less x T' Cons by (intro fin [where T' = T' and p = x]) auto
    qed
  qed
qed

subsection \<open>Running what is due\<close>

text \<open>What is asked of the functions behind the handlers: they leave the time-outs alone, and the clock does not
  go back before \<open>lo\<close> nor beyond \<open>hi\<close> meanwhile.\<close>

definition calm :: "u32 \<Rightarrow> nat \<Rightarrow> nat \<Rightarrow> (tstack \<Rightarrow> tstack) \<Rightarrow> bool" where
  "calm base lo hi f \<longleftrightarrow> (\<forall>s. pools (lw (f s)) = pools (lw s) \<and> timeos (f s) = timeos s \<and> next_timeout (f s) = next_timeout s \<and>
     current_timeout_due_time (f s) = current_timeout_due_time s \<and>
     (lo \<le> since base (now_of s) \<and> since base (now_of s) \<le> hi \<longrightarrow> lo \<le> since base (now_of (f s)) \<and> since base (now_of (f s)) \<le> hi))"

lemma timeouts_ok_calm: "calm base lo hi f \<Longrightarrow> timeouts_ok base (f s) L xs = timeouts_ok base s L xs"
  by (simp add: calm_def timeouts_ok_def)

definition fired :: "nat \<Rightarrow> tstack \<Rightarrow> tstack" where
  "fired x s = timeo_release x (s\<lparr>next_timeout := timeo_next (timeos s x), current_timeout_due_time := timeo_time (timeos s x)\<rparr>)"

lemma fired_fields [simp]: "timeos (fired x s) = timeos s" "current_timeout_due_time (fired x s) = timeo_time (timeos s x)" "now_of (fired x s) = now_of s"
  by (simp_all add: fired_def timeo_release_def pool_release_def now_of_def)

lemma fired_ok:
  assumes "timeouts_ok base s L (x # xs)"
  shows "timeouts_ok base (fired x s) (L(MEMP_SYS_TIMEOUT := x # L MEMP_SYS_TIMEOUT)) xs"
proof -
  have o: "pools_ok (pools (lw s)) L" "x \<noteq> 0" "\<forall>t. x \<notin> set (L t)" "tlinked (timeos s) (timeo_next (timeos s x)) xs" "x \<notin> set xs"
    using assms by (auto simp: timeouts_ok_def)
  have "\<forall>y \<in> set xs. \<forall>t. y \<notin> set ((L(MEMP_SYS_TIMEOUT := x # L MEMP_SYS_TIMEOUT)) t)" using assms o(5) by (auto simp: timeouts_ok_def)
  then show ?thesis using assms pools_free [OF o(1-3), of MEMP_SYS_TIMEOUT] o(4)
    by (simp add: timeouts_ok_def fired_def timeo_release_def pool_release_def)
qed

lemma check_step:
  assumes "timeouts_ok base s L (x # xs)" "\<not> TIME_LESS_THAN now (timeo_time (timeos s x))" "timeo_h (timeos s x) = Some h"
  shows "check_loop F now s = Option.bind (run_timeout F h (timeo_arg (timeos s x)) (fired x s)) (check_loop F now)"
proof -
  have "next_timeout s = x" "x \<noteq> 0" using assms(1) by (auto simp: timeouts_ok_def)
  then show ?thesis using assms(2,3) by (subst check_loop.simps) (simp add: Let_def fired_def split: option.split)
qed

text \<open>A cyclic timer goes back into the list, on its grid or, when it is late by more than its interval, one
  interval from now.\<close>

lemma cyclic_spec:
  assumes c: "calm base lo hi (cyclic_fn F i)" and ok: "timeouts_ok base s L (x # xs)" and x: "timeo_arg (timeos s x) = i" "i < 5"
    and n: "lo \<le> since base (now_of s)" "since base (now_of s) \<le> hi" "hi + 60000 < 2 ^ 31" and d: "tkey base (timeos s) x \<le> lo"
  shows "\<exists>s'. lwip_cyclic_timer F i (fired x s) = Some s' \<and> timeouts_ok base s' L (place (tkey base (timeos s')) x xs) \<and> x \<notin> set xs \<and>
    timeo_h (timeos s' x) = Some LWIP_CYCLIC_TIMER \<and> timeo_arg (timeos s' x) = i \<and>
    lo \<le> tkey base (timeos s') x \<and> (tkey base (timeos s) x = lo \<longrightarrow> lo < tkey base (timeos s') x) \<and>
    (lo \<le> tkey base (timeos s) x + unat (lwip_cyclic_timers ! i) \<and> since base (now_of (cyclic_fn F i (fired x s))) = lo \<longrightarrow>
       tkey base (timeos s') x = tkey base (timeos s) x + unat (lwip_cyclic_timers ! i)) \<and>
    (\<forall>z. z \<noteq> x \<longrightarrow> timeos s' z = (timeos s z)\<lparr>timeo_next := timeo_next (timeos s' z)\<rparr>) \<and>
    lo \<le> since base (now_of s') \<and> since base (now_of s') \<le> hi"
proof -
  let ?L = "L(MEMP_SYS_TIMEOUT := x # L MEMP_SYS_TIMEOUT)" and ?f = "cyclic_fn F i (fired x s)" and ?k = "tkey base (timeos s) x"
  define v where "v = lwip_cyclic_timers ! i"
  have "v \<in> set lwip_cyclic_timers" unfolding v_def using x(2) by (intro nth_mem) (simp add: lwip_cyclic_timers_def)
  then have v: "0 < unat v" "unat v \<le> 60000" by (auto simp: lwip_cyclic_timers_def)
  have f: "timeouts_ok base ?f ?L xs" using fired_ok [OF ok] timeouts_ok_calm [OF c] by simp
  have t: "timeos ?f = timeos s" "current_timeout_due_time ?f = timeo_time (timeos s x)" using c by (auto simp: calm_def)
  have nw: "lo \<le> since base (now_of ?f)" "since base (now_of ?f) \<le> hi" using c n by (auto simp: calm_def)
  have add: "since base (u + v) = since base u + unat v" if "since base u \<le> hi" for u
  proof -
    have e: "u + v - base = (u - base) + v" by simp
    have "unat (u - base) + unat v < 2 ^ 32" using that v(2) n(3) by (simp add: since_def)
    then show ?thesis unfolding since_def e unat_word_ariths(1) by (intro mod_less) simp
  qed
  have kx: "since base (timeo_time (timeos s x)) = ?k" by (simp add: tkey_def)
  have sx: "since base (timeo_time (timeos s x) + v) = ?k + unat v" using add [of "timeo_time (timeos s x)"] d n kx by simp
  have sn: "since base (now_of ?f + v) = since base (now_of ?f) + unat v" by (rule add [OF nw(2)])
  define w where "w = (if ?k + unat v < since base (now_of ?f) then now_of ?f + v else timeo_time (timeos s x) + v)"
  have less: "TIME_LESS_THAN (timeo_time (timeos s x) + v) (now_of ?f) \<longleftrightarrow> ?k + unat v < since base (now_of ?f)"
    using time_less_iff [of base "timeo_time (timeos s x) + v" "now_of ?f"] sx d n v nw by simp
  have e: "lwip_cyclic_timer F i (fired x s) = sys_timeout_abs w (Some LWIP_CYCLIC_TIMER) i ?f"
    using less t by (simp add: lwip_cyclic_timer_def Let_def v_def [symmetric] w_def)
  have sw: "since base w = (if ?k + unat v < since base (now_of ?f) then since base (now_of ?f) + unat v else ?k + unat v)"
    using sx sn by (simp add: w_def)
  have "since base w < 2 ^ 31" using sw d n v nw by auto
  from sys_timeout_abs_spec [OF f _ this, of x "L MEMP_SYS_TIMEOUT" "Some LWIP_CYCLIC_TIMER" i]
  obtain M T p where r: "sys_timeout_abs w (Some LWIP_CYCLIC_TIMER) i ?f = Some (?f\<lparr>lw := (lw ?f)\<lparr>pools := M\<rparr>, timeos := T, next_timeout := p\<rparr>)"
    "timeouts_ok base (?f\<lparr>lw := (lw ?f)\<lparr>pools := M\<rparr>, timeos := T, next_timeout := p\<rparr>) (?L(MEMP_SYS_TIMEOUT := L MEMP_SYS_TIMEOUT)) (place (tkey base T) x xs)"
    "x \<notin> set xs" "timeo_time (T x) = w" "timeo_h (T x) = Some LWIP_CYCLIC_TIMER" "timeo_arg (T x) = i" "\<forall>z. z \<noteq> x \<longrightarrow> T z = (timeos ?f z)\<lparr>timeo_next := timeo_next (T z)\<rparr>"
    by (auto simp: Let_def)
  let ?s' = "?f\<lparr>lw := (lw ?f)\<lparr>pools := M\<rparr>, timeos := T, next_timeout := p\<rparr>"
  have LL: "?L(MEMP_SYS_TIMEOUT := L MEMP_SYS_TIMEOUT) = L" by simp
  have kT: "tkey base T x = since base w" using r(4) by (simp add: tkey_def)
  have nn: "now_of ?s' = now_of ?f" by (simp add: now_of_def)
  have "lo \<le> since base w" "?k = lo \<longrightarrow> lo < since base w" "lo \<le> ?k + unat v \<and> since base (now_of ?f) = lo \<longrightarrow> since base w = ?k + unat v"
    using sw nw v by auto
  then show ?thesis using e r kT nw t unfolding LL v_def [symmetric]
    by (intro exI [of _ ?s']) (simp add: nn)
qed

lemma mset_place: "mset (place key y xs) = add_mset y (mset xs)"
proof (induction xs)
  case (Cons x xs)
  then show ?case by (cases "key x \<le> key y") (simp_all add: place_simps)
qed (simp add: place_simps)

text \<open>How often a structure may still run in this check.\<close>

definition runs_left :: "nat \<Rightarrow> nat \<Rightarrow> nat" where
  "runs_left lo k = (if lo < k then 0 else if k = lo then 1 else 2)"

definition runs :: "u32 \<Rightarrow> nat \<Rightarrow> (nat \<Rightarrow> sys_timeo) \<Rightarrow> nat list \<Rightarrow> nat" where
  "runs base lo T xs = (\<Sum>x \<in># mset xs. runs_left lo (tkey base T x))"

text \<open>The cyclic timers of a list, by their place in the table.\<close>

definition cyclic_of :: "(nat \<Rightarrow> sys_timeo) \<Rightarrow> nat list \<Rightarrow> nat multiset" where
  "cyclic_of T xs = image_mset (\<lambda>x. timeo_arg (T x)) (filter_mset (\<lambda>x. timeo_h (T x) = Some LWIP_CYCLIC_TIMER) (mset xs))"

definition handlers_ok :: "(nat \<Rightarrow> sys_timeo) \<Rightarrow> nat list \<Rightarrow> bool" where
  "handlers_ok T xs \<longleftrightarrow> (\<forall>x \<in> set xs. timeo_h (T x) = Some LWIP_CYCLIC_TIMER \<and> timeo_arg (T x) < 5 \<or> (\<exists>n. timeo_h (T x) = Some (Handler n)))"

lemma list_facts_cong:
  assumes "\<And>x. x \<in> set xs \<Longrightarrow> timeo_h (T' x) = timeo_h (T x) \<and> timeo_arg (T' x) = timeo_arg (T x) \<and> timeo_time (T' x) = timeo_time (T x)"
  shows "runs base lo T' xs = runs base lo T xs" "cyclic_of T' xs = cyclic_of T xs" "handlers_ok T' xs = handlers_ok T xs"
proof -
  show "runs base lo T' xs = runs base lo T xs" unfolding runs_def
    by (intro arg_cong [of _ _ sum_mset] image_mset_cong) (use assms in \<open>auto simp: tkey_def\<close>)
  have "filter_mset (\<lambda>x. timeo_h (T' x) = Some LWIP_CYCLIC_TIMER) (mset xs) = filter_mset (\<lambda>x. timeo_h (T x) = Some LWIP_CYCLIC_TIMER) (mset xs)"
    by (rule filter_mset_cong) (use assms in auto)
  then show "cyclic_of T' xs = cyclic_of T xs" unfolding cyclic_of_def by (simp only:) (rule image_mset_cong, use assms in auto)
  show "handlers_ok T' xs = handlers_ok T xs" using assms by (auto simp: handlers_ok_def)
qed

lemma check_ends:
  assumes ok: "timeouts_ok base s L xs" and hs: "handlers_ok (timeos s) xs" and c: "\<forall>i. calm base lo hi (cyclic_fn F i)" "\<forall>n a. calm base lo hi (client_fn F n a)"
    and lo: "lo = since base now" and n: "lo \<le> since base (now_of s)" "since base (now_of s) \<le> hi" and hi: "hi + 60000 < 2 ^ 31"
  shows "\<exists>s' L' xs'. check_loop F now s = Some s' \<and> timeouts_ok base s' L' xs' \<and> handlers_ok (timeos s') xs' \<and>
    (\<forall>x \<in> set xs'. lo < tkey base (timeos s') x) \<and> cyclic_of (timeos s') xs' = cyclic_of (timeos s) xs"
  using ok hs n
proof (induction "runs base lo (timeos s) xs" arbitrary: s L xs rule: less_induct)
  case less
  let ?T = "timeos s"
  show ?case
  proof (cases xs)
    case Nil
    then have "check_loop F now s = Some s" using less.prems(1) by (subst check_loop.simps) (simp add: timeouts_ok_def)
    then show ?thesis using less.prems Nil by (intro exI [of _ s] exI [of _ L] exI [of _ "[]"]) simp
  next
    case (Cons x ys)
    note ok = less.prems(1) [unfolded Cons]
    have x: "next_timeout s = x" "x \<noteq> 0" "x \<notin> set ys" "tkey base ?T x < 2 ^ 31" using ok by (auto simp: timeouts_ok_def)
    have "lo < 2 ^ 31" using less.prems(3,4) hi by simp
    then have tl: "TIME_LESS_THAN now (timeo_time (?T x)) \<longleftrightarrow> lo < tkey base ?T x"
      using time_less_iff [of base now "timeo_time (?T x)"] x(4) by (simp add: tkey_def lo)
    show ?thesis
    proof (cases "lo < tkey base ?T x")
      case True
      then have "check_loop F now s = Some s" using x tl by (subst check_loop.simps) simp
      moreover have "\<forall>z \<in> set xs. lo < tkey base ?T z" using True ok unfolding Cons timeouts_ok_def by auto
      ultimately show ?thesis using less.prems by (intro exI [of _ s] exI [of _ L] exI [of _ xs]) simp
    next
      case due: False
      let ?a = "timeo_arg (?T x)"
      have rx: "runs base lo ?T xs = runs_left lo (tkey base ?T x) + runs base lo ?T ys" by (simp add: Cons runs_def)
      have hy: "handlers_ok ?T ys" using less.prems(2) by (simp add: Cons handlers_ok_def)
      from less.prems(2) consider (cyc) "timeo_h (?T x) = Some LWIP_CYCLIC_TIMER" "?a < 5" | (cl) m where "timeo_h (?T x) = Some (Handler m)"
        by (auto simp: Cons handlers_ok_def)
      then show ?thesis
      proof cases
        case (cl m)
        let ?s = "client_fn F m ?a (fired x s)"
        have cm: "calm base lo hi (client_fn F m ?a)" using c(2) by simp
        have T: "timeos ?s = ?T" and nw: "lo \<le> since base (now_of ?s)" "since base (now_of ?s) \<le> hi" using cm less.prems(3,4) by (auto simp: calm_def)
        have o: "timeouts_ok base ?s (L(MEMP_SYS_TIMEOUT := x # L MEMP_SYS_TIMEOUT)) ys" using fired_ok [OF ok] timeouts_ok_calm [OF cm] by simp
        have e: "check_loop F now s = check_loop F now ?s" using check_step [OF ok _ cl] tl due by (simp add: run_timeout_def)
        have l: "runs base lo (timeos ?s) ys < runs base lo ?T xs" using rx T due by (simp add: runs_left_def)
        have cy: "cyclic_of ?T xs = cyclic_of ?T ys" using cl by (simp add: Cons cyclic_of_def)
        show ?thesis unfolding e cy using less.hyps [OF l o _ nw] hy T by simp
      next
        case cyc
        have cm: "calm base lo hi (cyclic_fn F ?a)" using c(1) by simp
        have dd: "tkey base ?T x \<le> lo" using due by simp
        obtain s' where r: "lwip_cyclic_timer F ?a (fired x s) = Some s'" "timeouts_ok base s' L (place (tkey base (timeos s')) x ys)"
          "timeo_h (timeos s' x) = Some LWIP_CYCLIC_TIMER" "timeo_arg (timeos s' x) = ?a" "lo \<le> tkey base (timeos s') x" "tkey base ?T x = lo \<longrightarrow> lo < tkey base (timeos s') x"
          "\<forall>z. z \<noteq> x \<longrightarrow> timeos s' z = (?T z)\<lparr>timeo_next := timeo_next (timeos s' z)\<rparr>" "lo \<le> since base (now_of s')" "since base (now_of s') \<le> hi"
          using cyclic_spec [OF cm ok refl cyc(2) less.prems(3,4) hi dd] by blast
        let ?ps = "place (tkey base (timeos s')) x ys"
        have same: "timeo_h (timeos s' z) = timeo_h (?T z) \<and> timeo_arg (timeos s' z) = timeo_arg (?T z) \<and> timeo_time (timeos s' z) = timeo_time (?T z)" if "z \<in> set ys" for z
        proof -
          have "z \<noteq> x" using that x(3) by auto
          then show ?thesis using r(7) by (metis sys_timeo.select_convs(2-4) sys_timeo.surjective sys_timeo.update_convs(1))
        qed
        note cg = list_facts_cong [of ys "timeos s'" ?T, OF same]
        have e: "check_loop F now s = check_loop F now s'" using check_step [OF ok _ cyc(1)] tl due r(1) by (simp add: run_timeout_def)
        have "runs base lo (timeos s') ?ps = runs_left lo (tkey base (timeos s') x) + runs base lo ?T ys" using cg(1) by (simp add: runs_def mset_place)
        then have l: "runs base lo (timeos s') ?ps < runs base lo ?T xs" using rx r(5,6) due by (auto simp: runs_left_def)
        have "cyclic_of (timeos s') ?ps = add_mset ?a (cyclic_of (timeos s') ys)" using r(3,4) by (simp add: cyclic_of_def mset_place)
        also have "\<dots> = cyclic_of ?T xs" using cg(2) cyc by (simp add: Cons cyclic_of_def)
        finally have cy: "cyclic_of (timeos s') ?ps = cyclic_of ?T xs" .
        have ho: "handlers_ok (timeos s') ?ps" using cg(3) hy r(3,4) cyc(2) by (simp add: handlers_ok_def set_place)
        show ?thesis unfolding e cy [symmetric] by (rule less.hyps [OF l r(2) ho r(8,9)])
      qed
    qed
  qed
qed

subsection \<open>Cancelling\<close>

lemma linked_mid: "linked f p (us @ x # vs) \<Longrightarrow> x \<noteq> 0 \<and> linked f (f x) vs \<and> (us = [] \<longrightarrow> p = x)"
  by (induction us arbitrary: p) auto

lemma linked_remove:
  assumes "linked f p (us @ x # vs)" "distinct (us @ x # vs)" "us \<noteq> []"
  shows "linked (f(last us := f x)) p (us @ vs)"
  using assms
proof (induction us arbitrary: p)
  case (Cons u us)
  show ?case
  proof (cases "us = []")
    case True
    then show ?thesis using Cons.prems linked_frame [of f "f x" vs u "f x"] by (simp del: fun_upd_apply) (simp add: fun_upd_def)
  next
    case False
    have "u \<noteq> last us" using Cons.prems(2) last_in_set [OF False] by auto
    then show ?thesis using Cons.IH [of "f u"] Cons.prems False by auto
  qed
qed simp

definition matches :: "timeout_fn option \<Rightarrow> nat \<Rightarrow> tstack \<Rightarrow> nat \<Rightarrow> bool" where
  "matches h a s x \<longleftrightarrow> timeo_h (timeos s x) = h \<and> timeo_arg (timeos s x) = a"

lemma unlink_ok:
  assumes ok: "timeouts_ok base s L (us @ x # vs)"
  defines "s' \<equiv> if us = [] then s\<lparr>next_timeout := timeo_next (timeos s x)\<rparr>
    else s\<lparr>timeos := (timeos s)(last us := (timeos s (last us))\<lparr>timeo_next := timeo_next (timeos s x)\<rparr>)\<rparr>"
  shows "timeouts_ok base (timeo_release x s') (L(MEMP_SYS_TIMEOUT := x # L MEMP_SYS_TIMEOUT)) (us @ vs)"
proof -
  let ?L = "L(MEMP_SYS_TIMEOUT := x # L MEMP_SYS_TIMEOUT)"
  have o: "pools_ok (pools (lw s)) L" "distinct (us @ x # vs)" "tlinked (timeos s) (next_timeout s) (us @ x # vs)" "\<forall>t. x \<notin> set (L t)"
    "\<forall>y \<in> set (us @ vs). \<forall>t. y \<notin> set (L t)" "\<forall>y \<in> set (us @ vs). tkey base (timeos s) y < 2 ^ 31" "sorted (map (tkey base (timeos s)) (us @ vs))"
    using ok by (auto simp: timeouts_ok_def sorted_append)
  have x0: "x \<noteq> 0" using linked_mid [OF o(3)] by simp
  have k: "tkey base (timeos s') = tkey base (timeos s)" by (rule ext) (auto simp: s'_def tkey_def)
  have l: "tlinked (timeos s') (next_timeout s') (us @ vs)"
  proof (cases "us = []")
    case True
    then show ?thesis using linked_mid [OF o(3)] by (simp add: s'_def)
  next
    case False
    have "(\<lambda>y. timeo_next (timeos s' y)) = (\<lambda>y. timeo_next (timeos s y))(last us := timeo_next (timeos s x))" using False by (auto simp: s'_def)
    then show ?thesis using linked_remove [OF o(3,2) False] False by (simp add: s'_def)
  qed
  have p: "pools (lw s') = pools (lw s)" by (simp add: s'_def)
  have "\<forall>y \<in> set (us @ vs). \<forall>t. y \<notin> set (?L t)" using o(2,5) by auto
  then show ?thesis using pools_free [OF o(1) x0 o(4), of MEMP_SYS_TIMEOUT] o l k p
    by (simp add: timeouts_ok_def timeo_release_def pool_release_def)
qed

lemma untimeout_loop_spec:
  assumes "timeouts_ok base s L (us @ ws)" "tlinked (timeos s) t ws" "prev = (if us = [] then 0 else last us)"
  shows "if \<exists>x \<in> set ws. matches h a s x
    then \<exists>as x bs s'. ws = as @ x # bs \<and> matches h a s x \<and> (\<forall>z \<in> set as. \<not> matches h a s z) \<and> untimeout_loop h a prev t s = Some s' \<and>
      timeouts_ok base s' (L(MEMP_SYS_TIMEOUT := x # L MEMP_SYS_TIMEOUT)) (us @ as @ bs)
    else untimeout_loop h a prev t s = Some s"
  using assms
proof (induction ws arbitrary: us t prev)
  case Nil
  then show ?case by (simp add: untimeout_loop.simps)
next
  case (Cons w ws)
  have w: "t = w" "w \<noteq> 0" "tlinked (timeos s) (timeo_next (timeos s w)) ws" using Cons.prems(2) by auto
  show ?case
  proof (cases "matches h a s w")
    case True
    let ?s = "if us = [] then s\<lparr>next_timeout := timeo_next (timeos s w)\<rparr>
      else s\<lparr>timeos := (timeos s)(last us := (timeos s (last us))\<lparr>timeo_next := timeo_next (timeos s w)\<rparr>)\<rparr>"
    have "0 \<notin> set us" using Cons.prems(1) linked_0 [of _ _ "us @ w # ws"] by (auto simp: timeouts_ok_def)
    then have "us \<noteq> [] \<Longrightarrow> last us \<noteq> 0" using last_in_set [of us] by metis
    then have "prev = 0 \<longleftrightarrow> us = []" using Cons.prems(3) by auto
    then have "untimeout_loop h a prev t s = Some (timeo_release w ?s)" using True w Cons.prems(3)
      by (subst untimeout_loop.simps) (simp add: matches_def Let_def)
    then obtain s' where s': "untimeout_loop h a prev t s = Some s'" "timeouts_ok base s' (L(MEMP_SYS_TIMEOUT := w # L MEMP_SYS_TIMEOUT)) (us @ ws)"
      using unlink_ok [OF Cons.prems(1)] by blast
    have ex: "\<exists>x \<in> set (w # ws). matches h a s x" using True by simp
    show ?thesis unfolding if_P [OF ex] using True s'
      by - (rule exI [of _ "[]"], rule exI [of _ w], rule exI [of _ ws], rule exI [of _ s'], simp)
  next
    case False
    have e: "untimeout_loop h a prev t s = untimeout_loop h a w (timeo_next (timeos s w)) s"
      using False w by (subst untimeout_loop.simps) (auto simp: matches_def)
    have I: "if \<exists>x \<in> set ws. matches h a s x
      then \<exists>as x bs s'. ws = as @ x # bs \<and> matches h a s x \<and> (\<forall>z \<in> set as. \<not> matches h a s z) \<and> untimeout_loop h a w (timeo_next (timeos s w)) s = Some s' \<and>
        timeouts_ok base s' (L(MEMP_SYS_TIMEOUT := x # L MEMP_SYS_TIMEOUT)) ((us @ [w]) @ as @ bs)
      else untimeout_loop h a w (timeo_next (timeos s w)) s = Some s"
      by (rule Cons.IH [of "us @ [w]"]) (use Cons.prems(1) w in auto)
    show ?thesis
    proof (cases "\<exists>x \<in> set ws. matches h a s x")
      case True
      then obtain as x bs s' where "ws = as @ x # bs" "matches h a s x" "\<forall>z \<in> set as. \<not> matches h a s z" "untimeout_loop h a w (timeo_next (timeos s w)) s = Some s'"
        "timeouts_ok base s' (L(MEMP_SYS_TIMEOUT := x # L MEMP_SYS_TIMEOUT)) ((us @ [w]) @ as @ bs)" using I by auto
      moreover have ex: "\<exists>x \<in> set (w # ws). matches h a s x" using True by simp
      ultimately show ?thesis unfolding if_P [OF ex] using e False
        by - (rule exI [of _ "w # as"], rule exI [of _ x], rule exI [of _ bs], rule exI [of _ s'], simp)
    qed (use I e False in auto)
  qed
qed

lemma untimeout_spec:
  assumes "timeouts_ok base s L xs"
  shows "if \<exists>x \<in> set xs. matches h a s x
    then \<exists>as x bs s'. xs = as @ x # bs \<and> matches h a s x \<and> (\<forall>z \<in> set as. \<not> matches h a s z) \<and> sys_untimeout h a s = Some s' \<and>
      timeouts_ok base s' (L(MEMP_SYS_TIMEOUT := x # L MEMP_SYS_TIMEOUT)) (as @ bs)
    else sys_untimeout h a s = Some s"
proof (cases "next_timeout s = 0")
  case True
  then have "xs = []" using assms by (cases xs) (auto simp: timeouts_ok_def)
  then show ?thesis using True by (simp add: sys_untimeout_def)
next
  case False
  have l: "tlinked (timeos s) (next_timeout s) xs" using assms by (simp add: timeouts_ok_def)
  have e: "sys_untimeout h a s = untimeout_loop h a 0 (next_timeout s) s" using False by (simp add: sys_untimeout_def)
  have "0 = (if [] = ([] :: nat list) then 0 else last [])" by simp
  from untimeout_loop_spec [of base s L "[]" xs "next_timeout s" 0 h a, unfolded append_Nil, OF assms l this] show ?thesis unfolding e .
qed

subsection \<open>Properties\<close>

text \<open>C24: The list of time-outs is kept in order of time, first come first served among equal times, across the wrap of the 32-bit
  clock. While all pending times and the new one lie within half the range of the clock from some point, \<open>sys_timeout_abs\<close>
  takes a structure from the pool and puts it behind those that are not later, with its handler and argument and the others
  unchanged; \<open>sys_untimeout\<close> removes the first structure with the handler and argument and gives it back, or changes nothing.\<close>

theorem timeouts_ordered:
  assumes "timeouts_ok base s L xs"
  shows "(L MEMP_SYS_TIMEOUT = y # ys \<and> since base tm < 2 ^ 31 \<longrightarrow>
      (\<exists>M T p. let s' = s\<lparr>lw := (lw s)\<lparr>pools := M\<rparr>, timeos := T, next_timeout := p\<rparr>
        in sys_timeout_abs tm h a s = Some s' \<and> timeouts_ok base s' (L(MEMP_SYS_TIMEOUT := ys)) (place (tkey base T) y xs) \<and>
          y \<notin> set xs \<and> timeo_time (T y) = tm \<and> timeo_h (T y) = h \<and> timeo_arg (T y) = a \<and>
          (\<forall>z. z \<noteq> y \<longrightarrow> T z = (timeos s z)\<lparr>timeo_next := timeo_next (T z)\<rparr>))) \<and>
    (if \<exists>x \<in> set xs. matches h a s x
     then \<exists>as x bs s'. xs = as @ x # bs \<and> matches h a s x \<and> (\<forall>z \<in> set as. \<not> matches h a s z) \<and> sys_untimeout h a s = Some s' \<and>
       timeouts_ok base s' (L(MEMP_SYS_TIMEOUT := x # L MEMP_SYS_TIMEOUT)) (as @ bs)
     else sys_untimeout h a s = Some s)"
  using sys_timeout_abs_spec [OF assms, of y ys tm h a] untimeout_spec [OF assms, of h a] by blast


text \<open>The thread sleeps exactly until the first time-out: \<open>sys_timeouts_sleeptime\<close> is infinite exactly when nothing is pending, and otherwise
  the time from now to the first pending time, zero when that has passed.\<close>

theorem sleeptime_exact:
  assumes ok: "timeouts_ok base s L xs" and n: "since base (now_of s) < 2 ^ 31"
  shows "(sys_timeouts_sleeptime s = SYS_TIMEOUTS_SLEEPTIME_INFINITE \<longleftrightarrow> xs = []) \<and>
    (xs \<noteq> [] \<longrightarrow> unat (sys_timeouts_sleeptime s) = tkey base (timeos s) (hd xs) - since base (now_of s))"
proof (cases xs)
  case Nil
  then show ?thesis using ok by (simp add: timeouts_ok_def sys_timeouts_sleeptime_def)
next
  case (Cons x ys)
  let ?t = "timeo_time (timeos s x)" and ?n = "now_of s"
  have x: "next_timeout s = x" "x \<noteq> 0" "since base ?t < 2 ^ 31" using ok Cons by (auto simp: timeouts_ok_def tkey_def)
  have u: "unat (?t - ?n) = since base ?t - since base ?n" if "since base ?n \<le> since base ?t"
  proof -
    have e: "?t - ?n = (?t - base) - (?n - base)" by simp
    show ?thesis using that unfolding e unat_sub_if' since_def by simp
  qed
  have v: "unat (sys_timeouts_sleeptime s) = tkey base (timeos s) x - since base ?n"
    using x u time_less_iff [OF x(3) n] by (auto simp: sys_timeouts_sleeptime_def Let_def tkey_def)
  then have "unat (sys_timeouts_sleeptime s) < 2 ^ 31" using x(3) by (simp add: tkey_def)
  then have "sys_timeouts_sleeptime s \<noteq> SYS_TIMEOUTS_SLEEPTIME_INFINITE" by (auto simp: SYS_TIMEOUTS_SLEEPTIME_INFINITE_def)
  then show ?thesis using v Cons by simp
qed

text \<open>A cyclic timer just before the clock wraps, and a handler of a client after it.\<close>

definition demo_tstack :: tstack where
  "demo_tstack = \<lparr>lw = demo_lwip\<lparr>pools := \<lparr>memp_tab = (\<lambda>_. 0)(MEMP_SYS_TIMEOUT := 80), memp_next = \<lambda>_. 0\<rparr>\<rparr>,
     timeos = (\<lambda>_. \<lparr>timeo_next = 0, timeo_time = 0, timeo_h = None, timeo_arg = 0\<rparr>)
       (20 := \<lparr>timeo_next = 40, timeo_time = - 100, timeo_h = Some LWIP_CYCLIC_TIMER, timeo_arg = 2\<rparr>,
        40 := \<lparr>timeo_next = 0, timeo_time = 50, timeo_h = Some (Handler 1), timeo_arg = 3\<rparr>),
     next_timeout = 20, current_timeout_due_time = 0, tcpip_tcp_timer_active = False, tcp_active_pcbs = 0, tcp_tw_pcbs = 0\<rparr>"

definition demo_tfree :: "memp_t \<Rightarrow> nat list" where
  "demo_tfree = (\<lambda>_. [])(MEMP_SYS_TIMEOUT := [80])"

lemma demo_timeouts: "timeouts_ok (- 1000) demo_tstack demo_tfree [20, 40]" "handlers_ok (timeos demo_tstack) [20, 40]" "now_of demo_tstack = - 2"
proof -
  have "pools_ok (pools (lw demo_tstack)) demo_tfree" by (auto simp: pools_ok_def demo_tstack_def demo_tfree_def pool_free_def)
  then show "timeouts_ok (- 1000) demo_tstack demo_tfree [20, 40]"
    by (simp add: timeouts_ok_def demo_tfree_def) (simp add: demo_tstack_def tkey_def since_def)
  show "handlers_ok (timeos demo_tstack) [20, 40]" by (simp add: handlers_ok_def demo_tstack_def)
  show "now_of demo_tstack = - 2"
    by (simp add: now_of_def demo_tstack_def demo_lwip_def sys_now_def demo_qsys_def demo_kernel_def boot_kernel_def xTaskGetTickCount_def
      portTICK_PERIOD_MS_def configTICK_RATE_HZ_def)
qed

lemma demo_times: "timeo_time (timeos demo_tstack 20) = - 100" "timeo_time (timeos demo_tstack 40) = 50"
  by (simp_all add: demo_tstack_def)

theorem timeouts_ordered_witness:
  "\<exists>s'. sys_timeout_abs 10 (Some (Handler 5)) 7 demo_tstack = Some s' \<and> timeouts_ok (- 1000) s' (\<lambda>_. []) [20, 80, 40]"
proof -
  let ?T = "\<lambda>M T p. demo_tstack\<lparr>lw := (lw demo_tstack)\<lparr>pools := M\<rparr>, timeos := T, next_timeout := p\<rparr>"
  have f: "demo_tfree MEMP_SYS_TIMEOUT = [80]" "since (- 1000) 10 < 2 ^ 31" "demo_tfree(MEMP_SYS_TIMEOUT := []) = (\<lambda>_. [])"
    by (auto simp: demo_tfree_def since_def)
  from timeouts_ordered [OF demo_timeouts(1), of 80 "[]" 10 "Some (Handler 5)" 7] f obtain M T p where
    r: "sys_timeout_abs 10 (Some (Handler 5)) 7 demo_tstack = Some (?T M T p)" "timeouts_ok (- 1000) (?T M T p) (\<lambda>_. []) (place (tkey (- 1000) T) 80 [20, 40])"
    "timeo_time (T 80) = 10" "\<forall>z. z \<noteq> 80 \<longrightarrow> T z = (timeos demo_tstack z)\<lparr>timeo_next := timeo_next (T z)\<rparr>" by (auto simp: Let_def)
  have "T 20 = (timeos demo_tstack 20)\<lparr>timeo_next := timeo_next (T 20)\<rparr>" "T 40 = (timeos demo_tstack 40)\<lparr>timeo_next := timeo_next (T 40)\<rparr>" using r(4) by simp_all
  then have "timeo_time (T 20) = - 100" "timeo_time (T 40) = 50"
    by (metis (no_types, lifting) sys_timeo.select_convs(2) sys_timeo.surjective sys_timeo.update_convs(1) demo_times)+
  then have "place (tkey (- 1000) T) 80 [20, 40] = [20, 80, 40]" using r(3) by (simp add: place_def tkey_def since_def)
  then show ?thesis using r(1,2) by auto
qed


theorem sleeptime_exact_witness: "sys_timeouts_sleeptime demo_tstack = 0"
proof -
  have "since (- 1000) (now_of demo_tstack) < 2 ^ 31" by (simp add: demo_timeouts(3) since_def)
  from sleeptime_exact [OF demo_timeouts(1) this] have "unat (sys_timeouts_sleeptime demo_tstack) = 0"
    by (simp add: demo_timeouts(3) tkey_def since_def demo_times)
  then show ?thesis by (simp only: unsigned_eq_0_iff)
qed

end
