(* ===== verification/Tcpip.thy ===== *)
theory Tcpip
  imports Timeouts PbufChain
begin

text \<open>
  The thread of the network stack (\<open>tcpip.c\<close>): it holds the lock of the core, releases it while it waits for a
  message or the next time-out, and handles one message after the other.
\<close>

subsection \<open>The code\<close>

text \<open>What the thread calls in other modules: the timer functions, the input functions, the callbacks of clients and
  the free function of custom buffers.\<close>

record tcpip_fns =
  timer_calls :: timer_fns
  input_call :: "lwip_fn \<Rightarrow> nat \<Rightarrow> nat \<Rightarrow> tstack \<Rightarrow> err_t \<times> tstack"
  callback_call :: "lwip_fn \<Rightarrow> nat \<Rightarrow> tstack \<Rightarrow> tstack"
  custom_free :: "nat \<Rightarrow> lwip \<Rightarrow> lwip"

definition on_lw :: "(lwip \<Rightarrow> lwip) \<Rightarrow> tstack \<Rightarrow> tstack" where
  "on_lw f s = s\<lparr>lw := f (lw s)\<rparr>"

definition on_os :: "(qsys \<Rightarrow> qsys) \<Rightarrow> tstack \<Rightarrow> tstack" where
  "on_os f s = s\<lparr>lw := (lw s)\<lparr>os := f (os (lw s))\<rparr>\<rparr>"

definition LOCK_TCPIP_CORE :: "gaps list \<Rightarrow> tstack \<Rightarrow> tstack option" where
  "LOCK_TCPIP_CORE gs s = map_option (\<lambda>q. on_os (\<lambda>_. q) s) (sys_mutex_lock gs (lock_tcpip_core (lw s)) (os (lw s)))"

definition UNLOCK_TCPIP_CORE :: "gaps \<Rightarrow> tstack \<Rightarrow> tstack" where
  "UNLOCK_TCPIP_CORE g s = on_os (sys_mutex_unlock g (lock_tcpip_core (lw s))) s"

text \<open>One stretch without the lock: what other threads do to the stack before the fetch and after it, and what happens
  elsewhere during the calls.\<close>

record unlocked =
  unlock_gaps :: gaps
  after_unlock :: "tstack \<Rightarrow> tstack"
  fetch_gaps :: "gaps list"
  before_relock :: "tstack \<Rightarrow> tstack"
  lock_gaps :: "gaps list"

definition unlocked_fetch :: "unlocked \<Rightarrow> u32 \<Rightarrow> tstack \<Rightarrow> ((u32 \<times> nat) \<times> tstack) option" where
  "unlocked_fetch u ms s =
     (let s = after_unlock u (UNLOCK_TCPIP_CORE (unlock_gaps u) s)
      in case sys_arch_mbox_fetch (fetch_gaps u) (tcpip_mbox (lw s)) ms (os (lw s)) of
           None \<Rightarrow> None
         | Some (r, q) \<Rightarrow> map_option (\<lambda>s. (r, s)) (LOCK_TCPIP_CORE (lock_gaps u) (before_relock u (on_os (\<lambda>_. q) s))))"

text \<open>The list has one entry for each time the label \<open>again\<close> is reached; with the list used up the function has not returned.\<close>

fun tcpip_timeouts_mbox_fetch :: "tcpip_fns \<Rightarrow> unlocked list \<Rightarrow> tstack \<Rightarrow> (nat \<times> tstack) option" where
  "tcpip_timeouts_mbox_fetch F [] s = None"
| "tcpip_timeouts_mbox_fetch F (u # us) s =
     (let sleeptime = sys_timeouts_sleeptime s
      in if sleeptime = SYS_TIMEOUTS_SLEEPTIME_INFINITE then map_option (\<lambda>((res, msg), s). (msg, s)) (unlocked_fetch u 0 s)
         else if sleeptime = 0
         then (case sys_check_timeouts (timer_calls F) s of None \<Rightarrow> None | Some s \<Rightarrow> tcpip_timeouts_mbox_fetch F us s)
         else (case unlocked_fetch u sleeptime s of
                 None \<Rightarrow> None
               | Some ((res, msg), s) \<Rightarrow>
                   if res = SYS_ARCH_TIMEOUT
                   then (case sys_check_timeouts (timer_calls F) s of None \<Rightarrow> None | Some s \<Rightarrow> tcpip_timeouts_mbox_fetch F us s)
                   else Some (msg, s)))"

definition pbuf_free_int :: "tcpip_fns \<Rightarrow> nat \<Rightarrow> tstack \<Rightarrow> tstack option" where
  "pbuf_free_int F p s = map_option (\<lambda>(n, l). s\<lparr>lw := l\<rparr>) (pbuf_free (custom_free F) p (lw s))"

definition run_lwip_callback :: "tcpip_fns \<Rightarrow> lwip_fn \<Rightarrow> nat \<Rightarrow> tstack \<Rightarrow> tstack option" where
  "run_lwip_callback F f ctx s =
     (case f of
        PBUF_FREE_INT \<Rightarrow> pbuf_free_int F ctx s
      | MEM_FREE \<Rightarrow> Some (on_lw (\<lambda>l. l\<lparr>ram_heap := mem_free ctx (ram_heap l)\<rparr>) s)
      | _ \<Rightarrow> Some (callback_call F f ctx s))"

definition tcpip_thread_handle_msg :: "tcpip_fns \<Rightarrow> nat \<Rightarrow> tstack \<Rightarrow> tstack option" where
  "tcpip_thread_handle_msg F msg s =
     (case msgs (lw s) msg of
        TCPIP_MSG_INPKT p inp input_fn \<Rightarrow>
          let (e, s) = input_call F input_fn p inp s
          in map_option (on_lw (pool_release MEMP_TCPIP_MSG_INPKT msg)) (if e \<noteq> ERR_OK then pbuf_free_int F p s else Some s)
      | TCPIP_MSG_CALLBACK f ctx \<Rightarrow> map_option (on_lw (pool_release MEMP_TCPIP_MSG_API msg)) (run_lwip_callback F f ctx s)
      | TCPIP_MSG_CALLBACK_STATIC f ctx \<Rightarrow> run_lwip_callback F f ctx s)"

text \<open>One round of the main loop; a \<open>NULL\<close> message is skipped.\<close>

definition tcpip_thread_round :: "tcpip_fns \<Rightarrow> unlocked list \<Rightarrow> tstack \<Rightarrow> tstack option" where
  "tcpip_thread_round F us s =
     (case tcpip_timeouts_mbox_fetch F us s of
        None \<Rightarrow> None
      | Some (msg, s) \<Rightarrow> if msg = 0 then Some s else tcpip_thread_handle_msg F msg s)"

fun tcpip_thread_loop :: "tcpip_fns \<Rightarrow> unlocked list list \<Rightarrow> tstack \<Rightarrow> tstack option" where
  "tcpip_thread_loop F [] s = Some s"
| "tcpip_thread_loop F (us # uss) s =
     (case tcpip_thread_round F us s of None \<Rightarrow> None | Some s \<Rightarrow> tcpip_thread_loop F uss s)"

text \<open>The thread up to the end of the given rounds; it never returns.\<close>

definition tcpip_thread :: "tcpip_fns \<Rightarrow> gaps list \<Rightarrow> unlocked list list \<Rightarrow> tstack \<Rightarrow> tstack option" where
  "tcpip_thread F gs uss s =
     (case LOCK_TCPIP_CORE gs s of
        None \<Rightarrow> None
      | Some s \<Rightarrow>
          (case (case tcpip_init_done (lw s) of None \<Rightarrow> Some s | Some f \<Rightarrow> run_lwip_callback F f (tcpip_init_done_arg (lw s)) s) of
             None \<Rightarrow> None
           | Some s \<Rightarrow> tcpip_thread_loop F uss s))"

text \<open>With core locking the two calls into the stack run the function in the caller's own thread.\<close>

definition tcpip_send_msg_wait_sem :: "gaps list \<Rightarrow> gaps \<Rightarrow> (tstack \<Rightarrow> tstack) \<Rightarrow> tstack \<Rightarrow> (err_t \<times> tstack) option" where
  "tcpip_send_msg_wait_sem gs g fn s = map_option (\<lambda>s. (ERR_OK, UNLOCK_TCPIP_CORE g (fn s))) (LOCK_TCPIP_CORE gs s)"

definition tcpip_api_call :: "gaps list \<Rightarrow> gaps \<Rightarrow> (tstack \<Rightarrow> err_t \<times> tstack) \<Rightarrow> tstack \<Rightarrow> (err_t \<times> tstack) option" where
  "tcpip_api_call gs g fn s =
     map_option (\<lambda>s. let (e, s) = fn s in (e, UNLOCK_TCPIP_CORE g s)) (LOCK_TCPIP_CORE gs s)"

subsection \<open>The lock of the core\<close>

definition core_mutex :: "lwip \<Rightarrow> nat \<Rightarrow> bool" where
  "core_mutex l n \<longleftrightarrow> (let q = queues (os l) (lock_tcpip_core l)
     in is_mutex q \<and> uxLength q = 1 \<and> uxItemSize q = 0 \<and> uxMessagesWaiting q = n) \<and> lock_tcpip_core l \<noteq> tcpip_mbox l"

abbreviation core_free :: "lwip \<Rightarrow> bool" where "core_free l \<equiv> core_mutex l 1"
abbreviation core_held :: "lwip \<Rightarrow> bool" where "core_held l \<equiv> core_mutex l 0"

lemma on_os_fields [simp]: "os (lw (on_os f s)) = f (os (lw s))" "lock_tcpip_core (lw (on_os f s)) = lock_tcpip_core (lw s)"
  "tcpip_mbox (lw (on_os f s)) = tcpip_mbox (lw s)" "msgs (lw (on_os f s)) = msgs (lw s)" "pools (lw (on_os f s)) = pools (lw s)"
  "pbufs (lw (on_os f s)) = pbufs (lw s)" "ram_heap (lw (on_os f s)) = ram_heap (lw s)" "lmem (lw (on_os f s)) = lmem (lw s)"
  by (simp_all add: on_os_def)

lemma unlock_spec:
  assumes "core_held (lw s)"
  shows "queues (os (lw (UNLOCK_TCPIP_CORE g s))) = (queues (os (lw s)))(lock_tcpip_core (lw s) := (queues (os (lw s)) (lock_tcpip_core (lw s)))\<lparr>pcTail := 0, uxMessagesWaiting := 1\<rparr>)"
    "qmem (os (lw (UNLOCK_TCPIP_CORE g s))) = qmem (os (lw s))"
proof -
  let ?q = "queues (os (lw s)) (lock_tcpip_core (lw s))"
  have q: "is_mutex ?q" "uxLength ?q = 1" "uxItemSize ?q = 0" "uxMessagesWaiting ?q = 0" using assms by (simp_all add: core_mutex_def Let_def)
  then show "queues (os (lw (UNLOCK_TCPIP_CORE g s))) = (queues (os (lw s)))(lock_tcpip_core (lw s) := ?q\<lparr>pcTail := 0, uxMessagesWaiting := 1\<rparr>)"
    "qmem (os (lw (UNLOCK_TCPIP_CORE g s))) = qmem (os (lw s))"
    by (simp_all add: UNLOCK_TCPIP_CORE_def sys_mutex_unlock_def queue_send_def xQueueGenericSend_try_def prvCopyDataToQueue_def case_prod_beta Let_def)
qed

lemma lock_spec:
  assumes "core_free (lw s)"
  shows "\<exists>q. LOCK_TCPIP_CORE (g # gs) s = Some (on_os (\<lambda>_. q) s) \<and> qmem q = qmem (os (lw s)) \<and>
    queues q = (queues (os (lw s)))(lock_tcpip_core (lw s) := (queues (os (lw s)) (lock_tcpip_core (lw s)))\<lparr>uxMessagesWaiting := 0, pcTail := pxCurrentTCB (kern (os (lw s)))\<rparr>)"
proof -
  let ?o = "os (lw s)" and ?c = "lock_tcpip_core (lw s)"
  let ?s = "wake_one (TasksWaitingToSend ?c) (upd_queue ?c (\<lambda>q. q\<lparr>uxMessagesWaiting := 0, pcTail := pxCurrentTCB (kern ?o)\<rparr>) (on_kern (snd \<circ> pvTaskIncrementMutexHeldCount) ?o))"
  have "xQueueSemaphoreTake (g # gs) ?c portMAX_DELAY None False ?o = Some (True, ?s)" using assms
    by (simp add: core_mutex_def xQueueSemaphoreTake_try_def Let_def case_prod_beta is_mutex_def on_kern'_def on_kern_def upd_queue_def pvTaskIncrementMutexHeldCount_def)
  then show ?thesis by (intro exI [of _ ?s]) (simp add: LOCK_TCPIP_CORE_def sys_mutex_lock_def del: xQueueSemaphoreTake.simps)
qed

lemma mbox_frame: "queues q' x = queues q x \<Longrightarrow> qmem q' = qmem q \<Longrightarrow> mbox_ok x q' = mbox_ok x q \<and> mbox_items x q' = mbox_items x q \<and> queue_cap x q' = queue_cap x q"
  by (simp add: mbox_ok_def mbox_items_def queue_ok_def queue_items_def queue_cap_def)

subsection \<open>The messages on their way\<close>

definition static_msg :: "tcpip_msg \<Rightarrow> bool" where
  "static_msg m \<longleftrightarrow> (case m of TCPIP_MSG_CALLBACK_STATIC f ctx \<Rightarrow> True | _ \<Rightarrow> False)"

text \<open>\<open>xs\<close> are the messages in the mailbox and \<open>L\<close> the free elements of the pools; a message in the mailbox is not free, and only
  a static one is there more than once.\<close>

definition tcpip_ok :: "lwip \<Rightarrow> (memp_t \<Rightarrow> nat list) \<Rightarrow> nat list \<Rightarrow> bool" where
  "tcpip_ok l L xs \<longleftrightarrow> pools_ok (pools l) L \<and> mbox_ok (tcpip_mbox l) (os l) \<and> mbox_items (tcpip_mbox l) (os l) = xs \<and>
     (\<forall>x \<in> set xs. x \<noteq> 0 \<and> (\<forall>t. x \<notin> set (L t))) \<and>
     (\<forall>t \<in> {MEMP_TCPIP_MSG_INPKT, MEMP_TCPIP_MSG_API}. \<forall>x \<in> set (L t). x < 2 ^ 32) \<and> distinct (filter (\<lambda>x. \<not> static_msg (msgs l x)) xs)"

text \<open>What \<open>tcpip_inpkt\<close> and \<open>tcpip_try_callback\<close> have in common.\<close>

definition send_msg :: "memp_t \<Rightarrow> tcpip_msg \<Rightarrow> gaps \<Rightarrow> lwip \<Rightarrow> err_t \<times> lwip" where
  "send_msg t m g s =
     (let (msg, s) = pool_malloc t s
      in if msg = 0 then (ERR_MEM, s)
         else let s = s\<lparr>msgs := (msgs s)(msg := m)\<rparr>; (e, s) = trypost g msg s
              in if e \<noteq> ERR_OK then (ERR_MEM, pool_release t msg s) else (ERR_OK, s))"

lemma send_msg_eq: "tcpip_inpkt g p inp f s = send_msg MEMP_TCPIP_MSG_INPKT (TCPIP_MSG_INPKT p inp f) g s"
  "tcpip_try_callback g f ctx s = send_msg MEMP_TCPIP_MSG_API (TCPIP_MSG_CALLBACK f ctx) g s"
  by (simp_all add: tcpip_inpkt_def tcpip_try_callback_def send_msg_def)

lemma trypost_spec:
  assumes "mbox_ok (tcpip_mbox l) (os l)" "x < 2 ^ 32"
  shows "\<exists>e q. trypost g x l = (e, l\<lparr>os := q\<rparr>) \<and> (e = ERR_OK \<longleftrightarrow> length (mbox_items (tcpip_mbox l) (os l)) < queue_cap (tcpip_mbox l) (os l)) \<and>
    mbox_ok (tcpip_mbox l) q \<and> mbox_items (tcpip_mbox l) q = mbox_items (tcpip_mbox l) (os l) @ (if e = ERR_OK then [x] else [])"
proof -
  let ?b = "tcpip_mbox l" and ?o = "os l"
  obtain e q where t: "sys_mbox_trypost g ?b x ?o = (e, q)" by fastforce
  then have p: "mbox_post g ?b from_task x ?o = (e = ERR_OK, q)" by (simp add: mbox_post_def)
  have "mbox_ok ?b q" using mbox.put_ok [of ?b ?o x g from_task] assms by (simp add: p)
  moreover have "mbox_items ?b q = mbox_items ?b ?o @ (if e = ERR_OK then [x] else [])" using mbox.put_step [of ?b ?o x g from_task] assms by (simp add: p)
  moreover have "e = ERR_OK \<longleftrightarrow> length (mbox_items ?b ?o) < queue_cap ?b ?o"
    using mbox.put_room [of ?b ?o x g from_task] mbox.put_full [of ?b ?o g from_task x] mbox.bounded [of ?b ?o] assms by (cases "length (mbox_items ?b ?o) = queue_cap ?b ?o") (simp_all add: p)
  ultimately show ?thesis using t by (auto simp: trypost_def)
qed

lemma trypost_other: 
  assumes "trypost g x l = (e, l')" "y \<noteq> tcpip_mbox l" shows "queues (os l') y = queues (os l) y"
proof -
  have "queues (snd (queue_send g (tcpip_mbox l) from_task (le_bytes x) (os l))) y = queues (os l) y"
    using assms(2) by (simp add: queue_send_def xQueueGenericSend_try_def case_prod_beta Let_def copy_other_queue)
  then show ?thesis using assms(1) by (auto simp: trypost_def sys_mbox_trypost_def split: prod.splits)
qed

lemma send_msg_spec:
  assumes ok: "tcpip_ok l L xs" and t: "t \<in> {MEMP_TCPIP_MSG_INPKT, MEMP_TCPIP_MSG_API}"
  shows "\<exists>e l'. send_msg t m g l = (e, l') \<and> l' = l\<lparr>os := os l', pools := pools l', msgs := msgs l'\<rparr> \<and>
    (\<forall>y. y \<noteq> tcpip_mbox l \<longrightarrow> queues (os l') y = queues (os l) y) \<and> (\<forall>y. (\<forall>t. y \<notin> set (L t)) \<longrightarrow> msgs l' y = msgs l y) \<and>
    (if L t \<noteq> [] \<and> length xs < queue_cap (tcpip_mbox l) (os l)
     then e = ERR_OK \<and> tcpip_ok l' (L(t := tl (L t))) (xs @ [hd (L t)]) \<and> msgs l' (hd (L t)) = m
     else e = ERR_MEM \<and> tcpip_ok l' L xs)"
proof -
  have o: "pools_ok (pools l) L" "mbox_ok (tcpip_mbox l) (os l)" "mbox_items (tcpip_mbox l) (os l) = xs" "\<forall>x \<in> set xs. x \<noteq> 0 \<and> (\<forall>t. x \<notin> set (L t))"
    "\<forall>t \<in> {MEMP_TCPIP_MSG_INPKT, MEMP_TCPIP_MSG_API}. \<forall>x \<in> set (L t). x < 2 ^ 32" "distinct (filter (\<lambda>x. \<not> static_msg (msgs l x)) xs)"
    using ok unfolding tcpip_ok_def by blast+
  show ?thesis
  proof (cases "L t")
    case Nil
    then show ?thesis using pools_malloc_none [OF o(1) Nil] ok by (simp add: send_msg_def pool_malloc_def)
  next
    case (Cons x ys)
    let ?L = "L(t := ys)"
    obtain M where m: "memp_malloc t (pools l) = (x, M)" "x \<noteq> 0" "pools_ok M ?L" "\<forall>u. x \<notin> set (?L u)"
      using pools_malloc_some [OF o(1) Cons] by blast
    have xt: "x \<in> set (L t)" using Cons by simp
    have x: "x \<notin> set xs" "x < 2 ^ 32" using o(4) xt apply blast using o(5) xt t by blast
    let ?l = "l\<lparr>pools := M, msgs := (msgs l)(x := m)\<rparr>"
    have o': "mbox_ok (tcpip_mbox ?l) (os ?l)" using o(2) by simp
    obtain e q where p: "trypost g x ?l = (e, ?l\<lparr>os := q\<rparr>)" "e = ERR_OK \<longleftrightarrow> length xs < queue_cap (tcpip_mbox l) (os l)"
      "mbox_ok (tcpip_mbox l) q" "mbox_items (tcpip_mbox l) q = xs @ (if e = ERR_OK then [x] else [])"
      using trypost_spec [OF o' x(2), of g] o(3) by auto
    have fr: "queues q y = queues (os l) y" if "y \<noteq> tcpip_mbox l" for y using trypost_other [OF p(1), of y] that by simp
    have mm: "((msgs l)(x := m)) y = msgs l y" if "\<forall>u. y \<notin> set (L u)" for y using that xt by auto
    have ff: "filter (\<lambda>y. \<not> static_msg (((msgs l)(x := m)) y)) xs = filter (\<lambda>y. \<not> static_msg (msgs l y)) xs"
      using x(1) by (intro filter_cong) auto
    have d: "distinct (filter (\<lambda>y. \<not> static_msg (((msgs l)(x := m)) y)) (xs @ [x]))" unfolding filter_append ff using o(6) x(1) by simp
    show ?thesis
    proof (cases "e = ERR_OK")
      case True
      have s: "send_msg t m g l = (ERR_OK, ?l\<lparr>os := q\<rparr>)" using m p True by (simp add: send_msg_def pool_malloc_def)
      have r: "xs @ [hd (L t)] = xs @ [x]" "L(t := tl (L t)) = ?L" using Cons by simp_all
      have sub: "set (?L u) \<subseteq> set (L u)" for u using Cons by auto
      then have "\<forall>y \<in> set (xs @ [x]). y \<noteq> 0 \<and> (\<forall>u. y \<notin> set (?L u))" using o(4) m(2,4) by (metis in_mono in_set_conv_decomp_last Un_iff empty_iff empty_set insertE list.simps(15) set_append)
      moreover have "\<forall>u \<in> {MEMP_TCPIP_MSG_INPKT, MEMP_TCPIP_MSG_API}. \<forall>y \<in> set (?L u). y < 2 ^ 32" using o(5) sub by blast
      ultimately have "tcpip_ok (?l\<lparr>os := q\<rparr>) ?L (xs @ [x])" unfolding tcpip_ok_def using m(3) p(3,4) True d by simp
      then show ?thesis using s fr mm True p(2) Cons unfolding r by (intro exI [of _ ERR_OK] exI [of _ "?l\<lparr>os := q\<rparr>"]) simp
    next
      case False
      let ?l' = "?l\<lparr>os := q, pools := memp_free t x M\<rparr>"
      have s: "send_msg t m g l = (ERR_MEM, ?l')" using m p False by (simp add: send_msg_def pool_malloc_def pool_release_def)
      have r: "?L(t := x # ?L t) = L" using Cons by auto
      have "pools_ok (memp_free t x M) L" using pools_free [OF m(3,2,4), of t] unfolding r .
      then have "tcpip_ok ?l' L xs" unfolding tcpip_ok_def using p(3,4) False o(4,5,6) ff by simp
      then show ?thesis using s fr mm False p(2) by (intro exI [of _ ERR_MEM] exI [of _ ?l']) simp
    qed
  qed
qed

text \<open>What other threads do while the core is unlocked and the thread has message \<open>x\<close> or looks at the mailbox with it: they may
  post messages, they leave the lock free, and they neither free nor post \<open>x\<close>.\<close>

definition others_ok :: "nat \<Rightarrow> (tstack \<Rightarrow> tstack) \<Rightarrow> bool" where
  "others_ok x f \<longleftrightarrow> (\<forall>s L xs. tcpip_ok (lw s) L xs \<and> core_free (lw s) \<and> (\<forall>t. x \<notin> set (L t)) \<longrightarrow>
     (\<exists>L' ys. tcpip_ok (lw (f s)) L' (xs @ ys) \<and> core_free (lw (f s)) \<and> (\<forall>t. x \<notin> set (L' t)) \<and> x \<notin> set ys \<and>
       map (msgs (lw (f s))) (x # xs) = map (msgs (lw s)) (x # xs)))"

lemma others_okD:
  assumes "others_ok x f" "tcpip_ok (lw s) L xs" "core_free (lw s)" "\<forall>t. x \<notin> set (L t)"
  obtains L' ys where "tcpip_ok (lw (f s)) L' (xs @ ys)" "core_free (lw (f s))" "\<forall>t. x \<notin> set (L' t)" "x \<notin> set ys"
    "map (msgs (lw (f s))) (x # xs) = map (msgs (lw s)) (x # xs)"
  using assms unfolding others_ok_def by meson

lemma others_id: "others_ok x (\<lambda>s. s)"
  unfolding others_ok_def by (metis append_Nil2 empty_iff empty_set)

text \<open>The senders of the code are such threads.\<close>

lemma others_send:
  assumes "t \<in> {MEMP_TCPIP_MSG_INPKT, MEMP_TCPIP_MSG_API}"
  shows "others_ok x (\<lambda>s. s\<lparr>lw := snd (send_msg t m g (lw s))\<rparr>)"
  unfolding others_ok_def
proof (intro allI impI)
  fix s :: tstack and L xs assume a: "tcpip_ok (lw s) L xs \<and> core_free (lw s) \<and> (\<forall>t. x \<notin> set (L t))"
  obtain e l' where l: "send_msg t m g (lw s) = (e, l')" "l' = (lw s)\<lparr>os := os l', pools := pools l', msgs := msgs l'\<rparr>"
    "\<forall>y. y \<noteq> tcpip_mbox (lw s) \<longrightarrow> queues (os l') y = queues (os (lw s)) y" "\<forall>y. (\<forall>t. y \<notin> set (L t)) \<longrightarrow> msgs l' y = msgs (lw s) y"
    and r: "if L t \<noteq> [] \<and> length xs < queue_cap (tcpip_mbox (lw s)) (os (lw s)) then e = ERR_OK \<and> tcpip_ok l' (L(t := tl (L t))) (xs @ [hd (L t)]) \<and> msgs l' (hd (L t)) = m
     else e = ERR_MEM \<and> tcpip_ok l' L xs"
    using send_msg_spec [OF conjunct1 [OF a] assms, of m g] by blast
  have h: "lock_tcpip_core l' = lock_tcpip_core (lw s)" "tcpip_mbox l' = tcpip_mbox (lw s)"
    by (subst l(2), simp)+
  have c: "core_free l'" using a l(3) h unfolding core_mutex_def Let_def by metis
  have m': "map (msgs l') (x # xs) = map (msgs (lw s)) (x # xs)" using a l(4) by (auto simp: tcpip_ok_def)
  have "\<exists>L' ys. tcpip_ok l' L' (xs @ ys) \<and> (\<forall>t. x \<notin> set (L' t)) \<and> x \<notin> set ys"
  proof (cases "L t \<noteq> [] \<and> length xs < queue_cap (tcpip_mbox (lw s)) (os (lw s))")
    case True
    then have "hd (L t) \<in> set (L t)" "set (tl (L t)) \<subseteq> set (L t)" by (cases "L t"; auto)+
    then have "(\<forall>u. x \<notin> set ((L(t := tl (L t))) u))" "x \<notin> set [hd (L t)]" using a by auto
    then show ?thesis using r True by (intro exI [of _ "L(t := tl (L t))"] exI [of _ "[hd (L t)]"]) simp
  next
    case False
    then show ?thesis using r a by (intro exI [of _ L] exI [of _ "[]"]) auto
  qed
  then show "\<exists>L' ys. tcpip_ok (lw (s\<lparr>lw := snd (send_msg t m g (lw s))\<rparr>)) L' (xs @ ys) \<and> core_free (lw (s\<lparr>lw := snd (send_msg t m g (lw s))\<rparr>)) \<and>
      (\<forall>t. x \<notin> set (L' t)) \<and> x \<notin> set ys \<and> map (msgs (lw (s\<lparr>lw := snd (send_msg t m g (lw s))\<rparr>))) (x # xs) = map (msgs (lw s)) (x # xs)"
    using l(1) c m' by simp
qed

lemma tcpip_ok_frame:
  assumes "tcpip_ok l L xs" "mbox_ok (tcpip_mbox l) q" "mbox_items (tcpip_mbox l) q = ys" "set ys \<subseteq> set xs" "distinct (filter (\<lambda>x. \<not> static_msg (msgs l x)) ys)"
  shows "tcpip_ok (l\<lparr>os := q\<rparr>) L ys"
  using assms unfolding tcpip_ok_def by auto

text \<open>A fetch from a mailbox with messages does not wait.\<close>

lemma list_remove_tick: "xTickCount (snd (list_remove i k)) = xTickCount k"
  by (simp add: list_remove_def split: option.split)

lemma wake_one_tick: "xTickCount (kern (wake_one l s)) = xTickCount (kern s)"
  by (simp add: wake_one_def xTaskRemoveFromEventList_def list_remove_tick list_insert_end_def prvAddTaskToReadyList_def portYIELD_def Let_def case_prod_beta)

lemma fetch_first:
  assumes "mbox_ok b q" "mbox_items b q = x # xs"
  shows "\<exists>t q'. sys_arch_mbox_fetch (g # gs) b ms q = Some ((t, x), q') \<and> t \<noteq> SYS_ARCH_TIMEOUT \<and> mbox_ok b q' \<and> mbox_items b q' = xs \<and> (\<forall>y. y \<noteq> b \<longrightarrow> queues q' y = queues q y)"
proof -
  have n: "0 < uxMessagesWaiting (queues q b)" using assms(2) by (simp add: mbox_items_def queue_count) (metis length_map length_greater_0_conv list.discI)
  obtain r where r: "queue_receive g b from_task q = r" by simp
  have "mbox_fetch g b from_task q = (Some x, snd r)" "mbox_ok b (snd r)" "mbox_items b (snd r) = xs"
    using mbox.get_some [OF assms, of g from_task] mbox.get_ok [OF assms(1), of g from_task] r by (auto simp: mbox_fetch_queue prod_eq_iff)
  then have m: "map_option of_le_bytes (fst r) = Some x" "mbox_ok b (snd r)" "mbox_items b (snd r) = xs"
    using mbox_fetch_queue(1) [of g b from_task q] r by auto
  have f: "sys_arch_mbox_fetch (g # gs) b ms q = Some ((0, x), snd r)"
    using n m(1) r by (auto simp: sys_arch_mbox_fetch_def queue_receive_def xQueueReceive_try_def case_prod_beta Let_def xTaskGetTickCount_def wake_one_tick prvCopyDataFromQueue_def)
  have "queues (snd r) y = queues q y" if "y \<noteq> b" for y
    using n that r by (auto simp: queue_receive_def xQueueReceive_try_def case_prod_beta Let_def prvCopyDataFromQueue_def)
  then show ?thesis using f m by (auto simp: SYS_ARCH_TIMEOUT_def)
qed

lemma core_mutex_upd: "core_mutex (l\<lparr>os := q\<rparr>) n \<longleftrightarrow> (let c = queues q (lock_tcpip_core l) in is_mutex c \<and> uxLength c = 1 \<and> uxItemSize c = 0 \<and> uxMessagesWaiting c = n) \<and> lock_tcpip_core l \<noteq> tcpip_mbox l"
  by (simp add: core_mutex_def)

lemma lw_on_os: "lw (on_os f s) = (lw s)\<lparr>os := f (os (lw s))\<rparr>" by (simp add: on_os_def)

lemma unlock_ok:
  assumes "tcpip_ok (lw s) L xs" "core_held (lw s)"
  shows "tcpip_ok (lw (UNLOCK_TCPIP_CORE g s)) L xs" "core_free (lw (UNLOCK_TCPIP_CORE g s))" "msgs (lw (UNLOCK_TCPIP_CORE g s)) = msgs (lw s)"
    "lock_tcpip_core (lw (UNLOCK_TCPIP_CORE g s)) = lock_tcpip_core (lw s)" "tcpip_mbox (lw (UNLOCK_TCPIP_CORE g s)) = tcpip_mbox (lw s)"
proof -
  note u = unlock_spec [OF assms(2), of g]
  have n: "lock_tcpip_core (lw s) \<noteq> tcpip_mbox (lw s)" using assms(2) by (simp add: core_mutex_def)
  have "mbox_ok (tcpip_mbox (lw s)) (os (lw (UNLOCK_TCPIP_CORE g s))) = mbox_ok (tcpip_mbox (lw s)) (os (lw s)) \<and>
    mbox_items (tcpip_mbox (lw s)) (os (lw (UNLOCK_TCPIP_CORE g s))) = mbox_items (tcpip_mbox (lw s)) (os (lw s)) \<and> queue_cap (tcpip_mbox (lw s)) (os (lw (UNLOCK_TCPIP_CORE g s))) = queue_cap (tcpip_mbox (lw s)) (os (lw s))"
    by (rule mbox_frame) (use u n in simp_all)
  then show "tcpip_ok (lw (UNLOCK_TCPIP_CORE g s)) L xs" using assms(1) unfolding tcpip_ok_def by (simp add: UNLOCK_TCPIP_CORE_def)
  show "core_free (lw (UNLOCK_TCPIP_CORE g s))" using assms(2) u n by (simp add: core_mutex_def Let_def is_mutex_def UNLOCK_TCPIP_CORE_def)
qed (simp_all add: UNLOCK_TCPIP_CORE_def)

lemma lock_ok:
  assumes "tcpip_ok (lw s) L xs" "core_free (lw s)"
  shows "\<exists>q. LOCK_TCPIP_CORE (g # gs) s = Some (on_os (\<lambda>_. q) s) \<and> tcpip_ok (lw (on_os (\<lambda>_. q) s)) L xs \<and> core_held (lw (on_os (\<lambda>_. q) s)) \<and>
    xMutexHolder (queues q (lock_tcpip_core (lw s))) = pxCurrentTCB (kern (os (lw s)))"
proof -
  obtain q where l: "LOCK_TCPIP_CORE (g # gs) s = Some (on_os (\<lambda>_. q) s)" "qmem q = qmem (os (lw s))"
    "queues q = (queues (os (lw s)))(lock_tcpip_core (lw s) := (queues (os (lw s)) (lock_tcpip_core (lw s)))\<lparr>uxMessagesWaiting := 0, pcTail := pxCurrentTCB (kern (os (lw s)))\<rparr>)"
    using lock_spec [OF assms(2), of g gs] by blast
  have n: "lock_tcpip_core (lw s) \<noteq> tcpip_mbox (lw s)" using assms(2) by (simp add: core_mutex_def)
  have "mbox_ok (tcpip_mbox (lw s)) q = mbox_ok (tcpip_mbox (lw s)) (os (lw s)) \<and>
    mbox_items (tcpip_mbox (lw s)) q = mbox_items (tcpip_mbox (lw s)) (os (lw s)) \<and> queue_cap (tcpip_mbox (lw s)) q = queue_cap (tcpip_mbox (lw s)) (os (lw s))"
    by (rule mbox_frame) (use l n in simp_all)
  then have "tcpip_ok (lw (on_os (\<lambda>_. q) s)) L xs" using assms(1) unfolding tcpip_ok_def by simp
  moreover have "core_held (lw (on_os (\<lambda>_. q) s))" using assms(2) l(3) n by (simp add: core_mutex_def Let_def is_mutex_def)
  ultimately show ?thesis using l by auto
qed

lemma tcpip_ok_head:
  assumes "tcpip_ok l L (x # xs)"
  shows "x \<noteq> 0" "\<forall>t. x \<notin> set (L t)" "static_msg (msgs l x) \<or> x \<notin> set xs"
    "set xs \<subseteq> set (x # xs)" "distinct (filter (\<lambda>x. \<not> static_msg (msgs l x)) xs)"
  using assms unfolding tcpip_ok_def by (auto split: if_splits)

lemma unlocked_fetch_first:
  assumes ok: "tcpip_ok (lw s) L (x # xs)" and h: "core_held (lw s)" and o: "others_ok x (after_unlock u)" "others_ok x (before_relock u)"
    and g: "fetch_gaps u = g # gs" "lock_gaps u = k # ks"
  shows "\<exists>t s' L' ys. unlocked_fetch u ms s = Some ((t, x), s') \<and> t \<noteq> SYS_ARCH_TIMEOUT \<and> core_held (lw s') \<and> tcpip_ok (lw s') L' (xs @ ys) \<and>
    (\<forall>t. x \<notin> set (L' t)) \<and> x \<notin> set ys \<and> map (msgs (lw s')) (x # xs) = map (msgs (lw s)) (x # xs)"
proof -
  let ?s1 = "UNLOCK_TCPIP_CORE (unlock_gaps u) s" let ?s2 = "after_unlock u ?s1"
  note a = unlock_ok [OF ok h, of "unlock_gaps u"]
  obtain L2 ys where b: "tcpip_ok (lw ?s2) L2 ((x # xs) @ ys)" "core_free (lw ?s2)" "\<forall>t. x \<notin> set (L2 t)" "x \<notin> set ys"
    "map (msgs (lw ?s2)) (x # x # xs) = map (msgs (lw ?s1)) (x # x # xs)"
    by (rule others_okD [OF o(1) a(1,2) tcpip_ok_head(2) [OF ok]])
  have b1: "tcpip_ok (lw ?s2) L2 (x # (xs @ ys))" using b(1) by simp
  then have m: "mbox_ok (tcpip_mbox (lw ?s2)) (os (lw ?s2))" "mbox_items (tcpip_mbox (lw ?s2)) (os (lw ?s2)) = x # (xs @ ys)" by (simp_all add: tcpip_ok_def)
  obtain t q where f: "sys_arch_mbox_fetch (g # gs) (tcpip_mbox (lw ?s2)) ms (os (lw ?s2)) = Some ((t, x), q)" "t \<noteq> SYS_ARCH_TIMEOUT"
    "mbox_ok (tcpip_mbox (lw ?s2)) q" "mbox_items (tcpip_mbox (lw ?s2)) q = xs @ ys" "\<forall>y. y \<noteq> tcpip_mbox (lw ?s2) \<longrightarrow> queues q y = queues (os (lw ?s2)) y"
    using fetch_first [OF m, of g gs ms] by blast
  let ?s3 = "on_os (\<lambda>_. q) ?s2" let ?s4 = "before_relock u ?s3"
  have "tcpip_ok ((lw ?s2)\<lparr>os := q\<rparr>) L2 (xs @ ys)" by (rule tcpip_ok_frame [OF b1 f(3,4) tcpip_ok_head(4,5) [OF b1]])
  then have c: "tcpip_ok (lw ?s3) L2 (xs @ ys)" "core_free (lw ?s3)" using b(2) f(5) by (simp_all add: lw_on_os core_mutex_def)
  obtain L4 zs where d: "tcpip_ok (lw ?s4) L4 ((xs @ ys) @ zs)" "core_free (lw ?s4)" "\<forall>t. x \<notin> set (L4 t)" "x \<notin> set zs"
    "map (msgs (lw ?s4)) (x # (xs @ ys)) = map (msgs (lw ?s3)) (x # (xs @ ys))"
    by (rule others_okD [OF o(2) c b(3)])
  obtain q' where e: "LOCK_TCPIP_CORE (k # ks) ?s4 = Some (on_os (\<lambda>_. q') ?s4)" "tcpip_ok (lw (on_os (\<lambda>_. q') ?s4)) L4 ((xs @ ys) @ zs)" "core_held (lw (on_os (\<lambda>_. q') ?s4))"
    using lock_ok [OF d(1,2), of k ks] by blast
  have "unlocked_fetch u ms s = Some ((t, x), on_os (\<lambda>_. q') ?s4)" using f(1) e(1) g by (simp add: unlocked_fetch_def Let_def)
  moreover have "map (msgs (lw (on_os (\<lambda>_. q') ?s4))) (x # xs) = map (msgs (lw s)) (x # xs)" using d(5) b(5) a(3) by simp
  moreover have "x \<notin> set (ys @ zs)" using b(4) d(4) by simp
  ultimately show ?thesis using f(2) e(2,3) d(3) by (metis append.assoc)
qed

text \<open>A round with a message in the mailbox and no time-out due handles the first message.\<close>

lemma round_first:
  assumes "tcpip_ok (lw s) L (x # xs)" "core_held (lw s)" "others_ok x (after_unlock u)" "others_ok x (before_relock u)"
    "fetch_gaps u = g # gs" "lock_gaps u = k # ks" "sys_timeouts_sleeptime s \<noteq> 0"
  shows "\<exists>s' L' ys. tcpip_thread_round F (u # us) s = tcpip_thread_handle_msg F x s' \<and> core_held (lw s') \<and> tcpip_ok (lw s') L' (xs @ ys) \<and>
    (\<forall>t. x \<notin> set (L' t)) \<and> x \<notin> set ys \<and> map (msgs (lw s')) (x # xs) = map (msgs (lw s)) (x # xs)"
proof -
  let ?ms = "if sys_timeouts_sleeptime s = SYS_TIMEOUTS_SLEEPTIME_INFINITE then 0 else sys_timeouts_sleeptime s"
  obtain t s' L' ys where f: "unlocked_fetch u ?ms s = Some ((t, x), s')" "t \<noteq> SYS_ARCH_TIMEOUT" and r: "core_held (lw s')" "tcpip_ok (lw s') L' (xs @ ys)"
    "\<forall>t. x \<notin> set (L' t)" "x \<notin> set ys" "map (msgs (lw s')) (x # xs) = map (msgs (lw s)) (x # xs)"
    using unlocked_fetch_first [OF assms(1-6), of ?ms] by blast
  have "tcpip_thread_round F (u # us) s = tcpip_thread_handle_msg F x s'" using f tcpip_ok_head(1) [OF assms(1)] assms(7)
    by (auto simp: tcpip_thread_round_def Let_def split: if_splits)
  then show ?thesis using r by blast
qed

subsection \<open>Handling a message\<close>

lemma release_ok:
  assumes "pools_ok (pools l) L" "x \<noteq> 0" "\<forall>t. x \<notin> set (L t)"
  shows "pools_ok (pools (pool_release t x l)) (L(t := x # L t))"
  using pools_free [OF assms, of t] by (simp add: pool_release_def)

text \<open>An input function that refuses the packet leaves it to the thread to free it.\<close>

lemma rejected_spec:
  assumes m: "msgs (lw s) x = TCPIP_MSG_INPKT p inp f" and i: "input_call F f p inp s = (e, s1)" "e \<noteq> ERR_OK"
    and b: "buf_mem base (lw s1) L R" "pchain (pbufs (lw s1)) p qs" "p \<noteq> 0" "\<forall>q \<in> set qs. pbuf_owned (lw s1) L R q \<and> pbuf_ref (pbufs (lw s1) q) = 1" "length qs < 256"
    and x: "x \<noteq> 0" "\<forall>t. x \<notin> set (L t)" "x \<notin> set qs"
  shows "\<exists>s'. tcpip_thread_handle_msg F x s = Some s' \<and> lmem (lw s') = lmem (lw s1) \<and>
    buf_mem base (lw s') ((back_to (pbufs (lw s1)) qs L)(MEMP_TCPIP_MSG_INPKT := x # L MEMP_TCPIP_MSG_INPKT)) (heap_left (pbufs (lw s1)) qs R)"
proof -
  have g: "gone (pbufs (lw s1)) qs = qs" "touched (pbufs (lw s1)) qs = qs" using b(4) by (induction qs) auto
  from free_loop_spec [OF b(2,1), of 0 "custom_free F"] g b(4,5) obtain l where l: "pbuf_free (custom_free F) p (lw s1) = Some (length qs, l)"
    "buf_mem base l (back_to (pbufs (lw s1)) qs L) (heap_left (pbufs (lw s1)) qs R)" "lmem l = lmem (lw s1)"
    using b(3) by (auto simp: Let_def pbuf_free_def u8_t_def)
  let ?L = "back_to (pbufs (lw s1)) qs L"
  have n: "\<forall>t. x \<notin> set (?L t)" "?L MEMP_TCPIP_MSG_INPKT = L MEMP_TCPIP_MSG_INPKT"
    using x(2,3) apply (auto simp: set_back_to) by (induction qs arbitrary: L) auto
  have "pools_ok (pools (pool_release MEMP_TCPIP_MSG_INPKT x l)) (?L(MEMP_TCPIP_MSG_INPKT := x # ?L MEMP_TCPIP_MSG_INPKT))"
    using l(2) x(1) n(1) by (intro release_ok) (simp_all add: buf_mem_def)
  then have "buf_mem base (pool_release MEMP_TCPIP_MSG_INPKT x l) (?L(MEMP_TCPIP_MSG_INPKT := x # L MEMP_TCPIP_MSG_INPKT)) (heap_left (pbufs (lw s1)) qs R)"
    using l(2) n(2) by (simp add: buf_mem_def pool_release_def)
  then show ?thesis using m i l by (intro exI [of _ "s1\<lparr>lw := pool_release MEMP_TCPIP_MSG_INPKT x l\<rparr>"])
    (simp add: tcpip_thread_handle_msg_def pbuf_free_int_def on_lw_def pool_release_def)
qed

subsection \<open>Properties\<close>

text \<open>A packet handed to the stack is queued or refused, never lost. \<open>tcpip_inpkt\<close> puts one message with exactly the packet, the
  interface and the input function behind those already in the mailbox when the pool has an element and the
  mailbox a place; otherwise it returns \<open>ERR_MEM\<close>, the mailbox and the messages in it are as before and no element of the
  pool is lost. The packet itself is not touched.\<close>

theorem tcpip_inpkt_queues:
  assumes "tcpip_ok l L xs"
  shows "\<exists>e l'. tcpip_inpkt g p inp f l = (e, l') \<and> pbufs l' = pbufs l \<and> lmem l' = lmem l \<and> map (msgs l') xs = map (msgs l) xs \<and>
    (if L MEMP_TCPIP_MSG_INPKT \<noteq> [] \<and> length xs < queue_cap (tcpip_mbox l) (os l)
     then e = ERR_OK \<and> tcpip_ok l' (L(MEMP_TCPIP_MSG_INPKT := tl (L MEMP_TCPIP_MSG_INPKT))) (xs @ [hd (L MEMP_TCPIP_MSG_INPKT)]) \<and>
       msgs l' (hd (L MEMP_TCPIP_MSG_INPKT)) = TCPIP_MSG_INPKT p inp f
     else e = ERR_MEM \<and> tcpip_ok l' L xs)"
proof -
  have t: "MEMP_TCPIP_MSG_INPKT \<in> {MEMP_TCPIP_MSG_INPKT, MEMP_TCPIP_MSG_API}" by simp
  obtain e l' where r: "tcpip_inpkt g p inp f l = (e, l')" "l' = l\<lparr>os := os l', pools := pools l', msgs := msgs l'\<rparr>"
    "\<forall>y. (\<forall>t. y \<notin> set (L t)) \<longrightarrow> msgs l' y = msgs l y"
    "if L MEMP_TCPIP_MSG_INPKT \<noteq> [] \<and> length xs < queue_cap (tcpip_mbox l) (os l)
     then e = ERR_OK \<and> tcpip_ok l' (L(MEMP_TCPIP_MSG_INPKT := tl (L MEMP_TCPIP_MSG_INPKT))) (xs @ [hd (L MEMP_TCPIP_MSG_INPKT)]) \<and>
       msgs l' (hd (L MEMP_TCPIP_MSG_INPKT)) = TCPIP_MSG_INPKT p inp f
     else e = ERR_MEM \<and> tcpip_ok l' L xs"
    using send_msg_spec [OF assms t, of "TCPIP_MSG_INPKT p inp f" g] unfolding send_msg_eq by blast
  have "pbufs l' = pbufs l" "lmem l' = lmem l" by (subst r(2), simp)+
  moreover have "map (msgs l') xs = map (msgs l) xs" using r(3) assms by (auto simp: tcpip_ok_def)
  ultimately show ?thesis using r(1,4) by blast
qed

text \<open>C27: The thread serves packets in the order of their messages, holding the lock of the core. With a packet message at the front of
  the mailbox and no time-out due, a round does not wait: it calls the input function of the message once with the
  packet and the interface, in a state with the lock held in which the mailbox holds the remaining messages unchanged
  followed by what other threads have posted meanwhile; the packet is freed exactly when the function refuses it, and
  the message, which nobody else has, goes back to its pool.\<close>

theorem tcpip_thread_serves_first:
  assumes "tcpip_ok (lw s) L (x # xs)" "core_held (lw s)" "msgs (lw s) x = TCPIP_MSG_INPKT p inp f" "sys_timeouts_sleeptime s \<noteq> 0"
    "others_ok x (after_unlock u)" "others_ok x (before_relock u)" "fetch_gaps u = g # gs" "lock_gaps u = k # ks"
  shows "\<exists>s1 L1 ys. core_held (lw s1) \<and> tcpip_ok (lw s1) L1 (xs @ ys) \<and> map (msgs (lw s1)) xs = map (msgs (lw s)) xs \<and>
    (\<forall>t. x \<notin> set (L1 t)) \<and> x \<notin> set (xs @ ys) \<and>
    tcpip_thread_round F (u # us) s =
      (let (e, s2) = input_call F f p inp s1
       in map_option (on_lw (pool_release MEMP_TCPIP_MSG_INPKT x)) (if e \<noteq> ERR_OK then pbuf_free_int F p s2 else Some s2))"
proof -
  obtain s1 L1 ys where r: "tcpip_thread_round F (u # us) s = tcpip_thread_handle_msg F x s1" "core_held (lw s1)" "tcpip_ok (lw s1) L1 (xs @ ys)"
    "\<forall>t. x \<notin> set (L1 t)" "x \<notin> set ys" "map (msgs (lw s1)) (x # xs) = map (msgs (lw s)) (x # xs)"
    using round_first [OF assms(1,2,5-8,4), of F us] by blast
  have "x \<notin> set xs" using tcpip_ok_head(3) [OF assms(1)] assms(3) by (simp add: static_msg_def)
  moreover have "msgs (lw s1) x = TCPIP_MSG_INPKT p inp f" using r(6) assms(3) by simp
  ultimately show ?thesis using r by (intro exI [of _ s1] exI [of _ L1] exI [of _ ys]) (simp add: tcpip_thread_handle_msg_def)
qed

text \<open>C28: A refused packet is not leaked: when the input function returns an error and leaves the packet, a chain of buffers with one
  reference each, to its caller, the thread returns every buffer of the chain to its pool or the heap, and the
  message to the pool of messages, and changes no data.\<close>

theorem refused_packet_freed:
  assumes "msgs (lw s) x = TCPIP_MSG_INPKT p inp f" "input_call F f p inp s = (e, s1)" "e \<noteq> ERR_OK"
    "buf_mem base (lw s1) L R" "pchain (pbufs (lw s1)) p qs" "p \<noteq> 0" "\<forall>q \<in> set qs. pbuf_owned (lw s1) L R q \<and> pbuf_ref (pbufs (lw s1) q) = 1" "length qs < 256"
    "x \<noteq> 0" "\<forall>t. x \<notin> set (L t)" "x \<notin> set qs"
  shows "\<exists>s'. tcpip_thread_handle_msg F x s = Some s' \<and> lmem (lw s') = lmem (lw s1) \<and>
    buf_mem base (lw s') ((back_to (pbufs (lw s1)) qs L)(MEMP_TCPIP_MSG_INPKT := x # L MEMP_TCPIP_MSG_INPKT)) (heap_left (pbufs (lw s1)) qs R)"
  by (rule rejected_spec [OF assms])

text \<open>C29: A call into the stack runs alone: with the lock free, \<open>tcpip_api_call\<close> runs the function once, in a state in which the lock is held
  and the calling task is its holder, returns the result of the function, and leaves the lock free again when the
  function has not released it.\<close>

theorem tcpip_api_call_locked:
  assumes "tcpip_ok (lw s) L xs" "core_free (lw s)" "\<And>s1 e s2. fn s1 = (e, s2) \<Longrightarrow> core_held (lw s1) \<Longrightarrow> core_held (lw s2)"
  shows "\<exists>s1 e s2 s3. tcpip_api_call (g # gs) g' fn s = Some (e, s3) \<and> fn s1 = (e, s2) \<and> tcpip_ok (lw s1) L xs \<and> core_held (lw s1) \<and>
    xMutexHolder (queues (os (lw s1)) (lock_tcpip_core (lw s1))) = pxCurrentTCB (kern (os (lw s))) \<and> core_free (lw s3)"
proof -
  obtain q where l: "LOCK_TCPIP_CORE (g # gs) s = Some (on_os (\<lambda>_. q) s)" "tcpip_ok (lw (on_os (\<lambda>_. q) s)) L xs" "core_held (lw (on_os (\<lambda>_. q) s))"
    "xMutexHolder (queues q (lock_tcpip_core (lw s))) = pxCurrentTCB (kern (os (lw s)))"
    using lock_ok [OF assms(1,2), of g gs] by blast
  obtain e s2 where f: "fn (on_os (\<lambda>_. q) s) = (e, s2)" by fastforce
  have h: "core_held (lw s2)" by (rule assms(3) [OF f l(3)])
  have "core_free (lw (UNLOCK_TCPIP_CORE g' s2))" using h unlock_spec [OF h, of g']
    by (simp add: core_mutex_def Let_def is_mutex_def UNLOCK_TCPIP_CORE_def)
  then show ?thesis using l f by (intro exI [of _ "on_os (\<lambda>_. q) s"] exI [of _ e] exI [of _ s2] exI [of _ "UNLOCK_TCPIP_CORE g' s2"]) (simp add: tcpip_api_call_def)
qed

text \<open>A stack with an empty mailbox of four places, two free messages and the lock free or held.\<close>

definition demo_net :: "nat \<Rightarrow> tstack" where
  "demo_net n = demo_tstack\<lparr>next_timeout := 0, lw := demo_pkt\<lparr>os := (demo_queue 4 4)\<lparr>queues := (queues (demo_queue 4 4))(9 := \<lparr>pcHead = 0, pcWriteTo = 0, pcTail = 0,
       pcReadFrom = 0, uxMessagesWaiting = n, uxLength = 1, uxItemSize = 0, cRxLock = - 1, cTxLock = - 1\<rparr>)\<rparr>,
     pools := \<lparr>memp_tab = (\<lambda>_. 0)(MEMP_TCPIP_MSG_INPKT := 100), memp_next = (\<lambda>_. 0)(100 := 140)\<rparr>\<rparr>\<rparr>"

definition demo_msgs :: "memp_t \<Rightarrow> nat list" where
  "demo_msgs = (\<lambda>_. [])(MEMP_TCPIP_MSG_INPKT := [100, 140])"

lemma demo_net_lw: "tcpip_mbox (lw (demo_net n)) = 7" "lock_tcpip_core (lw (demo_net n)) = 9" "queue_cap 7 (os (lw (demo_net n))) = 4"
  "sys_timeouts_sleeptime (demo_net n) = SYS_TIMEOUTS_SLEEPTIME_INFINITE" "next_timeout (demo_net n) = 0"
  by (simp_all add: demo_net_def demo_pkt_def demo_lwip_def queue_cap_def sys_timeouts_sleeptime_def)

lemma demo_net_ok: "tcpip_ok (lw (demo_net n)) demo_msgs []" "core_mutex (lw (demo_net n)) n"
proof -
  let ?q = "os (lw (demo_net n))"
  have "mbox_ok 7 ?q = mbox_ok 7 (demo_queue 4 4) \<and> mbox_items 7 ?q = mbox_items 7 (demo_queue 4 4) \<and> queue_cap 7 ?q = queue_cap 7 (demo_queue 4 4)"
    by (rule mbox_frame) (simp_all add: demo_net_def)
  moreover have "mbox_ok 7 (demo_queue 4 4)" "mbox_items 7 (demo_queue 4 4) = []" using demo_queue_ok [of 4 4] by (simp_all add: mbox_ok_def mbox_items_def)
  moreover have "pools_ok (pools (lw (demo_net n))) demo_msgs" by (auto simp: pools_ok_def demo_net_def demo_msgs_def pool_free_def)
  ultimately show "tcpip_ok (lw (demo_net n)) demo_msgs []" by (simp add: tcpip_ok_def demo_net_lw) (simp add: demo_msgs_def)
  show "core_mutex (lw (demo_net n)) n" by (simp add: core_mutex_def demo_net_def demo_pkt_def demo_lwip_def is_mutex_def)
qed

theorem tcpip_inpkt_queues_witness:
  "\<exists>l'. tcpip_inpkt (window id) 600 5 ETHERNET_INPUT (lw (demo_net 0)) = (ERR_OK, l') \<and> tcpip_ok l' (demo_msgs(MEMP_TCPIP_MSG_INPKT := [140])) [100] \<and>
     msgs l' 100 = TCPIP_MSG_INPKT 600 5 ETHERNET_INPUT"
  using tcpip_inpkt_queues [OF demo_net_ok(1) [of 0], of "window id" 600 5 ETHERNET_INPUT] by (auto simp: demo_net_lw demo_msgs_def)

definition demo_fns :: "err_t \<Rightarrow> tcpip_fns" where
  "demo_fns e = \<lparr>timer_calls = \<lparr>cyclic_fn = \<lambda>_ s. s, tcp_tmr = \<lambda>s. s, client_fn = \<lambda>_ _ s. s\<rparr>, input_call = \<lambda>_ _ _ s. (e, s),
     callback_call = \<lambda>_ _ s. s, custom_free = \<lambda>_ s. s\<rparr>"

theorem tcpip_thread_serves_first_witness:
  "\<exists>s s' u. msgs (lw s) 100 = TCPIP_MSG_INPKT 600 5 ETHERNET_INPUT \<and> tcpip_ok (lw s) (demo_msgs(MEMP_TCPIP_MSG_INPKT := [140])) [100] \<and>
     tcpip_thread_round (demo_fns ERR_OK) [u] s = Some s'"
proof -
  obtain l' where l: "send_msg MEMP_TCPIP_MSG_INPKT (TCPIP_MSG_INPKT 600 5 ETHERNET_INPUT) (window id) (lw (demo_net 0)) = (ERR_OK, l')"
    "tcpip_ok l' (demo_msgs(MEMP_TCPIP_MSG_INPKT := [140])) [100]" "msgs l' 100 = TCPIP_MSG_INPKT 600 5 ETHERNET_INPUT"
    "\<forall>y. y \<noteq> 7 \<longrightarrow> queues (os l') y = queues (os (lw (demo_net 0))) y" "l' = (lw (demo_net 0))\<lparr>os := os l', pools := pools l', msgs := msgs l'\<rparr>"
    using send_msg_spec [OF demo_net_ok(1) [of 0], of MEMP_TCPIP_MSG_INPKT "TCPIP_MSG_INPKT 600 5 ETHERNET_INPUT" "window id"]
    by (auto simp: demo_net_lw demo_msgs_def)
  have "lock_tcpip_core l' = 9" "tcpip_mbox l' = 7" by (subst l(5), simp add: demo_net_lw)+
  then have h: "core_held l'" using demo_net_ok(2) [of 0] l(4) by (simp add: core_mutex_def demo_net_lw)
  let ?s = "(demo_net 0)\<lparr>lw := l'\<rparr>"
  let ?u = "\<lparr>unlock_gaps = window id, after_unlock = \<lambda>s. s, fetch_gaps = [window id], before_relock = \<lambda>s. s, lock_gaps = [window id]\<rparr>"
  have z: "sys_timeouts_sleeptime ?s \<noteq> 0" by (simp add: sys_timeouts_sleeptime_def demo_net_lw SYS_TIMEOUTS_SLEEPTIME_INFINITE_def)
  have "\<exists>s'. tcpip_thread_round (demo_fns ERR_OK) [?u] ?s = Some s'"
    using tcpip_thread_serves_first [of ?s _ 100 "[]" 600 5 ETHERNET_INPUT ?u "window id" "[]" "window id" "[]" "demo_fns ERR_OK" "[]"] l(2,3) h z
    by (auto simp: others_id demo_fns_def)
  then show ?thesis using l(2,3) by (metis (no_types, lifting) tstack.select_convs(1) tstack.surjective tstack.update_convs(1))
qed

theorem refused_packet_freed_witness:
  "\<exists>s'. tcpip_thread_handle_msg (demo_fns ERR_VAL) 100 (demo_tstack\<lparr>lw := demo_pkt\<lparr>msgs := (msgs demo_pkt)(100 := TCPIP_MSG_INPKT 600 5 ETHERNET_INPUT)\<rparr>\<rparr>) = Some s' \<and>
     buf_mem 1000 (lw s') (demo_pools(MEMP_PBUF_POOL := [44000, 600, 40000, 42000], MEMP_TCPIP_MSG_INPKT := [100])) {}"
proof -
  let ?s = "demo_tstack\<lparr>lw := demo_pkt\<lparr>msgs := (msgs demo_pkt)(100 := TCPIP_MSG_INPKT 600 5 ETHERNET_INPUT)\<rparr>\<rparr>"
  have c: "pchain (pbufs (lw ?s)) 600 [600, 44000]" using demo_pkt_packet(1) by (simp add: packet_def)
  have b: "buf_mem 1000 (lw ?s) demo_pools {}" "\<forall>q \<in> set [600, 44000]. pbuf_owned (lw ?s) demo_pools {} q \<and> pbuf_ref (pbufs (lw ?s) q) = 1"
    using demo_pkt_mem demo_pkt_fields(1,2) by (simp_all add: buf_mem_def pbuf_owned_def)
  have "input_call (demo_fns ERR_VAL) ETHERNET_INPUT 600 5 ?s = (ERR_VAL, ?s)" by (simp add: demo_fns_def)
  from refused_packet_freed [OF _ this _ b(1) c _ b(2), of 100] have "\<exists>s'. tcpip_thread_handle_msg (demo_fns ERR_VAL) 100 ?s = Some s' \<and> lmem (lw s') = lmem (lw ?s) \<and>
    buf_mem 1000 (lw s') ((back_to (pbufs (lw ?s)) [600, 44000] demo_pools)(MEMP_TCPIP_MSG_INPKT := 100 # demo_pools MEMP_TCPIP_MSG_INPKT)) (heap_left (pbufs (lw ?s)) [600, 44000] {})"
    by (simp add: demo_pools_def)
  moreover have "(back_to (pbufs (lw ?s)) [600, 44000] demo_pools)(MEMP_TCPIP_MSG_INPKT := 100 # demo_pools MEMP_TCPIP_MSG_INPKT) =
    demo_pools(MEMP_PBUF_POOL := [44000, 600, 40000, 42000], MEMP_TCPIP_MSG_INPKT := [100])" by (simp add: demo_pkt_fields demo_pools_def)
  ultimately show ?thesis by (auto simp: heap_left_def)
qed

theorem tcpip_api_call_locked_witness:
  "\<exists>s3. tcpip_api_call [window id] (window id) (\<lambda>s. (ERR_VAL, s)) (demo_net 1) = Some (ERR_VAL, s3) \<and> core_free (lw s3)"
  using tcpip_api_call_locked [OF demo_net_ok(1) demo_net_ok(2) [of 1], of "\<lambda>s. (ERR_VAL, s)" "window id" "[]" "window id"] by auto

end
