(* ===== verification/LwipDef.thy ===== *)
theory LwipDef
  imports LwipBase
begin

unbundle bit_operations_syntax

text \<open>
  The helper functions of \<open>def.c\<close> on strings and numbers. A C string is the list of its characters without the
  terminating zero; the end of the list is that zero.
\<close>

subsection \<open>Characters\<close>

definition code :: "char \<Rightarrow> nat" where "code c = of_char c"

definition lwip_in_range :: "char \<Rightarrow> char \<Rightarrow> char \<Rightarrow> bool" where
  "lwip_in_range c lo up \<longleftrightarrow> code lo \<le> code c \<and> code c \<le> code up"

definition lwip_isdigit :: "char \<Rightarrow> bool" where "lwip_isdigit c = lwip_in_range c (CHR ''0'') (CHR ''9'')"
definition lwip_islower :: "char \<Rightarrow> bool" where "lwip_islower c = lwip_in_range c (CHR ''a'') (CHR ''z'')"
definition lwip_isxdigit :: "char \<Rightarrow> bool" where
  "lwip_isxdigit c \<longleftrightarrow> lwip_isdigit c \<or> lwip_in_range c (CHR ''a'') (CHR ''f'') \<or> lwip_in_range c (CHR ''A'') (CHR ''F'')"
definition lwip_isspace :: "char \<Rightarrow> bool" where "lwip_isspace c \<longleftrightarrow> code c \<in> {0x20, 0x0c, 0x0a, 0x0d, 0x09, 0x0b}"

definition digit :: "nat \<Rightarrow> char" where "digit n = char_of (48 + n)"

lemma code_digit: "n < 10 \<Longrightarrow> code (digit n) = 48 + n"
  by (simp add: code_def digit_def)

lemma code_lits [simp]: "code (CHR ''0'') = 48" "code (CHR ''9'') = 57" "code (CHR ''a'') = 97" "code (CHR ''z'') = 122" "code (CHR ''f'') = 102"
  "code (CHR ''A'') = 65" "code (CHR ''F'') = 70" "code (CHR ''.'') = 46" "code (CHR ''x'') = 120" "code (CHR ''X'') = 88"
  by (simp_all add: code_def)

lemma code_inject: "code c = code d \<longleftrightarrow> c = d"
  unfolding code_def by simp

lemma isdigit_iff: "lwip_isdigit c \<longleftrightarrow> 48 \<le> code c \<and> code c \<le> 57"
  by (simp add: lwip_isdigit_def lwip_in_range_def)

lemma isdigit_digit: "n < 10 \<Longrightarrow> lwip_isdigit (digit n)"
  by (simp add: isdigit_iff code_digit)

subsection \<open>Byte order\<close>

definition lwip_htonl :: "u32 \<Rightarrow> u32" where
  "lwip_htonl x = push_bit 24 (x AND 0xff) OR push_bit 8 (x AND 0xff00) OR drop_bit 8 (x AND 0xff0000) OR drop_bit 24 (x AND 0xff000000)"

lemma bit_htonl: "bit (lwip_htonl x) i \<longleftrightarrow> i < 32 \<and> bit x (24 - 8 * (i div 8) + i mod 8)"
proof (cases "i < 32")
  case True
  have m: "(0xff :: u32) = mask 8" "(0xff00 :: u32) = push_bit 8 (mask 8)" "(0xff0000 :: u32) = push_bit 16 (mask 8)" "(0xff000000 :: u32) = push_bit 24 (mask 8)"
    by (simp_all add: mask_eq_exp_minus_1 push_bit_eq_mult)
  obtain k r where i: "i = 8 * k + r" "r < 8" "k = i div 8" "r = i mod 8" by simp
  then consider "k = 0" | "k = 1" | "k = 2" | "k = 3" using True by linarith
  moreover have "i div 8 = k" "i mod 8 = r" using i by simp_all
  ultimately show ?thesis using i(1,2) by cases (simp_all add: lwip_htonl_def m bit_simps)
qed (simp add: lwip_htonl_def bit_simps)

lemma htonl_htonl [simp]: "lwip_htonl (lwip_htonl x) = x"
proof (rule bit_word_eqI)
  fix i assume "i < LENGTH(32)"
  then have i: "i < 32" by simp
  let ?j = "24 - 8 * (i div 8) + i mod 8"
  have d: "i div 8 < 4" using i by auto
  have q: "?j = (3 - i div 8) * 8 + i mod 8" using d by (auto simp: diff_mult_distrib)
  have "?j div 8 = 3 - i div 8" "?j mod 8 = i mod 8" "?j < 32" unfolding q using d by auto
  moreover have "24 - 8 * (3 - i div 8) + i mod 8 = i" using d by (auto simp: diff_mult_distrib2)
  ultimately show "bit (lwip_htonl (lwip_htonl x)) i \<longleftrightarrow> bit x i" using i by (simp add: bit_htonl)
qed

subsection \<open>Comparing and searching\<close>

text \<open>The lower-case form of a letter, as the code finds it by setting a bit.\<close>

definition or_0x20 :: "nat \<Rightarrow> nat" where "or_0x20 c = unat ((of_nat c :: u8) OR 0x20)"

text \<open>Whether the two characters count as different; \<open>0\<close> stands for the end of a string.\<close>

definition differ :: "nat \<Rightarrow> nat \<Rightarrow> bool" where
  "differ c1 c2 \<longleftrightarrow> c1 \<noteq> c2 \<and>
     (let c1_upc = or_0x20 c1; c2_upc = or_0x20 c2
      in if 97 \<le> c1_upc \<and> c1_upc \<le> 122 then c1_upc \<noteq> c2_upc else True)"

definition at :: "string \<Rightarrow> nat" where "at s = (case s of [] \<Rightarrow> 0 | c # _ \<Rightarrow> code c)"

text \<open>The result is 0 for equal strings and 1 otherwise. The strings hold no zero, so both end together when their characters agree.\<close>

fun lwip_stricmp :: "string \<Rightarrow> string \<Rightarrow> nat" where
  "lwip_stricmp str1 str2 =
     (if differ (at str1) (at str2) then 1
      else case str1 of [] \<Rightarrow> 0 | c1 # cs \<Rightarrow> lwip_stricmp cs (tl str2))"

declare lwip_stricmp.simps [simp del]

text \<open>The length is unsigned: with 0 it wraps and only the end of a string stops the loop.\<close>

fun strnicmp_loop :: "nat option \<Rightarrow> string \<Rightarrow> string \<Rightarrow> nat" where
  "strnicmp_loop len str1 str2 =
     (if differ (at str1) (at str2) then 1
      else let len = map_option (\<lambda>n. n - 1) len
           in if len = Some 0 then 0 else case str1 of [] \<Rightarrow> 0 | c1 # cs \<Rightarrow> strnicmp_loop len cs (tl str2))"

definition lwip_strnicmp :: "string \<Rightarrow> string \<Rightarrow> nat \<Rightarrow> nat" where
  "lwip_strnicmp str1 str2 len = strnicmp_loop (if len = 0 then None else Some len) str1 str2"

text \<open>The place of the first occurrence that ends within the first \<open>n\<close> characters.\<close>

fun strnstr_loop :: "string \<Rightarrow> nat \<Rightarrow> nat \<Rightarrow> string \<Rightarrow> nat option" where
  "strnstr_loop token n p [] = None"
| "strnstr_loop token n p (c # cs) =
     (if p + length token \<le> n
      then if c = hd token \<and> take (length token) (c # cs) = token then Some p else strnstr_loop token n (Suc p) cs
      else None)"

definition lwip_strnstr :: "string \<Rightarrow> string \<Rightarrow> nat \<Rightarrow> nat option" where
  "lwip_strnstr buffer token n = (if token = [] then Some 0 else strnstr_loop token n 0 buffer)"

subsection \<open>Printing a number\<close>

text \<open>The digits are written from the end of the buffer; \<open>room\<close> is the space between \<open>res\<close> and \<open>tmp\<close>.\<close>

fun itoa_loop :: "nat \<Rightarrow> nat \<Rightarrow> string \<Rightarrow> nat \<times> string" where
  "itoa_loop 0 n acc = (n, acc)"
| "itoa_loop (Suc room) n acc = (if n \<noteq> 0 then itoa_loop room (n div 10) (digit (n mod 10) # acc) else (n, acc))"

text \<open>The string left in the buffer, \<open>None\<close> when there is no buffer; the numbers are those whose negation is an \<open>int\<close> too.\<close>

definition lwip_itoa :: "nat \<Rightarrow> int \<Rightarrow> string option" where
  "lwip_itoa bufsize number =
     (if bufsize = 0 then None
      else if bufsize = 1 then Some []
      else let sign = (if number < 0 then ''-'' else []);
               (n, acc) = itoa_loop (bufsize - 1 - length sign) (nat \<bar>number\<bar>) []
           in if n \<noteq> 0 then Some []
              else if acc = [] then Some (sign @ ''0'')
              else Some (sign @ acc))"

text \<open>The decimal digits of a number.\<close>

fun dec :: "nat \<Rightarrow> string" where
  "dec n = (if n < 10 then [digit n] else dec (n div 10) @ [digit (n mod 10)])"

declare dec.simps [simp del]

lemma dec_small: "n < 10 \<Longrightarrow> dec n = [digit n]"
  by (simp add: dec.simps)

lemma dec_nonempty [simp]: "dec n \<noteq> []"
  by (simp add: dec.simps [of n])

lemma dec_digits: "c \<in> set (dec n) \<Longrightarrow> lwip_isdigit c"
proof (induction n rule: dec.induct)
  case (1 n)
  then show ?case by (cases "n < 10") (auto simp: dec.simps [of n] isdigit_digit)
qed

lemma dec_hd: "0 < n \<Longrightarrow> hd (dec n) \<noteq> CHR ''0''"
proof (induction n rule: dec.induct)
  case (1 n)
  show ?case
  proof (cases "n < 10")
    case True
    then have "code (digit n) \<noteq> code (CHR ''0'')" using 1 by (simp add: code_digit)
    then show ?thesis using True by (auto simp: dec_small)
  next
    case False
    then show ?thesis using 1 by (subst dec.simps) simp
  qed
qed

text \<open>The loop writes the digits from the right until the number or the room is used up.\<close>

lemma itoa_loop_spec:
  "0 < n \<Longrightarrow> itoa_loop room n acc = (if length (dec n) \<le> room then (0, dec n @ acc) else (fst (itoa_loop room n acc), snd (itoa_loop room n acc))) \<and>
    (length (dec n) > room \<longrightarrow> fst (itoa_loop room n acc) \<noteq> 0)"
proof (induction room arbitrary: n acc)
  case 0
  then show ?case by (simp add: less_eq_Suc_le)
next
  case (Suc room)
  show ?case
  proof (cases "n < 10")
    case True
    then show ?thesis using Suc.prems by (cases room) (simp_all add: dec_small)
  next
    case False
    then have "dec n = dec (n div 10) @ [digit (n mod 10)]" "0 < n div 10" by (simp_all add: dec.simps [of n] div_greater_zero_iff)
    then show ?thesis using Suc.IH [of "n div 10" "digit (n mod 10) # acc"] Suc.prems by auto
  qed
qed

lemma itoa_spec:
  assumes "0 < bufsize"
  shows "lwip_itoa bufsize number = Some (let s = (if number < 0 then ''-'' else []) @ dec (nat \<bar>number\<bar>) in if length s < bufsize then s else [])"
proof (cases "number = 0")
  case True
  have "code (digit 0) = code (CHR ''0'')" by (simp add: code_digit)
  then have z: "digit 0 = CHR ''0''" by (simp only: code_inject)
  have "itoa_loop r 0 [] = (0, [])" for r by (cases r) simp_all
  then show ?thesis using assms True by (auto simp: lwip_itoa_def dec_small z Let_def)
next
  case False
  then have n: "0 < nat \<bar>number\<bar>" by simp
  let ?sg = "if number < 0 then ''-'' else []" and ?d = "dec (nat \<bar>number\<bar>)"
  obtain m acc where r: "itoa_loop (bufsize - 1 - length ?sg) (nat \<bar>number\<bar>) [] = (m, acc)" by fastforce
  have l: "if length ?d \<le> bufsize - 1 - length ?sg then m = 0 \<and> acc = ?d else m \<noteq> 0"
    using itoa_loop_spec [OF n, of "bufsize - 1 - length ?sg" "[]"] unfolding r by (cases "length ?d \<le> bufsize - 1 - length ?sg") simp_all
  have fit: "0 < b \<Longrightarrow> b \<le> n - 1 - a \<longleftrightarrow> a + b < n" for a b n :: nat by linarith
  have "0 < length ?d" by simp
  from fit [OF this, of bufsize "length ?sg"] have f: "length ?d \<le> bufsize - 1 - length ?sg \<longleftrightarrow> length (?sg @ ?d) < bufsize" unfolding length_append .
  show ?thesis
  proof (cases "bufsize = 1")
    case True
    have "\<not> length (?sg @ ?d) < bufsize" unfolding True by simp
    then show ?thesis using True by (simp add: lwip_itoa_def)
  next
    case False
    then have e: "lwip_itoa bufsize number = (if m \<noteq> 0 then Some [] else if acc = [] then Some (?sg @ ''0'') else Some (?sg @ acc))"
      using assms r by (simp add: lwip_itoa_def Let_def)
    show ?thesis using l unfolding e f Let_def by (cases "length (?sg @ ?d) < bufsize") (simp_all only: if_True if_False dec_nonempty simp_thms)
  qed
qed

subsection \<open>Comparing ignores the case of letters\<close>

definition lower :: "nat \<Rightarrow> nat" where
  "lower c = (if 65 \<le> c \<and> c \<le> 90 then c + 32 else c)"

text \<open>Setting the bit turns a letter, and nothing else, into a lower-case letter.\<close>

definition letter :: "nat \<Rightarrow> bool" where "letter u \<longleftrightarrow> 97 \<le> u \<and> u \<le> 122"

lemma or_0x20_bit:
  assumes n: "n < 256" shows "or_0x20 n = (if odd (n div 32) then n else n + 32)"
proof -
  have "or_0x20 n = n OR 32" using n by (simp add: or_0x20_def unsigned_or_eq unsigned_of_nat take_bit_nat_eq_self)
  also have "n OR 32 = set_bit 5 n" by (simp add: set_bit_eq_or)
  also have "\<dots> = (if odd (n div 32) then n else n + 32)" by (simp add: set_bit_eq bit_iff_odd)
  finally show ?thesis .
qed

lemma or_0x20:
  assumes "n < 256"
  shows "letter (or_0x20 n) = letter (lower n)" "letter (lower n) \<Longrightarrow> or_0x20 n = lower n" "\<not> letter (lower n) \<Longrightarrow> lower n = n"
proof -
  define k r where kr: "k = n div 32" "r = n mod 32"
  have n: "n = 32 * k + r" "r < 32" by (simp_all add: kr)
  have o: "or_0x20 n = (if odd k then n else n + 32)" using or_0x20_bit [OF assms] by (simp add: kr)
  consider "k = 0" | "k = 1" | "k = 2" | "k = 3" | "4 \<le> k" by linarith
  then have "letter (or_0x20 n) = letter (lower n) \<and> (letter (lower n) \<longrightarrow> or_0x20 n = lower n)"
    by cases (use o n in \<open>auto simp: letter_def lower_def split: if_splits\<close>)
  then show "letter (or_0x20 n) = letter (lower n)" "letter (lower n) \<Longrightarrow> or_0x20 n = lower n" by blast+
  show "\<not> letter (lower n) \<Longrightarrow> lower n = n" by (auto simp: letter_def lower_def)
qed

lemma differ_iff:
  assumes "a < 256" "b < 256" shows "differ a b \<longleftrightarrow> lower a \<noteq> lower b"
proof -
  have "differ a b \<longleftrightarrow> a \<noteq> b \<and> (letter (or_0x20 a) \<longrightarrow> or_0x20 a \<noteq> or_0x20 b)" by (auto simp: differ_def letter_def Let_def)
  then show ?thesis using or_0x20 [OF assms(1)] or_0x20 [OF assms(2)] by (cases "letter (lower a)"; cases "letter (lower b)") auto
qed

lemma code_less [simp]: "code c < 256"
  unfolding code_def by simp

lemma code_0: "code c = 0 \<longleftrightarrow> c = CHR 0x00"
  using code_inject [of c "CHR 0x00"] by (simp add: code_def)

lemma lower_0: "lower n = 0 \<longleftrightarrow> n = 0"
  by (simp add: lower_def)

lemma stricmp_eq: "lwip_stricmp s t = (if lower (at s) \<noteq> lower (at t) then 1 else case s of [] \<Rightarrow> 0 | c1 # cs \<Rightarrow> lwip_stricmp cs (tl t))"
  by (subst lwip_stricmp.simps) (simp add: differ_iff at_def split: list.split)

lemma lower_end: "CHR 0x00 \<notin> set (c # cs) \<Longrightarrow> lower (code c) \<noteq> lower 0"
proof -
  assume "CHR 0x00 \<notin> set (c # cs)"
  then have "c \<noteq> CHR 0x00" by (metis list.set_intros(1))
  then show ?thesis unfolding code_0 [symmetric] lower_def by simp
qed

lemma stricmp_spec:
  assumes "CHR 0x00 \<notin> set s" "CHR 0x00 \<notin> set t"
  shows "lwip_stricmp s t = (if map (\<lambda>c. lower (code c)) s = map (\<lambda>c. lower (code c)) t then 0 else 1)"
  using assms
proof (induction s arbitrary: t)
  case Nil
  then show ?case
  proof (cases t)
    case (Cons d ds)
    then have "lower (code d) \<noteq> lower 0" using Nil.prems lower_end by blast
    then show ?thesis unfolding Cons stricmp_eq [of "[]"] at_def by simp
  qed (simp add: stricmp_eq [of "[]"] at_def)
next
  case (Cons c cs)
  show ?case
  proof (cases t)
    case Nil
    then have "lower (code c) \<noteq> lower 0" using Cons.prems lower_end by blast
    then show ?thesis unfolding Nil stricmp_eq [of "c # cs"] at_def by simp
  next
    case (Cons d ds)
    then have "lwip_stricmp cs ds = (if map (\<lambda>c. lower (code c)) cs = map (\<lambda>c. lower (code c)) ds then 0 else 1)"
      using Cons.IH [of ds] Cons.prems by (meson list.set_intros(2))
    then show ?thesis unfolding Cons stricmp_eq [of "c # cs"] at_def by simp
  qed
qed

end
