(* ===== verification/Ip4Addr.thy ===== *)
theory Ip4Addr
  imports LwipDef
begin

unbundle bit_operations_syntax

text \<open>
  Addresses of version 4 (\<open>ip4_addr.c\<close>): parsing and printing, and the tests on masks and broadcast addresses. An address is
  the 32-bit number whose bytes in memory are in network order.
\<close>

subsection \<open>Printing\<close>

text \<open>The digits of one byte as the loop stores them, the lowest first.\<close>

fun inv_digits :: "nat \<Rightarrow> string" where
  "inv_digits ap = (let rem = ap mod 10; ap = ap div 10 in digit rem # (if ap \<noteq> 0 then inv_digits ap else []))"

declare inv_digits.simps [simp del]

text \<open>Characters are appended as long as the length is below the size of the buffer.\<close>

fun put_chars :: "nat \<Rightarrow> string \<Rightarrow> string \<Rightarrow> string option" where
  "put_chars buflen [] out = Some out"
| "put_chars buflen (c # cs) out = (if length out \<ge> buflen then None else put_chars buflen cs (out @ [c]))"

fun ntoa_loop :: "nat \<Rightarrow> nat list \<Rightarrow> string \<Rightarrow> string option" where
  "ntoa_loop buflen [] out = Some out"
| "ntoa_loop buflen (ap # aps) out =
     (case put_chars buflen (rev (inv_digits ap)) out of
        None \<Rightarrow> None
      | Some out \<Rightarrow> if length out \<ge> buflen then None else ntoa_loop buflen aps (out @ ''.''))"

definition octets :: "u32 \<Rightarrow> nat list" where
  "octets a = [unat (a AND 0xff), unat (drop_bit 8 a AND 0xff), unat (drop_bit 16 a AND 0xff), unat (drop_bit 24 a AND 0xff)]"

text \<open>The last full stop is overwritten by the terminating zero.\<close>

definition ip4addr_ntoa_r :: "u32 \<Rightarrow> nat \<Rightarrow> string option" where
  "ip4addr_ntoa_r addr buflen = map_option butlast (ntoa_loop buflen (octets addr) [])"

definition IP4ADDR_STRLEN_MAX :: nat where "IP4ADDR_STRLEN_MAX = 16"

definition ip4addr_ntoa :: "u32 \<Rightarrow> string option" where
  "ip4addr_ntoa addr = ip4addr_ntoa_r addr IP4ADDR_STRLEN_MAX"

subsection \<open>Parsing\<close>

fun aton_digits :: "u32 \<Rightarrow> u32 \<Rightarrow> string \<Rightarrow> u32 \<times> string" where
  "aton_digits base val [] = (val, [])"
| "aton_digits base val (c # cs) =
     (if lwip_isdigit c then aton_digits base (val * base + of_nat (code c - code (CHR ''0''))) cs
      else if base = 16 \<and> lwip_isxdigit c
      then aton_digits base (push_bit 4 val OR of_nat (code c + 10 - (if lwip_islower c then code (CHR ''a'') else code (CHR ''A'')))) cs
      else (val, c # cs))"

lemma aton_digits_length: "aton_digits base val cs = (v, ds) \<Longrightarrow> length ds \<le> length cs"
  by (induction base val cs rule: aton_digits.induct) (fastforce split: if_splits)+

definition aton_base :: "string \<Rightarrow> u32 \<times> string" where
  "aton_base cs =
     (case cs of
        c # ds \<Rightarrow> if c = CHR ''0'' then (case ds of e # es \<Rightarrow> if e = CHR ''x'' \<or> e = CHR ''X'' then (16, es) else (8, ds) | [] \<Rightarrow> (8, []))
                  else (10, cs)
      | [] \<Rightarrow> (10, []))"

lemma aton_base_length: "aton_base cs = (b, ds) \<Longrightarrow> length ds \<le> length cs"
  by (auto simp: aton_base_def split: list.splits if_splits)

text \<open>The parts in front of the last, the last value and the rest of the string; \<open>None\<close> when the loop returns 0.\<close>

function aton_loop :: "u32 list \<Rightarrow> string \<Rightarrow> (u32 list \<times> u32 \<times> string) option" where
  "aton_loop parts cs =
     (if cs = [] \<or> \<not> lwip_isdigit (hd cs) then None
      else let (base, ds) = aton_base cs; (val, es) = aton_digits base 0 ds
           in case es of
                e # fs \<Rightarrow> if e = CHR ''.'' then if length parts \<ge> 3 then None else aton_loop (parts @ [val]) fs
                          else Some (parts, val, es)
              | [] \<Rightarrow> Some (parts, val, es))"
  by pat_completeness auto
termination
proof (relation "measure (\<lambda>(parts, cs). length cs)")
  fix parts cs and x y ds z va es e fs
  assume "x = aton_base cs" "(y, ds) = x" "z = aton_digits y 0 ds" "(va, es) = z" "es = e # fs"
  then have "length es \<le> length ds" "length ds \<le> length cs" using aton_digits_length aton_base_length by (metis, metis)
  then show "((parts @ [va], fs), (parts, cs)) \<in> measure (\<lambda>(parts, cs). length cs)" using \<open>es = e # fs\<close> by simp
qed simp

declare aton_loop.simps [simp del]

definition ip4addr_aton :: "string \<Rightarrow> u32 option" where
  "ip4addr_aton cp =
     (case aton_loop [] cp of
        None \<Rightarrow> None
      | Some (parts, val, rest) \<Rightarrow>
          if rest \<noteq> [] \<and> \<not> lwip_isspace (hd rest) then None
          else map_option lwip_htonl
            (case parts of
               [] \<Rightarrow> Some val
             | [p0] \<Rightarrow> if val > 0xffffff \<or> p0 > 0xff then None else Some (val OR push_bit 24 p0)
             | [p0, p1] \<Rightarrow> if val > 0xffff \<or> p0 > 0xff \<or> p1 > 0xff then None else Some (val OR (push_bit 24 p0 OR push_bit 16 p1))
             | [p0, p1, p2] \<Rightarrow> if val > 0xff \<or> p0 > 0xff \<or> p1 > 0xff \<or> p2 > 0xff then None
                 else Some (val OR (push_bit 24 p0 OR push_bit 16 p1 OR push_bit 8 p2))
             | _ \<Rightarrow> Some val))"

definition IPADDR_NONE :: u32 where "IPADDR_NONE = 0xffffffff"

definition ipaddr_addr :: "string \<Rightarrow> u32" where
  "ipaddr_addr cp = (case ip4addr_aton cp of Some val \<Rightarrow> val | None \<Rightarrow> IPADDR_NONE)"

subsection \<open>Masks and broadcast addresses\<close>

text \<open>Both loops move one bit down the number; the first stops at the first zero, the second looks for a one below it.\<close>

function skip_ones :: "u32 \<Rightarrow> u32 \<Rightarrow> u32" where
  "skip_ones nm msk = (if msk \<noteq> 0 then if nm AND msk = 0 then msk else skip_ones nm (drop_bit 1 msk) else msk)"
  by pat_completeness auto
termination by (relation "measure (\<lambda>(nm, msk). unat msk)") (auto simp: drop_bit_eq_div unat_div_distrib unat_gt_0)

function all_zeros :: "u32 \<Rightarrow> u32 \<Rightarrow> bool" where
  "all_zeros nm msk = (if msk \<noteq> 0 then if nm AND msk \<noteq> 0 then False else all_zeros nm (drop_bit 1 msk) else True)"
  by pat_completeness auto
termination by (relation "measure (\<lambda>(nm, msk). unat msk)") (auto simp: drop_bit_eq_div unat_div_distrib unat_gt_0)

declare skip_ones.simps [simp del] all_zeros.simps [simp del]

definition ip4_addr_netmask_valid :: "u32 \<Rightarrow> bool" where
  "ip4_addr_netmask_valid netmask =
     (let nm_hostorder = lwip_htonl netmask in all_zeros nm_hostorder (skip_ones nm_hostorder (push_bit 31 1)))"

definition IPADDR_ANY :: u32 where "IPADDR_ANY = 0"
definition IPADDR_BROADCAST :: u32 where "IPADDR_BROADCAST = 0xffffffff"

definition ip4_addr_netcmp :: "u32 \<Rightarrow> u32 \<Rightarrow> u32 \<Rightarrow> bool" where
  "ip4_addr_netcmp addr1 addr2 msk \<longleftrightarrow> addr1 AND msk = addr2 AND msk"

text \<open>Of the interface the test needs whether it broadcasts, its address and its mask.\<close>

definition ip4_addr_isbroadcast_u32 :: "u32 \<Rightarrow> bool \<Rightarrow> u32 \<Rightarrow> u32 \<Rightarrow> bool" where
  "ip4_addr_isbroadcast_u32 addr can_broadcast ip_addr netmask =
     (if NOT addr = IPADDR_ANY \<or> addr = IPADDR_ANY then True
      else if \<not> can_broadcast then False
      else if addr = ip_addr then False
      else ip4_addr_netcmp addr ip_addr netmask \<and> addr AND NOT netmask = IPADDR_BROADCAST AND NOT netmask)"

subsection \<open>Printing and parsing are inverse\<close>

lemma rev_inv_digits: "rev (inv_digits n) = dec n"
proof (induction n rule: inv_digits.induct)
  case (1 n)
  then show ?case by (subst inv_digits.simps, subst dec.simps) (auto simp: Let_def div_eq_0_iff)
qed

lemma put_chars_spec: "put_chars buflen cs out = (if cs = [] \<or> length out + length cs \<le> buflen then Some (out @ cs) else None)"
  by (induction cs arbitrary: out) auto

definition dotted :: "nat list \<Rightarrow> string" where
  "dotted bs = concat (map (\<lambda>b. dec b @ ''.'') bs)"

lemma ntoa_loop_spec: "ntoa_loop buflen bs out = (if bs = [] \<or> length out + length (dotted bs) \<le> buflen then Some (out @ dotted bs) else None)"
proof (induction bs arbitrary: out)
  case (Cons b bs)
  have z: "0 < length (dotted bs)" if "bs \<noteq> []" using that by (cases bs) (simp_all add: dotted_def)
  show ?case by (cases "bs = []") (auto simp: Cons.IH rev_inv_digits put_chars_spec dotted_def)
qed (simp add: dotted_def)

lemma length_dec: "n < 256 \<Longrightarrow> length (dec n) \<le> 3"
proof -
  assume n: "n < 256"
  have "length (dec (n div 10)) \<le> 2"
  proof (cases "n div 10 < 10")
    case False
    then have "n div 10 div 10 < 10" using n by linarith
    then show ?thesis using False by (simp add: dec.simps [of "n div 10"] dec_small)
  qed (simp add: dec_small)
  then show ?thesis by (cases "n < 10") (simp_all add: dec_small dec.simps [of n])
qed

lemma octets_less: "b \<in> set (octets a) \<Longrightarrow> b < 256"
proof -
  have e: "x AND 0xff = take_bit 8 x" for x :: u32 by (simp add: take_bit_eq_mask mask_eq_exp_minus_1)
  have "unat (x AND 0xff) < 256" for x :: u32 unfolding e using take_bit_nat_less_exp [of 8 "unat x"] by (simp add: unsigned_take_bit_eq)
  then show "b \<in> set (octets a) \<Longrightarrow> b < 256" by (auto simp: octets_def)
qed

lemma length_dotted: "(\<And>b. b \<in> set bs \<Longrightarrow> length (dec b) \<le> 3) \<Longrightarrow> length (dotted bs) \<le> 4 * length bs"
proof (induction bs)
  case (Cons b bs)
  from Cons.prems [of b] Cons.IH [OF Cons.prems] show ?case by (simp add: dotted_def)
qed (simp add: dotted_def)

lemma ntoa_spec:
  "ip4addr_ntoa a = Some (butlast (dotted (octets a)))" "length (butlast (dotted (octets a))) < IP4ADDR_STRLEN_MAX"
proof -
  have "length (dec b) \<le> 3" if "b \<in> set (octets a)" for b using length_dec [OF octets_less [OF that]] .
  then have "length (dotted (octets a)) \<le> 4 * length (octets a)" by (rule length_dotted)
  then have "length (dotted (octets a)) \<le> 16" by (simp add: octets_def)
  then show "ip4addr_ntoa a = Some (butlast (dotted (octets a)))" "length (butlast (dotted (octets a))) < IP4ADDR_STRLEN_MAX"
    by (simp_all add: ip4addr_ntoa_def ip4addr_ntoa_r_def ntoa_loop_spec IP4ADDR_STRLEN_MAX_def)
qed


lemma aton_digits_run:
  assumes "\<forall>c \<in> set ds. lwip_isdigit c"
  shows "aton_digits b v (ds @ rest) = aton_digits b (foldl (\<lambda>v c. v * b + of_nat (code c - 48)) v ds) rest"
  using assms by (induction ds arbitrary: v) simp_all

lemma foldl_dec: "foldl (\<lambda>v c. v * 10 + of_nat (code c - 48)) (0 :: u32) (dec n) = of_nat n"
proof (induction n rule: dec.induct)
  case (1 n)
  show ?case
  proof (cases "n < 10")
    case False
    have "n = n div 10 * 10 + n mod 10" by simp
    then have "(of_nat n :: u32) = of_nat (n div 10) * 10 + of_nat (n mod 10)" by (metis of_nat_add of_nat_mult of_nat_numeral)
    then show ?thesis using 1 [OF False] False by (simp add: dec.simps [of n] code_digit)
  qed (simp add: dec_small code_digit)
qed

definition ends_number :: "string \<Rightarrow> bool" where
  "ends_number rest \<longleftrightarrow> rest = [] \<or> hd rest = CHR ''.''"

lemma aton_number:
  assumes "ends_number rest"
  shows "(case aton_base (dec n @ rest) of (b, ds) \<Rightarrow> aton_digits b 0 ds) = (of_nat n, rest)"
proof -
  have stop: "aton_digits b v rest = (v, rest)" for b v
    using assms by (cases rest) (auto simp: ends_number_def isdigit_iff lwip_isxdigit_def lwip_in_range_def)
  show ?thesis
  proof (cases "n = 0")
    case True
    have z: "digit 0 = CHR ''0''" using code_digit [of 0] by (simp add: code_inject flip: code_lits(1))
    show ?thesis using assms stop by (cases rest) (auto simp: True dec_small z aton_base_def ends_number_def)
  next
    case False
    then have "aton_base (dec n @ rest) = (10, dec n @ rest)" using dec_hd [of n] by (cases "dec n") (auto simp: aton_base_def)
    then show ?thesis using aton_digits_run [of "dec n" 10 0 rest] dec_digits foldl_dec [of n] stop by simp
  qed
qed

lemma aton_loop_number:
  assumes "ends_number rest"
  shows "aton_loop parts (dec n @ rest) =
    (if rest = [] then Some (parts, of_nat n, []) else if length parts \<ge> 3 then None else aton_loop (parts @ [of_nat n]) (tl rest))"
proof -
  have h: "dec n @ rest \<noteq> []" "lwip_isdigit (hd (dec n @ rest))" using dec_digits [of "hd (dec n)" n] by simp_all
  obtain b ds where b: "aton_base (dec n @ rest) = (b, ds)" by fastforce
  then have d: "aton_digits b 0 ds = (of_nat n, rest)" using aton_number [OF assms, of n] by simp
  show ?thesis using assms h b d by (subst aton_loop.simps) (cases rest, auto simp: ends_number_def)
qed

lemma htonl_bytes:
  "(drop_bit 24 a AND 0xff) OR (push_bit 24 (a AND 0xff) OR push_bit 16 (drop_bit 8 a AND 0xff) OR push_bit 8 (drop_bit 16 a AND 0xff)) = lwip_htonl (a :: u32)"
proof (rule bit_word_eqI)
  have m: "(0xff :: u32) = mask 8" by (simp add: mask_eq_exp_minus_1)
  fix i assume "i < LENGTH(32)"
  then have i: "i < 32" by simp
  obtain k r where kr: "i = 8 * k + r" "r < 8" "k = i div 8" "r = i mod 8" by simp
  then consider "k = 0" | "k = 1" | "k = 2" | "k = 3" using i by linarith
  moreover have "i div 8 = k" "i mod 8 = r" using kr by simp_all
  ultimately show "bit ((drop_bit 24 a AND 0xff) OR (push_bit 24 (a AND 0xff) OR push_bit 16 (drop_bit 8 a AND 0xff) OR push_bit 8 (drop_bit 16 a AND 0xff))) i = bit (lwip_htonl a) i"
    using kr(1,2) by cases (simp_all add: bit_htonl m bit_simps)
qed

lemma aton_ntoa: "ip4addr_aton (butlast (dotted (octets a))) = Some a"
proof -
  let ?b = "\<lambda>n. unat (drop_bit n a AND 0xff)"
  have e: "butlast (dotted (octets a)) = dec (?b 0) @ ''.'' @ dec (?b 8) @ ''.'' @ dec (?b 16) @ ''.'' @ dec (?b 24)"
    by (simp add: dotted_def octets_def butlast_append)
  have "aton_loop [] (dec (?b 0) @ ''.'' @ dec (?b 8) @ ''.'' @ dec (?b 16) @ ''.'' @ dec (?b 24)) =
    Some ([a AND 0xff, drop_bit 8 a AND 0xff, drop_bit 16 a AND 0xff], drop_bit 24 a AND 0xff, [])"
    using aton_loop_number [of "[]"] by (simp add: aton_loop_number ends_number_def)
  moreover have "x AND 0xff \<le> 0xff" for x :: u32 by (rule word_and_le1)
  then have "\<not> 0xff < x AND 0xff" for x :: u32 by (simp add: not_less)
  ultimately have "ip4addr_aton (butlast (dotted (octets a))) = Some (lwip_htonl ((drop_bit 24 a AND 0xff) OR (push_bit 24 (a AND 0xff) OR
    push_bit 16 (drop_bit 8 a AND 0xff) OR push_bit 8 (drop_bit 16 a AND 0xff))))" unfolding e ip4addr_aton_def by (simp del: push_bit_and)
  then show ?thesis unfolding htonl_bytes by simp
qed


subsection \<open>Masks\<close>

lemma drop_bit_exp: "drop_bit 1 (2 ^ n :: u32) = (if n = 0 then 0 else 2 ^ (n - 1))" if "n < 32"
proof (cases n)
  case (Suc m)
  then have "possible_bit TYPE(u32) n" using that by (simp add: possible_bit_def)
  then show ?thesis using Suc drop_bit_exp_eq [of 1 n, where ?'a = u32] by (simp del: power_Suc)
qed simp

lemma and_low_mask: "n < 32 \<Longrightarrow> nm AND (2 ^ n :: u32) = 0 \<longleftrightarrow> \<not> bit nm n"
  by (simp add: and_exp_eq_0_iff_not_bit)

lemma all_zeros_spec: "n < 32 \<Longrightarrow> all_zeros nm (2 ^ n) \<longleftrightarrow> (\<forall>i \<le> n. \<not> bit nm i)"
proof (induction n)
  case 0
  have "(1 :: u32) = 2 ^ 0" by simp
  then show ?case using and_low_mask [of 0 nm] drop_bit_exp [of 0] all_zeros.simps [of nm 1] all_zeros.simps [of nm 0] by auto
next
  case (Suc n)
  have "(2 ^ Suc n :: u32) \<noteq> 0" using Suc.prems by (simp add: exp_eq_zero_iff del: power_Suc)
  then show ?case using Suc and_low_mask [of "Suc n" nm] drop_bit_exp [of "Suc n"] all_zeros.simps [of nm "2 ^ Suc n"]
    by (auto simp: le_Suc_eq simp del: power_Suc)
qed

lemma netmask_loops: "n < 32 \<Longrightarrow> all_zeros nm (skip_ones nm (2 ^ n)) \<longleftrightarrow> (\<exists>k \<le> Suc n. \<forall>i \<le> n. bit nm i \<longleftrightarrow> k \<le> i)"
proof (induction n)
  case 0
  have o: "(1 :: u32) = 2 ^ 0" by simp
  show ?case
  proof (cases "bit nm 0")
    case True
    then have "skip_ones nm 1 = 0" using and_low_mask [of 0 nm] drop_bit_exp [of 0] skip_ones.simps [of nm 1] skip_ones.simps [of nm 0] by auto
    then show ?thesis using True by (auto simp: all_zeros.simps [of nm 0] intro: exI [of _ 0])
  next
    case False
    then have "skip_ones nm 1 = 1" using and_low_mask [of 0 nm] skip_ones.simps [of nm 1] by auto
    then show ?thesis using False all_zeros_spec [of 0 nm] by (auto intro: exI [of _ 1])
  qed
next
  case (Suc n)
  have z: "(2 ^ Suc n :: u32) \<noteq> 0" using Suc.prems by (simp add: exp_eq_zero_iff del: power_Suc)
  show ?case
  proof (cases "bit nm (Suc n)")
    case True
    then have "skip_ones nm (2 ^ Suc n) = skip_ones nm (2 ^ n)"
      using z and_low_mask [of "Suc n" nm] drop_bit_exp [of "Suc n"] skip_ones.simps [of nm "2 ^ Suc n"] Suc.prems by (simp del: power_Suc)
    moreover have "(\<exists>k \<le> Suc (Suc n). \<forall>i \<le> Suc n. bit nm i \<longleftrightarrow> k \<le> i) \<longleftrightarrow> (\<exists>k \<le> Suc n. \<forall>i \<le> n. bit nm i \<longleftrightarrow> k \<le> i)"
      using True by (metis le_Suc_eq le_SucI not_less_eq_eq order_refl)
    ultimately show ?thesis using Suc by (simp del: power_Suc)
  next
    case False
    then have "skip_ones nm (2 ^ Suc n) = 2 ^ Suc n" using z and_low_mask [of "Suc n" nm] skip_ones.simps [of nm "2 ^ Suc n"] Suc.prems by (simp del: power_Suc)
    moreover have "(\<exists>k \<le> Suc (Suc n). \<forall>i \<le> Suc n. bit nm i \<longleftrightarrow> k \<le> i) \<longleftrightarrow> (\<forall>i \<le> Suc n. \<not> bit nm i)"
      using False by (metis le_SucE le_Suc_eq not_less_eq_eq order_refl)
    ultimately show ?thesis using all_zeros_spec [OF Suc.prems, of nm] by (simp del: power_Suc)
  qed
qed

subsection \<open>Properties\<close>

text \<open>C30: Every address that is printed is read back: \<open>ip4addr_ntoa\<close> prints every address, its text fits the 16 bytes of the static
  buffer with the terminating zero, and \<open>ip4addr_aton\<close> of the text is the address.\<close>

theorem ip4addr_roundtrip: "\<exists>t. ip4addr_ntoa a = Some t \<and> length t < IP4ADDR_STRLEN_MAX \<and> ip4addr_aton t = Some a"
  using ntoa_spec aton_ntoa by blast

text \<open>A mask is accepted exactly when, in host order, it is a run of ones followed by zeros.\<close>

theorem netmask_valid_iff: "ip4_addr_netmask_valid m \<longleftrightarrow> (\<exists>k \<le> 32. lwip_htonl m = NOT (mask k))"
proof -
  have "ip4_addr_netmask_valid m \<longleftrightarrow> (\<exists>k \<le> 32. \<forall>i \<le> 31. bit (lwip_htonl m) i \<longleftrightarrow> k \<le> i)"
    using netmask_loops [of 31 "lwip_htonl m"] by (simp add: ip4_addr_netmask_valid_def Let_def push_bit_of_1)
  moreover have "(\<forall>i \<le> 31. bit (lwip_htonl m) i \<longleftrightarrow> k \<le> i) \<longleftrightarrow> lwip_htonl m = NOT (mask k)" for k
    by (auto simp: bit_eq_iff bit_simps less_Suc_eq_le [of _ 31, simplified] not_less)
  ultimately show ?thesis by simp
qed


end
