(* ===== verification/Etharp.thy ===== *)
theory Etharp
  imports Tcpip Ip4Addr PbufWrite
begin

unbundle bit_operations_syntax

text \<open>
  Ethernet frames (\<open>ethernet.c\<close>) and address resolution (\<open>etharp.c\<close>): a table of ten entries from addresses to hardware addresses,
  with the packet that waits for an address that is being resolved.
\<close>

subsection \<open>State\<close>

datatype etharp_state = ETHARP_STATE_EMPTY | ETHARP_STATE_PENDING | ETHARP_STATE_STABLE
  | ETHARP_STATE_STABLE_REREQUESTING_1 | ETHARP_STATE_STABLE_REREQUESTING_2

definition stable :: "etharp_state \<Rightarrow> bool" where
  "stable st \<longleftrightarrow> st \<noteq> ETHARP_STATE_EMPTY \<and> st \<noteq> ETHARP_STATE_PENDING"

type_synonym eth_addr = "u8 list"

record etharp_entry =
  arp_q :: nat
  arp_ipaddr :: u32
  arp_netif :: nat
  arp_ethaddr :: eth_addr
  arp_ctime :: u16
  arp_state :: etharp_state

text \<open>An interface, with the names of the functions it is given; of the fields the configuration compiles in all are here.\<close>

datatype netif_output = NETIF_NULL_OUTPUT_IP4 | ETHARP_OUTPUT | OutputFn nat
datatype netif_linkoutput = LOW_LEVEL_OUTPUT | LinkoutputFn nat

record netif_t =
  nif_next :: nat
  nif_ip_addr :: u32
  nif_netmask :: u32
  nif_gw :: u32
  nif_input :: "lwip_fn option"
  nif_output :: netif_output
  nif_linkoutput :: netif_linkoutput
  nif_state :: nat
  nif_client_data :: "nat list"
  nif_hostname :: nat
  nif_mtu :: nat
  nif_hwaddr :: eth_addr
  nif_hwaddr_len :: nat
  nif_flags :: u8
  nif_name :: string
  nif_num :: nat

record net =
  nlw :: lwip
  netifs :: "nat \<Rightarrow> netif_t"
  netif_list :: nat
  netif_default :: nat
  netif_num :: nat
  arp_table :: "etharp_entry list"
  etharp_cached_entry :: nat

text \<open>What is called in other modules: the driver, the modules above, and the free function of custom buffers.\<close>

record net_fns =
  linkoutput_call :: "nat \<Rightarrow> nat \<Rightarrow> net \<Rightarrow> err_t \<times> net"
  ip4_input_call :: "nat \<Rightarrow> nat \<Rightarrow> net \<Rightarrow> net"
  dhcp_arp_reply_call :: "nat \<Rightarrow> u32 \<Rightarrow> net \<Rightarrow> net"
  dhcp_network_changed_call :: "nat \<Rightarrow> net \<Rightarrow> net"
  ip_addr_changed_call :: "u32 \<Rightarrow> u32 option \<Rightarrow> net \<Rightarrow> net"
  net_custom_free :: "nat \<Rightarrow> lwip \<Rightarrow> lwip"
  alloc_gaps :: gaps

definition NETIF_FLAG_UP :: u8 where "NETIF_FLAG_UP = 0x01"
definition NETIF_FLAG_BROADCAST :: u8 where "NETIF_FLAG_BROADCAST = 0x02"
definition NETIF_FLAG_LINK_UP :: u8 where "NETIF_FLAG_LINK_UP = 0x04"
definition NETIF_FLAG_ETHARP :: u8 where "NETIF_FLAG_ETHARP = 0x08"
definition NETIF_FLAG_ETHERNET :: u8 where "NETIF_FLAG_ETHERNET = 0x10"

definition has_flag :: "u8 \<Rightarrow> nat \<Rightarrow> net \<Rightarrow> bool" where
  "has_flag f n s \<longleftrightarrow> nif_flags (netifs s n) AND f \<noteq> 0"

definition netif_get_index :: "netif_t \<Rightarrow> nat" where
  "netif_get_index n = u8_t (nif_num n + 1)"

definition net_free :: "net_fns \<Rightarrow> nat \<Rightarrow> net \<Rightarrow> net option" where
  "net_free F p s = map_option (\<lambda>(n, l). s\<lparr>nlw := l\<rparr>) (pbuf_free (net_custom_free F) p (nlw s))"

definition on_nlw :: "(lwip \<Rightarrow> lwip) \<Rightarrow> net \<Rightarrow> net" where
  "on_nlw f s = s\<lparr>nlw := f (nlw s)\<rparr>"

definition upd_entry :: "nat \<Rightarrow> (etharp_entry \<Rightarrow> etharp_entry) \<Rightarrow> net \<Rightarrow> net" where
  "upd_entry i f s = s\<lparr>arp_table := (arp_table s)[i := f (arp_table s ! i)]\<rparr>"

subsection \<open>Addresses\<close>

definition ip4_addr_isbroadcast :: "u32 \<Rightarrow> nat \<Rightarrow> net \<Rightarrow> bool" where
  "ip4_addr_isbroadcast a n s = ip4_addr_isbroadcast_u32 a (has_flag NETIF_FLAG_BROADCAST n s) (nif_ip_addr (netifs s n)) (nif_netmask (netifs s n))"

definition ip4_addr_ismulticast :: "u32 \<Rightarrow> bool" where
  "ip4_addr_ismulticast a \<longleftrightarrow> a AND lwip_htonl 0xf0000000 = lwip_htonl 0xe0000000"

definition ip4_addr_islinklocal :: "u32 \<Rightarrow> bool" where
  "ip4_addr_islinklocal a \<longleftrightarrow> a AND lwip_htonl 0xffff0000 = lwip_htonl 0xa9fe0000"

subsection \<open>Frames\<close>

definition SIZEOF_ETH_HDR :: nat where "SIZEOF_ETH_HDR = 14"
definition ETHTYPE_IP :: nat where "ETHTYPE_IP = 0x0800"
definition ETHTYPE_ARP :: nat where "ETHTYPE_ARP = 0x0806"
definition ethbroadcast :: eth_addr where "ethbroadcast = [0xff, 0xff, 0xff, 0xff, 0xff, 0xff]"
definition ethzero :: eth_addr where "ethzero = [0, 0, 0, 0, 0, 0]"
definition PBUF_FLAG_LLBCAST :: u8 where "PBUF_FLAG_LLBCAST = 0x08"
definition PBUF_FLAG_LLMCAST :: u8 where "PBUF_FLAG_LLMCAST = 0x10"

text \<open>A 16-bit number as it is sent.\<close>

definition be16 :: "nat \<Rightarrow> u8 list" where
  "be16 n = [of_nat (n div 256), of_nat n]"

definition of_be16 :: "u8 list \<Rightarrow> nat" where
  "of_be16 b = 256 * unat (b ! 0) + unat (b ! 1)"

text \<open>A header that does not fit is an error; otherwise the three fields are written in front of the data.\<close>

definition ethernet_output :: "net_fns \<Rightarrow> nat \<Rightarrow> nat \<Rightarrow> eth_addr \<Rightarrow> eth_addr \<Rightarrow> nat \<Rightarrow> net \<Rightarrow> err_t \<times> net" where
  "ethernet_output F n p src dst eth_type s =
     (let (failed, l) = pbuf_add_header p SIZEOF_ETH_HDR (nlw s); s = s\<lparr>nlw := l\<rparr>
      in if failed then (ERR_BUF, s)
         else let ethhdr = payload (pbufs (nlw s) p);
                  s = on_nlw (mem_write (ethhdr + 12) (be16 eth_type)) s;
                  s = on_nlw (mem_write ethhdr dst) s;
                  s = on_nlw (mem_write (ethhdr + 6) src) s
              in linkoutput_call F n p s)"

subsection \<open>Sending requests\<close>

definition SIZEOF_ETHARP_HDR :: nat where "SIZEOF_ETHARP_HDR = 28"
definition ARP_REQUEST :: nat where "ARP_REQUEST = 1"
definition ARP_REPLY :: nat where "ARP_REPLY = 2"

definition etharp_raw :: "net_fns \<Rightarrow> nat \<Rightarrow> eth_addr \<Rightarrow> eth_addr \<Rightarrow> eth_addr \<Rightarrow> u32 \<Rightarrow> eth_addr \<Rightarrow> u32 \<Rightarrow> nat \<Rightarrow> net \<Rightarrow> (err_t \<times> net) option" where
  "etharp_raw F n ethsrc_addr ethdst_addr hwsrc_addr ipsrc_addr hwdst_addr ipdst_addr opcode s =
     (case pbuf_alloc (net_custom_free F) (alloc_gaps F) PBUF_LINK SIZEOF_ETHARP_HDR PBUF_RAM (nlw s) of
        None \<Rightarrow> None
      | Some (p, l) \<Rightarrow>
          let s = s\<lparr>nlw := l\<rparr>
          in if p = 0 then Some (ERR_MEM, s)
             else let hdr = payload (pbufs (nlw s) p);
                      s = on_nlw (mem_write (hdr + 6) (be16 opcode)) s;
                      s = on_nlw (mem_write (hdr + 8) hwsrc_addr) s;
                      s = on_nlw (mem_write (hdr + 18) hwdst_addr) s;
                      s = on_nlw (mem_write (hdr + 14) (le_bytes (unat ipsrc_addr))) s;
                      s = on_nlw (mem_write (hdr + 24) (le_bytes (unat ipdst_addr))) s;
                      s = on_nlw (mem_write hdr (be16 1)) s;
                      s = on_nlw (mem_write (hdr + 2) (be16 ETHTYPE_IP)) s;
                      s = on_nlw (mem_write (hdr + 4) [6, 4]) s;
                      (e, s) = ethernet_output F n p ethsrc_addr ethdst_addr ETHTYPE_ARP s
                  in map_option (\<lambda>s. (ERR_OK, s)) (net_free F p s))"

definition etharp_request_dst :: "net_fns \<Rightarrow> nat \<Rightarrow> u32 \<Rightarrow> eth_addr \<Rightarrow> net \<Rightarrow> (err_t \<times> net) option" where
  "etharp_request_dst F n ipaddr hw_dst_addr s =
     etharp_raw F n (nif_hwaddr (netifs s n)) hw_dst_addr (nif_hwaddr (netifs s n)) (nif_ip_addr (netifs s n)) ethzero ipaddr ARP_REQUEST s"

definition etharp_request :: "net_fns \<Rightarrow> nat \<Rightarrow> u32 \<Rightarrow> net \<Rightarrow> (err_t \<times> net) option" where
  "etharp_request F n ipaddr s = etharp_request_dst F n ipaddr ethbroadcast s"

subsection \<open>The table\<close>

definition ARP_TABLE_SIZE :: nat where "ARP_TABLE_SIZE = 10"
definition ARP_MAXAGE :: u16 where "ARP_MAXAGE = 300"
definition ARP_MAXPENDING :: u16 where "ARP_MAXPENDING = 5"
definition ARP_AGE_REREQUEST_USED_UNICAST :: u16 where "ARP_AGE_REREQUEST_USED_UNICAST = ARP_MAXAGE - 30"
definition ARP_AGE_REREQUEST_USED_BROADCAST :: u16 where "ARP_AGE_REREQUEST_USED_BROADCAST = ARP_MAXAGE - 15"

definition etharp_free_entry :: "net_fns \<Rightarrow> nat \<Rightarrow> net \<Rightarrow> net option" where
  "etharp_free_entry F i s =
     map_option (upd_entry i (\<lambda>e. e\<lparr>arp_state := ETHARP_STATE_EMPTY\<rparr>))
       (if arp_q (arp_table s ! i) \<noteq> 0
        then map_option (upd_entry i (\<lambda>e. e\<lparr>arp_q := 0\<rparr>)) (net_free F (arp_q (arp_table s ! i)) s)
        else Some s)"

text \<open>The search: an entry that matches ends it; otherwise it leaves the first empty entry and the oldest of each kind.\<close>

record arp_scan =
  old_pending :: nat
  old_stable :: nat
  old_queue :: nat
  empty_entry :: nat
  age_pending :: u16
  age_stable :: u16
  age_queue :: u16

definition arp_match :: "u32 option \<Rightarrow> nat \<Rightarrow> etharp_entry \<Rightarrow> bool" where
  "arp_match ipaddr n e \<longleftrightarrow> ipaddr = Some (arp_ipaddr e) \<and> (n = 0 \<or> n = arp_netif e)"

fun arp_scan_loop :: "u32 option \<Rightarrow> nat \<Rightarrow> nat \<Rightarrow> etharp_entry list \<Rightarrow> arp_scan \<Rightarrow> nat + arp_scan" where
  "arp_scan_loop ipaddr n i [] r = Inr r"
| "arp_scan_loop ipaddr n i (e # es) r =
     (if empty_entry r = ARP_TABLE_SIZE \<and> arp_state e = ETHARP_STATE_EMPTY then arp_scan_loop ipaddr n (Suc i) es (r\<lparr>empty_entry := i\<rparr>)
      else if arp_state e \<noteq> ETHARP_STATE_EMPTY
      then if arp_match ipaddr n e then Inl i
           else if arp_state e = ETHARP_STATE_PENDING
           then if arp_q e \<noteq> 0
                then arp_scan_loop ipaddr n (Suc i) es (if arp_ctime e \<ge> age_queue r then r\<lparr>old_queue := i, age_queue := arp_ctime e\<rparr> else r)
                else arp_scan_loop ipaddr n (Suc i) es (if arp_ctime e \<ge> age_pending r then r\<lparr>old_pending := i, age_pending := arp_ctime e\<rparr> else r)
           else arp_scan_loop ipaddr n (Suc i) es (if arp_ctime e \<ge> age_stable r then r\<lparr>old_stable := i, age_stable := arp_ctime e\<rparr> else r)
      else arp_scan_loop ipaddr n (Suc i) es r)"

definition arp_scan_start :: arp_scan where
  "arp_scan_start = \<lparr>old_pending = ARP_TABLE_SIZE, old_stable = ARP_TABLE_SIZE, old_queue = ARP_TABLE_SIZE, empty_entry = ARP_TABLE_SIZE,
     age_pending = 0, age_stable = 0, age_queue = 0\<rparr>"

datatype arp_flags = ETHARP_FLAG_NONE | ETHARP_FLAG_TRY_HARD | ETHARP_FLAG_FIND_ONLY

text \<open>The entry that is recycled when none is empty.\<close>

definition arp_victim :: "arp_scan \<Rightarrow> nat option" where
  "arp_victim r =
     (if old_stable r < ARP_TABLE_SIZE then Some (old_stable r)
      else if old_pending r < ARP_TABLE_SIZE then Some (old_pending r)
      else if old_queue r < ARP_TABLE_SIZE then Some (old_queue r)
      else None)"

definition arp_claim :: "u32 option \<Rightarrow> nat \<Rightarrow> nat \<Rightarrow> net \<Rightarrow> net" where
  "arp_claim ipaddr n i s =
     upd_entry i (\<lambda>e. e\<lparr>arp_ipaddr := (case ipaddr of None \<Rightarrow> arp_ipaddr e | Some a \<Rightarrow> a), arp_ctime := 0, arp_netif := n\<rparr>) s"

definition etharp_find_entry :: "net_fns \<Rightarrow> u32 option \<Rightarrow> arp_flags \<Rightarrow> nat \<Rightarrow> net \<Rightarrow> ((err_t + nat) \<times> net) option" where
  "etharp_find_entry F ipaddr flags n s =
     (case arp_scan_loop ipaddr n 0 (arp_table s) arp_scan_start of
        Inl i \<Rightarrow> Some (Inr i, s)
      | Inr r \<Rightarrow>
          if flags = ETHARP_FLAG_FIND_ONLY \<or> empty_entry r = ARP_TABLE_SIZE \<and> flags \<noteq> ETHARP_FLAG_TRY_HARD then Some (Inl ERR_MEM, s)
          else if empty_entry r < ARP_TABLE_SIZE then Some (Inr (empty_entry r), arp_claim ipaddr n (empty_entry r) s)
          else case arp_victim r of
                 None \<Rightarrow> Some (Inl ERR_MEM, s)
               | Some i \<Rightarrow> map_option (\<lambda>s. (Inr i, arp_claim ipaddr n i s)) (etharp_free_entry F i s))"

definition etharp_update_arp_entry :: "net_fns \<Rightarrow> nat \<Rightarrow> u32 \<Rightarrow> eth_addr \<Rightarrow> arp_flags \<Rightarrow> net \<Rightarrow> (err_t \<times> net) option" where
  "etharp_update_arp_entry F n ipaddr ethaddr flags s =
     (if ipaddr = IPADDR_ANY \<or> ip4_addr_isbroadcast ipaddr n s \<or> ip4_addr_ismulticast ipaddr then Some (ERR_ARG, s)
      else case etharp_find_entry F (Some ipaddr) flags n s of
        None \<Rightarrow> None
      | Some (Inl e, s) \<Rightarrow> Some (e, s)
      | Some (Inr i, s) \<Rightarrow>
          let s = upd_entry i (\<lambda>e. e\<lparr>arp_state := ETHARP_STATE_STABLE, arp_netif := n, arp_ethaddr := ethaddr, arp_ctime := 0\<rparr>) s;
              p = arp_q (arp_table s ! i)
          in if p \<noteq> 0
             then let s = upd_entry i (\<lambda>e. e\<lparr>arp_q := 0\<rparr>) s;
                      (e, s) = ethernet_output F n p (nif_hwaddr (netifs s n)) ethaddr ETHTYPE_IP s
                  in map_option (\<lambda>s. (ERR_OK, s)) (net_free F p s)
             else Some (ERR_OK, s))"

fun cleanup_loop :: "net_fns \<Rightarrow> nat \<Rightarrow> nat list \<Rightarrow> net \<Rightarrow> net option" where
  "cleanup_loop F n [] s = Some s"
| "cleanup_loop F n (i # is') s =
     (if arp_state (arp_table s ! i) \<noteq> ETHARP_STATE_EMPTY \<and> arp_netif (arp_table s ! i) = n
      then (case etharp_free_entry F i s of None \<Rightarrow> None | Some s \<Rightarrow> cleanup_loop F n is' s)
      else cleanup_loop F n is' s)"

definition etharp_cleanup_netif :: "net_fns \<Rightarrow> nat \<Rightarrow> net \<Rightarrow> net option" where
  "etharp_cleanup_netif F n s = cleanup_loop F n [0..<ARP_TABLE_SIZE] s"

text \<open>The index, the hardware address and the address of a stable entry.\<close>

definition etharp_find_addr :: "net_fns \<Rightarrow> nat \<Rightarrow> u32 \<Rightarrow> net \<Rightarrow> (nat \<times> eth_addr \<times> u32) option" where
  "etharp_find_addr F n ipaddr s =
     (case etharp_find_entry F (Some ipaddr) ETHARP_FLAG_FIND_ONLY n s of
        Some (Inr i, s) \<Rightarrow>
          if stable (arp_state (arp_table s ! i)) then Some (i, arp_ethaddr (arp_table s ! i), arp_ipaddr (arp_table s ! i)) else None
      | _ \<Rightarrow> None)"

definition etharp_get_entry :: "nat \<Rightarrow> net \<Rightarrow> (u32 \<times> nat \<times> eth_addr) option" where
  "etharp_get_entry i s =
     (if i < ARP_TABLE_SIZE \<and> stable (arp_state (arp_table s ! i))
      then Some (arp_ipaddr (arp_table s ! i), arp_netif (arp_table s ! i), arp_ethaddr (arp_table s ! i)) else None)"

text \<open>One entry each second.\<close>

definition tmr_entry :: "net_fns \<Rightarrow> nat \<Rightarrow> net \<Rightarrow> net option" where
  "tmr_entry F i s =
     (if arp_state (arp_table s ! i) \<noteq> ETHARP_STATE_EMPTY
      then let s = upd_entry i (\<lambda>e. e\<lparr>arp_ctime := arp_ctime e + 1\<rparr>) s; e = arp_table s ! i
           in if arp_ctime e \<ge> ARP_MAXAGE \<or> arp_state e = ETHARP_STATE_PENDING \<and> arp_ctime e \<ge> ARP_MAXPENDING then etharp_free_entry F i s
              else if arp_state e = ETHARP_STATE_STABLE_REREQUESTING_1 then Some (upd_entry i (\<lambda>e. e\<lparr>arp_state := ETHARP_STATE_STABLE_REREQUESTING_2\<rparr>) s)
              else if arp_state e = ETHARP_STATE_STABLE_REREQUESTING_2 then Some (upd_entry i (\<lambda>e. e\<lparr>arp_state := ETHARP_STATE_STABLE\<rparr>) s)
              else if arp_state e = ETHARP_STATE_PENDING then map_option snd (etharp_request F (arp_netif e) (arp_ipaddr e) s)
              else Some s
      else Some s)"

fun tmr_loop :: "net_fns \<Rightarrow> nat list \<Rightarrow> net \<Rightarrow> net option" where
  "tmr_loop F [] s = Some s"
| "tmr_loop F (i # is') s = (case tmr_entry F i s of None \<Rightarrow> None | Some s \<Rightarrow> tmr_loop F is' s)"

definition etharp_tmr :: "net_fns \<Rightarrow> net \<Rightarrow> net option" where
  "etharp_tmr F s = tmr_loop F [0..<ARP_TABLE_SIZE] s"

subsection \<open>Output\<close>

definition etharp_output_to_arp_index :: "net_fns \<Rightarrow> nat \<Rightarrow> nat \<Rightarrow> nat \<Rightarrow> net \<Rightarrow> (err_t \<times> net) option" where
  "etharp_output_to_arp_index F n q i s =
     (let e = arp_table s ! i;
          rerequesting = (\<lambda>(r, s). if r = ERR_OK then upd_entry i (\<lambda>e. e\<lparr>arp_state := ETHARP_STATE_STABLE_REREQUESTING_1\<rparr>) s else s);
          s' = (if arp_state e = ETHARP_STATE_STABLE
                then if arp_ctime e \<ge> ARP_AGE_REREQUEST_USED_BROADCAST then map_option rerequesting (etharp_request F n (arp_ipaddr e) s)
                     else if arp_ctime e \<ge> ARP_AGE_REREQUEST_USED_UNICAST
                     then map_option rerequesting (etharp_request_dst F n (arp_ipaddr e) (arp_ethaddr e) s)
                     else Some s
                else Some s)
      in map_option (\<lambda>s. ethernet_output F n q (nif_hwaddr (netifs s n)) (arp_ethaddr (arp_table s ! i)) ETHTYPE_IP s) s')"

definition PBUF_NEEDS_COPY :: "pbuf \<Rightarrow> bool" where
  "PBUF_NEEDS_COPY b \<longleftrightarrow> type_internal b AND 0x40 \<noteq> 0"

partial_function (option) needs_copy_loop :: "(nat \<Rightarrow> pbuf) \<Rightarrow> nat \<Rightarrow> bool option" where
  "needs_copy_loop P p = (if p \<noteq> 0 then if PBUF_NEEDS_COPY (P p) then Some True else needs_copy_loop P (pbuf_next (P p)) else Some False)"

text \<open>The packet that is queued: a copy when its data may change, the packet itself with one more reference otherwise. A packet
  queued before is dropped.\<close>

definition arp_enqueue :: "net_fns \<Rightarrow> nat \<Rightarrow> nat \<Rightarrow> net \<Rightarrow> (err_t \<times> net) option" where
  "arp_enqueue F i q s =
     (case needs_copy_loop (pbufs (nlw s)) q of
        None \<Rightarrow> None
      | Some copy_needed \<Rightarrow>
          (case (if copy_needed then pbuf_clone (net_custom_free F) (alloc_gaps F) PBUF_LINK PBUF_RAM q (nlw s)
                 else Some (q, pbuf_reference q (nlw s))) of
             None \<Rightarrow> None
           | Some (p, l) \<Rightarrow>
               let s = s\<lparr>nlw := l\<rparr>
               in if p \<noteq> 0
                  then map_option (\<lambda>s. (ERR_OK, upd_entry i (\<lambda>e. e\<lparr>arp_q := p\<rparr>) s))
                         (if arp_q (arp_table s ! i) \<noteq> 0 then net_free F (arp_q (arp_table s ! i)) s else Some s)
                  else Some (ERR_MEM, s)))"

definition etharp_query :: "net_fns \<Rightarrow> nat \<Rightarrow> u32 \<Rightarrow> nat \<Rightarrow> net \<Rightarrow> (err_t \<times> net) option" where
  "etharp_query F n ipaddr q s =
     (if ip4_addr_isbroadcast ipaddr n s \<or> ip4_addr_ismulticast ipaddr \<or> ipaddr = IPADDR_ANY then Some (ERR_ARG, s)
      else case etharp_find_entry F (Some ipaddr) ETHARP_FLAG_TRY_HARD n s of
        None \<Rightarrow> None
      | Some (Inl e, s) \<Rightarrow> Some (e, s)
      | Some (Inr i, s) \<Rightarrow>
          let is_new_entry = (arp_state (arp_table s ! i) = ETHARP_STATE_EMPTY);
              s = (if is_new_entry then upd_entry i (\<lambda>e. e\<lparr>arp_state := ETHARP_STATE_PENDING, arp_netif := n\<rparr>) s else s)
          in case (if is_new_entry \<or> q = 0 then etharp_request F n ipaddr s else Some (ERR_MEM, s)) of
               None \<Rightarrow> None
             | Some (result, s) \<Rightarrow>
                 if q = 0 then Some (result, s)
                 else if stable (arp_state (arp_table s ! i))
                 then Some (ethernet_output F n q (nif_hwaddr (netifs s n)) (arp_ethaddr (arp_table s ! i)) ETHTYPE_IP (s\<lparr>etharp_cached_entry := i\<rparr>))
                 else if arp_state (arp_table s ! i) = ETHARP_STATE_PENDING then arp_enqueue F i q s
                 else Some (result, s))"

definition addr_byte :: "u32 \<Rightarrow> nat \<Rightarrow> u8" where
  "addr_byte a i = ucast (drop_bit (8 * i) a)"

definition arp_hit :: "nat \<Rightarrow> u32 \<Rightarrow> etharp_entry \<Rightarrow> bool" where
  "arp_hit n dst e \<longleftrightarrow> stable (arp_state e) \<and> arp_netif e = n \<and> dst = arp_ipaddr e"

definition etharp_output :: "net_fns \<Rightarrow> nat \<Rightarrow> nat \<Rightarrow> u32 \<Rightarrow> net \<Rightarrow> (err_t \<times> net) option" where
  "etharp_output F n q ipaddr s =
     (let nif = netifs s n
      in if ip4_addr_isbroadcast ipaddr n s then Some (ethernet_output F n q (nif_hwaddr nif) ethbroadcast ETHTYPE_IP s)
         else if ip4_addr_ismulticast ipaddr
         then Some (ethernet_output F n q (nif_hwaddr nif)
                [0x01, 0x00, 0x5e, addr_byte ipaddr 1 AND 0x7f, addr_byte ipaddr 2, addr_byte ipaddr 3] ETHTYPE_IP s)
         else let off_link = (\<not> ip4_addr_netcmp ipaddr (nif_ip_addr nif) (nif_netmask nif) \<and> \<not> ip4_addr_islinklocal ipaddr)
              in if off_link \<and> nif_gw nif = IPADDR_ANY then Some (ERR_RTE, s)
                 else let dst_addr = (if off_link then nif_gw nif else ipaddr)
                      in if arp_hit n dst_addr (arp_table s ! etharp_cached_entry s)
                         then etharp_output_to_arp_index F n q (etharp_cached_entry s) s
                         else case List.find (\<lambda>i. arp_hit n dst_addr (arp_table s ! i)) [0..<ARP_TABLE_SIZE] of
                                Some i \<Rightarrow> etharp_output_to_arp_index F n q i (s\<lparr>etharp_cached_entry := i\<rparr>)
                              | None \<Rightarrow> etharp_query F n dst_addr q s)"

subsection \<open>Input\<close>

definition peek :: "nat \<Rightarrow> nat \<Rightarrow> net \<Rightarrow> u8 list" where
  "peek a k s = read_bytes a k (lmem (nlw s))"

definition ip_at :: "nat \<Rightarrow> net \<Rightarrow> u32" where
  "ip_at a s = of_nat (of_le_bytes (peek a 4 s))"

text \<open>The header is read where the payload starts, without a look at the length of the buffer.\<close>

definition etharp_input :: "net_fns \<Rightarrow> nat \<Rightarrow> nat \<Rightarrow> net \<Rightarrow> net option" where
  "etharp_input F p n s =
     (let hdr = payload (pbufs (nlw s) p)
      in if of_be16 (peek hdr 2 s) \<noteq> 1 \<or> peek (hdr + 4) 2 s \<noteq> [6, 4] \<or> of_be16 (peek (hdr + 2) 2 s) \<noteq> ETHTYPE_IP then net_free F p s
         else let sipaddr = ip_at (hdr + 14) s; dipaddr = ip_at (hdr + 24) s;
                  ours = nif_ip_addr (netifs s n);
                  for_us = (ours \<noteq> IPADDR_ANY \<and> dipaddr = ours)
              in case etharp_update_arp_entry F n sipaddr (peek (hdr + 8) 6 s) (if for_us then ETHARP_FLAG_TRY_HARD else ETHARP_FLAG_FIND_ONLY) s of
                   None \<Rightarrow> None
                 | Some (e, s) \<Rightarrow>
                     let opcode = of_be16 (peek (hdr + 6) 2 s)
                     in case (if opcode = ARP_REQUEST
                              then if for_us
                                   then map_option snd (etharp_raw F n (nif_hwaddr (netifs s n)) (peek (hdr + 8) 6 s) (nif_hwaddr (netifs s n))
                                          (nif_ip_addr (netifs s n)) (peek (hdr + 8) 6 s) sipaddr ARP_REPLY s)
                                   else Some s
                              else if opcode = ARP_REPLY then Some (dhcp_arp_reply_call F n sipaddr s)
                              else Some s) of
                          None \<Rightarrow> None
                        | Some s \<Rightarrow> net_free F p s)"

definition mark_cast :: "nat \<Rightarrow> eth_addr \<Rightarrow> net \<Rightarrow> net" where
  "mark_cast p dest s =
     (if dest ! 0 AND 1 \<noteq> 0
      then if dest ! 0 = 0x01
           then if dest ! 1 = 0x00 \<and> dest ! 2 = 0x5e then on_nlw (upd_pbuf p (\<lambda>b. b\<lparr>pbuf_flags := pbuf_flags b OR PBUF_FLAG_LLMCAST\<rparr>)) s else s
           else if dest = ethbroadcast then on_nlw (upd_pbuf p (\<lambda>b. b\<lparr>pbuf_flags := pbuf_flags b OR PBUF_FLAG_LLBCAST\<rparr>)) s
           else s
      else s)"

text \<open>The result is always \<open>ERR_OK\<close>: the packet has been passed on or freed.\<close>

definition ethernet_input :: "net_fns \<Rightarrow> nat \<Rightarrow> nat \<Rightarrow> net \<Rightarrow> (err_t \<times> net) option" where
  "ethernet_input F p n s =
     (let free_and_return = (\<lambda>s. map_option (\<lambda>s. (ERR_OK, s)) (net_free F p s))
      in if pbuf_len (pbufs (nlw s) p) \<le> SIZEOF_ETH_HDR then free_and_return s
         else let s = (if if_idx (pbufs (nlw s) p) = NETIF_NO_INDEX
                       then on_nlw (upd_pbuf p (\<lambda>b. b\<lparr>if_idx := of_nat (netif_get_index (netifs s n))\<rparr>)) s else s);
                  ethhdr = payload (pbufs (nlw s) p);
                  ty = of_be16 (peek (ethhdr + 12) 2 s);
                  s = mark_cast p (peek ethhdr 6 s) s
              in if ty = ETHTYPE_IP \<or> ty = ETHTYPE_ARP
                 then if \<not> has_flag NETIF_FLAG_ETHARP n s then free_and_return s
                      else let (failed, l) = pbuf_remove_header p SIZEOF_ETH_HDR (nlw s); s = s\<lparr>nlw := l\<rparr>
                           in if failed then free_and_return s
                              else if ty = ETHTYPE_IP then Some (ERR_OK, ip4_input_call F p n s)
                              else map_option (\<lambda>s. (ERR_OK, s)) (etharp_input F p n s)
                 else free_and_return s)"

end
