(* ===== verification/ArpTable.thy ===== *)
theory ArpTable
  imports Etharp
begin

text \<open>
  The table of address resolution: which entry a search finds or recycles, that the table is a cache from addresses to
  hardware addresses, and how long an entry lives.
\<close>

subsection \<open>The search\<close>

definition queued :: "etharp_entry \<Rightarrow> bool" where
  "queued e \<longleftrightarrow> arp_state e = ETHARP_STATE_PENDING \<and> arp_q e \<noteq> 0"

definition unqueued :: "etharp_entry \<Rightarrow> bool" where
  "unqueued e \<longleftrightarrow> arp_state e = ETHARP_STATE_PENDING \<and> arp_q e = 0"

abbreviation in_use :: "etharp_entry \<Rightarrow> bool" where
  "in_use e \<equiv> arp_state e \<noteq> ETHARP_STATE_EMPTY"

text \<open>\<open>o\<close> is the place of the oldest entry with the property, or the size of the table, and \<open>a\<close> its age.\<close>

definition oldest :: "(etharp_entry \<Rightarrow> bool) \<Rightarrow> etharp_entry list \<Rightarrow> nat \<Rightarrow> u16 \<Rightarrow> bool" where
  "oldest P es old age \<longleftrightarrow> (if old = ARP_TABLE_SIZE then age = 0 \<and> (\<forall>e \<in> set es. \<not> P e)
     else old < length es \<and> P (es ! old) \<and> age = arp_ctime (es ! old) \<and> (\<forall>e \<in> set es. P e \<longrightarrow> arp_ctime e \<le> age))"

lemma oldest_skip: "oldest P es old age \<Longrightarrow> \<not> P e \<Longrightarrow> oldest P (es @ [e]) old age"
  by (auto simp: oldest_def nth_append)

lemma oldest_step:
  assumes "oldest P es old age" "P e" "length es < ARP_TABLE_SIZE"
  shows "if arp_ctime e \<ge> age then oldest P (es @ [e]) (length es) (arp_ctime e) else oldest P (es @ [e]) old age"
  using assms by (auto simp: oldest_def nth_append not_le split: if_splits intro: order_trans)

definition scan_inv :: "etharp_entry list \<Rightarrow> arp_scan \<Rightarrow> bool" where
  "scan_inv es r \<longleftrightarrow> oldest (\<lambda>e. stable (arp_state e)) es (old_stable r) (age_stable r) \<and>
     oldest unqueued es (old_pending r) (age_pending r) \<and> oldest queued es (old_queue r) (age_queue r) \<and>
     (if empty_entry r = ARP_TABLE_SIZE then \<forall>e \<in> set es. in_use e
      else empty_entry r < length es \<and> \<not> in_use (es ! empty_entry r) \<and> (\<forall>j < empty_entry r. in_use (es ! j)))"

lemmas arp_kinds = stable_def queued_def unqueued_def

lemma entry_kinds: "in_use e \<Longrightarrow> stable (arp_state e) \<or> queued e \<or> unqueued e"
  by (auto simp: arp_kinds)

lemma scan_step:
  assumes inv: "scan_inv es r" and l: "length es < ARP_TABLE_SIZE" and m: "\<not> (in_use e \<and> arp_match ipaddr n e)"
  shows "\<exists>r'. scan_inv (es @ [e]) r' \<and> arp_scan_loop ipaddr n (length es) (e # fs) r = arp_scan_loop ipaddr n (Suc (length es)) fs r'"
proof -
  have o: "oldest (\<lambda>e. stable (arp_state e)) es (old_stable r) (age_stable r)" "oldest unqueued es (old_pending r) (age_pending r)" "oldest queued es (old_queue r) (age_queue r)"
    and em: "if empty_entry r = ARP_TABLE_SIZE then \<forall>e \<in> set es. in_use e
      else empty_entry r < length es \<and> \<not> in_use (es ! empty_entry r) \<and> (\<forall>j < empty_entry r. in_use (es ! j))" using inv by (simp_all add: scan_inv_def)
  have em': "if empty_entry r = ARP_TABLE_SIZE then \<forall>e \<in> set (es @ [e]). in_use e
      else empty_entry r < length (es @ [e]) \<and> \<not> in_use ((es @ [e]) ! empty_entry r) \<and> (\<forall>j < empty_entry r. in_use ((es @ [e]) ! j))"
    if "in_use e \<or> empty_entry r \<noteq> ARP_TABLE_SIZE" using em that by (auto simp: nth_append split: if_splits)
  show ?thesis
  proof (cases "in_use e")
    case False
    let ?r = "if empty_entry r = ARP_TABLE_SIZE then r\<lparr>empty_entry := length es\<rparr> else r"
    have "scan_inv (es @ [e]) ?r"
    proof (cases "empty_entry r = ARP_TABLE_SIZE")
      case True
      then show ?thesis using o False em l by (auto simp: scan_inv_def nth_append arp_kinds intro!: oldest_skip)
    next
      case c: False
      then show ?thesis using o False em' by (auto simp: scan_inv_def arp_kinds intro!: oldest_skip)
    qed
    then show ?thesis using False by (intro exI [of _ ?r]) simp
  next
    case True
    then have nm: "\<not> arp_match ipaddr n e" using m by simp
    note E = em' [OF disjI1 [OF True]]
    consider (st) "stable (arp_state e)" | (q) "queued e" | (u) "unqueued e" using entry_kinds [OF True] by blast
    then show ?thesis
    proof cases
      case st
      let ?r = "if arp_ctime e \<ge> age_stable r then r\<lparr>old_stable := length es, age_stable := arp_ctime e\<rparr> else r"
      have "\<not> queued e" "\<not> unqueued e" using st by (auto simp: arp_kinds)
      then have "scan_inv (es @ [e]) ?r" using oldest_step [OF o(1) st l] oldest_skip [OF o(2)] oldest_skip [OF o(3)] E by (auto simp: scan_inv_def)
      then show ?thesis using True nm st by (intro exI [of _ ?r]) (simp add: arp_kinds)
    next
      case q
      let ?r = "if arp_ctime e \<ge> age_queue r then r\<lparr>old_queue := length es, age_queue := arp_ctime e\<rparr> else r"
      have "\<not> stable (arp_state e)" "\<not> unqueued e" using q by (auto simp: arp_kinds)
      then have "scan_inv (es @ [e]) ?r" using oldest_step [OF o(3) q l] oldest_skip [OF o(2)] oldest_skip [OF o(1)] E by (auto simp: scan_inv_def)
      then show ?thesis using True nm q by (intro exI [of _ ?r]) (simp add: arp_kinds)
    next
      case u
      let ?r = "if arp_ctime e \<ge> age_pending r then r\<lparr>old_pending := length es, age_pending := arp_ctime e\<rparr> else r"
      have "\<not> stable (arp_state e)" "\<not> queued e" using u by (auto simp: arp_kinds)
      then have "scan_inv (es @ [e]) ?r" using oldest_step [OF o(2) u l] oldest_skip [OF o(3)] oldest_skip [OF o(1)] E by (auto simp: scan_inv_def)
      then show ?thesis using True nm u by (intro exI [of _ ?r]) (simp add: arp_kinds)
    qed
  qed
qed

lemma scan_spec:
  assumes "scan_inv es r" "length (es @ fs) \<le> ARP_TABLE_SIZE"
  shows "case arp_scan_loop ipaddr n (length es) fs r of
      Inl k \<Rightarrow> k < length (es @ fs) \<and> in_use ((es @ fs) ! k) \<and> arp_match ipaddr n ((es @ fs) ! k)
    | Inr r' \<Rightarrow> scan_inv (es @ fs) r' \<and> (\<forall>e \<in> set fs. \<not> (in_use e \<and> arp_match ipaddr n e))"
  using assms
proof (induction fs arbitrary: es r)
  case (Cons e fs)
  show ?case
  proof (cases "in_use e \<and> arp_match ipaddr n e")
    case True
    then have "arp_scan_loop ipaddr n (length es) (e # fs) r = Inl (length es)" by simp
    then show ?thesis using True by simp
  next
    case False
    have l: "length es < ARP_TABLE_SIZE" using Cons.prems(2) by simp
    obtain r' where r': "scan_inv (es @ [e]) r'" "arp_scan_loop ipaddr n (length es) (e # fs) r = arp_scan_loop ipaddr n (length (es @ [e])) fs r'"
      using scan_step [OF Cons.prems(1) l False, of fs] by auto
    show ?thesis using Cons.IH [OF r'(1)] Cons.prems(2) False unfolding r'(2) by (auto split: sum.splits)
  qed
qed simp

lemma scan_start: "scan_inv [] arp_scan_start"
  by (simp add: scan_inv_def oldest_def arp_scan_start_def)

subsection \<open>Freeing a chain ends\<close>

definition chain_ok :: "(nat \<Rightarrow> pbuf) \<Rightarrow> nat \<Rightarrow> bool" where
  "chain_ok P p \<longleftrightarrow> (\<exists>qs. pchain P p qs \<and> (\<forall>q \<in> set qs. \<not> is_custom (P q)))"

text \<open>The buffers are linked as before and of the same kind.\<close>

definition same_links :: "(nat \<Rightarrow> pbuf) \<Rightarrow> (nat \<Rightarrow> pbuf) \<Rightarrow> bool" where
  "same_links P P' \<longleftrightarrow> (\<forall>x. pbuf_next (P' x) = pbuf_next (P x) \<and> pbuf_flags (P' x) = pbuf_flags (P x))"

lemma same_links_refl [simp]: "same_links P P" by (simp add: same_links_def)

lemma same_links_trans: "same_links P Q \<Longrightarrow> same_links Q R \<Longrightarrow> same_links P R" by (simp add: same_links_def)

lemma chain_ok_links: "same_links P P' \<Longrightarrow> chain_ok P' p = chain_ok P p"
proof -
  assume "same_links P P'"
  then have "pchain P' p qs = pchain P p qs" "is_custom (P' q) = is_custom (P q)" for qs q by (auto simp: same_links_def is_custom_def intro!: pchain_cong)
  then show ?thesis by (simp add: chain_ok_def)
qed

lemma upd_links: "(\<And>b. pbuf_next (f b) = pbuf_next b \<and> pbuf_flags (f b) = pbuf_flags b) \<Longrightarrow> same_links (pbufs s) (pbufs (upd_pbuf p f s))"
  by (simp add: same_links_def upd_pbuf_def)

lemma dealloc_pbufs: "\<not> is_custom (pbufs s p) \<Longrightarrow> pbufs (pbuf_dealloc cf p s) = pbufs s"
  by (simp add: pbuf_dealloc_def Let_def pool_release_def)

lemma free_loop_ends:
  assumes "chain_ok (pbufs s) p"
  shows "\<exists>k s'. pbuf_free_loop cf p n s = Some (k, s') \<and> same_links (pbufs s) (pbufs s')"
proof -
  obtain qs where "pchain (pbufs s) p qs" "\<forall>q \<in> set qs. \<not> is_custom (pbufs s q)" using assms by (auto simp: chain_ok_def)
  then show ?thesis
  proof (induction qs arbitrary: p n s)
    case Nil
    then show ?case by (subst pbuf_free_loop.simps) simp
  next
    case (Cons q qs)
    let ?r = "u8_t (pbuf_ref (pbufs s p) + 255)"
    let ?s = "upd_pbuf p (\<lambda>b. b\<lparr>pbuf_ref := ?r\<rparr>) s"
    have p: "p = q" "p \<noteq> 0" "pchain (pbufs s) (pbuf_next (pbufs s p)) qs" "p \<notin> set qs" using Cons.prems(1) by auto
    have u: "same_links (pbufs s) (pbufs ?s)" by (rule upd_links) simp
    show ?case
    proof (cases "?r = 0")
      case False
      then have "pbuf_free_loop cf p n s = Some (n, ?s)" using p(2) by (subst pbuf_free_loop.simps) (simp add: Let_def upd_pbuf_def)
      then show ?thesis using u by blast
    next
      case True
      have nc: "\<not> is_custom (pbufs ?s p)" using Cons.prems(2) p(1) by (simp add: upd_pbuf_def is_custom_def)
      have P: "pbufs (pbuf_dealloc cf p ?s) = pbufs ?s" by (rule dealloc_pbufs [OF nc])
      have "pchain (pbufs ?s) (pbuf_next (pbufs s p)) qs = pchain (pbufs s) (pbuf_next (pbufs s p)) qs"
        using p(4) by (intro pchain_cong) (auto simp: upd_pbuf_def)
      moreover have "\<forall>q \<in> set qs. \<not> is_custom (pbufs ?s q)" using Cons.prems(2) p(4) by (auto simp: upd_pbuf_def)
      ultimately have "\<exists>k s'. pbuf_free_loop cf (pbuf_next (pbufs s p)) (u8_t (n + 1)) (pbuf_dealloc cf p ?s) = Some (k, s') \<and> same_links (pbufs (pbuf_dealloc cf p ?s)) (pbufs s')"
        using p(3) unfolding P [symmetric] by (intro Cons.IH) simp_all
      then obtain k s' where r: "pbuf_free_loop cf (pbuf_next (pbufs s p)) (u8_t (n + 1)) (pbuf_dealloc cf p ?s) = Some (k, s')" "same_links (pbufs ?s) (pbufs s')"
        unfolding P by blast
      have "pbuf_free_loop cf p n s = pbuf_free_loop cf (pbuf_next (pbufs s p)) (u8_t (n + 1)) (pbuf_dealloc cf p ?s)"
        using p(2) True by (subst pbuf_free_loop.simps) (simp add: Let_def upd_pbuf_def)
      then show ?thesis using r u same_links_trans by metis
    qed
  qed
qed

lemma net_free_ends:
  assumes "p \<noteq> 0 \<Longrightarrow> chain_ok (pbufs (nlw s)) p"
  shows "\<exists>l. net_free F p s = Some (s\<lparr>nlw := l\<rparr>) \<and> same_links (pbufs (nlw s)) (pbufs l)"
proof (cases "p = 0")
  case True
  then show ?thesis by (intro exI [of _ "nlw s"]) (simp add: net_free_def pbuf_free_def)
next
  case False
  from free_loop_ends [OF assms [OF this], of "net_custom_free F" 0] show ?thesis using False by (auto simp: net_free_def pbuf_free_def)
qed

lemma add_header_links: "pbuf_add_header p n s = (b, s') \<Longrightarrow> same_links (pbufs s) (pbufs s')"
  by (auto simp: pbuf_add_header_def pbuf_add_header_impl_def Let_def split: if_splits intro!: upd_links)

text \<open>A driver that leaves the table, the interfaces and the links of the buffers alone.\<close>

definition link_quiet :: "net_fns \<Rightarrow> bool" where
  "link_quiet F \<longleftrightarrow> (\<forall>n p s e s'. linkoutput_call F n p s = (e, s') \<longrightarrow>
     arp_table s' = arp_table s \<and> netifs s' = netifs s \<and> same_links (pbufs (nlw s)) (pbufs (nlw s')))"

lemma on_nlw_fields [simp]: "arp_table (on_nlw f s) = arp_table s" "netifs (on_nlw f s) = netifs s" "nlw (on_nlw f s) = f (nlw s)"
  "pbufs (mem_write a ys l) = pbufs l"
  by (simp_all add: on_nlw_def mem_write_def)

lemma ethernet_output_quiet:
  assumes "link_quiet F" "ethernet_output F n p src dst ty s = (e, s')"
  shows "arp_table s' = arp_table s \<and> netifs s' = netifs s \<and> same_links (pbufs (nlw s)) (pbufs (nlw s'))"
proof -
  obtain b l where h: "pbuf_add_header p SIZEOF_ETH_HDR (nlw s) = (b, l)" by fastforce
  note L = add_header_links [OF h]
  show ?thesis
  proof (cases b)
    case True
    then show ?thesis using assms(2) h L by (auto simp: ethernet_output_def)
  next
    case False
    obtain s1 where s1: "linkoutput_call F n p s1 = (e, s')" "arp_table s1 = arp_table s" "netifs s1 = netifs s" "pbufs (nlw s1) = pbufs l"
      using assms(2) h False by (auto simp: ethernet_output_def Let_def)
    then show ?thesis using assms(1) L unfolding link_quiet_def by (metis same_links_trans)
  qed
qed

subsection \<open>The table as a cache\<close>

text \<open>No address has two entries on an interface, a resolved entry has no packet waiting, and the packets that wait can be freed.\<close>

definition arp_ok :: "net \<Rightarrow> bool" where
  "arp_ok s \<longleftrightarrow> length (arp_table s) = ARP_TABLE_SIZE \<and>
     (\<forall>i < ARP_TABLE_SIZE. \<forall>j < ARP_TABLE_SIZE. in_use (arp_table s ! i) \<and> in_use (arp_table s ! j) \<and> arp_ipaddr (arp_table s ! i) = arp_ipaddr (arp_table s ! j) \<and>
        arp_netif (arp_table s ! i) = arp_netif (arp_table s ! j) \<longrightarrow> i = j) \<and>
     (\<forall>e \<in> set (arp_table s). (in_use e \<longrightarrow> arp_netif e \<noteq> 0) \<and> (arp_state e \<noteq> ETHARP_STATE_PENDING \<longrightarrow> arp_q e = 0) \<and>
        (arp_q e \<noteq> 0 \<longrightarrow> chain_ok (pbufs (nlw s)) (arp_q e)))"

lemma find_entry_scan:
  assumes "arp_ok s"
  shows "case arp_scan_loop ipaddr n 0 (arp_table s) arp_scan_start of
      Inl k \<Rightarrow> k < ARP_TABLE_SIZE \<and> in_use (arp_table s ! k) \<and> arp_match ipaddr n (arp_table s ! k)
    | Inr r \<Rightarrow> scan_inv (arp_table s) r \<and> (\<forall>e \<in> set (arp_table s). \<not> (in_use e \<and> arp_match ipaddr n e))"
  using scan_spec [OF scan_start, of "arp_table s" ipaddr n] assms by (auto simp: arp_ok_def split: sum.splits)

text \<open>With the table full there is always an entry to recycle.\<close>

lemma victim_spec:
  assumes inv: "scan_inv es r" and l: "length es = ARP_TABLE_SIZE" and f: "empty_entry r = ARP_TABLE_SIZE"
  shows "\<exists>i. arp_victim r = Some i \<and> i < ARP_TABLE_SIZE \<and> in_use (es ! i) \<and>
    (\<exists>P \<in> {\<lambda>e. stable (arp_state e), unqueued, queued}. P (es ! i) \<and> (\<forall>e \<in> set es. P e \<longrightarrow> arp_ctime e \<le> arp_ctime (es ! i))) \<and>
    (stable (arp_state (es ! i)) \<or> (\<forall>e \<in> set es. \<not> stable (arp_state e))) \<and> (queued (es ! i) \<longrightarrow> (\<forall>e \<in> set es. queued e))"
proof -
  have o: "oldest (\<lambda>e. stable (arp_state e)) es (old_stable r) (age_stable r)" "oldest unqueued es (old_pending r) (age_pending r)" "oldest queued es (old_queue r) (age_queue r)"
    and u: "\<forall>e \<in> set es. in_use e" using inv f by (simp_all add: scan_inv_def)
  consider (s) "old_stable r \<noteq> ARP_TABLE_SIZE" | (p) "old_stable r = ARP_TABLE_SIZE" "old_pending r \<noteq> ARP_TABLE_SIZE"
    | (q) "old_stable r = ARP_TABLE_SIZE" "old_pending r = ARP_TABLE_SIZE" by blast
  then show ?thesis
  proof cases
    case s
    then have i: "old_stable r < ARP_TABLE_SIZE" "stable (arp_state (es ! old_stable r))" "\<forall>e \<in> set es. stable (arp_state e) \<longrightarrow> arp_ctime e \<le> arp_ctime (es ! old_stable r)"
      using o(1) l by (auto simp: oldest_def)
    then show ?thesis using u l by (intro exI [of _ "old_stable r"]) (auto simp: arp_victim_def arp_kinds)
  next
    case p
    then have i: "old_pending r < ARP_TABLE_SIZE" "unqueued (es ! old_pending r)" "\<forall>e \<in> set es. unqueued e \<longrightarrow> arp_ctime e \<le> arp_ctime (es ! old_pending r)"
      "\<forall>e \<in> set es. \<not> stable (arp_state e)" using o(1,2) l by (auto simp: oldest_def)
    then show ?thesis using u l p by (intro exI [of _ "old_pending r"]) (auto simp: arp_victim_def arp_kinds)
  next
    case q
    then have n: "\<forall>e \<in> set es. queued e" using o(1,2) u entry_kinds by (auto simp: oldest_def)
    have "es \<noteq> []" using l by (auto simp: ARP_TABLE_SIZE_def)
    then have "old_queue r \<noteq> ARP_TABLE_SIZE" using o(3) n by (cases es) (auto simp: oldest_def)
    then have "old_queue r < ARP_TABLE_SIZE" "queued (es ! old_queue r)" "\<forall>e \<in> set es. queued e \<longrightarrow> arp_ctime e \<le> arp_ctime (es ! old_queue r)"
      using o(3) l by (auto simp: oldest_def)
    then show ?thesis using q n u l o(1) by (intro exI [of _ "old_queue r"]) (auto simp: arp_victim_def oldest_def)
  qed
qed

abbreviation same_key :: "etharp_entry \<Rightarrow> etharp_entry \<Rightarrow> bool" where
  "same_key e f \<equiv> arp_ipaddr e = arp_ipaddr f \<and> arp_netif e = arp_netif f"

lemma arp_ok_D:
  assumes "arp_ok s"
  shows "length (arp_table s) = ARP_TABLE_SIZE" "i < ARP_TABLE_SIZE \<Longrightarrow> in_use (arp_table s ! i) \<Longrightarrow> arp_netif (arp_table s ! i) \<noteq> 0"
    "i < ARP_TABLE_SIZE \<Longrightarrow> arp_state (arp_table s ! i) \<noteq> ETHARP_STATE_PENDING \<Longrightarrow> arp_q (arp_table s ! i) = 0"
    "i < ARP_TABLE_SIZE \<Longrightarrow> arp_q (arp_table s ! i) \<noteq> 0 \<Longrightarrow> chain_ok (pbufs (nlw s)) (arp_q (arp_table s ! i))"
    "i < ARP_TABLE_SIZE \<Longrightarrow> j < ARP_TABLE_SIZE \<Longrightarrow> in_use (arp_table s ! i) \<Longrightarrow> in_use (arp_table s ! j) \<Longrightarrow> same_key (arp_table s ! i) (arp_table s ! j) \<Longrightarrow> i = j"
  using assms unfolding arp_ok_def by auto

lemma arp_ok_upd:
  assumes ok: "arp_ok s" and t: "arp_table s' = (arp_table s)[i := f]" and i: "i < ARP_TABLE_SIZE" and l: "same_links (pbufs (nlw s)) (pbufs (nlw s'))"
    and f: "in_use f \<Longrightarrow> arp_netif f \<noteq> 0" "arp_state f \<noteq> ETHARP_STATE_PENDING \<Longrightarrow> arp_q f = 0" "arp_q f \<noteq> 0 \<Longrightarrow> chain_ok (pbufs (nlw s)) (arp_q f)"
    and k: "\<And>j. in_use f \<Longrightarrow> j < ARP_TABLE_SIZE \<Longrightarrow> j \<noteq> i \<Longrightarrow> in_use (arp_table s ! j) \<Longrightarrow> \<not> same_key f (arp_table s ! j)"
  shows "arp_ok s'"
proof -
  note D = arp_ok_D [OF ok]
  have n: "arp_table s' ! j = (if j = i then f else arp_table s ! j)" if "j < ARP_TABLE_SIZE" for j using that t D(1) by simp
  have "\<forall>a < ARP_TABLE_SIZE. \<forall>b < ARP_TABLE_SIZE. in_use (arp_table s' ! a) \<and> in_use (arp_table s' ! b) \<and> same_key (arp_table s' ! a) (arp_table s' ! b) \<longrightarrow> a = b"
    using D(5) k n by (smt (verit))
  moreover have "\<forall>e \<in> set (arp_table s'). (in_use e \<longrightarrow> arp_netif e \<noteq> 0) \<and> (arp_state e \<noteq> ETHARP_STATE_PENDING \<longrightarrow> arp_q e = 0) \<and>
      (arp_q e \<noteq> 0 \<longrightarrow> chain_ok (pbufs (nlw s')) (arp_q e))"
    using ok f unfolding t chain_ok_links [OF l] arp_ok_def by (auto dest!: set_update_subset_insert [THEN subsetD])
  moreover have "length (arp_table s') = ARP_TABLE_SIZE" using t D(1) by simp
  ultimately show ?thesis unfolding arp_ok_def by simp
qed

lemma free_entry_spec:
  assumes "arp_ok s" "i < ARP_TABLE_SIZE"
  shows "\<exists>l. etharp_free_entry F i s = Some (s\<lparr>nlw := l, arp_table := (arp_table s)[i := (arp_table s ! i)\<lparr>arp_q := 0, arp_state := ETHARP_STATE_EMPTY\<rparr>]\<rparr>) \<and>
    same_links (pbufs (nlw s)) (pbufs l)"
proof -
  note D = arp_ok_D [OF assms(1)]
  show ?thesis
  proof (cases "arp_q (arp_table s ! i) = 0")
    case True
    have e: "(arp_table s ! i)\<lparr>arp_q := 0, arp_state := ETHARP_STATE_EMPTY\<rparr> = (arp_table s ! i)\<lparr>arp_state := ETHARP_STATE_EMPTY\<rparr>"
      by (cases "arp_table s ! i") (use True in simp)
    show ?thesis unfolding e using True by (intro exI [of _ "nlw s"]) (simp add: etharp_free_entry_def upd_entry_def)
  next
    case False
    obtain l where l: "net_free F (arp_q (arp_table s ! i)) s = Some (s\<lparr>nlw := l\<rparr>)" "same_links (pbufs (nlw s)) (pbufs l)"
      using net_free_ends [OF D(4) [OF assms(2)], of F] by blast
    then show ?thesis using False assms(2) D(1) by (intro exI [of _ l]) (simp add: etharp_free_entry_def upd_entry_def)
  qed
qed

text \<open>A search that may recycle always succeeds, and changes at most the entry it returns.\<close>

lemma find_entry_hard:
  assumes ok: "arp_ok s" and n: "n \<noteq> 0"
  shows "\<exists>i l e. etharp_find_entry F (Some ip) ETHARP_FLAG_TRY_HARD n s = Some (Inr i, s\<lparr>nlw := l, arp_table := (arp_table s)[i := e]\<rparr>) \<and>
    i < ARP_TABLE_SIZE \<and> same_links (pbufs (nlw s)) (pbufs l) \<and> arp_ipaddr e = ip \<and> arp_netif e = n \<and>
    (arp_q e \<noteq> 0 \<longrightarrow> e = arp_table s ! i) \<and>
    (\<forall>j < ARP_TABLE_SIZE. j \<noteq> i \<and> in_use (arp_table s ! j) \<longrightarrow> \<not> same_key e (arp_table s ! j)) \<and>
    (in_use (arp_table s ! i) \<and> \<not> same_key e (arp_table s ! i) \<longrightarrow> (\<forall>x \<in> set (arp_table s). in_use x))"
proof (cases "arp_scan_loop (Some ip) n 0 (arp_table s) arp_scan_start")
  case (Inl k)
  note D = arp_ok_D [OF ok]
  have k: "k < ARP_TABLE_SIZE" "in_use (arp_table s ! k)" "arp_ipaddr (arp_table s ! k) = ip" "arp_netif (arp_table s ! k) = n"
    using find_entry_scan [OF ok, of "Some ip" n] n by (auto simp: Inl arp_match_def)
  have e: "s\<lparr>nlw := nlw s, arp_table := (arp_table s)[k := arp_table s ! k]\<rparr> = s" by simp
  have "\<forall>j < ARP_TABLE_SIZE. j \<noteq> k \<and> in_use (arp_table s ! j) \<longrightarrow> \<not> same_key (arp_table s ! k) (arp_table s ! j)" using D(5) k(1,2) by metis
  then show ?thesis using k Inl by (intro exI [of _ k] exI [of _ "nlw s"] exI [of _ "arp_table s ! k"]) (simp add: e etharp_find_entry_def)
next
  case (Inr r)
  note D = arp_ok_D [OF ok]
  have inv: "scan_inv (arp_table s) r" and nm: "\<forall>e \<in> set (arp_table s). \<not> (in_use e \<and> arp_match (Some ip) n e)"
    using find_entry_scan [OF ok, of "Some ip" n] by (auto simp: Inr)
  have nk: "\<not> same_key e (arp_table s ! j)" if "arp_ipaddr e = ip" "arp_netif e = n" "j < ARP_TABLE_SIZE" "in_use (arp_table s ! j)" for e j
    using nm that D(1) nth_mem [of j "arp_table s"] by (auto simp: arp_match_def)
  show ?thesis
  proof (cases "empty_entry r = ARP_TABLE_SIZE")
    case False
    let ?i = "empty_entry r" let ?e = "(arp_table s ! ?i)\<lparr>arp_ipaddr := ip, arp_ctime := 0, arp_netif := n\<rparr>"
    have i: "?i < ARP_TABLE_SIZE" "\<not> in_use (arp_table s ! ?i)" using inv False D(1) by (auto simp: scan_inv_def)
    have q: "arp_q ?e = 0" using D(3) [OF i(1)] i(2) by simp
    have "etharp_find_entry F (Some ip) ETHARP_FLAG_TRY_HARD n s = Some (Inr ?i, s\<lparr>nlw := nlw s, arp_table := (arp_table s)[?i := ?e]\<rparr>)"
      using Inr False i(1) by (simp add: etharp_find_entry_def arp_claim_def upd_entry_def)
    then show ?thesis using i q nk by (intro exI [of _ ?i] exI [of _ "nlw s"] exI [of _ ?e]) auto
  next
    case True
    obtain i where v: "arp_victim r = Some i" "i < ARP_TABLE_SIZE" using victim_spec [OF inv D(1) True] by blast
    obtain l where l: "etharp_free_entry F i s = Some (s\<lparr>nlw := l, arp_table := (arp_table s)[i := (arp_table s ! i)\<lparr>arp_q := 0, arp_state := ETHARP_STATE_EMPTY\<rparr>]\<rparr>)"
      "same_links (pbufs (nlw s)) (pbufs l)" using free_entry_spec [OF ok v(2), of F] by blast
    let ?e = "(arp_table s ! i)\<lparr>arp_q := 0, arp_state := ETHARP_STATE_EMPTY, arp_ipaddr := ip, arp_ctime := 0, arp_netif := n\<rparr>"
    have "etharp_find_entry F (Some ip) ETHARP_FLAG_TRY_HARD n s = Some (Inr i, s\<lparr>nlw := l, arp_table := (arp_table s)[i := ?e]\<rparr>)"
      using Inr True v l D(1) by (simp add: etharp_find_entry_def arp_claim_def upd_entry_def)
    moreover have "\<forall>x \<in> set (arp_table s). in_use x" using inv True by (simp add: scan_inv_def)
    ultimately show ?thesis using v(2) l(2) nk by (intro exI [of _ i] exI [of _ l] exI [of _ ?e]) auto
  qed
qed


subsection \<open>Looking up and learning\<close>

lemma find_addr_iff:
  assumes ok: "arp_ok s" and n: "n \<noteq> 0"
  shows "etharp_find_addr F n ip s = Some (i, m, a) \<longleftrightarrow> i < ARP_TABLE_SIZE \<and> arp_hit n ip (arp_table s ! i) \<and> m = arp_ethaddr (arp_table s ! i) \<and> a = ip"
proof (cases "arp_scan_loop (Some ip) n 0 (arp_table s) arp_scan_start")
  case (Inl k)
  note D = arp_ok_D [OF ok]
  have k: "k < ARP_TABLE_SIZE" "in_use (arp_table s ! k)" "arp_ipaddr (arp_table s ! k) = ip" "arp_netif (arp_table s ! k) = n"
    using find_entry_scan [OF ok, of "Some ip" n] n by (auto simp: Inl arp_match_def)
  have "arp_hit n ip (arp_table s ! i) \<Longrightarrow> i < ARP_TABLE_SIZE \<Longrightarrow> i = k" using D(5) [of i k] k by (auto simp: arp_hit_def stable_def)
  moreover have "etharp_find_addr F n ip s = (if stable (arp_state (arp_table s ! k)) then Some (k, arp_ethaddr (arp_table s ! k), ip) else None)"
    using Inl k(3) by (simp add: etharp_find_addr_def etharp_find_entry_def)
  moreover have "arp_hit n ip (arp_table s ! k) = stable (arp_state (arp_table s ! k))" using k(3,4) by (simp add: arp_hit_def)
  ultimately show ?thesis using k(1) by (smt (verit) option.inject option.discI prod.inject)
next
  case (Inr r)
  have "\<not> arp_hit n ip (arp_table s ! i)" if "i < ARP_TABLE_SIZE"
    using find_entry_scan [OF ok, of "Some ip" n] that arp_ok_D(1) [OF ok] nth_mem [of i "arp_table s"] by (auto simp: Inr arp_match_def arp_hit_def stable_def)
  then show ?thesis using Inr by (auto simp: etharp_find_addr_def etharp_find_entry_def)
qed

text \<open>The hardware address a search for the pair of an interface and an address finds.\<close>

definition arp_lookup :: "net_fns \<Rightarrow> nat \<times> u32 \<Rightarrow> net \<Rightarrow> eth_addr option" where
  "arp_lookup F k s = map_option (\<lambda>(i, m, a). m) (etharp_find_addr F (fst k) (snd k) s)"

lemma arp_lookup_iff:
  assumes "arp_ok s" "fst k \<noteq> 0"
  shows "arp_lookup F k s = Some m \<longleftrightarrow> (\<exists>i < ARP_TABLE_SIZE. arp_hit (fst k) (snd k) (arp_table s ! i) \<and> m = arp_ethaddr (arp_table s ! i))"
  using find_addr_iff [OF assms, of F "snd k"] by (auto simp: arp_lookup_def)

definition arp_unicast :: "nat \<Rightarrow> u32 \<Rightarrow> net \<Rightarrow> bool" where
  "arp_unicast n ip s \<longleftrightarrow> ip \<noteq> IPADDR_ANY \<and> \<not> ip4_addr_isbroadcast ip n s \<and> \<not> ip4_addr_ismulticast ip"

text \<open>The entry can stand at the place: no other entry has its key, and an entry with another key is replaced only in a full table.\<close>

definition slot_fits :: "net \<Rightarrow> nat \<Rightarrow> etharp_entry \<Rightarrow> bool" where
  "slot_fits s i e \<longleftrightarrow> (\<forall>j < ARP_TABLE_SIZE. j \<noteq> i \<and> in_use (arp_table s ! j) \<longrightarrow> \<not> same_key e (arp_table s ! j)) \<and>
     (in_use (arp_table s ! i) \<and> \<not> same_key e (arp_table s ! i) \<longrightarrow> (\<forall>x \<in> set (arp_table s). in_use x))"

lemma slot_fits_cong: "same_key e f \<Longrightarrow> slot_fits s i e = slot_fits s i f"
  by (simp add: slot_fits_def)

lemma update_spec:
  assumes ok: "arp_ok s" and n: "n \<noteq> 0" and u: "arp_unicast n ip s" and lq: "link_quiet F"
  shows "\<exists>s' i e. etharp_update_arp_entry F n ip m ETHARP_FLAG_TRY_HARD s = Some (ERR_OK, s') \<and> arp_table s' = (arp_table s)[i := e] \<and> netifs s' = netifs s \<and>
    i < ARP_TABLE_SIZE \<and> same_links (pbufs (nlw s)) (pbufs (nlw s')) \<and> arp_ipaddr e = ip \<and> arp_netif e = n \<and> arp_ethaddr e = m \<and> arp_state e = ETHARP_STATE_STABLE \<and> arp_q e = 0 \<and> arp_ctime e = 0 \<and>
    slot_fits s i e"
proof -
  note D = arp_ok_D [OF ok]
  obtain i l e where f: "etharp_find_entry F (Some ip) ETHARP_FLAG_TRY_HARD n s = Some (Inr i, s\<lparr>nlw := l, arp_table := (arp_table s)[i := e]\<rparr>)"
    "i < ARP_TABLE_SIZE" "same_links (pbufs (nlw s)) (pbufs l)" "arp_ipaddr e = ip" "arp_netif e = n" "arp_q e \<noteq> 0 \<longrightarrow> e = arp_table s ! i"
    and K: "slot_fits s i e" using find_entry_hard [OF ok n, of F ip] unfolding slot_fits_def by blast
  let ?e = "e\<lparr>arp_state := ETHARP_STATE_STABLE, arp_netif := n, arp_ethaddr := m, arp_ctime := 0\<rparr>"
  let ?s = "s\<lparr>nlw := l, arp_table := (arp_table s)[i := ?e]\<rparr>"
  let ?t = "s\<lparr>nlw := l, arp_table := (arp_table s)[i := ?e\<lparr>arp_q := 0\<rparr>]\<rparr>"
  have U: "\<not> (ip = IPADDR_ANY \<or> ip4_addr_isbroadcast ip n s \<or> ip4_addr_ismulticast ip)" using u by (simp add: arp_unicast_def)
  have K': "slot_fits s i ?e" "slot_fits s i (?e\<lparr>arp_q := 0\<rparr>)" using K f(5) slot_fits_cong [of e ?e s i] slot_fits_cong [of e "?e\<lparr>arp_q := 0\<rparr>" s i] by simp_all
  show ?thesis
  proof (cases "arp_q e = 0")
    case True
    have "etharp_update_arp_entry F n ip m ETHARP_FLAG_TRY_HARD s = Some (ERR_OK, ?s)"
      using U f(1,2) D(1) True by (simp add: etharp_update_arp_entry_def upd_entry_def Let_def)
    then show ?thesis using f(2-4) K' True by (intro exI [of _ ?s] exI [of _ i] exI [of _ ?e] conjI) simp_all
  next
    case False
    obtain r t where o: "ethernet_output F n (arp_q e) (nif_hwaddr (netifs s n)) m ETHTYPE_IP ?t = (r, t)" by fastforce
    have O: "arp_table t = arp_table ?t" "netifs t = netifs s" "same_links (pbufs l) (pbufs (nlw t))" using ethernet_output_quiet [OF lq o] by simp_all
    have L: "same_links (pbufs (nlw s)) (pbufs (nlw t))" using same_links_trans [OF f(3) O(3)] .
    have "chain_ok (pbufs (nlw t)) (arp_q e)" using D(4) [OF f(2)] False f(6) chain_ok_links [OF L] by simp
    then obtain l' where l': "net_free F (arp_q e) t = Some (t\<lparr>nlw := l'\<rparr>)" "same_links (pbufs (nlw t)) (pbufs l')"
      using net_free_ends [of "arp_q e" t F] by blast
    have "etharp_update_arp_entry F n ip m ETHARP_FLAG_TRY_HARD s = Some (ERR_OK, t\<lparr>nlw := l'\<rparr>)"
      using U f(1,2) D(1) False o l'(1) by (simp add: etharp_update_arp_entry_def upd_entry_def Let_def)
    then show ?thesis using f(2-4) K' O same_links_trans [OF L l'(2)]
      by (intro exI [of _ "t\<lparr>nlw := l'\<rparr>"] exI [of _ i] exI [of _ "?e\<lparr>arp_q := 0\<rparr>"] conjI) simp_all
  qed
qed


subsection \<open>A cache of addresses\<close>

text \<open>What a cache promises: learning a pair never fails and keeps the others, or forgets them.\<close>

locale address_cache =
  fixes ok :: "'s \<Rightarrow> bool" and valid :: "'k \<Rightarrow> 's \<Rightarrow> bool" and lookup :: "'k \<Rightarrow> 's \<Rightarrow> 'v option" and learn :: "'k \<Rightarrow> 'v \<Rightarrow> 's \<Rightarrow> 's option"
    and used :: "'s \<Rightarrow> nat" and places :: nat
  assumes learn_ends: "ok s \<Longrightarrow> valid k s \<Longrightarrow> \<exists>s'. learn k v s = Some s'"
    and learn_ok: "ok s \<Longrightarrow> valid k s \<Longrightarrow> learn k v s = Some s' \<Longrightarrow> ok s'"
    and learn_valid: "ok s \<Longrightarrow> valid k s \<Longrightarrow> learn k v s = Some s' \<Longrightarrow> valid k' s' = valid k' s"
    and learn_same: "ok s \<Longrightarrow> valid k s \<Longrightarrow> learn k v s = Some s' \<Longrightarrow> lookup k s' = Some v"
    and learn_other: "ok s \<Longrightarrow> valid k s \<Longrightarrow> learn k v s = Some s' \<Longrightarrow> valid k' s \<Longrightarrow> k' \<noteq> k \<Longrightarrow> lookup k' s' = lookup k' s \<or> lookup k' s' = None"
    and learn_used: "ok s \<Longrightarrow> valid k s \<Longrightarrow> learn k v s = Some s' \<Longrightarrow> used s' \<le> Suc (used s)"
    and learn_room: "ok s \<Longrightarrow> valid k s \<Longrightarrow> learn k v s = Some s' \<Longrightarrow> valid k' s \<Longrightarrow> k' \<noteq> k \<Longrightarrow> used s < places \<Longrightarrow> lookup k' s' = lookup k' s"

fun learn_all :: "('k \<Rightarrow> 'v \<Rightarrow> 's \<Rightarrow> 's option) \<Rightarrow> ('k \<times> 'v) list \<Rightarrow> 's \<Rightarrow> 's option" where
  "learn_all learn [] s = Some s"
| "learn_all learn ((k, v) # kvs) s = (case learn k v s of None \<Rightarrow> None | Some s \<Rightarrow> learn_all learn kvs s)"

text \<open>The value a sequence of pairs leaves for a key.\<close>

definition last_of :: "('k \<times> 'v) list \<Rightarrow> 'k \<Rightarrow> 'v option" where
  "last_of kvs = map_of (rev kvs)"

lemma last_of_simps [simp]: "last_of [] k = None" "last_of ((k', v) # kvs) k = (case last_of kvs k of None \<Rightarrow> if k = k' then Some v else None | Some w \<Rightarrow> Some w)"
  by (simp_all add: last_of_def map_add_def split: option.splits)

context address_cache
begin

lemma learn_all_latest:
  assumes "ok s" "\<forall>(k, v) \<in> set kvs. valid k s" "valid k s"
  shows "\<exists>s'. learn_all learn kvs s = Some s' \<and> ok s' \<and> valid k s' \<and>
    (lookup k s' = None \<or> lookup k s' = (case last_of kvs k of None \<Rightarrow> lookup k s | Some v \<Rightarrow> Some v)) \<and>
    (used s + length kvs \<le> places \<longrightarrow> lookup k s' = (case last_of kvs k of None \<Rightarrow> lookup k s | Some v \<Rightarrow> Some v))"
  using assms
proof (induction kvs arbitrary: s)
  case (Cons kv kvs)
  obtain k1 v1 where kv: "kv = (k1, v1)" by (cases kv)
  have V: "valid k1 s" using Cons.prems(2) kv by simp
  obtain s1 where s1: "learn k1 v1 s = Some s1" using learn_ends [OF Cons.prems(1) V] by blast
  note L = learn_ok [OF Cons.prems(1) V s1] learn_valid [OF Cons.prems(1) V s1] learn_same [OF Cons.prems(1) V s1] learn_other [OF Cons.prems(1) V s1 Cons.prems(3)]
    learn_used [OF Cons.prems(1) V s1] learn_room [OF Cons.prems(1) V s1 Cons.prems(3)]
  have "\<forall>(k, v) \<in> set kvs. valid k s1" "valid k s1" using Cons.prems L(2) by auto
  from Cons.IH [OF L(1) this] obtain s' where s': "learn_all learn kvs s1 = Some s'" "ok s'" "valid k s'"
    "lookup k s' = None \<or> lookup k s' = (case last_of kvs k of None \<Rightarrow> lookup k s1 | Some v \<Rightarrow> Some v)"
    "used s1 + length kvs \<le> places \<longrightarrow> lookup k s' = (case last_of kvs k of None \<Rightarrow> lookup k s1 | Some v \<Rightarrow> Some v)" by blast
  have "lookup k s' = None \<or> lookup k s' = (case last_of (kv # kvs) k of None \<Rightarrow> lookup k s | Some v \<Rightarrow> Some v)"
    using s'(4) L(3,4) by (cases "k = k1") (auto simp: kv split: option.splits)
  moreover have "lookup k s' = (case last_of (kv # kvs) k of None \<Rightarrow> lookup k s | Some v \<Rightarrow> Some v)" if "used s + length (kv # kvs) \<le> places"
    using s'(5) L(3,5,6) that by (cases "k = k1") (auto simp: kv split: option.splits)
  ultimately show ?case using s' s1 kv by simp
qed simp

lemma learn_all_snoc: "learn_all learn (kvs @ [(k, v)]) s = (case learn_all learn kvs s of None \<Rightarrow> None | Some s \<Rightarrow> learn k v s)"
  by (induction kvs arbitrary: s) (auto split: option.splits)

text \<open>The last pair that is learned is always there.\<close>

lemma learn_all_last:
  assumes "ok s" "\<forall>(k, v) \<in> set kvs. valid k s" "valid k s" "learn_all learn (kvs @ [(k, v)]) s = Some s'"
  shows "lookup k s' = Some v"
proof -
  obtain t where t: "learn_all learn kvs s = Some t" "ok t" "valid k t" using learn_all_latest [OF assms(1-3)] by blast
  show ?thesis using learn_same [OF t(2,3)] assms(4) t(1) by (simp add: learn_all_snoc)
qed

end

text \<open>The pairs of an interface and an address for which a packet can teach a hardware address.\<close>

definition arp_key :: "nat \<times> u32 \<Rightarrow> net \<Rightarrow> bool" where
  "arp_key k s \<longleftrightarrow> fst k \<noteq> 0 \<and> arp_unicast (fst k) (snd k) s"

definition arp_learn :: "net_fns \<Rightarrow> nat \<times> u32 \<Rightarrow> eth_addr \<Rightarrow> net \<Rightarrow> net option" where
  "arp_learn F k m s = (case etharp_update_arp_entry F (fst k) (snd k) m ETHARP_FLAG_TRY_HARD s of Some (ERR_OK, s') \<Rightarrow> Some s' | _ \<Rightarrow> None)"

text \<open>The number of entries in use.\<close>

definition arp_used :: "net \<Rightarrow> nat" where
  "arp_used s = length (filter in_use (arp_table s))"

lemma filter_upd_length: "length (filter P (xs[i := x])) \<le> Suc (length (filter P xs))"
  by (induction xs arbitrary: i) (auto split: nat.splits intro: le_SucI)

lemma arp_key_netifs: "netifs s' = netifs s \<Longrightarrow> arp_key k s' = arp_key k s"
  by (simp add: arp_key_def arp_unicast_def ip4_addr_isbroadcast_def has_flag_def)

lemma arp_learn_spec:
  assumes ok: "arp_ok s" and k: "arp_key k s" and lq: "link_quiet F"
  shows "\<exists>s'. arp_learn F k m s = Some s' \<and> arp_ok s' \<and> netifs s' = netifs s \<and> arp_lookup F k s' = Some m \<and>
    (\<forall>k'. fst k' \<noteq> 0 \<longrightarrow> k' \<noteq> k \<longrightarrow> arp_lookup F k' s' = arp_lookup F k' s \<or> arp_lookup F k' s' = None \<and> arp_used s = ARP_TABLE_SIZE) \<and>
    arp_used s' \<le> Suc (arp_used s)"
proof -
  note D = arp_ok_D [OF ok]
  have n: "fst k \<noteq> 0" "arp_unicast (fst k) (snd k) s" using k by (simp_all add: arp_key_def)
  obtain s' i e where u: "etharp_update_arp_entry F (fst k) (snd k) m ETHARP_FLAG_TRY_HARD s = Some (ERR_OK, s')"
    "arp_table s' = (arp_table s)[i := e]" "netifs s' = netifs s" "i < ARP_TABLE_SIZE" "same_links (pbufs (nlw s)) (pbufs (nlw s'))"
    and e: "arp_ipaddr e = snd k" "arp_netif e = fst k" "arp_ethaddr e = m" "arp_state e = ETHARP_STATE_STABLE" "arp_q e = 0" and f: "slot_fits s i e"
    using update_spec [OF ok n lq, of m] by blast
  have ok': "arp_ok s'"
  proof (rule arp_ok_upd [OF ok u(2,4,5)])
    show "\<not> same_key e (arp_table s ! j)" if "j < ARP_TABLE_SIZE" "j \<noteq> i" "in_use (arp_table s ! j)" for j using f that unfolding slot_fits_def by blast
  qed (use e n(1) in simp_all)
  have at: "arp_table s' ! j = (if j = i then e else arp_table s ! j)" if "j < ARP_TABLE_SIZE" for j using that u(2) D(1) by simp
  have he: "arp_hit (fst k) (snd k) e" using e by (simp add: arp_hit_def stable_def)
  have "arp_lookup F k s' = Some m" unfolding arp_lookup_iff [OF ok' n(1)] using u(4) at e(3) he by (intro exI [of _ i]) simp
  moreover have "arp_lookup F k' s' = arp_lookup F k' s \<or> arp_lookup F k' s' = None \<and> arp_used s = ARP_TABLE_SIZE" if k': "fst k' \<noteq> 0" "k' \<noteq> k" for k'
  proof -
    have hit: "arp_hit (fst k') (snd k') (arp_table s' ! j) \<longleftrightarrow> j \<noteq> i \<and> arp_hit (fst k') (snd k') (arp_table s ! j)" if "j < ARP_TABLE_SIZE" for j
      using at [OF that] e(1,2) k'(2) by (auto simp: arp_hit_def prod_eq_iff)
    show ?thesis
    proof (cases "arp_hit (fst k') (snd k') (arp_table s ! i)")
      case False
      then have "arp_lookup F k' s' = Some v \<longleftrightarrow> arp_lookup F k' s = Some v" for v
        unfolding arp_lookup_iff [OF ok' k'(1)] arp_lookup_iff [OF ok k'(1)] using hit at by metis
      then show ?thesis by (metis not_Some_eq)
    next
      case True
      then have g: "in_use (arp_table s ! i)" "\<not> same_key e (arp_table s ! i)" using e(1,2) k'(2) by (auto simp: arp_hit_def stable_def prod_eq_iff)
      then have "\<forall>x \<in> set (arp_table s). in_use x" using f by (simp add: slot_fits_def)
      then have "arp_used s = ARP_TABLE_SIZE" using D(1) by (simp add: arp_used_def)
      moreover have "arp_lookup F k' s' = arp_lookup F k' s \<or> arp_lookup F k' s' = None"
      proof (cases "arp_lookup F k' s'")
        case (Some v)
        then have "arp_lookup F k' s = Some v" unfolding arp_lookup_iff [OF ok' k'(1)] arp_lookup_iff [OF ok k'(1)] using hit at by metis
        then show ?thesis using Some by simp
      qed simp
      ultimately show ?thesis by blast
    qed
  qed
  moreover have "arp_used s' \<le> Suc (arp_used s)" using filter_upd_length [of in_use "arp_table s" i e] by (simp add: arp_used_def u(2))
  ultimately show ?thesis using u(1,3) ok' by (simp add: arp_learn_def)
qed

definition arp_ready :: "net_fns \<Rightarrow> net \<Rightarrow> bool" where
  "arp_ready F s \<longleftrightarrow> arp_ok s \<and> link_quiet F"

lemma arp_learn_D:
  assumes "arp_ready F s" "arp_key k s" "arp_learn F k m s = Some s'"
  shows "arp_ready F s'" "netifs s' = netifs s" "arp_lookup F k s' = Some m"
    "arp_key k' s \<Longrightarrow> k' \<noteq> k \<Longrightarrow> arp_lookup F k' s' = arp_lookup F k' s \<or> arp_lookup F k' s' = None"
    "arp_used s' \<le> Suc (arp_used s)"
    "arp_key k' s \<Longrightarrow> k' \<noteq> k \<Longrightarrow> arp_used s < ARP_TABLE_SIZE \<Longrightarrow> arp_lookup F k' s' = arp_lookup F k' s"
proof -
  have "arp_ok s" "link_quiet F" using assms(1) by (simp_all add: arp_ready_def)
  note A = arp_learn_spec [OF this(1) assms(2) this(2), of m] assms(3)
  show "arp_ready F s'" "netifs s' = netifs s" "arp_lookup F k s' = Some m" "arp_used s' \<le> Suc (arp_used s)" using A assms(1) by (auto simp: arp_ready_def)
  show "arp_lookup F k' s' = arp_lookup F k' s \<or> arp_lookup F k' s' = None" if "arp_key k' s" "k' \<noteq> k"
    using A that unfolding arp_key_def by (metis option.inject)
  show "arp_lookup F k' s' = arp_lookup F k' s" if "arp_key k' s" "k' \<noteq> k" "arp_used s < ARP_TABLE_SIZE"
    using A that unfolding arp_key_def by (metis option.inject nat_neq_iff)
qed

interpretation arp: address_cache "arp_ready F" arp_key "arp_lookup F" "arp_learn F" arp_used ARP_TABLE_SIZE
proof unfold_locales
  show "\<exists>s'. arp_learn F k v s = Some s'" if "arp_ready F s" "arp_key k s" for s k v using arp_learn_spec [of s k F v] that by (auto simp: arp_ready_def)
  show "arp_key k' s' = arp_key k' s" if "arp_ready F s" "arp_key k s" "arp_learn F k v s = Some s'" for s k v s' k'
    by (rule arp_key_netifs [OF arp_learn_D(2) [OF that]])
qed (fact arp_learn_D(1) arp_learn_D(3) arp_learn_D(4) arp_learn_D(5) arp_learn_D(6))+

text \<open>C32: the table of address resolution is a cache. Whatever sequence of pairs of an address and a hardware address is learned from
  packets, each one is stored (an entry is recycled when the table is full, and the packet that waited for it is dropped), the
  table stays well formed, and a search finds the hardware address learned last for the address, or none when its
  entry was recycled, never an older or another one's; nothing is lost while the entries do not exceed the ten places, and the pair
  learned last is always found.\<close>

theorem arp_cache_latest:
  assumes "arp_ok s" "link_quiet F" "\<forall>(k, m) \<in> set kms. arp_key k s" "arp_key k s"
  shows "\<exists>s'. learn_all (arp_learn F) kms s = Some s' \<and> arp_ok s' \<and>
    (arp_lookup F k s' = None \<or> arp_lookup F k s' = (case last_of kms k of None \<Rightarrow> arp_lookup F k s | Some m \<Rightarrow> Some m)) \<and>
    (arp_used s + length kms \<le> ARP_TABLE_SIZE \<longrightarrow> arp_lookup F k s' = (case last_of kms k of None \<Rightarrow> arp_lookup F k s | Some m \<Rightarrow> Some m)) \<and>
    (\<forall>pre m. kms = pre @ [(k, m)] \<longrightarrow> arp_lookup F k s' = Some m)"
proof -
  have r: "arp_ready F s" using assms by (simp add: arp_ready_def)
  obtain s' where s': "learn_all (arp_learn F) kms s = Some s'" "arp_ready F s'"
    "arp_lookup F k s' = None \<or> arp_lookup F k s' = (case last_of kms k of None \<Rightarrow> arp_lookup F k s | Some m \<Rightarrow> Some m)"
    "arp_used s + length kms \<le> ARP_TABLE_SIZE \<longrightarrow> arp_lookup F k s' = (case last_of kms k of None \<Rightarrow> arp_lookup F k s | Some m \<Rightarrow> Some m)"
    using arp.learn_all_latest [OF r assms(3,4)] by blast
  moreover have "arp_lookup F k s' = Some m" if "kms = pre @ [(k, m)]" for pre m
    using arp.learn_all_last [OF r _ assms(4), of pre m s'] assms(3) s'(1) that by auto
  ultimately show ?thesis by (auto simp: arp_ready_def)
qed


subsection \<open>Which entry is recycled\<close>

text \<open>C33: a new address in a full table takes the place of the oldest resolved entry; only when none is resolved that of the oldest entry
  being resolved without a packet; and one with a packet waiting only when all have one. The packet of the recycled entry
  is freed, the entry starts with age 0, and no other entry changes.\<close>

theorem arp_recycles_oldest:
  assumes "arp_ok s" "n \<noteq> 0" "\<forall>e \<in> set (arp_table s). in_use e \<and> \<not> arp_match (Some ip) n e"
  shows "\<exists>i s'. etharp_find_entry F (Some ip) ETHARP_FLAG_TRY_HARD n s = Some (Inr i, s') \<and> i < ARP_TABLE_SIZE \<and>
    arp_table s' = (arp_table s)[i := (arp_table s ! i)\<lparr>arp_q := 0, arp_state := ETHARP_STATE_EMPTY, arp_ipaddr := ip, arp_ctime := 0, arp_netif := n\<rparr>] \<and>
    (\<exists>P \<in> {\<lambda>e. stable (arp_state e), unqueued, queued}. P (arp_table s ! i) \<and> (\<forall>e \<in> set (arp_table s). P e \<longrightarrow> arp_ctime e \<le> arp_ctime (arp_table s ! i))) \<and>
    (stable (arp_state (arp_table s ! i)) \<or> (\<forall>e \<in> set (arp_table s). \<not> stable (arp_state e))) \<and>
    (queued (arp_table s ! i) \<longrightarrow> (\<forall>e \<in> set (arp_table s). queued e))"
proof -
  note D = arp_ok_D [OF assms(1)]
  obtain r where r: "arp_scan_loop (Some ip) n 0 (arp_table s) arp_scan_start = Inr r"
  proof (cases "arp_scan_loop (Some ip) n 0 (arp_table s) arp_scan_start")
    case (Inl k)
    then show ?thesis using find_entry_scan [OF assms(1), of "Some ip" n] assms(3) D(1) nth_mem [of k "arp_table s"] by auto
  qed
  have inv: "scan_inv (arp_table s) r" using find_entry_scan [OF assms(1), of "Some ip" n] by (simp add: r)
  have full: "empty_entry r = ARP_TABLE_SIZE"
  proof (rule ccontr)
    assume "empty_entry r \<noteq> ARP_TABLE_SIZE"
    then have "empty_entry r < length (arp_table s)" "\<not> in_use (arp_table s ! empty_entry r)" using inv by (simp_all add: scan_inv_def)
    then show False using assms(3) nth_mem by blast
  qed
  obtain i where i: "arp_victim r = Some i" "i < ARP_TABLE_SIZE"
    and v: "\<exists>P \<in> {\<lambda>e. stable (arp_state e), unqueued, queued}. P (arp_table s ! i) \<and> (\<forall>e \<in> set (arp_table s). P e \<longrightarrow> arp_ctime e \<le> arp_ctime (arp_table s ! i))"
      "stable (arp_state (arp_table s ! i)) \<or> (\<forall>e \<in> set (arp_table s). \<not> stable (arp_state e))"
      "queued (arp_table s ! i) \<longrightarrow> (\<forall>e \<in> set (arp_table s). queued e)"
    using victim_spec [OF inv D(1) full] by (elim exE conjE) (rule that)
  obtain l where l: "etharp_free_entry F i s = Some (s\<lparr>nlw := l, arp_table := (arp_table s)[i := (arp_table s ! i)\<lparr>arp_q := 0, arp_state := ETHARP_STATE_EMPTY\<rparr>]\<rparr>)"
    using free_entry_spec [OF assms(1) i(2), of F] by blast
  let ?s = "s\<lparr>nlw := l, arp_table := (arp_table s)[i := (arp_table s ! i)\<lparr>arp_q := 0, arp_state := ETHARP_STATE_EMPTY, arp_ipaddr := ip, arp_ctime := 0, arp_netif := n\<rparr>]\<rparr>"
  have "etharp_find_entry F (Some ip) ETHARP_FLAG_TRY_HARD n s = Some (Inr i, ?s)"
    using r full i l D(1) by (simp add: etharp_find_entry_def arp_claim_def upd_entry_def)
  then show ?thesis using i(2) v by (intro exI [of _ i] exI [of _ ?s]) simp
qed

subsection \<open>How long an entry lives\<close>

text \<open>No address is being resolved.\<close>

definition arp_settled :: "net \<Rightarrow> bool" where
  "arp_settled s \<longleftrightarrow> (\<forall>e \<in> set (arp_table s). arp_state e \<noteq> ETHARP_STATE_PENDING)"

definition arp_tick :: "etharp_entry \<Rightarrow> etharp_entry" where
  "arp_tick e = (if \<not> in_use e then e
     else let e = e\<lparr>arp_ctime := arp_ctime e + 1\<rparr>
       in if arp_ctime e \<ge> ARP_MAXAGE then e\<lparr>arp_state := ETHARP_STATE_EMPTY\<rparr>
          else if arp_state e = ETHARP_STATE_STABLE_REREQUESTING_1 then e\<lparr>arp_state := ETHARP_STATE_STABLE_REREQUESTING_2\<rparr>
          else if arp_state e = ETHARP_STATE_STABLE_REREQUESTING_2 then e\<lparr>arp_state := ETHARP_STATE_STABLE\<rparr> else e)"

lemma arp_tick_fields [simp]: "arp_ipaddr (arp_tick e) = arp_ipaddr e" "arp_netif (arp_tick e) = arp_netif e" "arp_ethaddr (arp_tick e) = arp_ethaddr e" "arp_q (arp_tick e) = arp_q e"
  by (simp_all add: arp_tick_def Let_def)

lemma arp_tick_in_use: "in_use (arp_tick e) \<Longrightarrow> in_use e"
  by (auto simp: arp_tick_def)

lemma arp_tick_state: "arp_state e \<noteq> ETHARP_STATE_PENDING \<Longrightarrow> arp_state (arp_tick e) \<noteq> ETHARP_STATE_PENDING"
  by (simp add: arp_tick_def Let_def)

lemma arp_tick_stable: "stable (arp_state e) \<Longrightarrow> arp_ctime e + 1 < ARP_MAXAGE \<Longrightarrow> stable (arp_state (arp_tick e)) \<and> arp_ctime (arp_tick e) = arp_ctime e + 1"
  by (auto simp: arp_tick_def Let_def stable_def)

lemma arp_tick_expire: "arp_ctime e + 1 \<ge> ARP_MAXAGE \<Longrightarrow> \<not> in_use (arp_tick e)"
  by (auto simp: arp_tick_def Let_def)

lemma tmr_entry_tick:
  assumes "i < length (arp_table s)" "arp_state (arp_table s ! i) \<noteq> ETHARP_STATE_PENDING" "arp_q (arp_table s ! i) = 0"
  shows "tmr_entry F i s = Some (s\<lparr>arp_table := (arp_table s)[i := arp_tick (arp_table s ! i)]\<rparr>)"
  using assms by (auto simp: tmr_entry_def arp_tick_def Let_def upd_entry_def etharp_free_entry_def)

lemma tmr_loop_tick:
  assumes "\<forall>e \<in> set (arp_table s). arp_state e \<noteq> ETHARP_STATE_PENDING \<and> arp_q e = 0" "k \<le> length (arp_table s)"
  shows "tmr_loop F [k..<length (arp_table s)] s = Some (s\<lparr>arp_table := take k (arp_table s) @ map arp_tick (drop k (arp_table s))\<rparr>)"
  using assms
proof (induction "length (arp_table s) - k" arbitrary: k s)
  case 0
  then show ?case by simp
next
  case (Suc d)
  then have k: "k < length (arp_table s)" by simp
  let ?s = "s\<lparr>arp_table := (arp_table s)[k := arp_tick (arp_table s ! k)]\<rparr>"
  have e: "arp_state (arp_table s ! k) \<noteq> ETHARP_STATE_PENDING" "arp_q (arp_table s ! k) = 0" using Suc.prems(1) nth_mem [OF k] by simp_all
  have "\<forall>e \<in> set (arp_table ?s). arp_state e \<noteq> ETHARP_STATE_PENDING \<and> arp_q e = 0"
    using Suc.prems(1) e arp_tick_state by (auto dest!: set_update_subset_insert [THEN subsetD])
  then have "tmr_loop F [Suc k..<length (arp_table ?s)] ?s = Some (?s\<lparr>arp_table := take (Suc k) (arp_table ?s) @ map arp_tick (drop (Suc k) (arp_table ?s))\<rparr>)"
    using Suc.hyps(2) k by (intro Suc.hyps(1)) simp_all
  moreover have "take (Suc k) ((arp_table s)[k := arp_tick (arp_table s ! k)]) @ map arp_tick (drop (Suc k) (arp_table s)) = take k (arp_table s) @ map arp_tick (drop k (arp_table s))"
    using k by (simp add: take_Suc_conv_app_nth Cons_nth_drop_Suc [symmetric])
  ultimately show ?case using tmr_entry_tick [OF k e, of F] k by (simp add: upt_conv_Cons)
qed

lemma tmr_tick:
  assumes "arp_ok s" "arp_settled s"
  shows "etharp_tmr F s = Some (s\<lparr>arp_table := map arp_tick (arp_table s)\<rparr>)"
proof -
  have "\<forall>e \<in> set (arp_table s). arp_state e \<noteq> ETHARP_STATE_PENDING \<and> arp_q e = 0" using assms by (simp add: arp_ok_def arp_settled_def)
  from tmr_loop_tick [OF this, of 0 F] show ?thesis using assms(1) by (simp add: etharp_tmr_def arp_ok_def)
qed

lemma arp_tick_ok:
  assumes "arp_ok s" "arp_settled s"
  shows "arp_ok (s\<lparr>arp_table := map arp_tick (arp_table s)\<rparr>)" "arp_settled (s\<lparr>arp_table := map arp_tick (arp_table s)\<rparr>)"
proof -
  show "arp_settled (s\<lparr>arp_table := map arp_tick (arp_table s)\<rparr>)" using assms(2) arp_tick_state by (auto simp: arp_settled_def)
  have "\<forall>e \<in> set (map arp_tick (arp_table s)). (in_use e \<longrightarrow> arp_netif e \<noteq> 0) \<and> arp_q e = 0"
    using assms arp_tick_in_use by (auto simp: arp_ok_def arp_settled_def)
  moreover have "i = j" if "i < ARP_TABLE_SIZE" "j < ARP_TABLE_SIZE" "in_use (map arp_tick (arp_table s) ! i)" "in_use (map arp_tick (arp_table s) ! j)"
    "same_key (map arp_tick (arp_table s) ! i) (map arp_tick (arp_table s) ! j)" for i j
    using that arp_ok_D(1,5) [OF assms(1)] arp_tick_in_use by simp
  ultimately show "arp_ok (s\<lparr>arp_table := map arp_tick (arp_table s)\<rparr>)" using arp_ok_D(1) [OF assms(1)] unfolding arp_ok_def by simp
qed

text \<open>The timer called a number of times, once a second.\<close>

fun etharp_tmrs :: "net_fns \<Rightarrow> nat \<Rightarrow> net \<Rightarrow> net option" where
  "etharp_tmrs F 0 s = Some s"
| "etharp_tmrs F (Suc k) s = (case etharp_tmr F s of None \<Rightarrow> None | Some s \<Rightarrow> etharp_tmrs F k s)"

lemma tmrs_ticks:
  assumes "arp_ok s" "arp_settled s"
  shows "etharp_tmrs F k s = Some (s\<lparr>arp_table := map (arp_tick ^^ k) (arp_table s)\<rparr>) \<and> arp_ok (s\<lparr>arp_table := map (arp_tick ^^ k) (arp_table s)\<rparr>)"
  using assms
proof (induction k arbitrary: s)
  case 0
  then show ?case by simp
next
  case (Suc k)
  from Suc.IH [OF arp_tick_ok [OF Suc.prems]] show ?case using tmr_tick [OF Suc.prems, of F] by (simp add: funpow_swap1 comp_def)
qed

lemma ticks_fields [simp]: "arp_ipaddr ((arp_tick ^^ k) e) = arp_ipaddr e" "arp_netif ((arp_tick ^^ k) e) = arp_netif e" "arp_ethaddr ((arp_tick ^^ k) e) = arp_ethaddr e"
  by (induction k) simp_all

lemma ticks_in_use: "in_use ((arp_tick ^^ k) e) \<Longrightarrow> in_use e"
  by (induction k) (auto dest: arp_tick_in_use)

lemma ticks_alive:
  assumes "stable (arp_state e)" "arp_ctime e = 0" "k < 300"
  shows "stable (arp_state ((arp_tick ^^ k) e)) \<and> arp_ctime ((arp_tick ^^ k) e) = of_nat k"
  using assms(3)
proof (induction k)
  case 0
  then show ?case using assms by simp
next
  case (Suc k)
  then have "arp_ctime ((arp_tick ^^ k) e) + 1 < ARP_MAXAGE" by (simp add: ARP_MAXAGE_def word_less_nat_alt unat_word_ariths unat_of_nat)
  from arp_tick_stable [OF _ this] show ?case using Suc by simp
qed

lemma ticks_gone:
  assumes "stable (arp_state e)" "arp_ctime e = 0" "300 \<le> k"
  shows "\<not> in_use ((arp_tick ^^ k) e)"
proof -
  have "arp_ctime ((arp_tick ^^ 299) e) + 1 \<ge> ARP_MAXAGE" using ticks_alive [OF assms(1,2), of 299] by (simp add: ARP_MAXAGE_def)
  moreover have "(arp_tick ^^ 300) e = arp_tick ((arp_tick ^^ 299) e)" using funpow.simps(2) [of 299 arp_tick] by simp
  ultimately have "\<not> in_use ((arp_tick ^^ 300) e)" using arp_tick_expire [of "(arp_tick ^^ 299) e"] by simp
  moreover have "(arp_tick ^^ k) e = (arp_tick ^^ (k - 300)) ((arp_tick ^^ 300) e)" using assms(3) by (simp add: funpow_add [THEN fun_cong, unfolded comp_def, symmetric])
  ultimately show ?thesis using ticks_in_use by metis
qed

text \<open>C34: while no address is being resolved, a pair learned from a packet answers searches through 299 calls of the timer, which the stack
  makes once a second, and from the 300th on the address is no longer found, whatever the re-request state of the entry was.\<close>

theorem arp_entry_lifetime:
  assumes "arp_ok s" "arp_settled s" "i < ARP_TABLE_SIZE" "arp_hit n ip (arp_table s ! i)" "arp_ctime (arp_table s ! i) = 0"
  shows "\<exists>s'. etharp_tmrs F k s = Some s' \<and> arp_ok s' \<and> arp_lookup F (n, ip) s' = (if k < 300 then Some (arp_ethaddr (arp_table s ! i)) else None)"
proof -
  let ?e = "arp_table s ! i"
  let ?s = "s\<lparr>arp_table := map (arp_tick ^^ k) (arp_table s)\<rparr>"
  have T: "etharp_tmrs F k s = Some ?s" "arp_ok ?s" using tmrs_ticks [OF assms(1,2)] by blast+
  note l = arp_ok_D(1) [OF assms(1)]
  have h: "stable (arp_state ?e)" "arp_netif ?e = n" "arp_ipaddr ?e = ip" using assms(4) by (simp_all add: arp_hit_def)
  have n: "n \<noteq> 0" using arp_ok_D(2) [OF assms(1,3)] h by (auto simp: stable_def)
  have look: "arp_lookup F (n, ip) ?s = Some v \<longleftrightarrow> (\<exists>j < ARP_TABLE_SIZE. arp_hit n ip ((arp_tick ^^ k) (arp_table s ! j)) \<and> v = arp_ethaddr (arp_table s ! j))" for v
    unfolding arp_lookup_iff [OF T(2), of "(n, ip)" F, unfolded fst_conv snd_conv, OF n] using l by auto
  have only: "j = i" if "j < ARP_TABLE_SIZE" "arp_hit n ip ((arp_tick ^^ k) (arp_table s ! j))" for j
  proof (rule arp_ok_D(5) [OF assms(1) that(1) assms(3)])
    have "in_use ((arp_tick ^^ k) (arp_table s ! j))" using that(2) by (simp add: arp_hit_def stable_def)
    then show "in_use (arp_table s ! j)" by (rule ticks_in_use)
  qed (use that(2) h in \<open>auto simp: arp_hit_def stable_def\<close>)
  have "arp_lookup F (n, ip) ?s = (if k < 300 then Some (arp_ethaddr ?e) else None)"
  proof (cases "k < 300")
    case True
    then have "arp_hit n ip ((arp_tick ^^ k) ?e)" using ticks_alive [OF h(1) assms(5)] h by (simp add: arp_hit_def)
    then have "arp_lookup F (n, ip) ?s = Some (arp_ethaddr ?e)" unfolding look using assms(3) l by (intro exI [of _ i] conjI) simp_all
    then show ?thesis using True by simp
  next
    case False
    then have "\<not> arp_hit n ip ((arp_tick ^^ k) ?e)" using ticks_gone [OF h(1) assms(5), of k] by (auto simp: arp_hit_def stable_def)
    then have "arp_lookup F (n, ip) ?s \<noteq> Some v" for v unfolding look using only by metis
    then show ?thesis using False by auto
  qed
  then show ?thesis using T by blast
qed


subsection \<open>Examples\<close>

definition demo_fns_net :: net_fns where
  "demo_fns_net = \<lparr>linkoutput_call = \<lambda>_ _ s. (ERR_OK, s), ip4_input_call = \<lambda>_ _ s. s, dhcp_arp_reply_call = \<lambda>_ _ s. s, dhcp_network_changed_call = \<lambda>_ s. s,
     ip_addr_changed_call = \<lambda>_ _ s. s, net_custom_free = \<lambda>_ l. l, alloc_gaps = window id\<rparr>"

definition demo_nif :: netif_t where
  "demo_nif = \<lparr>nif_next = 0, nif_ip_addr = 0x0a01a8c0, nif_netmask = 0x00ffffff, nif_gw = 0x0101a8c0, nif_input = None, nif_output = ETHARP_OUTPUT,
     nif_linkoutput = LOW_LEVEL_OUTPUT, nif_state = 0, nif_client_data = [], nif_hostname = 0, nif_mtu = 1500, nif_hwaddr = [2, 0, 0, 0, 0, 1],
     nif_hwaddr_len = 6, nif_flags = 0x0f, nif_name = ''st'', nif_num = 0\<rparr>"

definition demo_entry :: "etharp_state \<Rightarrow> u32 \<Rightarrow> u16 \<Rightarrow> etharp_entry" where
  "demo_entry st ip age = \<lparr>arp_q = 0, arp_ipaddr = ip, arp_netif = 5, arp_ethaddr = [2, 0, 0, 0, 0, 7], arp_ctime = age, arp_state = st\<rparr>"

definition demo_arp :: "etharp_entry list \<Rightarrow> net" where
  "demo_arp es = \<lparr>nlw = demo_lwip, netifs = \<lambda>_. demo_nif, netif_list = 5, netif_default = 5, netif_num = 1, arp_table = es, etharp_cached_entry = 0\<rparr>"

lemma demo_quiet: "link_quiet demo_fns_net"
  by (simp add: link_quiet_def demo_fns_net_def)

lemma demo_arp_table [simp]: "arp_table (demo_arp es) = es"
  by (simp add: demo_arp_def)

lemma distinct_filter_nth:
  assumes "distinct (map f (filter P xs))" "i < length xs" "j < length xs" "P (xs ! i)" "P (xs ! j)" "f (xs ! i) = f (xs ! j)"
  shows "i = j"
  using assms
proof (induction xs arbitrary: i j)
  case (Cons x xs)
  have far: "f x \<noteq> f (xs ! k)" if "P x" "k < length xs" "P (xs ! k)" for k
    using Cons.prems(1) that nth_mem [OF that(2)] by (auto simp: image_iff)
  have d: "distinct (map f (filter P xs))" using Cons.prems(1) by (simp split: if_splits)
  consider "i = 0" "j = 0" | j' where "i = 0" "j = Suc j'" | i' where "i = Suc i'" "j = 0" | i' j' where "i = Suc i'" "j = Suc j'"
    by (cases i; cases j) blast+
  then show ?case
  proof cases
    case (2 j')
    then show ?thesis using Cons.prems(2-6) far [of j'] by simp
  next
    case (3 i')
    then show ?thesis using Cons.prems(2-6) far [of i'] by simp
  next
    case (4 i' j')
    then show ?thesis using Cons.prems(2-6) Cons.IH [OF d, of i' j'] by simp
  qed simp
qed simp

lemma demo_arp_ok:
  assumes "length es = 10" "distinct (map arp_ipaddr (filter in_use es))" "\<forall>e \<in> set es. arp_netif e = 5 \<and> arp_q e = 0"
  shows "arp_ok (demo_arp es)"
  using assms distinct_filter_nth [OF assms(2)] by (auto simp: arp_ok_def ARP_TABLE_SIZE_def)

lemma demo_key: "arp_key (5, 0x1401a8c0) (demo_arp es)" "arp_key (5, 0x1501a8c0) (demo_arp es)"
  by (simp_all add: arp_key_def arp_unicast_def IPADDR_ANY_def ip4_addr_isbroadcast_def ip4_addr_ismulticast_def lwip_htonl_def has_flag_def
      ip4_addr_isbroadcast_u32_def demo_arp_def demo_nif_def NETIF_FLAG_BROADCAST_def IPADDR_BROADCAST_def ip4_addr_netcmp_def Let_def)

theorem arp_cache_latest_witness:
  "\<exists>s'. learn_all (arp_learn demo_fns_net) [((5, 0x1401a8c0), [2, 0, 0, 0, 0, 1]), ((5, 0x1501a8c0), [2, 0, 0, 0, 0, 2]), ((5, 0x1401a8c0), [2, 0, 0, 0, 0, 3])]
       (demo_arp (replicate 10 (demo_entry ETHARP_STATE_EMPTY 0 0))) = Some s' \<and> arp_lookup demo_fns_net (5, 0x1401a8c0) s' = Some [2, 0, 0, 0, 0, 3]"
proof -
  have "arp_ok (demo_arp (replicate 10 (demo_entry ETHARP_STATE_EMPTY 0 0)))" by (rule demo_arp_ok) (simp_all add: demo_entry_def)
  from arp_cache_latest [OF this demo_quiet, of "[((5, 0x1401a8c0), [2, 0, 0, 0, 0, 1]), ((5, 0x1501a8c0), [2, 0, 0, 0, 0, 2]), ((5, 0x1401a8c0), [2, 0, 0, 0, 0, 3])]" "(5, 0x1401a8c0)"]
  show ?thesis using demo_key by (auto simp: arp_used_def demo_entry_def ARP_TABLE_SIZE_def)
qed

lemma demo_table_upt: "[0..<10] = [0, 1, 2, 3, 4, 5, 6, 7, 8, 9 :: nat]"
  by (simp add: upt_rec)

theorem arp_recycles_oldest_witness:
  "\<exists>i s'. etharp_find_entry demo_fns_net (Some 0x1401a8c0) ETHARP_FLAG_TRY_HARD 5
       (demo_arp (map (\<lambda>i. demo_entry ETHARP_STATE_STABLE (of_nat i) (of_nat (i + 20))) [0..<10])) = Some (Inr i, s') \<and> i < ARP_TABLE_SIZE"
proof -
  let ?es = "map (\<lambda>i. demo_entry ETHARP_STATE_STABLE (of_nat i) (of_nat (i + 20))) [0..<10]"
  have "arp_ok (demo_arp ?es)" by (rule demo_arp_ok) (simp_all add: demo_entry_def demo_table_upt)
  moreover have "\<forall>e \<in> set (arp_table (demo_arp ?es)). in_use e \<and> \<not> arp_match (Some 0x1401a8c0) 5 e" by (simp add: demo_entry_def arp_match_def demo_table_upt)
  ultimately show ?thesis using arp_recycles_oldest [of "demo_arp ?es" 5 "0x1401a8c0" demo_fns_net] by auto
qed

theorem arp_entry_lifetime_witness:
  "(\<exists>s'. etharp_tmrs demo_fns_net 299 (demo_arp (demo_entry ETHARP_STATE_STABLE_REREQUESTING_1 7 0 # replicate 9 (demo_entry ETHARP_STATE_EMPTY 0 0))) = Some s' \<and>
      arp_lookup demo_fns_net (5, 7) s' = Some [2, 0, 0, 0, 0, 7]) \<and>
   (\<exists>s'. etharp_tmrs demo_fns_net 300 (demo_arp (demo_entry ETHARP_STATE_STABLE_REREQUESTING_1 7 0 # replicate 9 (demo_entry ETHARP_STATE_EMPTY 0 0))) = Some s' \<and>
      arp_lookup demo_fns_net (5, 7) s' = None)"
proof -
  let ?es = "demo_entry ETHARP_STATE_STABLE_REREQUESTING_1 7 0 # replicate 9 (demo_entry ETHARP_STATE_EMPTY 0 0)"
  have "arp_ok (demo_arp ?es)" by (rule demo_arp_ok) (auto simp: demo_entry_def)
  moreover have "arp_settled (demo_arp ?es)" by (auto simp: arp_settled_def demo_entry_def)
  moreover have "arp_hit 5 7 (arp_table (demo_arp ?es) ! 0)" "arp_ctime (arp_table (demo_arp ?es) ! 0) = 0" "arp_ethaddr (arp_table (demo_arp ?es) ! 0) = [2, 0, 0, 0, 0, 7]"
    by (simp_all add: arp_hit_def demo_entry_def stable_def)
  ultimately have "\<exists>s'. etharp_tmrs demo_fns_net k (demo_arp ?es) = Some s' \<and> arp_ok s' \<and> arp_lookup demo_fns_net (5, 7) s' = (if k < 300 then Some [2, 0, 0, 0, 0, 7] else None)" for k
    using arp_entry_lifetime [of "demo_arp ?es" 0 5 7 demo_fns_net k] by (simp only: ARP_TABLE_SIZE_def)
  from this [of 299] this [of 300] show ?thesis by auto
qed

end
