(* ===== verification/Netif.thy ===== *)
theory Netif
  imports Etharp
begin

unbundle bit_operations_syntax

text \<open>
  The network interfaces (\<open>netif.c\<close>): the list of interfaces, their numbers and names, their addresses and their state.
\<close>

subsection \<open>The list\<close>

text \<open>The first interface of the list that starts at an address for which the property holds, \<open>0\<close> for none.\<close>

partial_function (option) netif_foreach :: "(nat \<Rightarrow> bool) \<Rightarrow> (nat \<Rightarrow> netif_t) \<Rightarrow> nat \<Rightarrow> nat option" where
  "netif_foreach P N p = (if p \<noteq> 0 then if P p then Some p else netif_foreach P N (nif_next (N p)) else Some 0)"

definition upd_nif :: "nat \<Rightarrow> (netif_t \<Rightarrow> netif_t) \<Rightarrow> net \<Rightarrow> net" where
  "upd_nif n f s = s\<lparr>netifs := (netifs s)(n := f (netifs s n))\<rparr>"

definition netif_set_flags :: "nat \<Rightarrow> u8 \<Rightarrow> net \<Rightarrow> net" where
  "netif_set_flags n f s = upd_nif n (\<lambda>i. i\<lparr>nif_flags := nif_flags i OR f\<rparr>) s"

definition netif_clear_flags :: "nat \<Rightarrow> u8 \<Rightarrow> net \<Rightarrow> net" where
  "netif_clear_flags n f s = upd_nif n (\<lambda>i. i\<lparr>nif_flags := nif_flags i AND NOT f\<rparr>) s"

subsection \<open>Addresses\<close>

definition etharp_gratuitous :: "net_fns \<Rightarrow> nat \<Rightarrow> net \<Rightarrow> (err_t \<times> net) option" where
  "etharp_gratuitous F n s = etharp_request F n (nif_ip_addr (netifs s n)) s"

definition NETIF_REPORT_TYPE_IPV4 :: u8 where "NETIF_REPORT_TYPE_IPV4 = 0x01"
definition NETIF_REPORT_TYPE_IPV6 :: u8 where "NETIF_REPORT_TYPE_IPV6 = 0x02"

definition netif_issue_reports :: "net_fns \<Rightarrow> nat \<Rightarrow> u8 \<Rightarrow> net \<Rightarrow> net option" where
  "netif_issue_reports F n report_type s =
     (if \<not> has_flag NETIF_FLAG_LINK_UP n s \<or> \<not> has_flag NETIF_FLAG_UP n s then Some s
      else if report_type AND NETIF_REPORT_TYPE_IPV4 \<noteq> 0 \<and> nif_ip_addr (netifs s n) \<noteq> IPADDR_ANY
      then if has_flag NETIF_FLAG_ETHARP n s then map_option snd (etharp_gratuitous F n s) else Some s
      else Some s)"

text \<open>The modules for TCP, UDP and raw packets are told.\<close>

definition netif_do_ip_addr_changed :: "net_fns \<Rightarrow> u32 \<Rightarrow> u32 option \<Rightarrow> net \<Rightarrow> net" where
  "netif_do_ip_addr_changed F old_addr new_addr s = ip_addr_changed_call F old_addr new_addr s"

definition netif_do_set_ipaddr :: "net_fns \<Rightarrow> nat \<Rightarrow> u32 \<Rightarrow> net \<Rightarrow> (bool \<times> net) option" where
  "netif_do_set_ipaddr F n ipaddr s =
     (if ipaddr \<noteq> nif_ip_addr (netifs s n)
      then let s = netif_do_ip_addr_changed F (nif_ip_addr (netifs s n)) (Some ipaddr) s;
               s = upd_nif n (\<lambda>i. i\<lparr>nif_ip_addr := ipaddr\<rparr>) s
           in map_option (Pair True) (netif_issue_reports F n NETIF_REPORT_TYPE_IPV4 s)
      else Some (False, s))"

definition or_any :: "u32 option \<Rightarrow> u32" where
  "or_any a = (case a of None \<Rightarrow> IPADDR_ANY | Some x \<Rightarrow> x)"

definition netif_set_ipaddr :: "net_fns \<Rightarrow> nat \<Rightarrow> u32 option \<Rightarrow> net \<Rightarrow> net option" where
  "netif_set_ipaddr F n ipaddr s = (if n = 0 then Some s else map_option snd (netif_do_set_ipaddr F n (or_any ipaddr) s))"

definition netif_do_set_netmask :: "nat \<Rightarrow> u32 \<Rightarrow> net \<Rightarrow> bool \<times> net" where
  "netif_do_set_netmask n netmask s =
     (if netmask \<noteq> nif_netmask (netifs s n) then (True, upd_nif n (\<lambda>i. i\<lparr>nif_netmask := netmask\<rparr>) s) else (False, s))"

definition netif_set_netmask :: "nat \<Rightarrow> u32 option \<Rightarrow> net \<Rightarrow> net" where
  "netif_set_netmask n netmask s = (if n = 0 then s else snd (netif_do_set_netmask n (or_any netmask) s))"

definition netif_do_set_gw :: "nat \<Rightarrow> u32 \<Rightarrow> net \<Rightarrow> bool \<times> net" where
  "netif_do_set_gw n gw s = (if gw \<noteq> nif_gw (netifs s n) then (True, upd_nif n (\<lambda>i. i\<lparr>nif_gw := gw\<rparr>) s) else (False, s))"

definition netif_set_gw :: "nat \<Rightarrow> u32 option \<Rightarrow> net \<Rightarrow> net" where
  "netif_set_gw n gw s = (if n = 0 then s else snd (netif_do_set_gw n (or_any gw) s))"

text \<open>An address is set last and removed first.\<close>

definition netif_set_addr :: "net_fns \<Rightarrow> nat \<Rightarrow> u32 option \<Rightarrow> u32 option \<Rightarrow> u32 option \<Rightarrow> net \<Rightarrow> net option" where
  "netif_set_addr F n ipaddr netmask gw s =
     (let removal = (or_any ipaddr = IPADDR_ANY)
      in case (if removal then map_option snd (netif_do_set_ipaddr F n (or_any ipaddr) s) else Some s) of
           None \<Rightarrow> None
         | Some s \<Rightarrow>
             let s = snd (netif_do_set_netmask n (or_any netmask) s);
                 s = snd (netif_do_set_gw n (or_any gw) s)
             in if \<not> removal then map_option snd (netif_do_set_ipaddr F n (or_any ipaddr) s) else Some s)"

subsection \<open>Adding an interface\<close>

definition netif_null_output_ip4 :: "nat \<Rightarrow> nat \<Rightarrow> net \<Rightarrow> err_t \<times> net" where
  "netif_null_output_ip4 n p s = (ERR_IF, s)"

text \<open>The number: from the one given on, the next one no interface of the list has, \<open>0\<close> after \<open>254\<close>.\<close>

partial_function (option) netif_number :: "(nat \<Rightarrow> netif_t) \<Rightarrow> nat \<Rightarrow> nat \<Rightarrow> nat option" where
  "netif_number N lst num =
     (let num = (if num = 255 then 0 else num)
      in case netif_foreach (\<lambda>p. nif_num (N p) = num) N lst of
           None \<Rightarrow> None
         | Some p \<Rightarrow> if p \<noteq> 0 then netif_number N lst (num + 1) else Some num)"

definition netif_reset :: "nat \<Rightarrow> lwip_fn option \<Rightarrow> nat \<Rightarrow> netif_t \<Rightarrow> netif_t" where
  "netif_reset num input state i =
     i\<lparr>nif_ip_addr := 0, nif_netmask := 0, nif_gw := 0, nif_output := NETIF_NULL_OUTPUT_IP4, nif_mtu := 0, nif_flags := 0,
       nif_client_data := map (\<lambda>_. 0) (nif_client_data i), nif_state := state, nif_num := num, nif_input := input\<rparr>"

text \<open>The interface, \<open>0\<close> when its initialisation function is missing or fails.\<close>

definition netif_add :: "net_fns \<Rightarrow> nat \<Rightarrow> u32 option \<Rightarrow> u32 option \<Rightarrow> u32 option \<Rightarrow> nat \<Rightarrow> (nat \<Rightarrow> net \<Rightarrow> err_t \<times> net) option \<Rightarrow> lwip_fn option \<Rightarrow> net \<Rightarrow> (nat \<times> net) option" where
  "netif_add F n ipaddr netmask gw state init input s =
     (if n = 0 then Some (0, s)
      else case init of
        None \<Rightarrow> Some (0, s)
      | Some ini \<Rightarrow>
          (case netif_set_addr F n ipaddr netmask gw (upd_nif n (netif_reset (netif_num s) input state) s) of
             None \<Rightarrow> None
           | Some s \<Rightarrow>
               let (e, s) = ini n s
               in if e \<noteq> ERR_OK then Some (0, s)
                  else case netif_number (netifs s) (netif_list s) (nif_num (netifs s n)) of
                         None \<Rightarrow> None
                       | Some num \<Rightarrow>
                           let s = upd_nif n (\<lambda>i. i\<lparr>nif_num := num\<rparr>) s;
                               s = s\<lparr>netif_num := (if num = 254 then 0 else u8_t (num + 1))\<rparr>;
                               s = upd_nif n (\<lambda>i. i\<lparr>nif_next := netif_list s\<rparr>) s
                           in Some (n, s\<lparr>netif_list := n\<rparr>)))"

definition netif_add_noaddr :: "net_fns \<Rightarrow> nat \<Rightarrow> nat \<Rightarrow> (nat \<Rightarrow> net \<Rightarrow> err_t \<times> net) option \<Rightarrow> lwip_fn option \<Rightarrow> net \<Rightarrow> (nat \<times> net) option" where
  "netif_add_noaddr F n state init input s = netif_add F n None None None state init input s"

subsection \<open>State\<close>

definition netif_set_default :: "nat \<Rightarrow> net \<Rightarrow> net" where
  "netif_set_default n s = s\<lparr>netif_default := n\<rparr>"

definition netif_set_up :: "net_fns \<Rightarrow> nat \<Rightarrow> net \<Rightarrow> net option" where
  "netif_set_up F n s =
     (if n = 0 then Some s
      else if \<not> has_flag NETIF_FLAG_UP n s
      then netif_issue_reports F n (NETIF_REPORT_TYPE_IPV4 OR NETIF_REPORT_TYPE_IPV6) (netif_set_flags n NETIF_FLAG_UP s)
      else Some s)"

definition netif_set_down :: "net_fns \<Rightarrow> nat \<Rightarrow> net \<Rightarrow> net option" where
  "netif_set_down F n s =
     (if n = 0 then Some s
      else if has_flag NETIF_FLAG_UP n s
      then let s = netif_clear_flags n NETIF_FLAG_UP s
           in if has_flag NETIF_FLAG_ETHARP n s then etharp_cleanup_netif F n s else Some s
      else Some s)"

definition netif_set_link_up :: "net_fns \<Rightarrow> nat \<Rightarrow> net \<Rightarrow> net option" where
  "netif_set_link_up F n s =
     (if n = 0 then Some s
      else if \<not> has_flag NETIF_FLAG_LINK_UP n s
      then let s = netif_set_flags n NETIF_FLAG_LINK_UP s; s = dhcp_network_changed_call F n s
           in netif_issue_reports F n (NETIF_REPORT_TYPE_IPV4 OR NETIF_REPORT_TYPE_IPV6) s
      else Some s)"

definition netif_set_link_down :: "nat \<Rightarrow> net \<Rightarrow> net" where
  "netif_set_link_down n s =
     (if n = 0 then s else if has_flag NETIF_FLAG_LINK_UP n s then netif_clear_flags n NETIF_FLAG_LINK_UP s else s)"

definition netif_unlink :: "nat \<Rightarrow> net \<Rightarrow> net option" where
  "netif_unlink n s =
     (if netif_list s = n then Some (s\<lparr>netif_list := nif_next (netifs s n)\<rparr>)
      else case netif_foreach (\<lambda>t. nif_next (netifs s t) = n) (netifs s) (netif_list s) of
             None \<Rightarrow> None
           | Some t \<Rightarrow> if t \<noteq> 0 then Some (upd_nif t (\<lambda>i. i\<lparr>nif_next := nif_next (netifs s n)\<rparr>) s) else Some s)"

definition netif_remove :: "net_fns \<Rightarrow> nat \<Rightarrow> net \<Rightarrow> net option" where
  "netif_remove F n s =
     (if n = 0 then Some s
      else let s = (if nif_ip_addr (netifs s n) \<noteq> IPADDR_ANY then netif_do_ip_addr_changed F (nif_ip_addr (netifs s n)) None s else s)
           in case (if has_flag NETIF_FLAG_UP n s then netif_set_down F n s else Some s) of
                None \<Rightarrow> None
              | Some s \<Rightarrow> netif_unlink n (if netif_default s = n then netif_set_default 0 s else s))"

text \<open>A packet enters the stack at the layer of its interface.\<close>

definition netif_input :: "net_fns \<Rightarrow> nat \<Rightarrow> nat \<Rightarrow> net \<Rightarrow> (err_t \<times> net) option" where
  "netif_input F p n s =
     (if has_flag (NETIF_FLAG_ETHARP OR NETIF_FLAG_ETHERNET) n s then ethernet_input F p n s else Some (ERR_OK, ip4_input_call F p n s))"

subsection \<open>Names and numbers\<close>

definition netif_get_by_index :: "nat \<Rightarrow> net \<Rightarrow> nat option" where
  "netif_get_by_index idx s =
     (if idx \<noteq> 0 then netif_foreach (\<lambda>p. idx = netif_get_index (netifs s p)) (netifs s) (netif_list s) else Some 0)"

text \<open>The function \<open>atoi\<close> of the C library.\<close>

fun atoi_digits :: "int \<Rightarrow> string \<Rightarrow> int" where
  "atoi_digits v [] = v"
| "atoi_digits v (c # cs) = (if lwip_isdigit c then atoi_digits (10 * v + int (code c - 48)) cs else v)"

definition atoi :: "string \<Rightarrow> int" where
  "atoi s = (case dropWhile lwip_isspace s of
      [] \<Rightarrow> 0
    | c # cs \<Rightarrow> if c = CHR ''-'' then - atoi_digits 0 cs else if c = CHR ''+'' then atoi_digits 0 cs else atoi_digits 0 (c # cs))"

text \<open>A name is two characters and a number.\<close>

definition netif_find :: "string option \<Rightarrow> net \<Rightarrow> nat option" where
  "netif_find name s =
     (case name of
        None \<Rightarrow> Some 0
      | Some nm \<Rightarrow>
          let num = nat (atoi (drop 2 nm) mod 256)
          in netif_foreach (\<lambda>p. num = nif_num (netifs s p) \<and> nm ! 0 = nif_name (netifs s p) ! 0 \<and> nm ! 1 = nif_name (netifs s p) ! 1) (netifs s) (netif_list s))"

definition netif_name_to_index :: "string option \<Rightarrow> net \<Rightarrow> nat option" where
  "netif_name_to_index name s =
     map_option (\<lambda>p. if p \<noteq> 0 then netif_get_index (netifs s p) else 0) (netif_find name s)"

definition NETIF_NAMESIZE :: nat where "NETIF_NAMESIZE = 6"

definition netif_index_to_name :: "nat \<Rightarrow> net \<Rightarrow> string option option" where
  "netif_index_to_name idx s =
     map_option (\<lambda>p. if p \<noteq> 0
         then map_option (\<lambda>ds. [nif_name (netifs s p) ! 0, nif_name (netifs s p) ! 1] @ ds) (lwip_itoa (NETIF_NAMESIZE - 2) (int idx - 1))
         else None)
       (netif_get_by_index idx s)"

subsection \<open>The list as a list\<close>

fun nchain :: "(nat \<Rightarrow> netif_t) \<Rightarrow> nat \<Rightarrow> nat list \<Rightarrow> bool" where
  "nchain N p [] \<longleftrightarrow> p = 0"
| "nchain N p (n # ns) \<longleftrightarrow> p = n \<and> n \<noteq> 0 \<and> n \<notin> set ns \<and> nchain N (nif_next (N n)) ns"

lemma foreach_find: "nchain N p ns \<Longrightarrow> netif_foreach P N p = Some (case List.find P ns of None \<Rightarrow> 0 | Some n \<Rightarrow> n)"
proof (induction ns arbitrary: p)
  case Nil
  then show ?case by (subst netif_foreach.simps) simp
next
  case (Cons n ns)
  then show ?case by (subst netif_foreach.simps) simp
qed

lemma nchain_cong: "(\<And>n. n \<in> set ns \<Longrightarrow> nif_next (N' n) = nif_next (N n)) \<Longrightarrow> nchain N' p ns = nchain N p ns"
  by (induction ns arbitrary: p) auto

lemma nchain_0: "nchain N p ns \<Longrightarrow> 0 \<notin> set ns"
  by (induction ns arbitrary: p) auto

text \<open>The interfaces are in a list, with different numbers below 255.\<close>

definition netifs_ok :: "net \<Rightarrow> nat list \<Rightarrow> bool" where
  "netifs_ok s ns \<longleftrightarrow> nchain (netifs s) (netif_list s) ns \<and> (\<forall>n \<in> set ns. nif_num (netifs s n) < 255) \<and> distinct (map (\<lambda>n. nif_num (netifs s n)) ns) \<and> netif_num s < 255"

lemma number_step:
  assumes "nchain N lst ns" "num \<le> 255"
  shows "netif_number N lst num = (let num = num mod 255 in if num \<in> (\<lambda>n. nif_num (N n)) ` set ns then netif_number N lst (num + 1) else Some num)"
proof -
  let ?k = "num mod 255"
  have k: "(if num = 255 then 0 else num) = ?k" using assms(2) by (simp add: mod_if)
  have f: "netif_foreach (\<lambda>p. nif_num (N p) = ?k) N lst = Some (case List.find (\<lambda>p. nif_num (N p) = ?k) ns of None \<Rightarrow> 0 | Some n \<Rightarrow> n)"
    by (rule foreach_find [OF assms(1)])
  show ?thesis
  proof (cases "List.find (\<lambda>p. nif_num (N p) = ?k) ns")
    case None
    then have "?k \<notin> (\<lambda>n. nif_num (N n)) ` set ns" by (auto simp: find_None_iff)
    then show ?thesis using f None by (subst netif_number.simps) (simp add: k Let_def)
  next
    case (Some p)
    then have p: "p \<in> set ns" "nif_num (N p) = ?k" by (auto simp: find_Some_iff)
    then have "p \<noteq> 0" "?k \<in> (\<lambda>n. nif_num (N n)) ` set ns" using nchain_0 [OF assms(1)] by (metis, force)
    then show ?thesis using f Some by (subst netif_number.simps) (simp add: k Let_def)
  qed
qed

text \<open>The search goes round the numbers and meets a free one.\<close>

lemma number_search:
  assumes "nchain N lst ns" "\<And>i. i < d \<Longrightarrow> (num + i) mod 255 \<in> (\<lambda>n. nif_num (N n)) ` set ns" "(num + d) mod 255 \<notin> (\<lambda>n. nif_num (N n)) ` set ns" "num \<le> 255"
  shows "netif_number N lst num = Some ((num + d) mod 255)"
  using assms(2-4)
proof (induction d arbitrary: num)
  case 0
  then show ?case using number_step [OF assms(1) 0(3)] by (simp add: Let_def)
next
  case (Suc d)
  have "num mod 255 \<in> (\<lambda>n. nif_num (N n)) ` set ns" using Suc.prems(1) [of 0] by simp
  then have e: "netif_number N lst num = netif_number N lst (num mod 255 + 1)" using number_step [OF assms(1) Suc.prems(3)] by (simp add: Let_def)
  have m: "(num mod 255 + 1 + i) mod 255 = (num + Suc i) mod 255" for i using mod_add_left_eq [of num 255 "Suc i"] by simp
  have b: "num mod 255 + 1 \<le> 255" by (simp add: Suc_leI)
  have "netif_number N lst (num mod 255 + 1) = Some ((num mod 255 + 1 + d) mod 255)"
  proof (rule Suc.IH [OF _ _ b])
    show "(num mod 255 + 1 + i) mod 255 \<in> (\<lambda>n. nif_num (N n)) ` set ns" if "i < d" for i using Suc.prems(1) [of "Suc i"] that unfolding m by simp
    show "(num mod 255 + 1 + d) mod 255 \<notin> (\<lambda>n. nif_num (N n)) ` set ns" using Suc.prems(2) unfolding m .
  qed
  then show ?case using e m by simp
qed

lemma number_free:
  assumes "nchain N lst ns" "length ns < 255" "num \<le> 255"
  shows "\<exists>k. netif_number N lst num = Some k \<and> k < 255 \<and> k \<notin> (\<lambda>n. nif_num (N n)) ` set ns"
proof -
  let ?U = "(\<lambda>n. nif_num (N n)) ` set ns"
  have "card ?U < 255" using card_image_le [of "set ns" "\<lambda>n. nif_num (N n)"] card_length [of ns] assms(2) by simp
  then have "\<not> {..<255} \<subseteq> ?U" using card_mono [of ?U "{..<255}"] by fastforce
  then obtain k where k: "k < 255" "k \<notin> ?U" by blast
  let ?i = "(k + 255 - num mod 255) mod 255"
  have "(num + ?i) mod 255 = (num mod 255 + (k + 255 - num mod 255)) mod 255" by (metis mod_add_left_eq mod_add_right_eq)
  also have "\<dots> = k" using k(1) by (simp add: le_diff_conv less_imp_le)
  finally have ex: "\<exists>d. (num + d) mod 255 \<notin> ?U" using k(2) by metis
  define d where "d = (LEAST d. (num + d) mod 255 \<notin> ?U)"
  have "(num + d) mod 255 \<notin> ?U" unfolding d_def using LeastI_ex [OF ex] .
  moreover have "(num + i) mod 255 \<in> ?U" if "i < d" for i using not_less_Least that unfolding d_def by blast
  ultimately have "netif_number N lst num = Some ((num + d) mod 255)" using number_search [OF assms(1) _ _ assms(3), of d] by blast
  then show ?thesis using \<open>(num + d) mod 255 \<notin> ?U\<close> by simp
qed


subsection \<open>Adding\<close>

text \<open>The modules above leave the interfaces alone, and an initialisation function changes only the interface, not its number.\<close>

definition addr_quiet :: "net_fns \<Rightarrow> bool" where
  "addr_quiet F \<longleftrightarrow> (\<forall>a b s. netifs (ip_addr_changed_call F a b s) = netifs s \<and> netif_list (ip_addr_changed_call F a b s) = netif_list s \<and>
     netif_num (ip_addr_changed_call F a b s) = netif_num s)"

definition init_quiet :: "(nat \<Rightarrow> net \<Rightarrow> err_t \<times> net) \<Rightarrow> bool" where
  "init_quiet ini \<longleftrightarrow> (\<forall>n s e s'. ini n s = (e, s') \<longrightarrow> netif_list s' = netif_list s \<and> netif_num s' = netif_num s \<and>
     nif_num (netifs s' n) = nif_num (netifs s n) \<and> (\<forall>x. x \<noteq> n \<longrightarrow> netifs s' x = netifs s x))"

definition same_list :: "nat \<Rightarrow> net \<Rightarrow> net \<Rightarrow> bool" where
  "same_list n s s' \<longleftrightarrow> netif_list s' = netif_list s \<and> netif_num s' = netif_num s \<and> (\<forall>x. x \<noteq> n \<longrightarrow> netifs s' x = netifs s x)"

lemma set_ipaddr_down:
  assumes "addr_quiet F" "nif_flags (netifs s n) = 0"
  shows "\<exists>b s'. netif_do_set_ipaddr F n a s = Some (b, s') \<and> same_list n s s' \<and> netifs s' n = (netifs s n)\<lparr>nif_ip_addr := a\<rparr>"
proof (cases "a = nif_ip_addr (netifs s n)")
  case True
  then show ?thesis by (intro exI [of _ False] exI [of _ s]) (simp add: netif_do_set_ipaddr_def same_list_def)
next
  case False
  then show ?thesis using assms
    by (intro exI [of _ True]) (simp add: netif_do_set_ipaddr_def netif_issue_reports_def has_flag_def upd_nif_def netif_do_ip_addr_changed_def addr_quiet_def same_list_def)
qed

lemma set_masks:
  "same_list n s (snd (netif_do_set_netmask n a s))" "netifs (snd (netif_do_set_netmask n a s)) n = (netifs s n)\<lparr>nif_netmask := a\<rparr>"
  "same_list n s (snd (netif_do_set_gw n a s))" "netifs (snd (netif_do_set_gw n a s)) n = (netifs s n)\<lparr>nif_gw := a\<rparr>"
  by (auto simp: netif_do_set_netmask_def netif_do_set_gw_def upd_nif_def same_list_def)

lemma same_list_trans: "same_list n s t \<Longrightarrow> same_list n t u \<Longrightarrow> same_list n s u"
  by (simp add: same_list_def)

lemma set_addr_down:
  assumes q: "addr_quiet F" and f: "nif_flags (netifs s n) = 0"
  shows "\<exists>s'. netif_set_addr F n a m g s = Some s' \<and> same_list n s s' \<and>
    netifs s' n = (netifs s n)\<lparr>nif_ip_addr := or_any a, nif_netmask := or_any m, nif_gw := or_any g\<rparr>"
proof (cases "or_any a = IPADDR_ANY")
  case True
  obtain b t where t: "netif_do_set_ipaddr F n (or_any a) s = Some (b, t)" "same_list n s t" "netifs t n = (netifs s n)\<lparr>nif_ip_addr := or_any a\<rparr>"
    using set_ipaddr_down [OF q f] by blast
  let ?u = "snd (netif_do_set_gw n (or_any g) (snd (netif_do_set_netmask n (or_any m) t)))"
  have "netif_set_addr F n a m g s = Some ?u" using True t(1) by (simp add: netif_set_addr_def Let_def)
  moreover have "same_list n s ?u" using t(2) set_masks(1,3) same_list_trans by metis
  ultimately show ?thesis using t(3) by (intro exI [of _ ?u]) (simp add: set_masks)
next
  case False
  let ?t = "snd (netif_do_set_gw n (or_any g) (snd (netif_do_set_netmask n (or_any m) s)))"
  have "nif_flags (netifs ?t n) = 0" using f by (simp add: set_masks)
  from set_ipaddr_down [OF q this, of "or_any a"] obtain b u where u: "netif_do_set_ipaddr F n (or_any a) ?t = Some (b, u)" "same_list n ?t u"
    "netifs u n = (netifs ?t n)\<lparr>nif_ip_addr := or_any a\<rparr>" by blast
  have "netif_set_addr F n a m g s = Some u" using False u(1) by (simp add: netif_set_addr_def Let_def)
  moreover have "same_list n s u" using u(2) set_masks(1,3) same_list_trans by metis
  ultimately show ?thesis using u(3) by (intro exI [of _ u]) (simp add: set_masks)
qed

text \<open>C35: adding an interface to a list of fewer than 255 ends and keeps the list well formed: the interface gets a number below 255 that no other
  interface has, wherever the search starts and whatever numbers are in use, it becomes the first of the list with the given addresses, and the others are
  unchanged; when its initialisation fails the list is as before.\<close>

theorem netif_add_unique_number:
  assumes "netifs_ok s ns" "n \<noteq> 0" "n \<notin> set ns" "length ns < 255" "addr_quiet F" "init_quiet ini"
  shows "\<exists>r s'. netif_add F n a m g state (Some ini) input s = Some (r, s') \<and> (\<forall>x \<in> set ns. netifs s' x = netifs s x) \<and>
    (r = 0 \<and> netifs_ok s' ns \<or> r = n \<and> netifs_ok s' (n # ns) \<and> nif_num (netifs s' n) \<notin> (\<lambda>x. nif_num (netifs s x)) ` set ns)"
proof -
  have ok: "nchain (netifs s) (netif_list s) ns" "\<forall>x \<in> set ns. nif_num (netifs s x) < 255" "distinct (map (\<lambda>x. nif_num (netifs s x)) ns)" "netif_num s < 255"
    using assms(1) by (simp_all add: netifs_ok_def)
  let ?s0 = "upd_nif n (netif_reset (netif_num s) input state) s"
  have s0: "same_list n s ?s0" "nif_flags (netifs ?s0 n) = 0" "nif_num (netifs ?s0 n) = netif_num s"
    by (simp_all add: same_list_def upd_nif_def netif_reset_def)
  obtain s1 where s1: "netif_set_addr F n a m g ?s0 = Some s1" "same_list n ?s0 s1" "nif_num (netifs s1 n) = netif_num s"
    using set_addr_down [OF assms(5) s0(2), of a m g] s0(3) by auto
  obtain e s2 where i: "ini n s1 = (e, s2)" by fastforce
  have s2: "same_list n s1 s2" "nif_num (netifs s2 n) = netif_num s" using assms(6) i s1(3) by (simp_all add: init_quiet_def same_list_def)
  have L: "same_list n s s2" using s0(1) s1(2) s2(1) same_list_trans by metis
  have eq: "\<forall>x \<in> set ns. netifs s2 x = netifs s x" "netif_list s2 = netif_list s" "netif_num s2 = netif_num s" using L assms(3) by (auto simp: same_list_def)
  have c2: "nchain (netifs s2) (netif_list s2) ns" using ok(1) eq nchain_cong [of ns "netifs s2" "netifs s"] by simp
  have nums: "map (\<lambda>x. nif_num (netifs s2 x)) ns = map (\<lambda>x. nif_num (netifs s x)) ns" using eq(1) by simp
  show ?thesis
  proof (cases "e = ERR_OK")
    case False
    have "netifs_ok s2 ns" unfolding netifs_ok_def nums using c2 ok eq by simp
    moreover have "netif_add F n a m g state (Some ini) input s = Some (0, s2)" using assms(2) s1(1) i False by (simp add: netif_add_def)
    ultimately show ?thesis using eq(1) by blast
  next
    case True
    obtain k where k: "netif_number (netifs s2) (netif_list s2) (nif_num (netifs s2 n)) = Some k" "k < 255" "k \<notin> (\<lambda>x. nif_num (netifs s2 x)) ` set ns"
      using number_free [OF c2 assms(4), of "nif_num (netifs s2 n)"] s2(2) ok(4) by auto
    let ?f = "\<lambda>i. i\<lparr>nif_num := k, nif_next := netif_list s2\<rparr>"
    let ?s = "s2\<lparr>netifs := (netifs s2)(n := ?f (netifs s2 n)), netif_num := (if k = 254 then 0 else u8_t (k + 1)), netif_list := n\<rparr>"
    have "netif_add F n a m g state (Some ini) input s = Some (n, ?s)" using assms(2) s1(1) i True k(1) by (simp add: netif_add_def upd_nif_def Let_def)
    moreover have "netifs_ok ?s (n # ns)"
    proof -
      have at: "netifs ?s x = netifs s2 x" if "x \<in> set ns" for x using that assms(3) by auto
      have "nchain (netifs ?s) (netif_list s2) ns" using c2 at nchain_cong [of ns "netifs ?s" "netifs s2"] by simp
      moreover have "map (\<lambda>x. nif_num (netifs ?s x)) ns = map (\<lambda>x. nif_num (netifs s2 x)) ns" using at by simp
      moreover have "netif_num ?s < 255" using k(2) by (simp add: u8_t_def)
      moreover have "map (\<lambda>x. nif_num (netifs ?s x)) (n # ns) = k # map (\<lambda>x. nif_num (netifs s x)) ns" using at nums by simp
      moreover have "\<forall>x \<in> set (n # ns). nif_num (netifs ?s x) < 255" using at k(2) eq(1) ok(2) by simp
      ultimately show ?thesis unfolding netifs_ok_def using k(3) assms(2,3) ok(3) eq(1) by (simp only:) simp
    qed
    moreover have "nif_num (netifs ?s n) \<notin> (\<lambda>x. nif_num (netifs s x)) ` set ns" using k(3) eq(1) by auto
    moreover have "\<forall>x \<in> set ns. netifs ?s x = netifs s x" using eq(1) assms(3) by auto
    ultimately show ?thesis by blast
  qed
qed

subsection \<open>Removing\<close>

lemma unlink_mid:
  assumes "nchain N p (us @ t # n # vs)" "nif_next (N' t) = nif_next (N n)" "\<And>x. x \<noteq> t \<Longrightarrow> nif_next (N' x) = nif_next (N x)"
  shows "nchain N' p (us @ t # vs)"
  using assms(1)
proof (induction us arbitrary: p)
  case Nil
  have "nchain N' (nif_next (N n)) vs = nchain N (nif_next (N n)) vs" using Nil by (intro nchain_cong assms(3)) auto
  then show ?case using Nil assms(2) by auto
next
  case (Cons u us)
  then show ?case using assms(3) [of u] by auto
qed

lemma foreach_prev:
  assumes "nchain N p (us @ t # n # vs)"
  shows "netif_foreach (\<lambda>t. nif_next (N t) = n) N p = Some t"
  using assms
proof (induction us arbitrary: p)
  case Nil
  then show ?case by (subst netif_foreach.simps) simp
next
  case (Cons u us)
  have "nif_next (N u) = hd (us @ [t])" using Cons.prems by (cases us) auto
  moreover have "hd (us @ [t]) \<noteq> n" using Cons.prems by (induction us arbitrary: p) auto
  ultimately have "netif_foreach (\<lambda>t. nif_next (N t) = n) N p = netif_foreach (\<lambda>t. nif_next (N t) = n) N (nif_next (N u))"
    using Cons.prems by (subst netif_foreach.simps) auto
  then show ?case using Cons.IH [of "nif_next (N u)"] Cons.prems by simp
qed


lemma distinct_map_remove1: "distinct (map f xs) \<Longrightarrow> distinct (map f (remove1 x xs))"
  by (induction xs) (auto dest: set_remove1_subset [THEN subsetD])

lemma unlink_spec:
  assumes "nchain (netifs s) (netif_list s) ns" "n \<in> set ns"
  shows "\<exists>s'. netif_unlink n s = Some s' \<and> nchain (netifs s') (netif_list s') (remove1 n ns) \<and> netif_num s' = netif_num s \<and> netif_default s' = netif_default s \<and>
    (\<forall>x. netifs s' x = (netifs s x)\<lparr>nif_next := nif_next (netifs s' x)\<rparr>)"
proof -
  obtain us vs where d: "ns = us @ n # vs" "n \<notin> set us" using split_list_first [OF assms(2)] by blast
  have n0: "n \<noteq> 0" using nchain_0 [OF assms(1)] assms(2) by metis
  show ?thesis
  proof (cases us rule: rev_cases)
    case Nil
    then have "netif_list s = n" "nchain (netifs s) (nif_next (netifs s n)) vs" using assms(1) d by auto
    then show ?thesis using Nil d by (intro exI [of _ "s\<lparr>netif_list := nif_next (netifs s n)\<rparr>"]) (simp add: netif_unlink_def)
  next
    case (snoc ws t)
    have c: "nchain (netifs s) (netif_list s) (ws @ t # n # vs)" using assms(1) d snoc by simp
    have t0: "t \<noteq> 0" using nchain_0 [OF c] by auto
    have h: "netif_list s \<noteq> n" using c d(2) snoc by (cases ws) auto
    let ?s = "upd_nif t (\<lambda>i. i\<lparr>nif_next := nif_next (netifs s n)\<rparr>) s"
    have "netif_unlink n s = Some ?s" using h foreach_prev [OF c] t0 by (simp add: netif_unlink_def)
    moreover have "nchain (netifs ?s) (netif_list ?s) (ws @ t # vs)" using unlink_mid [OF c, of "netifs ?s"] by (simp add: upd_nif_def)
    moreover have "remove1 n ns = ws @ t # vs" using d snoc by (simp add: remove1_append)
    ultimately show ?thesis by (intro exI [of _ ?s]) (simp add: upd_nif_def)
  qed
qed

text \<open>\<open>netif_remove\<close> of an interface that is down takes exactly that interface out of the list, wherever it stands, the default route no longer
  uses it, and the numbers and names of the others stay as they are.\<close>

theorem netif_remove_unlinks:
  assumes "netifs_ok s ns" "n \<in> set ns" "addr_quiet F" "\<not> has_flag NETIF_FLAG_UP n s"
  shows "\<exists>s'. netif_remove F n s = Some s' \<and> netifs_ok s' (remove1 n ns) \<and> n \<notin> set (remove1 n ns) \<and> netif_default s' \<noteq> n \<and>
    (\<forall>x. nif_num (netifs s' x) = nif_num (netifs s x) \<and> nif_name (netifs s' x) = nif_name (netifs s x))"
proof -
  have ok: "nchain (netifs s) (netif_list s) ns" "\<forall>x \<in> set ns. nif_num (netifs s x) < 255" "distinct (map (\<lambda>x. nif_num (netifs s x)) ns)" "netif_num s < 255"
    using assms(1) by (simp_all add: netifs_ok_def)
  have n0: "n \<noteq> 0" using nchain_0 [OF ok(1)] assms(2) by metis
  let ?s1 = "if nif_ip_addr (netifs s n) \<noteq> IPADDR_ANY then netif_do_ip_addr_changed F (nif_ip_addr (netifs s n)) None s else s"
  let ?s2 = "if netif_default ?s1 = n then netif_set_default 0 ?s1 else ?s1"
  have E1: "netifs ?s1 = netifs s" "netif_list ?s1 = netif_list s" "netif_num ?s1 = netif_num s"
    using assms(3) by (simp_all add: netif_do_ip_addr_changed_def addr_quiet_def)
  then have E2: "netifs ?s2 = netifs s" "netif_list ?s2 = netif_list s" "netif_num ?s2 = netif_num s" "netif_default ?s2 \<noteq> n"
    using n0 by (simp_all add: netif_set_default_def)
  obtain s' where u: "netif_unlink n ?s2 = Some s'" "nchain (netifs s') (netif_list s') (remove1 n ns)" "netif_num s' = netif_num ?s2" "netif_default s' = netif_default ?s2"
    "\<forall>x. netifs s' x = (netifs ?s2 x)\<lparr>nif_next := nif_next (netifs s' x)\<rparr>" using unlink_spec [of ?s2 ns n] ok(1) assms(2) E2 by metis
  have "\<not> has_flag NETIF_FLAG_UP n ?s1" using assms(4) E1(1) by (simp add: has_flag_def)
  then have r: "netif_remove F n s = Some s'" using n0 u(1) by (simp add: netif_remove_def)
  have f: "nif_num (netifs s' x) = nif_num (netifs s x)" "nif_name (netifs s' x) = nif_name (netifs s x)" for x
    using u(5) [rule_format, of x] E2(1) by (metis netif_t.select_convs netif_t.surjective netif_t.update_convs(1))+
  have "netifs_ok s' (remove1 n ns)" unfolding netifs_ok_def f using u(2,3) ok(2,4) E2(3) distinct_map_remove1 [OF ok(3)] by (auto dest: notin_set_remove1)
  then show ?thesis using r f u(4) E2(4) distinct_map [of "\<lambda>x. nif_num (netifs s x)" ns] ok(3) by auto
qed


subsection \<open>Names\<close>

lemma atoi_digits_snoc: "\<forall>c \<in> set ds. lwip_isdigit c \<Longrightarrow> lwip_isdigit d \<Longrightarrow> atoi_digits v (ds @ [d]) = 10 * atoi_digits v ds + int (code d - 48)"
  by (induction ds arbitrary: v) simp_all

lemma atoi_digits_dec: "atoi_digits 0 (dec n) = int n"
proof (induction n rule: dec.induct)
  case (1 n)
  show ?case
  proof (cases "n < 10")
    case True
    then show ?thesis by (simp add: dec_small isdigit_digit code_digit)
  next
    case False
    have "dec n = dec (n div 10) @ [digit (n mod 10)]" using False by (simp add: dec.simps [of n])
    then have "atoi_digits 0 (dec n) = 10 * int (n div 10) + int (n mod 10)"
      using 1 False atoi_digits_snoc [of "dec (n div 10)" "digit (n mod 10)" 0] dec_digits by (simp add: isdigit_digit code_digit)
    then show ?thesis by presburger
  qed
qed

lemma atoi_dec: "atoi (dec n) = int n"
proof -
  obtain c cs where c: "dec n = c # cs" using dec_nonempty [of n] by (cases "dec n") auto
  have d: "lwip_isdigit c" using dec_digits [of c n] c by simp
  have "code c \<noteq> code (CHR ''-'')" "code c \<noteq> code (CHR ''+'')" using d by (simp_all add: isdigit_iff code_def)
  then have "c \<noteq> CHR ''-''" "c \<noteq> CHR ''+''" by auto
  moreover have "\<not> lwip_isspace c" using d by (auto simp: isdigit_iff lwip_isspace_def)
  ultimately show ?thesis using atoi_digits_dec [of n] c by (simp add: atoi_def)
qed

lemma dec_short: "n < 1000 \<Longrightarrow> length (dec n) \<le> 3"
proof -
  have step: "length (dec k) \<le> Suc (length (dec (k div 10)))" for k by (cases "k < 10") (simp_all add: dec_small dec.simps [of k])
  assume "n < 1000"
  then have "n div 10 div 10 < 10" by simp
  then show ?thesis using step [of n] step [of "n div 10"] dec_small [of "n div 10 div 10"] by simp
qed

lemma get_index: "nif_num i < 255 \<Longrightarrow> netif_get_index i = nif_num i + 1"
  unfolding netif_get_index_def u8_t_def by (rule mod_less) simp

lemma find_unique:
  assumes "n \<in> set ns" "P n" "\<And>x. x \<in> set ns \<Longrightarrow> P x \<Longrightarrow> x = n"
  shows "List.find P ns = Some n"
proof (cases "List.find P ns")
  case None
  then show ?thesis using assms(1,2) by (metis find_None_iff)
next
  case (Some x)
  then have "x \<in> set ns" "P x" by (auto simp: find_Some_iff)
  then show ?thesis using assms(3) Some by blast
qed

text \<open>C36: every interface of the list has a name and an index that stand for it: its index gives the name of two letters and its number, the name gives the interface
  and its index back, also for the numbers up to 254.\<close>

theorem netif_name_roundtrip:
  assumes "netifs_ok s ns" "n \<in> set ns" "idx = netif_get_index (netifs s n)"
  shows "\<exists>nm. netif_index_to_name idx s = Some (Some nm) \<and> netif_find (Some nm) s = Some n \<and> netif_name_to_index (Some nm) s = Some idx \<and> netif_get_by_index idx s = Some n"
proof -
  let ?k = "nif_num (netifs s n)"
  have ok: "nchain (netifs s) (netif_list s) ns" "\<forall>x \<in> set ns. nif_num (netifs s x) < 255" and di: "distinct (map (\<lambda>x. nif_num (netifs s x)) ns)"
    using assms(1) by (simp_all add: netifs_ok_def)
  have n0: "n \<noteq> 0" using nchain_0 [OF ok(1)] assms(2) by metis
  have k: "?k < 255" "idx = ?k + 1" using ok(2) assms(2,3) get_index by auto
  have inj: "x = n" if "x \<in> set ns" "nif_num (netifs s x) = ?k" for x using di that assms(2) by (auto simp: distinct_map dest: inj_onD)
  have "List.find (\<lambda>p. idx = netif_get_index (netifs s p)) ns = Some n"
    using assms(2,3) ok(2) k inj by (intro find_unique) (auto simp: get_index)
  then have g: "netif_get_by_index idx s = Some n" using foreach_find [OF ok(1)] k by (simp add: netif_get_by_index_def)
  let ?ds = "dec ?k" and ?nm = "[nif_name (netifs s n) ! 0, nif_name (netifs s n) ! 1] @ dec (nif_num (netifs s n))"
  have "lwip_itoa (NETIF_NAMESIZE - 2) (int idx - 1) = Some ?ds" using itoa_spec [of 4 "int idx - 1"] k dec_short [of ?k] by (simp add: NETIF_NAMESIZE_def Let_def)
  then have i: "netif_index_to_name idx s = Some (Some ?nm)" using g n0 by (simp add: netif_index_to_name_def)
  have a: "nat (atoi (drop 2 ?nm) mod 256) = ?k" using k by (simp add: atoi_dec nat_mod_distrib)
  have "List.find (\<lambda>p. ?k = nif_num (netifs s p) \<and> ?nm ! 0 = nif_name (netifs s p) ! 0 \<and> ?nm ! 1 = nif_name (netifs s p) ! 1) ns = Some n"
  proof (rule find_unique [OF assms(2)])
    show "x = n" if "x \<in> set ns" "?k = nif_num (netifs s x) \<and> ?nm ! 0 = nif_name (netifs s x) ! 0 \<and> ?nm ! 1 = nif_name (netifs s x) ! 1" for x
      using inj [OF that(1)] that(2) by presburger
  qed simp
  then have f: "netif_find (Some ?nm) s = Some n" unfolding netif_find_def Let_def option.case a foreach_find [OF ok(1)] by (simp only: option.case)
  have "netif_name_to_index (Some ?nm) s = Some idx" unfolding netif_name_to_index_def f using n0 assms(3) by simp
  then show ?thesis using i f g by blast
qed

subsection \<open>Examples\<close>

definition demo_if :: "nat \<Rightarrow> nat \<Rightarrow> netif_t" where
  "demo_if num nxt = \<lparr>nif_next = nxt, nif_ip_addr = 0, nif_netmask = 0, nif_gw = 0, nif_input = None, nif_output = ETHARP_OUTPUT,
     nif_linkoutput = LOW_LEVEL_OUTPUT, nif_state = 0, nif_client_data = [], nif_hostname = 0, nif_mtu = 1500, nif_hwaddr = [2, 0, 0, 0, 0, 1],
     nif_hwaddr_len = 6, nif_flags = 0x0a, nif_name = ''st'', nif_num = num\<rparr>"

definition demo_netifs :: net where
  "demo_netifs = \<lparr>nlw = demo_lwip, netifs = (\<lambda>_. demo_if 0 0)(5 := demo_if 254 6, 6 := demo_if 0 0), netif_list = 5, netif_default = 6, netif_num = 254,
     arp_table = [], etharp_cached_entry = 0\<rparr>"

definition demo_if_fns :: net_fns where
  "demo_if_fns = \<lparr>linkoutput_call = \<lambda>_ _ s. (ERR_OK, s), ip4_input_call = \<lambda>_ _ s. s, dhcp_arp_reply_call = \<lambda>_ _ s. s, dhcp_network_changed_call = \<lambda>_ s. s,
     ip_addr_changed_call = \<lambda>_ _ s. s, net_custom_free = \<lambda>_ l. l, alloc_gaps = window id\<rparr>"

lemma demo_netifs_ok: "netifs_ok demo_netifs [5, 6]" "addr_quiet demo_if_fns"
  by (simp_all add: netifs_ok_def demo_netifs_def demo_if_def addr_quiet_def demo_if_fns_def)

theorem netif_add_unique_number_witness:
  "\<exists>r s'. netif_add demo_if_fns 7 (Some 0) None None 0 (Some (\<lambda>n s. (ERR_OK, s))) None demo_netifs = Some (r, s') \<and> (r = 0 \<or> netifs_ok s' [7, 5, 6])"
proof -
  have "init_quiet (\<lambda>n s. (ERR_OK, s))" by (simp add: init_quiet_def)
  from netif_add_unique_number [OF demo_netifs_ok(1) _ _ _ demo_netifs_ok(2) this, of 7 "Some 0" None None 0 None] show ?thesis by auto
qed

theorem netif_remove_unlinks_witness: "\<exists>s'. netif_remove demo_if_fns 6 demo_netifs = Some s' \<and> netifs_ok s' [5] \<and> netif_default s' \<noteq> 6"
  using netif_remove_unlinks [OF demo_netifs_ok(1) _ demo_netifs_ok(2), of 6] by (auto simp: has_flag_def demo_netifs_def demo_if_def NETIF_FLAG_UP_def)

theorem netif_name_roundtrip_witness: "\<exists>nm. netif_index_to_name 255 demo_netifs = Some (Some nm) \<and> netif_name_to_index (Some nm) demo_netifs = Some 255"
  using netif_name_roundtrip [OF demo_netifs_ok(1), of 5 255] by (auto simp: demo_netifs_def demo_if_def netif_get_index_def u8_t_def)

end
