(* ===== verification/EthernetIf.thy ===== *)
theory EthernetIf
  imports Etharp PbufWrite
begin

unbundle bit_operations_syntax

text \<open>
  The Ethernet driver of the firmware (\<open>port/ethernetif.c\<close>): the pool of receive buffers, the callbacks with which the hardware library
  hands over fragments of frames, and the function that sends a packet. The hardware library is a parameter.
\<close>

subsection \<open>State and parameters\<close>

text \<open>What the headers of the hardware library fix: the number and size of the receive buffers, and where the array stands.\<close>

record eth_cfg =
  RX_POOL_SIZE :: nat
  ETH_MAX_PACKET_SIZE :: nat
  RxBuf_base :: nat
  MACAddr :: eth_addr

record ethif =
  eth_net :: net
  RxBufInUse :: "bool list"
  ethernetif_rx_count :: u32
  ethernetif_rx_drop :: u32

definition RxBuf :: "eth_cfg \<Rightarrow> nat \<Rightarrow> nat" where
  "RxBuf c i = RxBuf_base c + i * ETH_MAX_PACKET_SIZE c"

text \<open>The calls of the hardware library: reading a frame, which runs the callbacks, and sending a list of regions.\<close>

record eth_hal =
  HAL_ETH_ReadData :: "ethif \<Rightarrow> (bool \<times> nat \<times> ethif) option"
  HAL_ETH_Transmit :: "(nat \<times> nat) list \<Rightarrow> nat \<Rightarrow> nat \<Rightarrow> net \<Rightarrow> bool \<times> net"
  HAL_ETH_ReleaseTxPacket :: "net \<Rightarrow> net"

definition on_net_lw :: "(lwip \<Rightarrow> lwip) \<Rightarrow> ethif \<Rightarrow> ethif" where
  "on_net_lw f s = s\<lparr>eth_net := on_nlw f (eth_net s)\<rparr>"

subsection \<open>Receive buffers\<close>

text \<open>The address of a buffer that is now in use, \<open>0\<close> when there is none.\<close>

definition HAL_ETH_RxAllocateCallback :: "eth_cfg \<Rightarrow> ethif \<Rightarrow> nat \<times> ethif" where
  "HAL_ETH_RxAllocateCallback c s =
     (case List.find (\<lambda>i. \<not> RxBufInUse s ! i) [0..<RX_POOL_SIZE c] of
        Some i \<Rightarrow> (RxBuf c i, s\<lparr>RxBufInUse := (RxBufInUse s)[i := True]\<rparr>)
      | None \<Rightarrow> (0, s))"

definition rx_buf_release :: "eth_cfg \<Rightarrow> nat \<Rightarrow> ethif \<Rightarrow> ethif" where
  "rx_buf_release c buff s =
     (case List.find (\<lambda>i. buff = RxBuf c i) [0..<RX_POOL_SIZE c] of
        Some i \<Rightarrow> s\<lparr>RxBufInUse := (RxBufInUse s)[i := False]\<rparr>
      | None \<Rightarrow> s)"

text \<open>A fragment is copied into a packet buffer, which is appended to the chain of the frame: the new start and end of the chain.\<close>

definition HAL_ETH_RxLinkCallback :: "eth_cfg \<Rightarrow> net_fns \<Rightarrow> nat \<Rightarrow> nat \<Rightarrow> nat \<Rightarrow> nat \<Rightarrow> ethif \<Rightarrow> (nat \<times> nat \<times> ethif) option" where
  "HAL_ETH_RxLinkCallback c F pStart pEnd buff len s =
     (case pbuf_alloc (net_custom_free F) (alloc_gaps F) PBUF_RAW len PBUF_POOL (nlw (eth_net s)) of
        None \<Rightarrow> None
      | Some (p, l) \<Rightarrow>
          let s = rx_buf_release c buff (on_net_lw (\<lambda>_. l) s)
          in if p = 0 then Some (pStart, pEnd, s)
             else case pbuf_take p (read_bytes buff len (lmem (nlw (eth_net s)))) (nlw (eth_net s)) of
                    None \<Rightarrow> None
                  | Some (_, l) \<Rightarrow>
                      let s = on_net_lw (\<lambda>_. upd_pbuf p (\<lambda>b. b\<lparr>pbuf_next := 0\<rparr>) l) s
                      in if pStart = 0 then Some (p, p, s)
                         else map_option (\<lambda>l. (pStart, p, on_net_lw (\<lambda>_. l) s)) (pbuf_chain pStart p (nlw (eth_net s))))"

definition HAL_ETH_TxFreeCallback :: "net_fns \<Rightarrow> nat \<Rightarrow> ethif \<Rightarrow> ethif option" where
  "HAL_ETH_TxFreeCallback F buff s = map_option (\<lambda>n. s\<lparr>eth_net := n\<rparr>) (net_free F buff (eth_net s))"

subsection \<open>Sending\<close>

text \<open>The regions of the first buffers of a packet, at most \<open>k\<close> of them.\<close>

fun tx_buffers :: "nat \<Rightarrow> (nat \<Rightarrow> pbuf) \<Rightarrow> nat \<Rightarrow> (nat \<times> nat) list" where
  "tx_buffers 0 P q = []"
| "tx_buffers (Suc k) P q = (if q \<noteq> 0 then (payload (P q), pbuf_len (P q)) # tx_buffers k P (pbuf_next (P q)) else [])"

definition low_level_output :: "eth_hal \<Rightarrow> nat \<Rightarrow> nat \<Rightarrow> net \<Rightarrow> err_t \<times> net" where
  "low_level_output H n p s =
     (let (ok, s) = HAL_ETH_Transmit H (tx_buffers 5 (pbufs (nlw s)) p) (tot_len (pbufs (nlw s) p)) p s
      in (if ok then ERR_OK else ERR_IF, HAL_ETH_ReleaseTxPacket H s))"

subsection \<open>Initialisation and polling\<close>

definition ETH_HWADDR_LEN :: nat where "ETH_HWADDR_LEN = 6"

definition ethernetif_init :: "eth_cfg \<Rightarrow> nat \<Rightarrow> net \<Rightarrow> err_t \<times> net" where
  "ethernetif_init c n s =
     (ERR_OK, s\<lparr>netifs := (netifs s)(n := (netifs s n)\<lparr>nif_name := ''st'', nif_output := ETHARP_OUTPUT, nif_linkoutput := LOW_LEVEL_OUTPUT,
        nif_mtu := 1500, nif_flags := NETIF_FLAG_BROADCAST OR NETIF_FLAG_ETHARP, nif_hwaddr_len := ETH_HWADDR_LEN,
        nif_hwaddr := take ETH_HWADDR_LEN (MACAddr c)\<rparr>)\<rparr>)"

text \<open>The frames that are there are passed to \<open>netif->input\<close>; a refused one is freed and counted. While frames keep arriving
  the loop does not end.\<close>

definition poll_frame :: "net_fns \<Rightarrow> (nat \<Rightarrow> nat \<Rightarrow> net \<Rightarrow> (err_t \<times> net) option) \<Rightarrow> nat \<Rightarrow> nat \<Rightarrow> ethif \<Rightarrow> ethif option" where
  "poll_frame F inp n p s =
     (let s = s\<lparr>ethernetif_rx_count := ethernetif_rx_count s + 1\<rparr>
      in case inp p n (eth_net s) of
           None \<Rightarrow> None
         | Some (err, t) \<Rightarrow>
             let s = s\<lparr>eth_net := t\<rparr>
             in if err \<noteq> ERR_OK
                then map_option (\<lambda>t. s\<lparr>eth_net := t, ethernetif_rx_drop := ethernetif_rx_drop s + 1\<rparr>) (net_free F p (eth_net s))
                else Some s)"

partial_function (option) ethernetif_poll :: "eth_hal \<Rightarrow> net_fns \<Rightarrow> (nat \<Rightarrow> nat \<Rightarrow> net \<Rightarrow> (err_t \<times> net) option) \<Rightarrow> nat \<Rightarrow> ethif \<Rightarrow> ethif option" where
  "ethernetif_poll H F inp n s =
     (case HAL_ETH_ReadData H s of
        None \<Rightarrow> None
      | Some (ok, p, s) \<Rightarrow>
          if ok \<and> p \<noteq> 0 then (case poll_frame F inp n p s of None \<Rightarrow> None | Some s \<Rightarrow> ethernetif_poll H F inp n s)
          else Some s)"

text \<open>The input function the firmware gives its interface.\<close>

definition firmware_input :: "gaps \<Rightarrow> nat \<Rightarrow> nat \<Rightarrow> net \<Rightarrow> (err_t \<times> net) option" where
  "firmware_input g p n s = (let (e, l) = tcpip_input g (has_flag (NETIF_FLAG_ETHARP OR NETIF_FLAG_ETHERNET) n s) p n (nlw s) in Some (e, s\<lparr>nlw := l\<rparr>))"


subsection \<open>A fragment\<close>

text \<open>The addresses of the receive buffers differ.\<close>

lemma RxBuf_inj: "0 < ETH_MAX_PACKET_SIZE c \<Longrightarrow> RxBuf c i = RxBuf c j \<longleftrightarrow> i = j"
  by (simp add: RxBuf_def)

lemma rx_release: "0 < ETH_MAX_PACKET_SIZE c \<Longrightarrow> i < RX_POOL_SIZE c \<Longrightarrow> rx_buf_release c (RxBuf c i) s = s\<lparr>RxBufInUse := (RxBufInUse s)[i := False]\<rparr>"
proof -
  assume c: "0 < ETH_MAX_PACKET_SIZE c" "i < RX_POOL_SIZE c"
  have "List.find (\<lambda>j. RxBuf c i = RxBuf c j) [0..<RX_POOL_SIZE c] = Some i" unfolding find_Some_iff using c by (intro exI [of _ i]) (simp add: RxBuf_inj)
  then show ?thesis by (simp add: rx_buf_release_def)
qed

lemma eth_net_simps [simp]: "nlw (eth_net (on_net_lw f s)) = f (nlw (eth_net s))" "RxBufInUse (on_net_lw f s) = RxBufInUse s"
  "eth_net (s\<lparr>RxBufInUse := b\<rparr>) = eth_net s"
  by (simp_all add: on_net_lw_def on_nlw_def)

lemma nbufs_frame: "len \<le> 1528 \<Longrightarrow> nbufs len (layer_offset PBUF_RAW) = 1"
  by (simp add: nbufs_def PBUF_POOL_BUFSIZE_ALIGNED_def LWIP_MEM_ALIGN_SIZE_def MEM_ALIGNMENT_def)

text \<open>The buffer of a fragment: taken from the pool, with the bytes of the receive buffer.\<close>

definition frag_of :: "nat \<Rightarrow> (memp_t \<Rightarrow> nat list) \<Rightarrow> (nat \<times> nat) set \<Rightarrow> nat \<Rightarrow> u8 list \<Rightarrow> lwip \<Rightarrow> lwip \<Rightarrow> bool" where
  "frag_of base L R q bs l l' \<longleftrightarrow> packet (pbufs l') q [q] \<and> tot_len (pbufs l' q) = length bs \<and> chain_bytes (pbufs l') (lmem l') [q] = bs \<and> pbuf_ref (pbufs l' q) = 1 \<and>
     buf_mem base l' (L(MEMP_PBUF_POOL := tl (L MEMP_PBUF_POOL))) R \<and> pbuf_owned l' (L(MEMP_PBUF_POOL := tl (L MEMP_PBUF_POOL))) R q \<and>
     pbuf_get_allocsrc (pbufs l' q) = 2 \<and> (\<forall>x. x \<noteq> q \<longrightarrow> pbufs l' x = pbufs l x)"

lemma frag_alloc:
  assumes bm: "buf_mem base l L R" and al: "\<forall>x \<in> set (L MEMP_PBUF_POOL). 4 dvd x" and L: "L MEMP_PBUF_POOL = q # rest" and n: "len \<le> 1528"
  shows "\<exists>l1 l2. pbuf_alloc cf g PBUF_RAW len PBUF_POOL l = Some (q, l1) \<and> q \<noteq> 0 \<and> lmem l1 = lmem l \<and>
    pbuf_take q (read_bytes a len (lmem l)) l1 = Some (ERR_OK, l2) \<and> frag_of base L R q (read_bytes a len (lmem l)) l (upd_pbuf q (\<lambda>b. b\<lparr>pbuf_next := 0\<rparr>) l2)"
proof -
  obtain l1 where a: "pbuf_alloc cf g PBUF_RAW len PBUF_POOL l = Some (q, l1)"
    "allocated base l L R q [q] len l1 (L(MEMP_PBUF_POOL := rest)) R"
    using pool_alloc_ok [OF bm al, of len PBUF_RAW cf g] n unfolding nbufs_frame [OF n] by (auto simp: L)
  have A: "packet (pbufs l1) q [q]" "pbuf_len (pbufs l1 q) = len" "buf_mem base l1 (L(MEMP_PBUF_POOL := rest)) R" "pbuf_owned l1 (L(MEMP_PBUF_POOL := rest)) R q"
    "pbuf_ref (pbufs l1 q) = 1" "\<forall>x. x \<noteq> q \<longrightarrow> pbufs l1 x = pbufs l x" "lmem l1 = lmem l" and bk: "\<forall>t. set (back_to (pbufs l1) [q] (L(MEMP_PBUF_POOL := rest)) t) = set (L t)"
    using a(2) by (simp_all add: allocated_def del: back_to.simps)
  have q: "q \<noteq> 0" "pbuf_next (pbufs l1 q) = 0" "tot_len (pbufs l1 q) = len" using A(1,2) by (simp_all add: packet_def)
  have src: "pbuf_get_allocsrc (pbufs l1 q) = 2"
  proof (rule ccontr)
    assume n2: "pbuf_get_allocsrc (pbufs l1 q) \<noteq> 2"
    then have "set rest = set (q # rest)" using bk [rule_format, of MEMP_PBUF_POOL] by (simp add: L split: if_splits)
    moreover have "q \<notin> set rest" using A(4) by (auto simp: pbuf_owned_def dest: spec [of _ MEMP_PBUF_POOL])
    ultimately show False by (metis list.set_intros(1))
  qed
  let ?bs = "read_bytes a len (lmem l)"
  obtain m' where m: "pbuf_take q ?bs l1 = Some (ERR_OK, l1\<lparr>lmem := m'\<rparr>)"
    "chain_bytes (pbufs l1) m' [q] = put_slice 0 ?bs (chain_bytes (pbufs l1) (lmem l1) [q])"
    using take_spec [OF A(1) q(1), of "[]" ?bs] q(3) by (auto simp: read_bytes_def)
  have b: "chain_bytes (pbufs l1) m' [q] = ?bs" using m(2) A(2) by (simp add: put_slice_def read_bytes_def)
  have id: "upd_pbuf q (\<lambda>b. b\<lparr>pbuf_next := 0\<rparr>) (l1\<lparr>lmem := m'\<rparr>) = l1\<lparr>lmem := m'\<rparr>"
    using q(2) by (intro lwip.equality) (auto simp: upd_pbuf_def fun_eq_iff)
  have "frag_of base L R q ?bs l (l1\<lparr>lmem := m'\<rparr>)" unfolding frag_of_def using A q(3) src b by (simp add: L buf_mem_def pbuf_owned_def read_bytes_def)
  then have "frag_of base L R q ?bs l (upd_pbuf q (\<lambda>b. b\<lparr>pbuf_next := 0\<rparr>) (l1\<lparr>lmem := m'\<rparr>))" unfolding id .
  then show ?thesis using a(1) q(1) A(7) m(1) by blast
qed

lemma first_fragment:
  assumes "buf_mem base (nlw (eth_net s)) L R" "\<forall>x \<in> set (L MEMP_PBUF_POOL). 4 dvd x" "L MEMP_PBUF_POOL = q # rest" "len \<le> 1528"
    "0 < ETH_MAX_PACKET_SIZE c" "i < RX_POOL_SIZE c"
  shows "\<exists>s'. HAL_ETH_RxLinkCallback c F 0 e (RxBuf c i) len s = Some (q, q, s') \<and> RxBufInUse s' = (RxBufInUse s)[i := False] \<and>
    frag_of base L R q (read_bytes (RxBuf c i) len (lmem (nlw (eth_net s)))) (nlw (eth_net s)) (nlw (eth_net s'))"
proof -
  obtain l1 l2 where f: "pbuf_alloc (net_custom_free F) (alloc_gaps F) PBUF_RAW len PBUF_POOL (nlw (eth_net s)) = Some (q, l1)" "q \<noteq> 0" "lmem l1 = lmem (nlw (eth_net s))"
    "pbuf_take q (read_bytes (RxBuf c i) len (lmem (nlw (eth_net s)))) l1 = Some (ERR_OK, l2)"
    "frag_of base L R q (read_bytes (RxBuf c i) len (lmem (nlw (eth_net s)))) (nlw (eth_net s)) (upd_pbuf q (\<lambda>b. b\<lparr>pbuf_next := 0\<rparr>) l2)"
    using frag_alloc [OF assms(1-4), of "net_custom_free F" "alloc_gaps F" "RxBuf c i"] by blast
  then show ?thesis using rx_release [OF assms(5,6)] by (simp add: HAL_ETH_RxLinkCallback_def Let_def)
qed

text \<open>C37: the driver receives a frame without loss and gives its receive buffer back: with a free buffer in the pool of the stack the callback
  returns a packet of one buffer whose bytes are exactly those of the receive buffer, which is free again while the others
  keep their state; when the pool is empty the chain of the frame is unchanged, nothing leaks, and the
  receive buffer is free again just the same.\<close>

theorem rx_frame_received:
  assumes "buf_mem base (nlw (eth_net s)) L R" "\<forall>x \<in> set (L MEMP_PBUF_POOL). 4 dvd x" "len \<le> 1528" "0 < ETH_MAX_PACKET_SIZE c" "i < RX_POOL_SIZE c"
  shows "case L MEMP_PBUF_POOL of
      q # rest \<Rightarrow> \<exists>s'. HAL_ETH_RxLinkCallback c F 0 e (RxBuf c i) len s = Some (q, q, s') \<and> RxBufInUse s' = (RxBufInUse s)[i := False] \<and>
        packet (pbufs (nlw (eth_net s'))) q [q] \<and> buf_mem base (nlw (eth_net s')) (L(MEMP_PBUF_POOL := rest)) R \<and>
        chain_bytes (pbufs (nlw (eth_net s'))) (lmem (nlw (eth_net s'))) [q] = read_bytes (RxBuf c i) len (lmem (nlw (eth_net s)))
    | [] \<Rightarrow> \<exists>s' L'. HAL_ETH_RxLinkCallback c F h e (RxBuf c i) len s = Some (h, e, s') \<and> RxBufInUse s' = (RxBufInUse s)[i := False] \<and>
        buf_mem base (nlw (eth_net s')) L' R \<and> L' MEMP_PBUF_POOL = [] \<and> lmem (nlw (eth_net s')) = lmem (nlw (eth_net s)) \<and> pbufs (nlw (eth_net s')) = pbufs (nlw (eth_net s))"
proof (cases "L MEMP_PBUF_POOL")
  case (Cons q rest)
  then show ?thesis using first_fragment [OF assms(1,2) Cons assms(3-5), of F e] by (auto simp: frag_of_def)
next
  case Nil
  have "building (pbufs (nlw (eth_net s))) 0 0 [] len" by (simp add: building_def)
  from alloc_pool_fail [OF this assms(1) Nil, of 0 "net_custom_free F" "alloc_gaps F"]
  obtain l' L' where a: "pbuf_alloc (net_custom_free F) (alloc_gaps F) PBUF_RAW len PBUF_POOL (nlw (eth_net s)) = Some (0, l')" "buf_mem base l' L' R" "L' MEMP_PBUF_POOL = []"
    "lmem l' = lmem (nlw (eth_net s))" "pbufs l' = pbufs (nlw (eth_net s))" using nbufs_frame [OF assms(3)] by (auto simp: pbuf_alloc_def fun_eq_iff)
  then show ?thesis using rx_release [OF assms(4,5)] Nil by (auto simp: HAL_ETH_RxLinkCallback_def Let_def)
qed


text \<open>C38: a frame of two fragments leaks a buffer. \<open>pbuf_chain\<close> gives the second buffer one more reference, which nobody has: after the
  stack has freed the packet the first buffer is back in the pool and the second is not, with a reference count of 1 and no owner.\<close>

theorem second_fragment_leaks:
  assumes "buf_mem base (nlw (eth_net s)) L R" "\<forall>x \<in> set (L MEMP_PBUF_POOL). 4 dvd x" "L MEMP_PBUF_POOL = q # r # rest" "len1 \<le> 1528" "len2 \<le> 1528"
    "0 < ETH_MAX_PACKET_SIZE c" "i < RX_POOL_SIZE c" "j < RX_POOL_SIZE c"
  shows "\<exists>s1 s2 t. HAL_ETH_RxLinkCallback c F 0 0 (RxBuf c i) len1 s = Some (q, q, s1) \<and> HAL_ETH_RxLinkCallback c F q q (RxBuf c j) len2 s1 = Some (q, r, s2) \<and>
    packet (pbufs (nlw (eth_net s2))) q [q, r] \<and> net_free F q (eth_net s2) = Some t \<and>
    buf_mem base (nlw t) (L(MEMP_PBUF_POOL := q # rest)) R \<and> r \<notin> set (q # rest) \<and> pbuf_ref (pbufs (nlw t) r) = 1"
proof -
  let ?L1 = "L(MEMP_PBUF_POOL := r # rest)" and ?L2 = "L(MEMP_PBUF_POOL := rest)"
  obtain s1 where s1: "HAL_ETH_RxLinkCallback c F 0 0 (RxBuf c i) len1 s = Some (q, q, s1)"
    and f1: "frag_of base L R q (read_bytes (RxBuf c i) len1 (lmem (nlw (eth_net s)))) (nlw (eth_net s)) (nlw (eth_net s1))"
    using first_fragment [OF assms(1-3,4,6,7), of F 0] by blast
  note F1 = f1 [unfolded frag_of_def]
  have b1: "buf_mem base (nlw (eth_net s1)) ?L1 R" "pbuf_owned (nlw (eth_net s1)) ?L1 R q" using F1 assms(3) by simp_all
  have al: "\<forall>x \<in> set (?L1 MEMP_PBUF_POOL). 4 dvd x" "?L1 MEMP_PBUF_POOL = r # rest" using assms(2,3) by simp_all
  have qr: "q \<noteq> r" "q \<notin> set rest" using b1(2) by (auto simp: pbuf_owned_def dest: spec [of _ MEMP_PBUF_POOL])
  let ?l1 = "nlw (eth_net s1)" and ?bs = "read_bytes (RxBuf c j) len2 (lmem (nlw (eth_net s1)))"
  obtain l1 l2 where a: "pbuf_alloc (net_custom_free F) (alloc_gaps F) PBUF_RAW len2 PBUF_POOL ?l1 = Some (r, l1)" "r \<noteq> 0" "lmem l1 = lmem ?l1"
    "pbuf_take r ?bs l1 = Some (ERR_OK, l2)"
    and f2: "frag_of base ?L1 R r ?bs ?l1 (upd_pbuf r (\<lambda>b. b\<lparr>pbuf_next := 0\<rparr>) l2)"
    using frag_alloc [OF b1(1) al assms(5), of "net_custom_free F" "alloc_gaps F" "RxBuf c j"] by blast
  let ?l2 = "upd_pbuf r (\<lambda>b. b\<lparr>pbuf_next := 0\<rparr>) l2" and ?P = "pbufs (upd_pbuf r (\<lambda>b. b\<lparr>pbuf_next := 0\<rparr>) l2)"
  note F2 = f2 [unfolded frag_of_def]
  have q2: "?P q = pbufs ?l1 q" using F2 qr(1) by blast
  have pq: "packet ?P q [q]" "q \<noteq> 0" "tot_len (?P q) = len1" "pbuf_ref (?P q) = 1" "pbuf_get_allocsrc (?P q) = 2" "\<not> is_custom (?P q)"
    using F1 b1(2) by (simp_all add: packet_def q2 read_bytes_def pbuf_owned_def)
  have pr: "packet ?P r [r]" "tot_len (?P r) = len2" "pbuf_ref (?P r) = 1" "pbuf_get_allocsrc (?P r) = 2" "buf_mem base ?l2 ?L2 R" "r \<notin> set rest"
    using F2 by (auto simp: read_bytes_def pbuf_owned_def dest: spec [of _ MEMP_PBUF_POOL])
  have n: "tot_len (?P q) + tot_len (?P r) < 2 ^ 16" using pq(3) pr(2) assms(4,5) by simp
  let ?J = "joined [q] r ?P"
  have J: "pbuf_cat q r ?l2 = Some (?l2\<lparr>pbufs := ?J\<rparr>)" "packet ?J q ([q] @ [r])" using cat_spec [of ?l2 q "[q]" r "[r]"] pq(1,2) pr(1) a(2) qr(1) n by simp_all
  let ?l3 = "pbuf_reference r (?l2\<lparr>pbufs := ?J\<rparr>)"
  have P3: "pbufs ?l3 = ?J(r := (?J r)\<lparr>pbuf_ref := 2\<rparr>)" using a(2) pr(3) by (simp add: pbuf_reference_def upd_pbuf_def u8_t_def flip: numeral_2_eq_2)
  have pk3: "packet (pbufs ?l3) q [q, r]" using J(2) unfolding P3 by (subst packet_cong [of _ _ ?J]) auto
  let ?s2 = "on_net_lw (\<lambda>_. ?l3) (rx_buf_release c (RxBuf c j) (on_net_lw (\<lambda>_. l1) s1))"
  have s2: "HAL_ETH_RxLinkCallback c F q q (RxBuf c j) len2 s1 = Some (q, r, ?s2)"
    using a J(1) rx_release [OF assms(6,8)] pq(2) by (simp add: HAL_ETH_RxLinkCallback_def Let_def pbuf_chain_def on_net_lw_def on_nlw_def)
  have b3: "buf_mem base ?l3 ?L2 R" using pr(5) by (simp add: buf_mem_def pbuf_reference_def upd_pbuf_def)
  have rf: "pbuf_ref (pbufs ?l3 q) = 1" "pbuf_ref (pbufs ?l3 r) = 2" "pbuf_get_allocsrc (pbufs ?l3 q) = 2" using pq qr(1) unfolding P3 by (simp_all add: pbuf_get_allocsrc_def)
  have g: "gone (pbufs ?l3) [q, r] = [q]" "touched (pbufs ?l3) [q, r] = [q, r]" using rf by simp_all
  have ow: "pbuf_owned ?l3 ?L2 R q" using b1(2) pq qr unfolding pbuf_owned_def P3 by (auto simp: pbuf_get_allocsrc_def is_custom_def split: if_splits)
  have ch: "pchain (pbufs ?l3) q [q, r]" using pk3 by (simp add: packet_def)
  obtain M h where f: "pbuf_free_loop (net_custom_free F) q 0 ?l3 = Some (1, ?l3\<lparr>pools := M, ram_heap := h, pbufs := unref [q, r] (pbufs ?l3)\<rparr>)"
    "buf_mem base (?l3\<lparr>pools := M, ram_heap := h, pbufs := unref [q, r] (pbufs ?l3)\<rparr>) (back_to (pbufs ?l3) [q] ?L2) (heap_left (pbufs ?l3) [q] R)"
    using free_loop_spec [OF ch b3, of 0 "net_custom_free F"] rf ow unfolding g by (auto simp: Let_def u8_t_def simp del: back_to.simps)
  have bk: "back_to (pbufs ?l3) [q] ?L2 = L(MEMP_PBUF_POOL := q # rest)" "heap_left (pbufs ?l3) [q] R = R" using rf(3) by (auto simp: heap_left_def)
  let ?t = "(eth_net ?s2)\<lparr>nlw := ?l3\<lparr>pools := M, ram_heap := h, pbufs := unref [q, r] (pbufs ?l3)\<rparr>\<rparr>"
  have "net_free F q (eth_net ?s2) = Some ?t" using f(1) pq(2) by (simp add: net_free_def pbuf_free_def)
  moreover have "pbuf_ref (pbufs (nlw ?t) r) = 1" using rf(2) by (simp add: unref_def)
  ultimately show ?thesis using s1 s2 pk3 f(2) qr pr(6) unfolding bk by (intro exI [of _ s1] exI [of _ ?s2] exI [of _ ?t]) simp
qed

subsection \<open>Sending a packet\<close>

lemma tx_buffers_chain: "pchain P p qs \<Longrightarrow> tx_buffers k P p = map (\<lambda>q. (payload (P q), pbuf_len (P q))) (take k qs)"
proof (induction k arbitrary: p qs)
  case (Suc k)
  then show ?case by (cases qs) auto
qed simp

text \<open>the driver hands the hardware the first five buffers of a packet in order, whose bytes are the first bytes of the packet, with the
  length of the whole packet: for a packet of at most five buffers that is exactly the packet, for a longer one the regions hold fewer bytes than
  the length says. The result is \<open>ERR_OK\<close> exactly when the transmission succeeded, and the descriptor is released in any case.\<close>

theorem low_level_output_gathers:
  assumes "packet (pbufs (nlw s)) p qs" "p \<noteq> 0"
  shows "\<exists>bufs. low_level_output H n p s =
      (let (ok, t) = HAL_ETH_Transmit H bufs (length (chain_bytes (pbufs (nlw s)) (lmem (nlw s)) qs)) p s in (if ok then ERR_OK else ERR_IF, HAL_ETH_ReleaseTxPacket H t)) \<and>
    length bufs \<le> 5 \<and> concat (map (\<lambda>(a, k). read_bytes a k (lmem (nlw s))) bufs) = chain_bytes (pbufs (nlw s)) (lmem (nlw s)) (take 5 qs) \<and>
    (length qs \<le> 5 \<longrightarrow> concat (map (\<lambda>(a, k). read_bytes a k (lmem (nlw s))) bufs) = chain_bytes (pbufs (nlw s)) (lmem (nlw s)) qs) \<and>
    (\<exists>q \<in> set (drop 5 qs). 0 < pbuf_len (pbufs (nlw s) q)) = (sum_list (map snd bufs) < length (chain_bytes (pbufs (nlw s)) (lmem (nlw s)) qs))"
proof -
  let ?P = "pbufs (nlw s)" and ?bufs = "tx_buffers 5 (pbufs (nlw s)) p"
  have c: "pchain ?P p qs" "tot_len (?P p) = chain_len ?P qs" using assms packet_tot [OF assms] by (auto simp: packet_def)
  have b: "?bufs = map (\<lambda>q. (payload (?P q), pbuf_len (?P q))) (take 5 qs)" by (rule tx_buffers_chain [OF c(1)])
  have e: "concat (map (\<lambda>(a, k). read_bytes a k (lmem (nlw s))) ?bufs) = chain_bytes ?P (lmem (nlw s)) (take 5 qs)"
    unfolding b by (simp add: chain_bytes_def pbuf_bytes_def [abs_def] comp_def)
  have "chain_len ?P qs = chain_len ?P (take 5 qs) + chain_len ?P (drop 5 qs)" using chain_len_simps(3) [of ?P "take 5 qs" "drop 5 qs"] by simp
  moreover have "sum_list (map snd ?bufs) = chain_len ?P (take 5 qs)" unfolding b by (simp add: chain_len_def comp_def)
  moreover have "(\<exists>q \<in> set (drop 5 qs). 0 < pbuf_len (?P q)) = (0 < chain_len ?P (drop 5 qs))"
  proof -
    have "chain_len ?P xs = 0 \<longleftrightarrow> (\<forall>q \<in> set xs. pbuf_len (?P q) = 0)" for xs by (induction xs) auto
    then show ?thesis by (metis gr0I less_numeral_extra(3))
  qed
  ultimately have g: "(\<exists>q \<in> set (drop 5 qs). 0 < pbuf_len (?P q)) = (sum_list (map snd ?bufs) < chain_len ?P qs)" by simp
  have o1: "low_level_output H n p s =
      (let (ok, t) = HAL_ETH_Transmit H ?bufs (length (chain_bytes ?P (lmem (nlw s)) qs)) p s in (if ok then ERR_OK else ERR_IF, HAL_ETH_ReleaseTxPacket H t))"
    by (simp add: low_level_output_def c(2))
  have "length ?bufs \<le> 5" unfolding b by simp
  moreover have "length qs \<le> 5 \<longrightarrow> concat (map (\<lambda>(a, k). read_bytes a k (lmem (nlw s))) ?bufs) = chain_bytes ?P (lmem (nlw s)) qs" unfolding e by simp
  ultimately show ?thesis using o1 e g [folded length_chain [of ?P "lmem (nlw s)" qs]] by (intro exI [of _ ?bufs] conjI)
qed

subsection \<open>A received packet\<close>



subsection \<open>Examples\<close>

definition demo_eth :: "lwip \<Rightarrow> ethif" where
  "demo_eth l = \<lparr>eth_net = \<lparr>nlw = l, netifs = (\<lambda>_. \<lparr>nif_next = 0, nif_ip_addr = 0, nif_netmask = 0, nif_gw = 0, nif_input = None, nif_output = ETHARP_OUTPUT,
       nif_linkoutput = LOW_LEVEL_OUTPUT, nif_state = 0, nif_client_data = [], nif_hostname = 0, nif_mtu = 1500, nif_hwaddr = [2, 0, 0, 0, 0, 1],
       nif_hwaddr_len = 6, nif_flags = NETIF_FLAG_BROADCAST OR NETIF_FLAG_ETHARP, nif_name = ''st'', nif_num = 0\<rparr>),
       netif_list = 5, netif_default = 5, netif_num = 1, arp_table = [], etharp_cached_entry = 0\<rparr>,
     RxBufInUse = [True, True, True, True], ethernetif_rx_count = 0, ethernetif_rx_drop = 0\<rparr>"

lemma demo_eth_simps [simp]: "nlw (eth_net (demo_eth l)) = l" "RxBufInUse (demo_eth l) = [True, True, True, True]" "ethernetif_rx_drop (demo_eth l) = 0"
  by (simp_all add: demo_eth_def)

definition demo_cfg :: eth_cfg where
  "demo_cfg = \<lparr>RX_POOL_SIZE = 4, ETH_MAX_PACKET_SIZE = 1528, RxBuf_base = 100000, MACAddr = [2, 0, 0, 0, 0, 1]\<rparr>"

definition demo_eth_fns :: net_fns where
  "demo_eth_fns = \<lparr>linkoutput_call = \<lambda>_ _ s. (ERR_OK, s), ip4_input_call = \<lambda>_ _ s. s, dhcp_arp_reply_call = \<lambda>_ _ s. s, dhcp_network_changed_call = \<lambda>_ s. s,
     ip_addr_changed_call = \<lambda>_ _ s. s, net_custom_free = \<lambda>_ l. l, alloc_gaps = window id\<rparr>"

lemma demo_eth_pool: "demo_pools MEMP_PBUF_POOL = [40000, 42000]"
  by (simp add: demo_pools_def)

theorem rx_frame_received_witness:
  "\<exists>s'. HAL_ETH_RxLinkCallback demo_cfg demo_eth_fns 0 0 (RxBuf demo_cfg 2) 60 (demo_eth demo_lwip) = Some (40000, 40000, s') \<and> RxBufInUse s' = [True, True, False, True]"
  using rx_frame_received [of 1000 "demo_eth demo_lwip" demo_pools "{}" 60 demo_cfg 2 demo_eth_fns 0] demo_buf_mem(1,3) by (auto simp: demo_eth_pool demo_cfg_def)

theorem second_fragment_leaks_witness:
  "\<exists>s1 s2 t. HAL_ETH_RxLinkCallback demo_cfg demo_eth_fns 0 0 (RxBuf demo_cfg 2) 1500 (demo_eth demo_lwip) = Some (40000, 40000, s1) \<and>
     HAL_ETH_RxLinkCallback demo_cfg demo_eth_fns 40000 40000 (RxBuf demo_cfg 3) 60 s1 = Some (40000, 42000, s2) \<and>
     net_free demo_eth_fns 40000 (eth_net s2) = Some t \<and> buf_mem 1000 (nlw t) (demo_pools(MEMP_PBUF_POOL := [40000])) {} \<and> pbuf_ref (pbufs (nlw t) 42000) = 1"
  using second_fragment_leaks [of 1000 "demo_eth demo_lwip" demo_pools "{}" 40000 42000 "[]" 1500 60 demo_cfg 2 3 demo_eth_fns] demo_buf_mem(1,3)
  by (auto simp: demo_eth_pool demo_cfg_def)

theorem low_level_output_gathers_witness:
  "\<exists>bufs. low_level_output \<lparr>HAL_ETH_ReadData = \<lambda>s. None, HAL_ETH_Transmit = \<lambda>bs k p s. (k = 6, s), HAL_ETH_ReleaseTxPacket = \<lambda>s. s\<rparr> 5 600
       (eth_net (demo_eth demo_pkt)) = (ERR_OK, eth_net (demo_eth demo_pkt)) \<and>
     concat (map (\<lambda>(a, k). read_bytes a k (lmem demo_pkt)) bufs) = chain_bytes (pbufs demo_pkt) (lmem demo_pkt) [600, 44000]"
  using low_level_output_gathers [of "eth_net (demo_eth demo_pkt)" 600 "[600, 44000]"
      "\<lparr>HAL_ETH_ReadData = \<lambda>s. None, HAL_ETH_Transmit = \<lambda>bs k p s. (k = 6, s), HAL_ETH_ReleaseTxPacket = \<lambda>s. s\<rparr>" 5] demo_pkt_packet(1)
  by (auto simp: packet_def demo_pkt_fields)


end
