(* ===== verification/Spec2Isabelle.thy ===== *)
theory Spec2Isabelle
  imports KernelProperties QueueProperties EventGroupProperties StreamProperties TimerProperties Lan8742
    SysArch InetChksum LwipMem PbufRead Memp PbufWrite Timeouts Tcpip
    Ip4Addr Etharp ArpTable Netif EthernetIf
begin

text \<open>
  Verification development of the firmware of an STM32F767 board: the FreeRTOS kernel under \<open>lib/FreeRTOS\<close>, the parts of the network stack
  lwIP under \<open>lib/lwIP\<close> on which the application rests, the port between the two, the Ethernet driver \<open>lib/lwIP/src/port/ethernetif.c\<close> and
  the PHY driver \<open>lib/LAN8742\<close>. The code is modelled in the configuration of \<open>include/FreeRTOSConfig.h\<close> and \<open>lib/lwIP/port/lwipopts.h\<close> for an ILP32 target;
  what the configuration leaves out is not in the model.

  \<^bold>\<open>The parts and how they interact.\<close>
  The scheduler hangs tasks on lists and takes their memory from the kernel heap. Queues, event groups, stream buffers and timers keep
  lists of waiting tasks and call the scheduler to block and to wake them; the timer task is itself a client of a queue. The port of lwIP makes
  mailboxes, semaphores and mutexes from queues. The stack has a heap and pools of its own, from which packets (chains of packet buffers), messages and time-outs come.
  A received frame goes from the receive buffers of the driver into a packet, as a message through the mailbox to the tcpip thread, and there
  through \<open>ethernet_input\<close> to address resolution or to the layer above; a packet that is sent asks address resolution for a hardware address, waits in its table
  or gets its Ethernet header and goes to the driver. Each arrow of this chain is a call of one modelled function by another.

  \<^bold>\<open>Theories and sources.\<close>
  Shared: \<open>Firmware_Prelude\<close> (machine types, constants of the port, lemmas on lists and words), \<open>ByteMemory\<close> (memory as bytes), \<open>BoundedFifo\<close> and \<open>ByteStream\<close>
  (two contracts as locales, with what follows from them for any client).
  Kernel: \<open>RtosList\<close> is \<open>list.c\<close>, on linked memory and as abstract lists; \<open>Heap4\<close> is \<open>heap_4.c\<close>;
  \<open>KernelState\<close>, \<open>Tasks\<close> are \<open>tasks.c\<close> and the parts of \<open>port.c\<close> that change the state of the kernel; \<open>Scheduler\<close> and \<open>KernelSystem\<close> hold the invariant
  and the transition system of all operations, \<open>KernelProperties\<close> the results; \<open>EventLists\<close> is the interface of the scheduler to the components that block tasks;
  \<open>Queue\<close>, \<open>QueueFifo\<close>, \<open>QueueWaiting\<close>, \<open>QueueProperties\<close> are \<open>queue.c\<close>; \<open>EventGroups\<close>, \<open>EventGroupProperties\<close> are \<open>event_groups.c\<close>;
  \<open>StreamBuffer\<close>, \<open>StreamRing\<close>, \<open>StreamCalls\<close>, \<open>StreamProperties\<close> are \<open>stream_buffer.c\<close>; \<open>Timers\<close>, \<open>TimerLists\<close>, \<open>TimerTask\<close>, \<open>TimerProperties\<close> are \<open>timers.c\<close>.
  Network: \<open>SysArch\<close> is \<open>port/sys_arch.c\<close>; \<open>LwipBase\<close>, \<open>LwipDef\<close> are \<open>err.h\<close>, the configuration and \<open>def.c\<close>; \<open>LwipMem\<close> is \<open>mem.c\<close>; \<open>Memp\<close> is \<open>memp.c\<close>;
  \<open>InetChksum\<close> is \<open>inet_chksum.c\<close>; \<open>PbufData\<close>, \<open>Pbuf\<close>, \<open>PbufRead\<close>, \<open>PbufMem\<close>, \<open>PbufAlloc\<close>, \<open>PbufChain\<close>, \<open>PbufWrite\<close> are \<open>pbuf.c\<close>, grouped by what the functions do;
  \<open>Timeouts\<close> is \<open>timeouts.c\<close>; \<open>LwipState\<close>, \<open>Tcpip\<close> are \<open>tcpip.c\<close>; \<open>Ip4Addr\<close> is \<open>ip4_addr.c\<close>; \<open>Etharp\<close> is \<open>etharp.c\<close> and \<open>ethernet.c\<close>, \<open>ArpTable\<close> what its table does;
  \<open>Netif\<close> is \<open>netif.c\<close>; \<open>EthernetIf\<close> is the Ethernet driver; \<open>Lan8742\<close> the PHY driver with its callers in \<open>src/EthernetIF.cpp\<close>.

  \<^bold>\<open>How the code is rendered.\<close>
  A structure is a record, a tagged union a datatype, a pointer a number that is the key of a map from addresses to structures (\<open>0\<close> is \<open>NULL\<close>); a function that reads
  a structure through a pointer reads the map at that address, so that aliasing is the aliasing of the code. Counters whose wrap matters (ticks, milliseconds, time-outs, lock counts, addresses,
  checksums) are words; lengths and indexes are numbers, with the truncation to 8, 16 or 32 bits written out where a value can reach the width. Errors are values.
  The file-scope variables of a module and those it works on form one state record (\<open>kernel\<close>, \<open>qsys\<close>, \<open>tsys\<close>, \<open>lwip\<close>, \<open>tstack\<close>, \<open>net\<close>, \<open>ethif\<close>), each containing the one
  of the layer below.
  A critical section, and a call under a mutex that covers it whole, is one step. A call that can block is split where it yields; what other tasks and interrupts do there is an
  argument of the call (\<open>gaps\<close>, windows, the record \<open>unlocked\<close>), so the properties hold for any interleaving at these points, under the hypothesis each statement names.
  Undefined behaviour of the kernel lists sets \<open>kfault\<close>, which the invariant excludes.

  \<^bold>\<open>Loops.\<close>
  A loop with a structural bound is a recursive function. A loop along pointers, or one that ends only under an invariant, is a partial function with result \<open>None\<close> when it
  does not return, and the properties then state that it returns. A loop of a task that never ends (\<open>tcpip_thread_loop\<close>, the timer task, the idle task) is given a list of rounds.
  A blocking call takes a list of rounds and is \<open>None\<close> while it still waits after them.

  \<^bold>\<open>What the lemmas show.\<close>
  Lists and both heaps: the operations on memory implement operations on abstract lists and tilings (first fit, coalescing, stable sorted insertion).
  Scheduler: a state invariant kept by every operation, hence true in every reachable state; exactness of delays and time-outs across the wrap of the tick counter; what notifications do.
  Queues, mailboxes and stream buffers: each is an interpretation of a contract, so that no history of calls from tasks and interrupts loses, duplicates or reorders an item;
  mutual exclusion of mutexes; no lost wake-up. Event groups and timers: who is woken or called, and when.
  Packets: the functions on chains are functions on the bytes of the chain; allocation and release conserve the pools and the heap. Checksum: equal to the definition of RFC 1071.
  Time-outs: a list ordered by time across the wrap of the clock. The tcpip thread: messages are served in order under the core lock, and refused packets are freed.
  Addresses: printing and parsing are inverse. Address resolution: the table is an interpretation of the contract of a cache; which entry is recycled; how long one lives.
  Interfaces: unique numbers, names and indexes. Driver: frames are copied whole and end in the mailbox or are freed.
  A few properties state a defect of the code: a stale ready bit, a wrapped address, a leaked fragment, a link reported up while it is negotiated.

  \<^bold>\<open>Parameters.\<close>
  The hardware library, MDIO accesses, the callbacks of the application, custom free functions, and the modules of the stack that are not modelled but called by modelled ones
  (the input of IP, the DHCP hooks, the TCP timer, the notice of a changed address) are arguments. Hypotheses about them are definitions named in the statements
  (\<open>link_quiet\<close>, \<open>addr_quiet\<close>, \<open>init_quiet\<close>, \<open>others_ok\<close>), with a concrete instance in each witness.

  \<^bold>\<open>Not modelled.\<close>
  Of lwIP: TCP, UDP, raw, IP input, output and fragmentation, ICMP, IGMP, DHCP, AUTOIP, DNS, the layered connections (\<open>altcp\<close>), the sequential and socket interfaces (\<open>api_lib.c\<close>, \<open>api_msg.c\<close>,
  \<open>netbuf.c\<close>, \<open>sockets.c\<close>, \<open>netifapi.c\<close>, \<open>netdb.c\<close>), statistics and the sanity checks of \<open>init.c\<close>. Of FreeRTOS: the assembly of the port
  (register contexts, the first task, the exception return) and co-routines, which the configuration leaves out. The C++ application (shell, logger, file system, LEDs, TCP server) apart from the two functions
  named above. Time is counted in ticks and milliseconds; cache, DMA and timing of the hardware are not in the model.
\<close>

end
